(* ===== verification/Prelude.thy ===== *)
theory Prelude
  imports Main "HOL-Library.AList" "HOL-Library.Word" "HOL-Library.Sublist"
    "HOL-Library.Char_ord" "HOL-Library.List_Lexorder"
begin

text \<open>
  Shared vocabulary of the development.

  \<^item> Byte slices and strings of the Go sources are both \<^typ>\<open>string\<close>: a \<^typ>\<open>char\<close> is one of
    256 byte values. A nil-able slice is an option.
  \<^item> A Go map is an association list with distinct keys (\<open>gomap\<close>); the list order stands for the
    iteration order, which Go leaves open, so statements never depend on it.
  \<^item> A \<^verbatim>\<open>time.Time\<close> is its Unix nanosecond count, a \<^verbatim>\<open>time.Duration\<close> its nanosecond count; the
    zero time is \<^const>\<open>None\<close>.
  \<^item> Signed 64-bit arithmetic is \<^typ>\<open>int\<close> with the wrap-around written out by \<open>wrap64\<close> at the
    places where a value may leave the range.
\<close>

named_theorems gomap_simps \<open>look-ups after an update of an association-list map\<close>
named_theorems go_string \<open>the string functions of the Go library the sources call\<close>

type_synonym bytes = string
type_synonym nanos = int
type_synonym ('k, 'v) gomap = "('k \<times> 'v) list"

section \<open>Maps\<close>

abbreviation mput :: "'k \<Rightarrow> 'v \<Rightarrow> ('k, 'v) gomap \<Rightarrow> ('k, 'v) gomap" where
  "mput k v m \<equiv> AList.update k v m"

abbreviation mdel :: "'k \<Rightarrow> ('k, 'v) gomap \<Rightarrow> ('k, 'v) gomap" where
  "mdel k m \<equiv> AList.delete k m"

definition mkeys :: "('k, 'v) gomap \<Rightarrow> 'k set" where
  "mkeys m = fst ` set m"

definition map_wf :: "('k, 'v) gomap \<Rightarrow> bool" where
  "map_wf m = distinct (map fst m)"

lemma map_wf_Nil [simp]: "map_wf []"
  by (simp add: map_wf_def)

lemma map_wf_mput [simp]: "map_wf m \<Longrightarrow> map_wf (mput k v m)"
  by (simp add: map_wf_def distinct_update)

lemma map_wf_mdel [simp]: "map_wf m \<Longrightarrow> map_wf (mdel k m)"
  by (simp add: map_wf_def distinct_delete)

lemma map_wf_filter [simp]: "map_wf m \<Longrightarrow> map_wf (filter P m)"
  by (auto simp: map_wf_def distinct_map_filter)

lemma map_of_mput [gomap_simps]: "map_of (mput k v m) j = (if j = k then Some v else map_of m j)"
  by (simp add: update_conv)

lemma map_of_mdel [gomap_simps]: "map_of (mdel k m) j = (if j = k then None else map_of m j)"
  by (simp add: delete_conv)

lemma map_of_filter_kv [gomap_simps]:
  "map_wf m \<Longrightarrow> map_of (filter (\<lambda>kv. P (fst kv) (snd kv)) m) j =
     (case map_of m j of None \<Rightarrow> None | Some v \<Rightarrow> if P j v then Some v else None)"
proof (induction m)
  case Nil
  then show ?case by simp
next
  case (Cons a m)
  obtain k v where a: "a = (k, v)" by (cases a)
  have "map_of m k = None"
    using Cons.prems by (auto simp: map_wf_def a map_of_eq_None_iff)
  with Cons show ?case
    by (auto simp: a map_wf_def split: option.splits)
qed

lemma mkeys_Nil [simp]: "mkeys [] = {}"
  by (simp add: mkeys_def)

lemma mkeys_mput [simp]: "mkeys (mput k v m) = insert k (mkeys m)"
  using dom_update [of k v m] by (simp add: mkeys_def dom_map_of_conv_image_fst)

lemma mkeys_mdel [simp]: "mkeys (mdel k m) = mkeys m - {k}"
  by (force simp: mkeys_def AList.delete_eq image_def)

lemma mkeys_filter: "mkeys (filter P m) \<subseteq> mkeys m"
  by (auto simp: mkeys_def)

lemma mkeys_iff: "k \<in> mkeys m \<longleftrightarrow> (\<exists>v. map_of m k = Some v)"
  by (metis domIff dom_map_of_conv_image_fst mkeys_def not_None_eq)

lemma mkeys_None: "k \<notin> mkeys m \<longleftrightarrow> map_of m k = None"
  by (simp add: mkeys_iff)

lemma map_of_eq_Some_mem: "map_wf m \<Longrightarrow> (map_of m k = Some v) = ((k, v) \<in> set m)"
  by (simp add: map_wf_def)

lemma length_map_wf: "map_wf m \<Longrightarrow> length m = card (mkeys m)"
  by (metis distinct_card length_map map_wf_def set_map mkeys_def)

lemma finite_mkeys [simp]: "finite (mkeys m)"
  by (simp add: mkeys_def)

lemma length_mput:
  "map_wf m \<Longrightarrow> length (mput k v m) = (if k \<in> mkeys m then length m else Suc (length m))"
  by (simp add: length_map_wf insert_absorb)

section \<open>Signed 64-bit arithmetic\<close>

definition minInt64 :: int where "minInt64 = - (2 ^ 63)"
definition maxInt64 :: int where "maxInt64 = 2 ^ 63 - 1"

definition int64 :: "int \<Rightarrow> bool" where
  "int64 i \<longleftrightarrow> minInt64 \<le> i \<and> i \<le> maxInt64"

lemma int64_nonneg: "0 \<le> x \<Longrightarrow> x \<le> 2 ^ 62 \<Longrightarrow> int64 x"
  by (simp add: int64_def minInt64_def maxInt64_def)

definition wrap64 :: "int \<Rightarrow> int" where
  "wrap64 i = (i + 2 ^ 63) mod 2 ^ 64 - 2 ^ 63"

lemma int64_wrap64 [simp]: "int64 (wrap64 i)"
proof -
  have "0 \<le> (i + 2 ^ 63) mod 2 ^ 64" and "(i + 2 ^ 63) mod 2 ^ 64 < 2 ^ 64"
    by simp_all
  then show ?thesis
    by (simp add: int64_def wrap64_def minInt64_def maxInt64_def)
qed

lemma wrap64_id: "int64 i \<Longrightarrow> wrap64 i = i"
  by (simp add: int64_def wrap64_def minInt64_def maxInt64_def)

text \<open>Go's integer division truncates towards zero.\<close>

definition go_div :: "int \<Rightarrow> int \<Rightarrow> int" where
  "go_div a b = sgn a * sgn b * (\<bar>a\<bar> div \<bar>b\<bar>)"

lemma go_div_nonneg: "0 \<le> a \<Longrightarrow> 0 < b \<Longrightarrow> go_div a b = a div b"
  by (cases "a = 0") (auto simp: go_div_def)

section \<open>Numbers as text\<close>

definition digit_char :: "nat \<Rightarrow> char" where
  "digit_char d = char_of (if d < 10 then 48 + d else 87 + d)"

fun fmt_uint :: "nat \<Rightarrow> nat \<Rightarrow> string" where
  "fmt_uint b n =
     (if b < 2 \<or> n < b then [digit_char n] else fmt_uint b (n div b) @ [digit_char (n mod b)])"

declare fmt_uint.simps [simp del]

lemma fmt_uint_small: "n < b \<Longrightarrow> fmt_uint b n = [digit_char n]"
  by (subst fmt_uint.simps) simp

lemma fmt_uint_large: "2 \<le> b \<Longrightarrow> b \<le> n \<Longrightarrow> fmt_uint b n = fmt_uint b (n div b) @ [digit_char (n mod b)]"
  by (subst fmt_uint.simps) simp

definition format_int :: "int \<Rightarrow> string" where
  "format_int i = (if i < 0 then CHR ''-'' # fmt_uint 10 (nat (- i)) else fmt_uint 10 (nat i))"

definition dec_digit :: "char \<Rightarrow> nat option" where
  "dec_digit c =
     (if 48 \<le> (of_char c :: nat) \<and> (of_char c :: nat) \<le> 57 then Some (of_char c - 48) else None)"

fun dec_val :: "nat \<Rightarrow> string \<Rightarrow> nat option" where
  "dec_val a [] = Some a"
| "dec_val a (c # cs) = (case dec_digit c of None \<Rightarrow> None | Some d \<Rightarrow> dec_val (10 * a + d) cs)"

definition parse_int64 :: "string \<Rightarrow> int option" where
  "parse_int64 s =
     (let neg = (s \<noteq> [] \<and> hd s = CHR ''-'');
          ds = (if s \<noteq> [] \<and> (hd s = CHR ''-'' \<or> hd s = CHR ''+'') then tl s else s)
      in if ds = [] then None
         else case dec_val 0 ds of
             None \<Rightarrow> None
           | Some n \<Rightarrow>
               (if neg then (if int n \<le> 2 ^ 63 then Some (- int n) else None)
                else if int n < 2 ^ 63 then Some (int n) else None))"

lemma dec_digit_digit_char [simp]: "d < 10 \<Longrightarrow> dec_digit (digit_char d) = Some d"
  by (simp add: dec_digit_def digit_char_def)

lemma of_char_digit_char: "d < 10 \<Longrightarrow> (of_char (digit_char d) :: nat) = 48 + d"
  by (simp add: digit_char_def)

lemma digit_char_not_sign:
  assumes "d < 10"
  shows "digit_char d \<noteq> CHR ''-''" and "digit_char d \<noteq> CHR ''+''"
proof -
  have "(of_char (digit_char d) :: nat) \<noteq> of_char (CHR ''-'')"
    and "(of_char (digit_char d) :: nat) \<noteq> of_char (CHR ''+'')"
    using assms by (simp_all add: of_char_digit_char)
  then show "digit_char d \<noteq> CHR ''-''" and "digit_char d \<noteq> CHR ''+''"
    by auto
qed

lemma dec_val_append:
  "dec_val a (xs @ ys) = (case dec_val a xs of None \<Rightarrow> None | Some b \<Rightarrow> dec_val b ys)"
  by (induction xs arbitrary: a) (auto split: option.splits)

lemma dec_val_fmt_uint [simp]: "dec_val 0 (fmt_uint 10 n) = Some n"
proof (induction n rule: less_induct)
  case (less n)
  show ?case
  proof (cases "n < 10")
    case True
    then show ?thesis by (subst fmt_uint.simps) simp
  next
    case False
    then have "dec_val 0 (fmt_uint 10 (n div 10)) = Some (n div 10)"
      by (intro less) simp
    with False show ?thesis
      by (subst fmt_uint.simps) (simp add: dec_val_append)
  qed
qed

lemma fmt_uint_nonempty [simp]: "fmt_uint b n \<noteq> []" "[] \<noteq> fmt_uint b n"
  by (subst fmt_uint.simps, simp)+

lemma hd_fmt_uint: "\<exists>d<10. hd (fmt_uint 10 n) = digit_char d"
proof (induction n rule: less_induct)
  case (less n)
  show ?case
  proof (cases "n < 10")
    case True
    then show ?thesis by (subst fmt_uint.simps) auto
  next
    case False
    then have "\<exists>d<10. hd (fmt_uint 10 (n div 10)) = digit_char d"
      by (intro less) simp
    with False show ?thesis
      by (subst fmt_uint.simps) (simp add: hd_append)
  qed
qed

lemma parse_format_int [simp]: "int64 i \<Longrightarrow> parse_int64 (format_int i) = Some i"
proof -
  assume i: "int64 i"
  obtain d where d: "d < 10" "hd (fmt_uint 10 (nat i)) = digit_char d"
    using hd_fmt_uint by blast
  show ?thesis
    using i d digit_char_not_sign [OF d(1)]
    by (auto simp: parse_int64_def format_int_def int64_def minInt64_def maxInt64_def Let_def)
qed

lemma fmt_uint10_inj: "fmt_uint 10 a = fmt_uint 10 b \<Longrightarrow> a = b"
  by (metis dec_val_fmt_uint option.inject)

lemma format_int_inj: "format_int a = format_int b \<Longrightarrow> a = b"
proof -
  assume eq: "format_int a = format_int b"
  have sgn: "(a < 0) = (b < 0)"
    using eq hd_fmt_uint [of "nat a"] hd_fmt_uint [of "nat b"] digit_char_not_sign
    by (auto simp: format_int_def split: if_splits) (metis list.sel(1))+
  with eq show ?thesis
    by (auto simp: format_int_def split: if_splits dest!: fmt_uint10_inj)
qed

section \<open>Strings\<close>

definition hasPrefix :: "string \<Rightarrow> string \<Rightarrow> bool" where
  [go_string]: "hasPrefix s p = prefix p s"

definition hasSuffix :: "string \<Rightarrow> string \<Rightarrow> bool" where
  [go_string]: "hasSuffix s p = suffix p s"

definition cutPrefix :: "string \<Rightarrow> string \<Rightarrow> string option" where
  "cutPrefix s p = (if prefix p s then Some (drop (length p) s) else None)"

definition trimSuffix :: "string \<Rightarrow> string \<Rightarrow> string" where
  "trimSuffix s p = (if suffix p s then take (length s - length p) s else s)"

definition before_byte :: "char \<Rightarrow> string \<Rightarrow> string" where
  "before_byte c s = takeWhile (\<lambda>x. x \<noteq> c) s"

definition ascii_lower :: "char \<Rightarrow> char" where
  "ascii_lower c =
     (if 65 \<le> (of_char c :: nat) \<and> (of_char c :: nat) \<le> 90 then char_of ((of_char c :: nat) + 32) else c)"

definition toLower :: "string \<Rightarrow> string" where
  "toLower s = map ascii_lower s"

lemma ascii_lower_idem [simp]: "ascii_lower (ascii_lower c) = ascii_lower c"
  by (simp add: ascii_lower_def)

lemma toLower_idem [simp]: "toLower (toLower s) = toLower s"
  by (simp add: toLower_def)

definition trim_with :: "(char \<Rightarrow> bool) \<Rightarrow> string \<Rightarrow> string" where
  "trim_with p s = rev (dropWhile p (rev (dropWhile p s)))"

definition is_space :: "char \<Rightarrow> bool" where
  "is_space c \<longleftrightarrow> (of_char c :: nat) \<in> {9, 10, 11, 12, 13, 32}"

definition trimSpace :: "string \<Rightarrow> string" where "trimSpace = trim_with is_space"

text \<open>\<^verbatim>\<open>net.SplitHostPort\<close>: the host, or no value when the address has no well-formed port.\<close>

definition splitHost :: "string \<Rightarrow> string option" where
  "splitHost s =
     (if CHR '':'' \<notin> set s then None
      else let r = takeWhile (\<lambda>c. c \<noteq> CHR '':'') (rev s); i = length s - length r - 1
           in if hd s = CHR ''['' then
                (if CHR '']'' \<notin> set s then None
                 else let e = length (before_byte (CHR '']'') s)
                      in if e + 1 \<noteq> i then None
                         else if CHR ''['' \<in> set (drop 1 s) \<or> CHR '']'' \<in> set (drop (e + 1) s) then None
                         else Some (take (e - 1) (drop 1 s)))
              else let host = take i s
                   in if CHR '':'' \<in> set host then None
                      else if CHR ''['' \<in> set s \<or> CHR '']'' \<in> set s then None
                      else Some host)"

definition ascii_upper :: "char \<Rightarrow> char" where
  "ascii_upper c =
     (if 97 \<le> (of_char c :: nat) \<and> (of_char c :: nat) \<le> 122 then char_of ((of_char c :: nat) - 32) else c)"

definition toUpper :: "string \<Rightarrow> string" where
  "toUpper s = map ascii_upper s"

definition contains_str :: "string \<Rightarrow> string \<Rightarrow> bool" where
  "contains_str s sub = sublist sub s"

text \<open>\<^verbatim>\<open>strings.Split\<close> and \<^verbatim>\<open>strings.Join\<close> at a single byte.\<close>

fun split_on :: "char \<Rightarrow> string \<Rightarrow> string list" where
  "split_on sep [] = [[]]"
| "split_on sep (c # cs) =
     (if c = sep then [] # split_on sep cs else (c # hd (split_on sep cs)) # tl (split_on sep cs))"

fun join_on :: "char \<Rightarrow> string list \<Rightarrow> string" where
  "join_on sep [] = []"
| "join_on sep [x] = x"
| "join_on sep (x # y # ys) = x @ sep # join_on sep (y # ys)"

lemma split_on_nonempty [simp]: "split_on sep s \<noteq> []"
  by (cases s) auto

lemma split_on_append: "sep \<notin> set x \<Longrightarrow> split_on sep (x @ sep # s) = x # split_on sep s"
  by (induction x) auto

lemma split_on_single: "sep \<notin> set x \<Longrightarrow> split_on sep x = [x]"
  by (induction x) auto

lemma split_join:
  "xs \<noteq> [] \<Longrightarrow> (\<And>x. x \<in> set xs \<Longrightarrow> sep \<notin> set x) \<Longrightarrow> split_on sep (join_on sep xs) = xs"
  by (induction sep xs rule: join_on.induct) (auto simp: split_on_append split_on_single)

lemma find_mem: "find P xs = Some x \<Longrightarrow> x \<in> set xs \<and> P x"
  by (auto simp: find_Some_iff)

end
