(* ===== verification/Store_Spec.thy ===== *)
theory Store_Spec
  imports Prelude
begin

text \<open>
  The contract of the shared store (\<^verbatim>\<open>core/store/store.go\<close>): the commit requests and their results,
  the block value codec, the exponential block backoff, the interface as a record of operations
  (\<open>store_ops\<close>, one field per method, the clock reading of the call made explicit), and the abstract
  specification of every operation as a result plus a list of effects on the live view of the
  store. The locale \<open>ttl_store\<close> is the promise a backend makes to its clients.
\<close>

section \<open>Data of the interface\<close>

record kv =
  kv_Key :: string
  kv_Value :: bytes
  kv_ExpiresAt :: "nanos option"

record block_commit =
  bc_BlockKey :: string
  bc_ExpectedBlock :: "bytes option"
  bc_NewBlock :: bytes
  bc_BaseTTL :: nanos
  bc_MaxTTL :: nanos
  bc_CounterKey :: string
  bc_CounterTTL :: nanos
  bc_HoldKey :: string
  bc_GuardKey :: string
  bc_GuardValue :: "bytes option"

datatype block_refusal = RefusalNone | RefusalHold | RefusalGeneration | RefusalBlock

record block_commit_result =
  bcr_Committed :: bool
  bcr_Offenses :: int
  bcr_TTL :: nanos
  bcr_Refusal :: block_refusal

record event_commit =
  ec_CounterKey :: string
  ec_CounterTTL :: nanos
  ec_HoldKey :: string

record event_commit_result =
  ecr_Committed :: bool
  ecr_Value :: int

record unblock_commit =
  uc_HoldKey :: string
  uc_HoldValue :: bytes
  uc_HoldTTL :: nanos
  uc_GenerationKey :: string
  uc_Generation :: bytes
  uc_GenerationTTL :: nanos
  uc_BlockKey :: string
  uc_CounterKey :: string
  uc_ResetBackoff :: bool

datatype store_error =
    ErrParseInt
  | ErrNotBlockKey string
  | ErrCapabilityUnsupported
  | ErrPostureVote int nanos
  | ErrBackend string

fun block_refusal_String :: "block_refusal \<Rightarrow> string" where
  "block_refusal_String RefusalNone = ''none''"
| "block_refusal_String RefusalHold = ''unblock_in_flight''"
| "block_refusal_String RefusalGeneration = ''unblock_completed''"
| "block_refusal_String RefusalBlock = ''newer_block''"

section \<open>Block values\<close>

definition blockValueSep :: char where
  "blockValueSep = CHR 0x00"

text \<open>The random owner token of a block value is an argument: the 64 bits the code draws.\<close>

definition BlockValue :: "string \<Rightarrow> 64 word \<Rightarrow> bytes" where
  "BlockValue reason owner = reason @ [blockValueSep] @ fmt_uint 16 (unat owner)"

definition BlockReason :: "bytes \<Rightarrow> string" where
  "BlockReason v = before_byte blockValueSep v"

section \<open>Exponential backoff\<close>

definition second :: nanos where "second = 10 ^ 9"
definition minute :: nanos where "minute = 60 * 10 ^ 9"
definition hour :: nanos where "hour = 60 * minute"

definition defaultBlockBaseTTL :: nanos where "defaultBlockBaseTTL = minute"
definition defaultBlockMaxTTL :: nanos where "defaultBlockMaxTTL = 30 * 24 * hour"

definition BackoffBounds :: "nanos \<Rightarrow> nanos \<Rightarrow> nanos \<times> nanos" where
  "BackoffBounds base cap =
     (if base \<le> 0 then defaultBlockBaseTTL else base, if cap \<le> 0 then defaultBlockMaxTTL else cap)"

text \<open>The doubling is signed 64-bit and may wrap; the guard before it is what rules that out.\<close>

function backoff_loop :: "nanos \<Rightarrow> int \<Rightarrow> int \<Rightarrow> nanos \<Rightarrow> nanos" where
  "backoff_loop cap offenses n ttl =
     (if n < offenses \<and> ttl < cap
      then (if ttl > go_div cap 2 then cap else backoff_loop cap offenses (n + 1) (wrap64 (ttl * 2)))
      else if ttl > cap \<or> ttl \<le> 0 then cap else ttl)"
  by pat_completeness auto
termination
  by (relation "measure (\<lambda>(cap, offenses, n, ttl). nat (offenses - n))") auto

declare backoff_loop.simps [simp del]

definition blockBackoffTTL :: "nanos \<Rightarrow> nanos \<Rightarrow> int \<Rightarrow> nanos" where
  "blockBackoffTTL base0 cap0 offenses =
     (let (base, cap) = BackoffBounds base0 cap0 in backoff_loop cap offenses 1 base)"

definition counterValue :: "bytes \<Rightarrow> int" where
  "counterValue v = (case parse_int64 v of None \<Rightarrow> 0 | Some n \<Rightarrow> if n < 0 then 0 else n)"

section \<open>Entries, expiry and effects\<close>

record entry =
  e_value :: bytes
  e_expiresAt :: "nanos option"

definition entry_expired :: "entry \<Rightarrow> nanos \<Rightarrow> bool" where
  "entry_expired e now = (case e_expiresAt e of None \<Rightarrow> False | Some t \<Rightarrow> now > t)"

definition expiry :: "nanos \<Rightarrow> nanos \<Rightarrow> nanos option" where
  "expiry now ttl = (if ttl \<le> 0 then None else Some (now + ttl))"

definition unexpired :: "nanos \<Rightarrow> entry \<Rightarrow> entry option" where
  "unexpired t e = (if entry_expired e t then None else Some e)"

text \<open>A live view gives the unexpired entry of every key; an effect writes or removes one key.\<close>

type_synonym view = "string \<Rightarrow> entry option"

datatype effect = Put string entry | Del string

fun apply_effect :: "nanos \<Rightarrow> effect \<Rightarrow> view \<Rightarrow> view" where
  "apply_effect t (Put k e) v = v(k := unexpired t e)"
| "apply_effect t (Del k) v = v(k := None)"

fun apply_effects :: "nanos \<Rightarrow> effect list \<Rightarrow> view \<Rightarrow> view" where
  "apply_effects t [] v = v"
| "apply_effects t (x # xs) v = apply_effects t xs (apply_effect t x v)"

fun effect_key :: "effect \<Rightarrow> string" where
  "effect_key (Put k e) = k"
| "effect_key (Del k) = k"

section \<open>The abstract operations\<close>

definition isCentral :: "string \<Rightarrow> bool" where
  "isCentral key = hasPrefix key ''block:''"

definition spec_Get :: "string \<Rightarrow> view \<Rightarrow> (store_error + bytes option) \<times> effect list" where
  "spec_Get k v = (Inr (map_option e_value (v k)), [])"

definition spec_Set :: "nanos \<Rightarrow> string \<Rightarrow> bytes \<Rightarrow> nanos \<Rightarrow> (store_error + unit) \<times> effect list" where
  "spec_Set now k x ttl = (Inr (), [Put k \<lparr>e_value = x, e_expiresAt = expiry now ttl\<rparr>])"

definition spec_Delete :: "string \<Rightarrow> (store_error + unit) \<times> effect list" where
  "spec_Delete k = (Inr (), [Del k])"

definition spec_IncrByDeadline ::
  "nanos \<Rightarrow> string \<Rightarrow> int \<Rightarrow> int \<Rightarrow> view \<Rightarrow> (store_error + int \<times> bool) \<times> effect list" where
  "spec_IncrByDeadline now k delta deadline v =
     (if deadline \<noteq> 0 \<and> now \<ge> deadline
      then (case v k of
              None \<Rightarrow> (Inr (0, False), [])
            | Some e \<Rightarrow> (case parse_int64 (e_value e) of
                           None \<Rightarrow> (Inl ErrParseInt, []) | Some n \<Rightarrow> (Inr (n, False), [])))
      else (case v k of
              None \<Rightarrow> (Inr (delta, True),
                [Put k \<lparr>e_value = format_int delta,
                        e_expiresAt = (if deadline \<noteq> 0 then Some deadline else None)\<rparr>])
            | Some e \<Rightarrow> (case parse_int64 (e_value e) of
                  None \<Rightarrow> (Inl ErrParseInt, [])
                | Some n \<Rightarrow> (Inr (wrap64 (n + delta), True),
                    [Put k (e\<lparr>e_value := format_int (wrap64 (n + delta))\<rparr>)]))))"

definition spec_CompareAndSwap ::
  "nanos \<Rightarrow> string \<Rightarrow> bytes option \<Rightarrow> bytes \<Rightarrow> nanos \<Rightarrow> view \<Rightarrow> (store_error + bool) \<times> effect list" where
  "spec_CompareAndSwap now k old new ttl v =
     (if map_option e_value (v k) = old
      then (Inr True, [Put k \<lparr>e_value = new, e_expiresAt = expiry now ttl\<rparr>])
      else (Inr False, []))"

definition spec_CompareAndDelete ::
  "string \<Rightarrow> bytes option \<Rightarrow> view \<Rightarrow> (store_error + bool) \<times> effect list" where
  "spec_CompareAndDelete k old v =
     (if old \<noteq> None \<and> map_option e_value (v k) = old then (Inr True, [Del k]) else (Inr False, []))"

definition refused :: "block_refusal \<Rightarrow> block_commit_result" where
  "refused r = \<lparr>bcr_Committed = False, bcr_Offenses = 0, bcr_TTL = 0, bcr_Refusal = r\<rparr>"

text \<open>
  The offense count is the live counter plus one, in the order the code applies the comparisons:
  hold, guard (the unblock generation), previous block.
\<close>

definition spec_offenses :: "string \<Rightarrow> view \<Rightarrow> int" where
  "spec_offenses k v =
     (case v k of None \<Rightarrow> 1 | Some e \<Rightarrow> wrap64 (counterValue (e_value e) + 1))"

definition spec_CommitBlock ::
  "nanos \<Rightarrow> block_commit \<Rightarrow> view \<Rightarrow> (store_error + block_commit_result) \<times> effect list" where
  "spec_CommitBlock now c v =
     (if \<not> isCentral (bc_BlockKey c) then (Inl (ErrNotBlockKey (bc_BlockKey c)), [])
      else if v (bc_HoldKey c) \<noteq> None then (Inr (refused RefusalHold), [])
      else if map_option e_value (v (bc_GuardKey c)) \<noteq> bc_GuardValue c
      then (Inr (refused RefusalGeneration), [])
      else if map_option e_value (v (bc_BlockKey c)) \<noteq> bc_ExpectedBlock c
      then (Inr (refused RefusalBlock), [])
      else
        let offenses = spec_offenses (bc_CounterKey c) v;
            cexp = (case v (bc_CounterKey c) of
                      None \<Rightarrow> expiry now (bc_CounterTTL c) | Some e \<Rightarrow> e_expiresAt e);
            ttl = blockBackoffTTL (bc_BaseTTL c) (bc_MaxTTL c) offenses
        in (Inr \<lparr>bcr_Committed = True, bcr_Offenses = offenses, bcr_TTL = ttl, bcr_Refusal = RefusalNone\<rparr>,
            [Put (bc_CounterKey c) \<lparr>e_value = format_int offenses, e_expiresAt = cexp\<rparr>,
             Put (bc_BlockKey c) \<lparr>e_value = bc_NewBlock c, e_expiresAt = expiry now ttl\<rparr>]))"

definition spec_CommitEvent ::
  "nanos \<Rightarrow> event_commit \<Rightarrow> view \<Rightarrow> (store_error + event_commit_result) \<times> effect list" where
  "spec_CommitEvent now c v =
     (if v (ec_HoldKey c) \<noteq> None then (Inr \<lparr>ecr_Committed = False, ecr_Value = 0\<rparr>, [])
      else
        (let deadline = (if ec_CounterTTL c > 0 then now + ec_CounterTTL c else 0)
         in case spec_IncrByDeadline now (ec_CounterKey c) 1 deadline v of
              (Inl err, effs) \<Rightarrow> (Inl err, effs)
            | (Inr (value, applied), effs) \<Rightarrow> (Inr \<lparr>ecr_Committed = applied, ecr_Value = value\<rparr>, effs)))"

definition spec_CommitUnblock ::
  "nanos \<Rightarrow> unblock_commit \<Rightarrow> (store_error + unit) \<times> effect list" where
  "spec_CommitUnblock now c =
     (if \<not> isCentral (uc_BlockKey c) then (Inl (ErrNotBlockKey (uc_BlockKey c)), [])
      else (Inr (),
        [Put (uc_HoldKey c) \<lparr>e_value = uc_HoldValue c, e_expiresAt = expiry now (uc_HoldTTL c)\<rparr>,
         Put (uc_GenerationKey c)
           \<lparr>e_value = uc_Generation c, e_expiresAt = expiry now (uc_GenerationTTL c)\<rparr>,
         Del (uc_BlockKey c)]
        @ (if uc_ResetBackoff c then [Del (uc_CounterKey c)] else [])))"

section \<open>The interface\<close>

record 's store_ops =
  st_Get :: "nanos \<Rightarrow> string \<Rightarrow> 's \<Rightarrow> (store_error + bytes option) \<times> 's"
  st_Set :: "nanos \<Rightarrow> string \<Rightarrow> bytes \<Rightarrow> nanos \<Rightarrow> 's \<Rightarrow> (store_error + unit) \<times> 's"
  st_Delete :: "nanos \<Rightarrow> string \<Rightarrow> 's \<Rightarrow> (store_error + unit) \<times> 's"
  st_IncrByDeadline :: "nanos \<Rightarrow> string \<Rightarrow> int \<Rightarrow> int \<Rightarrow> 's \<Rightarrow> (store_error + int \<times> bool) \<times> 's"
  st_CompareAndSwap ::
    "nanos \<Rightarrow> string \<Rightarrow> bytes option \<Rightarrow> bytes \<Rightarrow> nanos \<Rightarrow> 's \<Rightarrow> (store_error + bool) \<times> 's"
  st_CompareAndDelete :: "nanos \<Rightarrow> string \<Rightarrow> bytes option \<Rightarrow> 's \<Rightarrow> (store_error + bool) \<times> 's"
  st_CommitBlock :: "nanos \<Rightarrow> block_commit \<Rightarrow> 's \<Rightarrow> (store_error + block_commit_result) \<times> 's"
  st_CommitEvent :: "nanos \<Rightarrow> event_commit \<Rightarrow> 's \<Rightarrow> (store_error + event_commit_result) \<times> 's"
  st_CommitUnblock :: "nanos \<Rightarrow> unblock_commit \<Rightarrow> 's \<Rightarrow> (store_error + unit) \<times> 's"

text \<open>
  The keys a commit touches beside the block key are outside the \<open>block:\<close> namespace: the callers
  build them with other prefixes, and the backends rely on it.
\<close>

definition block_commit_wf :: "block_commit \<Rightarrow> bool" where
  "block_commit_wf c \<longleftrightarrow>
     \<not> isCentral (bc_HoldKey c) \<and> \<not> isCentral (bc_GuardKey c) \<and> \<not> isCentral (bc_CounterKey c)"

definition event_commit_wf :: "event_commit \<Rightarrow> bool" where
  "event_commit_wf c \<longleftrightarrow> \<not> isCentral (ec_HoldKey c) \<and> \<not> isCentral (ec_CounterKey c)"

definition unblock_commit_wf :: "unblock_commit \<Rightarrow> bool" where
  "unblock_commit_wf c \<longleftrightarrow>
     \<not> isCentral (uc_HoldKey c) \<and> \<not> isCentral (uc_GenerationKey c) \<and> \<not> isCentral (uc_CounterKey c)"

definition refines ::
  "('s \<Rightarrow> nanos \<Rightarrow> view) \<Rightarrow> ('s \<Rightarrow> bool) \<Rightarrow> nanos \<Rightarrow> 's \<Rightarrow> 'r \<times> 's \<Rightarrow> 'r \<times> effect list \<Rightarrow> bool" where
  "refines live ok now s impl spec \<longleftrightarrow>
     fst impl = fst spec \<and> ok (snd impl) \<and>
     (\<forall>t\<ge>now. live (snd impl) t = apply_effects t (snd spec) (live s t))"

section \<open>Facts about the codec and the backoff\<close>

lemma digit_char_not_sep: "d < 16 \<Longrightarrow> digit_char d \<noteq> blockValueSep"
proof
  assume d: "d < 16" "digit_char d = blockValueSep"
  have "(of_char (digit_char d) :: nat) \<ge> 48" using d(1) by (simp add: digit_char_def)
  moreover have "(of_char blockValueSep :: nat) = 0" by (simp add: blockValueSep_def)
  ultimately show False using d(2) by simp
qed

lemma digit_char_inj: "d < 16 \<Longrightarrow> e < 16 \<Longrightarrow> digit_char d = digit_char e \<Longrightarrow> d = e"
proof -
  assume a: "d < 16" "e < 16" "digit_char d = digit_char e"
  have "(of_char (digit_char d) :: nat) = of_char (digit_char e)" using a by simp
  with a(1,2) show ?thesis by (auto simp: digit_char_def split: if_splits)
qed

lemma fmt_uint16_inj: "fmt_uint 16 a = fmt_uint 16 b \<Longrightarrow> a = b"
proof (induction a arbitrary: b rule: less_induct)
  case (less a)
  note eq = less.prems
  consider "a < 16" "b < 16" | "a < 16" "16 \<le> b" | "16 \<le> a" "b < 16" | "16 \<le> a" "16 \<le> b"
    by linarith
  then show ?case
  proof cases
    case 1
    with eq show ?thesis by (auto simp: fmt_uint_small dest: digit_char_inj)
  next
    case 2
    with eq show ?thesis by (simp add: fmt_uint_small fmt_uint_large)
  next
    case 3
    with eq show ?thesis by (simp add: fmt_uint_small fmt_uint_large)
  next
    case 4
    with eq have "fmt_uint 16 (a div 16) = fmt_uint 16 (b div 16)"
        and m: "digit_char (a mod 16) = digit_char (b mod 16)"
      by (simp_all add: fmt_uint_large)
    then have "a div 16 = b div 16" using 4 less.IH by simp
    moreover have "a mod 16 = b mod 16" using m by (intro digit_char_inj) simp_all
    ultimately show ?thesis by (metis div_mod_decomp)
  qed
qed

lemma BlockReason_BlockValue:
  "blockValueSep \<notin> set reason \<Longrightarrow> BlockReason (BlockValue reason owner) = reason"
  unfolding BlockReason_def BlockValue_def before_byte_def
  by (subst takeWhile_append2) auto

lemma BlockValue_owner_inj:
  "BlockValue reason a = BlockValue reason b \<Longrightarrow> a = b"
  by (auto simp: BlockValue_def word_unat_eq_iff dest!: fmt_uint16_inj)

lemma BackoffBounds_pos: "BackoffBounds b c = (base, cap) \<Longrightarrow> 0 < base \<and> 0 < cap"
  by (auto simp: BackoffBounds_def defaultBlockBaseTTL_def defaultBlockMaxTTL_def minute_def hour_def
      split: if_splits)

lemma BackoffBounds_int64:
  "BackoffBounds b c = (base, cap) \<Longrightarrow> int64 b \<Longrightarrow> int64 c \<Longrightarrow> int64 base \<and> int64 cap"
  by (auto simp: BackoffBounds_def defaultBlockBaseTTL_def defaultBlockMaxTTL_def minute_def hour_def
      int64_def minInt64_def maxInt64_def split: if_splits)

text \<open>The loop computes the capped power, without the doubling ever leaving the 64-bit range.\<close>

lemma backoff_loop_closed:
  assumes "0 < ttl" "0 < cap" "int64 cap" "int64 ttl"
  shows "backoff_loop cap offenses n ttl = min (ttl * 2 ^ nat (offenses - n)) cap"
  using assms
proof (induction cap offenses n ttl rule: backoff_loop.induct)
  case (1 cap offenses n ttl)
  show ?case
  proof (cases "n < offenses \<and> ttl < cap")
    case False
    then consider "offenses \<le> n" | "n < offenses" "cap \<le> ttl" by linarith
    then show ?thesis
    proof cases
      case 1
      then show ?thesis
        using "1.prems" False by (subst backoff_loop.simps) (auto simp: min_def)
    next
      case 2
      have "1 * ttl \<le> 2 ^ nat (offenses - n) * ttl"
        using "1.prems"(1) by (intro mult_right_mono) simp_all
      then have "cap \<le> ttl * 2 ^ nat (offenses - n)" using 2 by (simp add: mult.commute)
      moreover have "backoff_loop cap offenses n ttl = cap"
        using 2 "1.prems" by (subst backoff_loop.simps) auto
      ultimately show ?thesis by simp
    qed
  next
    case True
    have half: "go_div cap 2 = cap div 2" using "1.prems"(2) by (simp add: go_div_nonneg)
    have step: "(2::int) ^ nat (offenses - n) = 2 * 2 ^ nat (offenses - (n + 1))"
      using True by (simp flip: power_Suc add: Suc_nat_eq_nat_zadd1)
    show ?thesis
    proof (cases "ttl > go_div cap 2")
      case big: True
      have "2 * ttl \<le> ttl * 2 ^ nat (offenses - n)"
        unfolding step using "1.prems"(1) by simp
      then have "cap \<le> ttl * 2 ^ nat (offenses - n)" using big half by linarith
      then show ?thesis using True big by (subst backoff_loop.simps) simp
    next
      case small: False
      then have le: "ttl * 2 \<le> cap" using half by linarith
      then have w: "wrap64 (ttl * 2) = ttl * 2"
        using "1.prems" by (intro wrap64_id) (auto simp: int64_def)
      have "backoff_loop cap offenses (n + 1) (ttl * 2) = min (ttl * 2 * 2 ^ nat (offenses - (n + 1))) cap"
        using "1.IH" [OF True small] "1.prems" w le by (auto simp: int64_def)
      then show ?thesis
        using True small w step by (subst backoff_loop.simps) (simp add: mult.assoc)
    qed
  qed
qed

lemma blockBackoffTTL_closed:
  assumes "int64 base" "int64 cap" "BackoffBounds base cap = (b, c)"
  shows "blockBackoffTTL base cap offenses = min (b * 2 ^ nat (offenses - 1)) c"
  using backoff_loop_closed BackoffBounds_pos [OF assms(3)] BackoffBounds_int64 [OF assms(3) assms(1,2)]
    assms(3)
  by (simp add: blockBackoffTTL_def)

lemma blockBackoffTTL_bounds:
  assumes "int64 base" "int64 cap"
  shows "0 < blockBackoffTTL base cap offenses \<and> blockBackoffTTL base cap offenses \<le> snd (BackoffBounds base cap)"
proof -
  obtain b c where bc: "BackoffBounds base cap = (b, c)" by fastforce
  then show ?thesis
    using blockBackoffTTL_closed [OF assms bc] BackoffBounds_pos [OF bc] by (auto simp: min_def)
qed

section \<open>Facts about views\<close>

lemma apply_effects_append [simp]:
  "apply_effects t (xs @ ys) v = apply_effects t ys (apply_effects t xs v)"
  by (induction xs arbitrary: v) auto

lemma apply_effects_other: "k \<notin> effect_key ` set effs \<Longrightarrow> apply_effects t effs v k = v k"
proof (induction effs arbitrary: v)
  case (Cons x xs)
  then show ?case by (cases x) auto
qed simp

lemma unexpired_expiry [simp]:
  "unexpired t \<lparr>e_value = x, e_expiresAt = expiry now ttl\<rparr> =
     (if ttl \<le> 0 \<or> t \<le> now + ttl then Some \<lparr>e_value = x, e_expiresAt = expiry now ttl\<rparr> else None)"
  by (auto simp: unexpired_def entry_expired_def expiry_def)

lemma entry_expired_mono: "entry_expired e t \<Longrightarrow> t \<le> t' \<Longrightarrow> entry_expired e t'"
  by (auto simp: entry_expired_def split: option.splits)

lemma counterValue_nonneg [simp]: "0 \<le> counterValue v"
  by (auto simp: counterValue_def split: option.splits)

section \<open>The promise of a backend\<close>

locale ttl_store =
  fixes ops :: "'s store_ops"
    and live :: "'s \<Rightarrow> nanos \<Rightarrow> view"
    and ok :: "'s \<Rightarrow> bool"
  assumes live_antimono: "ok s \<Longrightarrow> t \<le> t' \<Longrightarrow> live s t' k = Some e \<Longrightarrow> live s t k = Some e"
    and live_decay: "ok s \<Longrightarrow> t \<le> t' \<Longrightarrow> live s t k = Some e \<Longrightarrow> live s t' k = unexpired t' e"
    and get: "ok s \<Longrightarrow> refines live ok now s (st_Get ops now k s) (spec_Get k (live s now))"
    and set_value: "ok s \<Longrightarrow> refines live ok now s (st_Set ops now k x ttl s) (spec_Set now k x ttl)"
    and del: "ok s \<Longrightarrow> refines live ok now s (st_Delete ops now k s) (spec_Delete k)"
    and incr: "ok s \<Longrightarrow> refines live ok now s (st_IncrByDeadline ops now k d dl s)
                 (spec_IncrByDeadline now k d dl (live s now))"
    and cas: "ok s \<Longrightarrow> refines live ok now s (st_CompareAndSwap ops now k old x ttl s)
                 (spec_CompareAndSwap now k old x ttl (live s now))"
    and cad: "ok s \<Longrightarrow> refines live ok now s (st_CompareAndDelete ops now k old s)
                 (spec_CompareAndDelete k old (live s now))"
    and commit_block: "ok s \<Longrightarrow> block_commit_wf bc \<Longrightarrow>
                 refines live ok now s (st_CommitBlock ops now bc s) (spec_CommitBlock now bc (live s now))"
    and commit_event: "ok s \<Longrightarrow> event_commit_wf ec \<Longrightarrow>
                 refines live ok now s (st_CommitEvent ops now ec s) (spec_CommitEvent now ec (live s now))"
    and commit_unblock: "ok s \<Longrightarrow> unblock_commit_wf uc \<Longrightarrow>
                 refines live ok now s (st_CommitUnblock ops now uc s) (spec_CommitUnblock now uc)"

section \<open>Traces of calls\<close>

text \<open>
  A client's history is a sequence of timed calls, interleaved with sweeps of expired entries. The
  reference store is one plain map from keys to entries: no shards, no deletion on read, no sweep.
\<close>

datatype store_call =
    CallGet string
  | CallSet string bytes nanos
  | CallDelete string
  | CallIncrByDeadline string int int
  | CallCompareAndSwap string "bytes option" bytes nanos
  | CallCompareAndDelete string "bytes option"
  | CallCommitBlock block_commit
  | CallCommitEvent event_commit
  | CallCommitUnblock unblock_commit
  | CallSweep

datatype store_reply =
    ReplyValue "store_error + bytes option"
  | ReplyUnit "store_error + unit"
  | ReplyCount "store_error + int \<times> bool"
  | ReplyBool "store_error + bool"
  | ReplyBlock "store_error + block_commit_result"
  | ReplyEvent "store_error + event_commit_result"

fun call_wf :: "store_call \<Rightarrow> bool" where
  "call_wf (CallCommitBlock c) = block_commit_wf c"
| "call_wf (CallCommitEvent c) = event_commit_wf c"
| "call_wf (CallCommitUnblock c) = unblock_commit_wf c"
| "call_wf _ = True"

fun exec_call ::
  "'s store_ops \<Rightarrow> (nanos \<Rightarrow> 's \<Rightarrow> 's) \<Rightarrow> nanos \<Rightarrow> store_call \<Rightarrow> 's \<Rightarrow> store_reply \<times> 's" where
  "exec_call ops sweep now (CallGet k) s = map_prod ReplyValue id (st_Get ops now k s)"
| "exec_call ops sweep now (CallSet k x ttl) s = map_prod ReplyUnit id (st_Set ops now k x ttl s)"
| "exec_call ops sweep now (CallDelete k) s = map_prod ReplyUnit id (st_Delete ops now k s)"
| "exec_call ops sweep now (CallIncrByDeadline k d dl) s =
     map_prod ReplyCount id (st_IncrByDeadline ops now k d dl s)"
| "exec_call ops sweep now (CallCompareAndSwap k old x ttl) s =
     map_prod ReplyBool id (st_CompareAndSwap ops now k old x ttl s)"
| "exec_call ops sweep now (CallCompareAndDelete k old) s =
     map_prod ReplyBool id (st_CompareAndDelete ops now k old s)"
| "exec_call ops sweep now (CallCommitBlock c) s = map_prod ReplyBlock id (st_CommitBlock ops now c s)"
| "exec_call ops sweep now (CallCommitEvent c) s = map_prod ReplyEvent id (st_CommitEvent ops now c s)"
| "exec_call ops sweep now (CallCommitUnblock c) s = map_prod ReplyUnit id (st_CommitUnblock ops now c s)"
| "exec_call ops sweep now CallSweep s = (ReplyUnit (Inr ()), sweep now s)"

fun spec_call :: "nanos \<Rightarrow> store_call \<Rightarrow> view \<Rightarrow> store_reply \<times> effect list" where
  "spec_call now (CallGet k) v = map_prod ReplyValue id (spec_Get k v)"
| "spec_call now (CallSet k x ttl) v = map_prod ReplyUnit id (spec_Set now k x ttl)"
| "spec_call now (CallDelete k) v = map_prod ReplyUnit id (spec_Delete k)"
| "spec_call now (CallIncrByDeadline k d dl) v = map_prod ReplyCount id (spec_IncrByDeadline now k d dl v)"
| "spec_call now (CallCompareAndSwap k old x ttl) v =
     map_prod ReplyBool id (spec_CompareAndSwap now k old x ttl v)"
| "spec_call now (CallCompareAndDelete k old) v = map_prod ReplyBool id (spec_CompareAndDelete k old v)"
| "spec_call now (CallCommitBlock c) v = map_prod ReplyBlock id (spec_CommitBlock now c v)"
| "spec_call now (CallCommitEvent c) v = map_prod ReplyEvent id (spec_CommitEvent now c v)"
| "spec_call now (CallCommitUnblock c) v = map_prod ReplyUnit id (spec_CommitUnblock now c)"
| "spec_call now CallSweep v = (ReplyUnit (Inr ()), [])"

definition alive :: "(string \<rightharpoonup> entry) \<Rightarrow> nanos \<Rightarrow> view" where
  "alive m t k = Option.bind (m k) (unexpired t)"

fun write_effect :: "effect \<Rightarrow> (string \<rightharpoonup> entry) \<Rightarrow> (string \<rightharpoonup> entry)" where
  "write_effect (Put k e) m = m(k \<mapsto> e)"
| "write_effect (Del k) m = m(k := None)"

definition write_effects :: "effect list \<Rightarrow> (string \<rightharpoonup> entry) \<Rightarrow> (string \<rightharpoonup> entry)" where
  "write_effects = fold write_effect"

fun exec_trace ::
  "'s store_ops \<Rightarrow> (nanos \<Rightarrow> 's \<Rightarrow> 's) \<Rightarrow> (nanos \<times> store_call) list \<Rightarrow> 's \<Rightarrow> store_reply list \<times> 's" where
  "exec_trace ops sweep [] s = ([], s)"
| "exec_trace ops sweep ((now, c) # cs) s =
     (let (r, s') = exec_call ops sweep now c s; (rs, s'') = exec_trace ops sweep cs s' in (r # rs, s''))"

fun spec_trace :: "(nanos \<times> store_call) list \<Rightarrow> (string \<rightharpoonup> entry) \<Rightarrow> store_reply list \<times> (string \<rightharpoonup> entry)" where
  "spec_trace [] m = ([], m)"
| "spec_trace ((now, c) # cs) m =
     (let (r, effs) = spec_call now c (alive m now); (rs, m') = spec_trace cs (write_effects effs m)
      in (r # rs, m'))"

text \<open>The clock never goes back along a trace.\<close>

definition trace_wf :: "nanos \<Rightarrow> (nanos \<times> store_call) list \<Rightarrow> bool" where
  "trace_wf t0 cs \<longleftrightarrow> sorted (t0 # map fst cs) \<and> list_all (call_wf \<circ> snd) cs"

lemma alive_write_effects: "alive (write_effects effs m) t = apply_effects t effs (alive m t)"
proof (induction effs arbitrary: m)
  case (Cons x xs)
  then show ?case by (cases x) (auto simp: write_effects_def alive_def fun_eq_iff intro!: arg_cong [where f = "\<lambda>v. apply_effects t xs v _"])
qed (simp add: write_effects_def)

lemma refines_map_prod:
  "refines live ok now s impl spec \<Longrightarrow> refines live ok now s (map_prod f id impl) (map_prod f id spec)"
  by (cases impl; cases spec) (simp add: refines_def)

lemma incr_effects: "snd (spec_IncrByDeadline now k d dl v) = [] \<or> (\<exists>e. snd (spec_IncrByDeadline now k d dl v) = [Put k e])"
  by (auto simp: spec_IncrByDeadline_def split: option.splits)

lemma event_effects: "snd (spec_CommitEvent now c v) = [] \<or> (\<exists>e. snd (spec_CommitEvent now c v) = [Put (ec_CounterKey c) e])"
  using incr_effects [of now "ec_CounterKey c" 1 "if ec_CounterTTL c > 0 then now + ec_CounterTTL c else 0" v]
  by (auto simp: spec_CommitEvent_def Let_def split: prod.splits sum.splits)

definition same_live :: "('s \<Rightarrow> nanos \<Rightarrow> view) \<Rightarrow> nanos \<Rightarrow> 's \<Rightarrow> 's \<Rightarrow> bool" where
  "same_live live now s s' \<longleftrightarrow> (\<forall>t \<ge> now. live s' t = live s t)"

context ttl_store
begin

lemma get_eq:
  assumes "ok s" "st_Get ops now k s = (r, s')"
  shows "r = Inr (map_option e_value (live s now k))" "ok s'" "same_live live now s s'"
  using get [OF assms(1), of now k] assms(2) by (simp_all add: refines_def spec_Get_def same_live_def)

end

locale swept_store = ttl_store ops live ok
  for ops :: "'s store_ops" and live :: "'s \<Rightarrow> nanos \<Rightarrow> view" and ok :: "'s \<Rightarrow> bool" +
  fixes sweep :: "nanos \<Rightarrow> 's \<Rightarrow> 's"
  assumes sweep_ok: "ok s \<Longrightarrow> ok (sweep now s)"
    and sweep_live: "ok s \<Longrightarrow> now \<le> t \<Longrightarrow> live (sweep now s) t = live s t"
begin

lemma call_refines:
  "ok s \<Longrightarrow> call_wf c \<Longrightarrow> refines live ok now s (exec_call ops sweep now c s) (spec_call now c (live s now))"
  by (cases c)
    (simp_all add: refines_map_prod get set_value del incr cas cad commit_block commit_event commit_unblock
      refines_def [of live ok now s "(ReplyUnit (Inr ()), sweep now s)"] sweep_ok sweep_live)

lemma trace_refines:
  assumes "ok s" "trace_wf t0 cs" "\<And>t. t0 \<le> t \<Longrightarrow> live s t = alive m t"
    and "exec_trace ops sweep cs s = (rs, s')" "spec_trace cs m = (rs', m')"
  shows "rs = rs' \<and> ok s' \<and> (\<forall>t \<ge> last (t0 # map fst cs). live s' t = alive m' t)"
  using assms
proof (induction cs arbitrary: s m t0 rs rs' s' m')
  case Nil
  then show ?case by simp
next
  case (Cons c cs)
  obtain now call where c: "c = (now, call)" by fastforce
  obtain r s1 where e: "exec_call ops sweep now call s = (r, s1)" by fastforce
  obtain r' effs where sp: "spec_call now call (alive m now) = (r', effs)" by fastforce
  have le: "t0 \<le> now" and wf: "call_wf call" "trace_wf now cs"
    using Cons.prems(2) by (auto simp: c trace_wf_def)
  have "refines live ok now s (r, s1) (r', effs)"
    using call_refines [OF Cons.prems(1) wf(1), of now] Cons.prems(3) [OF le] e sp by simp
  then have step: "r = r'" "ok s1" "\<And>t. now \<le> t \<Longrightarrow> live s1 t = alive (write_effects effs m) t"
    using Cons.prems(3) le by (auto simp: refines_def alive_write_effects)
  obtain rs1 s2 where et: "exec_trace ops sweep cs s1 = (rs1, s2)" by fastforce
  obtain rs1' m2 where st: "spec_trace cs (write_effects effs m) = (rs1', m2)" by fastforce
  show ?case
    using Cons.IH [OF step(2) wf(2) step(3) et st] step(1) Cons.prems(4,5)
    by (auto simp: c e sp et st)
qed

end

end
