(* ===== verification/Sharded_Memory.thy ===== *)
theory Sharded_Memory
  imports Store_Spec
begin

unbundle bit_operations_syntax

text \<open>
  The in-process backend (\<^verbatim>\<open>core/store/sharded_memory.go\<close>): a power-of-two number of shards picked by
  an FNV-1a hash, and a central struct for the \<open>block:\<close> namespace, its active-block index and the
  posture votes. Every method holds its locks for its whole body, so each is one atomic step; one
  clock reading \<open>now\<close> serves a whole call. The theory ends with the interpretation of \<open>ttl_store\<close>:
  sharding, lazy expiry and the janitor are invisible to a client.
\<close>

section \<open>State\<close>

record posture_vote =
  pv_level :: int
  pv_expiresAt :: nanos

record shard_central =
  c_m :: "(string, entry) gomap"
  c_activeBlocks :: "string list"
  c_postureVotes :: "(string, posture_vote) gomap"

record sharded_memory =
  sm_shards :: "(string, entry) gomap list"
  sm_mask :: "32 word"
  sm_central :: shard_central

section \<open>Construction and routing\<close>

definition defaultShards :: int where "defaultShards = 256"

partial_function (option) pow2_loop :: "int \<Rightarrow> int \<Rightarrow> int option" where
  "pow2_loop n p = (if p < n then pow2_loop n (wrap64 (p * 2)) else Some p)"

definition nextPow2 :: "int \<Rightarrow> int option" where
  "nextPow2 n = pow2_loop (if n \<le> 0 then defaultShards else n) 1"

definition NewShardedMemory :: "int \<Rightarrow> sharded_memory option" where
  "NewShardedMemory shards =
     (case nextPow2 shards of
        None \<Rightarrow> None
      | Some n \<Rightarrow> Some \<lparr>sm_shards = replicate (nat n) [], sm_mask = word_of_int (n - 1),
                       sm_central = \<lparr>c_m = [], c_activeBlocks = [], c_postureVotes = []\<rparr>\<rparr>)"

definition fnv1a32 :: "string \<Rightarrow> 32 word" where
  "fnv1a32 s = fold (\<lambda>b h. (h XOR of_char b) * 16777619) s 2166136261"

definition shardIdx :: "sharded_memory \<Rightarrow> string \<Rightarrow> nat" where
  "shardIdx s key = unat (fnv1a32 key AND sm_mask s)"

definition shardFor :: "sharded_memory \<Rightarrow> string \<Rightarrow> (string, entry) gomap" where
  "shardFor s key = sm_shards s ! shardIdx s key"

definition putShard :: "sharded_memory \<Rightarrow> string \<Rightarrow> (string, entry) gomap \<Rightarrow> sharded_memory" where
  "putShard s key m = s\<lparr>sm_shards := (sm_shards s)[shardIdx s key := m]\<rparr>"

text \<open>The order in which the multi-key commits take shard locks, after the central one.\<close>

definition lockShardKeys :: "sharded_memory \<Rightarrow> string list \<Rightarrow> nat list" where
  "lockShardKeys s keys = remdups_adj (sort (map (shardIdx s) (filter (\<lambda>k. \<not> isCentral k) keys)))"

definition commitEventLocks :: "sharded_memory \<Rightarrow> event_commit \<Rightarrow> nat list" where
  "commitEventLocks s c =
     (let h = shardIdx s (ec_HoldKey c); n = shardIdx s (ec_CounterKey c)
      in if h = n then [h] else if h > n then [n, h] else [h, n])"

section \<open>Reading with lazy expiry\<close>

definition getShard :: "nanos \<Rightarrow> (string, entry) gomap \<Rightarrow> string \<Rightarrow> entry option \<times> (string, entry) gomap" where
  "getShard now m key =
     (case map_of m key of
        None \<Rightarrow> (None, mdel key m)
      | Some e \<Rightarrow> if entry_expired e now then (None, mdel key m) else (Some e, m))"

definition dropCentral :: "string \<Rightarrow> shard_central \<Rightarrow> shard_central" where
  "dropCentral key c =
     c\<lparr>c_m := mdel key (c_m c), c_activeBlocks := removeAll key (c_activeBlocks c)\<rparr>"

definition getCentral :: "nanos \<Rightarrow> shard_central \<Rightarrow> string \<Rightarrow> entry option \<times> shard_central" where
  "getCentral now c key =
     (case map_of (c_m c) key of
        None \<Rightarrow> (None, dropCentral key c)
      | Some e \<Rightarrow> if entry_expired e now then (None, dropCentral key c) else (Some e, c))"

definition shard_get :: "nanos \<Rightarrow> string \<Rightarrow> sharded_memory \<Rightarrow> entry option \<times> sharded_memory" where
  "shard_get now key s = (let (r, m) = getShard now (shardFor s key) key in (r, putShard s key m))"

definition central_get :: "nanos \<Rightarrow> string \<Rightarrow> sharded_memory \<Rightarrow> entry option \<times> sharded_memory" where
  "central_get now key s = (let (r, c) = getCentral now (sm_central s) key in (r, s\<lparr>sm_central := c\<rparr>))"

definition sm_get :: "nanos \<Rightarrow> string \<Rightarrow> sharded_memory \<Rightarrow> entry option \<times> sharded_memory" where
  "sm_get now key s = (if isCentral key then central_get now key s else shard_get now key s)"

definition shard_put :: "string \<Rightarrow> entry \<Rightarrow> sharded_memory \<Rightarrow> sharded_memory" where
  "shard_put key e s = putShard s key (mput key e (shardFor s key))"

definition shard_del :: "string \<Rightarrow> sharded_memory \<Rightarrow> sharded_memory" where
  "shard_del key s = putShard s key (mdel key (shardFor s key))"

definition indexBlock :: "string \<Rightarrow> shard_central \<Rightarrow> shard_central" where
  "indexBlock key c = c\<lparr>c_activeBlocks := List.insert key (c_activeBlocks c)\<rparr>"

text \<open>A write of a central key that leaves the active-block index alone (the increment path).\<close>

definition raw_put :: "string \<Rightarrow> entry \<Rightarrow> sharded_memory \<Rightarrow> sharded_memory" where
  "raw_put key e s =
     (if isCentral key
      then s\<lparr>sm_central := (sm_central s)\<lparr>c_m := mput key e (c_m (sm_central s))\<rparr>\<rparr>
      else shard_put key e s)"

text \<open>A block write: the value and the index entry.\<close>

definition sm_put :: "string \<Rightarrow> entry \<Rightarrow> sharded_memory \<Rightarrow> sharded_memory" where
  "sm_put key e s =
     (let s' = raw_put key e s
      in if isCentral key \<and> hasPrefix key ''block:''
         then s'\<lparr>sm_central := indexBlock key (sm_central s')\<rparr> else s')"

definition sm_del :: "string \<Rightarrow> sharded_memory \<Rightarrow> sharded_memory" where
  "sm_del key s =
     (if isCentral key then s\<lparr>sm_central := dropCentral key (sm_central s)\<rparr> else shard_del key s)"

section \<open>The Store methods\<close>

definition sm_Get :: "nanos \<Rightarrow> string \<Rightarrow> sharded_memory \<Rightarrow> (store_error + bytes option) \<times> sharded_memory" where
  "sm_Get now key s = (let (e, s') = sm_get now key s in (Inr (map_option e_value e), s'))"

definition sm_GetWithExpiry ::
  "nanos \<Rightarrow> string \<Rightarrow> sharded_memory \<Rightarrow> (store_error + kv option) \<times> sharded_memory" where
  "sm_GetWithExpiry now key s =
     (let (e, s') = sm_get now key s
      in (Inr (map_option
            (\<lambda>e. \<lparr>kv_Key = key, kv_Value = e_value e, kv_ExpiresAt = e_expiresAt e\<rparr>) e), s'))"

definition sm_ExpiresAt :: "nanos \<Rightarrow> string \<Rightarrow> sharded_memory \<Rightarrow> nanos option option \<times> sharded_memory" where
  "sm_ExpiresAt now key s = (let (e, s') = sm_get now key s in (map_option e_expiresAt e, s'))"

definition sm_Set ::
  "nanos \<Rightarrow> string \<Rightarrow> bytes \<Rightarrow> nanos \<Rightarrow> sharded_memory \<Rightarrow> (store_error + unit) \<times> sharded_memory" where
  "sm_Set now key value ttl s =
     (Inr (), sm_put key \<lparr>e_value = value, e_expiresAt = expiry now ttl\<rparr> s)"

definition sm_Delete :: "nanos \<Rightarrow> string \<Rightarrow> sharded_memory \<Rightarrow> (store_error + unit) \<times> sharded_memory" where
  "sm_Delete now key s = (Inr (), sm_del key s)"

text \<open>The shared increment body, over the getter and the map write of its caller.\<close>

definition incrByDeadline ::
  "(nanos \<Rightarrow> string \<Rightarrow> sharded_memory \<Rightarrow> entry option \<times> sharded_memory) \<Rightarrow>
   (string \<Rightarrow> entry \<Rightarrow> sharded_memory \<Rightarrow> sharded_memory) \<Rightarrow>
   nanos \<Rightarrow> string \<Rightarrow> int \<Rightarrow> int \<Rightarrow> sharded_memory \<Rightarrow> (store_error + int \<times> bool) \<times> sharded_memory" where
  "incrByDeadline get put now key delta deadline s =
     (let (r, s') = get now key s
      in if deadline \<noteq> 0 \<and> now \<ge> deadline
         then (case r of
                 None \<Rightarrow> (Inr (0, False), s')
               | Some e \<Rightarrow> (case parse_int64 (e_value e) of
                              None \<Rightarrow> (Inl ErrParseInt, s') | Some n \<Rightarrow> (Inr (n, False), s')))
         else (case r of
                 None \<Rightarrow> (Inr (delta, True),
                   put key \<lparr>e_value = format_int delta,
                            e_expiresAt = (if deadline \<noteq> 0 then Some deadline else None)\<rparr> s')
               | Some e \<Rightarrow> (case parse_int64 (e_value e) of
                     None \<Rightarrow> (Inl ErrParseInt, s')
                   | Some n \<Rightarrow> (Inr (wrap64 (n + delta), True),
                       put key (e\<lparr>e_value := format_int (wrap64 (n + delta))\<rparr>) s'))))"

definition sm_IncrByDeadline ::
  "nanos \<Rightarrow> string \<Rightarrow> int \<Rightarrow> int \<Rightarrow> sharded_memory \<Rightarrow> (store_error + int \<times> bool) \<times> sharded_memory" where
  "sm_IncrByDeadline now key delta deadline s = incrByDeadline sm_get raw_put now key delta deadline s"

definition sm_IncrBy ::
  "nanos \<Rightarrow> string \<Rightarrow> int \<Rightarrow> nanos \<Rightarrow> sharded_memory \<Rightarrow> (store_error + int) \<times> sharded_memory" where
  "sm_IncrBy now key delta ttl s =
     (let deadline = (if ttl > 0 then now + ttl else 0)
      in case sm_IncrByDeadline now key delta deadline s of
           (Inl e, s') \<Rightarrow> (Inl e, s') | (Inr (n, _), s') \<Rightarrow> (Inr n, s'))"

definition sm_Incr :: "nanos \<Rightarrow> string \<Rightarrow> nanos \<Rightarrow> sharded_memory \<Rightarrow> (store_error + int) \<times> sharded_memory" where
  "sm_Incr now key ttl s = sm_IncrBy now key 1 ttl s"

text \<open>The comparison every conditional write makes: a nil expectation requires absence.\<close>

definition mismatch :: "bytes option \<Rightarrow> entry option \<Rightarrow> bool" where
  "mismatch old cur =
     (case old of
        None \<Rightarrow> cur \<noteq> None
      | Some v \<Rightarrow> (case cur of None \<Rightarrow> True | Some e \<Rightarrow> e_value e \<noteq> v))"

definition sm_CompareAndSwap ::
  "nanos \<Rightarrow> string \<Rightarrow> bytes option \<Rightarrow> bytes \<Rightarrow> nanos \<Rightarrow> sharded_memory \<Rightarrow> (store_error + bool) \<times> sharded_memory" where
  "sm_CompareAndSwap now key old new ttl s =
     (let (cur, s') = sm_get now key s
      in if mismatch old cur then (Inr False, s')
         else (Inr True, sm_put key \<lparr>e_value = new, e_expiresAt = expiry now ttl\<rparr> s'))"

definition sm_CompareAndDelete ::
  "nanos \<Rightarrow> string \<Rightarrow> bytes option \<Rightarrow> sharded_memory \<Rightarrow> (store_error + bool) \<times> sharded_memory" where
  "sm_CompareAndDelete now key old s =
     (if old = None then (Inr False, s)
      else let (cur, s') = sm_get now key s
           in if mismatch old cur then (Inr False, s') else (Inr True, sm_del key s'))"

definition sm_CommitBlock ::
  "nanos \<Rightarrow> block_commit \<Rightarrow> sharded_memory \<Rightarrow> (store_error + block_commit_result) \<times> sharded_memory" where
  "sm_CommitBlock now c s =
     (if \<not> isCentral (bc_BlockKey c) then (Inl (ErrNotBlockKey (bc_BlockKey c)), s)
      else
        let (held, s1) = shard_get now (bc_HoldKey c) s
        in if held \<noteq> None then (Inr (refused RefusalHold), s1)
        else
          let (guard, s2) = shard_get now (bc_GuardKey c) s1
          in if mismatch (bc_GuardValue c) guard then (Inr (refused RefusalGeneration), s2)
          else
            let (cur, s3) = central_get now (bc_BlockKey c) s2
            in if mismatch (bc_ExpectedBlock c) cur then (Inr (refused RefusalBlock), s3)
            else
              let (ctr, s4) = shard_get now (bc_CounterKey c) s3;
                  offenses = (case ctr of None \<Rightarrow> 1 | Some e \<Rightarrow> wrap64 (counterValue (e_value e) + 1));
                  counterExpiry =
                    (case ctr of None \<Rightarrow> expiry now (bc_CounterTTL c) | Some e \<Rightarrow> e_expiresAt e);
                  ttl = blockBackoffTTL (bc_BaseTTL c) (bc_MaxTTL c) offenses;
                  s5 = shard_put (bc_CounterKey c)
                         \<lparr>e_value = format_int offenses, e_expiresAt = counterExpiry\<rparr> s4;
                  s6 = sm_put (bc_BlockKey c) \<lparr>e_value = bc_NewBlock c, e_expiresAt = expiry now ttl\<rparr> s5
              in (Inr \<lparr>bcr_Committed = True, bcr_Offenses = offenses, bcr_TTL = ttl,
                       bcr_Refusal = RefusalNone\<rparr>, s6))"

definition sm_CommitEvent ::
  "nanos \<Rightarrow> event_commit \<Rightarrow> sharded_memory \<Rightarrow> (store_error + event_commit_result) \<times> sharded_memory" where
  "sm_CommitEvent now c s =
     (let (held, s1) = shard_get now (ec_HoldKey c) s
      in if held \<noteq> None then (Inr \<lparr>ecr_Committed = False, ecr_Value = 0\<rparr>, s1)
      else
        let deadline = (if ec_CounterTTL c > 0 then now + ec_CounterTTL c else 0)
        in case incrByDeadline shard_get shard_put now (ec_CounterKey c) 1 deadline s1 of
             (Inl err, s2) \<Rightarrow> (Inl err, s2)
           | (Inr (value, applied), s2) \<Rightarrow> (Inr \<lparr>ecr_Committed = applied, ecr_Value = value\<rparr>, s2))"

definition sm_CommitUnblock ::
  "nanos \<Rightarrow> unblock_commit \<Rightarrow> sharded_memory \<Rightarrow> (store_error + unit) \<times> sharded_memory" where
  "sm_CommitUnblock now c s =
     (if \<not> isCentral (uc_BlockKey c) then (Inl (ErrNotBlockKey (uc_BlockKey c)), s)
      else
        let s1 = shard_put (uc_HoldKey c)
                   \<lparr>e_value = uc_HoldValue c, e_expiresAt = expiry now (uc_HoldTTL c)\<rparr> s;
            s2 = shard_put (uc_GenerationKey c)
                   \<lparr>e_value = uc_Generation c, e_expiresAt = expiry now (uc_GenerationTTL c)\<rparr> s1;
            s3 = sm_del (uc_BlockKey c) s2
        in (Inr (), if uc_ResetBackoff c then shard_del (uc_CounterKey c) s3 else s3))"

section \<open>Scans, the janitor and posture votes\<close>

definition entry_kv :: "string \<times> entry \<Rightarrow> kv" where
  "entry_kv p = \<lparr>kv_Key = fst p, kv_Value = e_value (snd p), kv_ExpiresAt = e_expiresAt (snd p)\<rparr>"

definition gather :: "nanos \<Rightarrow> string \<Rightarrow> (string, entry) gomap \<Rightarrow> kv list" where
  "gather now pre m =
     map entry_kv (filter (\<lambda>p. hasPrefix (fst p) pre \<and> \<not> entry_expired (snd p) now) m)"

definition sm_ScanLimit :: "nanos \<Rightarrow> string \<Rightarrow> int \<Rightarrow> sharded_memory \<Rightarrow> kv list \<times> bool" where
  "sm_ScanLimit now pre limit s =
     (let out = sort_key kv_Key
                  (concat (map (gather now pre) (sm_shards s)) @ gather now pre (c_m (sm_central s)))
      in if limit > 0 \<and> int (length out) > limit then (take (nat limit) out, False) else (out, True))"

definition sm_Scan :: "nanos \<Rightarrow> string \<Rightarrow> sharded_memory \<Rightarrow> kv list" where
  "sm_Scan now pre s = fst (sm_ScanLimit now pre 0 s)"

fun scanActive :: "nanos \<Rightarrow> int \<Rightarrow> string list \<Rightarrow> shard_central \<Rightarrow> kv list \<Rightarrow> (kv list \<times> bool) \<times> shard_central" where
  "scanActive now limit [] c out = ((out, True), c)"
| "scanActive now limit (key # keys) c out =
     (case map_of (c_m c) key of
        None \<Rightarrow> scanActive now limit keys (dropCentral key c) out
      | Some e \<Rightarrow>
          (if entry_expired e now then scanActive now limit keys (dropCentral key c) out
           else let out' = out @ [entry_kv (key, e)]
                in if limit > 0 \<and> int (length out') > limit
                   then ((take (nat limit) out', False), c)
                   else scanActive now limit keys c out'))"

definition sm_ScanActiveBlocks ::
  "nanos \<Rightarrow> string \<Rightarrow> int \<Rightarrow> sharded_memory \<Rightarrow> (store_error + kv list \<times> bool) \<times> sharded_memory" where
  "sm_ScanActiveBlocks now pre limit s =
     (if pre \<noteq> ''block:'' then (Inl ErrCapabilityUnsupported, s)
      else case scanActive now limit (c_activeBlocks (sm_central s)) (sm_central s) [] of
             ((out, complete), c) \<Rightarrow> (Inr (sort_key kv_Key out, complete), s\<lparr>sm_central := c\<rparr>))"

definition vote_expired :: "posture_vote \<Rightarrow> nanos \<Rightarrow> bool" where
  "vote_expired v now = (now > pv_expiresAt v)"

definition janitor_sweep :: "nanos \<Rightarrow> sharded_memory \<Rightarrow> sharded_memory" where
  "janitor_sweep now s =
     (let keep = filter (\<lambda>p. \<not> entry_expired (snd p) now);
          c = sm_central s;
          dead = (\<lambda>k. case map_of (c_m c) k of None \<Rightarrow> False | Some e \<Rightarrow> entry_expired e now)
      in s\<lparr>sm_shards := map keep (sm_shards s),
           sm_central := c\<lparr>c_m := keep (c_m c),
                          c_activeBlocks := filter (\<lambda>k. \<not> dead k) (c_activeBlocks c),
                          c_postureVotes := filter (\<lambda>p. \<not> vote_expired (snd p) now) (c_postureVotes c)\<rparr>\<rparr>)"

definition sm_SetPostureVote ::
  "nanos \<Rightarrow> string \<Rightarrow> int \<Rightarrow> nanos \<Rightarrow> sharded_memory \<Rightarrow> (store_error + unit) \<times> sharded_memory" where
  "sm_SetPostureVote now inst level ttl s =
     (if level < 1 \<or> level > 2 \<or> ttl \<le> 0 then (Inl (ErrPostureVote level ttl), s)
      else (Inr (), s\<lparr>sm_central := (sm_central s)
        \<lparr>c_postureVotes := mput inst \<lparr>pv_level = level, pv_expiresAt = now + ttl\<rparr>
                             (c_postureVotes (sm_central s))\<rparr>\<rparr>))"

definition sm_DeletePostureVote ::
  "nanos \<Rightarrow> string \<Rightarrow> sharded_memory \<Rightarrow> (store_error + unit) \<times> sharded_memory" where
  "sm_DeletePostureVote now inst s =
     (Inr (), s\<lparr>sm_central := (sm_central s)
        \<lparr>c_postureVotes := mdel inst (c_postureVotes (sm_central s))\<rparr>\<rparr>)"

definition sm_MaxPostureVote ::
  "nanos \<Rightarrow> string \<Rightarrow> sharded_memory \<Rightarrow> (store_error + int) \<times> sharded_memory" where
  "sm_MaxPostureVote now exclude s =
     (let votes = filter (\<lambda>p. \<not> vote_expired (snd p) now) (c_postureVotes (sm_central s))
      in (Inr (fold (\<lambda>p m. if fst p \<noteq> exclude \<and> pv_level (snd p) > m then pv_level (snd p) else m) votes 0),
          s\<lparr>sm_central := (sm_central s)\<lparr>c_postureVotes := votes\<rparr>\<rparr>))"

definition sm_ops :: "sharded_memory store_ops" where
  "sm_ops = \<lparr>st_Get = sm_Get, st_Set = sm_Set, st_Delete = sm_Delete,
     st_IncrByDeadline = sm_IncrByDeadline, st_CompareAndSwap = sm_CompareAndSwap,
     st_CompareAndDelete = sm_CompareAndDelete, st_CommitBlock = sm_CommitBlock,
     st_CommitEvent = sm_CommitEvent, st_CommitUnblock = sm_CommitUnblock\<rparr>"

section \<open>The live view and the representation invariant\<close>

definition sm_lookup :: "sharded_memory \<Rightarrow> string \<Rightarrow> entry option" where
  "sm_lookup s k = (if isCentral k then map_of (c_m (sm_central s)) k else map_of (shardFor s k) k)"

definition sm_live :: "sharded_memory \<Rightarrow> nanos \<Rightarrow> view" where
  "sm_live s t k = Option.bind (sm_lookup s k) (unexpired t)"

definition sm_ok :: "sharded_memory \<Rightarrow> bool" where
  "sm_ok s \<longleftrightarrow>
     length (sm_shards s) = Suc (unat (sm_mask s)) \<and>
     (\<forall>i < length (sm_shards s). map_wf (sm_shards s ! i) \<and>
        (\<forall>k \<in> mkeys (sm_shards s ! i). \<not> isCentral k \<and> shardIdx s k = i)) \<and>
     map_wf (c_m (sm_central s)) \<and> (\<forall>k \<in> mkeys (c_m (sm_central s)). isCentral k) \<and>
     distinct (c_activeBlocks (sm_central s)) \<and>
     set (c_activeBlocks (sm_central s)) \<subseteq> mkeys (c_m (sm_central s)) \<and>
     map_wf (c_postureVotes (sm_central s))"

text \<open>The active-block index is complete: the central map holds no unindexed key.\<close>

definition index_complete :: "sharded_memory \<Rightarrow> bool" where
  "index_complete s \<longleftrightarrow> mkeys (c_m (sm_central s)) \<subseteq> set (c_activeBlocks (sm_central s))"

section \<open>Primitive writes and reads\<close>

lemma shardIdx_putShard [simp]: "shardIdx (putShard s j m) k = shardIdx s k"
  by (simp add: shardIdx_def putShard_def)

lemma shardIdx_central [simp]: "shardIdx (s\<lparr>sm_central := c\<rparr>) k = shardIdx s k"
  by (simp add: shardIdx_def)

lemma shardIdx_less: "sm_ok s \<Longrightarrow> shardIdx s k < length (sm_shards s)"
proof -
  assume "sm_ok s"
  moreover have "unat (fnv1a32 k AND sm_mask s) \<le> unat (sm_mask s)"
    by (simp add: word_and_le1 flip: word_le_nat_alt)
  ultimately show ?thesis by (simp add: sm_ok_def shardIdx_def)
qed

lemma putShard_fields [simp]:
  "sm_mask (putShard s k m) = sm_mask s" "sm_central (putShard s k m) = sm_central s"
  "length (sm_shards (putShard s k m)) = length (sm_shards s)"
  by (simp_all add: putShard_def)

lemma sm_shards_putShard: "sm_shards (putShard s k m) = (sm_shards s)[shardIdx s k := m]"
  by (simp add: putShard_def)

lemma shardFor_putShard:
  "sm_ok s \<Longrightarrow> shardFor (putShard s k m) j = (if shardIdx s j = shardIdx s k then m else shardFor s j)"
  using shardIdx_less [of s k] by (simp add: shardFor_def) (simp add: putShard_def)

lemma sm_ok_shardFor:
  "sm_ok s \<Longrightarrow> map_wf (shardFor s k) \<and>
     (\<forall>j \<in> mkeys (shardFor s k). \<not> isCentral j \<and> shardIdx s j = shardIdx s k)"
  using shardIdx_less [of s k] by (simp add: sm_ok_def shardFor_def)

lemma sm_ok_putShard:
  assumes "sm_ok s" "\<not> isCentral k" "map_wf m" "mkeys m \<subseteq> insert k (mkeys (shardFor s k))"
  shows "sm_ok (putShard s k m)"
proof -
  have "\<forall>j \<in> mkeys m. \<not> isCentral j \<and> shardIdx s j = shardIdx s k"
    using assms(2,4) sm_ok_shardFor [OF assms(1), of k] by blast
  then show ?thesis
    using assms(1,3) shardIdx_less [OF assms(1), of k] unfolding sm_ok_def
    by (clarsimp simp: sm_shards_putShard nth_list_update split: if_splits)
qed

lemma sm_lookup_putShard:
  assumes "sm_ok s" "\<not> isCentral k" "\<And>j. j \<noteq> k \<Longrightarrow> map_of m j = map_of (shardFor s k) j"
  shows "sm_lookup (putShard s k m) = (sm_lookup s)(k := map_of m k)"
proof
  fix j
  show "sm_lookup (putShard s k m) j = ((sm_lookup s)(k := map_of m k)) j"
    using assms(2,3) shardFor_putShard [OF assms(1), of k m j]
    by (auto simp: sm_lookup_def) (simp_all add: shardFor_def split: if_splits)
qed

lemma shard_put_ok: "sm_ok s \<Longrightarrow> \<not> isCentral k \<Longrightarrow> sm_ok (shard_put k e s)"
  using sm_ok_shardFor [of s k] by (auto simp: shard_put_def intro!: sm_ok_putShard)

lemma shard_put_lookup:
  "sm_ok s \<Longrightarrow> \<not> isCentral k \<Longrightarrow> sm_lookup (shard_put k e s) = (sm_lookup s)(k \<mapsto> e)"
  by (simp add: shard_put_def sm_lookup_putShard gomap_simps)

lemma shard_del_ok: "sm_ok s \<Longrightarrow> \<not> isCentral k \<Longrightarrow> sm_ok (shard_del k s)"
  using sm_ok_shardFor [of s k] by (auto simp: shard_del_def intro!: sm_ok_putShard)

lemma shard_del_lookup:
  "sm_ok s \<Longrightarrow> \<not> isCentral k \<Longrightarrow> sm_lookup (shard_del k s) = (sm_lookup s)(k := None)"
  by (simp add: shard_del_def sm_lookup_putShard gomap_simps)

lemma central_update_ok:
  assumes "sm_ok s" "map_wf (c_m c)" "\<forall>j \<in> mkeys (c_m c). isCentral j" "distinct (c_activeBlocks c)"
    and "set (c_activeBlocks c) \<subseteq> mkeys (c_m c)" "map_wf (c_postureVotes c)"
  shows "sm_ok (s\<lparr>sm_central := c\<rparr>)"
  using assms by (simp add: sm_ok_def shardIdx_def)

lemma central_update_lookup:
  "sm_lookup (s\<lparr>sm_central := c\<rparr>) j = (if isCentral j then map_of (c_m c) j else sm_lookup s j)"
  by (simp add: sm_lookup_def shardFor_def)

lemma sm_ok_central:
  "sm_ok s \<Longrightarrow> map_wf (c_m (sm_central s)) \<and> (\<forall>j \<in> mkeys (c_m (sm_central s)). isCentral j) \<and>
     distinct (c_activeBlocks (sm_central s)) \<and>
     set (c_activeBlocks (sm_central s)) \<subseteq> mkeys (c_m (sm_central s)) \<and>
     map_wf (c_postureVotes (sm_central s))"
  by (simp add: sm_ok_def)

lemma raw_put_ok: "sm_ok s \<Longrightarrow> sm_ok (raw_put k e s)"
  using shard_put_ok [of s k e] sm_ok_central [of s] unfolding raw_put_def
  by (auto intro!: central_update_ok)

lemma raw_put_lookup: "sm_ok s \<Longrightarrow> sm_lookup (raw_put k e s) = (sm_lookup s)(k \<mapsto> e)"
  by (auto simp: raw_put_def shard_put_lookup central_update_lookup gomap_simps fun_eq_iff)
    (simp add: sm_lookup_def)

lemma raw_put_central: "isCentral k \<Longrightarrow> k \<in> mkeys (c_m (sm_central (raw_put k e s)))"
  by (simp add: raw_put_def)

lemma sm_put_ok: "sm_ok s \<Longrightarrow> sm_ok (sm_put k e s)"
  using sm_ok_central [OF raw_put_ok, of s k e] raw_put_ok [of s k e] raw_put_central [of k e s]
  unfolding sm_put_def Let_def indexBlock_def
  by (auto intro!: central_update_ok)

lemma central_index_lookup [simp]: "sm_lookup (s\<lparr>sm_central := indexBlock k (sm_central s)\<rparr>) = sm_lookup s"
  by (simp add: fun_eq_iff central_update_lookup) (simp add: indexBlock_def sm_lookup_def)

lemma sm_put_lookup: "sm_ok s \<Longrightarrow> sm_lookup (sm_put k e s) = (sm_lookup s)(k \<mapsto> e)"
  by (simp add: sm_put_def Let_def raw_put_lookup)

lemma sm_del_ok: "sm_ok s \<Longrightarrow> sm_ok (sm_del k s)"
  using shard_del_ok [of s k] sm_ok_central [of s] unfolding sm_del_def
  by (auto intro!: central_update_ok simp: dropCentral_def distinct_removeAll)

lemma sm_del_lookup: "sm_ok s \<Longrightarrow> sm_lookup (sm_del k s) = (sm_lookup s)(k := None)"
  by (auto simp: sm_del_def shard_del_lookup central_update_lookup dropCentral_def gomap_simps fun_eq_iff)
    (simp add: sm_lookup_def)

lemma sm_live_upd:
  "sm_lookup s' = (sm_lookup s)(k := x) \<Longrightarrow> sm_live s' t = (sm_live s t)(k := Option.bind x (unexpired t))"
  by (simp add: sm_live_def fun_eq_iff)

lemmas sm_writes_ok = shard_put_ok shard_del_ok raw_put_ok sm_put_ok sm_del_ok
lemmas sm_writes_live =
  sm_live_upd [OF shard_put_lookup] sm_live_upd [OF shard_del_lookup] sm_live_upd [OF raw_put_lookup]
  sm_live_upd [OF sm_put_lookup] sm_live_upd [OF sm_del_lookup]

lemma shard_get_eq: "\<not> isCentral k \<Longrightarrow> shard_get now k s = sm_get now k s"
  and central_get_eq: "isCentral k \<Longrightarrow> central_get now k s = sm_get now k s"
  by (simp_all add: sm_get_def)

text \<open>A read leaves the state alone, or drops one key that was absent or already expired.\<close>

lemma list_update_self: "i < length xs \<Longrightarrow> x = xs ! i \<Longrightarrow> xs[i := x] = xs"
  by simp

lemma sm_get_char:
  assumes "sm_ok s"
  shows "sm_get now k s = (sm_live s now k, if sm_live s now k = None then sm_del k s else s)"
proof (cases "isCentral k")
  case True
  then show ?thesis
    by (auto simp: sm_get_def central_get_def getCentral_def sm_live_def sm_lookup_def unexpired_def
        sm_del_def split: option.splits)
next
  case False
  have "putShard s k (shardFor s k) = s"
    using shardIdx_less [OF assms] by (simp add: putShard_def shardFor_def)
  with False show ?thesis
    by (auto simp: sm_get_def shard_get_def getShard_def sm_live_def sm_lookup_def unexpired_def
        sm_del_def shard_del_def split: option.splits)
qed

lemma live_later_None: "sm_live s now k = None \<Longrightarrow> now \<le> t \<Longrightarrow> sm_live s t k = None"
  by (auto simp: sm_live_def unexpired_def bind_eq_None_conv dest: entry_expired_mono
      split: option.splits if_splits)

lemma sm_get_reads:
  assumes "sm_ok s" and "sm_get now k s = (r, s')"
  shows "r = sm_live s now k" "sm_ok s'" "\<And>t. now \<le> t \<Longrightarrow> sm_live s' t = sm_live s t"
  using assms
  by (auto simp: sm_get_char sm_del_ok sm_live_upd [OF sm_del_lookup] live_later_None fun_eq_iff
      split: if_splits)

section \<open>Refinement of the store methods\<close>

lemma sm_refinesI:
  "r = fst spec \<Longrightarrow> sm_ok s' \<Longrightarrow> (\<And>t. now \<le> t \<Longrightarrow> sm_live s' t = apply_effects t (snd spec) (sm_live s t)) \<Longrightarrow>
     refines sm_live sm_ok now s (r, s') spec"
  by (simp add: refines_def)

lemma mismatch_iff: "mismatch old cur \<longleftrightarrow> map_option e_value cur \<noteq> old"
  by (auto simp: mismatch_def split: option.splits)

lemma sm_Get_refines:
  assumes "sm_ok s"
  shows "refines sm_live sm_ok now s (sm_Get now k s) (spec_Get k (sm_live s now))"
proof -
  obtain r s' where g: "sm_get now k s = (r, s')" by fastforce
  note rd = sm_get_reads [OF assms g]
  show ?thesis
    by (auto simp: sm_Get_def g spec_Get_def rd intro!: sm_refinesI)
qed

lemma sm_Set_refines:
  "sm_ok s \<Longrightarrow> refines sm_live sm_ok now s (sm_Set now k x ttl s) (spec_Set now k x ttl)"
  by (auto simp: sm_Set_def spec_Set_def sm_put_ok sm_writes_live intro!: sm_refinesI)

lemma sm_Delete_refines:
  "sm_ok s \<Longrightarrow> refines sm_live sm_ok now s (sm_Delete now k s) (spec_Delete k)"
  by (auto simp: sm_Delete_def spec_Delete_def sm_del_ok sm_writes_live intro!: sm_refinesI)

lemma incr_refines:
  assumes "sm_ok s" and get: "get now k s = sm_get now k s"
    and put: "\<And>e s'. sm_ok s' \<Longrightarrow> sm_ok (put k e s') \<and> (\<forall>t. sm_live (put k e s') t = (sm_live s' t)(k := unexpired t e))"
  shows "refines sm_live sm_ok now s (incrByDeadline get put now k d dl s)
           (spec_IncrByDeadline now k d dl (sm_live s now))"
proof -
  obtain r s' where g: "sm_get now k s = (r, s')" by fastforce
  note rd = sm_get_reads [OF assms(1) g]
  show ?thesis
    unfolding incrByDeadline_def spec_IncrByDeadline_def get g
    by (auto simp: rd(1) rd(2,3) put [OF rd(2)] intro!: sm_refinesI split: option.splits)
qed

lemma sm_IncrByDeadline_refines:
  "sm_ok s \<Longrightarrow> refines sm_live sm_ok now s (sm_IncrByDeadline now k d dl s)
     (spec_IncrByDeadline now k d dl (sm_live s now))"
  unfolding sm_IncrByDeadline_def
  by (rule incr_refines) (simp_all add: raw_put_ok sm_writes_live)

lemma sm_CompareAndSwap_refines:
  assumes "sm_ok s"
  shows "refines sm_live sm_ok now s (sm_CompareAndSwap now k old x ttl s)
           (spec_CompareAndSwap now k old x ttl (sm_live s now))"
proof -
  obtain r s' where g: "sm_get now k s = (r, s')" by fastforce
  note rd = sm_get_reads [OF assms g]
  show ?thesis
    by (auto simp: sm_CompareAndSwap_def spec_CompareAndSwap_def g rd mismatch_iff sm_put_ok
        sm_writes_live intro!: sm_refinesI)
qed

lemma sm_CompareAndDelete_refines:
  assumes "sm_ok s"
  shows "refines sm_live sm_ok now s (sm_CompareAndDelete now k old s)
           (spec_CompareAndDelete k old (sm_live s now))"
proof -
  obtain r s' where g: "sm_get now k s = (r, s')" by fastforce
  note rd = sm_get_reads [OF assms g]
  show ?thesis
    by (auto simp: sm_CompareAndDelete_def spec_CompareAndDelete_def g rd mismatch_iff sm_del_ok
        sm_writes_live assms intro!: sm_refinesI)
qed

lemma sm_CommitBlock_refines:
  assumes "sm_ok s" "block_commit_wf c"
  shows "refines sm_live sm_ok now s (sm_CommitBlock now c s) (spec_CommitBlock now c (sm_live s now))"
proof (cases "isCentral (bc_BlockKey c)")
  case False
  then show ?thesis
    by (auto simp: sm_CommitBlock_def spec_CommitBlock_def assms(1) intro!: sm_refinesI)
next
  case True
  have nc: "\<not> isCentral (bc_HoldKey c)" "\<not> isCentral (bc_GuardKey c)" "\<not> isCentral (bc_CounterKey c)"
    using assms(2) by (simp_all add: block_commit_wf_def)
  obtain h s1 where g1: "sm_get now (bc_HoldKey c) s = (h, s1)" by fastforce
  note r1 = sm_get_reads [OF assms(1) g1]
  obtain g s2 where g2: "sm_get now (bc_GuardKey c) s1 = (g, s2)" by fastforce
  note r2 = sm_get_reads [OF r1(2) g2]
  obtain b s3 where g3: "sm_get now (bc_BlockKey c) s2 = (b, s3)" by fastforce
  note r3 = sm_get_reads [OF r2(2) g3]
  obtain n s4 where g4: "sm_get now (bc_CounterKey c) s3 = (n, s4)" by fastforce
  note r4 = sm_get_reads [OF r3(2) g4]
  note gets = shard_get_eq [OF nc(1)] shard_get_eq [OF nc(2)] shard_get_eq [OF nc(3)] central_get_eq [OF True]
    g1 g2 g3 g4
  note live = r1(3) r2(3) r3(3) r4(3)
  note oks = r1(2) r2(2) r3(2) r4(2)
  note res = r1(1) r2(1) [unfolded live(1) [OF order_refl]]
    r3(1) [unfolded live(1,2) [OF order_refl]] r4(1) [unfolded live(1-3) [OF order_refl]]
  show ?thesis
    unfolding sm_CommitBlock_def spec_CommitBlock_def gets prod.case Let_def mismatch_iff res
    by (auto simp: True nc oks live sm_writes_ok sm_writes_live spec_offenses_def intro!: sm_refinesI
        split del: option.split)
qed

lemma sm_CommitEvent_refines:
  assumes "sm_ok s" "event_commit_wf c"
  shows "refines sm_live sm_ok now s (sm_CommitEvent now c s) (spec_CommitEvent now c (sm_live s now))"
proof -
  have nc: "\<not> isCentral (ec_HoldKey c)" "\<not> isCentral (ec_CounterKey c)"
    using assms(2) by (simp_all add: event_commit_wf_def)
  obtain h s1 where g1: "sm_get now (ec_HoldKey c) s = (h, s1)" by fastforce
  note r1 = sm_get_reads [OF assms(1) g1]
  define dl where "dl = (if ec_CounterTTL c > 0 then now + ec_CounterTTL c else 0)"
  obtain r s2 where i: "incrByDeadline shard_get shard_put now (ec_CounterKey c) 1 dl s1 = (r, s2)"
    by fastforce
  obtain r' effs where sp: "spec_IncrByDeadline now (ec_CounterKey c) 1 dl (sm_live s now) = (r', effs)"
    by fastforce
  have "refines sm_live sm_ok now s1 (r, s2) (r', effs)"
    using incr_refines [OF r1(2), of shard_get now "ec_CounterKey c" shard_put 1 dl] nc i sp r1(3)
    by (simp add: shard_get_eq sm_writes_ok sm_writes_live)
  then have ref: "r = r'" "sm_ok s2" "\<And>t. now \<le> t \<Longrightarrow> sm_live s2 t = apply_effects t effs (sm_live s t)"
    using r1(3) by (simp_all add: refines_def)
  show ?thesis
    unfolding sm_CommitEvent_def spec_CommitEvent_def shard_get_eq [OF nc(1)] g1 prod.case Let_def
      dl_def [symmetric] i sp
    by (auto simp: r1 ref intro!: sm_refinesI split: sum.splits)
qed

lemma sm_CommitUnblock_refines:
  "sm_ok s \<Longrightarrow> unblock_commit_wf c \<Longrightarrow>
     refines sm_live sm_ok now s (sm_CommitUnblock now c s) (spec_CommitUnblock now c)"
  unfolding sm_CommitUnblock_def spec_CommitUnblock_def unblock_commit_wf_def
  by (auto simp: Let_def sm_writes_ok sm_writes_live intro!: sm_refinesI)

lemma sm_live_decay: "t \<le> t' \<Longrightarrow> sm_live s t k = Some e \<Longrightarrow> sm_live s t' k = unexpired t' e"
  by (auto simp: sm_live_def bind_eq_Some_conv unexpired_def split: if_splits)

lemma sm_live_antimono: "t \<le> t' \<Longrightarrow> sm_live s t' k = Some e \<Longrightarrow> sm_live s t k = Some e"
  by (auto simp: sm_live_def bind_eq_Some_conv unexpired_def dest: entry_expired_mono split: if_splits)

lemma janitor_lookup:
  "sm_ok s \<Longrightarrow> sm_lookup (janitor_sweep now s) k =
     (case sm_lookup s k of None \<Rightarrow> None | Some e \<Rightarrow> if entry_expired e now then None else Some e)"
  using sm_ok_shardFor [of s k] shardIdx_less [of s k] sm_ok_central [of s]
    map_of_filter_kv [of "shardFor s k" "\<lambda>_ e. \<not> entry_expired e now"]
    map_of_filter_kv [of "c_m (sm_central s)" "\<lambda>_ e. \<not> entry_expired e now"]
  by (auto simp: janitor_sweep_def sm_lookup_def shardFor_def shardIdx_def Let_def split: option.splits)

lemma janitor_ok:
  assumes "sm_ok s"
  shows "sm_ok (janitor_sweep now s)"
proof -
  define keep :: "(string, entry) gomap \<Rightarrow> (string, entry) gomap"
    where "keep = filter (\<lambda>p. \<not> entry_expired (snd p) now)"
  have keys: "mkeys (keep m) \<subseteq> mkeys m" for m :: "(string, entry) gomap"
    by (simp add: keep_def mkeys_filter)
  have wf: "map_wf m \<Longrightarrow> map_wf (keep m)" for m :: "(string, entry) gomap"
    by (simp add: keep_def)
  have kept: "k \<in> mkeys (keep m)"
    if "map_wf m" "k \<in> mkeys m" "\<not> (case map_of m k of None \<Rightarrow> False | Some e \<Rightarrow> entry_expired e now)"
    for m :: "(string, entry) gomap" and k
    using that map_of_filter_kv [of m "\<lambda>_ e. \<not> entry_expired e now" k]
    by (auto simp: mkeys_iff keep_def split: option.splits)
  let ?c = "sm_central s"
  have "sm_ok (s\<lparr>sm_shards := map keep (sm_shards s)\<rparr>)"
    using assms keys wf by (auto simp: sm_ok_def shardIdx_def dest!: subsetD [OF keys])
  then have "sm_ok (s\<lparr>sm_shards := map keep (sm_shards s)\<rparr>\<lparr>sm_central :=
      ?c\<lparr>c_m := keep (c_m ?c),
         c_activeBlocks := filter (\<lambda>k. \<not> (case map_of (c_m ?c) k of None \<Rightarrow> False | Some e \<Rightarrow> entry_expired e now))
           (c_activeBlocks ?c),
         c_postureVotes := filter (\<lambda>p. \<not> vote_expired (snd p) now) (c_postureVotes ?c)\<rparr>\<rparr>)"
    using sm_ok_central [OF assms] keys [of "c_m ?c"] wf [of "c_m ?c"] kept [of "c_m ?c"]
    by (intro central_update_ok) (auto 4 3)
  then show ?thesis
    by (simp add: janitor_sweep_def keep_def Let_def)
qed

lemma janitor_live: "sm_ok s \<Longrightarrow> now \<le> t \<Longrightarrow> sm_live (janitor_sweep now s) t = sm_live s t"
  by (auto simp: sm_live_def janitor_lookup fun_eq_iff unexpired_def dest: entry_expired_mono
      split: option.splits)

interpretation mem: ttl_store sm_ops sm_live sm_ok
  by unfold_locales
    (auto simp: sm_ops_def sm_Get_refines sm_Set_refines sm_Delete_refines sm_IncrByDeadline_refines
      sm_CompareAndSwap_refines sm_CompareAndDelete_refines sm_CommitBlock_refines
      sm_CommitEvent_refines sm_CommitUnblock_refines intro: sm_live_decay sm_live_antimono)

interpretation mem: swept_store sm_ops sm_live sm_ok janitor_sweep
  by unfold_locales (simp_all add: janitor_ok janitor_live)

section \<open>Construction\<close>

lemma pow2_loop_result:
  assumes "2 \<le> n" "n \<le> 2 ^ 62"
  shows "(2::int) ^ i < n \<Longrightarrow>
           \<exists>j. i < j \<and> j \<le> 62 \<and> pow2_loop n (2 ^ i) = Some (2 ^ j) \<and> n \<le> 2 ^ j \<and> 2 ^ (j - 1) < n"
proof (induction "62 - i" arbitrary: i)
  case 0
  then have "(2::int) ^ 62 \<le> 2 ^ i" by (intro power_increasing) auto
  with 0 assms show ?case by simp
next
  case (Suc d)
  have "i < 62" using Suc.hyps(2) by simp
  then have "(2::int) ^ Suc i \<le> 2 ^ 62" by (intro power_increasing) auto
  then have "int64 (2 ^ Suc i)"
    by (rule int64_nonneg [rotated]) simp
  then have w: "wrap64 (2 ^ i * 2) = 2 ^ Suc i"
    by (simp add: wrap64_id mult.commute)
  have unf: "pow2_loop n (2 ^ i) = pow2_loop n (2 ^ Suc i)"
    using Suc.prems w by (subst pow2_loop.simps) simp
  show ?case
  proof (cases "(2::int) ^ Suc i < n")
    case True
    then show ?thesis using Suc.hyps(1) [of "Suc i"] Suc.hyps(2) unf by fastforce
  next
    case False
    then have "pow2_loop n (2 ^ Suc i) = Some (2 ^ Suc i)" by (subst pow2_loop.simps) simp
    then show ?thesis
      using unf Suc.prems False \<open>i < 62\<close> by (intro exI [of _ "Suc i"]) auto
  qed
qed

lemma nextPow2_result:
  assumes "n \<le> 2 ^ 62"
  shows "\<exists>j \<le> 62. nextPow2 n = Some (2 ^ j) \<and> max n 1 \<le> 2 ^ j \<and> (0 < n \<longrightarrow> j = 0 \<or> 2 ^ (j - 1) < n)
           \<and> (n \<le> 0 \<longrightarrow> j = 8)"
proof -
  consider "n \<le> 0" | "n = 1" | "2 \<le> n" by linarith
  then show ?thesis
  proof cases
    case 1
    obtain j where j: "pow2_loop 256 (2 ^ 0) = Some (2 ^ j)" "256 \<le> (2::int) ^ j" "(2::int) ^ (j - 1) < 256" "0 < j"
      using pow2_loop_result [of 256 0] by auto
    have "(2::int) ^ (j - 1) < 2 ^ 8" and "(2::int) ^ 8 \<le> 2 ^ j" using j by simp_all
    then have "j - 1 < 8" and "8 \<le> j"
      by (simp_all only: power_strict_increasing_iff power_increasing_iff one_less_numeral_iff semiring_norm)
    with j(4) have "j = 8" by simp
    with j(1) 1 show ?thesis
      by (intro exI [of _ 8]) (simp add: nextPow2_def defaultShards_def)
  next
    case 2
    then show ?thesis
      by (intro exI [of _ 0]) (simp add: nextPow2_def pow2_loop.simps)
  next
    case 3
    then show ?thesis
      using pow2_loop_result [OF 3 assms, of 0] by (auto simp: nextPow2_def)
  qed
qed

lemma NewShardedMemory_ok:
  assumes "shards \<le> 2 ^ 32" "NewShardedMemory shards = Some s"
  shows "sm_ok s \<and> index_complete s \<and> sm_live s t k = None"
proof -
  have "shards \<le> 2 ^ 62" using assms(1) by simp
  then obtain j where j: "nextPow2 shards = Some (2 ^ j)" "0 < shards \<longrightarrow> j = 0 \<or> 2 ^ (j - 1) < shards"
      "shards \<le> 0 \<longrightarrow> j = 8"
    using nextPow2_result by blast
  have "j \<le> 32"
  proof (rule ccontr)
    assume "\<not> j \<le> 32"
    then have "(2::int) ^ 32 \<le> 2 ^ (j - 1)" by (intro power_increasing) auto
    then show False using j(2,3) assms(1) \<open>\<not> j \<le> 32\<close> by auto
  qed
  then have b: "(2::int) ^ j \<le> 2 ^ 32" by (intro power_increasing) auto
  have "uint (word_of_int (2 ^ j - 1) :: 32 word) = (2 ^ j - 1) mod 2 ^ 32"
    by (simp only: uint_word_of_int) simp
  also have "\<dots> = 2 ^ j - 1" using b by (intro mod_pos_pos_trivial) simp_all
  finally have "unat (word_of_int (2 ^ j - 1) :: 32 word) = nat (2 ^ j - 1)"
    by (simp only: flip: nat_uint_eq)
  then have N: "Suc (unat (word_of_int (2 ^ j - 1) :: 32 word)) = nat (2 ^ j)"
    by (simp add: nat_diff_distrib)
  have sh: "sm_shards s = replicate (nat (2 ^ j)) []" and m: "sm_mask s = word_of_int (2 ^ j - 1)"
    and c: "sm_central s = \<lparr>c_m = [], c_activeBlocks = [], c_postureVotes = []\<rparr>"
    using assms(2) j(1) by (auto simp: NewShardedMemory_def)
  have "length (sm_shards s) = Suc (unat (sm_mask s))" unfolding sh m N by simp
  moreover have "\<forall>i < length (sm_shards s). sm_shards s ! i = []" unfolding sh by simp
  ultimately have ok: "sm_ok s" unfolding sm_ok_def c by simp
  then have "shardFor s k = []"
    using shardIdx_less [OF ok, of k] by (simp add: shardFor_def sh)
  with ok c show ?thesis by (simp add: index_complete_def sm_live_def sm_lookup_def)
qed

text \<open>A freshly made store, for the examples of the clients.\<close>

definition fresh_memory :: sharded_memory where
  "fresh_memory = the (NewShardedMemory 1)"

lemma fresh_memory_ok: "sm_ok fresh_memory" and fresh_memory_live: "sm_live fresh_memory t k = None"
proof -
  have "NewShardedMemory 1 = Some fresh_memory"
    by (simp add: fresh_memory_def NewShardedMemory_def nextPow2_def pow2_loop.simps)
  then show "sm_ok fresh_memory" "sm_live fresh_memory t k = None" using NewShardedMemory_ok [of 1] by auto
qed

end
