(* ===== verification/Store_Index.thy ===== *)
theory Store_Index
  imports Sharded_Memory "HOL-Library.Multiset"
begin

text \<open>
  The parts of the in-process store beyond the key-value contract
  (\<^verbatim>\<open>core/store/sharded_memory.go\<close>): the sorted scans, the active-block index behind
  \<^verbatim>\<open>ScanActiveBlocks\<close>, the fleet posture votes, the rounding of the shard count, and the mutexes of every method
  with the threads that take them.
\<close>

section \<open>Scans\<close>

definition blk :: "nanos \<Rightarrow> (string, entry) gomap \<Rightarrow> string \<Rightarrow> kv option" where
  "blk now m key = map_option (\<lambda>e. entry_kv (key, e)) (Option.bind (map_of m key) (unexpired now))"

definition live_kvs :: "nanos \<Rightarrow> string \<Rightarrow> sharded_memory \<Rightarrow> kv set" where
  "live_kvs now pre s = {entry_kv (k, e) |k e. hasPrefix k pre \<and> sm_live s now k = Some e}"

lemma kv_Key_entry_kv [simp]: "kv_Key (entry_kv p) = fst p"
  by (simp add: entry_kv_def)

lemma set_gather:
  "map_wf m \<Longrightarrow> set (gather now pre m) =
     {entry_kv (k, e) |k e. hasPrefix k pre \<and> Option.bind (map_of m k) (unexpired now) = Some e}"
  by (force simp: gather_def unexpired_def bind_eq_Some_conv map_of_eq_Some_mem split: if_splits)

lemma gather_keys: "map kv_Key (gather now pre m) =
    map fst (filter (\<lambda>p. hasPrefix (fst p) pre \<and> \<not> entry_expired (snd p) now) m)"
  by (simp add: gather_def o_def)

lemma distinct_gather: "map_wf m \<Longrightarrow> distinct (map kv_Key (gather now pre m))"
  unfolding gather_keys map_wf_def by (rule distinct_map_filter)

lemma gather_keys_sub: "kv_Key ` set (gather now pre m) \<subseteq> mkeys m"
  by (force simp: gather_def mkeys_def)

definition scan_all :: "nanos \<Rightarrow> string \<Rightarrow> sharded_memory \<Rightarrow> kv list" where
  "scan_all now pre s =
     concat (map (gather now pre) (sm_shards s)) @ gather now pre (c_m (sm_central s))"

lemma distinct_concat_shards:
  assumes "\<forall>i < length ms. distinct (map f (ms ! i)) \<and> (\<forall>x \<in> set (ms ! i). g (f x) = (i + n :: nat))"
  shows "distinct (map f (concat ms))"
  using assms
proof (induction ms arbitrary: n)
  case (Cons m ms)
  have tl: "\<forall>i < length ms. distinct (map f (ms ! i)) \<and> (\<forall>x \<in> set (ms ! i). g (f x) = i + Suc n)"
    using Cons.prems by (metis Suc_less_eq add_Suc_shift length_Cons nth_Cons_Suc)
  have hd: "distinct (map f m)" "\<forall>x \<in> set m. g (f x) = n"
    using Cons.prems [rule_format, of 0] by auto
  have "g (f x) \<noteq> n" if x: "x \<in> set (concat ms)" for x
  proof -
    obtain m where "m \<in> set ms" "x \<in> set m" using x by auto
    then obtain i where "i < length ms" "x \<in> set (ms ! i)" by (metis in_set_conv_nth)
    then have "g (f x) = i + Suc n" using tl by blast
    then show ?thesis by simp
  qed
  then have "f ` set m \<inter> f ` set (concat ms) = {}" using hd(2) by fastforce
  then show ?case using hd(1) Cons.IH [OF tl] by simp
qed simp

lemma sm_ok_shards: "sm_ok s \<Longrightarrow> m \<in> set (sm_shards s) \<Longrightarrow> map_wf m \<and> (\<forall>k \<in> mkeys m. \<not> isCentral k)"
  by (auto simp: sm_ok_def in_set_conv_nth)

lemma distinct_scan_all:
  assumes "sm_ok s"
  shows "distinct (map kv_Key (scan_all now pre s))"
proof -
  have "\<forall>i < length (sm_shards s). distinct (map kv_Key (gather now pre (sm_shards s ! i))) \<and>
          (\<forall>x \<in> set (gather now pre (sm_shards s ! i)). shardIdx s (kv_Key x) = i)"
    using assms gather_keys_sub by (fastforce simp: sm_ok_def intro: distinct_gather)
  then have "distinct (map kv_Key (concat (map (gather now pre) (sm_shards s))))"
    using distinct_concat_shards [of "map (gather now pre) (sm_shards s)" kv_Key "shardIdx s" 0] by simp
  moreover have "kv_Key x \<noteq> kv_Key y"
    if "m \<in> set (sm_shards s)" "x \<in> set (gather now pre m)" "y \<in> set (gather now pre (c_m (sm_central s)))"
    for m x y
  proof -
    have "\<not> isCentral (kv_Key x)" "isCentral (kv_Key y)"
      using sm_ok_shards [OF assms that(1)] sm_ok_central [OF assms] gather_keys_sub that(2,3) by fast+
    then show ?thesis by auto
  qed
  ultimately show ?thesis
    using sm_ok_central [OF assms] distinct_gather by (fastforce simp: scan_all_def)
qed

lemma set_scan_all:
  assumes "sm_ok s"
  shows "set (scan_all now pre s) = live_kvs now pre s"
proof -
  have sh: "(\<exists>m \<in> set (sm_shards s). Option.bind (map_of m k) (unexpired now) = Some e) \<longleftrightarrow>
      \<not> isCentral k \<and> Option.bind (map_of (shardFor s k) k) (unexpired now) = Some e" for k e
  proof
    assume "\<exists>m \<in> set (sm_shards s). Option.bind (map_of m k) (unexpired now) = Some e"
    then obtain i where i: "i < length (sm_shards s)"
        "Option.bind (map_of (sm_shards s ! i) k) (unexpired now) = Some e"
      by (auto simp: in_set_conv_nth)
    then have "k \<in> mkeys (sm_shards s ! i)" by (auto simp: mkeys_iff bind_eq_Some_conv)
    with i assms show "\<not> isCentral k \<and> Option.bind (map_of (shardFor s k) k) (unexpired now) = Some e"
      by (auto simp: sm_ok_def shardFor_def)
  qed (use shardIdx_less [OF assms, of k] in \<open>auto simp: shardFor_def\<close>)
  have cen: "Option.bind (map_of (c_m (sm_central s)) k) (unexpired now) = Some e \<Longrightarrow> isCentral k" for k e
    using sm_ok_central [OF assms] by (auto simp: mkeys_iff bind_eq_Some_conv)
  have "set (scan_all now pre s) = (\<Union>m \<in> set (sm_shards s). set (gather now pre m)) \<union>
      set (gather now pre (c_m (sm_central s)))"
    by (auto simp: scan_all_def)
  also have "\<dots> = {entry_kv (k, e) |k e. hasPrefix k pre \<and>
      (\<exists>m \<in> set (sm_shards s). Option.bind (map_of m k) (unexpired now) = Some e)} \<union>
      {entry_kv (k, e) |k e. hasPrefix k pre \<and> Option.bind (map_of (c_m (sm_central s)) k) (unexpired now) = Some e}"
    using sm_ok_shards [OF assms] sm_ok_central [OF assms] by (simp add: set_gather) blast
  also have "\<dots> = live_kvs now pre s"
    unfolding sh live_kvs_def sm_live_def sm_lookup_def using cen by (auto split: if_splits)
  finally show ?thesis .
qed

lemma sm_ScanLimit_scan_all:
  "sm_ScanLimit now pre limit s =
     (let out = sort_key kv_Key (scan_all now pre s)
      in if limit > 0 \<and> int (length out) > limit then (take (nat limit) out, False) else (out, True))"
  by (simp add: sm_ScanLimit_def scan_all_def)

lemma sort_key_unique:
  assumes "distinct (map f xs)" "distinct (map f ys)" "set xs = set ys"
  shows "sort_key f xs = sort_key f ys"
proof (rule sort_key_inj_key_eq)
  have "distinct xs" "distinct ys" using assms(1,2) by (auto simp: distinct_map)
  then show "mset xs = mset (sort_key f ys)" using assms(3) by (simp add: set_eq_iff_mset_eq_distinct)
  show "inj_on f (set xs)" using assms(1) by (simp add: distinct_map)
qed simp

section \<open>The active-block index\<close>

text \<open>The walk over the index: an exact result, and only dead keys dropped on the way.\<close>

lemma blk_dropCentral: "j \<noteq> k \<Longrightarrow> blk now (c_m (dropCentral k c)) j = blk now (c_m c) j"
  by (simp add: blk_def dropCentral_def gomap_simps)

lemma blk_cases:
  "map_of m k = Some e \<Longrightarrow> \<not> entry_expired e now \<Longrightarrow> blk now m k = Some (entry_kv (k, e))"
  "map_of m k = Some e \<Longrightarrow> entry_expired e now \<Longrightarrow> blk now m k = None"
  "map_of m k = None \<Longrightarrow> blk now m k = None"
  by (simp_all add: blk_def unexpired_def)

lemma blk_NoneE:
  assumes "blk now m k = None"
  obtains "map_of m k = None" | e where "map_of m k = Some e" "entry_expired e now"
  using assms by (cases "map_of m k") (auto simp: blk_def unexpired_def split: if_splits)

lemma map_filter_blk_drop:
  "k \<notin> set keys \<Longrightarrow> List.map_filter (blk now (c_m (dropCentral k c))) keys = List.map_filter (blk now (c_m c)) keys"
  by (induction keys) (auto simp: map_filter_simps blk_dropCentral split: option.splits)

lemma scanActive_result:
  assumes "distinct keys" "limit \<le> 0 \<or> int (length out) \<le> limit"
  shows "fst (scanActive now limit keys c out) =
    (let all = out @ List.map_filter (blk now (c_m c)) keys
     in if limit > 0 \<and> int (length all) > limit then (take (nat limit) all, False) else (all, True))"
  using assms
proof (induction now limit keys c out rule: scanActive.induct)
  case (1 now limit c out)
  then show ?case by (auto simp: map_filter_simps)
next
  case (2 now limit key keys c out)
  show ?case
  proof (cases "blk now (c_m c) key")
    case None
    then have "scanActive now limit (key # keys) c out = scanActive now limit keys (dropCentral key c) out"
      by (cases rule: blk_NoneE) simp_all
    moreover have "fst (scanActive now limit keys (dropCentral key c) out) =
        (let all = out @ List.map_filter (blk now (c_m c)) keys
         in if limit > 0 \<and> int (length all) > limit then (take (nat limit) all, False) else (all, True))"
      using None
    proof (cases rule: blk_NoneE)
      case 1
      then show ?thesis using "2.IH"(1) "2.prems" by (simp add: map_filter_blk_drop)
    next
      case (2 e)
      then show ?thesis using "2.IH"(2) "2.prems" by (simp add: map_filter_blk_drop)
    qed
    ultimately show ?thesis using None by (simp add: map_filter_simps)
  next
    case (Some x)
    then obtain e where e: "map_of (c_m c) key = Some e" "\<not> entry_expired e now" "x = entry_kv (key, e)"
      by (auto simp: blk_def unexpired_def bind_eq_Some_conv split: if_splits)
    show ?thesis
    proof (cases "limit > 0 \<and> int (length (out @ [x])) > limit")
      case True
      then have "nat limit = length out" using "2.prems"(2) by auto
      with True e Some show ?thesis by (simp add: map_filter_simps)
    next
      case False
      then show ?thesis
        using "2.IH"(3) [OF e(1,2), of "out @ [x]"] "2.prems" e Some by (auto simp: map_filter_simps)
    qed
  qed
qed

lemma scanActive_drops:
  "distinct keys \<Longrightarrow>
   \<exists>ds. set ds \<subseteq> set keys \<and> (\<forall>k \<in> set ds. blk now (c_m c) k = None) \<and>
        snd (scanActive now limit keys c out) = fold dropCentral ds c"
proof (induction now limit keys c out rule: scanActive.induct)
  case (1 now limit c out)
  show ?case by (rule exI [of _ "[]"]) simp
next
  case (2 now limit key keys c out)
  show ?case
  proof (cases "blk now (c_m c) key")
    case None
    obtain ds where ds: "set ds \<subseteq> set keys" "\<forall>k \<in> set ds. blk now (c_m (dropCentral key c)) k = None"
        "snd (scanActive now limit keys (dropCentral key c) out) = fold dropCentral ds (dropCentral key c)"
      using 2 None
      by (cases "map_of (c_m c) key") (auto simp: blk_def unexpired_def split: if_splits)
    have "\<forall>k \<in> set ds. blk now (c_m c) k = None"
      using ds(1,2) "2.prems" blk_dropCentral [of _ key now c] by (metis distinct.simps(2) subsetD)
    with ds None show ?thesis
      by (intro exI [of _ "key # ds"]) (auto elim: blk_NoneE)
  next
    case (Some x)
    then obtain e where e: "map_of (c_m c) key = Some e" "\<not> entry_expired e now" "x = entry_kv (key, e)"
      by (auto simp: blk_def unexpired_def bind_eq_Some_conv split: if_splits)
    show ?thesis
    proof (cases "limit > 0 \<and> int (length (out @ [x])) > limit")
      case True
      with e show ?thesis by (intro exI [of _ "[]"]) simp
    next
      case False
      then obtain ds where "set ds \<subseteq> set keys" "\<forall>k \<in> set ds. blk now (c_m c) k = None"
          "snd (scanActive now limit keys c (out @ [x])) = fold dropCentral ds c"
        using "2.IH"(3) [OF e(1,2), of "out @ [x]"] "2.prems" e by auto
      with e False show ?thesis by (intro exI [of _ ds]) auto
    qed
  qed
qed

lemma central_fold_drop:
  "\<forall>k \<in> set ds. isCentral k \<Longrightarrow> s\<lparr>sm_central := fold dropCentral ds (sm_central s)\<rparr> = fold sm_del ds s"
proof (induction ds arbitrary: s)
  case (Cons d ds)
  have "fold sm_del (d # ds) s = fold sm_del ds (s\<lparr>sm_central := dropCentral d (sm_central s)\<rparr>)"
    using Cons.prems by (simp add: sm_del_def)
  also have "\<dots> = s\<lparr>sm_central := fold dropCentral (d # ds) (sm_central s)\<rparr>"
    using Cons.IH [of "s\<lparr>sm_central := dropCentral d (sm_central s)\<rparr>"] Cons.prems by simp
  finally show ?case by simp
qed simp

lemma fold_sm_del:
  assumes "sm_ok s" "\<forall>k \<in> set ds. sm_live s now k = None" "now \<le> t"
  shows "sm_ok (fold sm_del ds s) \<and> sm_live (fold sm_del ds s) t = sm_live s t"
  using assms(1,2)
proof (induction ds arbitrary: s)
  case (Cons d ds)
  have ok: "sm_ok (sm_del d s)" using Cons.prems by (simp add: sm_del_ok)
  have same: "sm_live (sm_del d s) t' = sm_live s t'" if "now \<le> t'" for t'
    using Cons.prems live_later_None [OF _ that, of s d] by (auto simp: sm_writes_live)
  then have "\<forall>k \<in> set ds. sm_live (sm_del d s) now k = None" using Cons.prems(2) by simp
  then show ?case using Cons.IH [OF ok] same [OF assms(3)] by simp
qed simp

lemma sm_live_blk: "isCentral k \<Longrightarrow> blk now (c_m (sm_central s)) k = map_option (\<lambda>e. entry_kv (k, e)) (sm_live s now k)"
  by (simp add: blk_def sm_live_def sm_lookup_def)

lemma set_map_filter': "set (List.map_filter f xs) = {y. \<exists>x \<in> set xs. f x = Some y}"
  by (induction xs) (auto simp: map_filter_simps split: option.splits)

lemma distinct_map_filter_blk:
  "distinct keys \<Longrightarrow> distinct (map kv_Key (List.map_filter (blk now m) keys))"
  by (induction keys)
    (auto simp: map_filter_simps set_map_filter' blk_def split: option.splits)

lemma active_blocks_exact:
  assumes "sm_ok s" "index_complete s"
  shows "sort_key kv_Key (List.map_filter (blk now (c_m (sm_central s))) (c_activeBlocks (sm_central s))) =
           sm_Scan now ''block:'' s"
proof -
  let ?c = "sm_central s"
  note ok = sm_ok_central [OF assms(1)]
  have idx: "set (c_activeBlocks ?c) = mkeys (c_m ?c)"
    using ok assms(2) by (auto simp: index_complete_def)
  have "y \<in> set (List.map_filter (blk now (c_m ?c)) (c_activeBlocks ?c)) \<longleftrightarrow> y \<in> live_kvs now ''block:'' s" for y
  proof
    assume "y \<in> set (List.map_filter (blk now (c_m ?c)) (c_activeBlocks ?c))"
    then obtain k where "k \<in> mkeys (c_m ?c)" "blk now (c_m ?c) k = Some y"
      by (auto simp: set_map_filter' idx)
    then show "y \<in> live_kvs now ''block:'' s"
      using ok by (auto simp: sm_live_blk live_kvs_def isCentral_def)
  next
    assume "y \<in> live_kvs now ''block:'' s"
    then obtain k e where k: "isCentral k" "sm_live s now k = Some e" "y = entry_kv (k, e)"
      by (auto simp: live_kvs_def isCentral_def)
    then have "k \<in> mkeys (c_m ?c)" by (auto simp: sm_live_def sm_lookup_def mkeys_iff bind_eq_Some_conv)
    with k show "y \<in> set (List.map_filter (blk now (c_m ?c)) (c_activeBlocks ?c))"
      by (auto simp: set_map_filter' idx sm_live_blk intro!: bexI [of _ k])
  qed
  then have "sort_key kv_Key (List.map_filter (blk now (c_m ?c)) (c_activeBlocks ?c)) =
      sort_key kv_Key (scan_all now ''block:'' s)"
    using ok by (intro sort_key_unique)
      (auto simp: distinct_map_filter_blk distinct_scan_all assms(1) set_scan_all)
  then show ?thesis by (simp add: sm_Scan_def sm_ScanLimit_scan_all)
qed

lemma ScanActiveBlocks_state:
  assumes "sm_ok s" "now \<le> t"
  shows "sm_ok (snd (sm_ScanActiveBlocks now pre limit s)) \<and>
         sm_live (snd (sm_ScanActiveBlocks now pre limit s)) t = sm_live s t"
proof (cases "pre = ''block:''")
  case True
  note ok = sm_ok_central [OF assms(1)]
  let ?c = "sm_central s"
  obtain ds where ds: "set ds \<subseteq> set (c_activeBlocks ?c)" "\<forall>k \<in> set ds. blk now (c_m ?c) k = None"
      "snd (scanActive now limit (c_activeBlocks ?c) ?c []) = fold dropCentral ds ?c"
    using scanActive_drops ok by blast
  have cen: "\<forall>k \<in> set ds. isCentral k" using ds(1) ok by auto
  then have dead: "\<forall>k \<in> set ds. sm_live s now k = None" using ds(2) by (simp add: sm_live_blk)
  have "snd (sm_ScanActiveBlocks now pre limit s) = fold sm_del ds s"
    using True ds(3) central_fold_drop [OF cen]
    by (auto simp: sm_ScanActiveBlocks_def split: prod.splits)
  then show ?thesis using fold_sm_del [OF assms(1) dead assms(2)] by simp
qed (simp add: sm_ScanActiveBlocks_def assms(1))

text \<open>
  Every write of a block goes through the index. An increment of a \<open>block:\<close> key would bypass it; the
  callers never make one.
\<close>

lemma index_complete_central:
  "index_complete s \<Longrightarrow> sm_central s' = sm_central s \<Longrightarrow> index_complete s'"
  by (simp add: index_complete_def)

lemma index_complete_shard [simp]:
  "index_complete (shard_put k e s) = index_complete s" "index_complete (shard_del k s) = index_complete s"
  by (simp_all add: index_complete_def shard_put_def shard_del_def)

lemma index_complete_put: "index_complete s \<Longrightarrow> index_complete (sm_put k e s)"
proof (cases "isCentral k")
  case True
  moreover assume "index_complete s"
  ultimately show ?thesis
    by (auto simp: sm_put_def raw_put_def Let_def index_complete_def indexBlock_def isCentral_def)
qed (simp add: sm_put_def raw_put_def Let_def)

lemma index_complete_del: "index_complete s \<Longrightarrow> index_complete (sm_del k s)"
  by (cases "isCentral k") (auto simp: sm_del_def dropCentral_def index_complete_def shard_del_def)

lemma index_complete_get: "sm_ok s \<Longrightarrow> index_complete s \<Longrightarrow> index_complete (snd (sm_get now k s))"
  by (simp add: sm_get_char index_complete_del)

lemma index_complete_get_eq: "sm_ok s \<Longrightarrow> index_complete s \<Longrightarrow> sm_get now k s = (r, s') \<Longrightarrow> index_complete s'"
  using index_complete_get [of s now k] by simp

lemma index_complete_sweep:
  assumes "sm_ok s" "index_complete s"
  shows "index_complete (janitor_sweep now s)"
proof -
  let ?m = "c_m (sm_central s)"
  have "map_wf ?m" using sm_ok_central [OF assms(1)] by simp
  then have "k \<in> mkeys (filter (\<lambda>p. \<not> entry_expired (snd p) now) ?m) \<Longrightarrow>
      \<exists>e. map_of ?m k = Some e \<and> \<not> entry_expired e now" for k
    using map_of_filter_kv [of ?m "\<lambda>_ e. \<not> entry_expired e now" k]
    by (auto simp: mkeys_iff split: option.splits if_splits)
  then show ?thesis
    using assms(2) by (fastforce simp: janitor_sweep_def index_complete_def Let_def mkeys_iff)
qed

text \<open>A call keeps the index complete unless it increments a block key.\<close>

fun increments_block :: "store_call \<Rightarrow> bool" where
  "increments_block (CallIncrByDeadline k d dl) = isCentral k"
| "increments_block _ = False"

lemma index_complete_incr:
  assumes "sm_ok s" "index_complete s" "get now k s = sm_get now k s" "\<And>e s. index_complete (put k e s) = index_complete s"
  shows "index_complete (snd (incrByDeadline get put now k d dl s))"
proof -
  obtain r s' where g: "sm_get now k s = (r, s')" by fastforce
  have "index_complete s'" by (rule index_complete_get_eq [OF assms(1,2) g])
  then show ?thesis by (auto simp: incrByDeadline_def assms(3,4) g split: option.splits)
qed

lemma index_complete_CommitBlock:
  assumes "sm_ok s" "index_complete s" "block_commit_wf c"
  shows "index_complete (snd (sm_CommitBlock now c s))"
proof -
  have nc: "\<not> isCentral (bc_HoldKey c)" "\<not> isCentral (bc_GuardKey c)" "\<not> isCentral (bc_CounterKey c)"
    using assms(3) by (simp_all add: block_commit_wf_def)
  obtain h s1 where g1: "sm_get now (bc_HoldKey c) s = (h, s1)" by fastforce
  obtain g s2 where g2: "sm_get now (bc_GuardKey c) s1 = (g, s2)" by fastforce
  obtain b s3 where g3: "sm_get now (bc_BlockKey c) s2 = (b, s3)" by fastforce
  obtain n s4 where g4: "sm_get now (bc_CounterKey c) s3 = (n, s4)" by fastforce
  note ok1 = sm_get_reads(2) [OF assms(1) g1]
  note ok2 = sm_get_reads(2) [OF ok1 g2]
  note ok3 = sm_get_reads(2) [OF ok2 g3]
  note i1 = index_complete_get_eq [OF assms(1,2) g1]
  note i2 = index_complete_get_eq [OF ok1 i1 g2]
  note i3 = index_complete_get_eq [OF ok2 i2 g3]
  note i4 = index_complete_get_eq [OF ok3 i3 g4]
  show ?thesis
    by (auto simp: sm_CommitBlock_def shard_get_eq nc central_get_eq g1 g2 g3 g4 Let_def
        assms(2) i1 i2 i3 i4 index_complete_put)
qed

lemma index_complete_CommitEvent:
  assumes "sm_ok s" "index_complete s" "event_commit_wf c"
  shows "index_complete (snd (sm_CommitEvent now c s))"
proof -
  have nc: "\<not> isCentral (ec_HoldKey c)" "\<not> isCentral (ec_CounterKey c)"
    using assms(3) by (simp_all add: event_commit_wf_def)
  obtain h s1 where g1: "sm_get now (ec_HoldKey c) s = (h, s1)" by fastforce
  note ok1 = sm_get_reads(2) [OF assms(1) g1]
  note i1 = index_complete_get_eq [OF assms(1,2) g1]
  define dl where "dl = (if ec_CounterTTL c > 0 then now + ec_CounterTTL c else 0)"
  have "index_complete (snd (incrByDeadline shard_get shard_put now (ec_CounterKey c) 1 dl s1))"
    by (rule index_complete_incr [OF ok1 i1]) (simp_all add: shard_get_eq nc)
  then show ?thesis
    by (auto simp: sm_CommitEvent_def shard_get_eq nc g1 i1 Let_def simp flip: dl_def
        split: prod.splits sum.splits)
qed

lemma index_complete_call:
  assumes "sm_ok s" "index_complete s" "call_wf c" "\<not> increments_block c"
  shows "index_complete (snd (exec_call sm_ops janitor_sweep now c s))"
proof (cases c)
  case (CallIncrByDeadline k d dl)
  then have "index_complete (snd (incrByDeadline sm_get raw_put now k d dl s))"
    using assms(4) by (intro index_complete_incr assms) (simp_all add: raw_put_def)
  then show ?thesis by (simp add: CallIncrByDeadline sm_ops_def sm_IncrByDeadline_def)
next
  case (CallCommitUnblock uc)
  then show ?thesis
    using assms(2) by (simp add: sm_ops_def sm_CommitUnblock_def Let_def index_complete_del)
qed (use assms in \<open>auto simp: sm_ops_def sm_Get_def sm_Set_def sm_Delete_def sm_CompareAndSwap_def
    sm_CompareAndDelete_def sm_get_char index_complete_put index_complete_del index_complete_CommitBlock
    index_complete_CommitEvent index_complete_sweep\<close>)

lemma exec_call_ok:
  "sm_ok s \<Longrightarrow> call_wf c \<Longrightarrow> sm_ok (snd (exec_call sm_ops janitor_sweep now c s))"
  using mem.call_refines [of s c now] by (simp add: refines_def)

lemma index_complete_trace:
  assumes "sm_ok s" "index_complete s" "list_all (\<lambda>(_, c). call_wf c \<and> \<not> increments_block c) cs"
  shows "sm_ok (snd (exec_trace sm_ops janitor_sweep cs s)) \<and> index_complete (snd (exec_trace sm_ops janitor_sweep cs s))"
  using assms
proof (induction cs arbitrary: s)
  case (Cons c cs)
  obtain now call where c: "c = (now, call)" by fastforce
  let ?s1 = "snd (exec_call sm_ops janitor_sweep now call s)"
  have "sm_ok ?s1" "index_complete ?s1"
    using Cons.prems exec_call_ok index_complete_call by (simp_all add: c)
  then show ?case using Cons by (simp add: c case_prod_beta Let_def)
qed simp

section \<open>Posture votes\<close>

definition live_votes :: "nanos \<Rightarrow> sharded_memory \<Rightarrow> (string \<times> posture_vote) set" where
  "live_votes now s = {p \<in> set (c_postureVotes (sm_central s)). \<not> vote_expired (snd p) now}"

lemma Max_insert_max:
  "finite A \<Longrightarrow> Max (insert a (insert b A)) = Max (insert (max a b) (A :: int set))"
  by (cases "A = {}") (simp_all add: max.assoc)

lemma fold_max_vote:
  "fold (\<lambda>p m. if fst p \<noteq> x \<and> pv_level (snd p) > m then pv_level (snd p) else m) ps (m0 :: int) =
     Max (insert m0 ((\<lambda>p. pv_level (snd p)) ` {p \<in> set ps. fst p \<noteq> x}))"
proof (induction ps arbitrary: m0)
  case (Cons p ps)
  let ?A = "(\<lambda>p. pv_level (snd p)) ` {p \<in> set ps. fst p \<noteq> x}"
  show ?case
  proof (cases "fst p = x")
    case True
    then have "{q \<in> set (p # ps). fst q \<noteq> x} = {q \<in> set ps. fst q \<noteq> x}" by auto
    then show ?thesis using Cons.IH True by simp
  next
    case False
    then have eq: "(\<lambda>p. pv_level (snd p)) ` {q \<in> set (p # ps). fst q \<noteq> x} = insert (pv_level (snd p)) ?A"
      by auto
    have "(if m0 < pv_level (snd p) then pv_level (snd p) else m0) = max m0 (pv_level (snd p))" by auto
    then show ?thesis
      using Cons.IH [of "max m0 (pv_level (snd p))"] False unfolding eq
      by (simp add: Max_insert_max del: Max_insert)
  qed
qed simp

lemma MaxPostureVote_value:
  "fst (sm_MaxPostureVote now x s) =
     Inr (Max (insert 0 ((\<lambda>p. pv_level (snd p)) ` {p \<in> live_votes now s. fst p \<noteq> x})))"
  unfolding sm_MaxPostureVote_def live_votes_def Let_def fst_conv fold_max_vote
  by (simp add: conj_ac)

section \<open>Locks\<close>

text \<open>
  Lock 0 is the central mutex, lock \<open>i + 1\<close> the mutex of shard \<open>i\<close>. \<open>lock_sections\<close> gives the critical
  sections of a method in the order the code enters them, each with its mutexes in the order of the
  \<^verbatim>\<open>Lock\<close> calls. A multi-key commit is one section; the janitor's sweep and the full scan go
  through the shards and the central struct one mutex at a time.
\<close>

datatype store_method =
    Call store_call
  | CallGetWithExpiry string
  | CallExpiresAt string
  | CallScanLimit string int
  | CallScanActiveBlocks string int
  | CallSetPostureVote string int nanos
  | CallDeletePostureVote string
  | CallMaxPostureVote string

definition lockOf :: "sharded_memory \<Rightarrow> string \<Rightarrow> nat" where
  "lockOf s key = (if isCentral key then 0 else Suc (shardIdx s key))"

definition block_commit_locks :: "sharded_memory \<Rightarrow> block_commit \<Rightarrow> nat list" where
  "block_commit_locks s c = 0 # map Suc (lockShardKeys s [bc_GuardKey c, bc_HoldKey c, bc_CounterKey c])"

definition unblock_commit_locks :: "sharded_memory \<Rightarrow> unblock_commit \<Rightarrow> nat list" where
  "unblock_commit_locks s c = 0 # map Suc (lockShardKeys s [uc_HoldKey c, uc_GenerationKey c, uc_CounterKey c])"

definition sweep_sections :: "sharded_memory \<Rightarrow> nat list list" where
  "sweep_sections s = map (\<lambda>i. [Suc i]) [0..<length (sm_shards s)] @ [[0]]"

definition scan_sections :: "sharded_memory \<Rightarrow> nat list list" where
  "scan_sections s = map (\<lambda>i. [Suc i]) [0..<length (sm_shards s)] @ [[0]]"

fun lock_sections :: "sharded_memory \<Rightarrow> store_method \<Rightarrow> nat list list" where
  "lock_sections s (Call (CallGet k)) = [[lockOf s k]]"
| "lock_sections s (Call (CallSet k _ _)) = [[lockOf s k]]"
| "lock_sections s (Call (CallDelete k)) = [[lockOf s k]]"
| "lock_sections s (Call (CallIncrByDeadline k _ _)) = [[lockOf s k]]"
| "lock_sections s (Call (CallCompareAndSwap k _ _ _)) = [[lockOf s k]]"
| "lock_sections s (Call (CallCompareAndDelete k old)) = (if old = None then [] else [[lockOf s k]])"
| "lock_sections s (Call (CallCommitBlock c)) = (if isCentral (bc_BlockKey c) then [block_commit_locks s c] else [])"
| "lock_sections s (Call (CallCommitEvent c)) = [map Suc (commitEventLocks s c)]"
| "lock_sections s (Call (CallCommitUnblock c)) = (if isCentral (uc_BlockKey c) then [unblock_commit_locks s c] else [])"
| "lock_sections s (Call CallSweep) = sweep_sections s"
| "lock_sections s (CallGetWithExpiry k) = [[lockOf s k]]"
| "lock_sections s (CallExpiresAt k) = [[lockOf s k]]"
| "lock_sections s (CallScanLimit _ _) = scan_sections s"
| "lock_sections s (CallScanActiveBlocks pre _) = (if pre \<noteq> ''block:'' then [] else [[0]])"
| "lock_sections s (CallSetPostureVote _ level ttl) = (if level < 1 \<or> level > 2 \<or> ttl \<le> 0 then [] else [[0]])"
| "lock_sections s (CallDeletePostureVote _) = [[0]]"
| "lock_sections s (CallMaxPostureVote _) = [[0]]"

text \<open>What a method does to the store, by the definitions of \<^verbatim>\<open>Sharded_Memory\<close>.\<close>

fun exec_method :: "nanos \<Rightarrow> store_method \<Rightarrow> sharded_memory \<Rightarrow> sharded_memory" where
  "exec_method now (Call c) s = snd (exec_call sm_ops janitor_sweep now c s)"
| "exec_method now (CallGetWithExpiry k) s = snd (sm_GetWithExpiry now k s)"
| "exec_method now (CallExpiresAt k) s = snd (sm_ExpiresAt now k s)"
| "exec_method now (CallScanLimit pre limit) s = s"
| "exec_method now (CallScanActiveBlocks pre limit) s = snd (sm_ScanActiveBlocks now pre limit s)"
| "exec_method now (CallSetPostureVote inst level ttl) s = snd (sm_SetPostureVote now inst level ttl s)"
| "exec_method now (CallDeletePostureVote inst) s = snd (sm_DeletePostureVote now inst s)"
| "exec_method now (CallMaxPostureVote inst) s = snd (sm_MaxPostureVote now inst s)"

fun method_wf :: "store_method \<Rightarrow> bool" where
  "method_wf (Call c) = call_wf c"
| "method_wf _ = True"

subsection \<open>Every write is under its mutex\<close>

definition guarded :: "nat set \<Rightarrow> sharded_memory \<Rightarrow> sharded_memory \<Rightarrow> bool" where
  "guarded L s s' \<longleftrightarrow>
     sm_mask s' = sm_mask s \<and> length (sm_shards s') = length (sm_shards s) \<and>
     (sm_central s' \<noteq> sm_central s \<longrightarrow> 0 \<in> L) \<and>
     (\<forall>i < length (sm_shards s). sm_shards s' ! i \<noteq> sm_shards s ! i \<longrightarrow> Suc i \<in> L)"

lemma guarded_refl [simp]: "guarded L s s"
  by (simp add: guarded_def)

lemma guarded_trans: "guarded L s s1 \<Longrightarrow> guarded L s1 s2 \<Longrightarrow> guarded L s s2"
  unfolding guarded_def by metis

lemma guarded_idx: "guarded L s s' \<Longrightarrow> shardIdx s' k = shardIdx s k"
  by (simp add: guarded_def shardIdx_def)

lemma guarded_putShard: "Suc (shardIdx s k) \<in> L \<Longrightarrow> guarded L s (putShard s k m)"
  unfolding guarded_def putShard_def by (auto simp: nth_list_update split: if_splits) (metis nth_list_update_neq)

lemma guarded_central: "0 \<in> L \<Longrightarrow> guarded L s (s\<lparr>sm_central := c\<rparr>)"
  by (simp add: guarded_def)

lemma guarded_prims:
  "Suc (shardIdx s k) \<in> L \<Longrightarrow> guarded L s (snd (shard_get now k s))"
  "Suc (shardIdx s k) \<in> L \<Longrightarrow> guarded L s (shard_put k e s)"
  "Suc (shardIdx s k) \<in> L \<Longrightarrow> guarded L s (shard_del k s)"
  "0 \<in> L \<Longrightarrow> guarded L s (snd (central_get now k s))"
  by (simp_all add: shard_get_def shard_put_def shard_del_def central_get_def case_prod_beta guarded_putShard guarded_central Let_def)

lemma guarded_key_prims:
  "lockOf s k \<in> L \<Longrightarrow> guarded L s (snd (sm_get now k s))"
  "lockOf s k \<in> L \<Longrightarrow> guarded L s (raw_put k e s)"
  "lockOf s k \<in> L \<Longrightarrow> guarded L s (sm_del k s)"
  by (auto simp: lockOf_def sm_get_def raw_put_def sm_del_def guarded_prims guarded_central split: if_splits)

lemma guarded_put: "lockOf s k \<in> L \<Longrightarrow> guarded L s (sm_put k e s)"
  unfolding sm_put_def Let_def
  using guarded_key_prims(2) [of s k L e]
  by (auto simp: lockOf_def intro: guarded_trans [OF _ guarded_central])

lemma lockOf_guarded: "guarded L s s' \<Longrightarrow> lockOf s' k = lockOf s k"
  by (simp add: lockOf_def guarded_idx)

lemma guarded_incr:
  assumes "guarded L s (snd (g now k s))" "\<And>s' e. guarded L s s' \<Longrightarrow> guarded L s' (p k e s')"
  shows "guarded L s (snd (incrByDeadline g p now k d dl s))"
proof -
  obtain r s1 where g: "g now k s = (r, s1)" by fastforce
  have "guarded L s s1" using assms(1) g by simp
  then show ?thesis using assms(2) guarded_trans
    by (auto simp: incrByDeadline_def g Let_def split: option.splits)
qed

lemma guarded_CompareAndSwap: "lockOf s k \<in> L \<Longrightarrow> guarded L s (snd (sm_CompareAndSwap now k old x ttl s))"
proof -
  assume L: "lockOf s k \<in> L"
  obtain r s1 where g: "sm_get now k s = (r, s1)" by fastforce
  have "guarded L s s1" using guarded_key_prims(1) [OF L, of now] g by simp
  then show ?thesis using L lockOf_guarded guarded_trans [OF _ guarded_put]
    by (auto simp: sm_CompareAndSwap_def g)
qed

lemma guarded_CompareAndDelete: "lockOf s k \<in> L \<Longrightarrow> guarded L s (snd (sm_CompareAndDelete now k old s))"
proof -
  assume L: "lockOf s k \<in> L"
  obtain r s1 where g: "sm_get now k s = (r, s1)" by fastforce
  have "guarded L s s1" using guarded_key_prims(1) [OF L, of now] g by simp
  then show ?thesis using L lockOf_guarded guarded_trans [OF _ guarded_key_prims(3)]
    by (auto simp: sm_CompareAndDelete_def g)
qed

lemma lockShardKeys_has: "k \<in> set keys \<Longrightarrow> \<not> isCentral k \<Longrightarrow> shardIdx s k \<in> set (lockShardKeys s keys)"
  by (simp add: lockShardKeys_def)

lemma block_commit_locks_has:
  "block_commit_wf c \<Longrightarrow> 0 \<in> set (block_commit_locks s c) \<and>
     Suc (shardIdx s (bc_HoldKey c)) \<in> set (block_commit_locks s c) \<and>
     Suc (shardIdx s (bc_GuardKey c)) \<in> set (block_commit_locks s c) \<and>
     Suc (shardIdx s (bc_CounterKey c)) \<in> set (block_commit_locks s c)"
  by (simp add: block_commit_locks_def block_commit_wf_def lockShardKeys_has)

lemma guarded_CommitBlock:
  assumes "block_commit_wf c" "isCentral (bc_BlockKey c)"
  shows "guarded (set (block_commit_locks s c)) s (snd (sm_CommitBlock now c s))"
proof -
  let ?L = "set (block_commit_locks s c)"
  obtain r1 s1 where g1: "shard_get now (bc_HoldKey c) s = (r1, s1)" by fastforce
  obtain r2 s2 where g2: "shard_get now (bc_GuardKey c) s1 = (r2, s2)" by fastforce
  obtain r3 s3 where g3: "central_get now (bc_BlockKey c) s2 = (r3, s3)" by fastforce
  obtain r4 s4 where g4: "shard_get now (bc_CounterKey c) s3 = (r4, s4)" by fastforce
  note has = block_commit_locks_has [OF assms(1), of s]
  have 1: "guarded ?L s s1" using guarded_prims(1) [of s _ ?L now] has g1 by (metis snd_conv)
  have 2: "guarded ?L s s2" using guarded_trans [OF 1 guarded_prims(1) [of s1 "bc_GuardKey c" ?L now]] has g2 guarded_idx [OF 1] by simp
  have 3: "guarded ?L s s3" using guarded_trans [OF 2 guarded_prims(4) [of ?L s2 now "bc_BlockKey c"]] has g3 by simp
  have 4: "guarded ?L s s4" using guarded_trans [OF 3 guarded_prims(1) [of s3 "bc_CounterKey c" ?L now]] has g4 guarded_idx [OF 3] by simp
  have 5: "guarded ?L s (shard_put (bc_CounterKey c) e s4)" for e
    using guarded_trans [OF 4 guarded_prims(2) [of s4 "bc_CounterKey c" ?L]] has guarded_idx [OF 4] by simp
  have 6: "guarded ?L s (sm_put (bc_BlockKey c) e' (shard_put (bc_CounterKey c) e s4))" for e e'
    using guarded_trans [OF 5 guarded_put] has assms(2) by (simp add: lockOf_def)
  show ?thesis using 1 2 3 6 assms(2)
    by (simp add: sm_CommitBlock_def g1 g2 g3 g4 Let_def)
qed

lemma commitEventLocks_set: "set (commitEventLocks s c) = {shardIdx s (ec_HoldKey c), shardIdx s (ec_CounterKey c)}"
  by (auto simp: commitEventLocks_def Let_def)

lemma guarded_CommitEvent: "guarded (set (map Suc (commitEventLocks s c))) s (snd (sm_CommitEvent now c s))"
proof -
  let ?L = "set (map Suc (commitEventLocks s c))"
  obtain r1 s1 where g1: "shard_get now (ec_HoldKey c) s = (r1, s1)" by fastforce
  have has: "Suc (shardIdx s (ec_HoldKey c)) \<in> ?L" "Suc (shardIdx s (ec_CounterKey c)) \<in> ?L" by (simp_all add: commitEventLocks_set)
  have 1: "guarded ?L s s1" using guarded_prims(1) [OF has(1), of now] g1 by simp
  have "Suc (shardIdx s1 (ec_CounterKey c)) \<in> ?L" using has(2) guarded_idx [OF 1] by simp
  then have "guarded ?L s1 (snd (incrByDeadline shard_get shard_put now (ec_CounterKey c) 1 dl s1))" for dl
    by (intro guarded_incr guarded_prims) (simp_all add: guarded_idx)
  then have "guarded ?L s (snd (incrByDeadline shard_get shard_put now (ec_CounterKey c) 1 dl s1))" for dl
    using guarded_trans [OF 1] by blast
  then have g: "incrByDeadline shard_get shard_put now (ec_CounterKey c) 1 dl s1 = (x, s2) \<Longrightarrow> guarded ?L s s2" for dl x s2
    by (metis snd_conv)
  obtain x s2 where i: "incrByDeadline shard_get shard_put now (ec_CounterKey c) 1
      (if ec_CounterTTL c > 0 then now + ec_CounterTTL c else 0) s1 = (x, s2)" by fastforce
  show ?thesis using 1 g [OF i]
    by (simp only: sm_CommitEvent_def g1 Let_def prod.case i) (auto split: sum.splits)
qed

lemma guarded_CommitUnblock:
  assumes "unblock_commit_wf c" "isCentral (uc_BlockKey c)"
  shows "guarded (set (unblock_commit_locks s c)) s (snd (sm_CommitUnblock now c s))"
proof -
  let ?L = "set (unblock_commit_locks s c)"
  have has: "0 \<in> ?L" "Suc (shardIdx s (uc_HoldKey c)) \<in> ?L" "Suc (shardIdx s (uc_GenerationKey c)) \<in> ?L"
      "Suc (shardIdx s (uc_CounterKey c)) \<in> ?L"
    using assms(1) by (simp_all add: unblock_commit_locks_def unblock_commit_wf_def lockShardKeys_has)
  let ?s1 = "\<lambda>h. shard_put (uc_HoldKey c) h s"
  let ?s2 = "\<lambda>h g. shard_put (uc_GenerationKey c) g (?s1 h)"
  have 1: "guarded ?L s (?s1 h)" for h using guarded_prims(2) has(2) by blast
  have 2: "guarded ?L s (?s2 h g)" for h g
    using guarded_trans [OF 1 guarded_prims(2)] has(3) guarded_idx [OF 1] by simp
  have 3: "guarded ?L s (sm_del (uc_BlockKey c) (?s2 h g))" for h g
    using guarded_trans [OF 2 guarded_key_prims(3)] has(1) assms(2) by (simp add: lockOf_def)
  have 4: "guarded ?L s (shard_del (uc_CounterKey c) (sm_del (uc_BlockKey c) (?s2 h g)))" for h g
    using guarded_trans [OF 3 guarded_prims(3)] has(4) guarded_idx [OF 3] by simp
  show ?thesis using 3 4 assms(2) by (simp add: sm_CommitUnblock_def Let_def)
qed

lemma guarded_sweep: "guarded (set (concat (sweep_sections s))) s (janitor_sweep now s)"
  by (auto simp: guarded_def sweep_sections_def) (simp_all add: janitor_sweep_def Let_def)

lemma refused_commits:
  "snd (sm_CompareAndDelete now k None s) = s"
  "\<not> isCentral (bc_BlockKey bc) \<Longrightarrow> snd (sm_CommitBlock now bc s) = s"
  "\<not> isCentral (uc_BlockKey uc) \<Longrightarrow> snd (sm_CommitUnblock now uc s) = s"
  by (simp_all add: sm_CompareAndDelete_def sm_CommitBlock_def sm_CommitUnblock_def)

lemma method_guarded:
  assumes "method_wf m"
  shows "guarded (set (concat (lock_sections s m))) s (exec_method now m s)"
proof (cases m)
  case (Call c)
  have get: "guarded {lockOf s k} s (snd (sm_get now k s))" for k by (simp add: guarded_key_prims)
  show ?thesis
  proof (cases c)
    case (CallCommitBlock bc)
    then show ?thesis using assms by (cases "isCentral (bc_BlockKey bc)") (simp_all add: Call sm_ops_def guarded_CommitBlock refused_commits)
  next
    case (CallCommitUnblock uc)
    then show ?thesis using assms by (cases "isCentral (uc_BlockKey uc)") (simp_all add: Call sm_ops_def guarded_CommitUnblock refused_commits)
  next
    case (CallIncrByDeadline k d dl)
    then show ?thesis
      by (auto simp: Call sm_ops_def sm_IncrByDeadline_def intro!: guarded_incr guarded_key_prims dest: lockOf_guarded)
  qed (use assms get in \<open>auto simp: Call sm_ops_def sm_Get_def sm_Set_def sm_Delete_def case_prod_beta guarded_put guarded_key_prims
      guarded_CompareAndSwap guarded_CompareAndDelete guarded_CommitEvent [simplified]
      guarded_sweep [unfolded set_concat] refused_commits\<close>)
next
  case (CallScanActiveBlocks pre limit)
  then show ?thesis by (auto simp: sm_ScanActiveBlocks_def guarded_central split: prod.splits)
qed (auto simp: sm_GetWithExpiry_def sm_ExpiresAt_def sm_SetPostureVote_def sm_DeletePostureVote_def sm_MaxPostureVote_def Let_def
    case_prod_beta guarded_key_prims guarded_central)

lemma lock_sections_layout:
  assumes "guarded L s s'"
  shows "lock_sections s' m = lock_sections s m"
proof -
  have eq: "shardIdx s' = shardIdx s" "length (sm_shards s') = length (sm_shards s)"
    using guarded_idx [OF assms] assms by (auto simp: fun_eq_iff guarded_def)
  note defs = lockOf_def block_commit_locks_def unblock_commit_locks_def lockShardKeys_def commitEventLocks_def
    sweep_sections_def scan_sections_def
  show ?thesis
  proof (cases m)
    case (Call c)
    then show ?thesis by (cases c) (simp_all add: eq defs)
  qed (simp_all add: eq defs)
qed

subsection \<open>Threads that take the mutexes\<close>

text \<open>
  A thread runs its methods one after another; for each it enters the critical sections in order, locks
  the mutexes of a section one by one, waits while another thread holds the next one, and unlocks them in
  reverse order. A Go mutex is not reentrant, so a thread would also wait for itself.
\<close>

record lock_thread =
  lt_held :: "nat list"
  lt_want :: "nat list"
  lt_sections :: "nat list list"
  lt_calls :: "store_method list"

definition about_to_call :: "store_method list \<Rightarrow> lock_thread" where
  "about_to_call ms = \<lparr>lt_held = [], lt_want = [], lt_sections = [], lt_calls = ms\<rparr>"

inductive lock_step :: "sharded_memory \<Rightarrow> ('t \<Rightarrow> lock_thread) \<Rightarrow> ('t \<Rightarrow> lock_thread) \<Rightarrow> bool" for s where
  Begin: "T t = about_to_call (m # ms) \<Longrightarrow>
     lock_step s T (T(t := (about_to_call ms)\<lparr>lt_sections := lock_sections s m\<rparr>))"
| Enter: "lt_held (T t) = [] \<Longrightarrow> lt_want (T t) = [] \<Longrightarrow> lt_sections (T t) = ls # lss \<Longrightarrow>
     lock_step s T (T(t := (T t)\<lparr>lt_want := ls, lt_sections := lss\<rparr>))"
| Acquire: "lt_want (T t) = l # ls \<Longrightarrow> \<forall>u. l \<notin> set (lt_held (T u)) \<Longrightarrow>
     lock_step s T (T(t := (T t)\<lparr>lt_held := lt_held (T t) @ [l], lt_want := ls\<rparr>))"
| Release: "lt_want (T t) = [] \<Longrightarrow> lt_held (T t) \<noteq> [] \<Longrightarrow>
     lock_step s T (T(t := (T t)\<lparr>lt_held := butlast (lt_held (T t))\<rparr>))"

definition finished :: "lock_thread \<Rightarrow> bool" where
  "finished th \<longleftrightarrow> th = about_to_call []"

text \<open>How many steps a thread has left: one per call and per section, and a lock and an unlock per mutex.\<close>

definition section_work :: "nat list list \<Rightarrow> nat" where
  "section_work lss = (\<Sum>ls\<leftarrow>lss. 1 + 2 * length ls)"

definition calls_work :: "sharded_memory \<Rightarrow> store_method list \<Rightarrow> nat" where
  "calls_work s ms = (\<Sum>m\<leftarrow>ms. 1 + section_work (lock_sections s m))"

definition thread_work :: "sharded_memory \<Rightarrow> lock_thread \<Rightarrow> nat" where
  "thread_work s th = length (lt_held th) + 2 * length (lt_want th) + section_work (lt_sections th) + calls_work s (lt_calls th)"

lemma work_simps [simp]:
  "section_work [] = 0" "section_work (ls # lss) = 1 + 2 * length ls + section_work lss"
  "calls_work s [] = 0" "calls_work s (m # ms) = 1 + section_work (lock_sections s m) + calls_work s ms"
  "thread_work s (about_to_call ms) = calls_work s ms"
  by (simp_all add: section_work_def calls_work_def thread_work_def about_to_call_def)

lemma idle_iff: "th = about_to_call ms \<longleftrightarrow> lt_held th = [] \<and> lt_want th = [] \<and> lt_sections th = [] \<and> lt_calls th = ms"
  by (cases th) (auto simp: about_to_call_def)

lemma thread_work_0: "thread_work s th = 0 \<longleftrightarrow> finished th"
  by (cases th; cases "lt_sections th"; cases "lt_calls th")
    (auto simp: thread_work_def finished_def about_to_call_def)

subsection \<open>The order of the mutexes\<close>

lemma strict_sorted_remdups_adj: "sorted xs \<Longrightarrow> sorted_wrt (<) (remdups_adj (xs :: nat list))"
  by (induction xs rule: remdups_adj.induct) (auto simp: le_less)

lemma sorted_lockShardKeys: "sorted_wrt (<) (lockShardKeys s keys)"
  by (simp add: lockShardKeys_def strict_sorted_remdups_adj)

lemma sorted_lock_sections: "ls \<in> set (lock_sections s m) \<Longrightarrow> sorted_wrt (<) ls"
proof (cases m)
  case (Call c)
  show "ls \<in> set (lock_sections s m) \<Longrightarrow> sorted_wrt (<) ls"
    using sorted_lockShardKeys [of s]
    by (cases c) (auto simp: Call block_commit_locks_def unblock_commit_locks_def sweep_sections_def sorted_wrt_map
        commitEventLocks_def Let_def split: if_splits)
qed (auto simp: scan_sections_def split: if_splits)

definition lock_inv :: "'t set \<Rightarrow> ('t \<Rightarrow> lock_thread) \<Rightarrow> bool" where
  "lock_inv D T \<longleftrightarrow>
     (\<forall>t. sorted_wrt (<) (lt_held (T t) @ lt_want (T t)) \<and> (\<forall>ls \<in> set (lt_sections (T t)). sorted_wrt (<) ls)) \<and>
     (\<forall>t u. t \<noteq> u \<longrightarrow> set (lt_held (T t)) \<inter> set (lt_held (T u)) = {}) \<and>
     (\<forall>t. t \<notin> D \<longrightarrow> finished (T t))"

lemma lock_inv_step:
  assumes "lock_step s T T'" "lock_inv D T"
  shows "lock_inv D T'"
  using assms
proof cases
  case (Begin t m ms)
  then show ?thesis using assms(2) sorted_lock_sections [of _ s m]
    by (auto simp: lock_inv_def about_to_call_def finished_def)
next
  case (Enter t ls lss)
  have "t \<in> D" using Enter(4) assms(2) by (auto simp: lock_inv_def finished_def about_to_call_def)
  moreover have "\<forall>x \<in> set (ls # lss). sorted_wrt (<) x" using assms(2) Enter(4) unfolding lock_inv_def by metis
  ultimately show ?thesis using Enter assms(2) by (auto simp: lock_inv_def)
next
  case (Acquire t l ls)
  have "t \<in> D" using Acquire(2) assms(2) by (auto simp: lock_inv_def finished_def about_to_call_def)
  then show ?thesis using Acquire assms(2) unfolding lock_inv_def by (auto; metis append_Cons append_assoc append_Nil)
next
  case (Release t)
  have "t \<in> D" using Release(3) assms(2) by (auto simp: lock_inv_def finished_def about_to_call_def)
  moreover have "sorted_wrt (<) (butlast xs)" if "sorted_wrt (<) xs" for xs :: "nat list"
    using that by (cases xs rule: rev_cases) (auto simp: sorted_wrt_append)
  moreover from this have "sorted_wrt (<) (butlast (lt_held (T t)))" using assms(2) unfolding lock_inv_def sorted_wrt_append by blast
  moreover have "set (butlast (lt_held (T t))) \<subseteq> set (lt_held (T t))" by (auto dest: in_set_butlastD)
  ultimately show ?thesis using Release(1,2) assms(2) unfolding lock_inv_def by (simp add: finished_def idle_iff) blast
qed

lemma lock_step_work:
  assumes "lock_step s T T'" "lock_inv D T" "finite D"
  shows "(\<Sum>t\<in>D. thread_work s (T t)) = Suc (\<Sum>t\<in>D. thread_work s (T' t))"
proof -
  obtain t where t: "T' = T(t := T' t)" "thread_work s (T t) = Suc (thread_work s (T' t))"
    using assms(1)
  proof cases
    case (Acquire t l ls)
    then show ?thesis by (intro that [of t]) (simp_all add: thread_work_def)
  qed (auto intro: that simp: thread_work_def about_to_call_def)
  have "t \<in> D" using t(2) assms(2) thread_work_0 [of s "T t"] by (auto simp: lock_inv_def)
  then have "sum (\<lambda>t. thread_work s (U t)) D = thread_work s (U t) + sum (\<lambda>t. thread_work s (U t)) (D - {t})" for U
    using assms(3) by (simp add: sum.remove)
  moreover have "sum (\<lambda>t. thread_work s (T' t)) (D - {t}) = sum (\<lambda>t. thread_work s (T t)) (D - {t})"
    by (rule sum.cong) (use t(1) in \<open>auto, metis fun_upd_other\<close>)
  ultimately show ?thesis using t(2) by simp
qed

text \<open>
  A thread that cannot step waits for a mutex another unfinished thread holds; the mutexes waited for
  would grow along the chain of holders.
\<close>

lemma lock_progress:
  assumes "finite D" "lock_inv D T" "\<not> finished (T a)"
  shows "\<exists>T'. lock_step s T T'"
proof (rule ccontr)
  assume stuck: "\<nexists>T'. lock_step s T T'"
  let ?B = "{t. \<not> finished (T t)}"
  have "?B \<subseteq> D" using assms(2) by (auto simp: lock_inv_def)
  then have B: "finite ?B" using assms(1) by (rule finite_subset)
  have want: "lt_want (T t) \<noteq> [] \<and> (\<exists>u. hd (lt_want (T t)) \<in> set (lt_held (T u)))" if tB: "t \<in> ?B" for t
  proof -
    have w: "lt_want (T t) \<noteq> []"
    proof
      assume n: "lt_want (T t) = []"
      then have "lt_held (T t) = []" "lt_sections (T t) = []"
        using stuck Release [of T t s] Enter [of T t _ _ s] by (auto, meson list.exhaust)
      moreover from this n obtain m ms where "lt_calls (T t) = m # ms"
        using tB by (cases "lt_calls (T t)") (auto simp: finished_def idle_iff)
      ultimately show False using stuck Begin [of T t m ms s] n by (auto simp: idle_iff)
    qed
    then show ?thesis using stuck Acquire [of T t _ _ s] by (metis list.collapse)
  qed
  let ?W = "(\<lambda>t. hd (lt_want (T t))) ` ?B"
  have fin: "finite ?W" "?W \<noteq> {}" using B assms(3) by auto
  obtain t where t: "t \<in> ?B" "hd (lt_want (T t)) = Max ?W" using Max_in [OF fin] by auto
  obtain u where u: "hd (lt_want (T t)) \<in> set (lt_held (T u))" using want [OF t(1)] by blast
  then have uB: "u \<in> ?B" by (auto simp: finished_def about_to_call_def)
  then have "hd (lt_want (T t)) < hd (lt_want (T u))"
    using want [OF uB] u assms(2) unfolding lock_inv_def sorted_wrt_append by (meson hd_in_set)
  moreover have "hd (lt_want (T u)) \<le> Max ?W" using fin uB by simp
  ultimately show False using t(2) by simp
qed

lemma lock_run:
  assumes "(lock_step s ^^ k) T0 T" "lock_inv D T0" "finite D"
  shows "lock_inv D T \<and> (\<Sum>t\<in>D. thread_work s (T0 t)) = k + (\<Sum>t\<in>D. thread_work s (T t))"
  using assms(1)
proof (induction k arbitrary: T)
  case (Suc k)
  then obtain T1 where T1: "(lock_step s ^^ k) T0 T1" "lock_step s T1 T" by auto
  then show ?case using Suc.IH [OF T1(1)] lock_inv_step [OF T1(2)] lock_step_work [OF T1(2) _ assms(3)] by fastforce
qed (simp add: assms(2))

lemma lock_inv_start: "(\<And>t. t \<notin> D \<Longrightarrow> calls t = []) \<Longrightarrow> lock_inv D (\<lambda>t. about_to_call (calls t))"
  by (simp add: lock_inv_def about_to_call_def finished_def)

section \<open>Rounding the shard count\<close>

lemma least_power_of_two:
  assumes "j = 0 \<or> 2 ^ (j - 1) < (n :: int)" "n \<le> 2 ^ i"
  shows "(2::int) ^ j \<le> 2 ^ i"
proof (cases "j = 0")
  case False
  then have "(2::int) ^ (j - 1) < 2 ^ i" using assms by linarith
  then have "j - 1 < i" by (rule power_less_imp_less_exp [rotated]) simp
  then show ?thesis by (intro power_increasing) auto
qed simp

text \<open>Past \<open>2 ^ 62\<close> the doubling goes through the smallest integer to 0 and stays there.\<close>

definition wraps :: "int \<Rightarrow> int \<Rightarrow> bool" where
  "wraps n p \<longleftrightarrow> 2 ^ 62 < n \<and> (p = 0 \<or> p = - (2 ^ 63) \<or> (\<exists>i \<le> 62. p = 2 ^ i))"

lemma wraps_less: "wraps n p \<Longrightarrow> p < n"
proof -
  assume w: "wraps n p"
  have le: "(2::int) ^ i \<le> 2 ^ 62" if "i \<le> 62" for i :: nat using that by (intro power_increasing) simp_all
  show ?thesis using w unfolding wraps_def by (elim conjE disjE exE) (use le in fastforce)+
qed

lemma wraps_step: "wraps n p \<Longrightarrow> wraps n (wrap64 (p * 2))"
proof -
  assume w: "wraps n p"
  have z: "wrap64 0 = 0" "wrap64 (- (2 ^ 63) * 2) = 0" "wrap64 (2 ^ 62 * 2) = - (2 ^ 63)" by (simp_all add: wrap64_def)
  consider "p = 0" | "p = - (2 ^ 63)" | "p = 2 ^ 62" | i where "i < 62" "p = 2 ^ i"
    using w unfolding wraps_def by (metis le_neq_implies_less)
  then show ?thesis
  proof cases
    case (4 i)
    have "(2::int) ^ Suc i \<le> 2 ^ 62" using 4(1) by (intro power_increasing) simp_all
    then have "int64 (2 ^ Suc i)" by (intro int64_nonneg [rotated]) simp_all
    then have "wrap64 (p * 2) = 2 ^ Suc i" using 4(2) by (simp add: wrap64_id mult.commute)
    then show ?thesis using w 4(1) unfolding wraps_def by (metis Suc_leI)
  qed (use w z in \<open>simp_all add: wraps_def\<close>)
qed

lemma pow2_loop_diverges: "pow2_loop n p = Some r \<Longrightarrow> \<not> wraps n p"
proof (rule pow2_loop.raw_induct [where P = "\<lambda>n p r. \<not> wraps n p"])
  fix loop :: "int \<Rightarrow> int \<Rightarrow> int option" and n p r
  assume IH: "\<And>n p r. loop n p = Some r \<Longrightarrow> \<not> wraps n p" and b: "(if p < n then loop n (wrap64 (p * 2)) else Some p) = Some r"
  show "\<not> wraps n p"
  proof
    assume "wraps n p"
    then show False using IH b wraps_less wraps_step by (metis (full_types))
  qed
qed

lemma nextPow2_diverges: "2 ^ 62 < n \<Longrightarrow> nextPow2 n = None"
proof (rule ccontr)
  assume n: "2 ^ 62 < n" "nextPow2 n \<noteq> None"
  then obtain r where "pow2_loop n 1 = Some r" by (auto simp: nextPow2_def)
  moreover have "wraps n 1" unfolding wraps_def using n(1) by (intro conjI disjI2 exI [of _ 0]) simp_all
  ultimately show False using pow2_loop_diverges by blast
qed

section \<open>Properties\<close>

text \<open>
  C8 (refinement). Whatever well-formed calls clients make in whatever order, interleaved with any
  number of janitor sweeps, a fresh sharded store answers each of them exactly as one plain map from
  keys to entries would: sharding, deletion on read and sweeping are unobservable.
\<close>

theorem memory_trace_refines:
  assumes "NewShardedMemory n = Some s" "n \<le> 2 ^ 32" "trace_wf t0 cs"
  shows "fst (exec_trace sm_ops janitor_sweep cs s) = fst (spec_trace cs Map.empty)"
proof -
  have init: "sm_ok s" "\<And>t. sm_live s t = alive Map.empty t"
    using NewShardedMemory_ok [OF assms(2,1)] by (auto simp: alive_def fun_eq_iff)
  obtain rs s' rs' m' where "exec_trace sm_ops janitor_sweep cs s = (rs, s')" "spec_trace cs Map.empty = (rs', m')"
    by fastforce
  with mem.trace_refines [OF init(1) assms(3) init(2)] show ?thesis by simp
qed

definition trace_example :: "(nanos \<times> store_call) list" where
  "trace_example = [(0, CallSet ''a'' ''x'' 5), (3, CallGet ''a''), (9, CallSweep), (9, CallGet ''a'')]"

theorem memory_trace_refines_witness:
  "\<exists>s. NewShardedMemory 1 = Some s \<and>
     fst (exec_trace sm_ops janitor_sweep trace_example s) =
       [ReplyUnit (Inr ()), ReplyValue (Inr (Some ''x'')), ReplyUnit (Inr ()), ReplyValue (Inr None)]"
proof -
  obtain s where s: "NewShardedMemory 1 = Some s"
    by (simp add: NewShardedMemory_def nextPow2_def pow2_loop.simps)
  have "trace_wf 0 trace_example" by (simp add: trace_example_def trace_wf_def)
  then have "fst (exec_trace sm_ops janitor_sweep trace_example s) = fst (spec_trace trace_example Map.empty)"
    using memory_trace_refines [OF s] by simp
  also have "\<dots> = [ReplyUnit (Inr ()), ReplyValue (Inr (Some ''x'')), ReplyUnit (Inr ()), ReplyValue (Inr None)]"
    by (simp add: trace_example_def spec_Set_def spec_Get_def write_effects_def alive_def)
  finally show ?thesis using s by blast
qed

text \<open>
  After any history that makes no increment of a block key, the indexed walk of
  \<^verbatim>\<open>ScanActiveBlocks\<close> returns exactly what the full scan of the \<open>block:\<close> namespace returns, reports it
  as complete, and that result is the sorted list of the live blocks.
\<close>

theorem active_block_scan_exact:
  assumes "NewShardedMemory n = Some s0" "n \<le> 2 ^ 32"
    and "list_all (\<lambda>(_, c). call_wf c \<and> \<not> increments_block c) cs"
    and "s = snd (exec_trace sm_ops janitor_sweep cs s0)"
  shows "fst (sm_ScanActiveBlocks now ''block:'' 0 s) = Inr (sm_Scan now ''block:'' s, True) \<and>
         set (sm_Scan now ''block:'' s) = live_kvs now ''block:'' s \<and>
         sorted (map kv_Key (sm_Scan now ''block:'' s)) \<and> distinct (map kv_Key (sm_Scan now ''block:'' s))"
proof -
  have s: "sm_ok s" "index_complete s"
    using index_complete_trace [OF _ _ assms(3)] NewShardedMemory_ok [OF assms(2,1)] assms(4) by auto
  have "fst (sm_ScanActiveBlocks now ''block:'' 0 s) = Inr (sm_Scan now ''block:'' s, True)"
    using scanActive_result [of "c_activeBlocks (sm_central s)" 0 "[]" now "sm_central s"]
      sm_ok_central [OF s(1)] active_blocks_exact [OF s, of now]
    by (auto simp: sm_ScanActiveBlocks_def split: prod.splits)
  moreover have "sm_Scan now ''block:'' s = sort_key kv_Key (scan_all now ''block:'' s)"
    by (simp add: sm_Scan_def sm_ScanLimit_scan_all)
  ultimately show ?thesis
    using set_scan_all [OF s(1)] distinct_scan_all [OF s(1), of now "''block:''"] by (simp add: distinct_map)
qed

theorem active_block_scan_exact_witness:
  "\<exists>s. fst (sm_ScanActiveBlocks 1 ''block:'' 0 s) =
      Inr ([\<lparr>kv_Key = ''block:h'', kv_Value = ''r'', kv_ExpiresAt = Some 5\<rparr>], True)"
proof -
  let ?init = "the (NewShardedMemory 1)"
  let ?calls = "[(0, CallSet ''block:h'' ''r'' 5)]"
  let ?s = "snd (exec_trace sm_ops janitor_sweep ?calls ?init)"
  have "NewShardedMemory 1 = Some ?init"
    by (simp add: NewShardedMemory_def nextPow2_def pow2_loop.simps)
  then have "fst (sm_ScanActiveBlocks 1 ''block:'' 0 ?s) = Inr (sm_Scan 1 ''block:'' ?s, True)"
    by (rule active_block_scan_exact [of 1 ?init ?calls ?s 1, THEN conjunct1]) simp_all
  moreover have "sm_Scan 1 ''block:'' ?s = [\<lparr>kv_Key = ''block:h'', kv_Value = ''r'', kv_ExpiresAt = Some 5\<rparr>]"
    by (simp add: NewShardedMemory_def nextPow2_def pow2_loop.simps sm_ops_def sm_Set_def sm_put_def raw_put_def
        isCentral_def hasPrefix_def sm_Scan_def sm_ScanLimit_def gather_def indexBlock_def entry_kv_def
        entry_expired_def expiry_def)
  ultimately show ?thesis by metis
qed

definition two_threads :: "'a \<Rightarrow> 'a \<Rightarrow> bool \<Rightarrow> 'a" where
  "two_threads a b t = (if t then a else b)"

lemma two_threads_simps [simp]:
  "two_threads a b True = a" "two_threads a b False = b"
  "(two_threads a b)(True := a') = two_threads a' b" "(two_threads a b)(False := b') = two_threads a b'"
  "(\<forall>t. l \<notin> set (lt_held (two_threads c d t))) \<longleftrightarrow> l \<notin> set (lt_held c) \<and> l \<notin> set (lt_held d)"
  by (auto simp: two_threads_def fun_eq_iff)

definition lock_example :: unblock_commit where
  "lock_example = \<lparr>uc_HoldKey = ''h'', uc_HoldValue = [], uc_HoldTTL = 1, uc_GenerationKey = ''g'', uc_Generation = [],
     uc_GenerationTTL = 1, uc_BlockKey = ''block:a'', uc_CounterKey = ''c'', uc_ResetBackoff = False\<rparr>"

definition one_shard :: sharded_memory where
  "one_shard = \<lparr>sm_shards = [[]], sm_mask = 0, sm_central = \<lparr>c_m = [], c_activeBlocks = [], c_postureVotes = []\<rparr>\<rparr>"

lemma lock_example_sections:
  "isCentral (uc_BlockKey lock_example)" "unblock_commit_locks one_shard lock_example = [0, 1]"
  "lock_sections one_shard (Call (CallCommitUnblock lock_example)) = [[0, 1]]" "lock_sections one_shard (Call CallSweep) = [[1], [0]]"
  by (simp_all add: lock_example_def one_shard_def unblock_commit_locks_def lockShardKeys_def shardIdx_def isCentral_def
      hasPrefix_def sweep_sections_def)

text \<open>
  C34 (liveness). The store cannot deadlock. Any finite number of threads run any methods of the sharded
  store in any interleaving, the janitor's sweep and the full scan among them, each taking the mutexes of
  its critical sections in the code's order and waiting while another holds the next one. Every schedule
  is then finite, with a length the calls alone determine; until it is over some thread can step, and
  when it is over every thread has returned. Two threads never hold the same mutex. The mutexes are those the
  operations need: whatever shard or central struct a method writes, it holds that mutex in one of its
  sections, and no method changes the layout the order rests on. (\<^verbatim>\<open>Incr\<close>, \<^verbatim>\<open>IncrBy\<close> and \<^verbatim>\<open>Scan\<close> are
  \<^verbatim>\<open>IncrByDeadline\<close> and \<^verbatim>\<open>ScanLimit\<close> to the mutexes; \<^verbatim>\<open>Close\<close> takes none. The keys of a commit beside its
  block key are outside \<open>block:\<close>, which the scoreboard guarantees.)
\<close>

theorem store_calls_never_deadlock:
  assumes "finite D" "\<And>t. t \<notin> D \<Longrightarrow> calls t = []"
    and "(lock_step s ^^ k) (\<lambda>t. about_to_call (calls t)) T"
  shows "((\<exists>T'. lock_step s T T') \<longleftrightarrow> k < (\<Sum>t\<in>D. calls_work s (calls t))) \<and>
    ((\<forall>t. finished (T t)) \<longleftrightarrow> k = (\<Sum>t\<in>D. calls_work s (calls t))) \<and>
    (\<forall>t u. t \<noteq> u \<longrightarrow> set (lt_held (T t)) \<inter> set (lt_held (T u)) = {}) \<and>
    (\<forall>m now mem. method_wf m \<longrightarrow> guarded (set (concat (lock_sections mem m))) mem (exec_method now m mem) \<and>
       (\<forall>m'. lock_sections (exec_method now m mem) m' = lock_sections mem m'))"
proof -
  have run: "lock_inv D T" "(\<Sum>t\<in>D. calls_work s (calls t)) = k + (\<Sum>t\<in>D. thread_work s (T t))"
    using lock_run [OF assms(3) lock_inv_start [OF assms(2)] assms(1)] by simp_all
  have fin: "(\<forall>t. finished (T t)) \<longleftrightarrow> (\<Sum>t\<in>D. thread_work s (T t)) = 0"
    using run(1) assms(1) by (auto simp: lock_inv_def thread_work_0)
  have "(\<exists>T'. lock_step s T T') \<longleftrightarrow> \<not> (\<forall>t. finished (T t))"
    using lock_progress [OF assms(1) run(1)] lock_step_work [OF _ run(1) assms(1)] fin by fastforce
  then have "(\<exists>T'. lock_step s T T') \<longleftrightarrow> k < (\<Sum>t\<in>D. calls_work s (calls t))" unfolding run(2) fin by auto
  moreover have "(\<forall>t. finished (T t)) \<longleftrightarrow> k = (\<Sum>t\<in>D. calls_work s (calls t))" unfolding run(2) fin by auto
  moreover have "\<forall>t u. t \<noteq> u \<longrightarrow> set (lt_held (T t)) \<inter> set (lt_held (T u)) = {}" using run(1) by (simp add: lock_inv_def)
  ultimately show ?thesis using method_guarded lock_sections_layout [OF method_guarded] by meson
qed

text \<open>An unblock holds the central mutex and waits for the shard, whose mutex the janitor holds.\<close>

theorem store_calls_never_deadlock_witness:
  "\<exists>T. (lock_step one_shard ^^ 6) (\<lambda>t. about_to_call (two_threads [Call (CallCommitUnblock lock_example)] [Call CallSweep] t)) T \<and>
     lt_held (T True) = [0] \<and> lt_want (T True) = [1] \<and> lt_held (T False) = [1] \<and> (\<exists>T'. lock_step one_shard T T')"
proof -
  let ?u = "Call (CallCommitUnblock lock_example)" and ?R = "lock_step one_shard"
  let ?th = "\<lambda>h w ss. \<lparr>lt_held = h, lt_want = w, lt_sections = ss, lt_calls = []\<rparr>"
  let ?T0 = "two_threads (about_to_call [?u]) (about_to_call [Call CallSweep])"
  let ?T3 = "two_threads (?th [0] [1] []) (about_to_call [Call CallSweep])"
  let ?T6 = "two_threads (?th [0] [1] []) (?th [1] [] [[0]])"
  note [simp] = about_to_call_def lock_example_sections [simplified]
  have a1: "?R ?T0 (two_threads (?th [] [] [[0, 1]]) (about_to_call [Call CallSweep]))"
    using lock_step.Begin [of ?T0 True ?u "[]" one_shard] by simp
  have a2: "?R (two_threads (?th [] [] [[0, 1]]) b) (two_threads (?th [] [0, 1] []) b)" for b
    using lock_step.Enter [of "two_threads (?th [] [] [[0, 1]]) b" True "[0, 1]" "[]" one_shard] by simp
  have a3: "?R (two_threads (?th [] [0, 1] []) (about_to_call [Call CallSweep])) ?T3"
    using lock_step.Acquire [of "two_threads (?th [] [0, 1] []) (about_to_call [Call CallSweep])" True 0 "[1]" one_shard] by simp
  have a4: "?R ?T3 (two_threads (?th [0] [1] []) (?th [] [] [[1], [0]]))"
    using lock_step.Begin [of ?T3 False "Call CallSweep" "[]" one_shard] by simp
  have a5: "?R (two_threads a (?th [] [] [[1], [0]])) (two_threads a (?th [] [1] [[0]]))" for a
    using lock_step.Enter [of "two_threads a (?th [] [] [[1], [0]])" False "[1]" "[[0]]" one_shard] by simp
  have a6: "?R (two_threads (?th [0] [1] []) (?th [] [1] [[0]])) ?T6"
    using lock_step.Acquire [of "two_threads (?th [0] [1] []) (?th [] [1] [[0]])" False 1 "[]" one_shard] by simp
  have start: "(\<lambda>t. about_to_call (two_threads [?u] [Call CallSweep] t)) = ?T0" by (auto simp: two_threads_def fun_eq_iff)
  note R = relpowp_Suc_I [where P = "lock_step one_shard"]
  have six: "(6 :: nat) = Suc (Suc (Suc (Suc (Suc (Suc 0)))))" by simp
  have run: "(?R ^^ 6) (\<lambda>t. about_to_call (two_threads [?u] [Call CallSweep] t)) ?T6"
    unfolding start six
    by (rule R [OF _ a6], rule R [OF _ a5], rule R [OF _ a4], rule R [OF _ a3], rule R [OF _ a2], rule R [OF _ a1], rule relpowp_0_I)
  have "(\<exists>T'. ?R ?T6 T') \<longleftrightarrow> 6 < (\<Sum>t\<in>UNIV. calls_work one_shard (two_threads [?u] [Call CallSweep] t))"
    using store_calls_never_deadlock [OF _ _ run, of UNIV] by simp
  then have "\<exists>T'. ?R ?T6 T'" by (simp add: UNIV_bool)
  with run show ?thesis by (intro exI [of _ ?T6]) simp
qed

text \<open>
  The fleet posture a replica reads is the highest unexpired vote of the other
  replicas, and 0 when there is none; its own vote never counts.
\<close>

theorem max_posture_vote_exact:
  "fst (sm_MaxPostureVote now x s) =
     Inr (Max (insert 0 ((\<lambda>p. pv_level (snd p)) ` {p \<in> live_votes now s. fst p \<noteq> x})))"
  by (rule MaxPostureVote_value)

text \<open>
  C35 (termination). The rounding loop returns exactly for the shard counts up to \<open>2 ^ 62\<close>; beyond that the
  doubling wraps and it never ends. The result is the least power of two that is at least the request, and 256 for a
  request of zero or less. The store built from a count up to \<open>2 ^ 32\<close>, the reach of the hash mask, satisfies
  the representation invariant with every key absent.
\<close>

theorem new_memory_terminates:
  assumes "int64 n"
  shows "((\<exists>p. nextPow2 n = Some p) \<longleftrightarrow> n \<le> 2 ^ 62) \<and>
    (\<forall>p. nextPow2 n = Some p \<longrightarrow> (\<exists>j. p = 2 ^ j) \<and> (if n \<le> 0 then p = 256 else n \<le> p \<and> (\<forall>i. n \<le> 2 ^ i \<longrightarrow> p \<le> 2 ^ i))) \<and>
    (n \<le> 2 ^ 32 \<longrightarrow> (\<exists>s. NewShardedMemory n = Some s \<and> sm_ok s \<and> (\<forall>t k. sm_live s t k = None)))"
proof -
  have ret: "\<exists>j. nextPow2 n = Some (2 ^ j) \<and> (if n \<le> 0 then (2::int) ^ j = 256 else n \<le> 2 ^ j \<and> (\<forall>i. n \<le> 2 ^ i \<longrightarrow> (2::int) ^ j \<le> 2 ^ i))"
    if n62: "n \<le> 2 ^ 62"
  proof -
    obtain j where j: "nextPow2 n = Some (2 ^ j)" "max n 1 \<le> 2 ^ j" "0 < n \<longrightarrow> j = 0 \<or> 2 ^ (j - 1) < n" "n \<le> 0 \<longrightarrow> j = 8"
      using nextPow2_result [OF n62] by blast
    have "0 < n \<Longrightarrow> \<forall>i. n \<le> 2 ^ i \<longrightarrow> (2::int) ^ j \<le> 2 ^ i"
      using j(3) least_power_of_two [of j n] by blast
    with j show ?thesis by (intro exI [of _ j]) auto
  qed
  have new: "\<exists>s. NewShardedMemory n = Some s \<and> sm_ok s \<and> (\<forall>t k. sm_live s t k = None)" if n32: "n \<le> 2 ^ 32"
  proof -
    have "n \<le> 2 ^ 62" using n32 by simp
    then obtain s where "NewShardedMemory n = Some s" using ret by (auto simp: NewShardedMemory_def)
    then show ?thesis using NewShardedMemory_ok [OF n32] by blast
  qed
  show ?thesis
  proof (cases "n \<le> 2 ^ 62")
    case True
    then obtain j where j: "nextPow2 n = Some (2 ^ j)"
      "if n \<le> 0 then (2::int) ^ j = 256 else n \<le> 2 ^ j \<and> (\<forall>i. n \<le> 2 ^ i \<longrightarrow> (2::int) ^ j \<le> 2 ^ i)" using ret by blast
    then show ?thesis using True new by (auto split: if_splits)
  next
    case False
    then show ?thesis using nextPow2_diverges [of n] by auto
  qed
qed

theorem new_memory_terminates_witness:
  "(\<exists>p. nextPow2 3 = Some p \<and> 3 \<le> p \<and> p \<le> 4) \<and> \<not> (\<exists>p. nextPow2 (2 ^ 62 + 1) = Some p) \<and> (\<exists>s. NewShardedMemory 3 = Some s \<and> sm_ok s)"
proof -
  have i: "int64 3" "int64 (2 ^ 62 + 1)" by (simp_all add: int64_def minInt64_def maxInt64_def)
  obtain p where p: "nextPow2 3 = Some p" using new_memory_terminates [OF i(1)] by auto
  have "3 \<le> p" "\<forall>i. 3 \<le> (2::int) ^ i \<longrightarrow> p \<le> 2 ^ i" using new_memory_terminates [OF i(1)] p by simp_all
  then have "3 \<le> p" "p \<le> 4" by (simp, auto dest: spec [of _ 2])
  moreover have "\<exists>s. NewShardedMemory 3 = Some s \<and> sm_ok s" using new_memory_terminates [OF i(1)] by auto
  moreover have "\<not> (\<exists>p. nextPow2 (2 ^ 62 + 1) = Some p)" using new_memory_terminates [OF i(2)] by simp
  ultimately show ?thesis using p by auto
qed
end
