(* ===== verification/Netip.thy ===== *)
theory Netip
  imports Prelude
begin

text \<open>
  The part of the standard library's \<^verbatim>\<open>net/netip\<close> the sources use: \<^verbatim>\<open>ParseAddr\<close>, \<^verbatim>\<open>Unmap\<close>, \<^verbatim>\<open>String\<close>,
  \<^verbatim>\<open>As16\<close> and prefixes. An IPv4 address is its four octets, an IPv6 address its eight 16-bit groups and its zone.
  A round trip shows that the canonical text of an unmapped address parses back to it; the last section
  models prefixes.
\<close>

datatype addr = AddrV4 "nat list" | AddrV6 "nat list" string

fun addr_ok :: "addr \<Rightarrow> bool" where
  "addr_ok (AddrV4 os) = (length os = 4 \<and> list_all (\<lambda>x. x < 256) os)"
| "addr_ok (AddrV6 gs z) = (length gs = 8 \<and> list_all (\<lambda>x. x < 65536) gs)"

section \<open>Parsing\<close>

fun v4_loop :: "nat \<Rightarrow> nat \<Rightarrow> nat list \<Rightarrow> string \<Rightarrow> nat list option" where
  "v4_loop val digLen fs [] = (if length fs < 3 then None else Some (fs @ [val]))"
| "v4_loop val digLen fs (c # cs) =
     (case dec_digit c of
        Some d \<Rightarrow> (if digLen = 1 \<and> val = 0 then None
                   else if val * 10 + d > 255 then None
                   else v4_loop (val * 10 + d) (digLen + 1) fs cs)
      | None \<Rightarrow> (if c = CHR ''.''
                 then (if digLen = 0 \<or> cs = [] then None
                       else if length fs = 3 then None
                       else v4_loop 0 0 (fs @ [val]) cs)
                 else None))"

definition parseIPv4Fields :: "string \<Rightarrow> nat list option" where
  "parseIPv4Fields s = v4_loop 0 0 [] s"

definition hex_digit :: "char \<Rightarrow> nat option" where
  "hex_digit c =
     (let n = (of_char c :: nat)
      in if 48 \<le> n \<and> n \<le> 57 then Some (n - 48)
         else if 97 \<le> n \<and> n \<le> 102 then Some (n - 87)
         else if 65 \<le> n \<and> n \<le> 70 then Some (n - 55) else None)"

fun scan_hex :: "nat \<Rightarrow> nat \<Rightarrow> string \<Rightarrow> (nat \<times> nat \<times> string) option" where
  "scan_hex off acc [] = Some (off, acc, [])"
| "scan_hex off acc (c # cs) =
     (case hex_digit c of
        None \<Rightarrow> Some (off, acc, c # cs)
      | Some d \<Rightarrow> (if off > 3 then None else if acc * 16 + d > 65535 then None
                   else scan_hex (off + 1) (acc * 16 + d) cs))"

fun pairs16 :: "nat list \<Rightarrow> nat list" where
  "pairs16 (a # b # r) = (a * 256 + b) # pairs16 r"
| "pairs16 _ = []"

text \<open>The group loop: the groups read, the position of the ellipsis, the unread text.\<close>

function v6_loop :: "nat list \<Rightarrow> nat option \<Rightarrow> string \<Rightarrow> (nat list \<times> nat option \<times> string) option" where
  "v6_loop gs ell s =
     (if length gs \<ge> 8 then Some (gs, ell, s)
      else case scan_hex 0 0 s of
        None \<Rightarrow> None
      | Some (off, acc, rest) \<Rightarrow>
          (if off = 0 then None
           else if rest \<noteq> [] \<and> hd rest = CHR ''.''
           then (if ell = None \<and> length gs \<noteq> 6 then None
                 else if length gs + 2 > 8 then None
                 else case parseIPv4Fields s of
                        None \<Rightarrow> None | Some os \<Rightarrow> Some (gs @ pairs16 os, ell, []))
           else if rest = [] then Some (gs @ [acc], ell, [])
           else if hd rest \<noteq> CHR '':'' then None
           else if tl rest = [] then None
           else if hd (tl rest) = CHR '':''
           then (if ell \<noteq> None then None
                 else if tl (tl rest) = [] then Some (gs @ [acc], Some (length gs + 1), [])
                 else v6_loop (gs @ [acc]) (Some (length gs + 1)) (tl (tl rest)))
           else v6_loop (gs @ [acc]) ell (tl rest)))"
  by pat_completeness auto
termination
  by (relation "measure (\<lambda>(gs, _, _). 8 - length gs)") auto

declare v6_loop.simps [simp del]

definition v6_finish :: "(nat list \<times> nat option \<times> string) option \<Rightarrow> nat list option" where
  "v6_finish r =
     (case r of
        None \<Rightarrow> None
      | Some (gs, ell, rest) \<Rightarrow>
          (if rest \<noteq> [] then None
           else if length gs < 8
           then (case ell of
                   None \<Rightarrow> None
                 | Some e \<Rightarrow> Some (take e gs @ replicate (8 - length gs) 0 @ drop e gs))
           else if ell \<noteq> None then None else Some gs))"

definition parseIPv6 :: "string \<Rightarrow> addr option" where
  "parseIPv6 s0 =
     (let s = before_byte (CHR ''%'') s0;
          zoned = (CHR ''%'' \<in> set s0);
          zone = drop (length s + 1) s0
      in if zoned \<and> zone = [] then None
         else if take 2 s = ''::''
         then (if drop 2 s = [] then Some (AddrV6 (replicate 8 0) zone)
               else map_option (\<lambda>gs. AddrV6 gs zone) (v6_finish (v6_loop [] (Some 0) (drop 2 s))))
         else map_option (\<lambda>gs. AddrV6 gs zone) (v6_finish (v6_loop [] None s)))"

definition ParseAddr :: "string \<Rightarrow> addr option" where
  "ParseAddr s =
     (case find (\<lambda>c. c \<in> {CHR ''.'', CHR '':'', CHR ''%''}) s of
        None \<Rightarrow> None
      | Some c \<Rightarrow> if c = CHR ''.'' then map_option AddrV4 (parseIPv4Fields s)
                  else if c = CHR '':'' then parseIPv6 s else None)"

section \<open>Unmapping and printing\<close>

definition Is4In6 :: "nat list \<Rightarrow> bool" where
  "Is4In6 gs = (take 6 gs = [0, 0, 0, 0, 0, 65535])"

fun Unmap :: "addr \<Rightarrow> addr" where
  "Unmap (AddrV4 os) = AddrV4 os"
| "Unmap (AddrV6 gs z) =
     (if Is4In6 gs
      then AddrV4 [gs ! 6 div 256, gs ! 6 mod 256, gs ! 7 div 256, gs ! 7 mod 256]
      else AddrV6 gs z)"

fun join :: "string \<Rightarrow> string list \<Rightarrow> string" where
  "join sep [] = []"
| "join sep [x] = x"
| "join sep (x # xs) = x @ sep @ join sep xs"

definition zero_run :: "nat list \<Rightarrow> nat \<Rightarrow> nat" where
  "zero_run gs i = length (takeWhile (\<lambda>g. g = 0) (drop i gs))"

text \<open>The first longest run of at least two zero groups.\<close>

definition best_run :: "nat list \<Rightarrow> (nat \<times> nat) option" where
  "best_run gs =
     fold (\<lambda>i b. let l = zero_run gs i
                 in if 2 \<le> l \<and> (case b of None \<Rightarrow> True | Some (s, e) \<Rightarrow> l > e - s) then Some (i, i + l) else b)
       [0..<8] None"

definition string6 :: "nat list \<Rightarrow> string" where
  "string6 gs =
     (case best_run gs of
        None \<Rightarrow> join '':'' (map (fmt_uint 16) gs)
      | Some (s, e) \<Rightarrow> join '':'' (map (fmt_uint 16) (take s gs)) @ ''::'' @
                      join '':'' (map (fmt_uint 16) (drop e gs)))"

fun addr_String :: "addr \<Rightarrow> string" where
  "addr_String (AddrV4 os) = join ''.'' (map (fmt_uint 10) os)"
| "addr_String (AddrV6 gs z) =
     (if Is4In6 gs
      then ''::ffff:'' @ join ''.'' (map (fmt_uint 10) [gs ! 6 div 256, gs ! 6 mod 256, gs ! 7 div 256, gs ! 7 mod 256])
      else string6 gs)
     @ (if z = [] then [] else CHR ''%'' # z)"

fun As16 :: "addr \<Rightarrow> nat list" where
  "As16 (AddrV4 os) = replicate 10 0 @ [255, 255] @ os"
| "As16 (AddrV6 gs z) = concat (map (\<lambda>g. [g div 256, g mod 256]) gs)"

section \<open>Parsed addresses are well formed\<close>

lemma v4_loop_ok:
  "v4_loop val d fs s = Some os \<Longrightarrow> val < 256 \<Longrightarrow> length fs \<le> 3 \<Longrightarrow> list_all (\<lambda>x. x < 256) fs \<Longrightarrow>
     length os = 4 \<and> list_all (\<lambda>x. x < 256) os"
  by (induction val d fs s rule: v4_loop.induct) (auto split: if_splits option.splits)

lemma parseIPv4Fields_ok: "parseIPv4Fields s = Some os \<Longrightarrow> addr_ok (AddrV4 os)"
  unfolding parseIPv4Fields_def by (drule v4_loop_ok) simp_all

lemma scan_hex_bound: "scan_hex off acc s = Some (off', acc', r) \<Longrightarrow> acc < 65536 \<Longrightarrow> acc' < 65536"
  by (induction off acc s rule: scan_hex.induct) (auto split: if_splits option.splits)

definition v6_inv :: "nat list \<Rightarrow> nat option \<Rightarrow> bool" where
  "v6_inv gs ell \<longleftrightarrow> length gs \<le> 8 \<and> list_all (\<lambda>x. x < 65536) gs \<and>
     (case ell of None \<Rightarrow> True | Some e \<Rightarrow> e \<le> length gs)"

lemma v6_inv_snoc: "v6_inv gs ell \<Longrightarrow> length gs < 8 \<Longrightarrow> acc < 65536 \<Longrightarrow> v6_inv (gs @ [acc]) ell"
  by (auto simp: v6_inv_def split: option.splits)

lemma v6_inv_snoc_ell: "v6_inv gs ell \<Longrightarrow> length gs < 8 \<Longrightarrow> acc < 65536 \<Longrightarrow> v6_inv (gs @ [acc]) (Some (length gs + 1))"
  by (auto simp: v6_inv_def)

lemma length4: "length xs = 4 \<Longrightarrow> \<exists>a b c d. xs = [a, b, c, d]"
  by (auto simp: length_Suc_conv eval_nat_numeral)

lemma v6_inv_v4_tail:
  "v6_inv gs ell \<Longrightarrow> length gs + 2 \<le> 8 \<Longrightarrow> parseIPv4Fields s = Some os \<Longrightarrow> v6_inv (gs @ pairs16 os) ell"
proof -
  assume a: "v6_inv gs ell" "length gs + 2 \<le> 8" "parseIPv4Fields s = Some os"
  have os: "length os = 4" "list_all (\<lambda>x. x < 256) os" using parseIPv4Fields_ok [OF a(3)] by simp_all
  obtain w x y z where "os = [w, x, y, z]" using length4 [OF os(1)] by blast
  with a os show ?thesis by (auto simp: v6_inv_def split: option.splits)
qed

lemma v6_loop_inv: "v6_loop gs ell s = Some (gs', ell', r) \<Longrightarrow> v6_inv gs ell \<Longrightarrow> v6_inv gs' ell'"
proof (induction gs ell s arbitrary: gs' ell' r rule: v6_loop.induct)
  case (1 gs ell s)
  show ?case
  proof (cases "length gs \<ge> 8")
    case True
    with 1 show ?thesis by (simp add: v6_loop.simps)
  next
    case False
    then obtain off acc rest where h: "scan_hex 0 0 s = Some (off, acc, rest)" "off \<noteq> 0"
      using "1.prems"(1) by (subst (asm) v6_loop.simps) (auto split: option.splits if_splits)
    have acc: "acc < 65536" using scan_hex_bound [OF h(1)] by simp
    note step = v6_inv_snoc [OF "1.prems"(2) _ acc] v6_inv_snoc_ell [OF "1.prems"(2) _ acc]
    show ?thesis
      using "1.prems" h False step v6_inv_v4_tail [OF "1.prems"(2)] "1.IH" [OF _ h(1) refl refl h(2)]
      by (subst (asm) v6_loop.simps) (auto split: if_splits option.splits)
  qed
qed

lemma v6_finish_ok:
  "v6_finish (v6_loop [] ell s) = Some gs \<Longrightarrow> ell \<in> {None, Some 0} \<Longrightarrow> addr_ok (AddrV6 gs z)"
proof -
  assume a: "v6_finish (v6_loop [] ell s) = Some gs" "ell \<in> {None, Some 0}"
  then obtain gs' ell' where l: "v6_loop [] ell s = Some (gs', ell', [])"
    by (auto simp: v6_finish_def split: option.splits if_splits)
  moreover have "v6_inv [] ell" using a(2) by (auto simp: v6_inv_def)
  ultimately have "v6_inv gs' ell'" using v6_loop_inv by blast
  with a(1) l show ?thesis
    by (auto simp: v6_finish_def v6_inv_def list_all_iff dest!: in_set_takeD in_set_dropD
        split: option.splits if_splits)
qed

lemma ParseAddr_ok: "ParseAddr s = Some a \<Longrightarrow> addr_ok a"
  by (auto simp: ParseAddr_def parseIPv6_def Let_def list_all_iff [of _ "replicate 8 0"]
      dest: parseIPv4Fields_ok v6_finish_ok split: option.splits if_splits)

lemma Unmap_ok: "addr_ok a \<Longrightarrow> addr_ok (Unmap a)"
proof (cases a)
  case (AddrV6 gs z)
  assume "addr_ok a"
  then have "gs ! 6 < 65536" "gs ! 7 < 65536" by (simp_all add: AddrV6 list_all_length)
  then show ?thesis using \<open>addr_ok a\<close> by (auto simp: AddrV6)
qed simp

lemma Unmap_idem [simp]: "Unmap (Unmap a) = Unmap a"
  by (cases a) auto

section \<open>Round trip\<close>

lemma hex_digit_digit_char: "d < 16 \<Longrightarrow> hex_digit (digit_char d) = Some d"
  by (simp add: hex_digit_def digit_char_def Let_def)

lemma fmt16_digits:
  "n < 16 ^ Suc k \<Longrightarrow> \<exists>ds. fmt_uint 16 n = map digit_char ds \<and> ds \<noteq> [] \<and> length ds \<le> Suc k \<and>
     list_all (\<lambda>d. d < 16) ds \<and> foldl (\<lambda>a d. a * 16 + d) 0 ds = n"
proof (induction k arbitrary: n)
  case 0
  then show ?case by (intro exI [of _ "[n]"]) (simp add: fmt_uint.simps)
next
  case (Suc k)
  show ?case
  proof (cases "n < 16")
    case True
    then show ?thesis by (intro exI [of _ "[n]"]) (simp add: fmt_uint.simps)
  next
    case False
    have "n div 16 < 16 ^ Suc k" using Suc.prems by (simp add: less_mult_imp_div_less mult.commute)
    from Suc.IH [OF this] obtain ds where ds: "fmt_uint 16 (n div 16) = map digit_char ds" "ds \<noteq> []"
        "length ds \<le> Suc k" "list_all (\<lambda>d. d < 16) ds" "foldl (\<lambda>a d. a * 16 + d) 0 ds = n div 16" by blast
    with False show ?thesis
      by (intro exI [of _ "ds @ [n mod 16]"]) (simp add: fmt_uint.simps [of 16 n])
  qed
qed

lemma scan_hex_digits:
  "list_all (\<lambda>d. d < 16) ds \<Longrightarrow> off + length ds \<le> 4 \<Longrightarrow> acc < 16 ^ off \<Longrightarrow>
   (rest = [] \<or> hex_digit (hd rest) = None) \<Longrightarrow>
   scan_hex off acc (map digit_char ds @ rest) = Some (off + length ds, foldl (\<lambda>a d. a * 16 + d) acc ds, rest)"
proof (induction ds arbitrary: off acc)
  case Nil
  then show ?case by (cases rest) auto
next
  case (Cons d ds)
  have b: "acc * 16 + d < 16 ^ Suc off" using Cons.prems by simp
  also have "(16::nat) ^ Suc off \<le> 16 ^ 4" using Cons.prems(2) by (intro power_increasing) auto
  finally have "acc * 16 + d \<le> 65535" by simp
  then show ?case using Cons.IH [of "Suc off" "acc * 16 + d"] Cons.prems b by (simp add: hex_digit_digit_char)
qed

lemma scan_hex_group:
  assumes "g < 65536" "rest = [] \<or> hd rest = CHR '':''"
  shows "\<exists>off>0. scan_hex 0 0 (fmt_uint 16 g @ rest) = Some (off, g, rest)"
proof -
  obtain ds where ds: "fmt_uint 16 g = map digit_char ds" "ds \<noteq> []" "length ds \<le> 4"
      "list_all (\<lambda>d. d < 16) ds" "foldl (\<lambda>a d. a * 16 + d) 0 ds = g"
    using fmt16_digits [of g 3] assms(1) by auto
  moreover have "hex_digit (CHR '':'') = None" by (simp add: hex_digit_def)
  ultimately show ?thesis using scan_hex_digits [of ds 0 0 rest] assms(2) by auto
qed

lemma fmt16_first: "\<exists>d<16. \<exists>ds. fmt_uint 16 n = digit_char d # ds"
proof (induction n rule: less_induct)
  case (less n)
  show ?case
  proof (cases "n < 16")
    case False
    then have "n div 16 < n" by simp
    from less [OF this] False show ?thesis by (subst fmt_uint.simps) auto
  qed (subst fmt_uint.simps, auto)
qed

lemma digit_char_not_colon: "d < 16 \<Longrightarrow> digit_char d \<notin> {CHR '':'', CHR ''.'', CHR ''%''}"
proof -
  assume "d < 16"
  then have "hex_digit (digit_char d) \<noteq> None" by (simp add: hex_digit_digit_char)
  moreover have "hex_digit (CHR '':'') = None" "hex_digit (CHR ''.'') = None" "hex_digit (CHR ''%'') = None"
    by (simp_all add: hex_digit_def)
  ultimately show ?thesis by auto
qed

lemma join_Cons: "join sep (x # xs) = x @ (if xs = [] then [] else sep @ join sep xs)"
  by (cases xs) simp_all

text \<open>One step of the group loop on printed text, for the three ways a group can end.\<close>

lemma v6_step_end:
  assumes "g < 65536" "length gs < 8"
  shows "v6_loop gs ell (fmt_uint 16 g) = Some (gs @ [g], ell, [])"
  using scan_hex_group [OF assms(1), of "[]"] assms(2) by (subst v6_loop.simps) auto

lemma v6_step_colon:
  assumes "g < 65536" "length gs < 8" "t \<noteq> []" "hd t \<noteq> CHR '':''"
  shows "v6_loop gs ell (fmt_uint 16 g @ '':'' @ t) = v6_loop (gs @ [g]) ell t"
  using scan_hex_group [OF assms(1), of "CHR '':'' # t"] assms(2-4)
  by (subst v6_loop.simps) auto

lemma v6_step_ellipsis:
  assumes "g < 65536" "length gs < 8"
  shows "v6_loop gs None (fmt_uint 16 g @ ''::'' @ t) =
           (if t = [] then Some (gs @ [g], Some (length gs + 1), [])
            else v6_loop (gs @ [g]) (Some (length gs + 1)) t)"
  using scan_hex_group [OF assms(1), of "CHR '':'' # CHR '':'' # t"] assms(2)
  by (subst v6_loop.simps) auto

lemma fmt16_join_start:
  "hs \<noteq> [] \<Longrightarrow> \<exists>c cs. join '':'' (map (fmt_uint 16) hs) @ r = c # cs \<and> c \<notin> {CHR '':'', CHR ''.'', CHR ''%''}"
  using fmt16_first [of "hd hs"] digit_char_not_colon by (cases hs) (auto simp: join_Cons)

lemma v6_loop_groups:
  "hs \<noteq> [] \<Longrightarrow> length gs + length hs \<le> 8 \<Longrightarrow> list_all (\<lambda>x. x < 65536) hs \<Longrightarrow>
     v6_loop gs ell (join '':'' (map (fmt_uint 16) hs)) = Some (gs @ hs, ell, [])"
proof (induction hs arbitrary: gs)
  case (Cons h hs)
  show ?case
  proof (cases "hs = []")
    case True
    with Cons.prems show ?thesis by (simp add: v6_step_end)
  next
    case False
    obtain c cs where "join '':'' (map (fmt_uint 16) hs) = c # cs" "c \<noteq> CHR '':''"
      using fmt16_join_start [OF False, of "[]"] by auto
    then have "v6_loop gs ell (join '':'' (map (fmt_uint 16) (h # hs))) =
        v6_loop (gs @ [h]) ell (join '':'' (map (fmt_uint 16) hs))"
      using Cons.prems False v6_step_colon [of h gs "join '':'' (map (fmt_uint 16) hs)" ell]
      by (simp add: join_Cons)
    then show ?thesis using Cons.IH [OF False, of "gs @ [h]"] Cons.prems by simp
  qed
qed simp

lemma v6_loop_ellipsis:
  "hs \<noteq> [] \<Longrightarrow> length gs + length hs \<le> 8 \<Longrightarrow> list_all (\<lambda>x. x < 65536) hs \<Longrightarrow>
     v6_loop gs None (join '':'' (map (fmt_uint 16) hs) @ ''::'' @ t) =
       (if t = [] then Some (gs @ hs, Some (length gs + length hs), [])
        else v6_loop (gs @ hs) (Some (length gs + length hs)) t)"
proof (induction hs arbitrary: gs)
  case (Cons h hs)
  show ?case
  proof (cases "hs = []")
    case True
    with Cons.prems show ?thesis using v6_step_ellipsis [of h gs t] by simp
  next
    case False
    let ?t = "join '':'' (map (fmt_uint 16) hs) @ ''::'' @ t"
    obtain c cs where c: "?t = c # cs" "c \<noteq> CHR '':''"
      using fmt16_join_start [OF False, of "''::'' @ t"] by auto
    then have "v6_loop gs None (fmt_uint 16 h @ '':'' @ ?t) = v6_loop (gs @ [h]) None ?t"
      using Cons.prems by (intro v6_step_colon) auto
    then show ?thesis using Cons.IH [OF False, of "gs @ [h]"] Cons.prems False by (simp add: join_Cons)
  qed
qed simp

section \<open>The compressed run\<close>

lemma zero_run_zeros: "i \<le> length gs \<Longrightarrow> take (zero_run gs i) (drop i gs) = replicate (zero_run gs i) 0"
  unfolding zero_run_def
  by (metis (mono_tags, lifting) replicate_length_same set_takeWhileD takeWhile_eq_take)

lemma zero_run_le: "i \<le> length gs \<Longrightarrow> i + zero_run gs i \<le> length gs"
  unfolding zero_run_def by (metis length_drop length_takeWhile_le le_diff_conv2 add.commute)

definition run_ok :: "nat list \<Rightarrow> nat \<times> nat \<Rightarrow> bool" where
  "run_ok gs = (\<lambda>(s, e). s + 2 \<le> e \<and> e \<le> length gs \<and> gs = take s gs @ replicate (e - s) 0 @ drop e gs)"

lemma best_run_ok:
  assumes "length gs = 8" "best_run gs = Some r"
  shows "run_ok gs r"
proof -
  let ?f = "\<lambda>i b. let l = zero_run gs i
     in if 2 \<le> l \<and> (case b of None \<Rightarrow> True | Some (s, e) \<Rightarrow> l > e - s) then Some (i, i + l) else b"
  have "\<forall>r. fold ?f is b = Some r \<longrightarrow> run_ok gs r"
    if "\<forall>i \<in> set is. i < 8" "\<forall>r. b = Some r \<longrightarrow> run_ok gs r" for "is" b
    using that
  proof (induction "is" arbitrary: b)
    case (Cons i is')
    have "run_ok gs (i, i + zero_run gs i)" if "2 \<le> zero_run gs i"
      using that Cons.prems(1) assms(1) zero_run_zeros [of i gs] zero_run_le [of i gs]
        append_take_drop_id [of i gs] append_take_drop_id [of "zero_run gs i" "drop i gs"]
      by (simp add: run_ok_def add.commute)
    then have "\<forall>r. ?f i b = Some r \<longrightarrow> run_ok gs r"
      using Cons.prems(2) unfolding Let_def by (metis option.inject)
    then show ?case
      unfolding fold_Cons comp_apply using Cons.prems(1) by (intro Cons.IH) auto
  qed simp
  from this [of "[0..<8]" None] assms(2) show ?thesis unfolding best_run_def by simp
qed

lemma fmt16_no_special: "c \<in> set (fmt_uint 16 n) \<Longrightarrow> c \<notin> {CHR '':'', CHR ''.'', CHR ''%''}"
proof (induction n rule: less_induct)
  case (less n)
  show ?case
  proof (cases "n < 16")
    case True
    then show ?thesis using less.prems digit_char_not_colon [of n] by (subst (asm) fmt_uint.simps) auto
  next
    case False
    then show ?thesis
      using less.IH [of "n div 16"] less.prems digit_char_not_colon [of "n mod 16"]
      by (subst (asm) (2) fmt_uint.simps) auto
  qed
qed

lemma join_no_percent: "CHR ''%'' \<notin> set (join '':'' (map (fmt_uint 16) hs))"
  by (induction hs) (auto simp: join_Cons dest: fmt16_no_special)

lemma string6_no_percent: "CHR ''%'' \<notin> set (string6 gs)"
  using join_no_percent by (auto simp: string6_def split: option.splits)

lemma find_first: "\<forall>x \<in> set xs. \<not> P x \<Longrightarrow> P y \<Longrightarrow> find P (xs @ y # t) = Some y"
  by (induction xs) auto

lemma string6_special:
  assumes "length gs = 8"
  shows "find (\<lambda>c. c \<in> {CHR ''.'', CHR '':'', CHR ''%''}) (string6 gs @ r) = Some (CHR '':'')"
proof -
  have skip: "find (\<lambda>c. c \<in> {CHR ''.'', CHR '':'', CHR ''%''}) (fmt_uint 16 g @ CHR '':'' # t) = Some (CHR '':'')" for g t
    using fmt16_no_special [of _ g] by (intro find_first) auto
  have hd: "\<exists>t. join '':'' (map (fmt_uint 16) (h # hs)) @ CHR '':'' # u = fmt_uint 16 h @ CHR '':'' # t" for h hs u
    by (cases "hs = []") (auto simp: join_Cons)
  show ?thesis
  proof (cases "best_run gs")
    case None
    obtain h hs where "gs = h # hs" "hs \<noteq> []" using assms by (cases gs; cases "tl gs") auto
    then show ?thesis using None skip by (simp add: string6_def join_Cons)
  next
    case (Some p)
    obtain s e where p: "p = (s, e)" by fastforce
    show ?thesis
    proof (cases "take s gs")
      case Nil
      then have "string6 gs = ''::'' @ join '':'' (map (fmt_uint 16) (drop e gs))"
        unfolding string6_def Some p by (simp only: option.case prod.case list.map join.simps append_Nil)
      then show ?thesis by simp
    next
      case (Cons h hs)
      then obtain t where "string6 gs @ r = fmt_uint 16 h @ CHR '':'' # t"
        using Some p hd [of h hs "CHR '':'' # join '':'' (map (fmt_uint 16) (drop e gs)) @ r"]
        by (auto simp: string6_def)
      then show ?thesis using skip by simp
    qed
  qed
qed

lemma v6_finish_string6:
  assumes "length gs = 8" "list_all (\<lambda>x. x < 65536) gs"
  shows "(if take 2 (string6 gs) = ''::''
          then (if drop 2 (string6 gs) = [] then Some (replicate 8 0)
                else v6_finish (v6_loop [] (Some 0) (drop 2 (string6 gs))))
          else v6_finish (v6_loop [] None (string6 gs))) = Some gs"
proof -
  have no: "hs \<noteq> [] \<Longrightarrow> take 2 (join '':'' (map (fmt_uint 16) hs) @ r) \<noteq> ''::''" for hs r
  proof
    assume "hs \<noteq> []" and eq: "take 2 (join '':'' (map (fmt_uint 16) hs) @ r) = ''::''"
    then obtain c cs where "join '':'' (map (fmt_uint 16) hs) @ r = c # cs" "c \<noteq> CHR '':''"
      using fmt16_join_start [of hs r] by auto
    with eq show False by (simp only: take_Cons numeral_2_eq_2 nat.case list.inject simp_thms)
  qed
  show ?thesis
  proof (cases "best_run gs")
    case None
    have "gs \<noteq> []" using assms(1) by auto
    then show ?thesis
      using None no [of gs "[]"] v6_loop_groups [of gs "[]" None] assms by (simp add: string6_def v6_finish_def)
  next
    case (Some p)
    obtain s e where p: "p = (s, e)" by fastforce
    have run: "s + 2 \<le> e" "e \<le> 8" "take s gs @ replicate (e - s) 0 @ drop e gs = gs"
      using best_run_ok [OF assms(1) Some] assms(1) by (simp_all add: run_ok_def p)
    let ?t = "join '':'' (map (fmt_uint 16) (drop e gs))"
    have t: "?t = [] \<longleftrightarrow> e = 8"
      using fmt16_join_start [of "drop e gs" "[]"] run(2) assms(1) by (cases "drop e gs = []") auto
    have d: "list_all (\<lambda>x. x < 65536) (drop e gs)" "list_all (\<lambda>x. x < 65536) (take s gs)"
      using assms(2) by (auto simp: list_all_iff dest: in_set_dropD in_set_takeD)
    have str: "string6 gs = join '':'' (map (fmt_uint 16) (take s gs)) @ ''::'' @ ?t"
      by (simp add: string6_def Some p)
    show ?thesis
    proof (cases "s = 0")
      case True
      have "v6_finish (v6_loop [] (Some 0) ?t) = Some gs" if "e \<noteq> 8"
        using that v6_loop_groups [of "drop e gs" "[]" "Some 0"] d run assms(1) True
        by (simp add: v6_finish_def)
      then show ?thesis using str True t run assms(1) by (cases "e = 8") auto
    next
      case False
      have pre: "take s gs \<noteq> []" using False assms(1) by auto
      have "v6_finish (v6_loop [] None (string6 gs)) = Some gs"
        using v6_loop_ellipsis [OF pre, of "[]" ?t] v6_loop_groups [of "drop e gs" "take s gs" "Some s"]
          d run assms(1) t unfolding str
        by (cases "e = 8") (auto simp: v6_finish_def min_def)
      then show ?thesis using no [OF pre] str by simp
    qed
  qed
qed

lemma parse_string6:
  assumes "addr_ok (AddrV6 gs z)" "\<not> Is4In6 gs"
  shows "ParseAddr (addr_String (AddrV6 gs z)) = Some (AddrV6 gs z)"
proof -
  let ?s = "string6 gs"
  have s: "addr_String (AddrV6 gs z) = ?s @ (if z = [] then [] else CHR ''%'' # z)" using assms(2) by simp
  have "before_byte (CHR ''%'') (addr_String (AddrV6 gs z)) = ?s"
    unfolding s before_byte_def using string6_no_percent [of gs]
    by (subst takeWhile_append2) (auto split: if_splits)
  moreover have "drop (length ?s + 1) (addr_String (AddrV6 gs z)) = z" unfolding s by simp
  moreover have "CHR ''%'' \<in> set (addr_String (AddrV6 gs z)) \<longleftrightarrow> z \<noteq> []"
    unfolding s using string6_no_percent by auto
  ultimately have "parseIPv6 (addr_String (AddrV6 gs z)) = Some (AddrV6 gs z)"
    using v6_finish_string6 [of gs] assms(1) by (auto simp: parseIPv6_def Let_def simp del: addr_String.simps split: if_splits)
  then show ?thesis
    unfolding ParseAddr_def using string6_special [of gs] assms(1) unfolding s by simp
qed

lemma dec_of: "d < 10 \<Longrightarrow> dec_digit (digit_char d) = Some d"
  by simp

lemma v4_octet:
  assumes "n < 256"
  shows "\<exists>d>0. v4_loop 0 0 fs (fmt_uint 10 n @ r) = v4_loop n d fs r"
proof -
  consider "n < 10" | "10 \<le> n" "n < 100" | "100 \<le> n" by linarith
  then show ?thesis
  proof cases
    case 1
    then show ?thesis by (intro exI [of _ 1]) (simp add: fmt_uint.simps)
  next
    case 2
    then have "fmt_uint 10 n = [digit_char (n div 10), digit_char (n mod 10)]" "0 < n div 10" "n div 10 < 10"
      by (simp_all add: fmt_uint.simps [of 10 n] fmt_uint.simps [of 10 "n div 10"] div_greater_zero_iff)
    moreover have "n div 10 * 10 + n mod 10 = n" by simp
    moreover have "n div 10 \<le> 255" using assms by simp
    ultimately show ?thesis using 2 by (intro exI [of _ "Suc (Suc 0)"]) simp
  next
    case 3
    have "n div 100 < 10" "\<not> n div 10 < 10" using assms 3 by linarith+
    then have "fmt_uint 10 n = [digit_char (n div 100), digit_char (n div 10 mod 10), digit_char (n mod 10)]"
      using 3 by (simp add: fmt_uint_large [of 10 n] fmt_uint_large [of 10 "n div 10"]
          fmt_uint_small flip: div_mult2_eq)
    moreover have "n div 100 < 10" "0 < n div 100" using assms 3 by (simp_all add: div_greater_zero_iff)
    moreover have "n div 100 * 10 + n div 10 mod 10 = n div 10"
      using div_mult_mod_eq [of "n div 10" 10] by (simp flip: div_mult2_eq)
    moreover have "n div 10 * 10 + n mod 10 = n" by simp
    moreover have "n div 10 \<le> 255" using assms by simp
    ultimately show ?thesis using assms by (intro exI [of _ "Suc (Suc (Suc 0))"]) simp
  qed
qed

lemma fmt10_no_special: "c \<in> set (fmt_uint 10 n) \<Longrightarrow> c \<notin> {CHR '':'', CHR ''.'', CHR ''%''}"
proof (induction n rule: less_induct)
  case (less n)
  show ?case
  proof (cases "n < 10")
    case True
    then show ?thesis using less.prems digit_char_not_colon [of n] by (subst (asm) fmt_uint.simps) auto
  next
    case False
    have mod10: "n mod 10 < 16" using mod_less_divisor [of 10 n] by linarith
    from False show ?thesis
      using less.IH [of "n div 10"] less.prems digit_char_not_colon [of "n mod 10", OF mod10]
      by (subst (asm) (2) fmt_uint.simps) auto
  qed
qed

lemma parse_string4:
  assumes "addr_ok (AddrV4 os)"
  shows "ParseAddr (addr_String (AddrV4 os)) = Some (AddrV4 os)"
proof -
  obtain a b c d where os: "os = [a, b, c, d]" using length4 assms by force
  have lt: "a < 256" "b < 256" "c < 256" "d < 256" using assms by (simp_all add: os)
  have s: "addr_String (AddrV4 os) = fmt_uint 10 a @ CHR ''.'' # fmt_uint 10 b @ CHR ''.'' # fmt_uint 10 c @
      CHR ''.'' # fmt_uint 10 d"
    by (simp add: os)
  have dot: "dec_digit (CHR ''.'') = None" by (simp add: dec_digit_def)
  have step: "v4_loop 0 0 fs (fmt_uint 10 n @ CHR ''.'' # fmt_uint 10 m @ r) = v4_loop 0 0 (fs @ [n]) (fmt_uint 10 m @ r)"
    if "n < 256" "length fs < 3" for n m fs r
    using v4_octet [OF that(1), of fs "CHR ''.'' # fmt_uint 10 m @ r"] that(2) dot by auto
  have last: "v4_loop 0 0 [a, b, c] (fmt_uint 10 d) = Some [a, b, c, d]"
    using v4_octet [OF lt(4), of "[a, b, c]" "[]"] by auto
  have "parseIPv4Fields (addr_String (AddrV4 os)) = Some os"
    unfolding parseIPv4Fields_def s
    using step [OF lt(1), of "[]" b "CHR ''.'' # fmt_uint 10 c @ CHR ''.'' # fmt_uint 10 d"]
      step [OF lt(2), of "[a]" c "CHR ''.'' # fmt_uint 10 d"] step [OF lt(3), of "[a, b]" d "[]"] last
    by (simp add: os)
  moreover have "find (\<lambda>c. c \<in> {CHR ''.'', CHR '':'', CHR ''%''}) (addr_String (AddrV4 os)) = Some (CHR ''.'')"
    unfolding s using fmt10_no_special [of _ a] by (intro find_first) auto
  ultimately show ?thesis unfolding ParseAddr_def by simp
qed

text \<open>Unmapped addresses print to text that parses back to the same address.\<close>

lemma Unmap_not_mapped: "addr_ok a \<Longrightarrow> Unmap a = AddrV6 gs z \<Longrightarrow> \<not> Is4In6 gs"
  by (cases a) (auto split: if_splits)

lemma ParseAddr_String: "addr_ok a \<Longrightarrow> ParseAddr (addr_String (Unmap a)) = Some (Unmap a)"
  using Unmap_ok [of a] Unmap_not_mapped [of a]
  by (cases "Unmap a") (simp_all add: parse_string4 parse_string6 del: addr_String.simps addr_ok.simps)


section \<open>Prefixes\<close>

text \<open>
  \<^verbatim>\<open>netip.Prefix\<close>: the family, the address as a number and the length. \<^verbatim>\<open>PrefixFrom\<close> drops a zone; \<^verbatim>\<open>Contains\<close>
  compares the leading bits of addresses of one family and never holds for a zoned address.
\<close>

record ip_prefix =
  px_is4 :: bool
  px_num :: nat
  px_bits :: nat

fun addr_is4 :: "addr \<Rightarrow> bool" where
  "addr_is4 (AddrV4 os) = True"
| "addr_is4 (AddrV6 gs z) = False"

fun addr_zone :: "addr \<Rightarrow> string" where
  "addr_zone (AddrV4 os) = ''''"
| "addr_zone (AddrV6 gs z) = z"

fun addr_num :: "addr \<Rightarrow> nat" where
  "addr_num (AddrV4 os) = foldl (\<lambda>n x. n * 256 + x) 0 os"
| "addr_num (AddrV6 gs z) = foldl (\<lambda>n x. n * 65536 + x) 0 gs"

definition family_bits :: "bool \<Rightarrow> nat" where
  "family_bits is4 = (if is4 then 32 else 128)"

definition BitLen :: "addr \<Rightarrow> nat" where
  "BitLen a = family_bits (addr_is4 a)"

definition PrefixFrom :: "addr \<Rightarrow> nat \<Rightarrow> ip_prefix" where
  "PrefixFrom a bits = \<lparr>px_is4 = addr_is4 a, px_num = addr_num a, px_bits = bits\<rparr>"

definition ParsePrefix :: "string \<Rightarrow> ip_prefix option" where
  "ParsePrefix s =
     (if CHR ''/'' \<notin> set s then None
      else let bitsStr = rev (before_byte (CHR ''/'') (rev s)); ip = take (length s - length bitsStr - 1) s
           in case ParseAddr ip of
                None \<Rightarrow> None
              | Some a \<Rightarrow>
                  (if addr_zone a \<noteq> '''' then None
                   else if length bitsStr > 1 \<and> (dec_digit (hd bitsStr) = None \<or> dec_digit (hd bitsStr) = Some 0) then None
                   else if bitsStr = '''' then None
                   else case dec_val 0 bitsStr of
                          None \<Rightarrow> None
                        | Some n \<Rightarrow> if n > BitLen a then None else Some (PrefixFrom a n)))"

definition host_bits :: "ip_prefix \<Rightarrow> nat" where
  "host_bits p = family_bits (px_is4 p) - px_bits p"

definition Masked :: "ip_prefix \<Rightarrow> ip_prefix" where
  "Masked p = p\<lparr>px_num := px_num p div 2 ^ host_bits p * 2 ^ host_bits p\<rparr>"

definition Contains :: "ip_prefix \<Rightarrow> addr \<Rightarrow> bool" where
  "Contains p a \<longleftrightarrow> addr_zone a = '''' \<and> px_is4 p = addr_is4 a \<and>
     px_num p div 2 ^ host_bits p = addr_num a div 2 ^ host_bits p"

lemma Contains_Masked [simp]: "Contains (Masked p) a = Contains p a"
  by (simp add: Contains_def Masked_def host_bits_def)

lemma PrefixFrom_sel [simp]:
  "px_is4 (PrefixFrom a n) = addr_is4 a" "px_num (PrefixFrom a n) = addr_num a" "px_bits (PrefixFrom a n) = n"
  by (simp_all add: PrefixFrom_def)

lemma length8: "length xs = 8 \<Longrightarrow> \<exists>a b c d e f g h. xs = [a, b, c, d, e, f, g, h]"
  by (auto simp: length_Suc_conv eval_nat_numeral)

text \<open>The prefix of the IPv4-mapped addresses is their upper 96 bits.\<close>

lemma mapped_num:
  assumes "addr_ok (AddrV6 gs z)"
  shows "Is4In6 gs \<longleftrightarrow> addr_num (AddrV6 gs z) div 2 ^ 32 = 65535"
proof -
  obtain a b c d e f g h where gs: "gs = [a, b, c, d, e, f, g, h]" using length8 [of gs] assms by (auto simp del: addr_num.simps)
  have bnd: "a < 65536" "b < 65536" "c < 65536" "d < 65536" "e < 65536" "f < 65536" "g < 65536" "h < 65536"
    using assms by (simp_all add: gs)
  let ?hi = "((((a * 65536 + b) * 65536 + c) * 65536 + d) * 65536 + e) * 65536 + f"
  have "addr_num (AddrV6 gs z) = ?hi * 2 ^ 32 + (g * 65536 + h)" by (simp add: gs)
  moreover have "g * 65536 + h < 2 ^ 32" using bnd by simp
  ultimately have "addr_num (AddrV6 gs z) div 2 ^ 32 = ?hi" by simp
  moreover have "x * 65536 + y = 65535 \<longleftrightarrow> x = 0 \<and> y = 65535" for x y :: nat
    by (cases x) auto
  then have "?hi = 65535 \<longleftrightarrow> (((a * 65536 + b) * 65536 + c) * 65536 + d) * 65536 + e = 0 \<and> f = 65535" by this
  ultimately show ?thesis by (simp add: Is4In6_def gs del: mult_Suc_right)
qed

lemma unmapped_not_mapped:
  assumes "addr_ok a" "\<not> addr_is4 (Unmap a)"
  shows "addr_num (Unmap a) div 2 ^ 32 \<noteq> 65535"
proof (cases a)
  case (AddrV6 gs z)
  then have "\<not> Is4In6 gs" "Unmap a = AddrV6 gs z" using assms(2) by auto
  then show ?thesis using mapped_num [of gs z] assms(1) AddrV6 by simp
qed (use assms(2) in simp)

lemma mapped_prefix_never_contains:
  assumes "addr_ok a" "\<not> px_is4 p" "96 \<le> px_bits p" "px_bits p \<le> 128" "px_num p div 2 ^ 32 = 65535"
  shows "\<not> Contains p (Unmap a)"
proof
  assume c: "Contains p (Unmap a)"
  obtain k where k: "host_bits p = k" "k \<le> 32" using assms(2-4) by (simp add: host_bits_def family_bits_def)
  have "n div 2 ^ k div 2 ^ (32 - k) = n div 2 ^ 32" for n :: nat
    using k(2) by (metis div_mult2_eq le_add_diff_inverse power_add)
  then have "addr_num (Unmap a) div 2 ^ 32 = 65535" using c assms(5) k by (metis Contains_def)
  moreover have "\<not> addr_is4 (Unmap a)" using c assms(2) by (simp add: Contains_def)
  ultimately show False using unmapped_not_mapped [OF assms(1)] by simp
qed

end
