(* ===== verification/Block_Mirror.thy ===== *)
theory Block_Mirror
  imports Netip
begin

unbundle bit_operations_syntax

text \<open>
  The bounded in-process view of the active block set (\<^verbatim>\<open>core/enforce/mirror.go\<close>): 32 shards of
  address-keyed entries, the removal log (tombstones) that stops a stale scan from undoing an
  unblock, and reconciliation with a scanned authoritative set. Times are Unix nanoseconds, an
  expiry of 0 means none.
\<close>

section \<open>State\<close>

definition shardCount :: nat where "shardCount = 32"
definition maxTombstones :: int where "maxTombstones = 4096"

record mentry =
  me_reason :: string
  me_expiresAt :: int
  me_insertedAt :: int

record mirror =
  mr_shards :: "(addr, mentry) gomap list"
  mr_maxPerShard :: int
  mr_dropped :: "64 word"
  mr_tombs :: "(addr, int) gomap"

definition newMirror :: "int \<Rightarrow> mirror" where
  "newMirror maxEntries =
     \<lparr>mr_shards = replicate shardCount [], mr_maxPerShard = max (go_div maxEntries 32) 1,
      mr_dropped = 0, mr_tombs = []\<rparr>"

definition shardOf :: "addr \<Rightarrow> nat" where
  "shardOf a = unat (fold (\<lambda>c h. (h XOR word_of_nat c) * 16777619) (As16 a) (2166136261 :: 32 word)) mod shardCount"

definition mentry_expired :: "mentry \<Rightarrow> int \<Rightarrow> bool" where
  "mentry_expired e now \<longleftrightarrow> me_expiresAt e \<noteq> 0 \<and> me_expiresAt e \<le> now"

section \<open>Operations\<close>

definition mr_get :: "addr \<Rightarrow> int \<Rightarrow> mirror \<Rightarrow> string option" where
  "mr_get a now mr =
     (case map_of (mr_shards mr ! shardOf a) a of
        None \<Rightarrow> None
      | Some e \<Rightarrow> if mentry_expired e now then None else Some (me_reason e))"

definition mr_set :: "addr \<Rightarrow> mentry \<Rightarrow> mirror \<Rightarrow> bool \<times> mirror" where
  "mr_set a e mr =
     (let i = shardOf a; m = mr_shards mr ! i
      in if map_of m a = None \<and> int (length m) \<ge> mr_maxPerShard mr
         then let m' = filter (\<lambda>p. \<not> mentry_expired (snd p) (me_insertedAt e)) m
              in if int (length m') \<ge> mr_maxPerShard mr
                 then (False, mr\<lparr>mr_shards := (mr_shards mr)[i := m'], mr_dropped := mr_dropped mr + 1\<rparr>)
                 else (True, mr\<lparr>mr_shards := (mr_shards mr)[i := mput a e m']\<rparr>)
         else (True, mr\<lparr>mr_shards := (mr_shards mr)[i := mput a e m]\<rparr>))"

definition oldest_tomb :: "addr \<Rightarrow> int \<Rightarrow> (addr, int) gomap \<Rightarrow> addr" where
  "oldest_tomb a now tombs = fst (fold (\<lambda>(k, t) (oa, o'). if t < o' then (k, t) else (oa, o')) tombs (a, now))"

definition mr_remove :: "addr \<Rightarrow> int \<Rightarrow> mirror \<Rightarrow> mirror" where
  "mr_remove a now mr =
     (let i = shardOf a;
          tombs = (if int (length (mr_tombs mr)) \<ge> maxTombstones
                   then mdel (oldest_tomb a now (mr_tombs mr)) (mr_tombs mr) else mr_tombs mr)
      in mr\<lparr>mr_shards := (mr_shards mr)[i := mdel a (mr_shards mr ! i)], mr_tombs := mput a now tombs\<rparr>)"

definition removedSince :: "addr \<Rightarrow> int \<Rightarrow> mirror \<Rightarrow> bool \<times> mirror" where
  "removedSince a scanStart mr =
     (case map_of (mr_tombs mr) a of
        None \<Rightarrow> (False, mr)
      | Some t \<Rightarrow> if t < scanStart then (False, mr\<lparr>mr_tombs := mdel a (mr_tombs mr)\<rparr>) else (True, mr))"

definition pruneTombstones :: "int \<Rightarrow> mirror \<Rightarrow> mirror" where
  "pruneTombstones scanStart mr = mr\<lparr>mr_tombs := filter (\<lambda>p. \<not> snd p < scanStart) (mr_tombs mr)\<rparr>"

definition sweep_absent :: "(addr, mentry) gomap \<Rightarrow> int \<Rightarrow> mirror \<Rightarrow> mirror" where
  "sweep_absent active scanStart mr =
     mr\<lparr>mr_shards := map (filter (\<lambda>p. \<not> (map_of active (fst p) = None \<and> me_insertedAt (snd p) < scanStart)))
          (mr_shards mr)\<rparr>"

fun upsert_active :: "int \<Rightarrow> (addr, mentry) gomap \<Rightarrow> bool \<Rightarrow> mirror \<Rightarrow> bool \<times> mirror" where
  "upsert_active scanStart [] complete mr = (complete, mr)"
| "upsert_active scanStart ((k, e) # rest) complete mr =
     (let (removed, mr1) = removedSince k scanStart mr
      in if removed then upsert_active scanStart rest complete mr1
         else let (stored, mr2) = mr_set k e mr1
              in upsert_active scanStart rest (complete \<and> stored) mr2)"

definition mr_reconcile :: "(addr, mentry) gomap \<Rightarrow> int \<Rightarrow> bool \<Rightarrow> mirror \<Rightarrow> bool \<times> mirror" where
  "mr_reconcile active scanStart scannedAll mr =
     (let mr1 = (if scannedAll then sweep_absent active scanStart mr else mr);
          (complete, mr2) = upsert_active scanStart active scannedAll mr1
      in (complete, pruneTombstones scanStart mr2))"

definition mr_count :: "mirror \<Rightarrow> int" where
  "mr_count mr = int (sum_list (map length (mr_shards mr)))"

section \<open>Invariant\<close>

definition mr_lookup :: "mirror \<Rightarrow> addr \<Rightarrow> mentry option" where
  "mr_lookup mr a = map_of (mr_shards mr ! shardOf a) a"

text \<open>What a request at time \<open>t\<close> sees of an address.\<close>

definition entry_at :: "int \<Rightarrow> mentry \<Rightarrow> mentry option" where
  "entry_at t e = (if mentry_expired e t then None else Some e)"

definition mr_live :: "mirror \<Rightarrow> int \<Rightarrow> addr \<Rightarrow> mentry option" where
  "mr_live mr t a = Option.bind (mr_lookup mr a) (entry_at t)"

definition mirror_ok :: "mirror \<Rightarrow> bool" where
  "mirror_ok mr \<longleftrightarrow>
     length (mr_shards mr) = shardCount \<and> 1 \<le> mr_maxPerShard mr \<and>
     (\<forall>i < shardCount. map_wf (mr_shards mr ! i) \<and> int (length (mr_shards mr ! i)) \<le> mr_maxPerShard mr \<and>
        (\<forall>a \<in> mkeys (mr_shards mr ! i). shardOf a = i)) \<and>
     map_wf (mr_tombs mr)"

lemma shardOf_less [simp]: "shardOf a < shardCount"
  by (simp add: shardOf_def shardCount_def)

lemma mr_get_live: "mr_get a t mr = map_option me_reason (mr_live mr t a)"
  by (auto simp: mr_get_def mr_live_def mr_lookup_def entry_at_def split: option.splits)

lemma newMirror_ok: "mirror_ok (newMirror n)"
proof -
  have "0 \<le> max (go_div n 32) 1" by simp
  then show ?thesis by (simp add: mirror_ok_def newMirror_def maxTombstones_def del: max.bounded_iff)
qed

lemma newMirror_live: "mr_live (newMirror n) t a = None"
  using shardOf_less [of a] by (simp add: mr_live_def mr_lookup_def newMirror_def)

lemma mirror_ok_shard:
  assumes "mirror_ok mr" "map_wf m" "int (length m) \<le> mr_maxPerShard mr" "\<forall>a \<in> mkeys m. shardOf a = i" "i < shardCount"
  shows "mirror_ok (mr\<lparr>mr_shards := (mr_shards mr)[i := m]\<rparr>)"
  using assms by (auto simp: mirror_ok_def nth_list_update)

lemma mirror_ok_frame:
  "mirror_ok mr \<Longrightarrow> mr_shards mr' = mr_shards mr \<Longrightarrow> mr_maxPerShard mr' = mr_maxPerShard mr \<Longrightarrow> map_wf (mr_tombs mr') \<Longrightarrow> mirror_ok mr'"
  unfolding mirror_ok_def by metis

lemma mirror_ok_tombs: "mirror_ok mr \<Longrightarrow> map_wf (mr_tombs mr)"
  by (simp only: mirror_ok_def)

lemma mirror_okD:
  "mirror_ok mr \<Longrightarrow> map_wf (mr_shards mr ! shardOf a) \<and> int (length (mr_shards mr ! shardOf a)) \<le> mr_maxPerShard mr \<and>
     (\<forall>b \<in> mkeys (mr_shards mr ! shardOf a). shardOf b = shardOf a) \<and> length (mr_shards mr) = shardCount"
  by (simp add: mirror_ok_def)

lemma lookup_shard_upd:
  "mirror_ok mr \<Longrightarrow> mr_lookup (mr\<lparr>mr_shards := (mr_shards mr)[shardOf a := m]\<rparr>) b =
     (if shardOf b = shardOf a then map_of m b else mr_lookup mr b)"
  using mirror_okD [of mr a] by (auto simp: mr_lookup_def nth_list_update)

lemma mr_lookup_fields [simp]:
  "mr_lookup (mr\<lparr>mr_dropped := d\<rparr>) = mr_lookup mr" "mr_lookup (mr\<lparr>mr_tombs := ts\<rparr>) = mr_lookup mr"
  by (simp_all add: mr_lookup_def fun_eq_iff)

section \<open>Effect of the operations on the live view\<close>

lemma mentry_expired_mono: "mentry_expired e t \<Longrightarrow> t \<le> t' \<Longrightarrow> mentry_expired e t'"
  by (auto simp: mentry_expired_def)

lemma mr_set_cases:
  assumes "mr_set a e mr = (stored, mr')"
  obtains m where "stored" "mr' = mr\<lparr>mr_shards := (mr_shards mr)[shardOf a := mput a e m]\<rparr>"
      "m = mr_shards mr ! shardOf a" "int (length m) < mr_maxPerShard mr \<or> a \<in> mkeys m"
  | m where "stored" "mr' = mr\<lparr>mr_shards := (mr_shards mr)[shardOf a := mput a e m]\<rparr>"
      "m = filter (\<lambda>p. \<not> mentry_expired (snd p) (me_insertedAt e)) (mr_shards mr ! shardOf a)"
      "int (length m) < mr_maxPerShard mr"
  | m where "\<not> stored" "mr' = mr\<lparr>mr_shards := (mr_shards mr)[shardOf a := m], mr_dropped := mr_dropped mr + 1\<rparr>"
      "m = filter (\<lambda>p. \<not> mentry_expired (snd p) (me_insertedAt e)) (mr_shards mr ! shardOf a)"
      "mr_lookup mr a = None"
proof -
  let ?m = "mr_shards mr ! shardOf a"
  let ?m' = "filter (\<lambda>p. \<not> mentry_expired (snd p) (me_insertedAt e)) ?m"
  consider "\<not> (map_of ?m a = None \<and> int (length ?m) \<ge> mr_maxPerShard mr)"
    | "map_of ?m a = None" "int (length ?m) \<ge> mr_maxPerShard mr" "int (length ?m') < mr_maxPerShard mr"
    | "map_of ?m a = None" "int (length ?m) \<ge> mr_maxPerShard mr" "int (length ?m') \<ge> mr_maxPerShard mr"
    by linarith
  then show thesis
  proof cases
    case 1
    then show thesis using assms by (intro that(1) [of ?m]) (auto simp: mr_set_def Let_def mkeys_iff)
  next
    case 2
    then show thesis using assms by (intro that(2) [of ?m']) (simp_all add: mr_set_def Let_def)
  next
    case 3
    then show thesis using assms by (intro that(3) [of ?m']) (simp_all add: mr_set_def Let_def mr_lookup_def)
  qed
qed

lemma mr_set_tombs: "mr_set a e mr = (stored, mr') \<Longrightarrow> mr_tombs mr' = mr_tombs mr"
  by (erule mr_set_cases) simp_all

lemma mirror_ok_upd:
  assumes "mirror_ok mr" "mkeys m \<subseteq> insert a (mkeys (mr_shards mr ! shardOf a))" "map_wf m"
    and "int (length m) \<le> mr_maxPerShard mr"
  shows "mirror_ok (mr\<lparr>mr_shards := (mr_shards mr)[shardOf a := m]\<rparr>)"
proof (rule mirror_ok_shard [OF assms(1,3,4) _ shardOf_less])
  show "\<forall>b \<in> mkeys m. shardOf b = shardOf a"
    using assms(2) mirror_okD [OF assms(1), of a] by blast
qed

lemma mr_set_ok:
  assumes "mirror_ok mr" "mr_set a e mr = (stored, mr')"
  shows "mirror_ok mr'"
proof -
  let ?m = "mr_shards mr ! shardOf a"
  have wf: "map_wf ?m" and len: "int (length ?m) \<le> mr_maxPerShard mr"
    using mirror_okD [OF assms(1), of a] by blast+
  from assms(2) show ?thesis
  proof (cases rule: mr_set_cases)
    case (1 m)
    then show ?thesis using wf len by (auto simp: length_mput intro!: mirror_ok_upd [OF assms(1)])
  next
    case (2 m)
    have "map_wf m" "mkeys m \<subseteq> mkeys ?m" unfolding 2(3) using wf by (simp_all add: mkeys_filter)
    with 2(1,2,4) show ?thesis by (auto simp: length_mput intro!: mirror_ok_upd [OF assms(1)])
  next
    case (3 m)
    have "length m \<le> length ?m" unfolding 3(3) by (rule length_filter_le)
    moreover have "map_wf m" "mkeys m \<subseteq> mkeys ?m" unfolding 3(3) using wf by (simp_all add: mkeys_filter)
    ultimately have "mirror_ok (mr\<lparr>mr_shards := (mr_shards mr)[shardOf a := m]\<rparr>)"
      using len by (intro mirror_ok_upd [OF assms(1)]) auto
    then show ?thesis
      by (rule mirror_ok_frame) (simp_all add: 3(2) mirror_ok_tombs assms(1))
  qed
qed

lemma shed_live:
  "map_wf m \<Longrightarrow> now \<le> t \<Longrightarrow>
     Option.bind (map_of (filter (\<lambda>p. \<not> mentry_expired (snd p) now) m) b) (entry_at t) = Option.bind (map_of m b) (entry_at t)"
  using map_of_filter_kv [of m "\<lambda>_ e. \<not> mentry_expired e now" b]
  by (auto simp: entry_at_def dest: mentry_expired_mono split: option.splits)

lemma mr_set_live:
  assumes "mirror_ok mr" "mr_set a e mr = (stored, mr')" "me_insertedAt e \<le> t"
  shows "mr_live mr' t b = (if stored \<and> b = a then entry_at t e else mr_live mr t b)"
proof -
  let ?m = "mr_shards mr ! shardOf a"
  have wf: "map_wf ?m" using mirror_okD [OF assms(1), of a] by simp
  have lk: "mr_lookup mr b = map_of ?m b" if "shardOf b = shardOf a" using that by (simp add: mr_lookup_def)
  note upd = lookup_shard_upd [OF assms(1), of a]
  from assms(2) show ?thesis
  proof (cases rule: mr_set_cases)
    case (1 m)
    then show ?thesis using lk by (auto simp: mr_live_def upd gomap_simps)
  next
    case (2 m)
    then show ?thesis using lk shed_live [OF wf assms(3)] by (auto simp: mr_live_def upd gomap_simps)
  next
    case (3 m)
    have "mr_lookup mr' b = mr_lookup (mr\<lparr>mr_shards := (mr_shards mr)[shardOf a := m]\<rparr>) b"
      using 3(2) by (simp add: mr_lookup_def)
    then show ?thesis using 3 lk shed_live [OF wf assms(3)] by (auto simp: mr_live_def upd)
  qed
qed

lemma oldest_tomb_room:
  "int (length (mr_tombs mr)) < maxTombstones \<Longrightarrow> mr_tombs (mr_remove a now mr) = mput a now (mr_tombs mr)"
  by (simp add: mr_remove_def Let_def)

lemma mr_remove_ok: "mirror_ok mr \<Longrightarrow> mirror_ok (mr_remove a now mr)"
proof -
  assume ok: "mirror_ok mr"
  let ?m = "mdel a (mr_shards mr ! shardOf a)"
  have "length ?m \<le> length (mr_shards mr ! shardOf a)" by (simp add: AList.delete_eq)
  moreover have "int (length (mr_shards mr ! shardOf a)) \<le> mr_maxPerShard mr" "map_wf (mr_shards mr ! shardOf a)"
    using mirror_okD [OF ok, of a] by blast+
  ultimately have "mirror_ok (mr\<lparr>mr_shards := (mr_shards mr)[shardOf a := ?m]\<rparr>)"
    by (intro mirror_ok_upd [OF ok]) auto
  then show ?thesis
    by (rule mirror_ok_frame) (simp_all add: mr_remove_def Let_def mirror_ok_tombs ok)
qed

lemma mr_remove_live: "mirror_ok mr \<Longrightarrow> mr_live (mr_remove a now mr) t b = (if b = a then None else mr_live mr t b)"
  using lookup_shard_upd [of mr a "mdel a (mr_shards mr ! shardOf a)" b]
  by (simp add: mr_live_def mr_remove_def Let_def mr_lookup_def gomap_simps)

lemma mr_remove_tomb: "map_of (mr_tombs (mr_remove a now mr)) a = Some now"
  by (simp add: mr_remove_def Let_def gomap_simps)

text \<open>A tombstone that vetoes a scan started at \<open>s\<close>.\<close>

definition vetoed :: "mirror \<Rightarrow> int \<Rightarrow> addr \<Rightarrow> bool" where
  "vetoed mr s a \<longleftrightarrow> (\<exists>t. map_of (mr_tombs mr) a = Some t \<and> s \<le> t)"

lemma removedSince_result:
  assumes "removedSince k s mr = (r, mr')"
  shows "r = vetoed mr s k" "mr_shards mr' = mr_shards mr" "mr_maxPerShard mr' = mr_maxPerShard mr"
    "vetoed mr' s a = vetoed mr s a" "mirror_ok mr \<Longrightarrow> mirror_ok mr'"
  using assms
  by (auto simp: removedSince_def vetoed_def gomap_simps mirror_ok_tombs
      intro: mirror_ok_frame split: option.splits if_splits)

lemma mr_live_shards: "mr_shards mr' = mr_shards mr \<Longrightarrow> mr_live mr' t a = mr_live mr t a"
  by (simp add: mr_live_def mr_lookup_def)

lemma vetoed_tombs: "mr_tombs mr' = mr_tombs mr \<Longrightarrow> vetoed mr' s a = vetoed mr s a"
  by (simp add: vetoed_def)

text \<open>The upsert loop: what is lost is only what a full shard refused, and then it says so.\<close>

lemma upsert_active_ok:
  "upsert_active s kvs c mr = (c', mr') \<Longrightarrow> mirror_ok mr \<Longrightarrow> mirror_ok mr' \<and> (c' \<longrightarrow> c) \<and> vetoed mr' s a = vetoed mr s a"
proof (induction s kvs c mr rule: upsert_active.induct)
  case (2 s k e rest c mr)
  obtain r mr1 where r: "removedSince k s mr = (r, mr1)" by fastforce
  obtain st mr2 where st: "mr_set k e mr1 = (st, mr2)" by fastforce
  note f = removedSince_result [OF r]
  note ok1 = f(5) [OF "2.prems"(2)]
  show ?case
    using "2.IH"(1) [OF r [symmetric] refl] "2.IH"(2) [OF r [symmetric] refl _ st [symmetric] refl]
      "2.prems"(1) ok1 mr_set_ok [OF ok1 st] f(4) vetoed_tombs [OF mr_set_tombs [OF st]]
    by (auto simp: r st split: if_splits)
qed simp

lemma upsert_active_live:
  assumes "upsert_active s kvs c mr = (True, mr')" "mirror_ok mr" "map_wf kvs"
    and "\<forall>e \<in> snd ` set kvs. me_insertedAt e \<le> t"
  shows "mr_live mr' t a =
    (case map_of kvs a of
       Some e \<Rightarrow> if vetoed mr s a then mr_live mr t a else entry_at t e
     | None \<Rightarrow> mr_live mr t a)"
  using assms
proof (induction kvs arbitrary: c mr)
  case (Cons p kvs)
  obtain k e where p: "p = (k, e)" by fastforce
  obtain r mr1 where r: "removedSince k s mr = (r, mr1)" by fastforce
  obtain st mr2 where st: "mr_set k e mr1 = (st, mr2)" by fastforce
  note f = removedSince_result [OF r]
  note ok1 = f(5) [OF Cons.prems(2)]
  have wf: "map_wf kvs" "map_of kvs k = None"
    using Cons.prems(3) by (auto simp: map_wf_def p map_of_eq_None_iff)
  have ins: "me_insertedAt e \<le> t" "\<forall>e \<in> snd ` set kvs. me_insertedAt e \<le> t" using Cons.prems(4) by (auto simp: p)
  show ?case
  proof (cases r)
    case True
    then have "upsert_active s kvs c mr1 = (True, mr')" using Cons.prems(1) by (simp add: p r)
    from Cons.IH [OF this ok1 wf(1) ins(2)] show ?thesis
      using wf(2) True f(1) f(4) mr_live_shards [OF f(2)] by (auto simp: p split: option.splits)
  next
    case False
    then have u: "upsert_active s kvs (c \<and> st) mr2 = (True, mr')" using Cons.prems(1) by (simp add: p r st)
    have "st" using upsert_active_ok [OF u mr_set_ok [OF ok1 st]] by simp
    with Cons.IH [OF u mr_set_ok [OF ok1 st] wf(1) ins(2)] show ?thesis
      using wf(2) False f(1) f(4) mr_live_shards [OF f(2)] mr_set_live [OF ok1 st ins(1)]
        vetoed_tombs [OF mr_set_tombs [OF st]]
      by (auto simp: p split: option.splits)
  qed
qed simp

lemma sweep_absent_ok:
  assumes "mirror_ok mr"
  shows "mirror_ok (sweep_absent active s mr)"
proof -
  let ?P = "\<lambda>p. \<not> (map_of active (fst p) = None \<and> me_insertedAt (snd p) < s)"
  have len: "length (mr_shards mr) = shardCount" "1 \<le> mr_maxPerShard mr" "map_wf (mr_tombs mr)"
    using assms by (simp_all only: mirror_ok_def)
  have "map_wf (map (filter ?P) (mr_shards mr) ! i) \<and>
      int (length (map (filter ?P) (mr_shards mr) ! i)) \<le> mr_maxPerShard mr \<and>
      (\<forall>a \<in> mkeys (map (filter ?P) (mr_shards mr) ! i). shardOf a = i)" if i: "i < shardCount" for i
  proof -
    have sh: "map_wf (mr_shards mr ! i)" "int (length (mr_shards mr ! i)) \<le> mr_maxPerShard mr"
        "\<forall>a \<in> mkeys (mr_shards mr ! i). shardOf a = i"
      using assms i unfolding mirror_ok_def by blast+
    have "length (filter ?P (mr_shards mr ! i)) \<le> length (mr_shards mr ! i)" by (rule length_filter_le)
    then have "int (length (filter ?P (mr_shards mr ! i))) \<le> mr_maxPerShard mr" using sh(2) by linarith
    moreover have "\<forall>a \<in> mkeys (filter ?P (mr_shards mr ! i)). shardOf a = i"
      using sh(3) mkeys_filter [of ?P "mr_shards mr ! i"] by blast
    ultimately show ?thesis using sh(1) i len(1) by (simp only: nth_map map_wf_filter simp_thms)
  qed
  with len show ?thesis by (simp add: mirror_ok_def sweep_absent_def)
qed

lemma sweep_absent_live:
  "mirror_ok mr \<Longrightarrow> mr_live (sweep_absent active s mr) t a =
     (case mr_live mr t a of
        None \<Rightarrow> None
      | Some e \<Rightarrow> if map_of active a = None \<and> me_insertedAt e < s then None else Some e)"
proof -
  assume ok: "mirror_ok mr"
  let ?m = "mr_shards mr ! shardOf a"
  have "map_wf ?m" "length (mr_shards mr) = shardCount" using mirror_okD [OF ok, of a] by blast+
  then show ?thesis
    using map_of_filter_kv [of ?m "\<lambda>k e. \<not> (map_of active k = None \<and> me_insertedAt e < s)" a]
    by (auto simp: mr_live_def mr_lookup_def sweep_absent_def entry_at_def split: option.splits)
qed

lemma sweep_absent_lookup:
  "mirror_ok mr \<Longrightarrow> mr_lookup mr a = None \<Longrightarrow> mr_lookup (sweep_absent active s mr) a = None"
  using mirror_okD [of mr a] by (auto simp: mr_lookup_def sweep_absent_def map_of_eq_None_iff)

lemma prune_fields: "mr_shards (pruneTombstones s mr) = mr_shards mr"
  by (simp add: pruneTombstones_def)

lemma mr_reconcile_ok:
  assumes "mirror_ok mr" "mr_reconcile active s all mr = (c, mr')"
  shows "mirror_ok mr'"
proof -
  obtain c2 mr2 where u: "upsert_active s active all (if all then sweep_absent active s mr else mr) = (c2, mr2)"
    by fastforce
  then have "mirror_ok mr2" using upsert_active_ok [OF u] assms(1) sweep_absent_ok by auto
  moreover have "mr' = pruneTombstones s mr2" using assms(2) u by (simp add: mr_reconcile_def)
  ultimately show ?thesis
    by (auto simp: pruneTombstones_def mirror_ok_tombs intro: mirror_ok_frame)
qed

section \<open>Interleaved changes\<close>

datatype mirror_change = ChangeSet addr mentry | ChangeRemove addr int

fun apply_change :: "mirror_change \<Rightarrow> mirror \<Rightarrow> mirror" where
  "apply_change (ChangeSet a e) mr = snd (mr_set a e mr)"
| "apply_change (ChangeRemove a now) mr = mr_remove a now mr"

text \<open>No change of the list adds the address, and every removal of it is at or after the scan start.\<close>

fun keeps_removed :: "addr \<Rightarrow> int \<Rightarrow> mirror_change \<Rightarrow> bool" where
  "keeps_removed a s (ChangeSet b e) \<longleftrightarrow> b \<noteq> a"
| "keeps_removed a s (ChangeRemove b now) \<longleftrightarrow> b \<noteq> a \<or> s \<le> now"

fun is_removal :: "mirror_change \<Rightarrow> bool" where
  "is_removal (ChangeRemove b now) \<longleftrightarrow> True"
| "is_removal _ \<longleftrightarrow> False"

lemma mr_set_lookup_other: "mirror_ok mr \<Longrightarrow> b \<noteq> a \<Longrightarrow> mr_lookup mr a = None \<Longrightarrow> mr_lookup (snd (mr_set b e mr)) a = None"
proof -
  assume a: "mirror_ok mr" "b \<noteq> a" "mr_lookup mr a = None"
  obtain st mr' where st: "mr_set b e mr = (st, mr')" by fastforce
  note upd = lookup_shard_upd [OF a(1), of b]
  have lk: "map_of (mr_shards mr ! shardOf b) a = None" if "shardOf a = shardOf b"
    using a(3) that by (simp add: mr_lookup_def)
  have shed: "map_of (filter P (mr_shards mr ! shardOf b)) a = None" if "shardOf a = shardOf b" for P
    using a(3) that by (auto simp: mr_lookup_def map_of_eq_None_iff)
  from st show ?thesis
  proof (cases rule: mr_set_cases)
    case (1 m)
    then show ?thesis using a st lk by (simp add: upd gomap_simps)
  next
    case (2 m)
    then show ?thesis using a st shed by (auto simp: upd gomap_simps)
  next
    case (3 m)
    have "mr_lookup mr' a = mr_lookup (mr\<lparr>mr_shards := (mr_shards mr)[shardOf b := m]\<rparr>) a"
      using 3(2) by (simp add: mr_lookup_def)
    then show ?thesis using 3(3) a st shed by (simp add: upd)
  qed
qed

lemma mr_remove_lookup: "mirror_ok mr \<Longrightarrow> mr_lookup (mr_remove b now mr) a = (if a = b then None else mr_lookup mr a)"
  using lookup_shard_upd [of mr b "mdel b (mr_shards mr ! shardOf b)" a]
  by (simp add: mr_remove_def Let_def mr_lookup_def gomap_simps)

lemma upsert_vetoed:
  "upsert_active s kvs c mr = (c', mr') \<Longrightarrow> mirror_ok mr \<Longrightarrow> mr_lookup mr a = None \<Longrightarrow> vetoed mr s a \<Longrightarrow>
     mr_lookup mr' a = None"
proof (induction s kvs c mr rule: upsert_active.induct)
  case (2 s k e rest c mr)
  obtain r mr1 where r: "removedSince k s mr = (r, mr1)" by fastforce
  obtain st mr2 where st: "mr_set k e mr1 = (st, mr2)" by fastforce
  note f = removedSince_result [OF r]
  note ok1 = f(5) [OF "2.prems"(2)]
  have n1: "mr_lookup mr1 a = None" using "2.prems"(3) f(2) by (simp add: mr_lookup_def)
  have v1: "vetoed mr1 s a" using "2.prems"(4) f(4) by simp
  show ?case
  proof (cases r)
    case True
    with "2.IH"(1) [OF r [symmetric] refl True _ ok1 n1 v1] "2.prems"(1) show ?thesis by (simp add: r)
  next
    case False
    then have "k \<noteq> a" using f(1) "2.prems"(4) by auto
    then have n2: "mr_lookup mr2 a = None" using mr_set_lookup_other [OF ok1 _ n1, of k e] st by simp
    have v2: "vetoed mr2 s a" using v1 vetoed_tombs [OF mr_set_tombs [OF st]] by simp
    show ?thesis
      using "2.IH"(2) [OF r [symmetric] refl False st [symmetric] refl _ mr_set_ok [OF ok1 st] n2 v2] "2.prems"(1) False
      by (simp add: r st)
  qed
qed simp

lemma apply_change_ok: "mirror_ok mr \<Longrightarrow> mirror_ok (apply_change c mr)"
  by (cases c) (auto simp: mr_remove_ok intro: mr_set_ok [OF _ prod.collapse [symmetric]])

lemma changes_keep_removed:
  assumes "mirror_ok mr" "mr_lookup mr a = None" "vetoed mr s a" "list_all (keeps_removed a s) cs"
    and "int (length (mr_tombs mr)) + int (length (filter is_removal cs)) \<le> maxTombstones"
  shows "mirror_ok (fold apply_change cs mr) \<and> mr_lookup (fold apply_change cs mr) a = None \<and>
         vetoed (fold apply_change cs mr) s a"
  using assms
proof (induction cs arbitrary: mr)
  case (Cons c cs)
  let ?mr1 = "apply_change c mr"
  have "mirror_ok ?mr1" using apply_change_ok Cons.prems(1) .
  moreover have "mr_lookup ?mr1 a = None"
    using Cons.prems by (cases c) (auto simp: mr_set_lookup_other mr_remove_lookup)
  moreover have "vetoed ?mr1 s a \<and> int (length (mr_tombs ?mr1)) + int (length (filter is_removal cs)) \<le> maxTombstones"
  proof (cases c)
    case (ChangeSet b e)
    have "mr_tombs ?mr1 = mr_tombs mr" using mr_set_tombs [of b e mr] by (simp add: ChangeSet prod_eq_iff)
    then show ?thesis using Cons.prems(3,5) ChangeSet by (simp add: vetoed_def)
  next
    case (ChangeRemove b now)
    then have "mr_tombs ?mr1 = mput b now (mr_tombs mr)"
      using Cons.prems(5) by (simp add: oldest_tomb_room)
    moreover have "length (mput b now (mr_tombs mr)) \<le> Suc (length (mr_tombs mr))"
      using mirror_ok_tombs [OF Cons.prems(1)] by (simp add: length_mput)
    ultimately show ?thesis
      using Cons.prems(3,4,5) ChangeRemove by (auto simp: vetoed_def gomap_simps)
  qed
  ultimately show ?case using Cons.IH [of ?mr1] Cons.prems(4) by simp
qed simp

lemma sum_list_bound:
  "\<forall>m \<in> set ms. int (length m) \<le> b \<Longrightarrow> int (sum_list (map length ms)) \<le> int (length ms) * b"
  by (induction ms) (auto simp: algebra_simps)

section \<open>Properties\<close>

text \<open>
  An unblock is never undone by a reconcile whose scan predates it: an address removed at
  or after the scan started stays absent through any interleaved changes of other addresses and
  through the reconcile itself, whatever the snapshot says, as long as the removal log has not
  overflowed its 4096 entries.
\<close>

theorem unblock_survives_stale_reconcile:
  assumes "mirror_ok mr" "scanStart \<le> now" "list_all (keeps_removed a scanStart) cs"
    and "int (length (mr_tombs mr)) + int (length (filter is_removal cs)) < maxTombstones"
    and "map_wf active" "\<forall>e \<in> snd ` set active. me_insertedAt e = scanStart"
    and "mr_reconcile active scanStart scannedAll (fold apply_change cs (mr_remove a now mr)) = (complete, mr')"
  shows "mr_get a t mr' = None"
proof -
  let ?mr0 = "mr_remove a now mr"
  let ?mr1 = "fold apply_change cs ?mr0"
  have "mr_tombs ?mr0 = mput a now (mr_tombs mr)" using assms(4) by (simp add: oldest_tomb_room)
  then have "length (mr_tombs ?mr0) \<le> Suc (length (mr_tombs mr))" "vetoed ?mr0 scanStart a"
    using mirror_ok_tombs [OF assms(1)] assms(2) by (simp_all add: length_mput vetoed_def gomap_simps)
  then have k: "mirror_ok ?mr1" "mr_lookup ?mr1 a = None" "vetoed ?mr1 scanStart a"
    using changes_keep_removed [OF mr_remove_ok [OF assms(1)], of a now a scanStart cs] assms(1,3,4)
    by (simp_all add: mr_remove_lookup)
  let ?mr2 = "if scannedAll then sweep_absent active scanStart ?mr1 else ?mr1"
  have ok2: "mirror_ok ?mr2" using k(1) sweep_absent_ok by simp
  have n2: "mr_lookup ?mr2 a = None" using k(2) sweep_absent_lookup [OF k(1)] by simp
  have v2: "vetoed ?mr2 scanStart a" using k(3) by (simp add: vetoed_def sweep_absent_def)
  obtain c3 mr3 where u: "upsert_active scanStart active scannedAll ?mr2 = (c3, mr3)" by fastforce
  have "mr_lookup mr3 a = None" using upsert_vetoed [OF u ok2 n2 v2] .
  moreover have "mr' = pruneTombstones scanStart mr3" using assms(7) u by (simp add: mr_reconcile_def)
  ultimately show ?thesis by (simp add: mr_get_live mr_live_def pruneTombstones_def)
qed

definition example_addr :: addr where "example_addr = AddrV4 [192, 0, 2, 7]"

definition example_entry :: mentry where
  "example_entry = \<lparr>me_reason = ''threshold:waf'', me_expiresAt = 0, me_insertedAt = 5\<rparr>"

definition example_mirror :: mirror where
  "example_mirror = snd (mr_set example_addr example_entry (newMirror 64))"

lemma example_mirror_ok: "mirror_ok example_mirror"
  unfolding example_mirror_def by (rule mr_set_ok [OF newMirror_ok prod.collapse [symmetric]])

lemma example_mirror_tombs: "mr_tombs example_mirror = []"
  using mr_set_tombs [of example_addr example_entry "newMirror 64"]
  by (simp add: example_mirror_def newMirror_def prod_eq_iff)

theorem unblock_survives_stale_reconcile_witness:
  "mr_get example_addr 9
     (snd (mr_reconcile [(example_addr, example_entry)] 5 True (mr_remove example_addr 7 example_mirror))) = None"
  using unblock_survives_stale_reconcile [OF example_mirror_ok, of 5 7 example_addr "[]"
      "[(example_addr, example_entry)]" True, OF _ _ _ _ _ prod.collapse [symmetric]]
  by (simp add: example_mirror_tombs maxTombstones_def map_wf_def example_entry_def)

text \<open>
  A reconcile that reports itself complete leaves the mirror, as every request from
  the scan on sees it, equal to the scanned set, except for addresses changed after the scan
  started: one removed since keeps its later state, one written since and absent from the scan stays.
\<close>

theorem complete_reconcile_converges:
  assumes "mirror_ok mr" "map_wf active" "\<forall>e \<in> snd ` set active. me_insertedAt e = scanStart" "scanStart \<le> t"
    and "mr_reconcile active scanStart scannedAll mr = (True, mr')"
  shows "mirror_ok mr' \<and>
         mr_live mr' t a =
           (case map_of active a of
              Some e \<Rightarrow> if vetoed mr scanStart a then mr_live mr t a else entry_at t e
            | None \<Rightarrow> (case mr_live mr t a of
                         None \<Rightarrow> None
                       | Some e \<Rightarrow> if me_insertedAt e < scanStart then None else Some e))"
proof -
  obtain c2 mr2 where u: "upsert_active scanStart active scannedAll (if scannedAll then sweep_absent active scanStart mr else mr) = (c2, mr2)"
    by fastforce
  then have c: "c2 = True" "mr' = pruneTombstones scanStart mr2" using assms(5) by (simp_all add: mr_reconcile_def)
  have "mirror_ok (if scannedAll then sweep_absent active scanStart mr else mr)"
    using assms(1) sweep_absent_ok [OF assms(1)] by simp
  then have all: scannedAll using upsert_active_ok [OF u] c(1) by blast
  let ?mr1 = "sweep_absent active scanStart mr"
  have u': "upsert_active scanStart active scannedAll ?mr1 = (True, mr2)" using u c(1) all by simp
  have "mr_live mr2 t a = (case map_of active a of
      Some e \<Rightarrow> if vetoed ?mr1 scanStart a then mr_live ?mr1 t a else entry_at t e | None \<Rightarrow> mr_live ?mr1 t a)"
    using upsert_active_live [OF u' sweep_absent_ok [OF assms(1)] assms(2)] assms(3,4) by auto
  moreover have "vetoed ?mr1 scanStart a = vetoed mr scanStart a" by (simp add: vetoed_def sweep_absent_def)
  moreover have "mr_live mr' t a = mr_live mr2 t a" using c(2) mr_live_shards [OF prune_fields] by simp
  ultimately show ?thesis
    using sweep_absent_live [OF assms(1), of active scanStart t a] mr_reconcile_ok [OF assms(1,5)]
    by (auto split: option.splits)
qed

theorem complete_reconcile_converges_witness:
  "mr_get example_addr 6 (snd (mr_reconcile [(example_addr, example_entry)] 5 True (newMirror 64))) =
     Some ''threshold:waf''"
proof -
  have "fst (mr_set example_addr example_entry mr) = True" if "mr_shards mr = replicate shardCount []" "mr_maxPerShard mr = 2" for mr
    using that by (simp add: mr_set_def Let_def)
  then have "fst (mr_reconcile [(example_addr, example_entry)] 5 True (newMirror 64)) = True"
    by (auto simp: mr_reconcile_def newMirror_def sweep_absent_def removedSince_def map_replicate go_div_def Let_def
        case_prod_beta)
  then have "mr_reconcile [(example_addr, example_entry)] 5 True (newMirror 64) =
      (True, snd (mr_reconcile [(example_addr, example_entry)] 5 True (newMirror 64)))"
    by (simp add: prod_eq_iff)
  from complete_reconcile_converges [OF newMirror_ok _ _ _ this, of 6 example_addr] show ?thesis
    by (simp add: map_wf_def example_entry_def mr_get_live vetoed_def newMirror_def entry_at_def mentry_expired_def)
qed

text \<open>
  Every operation keeps the mirror's invariant: 32 shards, each address in its own
  shard, and no shard above its capacity whatever the load.
\<close>

theorem mirror_operations_keep_invariant:
  assumes "mirror_ok mr"
  shows "mirror_ok (snd (mr_set a e mr)) \<and> mirror_ok (mr_remove a now mr) \<and>
         mirror_ok (snd (mr_reconcile active scanStart scannedAll mr)) \<and>
         mr_count mr \<le> 32 * mr_maxPerShard mr"
proof -
  have "length (mr_shards mr) = 32" "\<forall>m \<in> set (mr_shards mr). int (length m) \<le> mr_maxPerShard mr"
    using assms unfolding mirror_ok_def shardCount_def by (metis in_set_conv_nth)+
  then have "mr_count mr \<le> 32 * mr_maxPerShard mr"
    using sum_list_bound [of "mr_shards mr" "mr_maxPerShard mr"] by (simp add: mr_count_def)
  then show ?thesis
    using assms mr_remove_ok mr_set_ok [OF assms prod.collapse [symmetric]]
      mr_reconcile_ok [OF assms prod.collapse [symmetric]] by blast
qed

theorem mirror_operations_keep_invariant_witness:
  "mirror_ok (snd (mr_set example_addr example_entry (newMirror 64)))"
  using mirror_operations_keep_invariant [OF newMirror_ok] by blast

end
