(* ===== verification/Enforce_Manager.thy ===== *)
theory Enforce_Manager
  imports Block_Mirror Store_Spec
begin

unbundle bit_operations_syntax

text \<open>
  The enforcement manager (\<^verbatim>\<open>core/enforce/manager.go\<close>, \<^verbatim>\<open>core/enforce/enforce.go\<close>): it owns the mirror,
  the completeness word, the bounded queues of the external sinks, and the reconcile loop. A
  reconcile is split at the points where other goroutines can interleave: the ticket taken when the
  scan starts, the store scan, the mirror update, the publication of completeness, the sinks. An
  external sink is the log of what it was handed.
\<close>

section \<open>Configuration, events and state\<close>

definition ModeAuthoritative :: string where "ModeAuthoritative = ''authoritative''"
definition ModeReadThrough :: string where "ModeReadThrough = ''read_through''"
definition sinkQueueCap :: nat where "sinkQueueCap = 4096"

record enforce_config =
  en_KeyPrefix :: string
  en_ReconcileInterval :: nanos
  en_MaxEntries :: int
  en_Mode :: string

record block_event =
  ev_IP :: "addr option"
  ev_Reason :: string
  ev_TTL :: nanos
  ev_Remove :: bool

record active_block =
  ab_Addr :: addr
  ab_Reason :: string
  ab_ExpiresAt :: "nanos option"

datatype sink_call = SinkApply block_event | SinkReconcile "active_block list"

record sink_runner =
  sr_ch :: "block_event list"
  sr_log :: "sink_call list"

record manager =
  mg_cfg :: enforce_config
  mg_mir :: mirror
  mg_sinks :: "sink_runner list"
  mg_seeded :: bool
  mg_mirrorState :: "64 word"
  mg_sinkGeneration :: "64 word"
  mg_lastReconcile :: int
  mg_reconcileErrs :: "64 word"


definition enforce_defaults :: "enforce_config \<Rightarrow> enforce_config" where
  "enforce_defaults cfg =
     \<lparr>en_KeyPrefix = (if en_KeyPrefix cfg = [] then ''block:'' else en_KeyPrefix cfg),
      en_ReconcileInterval = (if en_ReconcileInterval cfg < second then 10 * second else en_ReconcileInterval cfg),
      en_MaxEntries = (if en_MaxEntries cfg \<le> 0 then 2 ^ 20 else en_MaxEntries cfg),
      en_Mode = (if en_Mode cfg = [] then ModeAuthoritative else en_Mode cfg)\<rparr>"

text \<open>The sinks are the runners of the sinks that could be built (the kernel sink, or none).\<close>

definition mg_New :: "enforce_config \<Rightarrow> nat \<Rightarrow> manager" where
  "mg_New cfg0 nsinks =
     (let cfg = enforce_defaults cfg0
      in \<lparr>mg_cfg = cfg, mg_mir = newMirror (en_MaxEntries cfg),
          mg_sinks = replicate nsinks \<lparr>sr_ch = [], sr_log = []\<rparr>, mg_seeded = False,
          mg_mirrorState = 0, mg_sinkGeneration = 0, mg_lastReconcile = 0, mg_reconcileErrs = 0\<rparr>)"

section \<open>The request path\<close>

text \<open>Every method is safe on a nil receiver: the manager is an option.\<close>

definition mg_Lookup :: "nanos \<Rightarrow> string \<Rightarrow> manager option \<Rightarrow> string option" where
  "mg_Lookup now ip om =
     (case om of
        None \<Rightarrow> None
      | Some m \<Rightarrow> (case ParseAddr ip of None \<Rightarrow> None | Some a \<Rightarrow> mr_get (Unmap a) now (mg_mir m)))"

definition mirrorComplete :: "manager \<Rightarrow> bool" where
  "mirrorComplete m \<longleftrightarrow> mg_mirrorState m AND 1 \<noteq> 0"

definition mg_ReadThrough :: "manager option \<Rightarrow> bool" where
  "mg_ReadThrough om =
     (case om of
        None \<Rightarrow> True
      | Some m \<Rightarrow> en_Mode (mg_cfg m) = ModeReadThrough \<or> \<not> mg_seeded m \<or> \<not> mirrorComplete m)"

definition markMirrorIncomplete :: "manager \<Rightarrow> manager" where
  "markMirrorIncomplete m = m\<lparr>mg_mirrorState := push_bit 1 (drop_bit 1 (mg_mirrorState m) + 1)\<rparr>"

definition publishMirrorReconcile :: "64 word \<Rightarrow> bool \<Rightarrow> manager \<Rightarrow> manager" where
  "publishMirrorReconcile generation complete m =
     (let old = mg_mirrorState m
      in if drop_bit 1 old \<noteq> generation then m
         else m\<lparr>mg_mirrorState := (let next = old AND NOT 1 in if complete then next OR 1 else next)\<rparr>)"

section \<open>Notifications\<close>

definition enqueue :: "block_event \<Rightarrow> sink_runner \<Rightarrow> sink_runner" where
  "enqueue ev sr = (if length (sr_ch sr) < sinkQueueCap then sr\<lparr>sr_ch := sr_ch sr @ [ev]\<rparr> else sr)"

definition notifyLocked :: "nanos \<Rightarrow> addr \<Rightarrow> block_event \<Rightarrow> manager \<Rightarrow> manager" where
  "notifyLocked now ip0 ev m =
     (let ip = Unmap ip0;
          m1 = (if ev_Remove ev then m\<lparr>mg_mir := mr_remove ip now (mg_mir m)\<rparr>
                else let exp = (if ev_TTL ev > 0 then now + ev_TTL ev else 0);
                         (stored, mir) = mr_set ip \<lparr>me_reason = ev_Reason ev, me_expiresAt = exp, me_insertedAt = now\<rparr> (mg_mir m);
                         m' = m\<lparr>mg_mir := mir\<rparr>
                     in if stored then m' else markMirrorIncomplete m')
      in m1\<lparr>mg_sinkGeneration := mg_sinkGeneration m1 + 1,
            mg_sinks := map (enqueue (ev\<lparr>ev_IP := Some ip\<rparr>)) (mg_sinks m1)\<rparr>)"

definition mg_Notify :: "nanos \<Rightarrow> block_event \<Rightarrow> manager option \<Rightarrow> manager option" where
  "mg_Notify now ev om =
     (case (om, ev_IP ev) of (Some m, Some ip) \<Rightarrow> Some (notifyLocked now ip ev m) | _ \<Rightarrow> om)"

definition mg_NotifyOwned ::
  "'s store_ops \<Rightarrow> nanos \<Rightarrow> block_event \<Rightarrow> string \<Rightarrow> bytes \<Rightarrow> manager option \<times> 's \<Rightarrow> manager option \<times> 's" where
  "mg_NotifyOwned ops now ev key owner ms =
     (case (fst ms, ev_IP ev) of
        (Some m, Some ip) \<Rightarrow>
          (case st_Get ops now key (snd ms) of
             (Inl err, s') \<Rightarrow> (Some (markMirrorIncomplete m), s')
           | (Inr current, s') \<Rightarrow>
               (if current \<noteq> Some owner then (Some m, s') else (Some (notifyLocked now ip ev m), s')))
      | _ \<Rightarrow> ms)"

definition mg_Learn :: "nanos \<Rightarrow> string \<Rightarrow> string \<Rightarrow> manager option \<Rightarrow> manager option" where
  "mg_Learn now ip reason om =
     (case om of
        None \<Rightarrow> None
      | Some m \<Rightarrow>
          (case ParseAddr ip of
             None \<Rightarrow> Some m
           | Some a \<Rightarrow>
               (let (stored, mir) = mr_set (Unmap a)
                      \<lparr>me_reason = reason, me_expiresAt = now + 2 * en_ReconcileInterval (mg_cfg m), me_insertedAt = now\<rparr>
                      (mg_mir m);
                    m' = m\<lparr>mg_mir := mir\<rparr>
                in Some (if stored then m' else markMirrorIncomplete m'))))"

text \<open>One delivery of a sink's worker: the head of the queue is applied.\<close>

definition runSink_step :: "sink_runner \<Rightarrow> sink_runner" where
  "runSink_step sr =
     (case sr_ch sr of [] \<Rightarrow> sr | ev # rest \<Rightarrow> sr\<lparr>sr_ch := rest, sr_log := sr_log sr @ [SinkApply ev]\<rparr>)"

section \<open>Reconciliation\<close>

record 's scan_ops =
  so_active :: "(nanos \<Rightarrow> string \<Rightarrow> int \<Rightarrow> 's \<Rightarrow> (store_error + kv list \<times> bool) \<times> 's) option"
  so_limited :: "(nanos \<Rightarrow> string \<Rightarrow> int \<Rightarrow> 's \<Rightarrow> (store_error + kv list \<times> bool) \<times> 's) option"
  so_scan :: "nanos \<Rightarrow> string \<Rightarrow> 's \<Rightarrow> (store_error + kv list) \<times> 's"

definition scanBlocksFallback ::
  "'s scan_ops \<Rightarrow> nanos \<Rightarrow> enforce_config \<Rightarrow> 's \<Rightarrow> (store_error + kv list \<times> bool) \<times> 's" where
  "scanBlocksFallback so now cfg s =
     (case so_limited so of
        Some f \<Rightarrow> f now (en_KeyPrefix cfg) (en_MaxEntries cfg) s
      | None \<Rightarrow>
          (case so_scan so now (en_KeyPrefix cfg) s of
             (Inl err, s') \<Rightarrow> (Inl err, s')
           | (Inr kvs, s') \<Rightarrow>
               (if int (length kvs) \<le> en_MaxEntries cfg then (Inr (kvs, True), s')
                else (Inr (take (nat (en_MaxEntries cfg)) kvs, False), s'))))"

definition reconcile_scan ::
  "'s scan_ops \<Rightarrow> nanos \<Rightarrow> enforce_config \<Rightarrow> 's \<Rightarrow> (store_error + kv list \<times> bool) \<times> 's" where
  "reconcile_scan so now cfg s =
     (case so_active so of
        None \<Rightarrow> scanBlocksFallback so now cfg s
      | Some f \<Rightarrow>
          (case f now (en_KeyPrefix cfg) (en_MaxEntries cfg) s of
             (Inl ErrCapabilityUnsupported, s') \<Rightarrow> scanBlocksFallback so now cfg s'
           | r \<Rightarrow> r))"

record scan_ticket =
  tk_scanStart :: nanos
  tk_scanGeneration :: "64 word"
  tk_sinkScanGeneration :: "64 word"

definition reconcile_begin :: "nanos \<Rightarrow> manager \<Rightarrow> scan_ticket" where
  "reconcile_begin now m =
     \<lparr>tk_scanStart = now, tk_scanGeneration = drop_bit 1 (mg_mirrorState m),
      tk_sinkScanGeneration = mg_sinkGeneration m\<rparr>"

fun build_active ::
  "enforce_config \<Rightarrow> nanos \<Rightarrow> kv list \<Rightarrow> (addr, mentry) gomap \<Rightarrow> active_block list \<Rightarrow> (addr, mentry) gomap \<times> active_block list" where
  "build_active cfg scanStart [] active blocks = (active, blocks)"
| "build_active cfg scanStart (kv # kvs) active blocks =
     (case ParseAddr (case cutPrefix (kv_Key kv) (en_KeyPrefix cfg) of None \<Rightarrow> kv_Key kv | Some r \<Rightarrow> r) of
        None \<Rightarrow> build_active cfg scanStart kvs active blocks
      | Some a0 \<Rightarrow>
          (let a = Unmap a0;
               exp = (case kv_ExpiresAt kv of None \<Rightarrow> 0 | Some t \<Rightarrow> t)
           in build_active cfg scanStart kvs
                (mput a \<lparr>me_reason = BlockReason (kv_Value kv), me_expiresAt = exp, me_insertedAt = scanStart\<rparr> active)
                (blocks @ [\<lparr>ab_Addr = a, ab_Reason = BlockReason (kv_Value kv), ab_ExpiresAt = kv_ExpiresAt kv\<rparr>])))"

definition reconcile_sink :: "scan_ticket \<Rightarrow> active_block list \<Rightarrow> manager \<Rightarrow> sink_runner \<Rightarrow> sink_runner" where
  "reconcile_sink tk blocks m sr =
     (if mg_sinkGeneration m \<noteq> tk_sinkScanGeneration tk then sr
      else sr\<lparr>sr_log := sr_log sr @ [SinkReconcile blocks]\<rparr>)"

text \<open>The three atomic parts after the scan, and the whole handler without interleaving.\<close>

definition reconcile_mirror :: "scan_ticket \<Rightarrow> (addr, mentry) gomap \<Rightarrow> bool \<Rightarrow> manager \<Rightarrow> bool \<times> manager" where
  "reconcile_mirror tk active scannedAll m =
     (let (complete, mir) = mr_reconcile active (tk_scanStart tk) scannedAll (mg_mir m)
      in (complete, m\<lparr>mg_mir := mir\<rparr>))"

definition reconcile_publish :: "scan_ticket \<Rightarrow> bool \<Rightarrow> manager \<Rightarrow> manager" where
  "reconcile_publish tk complete m =
     (publishMirrorReconcile (tk_scanGeneration tk) complete m)
       \<lparr>mg_seeded := True, mg_lastReconcile := tk_scanStart tk\<rparr>"

definition reconcile_sinks :: "scan_ticket \<Rightarrow> bool \<Rightarrow> active_block list \<Rightarrow> manager \<Rightarrow> manager" where
  "reconcile_sinks tk scannedAll blocks m =
     (if \<not> scannedAll then m else m\<lparr>mg_sinks := map (reconcile_sink tk blocks m) (mg_sinks m)\<rparr>)"

definition reconcileOnce :: "'s scan_ops \<Rightarrow> nanos \<Rightarrow> manager \<times> 's \<Rightarrow> manager \<times> 's" where
  "reconcileOnce so now ms =
     (let (m, s) = ms; tk = reconcile_begin now m
      in case reconcile_scan so now (mg_cfg m) s of
           (Inl err, s') \<Rightarrow> (m\<lparr>mg_reconcileErrs := mg_reconcileErrs m + 1\<rparr>, s')
         | (Inr (kvs, scannedAll), s') \<Rightarrow>
             (let (active, blocks) = build_active (mg_cfg m) (tk_scanStart tk) kvs [] [];
                  (complete, m1) = reconcile_mirror tk active scannedAll m;
                  m2 = reconcile_publish tk complete m1
              in (reconcile_sinks tk scannedAll blocks m2, s')))"

section \<open>Actions of other goroutines during a reconcile\<close>

datatype mg_action =
    ActNotify nanos addr block_event
  | ActLearn nanos string string
  | ActMark
  | ActSinkStep nat
  | ActReconcileMirror scan_ticket "(addr, mentry) gomap" bool

fun mg_act :: "mg_action \<Rightarrow> manager \<Rightarrow> manager" where
  "mg_act (ActNotify now ip ev) m = notifyLocked now ip ev m"
| "mg_act (ActLearn now ip reason) m = the (mg_Learn now ip reason (Some m))"
| "mg_act ActMark m = markMirrorIncomplete m"
| "mg_act (ActSinkStep i) m =
     (if i < length (mg_sinks m) then m\<lparr>mg_sinks := (mg_sinks m)[i := runSink_step (mg_sinks m ! i)]\<rparr> else m)"
| "mg_act (ActReconcileMirror tk active all) m = snd (reconcile_mirror tk active all m)"

fun is_notify :: "mg_action \<Rightarrow> bool" where
  "is_notify (ActNotify _ _ _) \<longleftrightarrow> True"
| "is_notify _ \<longleftrightarrow> False"

text \<open>The capacity drops of a run: the steps that move the completeness word.\<close>

fun mg_drops :: "mg_action list \<Rightarrow> manager \<Rightarrow> nat" where
  "mg_drops [] m = 0"
| "mg_drops (x # xs) m =
     (if mg_mirrorState (mg_act x m) \<noteq> mg_mirrorState m then 1 else 0) + mg_drops xs (mg_act x m)"

definition gen :: "manager \<Rightarrow> nat" where
  "gen m = unat (drop_bit 1 (mg_mirrorState m))"

lemma gen_div: "gen m = unat (mg_mirrorState m) div 2"
  unfolding gen_def unat_drop_bit_eq by (simp add: drop_bit_eq_div)

lemma gen_less: "gen m < 2 ^ 63"
proof -
  have "unat (mg_mirrorState m) < 2 ^ 64" using unsigned_less [of "mg_mirrorState m"] by simp
  then show ?thesis by (simp add: gen_div)
qed

lemma mirrorComplete_odd: "mirrorComplete m \<longleftrightarrow> odd (mg_mirrorState m)"
  by (simp add: mirrorComplete_def and_one_eq mod2_eq_if)

lemma mark_gen: "gen (markMirrorIncomplete m) = (gen m + 1) mod 2 ^ 63" "\<not> mirrorComplete (markMirrorIncomplete m)"
proof -
  let ?x = "drop_bit 1 (mg_mirrorState m)"
  have state: "mg_mirrorState (markMirrorIncomplete m) = 2 * (?x + 1)"
    by (simp only: markMirrorIncomplete_def push_bit_eq_mult mult.commute power_one_right
        manager.simps manager.update_convs manager.select_convs) simp
  have "unat (?x + 1) = gen m + 1"
    using gen_less [of m] by (simp add: gen_def unat_word_ariths)
  moreover have "unat (2 * y) = 2 * unat y mod 2 ^ 64" for y :: "64 word" by (simp add: unat_word_ariths)
  ultimately have "unat (2 * (?x + 1)) = 2 * (gen m + 1) mod 2 ^ 64" by metis
  moreover have "2 * (gen m + 1) mod 2 ^ 64 = 2 * ((gen m + 1) mod 2 ^ 63)"
    using mult_mod_right [of 2 "gen m + 1" "2 ^ 63"] by simp
  ultimately show "gen (markMirrorIncomplete m) = (gen m + 1) mod 2 ^ 63"
    by (simp only: gen_div [of "markMirrorIncomplete m"] state)
  show "\<not> mirrorComplete (markMirrorIncomplete m)"
    by (simp add: mirrorComplete_odd markMirrorIncomplete_def push_bit_eq_mult)
qed

lemma act_state:
  "mg_mirrorState (mg_act x m) = mg_mirrorState m \<or> mg_mirrorState (mg_act x m) = mg_mirrorState (markMirrorIncomplete m)"
  by (cases x) (auto simp: notifyLocked_def mg_Learn_def reconcile_mirror_def markMirrorIncomplete_def Let_def
      split: prod.splits option.splits)

lemma act_gen:
  assumes "mg_mirrorState (mg_act x m) \<noteq> mg_mirrorState m"
  shows "gen (mg_act x m) = (gen m + 1) mod 2 ^ 63" "\<not> mirrorComplete (mg_act x m)"
  using act_state [of x m] assms mark_gen [of m] by (auto simp: gen_def mirrorComplete_def)

lemma drops_gen:
  "gen (fold mg_act xs m) = (gen m + mg_drops xs m) mod 2 ^ 63 \<and>
   ((0 < mg_drops xs m \<or> \<not> mirrorComplete m) \<longrightarrow> \<not> mirrorComplete (fold mg_act xs m))"
proof (induction xs arbitrary: m)
  case Nil
  then show ?case using gen_less [of m] by simp
next
  case (Cons x xs)
  show ?case
  proof (cases "mg_mirrorState (mg_act x m) = mg_mirrorState m")
    case True
    then have "gen (mg_act x m) = gen m" "mirrorComplete (mg_act x m) = mirrorComplete m"
      by (simp_all add: gen_def mirrorComplete_def)
    then show ?thesis using Cons.IH [of "mg_act x m"] True by simp
  next
    case False
    then show ?thesis
      using Cons.IH [of "mg_act x m"] act_gen [OF False] by (simp add: mod_add_left_eq add.assoc del: add_Suc_right)
  qed
qed

lemma drops_le: "mg_drops xs m \<le> length xs"
  by (induction xs m rule: mg_drops.induct) auto

lemma mod_shift_neq: "0 < d \<Longrightarrow> d < n \<Longrightarrow> g < n \<Longrightarrow> (g + d) mod n \<noteq> (g :: nat)"
  by (metis add_diff_cancel_left' mod_less mod_less_eq_dividend mod_add_self2 add.commute mod_eq_dvd_iff_nat
      le_add1 nat_dvd_not_less)

lemma publish_other_gen:
  "drop_bit 1 (mg_mirrorState m) \<noteq> g \<Longrightarrow> mg_mirrorState (publishMirrorReconcile g c m) = mg_mirrorState m"
  by (simp add: publishMirrorReconcile_def)

lemma notify_generation:
  "mg_sinkGeneration (fold mg_act xs m) = mg_sinkGeneration m + of_nat (length (filter is_notify xs))"
proof (induction xs arbitrary: m)
  case (Cons x xs)
  have "mg_sinkGeneration (mg_act x m) = mg_sinkGeneration m + (if is_notify x then 1 else 0)"
    by (cases x) (auto simp: notifyLocked_def mg_Learn_def reconcile_mirror_def markMirrorIncomplete_def Let_def
        split: prod.splits option.splits)
  then show ?case using Cons.IH by (simp add: algebra_simps)
qed simp

section \<open>Lookups after a notification\<close>

lemma notify_add_lookup:
  assumes "mirror_ok (mg_mir m)" "ParseAddr ip = Some a" "\<not> ev_Remove ev" "now \<le> t"
    and "ev_TTL ev \<le> 0 \<or> t < now + ev_TTL ev" "0 < now"
  shows "mg_Lookup t ip (Some (notifyLocked now a ev m)) = Some (ev_Reason ev) \<or>
         \<not> mirrorComplete (notifyLocked now a ev m)"
proof -
  define e where "e = \<lparr>me_reason = ev_Reason ev, me_expiresAt = (if ev_TTL ev > 0 then now + ev_TTL ev else 0), me_insertedAt = now\<rparr>"
  obtain stored mir where st: "mr_set (Unmap a) e (mg_mir m) = (stored, mir)" by fastforce
  have live: "mr_live mir t (Unmap a) = (if stored then entry_at t e else mr_live (mg_mir m) t (Unmap a))"
    using mr_set_live [OF assms(1) st, of t "Unmap a"] assms(4) by (simp add: e_def)
  have "entry_at t e = Some e" using assms(5,6) by (auto simp: entry_at_def mentry_expired_def e_def)
  moreover have "mg_mir (notifyLocked now a ev m) = mir"
      "\<not> stored \<longrightarrow> mg_mirrorState (notifyLocked now a ev m) = mg_mirrorState (markMirrorIncomplete m)"
    using st assms(3) by (auto simp: notifyLocked_def Let_def e_def [symmetric] markMirrorIncomplete_def)
  ultimately show ?thesis
    using live mark_gen(2) [of m] by (cases stored) (auto simp: mg_Lookup_def assms(2) mr_get_live mirrorComplete_def e_def)
qed

lemma notify_remove_lookup:
  "mirror_ok (mg_mir m) \<Longrightarrow> ParseAddr ip = Some a \<Longrightarrow> ev_Remove ev \<Longrightarrow>
     mg_Lookup t ip (Some (notifyLocked now a ev m)) = None"
  by (simp add: mg_Lookup_def notifyLocked_def Let_def mr_get_live mr_remove_live)

lemma notifyLocked_ok: "mirror_ok (mg_mir m) \<Longrightarrow> mirror_ok (mg_mir (notifyLocked now a ev m))"
  by (auto simp: notifyLocked_def Let_def mr_remove_ok markMirrorIncomplete_def dest: mr_set_ok split: prod.splits)

context ttl_store
begin

lemma notify_owned_stale:
  "ok s \<Longrightarrow> map_option e_value (live s now key) \<noteq> Some owner \<Longrightarrow>
     fst (mg_NotifyOwned ops now ev key owner (Some m, s)) = Some m"
  using get [of s now key]
  by (cases "ev_IP ev"; cases "st_Get ops now key s") (auto simp: mg_NotifyOwned_def refines_def spec_Get_def)

lemma notify_owned_current:
  "ok s \<Longrightarrow> map_option e_value (live s now key) = Some owner \<Longrightarrow> ev_IP ev = Some a \<Longrightarrow>
     fst (mg_NotifyOwned ops now ev key owner (Some m, s)) = Some (notifyLocked now a ev m)"
  using get [of s now key]
  by (cases "st_Get ops now key s") (auto simp: mg_NotifyOwned_def refines_def spec_Get_def)

end

section \<open>Properties\<close>

text \<open>
  A placed block is enforced from the notification on: until it expires every lookup of
  any textual form of the address finds its reason in the mirror, unless the mirror had no room, and
  then requests are sent to the store.
\<close>

theorem notified_block_is_enforced:
  assumes "mirror_ok (mg_mir m)" "ParseAddr ip = Some a" "ev_IP ev = Some b" "Unmap b = Unmap a" "\<not> ev_Remove ev"
    and "0 < now" "now \<le> t" "ev_TTL ev \<le> 0 \<or> t < now + ev_TTL ev"
  shows "mg_Lookup t ip (mg_Notify now ev (Some m)) = Some (ev_Reason ev) \<or>
         mg_ReadThrough (mg_Notify now ev (Some m))"
proof -
  have "notifyLocked now b ev m = notifyLocked now a ev m" using assms(4) by (simp add: notifyLocked_def)
  then show ?thesis
    using notify_add_lookup [OF assms(1,2,5,7,8,6)] assms(3) by (auto simp: mg_Notify_def mg_ReadThrough_def)
qed

definition example_manager :: manager where
  "example_manager = mg_New \<lparr>en_KeyPrefix = [], en_ReconcileInterval = 0, en_MaxEntries = 64, en_Mode = []\<rparr> 1"

definition example_event :: block_event where
  "example_event = \<lparr>ev_IP = Some (AddrV4 [192, 0, 2, 7]), ev_Reason = ''honeypot'', ev_TTL = 60, ev_Remove = False\<rparr>"

lemma example_manager_ok: "mirror_ok (mg_mir example_manager)"
  by (simp add: example_manager_def mg_New_def newMirror_ok Let_def)

lemma example_parse: "ParseAddr ''192.0.2.7'' = Some (AddrV4 [192, 0, 2, 7])"
  by (simp add: ParseAddr_def parseIPv4Fields_def dec_digit_def)

theorem notified_block_is_enforced_witness:
  "mg_Lookup 30 ''192.0.2.7'' (mg_Notify 5 example_event (Some example_manager)) = Some ''honeypot'' \<or>
   mg_ReadThrough (mg_Notify 5 example_event (Some example_manager))"
  using notified_block_is_enforced [OF example_manager_ok example_parse, of example_event _ 5 30]
  by (simp add: example_event_def)

text \<open>
  A capacity drop that happens while a reconcile is scanning is never hidden by it:
  whatever the scan reports, publishing its result afterwards leaves the mirror incomplete, so
  misses still go to the store. The 63-bit generation makes this exact for up to \<open>2 ^ 63\<close>
  interleaved steps.
\<close>

theorem drop_during_scan_stays_incomplete:
  assumes "tk = reconcile_begin now m" "length acts < 2 ^ 63" "0 < mg_drops acts m"
  shows "\<not> mirrorComplete (reconcile_publish tk complete (fold mg_act acts m)) \<and>
         mg_ReadThrough (Some (reconcile_publish tk complete (fold mg_act acts m)))"
proof -
  let ?m = "fold mg_act acts m"
  have d: "gen ?m = (gen m + mg_drops acts m) mod 2 ^ 63" "\<not> mirrorComplete ?m"
    using drops_gen [of acts m] assms(3) by simp_all
  have "gen ?m \<noteq> gen m"
    unfolding d(1) using drops_le [of acts m] assms(2,3) gen_less [of m] by (intro mod_shift_neq) auto
  then have "drop_bit 1 (mg_mirrorState ?m) \<noteq> tk_scanGeneration tk"
    by (auto simp: gen_def assms(1) reconcile_begin_def)
  then have "\<not> mirrorComplete (reconcile_publish tk complete ?m)"
    using d(2) publish_other_gen by (simp add: mirrorComplete_def reconcile_publish_def)
  then show ?thesis by (simp add: mg_ReadThrough_def)
qed

theorem drop_during_scan_stays_incomplete_witness:
  "mg_ReadThrough (Some (reconcile_publish (reconcile_begin 1 example_manager) True (mg_act ActMark example_manager)))"
proof -
  have "mg_mirrorState (markMirrorIncomplete example_manager) \<noteq> mg_mirrorState example_manager"
    by (simp add: markMirrorIncomplete_def example_manager_def mg_New_def Let_def)
  then show ?thesis
    using drop_during_scan_stays_incomplete [OF refl, of "[ActMark]" example_manager 1 True] by simp
qed

text \<open>
  A replace-all snapshot never overtakes a newer event at an external sink: when any
  notification happened since the scan started, the sinks are left exactly as they are.
\<close>

theorem stale_snapshot_never_reaches_sinks:
  assumes "tk = reconcile_begin now m" "length acts < 2 ^ 64" "list_ex is_notify acts"
  shows "mg_sinks (reconcile_sinks tk scannedAll blocks (fold mg_act acts m)) = mg_sinks (fold mg_act acts m)"
proof -
  let ?n = "length (filter is_notify acts)"
  have "0 < ?n" using assms(3) by (auto simp: list_ex_iff filter_empty_conv)
  moreover have "?n < 2 ^ 64" using assms(2) length_filter_le [of is_notify acts] by (rule le_less_trans [rotated])
  ultimately have "(of_nat ?n :: 64 word) \<noteq> 0"
    by (auto simp: word_of_nat_eq_0_iff dest!: dvd_imp_le)
  then have "mg_sinkGeneration (fold mg_act acts m) \<noteq> tk_sinkScanGeneration tk"
    by (simp add: notify_generation assms(1) reconcile_begin_def)
  then show ?thesis by (simp add: reconcile_sinks_def reconcile_sink_def map_idI)
qed

theorem stale_snapshot_never_reaches_sinks_witness:
  "mg_sinks (reconcile_sinks (reconcile_begin 1 example_manager) True []
      (mg_act (ActNotify 2 (AddrV4 [192, 0, 2, 7]) example_event) example_manager)) =
   mg_sinks (mg_act (ActNotify 2 (AddrV4 [192, 0, 2, 7]) example_event) example_manager)"
  using stale_snapshot_never_reaches_sinks [OF refl, of "[ActNotify 2 (AddrV4 [192, 0, 2, 7]) example_event]"]
  by simp

end
