(* ===== verification/Scoreboard.thy ===== *)
theory Scoreboard
  imports Enforce_Manager Sharded_Memory
begin

text \<open>
  The behaviour scoreboard (\<^verbatim>\<open>core/scoreboard.go\<close>): event counters in time buckets, automatic blocks
  with exponential backoff, and the operator's unblock with its hold and its generation. The state
  is the enforcement manager (nil-able) beside the shared store, which is a parameter (\<open>store_ops\<close>);
  the clock reading and the random tokens of a call are arguments. The properties are proved once
  in the locale of the store contract and restated for the in-process store.
\<close>

section \<open>Keys\<close>

definition blockKeyPrefix :: string where "blockKeyPrefix = ''block:''"

definition canonIP :: "string \<Rightarrow> string" where
  "canonIP ip = (case ParseAddr ip of Some addr \<Rightarrow> addr_String (Unmap addr) | None \<Rightarrow> ip)"

definition BlockKey :: "string \<Rightarrow> string" where
  "BlockKey ip =
     (case ParseAddr ip of
        None \<Rightarrow> blockKeyPrefix @ ip
      | Some addr \<Rightarrow> blockKeyPrefix @ addr_String (Unmap addr))"

definition blockCountKey :: "string \<Rightarrow> string" where "blockCountKey ip = ''blkct:'' @ ip"
definition unblockHoldKey :: "string \<Rightarrow> string" where "unblockHoldKey ip = ''unblk:'' @ ip"
definition unblockGenKey :: "string \<Rightarrow> string" where "unblockGenKey ip = ''unblkgen:'' @ ip"

definition unblockHoldWindow :: nanos where "unblockHoldWindow = 2 * second"
definition unblockGenRetention :: nanos where "unblockGenRetention = 24 * hour"
definition hardMaxBlockTTL :: nanos where "hardMaxBlockTTL = 30 * 24 * hour"

definition unblockGenValue :: "64 word \<Rightarrow> 64 word \<Rightarrow> bytes" where
  "unblockGenValue hi lo = fmt_uint 16 (unat hi) @ fmt_uint 16 (unat lo)"

definition eventBucket :: "nanos \<Rightarrow> nanos \<Rightarrow> int" where
  "eventBucket now window = go_div (now div second) (max (go_div window second) 1)"

definition eventKey :: "string \<Rightarrow> string \<Rightarrow> string \<Rightarrow> int \<Rightarrow> string" where
  "eventKey evtype ip generation bucket =
     ''ev:'' @ evtype @ '':'' @ ip @ '':'' @
     (if generation = [] then ''0'' else CHR ''g'' # generation) @ '':'' @ format_int bucket"

section \<open>Operations\<close>

definition HoldUnblock ::
  "'s store_ops \<Rightarrow> nanos \<Rightarrow> nanos \<Rightarrow> string \<Rightarrow> bytes \<Rightarrow> 's \<Rightarrow> (store_error + unit) \<times> 's" where
  "HoldUnblock ops unblockHold now ip0 generation s =
     (if unblockHold \<le> 0 then (Inr (), s)
      else let ip = canonIP ip0
           in case st_Set ops now (unblockHoldKey ip) ''1'' unblockHold s of
                (Inl err, s') \<Rightarrow> (Inl err, s')
              | (Inr _, s') \<Rightarrow> st_Set ops now (unblockGenKey ip) generation unblockGenRetention s')"

definition unblockToken ::
  "'s store_ops \<Rightarrow> nanos \<Rightarrow> nanos \<Rightarrow> string \<Rightarrow> 's \<Rightarrow> (store_error + string) \<times> 's" where
  "unblockToken ops unblockHold now ip s =
     (if unblockHold \<le> 0 then (Inr [], s)
      else case st_Get ops now (unblockGenKey ip) s of
             (Inl err, s') \<Rightarrow> (Inl err, s')
           | (Inr None, s') \<Rightarrow> (Inr [], s')
           | (Inr (Some v), s') \<Rightarrow> (Inr v, s'))"

definition notifyEnforcer :: "nanos \<Rightarrow> string \<Rightarrow> string \<Rightarrow> nanos \<Rightarrow> bool \<Rightarrow> manager option \<Rightarrow> manager option" where
  "notifyEnforcer now ip reason ttl remove om =
     (case ParseAddr ip of
        None \<Rightarrow> om
      | Some addr \<Rightarrow> mg_Notify now \<lparr>ev_IP = Some addr, ev_Reason = reason, ev_TTL = ttl, ev_Remove = remove\<rparr> om)"

definition notifyOwnedEnforcer ::
  "'s store_ops \<Rightarrow> nanos \<Rightarrow> string \<Rightarrow> string \<Rightarrow> nanos \<Rightarrow> string \<Rightarrow> bytes \<Rightarrow> manager option \<times> 's \<Rightarrow> manager option \<times> 's" where
  "notifyOwnedEnforcer ops now ip reason ttl key owner ms =
     (case ParseAddr ip of
        None \<Rightarrow> ms
      | Some addr \<Rightarrow>
          mg_NotifyOwned ops now \<lparr>ev_IP = Some addr, ev_Reason = reason, ev_TTL = ttl, ev_Remove = False\<rparr>
            key owner ms)"

text \<open>The request of \<open>Block\<close>, from what it read: the admitted generation and the previous block.\<close>

definition block_request ::
  "string \<Rightarrow> string \<Rightarrow> nanos \<Rightarrow> nanos \<Rightarrow> 64 word \<Rightarrow> string \<Rightarrow> bytes option \<Rightarrow> block_commit" where
  "block_request ip reason ttl maxBlockTTL owner admitted prev =
     \<lparr>bc_BlockKey = BlockKey ip, bc_ExpectedBlock = prev, bc_NewBlock = BlockValue reason owner,
      bc_BaseTTL = (if ttl \<le> 0 then minute else ttl),
      bc_MaxTTL = (if maxBlockTTL \<le> 0 then hardMaxBlockTTL else maxBlockTTL),
      bc_CounterKey = blockCountKey ip, bc_CounterTTL = 24 * hour,
      bc_HoldKey = unblockHoldKey ip, bc_GuardKey = unblockGenKey ip,
      bc_GuardValue = (if admitted \<noteq> [] then Some admitted else None)\<rparr>"

definition sb_Block ::
  "'s store_ops \<Rightarrow> nanos \<Rightarrow> nanos \<Rightarrow> string \<Rightarrow> string \<Rightarrow> nanos \<Rightarrow> nanos \<Rightarrow> 64 word \<Rightarrow>
   manager option \<times> 's \<Rightarrow> (store_error + unit) \<times> manager option \<times> 's" where
  "sb_Block ops unblockHold now ip0 reason ttl maxBlockTTL owner ms =
     (let (om, s) = ms; ip = canonIP ip0
      in case unblockToken ops unblockHold now ip s of
           (Inl err, s1) \<Rightarrow> (Inl err, om, s1)
         | (Inr admitted, s1) \<Rightarrow>
             (case st_Get ops now (BlockKey ip) s1 of
                (Inl err, s2) \<Rightarrow> (Inl err, om, s2)
              | (Inr prev, s2) \<Rightarrow>
                  (case st_CommitBlock ops now (block_request ip reason ttl maxBlockTTL owner admitted prev) s2 of
                     (Inl err, s3) \<Rightarrow> (Inl err, om, s3)
                   | (Inr committed, s3) \<Rightarrow>
                       (if \<not> bcr_Committed committed then (Inr (), om, s3)
                        else (Inr (), notifyOwnedEnforcer ops now ip reason (bcr_TTL committed) (BlockKey ip)
                                        (BlockValue reason owner) (om, s3))))))"

text \<open>The result is the pair the code returns: whether the threshold was reached, and the error.\<close>

definition sb_RecordEvent ::
  "'s store_ops \<Rightarrow> nanos \<Rightarrow> nanos \<Rightarrow> string \<Rightarrow> string \<Rightarrow> int \<Rightarrow> nanos \<Rightarrow> nanos \<Rightarrow> nanos \<Rightarrow> 64 word \<Rightarrow>
   manager option \<times> 's \<Rightarrow> (bool \<times> store_error option) \<times> manager option \<times> 's" where
  "sb_RecordEvent ops unblockHold now ip0 evtype limit window blockTTL maxBlockTTL owner ms =
     (if limit \<le> 0 \<or> window \<le> 0 then ((False, None), ms)
      else
        let (om, s) = ms; ip = canonIP ip0
        in case unblockToken ops unblockHold now ip s of
             (Inl err, s1) \<Rightarrow> ((False, Some err), om, s1)
           | (Inr generation, s1) \<Rightarrow>
               (case st_CommitEvent ops now
                       \<lparr>ec_CounterKey = eventKey evtype ip generation (eventBucket now window),
                        ec_CounterTTL = wrap64 (2 * window), ec_HoldKey = unblockHoldKey ip\<rparr> s1 of
                  (Inl err, s2) \<Rightarrow> ((False, Some err), om, s2)
                | (Inr result, s2) \<Rightarrow>
                    (if \<not> ecr_Committed result \<or> ecr_Value result < limit then ((False, None), om, s2)
                     else (case sb_Block ops unblockHold now ip (''threshold:'' @ evtype) blockTTL maxBlockTTL owner (om, s2) of
                             (Inl err, ms') \<Rightarrow> ((True, Some err), ms')
                           | (Inr _, ms') \<Rightarrow> ((True, None), ms')))))"

definition sb_Unblock ::
  "'s store_ops \<Rightarrow> nanos \<Rightarrow> string \<Rightarrow> manager option \<times> 's \<Rightarrow> (store_error + unit) \<times> manager option \<times> 's" where
  "sb_Unblock ops now ip ms =
     (case st_Delete ops now (BlockKey ip) (snd ms) of
        (Inl err, s') \<Rightarrow> (Inl err, fst ms, s')
      | (Inr _, s') \<Rightarrow> (Inr (), notifyEnforcer now ip [] 0 True (fst ms), s'))"

definition ResetBackoff :: "'s store_ops \<Rightarrow> nanos \<Rightarrow> string \<Rightarrow> 's \<Rightarrow> (store_error + unit) \<times> 's" where
  "ResetBackoff ops now ip s = st_Delete ops now (blockCountKey (canonIP ip)) s"

definition unblock_request :: "nanos \<Rightarrow> string \<Rightarrow> bytes \<Rightarrow> bool \<Rightarrow> unblock_commit" where
  "unblock_request unblockHold ip generation resetBackoff =
     \<lparr>uc_HoldKey = unblockHoldKey ip, uc_HoldValue = ''1'', uc_HoldTTL = unblockHold,
      uc_GenerationKey = unblockGenKey ip, uc_Generation = generation, uc_GenerationTTL = unblockGenRetention,
      uc_BlockKey = BlockKey ip, uc_CounterKey = blockCountKey ip, uc_ResetBackoff = resetBackoff\<rparr>"

definition sb_CommitUnblock ::
  "'s store_ops \<Rightarrow> nanos \<Rightarrow> nanos \<Rightarrow> string \<Rightarrow> bool \<Rightarrow> bytes \<Rightarrow>
   manager option \<times> 's \<Rightarrow> (store_error + unit) \<times> manager option \<times> 's" where
  "sb_CommitUnblock ops unblockHold now ip0 resetBackoff generation ms =
     (let (om, s) = ms; ip = canonIP ip0
      in if unblockHold \<le> 0
         then (case (if resetBackoff then ResetBackoff ops now ip s else (Inr (), s)) of
                 (Inl err, s') \<Rightarrow> (Inl err, om, s')
               | (Inr _, s') \<Rightarrow> sb_Unblock ops now ip (om, s'))
         else (case st_CommitUnblock ops now (unblock_request unblockHold ip generation resetBackoff) s of
                 (Inl err, s') \<Rightarrow> (Inl err, om, s')
               | (Inr _, s') \<Rightarrow> (Inr (), notifyEnforcer now ip [] 0 True om, s')))"

record behaviour_window =
  bw_Event :: string
  bw_Window :: nanos

fun delete_keys :: "'s store_ops \<Rightarrow> nanos \<Rightarrow> string list \<Rightarrow> int \<times> int \<times> 's \<Rightarrow> int \<times> int \<times> 's" where
  "delete_keys ops now [] r = r"
| "delete_keys ops now (k # ks) (keys, failed, s) =
     (case st_Delete ops now k s of
        (Inl err, s') \<Rightarrow> delete_keys ops now ks (keys + 1, failed + 1, s')
      | (Inr _, s') \<Rightarrow> delete_keys ops now ks (keys + 1, failed, s'))"

definition window_keys :: "nanos \<Rightarrow> string \<Rightarrow> string \<Rightarrow> behaviour_window \<Rightarrow> string list" where
  "window_keys now ip generation w =
     (if bw_Event w = [] \<or> bw_Window w \<le> 0 then []
      else let bucket = eventBucket now (bw_Window w)
           in map (eventKey (bw_Event w) ip generation) [bucket - 1, bucket, bucket + 1])"

definition ResetEventCounters ::
  "'s store_ops \<Rightarrow> nanos \<Rightarrow> string \<Rightarrow> string \<Rightarrow> behaviour_window list \<Rightarrow> 's \<Rightarrow> int \<times> int \<times> 's" where
  "ResetEventCounters ops now ip generation windows s =
     delete_keys ops now (concat (map (window_keys now (canonIP ip) generation) windows)) (0, 0, s)"

section \<open>Keys and identities\<close>

lemma canonIP_idem [simp]: "canonIP (canonIP ip) = canonIP ip"
  by (auto simp: canonIP_def ParseAddr_String ParseAddr_ok split: option.splits)

lemma BlockKey_canon: "BlockKey ip = blockKeyPrefix @ canonIP ip"
  by (simp add: BlockKey_def canonIP_def split: option.splits)

lemma BlockKey_canonIP [simp]: "BlockKey (canonIP ip) = BlockKey ip"
  by (simp add: BlockKey_canon)

lemma isCentral_keys [simp]:
  "isCentral (BlockKey ip)" "\<not> isCentral (blockCountKey x)" "\<not> isCentral (unblockHoldKey x)"
  "\<not> isCentral (unblockGenKey x)" "\<not> isCentral (eventKey e x g b)"
  by (simp_all add: isCentral_def hasPrefix_def BlockKey_canon blockKeyPrefix_def blockCountKey_def
      unblockHoldKey_def unblockGenKey_def eventKey_def)

lemma key_neq [simp]:
  "BlockKey x \<noteq> blockCountKey y" "BlockKey x \<noteq> unblockHoldKey y" "BlockKey x \<noteq> unblockGenKey y"
  "BlockKey x \<noteq> eventKey e y g b" "blockCountKey x \<noteq> BlockKey y" "unblockHoldKey x \<noteq> BlockKey y"
  "unblockGenKey x \<noteq> BlockKey y" "eventKey e x g b \<noteq> BlockKey y"
  by (metis isCentral_keys)+

lemma key_neq2 [simp]:
  "blockCountKey x \<noteq> unblockHoldKey y" "blockCountKey x \<noteq> unblockGenKey y" "unblockHoldKey x \<noteq> unblockGenKey y"
  "unblockHoldKey x \<noteq> blockCountKey y" "unblockGenKey x \<noteq> blockCountKey y" "unblockGenKey x \<noteq> unblockHoldKey y"
  "eventKey e x g b \<noteq> unblockHoldKey y" "eventKey e x g b \<noteq> unblockGenKey y" "eventKey e x g b \<noteq> blockCountKey y"
  "unblockHoldKey y \<noteq> eventKey e x g b" "unblockGenKey y \<noteq> eventKey e x g b" "blockCountKey y \<noteq> eventKey e x g b"
  by (simp_all add: blockCountKey_def unblockHoldKey_def unblockGenKey_def eventKey_def)

lemma key_inj [simp]:
  "blockCountKey x = blockCountKey y \<longleftrightarrow> x = y" "unblockHoldKey x = unblockHoldKey y \<longleftrightarrow> x = y"
  "unblockGenKey x = unblockGenKey y \<longleftrightarrow> x = y" "BlockKey x = BlockKey y \<longleftrightarrow> canonIP x = canonIP y"
  by (simp_all add: blockCountKey_def unblockHoldKey_def unblockGenKey_def BlockKey_canon)

lemma block_request_wf [simp]: "block_commit_wf (block_request ip r t m ow ad pv)"
  by (simp add: block_commit_wf_def block_request_def)

lemma unblock_request_wf [simp]: "unblock_commit_wf (unblock_request h ip g rb)"
  by (simp add: unblock_commit_wf_def unblock_request_def)

lemma event_request_wf [simp]:
  "event_commit_wf \<lparr>ec_CounterKey = eventKey e x g b, ec_CounterTTL = t, ec_HoldKey = unblockHoldKey y\<rparr>"
  by (simp add: event_commit_wf_def)

lemma app_sep_inj:
  "c \<notin> set a \<Longrightarrow> c \<notin> set b \<Longrightarrow> a @ c # x = b @ c # y \<longleftrightarrow> a = b \<and> x = y"
proof (induction a arbitrary: b)
  case Nil
  then show ?case by (cases b) auto
next
  case (Cons h t)
  then show ?case by (cases b) auto
qed

text \<open>A counter key names its generation and bucket: rotating the generation changes the key.\<close>

lemma eventKey_inj:
  assumes "CHR '':'' \<notin> set g" "CHR '':'' \<notin> set g'" "eventKey e ip g b = eventKey e ip g' b'"
  shows "g = g' \<and> b = b'"
proof -
  let ?t = "\<lambda>g. if g = [] then ''0'' else CHR ''g'' # g"
  have "?t g @ CHR '':'' # format_int b = ?t g' @ CHR '':'' # format_int b'"
    using assms(3) by (simp add: eventKey_def)
  then have "?t g = ?t g'" "format_int b = format_int b'"
    using assms(1,2) app_sep_inj [of "CHR '':''" "?t g" "?t g'"] by (auto split: if_splits)
  then show ?thesis by (auto split: if_splits dest: format_int_inj)
qed

lemma genValue_no_colon: "CHR '':'' \<notin> set (unblockGenValue hi lo)"
  using fmt16_no_special by (auto simp: unblockGenValue_def)

end
