(* ===== verification/Unblock.thy ===== *)
theory Unblock
  imports Scoreboard
begin

text \<open>
  The protocol between an operator's unblock and the writers it races
  (\<^verbatim>\<open>core/scoreboard.go\<close>): the hold, the generation and the atomic commits of the store. A writer
  admitted before the unblock carries an old generation in its request; the theory shows that no
  sequence of such late writes brings back the block or refills a counter of the current generation.
\<close>

section \<open>Calls that cannot touch the new epoch\<close>

definition protected :: "string \<Rightarrow> bytes \<Rightarrow> string \<Rightarrow> bool" where
  "protected ip g k \<longleftrightarrow> k = BlockKey ip \<or> k = unblockGenKey ip \<or> (\<exists>e b. k = eventKey e ip g b)"

text \<open>
  A late writer of an older epoch: a block commit guarded by another generation, or a call that
  addresses other keys (an event counter of an older generation among them).
\<close>

fun stale_call :: "string \<Rightarrow> bytes \<Rightarrow> store_call \<Rightarrow> bool" where
  "stale_call ip g (CallGet k) \<longleftrightarrow> True"
| "stale_call ip g (CallSet k x ttl) \<longleftrightarrow> \<not> protected ip g k"
| "stale_call ip g (CallDelete k) \<longleftrightarrow> k \<noteq> unblockGenKey ip"
| "stale_call ip g (CallIncrByDeadline k d dl) \<longleftrightarrow> \<not> protected ip g k"
| "stale_call ip g (CallCompareAndSwap k old x ttl) \<longleftrightarrow> \<not> protected ip g k"
| "stale_call ip g (CallCompareAndDelete k old) \<longleftrightarrow> k \<noteq> unblockGenKey ip"
| "stale_call ip g (CallCommitBlock c) \<longleftrightarrow>
     bc_GuardKey c = unblockGenKey ip \<and> bc_GuardValue c \<noteq> Some g \<or>
     \<not> protected ip g (bc_BlockKey c) \<and> \<not> protected ip g (bc_CounterKey c)"
| "stale_call ip g (CallCommitEvent c) \<longleftrightarrow> \<not> protected ip g (ec_CounterKey c)"
| "stale_call ip g (CallCommitUnblock c) \<longleftrightarrow>
     \<not> protected ip g (uc_HoldKey c) \<and> \<not> protected ip g (uc_GenerationKey c) \<and> uc_CounterKey c \<noteq> unblockGenKey ip \<and>
     uc_BlockKey c \<noteq> unblockGenKey ip"
| "stale_call ip g CallSweep \<longleftrightarrow> True"

fun allowed_effect :: "string \<Rightarrow> bytes \<Rightarrow> effect \<Rightarrow> bool" where
  "allowed_effect ip g (Put k e) \<longleftrightarrow> \<not> protected ip g k"
| "allowed_effect ip g (Del k) \<longleftrightarrow> k \<noteq> unblockGenKey ip"

lemma stale_effects:
  assumes "stale_call ip g c" "map_option e_value (v (unblockGenKey ip)) = Some g"
  shows "list_all (allowed_effect ip g) (snd (spec_call now c v))"
proof (cases c)
  case (CallIncrByDeadline k d dl)
  then show ?thesis using assms(1) incr_effects [of now k d dl v] by auto
next
  case (CallCommitEvent ec)
  then show ?thesis using assms(1) event_effects [of now ec v] by auto
next
  case (CallCommitBlock bc)
  then show ?thesis
    using assms by (auto simp: spec_CommitBlock_def Let_def protected_def split: if_splits)
qed (use assms in \<open>auto simp: spec_Get_def spec_Set_def spec_Delete_def spec_CompareAndSwap_def
      spec_CompareAndDelete_def spec_CommitUnblock_def\<close>)

text \<open>The new epoch as a view sees it: the generation in force, no block, no counter of that generation.\<close>

definition fresh_epoch :: "string \<Rightarrow> bytes \<Rightarrow> entry option \<Rightarrow> view \<Rightarrow> bool" where
  "fresh_epoch ip g eg v \<longleftrightarrow>
     v (unblockGenKey ip) = eg \<and> (\<forall>k. protected ip g k \<longrightarrow> k \<noteq> unblockGenKey ip \<longrightarrow> v k = None)"

lemma fresh_epoch_effects:
  "list_all (allowed_effect ip g) effs \<Longrightarrow> fresh_epoch ip g eg v \<Longrightarrow> fresh_epoch ip g eg (apply_effects t effs v)"
proof (induction effs arbitrary: v)
  case (Cons x effs)
  then have "fresh_epoch ip g eg (apply_effect t x v)"
    by (cases x) (auto simp: fresh_epoch_def protected_def)
  then show ?case using Cons by simp
qed simp

definition gen_entry :: "nanos \<Rightarrow> bytes \<Rightarrow> entry" where
  "gen_entry t0 g = \<lparr>e_value = g, e_expiresAt = expiry t0 unblockGenRetention\<rparr>"

lemma retention_pos: "0 < unblockGenRetention"
  by (simp add: unblockGenRetention_def hour_def minute_def)

lemma gen_entry_live: "t \<le> t0 + unblockGenRetention \<Longrightarrow> unexpired t (gen_entry t0 g) = Some (gen_entry t0 g)"
  by (simp add: gen_entry_def)

context swept_store
begin

lemma stale_trace:
  assumes "ok s" "exec_trace ops sweep cs s = (rs, s')" "trace_wf t1 cs"
    and "list_all (\<lambda>(t, c). stale_call ip g c \<and> t \<le> t0 + unblockGenRetention) cs"
    and "\<And>t. t1 \<le> t \<Longrightarrow> fresh_epoch ip g (unexpired t (gen_entry t0 g)) (live s t)"
    and "last (t1 # map fst cs) \<le> t"
  shows "ok s' \<and> fresh_epoch ip g (unexpired t (gen_entry t0 g)) (live s' t)"
  using assms
proof (induction cs arbitrary: s t1 rs)
  case (Cons c cs)
  obtain now call where c: "c = (now, call)" by fastforce
  obtain r s1 where e: "exec_call ops sweep now call s = (r, s1)" by fastforce
  have le: "t1 \<le> now" "call_wf call" "trace_wf now cs" using Cons.prems(3) by (auto simp: c trace_wf_def)
  have st: "stale_call ip g call" "now \<le> t0 + unblockGenRetention" using Cons.prems(4) by (simp_all add: c)
  have ref: "refines live ok now s (r, s1) (spec_call now call (live s now))"
    using call_refines [OF Cons.prems(1) le(2), of now] e by simp
  have "live s now (unblockGenKey ip) = Some (gen_entry t0 g)"
    using Cons.prems(5) [OF le(1)] gen_entry_live [OF st(2)] by (simp add: fresh_epoch_def)
  then have effs: "list_all (allowed_effect ip g) (snd (spec_call now call (live s now)))"
    using stale_effects [OF st(1)] by (simp add: gen_entry_def)
  have ok1: "ok s1" using ref by (simp add: refines_def)
  have fr: "fresh_epoch ip g (unexpired t (gen_entry t0 g)) (live s1 t)" if "now \<le> t" for t
    using ref that fresh_epoch_effects [OF effs Cons.prems(5) [of t]] le(1) by (simp add: refines_def)
  obtain rs1 s2 where t: "exec_trace ops sweep cs s1 = (rs1, s2)" by fastforce
  have "s' = s2" using Cons.prems(2) by (simp add: c e t)
  then show ?case
    using Cons.IH [OF ok1, of rs1 now] t le(3) Cons.prems(4,6) fr by (simp add: c)
qed simp

lemma commit_unblock_fresh:
  assumes "ok s" "0 < hold" "ip = canonIP ip0" "\<forall>e b. live s t0 (eventKey e ip g b) = None"
    and "sb_CommitUnblock ops hold t0 ip0 reset g (om, s) = (r, om', s')" "t0 \<le> t"
  shows "r = Inr () \<and> ok s' \<and> fresh_epoch ip g (unexpired t (gen_entry t0 g)) (live s' t)"
proof -
  let ?c = "unblock_request hold ip g reset"
  obtain r1 s1 where c: "st_CommitUnblock ops t0 ?c s = (r1, s1)" by fastforce
  have ref: "refines live ok t0 s (r1, s1) (spec_CommitUnblock t0 ?c)"
    using commit_unblock [OF assms(1) unblock_request_wf, of t0] c by metis
  then have r1: "r1 = Inr ()" by (simp add: refines_def spec_CommitUnblock_def unblock_request_def)
  have res: "r = Inr ()" "s' = s1" using assms(2,3,5) c r1 by (auto simp: sb_CommitUnblock_def)
  have none: "live s t (eventKey e ip g b) = None" for e b
    using assms(4,6) live_antimono [OF assms(1) assms(6)] by (metis not_Some_eq)
  have live1: "live s1 t = apply_effects t (snd (spec_CommitUnblock t0 ?c)) (live s t)" "ok s1"
    using ref assms(6) by (simp_all add: refines_def)
  have "fresh_epoch ip g (unexpired t (gen_entry t0 g)) (live s1 t)"
    unfolding live1(1) using none
    by (auto simp: fresh_epoch_def spec_CommitUnblock_def unblock_request_def gen_entry_def protected_def)
  then show ?thesis using res live1(2) by simp
qed

end

section \<open>Blocks and events in the absence of races\<close>

definition gen_of :: "view \<Rightarrow> string \<Rightarrow> string" where
  "gen_of v ip = (case v (unblockGenKey ip) of None \<Rightarrow> [] | Some e \<Rightarrow> e_value e)"

context ttl_store
begin

lemma token_eq:
  assumes "ok s" "0 < hold" "unblockToken ops hold now ip s = (r, s')"
  shows "r = Inr (gen_of (live s now) ip)" "ok s'" "same_live live now s s'"
proof -
  obtain g s1 where g: "st_Get ops now (unblockGenKey ip) s = (g, s1)" by fastforce
  note ge = get_eq [OF assms(1) g]
  show "r = Inr (gen_of (live s now) ip)" "ok s'" "same_live live now s s'"
    using assms(2,3) ge by (auto simp: unblockToken_def g gen_of_def split: option.splits)
qed

lemma notify_owned_store:
  assumes "ok s" "notifyOwnedEnforcer ops now ip reason ttl key owner (om, s) = (om', s')"
  shows "ok s' \<and> same_live live now s s'"
proof -
  obtain g s1 where g: "st_Get ops now key s = (g, s1)" by fastforce
  show ?thesis
    using assms get_eq [OF assms(1) g]
    by (auto simp: notifyOwnedEnforcer_def mg_NotifyOwned_def g same_live_def split: option.splits if_splits)
qed

lemma block_char:
  assumes "ok s" "0 < hold" "ip = canonIP ip0"
    and "sb_Block ops hold now ip0 reason ttl maxTTL owner (om, s) = (r, om', s')"
    and "v = live s now"
    and "c = block_request ip reason ttl maxTTL owner (gen_of v ip) (map_option e_value (v (BlockKey ip)))"
  shows "r = Inr () \<and> ok s' \<and> (\<forall>t \<ge> now. live s' t = apply_effects t (snd (spec_CommitBlock now c v)) (live s t))"
proof -
  obtain g s1 where t: "unblockToken ops hold now ip s = (g, s1)" by fastforce
  note te = token_eq [OF assms(1,2) t]
  obtain p s2 where g: "st_Get ops now (BlockKey ip) s1 = (p, s2)" by fastforce
  note ge = get_eq [OF te(2) g]
  have v2: "live s2 now = v" "live s1 now = v" using te(3) ge(3) by (simp_all add: same_live_def assms(5))
  obtain q s3 where cb: "st_CommitBlock ops now c s2 = (q, s3)" by fastforce
  have ref: "refines live ok now s2 (q, s3) (spec_CommitBlock now c v)"
    using commit_block [OF ge(2), of c now] cb v2 by (simp add: assms(6))
  have "bc_BlockKey c = BlockKey ip" by (simp add: assms(6) block_request_def)
  then obtain res where q: "q = Inr res"
    using ref by (auto simp: refines_def spec_CommitBlock_def Let_def split: if_splits)
  have l3: "ok s3" "\<forall>t \<ge> now. live s3 t = apply_effects t (snd (spec_CommitBlock now c v)) (live s t)"
    using ref te(3) ge(3) by (simp_all add: refines_def same_live_def)
  have gv: "g = Inr (gen_of v ip)" and pv: "p = Inr (map_option e_value (v (BlockKey ip)))"
    using te(1) ge(1) v2 by (simp_all add: assms(5))
  show ?thesis
  proof (cases "bcr_Committed res")
    case False
    then show ?thesis
      using assms(4) l3 by (simp add: sb_Block_def t g gv pv cb q assms(3) [symmetric] assms(6) [symmetric])
  next
    case True
    obtain om4 s4 where n: "notifyOwnedEnforcer ops now ip reason (bcr_TTL res) (BlockKey ip) (BlockValue reason owner) (om, s3) = (om4, s4)"
      by fastforce
    then have "r = Inr ()" "s' = s4"
      using assms(4) True by (simp_all add: sb_Block_def t g gv pv cb q assms(3) [symmetric] assms(6) [symmetric])
    with notify_owned_store [OF l3(1) n] l3(2) show ?thesis by (auto simp: same_live_def)
  qed
qed

lemma block_held:
  assumes "ok s" "0 < hold" "live s now (unblockHoldKey (canonIP ip0)) \<noteq> None"
    and "sb_Block ops hold now ip0 reason ttl maxTTL owner (om, s) = (r, om', s')"
  shows "r = Inr () \<and> same_live live now s s'"
  using block_char [OF assms(1,2) refl assms(4) refl refl] assms(3)
  by (simp add: spec_CommitBlock_def block_request_def same_live_def)

lemma block_placed:
  assumes "ok s" "0 < hold" "ip = canonIP ip0" "live s now (unblockHoldKey ip) = None"
    and "live s now (unblockGenKey ip) = None \<or> gen_of (live s now) ip \<noteq> []"
    and "sb_Block ops hold now ip0 reason ttl maxTTL owner (om, s) = (r, om', s')"
    and "n = spec_offenses (blockCountKey ip) (live s now)"
    and "T = blockBackoffTTL (if ttl \<le> 0 then minute else ttl) (if maxTTL \<le> 0 then hardMaxBlockTTL else maxTTL) n"
  shows "r = Inr () \<and> ok s' \<and>
    (\<forall>t \<ge> now. live s' t (BlockKey ip) = unexpired t \<lparr>e_value = BlockValue reason owner, e_expiresAt = expiry now T\<rparr>) \<and>
    map_option e_value (live s' now (blockCountKey ip)) = Some (format_int n)"
proof -
  let ?v = "live s now"
  let ?c = "block_request ip reason ttl maxTTL owner (gen_of ?v ip) (map_option e_value (?v (BlockKey ip)))"
  have guard: "map_option e_value (?v (unblockGenKey ip)) = bc_GuardValue ?c"
    using assms(5) by (auto simp: block_request_def gen_of_def split: option.splits)
  define cexp where "cexp = (case ?v (blockCountKey ip) of None \<Rightarrow> expiry now (24 * hour) | Some e \<Rightarrow> e_expiresAt e)"
  have effs: "snd (spec_CommitBlock now ?c ?v) =
      [Put (blockCountKey ip) \<lparr>e_value = format_int n, e_expiresAt = cexp\<rparr>,
       Put (BlockKey ip) \<lparr>e_value = BlockValue reason owner, e_expiresAt = expiry now T\<rparr>]"
    using assms(4,7,8) guard
    by (simp add: spec_CommitBlock_def Let_def block_request_def cexp_def cong: option.case_cong)
  have live_ctr: "unexpired now \<lparr>e_value = format_int n, e_expiresAt = cexp\<rparr> = Some \<lparr>e_value = format_int n, e_expiresAt = cexp\<rparr>"
  proof (cases "?v (blockCountKey ip)")
    case None
    then show ?thesis by (simp add: cexp_def hour_def minute_def)
  next
    case (Some e)
    then have "unexpired now e = Some e" using live_decay [OF assms(1) order_refl Some] by simp
    then show ?thesis using Some by (simp add: cexp_def unexpired_def entry_expired_def split: if_splits)
  qed
  from block_char [OF assms(1,2,3,6) refl refl] show ?thesis
    unfolding effs using live_ctr by simp
qed

lemma record_event_held:
  assumes "ok s" "0 < hold" "live s now (unblockHoldKey (canonIP ip0)) \<noteq> None"
    and "sb_RecordEvent ops hold now ip0 ev limit window ttl maxTTL owner (om, s) = (r, om', s')"
  shows "r = (False, None) \<and> om' = om \<and> same_live live now s s'"
proof (cases "limit \<le> 0 \<or> window \<le> 0")
  case True
  then show ?thesis using assms(4) by (auto simp: sb_RecordEvent_def same_live_def)
next
  case False
  let ?ip = "canonIP ip0"
  obtain g s1 where t: "unblockToken ops hold now ?ip s = (g, s1)" by fastforce
  note te = token_eq [OF assms(1,2) t]
  let ?c = "\<lparr>ec_CounterKey = eventKey ev ?ip (gen_of (live s now) ?ip) (eventBucket now window),
      ec_CounterTTL = wrap64 (2 * window), ec_HoldKey = unblockHoldKey ?ip\<rparr>"
  obtain q s2 where c: "st_CommitEvent ops now ?c s1 = (q, s2)" by fastforce
  have "live s1 now = live s now" using te(3) by (simp add: same_live_def)
  then have ref: "refines live ok now s1 (q, s2) (Inr \<lparr>ecr_Committed = False, ecr_Value = 0\<rparr>, [])"
    using commit_event [OF te(2) event_request_wf, of now ev ?ip "gen_of (live s now) ?ip" "eventBucket now window" "wrap64 (2 * window)" ?ip] c assms(3)
    by (simp add: spec_CommitEvent_def)
  then show ?thesis
    using assms(4) False te by (auto simp: sb_RecordEvent_def t c refines_def same_live_def)
qed

text \<open>The counter after one more event, and its entry.\<close>

lemma record_event_counts:
  assumes "ok s" "0 < hold" "ip = canonIP ip0" "live s now (unblockHoldKey ip) = None" "0 < limit" "0 < window"
    and "wrap64 (2 * window) = 2 * window" "0 < now"
    and "k = eventKey ev ip (gen_of (live s now) ip) (eventBucket now window)"
    and "live s now k = None \<and> n = 1 \<or> (\<exists>e m. live s now k = Some e \<and> parse_int64 (e_value e) = Some m \<and> n = wrap64 (m + 1))"
    and "sb_RecordEvent ops hold now ip0 ev limit window ttl maxTTL owner (om, s) = (r, om', s')"
  shows "r = (n \<ge> limit, None) \<and> map_option e_value (live s' now k) = Some (format_int n)"
proof -
  obtain g s1 where t: "unblockToken ops hold now ip s = (g, s1)" by fastforce
  note te = token_eq [OF assms(1,2) t]
  let ?c = "\<lparr>ec_CounterKey = k, ec_CounterTTL = 2 * window, ec_HoldKey = unblockHoldKey ip\<rparr>"
  obtain q s2 where c: "st_CommitEvent ops now ?c s1 = (q, s2)" by fastforce
  have "event_commit_wf ?c" by (simp add: assms(9))
  moreover have v1: "live s1 now = live s now" using te(3) by (simp add: same_live_def)
  ultimately have ref: "refines live ok now s1 (q, s2) (spec_CommitEvent now ?c (live s now))"
    using commit_event [OF te(2), of ?c now] c by simp
  obtain e where sp: "spec_CommitEvent now ?c (live s now) = (Inr \<lparr>ecr_Committed = True, ecr_Value = n\<rparr>, [Put k e])"
    and e: "e_value e = format_int n" "unexpired now e = Some e"
    using assms(4,6,8,10) live_decay [OF assms(1) order_refl, of now k]
    by (auto simp: spec_CommitEvent_def spec_IncrByDeadline_def unexpired_def entry_expired_def split: if_splits)
  have q: "q = Inr \<lparr>ecr_Committed = True, ecr_Value = n\<rparr>" "ok s2" "map_option e_value (live s2 now k) = Some (format_int n)"
    using ref sp e by (simp_all add: refines_def)
  have tok: "g = Inr (gen_of (live s now) ip)" by (rule te(1))
  show ?thesis
  proof (cases "n < limit")
    case True
    then show ?thesis
      using assms(5,6,11) q by (simp add: sb_RecordEvent_def assms(3) [symmetric] t tok assms(7) assms(9) [symmetric] c)
  next
    case False
    obtain rb om3 s3 where b: "sb_Block ops hold now ip (''threshold:'' @ ev) ttl maxTTL owner (om, s2) = (rb, om3, s3)"
      by (metis prod_cases3)
    have ch: "rb = Inr ()" "live s3 now k = live s2 now k"
      using block_char [OF q(2) assms(2) _ b refl refl, of ip] assms(3)
        apply_effects_other [of k "snd (spec_CommitBlock now (block_request ip (''threshold:'' @ ev) ttl maxTTL owner
          (gen_of (live s2 now) ip) (map_option e_value (live s2 now (BlockKey ip)))) (live s2 now))" now "live s2 now"]
      by (auto simp: spec_CommitBlock_def block_request_def Let_def assms(9) split: if_splits)
    then show ?thesis
      using assms(5,6,11) q False b
      by (auto simp: sb_RecordEvent_def assms(3) [symmetric] t tok assms(7) assms(9) [symmetric] c)
  qed
qed

lemma delete_keys_live:
  "ok s \<Longrightarrow> delete_keys ops now ks (n, f, s) = (n', f', s') \<Longrightarrow>
     n' = n + int (length ks) \<and> f' = f \<and> ok s' \<and> (\<forall>t \<ge> now. live s' t = (\<lambda>k. if k \<in> set ks then None else live s t k))"
proof (induction ks arbitrary: n f s)
  case (Cons k ks)
  obtain r s1 where d: "st_Delete ops now k s = (r, s1)" by fastforce
  have e: "r = Inr ()" "ok s1" "\<forall>t \<ge> now. live s1 t = (live s t)(k := None)"
    using del [OF Cons.prems(1), of now k] d by (simp_all add: refines_def spec_Delete_def)
  have "delete_keys ops now ks (n + 1, f, s1) = (n', f', s')" using Cons.prems(2) d e(1) by simp
  from Cons.IH [OF e(2) this] e(3) show ?case by (auto simp: fun_eq_iff)
qed simp

end

section \<open>Properties\<close>

text \<open>
  C9 (safety). An operator's unblock is final. Once it has committed with a generation no counter
  carries yet, no sequence of late writes of earlier epochs (block commits guarded by another
  generation, events counted under older generations, calls on other keys), interleaved with
  janitor sweeps in any order within the retention of the generation, brings the block back or
  counts an event in the new epoch.
\<close>

theorem unblock_is_final:
  assumes "sm_ok s" "0 < hold" "ip = canonIP ip0" "\<forall>e b. sm_live s t0 (eventKey e ip g b) = None"
    and "sb_CommitUnblock sm_ops hold t0 ip0 reset g (om, s) = (r, om', s')"
    and "exec_trace sm_ops janitor_sweep cs s' = (rs, s'')" "trace_wf t0 cs"
    and "list_all (\<lambda>(t, c). stale_call ip g c \<and> t \<le> t0 + unblockGenRetention) cs"
    and "last (t0 # map fst cs) \<le> t"
  shows "r = Inr () \<and> sm_live s'' t (BlockKey ip) = None \<and> (\<forall>e b. sm_live s'' t (eventKey e ip g b) = None)"
proof -
  have f: "r = Inr ()" "sm_ok s'" "\<And>t. t0 \<le> t \<Longrightarrow> fresh_epoch ip g (unexpired t (gen_entry t0 g)) (sm_live s' t)"
    using mem.commit_unblock_fresh [OF assms(1-5)] by auto
  from mem.stale_trace [OF f(2) assms(6-8) f(3) assms(9)]
  have "\<forall>k. protected ip g k \<longrightarrow> k \<noteq> unblockGenKey ip \<longrightarrow> sm_live s'' t k = None" by (simp add: fresh_epoch_def)
  moreover have "protected ip g (BlockKey ip)" "\<And>e b. protected ip g (eventKey e ip g b)"
    by (auto simp: protected_def)
  ultimately show ?thesis using f(1) by simp
qed

definition late_block :: store_call where
  "late_block = CallCommitBlock (block_request ''192.0.2.7'' ''honeypot'' minute hour 7 [] None)"

lemma canonIP_example: "canonIP ''192.0.2.7'' = ''192.0.2.7''"
  by (simp add: canonIP_def example_parse fmt_uint_small fmt_uint_large digit_char_def char_of_def bit_simps)

lemma unblock_is_final_witness:
  "\<exists>s1. snd (snd (sb_CommitUnblock sm_ops unblockHoldWindow 10 ''192.0.2.7'' True (unblockGenValue 3 5) (None, fresh_memory))) = s1 \<and>
     sm_live (snd (exec_trace sm_ops janitor_sweep [(20, late_block), (30, CallSweep)] s1)) 40 (BlockKey ''192.0.2.7'') = None"
proof -
  obtain r om s1 where u: "sb_CommitUnblock sm_ops unblockHoldWindow 10 ''192.0.2.7'' True (unblockGenValue 3 5) (None, fresh_memory) = (r, om, s1)"
    by (metis prod_cases3)
  obtain rs s2 where e: "exec_trace sm_ops janitor_sweep [(20, late_block), (30, CallSweep)] s1 = (rs, s2)" by fastforce
  have "0 < unblockHoldWindow" by (simp add: unblockHoldWindow_def second_def)
  moreover have "trace_wf 10 [(20, late_block), (30, CallSweep)]" by (simp add: trace_wf_def late_block_def)
  moreover have "stale_call ''192.0.2.7'' (unblockGenValue 3 5) late_block"
    by (simp add: late_block_def block_request_def)
  ultimately have "sm_live s2 40 (BlockKey ''192.0.2.7'') = None"
    using unblock_is_final [OF fresh_memory_ok _ canonIP_example [symmetric] _ u e, of 40]
    by (simp add: fresh_memory_live unblockGenRetention_def hour_def minute_def)
  with u e show ?thesis by simp
qed

text \<open>
  A block that is placed lasts the base time doubled once per earlier offense,
  capped, never permanent and never past the configured ceiling; the offense is recorded with it and
  the value carries the reason and the writer's own token.
\<close>

theorem block_backoff_doubles:
  assumes "sm_ok s" "0 < hold" "ip = canonIP ip0" "sm_live s now (unblockHoldKey ip) = None"
    and "sm_live s now (unblockGenKey ip) = None" "int64 ttl" "int64 maxTTL" "0 < ttl" "0 < maxTTL"
    and "n = spec_offenses (blockCountKey ip) (sm_live s now)"
    and "sb_Block sm_ops hold now ip0 reason ttl maxTTL owner (om, s) = (r, om', s')"
  shows "r = Inr () \<and>
    (\<forall>t \<ge> now. map_option e_value (sm_live s' t (BlockKey ip)) =
       (if t \<le> now + min (ttl * 2 ^ nat (n - 1)) maxTTL then Some (BlockValue reason owner) else None)) \<and>
    map_option e_value (sm_live s' now (blockCountKey ip)) = Some (format_int n)"
proof -
  let ?T = "min (ttl * 2 ^ nat (n - 1)) maxTTL"
  have T: "blockBackoffTTL ttl maxTTL n = ?T"
    using blockBackoffTTL_closed [OF assms(6,7), of ttl maxTTL n] assms(8,9) by (simp add: BackoffBounds_def)
  moreover have "0 < ?T" using assms(8,9) by simp
  ultimately show ?thesis
    using mem.block_placed [OF assms(1-4) disjI1 [OF assms(5)] assms(11) assms(10) refl] assms(8,9)
    by (simp del: min_less_iff_conj)
qed

lemma block_backoff_doubles_witness:
  "map_option e_value (sm_live (snd (snd (sb_Block sm_ops unblockHoldWindow 10 ''192.0.2.7'' ''honeypot'' minute hour 7
       (None, fresh_memory)))) 11 (BlockKey ''192.0.2.7'')) = Some (BlockValue ''honeypot'' 7)"
proof -
  obtain r om s1 where b: "sb_Block sm_ops unblockHoldWindow 10 ''192.0.2.7'' ''honeypot'' minute hour 7 (None, fresh_memory) = (r, om, s1)"
    by (metis prod_cases3)
  have "map_option e_value (sm_live s1 11 (BlockKey ''192.0.2.7'')) = Some (BlockValue ''honeypot'' 7)"
    using block_backoff_doubles [OF fresh_memory_ok _ canonIP_example [symmetric] _ _ _ _ _ _ refl b]
    by (simp add: fresh_memory_live unblockHoldWindow_def second_def minute_def hour_def int64_def minInt64_def maxInt64_def
        spec_offenses_def)
  then show ?thesis by (simp only: b snd_conv)
qed

text \<open>
  While the hold of an unblock is live, neither an automatic block nor a counted event of
  that client changes anything in the store, in whatever textual form the address arrives.
\<close>

theorem hold_suppresses_automation:
  assumes "sm_ok s" "0 < hold" "sm_live s now (unblockHoldKey (canonIP ip)) \<noteq> None"
    and "sb_Block sm_ops hold now ip reason ttl maxTTL owner (om, s) = (r1, om1, s1)"
    and "sb_RecordEvent sm_ops hold now ip ev limit window ttl maxTTL owner (om, s) = (r2, om2, s2)"
  shows "r1 = Inr () \<and> r2 = (False, None) \<and> om2 = om \<and> (\<forall>t \<ge> now. sm_live s1 t = sm_live s t \<and> sm_live s2 t = sm_live s t)"
  using mem.block_held [OF assms(1-4)] mem.record_event_held [OF assms(1-3,5)] by (simp add: same_live_def)

lemma hold_suppresses_automation_witness:
  "\<exists>s. sm_live s 11 (unblockHoldKey ''192.0.2.7'') \<noteq> None \<and>
     fst (sb_RecordEvent sm_ops unblockHoldWindow 11 ''192.0.2.7'' ''waf'' 1 second minute hour 7 (None, s)) = (False, None)"
proof -
  let ?s = "snd (sm_Set 10 (unblockHoldKey ''192.0.2.7'') ''1'' 5 fresh_memory)"
  have ok: "sm_ok ?s" by (simp add: sm_Set_def sm_put_ok fresh_memory_ok)
  have live: "sm_live ?s 11 (unblockHoldKey ''192.0.2.7'') \<noteq> None"
    by (simp add: sm_Set_def sm_live_upd [OF sm_put_lookup [OF fresh_memory_ok]])
  obtain r1 om1 s1 where b: "sb_Block sm_ops unblockHoldWindow 11 ''192.0.2.7'' ''x'' minute hour 7 (None, ?s) = (r1, om1, s1)"
    by (metis prod_cases3)
  obtain r2 om2 s2 where e: "sb_RecordEvent sm_ops unblockHoldWindow 11 ''192.0.2.7'' ''waf'' 1 second minute hour 7 (None, ?s) = (r2, om2, s2)"
    by (metis prod_cases3)
  have "r2 = (False, None)"
    using hold_suppresses_automation [OF ok _ _ b e] live canonIP_example by (simp add: unblockHoldWindow_def second_def)
  with live e show ?thesis by (intro exI [of _ ?s]) simp
qed

text \<open>
  An event is counted exactly once in the bucket of its time, type, client and
  generation, and the threshold decision is exactly whether that count has reached the limit.
\<close>

theorem event_threshold_exact:
  assumes "sm_ok s" "0 < hold" "ip = canonIP ip0" "sm_live s now (unblockHoldKey ip) = None" "0 < limit" "0 < window"
    and "int64 (2 * window)" "0 < now"
    and "k = eventKey ev ip (gen_of (sm_live s now) ip) (eventBucket now window)"
    and "sm_live s now k = None \<and> n = 1 \<or>
         (\<exists>e m. sm_live s now k = Some e \<and> parse_int64 (e_value e) = Some m \<and> n = wrap64 (m + 1))"
    and "sb_RecordEvent sm_ops hold now ip0 ev limit window ttl maxTTL owner (om, s) = (r, om', s')"
  shows "r = (n \<ge> limit, None) \<and> map_option e_value (sm_live s' now k) = Some (format_int n)"
  by (rule mem.record_event_counts [OF assms(1-6) wrap64_id [OF assms(7)] assms(8-11)])

lemma event_threshold_exact_witness:
  "fst (sb_RecordEvent sm_ops unblockHoldWindow 10 ''192.0.2.7'' ''waf'' 1 second minute hour 7 (None, fresh_memory)) = (True, None)"
proof -
  obtain r om s1 where b: "sb_RecordEvent sm_ops unblockHoldWindow 10 ''192.0.2.7'' ''waf'' 1 second minute hour 7 (None, fresh_memory) = (r, om, s1)"
    by (metis prod_cases3)
  have "r = (True, None)"
    using event_threshold_exact [OF fresh_memory_ok _ canonIP_example [symmetric] _ _ _ _ _ refl disjI1 b, of 1]
    by (simp add: fresh_memory_live unblockHoldWindow_def second_def int64_def minInt64_def maxInt64_def)
  then show ?thesis by (simp only: b fst_conv)
qed

text \<open>
  Two client strings share every scoreboard key exactly when they denote the same
  address: the canonical form does not depend on the spelling (case, expanded zeros, IPv4-mapped
  IPv6), never merges two addresses, and is stable.
\<close>

theorem client_identity_exact:
  assumes "ParseAddr x = Some a" "ParseAddr y = Some b"
  shows "(BlockKey x = BlockKey y \<longleftrightarrow> Unmap a = Unmap b) \<and> (canonIP x = canonIP y \<longleftrightarrow> Unmap a = Unmap b) \<and>
         canonIP (canonIP x) = canonIP x \<and> ParseAddr (canonIP x) = Some (Unmap a)"
proof -
  have p: "ParseAddr (addr_String (Unmap a)) = Some (Unmap a)" "ParseAddr (addr_String (Unmap b)) = Some (Unmap b)"
    using assms by (simp_all add: ParseAddr_String ParseAddr_ok)
  then have "addr_String (Unmap a) = addr_String (Unmap b) \<longleftrightarrow> Unmap a = Unmap b" by (metis option.inject)
  with p show ?thesis by (simp add: BlockKey_canon canonIP_def [of x] canonIP_def [of y] assms) (simp add: canonIP_def)
qed

lemma client_identity_exact_witness: "BlockKey ''::ffff:192.0.2.7'' = BlockKey ''192.0.2.7''"
proof -
  have r5: "replicate 5 (0::nat) = [0, 0, 0, 0, 0]" by (simp add: numeral_eq_Suc)
  have "ParseAddr ''::ffff:192.0.2.7'' = Some (AddrV6 [0, 0, 0, 0, 0, 65535, 49152, 519] [])"
    by (simp add: ParseAddr_def parseIPv6_def before_byte_def v6_loop.simps hex_digit_def v6_finish_def
        parseIPv4Fields_def dec_digit_def r5)
  from client_identity_exact [OF this example_parse] show ?thesis by (simp add: Is4In6_def)
qed

text \<open>
  Resetting the counters of an unblocked client deletes exactly the keys of the
  previous, the current and the next bucket of every configured window, counts each of them, and
  touches no other key of the store.
\<close>

theorem reset_event_counters_exact:
  assumes "sm_ok s" "ResetEventCounters sm_ops now ip g ws s = (keys, failed, s')"
  shows "keys = int (length (concat (map (window_keys now (canonIP ip) g) ws))) \<and> failed = 0 \<and> sm_ok s' \<and>
    (\<forall>t \<ge> now. \<forall>k. sm_live s' t k =
       (if \<exists>w \<in> set ws. bw_Event w \<noteq> [] \<and> 0 < bw_Window w \<and>
            (\<exists>b \<in> {eventBucket now (bw_Window w) - 1 .. eventBucket now (bw_Window w) + 1}.
               k = eventKey (bw_Event w) (canonIP ip) g b)
        then None else sm_live s t k))"
proof -
  have keys: "k \<in> set (window_keys now (canonIP ip) g w) \<longleftrightarrow> bw_Event w \<noteq> [] \<and> 0 < bw_Window w \<and>
      (\<exists>b \<in> {eventBucket now (bw_Window w) - 1 .. eventBucket now (bw_Window w) + 1}.
         k = eventKey (bw_Event w) (canonIP ip) g b)" for k w
  proof -
    have "{B - 1 .. B + 1} = {B - 1, B, B + 1}" for B :: int by auto
    then show ?thesis by (auto simp: window_keys_def Let_def)
  qed
  show ?thesis
    using mem.delete_keys_live [OF assms(1) assms(2) [unfolded ResetEventCounters_def]]
    by (auto simp: keys [symmetric])
qed

lemma reset_event_counters_exact_witness:
  "fst (ResetEventCounters sm_ops 10 ''192.0.2.7'' [] [\<lparr>bw_Event = ''waf'', bw_Window = second\<rparr>] fresh_memory) = 3"
proof -
  obtain k f s1 where r: "ResetEventCounters sm_ops 10 ''192.0.2.7'' [] [\<lparr>bw_Event = ''waf'', bw_Window = second\<rparr>] fresh_memory = (k, f, s1)"
    by (metis prod_cases3)
  have "k = 3"
    using reset_event_counters_exact [OF fresh_memory_ok r] by (simp add: window_keys_def second_def Let_def)
  then show ?thesis by (simp only: r fst_conv)
qed

lemma genValue_collision: "unblockGenValue 1 17 = unblockGenValue 17 1"
  by (simp add: unblockGenValue_def fmt_uint_small fmt_uint_large)

end
