(* ===== verification/Attack_Mode.thy ===== *)
theory Attack_Mode
  imports Store_Spec Complex_Main
begin

text \<open>
  The global attack posture (\<^verbatim>\<open>core/attackmode/attackmode.go\<close>): signal counters aggregated over a ring
  of buckets, a normal/elevated/attack state machine with dwell and hysteresis, operator pins, the
  fleet raise of the difficulty window, and posture votes shared through the store. Rates and
  ratios are exact rationals. A level is an integer: 0 normal, 1 elevated, 2 attack. Every method runs
  under its mutexes, so it is one step; the vote operations of the store are a parameter.
\<close>

section \<open>Levels, configuration and state\<close>

definition Normal :: int where "Normal = 0"
definition Elevated :: int where "Elevated = 1"
definition Attack :: int where "Attack = 2"

lemmas level_defs = Normal_def Elevated_def Attack_def

definition level_String :: "int \<Rightarrow> string" where
  "level_String l = (if l = Elevated then ''elevated'' else if l = Attack then ''attack'' else ''normal'')"

definition ParseLevel :: "string \<Rightarrow> int \<times> bool \<times> bool" where
  "ParseLevel s =
     (if s = ''auto'' then (Normal, True, True)
      else if s = ''normal'' then (Normal, False, True)
      else if s = ''elevated'' then (Elevated, False, True)
      else if s = ''attack'' then (Attack, False, True)
      else (Normal, False, False))"

definition bucketWidth :: nanos where "bucketWidth = 5 * 10 ^ 9"
definition slowOpThreshold :: nanos where "slowOpThreshold = 25 * 10 ^ 6"
definition minStoreOps :: int where "minStoreOps = 20"
definition minSolveSamples :: int where "minSolveSamples = 50"

record am_config =
  am_Enabled :: bool
  am_Window :: nanos
  am_MinDwell :: nanos
  am_SharePosture :: bool
  am_ChallengeRate :: rat
  am_AttackChallengeRate :: rat
  am_MinSolveRatio :: rat
  am_RequestRate :: rat
  am_StoreErrorRatio :: rat
  am_StoreSlowRatio :: rat
  am_ElevatedBits :: int
  am_AttackBits :: int
  am_CapBits :: int
  am_ForceAlways :: bool
  am_Stateless :: bool

record posture =
  ps_Level :: int
  ps_ExtraBits :: int
  ps_CapBits :: int
  ps_ForceAlways :: bool
  ps_Stateless :: bool
  ps_Since :: "nanos option"
  ps_Reason :: string

definition posture_Cap :: "posture option \<Rightarrow> int \<Rightarrow> int" where
  "posture_Cap os maxBits =
     (case os of None \<Rightarrow> maxBits
      | Some s \<Rightarrow> if ps_ExtraBits s = 0 \<or> ps_CapBits s = 0 then maxBits else ps_CapBits s)"

text \<open>One record serves the running totals and the bucket of one tick.\<close>

record bucket =
  bk_evals :: int
  bk_issued :: int
  bk_redeemed :: int
  bk_storeOps :: int
  bk_storeErrs :: int
  bk_storeSlow :: int

definition zero_bucket :: bucket where
  "zero_bucket = \<lparr>bk_evals = 0, bk_issued = 0, bk_redeemed = 0, bk_storeOps = 0, bk_storeErrs = 0, bk_storeSlow = 0\<rparr>"

record signals =
  sg_ChallengeRate :: rat
  sg_RequestRate :: rat
  sg_SolveRatio :: rat
  sg_StoreErrorRatio :: rat
  sg_StoreSlowRatio :: rat

definition zero_signals :: signals where
  "zero_signals = \<lparr>sg_ChallengeRate = 0, sg_RequestRate = 0, sg_SolveRatio = 0, sg_StoreErrorRatio = 0, sg_StoreSlowRatio = 0\<rparr>"

record detector =
  dt_cfg :: am_config
  dt_instanceID :: string
  dt_voteLive :: bool
  dt_c :: bucket
  dt_prev :: bucket
  dt_ring :: "bucket list"
  dt_ringPos :: nat
  dt_ringFull :: bool
  dt_state :: posture
  dt_lastAbove :: "int \<Rightarrow> int"
  dt_localLvl :: int
  dt_pinned :: bool
  dt_pinLevel :: int
  dt_pinUntil :: int
  dt_sig :: signals

text \<open>The vote operations of a store that supports them.\<close>

record 's vote_ops =
  vo_Set :: "nanos \<Rightarrow> string \<Rightarrow> int \<Rightarrow> nanos \<Rightarrow> 's \<Rightarrow> (store_error + unit) \<times> 's"
  vo_Delete :: "nanos \<Rightarrow> string \<Rightarrow> 's \<Rightarrow> (store_error + unit) \<times> 's"
  vo_Max :: "nanos \<Rightarrow> string \<Rightarrow> 's \<Rightarrow> (store_error + int) \<times> 's"

section \<open>Construction and feeds\<close>

definition am_applyConfig :: "am_config \<Rightarrow> detector \<Rightarrow> detector" where
  "am_applyConfig cfg d =
     d\<lparr>dt_ring := replicate (nat (max (go_div (am_Window cfg) bucketWidth) 1)) zero_bucket,
       dt_ringPos := 0, dt_ringFull := False, dt_cfg := cfg\<rparr>"

definition am_New :: "nanos \<Rightarrow> am_config \<Rightarrow> string \<Rightarrow> detector" where
  "am_New now cfg instanceID =
     am_applyConfig cfg
       \<lparr>dt_cfg = cfg, dt_instanceID = instanceID, dt_voteLive = False, dt_c = zero_bucket, dt_prev = zero_bucket,
        dt_ring = [], dt_ringPos = 0, dt_ringFull = False,
        dt_state = \<lparr>ps_Level = Normal, ps_ExtraBits = 0, ps_CapBits = 0, ps_ForceAlways = False,
                    ps_Stateless = False, ps_Since = Some now, ps_Reason = []\<rparr>,
        dt_lastAbove = (\<lambda>_. 0), dt_localLvl = Normal, dt_pinned = False, dt_pinLevel = 0, dt_pinUntil = 0,
        dt_sig = zero_signals\<rparr>"

definition am_Evaluated :: "detector \<Rightarrow> detector" where
  "am_Evaluated d = d\<lparr>dt_c := (dt_c d)\<lparr>bk_evals := wrap64 (bk_evals (dt_c d) + 1)\<rparr>\<rparr>"

definition am_ChallengeIssued :: "detector \<Rightarrow> detector" where
  "am_ChallengeIssued d = d\<lparr>dt_c := (dt_c d)\<lparr>bk_issued := wrap64 (bk_issued (dt_c d) + 1)\<rparr>\<rparr>"

definition am_ChallengeRedeemed :: "detector \<Rightarrow> detector" where
  "am_ChallengeRedeemed d = d\<lparr>dt_c := (dt_c d)\<lparr>bk_redeemed := wrap64 (bk_redeemed (dt_c d) + 1)\<rparr>\<rparr>"

definition am_StoreOp :: "nanos \<Rightarrow> bool \<Rightarrow> detector \<Rightarrow> detector" where
  "am_StoreOp elapsed failed d =
     (let c = dt_c d;
          c1 = c\<lparr>bk_storeOps := wrap64 (bk_storeOps c + 1)\<rparr>;
          c2 = (if failed then c1\<lparr>bk_storeErrs := wrap64 (bk_storeErrs c1 + 1)\<rparr> else c1);
          c3 = (if elapsed \<ge> slowOpThreshold then c2\<lparr>bk_storeSlow := wrap64 (bk_storeSlow c2 + 1)\<rparr> else c2)
      in d\<lparr>dt_c := c3\<rparr>)"

section \<open>Window signals\<close>

definition am_delta :: "int \<Rightarrow> int \<Rightarrow> int" where
  "am_delta cur prev = (let d = wrap64 (cur - prev) in if d < 0 then 0 else d)"

definition tick_bucket :: "bucket \<Rightarrow> bucket \<Rightarrow> bucket" where
  "tick_bucket c p =
     \<lparr>bk_evals = am_delta (bk_evals c) (bk_evals p), bk_issued = am_delta (bk_issued c) (bk_issued p),
      bk_redeemed = am_delta (bk_redeemed c) (bk_redeemed p), bk_storeOps = am_delta (bk_storeOps c) (bk_storeOps p),
      bk_storeErrs = am_delta (bk_storeErrs c) (bk_storeErrs p), bk_storeSlow = am_delta (bk_storeSlow c) (bk_storeSlow p)\<rparr>"

definition ring_sum :: "(bucket \<Rightarrow> int) \<Rightarrow> bucket list \<Rightarrow> int" where
  "ring_sum f ring = foldl (\<lambda>a b. wrap64 (a + f b)) 0 ring"

definition windowSignals :: "detector \<Rightarrow> signals" where
  "windowSignals d =
     (let ring = dt_ring d;
          n = (if dt_ringFull d then length ring else dt_ringPos d);
          issued = ring_sum bk_issued ring; ops = ring_sum bk_storeOps ring;
          secs = of_nat (max n 1) * 5
      in \<lparr>sg_ChallengeRate = of_int issued / secs,
          sg_RequestRate = of_int (ring_sum bk_evals ring) / secs,
          sg_SolveRatio = (if issued \<ge> minSolveSamples then of_int (ring_sum bk_redeemed ring) / of_int issued else 1),
          sg_StoreErrorRatio = (if ops \<ge> minStoreOps then of_int (ring_sum bk_storeErrs ring) / of_int ops else 0),
          sg_StoreSlowRatio = (if ops \<ge> minStoreOps then of_int (ring_sum bk_storeSlow ring) / of_int ops else 0)\<rparr>)"

definition elevatedSignal :: "am_config \<Rightarrow> signals \<Rightarrow> bool \<times> string" where
  "elevatedSignal cfg sg =
     (if am_ChallengeRate cfg > 0 \<and> sg_ChallengeRate sg > am_ChallengeRate cfg then (True, ''challenge_rate'')
      else if am_RequestRate cfg > 0 \<and> sg_RequestRate sg > am_RequestRate cfg then (True, ''request_rate'')
      else if am_StoreErrorRatio cfg > 0 \<and> sg_StoreErrorRatio sg > am_StoreErrorRatio cfg then (True, ''store_errors'')
      else if am_StoreSlowRatio cfg > 0 \<and> sg_StoreSlowRatio sg > am_StoreSlowRatio cfg then (True, ''store_slow'')
      else (False, []))"

definition attackSignal :: "am_config \<Rightarrow> signals \<Rightarrow> bool \<times> string" where
  "attackSignal cfg sg =
     (if am_AttackChallengeRate cfg > 0 \<and> sg_ChallengeRate sg > am_AttackChallengeRate cfg \<and>
         sg_SolveRatio sg < am_MinSolveRatio cfg then (True, ''challenge_rate'')
      else if am_StoreErrorRatio cfg > 0 \<and> sg_StoreErrorRatio sg > 3 * am_StoreErrorRatio cfg then (True, ''store_errors'')
      else (False, []))"

definition elevatedHalf :: "am_config \<Rightarrow> signals \<Rightarrow> bool" where
  "elevatedHalf cfg sg \<longleftrightarrow>
     (am_ChallengeRate cfg > 0 \<and> sg_ChallengeRate sg \<ge> am_ChallengeRate cfg / 2) \<or>
     (am_RequestRate cfg > 0 \<and> sg_RequestRate sg \<ge> am_RequestRate cfg / 2) \<or>
     (am_StoreErrorRatio cfg > 0 \<and> sg_StoreErrorRatio sg \<ge> am_StoreErrorRatio cfg / 2) \<or>
     (am_StoreSlowRatio cfg > 0 \<and> sg_StoreSlowRatio sg \<ge> am_StoreSlowRatio cfg / 2)"

definition attackHalf :: "am_config \<Rightarrow> signals \<Rightarrow> bool" where
  "attackHalf cfg sg \<longleftrightarrow>
     (am_AttackChallengeRate cfg > 0 \<and> sg_ChallengeRate sg \<ge> am_AttackChallengeRate cfg / 2 \<and>
      sg_SolveRatio sg < am_MinSolveRatio cfg) \<or>
     (am_StoreErrorRatio cfg > 0 \<and> sg_StoreErrorRatio sg \<ge> 3 * am_StoreErrorRatio cfg / 2)"

section \<open>The state machine\<close>

definition resolvePin :: "nanos \<Rightarrow> detector \<Rightarrow> int option \<times> detector" where
  "resolvePin now d =
     (if \<not> dt_pinned d then (None, d)
      else if dt_pinUntil d \<noteq> 0 \<and> now \<ge> dt_pinUntil d then (None, d\<lparr>dt_pinned := False\<rparr>)
      else (Some (dt_pinLevel d), d))"

definition decayFrom :: "am_config \<Rightarrow> int \<Rightarrow> nanos \<Rightarrow> (int \<Rightarrow> int) \<Rightarrow> int" where
  "decayFrom cfg cur now lastAbove =
     (if cur = Normal then Normal
      else if lastAbove cur \<noteq> 0 \<and> now - lastAbove cur < am_MinDwell cfg then cur
      else cur - 1)"

definition bitsFor :: "am_config \<Rightarrow> int \<Rightarrow> int" where
  "bitsFor cfg level = (if level = Elevated then am_ElevatedBits cfg else if level = Attack then am_AttackBits cfg else 0)"

definition am_publish :: "am_config \<Rightarrow> int \<Rightarrow> string \<Rightarrow> nanos \<Rightarrow> detector \<Rightarrow> detector" where
  "am_publish cfg level reason0 now d =
     (let cur = dt_state d;
          reason = (if reason0 = [] \<and> level = ps_Level cur then ps_Reason cur else reason0);
          nxt = \<lparr>ps_Level = level, ps_ExtraBits = bitsFor cfg level, ps_CapBits = am_CapBits cfg,
                 ps_ForceAlways = (level = Attack \<and> am_ForceAlways cfg),
                 ps_Stateless = (level = Attack \<and> am_Stateless cfg), ps_Since = Some now, ps_Reason = reason\<rparr>
      in if ps_Level cur = ps_Level nxt \<and> ps_Reason cur = ps_Reason nxt \<and> ps_ExtraBits cur = ps_ExtraBits nxt \<and>
            ps_CapBits cur = ps_CapBits nxt \<and> ps_ForceAlways cur = ps_ForceAlways nxt \<and>
            ps_Stateless cur = ps_Stateless nxt
         then d
         else d\<lparr>dt_state := (if ps_Level cur = level then nxt\<lparr>ps_Since := ps_Since cur\<rparr> else nxt)\<rparr>)"

definition am_evaluate :: "am_config \<Rightarrow> signals \<Rightarrow> int \<Rightarrow> nanos \<Rightarrow> detector \<Rightarrow> detector" where
  "am_evaluate cfg sg peer0 now d0 =
     (let peer = (if peer0 < Normal \<or> peer0 > Attack then Normal else peer0);
          (pin, d) = resolvePin now d0
      in case pin of
           Some lvl \<Rightarrow> am_publish cfg lvl ''forced'' now (d\<lparr>dt_localLvl := lvl\<rparr>)
         | None \<Rightarrow>
             (if \<not> am_Enabled cfg then am_publish cfg Normal [] now (d\<lparr>dt_localLvl := Normal\<rparr>)
              else
                let (elevatedHit, elevatedReason) = elevatedSignal cfg sg;
                    (attackHit, attackReason) = attackSignal cfg sg;
                    la0 = dt_lastAbove d;
                    la1 = (if elevatedHit \<or> elevatedHalf cfg sg then la0(Elevated := now) else la0);
                    la2 = (if attackHit \<or> attackHalf cfg sg then la1(Attack := now) else la1);
                    cur = dt_localLvl d;
                    (local, reason) =
                      (if attackHit then (Attack, attackReason)
                       else if elevatedHit \<and> cur < Attack then (Elevated, elevatedReason)
                       else (decayFrom cfg cur now la2, []));
                    (desired, treason) = (if peer > local then (peer, ''peer'') else (local, reason));
                    la3 = (if peer > Normal then la2(peer := now) else la2);
                    st = dt_state d; published = ps_Level st;
                    (target, la4, treason') =
                      (if desired < published \<and> ps_Reason st \<noteq> ''forced''
                       then let target = max (decayFrom cfg published now la3) desired;
                                la = (if target < published \<and> target > Normal then la3(target := now) else la3)
                            in (target, la, if target = published then [] else treason)
                       else (desired, la3, treason))
                in am_publish cfg target treason' now (d\<lparr>dt_lastAbove := la4, dt_localLvl := local\<rparr>)))"

definition am_recompute :: "nanos \<Rightarrow> detector \<Rightarrow> detector" where
  "am_recompute now d = am_evaluate (dt_cfg d) (dt_sig d) Normal now d"

definition EffectiveBits :: "posture option \<Rightarrow> int \<Rightarrow> int \<Rightarrow> int \<Rightarrow> int \<times> int" where
  "EffectiveBits os baseBits maxBits capBits =
     (case os of
        None \<Rightarrow> (baseBits, maxBits)
      | Some st \<Rightarrow>
          if ps_ExtraBits st = 0 then (baseBits, maxBits)
          else let cap = max capBits maxBits;
                   effBase = max (min (baseBits + ps_ExtraBits st) cap) baseBits;
                   effMax = max (min (maxBits + ps_ExtraBits st) cap) effBase
               in (effBase, effMax))"

section \<open>Posture sharing, pins and the tick\<close>

definition clearSharedVote :: "'s vote_ops option \<Rightarrow> nanos \<Rightarrow> detector \<times> 's \<Rightarrow> detector \<times> 's" where
  "clearSharedVote votes now ds =
     (case votes of
        None \<Rightarrow> ds
      | Some vo \<Rightarrow>
          (if \<not> dt_voteLive (fst ds) then ds
           else case vo_Delete vo now (dt_instanceID (fst ds)) (snd ds) of
                  (Inr _, s') \<Rightarrow> ((fst ds)\<lparr>dt_voteLive := False\<rparr>, s')
                | (Inl _, s') \<Rightarrow> (fst ds, s')))"

definition sharePosture :: "'s vote_ops option \<Rightarrow> nanos \<Rightarrow> int \<Rightarrow> detector \<times> 's \<Rightarrow> int \<times> detector \<times> 's" where
  "sharePosture votes now local ds =
     (case votes of
        None \<Rightarrow> (Normal, ds)
      | Some vo \<Rightarrow>
          (let (d, s) = ds; cfg = dt_cfg d
           in if dt_pinned d \<or> \<not> am_Enabled cfg \<or> \<not> am_SharePosture cfg
              then (Normal, clearSharedVote votes now ds)
              else
                let (d1, s1) =
                      (if local > Normal
                       then (case vo_Set vo now (dt_instanceID d) local (am_Window cfg) s of
                               (Inl ErrCapabilityUnsupported, s') \<Rightarrow> (d\<lparr>dt_voteLive := False\<rparr>, s')
                             | (_, s') \<Rightarrow> (d\<lparr>dt_voteLive := True\<rparr>, s'))
                       else (case vo_Delete vo now (dt_instanceID d) s of
                               (Inr _, s') \<Rightarrow> (d\<lparr>dt_voteLive := False\<rparr>, s')
                             | (Inl ErrCapabilityUnsupported, s') \<Rightarrow> (d\<lparr>dt_voteLive := False\<rparr>, s')
                             | (Inl _, s') \<Rightarrow> (d, s')))
                in case vo_Max vo now (dt_instanceID d1) s1 of
                     (Inl _, s2) \<Rightarrow> (Normal, d1, s2)
                   | (Inr level, s2) \<Rightarrow>
                       (if level < Elevated \<or> level > Attack then Normal else level, d1, s2)))"

definition am_SetConfig :: "'s vote_ops option \<Rightarrow> nanos \<Rightarrow> am_config \<Rightarrow> detector \<times> 's \<Rightarrow> detector \<times> 's" where
  "am_SetConfig votes now cfg ds =
     (let d = am_applyConfig cfg (fst ds)
      in if \<not> am_Enabled cfg \<or> \<not> am_SharePosture cfg then clearSharedVote votes now (d, snd ds) else (d, snd ds))"

definition am_Pin :: "'s vote_ops option \<Rightarrow> nanos \<Rightarrow> int \<Rightarrow> nanos \<Rightarrow> detector \<times> 's \<Rightarrow> detector \<times> 's" where
  "am_Pin votes now level ttl ds =
     (let d = (fst ds)\<lparr>dt_pinLevel := level, dt_pinUntil := (if ttl > 0 then now + ttl else 0), dt_pinned := True\<rparr>
      in clearSharedVote votes now (am_recompute now d, snd ds))"

definition am_Unpin :: "nanos \<Rightarrow> detector \<Rightarrow> detector" where
  "am_Unpin now d = am_recompute now (d\<lparr>dt_pinned := False\<rparr>)"

definition am_Pinned :: "detector \<Rightarrow> int \<times> bool" where
  "am_Pinned d = (if \<not> dt_pinned d then (Normal, False) else (dt_pinLevel d, True))"

definition tick_ring :: "detector \<Rightarrow> detector" where
  "tick_ring d =
     (let b = tick_bucket (dt_c d) (dt_prev d);
          pos = (dt_ringPos d + 1) mod length (dt_ring d);
          d1 = d\<lparr>dt_prev := dt_c d, dt_ring := (dt_ring d)[dt_ringPos d := b], dt_ringPos := pos,
                 dt_ringFull := (if pos = 0 then True else dt_ringFull d)\<rparr>
      in d1\<lparr>dt_sig := windowSignals d1\<rparr>)"

definition am_tick :: "'s vote_ops option \<Rightarrow> nanos \<Rightarrow> detector \<times> 's \<Rightarrow> detector \<times> 's" where
  "am_tick votes now ds =
     (let cfg = dt_cfg (fst ds);
          d = tick_ring (fst ds);
          (peer, d1, s1) =
            (if am_Enabled cfg \<and> am_SharePosture cfg \<and> votes \<noteq> None \<and> \<not> dt_pinned d
             then sharePosture votes now (dt_localLvl d) (d, snd ds)
             else (Normal, clearSharedVote votes now (d, snd ds)))
      in (am_evaluate cfg (dt_sig d) peer now d1, s1))"

section \<open>What a publication and an evaluation leave\<close>

lemma publish_level [simp]: "ps_Level (dt_state (am_publish cfg l r now d)) = l"
  by (simp add: am_publish_def Let_def)

lemma publish_fields [simp]:
  "dt_localLvl (am_publish cfg l r now d) = dt_localLvl d" "dt_lastAbove (am_publish cfg l r now d) = dt_lastAbove d"
  "dt_ring (am_publish cfg l r now d) = dt_ring d" "dt_ringPos (am_publish cfg l r now d) = dt_ringPos d"
  "dt_pinned (am_publish cfg l r now d) = dt_pinned d" "dt_pinLevel (am_publish cfg l r now d) = dt_pinLevel d"
  "dt_pinUntil (am_publish cfg l r now d) = dt_pinUntil d" "dt_cfg (am_publish cfg l r now d) = dt_cfg d"
  by (simp_all add: am_publish_def Let_def)

lemma publish_effects:
  "ps_ExtraBits (dt_state (am_publish cfg l r now d)) = bitsFor cfg l \<and>
   ps_ForceAlways (dt_state (am_publish cfg l r now d)) = (l = Attack \<and> am_ForceAlways cfg) \<and>
   ps_Stateless (dt_state (am_publish cfg l r now d)) = (l = Attack \<and> am_Stateless cfg) \<and>
   ps_CapBits (dt_state (am_publish cfg l r now d)) = am_CapBits cfg"
  by (simp add: am_publish_def Let_def)

text \<open>The decisions of one automatic evaluation, named.\<close>

definition am_above :: "am_config \<Rightarrow> signals \<Rightarrow> nanos \<Rightarrow> (int \<Rightarrow> int) \<Rightarrow> int \<Rightarrow> int" where
  "am_above cfg sg now la0 =
     (let la1 = (if fst (elevatedSignal cfg sg) \<or> elevatedHalf cfg sg then la0(Elevated := now) else la0)
      in if fst (attackSignal cfg sg) \<or> attackHalf cfg sg then la1(Attack := now) else la1)"

definition am_local :: "am_config \<Rightarrow> signals \<Rightarrow> nanos \<Rightarrow> detector \<Rightarrow> int" where
  "am_local cfg sg now d =
     (if fst (attackSignal cfg sg) then Attack
      else if fst (elevatedSignal cfg sg) \<and> dt_localLvl d < Attack then Elevated
      else decayFrom cfg (dt_localLvl d) now (am_above cfg sg now (dt_lastAbove d)))"

definition clamp_peer :: "int \<Rightarrow> int" where
  "clamp_peer p = (if p < Normal \<or> p > Attack then Normal else p)"

definition am_above_peer :: "am_config \<Rightarrow> signals \<Rightarrow> int \<Rightarrow> nanos \<Rightarrow> detector \<Rightarrow> int \<Rightarrow> int" where
  "am_above_peer cfg sg peer now d =
     (let la = am_above cfg sg now (dt_lastAbove d)
      in if clamp_peer peer > Normal then la(clamp_peer peer := now) else la)"

definition am_target :: "am_config \<Rightarrow> signals \<Rightarrow> int \<Rightarrow> nanos \<Rightarrow> detector \<Rightarrow> int" where
  "am_target cfg sg peer now d =
     (let desired = max (am_local cfg sg now d) (clamp_peer peer); published = ps_Level (dt_state d)
      in if desired < published \<and> ps_Reason (dt_state d) \<noteq> ''forced''
         then max (decayFrom cfg published now (am_above_peer cfg sg peer now d)) desired else desired)"

definition am_last :: "am_config \<Rightarrow> signals \<Rightarrow> int \<Rightarrow> nanos \<Rightarrow> detector \<Rightarrow> int \<Rightarrow> int" where
  "am_last cfg sg peer now d =
     (let la = am_above_peer cfg sg peer now d; desired = max (am_local cfg sg now d) (clamp_peer peer);
          published = ps_Level (dt_state d); target = am_target cfg sg peer now d
      in if desired < published \<and> ps_Reason (dt_state d) \<noteq> ''forced'' \<and> target < published \<and> target > Normal
         then la(target := now) else la)"

definition unpinned :: "nanos \<Rightarrow> detector \<Rightarrow> bool" where
  "unpinned now d \<longleftrightarrow> \<not> dt_pinned d \<or> (dt_pinUntil d \<noteq> 0 \<and> now \<ge> dt_pinUntil d)"

lemma evaluate_auto_eq:
  assumes "unpinned now d" "am_Enabled cfg"
  shows "\<exists>r. am_evaluate cfg sg peer now d =
    am_publish cfg (am_target cfg sg peer now d) r now
      (d\<lparr>dt_pinned := False, dt_lastAbove := am_last cfg sg peer now d, dt_localLvl := am_local cfg sg now d\<rparr>)"
proof -
  obtain eh er where e: "elevatedSignal cfg sg = (eh, er)" by fastforce
  obtain ah ar where a: "attackSignal cfg sg = (ah, ar)" by fastforce
  have p: "resolvePin now d = (None, d\<lparr>dt_pinned := False\<rparr>)"
    using assms(1) by (cases "dt_pinned d") (auto simp: resolvePin_def unpinned_def)
  have sel: "dt_localLvl (d\<lparr>dt_pinned := False\<rparr>) = dt_localLvl d" "dt_lastAbove (d\<lparr>dt_pinned := False\<rparr>) = dt_lastAbove d"
      "dt_state (d\<lparr>dt_pinned := False\<rparr>) = dt_state d"
    by simp_all
  define L where "L = am_local cfg sg now d"
  define la2 where "la2 = am_above cfg sg now (dt_lastAbove d)"
  define la3 where "la3 = am_above_peer cfg sg peer now d"
  define P where "P = clamp_peer peer"
  define st where "st = dt_state d"
  have la2': "(if ah \<or> attackHalf cfg sg
      then (if eh \<or> elevatedHalf cfg sg then (dt_lastAbove d)(Elevated := now) else dt_lastAbove d)(Attack := now)
      else (if eh \<or> elevatedHalf cfg sg then (dt_lastAbove d)(Elevated := now) else dt_lastAbove d)) = la2"
    by (simp add: la2_def am_above_def e a Let_def)
  have "\<exists>r1. (if ah then (Attack, ar) else if eh \<and> dt_localLvl d < Attack then (Elevated, er)
      else (decayFrom cfg (dt_localLvl d) now la2, [])) = (L, r1)"
    by (cases ah; cases "eh \<and> dt_localLvl d < Attack") (auto simp: L_def am_local_def e a la2_def)
  then obtain r1 where loc: "(if ah then (Attack, ar) else if eh \<and> dt_localLvl d < Attack then (Elevated, er)
      else (decayFrom cfg (dt_localLvl d) now la2, [])) = (L, r1)" by blast
  have des: "(if P > L then (P, ''peer'') else (L, r1)) = (max L P, if P > L then ''peer'' else r1)"
    by (simp add: max_def)
  define r2 where "r2 = (if P > L then ''peer'' else r1)"
  note des = des [folded r2_def]
  have la3': "(if P > Normal then la2(P := now) else la2) = la3"
    by (simp add: la3_def am_above_peer_def la2_def P_def Let_def)
  have T: "am_target cfg sg peer now d = (if max L P < ps_Level st \<and> ps_Reason st \<noteq> ''forced''
      then max (decayFrom cfg (ps_Level st) now la3) (max L P) else max L P)"
    unfolding am_target_def Let_def L_def P_def la3_def st_def by (rule refl)
  have LA: "am_last cfg sg peer now d =
      (if max L P < ps_Level st \<and> ps_Reason st \<noteq> ''forced'' \<and> am_target cfg sg peer now d < ps_Level st \<and> am_target cfg sg peer now d > Normal
       then la3(am_target cfg sg peer now d := now) else la3)"
    unfolding am_last_def Let_def L_def P_def la3_def st_def by (rule refl)
  have "\<exists>r3. (if max L P < ps_Level st \<and> ps_Reason st \<noteq> ''forced''
      then (let target = max (decayFrom cfg (ps_Level st) now la3) (max L P);
                la = (if target < ps_Level st \<and> target > Normal then la3(target := now) else la3)
            in (target, la, if target = ps_Level st then [] else r2))
      else (max L P, la3, r2)) = (am_target cfg sg peer now d, am_last cfg sg peer now d, r3)"
    unfolding LA by (cases "max L P < ps_Level st \<and> ps_Reason st \<noteq> ''forced''")
      (simp_all only: T Let_def if_True if_False simp_thms prod.inject, auto simp del: max_less_iff_conj)
  then obtain r3 where tgt: "(if max L P < ps_Level st \<and> ps_Reason st \<noteq> ''forced''
      then (let target = max (decayFrom cfg (ps_Level st) now la3) (max L P);
                la = (if target < ps_Level st \<and> target > Normal then la3(target := now) else la3)
            in (target, la, if target = ps_Level st then [] else r2))
      else (max L P, la3, r2)) = (am_target cfg sg peer now d, am_last cfg sg peer now d, r3)" by blast
  have "am_evaluate cfg sg peer now d =
      am_publish cfg (am_target cfg sg peer now d) r3 now
        (d\<lparr>dt_pinned := False, dt_lastAbove := am_last cfg sg peer now d, dt_localLvl := L\<rparr>)"
    using assms(2) la2' loc des la3' tgt
    by (simp only: am_evaluate_def p Let_def e a prod.case option.case P_def clamp_peer_def [symmetric] st_def sel simp_thms if_False)
  then show ?thesis unfolding L_def by blast
qed

lemma evaluate_auto:
  assumes "unpinned now d" "am_Enabled cfg" "d' = am_evaluate cfg sg peer now d"
  shows "ps_Level (dt_state d') = am_target cfg sg peer now d" "dt_localLvl d' = am_local cfg sg now d"
    and "dt_lastAbove d' = am_last cfg sg peer now d" "\<not> dt_pinned d'"
  using evaluate_auto_eq [OF assms(1,2), of sg peer] assms(3) by auto

lemma evaluate_pinned:
  assumes "\<not> unpinned now d"
  shows "am_evaluate cfg sg peer now d = am_publish cfg (dt_pinLevel d) ''forced'' now (d\<lparr>dt_localLvl := dt_pinLevel d\<rparr>)"
  using assms by (auto simp: am_evaluate_def resolvePin_def unpinned_def)

lemma evaluate_disabled:
  assumes "unpinned now d" "\<not> am_Enabled cfg"
  shows "am_evaluate cfg sg peer now d = am_publish cfg Normal [] now (d\<lparr>dt_pinned := False, dt_localLvl := Normal\<rparr>)"
proof -
  have "resolvePin now d = (None, d\<lparr>dt_pinned := False\<rparr>)"
    using assms(1) by (cases "dt_pinned d") (auto simp: resolvePin_def unpinned_def)
  then show ?thesis using assms(2) by (simp add: am_evaluate_def)
qed

section \<open>Reachable detectors\<close>

inductive det_step :: "'s vote_ops option \<Rightarrow> detector \<Rightarrow> detector \<Rightarrow> bool" for votes :: "'s vote_ops option" where
  feed: "det_step votes d (d\<lparr>dt_c := c\<rparr>)"
| tick: "det_step votes d (fst (am_tick votes now (d, s)))"
| set_config: "det_step votes d (fst (am_SetConfig votes now cfg (d, s)))"
| pin: "Normal \<le> level \<Longrightarrow> level \<le> Attack \<Longrightarrow> det_step votes d (fst (am_Pin votes now level ttl (d, s)))"
| unpin: "det_step votes d (am_Unpin now d)"

inductive det_reach :: "'s vote_ops option \<Rightarrow> detector \<Rightarrow> bool" for votes :: "'s vote_ops option" where
  start: "det_reach votes (am_New now cfg instanceID)"
| step: "det_reach votes d \<Longrightarrow> det_step votes d d' \<Longrightarrow> det_reach votes d'"

inductive_cases det_stepE: "det_step votes d d'"

definition level_ok :: "int \<Rightarrow> bool" where
  "level_ok l \<longleftrightarrow> Normal \<le> l \<and> l \<le> Attack"

text \<open>
  The levels stay in the enumeration (the code indexes an array of three by them), the ring index
  stays in the ring, and a published effect belongs to its level.
\<close>

definition detector_ok :: "detector \<Rightarrow> bool" where
  "detector_ok d \<longleftrightarrow>
     level_ok (ps_Level (dt_state d)) \<and> level_ok (dt_localLvl d) \<and> level_ok (dt_pinLevel d) \<and>
     dt_ringPos d < length (dt_ring d) \<and>
     (ps_Level (dt_state d) = Normal \<longrightarrow> ps_ExtraBits (dt_state d) = 0) \<and>
     (ps_Level (dt_state d) \<noteq> Attack \<longrightarrow> \<not> ps_ForceAlways (dt_state d) \<and> \<not> ps_Stateless (dt_state d))"

lemma level_ok_consts [simp]: "level_ok Normal" "level_ok Elevated" "level_ok Attack"
  by (simp_all add: level_ok_def level_defs)

lemma level_ok_max [simp]: "level_ok a \<Longrightarrow> level_ok b \<Longrightarrow> level_ok (max a b)"
  by (simp add: max_def)

lemma level_ok_clamp [simp]: "level_ok (clamp_peer p)"
  by (simp add: clamp_peer_def level_ok_def level_defs)

lemma decayFrom_ok [simp]: "level_ok l \<Longrightarrow> level_ok (decayFrom cfg l now la)"
  by (auto simp: decayFrom_def level_ok_def level_defs)

lemma am_local_ok: "level_ok (dt_localLvl d) \<Longrightarrow> level_ok (am_local cfg sg now d)"
  by (simp add: am_local_def)

lemma am_target_ok: "level_ok (dt_localLvl d) \<Longrightarrow> level_ok (ps_Level (dt_state d)) \<Longrightarrow> level_ok (am_target cfg sg peer now d)"
  by (simp add: am_target_def Let_def am_local_ok)

lemma publish_ok:
  "level_ok l \<Longrightarrow> level_ok (dt_localLvl d) \<Longrightarrow> level_ok (dt_pinLevel d) \<Longrightarrow> dt_ringPos d < length (dt_ring d) \<Longrightarrow>
     detector_ok (am_publish cfg l r now d)"
  using publish_effects [of cfg l r now d] by (auto simp: detector_ok_def bitsFor_def level_defs)

lemma evaluate_ok: "detector_ok d \<Longrightarrow> detector_ok (am_evaluate cfg sg peer now d)"
proof -
  assume d: "detector_ok d"
  consider "\<not> unpinned now d" | "unpinned now d" "\<not> am_Enabled cfg" | "unpinned now d" "am_Enabled cfg" by blast
  then show ?thesis
  proof cases
    case 1
    show ?thesis unfolding evaluate_pinned [OF 1] by (rule publish_ok) (use d in \<open>simp_all add: detector_ok_def\<close>)
  next
    case 2
    show ?thesis unfolding evaluate_disabled [OF 2] by (rule publish_ok) (use d in \<open>simp_all add: detector_ok_def\<close>)
  next
    case 3
    obtain r where "am_evaluate cfg sg peer now d = am_publish cfg (am_target cfg sg peer now d) r now
        (d\<lparr>dt_pinned := False, dt_lastAbove := am_last cfg sg peer now d, dt_localLvl := am_local cfg sg now d\<rparr>)"
      using evaluate_auto_eq [OF 3] by blast
    then show ?thesis
      by (simp only:) (rule publish_ok, use d in \<open>simp_all add: detector_ok_def am_local_ok am_target_ok\<close>)
  qed
qed

lemma detector_ok_vote [simp]: "detector_ok (d\<lparr>dt_voteLive := v\<rparr>) = detector_ok d"
  by (simp add: detector_ok_def)

lemma clear_ok: "detector_ok (fst ds) \<Longrightarrow> detector_ok (fst (clearSharedVote votes now ds))"
  by (auto simp: clearSharedVote_def split: option.splits prod.splits sum.splits)

lemma share_ok: "detector_ok (fst ds) \<Longrightarrow> detector_ok (fst (snd (sharePosture votes now l ds)))"
  using clear_ok [of ds votes now]
  by (auto simp: sharePosture_def Let_def split: option.splits prod.splits sum.splits store_error.splits if_splits)

lemma tick_ring_ok: "detector_ok d \<Longrightarrow> detector_ok (tick_ring d)"
  by (auto simp: tick_ring_def detector_ok_def Let_def intro!: mod_less_divisor)

lemma tick_ok: "detector_ok d \<Longrightarrow> detector_ok (fst (am_tick votes now (d, s)))"
  using share_ok [of "(tick_ring d, s)" votes now "dt_localLvl (tick_ring d)"]
    clear_ok [of "(tick_ring d, s)" votes now] tick_ring_ok [of d]
  by (auto simp: am_tick_def Let_def intro!: evaluate_ok split: prod.splits if_splits)

lemma step_ok: "det_step votes d d' \<Longrightarrow> detector_ok d \<Longrightarrow> detector_ok d'"
proof (induction rule: det_step.induct)
  case (set_config d now cfg s)
  then have "detector_ok (am_applyConfig cfg d)" by (simp add: am_applyConfig_def detector_ok_def less_max_iff_disj)
  then show ?case using clear_ok [of "(am_applyConfig cfg d, s)" votes now] by (simp add: am_SetConfig_def Let_def)
next
  case (pin level d now ttl s)
  then have "detector_ok (d\<lparr>dt_pinLevel := level, dt_pinUntil := x, dt_pinned := True\<rparr>)" for x
    by (simp add: detector_ok_def level_ok_def)
  then show ?case by (auto simp: am_Pin_def Let_def am_recompute_def intro!: clear_ok evaluate_ok)
next
  case (unpin d now)
  then have "detector_ok (d\<lparr>dt_pinned := False\<rparr>)" by (simp add: detector_ok_def)
  then show ?case by (simp add: am_Unpin_def am_recompute_def evaluate_ok)
next
  case (feed d c)
  then show ?case by (simp add: detector_ok_def)
qed (rule tick_ok)

lemma reach_ok: "det_reach votes d \<Longrightarrow> detector_ok d"
proof (induction rule: det_reach.induct)
  case (start now cfg instanceID)
  then show ?case
    by (simp add: am_New_def am_applyConfig_def detector_ok_def level_ok_def level_defs less_max_iff_disj)
qed (rule step_ok)

section \<open>Dwell and decay\<close>

lemma target_ge: "max (am_local cfg sg now d) (clamp_peer peer) \<le> am_target cfg sg peer now d"
  unfolding am_target_def Let_def by (simp only: split: if_split) (simp add: max.coboundedI2)

lemma decayFrom_ge: "l - 1 \<le> decayFrom cfg l now la"
  by (simp add: decayFrom_def level_defs)

lemma target_drop:
  assumes "am_target cfg sg peer now d < ps_Level (dt_state d)" "ps_Reason (dt_state d) \<noteq> ''forced''"
    and "0 < ps_Level (dt_state d)"
  shows "am_target cfg sg peer now d = ps_Level (dt_state d) - 1"
    and "am_above_peer cfg sg peer now d (ps_Level (dt_state d)) = 0 \<or>
         am_MinDwell cfg \<le> now - am_above_peer cfg sg peer now d (ps_Level (dt_state d))"
proof -
  let ?p = "ps_Level (dt_state d)"
  let ?D = "max (am_local cfg sg now d) (clamp_peer peer)"
  have lt: "?D < ?p" using target_ge [of cfg sg now d peer] assms(1) by linarith
  then have t: "am_target cfg sg peer now d = max (decayFrom cfg ?p now (am_above_peer cfg sg peer now d)) ?D"
    using assms(2) by (simp add: am_target_def Let_def)
  then have d: "decayFrom cfg ?p now (am_above_peer cfg sg peer now d) < ?p" using assms(1) by simp
  then show "am_above_peer cfg sg peer now d ?p = 0 \<or> am_MinDwell cfg \<le> now - am_above_peer cfg sg peer now d ?p"
    using assms(3) by (auto simp: decayFrom_def level_defs split: if_splits)
  have "decayFrom cfg ?p now (am_above_peer cfg sg peer now d) = ?p - 1"
    using d assms(3) by (auto simp: decayFrom_def level_defs split: if_splits)
  then show "am_target cfg sg peer now d = ?p - 1" using t lt by simp
qed

text \<open>A signal still at half its attack threshold counts as not yet gone.\<close>

lemma above_attack:
  "am_above cfg sg now la Attack = (if fst (attackSignal cfg sg) \<or> attackHalf cfg sg then now else la Attack)"
  by (simp add: am_above_def Let_def level_defs)

section \<open>Properties\<close>

text \<open>
  The fleet raise only raises: the effective window never falls below the domain's own
  base and maximum, stays a window, and never exceeds the attack cap (or the domain's own maximum
  when the cap is configured below it), so a token verified against the unshifted base is accepted.
\<close>

theorem effective_bits_only_raise:
  assumes "EffectiveBits os base mx cap = (effBase, effMax)" "base \<le> mx"
    and "\<forall>st. os = Some st \<longrightarrow> 0 \<le> ps_ExtraBits st"
  shows "base \<le> effBase \<and> effBase \<le> effMax \<and> mx \<le> effMax \<and> effMax \<le> max cap mx"
  using assms by (auto simp: EffectiveBits_def Let_def split: option.splits if_splits)

definition attack_posture :: posture where
  "attack_posture = \<lparr>ps_Level = Attack, ps_ExtraBits = 4, ps_CapBits = 24, ps_ForceAlways = True, ps_Stateless = True,
     ps_Since = None, ps_Reason = ''challenge_rate''\<rparr>"

lemma effective_bits_only_raise_witness:
  "16 \<le> fst (EffectiveBits (Some attack_posture) 16 22 24) \<and> snd (EffectiveBits (Some attack_posture) 16 22 24) \<le> 24"
  using effective_bits_only_raise [of "Some attack_posture" 16 22 24 _ _, OF prod.collapse [symmetric]]
  by (simp add: attack_posture_def)

text \<open>
  A live pin overrides everything: whatever the signals, the peers and the history, the
  published posture is the pinned level with the effects of that level, until the pin expires.
\<close>

theorem pin_overrides_detection:
  assumes "dt_pinned d" "dt_pinUntil d = 0 \<or> now < dt_pinUntil d"
    and "d' = am_evaluate cfg sg peer now d"
  shows "ps_Level (dt_state d') = dt_pinLevel d \<and> dt_localLvl d' = dt_pinLevel d \<and>
         ps_ExtraBits (dt_state d') = bitsFor cfg (dt_pinLevel d) \<and> dt_pinned d'"
proof -
  have "\<not> unpinned now d" using assms(1,2) by (auto simp: unpinned_def)
  then show ?thesis using assms(1,3) publish_effects by (simp add: evaluate_pinned)
qed

definition example_config :: am_config where
  "example_config = \<lparr>am_Enabled = True, am_Window = 30 * 10 ^ 9, am_MinDwell = 60 * 10 ^ 9, am_SharePosture = True,
     am_ChallengeRate = 50, am_AttackChallengeRate = 200, am_MinSolveRatio = 1 / 4, am_RequestRate = 0,
     am_StoreErrorRatio = 1 / 20, am_StoreSlowRatio = 1 / 4, am_ElevatedBits = 2, am_AttackBits = 4, am_CapBits = 24,
     am_ForceAlways = True, am_Stateless = True\<rparr>"

definition example_detector :: detector where
  "example_detector = (am_New 0 example_config ''a'')\<lparr>dt_pinned := True, dt_pinLevel := Attack\<rparr>"

lemma pin_overrides_detection_witness:
  "ps_Level (dt_state (am_evaluate example_config zero_signals Normal 7 example_detector)) = Attack"
  using pin_overrides_detection [of example_detector 7 _ example_config zero_signals Normal]
  by (simp add: example_detector_def am_New_def am_applyConfig_def)

text \<open>
  Every reachable detector, whatever the stores, peers, pins and reloads, keeps its
  levels inside the three-valued enumeration that indexes its tables, its ring index inside the
  ring, and publishes raise, forced challenges and store-free issuance only at the levels that own
  them.
\<close>

theorem reachable_detector_ok:
  assumes "det_reach votes d"
  shows "detector_ok d"
  by (rule reach_ok [OF assms])

lemma reachable_detector_ok_witness: "detector_ok (am_New 0 example_config ''a'')"
  by (rule reachable_detector_ok [of None], rule det_reach.start)

text \<open>
  C37 (safety). Exit from a posture is one step at a time and never early: an automatic evaluation of a
  posture that was not forced lowers the published level by at most one, only when the level's last
  crossing of half its threshold is at least the dwell time ago, and never below what this replica
  or a peer reports.
\<close>

theorem posture_decays_one_step_after_dwell:
  assumes "unpinned now d" "am_Enabled cfg" "ps_Reason (dt_state d) \<noteq> ''forced''" "0 < ps_Level (dt_state d)"
    and "d' = am_evaluate cfg sg peer now d" "ps_Level (dt_state d') < ps_Level (dt_state d)"
  shows "ps_Level (dt_state d') = ps_Level (dt_state d) - 1 \<and>
         (am_above_peer cfg sg peer now d (ps_Level (dt_state d)) = 0 \<or>
          am_MinDwell cfg \<le> now - am_above_peer cfg sg peer now d (ps_Level (dt_state d))) \<and>
         dt_localLvl d' \<le> ps_Level (dt_state d') \<and> clamp_peer peer \<le> ps_Level (dt_state d')"
proof -
  note ev = evaluate_auto [OF assms(1,2,5)]
  have "am_target cfg sg peer now d < ps_Level (dt_state d)" using assms(6) ev(1) by simp
  from target_drop [OF this assms(3,4)] show ?thesis using ev(1,2) target_ge [of cfg sg now d peer] by auto
qed

definition decaying_detector :: detector where
  "decaying_detector = (am_New 0 example_config ''a'')\<lparr>dt_state := attack_posture, dt_lastAbove := (\<lambda>_. 5)\<rparr>"

lemma posture_decays_one_step_after_dwell_witness:
  "ps_Level (dt_state (am_evaluate example_config zero_signals Normal (10 ^ 12) decaying_detector)) = Elevated"
proof -
  let ?d = "decaying_detector"
  have u: "unpinned (10 ^ 12) ?d" "am_Enabled example_config"
    by (simp_all add: unpinned_def decaying_detector_def am_New_def am_applyConfig_def example_config_def)
  have "am_target example_config zero_signals Normal (10 ^ 12) ?d < 2"
    by (simp add: am_target_def am_local_def am_above_def am_above_peer_def clamp_peer_def decayFrom_def Let_def level_defs
        decaying_detector_def am_New_def am_applyConfig_def example_config_def zero_signals_def attack_posture_def
        elevatedSignal_def attackSignal_def elevatedHalf_def attackHalf_def)
  then have "ps_Level (dt_state (am_evaluate example_config zero_signals Normal (10 ^ 12) ?d)) < ps_Level (dt_state ?d)"
    using evaluate_auto(1) [OF u refl] by (simp add: decaying_detector_def attack_posture_def level_defs)
  then show ?thesis
    using posture_decays_one_step_after_dwell [OF u _ _ refl, of zero_signals Normal]
    by (simp add: decaying_detector_def attack_posture_def level_defs)
qed

section \<open>Two replicas that both saw an attack\<close>

text \<open>
  One round of a fleet of two replicas that share postures, with no traffic at all: each replica
  evaluates with the other's vote, which is the other's local level.
\<close>

definition fleet_round :: "am_config \<Rightarrow> nanos \<Rightarrow> detector \<times> detector \<Rightarrow> detector \<times> detector" where
  "fleet_round cfg now ab =
     (let a = am_evaluate cfg zero_signals (dt_localLvl (snd ab)) now (fst ab)
      in (a, am_evaluate cfg zero_signals (dt_localLvl a) now (snd ab)))"

fun fleet_run :: "am_config \<Rightarrow> nat \<Rightarrow> nanos \<Rightarrow> detector \<times> detector \<Rightarrow> detector \<times> detector" where
  "fleet_run cfg 0 now ab = ab"
| "fleet_run cfg (Suc n) now ab = fleet_run cfg n (now + bucketWidth) (fleet_round cfg now ab)"

definition attacking :: "nanos \<Rightarrow> detector \<Rightarrow> bool" where
  "attacking t d \<longleftrightarrow> dt_localLvl d = Attack \<and> ps_Level (dt_state d) = Attack \<and> dt_lastAbove d Attack = t \<and> \<not> dt_pinned d"

lemma quiet_signals:
  assumes "0 \<le> am_MinSolveRatio cfg"
  shows "\<not> fst (attackSignal cfg zero_signals)" "\<not> attackHalf cfg zero_signals"
  by (auto simp: attackSignal_def attackHalf_def zero_signals_def split: if_splits)

lemma attacking_held:
  assumes "am_Enabled cfg" "attacking t d" "0 < t" "t < now" "now - t < am_MinDwell cfg" "0 \<le> am_MinSolveRatio cfg"
  shows "attacking now (am_evaluate cfg zero_signals Attack now d)"
proof -
  have d: "dt_localLvl d = Attack" "ps_Level (dt_state d) = Attack" "dt_lastAbove d Attack = t" "\<not> dt_pinned d"
    using assms(2) by (simp_all add: attacking_def)
  have u: "unpinned now d" using d(4) by (simp add: unpinned_def)
  note ev = evaluate_auto [OF u assms(1) refl, of zero_signals Attack]
  note q = quiet_signals [OF assms(6)]
  have "am_above cfg zero_signals now (dt_lastAbove d) Attack = t" using q d(3) by (simp add: above_attack)
  then have loc: "am_local cfg zero_signals now d = Attack"
    using q d(1) assms(3,5) by (simp add: am_local_def decayFrom_def level_defs)
  have cl: "clamp_peer Attack = Attack" by (simp add: clamp_peer_def level_defs)
  have tg: "am_target cfg zero_signals Attack now d = Attack"
    using loc cl d(2) by (simp add: am_target_def Let_def)
  have "am_last cfg zero_signals Attack now d Attack = now"
    using loc cl d(2) tg by (simp add: am_last_def am_above_peer_def Let_def level_defs)
  then show ?thesis using ev loc tg by (simp add: attacking_def)
qed

text \<open>
  Two replicas that are both in attack keep each other there for ever: a peer's vote
  refreshes the same dwell timestamp the replica's own decay reads, so with sharing on, an interval
  of quiet of any length leaves both replicas at attack, each voting attack.
\<close>

theorem shared_votes_never_decay:
  assumes "am_Enabled cfg" "0 \<le> am_MinSolveRatio cfg" "bucketWidth < am_MinDwell cfg" "0 < t"
    and "attacking t a" "attacking t b"
  shows "\<exists>t'. attacking t' (fst (fleet_run cfg n (t + bucketWidth) (a, b))) \<and>
              attacking t' (snd (fleet_run cfg n (t + bucketWidth) (a, b)))"
  using assms(4-6)
proof (induction n arbitrary: t a b)
  case 0
  then show ?case by auto
next
  case (Suc n)
  let ?now = "t + bucketWidth"
  have lt: "t < ?now" "?now - t < am_MinDwell cfg" using assms(3) by (simp_all add: bucketWidth_def)
  have a: "attacking ?now (am_evaluate cfg zero_signals Attack ?now a)"
    using attacking_held [OF assms(1) Suc.prems(2,1) lt assms(2)] .
  have b: "attacking ?now (am_evaluate cfg zero_signals Attack ?now b)"
    using attacking_held [OF assms(1) Suc.prems(3,1) lt assms(2)] .
  have r: "fleet_round cfg ?now (a, b) =
      (am_evaluate cfg zero_signals Attack ?now a, am_evaluate cfg zero_signals Attack ?now b)"
    using Suc.prems(3) a by (simp add: fleet_round_def attacking_def Let_def)
  show ?case using Suc.IH [OF _ a b] Suc.prems(1) lt(1) r by simp
qed

definition attack_detector :: detector where
  "attack_detector = (am_New 0 example_config ''a'')\<lparr>dt_state := attack_posture, dt_localLvl := Attack, dt_lastAbove := (\<lambda>_. 5)\<rparr>"

lemma shared_votes_never_decay_witness:
  "ps_Level (dt_state (fst (fleet_run example_config 1000000 (5 + bucketWidth) (attack_detector, attack_detector)))) = Attack"
proof -
  have "attacking 5 attack_detector"
    by (simp add: attacking_def attack_detector_def attack_posture_def am_New_def am_applyConfig_def)
  then show ?thesis
    using shared_votes_never_decay [of example_config 5 attack_detector attack_detector 1000000]
    by (auto simp: example_config_def bucketWidth_def attacking_def)
qed

end
