(* ===== verification/Counter_Cache.thy ===== *)
theory Counter_Cache
  imports Sharded_Memory "HOL-Library.Multiset"
begin

text \<open>
  The write-behind counter cache (\<^verbatim>\<open>core/store/countercache.go\<close>). Every critical section of
  \<^verbatim>\<open>c.mu\<close> is one function on the state \<open>counter_cache\<close>; a drain goroutine is a program point
  (\<open>drainer\<close>) between two of them. The step relation \<open>cc_step\<close> interleaves the critical sections of
  any number of request goroutines and drainers with the store rounds, which run outside the lock
  and may fail, and with what other replicas do to the store. A goroutine that is spawned after the
  unlock is added at its first program point, where it may idle arbitrarily long.

  The seeded hash of an overflow row is the parameter \<open>h\<close>. One clock reading serves a critical
  section; \<open>now + ttl\<close> stays within 64 bits. A count and what is still to be pushed of it (\<open>ce_n\<close>,
  \<open>ce_pending\<close>, \<open>de_delta\<close>) are unbounded integers where the code has \<^verbatim>\<open>int64\<close>: they number the
  increments of one key in one window.
\<close>

section \<open>State\<close>

record counter_entry =
  ce_n :: int
  ce_expires :: nanos
  ce_pending :: int

record overflow_counter_cell =
  oc_n :: int
  oc_expires :: nanos

record dirty_entry =
  de_delta :: int
  de_deadline :: nanos
  de_del :: bool

record counter_cache =
  cc_m :: "(string, counter_entry) gomap"
  cc_dirty :: "(string, dirty_entry) gomap"
  cc_queue :: "string list"
  cc_workers :: nat
  cc_nextRoomSweep :: nanos
  cc_overflow :: "overflow_counter_cell list list"

definition maxCounterEntries :: nat where "maxCounterEntries = 2 ^ 17"
definition overflowCounterDepth :: nat where "overflowCounterDepth = 4"
definition overflowCounterWidth :: nat where "overflowCounterWidth = 2 ^ 14"
definition maxFlushWorkers :: nat where "maxFlushWorkers = 8"
definition maxFlushQueue :: nat where "maxFlushQueue = 2 ^ 14"
definition minCounterWindow :: nanos where "minCounterWindow = 10 ^ 9"

type_synonym row_hash = "nat \<Rightarrow> string \<Rightarrow> 64 word"

definition NewCounterCache :: counter_cache where
  "NewCounterCache = \<lparr>cc_m = [], cc_dirty = [], cc_queue = [], cc_workers = 0, cc_nextRoomSweep = 0,
     cc_overflow = replicate overflowCounterDepth (replicate overflowCounterWidth \<lparr>oc_n = 0, oc_expires = 0\<rparr>)\<rparr>"

section \<open>The overflow sketch\<close>

definition cell_index :: "row_hash \<Rightarrow> nat \<Rightarrow> string \<Rightarrow> nat" where
  "cell_index h i key = unat (and (h i key) (word_of_nat (overflowCounterWidth - 1)))"

definition cell_lapsed :: "nanos \<Rightarrow> overflow_counter_cell \<Rightarrow> bool" where
  "cell_lapsed now cell \<longleftrightarrow> oc_n cell = 0 \<or> (oc_expires cell > 0 \<and> now \<ge> oc_expires cell)"

definition cell_bump :: "nanos \<Rightarrow> nanos \<Rightarrow> overflow_counter_cell \<Rightarrow> overflow_counter_cell" where
  "cell_bump now ttl cell =
     (let c0 = (if cell_lapsed now cell then \<lparr>oc_n = 0, oc_expires = 0\<rparr> else cell);
          c1 = (if ttl > 0 then c0\<lparr>oc_expires := max (oc_expires c0) (now + ttl)\<rparr> else c0)
      in if oc_n c1 < maxInt64 then c1\<lparr>oc_n := oc_n c1 + 1\<rparr> else c1)"

fun sketch_incr :: "row_hash \<Rightarrow> string \<Rightarrow> nanos \<Rightarrow> nanos \<Rightarrow> nat \<Rightarrow> overflow_counter_cell list list \<Rightarrow> int \<Rightarrow>
    int \<times> overflow_counter_cell list list" where
  "sketch_incr h key now ttl i [] minimum = (minimum, [])"
| "sketch_incr h key now ttl i (row # rows) minimum =
     (let idx = cell_index h i key; cell = cell_bump now ttl (row ! idx);
          (m, rows') = sketch_incr h key now ttl (Suc i) rows (min minimum (oc_n cell))
      in (m, row[idx := cell] # rows'))"

definition incrOverflowLocked :: "row_hash \<Rightarrow> string \<Rightarrow> nanos \<Rightarrow> nanos \<Rightarrow> counter_cache \<Rightarrow> int \<times> counter_cache" where
  "incrOverflowLocked h key now ttl c =
     (let (m, rows) = sketch_incr h key now ttl 0 (cc_overflow c) maxInt64 in (m, c\<lparr>cc_overflow := rows\<rparr>))"

fun sketch_count :: "row_hash \<Rightarrow> string \<Rightarrow> nanos \<Rightarrow> nat \<Rightarrow> overflow_counter_cell list list \<Rightarrow> int \<Rightarrow> int" where
  "sketch_count h key now i [] minimum = minimum"
| "sketch_count h key now i (row # rows) minimum =
     (let cell = row ! cell_index h i key
      in if cell_lapsed now cell then 0 else sketch_count h key now (Suc i) rows (min minimum (oc_n cell)))"

definition overflowCountLocked :: "row_hash \<Rightarrow> string \<Rightarrow> nanos \<Rightarrow> counter_cache \<Rightarrow> int" where
  "overflowCountLocked h key now c = sketch_count h key now 0 (cc_overflow c) maxInt64"

section \<open>Critical sections of the request path\<close>

definition makeCounterRoomLocked :: "nanos \<Rightarrow> counter_cache \<Rightarrow> bool \<times> counter_cache" where
  "makeCounterRoomLocked now c =
     (if length (cc_m c) < maxCounterEntries then (True, c)
      else if now < cc_nextRoomSweep c then (False, c)
      else let m = filter (\<lambda>kv. \<not> ((ce_pending (snd kv) = 0 \<or> now \<ge> ce_expires (snd kv)) \<and>
                                   map_of (cc_dirty c) (fst kv) = None)) (cc_m c)
           in (length m < maxCounterEntries, c\<lparr>cc_nextRoomSweep := now + 10 ^ 9, cc_m := m\<rparr>))"

definition foldOpLocked :: "dirty_entry \<Rightarrow> nanos \<Rightarrow> bool \<Rightarrow> dirty_entry" where
  "foldOpLocked d deadline del =
     (if del then d\<lparr>de_del := True, de_delta := 0\<rparr>
      else if de_deadline d \<noteq> deadline then d\<lparr>de_delta := 1, de_deadline := deadline\<rparr>
      else d\<lparr>de_delta := de_delta d + 1\<rparr>)"

definition queue_key :: "string \<Rightarrow> counter_cache \<Rightarrow> bool \<times> counter_cache" where
  "queue_key key c =
     (let c1 = c\<lparr>cc_queue := cc_queue c @ [key]\<rparr>
      in if cc_workers c1 < maxFlushWorkers then (True, c1\<lparr>cc_workers := Suc (cc_workers c1)\<rparr>) else (False, c1))"

definition zero_entry :: counter_entry where
  "zero_entry = \<lparr>ce_n = 0, ce_expires = 0, ce_pending = 0\<rparr>"

definition entry_of :: "counter_cache \<Rightarrow> string \<Rightarrow> counter_entry" where
  "entry_of c key = (case map_of (cc_m c) key of None \<Rightarrow> zero_entry | Some e \<Rightarrow> e)"

definition markDirtyLocked :: "string \<Rightarrow> nanos \<Rightarrow> bool \<Rightarrow> counter_cache \<Rightarrow> bool \<times> counter_cache" where
  "markDirtyLocked key deadline del c =
     (case map_of (cc_dirty c) key of
        Some d \<Rightarrow> (False, c\<lparr>cc_dirty := mput key (foldOpLocked d deadline del) (cc_dirty c)\<rparr>)
      | None \<Rightarrow>
          if length (cc_queue c) \<ge> maxFlushQueue then (False, c)
          else let e = entry_of c key;
                   d = \<lparr>de_delta = (if del then 0 else ce_pending e), de_deadline = deadline, de_del = del\<rparr>;
                   c1 = (if del then c else c\<lparr>cc_m := mput key (e\<lparr>ce_pending := 0\<rparr>) (cc_m c)\<rparr>)
               in queue_key key (c1\<lparr>cc_dirty := mput key d (cc_dirty c1)\<rparr>))"

definition count_entry :: "string \<Rightarrow> counter_entry \<Rightarrow> counter_cache \<Rightarrow> int \<times> bool \<times> counter_cache" where
  "count_entry key e0 c =
     (let e1 = e0\<lparr>ce_n := wrap64 (ce_n e0 + 1)\<rparr>;
          e2 = (if map_of (cc_dirty c) key = None then e1\<lparr>ce_pending := ce_pending e1 + 1\<rparr> else e1);
          (spawn, c') = markDirtyLocked key (ce_expires e2) False (c\<lparr>cc_m := mput key e2 (cc_m c)\<rparr>)
      in (ce_n e2, spawn, c'))"

definition cc_Incr :: "row_hash \<Rightarrow> nanos \<Rightarrow> string \<Rightarrow> nanos \<Rightarrow> counter_cache \<Rightarrow> int \<times> bool \<times> counter_cache" where
  "cc_Incr h now key ttl0 c =
     (let ttl = (if ttl0 \<le> 0 then minCounterWindow else ttl0);
          fresh = \<lparr>ce_n = 0, ce_expires = now + ttl, ce_pending = 0\<rparr>
      in case map_of (cc_m c) key of
           Some e \<Rightarrow>
             if now \<ge> ce_expires e then count_entry key fresh (c\<lparr>cc_m := mdel key (cc_m c)\<rparr>)
             else count_entry key e c
         | None \<Rightarrow>
             (case makeCounterRoomLocked now c of
                (False, c1) \<Rightarrow> (let (n, c2) = incrOverflowLocked h key now ttl c1 in (n, False, c2))
              | (True, c1) \<Rightarrow> count_entry key fresh c1))"

definition cc_Forget :: "string \<Rightarrow> counter_cache \<Rightarrow> bool \<times> counter_cache" where
  "cc_Forget key c = markDirtyLocked key 0 True (c\<lparr>cc_m := mdel key (cc_m c)\<rparr>)"

text \<open>
  The synchronous variant forgets, deletes in the store and reports a failure of that delete or a
  count the sketch may still hold.
\<close>

datatype forget_error = ForgetStore store_error | ForgetIncomplete

definition ForgetSync ::
  "'s store_ops \<Rightarrow> row_hash \<Rightarrow> nanos \<Rightarrow> string \<Rightarrow> counter_cache \<times> 's \<Rightarrow> forget_error list \<times> bool \<times> counter_cache \<times> 's" where
  "ForgetSync ops h now key s =
     (let (spawn, c) = cc_Forget key (fst s);
          (r, st) = st_Delete ops now key (snd s);
          errs = (case r of Inl e \<Rightarrow> [ForgetStore e] | Inr _ \<Rightarrow> []);
          shed = overflowCountLocked h key now c > 0
      in (errs @ (if shed then [ForgetIncomplete] else []), spawn, c, st))"

section \<open>The shutdown flush\<close>

definition promote_key :: "nanos \<Rightarrow> string \<Rightarrow> counter_cache \<Rightarrow> counter_cache" where
  "promote_key now key c =
     (case map_of (cc_m c) key of
        None \<Rightarrow> c
      | Some e \<Rightarrow>
          if ce_pending e = 0 \<or> now \<ge> ce_expires e then c
          else if map_of (cc_dirty c) key \<noteq> None then c
          else c\<lparr>cc_dirty := mput key \<lparr>de_delta = ce_pending e, de_deadline = ce_expires e, de_del = False\<rparr> (cc_dirty c),
                 cc_m := mput key (e\<lparr>ce_pending := 0\<rparr>) (cc_m c), cc_queue := cc_queue c @ [key]\<rparr>)"

definition flush_spawns :: "counter_cache \<Rightarrow> nat" where
  "flush_spawns c = min maxFlushWorkers (length (cc_queue c)) - cc_workers c"

definition flush_promote :: "nanos \<Rightarrow> counter_cache \<Rightarrow> nat \<times> counter_cache" where
  "flush_promote now c =
     (let c1 = fold (promote_key now) (map fst (cc_m c)) c; n = flush_spawns c1
      in (n, c1\<lparr>cc_workers := cc_workers c1 + n\<rparr>))"

definition flush_left :: "nanos \<Rightarrow> counter_cache \<Rightarrow> nat" where
  "flush_left now c = length (filter (\<lambda>kv. ce_pending (snd kv) > 0 \<and> now < ce_expires (snd kv)) (cc_m c))"

definition flush_idle :: "counter_cache \<Rightarrow> bool" where
  "flush_idle c \<longleftrightarrow> cc_queue c = [] \<and> cc_workers c = 0"

section \<open>Critical sections of a drainer\<close>

datatype drainer =
    DLoop
  | DFlush string
  | DDelete string
  | DRelease string
  | DIncr string int nanos
  | DMerge string nanos int
  | DFailed string int nanos

definition drain_claim :: "counter_cache \<Rightarrow> drainer option \<times> counter_cache" where
  "drain_claim c =
     (case cc_queue c of
        [] \<Rightarrow> (None, c\<lparr>cc_workers := cc_workers c - 1\<rparr>)
      | key # q \<Rightarrow> (Some (DFlush key), c\<lparr>cc_queue := q\<rparr>))"

definition releaseLocked :: "string \<Rightarrow> counter_cache \<Rightarrow> bool \<times> counter_cache" where
  "releaseLocked key c =
     (case map_of (cc_dirty c) key of
        None \<Rightarrow> (False, c)
      | Some d \<Rightarrow>
          if de_delta d = 0 \<and> \<not> de_del d then (False, c\<lparr>cc_dirty := mdel key (cc_dirty c)\<rparr>)
          else queue_key key c)"

definition flushKey :: "nanos \<Rightarrow> string \<Rightarrow> counter_cache \<Rightarrow> drainer \<times> bool \<times> counter_cache" where
  "flushKey now key c =
     (case map_of (cc_dirty c) key of
        None \<Rightarrow> (DLoop, False, c)
      | Some d \<Rightarrow>
          if de_del d then (DDelete key, False, c\<lparr>cc_dirty := mput key (d\<lparr>de_del := False\<rparr>) (cc_dirty c)\<rparr>)
          else if de_delta d = 0 then (let (spawn, c') = releaseLocked key c in (DLoop, spawn, c'))
          else if de_deadline d \<noteq> 0 \<and> now \<ge> de_deadline d
          then (DFlush key, False, c\<lparr>cc_dirty := mput key (d\<lparr>de_delta := 0\<rparr>) (cc_dirty c)\<rparr>)
          else (DIncr key (de_delta d) (de_deadline d), False,
                c\<lparr>cc_dirty := mput key (d\<lparr>de_delta := 0\<rparr>) (cc_dirty c)\<rparr>))"

definition flushIncr_merge :: "nanos \<Rightarrow> string \<Rightarrow> nanos \<Rightarrow> int \<Rightarrow> counter_cache \<Rightarrow> counter_cache" where
  "flushIncr_merge now key deadline shared c =
     (case map_of (cc_m c) key of
        None \<Rightarrow> c
      | Some e \<Rightarrow> if ce_expires e = deadline \<and> now < ce_expires e \<and> shared > ce_n e
                  then c\<lparr>cc_m := mput key (e\<lparr>ce_n := shared\<rparr>) (cc_m c)\<rparr> else c)"

definition preserveFailedIncr :: "string \<Rightarrow> int \<Rightarrow> nanos \<Rightarrow> counter_cache \<Rightarrow> bool \<times> counter_cache" where
  "preserveFailedIncr key claimed deadline c =
     (case map_of (cc_dirty c) key of
        None \<Rightarrow> (False, c)
      | Some d \<Rightarrow>
          if de_del d then releaseLocked key c
          else let m = (case map_of (cc_m c) key of
                          None \<Rightarrow> cc_m c
                        | Some e \<Rightarrow>
                            (let e1 = (if ce_expires e = deadline then e\<lparr>ce_pending := ce_pending e + claimed\<rparr> else e);
                                 e2 = (if de_delta d > 0 \<and> ce_expires e1 = de_deadline d
                                       then e1\<lparr>ce_pending := ce_pending e1 + de_delta d\<rparr> else e1)
                             in mput key e2 (cc_m c)))
               in (False, c\<lparr>cc_m := m, cc_dirty := mdel key (cc_dirty c)\<rparr>))"

definition flushIncr_round ::
  "'s store_ops \<Rightarrow> nanos \<Rightarrow> string \<Rightarrow> int \<Rightarrow> nanos \<Rightarrow> 's \<Rightarrow> drainer \<times> 's" where
  "flushIncr_round ops now key delta deadline st =
     (case st_IncrByDeadline ops now key delta deadline st of
        (Inl _, st') \<Rightarrow> (DFailed key delta deadline, st')
      | (Inr (shared, applied), st') \<Rightarrow> (if applied then DMerge key deadline shared else DFlush key, st'))"

definition flushDelete_round :: "'s store_ops \<Rightarrow> nanos \<Rightarrow> string \<Rightarrow> 's \<Rightarrow> drainer \<times> 's" where
  "flushDelete_round ops now key st =
     (case st_Delete ops now key st of
        (Inl _, st') \<Rightarrow> (DRelease key, st') | (Inr _, st') \<Rightarrow> (DFlush key, st'))"

section \<open>Interleavings\<close>

datatype cc_label =
    LIncr string "nanos option"
  | LForget string
  | LPush string int nanos
  | LInternal

type_synonym 's cc_sys = "counter_cache \<times> drainer multiset \<times> 's \<times> nanos"

definition spawned :: "bool \<Rightarrow> drainer multiset" where
  "spawned b = (if b then {#DLoop#} else {#})"

inductive cc_step ::
  "'s store_ops \<Rightarrow> ('s \<Rightarrow> bool) \<Rightarrow> row_hash \<Rightarrow> 's cc_sys \<Rightarrow> cc_label \<Rightarrow> 's cc_sys \<Rightarrow> bool"
  for ops :: "'s store_ops" and ok :: "'s \<Rightarrow> bool" and h :: row_hash where
  step_incr: "t \<le> now \<Longrightarrow> cc_Incr h now key ttl c = (n, b, c') \<Longrightarrow>
     cc_step ops ok h (c, D, st, t) (LIncr key (map_option ce_expires (map_of (cc_m c') key))) (c', D + spawned b, st, now)"
| step_forget: "t \<le> now \<Longrightarrow> cc_Forget key c = (b, c') \<Longrightarrow>
     cc_step ops ok h (c, D, st, t) (LForget key) (c', D + spawned b, st, now)"
| step_promote: "t \<le> now \<Longrightarrow> flush_promote now c = (n, c') \<Longrightarrow>
     cc_step ops ok h (c, D, st, t) LInternal (c', D + replicate_mset n DLoop, st, now)"
| step_claim: "t \<le> now \<Longrightarrow> drain_claim c = (Some d, c') \<Longrightarrow>
     cc_step ops ok h (c, add_mset DLoop D, st, t) LInternal (c', add_mset d D, st, now)"
| step_exit: "t \<le> now \<Longrightarrow> drain_claim c = (None, c') \<Longrightarrow>
     cc_step ops ok h (c, add_mset DLoop D, st, t) LInternal (c', D, st, now)"
| step_flush: "t \<le> now \<Longrightarrow> flushKey now key c = (d, b, c') \<Longrightarrow>
     cc_step ops ok h (c, add_mset (DFlush key) D, st, t) LInternal (c', add_mset d D + spawned b, st, now)"
| step_delete: "t \<le> now \<Longrightarrow> flushDelete_round ops now key st = (d, st') \<Longrightarrow>
     cc_step ops ok h (c, add_mset (DDelete key) D, st, t) LInternal (c, add_mset d D, st', now)"
| step_release: "t \<le> now \<Longrightarrow> releaseLocked key c = (b, c') \<Longrightarrow>
     cc_step ops ok h (c, add_mset (DRelease key) D, st, t) LInternal (c', add_mset DLoop D + spawned b, st, now)"
| step_push: "t \<le> now \<Longrightarrow> flushIncr_round ops now key delta w st = (d, st') \<Longrightarrow>
     cc_step ops ok h (c, add_mset (DIncr key delta w) D, st, t)
       (case d of DMerge _ _ _ \<Rightarrow> LPush key delta w | _ \<Rightarrow> LInternal) (c, add_mset d D, st', now)"
| step_merge: "t \<le> now \<Longrightarrow> flushIncr_merge now key w shared c = c' \<Longrightarrow>
     cc_step ops ok h (c, add_mset (DMerge key w shared) D, st, t) LInternal (c', add_mset (DFlush key) D, st, now)"
| step_failed: "t \<le> now \<Longrightarrow> preserveFailedIncr key claimed w c = (b, c') \<Longrightarrow>
     cc_step ops ok h (c, add_mset (DFailed key claimed w) D, st, t) LInternal (c', add_mset DLoop D + spawned b, st, now)"
| step_store: "t \<le> now \<Longrightarrow> ok st' \<Longrightarrow> cc_step ops ok h (c, D, st, t) LInternal (c, D, st', now)"

inductive cc_run ::
  "'s store_ops \<Rightarrow> ('s \<Rightarrow> bool) \<Rightarrow> row_hash \<Rightarrow> 's cc_sys \<Rightarrow> cc_label list \<Rightarrow> 's cc_sys \<Rightarrow> bool"
  for ops :: "'s store_ops" and ok :: "'s \<Rightarrow> bool" and h :: row_hash where
  run_start: "ok st \<Longrightarrow> cc_run ops ok h (NewCounterCache, {#}, st, t) [] (NewCounterCache, {#}, st, t)"
| run_step: "cc_run ops ok h s0 ls s \<Longrightarrow> cc_step ops ok h s l s' \<Longrightarrow> cc_run ops ok h s0 (ls @ [l]) s'"

section \<open>Ownership\<close>

fun owner :: "drainer \<Rightarrow> string option" where
  "owner DLoop = None"
| "owner (DFlush k) = Some k"
| "owner (DDelete k) = Some k"
| "owner (DRelease k) = Some k"
| "owner (DIncr k _ _) = Some k"
| "owner (DMerge k _ _) = Some k"
| "owner (DFailed k _ _) = Some k"

definition holders :: "string list \<Rightarrow> drainer multiset \<Rightarrow> string \<Rightarrow> nat" where
  "holders q D k = count (mset q) k + size (filter_mset (\<lambda>d. owner d = Some k) D)"

definition own_ok :: "counter_cache \<Rightarrow> drainer multiset \<Rightarrow> bool" where
  "own_ok c D \<longleftrightarrow> map_wf (cc_m c) \<and> map_wf (cc_dirty c) \<and> cc_workers c = size D \<and> cc_workers c \<le> maxFlushWorkers \<and>
     (\<forall>k. holders (cc_queue c) D k = (if map_of (cc_dirty c) k = None then 0 else 1))"

lemma holders_simps [simp]:
  "holders (q @ [k]) D j = holders q D j + (if j = k then 1 else 0)"
  "holders (k # q) D j = holders q D j + (if j = k then 1 else 0)"
  "holders q (add_mset d D) j = holders q D j + (if owner d = Some j then 1 else 0)"
  "holders q (D + spawned b) j = holders q D j"
  "holders q (D + replicate_mset n DLoop) j = holders q D j"
  by (auto simp: holders_def spawned_def)

lemma size_spawned [simp]: "size (spawned b) = (if b then 1 else 0)"
  by (simp add: spawned_def)

lemma own_ok_frame:
  "own_ok c D \<Longrightarrow> map_wf m \<Longrightarrow> own_ok (c\<lparr>cc_m := m\<rparr>) D"
  "own_ok c D \<Longrightarrow> own_ok (c\<lparr>cc_nextRoomSweep := s\<rparr>) D"
  "own_ok c D \<Longrightarrow> own_ok (c\<lparr>cc_overflow := rows\<rparr>) D"
  by (simp_all add: own_ok_def)

lemma own_ok_wf: "own_ok c D \<Longrightarrow> map_wf (cc_m c)"
  by (simp add: own_ok_def)

lemma queue_key_own:
  assumes "queue_key key c = (b, c')"
    and "map_wf (cc_m c)" "map_wf (cc_dirty c)" "cc_workers c = size D" "cc_workers c \<le> maxFlushWorkers"
    and "\<And>k. holders (cc_queue c) D k + (if k = key then 1 else 0) = (if map_of (cc_dirty c) k = None then 0 else 1)"
  shows "own_ok c' (D + spawned b)"
  using assms by (auto simp: queue_key_def own_ok_def Let_def spawned_def [of False] split: if_splits)

lemma holders_free: "own_ok c D \<Longrightarrow> map_of (cc_dirty c) k = None \<Longrightarrow> holders (cc_queue c) D k = 0"
  by (simp add: own_ok_def)

lemma dirty_update_own:
  assumes "own_ok c D" "map_of (cc_dirty c) key = Some d"
  shows "own_ok (c\<lparr>cc_dirty := mput key d' (cc_dirty c)\<rparr>) D"
  using assms by (auto simp: own_ok_def gomap_simps)

lemma markDirty_own:
  assumes o: "own_ok c D" and m: "markDirtyLocked key deadline del c = (b, c')"
  shows "own_ok c' (D + spawned b)"
proof (cases "map_of (cc_dirty c) key")
  case (Some d)
  then show ?thesis using m dirty_update_own [OF o Some]
    by (auto simp: markDirtyLocked_def spawned_def)
next
  case None
  show ?thesis
  proof (cases "length (cc_queue c) \<ge> maxFlushQueue")
    case True
    then show ?thesis using m o None by (auto simp: markDirtyLocked_def spawned_def)
  next
    case False
    define d where "d = \<lparr>de_delta = (if del then 0 else ce_pending (entry_of c key)), de_deadline = deadline, de_del = del\<rparr>"
    define m1 where "m1 = (if del then cc_m c else mput key ((entry_of c key)\<lparr>ce_pending := 0\<rparr>) (cc_m c))"
    have q: "queue_key key (c\<lparr>cc_m := m1, cc_dirty := mput key d (cc_dirty c)\<rparr>) = (b, c')"
      using m None False by (cases del) (simp_all add: markDirtyLocked_def Let_def d_def m1_def)
    have "map_wf m1" using own_ok_wf [OF o] by (simp add: m1_def)
    then show ?thesis
      using o holders_free [OF o None]
      by (intro queue_key_own [OF q]) (simp_all add: own_ok_def gomap_simps)
  qed
qed

lemma makeCounterRoom_own:
  assumes "own_ok c D" "makeCounterRoomLocked now c = (r, c')"
  shows "own_ok c' D"
  using assms own_ok_frame(1) [OF own_ok_frame(2) [OF assms(1)]] own_ok_wf [OF assms(1)]
  by (auto simp: makeCounterRoomLocked_def Let_def simp del: filter.simps split: if_splits)

lemma count_entry_own:
  assumes o: "own_ok c D" and i: "count_entry key e c = (n, b, c')"
  shows "own_ok c' (D + spawned b)"
proof -
  obtain e' where "markDirtyLocked key (ce_expires e') False (c\<lparr>cc_m := mput key e' (cc_m c)\<rparr>) = (b, c')"
    using i by (auto simp: count_entry_def Let_def split: prod.splits)
  then show ?thesis
    using markDirty_own own_ok_frame(1) [OF o] own_ok_wf [OF o] by (metis map_wf_mput)
qed

lemma incr_own:
  assumes o: "own_ok c D" and i: "cc_Incr h now key ttl c = (n, b, c')"
  shows "own_ok c' (D + spawned b)"
proof (cases "map_of (cc_m c) key")
  case (Some e)
  have o1: "own_ok (c\<lparr>cc_m := mdel key (cc_m c)\<rparr>) D"
    using own_ok_frame(1) [OF o] own_ok_wf [OF o] by simp
  show ?thesis
    using Some i by (auto simp: cc_Incr_def Let_def split: if_splits intro: count_entry_own [OF o1] count_entry_own [OF o])
next
  case None
  obtain r c1 where r: "makeCounterRoomLocked now c = (r, c1)" by fastforce
  have o1: "own_ok c1 D" using makeCounterRoom_own [OF o r] .
  show ?thesis
  proof (cases r)
    case True
    then obtain e1 where "count_entry key e1 c1 = (n, b, c')"
      using i None r by (auto simp: cc_Incr_def Let_def)
    then show ?thesis using o1 by (intro count_entry_own)
  next
    case False
    then show ?thesis
      using i None r o1 own_ok_frame(3) [OF o1]
      by (auto simp: cc_Incr_def Let_def incrOverflowLocked_def spawned_def split: prod.splits)
  qed
qed

lemma forget_own:
  assumes "own_ok c D" "cc_Forget key c = (b, c')"
  shows "own_ok c' (D + spawned b)"
  using markDirty_own [OF own_ok_frame(1) [OF assms(1) map_wf_mdel [OF own_ok_wf [OF assms(1)]]]] assms(2)
  by (auto simp: cc_Forget_def)

lemma promote_key_own: "own_ok c D \<Longrightarrow> own_ok (promote_key now key c) D"
  by (auto simp: promote_key_def own_ok_def gomap_simps split: option.splits)

lemma promote_fold_own: "own_ok c D \<Longrightarrow> own_ok (fold (promote_key now) ks c) D"
  by (induction ks arbitrary: c) (simp_all add: promote_key_own)

lemma promote_own: "own_ok c D \<Longrightarrow> flush_promote now c = (n, c') \<Longrightarrow> own_ok c' (D + replicate_mset n DLoop)"
  using promote_fold_own [of c D now "map fst (cc_m c)"]
  by (auto simp: flush_promote_def flush_spawns_def Let_def own_ok_def)

lemma own_ok_holders:
  "own_ok c D \<Longrightarrow> holders (cc_queue c) D j = (if map_of (cc_dirty c) j = None then 0 else 1)"
  unfolding own_ok_def by blast

lemma owned_dirty:
  assumes "own_ok c (add_mset d D)" "owner d = Some key"
  shows "\<exists>de. map_of (cc_dirty c) key = Some de" "holders (cc_queue c) D key = 0"
    "j \<noteq> key \<Longrightarrow> holders (cc_queue c) D j = (if map_of (cc_dirty c) j = None then 0 else 1)"
  using own_ok_holders [OF assms(1), of key] own_ok_holders [OF assms(1), of j] assms(2)
  by (auto split: if_splits)

lemma own_ok_swap:
  assumes "own_ok c (add_mset d D)" "owner d' = owner d"
  shows "own_ok c (add_mset d' D)"
  using assms by (simp add: own_ok_def)

lemma release_own:
  assumes o: "own_ok c (add_mset d D)" and ow: "owner d = Some key" and r: "releaseLocked key c = (b, c')"
  shows "own_ok c' (add_mset DLoop D + spawned b)"
proof -
  note od = owned_dirty [OF o ow]
  obtain de where de: "map_of (cc_dirty c) key = Some de" using od(1) by blast
  show ?thesis
  proof (cases "de_delta de = 0 \<and> \<not> de_del de")
    case True
    then have "c' = c\<lparr>cc_dirty := mdel key (cc_dirty c)\<rparr>" "\<not> b"
      using r de by (auto simp: releaseLocked_def)
    moreover have "holders (cc_queue c) D k = (if map_of (mdel key (cc_dirty c)) k = None then 0 else 1)" for k
      using od(2,3) by (simp add: gomap_simps)
    ultimately show ?thesis using o by (simp add: own_ok_def spawned_def)
  next
    case False
    then have q: "queue_key key c = (b, c')" using r de by (auto simp: releaseLocked_def)
    have "holders (cc_queue c) (add_mset DLoop D) k + (if k = key then 1 else 0) =
        (if map_of (cc_dirty c) k = None then 0 else 1)" for k
      using od de by simp
    then show ?thesis
      using o by (intro queue_key_own [OF q]) (simp_all add: own_ok_def)
  qed
qed

lemma flushKey_own:
  assumes o: "own_ok c (add_mset (DFlush key) D)" and r: "flushKey now key c = (d, b, c')"
  shows "own_ok c' (add_mset d D + spawned b)"
proof -
  obtain de where de: "map_of (cc_dirty c) key = Some de" using owned_dirty(1) [OF o] by auto
  have upd: "own_ok (c\<lparr>cc_dirty := mput key x (cc_dirty c)\<rparr>) (add_mset d' D + spawned False)" if "owner d' = Some key" for x d'
    using dirty_update_own [OF o de] own_ok_swap that by (metis owner.simps(2) spawned_def add_0_right)
  consider "de_del de" | "\<not> de_del de" "de_delta de = 0" | "\<not> de_del de" "de_delta de \<noteq> 0" by blast
  then show ?thesis
  proof cases
    case 2
    then obtain c1 where "releaseLocked key c = (b, c')" "d = DLoop"
      using r de by (auto simp: flushKey_def split: prod.splits)
    then show ?thesis using release_own [OF o] by simp
  qed (use r de upd in \<open>auto simp: flushKey_def split: if_splits\<close>)
qed

lemma preserveFailed_own:
  assumes o: "own_ok c (add_mset (DFailed key cl w) D)" and r: "preserveFailedIncr key cl w c = (b, c')"
  shows "own_ok c' (add_mset DLoop D + spawned b)"
proof -
  note od = owned_dirty [OF o, simplified]
  obtain de where de: "map_of (cc_dirty c) key = Some de" using od(1) by blast
  show ?thesis
  proof (cases "de_del de")
    case True
    then show ?thesis using r de release_own [OF o] by (simp add: preserveFailedIncr_def)
  next
    case False
    then have "cc_dirty c' = mdel key (cc_dirty c)" "cc_queue c' = cc_queue c" "cc_workers c' = cc_workers c"
      "\<not> b" "map_wf (cc_m c')"
      using r de own_ok_wf [OF o] by (auto simp: preserveFailedIncr_def Let_def split: option.splits)
    moreover have "holders (cc_queue c) D k = (if map_of (mdel key (cc_dirty c)) k = None then 0 else 1)" for k
      using od(2,3) by (simp add: gomap_simps)
    ultimately show ?thesis using o by (simp add: own_ok_def spawned_def)
  qed
qed

lemma merge_own: "own_ok c D \<Longrightarrow> own_ok (flushIncr_merge now key w x c) D"
  by (auto simp: flushIncr_merge_def own_ok_frame own_ok_wf split: option.splits)

lemma claim_own:
  assumes o: "own_ok c (add_mset DLoop D)"
  shows "drain_claim c = (Some d, c') \<Longrightarrow> own_ok c' (add_mset d D)"
    and "drain_claim c = (None, c') \<Longrightarrow> own_ok c' D"
proof -
  assume r: "drain_claim c = (Some d, c')"
  then obtain k q where q: "cc_queue c = k # q" "d = DFlush k" "c' = c\<lparr>cc_queue := q\<rparr>"
    by (auto simp: drain_claim_def split: list.splits)
  have "holders (cc_queue c') (add_mset d D) j = holders (cc_queue c) (add_mset DLoop D) j" for j
    using q by auto
  then show "own_ok c' (add_mset d D)" using o q(3) by (simp add: own_ok_def del: holders_simps)
next
  assume "drain_claim c = (None, c')"
  then have "c' = c\<lparr>cc_workers := cc_workers c - 1\<rparr>"
    by (auto simp: drain_claim_def split: list.splits)
  then show "own_ok c' D" using o by (simp add: own_ok_def)
qed

lemma step_own_ok:
  assumes "cc_step ops ok h (c, D, st, t) l (c', D', st', t')" "own_ok c D"
  shows "own_ok c' D'"
  using assms
proof (cases rule: cc_step.cases)
  case (step_push key delta w d D0)
  then have "owner d = Some key"
    by (auto simp: flushIncr_round_def split: prod.splits sum.splits)
  then show ?thesis using step_push assms(2) own_ok_swap by auto
next
  case (step_delete key d D0)
  then have "owner d = Some key"
    by (auto simp: flushDelete_round_def split: prod.splits sum.splits)
  then show ?thesis using step_delete assms(2) own_ok_swap by auto
qed (auto intro: incr_own forget_own promote_own claim_own flushKey_own [simplified] preserveFailed_own [simplified]
    release_own [OF _ owner.simps(4), simplified] own_ok_swap [OF merge_own])

section \<open>What a key has not pushed yet\<close>

text \<open>
  The increments of a window live in one of three places: the parked \<open>pending\<close> amount, the dirty
  delta, or in flight with the drainer that claimed them.
\<close>

fun flight_of :: "string \<Rightarrow> drainer \<Rightarrow> (int \<times> nanos) multiset" where
  "flight_of k (DIncr k' n w) = (if k' = k then {#(n, w)#} else {#})"
| "flight_of k (DFailed k' n w) = (if k' = k then {#(n, w)#} else {#})"
| "flight_of k _ = {#}"

definition flights :: "string \<Rightarrow> drainer multiset \<Rightarrow> (int \<times> nanos) multiset" where
  "flights k D = (\<Sum>d\<in>#D. flight_of k d)"

definition entry_part :: "nanos \<Rightarrow> counter_entry option \<Rightarrow> int" where
  "entry_part w e = (case e of None \<Rightarrow> 0 | Some x \<Rightarrow> if ce_expires x = w then ce_pending x else 0)"

definition dirty_part :: "nanos \<Rightarrow> dirty_entry option \<Rightarrow> int" where
  "dirty_part w d = (case d of None \<Rightarrow> 0 | Some x \<Rightarrow> if de_deadline x = w then de_delta x else 0)"

definition flight_part :: "nanos \<Rightarrow> (int \<times> nanos) multiset \<Rightarrow> int" where
  "flight_part w F = (\<Sum>x\<in>#F. if snd x = w then fst x else 0)"

definition unpushed :: "string \<Rightarrow> nanos \<Rightarrow> counter_cache \<Rightarrow> drainer multiset \<Rightarrow> int" where
  "unpushed k w c D = entry_part w (map_of (cc_m c) k) + dirty_part w (map_of (cc_dirty c) k) +
     flight_part w (flights k D)"

definition forget_pending :: "string \<Rightarrow> counter_cache \<Rightarrow> bool" where
  "forget_pending k c \<longleftrightarrow> (case map_of (cc_dirty c) k of None \<Rightarrow> False | Some d \<Rightarrow> de_del d)"

definition key_ok :: "nanos \<Rightarrow> counter_entry option \<Rightarrow> dirty_entry option \<Rightarrow> (int \<times> nanos) multiset \<Rightarrow> bool" where
  "key_ok t e d F \<longleftrightarrow>
     (\<forall>x. e = Some x \<longrightarrow> 0 \<le> ce_pending x) \<and>
     (\<forall>y. d = Some y \<longrightarrow> 0 \<le> de_delta y \<and> (\<forall>x. e = Some x \<longrightarrow> ce_pending x = 0) \<and>
        (de_delta y \<noteq> 0 \<longrightarrow> (\<exists>x. e = Some x \<and> ce_expires x = de_deadline y))) \<and>
     (\<forall>n v. (n, v) \<in># F \<longrightarrow> 0 \<le> n \<and> (\<exists>y. d = Some y \<and>
        (de_del y \<or> (\<exists>x. e = Some x \<and> ce_expires x = v) \<or> v \<le> t)))"

definition data_ok :: "nanos \<Rightarrow> counter_cache \<Rightarrow> drainer multiset \<Rightarrow> bool" where
  "data_ok t c D \<longleftrightarrow> (\<forall>k. key_ok t (map_of (cc_m c) k) (map_of (cc_dirty c) k) (flights k D))"

lemma flights_simps [simp]:
  "flights k {#} = {#}"
  "flights k (add_mset d D) = flight_of k d + flights k D"
  "flights k (D + spawned b) = flights k D"
  "flights k (D + replicate_mset n DLoop) = flights k D"
  by (simp_all add: flights_def spawned_def)

lemma flight_part_simps [simp]:
  "flight_part w {#} = 0"
  "flight_part w (add_mset z F) = (if snd z = w then fst z else 0) + flight_part w F"
  "flight_part w (F + G) = flight_part w F + flight_part w G"
  by (simp_all add: flight_part_def)

lemma flight_owner: "flight_of k d \<noteq> {#} \<Longrightarrow> owner d = Some k"
  by (cases d) (auto split: if_splits)

lemma flights_empty:
  "holders q D k = 0 \<Longrightarrow> flights k D = {#}"
proof (induction D)
  case (add d D)
  then have "owner d \<noteq> Some k" by (auto split: if_splits)
  then have "flight_of k d = {#}" using flight_owner by blast
  then show ?case using add by (simp split: if_splits)
qed simp

lemma key_ok_mono: "key_ok t e d F \<Longrightarrow> t \<le> t' \<Longrightarrow> key_ok t' e d F"
  by (fastforce simp: key_ok_def)

lemma owned_alone:
  assumes "own_ok c (add_mset d D)" "owner d = Some k"
  shows "flights k D = {#}"
  using owned_dirty(2) [OF assms] by (rule flights_empty)

lemma free_no_flights: "own_ok c D \<Longrightarrow> map_of (cc_dirty c) k = None \<Longrightarrow> flights k D = {#}"
  by (rule flights_empty) (rule holders_free)

section \<open>Effect of each critical section on one key\<close>

lemma queue_key_frame:
  "queue_key key c = (b, c') \<Longrightarrow> cc_m c' = cc_m c \<and> cc_dirty c' = cc_dirty c"
  by (auto simp: queue_key_def Let_def split: if_splits)

lemma count_entry_other:
  assumes "count_entry key e c = (n, b, c')" "k \<noteq> key"
  shows "map_of (cc_m c') k = map_of (cc_m c) k" "map_of (cc_dirty c') k = map_of (cc_dirty c) k"
  using assms by (auto simp: count_entry_def markDirtyLocked_def Let_def gomap_simps dest!: queue_key_frame
      split: option.splits if_splits prod.splits)

lemma count_entry_dirty:
  assumes "count_entry key e c = (n, b, c')" "map_of (cc_dirty c) key = Some d"
  shows "\<exists>x. map_of (cc_m c') key = Some x \<and> ce_expires x = ce_expires e \<and> ce_pending x = ce_pending e"
    "map_of (cc_dirty c') key = Some (foldOpLocked d (ce_expires e) False)"
  using assms by (auto simp: count_entry_def markDirtyLocked_def Let_def gomap_simps)

lemma count_entry_clean:
  assumes "count_entry key e c = (n, b, c')" "map_of (cc_dirty c) key = None"
  shows "(\<exists>x. map_of (cc_m c') key = Some x \<and> ce_expires x = ce_expires e \<and> ce_pending x = ce_pending e + 1) \<and>
           map_of (cc_dirty c') key = None \<or>
         (\<exists>x. map_of (cc_m c') key = Some x \<and> ce_expires x = ce_expires e \<and> ce_pending x = 0) \<and>
           map_of (cc_dirty c') key = Some \<lparr>de_delta = ce_pending e + 1, de_deadline = ce_expires e, de_del = False\<rparr>"
  using assms by (auto simp: count_entry_def markDirtyLocked_def Let_def gomap_simps entry_of_def
      dest!: queue_key_frame split: option.splits if_splits prod.splits)

lemmas part_defs = entry_part_def dirty_part_def

lemma key_ok_flight:
  "key_ok t e (Some y) F \<Longrightarrow> (n, v) \<in># F \<Longrightarrow>
     0 \<le> n \<and> (de_del y \<or> (\<exists>x. e = Some x \<and> ce_expires x = v) \<or> v \<le> t)"
  unfolding key_ok_def by (metis option.inject)

lemma count_key_ok:
  assumes k: "key_ok t old d F" and t: "t \<le> now" and F: "d = None \<Longrightarrow> F = {#}"
    and old: "old = Some e \<and> now < ce_expires e \<or> (\<forall>x. old = Some x \<longrightarrow> ce_expires x \<le> now) \<and> ce_pending e = 0"
    and e': "e' = Some x'" "ce_expires x' = ce_expires e"
    and res: "(\<exists>y. d = Some y \<and> ce_pending x' = ce_pending e \<and> d' = Some (foldOpLocked y (ce_expires e) False)) \<or>
       d = None \<and> (ce_pending x' = ce_pending e + 1 \<and> d' = None \<or>
         ce_pending x' = 0 \<and> d' = Some \<lparr>de_delta = ce_pending e + 1, de_deadline = ce_expires e, de_del = False\<rparr>)"
  shows "key_ok now e' d' F"
    and "now < w \<Longrightarrow> entry_part w e' + dirty_part w d' = entry_part w old + dirty_part w d + (if ce_expires e = w then 1 else 0)"
proof -
  have p: "0 \<le> ce_pending e" using k old by (auto simp: key_ok_def)
  show "key_ok now e' d' F"
  proof (cases d)
    case None
    then show ?thesis using F e' res p by (auto simp: key_ok_def)
  next
    case (Some y)
    then have d': "d' = Some (foldOpLocked y (ce_expires e) False)" "ce_pending x' = ce_pending e" using res by auto
    have "ce_pending e = 0" using k old Some by (auto simp: key_ok_def)
    moreover have "0 \<le> n \<and> (de_del y \<or> ce_expires e = v \<or> v \<le> now)" if "(n, v) \<in># F" for n v
      using key_ok_flight [OF k [unfolded Some] that] old t by auto
    moreover have "0 \<le> de_delta y" using k Some by (auto simp: key_ok_def)
    ultimately show ?thesis
      using e' d' unfolding key_ok_def foldOpLocked_def by simp
  qed
  show "entry_part w e' + dirty_part w d' = entry_part w old + dirty_part w d + (if ce_expires e = w then 1 else 0)"
    if w: "now < w"
  proof (cases d)
    case None
    then show ?thesis using e' res old w by (auto simp: part_defs split: option.splits)
  next
    case (Some y)
    then have d': "d' = Some (foldOpLocked y (ce_expires e) False)" "ce_pending x' = ce_pending e" using res by auto
    have pe: "ce_pending e = 0" and po: "\<And>x. old = Some x \<Longrightarrow> ce_pending x = 0"
      using k old Some by (auto simp: key_ok_def)
    have "de_delta y = 0 \<or> (\<exists>x. old = Some x \<and> ce_expires x = de_deadline y)" using k Some by (auto simp: key_ok_def)
    then have "de_deadline y \<noteq> ce_expires e \<Longrightarrow> de_deadline y = w \<Longrightarrow> de_delta y = 0"
      "(\<forall>x. old = Some x \<longrightarrow> ce_expires x \<le> now) \<Longrightarrow> de_deadline y = w \<Longrightarrow> de_delta y = 0"
      using old w by auto
    then show ?thesis
      using Some d' pe po e' old w by (auto simp: part_defs foldOpLocked_def split: option.splits)
  qed
qed

lemma forget_key_ok:
  assumes "key_ok t e d F" "d = None \<Longrightarrow> F = {#}"
    and "(\<exists>y. d = Some y \<and> d' = Some (foldOpLocked y 0 True)) \<or>
      d = None \<and> (d' = None \<or> d' = Some \<lparr>de_delta = 0, de_deadline = 0, de_del = True\<rparr>)"
  shows "key_ok t None d' F"
  using assms by (auto simp: key_ok_def foldOpLocked_def)

lemma forget_effect:
  assumes "cc_Forget key c = (b, c')"
  shows "map_of (cc_m c') k = (if k = key then None else map_of (cc_m c) k)"
    and "k \<noteq> key \<Longrightarrow> map_of (cc_dirty c') k = map_of (cc_dirty c) k"
    and "(\<exists>y. map_of (cc_dirty c) key = Some y \<and> map_of (cc_dirty c') key = Some (foldOpLocked y 0 True)) \<or>
      map_of (cc_dirty c) key = None \<and> (map_of (cc_dirty c') key = None \<or>
        map_of (cc_dirty c') key = Some \<lparr>de_delta = 0, de_deadline = 0, de_del = True\<rparr>)"
  using assms by (auto simp: cc_Forget_def markDirtyLocked_def Let_def gomap_simps dest!: queue_key_frame
      split: option.splits if_splits)

lemma room_effect:
  assumes r: "makeCounterRoomLocked now c = (r, c')" and wf: "map_wf (cc_m c)"
  shows "cc_dirty c' = cc_dirty c"
    and "map_of (cc_m c') k = map_of (cc_m c) k \<or>
      map_of (cc_m c') k = None \<and> map_of (cc_dirty c) k = None \<and>
        (\<exists>x. map_of (cc_m c) k = Some x \<and> (ce_pending x = 0 \<or> ce_expires x \<le> now))"
proof -
  show "cc_dirty c' = cc_dirty c"
    using r by (auto simp: makeCounterRoomLocked_def Let_def split: if_splits)
  let ?P = "\<lambda>k e. \<not> ((ce_pending e = 0 \<or> now \<ge> ce_expires e) \<and> map_of (cc_dirty c) k = None)"
  have "cc_m c' = cc_m c \<or> cc_m c' = filter (\<lambda>kv. ?P (fst kv) (snd kv)) (cc_m c)"
    using r by (auto simp: makeCounterRoomLocked_def Let_def split: if_splits)
  then show "map_of (cc_m c') k = map_of (cc_m c) k \<or>
      map_of (cc_m c') k = None \<and> map_of (cc_dirty c) k = None \<and>
        (\<exists>x. map_of (cc_m c) k = Some x \<and> (ce_pending x = 0 \<or> ce_expires x \<le> now))"
    using map_of_filter_kv [OF wf, of ?P k] by (auto split: option.splits if_splits)
qed

lemma evict_key_ok:
  assumes "key_ok t e d F" "d = None \<Longrightarrow> F = {#}"
    and "e' = e \<or> e' = None \<and> d = None \<and> (\<exists>x. e = Some x \<and> (ce_pending x = 0 \<or> ce_expires x \<le> now))"
  shows "key_ok t e' d F" and "now < w \<Longrightarrow> entry_part w e' = entry_part w e"
  using assms by (auto simp: key_ok_def part_defs)

lemma promote_effect:
  assumes "map_of (cc_m c) key = Some e" "ce_pending e \<noteq> 0" "now < ce_expires e" "map_of (cc_dirty c) key = None"
  shows "map_of (cc_m (promote_key now key c)) k = (if k = key then Some (e\<lparr>ce_pending := 0\<rparr>) else map_of (cc_m c) k)"
    and "map_of (cc_dirty (promote_key now key c)) k =
      (if k = key then Some \<lparr>de_delta = ce_pending e, de_deadline = ce_expires e, de_del = False\<rparr>
       else map_of (cc_dirty c) k)"
  using assms by (auto simp: promote_key_def gomap_simps)

lemma promote_same:
  assumes "\<not> (\<exists>e. map_of (cc_m c) key = Some e \<and> ce_pending e \<noteq> 0 \<and> now < ce_expires e \<and> map_of (cc_dirty c) key = None)"
  shows "promote_key now key c = c"
  using assms by (auto simp: promote_key_def split: option.splits)

lemma promote_key_data:
  assumes o: "own_ok c D" and k: "data_ok t c D"
  shows "data_ok t (promote_key now key c) D"
    and "unpushed j w (promote_key now key c) D = unpushed j w c D"
proof -
  consider (act) e where "map_of (cc_m c) key = Some e" "ce_pending e \<noteq> 0" "now < ce_expires e"
      "map_of (cc_dirty c) key = None"
    | (idle) "promote_key now key c = c"
    using promote_same by blast
  then have "data_ok t (promote_key now key c) D \<and> unpushed j w (promote_key now key c) D = unpushed j w c D"
  proof cases
    case act
    have "flights key D = {#}" using free_no_flights [OF o act(4)] .
    moreover have "0 \<le> ce_pending e" using k act(1) by (auto simp: data_ok_def key_ok_def)
    ultimately have "key_ok t (map_of (cc_m (promote_key now key c)) i) (map_of (cc_dirty (promote_key now key c)) i) (flights i D)" for i
      using k act(1) unfolding data_ok_def promote_effect [OF act] by (auto simp: key_ok_def)
    moreover have "unpushed j w (promote_key now key c) D = unpushed j w c D"
      using act(1,4) by (simp add: unpushed_def promote_effect [OF act] part_defs)
    ultimately show ?thesis by (simp add: data_ok_def)
  qed (use k in simp)
  then show "data_ok t (promote_key now key c) D"
    and "unpushed j w (promote_key now key c) D = unpushed j w c D" by auto
qed

lemma promote_fold_data:
  "own_ok c D \<Longrightarrow> data_ok t c D \<Longrightarrow> data_ok t (fold (promote_key now) ks c) D \<and>
     unpushed j w (fold (promote_key now) ks c) D = unpushed j w c D"
  by (induction ks arbitrary: c) (simp_all add: promote_key_own promote_key_data)

lemma data_okD: "data_ok t c D \<Longrightarrow> key_ok t (map_of (cc_m c) k) (map_of (cc_dirty c) k) (flights k D)"
  by (simp add: data_ok_def)

lemma incr_data:
  assumes o: "own_ok c D" and k: "data_ok t c D" and t: "t \<le> now" and i: "cc_Incr h now key ttl c = (n, b, c')"
  shows "key_ok now (map_of (cc_m c') j) (map_of (cc_dirty c') j) (flights j D) \<and>
    (now < w \<longrightarrow> unpushed j w c' D = unpushed j w c D +
       (if j = key \<and> map_option ce_expires (map_of (cc_m c') key) = Some w then 1 else 0))"
proof -
  have nf: "map_of (cc_dirty c) j = None \<Longrightarrow> flights j D = {#}" for j
    by (rule free_no_flights [OF o])
  have counted: ?thesis
    if ce: "count_entry key e cx = (n, b, c')" and d1: "cc_dirty cx = cc_dirty c"
      and m1: "\<And>i. i \<noteq> key \<Longrightarrow> map_of (cc_m cx) i = map_of (cc_m c) i \<or> map_of (cc_m cx) i = None \<and> map_of (cc_dirty c) i = None \<and>
        (\<exists>x. map_of (cc_m c) i = Some x \<and> (ce_pending x = 0 \<or> ce_expires x \<le> now))"
      and e: "map_of (cc_m c) key = Some e \<and> now < ce_expires e \<or>
        (\<forall>x. map_of (cc_m c) key = Some x \<longrightarrow> ce_expires x \<le> now) \<and> ce_pending e = 0"
    for e cx
  proof (cases "j = key")
    case True
    have kj: "key_ok t (map_of (cc_m c) key) (map_of (cc_dirty c) key) (flights key D)" using data_okD [OF k] .
    obtain x' where x': "map_of (cc_m c') key = Some x'" "ce_expires x' = ce_expires e"
      and res: "(\<exists>y. map_of (cc_dirty c) key = Some y \<and> ce_pending x' = ce_pending e \<and>
           map_of (cc_dirty c') key = Some (foldOpLocked y (ce_expires e) False)) \<or>
         map_of (cc_dirty c) key = None \<and> (ce_pending x' = ce_pending e + 1 \<and> map_of (cc_dirty c') key = None \<or>
         ce_pending x' = 0 \<and> map_of (cc_dirty c') key =
           Some \<lparr>de_delta = ce_pending e + 1, de_deadline = ce_expires e, de_del = False\<rparr>)"
      using count_entry_dirty [OF ce] count_entry_clean [OF ce] d1 by (metis not_None_eq)
    from count_key_ok [OF kj t nf e x' res] show ?thesis
      using True x' by (simp add: unpushed_def)
  next
    case False
    note other = count_entry_other [OF ce False]
    from evict_key_ok [OF key_ok_mono [OF data_okD [OF k] t] nf m1 [OF False]] show ?thesis
      using False other d1 by (simp add: unpushed_def)
  qed
  show ?thesis
  proof (cases "map_of (cc_m c) key")
    case (Some e)
    show ?thesis
    proof (cases "now \<ge> ce_expires e")
      case True
      then show ?thesis
        using i Some by (intro counted [where cx = "c\<lparr>cc_m := mdel key (cc_m c)\<rparr>"])
          (auto simp: cc_Incr_def Let_def gomap_simps)
    next
      case False
      then show ?thesis using i Some by (intro counted [where cx = c]) (auto simp: cc_Incr_def Let_def)
    qed
  next
    case None
    obtain r c1 where r: "makeCounterRoomLocked now c = (r, c1)" by fastforce
    note room = room_effect [OF r own_ok_wf [OF o]]
    show ?thesis
    proof (cases r)
      case True
      then show ?thesis
        using i None r room by (intro counted [where cx = c1]) (auto simp: cc_Incr_def Let_def)
    next
      case False
      then have "cc_m c' = cc_m c1" "cc_dirty c' = cc_dirty c"
        using i None r room(1) by (auto simp: cc_Incr_def Let_def incrOverflowLocked_def split: prod.splits)
      then show ?thesis
        using evict_key_ok [OF key_ok_mono [OF data_okD [OF k] t] nf room(2)] None room(2) [of key]
        by (auto simp: unpushed_def)
    qed
  qed
qed

lemma release_effect:
  assumes "releaseLocked key c = (b, c')"
  shows "cc_m c' = cc_m c"
    and "map_of (cc_dirty c') j = map_of (cc_dirty c) j \<or> j = key \<and> map_of (cc_dirty c') j = None \<and>
      (\<exists>y. map_of (cc_dirty c) j = Some y \<and> de_delta y = 0 \<and> \<not> de_del y)"
  using assms by (auto simp: releaseLocked_def gomap_simps dest!: queue_key_frame split: option.splits if_splits)

lemma release_data:
  assumes o: "own_ok c (add_mset d D)" and ow: "owner d = Some key" and nd: "flight_of key d = {#}"
    and k: "data_ok t c (add_mset d D)" and t: "t \<le> now" and r: "releaseLocked key c = (b, c')"
  shows "key_ok now (map_of (cc_m c') j) (map_of (cc_dirty c') j) (flights j D) \<and>
     unpushed j w c' D = unpushed j w c (add_mset d D)"
proof -
  have f: "flights j (add_mset d D) = flights j D" for j
    using ow nd flight_owner by (cases "j = key") fastforce+
  have "key_ok now (map_of (cc_m c) j) (map_of (cc_dirty c) j) (flights j D)" for j
    using key_ok_mono [OF data_okD [OF k] t] f by simp
  note kj = this [of j]
  note m = release_effect(1) [OF r]
  from release_effect(2) [OF r, of j] show ?thesis
  proof
    assume "map_of (cc_dirty c') j = map_of (cc_dirty c) j"
    then show ?thesis using kj m f by (simp add: unpushed_def)
  next
    assume a: "j = key \<and> map_of (cc_dirty c') j = None \<and>
      (\<exists>y. map_of (cc_dirty c) j = Some y \<and> de_delta y = 0 \<and> \<not> de_del y)"
    then have "flights j D = {#}" using owned_alone [OF o ow] by simp
    then show ?thesis using kj m f [of j] a by (auto simp: key_ok_def unpushed_def dirty_part_def)
  qed
qed

lemma flushKey_effect:
  assumes r: "flushKey now key c = (d, b, c')" and de: "map_of (cc_dirty c) key = Some y"
  shows "j \<noteq> key \<Longrightarrow> map_of (cc_dirty c') j = map_of (cc_dirty c) j \<and> flight_of j d = {#}"
    and "cc_m c' = cc_m c"
    and "de_del y \<and> map_of (cc_dirty c') key = Some (y\<lparr>de_del := False\<rparr>) \<and> flight_of key d = {#} \<or>
      \<not> de_del y \<and> de_delta y = 0 \<and> map_of (cc_dirty c') key = None \<and> flight_of key d = {#} \<or>
      \<not> de_del y \<and> de_delta y \<noteq> 0 \<and> map_of (cc_dirty c') key = Some (y\<lparr>de_delta := 0\<rparr>) \<and>
        (de_deadline y \<le> now \<and> flight_of key d = {#} \<or> flight_of key d = {#(de_delta y, de_deadline y)#})"
  using r de by (auto simp: flushKey_def releaseLocked_def gomap_simps split: if_splits)

lemma flushKey_data:
  assumes o: "own_ok c (add_mset (DFlush key) D)" and k: "data_ok t c (add_mset (DFlush key) D)"
    and t: "t \<le> now" and r: "flushKey now key c = (d, b, c')"
  shows "key_ok now (map_of (cc_m c') j) (map_of (cc_dirty c') j) (flights j (add_mset d D)) \<and>
    (now < w \<longrightarrow> unpushed j w c' (add_mset d D) = unpushed j w c (add_mset (DFlush key) D))"
proof -
  obtain y where y: "map_of (cc_dirty c) key = Some y" using owned_dirty(1) [OF o] by auto
  have kj: "key_ok now (map_of (cc_m c) j) (map_of (cc_dirty c) j) (flights j D)"
    using key_ok_mono [OF data_okD [OF k] t, of j] by simp
  have al: "flights key D = {#}" using owned_alone [OF o] by simp
  note e = flushKey_effect [OF r y]
  show ?thesis
  proof (cases "j = key")
    case False
    then show ?thesis using e(1) [OF False] e(2) kj by (simp add: unpushed_def)
  next
    case True
    then show ?thesis
      using e(3) kj y al unfolding True e(2)
      by (auto simp: key_ok_def unpushed_def dirty_part_def e(2))
  qed
qed

lemma preserve_data:
  assumes o: "own_ok c (add_mset (DFailed key cl v) D)" and k: "data_ok t c (add_mset (DFailed key cl v) D)"
    and t: "t \<le> now" and r: "preserveFailedIncr key cl v c = (b, c')"
  shows "key_ok now (map_of (cc_m c') j) (map_of (cc_dirty c') j) (flights j D) \<and>
    (now < w \<longrightarrow> \<not> forget_pending j c \<longrightarrow> unpushed j w c' D = unpushed j w c (add_mset (DFailed key cl v) D))"
proof -
  obtain y where y: "map_of (cc_dirty c) key = Some y" using owned_dirty(1) [OF o] by auto
  have al: "flights key D = {#}" using owned_alone [OF o] by simp
  have kk: "key_ok t (map_of (cc_m c) j) (map_of (cc_dirty c) j) (flights j (add_mset (DFailed key cl v) D))" for j
    using data_okD [OF k] .
  have kn: "key_ok now (map_of (cc_m c) j) (map_of (cc_dirty c) j) (flights j D)" for j
    using key_ok_mono [OF kk t, of j] by (auto simp: key_ok_def split: if_splits)
  show ?thesis
  proof (cases "de_del y")
    case True
    then have rel: "releaseLocked key c = (b, c')" using r y by (simp add: preserveFailedIncr_def)
    have "map_of (cc_dirty c') j = map_of (cc_dirty c) j"
      using release_effect(2) [OF rel, of j] True y by auto
    then show ?thesis
      using True y release_effect(1) [OF rel] kn [of j] by (auto simp: unpushed_def forget_pending_def)
  next
    case False
    have d': "map_of (cc_dirty c') i = (if i = key then None else map_of (cc_dirty c) i)" for i
      using r y False by (auto simp: preserveFailedIncr_def Let_def gomap_simps)
    have m': "i \<noteq> key \<Longrightarrow> map_of (cc_m c') i = map_of (cc_m c) i" for i
      using r y False by (auto simp: preserveFailedIncr_def Let_def gomap_simps split: option.splits)
    show ?thesis
    proof (cases "j = key")
      case other: False
      then show ?thesis using kn [of j] d' m' by (simp add: unpushed_def)
    next
      case True
      have fl: "0 \<le> cl \<and> ((\<exists>x. map_of (cc_m c) key = Some x \<and> ce_expires x = v) \<or> v \<le> t)"
        using key_ok_flight [OF kk [of key, unfolded y], of cl v] False by simp
      have dy: "0 \<le> de_delta y" "de_delta y \<noteq> 0 \<Longrightarrow> \<exists>x. map_of (cc_m c) key = Some x \<and> ce_expires x = de_deadline y"
        "\<And>x. map_of (cc_m c) key = Some x \<Longrightarrow> ce_pending x = 0"
        using kn [of key] y by (auto simp: key_ok_def)
      show ?thesis
      proof (cases "map_of (cc_m c) key")
        case None
        then have "map_of (cc_m c') key = None"
          using r y False by (auto simp: preserveFailedIncr_def Let_def)
        then show ?thesis
          unfolding True using None dy(2) d' al y fl t by (auto simp: key_ok_def unpushed_def part_defs)
      next
        case (Some x)
        then obtain x' where x': "map_of (cc_m c') key = Some x'" "ce_expires x' = ce_expires x"
          "ce_pending x' = (if ce_expires x = v then cl else 0) +
             (if de_delta y > 0 \<and> ce_expires x = de_deadline y then de_delta y else 0)"
          using r y False dy(3) [OF Some] by (auto simp: preserveFailedIncr_def Let_def gomap_simps)
        then have "0 \<le> ce_pending x'" using fl dy(1) by simp
        then show ?thesis
          unfolding True using Some x' dy d' al y fl t by (auto simp: key_ok_def unpushed_def part_defs)
      qed
    qed
  qed
qed

lemma merge_effect:
  "(\<exists>x'. map_of (cc_m (flushIncr_merge now key v s c)) j = Some x' \<and>
      (\<exists>x. map_of (cc_m c) j = Some x \<and> ce_expires x' = ce_expires x \<and> ce_pending x' = ce_pending x)) \<or>
   map_of (cc_m (flushIncr_merge now key v s c)) j = map_of (cc_m c) j"
  by (auto simp: flushIncr_merge_def gomap_simps split: option.splits)

lemma merge_dirty [simp]: "cc_dirty (flushIncr_merge now key v s c) = cc_dirty c"
  by (auto simp: flushIncr_merge_def split: option.splits)

lemma merge_data:
  assumes "data_ok t c D" "t \<le> now"
  shows "data_ok now (flushIncr_merge now key v s c) D" "unpushed j w (flushIncr_merge now key v s c) D = unpushed j w c D"
proof -
  have "key_ok now (map_of (cc_m (flushIncr_merge now key v s c)) i) (map_of (cc_dirty c) i) (flights i D)" for i
    using key_ok_mono [OF data_okD [OF assms(1)] assms(2), of i] merge_effect [of now key v s c i]
    by (auto simp: key_ok_def)
  then show "data_ok now (flushIncr_merge now key v s c) D" by (simp add: data_ok_def)
  show "unpushed j w (flushIncr_merge now key v s c) D = unpushed j w c D"
    using merge_effect [of now key v s c j] by (auto simp: unpushed_def entry_part_def)
qed

section \<open>The store a cache relies on\<close>

text \<open>
  All the cache needs of its backend: a round that reports \<open>applied = False\<close> did so because the
  window had ended, and the rounds keep the backend well formed. Any \<open>ttl_store\<close> provides it.
\<close>

locale deadline_store =
  fixes ops :: "'s store_ops" and ok :: "'s \<Rightarrow> bool"
  assumes skip_expired: "ok st \<Longrightarrow> st_IncrByDeadline ops now k n w st = (Inr (x, False), st') \<Longrightarrow> w \<le> now"
    and incr_ok: "ok st \<Longrightarrow> ok (snd (st_IncrByDeadline ops now k n w st))"
    and delete_ok: "ok st \<Longrightarrow> ok (snd (st_Delete ops now k st))"

sublocale ttl_store < counted: deadline_store ops ok
proof
  fix st now k n w x st'
  assume o: "ok st" and r: "st_IncrByDeadline ops now k n w st = (Inr (x, False), st')"
  have "fst (spec_IncrByDeadline now k n w (live st now)) = Inr (x, False)"
    using incr [OF o, of now k n w] r by (simp add: refines_def)
  then show "w \<le> now"
    by (auto simp: spec_IncrByDeadline_def split: if_splits option.splits)
qed (use incr del in \<open>auto simp: refines_def\<close>)

section \<open>No increment is lost or pushed twice\<close>

fun bumped_by :: "cc_label \<Rightarrow> string \<Rightarrow> nanos \<Rightarrow> int" where
  "bumped_by (LIncr k' (Some v)) k w = (if k' = k \<and> v = w then 1 else 0)"
| "bumped_by _ k w = 0"

fun pushed_by :: "cc_label \<Rightarrow> string \<Rightarrow> nanos \<Rightarrow> int" where
  "pushed_by (LPush k' n v) k w = (if k' = k \<and> v = w then n else 0)"
| "pushed_by _ k w = 0"

lemma bumped_incr: "bumped_by (LIncr key v) k w = (if k = key \<and> v = Some w then 1 else 0)"
  by (cases v) auto

lemma flush_promote_data:
  assumes "own_ok c D" "data_ok t c D" "t \<le> now" "flush_promote now c = (n, c')"
  shows "data_ok now c' (D + replicate_mset n DLoop)" "unpushed k w c' (D + replicate_mset n DLoop) = unpushed k w c D"
proof -
  define c1 where "c1 = fold (promote_key now) (map fst (cc_m c)) c"
  have d: "data_ok t c1 D" "unpushed k w c1 D = unpushed k w c D"
    using promote_fold_data [OF assms(1,2)] by (simp_all add: c1_def)
  have c': "cc_m c' = cc_m c1" "cc_dirty c' = cc_dirty c1"
    using assms(4) by (auto simp: flush_promote_def Let_def c1_def)
  show "data_ok now c' (D + replicate_mset n DLoop)"
    using key_ok_mono [OF data_okD [OF d(1)] assms(3)] by (simp add: data_ok_def c')
  show "unpushed k w c' (D + replicate_mset n DLoop) = unpushed k w c D"
    using d(2) by (simp add: unpushed_def c')
qed

lemma data_ok_frame:
  assumes "data_ok t c D" "t \<le> now" "\<And>k. flights k D' = flights k D"
  shows "data_ok now c D'"
  using assms by (auto simp: data_ok_def intro: key_ok_mono)

lemma data_ok_drop:
  assumes k: "data_ok t c (add_mset d D)" and t: "t \<le> now" and n: "\<And>k. flight_of k d' = {#}"
  shows "data_ok now c (add_mset d' D)"
proof -
  have "key_ok now e x (F + G) \<Longrightarrow> key_ok now e x G" for e x F G
    by (auto simp: key_ok_def)
  then show ?thesis
    using key_ok_mono [OF data_okD [OF k] t] n unfolding data_ok_def flights_simps by (metis add_0)
qed

context deadline_store
begin

lemma push_data:
  assumes k: "data_ok t c (add_mset (DIncr key n v) D)" and ok: "ok st" and t: "t \<le> now"
    and r: "flushIncr_round ops now key n v st = (d, st')"
  shows "data_ok now c (add_mset d D)" and "ok st'"
    and "now < w \<Longrightarrow> unpushed j w c (add_mset d D) +
       pushed_by (case d of DMerge _ _ _ \<Rightarrow> LPush key n v | _ \<Rightarrow> LInternal) j w = unpushed j w c (add_mset (DIncr key n v) D)"
proof -
  obtain res st1 where call: "st_IncrByDeadline ops now key n v st = (res, st1)" by fastforce
  have st': "st' = st1" using r call by (auto simp: flushIncr_round_def split: sum.splits)
  show "ok st'" using incr_ok [OF ok, of now key n v] call st' by simp
  consider (fail) "d = DFailed key n v" | (skip) x where "res = Inr (x, False)" "d = DFlush key"
    | (push) s where "d = DMerge key v s"
    using r call by (auto simp: flushIncr_round_def split: sum.splits if_splits)
  then have "data_ok now c (add_mset d D) \<and> (now < w \<longrightarrow> unpushed j w c (add_mset d D) +
       pushed_by (case d of DMerge _ _ _ \<Rightarrow> LPush key n v | _ \<Rightarrow> LInternal) j w = unpushed j w c (add_mset (DIncr key n v) D))"
  proof cases
    case fail
    then show ?thesis using data_ok_frame [OF k t, of "add_mset d D"] by (simp add: unpushed_def)
  next
    case skip
    have "v \<le> now" using skip_expired [OF ok] call skip(1) by simp
    then show ?thesis
      using skip(2) data_ok_drop [OF k t, of "DFlush key"] by (auto simp: unpushed_def)
  next
    case push
    then show ?thesis using data_ok_drop [OF k t, of d] by (auto simp: unpushed_def)
  qed
  then show "data_ok now c (add_mset d D)"
    and "now < w \<Longrightarrow> unpushed j w c (add_mset d D) +
       pushed_by (case d of DMerge _ _ _ \<Rightarrow> LPush key n v | _ \<Rightarrow> LInternal) j w = unpushed j w c (add_mset (DIncr key n v) D)"
    by auto
qed

lemma step_lossless:
  assumes s: "cc_step ops ok h (c, D, st, t) l (c', D', st', t')"
    and o: "own_ok c D" and k: "data_ok t c D" and ok: "ok st"
  shows "data_ok t' c' D' \<and> ok st' \<and> t \<le> t' \<and>
    (t' < w \<longrightarrow> \<not> forget_pending j c \<longrightarrow> l \<noteq> LForget j \<longrightarrow>
       unpushed j w c' D' + pushed_by l j w = unpushed j w c D + bumped_by l j w)"
  using s
proof (cases rule: cc_step.cases)
  case (step_incr key ttl n b)
  then show ?thesis
    using incr_data [OF o k step_incr(4,5)] ok by (auto simp: data_ok_def unpushed_def bumped_incr)
next
  case (step_forget key b)
  have "map_of (cc_dirty c) i = None \<Longrightarrow> flights i D = {#}" for i by (rule free_no_flights [OF o])
  then have "key_ok t' (map_of (cc_m c') i) (map_of (cc_dirty c') i) (flights i D)" for i
    using key_ok_mono [OF data_okD [OF k] step_forget(4), of i] forget_effect [OF step_forget(5)]
    by (cases "i = key") (auto intro: forget_key_ok)
  then show ?thesis
    using step_forget ok forget_effect(1,2) [OF step_forget(5), of j] by (auto simp: data_ok_def unpushed_def)
next
  case (step_promote n)
  then show ?thesis using flush_promote_data [OF o k step_promote(4,5)] ok by simp
next
  case (step_claim d D0)
  then have "\<And>i. flight_of i d = {#}" "cc_m c' = cc_m c" "cc_dirty c' = cc_dirty c"
    by (auto simp: drain_claim_def split: list.splits)
  then show ?thesis
    using step_claim k ok key_ok_mono [OF data_okD [OF k]] by (auto simp: data_ok_def unpushed_def)
next
  case (step_exit)
  then have "cc_m c' = cc_m c" "cc_dirty c' = cc_dirty c"
    by (auto simp: drain_claim_def split: list.splits)
  then show ?thesis
    using step_exit k ok key_ok_mono [OF data_okD [OF k]] by (auto simp: data_ok_def unpushed_def)
next
  case (step_flush key d b D0)
  then show ?thesis
    using flushKey_data [OF o [unfolded step_flush(1)] k [unfolded step_flush(1)] step_flush(5,6)] ok
    by (auto simp: data_ok_def unpushed_def)
next
  case (step_delete key d D0)
  have "\<And>i. flight_of i d = {#}" "st' = snd (st_Delete ops t' key st)"
    using step_delete by (auto simp: flushDelete_round_def split: prod.splits sum.splits)
  moreover have "data_ok t c (add_mset (DDelete key) D0)" using k step_delete by simp
  ultimately show ?thesis
    using step_delete delete_ok [OF ok] data_ok_drop [of t c "DDelete key" D0 t' d] by (auto simp: unpushed_def)
next
  case (step_release key b D0)
  then show ?thesis
    using release_data [OF o [unfolded step_release(1)] _ _ k [unfolded step_release(1)] step_release(5,6)] ok
    by (auto simp: data_ok_def unpushed_def)
next
  case (step_push key n v d D0)
  have kd: "data_ok t c (add_mset (DIncr key n v) D0)" using k step_push by simp
  have "t \<le> t'" "flushIncr_round ops t' key n v st = (d, st')" using step_push by auto
  note p = push_data [OF kd ok this]
  have "data_ok t' c (add_mset d D0) \<and> ok st' \<and> (t' < w \<longrightarrow> unpushed j w c (add_mset d D0) +
       pushed_by (case d of DMerge _ _ _ \<Rightarrow> LPush key n v | _ \<Rightarrow> LInternal) j w = unpushed j w c (add_mset (DIncr key n v) D0))"
    using p by simp
  moreover have "bumped_by (case d of DMerge _ _ _ \<Rightarrow> LPush key n v | _ \<Rightarrow> LInternal) j w = 0"
    by (cases d) auto
  ultimately show ?thesis using step_push by simp
next
  case (step_merge key v s D0)
  have "data_ok t' c' (add_mset (DMerge key v s) D0)" "unpushed j w c' D = unpushed j w c D"
    using merge_data [OF k] step_merge by auto
  then show ?thesis
    using step_merge ok data_ok_drop [of t' c' "DMerge key v s" D0 t' "DFlush key"] by (auto simp: unpushed_def)
next
  case (step_failed key n v b D0)
  then show ?thesis
    using preserve_data [OF o [unfolded step_failed(1)] k [unfolded step_failed(1)] step_failed(5,6)] ok
    by (auto simp: data_ok_def unpushed_def)
next
  case (step_store)
  then show ?thesis using data_ok_frame [OF k] by auto
qed

end

lemma forget_pending_step:
  assumes s: "cc_step ops ok h (c, D, st, t) l (c', D', st', t')" and o: "own_ok c D"
    and n: "\<not> forget_pending k c" "l \<noteq> LForget k"
  shows "\<not> forget_pending k c'"
proof -
  have ce: "forget_pending k c2 \<longleftrightarrow> forget_pending k c1" if "count_entry key e c1 = (m, b, c2)" for key e m b c1 c2
    using count_entry_other(2) [OF that, of k] count_entry_dirty(2) [OF that] count_entry_clean [OF that]
    by (cases "k = key"; cases "map_of (cc_dirty c1) key") (auto simp: forget_pending_def foldOpLocked_def)
  have rel: "forget_pending k c2 \<Longrightarrow> forget_pending k c1" if "releaseLocked key c1 = (b, c2)" for key b c1 c2
    using release_effect(2) [OF that, of k] by (auto simp: forget_pending_def)
  have pk: "forget_pending k (promote_key now key c1) \<Longrightarrow> forget_pending k c1" for now key c1
    by (auto simp: promote_key_def forget_pending_def gomap_simps split: option.splits if_splits)
  have pf: "forget_pending k (fold (promote_key now) ks c1) \<Longrightarrow> forget_pending k c1" for now ks c1
    by (induction ks arbitrary: c1) (auto dest: pk)
  show ?thesis
    using s
  proof (cases rule: cc_step.cases)
    case (step_incr key ttl m b)
    have "forget_pending k c' \<longleftrightarrow> forget_pending k c"
    proof (cases "map_of (cc_m c) key")
      case (Some e)
      then show ?thesis
        using step_incr(5) ce by (fastforce simp: cc_Incr_def Let_def forget_pending_def split: if_splits)
    next
      case None
      obtain r c1 where r: "makeCounterRoomLocked t' c = (r, c1)" by fastforce
      have "forget_pending k c1 \<longleftrightarrow> forget_pending k c"
        using room_effect(1) [OF r own_ok_wf [OF o]] by (simp add: forget_pending_def)
      moreover have "forget_pending k c' \<longleftrightarrow> forget_pending k c1"
        using step_incr(5) None r ce [of key _ c1 m b c']
        by (cases r) (auto simp: cc_Incr_def Let_def incrOverflowLocked_def forget_pending_def split: prod.splits)
      ultimately show ?thesis by simp
    qed
    then show ?thesis using n(1) by simp
  next
    case (step_forget key b)
    then show ?thesis using n forget_effect(2) [OF step_forget(5), of k] by (auto simp: forget_pending_def)
  next
    case (step_promote m)
    then show ?thesis using n(1) pf by (auto simp: flush_promote_def Let_def forget_pending_def)
  next
    case (step_flush key d b D0)
    then obtain y where y: "map_of (cc_dirty c) key = Some y" using owned_dirty(1) [of c _ _ key] o by (metis owner.simps(2))
    show ?thesis
      using n(1) flushKey_effect(1,3) [OF step_flush(6) y] y
      by (cases "k = key") (auto simp: forget_pending_def)
  next
    case (step_failed key m v b D0)
    then obtain y where y: "map_of (cc_dirty c) key = Some y"
      using owned_dirty(1) [of c _ _ key] o by (metis owner.simps(7))
    show ?thesis
    proof (cases "de_del y")
      case True
      then have "releaseLocked key c = (b, c')" using step_failed y by (simp add: preserveFailedIncr_def)
      then show ?thesis using rel n(1) by blast
    next
      case False
      then have "cc_dirty c' = mdel key (cc_dirty c)" using step_failed y by (auto simp: preserveFailedIncr_def Let_def)
      then show ?thesis using n(1) by (auto simp: forget_pending_def gomap_simps split: if_splits)
    qed
  qed (use n(1) rel in \<open>auto simp: drain_claim_def forget_pending_def split: list.splits\<close>)
qed

context deadline_store
begin

lemma run_invariant:
  assumes "cc_run ops ok h s0 ls s"
  shows "case s of (c, D, st, t) \<Rightarrow> own_ok c D \<and> data_ok t c D \<and> ok st"
  using assms
proof (induction rule: cc_run.induct)
  case (run_start st t)
  then show ?case
    by (simp add: NewCounterCache_def own_ok_def holders_def data_ok_def key_ok_def)
next
  case (run_step s0 ls s l s')
  then show ?case
    using step_own_ok step_lossless by (cases s; cases s') fastforce
qed

lemma run_lossless:
  assumes "cc_run ops ok h s0 ls s" "s = (c, D, st, t)" "t < w" "LForget k \<notin> set ls"
  shows "\<not> forget_pending k c \<and>
    (\<Sum>l\<leftarrow>ls. bumped_by l k w) = (\<Sum>l\<leftarrow>ls. pushed_by l k w) + unpushed k w c D"
  using assms
proof (induction arbitrary: c D st t rule: cc_run.induct)
  case (run_start st0 t0)
  then show ?case
    by (auto simp: NewCounterCache_def forget_pending_def unpushed_def part_defs)
next
  case (run_step s0 ls s l s')
  obtain c1 D1 st1 t1 where s: "s = (c1, D1, st1, t1)" by (metis prod_cases4)
  have i: "own_ok c1 D1" "data_ok t1 c1 D1" "ok st1" using run_invariant [OF run_step.hyps(1)] s by auto
  have st: "cc_step ops ok h (c1, D1, st1, t1) l (c, D, st, t)" using run_step s by simp
  have le: "t1 \<le> t" and cons: "\<not> forget_pending k c1 \<longrightarrow> l \<noteq> LForget k \<longrightarrow>
      unpushed k w c D + pushed_by l k w = unpushed k w c1 D1 + bumped_by l k w"
    using step_lossless [OF st i] run_step.prems(2) by auto
  have ih: "\<not> forget_pending k c1 \<and> (\<Sum>l\<leftarrow>ls. bumped_by l k w) = (\<Sum>l\<leftarrow>ls. pushed_by l k w) + unpushed k w c1 D1"
    using run_step.IH [OF s] run_step.prems le by simp
  moreover have "l \<noteq> LForget k" using run_step.prems(3) by auto
  ultimately show ?case
    using cons forget_pending_step [OF st i(1)] by simp
qed

lemma idle_all_pushed:
  assumes r: "cc_run ops ok h s0 ls (c, D, st, t)" and w: "t < w" and nf: "LForget k \<notin> set ls"
    and idle: "flush_idle c" "flush_left t c = 0"
  shows "(\<Sum>l\<leftarrow>ls. bumped_by l k w) = (\<Sum>l\<leftarrow>ls. pushed_by l k w)"
proof -
  have i: "own_ok c D" "data_ok t c D" using run_invariant [OF r] by auto
  have D: "D = {#}" using i(1) idle(1) by (simp add: own_ok_def flush_idle_def)
  have d: "map_of (cc_dirty c) k = None"
    using own_ok_holders [OF i(1), of k] D idle(1) by (simp add: flush_idle_def holders_def split: if_splits)
  have "entry_part w (map_of (cc_m c) k) = 0"
  proof (cases "map_of (cc_m c) k")
    case (Some e)
    then have "(k, e) \<in> set (cc_m c)" by (rule map_of_SomeD)
    then have "\<not> (ce_pending e > 0 \<and> t < ce_expires e)" using idle(2) by (auto simp: flush_left_def filter_empty_conv)
    moreover have "0 \<le> ce_pending e" using i(2) Some by (auto simp: data_ok_def key_ok_def)
    ultimately show ?thesis using Some w by (auto simp: entry_part_def)
  qed (simp add: entry_part_def)
  then have "unpushed k w c D = 0" by (simp add: unpushed_def d D dirty_part_def)
  then show ?thesis using run_lossless [OF r refl w nf] by simp
qed

end

section \<open>The sketch\<close>

text \<open>A history of shed increments, each with its key, clock reading and window length.\<close>

fun sketch_run :: "row_hash \<Rightarrow> (string \<times> nanos \<times> nanos) list \<Rightarrow> overflow_counter_cell list list \<Rightarrow> overflow_counter_cell list list" where
  "sketch_run h [] rows = rows"
| "sketch_run h ((key, now, ttl) # calls) rows =
     sketch_run h calls (snd (sketch_incr h key now ttl 0 rows maxInt64))"

definition sketch_wf :: "overflow_counter_cell list list \<Rightarrow> bool" where
  "sketch_wf rows \<longleftrightarrow> (\<forall>row \<in> set rows. length row = overflowCounterWidth \<and> (\<forall>cell \<in> set row. 0 \<le> oc_n cell))"

text \<open>\<open>j\<close> increments of \<open>key\<close> are still counted, in every row, until \<open>E\<close>.\<close>

definition sketch_holds :: "row_hash \<Rightarrow> string \<Rightarrow> nanos \<Rightarrow> nat \<Rightarrow> overflow_counter_cell list list \<Rightarrow> bool" where
  "sketch_holds h key E j rows \<longleftrightarrow> j = 0 \<or>
     (\<forall>i < length rows. min maxInt64 (int j) \<le> oc_n (rows ! i ! cell_index h i key) \<and>
        E \<le> oc_expires (rows ! i ! cell_index h i key))"

lemma cell_index_less: "cell_index h i key < overflowCounterWidth"
proof -
  have "unat (and (h i key) (word_of_nat (overflowCounterWidth - 1))) \<le> unat (word_of_nat (overflowCounterWidth - 1) :: 64 word)"
    by (rule word_le_nat_alt [THEN iffD1]) (rule word_and_le1)
  then show ?thesis by (simp add: cell_index_def overflowCounterWidth_def)
qed

lemma sketch_incr_rows:
  "length (snd (sketch_incr h key now ttl i rows m)) = length rows"
  "j < length rows \<Longrightarrow> snd (sketch_incr h key now ttl i rows m) ! j =
     (rows ! j)[cell_index h (i + j) key := cell_bump now ttl (rows ! j ! cell_index h (i + j) key)]"
proof (induction rows arbitrary: i j m)
  case (Cons row rows)
  {
    case 1
    then show ?case using Cons by (auto simp: Let_def split: prod.splits) (metis snd_conv)
  next
    case 2
    then show ?case
      using Cons(2) [of "j - 1" "Suc i" "min m (oc_n (cell_bump now ttl (row ! cell_index h i key)))"]
      by (cases j) (auto simp: Let_def split: prod.splits)
  }
qed simp_all

lemma sketch_incr_min:
  "x \<le> fst (sketch_incr h key now ttl i rows m) \<longleftrightarrow>
     x \<le> m \<and> (\<forall>j < length rows. x \<le> oc_n (cell_bump now ttl (rows ! j ! cell_index h (i + j) key)))"
proof (induction rows arbitrary: i m)
  case (Cons row rows)
  show ?case
    by (auto simp: Let_def case_prod_beta Cons.IH All_less_Suc2)
qed simp

lemma cell_bump_counts:
  assumes "j = 0 \<or> min maxInt64 (int j) \<le> oc_n cell \<and> E \<le> oc_expires cell" "0 \<le> oc_n cell" "now < E"
  shows "min maxInt64 (int j) \<le> oc_n (cell_bump now ttl cell) \<and> (j = 0 \<or> E \<le> oc_expires (cell_bump now ttl cell))"
    and "0 \<le> oc_n (cell_bump now ttl cell)"
    and "0 < ttl \<Longrightarrow> E \<le> now + ttl \<Longrightarrow>
      min maxInt64 (int (Suc j)) \<le> oc_n (cell_bump now ttl cell) \<and> E \<le> oc_expires (cell_bump now ttl cell)"
  using assms by (auto simp: cell_bump_def cell_lapsed_def Let_def maxInt64_def)

lemma sketch_wf_incr:
  assumes "sketch_wf rows"
  shows "sketch_wf (snd (sketch_incr h key now ttl 0 rows m))"
proof -
  have "length row = overflowCounterWidth \<and> (\<forall>cell \<in> set row. 0 \<le> oc_n cell)"
    if "row \<in> set (snd (sketch_incr h key now ttl 0 rows m))" for row
  proof -
    from that obtain j where j: "j < length rows" "row = snd (sketch_incr h key now ttl 0 rows m) ! j"
      by (metis in_set_conv_nth sketch_incr_rows(1))
    have r: "length (rows ! j) = overflowCounterWidth" "\<forall>cell \<in> set (rows ! j). 0 \<le> oc_n cell"
      using assms j(1) by (auto simp: sketch_wf_def)
    have "0 \<le> oc_n (cell_bump now ttl (rows ! j ! cell_index h j key))"
      using r cell_index_less [of h j key] cell_bump_counts(2) [of 0 _ "now + 1" now] by simp
    then show ?thesis
      using r j sketch_incr_rows(2) [OF j(1), of h key now ttl 0 m] by (auto dest!: subsetD [OF set_update_subset_insert])
  qed
  then show ?thesis by (simp add: sketch_wf_def)
qed

lemma sketch_holds_incr:
  assumes w: "sketch_wf rows" and s: "sketch_holds h key E j rows" and n: "now < E"
    and k: "key' = key \<Longrightarrow> 0 < ttl \<and> E \<le> now + ttl"
  shows "sketch_holds h key E (if key' = key then Suc j else j) (snd (sketch_incr h key' now ttl 0 rows m))"
proof -
  have "let cell = snd (sketch_incr h key' now ttl 0 rows m) ! i ! cell_index h i key; j' = (if key' = key then Suc j else j)
        in j' = 0 \<or> min maxInt64 (int j') \<le> oc_n cell \<and> E \<le> oc_expires cell"
    if i: "i < length rows" for i
  proof -
    let ?x = "cell_index h i key" and ?y = "cell_index h i key'"
    have l: "length (rows ! i) = overflowCounterWidth" "\<forall>cell \<in> set (rows ! i). 0 \<le> oc_n cell"
      using w i by (auto simp: sketch_wf_def)
    have c: "j = 0 \<or> min maxInt64 (int j) \<le> oc_n (rows ! i ! ?x) \<and> E \<le> oc_expires (rows ! i ! ?x)"
      using s i by (auto simp: sketch_holds_def)
    have nn: "0 \<le> oc_n (rows ! i ! ?x)" using l cell_index_less [of h i key] by simp
    have e: "snd (sketch_incr h key' now ttl 0 rows m) ! i ! ?x =
        (if ?y = ?x then cell_bump now ttl (rows ! i ! ?x) else rows ! i ! ?x)"
      using sketch_incr_rows(2) [OF i, of h key' now ttl 0 m] l cell_index_less [of h i] by simp
    show ?thesis
      using cell_bump_counts(1) [OF c nn n, of ttl] cell_bump_counts(3) [OF c nn n, of ttl] c k
      by (auto simp: e Let_def)
  qed
  then show ?thesis by (auto simp: sketch_holds_def sketch_incr_rows(1) Let_def)
qed

lemma sketch_run_holds:
  assumes "sketch_wf rows" "sketch_holds h key E j rows"
    and "\<And>k s d. (k, s, d) \<in> set calls \<Longrightarrow> s < E \<and> (k = key \<longrightarrow> 0 < d \<and> E \<le> s + d)"
  shows "sketch_wf (sketch_run h calls rows) \<and>
    sketch_holds h key E (j + length (filter (\<lambda>call. fst call = key) calls)) (sketch_run h calls rows)"
  using assms
proof (induction calls arbitrary: rows j)
  case (Cons call calls)
  obtain k s d where call: "call = (k, s, d)" by (metis prod_cases3)
  have c: "s < E" "k = key \<Longrightarrow> 0 < d \<and> E \<le> s + d" using Cons.prems(3) by (auto simp: call)
  note h = sketch_holds_incr [OF Cons.prems(1,2) c(1), of k d maxInt64, OF c(2)]
  have rest: "s < E \<and> (k = key \<longrightarrow> 0 < d \<and> E \<le> s + d)" if "(k, s, d) \<in> set calls" for k s d
    using Cons.prems(3) [of k s d] that by simp
  from Cons.IH [OF sketch_wf_incr [OF Cons.prems(1)] h rest]
  show ?case by (auto simp: call split: if_splits)
qed simp

lemma sketch_wf_new: "sketch_wf (cc_overflow NewCounterCache)"
  by (simp add: sketch_wf_def NewCounterCache_def)

section \<open>Properties\<close>

text \<open>
  Single flight: in every interleaving of counting, forgetting, draining, flushing
  and failing store rounds, a key with unpushed work sits exactly once either in the queue or with
  one drainer, a clean key with none, and there are never more than eight drainers. No two store
  rounds for one key ever run at the same time, and no dirty key is stranded.
\<close>

theorem counter_single_flight:
  assumes "cc_run sm_ops sm_ok h s0 ls (c, D, st, t)"
  shows "size D \<le> maxFlushWorkers \<and>
    (\<forall>k. holders (cc_queue c) D k = (if map_of (cc_dirty c) k = None then 0 else 1))"
  using mem.counted.run_invariant [OF assms] by (simp add: own_ok_def)

text \<open>
  C38 (safety). Nothing is lost and nothing is pushed twice: as long as a window is open and the key
  is not forgotten, the number of events counted in it equals what the store rounds have applied
  plus what the cache still holds (parked, dirty or in flight), whatever the interleaving, the
  evictions at capacity, the failed rounds and the other replicas do.
\<close>

theorem counter_lossless:
  assumes "cc_run sm_ops sm_ok h s0 ls (c, D, st, t)" "t < w" "LForget k \<notin> set ls"
  shows "(\<Sum>l\<leftarrow>ls. bumped_by l k w) = (\<Sum>l\<leftarrow>ls. pushed_by l k w) + unpushed k w c D"
  using mem.counted.run_lossless [OF assms(1) refl assms(2,3)] by simp

text \<open>
  The shutdown flush tells the truth: when it finds the drainers idle and no
  parked delta of an open window left, so that it returns without an error, every event counted in
  an open window has reached the store.
\<close>

theorem flush_success_is_complete:
  assumes "cc_run sm_ops sm_ok h s0 ls (c, D, st, t)" "t < w" "LForget k \<notin> set ls"
    and "flush_idle c" "flush_left t c = 0"
  shows "(\<Sum>l\<leftarrow>ls. bumped_by l k w) = (\<Sum>l\<leftarrow>ls. pushed_by l k w)"
  using mem.counted.idle_all_pushed [OF assms] .

text \<open>
  The overload sketch never under-counts: whatever other keys collide with it and
  whatever the hash functions are, the count it returns for a key is at least the number of that
  key's increments within the current window (saturating at the largest 64-bit integer), so a
  client shed to the sketch still reaches its limit.
\<close>

theorem overflow_never_undercounts:
  assumes "\<forall>(k, s, d) \<in> set calls. s < E \<and> (k = key \<longrightarrow> 0 < d \<and> E \<le> s + d)"
    and "now < E" "0 < ttl" "E \<le> now + ttl"
  shows "min maxInt64 (int (Suc (length (filter (\<lambda>call. fst call = key) calls)))) \<le>
    fst (incrOverflowLocked h key now ttl
      (NewCounterCache\<lparr>cc_overflow := sketch_run h calls (cc_overflow NewCounterCache)\<rparr>))"
proof -
  define rows where "rows = sketch_run h calls (cc_overflow NewCounterCache)"
  define j where "j = length (filter (\<lambda>call. fst call = key) calls)"
  have calls: "\<And>k s d. (k, s, d) \<in> set calls \<Longrightarrow> s < E \<and> (k = key \<longrightarrow> 0 < d \<and> E \<le> s + d)"
    using assms(1) by fastforce
  have s: "sketch_wf rows" "sketch_holds h key E j rows"
    using sketch_run_holds [OF sketch_wf_new _ calls, where j = 0]
    by (simp_all add: rows_def j_def sketch_holds_def [where j = 0])
  have "min maxInt64 (int (Suc j)) \<le> oc_n (cell_bump now ttl (rows ! i ! cell_index h i key))" if i: "i < length rows" for i
  proof -
    have "0 \<le> oc_n (rows ! i ! cell_index h i key)"
      using s(1) i cell_index_less [of h i key] unfolding sketch_wf_def by (metis nth_mem)
    moreover have "j = 0 \<or> min maxInt64 (int j) \<le> oc_n (rows ! i ! cell_index h i key) \<and>
        E \<le> oc_expires (rows ! i ! cell_index h i key)"
      using s(2) i by (auto simp: sketch_holds_def)
    ultimately show ?thesis using cell_bump_counts(3) assms(2-4) by blast
  qed
  then have "min maxInt64 (int (Suc j)) \<le> fst (sketch_incr h key now ttl 0 rows maxInt64)"
    by (subst sketch_incr_min) simp
  then show ?thesis by (simp add: incrOverflowLocked_def rows_def j_def case_prod_beta)
qed

section \<open>Witnesses\<close>

definition bumped_cache :: counter_cache where
  "bumped_cache = snd (snd (cc_Incr (\<lambda>_ _. 0) 1 ''k'' 10 NewCounterCache))"

lemma bumped_cache_eq:
  "cc_Incr (\<lambda>_ _. 0) 1 ''k'' 10 NewCounterCache = (1, True, bumped_cache)"
  "cc_m bumped_cache = [(''k'', \<lparr>ce_n = 1, ce_expires = 11, ce_pending = 0\<rparr>)]"
  "cc_dirty bumped_cache = [(''k'', \<lparr>de_delta = 1, de_deadline = 11, de_del = False\<rparr>)]"
  "cc_queue bumped_cache = [''k'']"
  by (simp_all add: bumped_cache_def cc_Incr_def NewCounterCache_def makeCounterRoomLocked_def count_entry_def
      markDirtyLocked_def queue_key_def entry_of_def Let_def maxCounterEntries_def maxFlushQueue_def
      maxFlushWorkers_def wrap64_def)

lemma bumped_run:
  "cc_run sm_ops sm_ok (\<lambda>_ _. 0) (NewCounterCache, {#}, fresh_memory, 0) [LIncr ''k'' (Some 11)]
     (bumped_cache, {#DLoop#}, fresh_memory, 1)"
proof -
  have "cc_step sm_ops sm_ok (\<lambda>_ _. 0) (NewCounterCache, {#}, fresh_memory, 0)
     (LIncr ''k'' (map_option ce_expires (map_of (cc_m bumped_cache) ''k'')))
     (bumped_cache, {#} + spawned True, fresh_memory, 1)"
    by (rule step_incr [OF _ bumped_cache_eq(1)]) simp
  then show ?thesis
    using cc_run.run_step [OF cc_run.run_start [where ok = sm_ok and ops = sm_ops, OF fresh_memory_ok]]
    by (fastforce simp: spawned_def bumped_cache_eq(2))
qed

theorem counter_single_flight_witness:
  "holders (cc_queue bumped_cache) {#DLoop#} ''k'' = 1"
  using counter_single_flight [OF bumped_run] by (simp add: bumped_cache_eq(3))

theorem counter_lossless_witness:
  "(1 :: nanos) < 11 \<and> LForget ''k'' \<notin> set [LIncr ''k'' (Some 11)] \<and> unpushed ''k'' 11 bumped_cache {#DLoop#} = 1"
  using counter_lossless [OF bumped_run, of 11 "''k''"] by simp

theorem flush_success_is_complete_witness:
  "flush_idle NewCounterCache \<and> flush_left 0 NewCounterCache = 0 \<and>
   (\<Sum>l\<leftarrow>[]. bumped_by l ''k'' 11) = (\<Sum>l\<leftarrow>[]. pushed_by l ''k'' 11)"
proof -
  have "cc_run sm_ops sm_ok (\<lambda>_ _. 0) (NewCounterCache, {#}, fresh_memory, 0) [] (NewCounterCache, {#}, fresh_memory, 0)"
    by (rule cc_run.run_start) (rule fresh_memory_ok)
  moreover have "flush_idle NewCounterCache" "flush_left 0 NewCounterCache = 0"
    by (simp_all add: flush_idle_def flush_left_def NewCounterCache_def)
  ultimately show ?thesis using flush_success_is_complete [of _ _ _ _ _ _ 0 11 "''k''"] by (metis list.simps(15) empty_iff empty_set zero_less_numeral)
qed

theorem overflow_never_undercounts_witness:
  "(2 :: int) \<le> fst (incrOverflowLocked (\<lambda>_ _. 0) ''k'' 2 10
     (NewCounterCache\<lparr>cc_overflow := sketch_run (\<lambda>_ _. 0) [(''k'', 1, 10), (''j'', 1, 5)] (cc_overflow NewCounterCache)\<rparr>))"
  using overflow_never_undercounts [of "[(''k'', 1, 10), (''j'', 1, 5)]" 11 "''k''" 2 10 "\<lambda>_ _. 0"]
  by (simp add: maxInt64_def)

end
