(* ===== verification/Codec.thy ===== *)
theory Codec
  imports Prelude
begin

text \<open>
  The parts of the Go library the binary formats are built from: slices and indexing with their
  bounds checks, \<^verbatim>\<open>encoding/binary\<close> in big-endian order, \<^verbatim>\<open>encoding/hex\<close> and
  \<^verbatim>\<open>base64.RawURLEncoding\<close>, each with its round trip. An expression that may panic is an option
  whose \<^const>\<open>None\<close> is the run-time panic, so a parser that never panics is a theorem about it.
  A call that returns \<open>(value, error)\<close> is a sum whose \<^const>\<open>Inl\<close> is the error; \<open>gobind\<close> is the
  \<open>if err != nil\<close> return that follows it.
\<close>

named_theorems codec_simps \<open>lengths and round trips of the byte encodings\<close>

definition gobind :: "'e + 'a \<Rightarrow> ('a \<Rightarrow> 'e + 'b) \<Rightarrow> 'e + 'b" where
  "gobind r f = (case r of Inl e \<Rightarrow> Inl e | Inr x \<Rightarrow> f x)"

lemma gobind_simps [simp]:
  "gobind (Inl e) f = Inl e"
  "gobind (Inr x) f = f x"
  by (simp_all add: gobind_def)

lemma gobind_eq_Inr: "gobind r f = Inr y \<longleftrightarrow> (\<exists>x. r = Inr x \<and> f x = Inr y)"
  by (cases r) simp_all

section \<open>Slices\<close>

definition slice :: "bytes \<Rightarrow> nat \<Rightarrow> nat \<Rightarrow> bytes option" where
  "slice raw lo hi = (if lo \<le> hi \<and> hi \<le> length raw then Some (take (hi - lo) (drop lo raw)) else None)"

definition at_index :: "bytes \<Rightarrow> nat \<Rightarrow> char option" where
  "at_index raw i = (if i < length raw then Some (raw ! i) else None)"

definition no_panic :: "'e \<Rightarrow> 'a option \<Rightarrow> 'e + 'a" where
  "no_panic p r = (case r of None \<Rightarrow> Inl p | Some x \<Rightarrow> Inr x)"

lemma no_panic_simps [simp]: "no_panic p None = Inl p" "no_panic p (Some x) = Inr x"
  by (simp_all add: no_panic_def)

lemma slice_in_range: "lo \<le> hi \<Longrightarrow> hi \<le> length raw \<Longrightarrow> slice raw lo hi = Some (take (hi - lo) (drop lo raw))"
  by (simp add: slice_def)

lemma at_index_in_range: "i < length raw \<Longrightarrow> at_index raw i = Some (raw ! i)"
  by (simp add: at_index_def)

section \<open>Big-endian integers\<close>

fun be_bytes :: "nat \<Rightarrow> nat \<Rightarrow> bytes" where
  "be_bytes 0 n = []"
| "be_bytes (Suc k) n = be_bytes k (n div 256) @ [char_of n]"

definition be_val :: "bytes \<Rightarrow> nat" where
  "be_val bs = foldl (\<lambda>a c. a * 256 + of_char c) 0 bs"

lemma length_be_bytes [simp, codec_simps]: "length (be_bytes k n) = k"
  by (induction k arbitrary: n) auto

lemma be_val_snoc: "be_val (bs @ [c]) = be_val bs * 256 + of_char c"
  by (simp add: be_val_def)

lemma byte_less [simp]: "(of_char c :: nat) < 256"
  by (metis mod_less_divisor of_char_mod_256 zero_less_numeral)

lemma byte_bound [simp]: "(of_char c :: nat) \<le> 255"
  using byte_less [of c] by linarith

lemma be_val_be_bytes [codec_simps]: "be_val (be_bytes k n) = n mod 256 ^ k"
proof (induction k arbitrary: n)
  case 0
  then show ?case by (simp add: be_val_def)
next
  case (Suc k)
  have "be_val (be_bytes (Suc k) n) = (n div 256 mod 256 ^ k) * 256 + n mod 256"
    by (simp add: be_val_snoc Suc.IH)
  also have "\<dots> = n mod (256 * 256 ^ k)"
    by (simp add: mod_mult2_eq mult.commute)
  finally show ?case by simp
qed

lemma be_bytes_be_val [codec_simps]: "be_bytes (length bs) (be_val bs) = bs"
proof (induction bs rule: rev_induct)
  case Nil
  then show ?case by simp
next
  case (snoc c bs)
  have "(be_val bs * 256 + of_char c) div 256 = be_val bs"
    by (simp add: div_add1_eq)
  moreover have "char_of (be_val bs * 256 + of_char c) = c"
    by (metis char_of_mod_256 char_of_char mod_mult_self3)
  ultimately show ?case
    using snoc by (simp add: be_val_snoc)
qed

lemma be_val_less: "be_val bs < 256 ^ length bs"
  by (metis be_bytes_be_val be_val_be_bytes mod_less_divisor zero_less_numeral zero_less_power)

section \<open>Hexadecimal text\<close>

definition hex_char :: "nat \<Rightarrow> char" where
  "hex_char d = (if d < 10 then char_of (48 + d) else char_of (87 + d))"

definition hex_encode :: "bytes \<Rightarrow> string" where
  "hex_encode bs = concat (map (\<lambda>c. [hex_char (of_char c div 16), hex_char (of_char c mod 16)]) bs)"

definition from_hex :: "char \<Rightarrow> nat option" where
  "from_hex c =
     (let n = (of_char c :: nat)
      in if 48 \<le> n \<and> n \<le> 57 then Some (n - 48)
         else if 97 \<le> n \<and> n \<le> 102 then Some (n - 87)
         else if 65 \<le> n \<and> n \<le> 70 then Some (n - 55) else None)"

fun hex_decode :: "string \<Rightarrow> bytes option" where
  "hex_decode [] = Some []"
| "hex_decode [c] = None"
| "hex_decode (c # d # s) =
     (case from_hex c of None \<Rightarrow> None | Some x \<Rightarrow>
      (case from_hex d of None \<Rightarrow> None | Some y \<Rightarrow>
       map_option ((#) (char_of (x * 16 + y))) (hex_decode s)))"

lemma length_hex_encode [simp, codec_simps]: "length (hex_encode bs) = 2 * length bs"
  by (induction bs) (auto simp: hex_encode_def)

lemma from_hex_char: "d < 16 \<Longrightarrow> from_hex (hex_char d) = Some d"
  by (auto simp: from_hex_def hex_char_def Let_def)

lemma hex_decode_encode [codec_simps]: "hex_decode (hex_encode bs) = Some bs"
proof (induction bs)
  case Nil
  then show ?case by (simp add: hex_encode_def)
next
  case (Cons c bs)
  have "(of_char c :: nat) div 16 < 16"
    using byte_less [of c] by (simp add: less_mult_imp_div_less)
  then show ?case
    using Cons by (simp add: hex_encode_def from_hex_char del: mult_Suc_right)
qed

lemma hex_encode_inj: "hex_encode a = hex_encode b \<Longrightarrow> a = b"
  by (metis hex_decode_encode option.inject)

section \<open>Unpadded URL-safe base64\<close>

definition b64_char :: "nat \<Rightarrow> char" where
  "b64_char v =
     (if v < 26 then char_of (65 + v) else if v < 52 then char_of (71 + v)
      else if v < 62 then char_of (v - 4) else if v = 62 then CHR ''-'' else CHR ''_'')"

definition b64_val :: "char \<Rightarrow> nat option" where
  "b64_val c =
     (let n = (of_char c :: nat)
      in if 65 \<le> n \<and> n \<le> 90 then Some (n - 65)
         else if 97 \<le> n \<and> n \<le> 122 then Some (n - 71)
         else if 48 \<le> n \<and> n \<le> 57 then Some (n + 4)
         else if n = 45 then Some 62 else if n = 95 then Some 63 else None)"

fun b64_sextets :: "bytes \<Rightarrow> nat list" where
  "b64_sextets (a # b # c # r) =
     (let n = of_char a * 65536 + of_char b * 256 + of_char c
      in n div 262144 # n div 4096 mod 64 # n div 64 mod 64 # n mod 64 # b64_sextets r)"
| "b64_sextets [a, b] =
     (let n = of_char a * 65536 + of_char b * 256 in [n div 262144, n div 4096 mod 64, n div 64 mod 64])"
| "b64_sextets [a] = (let n = of_char a * 65536 in [n div 262144, n div 4096 mod 64])"
| "b64_sextets [] = []"

definition b64_encode :: "bytes \<Rightarrow> string" where
  "b64_encode bs = map b64_char (b64_sextets bs)"

fun b64_octets :: "nat list \<Rightarrow> bytes option" where
  "b64_octets (a # b # c # d # r) =
     (let n = a * 262144 + b * 4096 + c * 64 + d
      in map_option ((@) [char_of (n div 65536), char_of (n div 256), char_of n]) (b64_octets r))"
| "b64_octets [a, b, c] =
     (let n = a * 262144 + b * 4096 + c * 64 in Some [char_of (n div 65536), char_of (n div 256)])"
| "b64_octets [a, b] = (let n = a * 262144 + b * 4096 in Some [char_of (n div 65536)])"
| "b64_octets [a] = None"
| "b64_octets [] = Some []"

text \<open>
  The decoder of the library skips carriage returns and line feeds, and (not being strict) ignores
  the unused low bits of a final partial group.
\<close>

definition b64_decode :: "string \<Rightarrow> bytes option" where
  "b64_decode s =
     (case those (map b64_val (filter (\<lambda>c. (of_char c :: nat) \<noteq> 10 \<and> (of_char c :: nat) \<noteq> 13) s)) of
        None \<Rightarrow> None | Some vs \<Rightarrow> b64_octets vs)"

lemma b64_val_char: "v < 64 \<Longrightarrow> b64_val (b64_char v) = Some v"
  by (auto simp: b64_val_def b64_char_def Let_def)

lemma b64_char_no_newline: "v < 64 \<Longrightarrow> (of_char (b64_char v) :: nat) \<noteq> 10 \<and> (of_char (b64_char v) :: nat) \<noteq> 13"
  by (auto simp: b64_char_def)

lemma b64_char_no_dot: "v < 64 \<Longrightarrow> b64_char v \<noteq> CHR ''.''"
proof -
  assume "v < 64"
  then have "b64_val (b64_char v) = Some v" by (rule b64_val_char)
  moreover have "b64_val (CHR ''.'') = None" by (simp add: b64_val_def)
  ultimately show ?thesis by auto
qed

lemma b64_sextets_less: "v \<in> set (b64_sextets bs) \<Longrightarrow> v < 64"
proof (induction bs rule: b64_sextets.induct)
  case (1 a b c r)
  have "(of_char a :: nat) * 65536 + of_char b * 256 + of_char c < 16777216"
    using byte_less [of a] byte_less [of b] byte_less [of c] by linarith
  then have "((of_char a :: nat) * 65536 + of_char b * 256 + of_char c) div 262144 < 64"
    by (simp add: less_mult_imp_div_less)
  then show ?case using 1 by (auto simp: Let_def)
next
  case (2 a b)
  have "(of_char a :: nat) * 65536 + of_char b * 256 < 16777216"
    using byte_less [of a] byte_less [of b] by linarith
  then have "((of_char a :: nat) * 65536 + of_char b * 256) div 262144 < 64"
    by (simp add: less_mult_imp_div_less)
  then show ?case using 2 by (auto simp: Let_def)
next
  case (3 a)
  have "(of_char a :: nat) * 65536 < 16777216"
    using byte_less [of a] by linarith
  then have "((of_char a :: nat) * 65536) div 262144 < 64"
    by (simp add: less_mult_imp_div_less)
  then show ?case using 3 by (auto simp: Let_def)
qed simp

lemma split_24_bits:
  "(n div 262144) * 262144 + (n div 4096 mod 64) * 4096 + (n div 64 mod 64) * 64 + n mod 64 = (n :: nat)"
proof -
  have a: "n = n div 64 * 64 + n mod 64" by simp
  have b: "n div 64 = n div 4096 * 64 + n div 64 mod 64"
    using div_mult_mod_eq [of "n div 64" 64] by (simp add: div_mult2_eq [symmetric])
  have c: "n div 4096 = n div 262144 * 64 + n div 4096 mod 64"
    using div_mult_mod_eq [of "n div 4096" 64] by (simp add: div_mult2_eq [symmetric])
  show ?thesis using a b c by linarith
qed

lemma char_of_byte [simp]: "char_of (k * 256 + of_char c :: nat) = c"
  by (metis char_of_mod_256 char_of_char mod_mult_self3)

lemma bytes_of_24_bits:
  fixes a b c :: char
  defines "n \<equiv> (of_char a :: nat) * 65536 + of_char b * 256 + of_char c"
  shows "n div 65536 = of_char a" "char_of (n div 256) = b" "char_of n = c"
proof -
  have "of_char b * 256 + of_char c < (65536 :: nat)"
    using byte_less [of b] byte_less [of c] by linarith
  then show "n div 65536 = of_char a"
    unfolding n_def by (simp add: add.assoc)
  have n: "n = (of_char a * 256 + of_char b) * 256 + of_char c" by (simp add: n_def)
  have "n div 256 = of_char a * 256 + of_char b"
    unfolding n by (simp add: div_add1_eq)
  then show "char_of (n div 256) = b" by simp
  show "char_of n = c" unfolding n by (rule char_of_byte)
qed

lemma b64_octets_sextets: "b64_octets (b64_sextets bs) = Some bs"
proof (induction bs rule: b64_sextets.induct)
  case (1 a b c r)
  then show ?case
    by (simp add: Let_def split_24_bits bytes_of_24_bits)
next
  case (2 a b)
  let ?n = "(of_char a :: nat) * 65536 + of_char b * 256"
  have z: "?n mod 64 = 0" by (simp add: mod_add_eq [symmetric] mult.commute [of _ 65536] mult.commute [of _ 256] mod_mult_left_eq)
  have "(?n div 262144) * 262144 + (?n div 4096 mod 64) * 4096 + (?n div 64 mod 64) * 64 = ?n"
    using split_24_bits [of ?n] z by simp
  moreover have "char_of (?n div 65536) = a" "char_of (?n div 256) = b"
    using bytes_of_24_bits(1,2) [of a b "CHR 0x00"] by simp_all
  ultimately show ?case by (simp add: Let_def)
next
  case (3 a)
  let ?n = "(of_char a :: nat) * 65536"
  have z: "?n mod 64 = 0" "?n div 64 mod 64 = 0"
    by (simp_all add: mult.assoc [of _ 1024 64, simplified] div_mult_self_is_m)
  have "(?n div 262144) * 262144 + (?n div 4096 mod 64) * 4096 = ?n"
    using split_24_bits [of ?n] z by simp
  then show ?case by (simp add: Let_def)
qed simp

lemma those_map_Some: "(\<And>x. x \<in> set xs \<Longrightarrow> f (g x) = Some x) \<Longrightarrow> those (map f (map g xs)) = Some xs"
  by (induction xs) auto

lemma b64_decode_encode [codec_simps]: "b64_decode (b64_encode bs) = Some bs"
proof -
  have "filter (\<lambda>c. (of_char c :: nat) \<noteq> 10 \<and> (of_char c :: nat) \<noteq> 13) (b64_encode bs) = b64_encode bs"
    by (auto simp: b64_encode_def filter_id_conv dest!: b64_sextets_less b64_char_no_newline)
  moreover have "those (map b64_val (b64_encode bs)) = Some (b64_sextets bs)"
    unfolding b64_encode_def by (rule those_map_Some) (simp add: b64_val_char b64_sextets_less)
  ultimately show ?thesis
    by (simp add: b64_decode_def b64_octets_sextets)
qed

lemma b64_encode_no_dot: "CHR ''.'' \<notin> set (b64_encode bs)"
  using b64_char_no_dot b64_sextets_less by (force simp: b64_encode_def)

lemma b64_sextets_append: "3 dvd length a \<Longrightarrow> b64_sextets (a @ b) = b64_sextets a @ b64_sextets b"
proof (induction a rule: b64_sextets.induct)
  case (1 x y z r)
  then have "3 dvd length r" by (simp add: dvd_def) presburger
  then show ?case using 1 by (simp add: Let_def)
qed (auto dest: dvd_imp_le)

lemma b64_encode_append: "3 dvd length a \<Longrightarrow> b64_encode (a @ b) = b64_encode a @ b64_encode b"
  by (simp add: b64_encode_def b64_sextets_append)

end
