(* ===== verification/Challenge_Record.thy ===== *)
theory Challenge_Record
  imports Codec
begin

text \<open>
  The work policy of a challenge (\<^verbatim>\<open>core/pow/proof.go\<close>) and the compact binary record a stateful
  challenge is stored as (\<^verbatim>\<open>core/pow/challenge_record.go\<close>): both wire versions, encoder and
  decoder. The key-derivation function of the Argon2id library is the parameter \<open>idkey\<close>.

  The encoder writes into a pooled buffer it resets first, so its result does not depend on the
  buffer and the model returns the bytes alone. The decoder is written with checked indexing:
  \<open>RecPanic\<close> is the run-time panic an out-of-range slice would raise.
\<close>

section \<open>Proof policy\<close>

definition AlgorithmSHA256 :: string where "AlgorithmSHA256 = ''sha256''"
definition AlgorithmArgon2ID :: string where "AlgorithmArgon2ID = ''argon2id''"
definition argon2SaltSize :: nat where "argon2SaltSize = 16"
definition argon2ProofSize :: nat where "argon2ProofSize = 32"

record proof_spec =
  ps_Algorithm :: string
  ps_Difficulty :: int
  ps_MemoryKiB :: "32 word"
  ps_Iterations :: "32 word"
  ps_Salt :: bytes

datatype spec_error = SpecDifficulty int | SpecMemory "32 word" | SpecIterations "32 word" | SpecAlgorithm string

definition spec_algorithm :: "proof_spec \<Rightarrow> string" where
  "spec_algorithm s = (if ps_Algorithm s = '''' then AlgorithmSHA256 else ps_Algorithm s)"

definition spec_validate :: "proof_spec \<Rightarrow> spec_error + unit" where
  "spec_validate s =
     (if spec_algorithm s = AlgorithmSHA256 then
        (if ps_Difficulty s < 0 \<or> ps_Difficulty s > 32 then Inl (SpecDifficulty (ps_Difficulty s)) else Inr ())
      else if spec_algorithm s = AlgorithmArgon2ID then
        (if ps_MemoryKiB s < 8 * 1024 \<or> ps_MemoryKiB s > 32 * 1024 then Inl (SpecMemory (ps_MemoryKiB s))
         else if ps_Iterations s < 1 \<or> ps_Iterations s > 3 then Inl (SpecIterations (ps_Iterations s))
         else Inr ())
      else Inl (SpecAlgorithm (ps_Algorithm s)))"

type_synonym idkey = "bytes \<Rightarrow> bytes \<Rightarrow> 32 word \<Rightarrow> 32 word \<Rightarrow> nat \<Rightarrow> nat \<Rightarrow> bytes"

definition verifyArgon2ID :: "idkey \<Rightarrow> string \<Rightarrow> proof_spec \<Rightarrow> string \<Rightarrow> bool" where
  "verifyArgon2ID idkey challenge spec proofHex =
     (if length proofHex \<noteq> 2 * argon2ProofSize then False
      else case hex_decode proofHex of
             None \<Rightarrow> False
           | Some got \<Rightarrow>
               got = idkey challenge (ps_Salt spec) (ps_Iterations spec) (ps_MemoryKiB spec) 1 argon2ProofSize)"

section \<open>The record\<close>

record challenge_record =
  cr_State :: string
  cr_Host :: string
  cr_IP :: string
  cr_ChallengeDigest :: bytes
  cr_Algorithm :: string
  cr_Difficulty :: int
  cr_MemoryKiB :: "32 word"
  cr_Iterations :: "32 word"
  cr_Salt :: bytes
  cr_URI :: string
  cr_NoJS :: bool
  cr_IssuedAt :: int

definition recordStateIssued :: string where "recordStateIssued = ''issued''"
definition recordStateSpent :: string where "recordStateSpent = ''spent''"
definition challengeRecordMagic :: bytes where "challengeRecordMagic = ''AGCR''"
definition challengeRecordFixedSize :: nat where "challengeRecordFixedSize = 60"
definition challengeRecordV2FixedSize :: nat where "challengeRecordV2FixedSize = 84"
definition challengeRecordMaxFieldSize :: nat where "challengeRecordMaxFieldSize = 2 ^ 32 - 1"

datatype record_error =
    RecMagic | RecTruncated | RecVersion char | RecShort nat | RecState string | RecStateByte char
  | RecFlags char | RecReserved | RecLengths | RecDifficulty int | RecFieldSize | RecPlatform | RecSize nat
  | RecSpec spec_error | RecPanic

definition cr_proofSpec :: "challenge_record \<Rightarrow> proof_spec" where
  "cr_proofSpec r = \<lparr>ps_Algorithm = cr_Algorithm r, ps_Difficulty = cr_Difficulty r,
     ps_MemoryKiB = cr_MemoryKiB r, ps_Iterations = cr_Iterations r, ps_Salt = cr_Salt r\<rparr>"

definition binaryRecordState :: "string \<Rightarrow> record_error + char" where
  "binaryRecordState st =
     (if st = recordStateIssued then Inr (char_of (1 :: nat))
      else if st = recordStateSpent then Inr (char_of (2 :: nat)) else Inl (RecState st))"

definition logicalRecordState :: "char \<Rightarrow> record_error + string" where
  "logicalRecordState b =
     (if b = char_of (1 :: nat) then Inr recordStateIssued
      else if b = char_of (2 :: nat) then Inr recordStateSpent else Inl (RecStateByte b))"

definition flag_byte :: "bool \<Rightarrow> char" where
  "flag_byte nojs = char_of (if nojs then 1 else 0 :: nat)"

definition issued_bytes :: "int \<Rightarrow> bytes" where
  "issued_bytes t = be_bytes 8 (nat (t mod 2 ^ 64))"

definition issued_val :: "bytes \<Rightarrow> int" where
  "issued_val bs = wrap64 (int (be_val bs))"

definition record_tail :: "challenge_record \<Rightarrow> bytes" where
  "record_tail rec = be_bytes 4 (length (cr_Host rec)) @ be_bytes 4 (length (cr_IP rec)) @
     be_bytes 4 (length (cr_URI rec)) @ cr_Host rec @ cr_IP rec @ cr_URI rec"

definition fields_too_long :: "challenge_record \<Rightarrow> bool" where
  "fields_too_long rec \<longleftrightarrow> length (cr_Host rec) > challengeRecordMaxFieldSize \<or>
     length (cr_IP rec) > challengeRecordMaxFieldSize \<or> length (cr_URI rec) > challengeRecordMaxFieldSize"

definition payload_size :: "challenge_record \<Rightarrow> nat" where
  "payload_size rec = length (cr_Host rec) + length (cr_IP rec) + length (cr_URI rec)"

definition encodeChallengeRecordV2 :: "challenge_record \<Rightarrow> record_error + bytes" where
  "encodeChallengeRecordV2 rec =
     gobind (binaryRecordState (cr_State rec)) (\<lambda>state.
       case spec_validate (cr_proofSpec rec) of
         Inl e \<Rightarrow> Inl (RecSpec e)
       | Inr _ \<Rightarrow>
           if fields_too_long rec then Inl RecFieldSize
           else if payload_size rec > 2 ^ 63 - 1 - challengeRecordV2FixedSize then Inl RecPlatform
           else let total = challengeRecordV2FixedSize + payload_size rec;
                    encoded = challengeRecordMagic @ [char_of (2 :: nat), state] @
                      [flag_byte (cr_NoJS rec), char_of (1 :: nat), char_of (0 :: nat),
                       char_of (unat (cr_Iterations rec)), char_of (0 :: nat), char_of (0 :: nat)] @
                      issued_bytes (cr_IssuedAt rec) @ cr_ChallengeDigest rec @ cr_Salt rec @
                      be_bytes 4 (unat (cr_MemoryKiB rec)) @ record_tail rec
                in if length encoded \<noteq> total then Inl (RecSize (length encoded)) else Inr encoded)"

definition encodeChallengeRecord :: "challenge_record \<Rightarrow> record_error + bytes" where
  "encodeChallengeRecord rec =
     (if spec_algorithm (cr_proofSpec rec) = AlgorithmArgon2ID then encodeChallengeRecordV2 rec
      else gobind (binaryRecordState (cr_State rec)) (\<lambda>state.
        if cr_Difficulty rec < 0 \<or> cr_Difficulty rec > 255 then Inl (RecDifficulty (cr_Difficulty rec))
        else if fields_too_long rec then Inl RecFieldSize
        else if payload_size rec > 2 ^ 63 - 1 - challengeRecordFixedSize then Inl RecPlatform
        else let total = challengeRecordFixedSize + payload_size rec;
                 encoded = challengeRecordMagic @ [char_of (1 :: nat), state] @
                   [flag_byte (cr_NoJS rec), char_of (nat (cr_Difficulty rec))] @
                   issued_bytes (cr_IssuedAt rec) @ cr_ChallengeDigest rec @ record_tail rec
             in if length encoded \<noteq> total then Inl (RecSize (length encoded)) else Inr encoded))"

definition byte_at :: "bytes \<Rightarrow> nat \<Rightarrow> record_error + char" where
  "byte_at raw i = no_panic RecPanic (at_index raw i)"

definition slice_at :: "bytes \<Rightarrow> nat \<Rightarrow> nat \<Rightarrow> record_error + bytes" where
  "slice_at raw lo hi = no_panic RecPanic (slice raw lo hi)"

text \<open>
  The three length fields at \<open>off\<close>, the check that they add up to what follows the fixed part, and
  the three strings that follow: the part the two decoders share.
\<close>

definition read_fields :: "bytes \<Rightarrow> nat \<Rightarrow> nat \<Rightarrow> record_error + (string \<times> string \<times> string)" where
  "read_fields raw off fixed =
     gobind (slice_at raw off (off + 4)) (\<lambda>h. gobind (slice_at raw (off + 4) (off + 8)) (\<lambda>i.
     gobind (slice_at raw (off + 8) (off + 12)) (\<lambda>u.
       let hostLen = be_val h; ipLen = be_val i; uriLen = be_val u
       in if hostLen + ipLen + uriLen \<noteq> length raw - fixed then Inl RecLengths
          else gobind (slice_at raw fixed (fixed + hostLen)) (\<lambda>host.
               gobind (slice_at raw (fixed + hostLen) (fixed + hostLen + ipLen)) (\<lambda>ip.
               gobind (slice_at raw (fixed + hostLen + ipLen) (fixed + hostLen + ipLen + uriLen)) (\<lambda>uri.
                 Inr (host, ip, uri)))))))"

definition unknown_flags :: "char \<Rightarrow> bool" where
  "unknown_flags f \<longleftrightarrow> unset_bit 0 (of_char f :: nat) \<noteq> 0"

definition nojs_flag :: "char \<Rightarrow> bool" where
  "nojs_flag f \<longleftrightarrow> bit (of_char f :: nat) 0"

definition decodeBinaryChallengeRecordV2 :: "bytes \<Rightarrow> record_error + challenge_record" where
  "decodeBinaryChallengeRecordV2 raw =
     (if length raw < challengeRecordV2FixedSize then Inl (RecShort (length raw))
      else gobind (byte_at raw 5) (\<lambda>sb. gobind (logicalRecordState sb) (\<lambda>state.
        gobind (byte_at raw 6) (\<lambda>flags. gobind (byte_at raw 7) (\<lambda>b7.
        gobind (byte_at raw 10) (\<lambda>b10. gobind (byte_at raw 11) (\<lambda>b11.
          if unknown_flags flags \<or> b7 \<noteq> char_of (1 :: nat) \<or> b10 \<noteq> char_of (0 :: nat) \<or> b11 \<noteq> char_of (0 :: nat)
          then Inl RecReserved
          else gobind (read_fields raw 72 challengeRecordV2FixedSize) (\<lambda>(host, ip, uri).
            gobind (byte_at raw 9) (\<lambda>it. gobind (slice_at raw 68 72) (\<lambda>mem.
            gobind (slice_at raw 12 20) (\<lambda>iss. gobind (slice_at raw 20 52) (\<lambda>dig.
            gobind (slice_at raw 52 68) (\<lambda>salt.
              let rec = \<lparr>cr_State = state, cr_Host = host, cr_IP = ip, cr_ChallengeDigest = dig,
                    cr_Algorithm = AlgorithmArgon2ID, cr_Difficulty = 0,
                    cr_MemoryKiB = word_of_nat (be_val mem), cr_Iterations = word_of_nat (of_char it),
                    cr_Salt = salt, cr_URI = uri, cr_NoJS = nojs_flag flags, cr_IssuedAt = issued_val iss\<rparr>
              in case spec_validate (cr_proofSpec rec) of
                   Inl e \<Rightarrow> Inl (RecSpec e) | Inr _ \<Rightarrow> Inr rec)))))))))))))"

definition decodeBinaryChallengeRecord :: "bytes \<Rightarrow> record_error + challenge_record" where
  "decodeBinaryChallengeRecord raw =
     (if length raw \<le> 4 then Inl RecTruncated
      else gobind (byte_at raw 4) (\<lambda>version.
        if version = char_of (2 :: nat) then decodeBinaryChallengeRecordV2 raw
        else if version \<noteq> char_of (1 :: nat) then Inl (RecVersion version)
        else if length raw < challengeRecordFixedSize then Inl (RecShort (length raw))
        else gobind (byte_at raw 5) (\<lambda>sb. gobind (logicalRecordState sb) (\<lambda>state.
          gobind (byte_at raw 6) (\<lambda>flags.
            if unknown_flags flags then Inl (RecFlags flags)
            else gobind (read_fields raw 48 challengeRecordFixedSize) (\<lambda>(host, ip, uri).
              gobind (byte_at raw 7) (\<lambda>dif. gobind (slice_at raw 8 16) (\<lambda>iss.
              gobind (slice_at raw 16 48) (\<lambda>dig.
                Inr \<lparr>cr_State = state, cr_Host = host, cr_IP = ip, cr_ChallengeDigest = dig,
                  cr_Algorithm = '''', cr_Difficulty = int (of_char dif), cr_MemoryKiB = 0,
                  cr_Iterations = 0, cr_Salt = replicate argon2SaltSize (char_of (0 :: nat)),
                  cr_URI = uri, cr_NoJS = nojs_flag flags, cr_IssuedAt = issued_val iss\<rparr>)))))))))"

definition decodeChallengeRecord :: "bytes \<Rightarrow> record_error + challenge_record" where
  "decodeChallengeRecord raw =
     (if length raw < length challengeRecordMagic \<or> take (length challengeRecordMagic) raw \<noteq> challengeRecordMagic
      then Inl RecMagic else decodeBinaryChallengeRecord raw)"

definition appendChallengeText :: "challenge_record \<Rightarrow> bytes \<Rightarrow> bytes" where
  "appendChallengeText r dst = dst @ hex_encode (cr_ChallengeDigest r)"

section \<open>Well-formed records and what the wire keeps of them\<close>

text \<open>
  The fixed-size arrays of the Go struct have their sizes and the 64-bit field is in range.
\<close>

definition record_ok :: "challenge_record \<Rightarrow> bool" where
  "record_ok r \<longleftrightarrow> length (cr_ChallengeDigest r) = 32 \<and> length (cr_Salt r) = argon2SaltSize \<and> int64 (cr_IssuedAt r)"

definition zero_salt :: bytes where "zero_salt = replicate argon2SaltSize (char_of (0 :: nat))"

text \<open>
  Version 1 carries no algorithm and no Argon2id parameters, version 2 no difficulty: \<open>wire_view r\<close>
  is the record with the fields its version leaves out at their zero values.
\<close>

definition wire_view :: "challenge_record \<Rightarrow> challenge_record" where
  "wire_view r =
     (if spec_algorithm (cr_proofSpec r) = AlgorithmArgon2ID then r\<lparr>cr_Difficulty := 0\<rparr>
      else r\<lparr>cr_Algorithm := '''', cr_MemoryKiB := 0, cr_Iterations := 0, cr_Salt := zero_salt\<rparr>)"

lemmas record_defs = challengeRecordMagic_def challengeRecordFixedSize_def challengeRecordV2FixedSize_def
  challengeRecordMaxFieldSize_def argon2SaltSize_def
lemmas read_defs = byte_at_def slice_at_def at_index_def slice_def

lemma state_round_trip: "binaryRecordState st = Inr b \<Longrightarrow> logicalRecordState b = Inr st"
  by (auto simp: binaryRecordState_def logicalRecordState_def split: if_splits)

lemma state_canonical: "logicalRecordState b = Inr st \<Longrightarrow> binaryRecordState st = Inr b"
  by (auto simp: binaryRecordState_def logicalRecordState_def recordStateIssued_def recordStateSpent_def
      split: if_splits)

lemma logicalRecordState_no_panic: "logicalRecordState b \<noteq> Inl RecPanic"
  by (simp add: logicalRecordState_def)

lemma flag_round_trip [simp]: "\<not> unknown_flags (flag_byte b)" "nojs_flag (flag_byte b) = b"
  by (simp_all add: unknown_flags_def nojs_flag_def flag_byte_def bit_0 unset_bit_0)

lemma flag_canonical: "\<not> unknown_flags f \<Longrightarrow> flag_byte (nojs_flag f) = f"
proof -
  assume "\<not> unknown_flags f"
  then have "2 * ((of_char f :: nat) div 2) = 0" by (simp add: unknown_flags_def unset_bit_0)
  then have "(of_char f :: nat) < 2" by simp
  then have "(of_char f :: nat) = 0 \<or> (of_char f :: nat) = 1" by linarith
  then have "of_char (flag_byte (nojs_flag f)) = (of_char f :: nat)"
    by (auto simp: flag_byte_def nojs_flag_def bit_0)
  then show ?thesis by (metis char_of_char)
qed

lemma length_issued_bytes [simp]: "length (issued_bytes t) = 8"
  by (simp add: issued_bytes_def)

lemma issued_round_trip: "int64 t \<Longrightarrow> issued_val (issued_bytes t) = t"
proof -
  assume t: "int64 t"
  have "be_val (issued_bytes t) = nat (t mod 2 ^ 64)"
    by (simp add: issued_bytes_def be_val_be_bytes nat_less_iff)
  then have "issued_val (issued_bytes t) = wrap64 (t mod 2 ^ 64)"
    by (simp add: issued_val_def)
  also have "\<dots> = wrap64 t" by (simp add: wrap64_def mod_add_left_eq)
  finally show ?thesis using t by (simp add: wrap64_id)
qed

lemma issued_canonical: "length bs = 8 \<Longrightarrow> issued_bytes (issued_val bs) = bs"
proof -
  assume l: "length bs = 8"
  have b: "be_val bs < 2 ^ 64" using be_val_less [of bs] l by simp
  have "issued_val bs mod 2 ^ 64 = int (be_val bs) mod 2 ^ 64"
    by (simp add: issued_val_def wrap64_def mod_diff_left_eq)
  also have "\<dots> = int (be_val bs)" using b by simp
  finally have "nat (issued_val bs mod 2 ^ 64) = be_val bs" by simp
  then show ?thesis
    using be_bytes_be_val [of bs] l by (simp add: issued_bytes_def)
qed

section \<open>The length-prefixed fields\<close>

lemma be4: "n \<le> 2 ^ 32 - 1 \<Longrightarrow> be_val (be_bytes 4 n) = n"
  by (simp add: be_val_be_bytes)

lemma read_fields_append:
  assumes "length pre = off" "fixed = off + 12"
    and "length h \<le> 2 ^ 32 - 1" "length i \<le> 2 ^ 32 - 1" "length u \<le> 2 ^ 32 - 1"
  shows "read_fields (pre @ be_bytes 4 (length h) @ be_bytes 4 (length i) @ be_bytes 4 (length u) @ h @ i @ u)
           off fixed = Inr (h, i, u)"
  using assms by (simp add: read_fields_def slice_at_def slice_def be4 Let_def)

lemma read_fields_no_panic:
  assumes "fixed = off + 12" "fixed \<le> length raw"
  shows "read_fields raw off fixed \<noteq> Inl RecPanic"
  using assms by (simp add: read_fields_def slice_at_def slice_def Let_def) linarith

lemma take_drop_split: "take n (drop a xs) @ drop (a + n) xs = drop a xs"
  by (metis append_take_drop_id drop_drop add.commute)

lemma read_fields_canonical:
  assumes r: "read_fields raw off fixed = Inr (h, i, u)" and f: "fixed = off + 12" "fixed \<le> length raw"
  shows "drop off raw = be_bytes 4 (length h) @ be_bytes 4 (length i) @ be_bytes 4 (length u) @ h @ i @ u"
    and "length h \<le> 2 ^ 32 - 1" "length i \<le> 2 ^ 32 - 1" "length u \<le> 2 ^ 32 - 1"
proof -
  define H I U where "H = take 4 (drop off raw)" and "I = take 4 (drop (off + 4) raw)"
    and "U = take 4 (drop (off + 8) raw)"
  have l: "length H = 4" "length I = 4" "length U = 4" using f by (simp_all add: H_def I_def U_def)
  have sum: "be_val H + be_val I + be_val U = length raw - fixed"
    and h: "h = take (be_val H) (drop fixed raw)"
    and i: "i = take (be_val I) (drop (fixed + be_val H) raw)"
    and u: "u = take (be_val U) (drop (fixed + be_val H + be_val I) raw)"
    using r f by (auto simp: read_fields_def slice_at_def slice_def Let_def H_def I_def U_def split: if_splits)
  have len: "length h = be_val H" "length i = be_val I" "length u = be_val U"
    using sum f by (simp_all add: h i u)
  have "drop fixed raw = h @ i @ u"
  proof -
    have "u = drop (fixed + be_val H + be_val I) raw" using sum by (simp add: u)
    then show ?thesis using take_drop_split by (metis h i)
  qed
  then have "drop off raw = H @ I @ U @ h @ i @ u"
    unfolding H_def I_def U_def using f take_drop_split [of 4 "off + 8" raw] take_drop_split [of 4 "off + 4" raw]
      take_drop_split [of 4 off raw] by (simp add: add.commute)
  moreover have "be_bytes 4 (length h) = H" "be_bytes 4 (length i) = I" "be_bytes 4 (length u) = U"
    using len l by (metis be_bytes_be_val)+
  ultimately show "drop off raw = be_bytes 4 (length h) @ be_bytes 4 (length i) @ be_bytes 4 (length u) @ h @ i @ u"
    by simp
  show "length h \<le> 2 ^ 32 - 1" "length i \<le> 2 ^ 32 - 1" "length u \<le> 2 ^ 32 - 1"
    using be_val_less [of H] be_val_less [of I] be_val_less [of U] l len by simp_all
qed

section \<open>Round trips\<close>

lemma encode_v1_bytes:
  assumes e: "encodeChallengeRecord r = Inr raw" and a: "spec_algorithm (cr_proofSpec r) \<noteq> AlgorithmArgon2ID"
  obtains b where "binaryRecordState (cr_State r) = Inr b" "0 \<le> cr_Difficulty r" "cr_Difficulty r \<le> 255"
    "\<not> fields_too_long r"
    "raw = challengeRecordMagic @ [char_of (1 :: nat), b] @ [flag_byte (cr_NoJS r), char_of (nat (cr_Difficulty r))] @
       issued_bytes (cr_IssuedAt r) @ cr_ChallengeDigest r @ record_tail r"
  using e a by (auto simp: encodeChallengeRecord_def gobind_eq_Inr Let_def split: if_splits)

lemma encode_v2_bytes:
  assumes e: "encodeChallengeRecord r = Inr raw" and a: "spec_algorithm (cr_proofSpec r) = AlgorithmArgon2ID"
  obtains b where "binaryRecordState (cr_State r) = Inr b" "spec_validate (cr_proofSpec r) = Inr ()"
    "\<not> fields_too_long r"
    "raw = challengeRecordMagic @ [char_of (2 :: nat), b] @
       [flag_byte (cr_NoJS r), char_of (1 :: nat), char_of (0 :: nat), char_of (unat (cr_Iterations r)),
        char_of (0 :: nat), char_of (0 :: nat)] @
       issued_bytes (cr_IssuedAt r) @ cr_ChallengeDigest r @ cr_Salt r @
       be_bytes 4 (unat (cr_MemoryKiB r)) @ record_tail r"
  using e a by (auto simp: encodeChallengeRecord_def encodeChallengeRecordV2_def gobind_eq_Inr Let_def
      split: if_splits sum.splits)

lemma decode_v1_bytes:
  assumes "length iss = 8" "length dg = 32"
    and "length h \<le> 2 ^ 32 - 1" "length i \<le> 2 ^ 32 - 1" "length u \<le> 2 ^ 32 - 1"
    and "logicalRecordState b = Inr st" "\<not> unknown_flags f"
  shows "decodeChallengeRecord (challengeRecordMagic @ [char_of (1 :: nat), b] @ [f, d] @ iss @ dg @
           be_bytes 4 (length h) @ be_bytes 4 (length i) @ be_bytes 4 (length u) @ h @ i @ u) =
         Inr \<lparr>cr_State = st, cr_Host = h, cr_IP = i, cr_ChallengeDigest = dg, cr_Algorithm = '''',
           cr_Difficulty = int (of_char d), cr_MemoryKiB = 0, cr_Iterations = 0, cr_Salt = zero_salt,
           cr_URI = u, cr_NoJS = nojs_flag f, cr_IssuedAt = issued_val iss\<rparr>"
proof -
  define pre where "pre = challengeRecordMagic @ [char_of (1 :: nat), b] @ [f, d] @ iss @ dg"
  define tl where "tl = be_bytes 4 (length h) @ be_bytes 4 (length i) @ be_bytes 4 (length u) @ h @ i @ u"
  have l: "length pre = 48" using assms(1,2) by (simp add: pre_def record_defs)
  have lt: "length tl \<ge> 12" by (simp add: tl_def)
  have rf: "read_fields (pre @ tl) 48 challengeRecordFixedSize = Inr (h, i, u)"
    unfolding tl_def by (rule read_fields_append) (use assms l in \<open>simp_all add: record_defs\<close>)
  have ix: "at_index (pre @ tl) 4 = Some (char_of (1 :: nat))" "at_index (pre @ tl) 5 = Some b"
    "at_index (pre @ tl) 6 = Some f" "at_index (pre @ tl) 7 = Some d"
    by (simp_all add: at_index_def pre_def record_defs)
  have sl: "slice (pre @ tl) 8 16 = Some iss" "slice (pre @ tl) 16 48 = Some dg"
    using assms(1,2) by (simp_all add: slice_def pre_def record_defs)
  have mg: "take (length challengeRecordMagic) (pre @ tl) = challengeRecordMagic"
    by (simp add: pre_def)
  have "decodeChallengeRecord (pre @ tl) =
         Inr \<lparr>cr_State = st, cr_Host = h, cr_IP = i, cr_ChallengeDigest = dg, cr_Algorithm = '''',
           cr_Difficulty = int (of_char d), cr_MemoryKiB = 0, cr_Iterations = 0, cr_Salt = zero_salt,
           cr_URI = u, cr_NoJS = nojs_flag f, cr_IssuedAt = issued_val iss\<rparr>"
    unfolding decodeChallengeRecord_def decodeBinaryChallengeRecord_def mg byte_at_def slice_at_def ix sl rf
    using assms(6,7) l lt by (simp add: challengeRecordMagic_def challengeRecordFixedSize_def zero_salt_def)
  then show ?thesis by (simp add: pre_def tl_def)
qed

lemma decode_v2_bytes:
  fixes it x :: char
  assumes "length iss = 8" "length dg = 32" "length salt = 16" "length mem = 4"
    and "length h \<le> 2 ^ 32 - 1" "length i \<le> 2 ^ 32 - 1" "length u \<le> 2 ^ 32 - 1"
    and "logicalRecordState b = Inr st" "\<not> unknown_flags f"
  defines "rec \<equiv> \<lparr>cr_State = st, cr_Host = h, cr_IP = i, cr_ChallengeDigest = dg, cr_Algorithm = AlgorithmArgon2ID,
           cr_Difficulty = 0, cr_MemoryKiB = word_of_nat (be_val mem), cr_Iterations = word_of_nat (of_char it),
           cr_Salt = salt, cr_URI = u, cr_NoJS = nojs_flag f, cr_IssuedAt = issued_val iss\<rparr>"
  assumes "spec_validate (cr_proofSpec rec) = Inr ()"
  shows "decodeChallengeRecord (challengeRecordMagic @ [char_of (2 :: nat), b] @
           [f, char_of (1 :: nat), x, it, char_of (0 :: nat), char_of (0 :: nat)] @ iss @ dg @ salt @ mem @
           be_bytes 4 (length h) @ be_bytes 4 (length i) @ be_bytes 4 (length u) @ h @ i @ u) = Inr rec"
proof -
  define pre where "pre = challengeRecordMagic @ [char_of (2 :: nat), b] @
    [f, char_of (1 :: nat), x, it, char_of (0 :: nat), char_of (0 :: nat)] @ iss @ dg @ salt @ mem"
  define tl where "tl = be_bytes 4 (length h) @ be_bytes 4 (length i) @ be_bytes 4 (length u) @ h @ i @ u"
  have l: "length pre = 72" using assms(1-4) by (simp add: pre_def record_defs)
  have lt: "length tl \<ge> 12" by (simp add: tl_def)
  have rf: "read_fields (pre @ tl) 72 challengeRecordV2FixedSize = Inr (h, i, u)"
    unfolding tl_def by (rule read_fields_append) (use assms l in \<open>simp_all add: record_defs\<close>)
  have ix: "at_index (pre @ tl) 4 = Some (char_of (2 :: nat))" "at_index (pre @ tl) 5 = Some b"
    "at_index (pre @ tl) 6 = Some f" "at_index (pre @ tl) 7 = Some (char_of (1 :: nat))"
    "at_index (pre @ tl) 9 = Some it" "at_index (pre @ tl) 10 = Some (char_of (0 :: nat))"
    "at_index (pre @ tl) 11 = Some (char_of (0 :: nat))"
    by (simp_all add: at_index_def pre_def record_defs)
  have sl: "slice (pre @ tl) 12 20 = Some iss" "slice (pre @ tl) 20 52 = Some dg"
    "slice (pre @ tl) 52 68 = Some salt" "slice (pre @ tl) 68 72 = Some mem"
    using assms(1-4) by (simp_all add: slice_def pre_def record_defs)
  have mg: "take (length challengeRecordMagic) (pre @ tl) = challengeRecordMagic"
    by (simp add: pre_def)
  have "decodeChallengeRecord (pre @ tl) = Inr rec"
    unfolding decodeChallengeRecord_def decodeBinaryChallengeRecord_def decodeBinaryChallengeRecordV2_def mg
      byte_at_def slice_at_def ix sl rf
    using assms(8,9,11) l lt
    by (simp add: challengeRecordMagic_def challengeRecordV2FixedSize_def rec_def)
  then show ?thesis by (simp add: pre_def tl_def)
qed

lemma validate_iterations: "spec_algorithm s = AlgorithmArgon2ID \<Longrightarrow> spec_validate s = Inr () \<Longrightarrow> unat (ps_Iterations s) \<le> 3"
proof -
  assume "spec_algorithm s = AlgorithmArgon2ID" "spec_validate s = Inr ()"
  then have "\<not> ps_Iterations s > 3"
    by (auto simp: spec_validate_def AlgorithmArgon2ID_def AlgorithmSHA256_def split: if_splits)
  then have "ps_Iterations s \<le> 3" by simp
  then show ?thesis by (simp add: word_le_nat_alt)
qed

lemma argon_algorithm: "spec_algorithm s = AlgorithmArgon2ID \<longleftrightarrow> ps_Algorithm s = AlgorithmArgon2ID"
  by (simp add: spec_algorithm_def AlgorithmArgon2ID_def AlgorithmSHA256_def)

lemma validate_view:
  "cr_Algorithm r = AlgorithmArgon2ID \<Longrightarrow>
   spec_validate (cr_proofSpec (r\<lparr>cr_Difficulty := d\<rparr>)) = spec_validate (cr_proofSpec r)"
  by (simp add: spec_validate_def cr_proofSpec_def spec_algorithm_def AlgorithmArgon2ID_def AlgorithmSHA256_def)

lemma decode_encode:
  assumes ok: "record_ok r" and e: "encodeChallengeRecord r = Inr raw"
  shows "decodeChallengeRecord raw = Inr (wire_view r)"
proof (cases "spec_algorithm (cr_proofSpec r) = AlgorithmArgon2ID")
  case False
  from encode_v1_bytes [OF e False] obtain b where b: "binaryRecordState (cr_State r) = Inr b"
    and d: "0 \<le> cr_Difficulty r" "cr_Difficulty r \<le> 255" and nf: "\<not> fields_too_long r"
    and raw: "raw = challengeRecordMagic @ [char_of (1 :: nat), b] @
       [flag_byte (cr_NoJS r), char_of (nat (cr_Difficulty r))] @
       issued_bytes (cr_IssuedAt r) @ cr_ChallengeDigest r @ record_tail r" by blast
  have "int (of_char (char_of (nat (cr_Difficulty r)) :: char)) = cr_Difficulty r" using d by simp
  then show ?thesis
    using False ok nf unfolding raw record_tail_def
    by (subst decode_v1_bytes)
      (auto simp: record_ok_def fields_too_long_def challengeRecordMaxFieldSize_def state_round_trip [OF b]
        issued_round_trip wire_view_def)
next
  case True
  from encode_v2_bytes [OF e True] obtain b where b: "binaryRecordState (cr_State r) = Inr b"
    and v: "spec_validate (cr_proofSpec r) = Inr ()" and nf: "\<not> fields_too_long r"
    and raw: "raw = challengeRecordMagic @ [char_of (2 :: nat), b] @
       [flag_byte (cr_NoJS r), char_of (1 :: nat), char_of (0 :: nat), char_of (unat (cr_Iterations r)),
        char_of (0 :: nat), char_of (0 :: nat)] @
       issued_bytes (cr_IssuedAt r) @ cr_ChallengeDigest r @ cr_Salt r @
       be_bytes 4 (unat (cr_MemoryKiB r)) @ record_tail r" by blast
  have "unat (cr_Iterations r) \<le> 3" using validate_iterations [OF True v] by (simp add: cr_proofSpec_def)
  then have it: "unat (cr_Iterations r) mod 256 = unat (cr_Iterations r)" by simp
  have "unat (cr_MemoryKiB r) < 2 ^ 32" using unsigned_less [of "cr_MemoryKiB r"] by simp
  then have mem: "word_of_nat (be_val (be_bytes 4 (unat (cr_MemoryKiB r)))) = cr_MemoryKiB r"
    by (simp add: be_val_be_bytes)
  have alg: "cr_Algorithm r = AlgorithmArgon2ID" using True by (simp add: argon_algorithm cr_proofSpec_def)
  let ?rec = "\<lparr>cr_State = cr_State r, cr_Host = cr_Host r, cr_IP = cr_IP r,
     cr_ChallengeDigest = cr_ChallengeDigest r, cr_Algorithm = AlgorithmArgon2ID, cr_Difficulty = 0,
     cr_MemoryKiB = cr_MemoryKiB r, cr_Iterations = cr_Iterations r, cr_Salt = cr_Salt r, cr_URI = cr_URI r,
     cr_NoJS = cr_NoJS r, cr_IssuedAt = cr_IssuedAt r\<rparr>"
  have view: "?rec = wire_view r" using True alg by (simp add: wire_view_def)
  have "spec_validate (cr_proofSpec ?rec) = Inr ()"
    unfolding view using True v alg by (simp add: wire_view_def validate_view)
  then show ?thesis
    using ok nf unfolding raw record_tail_def
    by (subst decode_v2_bytes)
      (auto simp: record_ok_def fields_too_long_def challengeRecordMaxFieldSize_def state_round_trip [OF b]
        issued_round_trip it mem argon2SaltSize_def simp flip: view)
qed

text \<open>
  C39 (roundtrip). Whatever record the manager encodes, decoding the bytes gives it back, with the
  fields its wire version does not carry at their zero values: state, host, address, redirect URI
  (arbitrary bytes), digest, difficulty or Argon2id work parameters, salt, no-JS flag and issue time
  all survive.
\<close>

theorem record_round_trip:
  assumes "record_ok r" "encodeChallengeRecord r = Inr raw"
  shows "decodeChallengeRecord raw = Inr (wire_view r)"
  by (rule decode_encode [OF assms])

text \<open>
  The decoder never indexes or slices out of range, whatever bytes the store returns:
  every access is behind the length check that covers it, so no input makes it panic.
\<close>

theorem decode_never_panics: "decodeChallengeRecord raw \<noteq> Inl RecPanic"
proof -
  have v2: "decodeBinaryChallengeRecordV2 raw \<noteq> Inl RecPanic"
  proof (cases "length raw < challengeRecordV2FixedSize")
    case False
    then have "read_fields raw 72 challengeRecordV2FixedSize \<noteq> Inl RecPanic"
      by (intro read_fields_no_panic) (simp_all add: challengeRecordV2FixedSize_def)
    then show ?thesis using False logicalRecordState_no_panic [of "raw ! 5"]
      by (auto simp: decodeBinaryChallengeRecordV2_def read_defs challengeRecordV2FixedSize_def Let_def
          gobind_def split: sum.split prod.split)
  qed (simp add: decodeBinaryChallengeRecordV2_def)
  show ?thesis
  proof (cases "length raw < challengeRecordFixedSize")
    case False
    then have "read_fields raw 48 challengeRecordFixedSize \<noteq> Inl RecPanic"
      by (intro read_fields_no_panic) (simp_all add: challengeRecordFixedSize_def)
    then show ?thesis using False v2 logicalRecordState_no_panic [of "raw ! 5"]
      by (auto simp: decodeChallengeRecord_def decodeBinaryChallengeRecord_def read_defs challengeRecordFixedSize_def
          gobind_def split: sum.split prod.split)
  qed (use v2 in \<open>simp add: decodeChallengeRecord_def decodeBinaryChallengeRecord_def read_defs\<close>)
qed

section \<open>Accepted bytes are canonical\<close>

lemma drop_step: "i < length xs \<Longrightarrow> drop i xs = xs ! i # drop (Suc i) xs"
  by (simp add: Cons_nth_drop_Suc)

lemma record_split:
  assumes "8 \<le> length raw" "take (length challengeRecordMagic) raw = challengeRecordMagic"
  shows "raw = challengeRecordMagic @ [raw ! 4, raw ! 5] @ [raw ! 6, raw ! 7] @ drop 8 raw"
proof -
  have "drop 4 raw = raw ! 4 # raw ! 5 # raw ! 6 # raw ! 7 # drop 8 raw"
    using assms(1) by (simp add: drop_step [of 4] drop_step [of 5] drop_step [of 6] drop_step [of 7])
  then show ?thesis
    using assms(2) append_take_drop_id [of "length challengeRecordMagic" raw]
    by (simp add: challengeRecordMagic_def numeral_eq_Suc del: append_take_drop_id)
qed

lemma check_then_return:
  "(case c of Inl e \<Rightarrow> Inl (f e) | Inr (_ :: unit) \<Rightarrow> Inr x) = Inr y \<longleftrightarrow> c = Inr () \<and> x = y"
  by (cases c) auto

lemma decode_v1_fields:
  assumes d: "decodeChallengeRecord raw = Inr r" and v: "raw ! 4 \<noteq> char_of (2 :: nat)"
  obtains "60 \<le> length raw" "raw ! 4 = char_of (1 :: nat)" "logicalRecordState (raw ! 5) = Inr (cr_State r)"
    "\<not> unknown_flags (raw ! 6)" "take (length challengeRecordMagic) raw = challengeRecordMagic"
    "read_fields raw 48 60 = Inr (cr_Host r, cr_IP r, cr_URI r)"
    "r = \<lparr>cr_State = cr_State r, cr_Host = cr_Host r, cr_IP = cr_IP r, cr_ChallengeDigest = take 32 (drop 16 raw),
       cr_Algorithm = '''', cr_Difficulty = int (of_char (raw ! 7)), cr_MemoryKiB = 0, cr_Iterations = 0,
       cr_Salt = zero_salt, cr_URI = cr_URI r, cr_NoJS = nojs_flag (raw ! 6),
       cr_IssuedAt = issued_val (take 8 (drop 8 raw))\<rparr>"
proof -
  have m: "take (length challengeRecordMagic) raw = challengeRecordMagic"
    and b: "decodeBinaryChallengeRecord raw = Inr r"
    using d by (auto simp: decodeChallengeRecord_def split: if_splits)
  have l: "60 \<le> length raw" and v1: "raw ! 4 = char_of (1 :: nat)"
    using b v by (auto simp: decodeBinaryChallengeRecord_def byte_at_def at_index_def challengeRecordFixedSize_def
        split: if_splits)
  have at: "byte_at raw 4 = Inr (raw ! 4)" "byte_at raw 5 = Inr (raw ! 5)" "byte_at raw 6 = Inr (raw ! 6)"
    "byte_at raw 7 = Inr (raw ! 7)" "slice_at raw 8 16 = Inr (take 8 (drop 8 raw))"
    "slice_at raw 16 48 = Inr (take 32 (drop 16 raw))"
    using l by (simp_all add: read_defs)
  show thesis
    using b l v v1 m
    by (auto simp: decodeBinaryChallengeRecord_def at gobind_eq_Inr challengeRecordFixedSize_def zero_salt_def
        simp del: gobind_simps split: if_splits intro!: that)
qed

lemma decode_v2_fields:
  assumes d: "decodeChallengeRecord raw = Inr r" and v: "raw ! 4 = char_of (2 :: nat)" and n: "4 < length raw"
  obtains "84 \<le> length raw" "logicalRecordState (raw ! 5) = Inr (cr_State r)"
    "\<not> unknown_flags (raw ! 6)" "take (length challengeRecordMagic) raw = challengeRecordMagic"
    "raw ! 7 = char_of (1 :: nat)" "raw ! 10 = char_of (0 :: nat)" "raw ! 11 = char_of (0 :: nat)"
    "read_fields raw 72 84 = Inr (cr_Host r, cr_IP r, cr_URI r)"
    "spec_validate (cr_proofSpec r) = Inr ()"
    "r = \<lparr>cr_State = cr_State r, cr_Host = cr_Host r, cr_IP = cr_IP r, cr_ChallengeDigest = take 32 (drop 20 raw),
       cr_Algorithm = AlgorithmArgon2ID, cr_Difficulty = 0,
       cr_MemoryKiB = word_of_nat (be_val (take 4 (drop 68 raw))), cr_Iterations = word_of_nat (of_char (raw ! 9)),
       cr_Salt = take 16 (drop 52 raw), cr_URI = cr_URI r, cr_NoJS = nojs_flag (raw ! 6),
       cr_IssuedAt = issued_val (take 8 (drop 12 raw))\<rparr>"
proof -
  have m: "take (length challengeRecordMagic) raw = challengeRecordMagic"
    and b: "decodeBinaryChallengeRecordV2 raw = Inr r"
    using d v n by (auto simp: decodeChallengeRecord_def decodeBinaryChallengeRecord_def byte_at_def at_index_def
        split: if_splits)
  have l: "84 \<le> length raw"
    using b by (auto simp: decodeBinaryChallengeRecordV2_def challengeRecordV2FixedSize_def split: if_splits)
  have at: "byte_at raw 5 = Inr (raw ! 5)" "byte_at raw 6 = Inr (raw ! 6)"
    "byte_at raw 7 = Inr (raw ! 7)" "byte_at raw 9 = Inr (raw ! 9)" "byte_at raw 10 = Inr (raw ! 10)"
    "byte_at raw 11 = Inr (raw ! 11)" "slice_at raw 12 20 = Inr (take 8 (drop 12 raw))"
    "slice_at raw 20 52 = Inr (take 32 (drop 20 raw))" "slice_at raw 52 68 = Inr (take 16 (drop 52 raw))"
    "slice_at raw 68 72 = Inr (take 4 (drop 68 raw))"
    using l by (simp_all add: read_defs)
  show thesis
    using b l m
    by (auto simp: decodeBinaryChallengeRecordV2_def at gobind_eq_Inr challengeRecordV2FixedSize_def Let_def
        check_then_return simp del: gobind_simps split: if_splits intro!: that)
qed

lemma record_tail_fields:
  assumes "read_fields raw off fixed = Inr (cr_Host r, cr_IP r, cr_URI r)" "fixed = off + 12" "fixed \<le> length raw"
  shows "drop off raw = record_tail r" "\<not> fields_too_long r" "payload_size r \<le> 3 * (2 ^ 32 - 1)"
    "fixed + payload_size r = length raw"
proof -
  note c = read_fields_canonical [OF assms]
  show t: "drop off raw = record_tail r" using c(1) by (simp add: record_tail_def)
  show "\<not> fields_too_long r" using c(2-4) by (simp add: fields_too_long_def challengeRecordMaxFieldSize_def)
  show "payload_size r \<le> 3 * (2 ^ 32 - 1)" using c(2-4) by (simp add: payload_size_def)
  have "length (drop off raw) = 12 + payload_size r" unfolding t by (simp add: record_tail_def payload_size_def)
  then show "fixed + payload_size r = length raw" using assms(2,3) by simp
qed

lemma encode_decoded_v1:
  assumes d: "decodeChallengeRecord raw = Inr r" and v: "raw ! 4 \<noteq> char_of (2 :: nat)"
  shows "record_ok r \<and> encodeChallengeRecord r = Inr raw"
proof (rule decode_v1_fields [OF d v])
  assume l: "60 \<le> length raw" and v1: "raw ! 4 = char_of (1 :: nat)"
    and st: "logicalRecordState (raw ! 5) = Inr (cr_State r)"
    and fl: "\<not> unknown_flags (raw ! 6)" and m: "take (length challengeRecordMagic) raw = challengeRecordMagic"
    and rf: "read_fields raw 48 60 = Inr (cr_Host r, cr_IP r, cr_URI r)"
    and r: "r = \<lparr>cr_State = cr_State r, cr_Host = cr_Host r, cr_IP = cr_IP r,
       cr_ChallengeDigest = take 32 (drop 16 raw),
       cr_Algorithm = '''', cr_Difficulty = int (of_char (raw ! 7)), cr_MemoryKiB = 0, cr_Iterations = 0,
       cr_Salt = zero_salt, cr_URI = cr_URI r, cr_NoJS = nojs_flag (raw ! 6),
       cr_IssuedAt = issued_val (take 8 (drop 8 raw))\<rparr>"
  have f: "cr_ChallengeDigest r = take 32 (drop 16 raw)" "cr_Algorithm r = ''''"
    "cr_Difficulty r = int (of_char (raw ! 7))" "cr_Salt r = zero_salt" "cr_NoJS r = nojs_flag (raw ! 6)"
    "cr_IssuedAt r = issued_val (take 8 (drop 8 raw))"
    by (subst r, simp)+
  note t = record_tail_fields [OF rf _ l, simplified]
  have "drop 8 raw = take 8 (drop 8 raw) @ take 32 (drop 16 raw) @ drop 48 raw"
    using take_drop_split [of 8 8 raw] take_drop_split [of 32 16 raw] by simp
  then have raw: "raw = challengeRecordMagic @ [char_of (1 :: nat), raw ! 5] @ [flag_byte (cr_NoJS r), raw ! 7] @
      issued_bytes (cr_IssuedAt r) @ cr_ChallengeDigest r @ record_tail r"
    using record_split [OF _ m] l v1 by (simp add: f flag_canonical [OF fl] issued_canonical flip: t(1))
  have "encodeChallengeRecord r = Inr (challengeRecordMagic @ [char_of (1 :: nat), raw ! 5] @
      [flag_byte (cr_NoJS r), raw ! 7] @ issued_bytes (cr_IssuedAt r) @ cr_ChallengeDigest r @ record_tail r)"
    using t(2,3) l byte_bound [of "raw ! 7", unfolded not_less [symmetric]]
    by (simp add: encodeChallengeRecord_def state_canonical [OF st] spec_algorithm_def cr_proofSpec_def f(2,3)
        AlgorithmArgon2ID_def AlgorithmSHA256_def Let_def challengeRecordFixedSize_def challengeRecordMagic_def
        f(1) record_tail_def payload_size_def)
  moreover have "record_ok r" using l by (simp add: record_ok_def f zero_salt_def issued_val_def)
  ultimately show ?thesis using raw by metis
qed

lemma update_byte_8:
  "(challengeRecordMagic @ [e, f] @ [g, h, x, i, j, k] @ rest)[8 := y] =
   challengeRecordMagic @ [e, f] @ [g, h, y, i, j, k] @ rest"
  by (simp add: challengeRecordMagic_def eval_nat_numeral)

lemma encode_decoded_v2:
  assumes d: "decodeChallengeRecord raw = Inr r" and v: "raw ! 4 = char_of (2 :: nat)" "4 < length raw"
  shows "record_ok r \<and> encodeChallengeRecord r = Inr (raw[8 := char_of (0 :: nat)])"
proof (rule decode_v2_fields [OF d v])
  assume l: "84 \<le> length raw" and st: "logicalRecordState (raw ! 5) = Inr (cr_State r)"
    and fl: "\<not> unknown_flags (raw ! 6)" and m: "take (length challengeRecordMagic) raw = challengeRecordMagic"
    and fx: "raw ! 7 = char_of (1 :: nat)" "raw ! 10 = char_of (0 :: nat)" "raw ! 11 = char_of (0 :: nat)"
    and rf: "read_fields raw 72 84 = Inr (cr_Host r, cr_IP r, cr_URI r)"
    and vd: "spec_validate (cr_proofSpec r) = Inr ()"
    and r: "r = \<lparr>cr_State = cr_State r, cr_Host = cr_Host r, cr_IP = cr_IP r,
       cr_ChallengeDigest = take 32 (drop 20 raw), cr_Algorithm = AlgorithmArgon2ID, cr_Difficulty = 0,
       cr_MemoryKiB = word_of_nat (be_val (take 4 (drop 68 raw))), cr_Iterations = word_of_nat (of_char (raw ! 9)),
       cr_Salt = take 16 (drop 52 raw), cr_URI = cr_URI r, cr_NoJS = nojs_flag (raw ! 6),
       cr_IssuedAt = issued_val (take 8 (drop 12 raw))\<rparr>"
  have f: "cr_ChallengeDigest r = take 32 (drop 20 raw)" "cr_Algorithm r = AlgorithmArgon2ID"
    "cr_MemoryKiB r = word_of_nat (be_val (take 4 (drop 68 raw)))" "cr_Iterations r = word_of_nat (of_char (raw ! 9))"
    "cr_Salt r = take 16 (drop 52 raw)" "cr_NoJS r = nojs_flag (raw ! 6)"
    "cr_IssuedAt r = issued_val (take 8 (drop 12 raw))"
    by (subst r, simp)+
  note t = record_tail_fields [OF rf _ l, simplified]
  let ?mem = "take 4 (drop 68 raw)"
  have "be_val ?mem < 2 ^ 32" using be_val_less [of ?mem] l by simp
  then have "unat (cr_MemoryKiB r) = be_val ?mem" by (simp add: f(3) unat_of_nat take_bit_nat_eq_self)
  then have mem: "be_bytes 4 (unat (cr_MemoryKiB r)) = ?mem"
    using be_bytes_be_val [of ?mem] l by simp
  have "(of_char (raw ! 9) :: nat) < 2 ^ 32" by (rule less_le_trans [OF byte_less]) simp
  then have "unat (cr_Iterations r) = of_char (raw ! 9)" by (simp add: f(4) unat_of_nat take_bit_nat_eq_self)
  then have it: "char_of (unat (cr_Iterations r)) = raw ! 9" by simp
  have "drop 12 raw = take 8 (drop 12 raw) @ take 32 (drop 20 raw) @ take 16 (drop 52 raw) @ ?mem @ drop 72 raw"
    using take_drop_split [of 8 12 raw] take_drop_split [of 32 20 raw] take_drop_split [of 16 52 raw]
      take_drop_split [of 4 68 raw] by simp
  moreover have "drop 8 raw = raw ! 8 # raw ! 9 # raw ! 10 # raw ! 11 # drop 12 raw"
    using l by (simp add: drop_step [of 8] drop_step [of 9] drop_step [of 10] drop_step [of 11])
  ultimately have "raw = challengeRecordMagic @ [char_of (2 :: nat), raw ! 5] @
      [flag_byte (cr_NoJS r), char_of (1 :: nat), raw ! 8, char_of (unat (cr_Iterations r)),
       char_of (0 :: nat), char_of (0 :: nat)] @
      issued_bytes (cr_IssuedAt r) @ cr_ChallengeDigest r @ cr_Salt r @ be_bytes 4 (unat (cr_MemoryKiB r)) @ record_tail r"
    using record_split [OF _ m] l v(1) fx
    by (simp add: f(1,5,6,7) mem it flag_canonical [OF fl] issued_canonical flip: t(1))
  then have raw: "raw[8 := char_of (0 :: nat)] = challengeRecordMagic @ [char_of (2 :: nat), raw ! 5] @
      [flag_byte (cr_NoJS r), char_of (1 :: nat), char_of (0 :: nat), char_of (unat (cr_Iterations r)),
       char_of (0 :: nat), char_of (0 :: nat)] @
      issued_bytes (cr_IssuedAt r) @ cr_ChallengeDigest r @ cr_Salt r @ be_bytes 4 (unat (cr_MemoryKiB r)) @ record_tail r"
    (is "_ = ?enc") by (metis update_byte_8)
  have "spec_algorithm (cr_proofSpec r) = AlgorithmArgon2ID"
    by (simp add: argon_algorithm cr_proofSpec_def f(2))
  then have "encodeChallengeRecord r = Inr ?enc"
    using t(2,3) l vd
    by (simp add: encodeChallengeRecord_def encodeChallengeRecordV2_def state_canonical [OF st] Let_def
        challengeRecordV2FixedSize_def challengeRecordMagic_def f(1,5) record_tail_def payload_size_def)
  moreover have "record_ok r" using l by (simp add: record_ok_def f(1,5,7) argon2SaltSize_def issued_val_def)
  ultimately show ?thesis using raw by metis
qed

text \<open>
  The format is canonical: bytes the decoder accepts are exactly what the encoder
  writes for the decoded record, except that a version 2 record may carry any value in byte 8,
  which the decoder does not look at and the encoder writes as zero. So a compare-and-swap on the
  stored bytes compares the records, and the decoded record always is well formed.
\<close>

theorem decoded_record_canonical:
  assumes "decodeChallengeRecord raw = Inr r"
  shows "record_ok r \<and> encodeChallengeRecord r = Inr (if raw ! 4 = char_of (2 :: nat) then raw[8 := char_of (0 :: nat)] else raw)"
proof -
  have "4 < length raw"
    using assms by (auto simp: decodeChallengeRecord_def decodeBinaryChallengeRecord_def split: if_splits)
  then show ?thesis
    using encode_decoded_v1 [OF assms] encode_decoded_v2 [OF assms] by simp
qed

definition example_record :: challenge_record where
  "example_record = \<lparr>cr_State = recordStateIssued, cr_Host = ''a.example'', cr_IP = ''192.0.2.1'',
     cr_ChallengeDigest = replicate 32 (CHR 0xAB), cr_Algorithm = AlgorithmSHA256, cr_Difficulty = 20,
     cr_MemoryKiB = 0, cr_Iterations = 0, cr_Salt = zero_salt, cr_URI = ''/'', cr_NoJS = True,
     cr_IssuedAt = - 5\<rparr>"

lemma example_record_encodes: "\<exists>raw. encodeChallengeRecord example_record = Inr raw" "record_ok example_record"
  by (simp_all add: example_record_def encodeChallengeRecord_def spec_algorithm_def cr_proofSpec_def
      AlgorithmSHA256_def AlgorithmArgon2ID_def binaryRecordState_def fields_too_long_def payload_size_def
      record_defs record_tail_def Let_def record_ok_def zero_salt_def int64_def minInt64_def maxInt64_def)

theorem record_round_trip_witness:
  "record_ok example_record \<and> (\<exists>raw. encodeChallengeRecord example_record = Inr raw \<and>
     decodeChallengeRecord raw = Inr (wire_view example_record))"
  using example_record_encodes record_round_trip [of example_record] by blast

theorem decoded_record_canonical_witness:
  "\<exists>raw. decodeChallengeRecord raw = Inr (wire_view example_record) \<and>
     encodeChallengeRecord (wire_view example_record) =
       Inr (if raw ! 4 = char_of (2 :: nat) then raw[8 := char_of (0 :: nat)] else raw)"
proof -
  obtain raw where "encodeChallengeRecord example_record = Inr raw" using example_record_encodes by blast
  moreover have "\<not> spec_algorithm (cr_proofSpec example_record) = AlgorithmArgon2ID"
    unfolding argon_algorithm by (simp add: cr_proofSpec_def example_record_def AlgorithmSHA256_def AlgorithmArgon2ID_def)
  ultimately obtain b where "binaryRecordState (cr_State example_record) = Inr b" and
    raw: "raw = challengeRecordMagic @ [char_of (1 :: nat), b] @
       [flag_byte (cr_NoJS example_record), char_of (nat (cr_Difficulty example_record))] @
       issued_bytes (cr_IssuedAt example_record) @ cr_ChallengeDigest example_record @ record_tail example_record"
    using encode_v1_bytes by blast
  then have "decodeChallengeRecord raw = Inr (wire_view example_record)"
    unfolding raw record_tail_def
    by (subst decode_v1_bytes)
      (auto simp: example_record_def state_round_trip issued_round_trip int64_def minInt64_def maxInt64_def
        wire_view_def spec_algorithm_def cr_proofSpec_def AlgorithmSHA256_def AlgorithmArgon2ID_def)
  then show ?thesis using decoded_record_canonical [of raw "wire_view example_record"] by blast
qed

end
