(* ===== verification/Waf_Rules.thy ===== *)
theory Waf_Rules
  imports Codec
begin

text \<open>
  The WAF rules (\<^verbatim>\<open>core/waf/rules.go\<close>): compilation of a decoded rules document, first-match
  evaluation, the lint for regular expressions that can never fire, per-scope variants (ordered
  files minus disabled rule identifiers) and the hot-reloading cache of them.

  Parameters: the YAML decoder (\<open>decode\<close>), the regular-expression engine (\<open>regexes\<close>: whether an
  expression compiles, its syntax tree, and whether it matches a text) and the digest of a variant
  key. Reading a file is an argument of a reload.
\<close>

section \<open>Rules\<close>

datatype waf_action = WafAllow | WafDeny | WafChallenge | WafBlock

record waf_rule =
  wr_ID :: string
  wr_Description :: string
  wr_Action :: waf_action
  wr_targets :: "8 word"
  wr_headers :: "string list"
  wr_methods :: "string list"
  wr_keywords :: "string list"
  wr_regexes :: "string list"

record rule_yaml =
  ry_ID :: string
  ry_Description :: string
  ry_Action :: string
  ry_Targets :: "string list"
  ry_Methods :: "string list"
  ry_Keywords :: "string list"
  ry_Regexes :: "string list"

record rule_set =
  rs_Rules :: "waf_rule list"
  rs_Warnings :: "(string \<times> string \<times> string) list"
  rs_headerTargets :: "string list"
  rs_needsMethod :: bool

record match_input =
  mi_Method :: string
  mi_Path :: string
  mi_Query :: string
  mi_UA :: string
  mi_Headers :: "(string, string list) gomap"

definition targetPath :: "8 word" where "targetPath = 1"
definition targetQuery :: "8 word" where "targetQuery = 2"
definition targetUA :: "8 word" where "targetUA = 4"

text \<open>The part of a parsed expression the lint looks at.\<close>

datatype regex_syntax =
    OpLiteral bool string
  | OpConcat "regex_syntax list"
  | OpCapture regex_syntax
  | OpPlus regex_syntax
  | OpAlternate "regex_syntax list"
  | OpRepeat nat "nat option" regex_syntax
  | OpOther string

record regexes =
  rx_syntax :: "string \<Rightarrow> regex_syntax option"
  rx_match :: "string \<Rightarrow> string \<Rightarrow> bool"

section \<open>Matching\<close>

unbundle bit_operations_syntax

definition HeaderTargets :: "rule_set option \<Rightarrow> string list" where
  "HeaderTargets rs = (case rs of None \<Rightarrow> [] | Some s \<Rightarrow> rs_headerTargets s)"

definition NeedsMethod :: "rule_set option \<Rightarrow> bool" where
  "NeedsMethod rs = (case rs of None \<Rightarrow> False | Some s \<Rightarrow> rs_needsMethod s)"

definition matchesText :: "regexes \<Rightarrow> waf_rule \<Rightarrow> string \<Rightarrow> bool" where
  "matchesText rx r text =
     (if text = '''' then False
      else if list_ex (contains_str text) (wr_keywords r) then True
      else list_ex (\<lambda>re. rx_match rx re text) (wr_regexes r))"

definition header_values :: "match_input \<Rightarrow> string \<Rightarrow> string list" where
  "header_values i name = (case map_of (mi_Headers i) name of None \<Rightarrow> [] | Some vs \<Rightarrow> vs)"

definition rule_matches :: "regexes \<Rightarrow> waf_rule \<Rightarrow> match_input \<Rightarrow> bool" where
  "rule_matches rx r i =
     (if wr_methods r \<noteq> [] \<and> mi_Method i \<notin> set (wr_methods r) then False
      else if wr_methods r \<noteq> [] \<and> wr_keywords r = [] \<and> wr_regexes r = [] then True
      else if wr_targets r AND targetPath \<noteq> 0 \<and> matchesText rx r (mi_Path i) then True
      else if wr_targets r AND targetQuery \<noteq> 0 \<and> matchesText rx r (mi_Query i) then True
      else if wr_targets r AND targetUA \<noteq> 0 \<and> matchesText rx r (mi_UA i) then True
      else list_ex (\<lambda>name. list_ex (matchesText rx r) (header_values i name)) (wr_headers r))"

fun match_rules :: "regexes \<Rightarrow> match_input \<Rightarrow> bool \<Rightarrow> waf_rule list \<Rightarrow> waf_rule option" where
  "match_rules rx i exempt [] = None"
| "match_rules rx i exempt (r # rs) =
     (if exempt \<and> wr_Action r = WafChallenge then match_rules rx i exempt rs
      else if rule_matches rx r i then Some r
      else match_rules rx i exempt rs)"

definition MatchEnforcing :: "regexes \<Rightarrow> match_input \<Rightarrow> bool \<Rightarrow> rule_set \<Rightarrow> waf_rule option" where
  "MatchEnforcing rx i exempt rs = match_rules rx i exempt (rs_Rules rs)"

definition Match :: "regexes \<Rightarrow> match_input \<Rightarrow> rule_set \<Rightarrow> waf_rule option" where
  "Match rx i rs = MatchEnforcing rx i False rs"

section \<open>The lint\<close>

definition is_upper :: "char \<Rightarrow> bool" where
  "is_upper c \<longleftrightarrow> 65 \<le> (of_char c :: nat) \<and> (of_char c :: nat) \<le> 90"

text \<open>The first run of uppercase letters of a literal.\<close>

definition upper_run :: "string \<Rightarrow> string" where
  "upper_run s = takeWhile is_upper (dropWhile (\<lambda>c. \<not> is_upper c) s)"

fun first_nonempty :: "string list \<Rightarrow> string" where
  "first_nonempty [] = ''''"
| "first_nonempty (l # ls) = (if l \<noteq> '''' then l else first_nonempty ls)"

definition all_nonempty :: "string list \<Rightarrow> string" where
  "all_nonempty ls = (if '''' \<in> set ls then '''' else first_nonempty ls)"

fun requiredUppercaseLiteral :: "regex_syntax \<Rightarrow> string" where
  "requiredUppercaseLiteral (OpLiteral foldCase s) = (if foldCase then '''' else upper_run s)"
| "requiredUppercaseLiteral (OpConcat subs) = first_nonempty (map requiredUppercaseLiteral subs)"
| "requiredUppercaseLiteral (OpCapture sub) = first_nonempty [requiredUppercaseLiteral sub]"
| "requiredUppercaseLiteral (OpPlus sub) = first_nonempty [requiredUppercaseLiteral sub]"
| "requiredUppercaseLiteral (OpAlternate subs) = all_nonempty (map requiredUppercaseLiteral subs)"
| "requiredUppercaseLiteral (OpRepeat mn mx sub) = (if mn \<ge> 1 then requiredUppercaseLiteral sub else '''')"
| "requiredUppercaseLiteral (OpOther d) = ''''"

definition uppercaseLiteral :: "regexes \<Rightarrow> string \<Rightarrow> string" where
  "uppercaseLiteral rx expr =
     (case rx_syntax rx expr of None \<Rightarrow> '''' | Some re \<Rightarrow> requiredUppercaseLiteral re)"

section \<open>Compilation\<close>

datatype rules_error =
    RulesRead | RulesParse | RuleNoId | RuleDuplicate string | RuleEmpty string | RuleTargetsOnly string
  | RuleAction string string | RuleTarget string string | RuleMethod string | RuleKeyword string
  | RuleEmptyRegex string | RuleRegex string string
  | RulesAcross string string string | RulesDisabled "string list"
  | VariantNoFiles | VariantEmptyPath | VariantRepeats string

definition parse_action :: "string \<Rightarrow> string \<Rightarrow> rules_error + waf_action" where
  "parse_action uid a =
     (if a = ''allow'' then Inr WafAllow else if a = ''deny'' then Inr WafDeny
      else if a = ''challenge'' then Inr WafChallenge else if a = ''block'' then Inr WafBlock
      else if a = '''' then Inr WafDeny else Inl (RuleAction uid a))"

definition add_unique :: "string \<Rightarrow> string list \<Rightarrow> string list" where
  "add_unique x xs = (if x \<in> set xs then xs else xs @ [x])"

fun compile_targets :: "string \<Rightarrow> string list \<Rightarrow> 8 word \<times> string list \<Rightarrow> rules_error + (8 word \<times> string list)" where
  "compile_targets uid [] acc = Inr acc"
| "compile_targets uid (t # ts) (w, hs) =
     (if t = ''path'' then compile_targets uid ts (w OR targetPath, hs)
      else if t = ''query'' then compile_targets uid ts (w OR targetQuery, hs)
      else if t = ''ua'' then compile_targets uid ts (w OR targetUA, hs)
      else case cutPrefix t ''header:'' of
             None \<Rightarrow> Inl (RuleTarget uid t)
           | Some rest \<Rightarrow>
               let name = toLower (trimSpace rest)
               in if name = '''' then Inl (RuleTarget uid t) else compile_targets uid ts (w, add_unique name hs))"

fun compile_methods :: "string \<Rightarrow> string list \<Rightarrow> string list \<Rightarrow> rules_error + string list" where
  "compile_methods uid [] acc = Inr acc"
| "compile_methods uid (x # xs) acc =
     (let m = toUpper (trimSpace x)
      in if m = '''' then Inl (RuleMethod uid) else compile_methods uid xs (add_unique m acc))"

fun compile_keywords :: "string \<Rightarrow> string list \<Rightarrow> string list \<Rightarrow> rules_error + string list" where
  "compile_keywords uid [] acc = Inr acc"
| "compile_keywords uid (k # ks) acc =
     (if trimSpace k = '''' then Inl (RuleKeyword uid) else compile_keywords uid ks (acc @ [toLower k]))"

fun compile_regexes ::
  "regexes \<Rightarrow> string \<Rightarrow> string list \<Rightarrow> string list \<times> (string \<times> string \<times> string) list \<Rightarrow>
     rules_error + (string list \<times> (string \<times> string \<times> string) list)" where
  "compile_regexes rx uid [] acc = Inr acc"
| "compile_regexes rx uid (e # es) (res, ws) =
     (if trimSpace e = '''' then Inl (RuleEmptyRegex uid)
      else if rx_syntax rx e = None then Inl (RuleRegex uid e)
      else let lit = uppercaseLiteral rx e
           in compile_regexes rx uid es (res @ [e], if lit \<noteq> '''' then ws @ [(uid, e, lit)] else ws))"

definition default_targets :: "rule_yaml \<Rightarrow> 8 word" where
  "default_targets ry =
     (if ry_Targets ry = [] \<and> (ry_Keywords ry \<noteq> [] \<or> ry_Regexes ry \<noteq> []) then targetPath OR targetQuery else 0)"

definition compile_rule :: "regexes \<Rightarrow> rule_yaml \<Rightarrow> rules_error + (waf_rule \<times> (string \<times> string \<times> string) list)" where
  "compile_rule rx ry =
     (let uid = ry_ID ry
      in if ry_Keywords ry = [] \<and> ry_Regexes ry = [] \<and> ry_Methods ry = [] then Inl (RuleEmpty uid)
         else if ry_Keywords ry = [] \<and> ry_Regexes ry = [] \<and> ry_Targets ry \<noteq> [] then Inl (RuleTargetsOnly uid)
         else gobind (parse_action uid (ry_Action ry)) (\<lambda>act.
              gobind (compile_targets uid (ry_Targets ry) (default_targets ry, [])) (\<lambda>(w, hs).
              gobind (compile_methods uid (ry_Methods ry) []) (\<lambda>ms.
              gobind (compile_keywords uid (ry_Keywords ry) []) (\<lambda>ks.
              gobind (compile_regexes rx uid (ry_Regexes ry) ([], [])) (\<lambda>(res, ws).
                Inr (\<lparr>wr_ID = uid, wr_Description = ry_Description ry, wr_Action = act, wr_targets = w,
                      wr_headers = hs, wr_methods = ms, wr_keywords = ks, wr_regexes = res\<rparr>, ws)))))))"

fun compile_list ::
  "regexes \<Rightarrow> rule_yaml list \<Rightarrow> string list \<Rightarrow> waf_rule list \<times> (string \<times> string \<times> string) list \<Rightarrow>
     rules_error + (waf_rule list \<times> (string \<times> string \<times> string) list)" where
  "compile_list rx [] seen acc = Inr acc"
| "compile_list rx (ry # rys) seen (rules, ws) =
     (if ry_ID ry = '''' then Inl RuleNoId
      else if ry_ID ry \<in> set seen then Inl (RuleDuplicate (ry_ID ry))
      else case compile_rule rx ry of
             Inl e \<Rightarrow> Inl e
           | Inr (r, w) \<Rightarrow> compile_list rx rys (ry_ID ry # seen) (rules @ [r], ws @ w))"

text \<open>The union of the header targets, sorted, and whether any rule restricts the method.\<close>

definition rebuildHints :: "rule_set \<Rightarrow> rule_set" where
  "rebuildHints rs =
     rs\<lparr>rs_headerTargets := sort (fold add_unique (concat (map wr_headers (rs_Rules rs))) []),
        rs_needsMethod := list_ex (\<lambda>r. wr_methods r \<noteq> []) (rs_Rules rs)\<rparr>"

definition compileRules :: "regexes \<Rightarrow> (bytes \<Rightarrow> rule_yaml list option) \<Rightarrow> bytes \<Rightarrow> rules_error + rule_set" where
  "compileRules rx decode raw =
     (case decode raw of
        None \<Rightarrow> Inl RulesParse
      | Some rys \<Rightarrow>
          (case compile_list rx rys [] ([], []) of
             Inl e \<Rightarrow> Inl e
           | Inr (rules, ws) \<Rightarrow>
               Inr (rebuildHints \<lparr>rs_Rules = rules, rs_Warnings = ws, rs_headerTargets = [], rs_needsMethod = False\<rparr>)))"

section \<open>Variants\<close>

record variant_spec =
  vs_Paths :: "string list"
  vs_DisabledIDs :: "string list"
  vs_Scopes :: "string list"

text \<open>Each list is preceded by its length, each string by its own, as eight big-endian bytes.\<close>

definition len_prefix :: "nat \<Rightarrow> bytes" where
  "len_prefix n = map (\<lambda>i. char_of (n div 256 ^ (7 - i) mod 256)) [0..<8]"

definition write_strings :: "string list \<Rightarrow> bytes" where
  "write_strings xs = len_prefix (length xs) @ concat (map (\<lambda>x. len_prefix (length x) @ x) xs)"

definition VariantKey :: "(bytes \<Rightarrow> string) \<Rightarrow> string list \<Rightarrow> string list \<Rightarrow> string" where
  "VariantKey sha256hex paths disabled =
     (if length paths = 1 \<and> disabled = [] then hd paths
      else ''bundle'' @ [CHR 0x00] @ sha256hex (write_strings paths @ write_strings (sort disabled)))"

fun drop_rules :: "waf_rule list \<Rightarrow> string list \<Rightarrow> waf_rule list \<Rightarrow> waf_rule list \<times> string list" where
  "drop_rules [] drop_ids out = (out, drop_ids)"
| "drop_rules (r # rs) drop_ids out =
     (if wr_ID r \<in> set drop_ids then drop_rules rs (removeAll (wr_ID r) drop_ids) out
      else drop_rules rs drop_ids (out @ [r]))"

definition rs_filter :: "string list \<Rightarrow> rule_set \<Rightarrow> rules_error + rule_set" where
  "rs_filter disabled rs =
     (if disabled = [] then Inr rs
      else case drop_rules (rs_Rules rs) (remdups disabled) [] of
             (out, []) \<Rightarrow> Inr (rebuildHints \<lparr>rs_Rules = out, rs_Warnings = [], rs_headerTargets = [], rs_needsMethod = False\<rparr>)
           | (out, missing) \<Rightarrow> Inl (RulesDisabled (sort missing)))"

fun combine_rules :: "string \<Rightarrow> waf_rule list \<Rightarrow> (string, string) gomap \<Rightarrow> waf_rule list \<Rightarrow>
    rules_error + ((string, string) gomap \<times> waf_rule list)" where
  "combine_rules path [] owners out = Inr (owners, out)"
| "combine_rules path (r # rs) owners out =
     (case map_of owners (wr_ID r) of
        Some previous \<Rightarrow> Inl (RulesAcross (wr_ID r) previous path)
      | None \<Rightarrow> combine_rules path rs (mput (wr_ID r) path owners) (out @ [r]))"

fun combine_sets :: "(string \<times> rule_set) list \<Rightarrow> (string, string) gomap \<Rightarrow> waf_rule list \<Rightarrow> rules_error + waf_rule list" where
  "combine_sets [] owners out = Inr out"
| "combine_sets ((path, rs) # rest) owners out =
     (case combine_rules path (rs_Rules rs) owners out of
        Inl e \<Rightarrow> Inl e
      | Inr (owners', out') \<Rightarrow> combine_sets rest owners' out')"

definition combineRuleSets :: "string list \<Rightarrow> rule_set list \<Rightarrow> rules_error + rule_set" where
  "combineRuleSets paths sets =
     (case combine_sets (zip paths sets) [] [] of
        Inl e \<Rightarrow> Inl e
      | Inr out \<Rightarrow> Inr (rebuildHints \<lparr>rs_Rules = out, rs_Warnings = [], rs_headerTargets = [], rs_needsMethod = False\<rparr>))"

section \<open>The cache\<close>

record rule_file =
  rf_hash :: "64 word"
  rf_set :: rule_set

record rule_variant =
  rv_paths :: "string list"
  rv_disabled :: "string list"
  rv_scopes :: "string list"
  rv_set :: rule_set

record rule_cache =
  rc_files :: "(string, rule_file) gomap"
  rc_byKey :: "(string, rule_variant) gomap"

definition contentHash :: "bytes \<Rightarrow> 64 word" where
  "contentHash raw = fold (\<lambda>b h. (h XOR of_char b) * 1099511628211) raw 14695981039346656037"

definition empty_rules :: rule_set where
  "empty_rules = \<lparr>rs_Rules = [], rs_Warnings = [], rs_headerTargets = [], rs_needsMethod = False\<rparr>"

definition file_set :: "(string, rule_file) gomap \<Rightarrow> string \<Rightarrow> rule_set" where
  "file_set files path = (case map_of files path of None \<Rightarrow> empty_rules | Some f \<Rightarrow> rf_set f)"

text \<open>The set a variant would have, with one file's set replaced by a candidate.\<close>

definition rv_build :: "(string \<Rightarrow> rule_set) \<Rightarrow> rule_variant \<Rightarrow> rules_error + rule_set" where
  "rv_build sets v =
     (case combineRuleSets (rv_paths v) (map sets (rv_paths v)) of
        Inl e \<Rightarrow> Inl e
      | Inr combined \<Rightarrow> rs_filter (rv_disabled v) combined)"

definition rc_Get :: "string \<Rightarrow> rule_cache \<Rightarrow> rule_set option" where
  "rc_Get key c = map_option rv_set (map_of (rc_byKey c) key)"

fun check_paths :: "string list \<Rightarrow> string list \<Rightarrow> rules_error + unit" where
  "check_paths seen [] = Inr ()"
| "check_paths seen (p # ps) =
     (if trimSpace p = '''' then Inl VariantEmptyPath
      else if p \<in> set seen then Inl (VariantRepeats p)
      else check_paths (p # seen) ps)"

fun add_specs :: "(bytes \<Rightarrow> string) \<Rightarrow> variant_spec list \<Rightarrow> (string, rule_variant) gomap \<Rightarrow> rules_error + (string, rule_variant) gomap" where
  "add_specs sha [] vs = Inr vs"
| "add_specs sha (spec # specs) vs =
     (if vs_Paths spec = [] then Inl VariantNoFiles
      else let key = VariantKey sha (vs_Paths spec) (vs_DisabledIDs spec)
           in case map_of vs key of
                Some v \<Rightarrow> add_specs sha specs (mput key (v\<lparr>rv_scopes := rv_scopes v @ vs_Scopes spec\<rparr>) vs)
              | None \<Rightarrow>
                  (case check_paths [] (vs_Paths spec) of
                     Inl e \<Rightarrow> Inl e
                   | Inr _ \<Rightarrow> add_specs sha specs (mput key \<lparr>rv_paths = vs_Paths spec, rv_disabled = vs_DisabledIDs spec,
                       rv_scopes = vs_Scopes spec, rv_set = empty_rules\<rparr> vs)))"

definition spec_files :: "(string, rule_variant) gomap \<Rightarrow> string list" where
  "spec_files vs = fold add_unique (concat (map (\<lambda>kv. rv_paths (snd kv)) vs)) []"

definition loadSource ::
  "regexes \<Rightarrow> (bytes \<Rightarrow> rule_yaml list option) \<Rightarrow> (string \<Rightarrow> bytes option) \<Rightarrow> string \<Rightarrow> rules_error + rule_file" where
  "loadSource rx decode read path =
     (case read path of
        None \<Rightarrow> Inl RulesRead
      | Some raw \<Rightarrow>
          (case compileRules rx decode raw of
             Inl e \<Rightarrow> Inl e | Inr rs \<Rightarrow> Inr \<lparr>rf_hash = contentHash raw, rf_set = rs\<rparr>))"

fun load_sources ::
  "regexes \<Rightarrow> (bytes \<Rightarrow> rule_yaml list option) \<Rightarrow> (string \<Rightarrow> bytes option) \<Rightarrow> string list \<Rightarrow> (string, rule_file) gomap \<Rightarrow>
     rules_error + (string, rule_file) gomap" where
  "load_sources rx decode read [] files = Inr files"
| "load_sources rx decode read (p # ps) files =
     (case loadSource rx decode read p of
        Inl e \<Rightarrow> Inl e | Inr f \<Rightarrow> load_sources rx decode read ps (mput p f files))"

fun build_all :: "(string \<Rightarrow> rule_set) \<Rightarrow> (string, rule_variant) gomap \<Rightarrow> rules_error + (string, rule_variant) gomap" where
  "build_all sets [] = Inr []"
| "build_all sets ((k, v) # rest) =
     (case rv_build sets v of
        Inl e \<Rightarrow> Inl e
      | Inr s \<Rightarrow> (case build_all sets rest of Inl e \<Rightarrow> Inl e | Inr vs \<Rightarrow> Inr ((k, v\<lparr>rv_set := s\<rparr>) # vs)))"

definition NewRuleCacheVariants ::
  "regexes \<Rightarrow> (bytes \<Rightarrow> rule_yaml list option) \<Rightarrow> (bytes \<Rightarrow> string) \<Rightarrow> (string \<Rightarrow> bytes option) \<Rightarrow> variant_spec list \<Rightarrow>
     rules_error + rule_cache" where
  "NewRuleCacheVariants rx decode sha read specs =
     (case add_specs sha specs [] of
        Inl e \<Rightarrow> Inl e
      | Inr vs \<Rightarrow>
          (case load_sources rx decode read (spec_files vs) [] of
             Inl e \<Rightarrow> Inl e
           | Inr files \<Rightarrow>
               (case build_all (file_set files) vs of
                  Inl e \<Rightarrow> Inl e | Inr vs' \<Rightarrow> Inr \<lparr>rc_files = files, rc_byKey = vs'\<rparr>)))"

definition NewRuleCache ::
  "regexes \<Rightarrow> (bytes \<Rightarrow> rule_yaml list option) \<Rightarrow> (bytes \<Rightarrow> string) \<Rightarrow> (string \<Rightarrow> bytes option) \<Rightarrow> string list \<Rightarrow>
     rules_error + rule_cache" where
  "NewRuleCache rx decode sha read paths =
     NewRuleCacheVariants rx decode sha read (map (\<lambda>p. \<lparr>vs_Paths = [p], vs_DisabledIDs = [], vs_Scopes = []\<rparr>) paths)"

text \<open>
  One file of a reload round. Every variant that uses the file is rebuilt first; only when all of
  them succeed are the source and the variants installed.
\<close>

definition depends_on :: "string \<Rightarrow> string \<times> rule_variant \<Rightarrow> bool" where
  "depends_on path kv \<longleftrightarrow> path \<in> set (rv_paths (snd kv))"

fun install :: "string \<Rightarrow> (string \<Rightarrow> rule_set) \<Rightarrow> (string, rule_variant) gomap \<Rightarrow> (string, rule_variant) gomap option" where
  "install path sets [] = Some []"
| "install path sets ((k, v) # rest) =
     (if depends_on path (k, v)
      then (case rv_build sets v of
              Inl e \<Rightarrow> None
            | Inr s \<Rightarrow> map_option ((#) (k, v\<lparr>rv_set := s\<rparr>)) (install path sets rest))
      else map_option ((#) (k, v)) (install path sets rest))"

definition reload_file ::
  "regexes \<Rightarrow> (bytes \<Rightarrow> rule_yaml list option) \<Rightarrow> (string \<Rightarrow> bytes option) \<Rightarrow> string \<Rightarrow> rule_cache \<Rightarrow> rule_cache" where
  "reload_file rx decode read path c =
     (case map_of (rc_files c) path of
        None \<Rightarrow> c
      | Some f \<Rightarrow>
          (case read path of
             None \<Rightarrow> c
           | Some raw \<Rightarrow>
               let h = contentHash raw
               in if h = rf_hash f then c
                  else case compileRules rx decode raw of
                         Inl _ \<Rightarrow> c\<lparr>rc_files := mput path (f\<lparr>rf_hash := h\<rparr>) (rc_files c)\<rparr>
                       | Inr rs \<Rightarrow>
                           (case install path ((file_set (rc_files c))(path := rs)) (rc_byKey c) of
                              None \<Rightarrow> c
                            | Some vs \<Rightarrow> \<lparr>rc_files = mput path \<lparr>rf_hash = h, rf_set = rs\<rparr> (rc_files c), rc_byKey = vs\<rparr>)))"

definition reloadChanged ::
  "regexes \<Rightarrow> (bytes \<Rightarrow> rule_yaml list option) \<Rightarrow> (string \<Rightarrow> bytes option) \<Rightarrow> rule_cache \<Rightarrow> rule_cache" where
  "reloadChanged rx decode read c = fold (reload_file rx decode read) (map fst (rc_files c)) c"


section \<open>The cache always serves the composition of its sources\<close>

lemma combine_rules_ids:
  assumes "combine_rules path rs owners out = Inr (owners', out')" "distinct (map wr_ID out)" "set (map wr_ID out) = mkeys owners"
  shows "out' = out @ rs \<and> distinct (map wr_ID out') \<and> set (map wr_ID out') = mkeys owners'"
  using assms
proof (induction rs arbitrary: owners out)
  case (Cons r rs)
  then have n: "map_of owners (wr_ID r) = None" by (auto split: option.splits)
  have "wr_ID r \<notin> set (map wr_ID out)" using n Cons.prems(3) by (metis mkeys_None)
  then have "distinct (map wr_ID (out @ [r]))" "set (map wr_ID (out @ [r])) = mkeys (mput (wr_ID r) path owners)"
    using Cons.prems(2,3) by auto
  moreover have "combine_rules path rs (mput (wr_ID r) path owners) (out @ [r]) = Inr (owners', out')"
    using Cons.prems(1) n by simp
  ultimately have "out' = (out @ [r]) @ rs \<and> distinct (map wr_ID out') \<and> set (map wr_ID out') = mkeys owners'"
    by (intro Cons.IH)
  moreover have "(out @ [r]) @ rs = out @ r # rs" by simp
  ultimately show ?case by metis
qed simp

lemma combine_sets_ids:
  assumes "combine_sets xs owners out = Inr out'" "distinct (map wr_ID out)" "set (map wr_ID out) = mkeys owners"
  shows "distinct (map wr_ID out') \<and> out' = out @ concat (map (rs_Rules \<circ> snd) xs)"
  using assms
proof (induction xs arbitrary: owners out)
  case (Cons x xs)
  obtain path rs where x: "x = (path, rs)" by fastforce
  then obtain owners1 out1 where c: "combine_rules path (rs_Rules rs) owners out = Inr (owners1, out1)"
    using Cons.prems(1) by (auto split: sum.splits)
  note ids = combine_rules_ids [OF c Cons.prems(2,3)]
  have "distinct (map wr_ID out') \<and> out' = out1 @ concat (map (rs_Rules \<circ> snd) xs)"
    by (rule Cons.IH) (use Cons.prems(1) in \<open>simp add: x c\<close>, use ids in blast, use ids in blast)
  moreover have "out1 @ concat (map (rs_Rules \<circ> snd) xs) = out @ concat (map (rs_Rules \<circ> snd) (x # xs))"
    using ids by (simp add: x)
  ultimately show ?case by metis
qed simp

lemma rebuildHints_Rules [simp]: "rs_Rules (rebuildHints rs) = rs_Rules rs"
  by (simp add: rebuildHints_def)

lemma combineRuleSets_ids:
  "combineRuleSets paths sets = Inr rs \<Longrightarrow>
     distinct (map wr_ID (rs_Rules rs)) \<and> rs_Rules rs = concat (map (rs_Rules \<circ> snd) (zip paths sets))"
  using combine_sets_ids [of "zip paths sets" "[]" "[]"]
  by (auto simp: combineRuleSets_def mkeys_def split: sum.splits)

lemma drop_rules_filter:
  assumes "drop_rules rs ids out = (out', [])" "distinct (map wr_ID rs)"
  shows "out' = out @ filter (\<lambda>r. wr_ID r \<notin> set ids) rs"
  using assms
proof (induction rs arbitrary: ids out)
  case (Cons r rs)
  show ?case
  proof (cases "wr_ID r \<in> set ids")
    case True
    have "out' = out @ filter (\<lambda>x. wr_ID x \<notin> set (removeAll (wr_ID r) ids)) rs"
      using Cons.IH [of "removeAll (wr_ID r) ids" out] Cons.prems True by simp
    moreover have "filter (\<lambda>x. wr_ID x \<notin> set (removeAll (wr_ID r) ids)) rs = filter (\<lambda>x. wr_ID x \<notin> set ids) rs"
      using Cons.prems(2) by (intro filter_cong) (auto simp: image_iff)
    ultimately show ?thesis using True by simp
  next
    case False
    then show ?thesis using Cons.IH [of ids "out @ [r]"] Cons.prems by simp
  qed
qed simp

lemma rs_filter_rules:
  assumes "rs_filter disabled rs = Inr rs'" "distinct (map wr_ID (rs_Rules rs))"
  shows "rs_Rules rs' = filter (\<lambda>r. wr_ID r \<notin> set disabled) (rs_Rules rs)"
proof (cases "disabled = []")
  case False
  obtain out missing where d: "drop_rules (rs_Rules rs) (remdups disabled) [] = (out, missing)" by fastforce
  then have "missing = []" "rs_Rules rs' = out" using assms(1) False by (auto simp: rs_filter_def split: list.splits)
  then show ?thesis using drop_rules_filter [of "rs_Rules rs" "remdups disabled" "[]" out] d assms(2) by simp
qed (use assms in \<open>simp add: rs_filter_def\<close>)

lemma rv_build_rules:
  assumes "rv_build sets v = Inr s"
  shows "distinct (map wr_ID (rs_Rules s))"
    "rs_Rules s = filter (\<lambda>r. wr_ID r \<notin> set (rv_disabled v)) (concat (map (rs_Rules \<circ> sets) (rv_paths v)))"
proof -
  obtain c where c: "combineRuleSets (rv_paths v) (map sets (rv_paths v)) = Inr c" and f: "rs_filter (rv_disabled v) c = Inr s"
    using assms by (auto simp: rv_build_def split: sum.splits)
  note ids = combineRuleSets_ids [OF c]
  have "map (rs_Rules \<circ> snd) (zip ps (map sets ps)) = map (rs_Rules \<circ> sets) ps" for ps
    by (induction ps) auto
  then show r: "rs_Rules s = filter (\<lambda>r. wr_ID r \<notin> set (rv_disabled v)) (concat (map (rs_Rules \<circ> sets) (rv_paths v)))"
    using rs_filter_rules [OF f conjunct1 [OF ids]] conjunct2 [OF ids] by simp
  show "distinct (map wr_ID (rs_Rules s))"
    unfolding rs_filter_rules [OF f conjunct1 [OF ids]] using ids by (intro distinct_map_filter) blast
qed

definition cache_consistent :: "rule_cache \<Rightarrow> bool" where
  "cache_consistent c \<longleftrightarrow> map_wf (rc_byKey c) \<and>
     (\<forall>(k, v) \<in> set (rc_byKey c). rv_build (file_set (rc_files c)) v = Inr (rv_set v))"

lemma rv_build_cong: "(\<And>p. p \<in> set (rv_paths v) \<Longrightarrow> f p = g p) \<Longrightarrow> rv_build f v = rv_build g v"
  by (simp add: rv_build_def cong: map_cong)

lemma rv_build_set [simp]: "rv_build f (v\<lparr>rv_set := s\<rparr>) = rv_build f v"
  by (simp add: rv_build_def cong: sum.case_cong)

lemma build_all_ok:
  "build_all sets vs = Inr vs' \<Longrightarrow> map fst vs' = map fst vs \<and> (\<forall>(k, v) \<in> set vs'. rv_build sets v = Inr (rv_set v))"
proof (induction vs arbitrary: vs')
  case (Cons x vs)
  then show ?case by (cases x) (auto split: sum.splits)
qed simp

lemma install_ok:
  assumes "install path sets' vs = Some vs'" "\<forall>(k, v) \<in> set vs. rv_build sets v = Inr (rv_set v)"
    and "\<And>p. p \<noteq> path \<Longrightarrow> sets' p = sets p"
  shows "map fst vs' = map fst vs \<and> (\<forall>(k, v) \<in> set vs'. rv_build sets' v = Inr (rv_set v))"
  using assms(1,2)
proof (induction vs arbitrary: vs')
  case (Cons x vs)
  obtain k v where x: "x = (k, v)" by fastforce
  show ?case
  proof (cases "depends_on path (k, v)")
    case True
    then obtain s ws where "rv_build sets' v = Inr s" "install path sets' vs = Some ws" "vs' = (k, v\<lparr>rv_set := s\<rparr>) # ws"
      using Cons.prems(1) by (auto simp: x split: sum.splits)
    then show ?thesis using Cons.IH Cons.prems(2) x by auto
  next
    case False
    then obtain ws where w: "install path sets' vs = Some ws" "vs' = (k, v) # ws"
      using Cons.prems(1) by (auto simp: x)
    have "rv_build sets' v = rv_build sets v"
      using False by (intro rv_build_cong assms(3)) (auto simp: depends_on_def)
    then show ?thesis using w Cons.IH Cons.prems(2) x by auto
  qed
qed simp

lemma file_set_mput: "file_set (mput path f files) = (file_set files)(path := rf_set f)"
  by (auto simp: file_set_def gomap_simps fun_eq_iff)

lemma file_set_same: "map_of files path = Some f \<Longrightarrow> (file_set files)(path := rf_set f) = file_set files"
  by (auto simp: file_set_def fun_eq_iff)

lemma reload_file_consistent: "cache_consistent c \<Longrightarrow> cache_consistent (reload_file rx decode read path c)"
proof -
  assume c: "cache_consistent c"
  have vs: "cache_consistent \<lparr>rc_files = mput path \<lparr>rf_hash = h, rf_set = rs\<rparr> (rc_files c), rc_byKey = vs\<rparr>"
    if "install path ((file_set (rc_files c))(path := rs)) (rc_byKey c) = Some vs" for h rs vs
    using install_ok [OF that, of "file_set (rc_files c)"] c
    by (simp add: cache_consistent_def map_wf_def file_set_mput)
  show ?thesis
    using c vs by (auto simp: reload_file_def Let_def file_set_mput file_set_same cache_consistent_def
        split: option.splits sum.splits)
qed

lemma reloadChanged_consistent: "cache_consistent c \<Longrightarrow> cache_consistent (reloadChanged rx decode read c)"
proof -
  have "cache_consistent c' \<Longrightarrow> cache_consistent (fold (reload_file rx decode read) ps c')" for ps c'
    by (induction ps arbitrary: c') (auto intro: reload_file_consistent)
  then show "cache_consistent c \<Longrightarrow> ?thesis" by (simp add: reloadChanged_def)
qed

lemma add_specs_wf: "add_specs sha specs vs = Inr vs' \<Longrightarrow> map_wf vs \<Longrightarrow> map_wf vs'"
  by (induction sha specs vs rule: add_specs.induct) (auto simp: Let_def split: if_splits option.splits sum.splits)

lemma new_cache_consistent: "NewRuleCacheVariants rx decode sha read specs = Inr c \<Longrightarrow> cache_consistent c"
  using add_specs_wf [of sha specs "[]"] build_all_ok
  by (fastforce simp: NewRuleCacheVariants_def cache_consistent_def map_wf_def split: sum.splits)


inductive cache_reach ::
  "regexes \<Rightarrow> (bytes \<Rightarrow> rule_yaml list option) \<Rightarrow> (bytes \<Rightarrow> string) \<Rightarrow> rule_cache \<Rightarrow> bool" for rx decode sha where
  cache_new: "NewRuleCacheVariants rx decode sha read specs = Inr c \<Longrightarrow> cache_reach rx decode sha c"
| cache_reload: "cache_reach rx decode sha c \<Longrightarrow> cache_reach rx decode sha (reloadChanged rx decode read c)"

lemma reach_consistent: "cache_reach rx decode sha c \<Longrightarrow> cache_consistent c"
  by (induction rule: cache_reach.induct) (auto intro: new_cache_consistent reloadChanged_consistent)

text \<open>
  C40 (invariant). Whatever the rules files contain over time, and however a reload of one of them
  is refused, every rule set the cache serves is exactly the composition of the currently loaded
  sources of its variant: their rules in configured order, without the disabled ones, with no
  identifier twice. So an excluded rule never comes back and no request sees half of an update.
\<close>

theorem rule_cache_composition:
  assumes "cache_reach rx decode sha c" "rc_Get key c = Some s"
  shows "\<exists>v. map_of (rc_byKey c) key = Some v \<and> distinct (map wr_ID (rs_Rules s)) \<and>
     rs_Rules s = filter (\<lambda>r. wr_ID r \<notin> set (rv_disabled v))
       (concat (map (rs_Rules \<circ> file_set (rc_files c)) (rv_paths v)))"
proof -
  obtain v where v: "map_of (rc_byKey c) key = Some v" "rv_set v = s" using assms(2) by (auto simp: rc_Get_def)
  then have "rv_build (file_set (rc_files c)) v = Inr s"
    using reach_consistent [OF assms(1)] map_of_SomeD [OF v(1)] by (auto simp: cache_consistent_def)
  from rv_build_rules [OF this] v(1) show ?thesis by blast
qed

section \<open>A moved exclusion is never picked up\<close>

lemma drop_rules_missing:
  "drop_rules rs ids out = (out', []) \<Longrightarrow> set ids \<subseteq> wr_ID ` set rs"
proof (induction rs arbitrary: ids out)
  case (Cons r rs)
  show ?case
  proof (cases "wr_ID r \<in> set ids")
    case True
    then have "set (removeAll (wr_ID r) ids) \<subseteq> wr_ID ` set rs"
      using Cons.IH [of "removeAll (wr_ID r) ids" out] Cons.prems by simp
    then show ?thesis by auto
  next
    case False
    then have "set ids \<subseteq> wr_ID ` set rs" using Cons.IH [of ids "out @ [r]"] Cons.prems by simp
    then show ?thesis by auto
  qed
qed simp

lemma rs_filter_present:
  assumes "rs_filter disabled rs = Inr rs'"
  shows "set disabled \<subseteq> wr_ID ` set (rs_Rules rs)"
proof (cases "disabled = []")
  case False
  obtain out missing where d: "drop_rules (rs_Rules rs) (remdups disabled) [] = (out, missing)" by fastforce
  then have "missing = []" using assms False by (auto simp: rs_filter_def split: list.splits)
  then show ?thesis using drop_rules_missing [of "rs_Rules rs" "remdups disabled" "[]" out] d by simp
qed simp

lemma rv_build_present:
  assumes "rv_build sets v = Inr s" "x \<in> set (rv_disabled v)"
  shows "\<exists>p \<in> set (rv_paths v). x \<in> wr_ID ` set (rs_Rules (sets p))"
    and "distinct (map wr_ID (concat (map (rs_Rules \<circ> sets) (rv_paths v))))"
proof -
  obtain c where c: "combineRuleSets (rv_paths v) (map sets (rv_paths v)) = Inr c" and f: "rs_filter (rv_disabled v) c = Inr s"
    using assms by (auto simp: rv_build_def split: sum.splits)
  have "map (rs_Rules \<circ> snd) (zip ps (map sets ps)) = map (rs_Rules \<circ> sets) ps" for ps
    by (induction ps) auto
  then have r: "rs_Rules c = concat (map (rs_Rules \<circ> sets) (rv_paths v))" "distinct (map wr_ID (rs_Rules c))"
    using combineRuleSets_ids [OF c] by metis+
  have "x \<in> wr_ID ` set (rs_Rules c)" using rs_filter_present [OF f] assms(2) by blast
  then show "\<exists>p \<in> set (rv_paths v). x \<in> wr_ID ` set (rs_Rules (sets p))" unfolding r(1) by auto
  from r show "distinct (map wr_ID (concat (map (rs_Rules \<circ> sets) (rv_paths v))))" by metis
qed

lemma distinct_concat_overlap:
  assumes "distinct (map f (concat (map g ps)))" "p \<in> set ps" "q \<in> set ps" "x \<in> f ` set (g p)" "x \<in> f ` set (g q)"
  shows "p = q"
  using assms
proof (induction ps)
  case (Cons y ps)
  have tl: "distinct (map f (concat (map g ps)))" and cross: "\<And>z. z \<in> set ps \<Longrightarrow> f ` set (g y) \<inter> f ` set (g z) = {}"
    using Cons.prems(1) by auto
  consider "p = y" "q = y" | "p = y" "q \<in> set ps" | "p \<in> set ps" "q = y" | "p \<in> set ps" "q \<in> set ps"
    using Cons.prems(2,3) by auto
  then show ?case
  proof cases
    case 4
    then show ?thesis using Cons.IH tl Cons.prems(4,5) by blast
  qed (use cross Cons.prems(4,5) in blast)+
qed simp

lemma install_blocked:
  "(k, v) \<in> set vs \<Longrightarrow> path \<in> set (rv_paths v) \<Longrightarrow> rv_build sets v = Inl e \<Longrightarrow> install path sets vs = None"
  by (induction vs) (auto simp: depends_on_def split: sum.splits)

text \<open>
  Moving an excluded rule from one rules file of a variant to another is never picked
  up by hot reload, in whatever order and however often the files are polled: the file it left is
  refused because the exclusion would name no rule, the file it entered because the rule would exist
  twice, and each refusal keeps the other in place. The cache stays as it was until a restart,
  although the new pair of files is valid.
\<close>

theorem moved_exclusion_never_reloads:
  assumes "cache_consistent c" "(k, v) \<in> set (rc_byKey c)" "x \<in> set (rv_disabled v)"
    and "a \<in> set (rv_paths v)" "b \<in> set (rv_paths v)" "a \<noteq> b"
    and "x \<in> wr_ID ` set (rs_Rules (file_set (rc_files c) a))"
    and "read a = Some rawA" "compileRules rx decode rawA = Inr newA" "x \<notin> wr_ID ` set (rs_Rules newA)"
    and "read b = Some rawB" "compileRules rx decode rawB = Inr newB" "x \<in> wr_ID ` set (rs_Rules newB)"
    and "\<forall>p f. p \<noteq> a \<and> p \<noteq> b \<and> map_of (rc_files c) p = Some f \<longrightarrow>
       (\<exists>raw. read p = Some raw \<and> contentHash raw = rf_hash f)"
  shows "((reloadChanged rx decode read) ^^ n) c = c"
proof -
  let ?sets = "file_set (rc_files c)"
  have v: "rv_build ?sets v = Inr (rv_set v)" using assms(1,2) by (auto simp: cache_consistent_def)
  have dist: "distinct (map wr_ID (concat (map (rs_Rules \<circ> ?sets) (rv_paths v))))"
    by (rule rv_build_present(2) [OF v assms(3)])
  have blockA: "install a (?sets(a := newA)) (rc_byKey c) = None"
  proof (cases "rv_build (?sets(a := newA)) v")
    case (Inr s)
    obtain p where p: "p \<in> set (rv_paths v)" "x \<in> wr_ID ` set (rs_Rules ((?sets(a := newA)) p))"
      using rv_build_present(1) [OF Inr assms(3)] by blast
    then have "p \<noteq> a" using assms(10) by auto
    with p have "p = a" using distinct_concat_overlap [OF dist p(1) assms(4), of x] assms(7) by simp
    with \<open>p \<noteq> a\<close> show ?thesis by simp
  qed (use install_blocked [OF assms(2,4)] in blast)
  have blockB: "install b (?sets(b := newB)) (rc_byKey c) = None"
  proof (cases "rv_build (?sets(b := newB)) v")
    case (Inr s)
    have "a = b"
      using distinct_concat_overlap [OF rv_build_present(2) [OF Inr assms(3)] assms(4,5), of x] assms(6,7,13) by simp
    then show ?thesis using assms(6) by simp
  qed (use install_blocked [OF assms(2,5)] in blast)
  have other: "reload_file rx decode read p c = c" if "p \<noteq> a" "p \<noteq> b" for p
    using assms(14) that by (cases "map_of (rc_files c) p") (fastforce simp: reload_file_def Let_def)+
  have "reload_file rx decode read p c = c" for p
    using assms(8,9,11,12) blockA blockB other [of p]
    by (cases "p = a"; cases "p = b") (auto simp: reload_file_def Let_def split: option.splits)
  then have "fold (reload_file rx decode read) ps c = c" for ps
    by (induction ps) auto
  then have "reloadChanged rx decode read c = c" by (simp add: reloadChanged_def)
  then show ?thesis by (induction n) auto
qed


section \<open>The lint only reports dead expressions\<close>

text \<open>
  The strings an expression matches, for the operators the lint looks at; what the remaining ones
  match (classes, anchors, stars) is the parameter \<open>other\<close>. The engine looks for a match anywhere
  in the text.
\<close>

fun words :: "nat \<Rightarrow> string set \<Rightarrow> string set" where
  "words 0 L = {''''}"
| "words (Suc n) L = {u @ v | u v. u \<in> L \<and> v \<in> words n L}"

fun seq_words :: "string set list \<Rightarrow> string set" where
  "seq_words [] = {''''}"
| "seq_words (L # Ls) = {u @ v | u v. u \<in> L \<and> v \<in> seq_words Ls}"

fun re_lang :: "(string \<Rightarrow> string set) \<Rightarrow> regex_syntax \<Rightarrow> string set" where
  "re_lang other (OpLiteral foldCase s) = (if foldCase then {t. toLower t = toLower s} else {s})"
| "re_lang other (OpConcat subs) = seq_words (map (re_lang other) subs)"
| "re_lang other (OpCapture sub) = re_lang other sub"
| "re_lang other (OpPlus sub) = (\<Union>n. words (Suc n) (re_lang other sub))"
| "re_lang other (OpAlternate subs) = \<Union> (set (map (re_lang other) subs))"
| "re_lang other (OpRepeat mn mx sub) =
     \<Union> {words n (re_lang other sub) | n. mn \<le> n \<and> (case mx of None \<Rightarrow> True | Some m \<Rightarrow> n \<le> m)}"
| "re_lang other (OpOther d) = other d"

definition engine_sound :: "(string \<Rightarrow> string set) \<Rightarrow> regexes \<Rightarrow> bool" where
  "engine_sound other rx \<longleftrightarrow> (\<forall>expr re text. rx_syntax rx expr = Some re \<longrightarrow> rx_match rx expr text \<longrightarrow>
     (\<exists>w \<in> re_lang other re. sublist w text))"

definition has_upper :: "string \<Rightarrow> bool" where
  "has_upper s \<longleftrightarrow> (\<exists>c \<in> set s. is_upper c)"

lemma has_upper_append [simp]: "has_upper (u @ v) \<longleftrightarrow> has_upper u \<or> has_upper v"
  by (auto simp: has_upper_def)

lemma upper_run_has_upper: "upper_run s \<noteq> '''' \<Longrightarrow> has_upper s"
  unfolding upper_run_def has_upper_def
  by (metis dropWhile_eq_Nil_conv takeWhile.simps(1))

lemma first_nonempty_member: "first_nonempty ls \<noteq> '''' \<Longrightarrow> first_nonempty ls \<in> set ls"
  by (induction ls) auto

lemma seq_words_upper:
  "w \<in> seq_words Ls \<Longrightarrow> L \<in> set Ls \<Longrightarrow> (\<And>u. u \<in> L \<Longrightarrow> has_upper u) \<Longrightarrow> has_upper w"
  by (induction Ls arbitrary: w) auto

lemma words_upper: "w \<in> words n L \<Longrightarrow> 1 \<le> n \<Longrightarrow> (\<And>u. u \<in> L \<Longrightarrow> has_upper u) \<Longrightarrow> has_upper w"
  by (cases n) auto

lemma required_literal_in_every_match:
  "requiredUppercaseLiteral re \<noteq> '''' \<Longrightarrow> w \<in> re_lang other re \<Longrightarrow> has_upper w"
proof (induction re arbitrary: w)
  case (OpLiteral f s)
  then show ?case by (auto dest: upper_run_has_upper split: if_splits)
next
  case (OpConcat subs)
  then obtain sub where sub: "sub \<in> set subs" "requiredUppercaseLiteral sub \<noteq> ''''"
    using first_nonempty_member [of "map requiredUppercaseLiteral subs"] by auto
  have "w \<in> seq_words (map (re_lang other) subs)" using OpConcat.prems(2) by simp
  from seq_words_upper [OF this] sub show ?case using OpConcat.IH [OF sub(1,2)] by auto
next
  case (OpCapture re)
  then show ?case by (auto split: if_splits)
next
  case (OpPlus re)
  then show ?case by (auto split: if_splits)
next
  case (OpAlternate subs)
  then show ?case by (force simp: all_nonempty_def split: if_splits)
next
  case (OpRepeat mn mx re)
  then obtain n where "mn \<le> n" "w \<in> words n (re_lang other re)" "1 \<le> mn" "requiredUppercaseLiteral re \<noteq> ''''"
    by (auto split: if_splits)
  then show ?case using words_upper [of w n "re_lang other re"] OpRepeat.IH by auto
qed simp

lemma ascii_lower_no_upper: "\<not> is_upper (ascii_lower c)"
proof (cases "is_upper c")
  case True
  then have "(of_char (ascii_lower c) :: nat) = of_char c + 32"
    by (simp add: is_upper_def ascii_lower_def)
  then show ?thesis using True unfolding is_upper_def by linarith
next
  case False
  then have "ascii_lower c = c" by (auto simp: is_upper_def ascii_lower_def)
  then show ?thesis using False by simp
qed

lemma toLower_no_upper: "\<not> has_upper (toLower s)"
  using ascii_lower_no_upper by (auto simp: has_upper_def toLower_def)

lemma compile_regexes_warn:
  assumes "compile_regexes rx uid es (res, ws) = Inr (res', ws')" "\<forall>(u, e, l) \<in> set ws. l = uppercaseLiteral rx e \<and> l \<noteq> ''''"
  shows "\<forall>(u, e, l) \<in> set ws'. l = uppercaseLiteral rx e \<and> l \<noteq> ''''"
  using assms
proof (induction es arbitrary: res ws)
  case (Cons e es)
  let ?ws = "if uppercaseLiteral rx e \<noteq> [] then ws @ [(uid, e, uppercaseLiteral rx e)] else ws"
  have "compile_regexes rx uid es (res @ [e], ?ws) = Inr (res', ws')"
    using Cons.prems(1) by (simp add: Let_def split: if_splits)
  then show ?case by (rule Cons.IH) (use Cons.prems(2) in \<open>simp split: if_split\<close>)
qed simp

text \<open>
  The load-time warning about a regular expression that can never match is never
  wrong: an expression it names matches no lowercased request text, so no rule an operator relies
  on is reported dead.
\<close>

theorem dead_regex_warning_sound:
  assumes "engine_sound other rx" "compile_rule rx ry = Inr (r, ws)" "(uid, expr, lit) \<in> set ws"
  shows "\<not> rx_match rx expr (toLower text)"
proof
  assume m: "rx_match rx expr (toLower text)"
  obtain res where "compile_regexes rx (ry_ID ry) (ry_Regexes ry) ([], []) = Inr (res, ws)"
    using assms(2) by (auto simp: compile_rule_def Let_def gobind_eq_Inr split: if_split_asm)
  from compile_regexes_warn [OF this] assms(3) have lit: "uppercaseLiteral rx expr \<noteq> ''''" by auto
  then obtain re where re: "rx_syntax rx expr = Some re" "requiredUppercaseLiteral re \<noteq> ''''"
    by (auto simp: uppercaseLiteral_def split: option.splits)
  then obtain w where "w \<in> re_lang other re" "sublist w (toLower text)"
    using assms(1) m unfolding engine_sound_def by blast
  then have "has_upper (toLower text)"
    using required_literal_in_every_match [OF re(2)] by (auto simp: sublist_def)
  then show False using toLower_no_upper by blast
qed

section \<open>The hints are complete\<close>

text \<open>
  A rule set's hints name every header and say whether the method is needed: evaluation on an input
  that carries only what the hints ask for gives the same rule as on the full one.
\<close>

definition hints_ok :: "rule_set \<Rightarrow> bool" where
  "hints_ok rs \<longleftrightarrow> (\<forall>r \<in> set (rs_Rules rs). set (wr_headers r) \<subseteq> set (rs_headerTargets rs) \<and>
     (wr_methods r \<noteq> [] \<longrightarrow> rs_needsMethod rs))"

definition same_hinted :: "rule_set \<Rightarrow> match_input \<Rightarrow> match_input \<Rightarrow> bool" where
  "same_hinted rs i j \<longleftrightarrow> mi_Path i = mi_Path j \<and> mi_Query i = mi_Query j \<and> mi_UA i = mi_UA j \<and>
     (rs_needsMethod rs \<longrightarrow> mi_Method i = mi_Method j) \<and>
     (\<forall>n \<in> set (rs_headerTargets rs). header_values i n = header_values j n)"

lemma set_fold_add_unique: "set (fold add_unique xs acc) = set xs \<union> set acc"
  by (induction xs arbitrary: acc) (auto simp: add_unique_def)

lemma rebuildHints_ok: "hints_ok (rebuildHints rs)"
  by (auto simp: hints_ok_def rebuildHints_def set_fold_add_unique list_ex_iff)

lemma match_hinted:
  assumes "hints_ok rs" "same_hinted rs i j"
  shows "MatchEnforcing rx i exempt rs = MatchEnforcing rx j exempt rs"
proof -
  have "rule_matches rx r i = rule_matches rx r j" if "r \<in> set (rs_Rules rs)" for r
  proof -
    have "header_values i n = header_values j n" if "n \<in> set (wr_headers r)" for n
      using assms that \<open>r \<in> set (rs_Rules rs)\<close> unfolding hints_ok_def same_hinted_def by blast
    then have "list_ex (\<lambda>n. list_ex (matchesText rx r) (header_values i n)) (wr_headers r) =
        list_ex (\<lambda>n. list_ex (matchesText rx r) (header_values j n)) (wr_headers r)"
      by (intro list_ex_cong refl) simp
    then show ?thesis using assms that by (auto simp: rule_matches_def hints_ok_def same_hinted_def)
  qed
  then have "match_rules rx i exempt rs' = match_rules rx j exempt rs'" if "set rs' \<subseteq> set (rs_Rules rs)" for rs'
    using that by (induction rs') auto
  then show ?thesis by (simp add: MatchEnforcing_def)
qed

lemma compileRules_hints: "compileRules rx decode raw = Inr rs \<Longrightarrow> hints_ok rs"
  by (auto simp: compileRules_def rebuildHints_ok split: option.splits sum.splits)

lemma rv_build_hints: "rv_build sets v = Inr s \<Longrightarrow> hints_ok s"
  by (auto simp: rv_build_def combineRuleSets_def rs_filter_def rebuildHints_ok split: if_splits sum.splits prod.splits list.splits)


section \<open>Witnesses\<close>

definition example_rule_yaml :: rule_yaml where
  "example_rule_yaml = \<lparr>ry_ID = ''x'', ry_Description = '''', ry_Action = ''deny'', ry_Targets = [], ry_Methods = [],
     ry_Keywords = [], ry_Regexes = [''SELECT'']\<rparr>"

definition example_rx :: regexes where
  "example_rx = \<lparr>rx_syntax = (\<lambda>e. Some (OpLiteral False e)), rx_match = (\<lambda>e t. contains_str t e)\<rparr>"

definition example_decode :: "bytes \<Rightarrow> rule_yaml list option" where
  "example_decode raw = (if raw = ''full'' then Some [example_rule_yaml] else if raw = ''empty'' then Some [] else None)"

definition example_rule :: waf_rule where
  "example_rule = \<lparr>wr_ID = ''x'', wr_Description = '''', wr_Action = WafDeny, wr_targets = targetPath OR targetQuery,
     wr_headers = [], wr_methods = [], wr_keywords = [], wr_regexes = [''SELECT'']\<rparr>"

definition full_set :: rule_set where
  "full_set = \<lparr>rs_Rules = [example_rule], rs_Warnings = [(''x'', ''SELECT'', ''SELECT'')], rs_headerTargets = [], rs_needsMethod = False\<rparr>"

definition moved_cache :: rule_cache where
  "moved_cache = \<lparr>rc_files = [(''a'', \<lparr>rf_hash = 0, rf_set = full_set\<rparr>), (''b'', \<lparr>rf_hash = 0, rf_set = empty_rules\<rparr>)],
     rc_byKey = [(''k'', \<lparr>rv_paths = [''a'', ''b''], rv_disabled = [''x''], rv_scopes = [], rv_set = empty_rules\<rparr>)]\<rparr>"

definition moved_read :: "string \<Rightarrow> bytes option" where
  "moved_read p = (if p = ''a'' then Some ''empty'' else if p = ''b'' then Some ''full'' else None)"

lemma example_upper_run: "upper_run ''SELECT'' = ''SELECT''"
  by (simp add: upper_run_def is_upper_def)

lemma example_compiles:
  "compile_rule example_rx example_rule_yaml = Inr (example_rule, [(''x'', ''SELECT'', ''SELECT'')])"
proof -
  have "trimSpace ''SELECT'' \<noteq> ''''" by (simp add: trimSpace_def trim_with_def is_space_def)
  then show ?thesis
    by (simp add: compile_rule_def example_rule_yaml_def parse_action_def default_targets_def example_rx_def
        uppercaseLiteral_def example_upper_run example_rule_def Let_def)
qed

lemma example_files:
  "compileRules example_rx example_decode ''full'' = Inr full_set" "compileRules example_rx example_decode ''empty'' = Inr empty_rules"
  by (simp_all add: compileRules_def example_decode_def example_compiles rebuildHints_def full_set_def empty_rules_def)
    (simp_all add: example_rule_yaml_def example_rule_def)

lemma moved_cache_consistent: "cache_consistent moved_cache"
  by (simp add: cache_consistent_def moved_cache_def map_wf_def rv_build_def combineRuleSets_def file_set_def full_set_def
      empty_rules_def rs_filter_def rebuildHints_def example_rule_def)

theorem moved_exclusion_never_reloads_witness:
  "((reloadChanged example_rx example_decode moved_read) ^^ 5) moved_cache = moved_cache"
  by (rule moved_exclusion_never_reloads [OF moved_cache_consistent, where k = "''k''" and x = "''x''" and a = "''a''" and b = "''b''"
        and v = "\<lparr>rv_paths = [''a'', ''b''], rv_disabled = [''x''], rv_scopes = [], rv_set = empty_rules\<rparr>"])
    (auto simp: moved_cache_def moved_read_def example_files file_set_def full_set_def empty_rules_def example_rule_def split: if_splits)

theorem dead_regex_warning_sound_witness: "\<not> rx_match example_rx ''SELECT'' (toLower ''a SELECT b'')"
proof (rule dead_regex_warning_sound [OF _ example_compiles, of "\<lambda>_. {}"])
  show "engine_sound (\<lambda>_. {}) example_rx"
    by (auto simp: engine_sound_def example_rx_def contains_str_def)
qed simp

definition example_specs :: "variant_spec list" where
  "example_specs = [\<lparr>vs_Paths = [''a'', ''b''], vs_DisabledIDs = [''x''], vs_Scopes = []\<rparr>]"

theorem rule_cache_composition_witness:
  "\<exists>c s. NewRuleCacheVariants example_rx example_decode id moved_read example_specs = Inr c \<and>
     rc_Get (VariantKey id [''a'', ''b''] [''x'']) c = Some s \<and> distinct (map wr_ID (rs_Rules s))"
proof -
  have p: "check_paths [] [''a'', ''b''] = Inr ()" by (simp add: trimSpace_def trim_with_def is_space_def)
  let ?key = "VariantKey id [''a'', ''b''] [''x'']"
  have "\<exists>c s. NewRuleCacheVariants example_rx example_decode id moved_read example_specs = Inr c \<and> rc_Get ?key c = Some s"
    using p
    by (simp add: NewRuleCacheVariants_def example_specs_def Let_def spec_files_def add_unique_def loadSource_def moved_read_def
        example_files rv_build_def combineRuleSets_def file_set_def full_set_def empty_rules_def rs_filter_def rebuildHints_def
        example_rule_def rc_Get_def)
  then obtain c s where c: "NewRuleCacheVariants example_rx example_decode id moved_read example_specs = Inr c" "rc_Get ?key c = Some s"
    by blast
  then show ?thesis using rule_cache_composition [OF cache_new [OF c(1)] c(2)] by blast
qed

end
