(* ===== verification/Request_Policy.thy ===== *)
theory Request_Policy
  imports Waf_Rules Netip
begin

text \<open>
  The store-free checks of a request (\<^verbatim>\<open>core/stateless/stateless.go\<close>), shared by the sidecar and the
  WebAssembly guest: the request and decision values, static lists, trap paths, the normalized matcher
  input of the WAF, the guest's evaluator, and the URI and host helpers.

  The memoized derivations of a request (\<^verbatim>\<open>normPath\<close>, \<^verbatim>\<open>lowerUA\<close>) are functions of fields nothing changes;
  they are recomputed here. Header names are handed to the transport's getter as they are.
\<close>

section \<open>Values\<close>

record request_context =
  ctx_Host :: string
  ctx_Method :: string
  ctx_URI :: string
  ctx_RemoteAddr :: string
  ctx_UserAgent :: string
  ctx_Cookie :: string
  ctx_Header :: "(string \<Rightarrow> string list) option"
  ctx_Unchallengeable :: bool

datatype action = ActionAllow | ActionChallenge | ActionDeny | ActionRefuse

record event =
  ev_Type :: string
  ev_Detail :: string

definition EventRuleMatch :: string where "EventRuleMatch = ''rule_match''"
definition EventAnomaly :: string where "EventAnomaly = ''anomaly''"
definition EventInstantBlock :: string where "EventInstantBlock = ''instant_block''"
definition EventBotSpoof :: string where "EventBotSpoof = ''bot_spoof''"

record decision =
  dc_Action :: action
  dc_Difficulty :: int
  dc_Reason :: string
  dc_PoWExemption :: string
  dc_Events :: "event list"

abbreviation verdict :: "action \<Rightarrow> string \<Rightarrow> event list \<Rightarrow> decision" where
  "verdict a reason evs \<equiv>
     \<lparr>dc_Action = a, dc_Difficulty = 0, dc_Reason = reason, dc_PoWExemption = '''', dc_Events = evs\<rparr>"

section \<open>URIs\<close>

definition RequestPath :: "string \<Rightarrow> string" where
  "RequestPath uri = before_byte (CHR ''?'') uri"

definition RequestQuery :: "string \<Rightarrow> string" where
  "RequestQuery uri = drop 1 (dropWhile (\<lambda>c. c \<noteq> CHR ''?'') uri)"

text \<open>\<^verbatim>\<open>url.PathUnescape\<close> and \<^verbatim>\<open>url.QueryUnescape\<close>; a malformed escape has no value.\<close>

fun unescape :: "bool \<Rightarrow> string \<Rightarrow> string option" where
  "unescape query [] = Some []"
| "unescape query (c # cs) =
     (if c = CHR ''%'' then
        (case cs of
           h # l # rest \<Rightarrow>
             (case (hex_digit h, hex_digit l) of
                (Some a, Some b) \<Rightarrow> map_option ((#) (char_of (16 * a + b))) (unescape query rest)
              | _ \<Rightarrow> None)
         | _ \<Rightarrow> None)
      else map_option ((#) (if query \<and> c = CHR ''+'' then CHR '' '' else c)) (unescape query cs))"

definition DecodePath :: "string \<Rightarrow> string" where
  "DecodePath p =
     (if CHR ''%'' \<notin> set p then p
      else case unescape False p of Some d \<Rightarrow> d | None \<Rightarrow> p)"

definition DecodeQuery :: "string \<Rightarrow> string" where
  "DecodeQuery q =
     (if CHR ''%'' \<notin> set q \<and> CHR ''+'' \<notin> set q then q
      else case unescape True q of Some d \<Rightarrow> d | None \<Rightarrow> q)"

text \<open>\<^verbatim>\<open>path.Clean\<close> on a rooted path: empty and \<open>.\<close> elements go, \<open>..\<close> removes the element before it.\<close>

fun split_slash :: "string \<Rightarrow> string list" where
  "split_slash [] = [[]]"
| "split_slash (c # cs) =
     (if c = CHR ''/'' then [] # split_slash cs
      else (c # hd (split_slash cs)) # tl (split_slash cs))"

definition clean_step :: "string list \<Rightarrow> string \<Rightarrow> string list" where
  "clean_step out seg =
     (if seg = '''' \<or> seg = ''.'' then out else if seg = ''..'' then butlast out else out @ [seg])"

definition render :: "string list \<Rightarrow> string" where
  "render segs = concat (map ((#) (CHR ''/'')) segs)"

definition path_Clean :: "string \<Rightarrow> string" where
  "path_Clean p =
     (let segs = foldl clean_step [] (split_slash p) in if segs = [] then ''/'' else render segs)"

definition NormalizePath :: "string \<Rightarrow> string" where
  "NormalizePath p0 =
     (let p = DecodePath p0
      in if p = '''' then ''/''
         else let trailingSlash = hasSuffix p ''/'';
                  p1 = (if hasPrefix p ''/'' then p else CHR ''/'' # p);
                  p2 = path_Clean p1
              in if trailingSlash \<and> p2 \<noteq> ''/'' then p2 @ ''/'' else p2)"

definition NormalizedPath :: "request_context \<Rightarrow> string" where
  "NormalizedPath r = NormalizePath (RequestPath (ctx_URI r))"

definition LowerUA :: "request_context \<Rightarrow> string" where
  "LowerUA r = toLower (ctx_UserAgent r)"

definition HeaderValues :: "request_context \<Rightarrow> string \<Rightarrow> string list" where
  "HeaderValues r name = (case ctx_Header r of None \<Rightarrow> [] | Some h \<Rightarrow> h name)"

section \<open>Hosts\<close>

definition trim_brackets :: "string \<Rightarrow> string" where
  "trim_brackets = trim_with (\<lambda>c. c = CHR ''['' \<or> c = CHR '']'')"

definition NormalizeHost :: "string \<Rightarrow> string" where
  "NormalizeHost host0 =
     (let host = toLower (trimSpace host0);
          host = (if CHR '':'' \<in> set host then (case splitHost host of Some h \<Rightarrow> h | None \<Rightarrow> host) else host)
      in trimSuffix (trim_brackets host) ''.'')"

definition NormalizeHostKey :: "(string, string) gomap \<Rightarrow> string \<Rightarrow> (string + string) \<times> (string, string) gomap" where
  "NormalizeHostKey seen host =
     (let key = NormalizeHost host
      in case map_of seen key of
           Some prev \<Rightarrow> (Inl prev, seen)
         | None \<Rightarrow> (Inr key, mput key host seen))"

definition ClientIP :: "string \<Rightarrow> string" where
  "ClientIP a =
     (if a = '''' then ''''
      else case splitHost a of
             Some host \<Rightarrow> host
           | None \<Rightarrow> (let trimmed = trim_brackets a in if ParseAddr trimmed \<noteq> None then trimmed else a))"

section \<open>Static lists\<close>

record list_config =
  lc_IPs :: "string list"
  lc_UAs :: "string list"
  lc_Paths :: "string list"
  lc_prefixes :: "ip_prefix list"
  lc_uasLower :: "string list"

datatype list_error =
    PathEmpty string | PathRelative string string | PathRoot string string | PathQuery string string
  | PathNotNormalized string string string | BadCIDR string | BadIP string | EmptyUA

definition rootHarmList :: string where
  "rootHarmList = ''prefix-matches every URL, so this list would match every request; name the specific paths instead''"

definition rootHarmHoneypot :: string where
  "rootHarmHoneypot = ''would match every request: the first visitor would be denied (and blocked when ip_behaviour is on); use a specific trap path''"

definition ValidateMatchPath :: "string \<Rightarrow> string \<Rightarrow> string \<Rightarrow> list_error option" where
  "ValidateMatchPath field entry rootHarm =
     (if trimSpace entry = '''' then Some (PathEmpty field)
      else if \<not> hasPrefix entry ''/'' then Some (PathRelative field entry)
      else if entry = ''/'' then Some (PathRoot field rootHarm)
      else if CHR ''?'' \<in> set entry \<or> CHR ''#'' \<in> set entry then Some (PathQuery field entry)
      else let norm = NormalizePath entry
           in if norm \<noteq> entry then Some (PathNotNormalized field entry norm) else None)"

fun validate_paths :: "string \<Rightarrow> string \<Rightarrow> string list \<Rightarrow> list_error option" where
  "validate_paths field harm [] = None"
| "validate_paths field harm (p # ps) =
     (case ValidateMatchPath field p harm of Some e \<Rightarrow> Some e | None \<Rightarrow> validate_paths field harm ps)"

definition compile_ip :: "string \<Rightarrow> list_error + ip_prefix" where
  "compile_ip s =
     (if CHR ''/'' \<in> set s then (case ParsePrefix s of None \<Rightarrow> Inl (BadCIDR s) | Some p \<Rightarrow> Inr (Masked p))
      else case ParseAddr s of None \<Rightarrow> Inl (BadIP s) | Some a \<Rightarrow> Inr (PrefixFrom a (BitLen a)))"

fun compile_ips :: "string list \<Rightarrow> ip_prefix list \<Rightarrow> list_error + ip_prefix list" where
  "compile_ips [] acc = Inr acc"
| "compile_ips (s # ss) acc = gobind (compile_ip s) (\<lambda>p. compile_ips ss (acc @ [p]))"

fun compile_uas :: "string list \<Rightarrow> string list \<Rightarrow> list_error + string list" where
  "compile_uas [] acc = Inr acc"
| "compile_uas (u # us) acc =
     (let ua = trimSpace u in if ua = '''' then Inl EmptyUA else compile_uas us (acc @ [toLower ua]))"

definition lc_Compile :: "list_config \<Rightarrow> list_error + list_config" where
  "lc_Compile l =
     gobind (compile_ips (lc_IPs l) []) (\<lambda>ps.
     gobind (compile_uas (lc_UAs l) []) (\<lambda>us.
       case validate_paths ''paths'' rootHarmList (lc_Paths l) of
         Some e \<Rightarrow> Inl e
       | None \<Rightarrow> Inr (l\<lparr>lc_prefixes := ps, lc_uasLower := us\<rparr>)))"

definition MatchIP :: "list_config \<Rightarrow> addr \<Rightarrow> bool" where
  "MatchIP l a = list_ex (\<lambda>p. Contains p (Unmap a)) (lc_prefixes l)"

definition MatchUALower :: "list_config \<Rightarrow> string \<Rightarrow> bool" where
  "MatchUALower l lower = (lower \<noteq> '''' \<and> list_ex (contains_str lower) (lc_uasLower l))"

definition MatchUA :: "list_config \<Rightarrow> string \<Rightarrow> bool" where
  "MatchUA l ua = MatchUALower l (toLower ua)"

definition path_entry_matches :: "string \<Rightarrow> string \<Rightarrow> bool" where
  "path_entry_matches path entry =
     (if hasSuffix entry ''/'' then hasPrefix path entry \<or> path = trimSuffix entry ''/'' else path = entry)"

definition MatchPathList :: "string list \<Rightarrow> string \<Rightarrow> bool" where
  "MatchPathList entries path = list_ex (path_entry_matches path) entries"

definition lc_MatchPath :: "list_config \<Rightarrow> string \<Rightarrow> bool" where
  "lc_MatchPath l path = MatchPathList (lc_Paths l) path"

record honeypot_config =
  hp_Enabled :: bool
  hp_Paths :: "string list"

definition hp_Validate :: "honeypot_config \<Rightarrow> list_error option" where
  "hp_Validate hp = validate_paths ''waf.honeypot.paths'' rootHarmHoneypot (hp_Paths hp)"

section \<open>The evaluator\<close>

record domain_rules =
  dr_Allowlist :: list_config
  dr_Denylist :: list_config
  dr_Honeypot :: honeypot_config
  dr_RulesEnabled :: bool
  dr_Rules :: "rule_set option"

definition parsed_match :: "request_context \<Rightarrow> list_config \<Rightarrow> bool" where
  "parsed_match req l = (case ParseAddr (ctx_RemoteAddr req) of None \<Rightarrow> False | Some a \<Rightarrow> MatchIP l a)"

definition MatchAllowlist :: "request_context \<Rightarrow> list_config \<Rightarrow> string" where
  "MatchAllowlist req l =
     (if lc_MatchPath l (NormalizedPath req) then ''allowlist:path''
      else if parsed_match req l then ''allowlist:ip''
      else if MatchUALower l (LowerUA req) then ''allowlist:ua''
      else '''')"

definition staticDenyEvents :: "event list" where
  "staticDenyEvents = [\<lparr>ev_Type = ''deny'', ev_Detail = ''static denylist hit''\<rparr>]"

definition CheckDenylist :: "request_context \<Rightarrow> list_config \<Rightarrow> decision option" where
  "CheckDenylist req l =
     (if parsed_match req l then Some (verdict ActionDeny ''denylist:ip'' staticDenyEvents)
      else if MatchUALower l (LowerUA req) then Some (verdict ActionDeny ''denylist:ua'' staticDenyEvents)
      else if lc_MatchPath l (NormalizedPath req) then Some (verdict ActionDeny ''denylist:path'' staticDenyEvents)
      else None)"

definition CheckHoneypot :: "request_context \<Rightarrow> honeypot_config \<Rightarrow> decision option" where
  "CheckHoneypot req hp =
     (if \<not> hp_Enabled hp \<or> hp_Paths hp = [] then None
      else if MatchPathList (hp_Paths hp) (NormalizedPath req)
      then Some (verdict ActionDeny ''honeypot:path'' [\<lparr>ev_Type = EventInstantBlock, ev_Detail = ''honeypot:path''\<rparr>])
      else None)"

definition header_entry :: "request_context \<Rightarrow> string \<Rightarrow> (string \<times> string list) list" where
  "header_entry req name =
     (let vs = map (\<lambda>v. toLower (DecodePath v)) (filter (\<lambda>v. v \<noteq> '''') (HeaderValues req name))
      in if vs = [] then [] else [(name, vs)])"

definition BuildMatchInput :: "request_context \<Rightarrow> rule_set \<Rightarrow> match_input" where
  "BuildMatchInput req rs =
     \<lparr>mi_Method = (if NeedsMethod (Some rs) then toUpper (ctx_Method req) else ''''),
      mi_Path = toLower (DecodePath (RequestPath (ctx_URI req))),
      mi_Query = toLower (DecodeQuery (RequestQuery (ctx_URI req))),
      mi_UA = LowerUA req,
      mi_Headers = (if ctx_Header req = None then []
                    else concat (map (header_entry req) (HeaderTargets (Some rs))))\<rparr>"

definition evalRules :: "regexes \<Rightarrow> request_context \<Rightarrow> domain_rules \<Rightarrow> bool \<Rightarrow> decision option" where
  "evalRules rx req dr exempt =
     (if \<not> dr_RulesEnabled dr then None
      else case dr_Rules dr of
             None \<Rightarrow> None
           | Some rs \<Rightarrow>
               (case MatchEnforcing rx (BuildMatchInput req rs) exempt rs of
                  None \<Rightarrow> None
                | Some rule \<Rightarrow>
                    Some (if wr_Action rule = WafAllow then verdict ActionAllow (''waf:'' @ wr_ID rule) []
                          else verdict ActionDeny (''waf:'' @ wr_ID rule)
                            [\<lparr>ev_Type = (if wr_Action rule = WafBlock then EventInstantBlock else EventRuleMatch),
                              ev_Detail = wr_ID rule\<rparr>])))"

definition st_Evaluate :: "regexes \<Rightarrow> request_context \<Rightarrow> domain_rules \<Rightarrow> decision" where
  "st_Evaluate rx req dr =
     (let exemption = MatchAllowlist req (dr_Allowlist dr);
          d = (case CheckDenylist req (dr_Denylist dr) of
                 Some denied \<Rightarrow> denied
               | None \<Rightarrow>
                   (case CheckHoneypot req (dr_Honeypot dr) of
                      Some trapped \<Rightarrow> trapped
                    | None \<Rightarrow>
                        (case evalRules rx req dr (exemption \<noteq> '''') of
                           Some matched \<Rightarrow> matched
                         | None \<Rightarrow> verdict ActionAllow ''default'' [])))
      in d\<lparr>dc_PoWExemption := exemption\<rparr>)"


section \<open>Normalized paths\<close>

text \<open>The form of a path after normalization: proper segments, and whether it ends with a slash.\<close>

definition seg_ok :: "string \<Rightarrow> bool" where
  "seg_ok s \<longleftrightarrow> s \<noteq> '''' \<and> s \<noteq> ''.'' \<and> s \<noteq> ''..'' \<and> CHR ''/'' \<notin> set s"

definition path_segs :: "string \<Rightarrow> string list" where
  "path_segs p = filter (\<lambda>s. s \<noteq> '''') (split_slash p)"

definition path_form :: "string list \<Rightarrow> string \<Rightarrow> string \<Rightarrow> bool" where
  "path_form segs tail p \<longleftrightarrow> list_all seg_ok segs \<and> tail \<in> {'''', ''/''} \<and> (segs = [] \<longrightarrow> tail = ''/'') \<and>
     p = render segs @ tail"

lemma render_simps [simp]:
  "render [] = ''''" "render (s # ss) = CHR ''/'' # s @ render ss" "render (xs @ ys) = render xs @ render ys"
  by (simp_all add: render_def)

lemma split_slash_nonempty [simp]: "split_slash p \<noteq> []"
  by (cases p) auto

lemma split_slash_no_slash: "s \<in> set (split_slash p) \<Longrightarrow> CHR ''/'' \<notin> set s"
proof (induction p arbitrary: s)
  case (Cons c cs)
  obtain h t where "split_slash cs = h # t" by (meson neq_Nil_conv split_slash_nonempty)
  with Cons show ?case by (auto split: if_splits)
qed simp

lemma clean_step_ok: "list_all seg_ok out \<Longrightarrow> CHR ''/'' \<notin> set seg \<Longrightarrow> list_all seg_ok (clean_step out seg)"
  by (auto simp: clean_step_def seg_ok_def list_all_iff dest: in_set_butlastD)

lemma clean_fold_ok:
  "list_all seg_ok out \<Longrightarrow> (\<And>s. s \<in> set segs \<Longrightarrow> CHR ''/'' \<notin> set s) \<Longrightarrow> list_all seg_ok (foldl clean_step out segs)"
  by (induction segs arbitrary: out) (auto intro: clean_step_ok)

lemma path_Clean_form:
  obtains segs where "list_all seg_ok segs" "path_Clean p = (if segs = [] then ''/'' else render segs)"
  using clean_fold_ok [of "[]" "split_slash p"] split_slash_no_slash by (force simp: path_Clean_def Let_def)

lemma render_not_root: "list_all seg_ok segs \<Longrightarrow> render segs \<noteq> ''/''"
  by (cases segs) (auto simp: seg_ok_def)

lemma NormalizePath_form: "\<exists>segs tail. path_form segs tail (NormalizePath p)"
proof (cases "DecodePath p = ''''")
  case True
  then show ?thesis by (intro exI [of _ "[]"] exI [of _ "''/''"]) (simp add: NormalizePath_def path_form_def)
next
  case False
  define q where "q = (if hasPrefix (DecodePath p) ''/'' then DecodePath p else CHR ''/'' # DecodePath p)"
  obtain segs where s: "list_all seg_ok segs" "path_Clean q = (if segs = [] then ''/'' else render segs)"
    by (rule path_Clean_form)
  have n: "NormalizePath p = (if hasSuffix (DecodePath p) ''/'' \<and> path_Clean q \<noteq> ''/'' then path_Clean q @ ''/'' else path_Clean q)"
    using False by (simp add: NormalizePath_def q_def Let_def)
  show ?thesis
  proof (cases "segs = []")
    case True
    then show ?thesis using n s by (intro exI [of _ "[]"] exI [of _ "''/''"]) (simp add: path_form_def)
  next
    case False
    then show ?thesis
      using n s render_not_root [OF s(1)]
      by (intro exI [of _ segs] exI [of _ "if hasSuffix (DecodePath p) ''/'' then ''/'' else ''''"]) (simp add: path_form_def)
  qed
qed

lemma split_slash_plain: "CHR ''/'' \<notin> set s \<Longrightarrow> split_slash (s @ CHR ''/'' # r) = s # split_slash r"
  by (induction s) auto

lemma split_slash_word: "CHR ''/'' \<notin> set s \<Longrightarrow> split_slash s = [s]"
  by (induction s) auto

lemma split_slash_seg:
  assumes "CHR ''/'' \<notin> set s" "r = '''' \<or> hd r = CHR ''/''"
  shows "split_slash (s @ r) = s # tl (split_slash r)"
proof (cases r)
  case Nil
  then show ?thesis using split_slash_word [OF assms(1)] by simp
next
  case (Cons c r')
  then show ?thesis using split_slash_plain [OF assms(1), of r'] assms(2) by simp
qed

lemma hd_render: "render ss @ tail = '''' \<or> hd (render ss @ tail) = CHR ''/''" if "tail \<in> {'''', ''/''}"
  using that by (cases ss) auto

lemma path_segs_form:
  assumes "list_all seg_ok segs" "tail \<in> {'''', ''/''}"
  shows "path_segs (render segs @ tail) = segs"
  using assms(1)
proof (induction segs)
  case Nil
  then show ?case using assms(2) by (auto simp: path_segs_def)
next
  case (Cons s ss)
  have "split_slash (s @ render ss @ tail) = s # tl (split_slash (render ss @ tail))"
    using Cons.prems hd_render [OF assms(2), of ss] by (intro split_slash_seg) (auto simp: seg_ok_def)
  moreover have "path_segs (render ss @ tail) = filter (\<lambda>s. s \<noteq> '''') (tl (split_slash (render ss @ tail)))"
  proof -
    have "hd (split_slash (render ss @ tail)) = ''''" using assms(2) by (cases ss) auto
    moreover have "split_slash (render ss @ tail) \<noteq> []" by (cases "render ss @ tail") auto
    ultimately show ?thesis by (cases "split_slash (render ss @ tail)") (auto simp: path_segs_def)
  qed
  ultimately show ?case using Cons by (simp add: path_segs_def seg_ok_def)
qed

text \<open>A segment followed by a slash is a prefix of another segment and its rest only when they agree.\<close>

lemma segment_prefix:
  assumes "CHR ''/'' \<notin> set a" "CHR ''/'' \<notin> set b" "y = '''' \<or> hd y = CHR ''/''"
  shows "prefix (a @ CHR ''/'' # x) (b @ y) \<longleftrightarrow> a = b \<and> prefix (CHR ''/'' # x) y"
proof
  assume p: "prefix (a @ CHR ''/'' # x) (b @ y)"
  then obtain z where z: "b @ y = a @ CHR ''/'' # x @ z" by (auto simp: prefix_def)
  have "takeWhile (\<lambda>c. c \<noteq> CHR ''/'') (b @ y) = b"
    using assms(2,3) by (cases y) (auto simp: takeWhile_append)
  moreover have "takeWhile (\<lambda>c. c \<noteq> CHR ''/'') (a @ CHR ''/'' # x @ z) = a"
    using assms(1) by (auto simp: takeWhile_append)
  ultimately have "a = b" using z by metis
  then show "a = b \<and> prefix (CHR ''/'' # x) y" using p by simp
qed simp

lemma subtree_prefix:
  assumes "list_all seg_ok es" "list_all seg_ok ss" "tail \<in> {'''', ''/''}"
  shows "prefix (render es @ ''/'') (render ss @ tail) \<or> render es = render ss @ tail \<longleftrightarrow> prefix es ss"
  using assms(1,2)
proof (induction es arbitrary: ss)
  case Nil
  then show ?case using assms(3) by (cases ss) auto
next
  case (Cons e es)
  show ?case
  proof (cases ss)
    case Nil
    then show ?thesis using Cons.prems assms(3) by (auto simp: seg_ok_def)
  next
    case s: (Cons b bs)
    have slash: "CHR ''/'' \<notin> set e" "CHR ''/'' \<notin> set b" using Cons.prems s by (auto simp: seg_ok_def)
    have "render es @ ''/'' = CHR ''/'' # tl (render es @ ''/'')" by (cases es) auto
    then have "prefix (e @ render es @ ''/'') (b @ render bs @ tail) \<longleftrightarrow> e = b \<and> prefix (render es @ ''/'') (render bs @ tail)"
      using segment_prefix [OF slash, of "render bs @ tail" "tl (render es @ ''/'')"] hd_render [OF assms(3)] by metis
    moreover have "e @ render es = b @ render bs @ tail \<longleftrightarrow> e = b \<and> render es = render bs @ tail"
      using split_slash_seg [OF slash(1), of "render es"] split_slash_seg [OF slash(2), of "render bs @ tail"]
        hd_render [OF assms(3), of bs] hd_render [of "''''" es] by (metis append.right_neutral append_same_eq insertI1 list.inject same_append_eq)
    ultimately show ?thesis using Cons.IH [of bs] Cons.prems by (auto simp: s)
  qed
qed

lemma validated_form:
  assumes "ValidateMatchPath field e harm = None"
  obtains segs tail where "path_form segs tail e" "segs \<noteq> []" "NormalizePath e = e" "CHR ''?'' \<notin> set e"
proof -
  have e: "e \<noteq> ''/''" "NormalizePath e = e" "CHR ''?'' \<notin> set e"
    using assms by (auto simp: ValidateMatchPath_def Let_def split: if_splits)
  obtain segs tail where f: "path_form segs tail e" using NormalizePath_form [of e] e(2) by metis
  moreover have "segs \<noteq> []" using f e(1) by (auto simp: path_form_def)
  ultimately show ?thesis using that e(2,3) by blast
qed

lemma hasSuffix_form:
  assumes "path_form segs tail p"
  shows "hasSuffix p ''/'' \<longleftrightarrow> tail = ''/''"
proof (cases "segs = []")
  case True
  then show ?thesis using assms by (auto simp: path_form_def hasSuffix_def suffix_def)
next
  case False
  then obtain ss s where r: "segs = ss @ [s]" by (metis rev_exhaust)
  then have "s \<noteq> ''''" "CHR ''/'' \<notin> set s" using assms(1) by (auto simp: path_form_def seg_ok_def)
  then have "List.last s \<noteq> CHR ''/''" by (metis last_in_set)
  moreover have "List.last (render segs) = List.last s" using r \<open>s \<noteq> ''''\<close> by simp
  ultimately have "\<not> suffix ''/'' (render segs)" by (metis last_appendR last.simps list.discI suffix_def)
  then show ?thesis using assms(1) by (auto simp: path_form_def hasSuffix_def suffix_def)
qed

lemma path_form_segs: "path_form segs tail p \<Longrightarrow> path_segs p = segs"
  using path_segs_form by (auto simp: path_form_def)

lemma path_form_bare: "path_form segs tail p \<Longrightarrow> trimSuffix p ''/'' = render segs"
  using hasSuffix_form [of segs tail p] by (auto simp: path_form_def trimSuffix_def hasSuffix_def)

lemma entry_subtree:
  assumes "path_form es etail e" "path_form ss tail p" "hasSuffix e ''/''"
  shows "path_entry_matches p e \<longleftrightarrow> prefix (path_segs e) (path_segs p)"
proof -
  have "etail = ''/''" using hasSuffix_form [OF assms(1)] assms(3) by simp
  then have "e = render es @ ''/''" "p = render ss @ tail" "list_all seg_ok es" "list_all seg_ok ss" "tail \<in> {'''', ''/''}"
    using assms(1,2) by (auto simp: path_form_def)
  then show ?thesis
    using subtree_prefix [of es ss tail] path_form_segs [OF assms(1)] path_form_segs [OF assms(2)] path_form_bare [OF assms(1)] assms(3)
    by (auto simp: path_entry_matches_def hasPrefix_def)
qed

lemma NormalizedPath_form: "\<exists>segs tail. path_form segs tail (NormalizedPath r)"
  unfolding NormalizedPath_def by (rule NormalizePath_form)

text \<open>
  C31 (functional). A path entry that passes validation means what it says for every request: with a
  trailing slash it matches exactly the requests whose normalized path lies in that directory,
  segment by segment (so \<^verbatim>\<open>/admin/\<close> covers \<^verbatim>\<open>/admin\<close> and \<^verbatim>\<open>/x/../admin/%61\<close> but not \<^verbatim>\<open>/administrator\<close>),
  without one exactly its own path, and no accepted entry is dead: the request for it matches.
\<close>

theorem validated_path_entry_exact:
  assumes "ValidateMatchPath field e harm = None"
  shows "(MatchPathList [e] (NormalizedPath req) \<longleftrightarrow>
      (if hasSuffix e ''/'' then prefix (path_segs e) (path_segs (NormalizedPath req)) else NormalizedPath req = e)) \<and>
    MatchPathList [e] (NormalizedPath (req\<lparr>ctx_URI := e\<rparr>))"
proof -
  obtain es etail where e: "path_form es etail e" "es \<noteq> []" "NormalizePath e = e" "CHR ''?'' \<notin> set e"
    using validated_form [OF assms] by blast
  have exact: "MatchPathList [e] (NormalizedPath r) \<longleftrightarrow>
      (if hasSuffix e ''/'' then prefix (path_segs e) (path_segs (NormalizedPath r)) else NormalizedPath r = e)" for r
    using entry_subtree [OF e(1)] NormalizedPath_form [of r]
    by (auto simp: MatchPathList_def path_entry_matches_def [of _ e])
  have "RequestPath e = e" using e(4) by (simp add: RequestPath_def before_byte_def takeWhile_eq_all_conv) metis
  then have "NormalizedPath (req\<lparr>ctx_URI := e\<rparr>) = e" using e(3) by (simp add: NormalizedPath_def)
  then show ?thesis using exact [of req] exact [of "req\<lparr>ctx_URI := e\<rparr>"] by simp
qed


section \<open>Mapped entries of a static list\<close>

lemma compile_ips_single: "compile_ips [s] [] = gobind (compile_ip s) (\<lambda>p. Inr [p])"
  by (cases "compile_ip s") (auto simp: gobind_def)

lemma Masked_sel [simp]: "px_is4 (Masked p) = px_is4 p" "px_bits (Masked p) = px_bits p"
  by (simp_all add: Masked_def)

text \<open>
  An IP entry written in IPv4-mapped form is accepted and then matches no client at
  all: the client address is unmapped before the comparison, the entry is not. This is so for a bare
  address and for a CIDR inside \<^verbatim>\<open>::ffff:0:0/96\<close>.
\<close>

theorem mapped_list_entry_is_dead:
  assumes "CHR ''/'' \<notin> set s \<and> ParseAddr s = Some (AddrV6 gs z) \<and> Is4In6 gs \<or>
      CHR ''/'' \<in> set s \<and> ParsePrefix s = Some p \<and> \<not> px_is4 p \<and> 96 \<le> px_bits p \<and> px_bits p \<le> 128 \<and>
      px_num p div 2 ^ 32 = 65535"
    and "ParseAddr client = Some a"
  shows "\<exists>l. lc_Compile \<lparr>lc_IPs = [s], lc_UAs = [], lc_Paths = [], lc_prefixes = [], lc_uasLower = []\<rparr> = Inr l \<and>
     \<not> MatchIP l a"
proof -
  have ok: "addr_ok a" using ParseAddr_ok [OF assms(2)] .
  obtain q where q: "compile_ip s = Inr q" "\<not> Contains q (Unmap a)"
  proof (cases "CHR ''/'' \<in> set s")
    case True
    then show ?thesis using that [of "Masked p"] assms(1) mapped_prefix_never_contains [OF ok, of p]
      by (simp add: compile_ip_def)
  next
    case False
    then have m: "ParseAddr s = Some (AddrV6 gs z)" "Is4In6 gs" using assms(1) by simp_all
    then have "addr_num (AddrV6 gs z) div 2 ^ 32 = 65535" using mapped_num ParseAddr_ok [OF m(1)] by blast
    then have "\<not> Contains (PrefixFrom (AddrV6 gs z) 128) (Unmap a)"
      by (intro mapped_prefix_never_contains [OF ok]) (simp_all del: addr_num.simps)
    then show ?thesis using that [of "PrefixFrom (AddrV6 gs z) 128"] False m(1)
      by (simp add: compile_ip_def BitLen_def family_bits_def)
  qed
  then show ?thesis by (simp add: lc_Compile_def MatchIP_def)
qed

section \<open>The lazy matcher input\<close>

text \<open>The input with the method and every header of a list of names, whether a rule asks for it or not.\<close>

definition full_match_input :: "request_context \<Rightarrow> string list \<Rightarrow> match_input" where
  "full_match_input req names =
     \<lparr>mi_Method = toUpper (ctx_Method req),
      mi_Path = toLower (DecodePath (RequestPath (ctx_URI req))),
      mi_Query = toLower (DecodeQuery (RequestQuery (ctx_URI req))),
      mi_UA = LowerUA req,
      mi_Headers = concat (map (header_entry req) names)\<rparr>"

definition decoded_values :: "request_context \<Rightarrow> string \<Rightarrow> string list" where
  "decoded_values req n = map (\<lambda>v. toLower (DecodePath v)) (filter (\<lambda>v. v \<noteq> '''') (HeaderValues req n))"

lemma map_of_header_entries:
  "map_of (concat (map (header_entry req) names)) n =
     (if n \<in> set names \<and> decoded_values req n \<noteq> [] then Some (decoded_values req n) else None)"
  by (induction names) (auto simp: header_entry_def decoded_values_def Let_def map_add_def split: option.splits)

lemma lazy_same_hinted:
  assumes "set (rs_headerTargets rs) \<subseteq> set names"
  shows "same_hinted rs (BuildMatchInput req rs) (full_match_input req names)"
proof -
  have "header_values (full_match_input req names) n = decoded_values req n" if "n \<in> set names" for n
    using that by (simp add: full_match_input_def header_values_def map_of_header_entries)
  moreover have "header_values (BuildMatchInput req rs) n = decoded_values req n" if "n \<in> set (rs_headerTargets rs)" for n
  proof (cases "ctx_Header req")
    case None
    then show ?thesis by (simp add: BuildMatchInput_def header_values_def decoded_values_def HeaderValues_def)
  next
    case (Some h)
    then show ?thesis using that
      by (simp add: BuildMatchInput_def header_values_def HeaderTargets_def map_of_header_entries)
  qed
  ultimately show ?thesis using assms
    by (auto simp: same_hinted_def) (auto simp: BuildMatchInput_def full_match_input_def NeedsMethod_def)
qed

lemma cache_hints: "cache_reach rx decode sha c \<Longrightarrow> rc_Get key c = Some rs \<Longrightarrow> hints_ok rs"
proof -
  assume a: "cache_reach rx decode sha c" "rc_Get key c = Some rs"
  then obtain v where v: "map_of (rc_byKey c) key = Some v" "rv_set v = rs" by (auto simp: rc_Get_def)
  have "(key, v) \<in> set (rc_byKey c)" using v(1) by (rule map_of_SomeD)
  then have "rv_build (file_set (rc_files c)) v = Inr rs"
    using reach_consistent [OF a(1)] v(2) unfolding cache_consistent_def by blast
  then show ?thesis by (rule rv_build_hints)
qed

text \<open>
  The matcher input that fetches the method and headers only when some rule of the
  set names them gives the same matching rule as one that always carries the method and the decoded
  values of any list of headers covering the rules, for every set the cache serves and every set
  compiled from a document.
\<close>

theorem lazy_input_is_complete:
  assumes "compileRules rx decode raw = Inr rs \<or> cache_reach rx decode sha c \<and> rc_Get key c = Some rs"
    and "set (rs_headerTargets rs) \<subseteq> set names"
  shows "MatchEnforcing rx (BuildMatchInput req rs) exempt rs = MatchEnforcing rx (full_match_input req names) exempt rs"
  using assms compileRules_hints cache_hints by (intro match_hinted lazy_same_hinted) blast+

section \<open>What an allowlist can do\<close>

lemma exempt_skips_only_challenges:
  "match_rules rx i True rs = match_rules rx i False rs \<or>
     (\<exists>r. match_rules rx i False rs = Some r \<and> wr_Action r = WafChallenge)"
  by (induction rs) auto

lemma st_Evaluate_action:
  "dc_Action (st_Evaluate rx req dr) =
     (if CheckDenylist req (dr_Denylist dr) \<noteq> None \<or> CheckHoneypot req (dr_Honeypot dr) \<noteq> None then ActionDeny
      else case evalRules rx req dr (MatchAllowlist req (dr_Allowlist dr) \<noteq> '''') of
             Some d \<Rightarrow> dc_Action d | None \<Rightarrow> ActionAllow)"
  by (auto simp: st_Evaluate_def CheckDenylist_def CheckHoneypot_def Let_def split: option.splits if_splits)

text \<open>
  In the guest, no allowlist overrides a denial: two configurations that differ only in
  their allowlist decide differently only for a request that neither the denylist nor a trap path
  stops and whose first matching WAF rule is a challenge.
\<close>

theorem allowlist_exempts_only_challenges:
  assumes "dc_Action (st_Evaluate rx req (dr\<lparr>dr_Allowlist := l1\<rparr>)) \<noteq> dc_Action (st_Evaluate rx req (dr\<lparr>dr_Allowlist := l2\<rparr>))"
  shows "CheckDenylist req (dr_Denylist dr) = None \<and> CheckHoneypot req (dr_Honeypot dr) = None \<and>
     (\<exists>rs r. dr_Rules dr = Some rs \<and> Match rx (BuildMatchInput req rs) rs = Some r \<and> wr_Action r = WafChallenge)"
proof -
  have n: "CheckDenylist req (dr_Denylist dr) = None" "CheckHoneypot req (dr_Honeypot dr) = None"
    using assms by (auto simp: st_Evaluate_action split: if_splits)
  obtain rs where rs: "dr_Rules dr = Some rs" "dr_RulesEnabled dr"
    using assms n by (cases "dr_Rules dr"; cases "dr_RulesEnabled dr") (auto simp: st_Evaluate_action evalRules_def)
  let ?i = "BuildMatchInput req rs"
  have "match_rules rx ?i True (rs_Rules rs) \<noteq> match_rules rx ?i False (rs_Rules rs)"
  proof
    assume "match_rules rx ?i True (rs_Rules rs) = match_rules rx ?i False (rs_Rules rs)"
    then have same: "match_rules rx ?i b (rs_Rules rs) = match_rules rx ?i False (rs_Rules rs)" for b by (cases b) auto
    show False using assms n rs same [of "MatchAllowlist req l1 \<noteq> ''''"] same [of "MatchAllowlist req l2 \<noteq> ''''"]
      by (simp add: st_Evaluate_action evalRules_def MatchEnforcing_def)
  qed
  then show ?thesis using n rs exempt_skips_only_challenges [of rx ?i "rs_Rules rs"]
    by (auto simp: Match_def MatchEnforcing_def)
qed


section \<open>Witnesses\<close>

definition sample_request :: request_context where
  "sample_request = \<lparr>ctx_Host = ''a.test'', ctx_Method = ''GET'', ctx_URI = ''/admin/x?q=1'', ctx_RemoteAddr = ''192.0.2.7'',
     ctx_UserAgent = ''curl'', ctx_Cookie = '''', ctx_Header = None, ctx_Unchallengeable = False\<rparr>"

lemma example_entry_valid: "ValidateMatchPath ''paths'' ''/admin/'' rootHarmList = None"
proof -
  have "NormalizePath ''/admin/'' = ''/admin/''"
    by (simp add: NormalizePath_def DecodePath_def path_Clean_def clean_step_def hasSuffix_def hasPrefix_def suffix_def Let_def)
  moreover have "trimSpace ''/admin/'' \<noteq> ''''" by (simp add: trimSpace_def trim_with_def is_space_def)
  ultimately show ?thesis by (simp add: ValidateMatchPath_def hasPrefix_def)
qed

theorem validated_path_entry_exact_witness: "MatchPathList [''/admin/''] (NormalizedPath sample_request)"
proof -
  have n: "NormalizedPath sample_request = ''/admin/x''"
    by (simp add: NormalizedPath_def sample_request_def RequestPath_def before_byte_def NormalizePath_def DecodePath_def
        path_Clean_def clean_step_def hasSuffix_def hasPrefix_def suffix_def Let_def)
  have s: "hasSuffix ''/admin/'' ''/''" by (simp add: hasSuffix_def suffix_def)
  have "prefix (path_segs ''/admin/'') (path_segs (NormalizedPath sample_request))"
    by (simp add: n path_segs_def)
  then show ?thesis using validated_path_entry_exact [OF example_entry_valid, of sample_request] s by simp
qed

lemma mapped_example: "ParseAddr ''::ffff:192.0.2.7'' = Some (AddrV6 [0, 0, 0, 0, 0, 65535, 49152, 519] '''')"
proof -
  have r5: "replicate 5 (0::nat) = [0, 0, 0, 0, 0]" by (simp add: numeral_eq_Suc)
  show ?thesis
    by (simp add: ParseAddr_def parseIPv6_def before_byte_def v6_loop.simps hex_digit_def v6_finish_def
        parseIPv4Fields_def dec_digit_def r5)
qed

theorem mapped_list_entry_is_dead_witness:
  "\<exists>l. lc_Compile \<lparr>lc_IPs = [''::ffff:192.0.2.7''], lc_UAs = [], lc_Paths = [], lc_prefixes = [], lc_uasLower = []\<rparr> = Inr l \<and>
     \<not> MatchIP l (AddrV4 [192, 0, 2, 7])"
proof (rule mapped_list_entry_is_dead [where client = "''192.0.2.7''" and gs = "[0, 0, 0, 0, 0, 65535, 49152, 519]" and z = "''''"])
  show "ParseAddr ''192.0.2.7'' = Some (AddrV4 [192, 0, 2, 7])"
    by (simp add: ParseAddr_def parseIPv4Fields_def dec_digit_def)
qed (simp add: mapped_example Is4In6_def)

theorem lazy_input_is_complete_witness:
  "MatchEnforcing example_rx (BuildMatchInput sample_request full_set) False full_set =
   MatchEnforcing example_rx (full_match_input sample_request [''referer'']) False full_set"
proof (rule lazy_input_is_complete [where decode = example_decode and raw = "''full''"])
  show "set (rs_headerTargets full_set) \<subseteq> set [''referer'']" by (simp add: full_set_def)
qed (use example_files(1) in blast)

definition challenge_rule :: waf_rule where
  "challenge_rule = \<lparr>wr_ID = ''probe'', wr_Description = '''', wr_Action = WafChallenge, wr_targets = 0, wr_headers = [],
     wr_methods = [''GET''], wr_keywords = [], wr_regexes = []\<rparr>"

abbreviation no_list :: list_config where
  "no_list \<equiv> \<lparr>lc_IPs = [], lc_UAs = [], lc_Paths = [], lc_prefixes = [], lc_uasLower = []\<rparr>"

definition curl_list :: list_config where
  "curl_list = no_list\<lparr>lc_uasLower := [''curl'']\<rparr>"

definition example_domain_rules :: domain_rules where
  "example_domain_rules = \<lparr>dr_Allowlist = no_list, dr_Denylist = no_list, dr_Honeypot = \<lparr>hp_Enabled = False, hp_Paths = []\<rparr>,
     dr_RulesEnabled = True, dr_Rules = Some \<lparr>rs_Rules = [challenge_rule], rs_Warnings = [], rs_headerTargets = [], rs_needsMethod = True\<rparr>\<rparr>"

lemma example_lowers: "toLower ''curl'' = ''curl''" "toUpper ''GET'' = ''GET''"
  by (simp_all add: toLower_def ascii_lower_def toUpper_def ascii_upper_def)

theorem allowlist_exempts_only_challenges_witness:
  "\<exists>rs r. dr_Rules example_domain_rules = Some rs \<and> Match example_rx (BuildMatchInput sample_request rs) rs = Some r \<and>
     wr_Action r = WafChallenge"
proof -
  have "dc_Action (st_Evaluate example_rx sample_request (example_domain_rules\<lparr>dr_Allowlist := curl_list\<rparr>)) \<noteq>
      dc_Action (st_Evaluate example_rx sample_request (example_domain_rules\<lparr>dr_Allowlist := no_list\<rparr>))"
    by (simp add: st_Evaluate_action example_domain_rules_def CheckDenylist_def parsed_match_def MatchIP_def MatchUALower_def
        lc_MatchPath_def MatchPathList_def CheckHoneypot_def MatchAllowlist_def curl_list_def evalRules_def MatchEnforcing_def
        challenge_rule_def LowerUA_def sample_request_def example_lowers contains_str_def rule_matches_def BuildMatchInput_def
        NeedsMethod_def HeaderTargets_def split: option.split)
  from allowlist_exempts_only_challenges [OF this] show ?thesis by blast
qed

end
