(* ===== verification/Header_Exempt.thy ===== *)
theory Header_Exempt
  imports Request_Policy
begin

text \<open>
  Header exemptions (\<^verbatim>\<open>core/headerexempt/headerexempt.go\<close>): configured request-header shapes, each
  optionally backed by an offline EdDSA verifier, that may skip the proof of work. The theory models
  the validation of the configuration, the cache of matchers with its key reload, the matcher and the
  claims check of the verifier.

  Parameters: the JWT library (\<open>jwt_lib\<close>: the header of a token, and its claims when the signature, the
  time window, the issuer and the audience hold under one key), the file loader with the key's
  fingerprint, and the JSON encoding of a variant key. The ticker goroutine is the caller of a reload.
\<close>

section \<open>Configuration\<close>

record verifier_config =
  vc_Type :: string
  vc_PublicKeys :: "string list"
  vc_Issuer :: string
  vc_Audience :: string
  vc_MaxLifetime :: nanos

record predicate_config =
  pc_Header :: string
  pc_Prefix :: string
  pc_RequireValue :: bool
  pc_MaxLength :: int
  pc_Verifier :: verifier_config

definition MaxPredicates :: nat where "MaxPredicates = 8"
definition MaxHeaderBytes :: int where "MaxHeaderBytes = 4096"
definition MaxPublicKeys :: nat where "MaxPublicKeys = 2"
definition defaultMaxLen :: int where "defaultMaxLen = 1024"
definition VerifierNone :: string where "VerifierNone = ''none''"
definition VerifierJWTEdDSA :: string where "VerifierJWTEdDSA = ''jwt_eddsa''"

datatype exempt_error =
    TooManyPredicates | BadHeaderName string | TransportHeader string | PrefixControl | BadMaxLength int | PrefixTooLong
  | VerifierFields | BadKeyCount | BadKeyFiles | IssuerAudience | BadLifetime | UnknownVerifier string | KeyFile string

definition header_char :: "char \<Rightarrow> bool" where
  "header_char c \<longleftrightarrow>
     (let n = (of_char c :: nat)
      in 97 \<le> n \<and> n \<le> 122 \<or> 65 \<le> n \<and> n \<le> 90 \<or> 48 \<le> n \<and> n \<le> 57 \<or> n \<in> {33, 35, 36, 37, 38, 39, 42, 43, 45, 46, 94, 95, 96, 124, 126})"

definition validHeaderName :: "string \<Rightarrow> bool" where
  "validHeaderName s \<longleftrightarrow> s \<noteq> '''' \<and> list_all header_char s"

definition hasInvalidFieldValueByte :: "string \<Rightarrow> bool" where
  "hasInvalidFieldValueByte s = list_ex (\<lambda>c. (of_char c :: nat) = 127 \<or> (of_char c :: nat) < 32 \<and> (of_char c :: nat) \<noteq> 9) s"

definition normalize_verifier :: "verifier_config \<Rightarrow> exempt_error + verifier_config" where
  "normalize_verifier v =
     (if vc_Type v = '''' \<or> vc_Type v = VerifierNone then
        (if vc_PublicKeys v \<noteq> [] \<or> vc_Issuer v \<noteq> '''' \<or> vc_Audience v \<noteq> '''' \<or> vc_MaxLifetime v \<noteq> 0 then Inl VerifierFields
         else Inr (v\<lparr>vc_Type := VerifierNone\<rparr>))
      else if vc_Type v = VerifierJWTEdDSA then
        (if length (vc_PublicKeys v) < 1 \<or> length (vc_PublicKeys v) > MaxPublicKeys then Inl BadKeyCount
         else if '''' \<in> set (vc_PublicKeys v) \<or> length (vc_PublicKeys v) = 2 \<and> vc_PublicKeys v ! 0 = vc_PublicKeys v ! 1 then Inl BadKeyFiles
         else if trimSpace (vc_Issuer v) = '''' \<or> trimSpace (vc_Audience v) = '''' then Inl IssuerAudience
         else if vc_MaxLifetime v \<le> 0 \<or> vc_MaxLifetime v > 24 * 3600 * 10 ^ 9 then Inl BadLifetime
         else Inr v)
      else Inl (UnknownVerifier (vc_Type v)))"

definition normalize_predicate :: "predicate_config \<Rightarrow> exempt_error + predicate_config" where
  "normalize_predicate p =
     (if \<not> validHeaderName (pc_Header p) then Inl (BadHeaderName (pc_Header p))
      else let nameLower = toLower (pc_Header p)
      in if nameLower = ''host'' \<or> hasPrefix nameLower ''x-guardian-'' then Inl (TransportHeader (pc_Header p))
      else if hasInvalidFieldValueByte (pc_Prefix p) then Inl PrefixControl
      else let len = (if pc_MaxLength p = 0 then defaultMaxLen else pc_MaxLength p)
      in if len < 1 \<or> len > MaxHeaderBytes then Inl (BadMaxLength len)
      else if int (length (pc_Prefix p)) > len then Inl PrefixTooLong
      else gobind (normalize_verifier (pc_Verifier p)) (\<lambda>v. Inr (p\<lparr>pc_MaxLength := len, pc_Verifier := v\<rparr>)))"

fun normalize_predicates :: "predicate_config list \<Rightarrow> exempt_error + predicate_config list" where
  "normalize_predicates [] = Inr []"
| "normalize_predicates (p # ps) =
     gobind (normalize_predicate p) (\<lambda>q. gobind (normalize_predicates ps) (\<lambda>qs. Inr (q # qs)))"

definition NormalizeAndValidate :: "predicate_config list \<Rightarrow> exempt_error + predicate_config list" where
  "NormalizeAndValidate ps = (if length ps > MaxPredicates then Inl TooManyPredicates else normalize_predicates ps)"

definition hx_VariantKey :: "(predicate_config list \<Rightarrow> string) \<Rightarrow> predicate_config list \<Rightarrow> string" where
  "hx_VariantKey json ps = json ps"

section \<open>The verifier\<close>

record exempt_claims =
  xc_GuardianHost :: string
  xc_GuardianPath :: string
  xc_IssuedAt :: "nanos option"
  xc_ExpiresAt :: "nanos option"

text \<open>A key identifier in the token header may be absent, a string, or another JSON value.\<close>

datatype kid = KidAbsent | KidString string | KidOther

record 'k jwt_lib =
  jl_alg :: "string \<Rightarrow> string option"
  jl_kid :: "string \<Rightarrow> kid"
  jl_claims :: "'k \<Rightarrow> string \<Rightarrow> string \<Rightarrow> nanos \<Rightarrow> string \<Rightarrow> exempt_claims option"

definition parse_exempt :: "'k jwt_lib \<Rightarrow> verifier_config \<Rightarrow> nanos \<Rightarrow> string \<Rightarrow> string \<times> 'k \<Rightarrow> exempt_claims option" where
  "parse_exempt lib cfg now raw key =
     (if jl_alg lib raw \<noteq> Some ''EdDSA'' then None
      else if (case jl_kid lib raw of KidAbsent \<Rightarrow> False | KidString s \<Rightarrow> s \<noteq> fst key | KidOther \<Rightarrow> True) then None
      else jl_claims lib (snd key) (vc_Issuer cfg) (vc_Audience cfg) now raw)"

record exempt_request =
  xr_Host :: string
  xr_Path :: string
  xr_Header :: "(string \<Rightarrow> string list) option"

definition boundPathMatches :: "string \<Rightarrow> string \<Rightarrow> bool" where
  "boundPathMatches bound requestPath =
     (if bound = '''' \<or> hd bound \<noteq> CHR ''/'' \<or> CHR ''?'' \<in> set bound \<or> CHR ''#'' \<in> set bound then False
      else if NormalizePath bound \<noteq> bound then False
      else if hasSuffix bound ''/'' then hasPrefix requestPath bound \<or> requestPath = trimSuffix bound ''/''
      else requestPath = bound)"

definition claims_accepted :: "verifier_config \<Rightarrow> exempt_request \<Rightarrow> exempt_claims \<Rightarrow> bool" where
  "claims_accepted cfg req c =
     (case (xc_IssuedAt c, xc_ExpiresAt c) of
        (Some iat, Some exp) \<Rightarrow>
          if \<not> exp > iat \<or> exp - iat > vc_MaxLifetime cfg then False
          else NormalizeHost (xc_GuardianHost c) = NormalizeHost (xr_Host req) \<and>
               boundPathMatches (xc_GuardianPath c) (xr_Path req)
      | _ \<Rightarrow> False)"

fun verify_keys :: "'k jwt_lib \<Rightarrow> verifier_config \<Rightarrow> nanos \<Rightarrow> string \<Rightarrow> exempt_request \<Rightarrow> (string \<times> 'k) list \<Rightarrow> bool" where
  "verify_keys lib cfg now raw req [] = False"
| "verify_keys lib cfg now raw req (k # ks) =
     (case parse_exempt lib cfg now raw k of
        None \<Rightarrow> verify_keys lib cfg now raw req ks
      | Some c \<Rightarrow> if claims_accepted cfg req c then True else verify_keys lib cfg now raw req ks)"

section \<open>The cache\<close>

text \<open>A predicate carries a verifier exactly when its configuration asks for one: the loaded keys, once a load succeeded.\<close>

record 'k predicate =
  pd_config :: predicate_config
  pd_verifier :: "(string \<times> 'k) list option option"

type_synonym 'k exempt_cache = "(string, 'k predicate list) gomap"

text \<open>One load of a verifier's files: every file must hold a key, otherwise the loaded keys stay.\<close>

fun load_keys :: "(string \<Rightarrow> (string \<times> 'k) option) \<Rightarrow> string list \<Rightarrow> exempt_error + (string \<times> 'k) list" where
  "load_keys loadPublicKey [] = Inr []"
| "load_keys loadPublicKey (f # fs) =
     (case loadPublicKey f of
        None \<Rightarrow> Inl (KeyFile f)
      | Some k \<Rightarrow> gobind (load_keys loadPublicKey fs) (\<lambda>ks. Inr (k # ks)))"

definition verifier_Reload :: "(string \<Rightarrow> (string \<times> 'k) option) \<Rightarrow> 'k predicate \<Rightarrow> 'k predicate" where
  "verifier_Reload loadPublicKey p =
     (case pd_verifier p of
        None \<Rightarrow> p
      | Some _ \<Rightarrow>
          (case load_keys loadPublicKey (vc_PublicKeys (pc_Verifier (pd_config p))) of
             Inl _ \<Rightarrow> p
           | Inr ks \<Rightarrow> p\<lparr>pd_verifier := Some (Some ks)\<rparr>))"

definition new_predicate :: "(string \<Rightarrow> (string \<times> 'k) option) \<Rightarrow> predicate_config \<Rightarrow> exempt_error + 'k predicate" where
  "new_predicate loadPublicKey cfg =
     (if vc_Type (pc_Verifier cfg) = VerifierJWTEdDSA then
        gobind (load_keys loadPublicKey (vc_PublicKeys (pc_Verifier cfg)))
          (\<lambda>ks. Inr \<lparr>pd_config = cfg, pd_verifier = Some (Some ks)\<rparr>)
      else Inr \<lparr>pd_config = cfg, pd_verifier = None\<rparr>)"

fun new_matcher :: "(string \<Rightarrow> (string \<times> 'k) option) \<Rightarrow> predicate_config list \<Rightarrow> exempt_error + 'k predicate list" where
  "new_matcher loadPublicKey [] = Inr []"
| "new_matcher loadPublicKey (c # cs) =
     gobind (new_predicate loadPublicKey c) (\<lambda>p. gobind (new_matcher loadPublicKey cs) (\<lambda>ps. Inr (p # ps)))"

fun hx_NewCache ::
  "(string \<Rightarrow> (string \<times> 'k) option) \<Rightarrow> (string, predicate_config list) gomap \<Rightarrow> exempt_error + 'k exempt_cache" where
  "hx_NewCache loadPublicKey [] = Inr []"
| "hx_NewCache loadPublicKey ((key, cfgs) # rest) =
     gobind (new_matcher loadPublicKey cfgs) (\<lambda>m. gobind (hx_NewCache loadPublicKey rest) (\<lambda>c. Inr ((key, m) # c)))"

text \<open>One tick of the reload goroutine.\<close>

definition hx_reload :: "(string \<Rightarrow> (string \<times> 'k) option) \<Rightarrow> 'k exempt_cache \<Rightarrow> 'k exempt_cache" where
  "hx_reload loadPublicKey c = map (\<lambda>(key, m). (key, map (verifier_Reload loadPublicKey) m)) c"

section \<open>Matching\<close>

datatype outcome = OutcomeMatched | OutcomeAbsent | OutcomeMalformed | OutcomeAmbiguous | OutcomeOversized | OutcomeVerifierFailed

record exempt_result =
  xo_Matched :: bool
  xo_Outcome :: outcome
  xo_Verifier :: string

fun outcomeRank :: "outcome \<Rightarrow> nat" where
  "outcomeRank OutcomeOversized = 4"
| "outcomeRank OutcomeAmbiguous = 3"
| "outcomeRank OutcomeVerifierFailed = 2"
| "outcomeRank OutcomeMalformed = 1"
| "outcomeRank _ = 0"

definition stronger :: "exempt_result \<Rightarrow> exempt_result \<Rightarrow> exempt_result" where
  "stronger a b = (if outcomeRank (xo_Outcome b) > outcomeRank (xo_Outcome a) then b else a)"

definition verifier_Verify ::
  "'k jwt_lib \<Rightarrow> nanos \<Rightarrow> verifier_config \<Rightarrow> (string \<times> 'k) list option \<Rightarrow> string \<Rightarrow> exempt_request \<Rightarrow> bool" where
  "verifier_Verify lib now cfg keys raw req =
     (case keys of None \<Rightarrow> False | Some ks \<Rightarrow> verify_keys lib cfg now raw req ks)"

text \<open>What one predicate says of the values of its header, when there are any.\<close>

definition judge :: "'k jwt_lib \<Rightarrow> nanos \<Rightarrow> exempt_request \<Rightarrow> 'k predicate \<Rightarrow> string list \<Rightarrow> outcome" where
  "judge lib now req p vals =
     (let cfg = pd_config p; value = hd vals; token = drop (length (pc_Prefix cfg)) value
      in if length vals \<noteq> 1 then OutcomeAmbiguous
         else if int (length value) > pc_MaxLength cfg then OutcomeOversized
         else if value = '''' \<or> hasInvalidFieldValueByte value \<or> \<not> hasPrefix value (pc_Prefix cfg) then OutcomeMalformed
         else if pc_RequireValue cfg \<and> token = '''' then OutcomeMalformed
         else if (case pd_verifier p of None \<Rightarrow> False
                  | Some keys \<Rightarrow> \<not> verifier_Verify lib now (pc_Verifier cfg) keys token req) then OutcomeVerifierFailed
         else OutcomeMatched)"

fun match_predicates ::
  "'k jwt_lib \<Rightarrow> nanos \<Rightarrow> exempt_request \<Rightarrow> (string \<Rightarrow> string list) \<Rightarrow> 'k predicate list \<Rightarrow> exempt_result \<Rightarrow> exempt_result" where
  "match_predicates lib now req header [] best = best"
| "match_predicates lib now req header (p # ps) best =
     (let vals = header (pc_Header (pd_config p)); vt = vc_Type (pc_Verifier (pd_config p))
      in if vals = [] then match_predicates lib now req header ps best
         else case judge lib now req p vals of
                OutcomeMatched \<Rightarrow> \<lparr>xo_Matched = True, xo_Outcome = OutcomeMatched, xo_Verifier = vt\<rparr>
              | oc \<Rightarrow> match_predicates lib now req header ps (stronger best \<lparr>xo_Matched = False, xo_Outcome = oc, xo_Verifier = vt\<rparr>))"

definition absent_result :: exempt_result where
  "absent_result = \<lparr>xo_Matched = False, xo_Outcome = OutcomeAbsent, xo_Verifier = VerifierNone\<rparr>"

definition hx_Match :: "'k jwt_lib \<Rightarrow> nanos \<Rightarrow> 'k exempt_cache option \<Rightarrow> string \<Rightarrow> exempt_request \<Rightarrow> exempt_result" where
  "hx_Match lib now c key req =
     (case (c, xr_Header req) of
        (Some cache, Some header) \<Rightarrow>
          (case map_of cache key of
             None \<Rightarrow> absent_result
           | Some m \<Rightarrow> match_predicates lib now req header m absent_result)
      | _ \<Rightarrow> absent_result)"


section \<open>A match is backed by its predicate\<close>

lemma match_predicates_iff:
  "\<not> xo_Matched best \<Longrightarrow> xo_Matched (match_predicates lib now req header ps best) \<longleftrightarrow>
     (\<exists>p \<in> set ps. header (pc_Header (pd_config p)) \<noteq> [] \<and>
       judge lib now req p (header (pc_Header (pd_config p))) = OutcomeMatched)"
proof (induction ps arbitrary: best)
  case (Cons p ps)
  have "\<not> xo_Matched (stronger best \<lparr>xo_Matched = False, xo_Outcome = oc, xo_Verifier = vt\<rparr>)" for oc vt
    using Cons.prems by (simp add: stronger_def)
  note ih = Cons.IH [OF this] Cons.IH [OF Cons.prems]
  show ?case
    by (cases "judge lib now req p (header (pc_Header (pd_config p)))") (auto simp: Let_def ih)
qed simp

lemma verify_keys_sound:
  "verify_keys lib cfg now raw req ks \<Longrightarrow>
     \<exists>k \<in> set ks. \<exists>cl. parse_exempt lib cfg now raw k = Some cl \<and> claims_accepted cfg req cl"
  by (induction ks) (auto split: option.splits if_splits)

definition pred_ok :: "(string \<Rightarrow> string \<times> 'k \<Rightarrow> bool) \<Rightarrow> 'k predicate \<Rightarrow> bool" where
  "pred_ok held p \<longleftrightarrow>
     (vc_Type (pc_Verifier (pd_config p)) = VerifierJWTEdDSA \<longrightarrow> pd_verifier p \<noteq> None) \<and>
     (\<forall>ks k. pd_verifier p = Some (Some ks) \<longrightarrow> k \<in> set ks \<longrightarrow>
        (\<exists>f \<in> set (vc_PublicKeys (pc_Verifier (pd_config p))). held f k))"

lemma load_keys_held:
  "load_keys load fs = Inr ks \<Longrightarrow> (\<And>f k. load f = Some k \<Longrightarrow> held f k) \<Longrightarrow> k \<in> set ks \<Longrightarrow> \<exists>f \<in> set fs. held f k"
  by (induction fs arbitrary: ks) (auto simp: gobind_eq_Inr split: option.splits)

lemma new_predicate_ok:
  assumes "new_predicate load cfg = Inr p" "\<And>f k. load f = Some k \<Longrightarrow> held f k"
  shows "pred_ok held p \<and> pd_config p = cfg"
proof (cases "vc_Type (pc_Verifier cfg) = VerifierJWTEdDSA")
  case True
  then obtain ks where ks: "load_keys load (vc_PublicKeys (pc_Verifier cfg)) = Inr ks"
      "p = \<lparr>pd_config = cfg, pd_verifier = Some (Some ks)\<rparr>"
    using assms(1) by (auto simp: new_predicate_def gobind_eq_Inr)
  then show ?thesis using load_keys_held [OF ks(1), of held] assms(2) by (simp add: pred_ok_def)
qed (use assms(1) in \<open>auto simp: new_predicate_def pred_ok_def\<close>)

lemma new_matcher_ok:
  "new_matcher load cfgs = Inr ps \<Longrightarrow> (\<And>f k. load f = Some k \<Longrightarrow> held f k) \<Longrightarrow>
     list_all (pred_ok held) ps \<and> map pd_config ps = cfgs"
proof (induction cfgs arbitrary: ps)
  case (Cons c cs)
  then obtain q qs where q: "new_predicate load c = Inr q" "new_matcher load cs = Inr qs" "ps = q # qs"
    by (auto simp: gobind_eq_Inr)
  show ?case using new_predicate_ok [OF q(1), of held] Cons.IH [OF q(2)] Cons.prems(2) q(3) by auto
qed simp

definition exempt_ok :: "(string \<Rightarrow> string \<times> 'k \<Rightarrow> bool) \<Rightarrow> (string, predicate_config list) gomap \<Rightarrow> 'k exempt_cache \<Rightarrow> bool" where
  "exempt_ok held variants c \<longleftrightarrow>
     map (\<lambda>(key, m). (key, map pd_config m)) c = variants \<and> list_all (\<lambda>km. list_all (pred_ok held) (snd km)) c"

lemma hx_NewCache_ok:
  "hx_NewCache load variants = Inr c \<Longrightarrow> (\<And>f k. load f = Some k \<Longrightarrow> held f k) \<Longrightarrow> exempt_ok held variants c"
proof (induction variants arbitrary: c)
  case (Cons v vs)
  obtain key cfgs where v: "v = (key, cfgs)" by fastforce
  then obtain m c' where m: "new_matcher load cfgs = Inr m" "hx_NewCache load vs = Inr c'" "c = (key, m) # c'"
    using Cons.prems(1) by (auto simp: gobind_eq_Inr)
  show ?case using new_matcher_ok [OF m(1), of held] Cons.IH [OF m(2)] Cons.prems(2) m(3) v by (auto simp: exempt_ok_def)
qed (simp add: exempt_ok_def)

lemma verifier_Reload_ok:
  assumes "pred_ok held p" "\<And>f k. load f = Some k \<Longrightarrow> held f k"
  shows "pred_ok held (verifier_Reload load p)"
proof (cases "load_keys load (vc_PublicKeys (pc_Verifier (pd_config p)))")
  case (Inl e)
  then have "verifier_Reload load p = p" by (simp add: verifier_Reload_def split: option.split)
  then show ?thesis using assms(1) by simp
next
  case (Inr ks)
  then show ?thesis using load_keys_held [OF Inr, of held] assms
    by (cases "pd_verifier p") (auto simp: verifier_Reload_def pred_ok_def)
qed

lemma verifier_Reload_config [simp]: "pd_config (verifier_Reload load p) = pd_config p"
  by (simp add: verifier_Reload_def split: option.splits sum.splits)

lemma hx_reload_ok:
  "exempt_ok held variants c \<Longrightarrow> (\<And>f k. load f = Some k \<Longrightarrow> held f k) \<Longrightarrow> exempt_ok held variants (hx_reload load c)"
  by (auto simp: exempt_ok_def hx_reload_def list_all_iff o_def case_prod_beta intro: verifier_Reload_ok)

text \<open>The caches of a daemon whose key files only ever held what \<open>held\<close> says.\<close>

inductive exempt_reach ::
  "(string \<Rightarrow> string \<times> 'k \<Rightarrow> bool) \<Rightarrow> (string, predicate_config list) gomap \<Rightarrow> 'k exempt_cache \<Rightarrow> bool" for held variants where
  exempt_new: "hx_NewCache load variants = Inr c \<Longrightarrow> (\<And>f k. load f = Some k \<Longrightarrow> held f k) \<Longrightarrow> exempt_reach held variants c"
| exempt_tick: "exempt_reach held variants c \<Longrightarrow> (\<And>f k. load f = Some k \<Longrightarrow> held f k) \<Longrightarrow>
    exempt_reach held variants (hx_reload load c)"

lemma exempt_reach_ok: "exempt_reach held variants c \<Longrightarrow> exempt_ok held variants c"
  by (induction rule: exempt_reach.induct) (auto intro: hx_NewCache_ok hx_reload_ok)

lemma map_of_configs: "map_of (map (\<lambda>(key, m). (key, map pd_config m)) c) key = map_option (map pd_config) (map_of c key)"
  by (induction c) auto

text \<open>
  C30 (safety). A request is exempted by its headers only through a predicate configured for its scope:
  exactly one value of that header, within the length limit, non-empty, without control bytes and with
  the configured prefix; and when the predicate names a verifier, the value carries a token whose
  algorithm is EdDSA, that verifies under a key one of the configured files has held, lives no longer
  than configured and is bound to this host and path. No reload, failed or not, opens a gap.
\<close>

theorem header_exemption_backed:
  assumes "exempt_reach held variants c" "xo_Matched (hx_Match lib now (Some c) key req)"
  shows "\<exists>header cfgs cfg v. xr_Header req = Some header \<and> map_of variants key = Some cfgs \<and> cfg \<in> set cfgs \<and>
     header (pc_Header cfg) = [v] \<and> v \<noteq> '''' \<and> int (length v) \<le> pc_MaxLength cfg \<and> \<not> hasInvalidFieldValueByte v \<and>
     hasPrefix v (pc_Prefix cfg) \<and>
     (vc_Type (pc_Verifier cfg) = VerifierJWTEdDSA \<longrightarrow>
        (\<exists>f k cl. f \<in> set (vc_PublicKeys (pc_Verifier cfg)) \<and> held f k \<and>
           parse_exempt lib (pc_Verifier cfg) now (drop (length (pc_Prefix cfg)) v) k = Some cl \<and>
           claims_accepted (pc_Verifier cfg) req cl))"
proof -
  obtain header m where h: "xr_Header req = Some header" "map_of c key = Some m"
      "xo_Matched (match_predicates lib now req header m absent_result)"
    using assms(2) by (auto simp: hx_Match_def absent_result_def split: option.splits)
  then obtain p where p: "p \<in> set m" "header (pc_Header (pd_config p)) \<noteq> []"
      "judge lib now req p (header (pc_Header (pd_config p))) = OutcomeMatched"
    using match_predicates_iff [of absent_result lib now req header m] unfolding absent_result_def by auto
  define cfg where "cfg = pd_config p"
  have one: "length (header (pc_Header cfg)) = 1" using p(3) by (auto simp: judge_def cfg_def Let_def split: if_splits)
  then obtain v where v: "header (pc_Header cfg) = [v]" by (metis One_nat_def length_0_conv length_Suc_conv)
  have ok: "exempt_ok held variants c" using exempt_reach_ok [OF assms(1)] .
  then have "map_of variants key = Some (map pd_config m)" using h(2) map_of_configs [of c key] by (auto simp: exempt_ok_def)
  moreover have pk: "pred_ok held p" using ok map_of_SomeD [OF h(2)] p(1) by (auto simp: exempt_ok_def list_all_iff)
  moreover have shape: "v \<noteq> ''''" "int (length v) \<le> pc_MaxLength cfg" "\<not> hasInvalidFieldValueByte v" "hasPrefix v (pc_Prefix cfg)"
      "\<forall>keys. pd_verifier p = Some keys \<longrightarrow>
         verifier_Verify lib now (pc_Verifier cfg) keys (drop (length (pc_Prefix cfg)) v) req"
    using p(3) v unfolding cfg_def by (auto simp: judge_def Let_def split: if_splits option.splits)
  moreover have "\<exists>f k cl. f \<in> set (vc_PublicKeys (pc_Verifier cfg)) \<and> held f k \<and>
      parse_exempt lib (pc_Verifier cfg) now (drop (length (pc_Prefix cfg)) v) k = Some cl \<and> claims_accepted (pc_Verifier cfg) req cl"
    if jwt: "vc_Type (pc_Verifier cfg) = VerifierJWTEdDSA"
  proof -
    obtain keys where keys: "pd_verifier p = Some keys" using pk jwt by (auto simp: pred_ok_def cfg_def)
    then obtain ks where ks: "keys = Some ks" "verify_keys lib (pc_Verifier cfg) now (drop (length (pc_Prefix cfg)) v) req ks"
      using shape(5) by (auto simp: verifier_Verify_def split: option.splits)
    then show ?thesis using verify_keys_sound [OF ks(2)] pk keys unfolding pred_ok_def cfg_def by blast
  qed
  ultimately show ?thesis using h(1) p(1) v unfolding cfg_def by (metis (no_types, lifting) image_eqI list.set_map)
qed


section \<open>Witness\<close>

definition example_predicate :: predicate_config where
  "example_predicate = \<lparr>pc_Header = ''authorization'', pc_Prefix = ''Bearer '', pc_RequireValue = True, pc_MaxLength = 1024,
     pc_Verifier = \<lparr>vc_Type = VerifierJWTEdDSA, vc_PublicKeys = [''k.pem''], vc_Issuer = ''i'', vc_Audience = ''a'', vc_MaxLifetime = 60\<rparr>\<rparr>"

definition bearer_claims :: exempt_claims where
  "bearer_claims = \<lparr>xc_GuardianHost = ''a.test'', xc_GuardianPath = ''/'', xc_IssuedAt = Some 5, xc_ExpiresAt = Some 50\<rparr>"

definition example_lib :: "unit jwt_lib" where
  "example_lib = \<lparr>jl_alg = (\<lambda>t. Some ''EdDSA''), jl_kid = (\<lambda>t. KidAbsent),
     jl_claims = (\<lambda>k i a now t. if t = ''tok'' then Some bearer_claims else None)\<rparr>"

definition example_loader :: "string \<Rightarrow> (string \<times> unit) option" where
  "example_loader f = Some (''id'', ())"

definition example_exempt_request :: exempt_request where
  "example_exempt_request = \<lparr>xr_Host = ''a.test'', xr_Path = ''/x'', xr_Header = Some (\<lambda>n. if n = ''authorization'' then [''Bearer tok''] else [])\<rparr>"

definition example_exempt_cache :: "unit exempt_cache" where
  "example_exempt_cache = [(''v'', [\<lparr>pd_config = example_predicate, pd_verifier = Some (Some [(''id'', ())])\<rparr>])]"

lemma example_cache_built: "hx_NewCache example_loader [(''v'', [example_predicate])] = Inr example_exempt_cache"
  by (simp add: new_predicate_def example_predicate_def example_loader_def example_exempt_cache_def)

lemma example_exempt_match: "xo_Matched (hx_Match example_lib 10 (Some example_exempt_cache) ''v'' example_exempt_request)"
proof -
  have n: "NormalizePath ''/'' = ''/''"
    by (simp add: NormalizePath_def DecodePath_def path_Clean_def clean_step_def hasSuffix_def hasPrefix_def Let_def)
  have "claims_accepted (pc_Verifier example_predicate) example_exempt_request bearer_claims"
    by (simp add: claims_accepted_def bearer_claims_def example_predicate_def example_exempt_request_def boundPathMatches_def n
        hasSuffix_def hasPrefix_def)
  then have v: "verify_keys example_lib (pc_Verifier example_predicate) 10 ''tok'' example_exempt_request [(''id'', ())]"
    by (simp add: parse_exempt_def example_lib_def)
  show ?thesis
    using v
    by (simp add: hx_Match_def example_exempt_request_def example_exempt_cache_def judge_def verifier_Verify_def Let_def
        example_predicate_def hasInvalidFieldValueByte_def hasPrefix_def)
qed

theorem header_exemption_backed_witness:
  "\<exists>f k cl. f \<in> set [''k.pem''] \<and> Some k = example_loader f \<and>
     parse_exempt example_lib (pc_Verifier example_predicate) 10 ''tok'' k = Some cl \<and>
     claims_accepted (pc_Verifier example_predicate) example_exempt_request cl"
proof -
  have "exempt_reach (\<lambda>f k. Some k = example_loader f) [(''v'', [example_predicate])] example_exempt_cache"
    by (rule exempt_new [OF example_cache_built]) simp
  from header_exemption_backed [OF this example_exempt_match] show ?thesis
    by (auto simp: example_exempt_request_def example_predicate_def)
qed

end
