(* ===== verification/Domain_Config.thy ===== *)
theory Domain_Config
  imports Header_Exempt Scoreboard Complex_Main "HOL-Library.Product_Lexorder"
begin

text \<open>
  The effective configuration of a scope (\<^verbatim>\<open>core/config.go\<close>): the per-domain settings with their
  validation, the verified-crawler and origin policies, difficulties in bits, the per-path overlays and
  their lookup, and what the engine derives from all scopes together (rule variants, behaviour windows).

  Floating-point settings are rationals, so NaN and the infinities, which the code rejects, do not
  occur. Decoding and merging YAML is a parameter: \<open>resolvePaths\<close> takes the merged settings of a key.
  Path overlays hang off the resolved scope of a host (\<open>domain_scope\<close>), not off every configuration,
  since an overlay has none of its own.
\<close>

section \<open>Rates\<close>

record rate =
  rt_Count :: int
  rt_Per :: nanos

definition rate_units :: "(string list \<times> string \<times> nanos) list" where
  "rate_units =
     [([''s'', ''sec'', ''second''], ''s'', second), ([''m'', ''min'', ''minute''], ''min'', minute),
      ([''h'', ''hour''], ''h'', hour), ([''d'', ''day''], ''d'', 24 * hour), ([''w'', ''week''], ''w'', 7 * 24 * hour),
      ([''mon'', ''month''], ''mon'', 30 * 24 * hour), ([''y'', ''year''], ''y'', 365 * 24 * hour)]"

definition parse_rate :: "string \<Rightarrow> rate option" where
  "parse_rate s =
     (if CHR ''/'' \<notin> set s then None
      else let count = before_byte (CHR ''/'') s; unit = drop (length count + 1) s
           in case parse_int64 (trimSpace count) of
                None \<Rightarrow> None
              | Some n \<Rightarrow>
                  (if n \<le> 0 then None
                   else case find (\<lambda>(names, _, _). trimSpace unit \<in> set names) rate_units of
                          None \<Rightarrow> None
                        | Some (_, _, per) \<Rightarrow> Some \<lparr>rt_Count = n, rt_Per = per\<rparr>))"

definition format_rate :: "rate \<Rightarrow> string" where
  "format_rate r =
     format_int (rt_Count r) @ ''/'' @
     (case find (\<lambda>(_, _, per). per = rt_Per r) rate_units of None \<Rightarrow> '''' | Some (_, unit, _) \<Rightarrow> unit)"

definition parse_threshold :: "string \<Rightarrow> rate option" where
  "parse_threshold s =
     (if toLower (trimSpace s) = ''off'' then Some \<lparr>rt_Count = 0, rt_Per = 0\<rparr> else parse_rate s)"

definition format_threshold :: "rate \<Rightarrow> string" where
  "format_threshold r = (if rt_Count r \<le> 0 then ''off'' else format_rate r)"

section \<open>Settings of a scope\<close>

record bot_config =
  bt_Name :: string
  bt_UAs :: "string list"
  bt_Domains :: "string list"
  bt_uasLower :: "string list"
  bt_domainsLower :: "string list"

record verified_bots_config =
  vb_Bots :: "bot_config list"
  vb_DNSTimeout :: nanos
  vb_CacheTTL :: nanos
  vb_NegativeTTL :: nanos
  vb_SpoofAction :: string

record geo_selector =
  gs_Countries :: "string list"
  gs_ASNs :: "32 word list"
  gs_countries :: "string list"
  gs_asns :: "32 word list"

record geo_config =
  ge_Enabled :: bool
  ge_Deny :: geo_selector
  ge_Challenge :: geo_selector
  ge_Allow :: geo_selector
  ge_DefaultAction :: string

record ip_behaviour_config =
  ib_Enabled :: bool
  ib_BlockTTL :: nanos
  ib_MaxBlockTTL :: nanos
  ib_Thresholds :: "(string, rate) gomap"

record rules_config =
  rl_Enabled :: bool
  rl_Files :: "string list"
  rl_DisabledIDs :: "string list"
  rl_ruleKey :: string

record anomaly_config =
  an_Enabled :: bool
  an_ObserveOnly :: bool
  an_Model :: string
  an_ChallengeAt :: rat
  an_DenyAt :: rat

record argon2id_config =
  a2_MemoryKiB :: "32 word"
  a2_BaseIterations :: "32 word"
  a2_MaxIterations :: "32 word"
  a2_AttackIterationsCap :: "32 word"

record pow_config =
  pw_Enabled :: bool
  pw_Algorithm :: string
  pw_Mode :: string
  pw_BaseDifficulty :: rat
  pw_MaxDifficulty :: rat
  pw_TokenTTL :: nanos
  pw_ChallengeTTL :: nanos
  pw_IssuanceRateLimit :: rate
  pw_NoScriptRedemptionRateLimit :: rate
  pw_NoScriptFallback :: bool
  pw_Argon2ID :: argon2id_config
  pw_RefuseUnchallengeable :: "bool option"
  pw_HeaderExemptions :: "predicate_config list"
  pw_headerExemptionKey :: string

record domain_config =
  dm_IPBehaviour :: ip_behaviour_config
  dm_Rules :: rules_config
  dm_Anomaly :: anomaly_config
  dm_Honeypot :: honeypot_config
  dm_PoW :: pow_config
  dm_Geo :: geo_config
  dm_Reputation :: bool
  dm_Allowlist :: list_config
  dm_Denylist :: list_config
  dm_VerifiedBots :: verified_bots_config
  dm_label :: string

datatype config_error =
    CfgExempt exempt_error | CfgAlgorithm string | CfgArgonMemory | CfgArgonBase | CfgArgonMax | CfgArgonCap
  | CfgSuspicion | CfgMode string | CfgBaseDifficulty | CfgMaxDifficulty | CfgQuarter rat | CfgTTL string
  | CfgRuleFile | CfgRuleFileDup string | CfgRuleID | CfgRuleIDDup string | CfgExclusions | CfgAnomaly
  | CfgBlockTTL | CfgMaxBlockTTL | CfgStateTTL | CfgHoneypot list_error | CfgAllowlist list_error | CfgDenylist list_error
  | CfgGeoDefault string | CfgCountry string | CfgASN | CfgGeoOverlap | CfgGeoInert | CfgGeoDB
  | CfgSpoofAction string | CfgBotTTL | CfgBotName | CfgBotUAs string | CfgBotDomains string | CfgBotEmpty string
  | CfgBotOverlap string string | CfgPathKey string | CfgFeature string | CfgAttackCap | CfgDecode

definition MaxStateTTL :: nanos where "MaxStateTTL = 365 * 24 * hour"
definition maxTokenTTL :: nanos where "maxTokenTTL = 30 * 24 * hour"
definition maxChallengeTTL :: nanos where "maxChallengeTTL = 24 * hour"

section \<open>Crawlers\<close>

definition botPresets :: "(string, string list \<times> string list) gomap" where
  "botPresets =
     [(''googlebot'', [''Googlebot''], [''googlebot.com'']),
      (''google-special'', [''AdsBot-Google'', ''Mediapartners-Google'', ''APIs-Google''], [''google.com'']),
      (''bingbot'', [''bingbot''], [''search.msn.com'']),
      (''applebot'', [''Applebot''], [''applebot.apple.com'']),
      (''yandexbot'', [''Yandex''], [''yandex.ru'', ''yandex.net'', ''yandex.com'']),
      (''baiduspider'', [''Baiduspider''], [''baidu.com'', ''baidu.jp''])]"

fun lower_all :: "(string \<Rightarrow> string) \<Rightarrow> config_error \<Rightarrow> string list \<Rightarrow> config_error + string list" where
  "lower_all clean err [] = Inr []"
| "lower_all clean err (u # us) =
     (if clean u = '''' then Inl err else gobind (lower_all clean err us) (\<lambda>r. Inr (toLower (clean u) # r)))"

definition bot_domain :: "string \<Rightarrow> string" where
  "bot_domain d = trimSuffix (trimSpace d) ''.''"

definition compile_bot :: "bot_config \<Rightarrow> config_error + bot_config" where
  "compile_bot b =
     (if bt_Name b = '''' then Inl CfgBotName
      else let preset = map_of botPresets (toLower (bt_Name b))
           in gobind (if bt_UAs b \<noteq> [] then Inr (bt_UAs b)
                      else case preset of None \<Rightarrow> Inl (CfgBotUAs (bt_Name b)) | Some p \<Rightarrow> Inr (fst p)) (\<lambda>uas.
              gobind (if bt_Domains b \<noteq> [] then Inr (bt_Domains b)
                      else case preset of None \<Rightarrow> Inl (CfgBotDomains (bt_Name b)) | Some p \<Rightarrow> Inr (snd p)) (\<lambda>domains.
              gobind (lower_all trimSpace (CfgBotEmpty (bt_Name b)) uas) (\<lambda>ul.
              gobind (lower_all bot_domain (CfgBotEmpty (bt_Name b)) domains) (\<lambda>dl.
                Inr (b\<lparr>bt_UAs := uas, bt_Domains := domains, bt_uasLower := ul, bt_domainsLower := dl\<rparr>))))))"

fun compile_bots :: "bot_config list \<Rightarrow> config_error + bot_config list" where
  "compile_bots [] = Inr []"
| "compile_bots (b # bs) = gobind (compile_bot b) (\<lambda>c. gobind (compile_bots bs) (\<lambda>cs. Inr (c # cs)))"

definition vb_compile :: "verified_bots_config \<Rightarrow> config_error + verified_bots_config" where
  "vb_compile vb =
     (if vb_SpoofAction vb \<notin> {'''', ''deny'', ''continue''} then Inl (CfgSpoofAction (vb_SpoofAction vb))
      else if vb_DNSTimeout vb < 0 \<or> vb_CacheTTL vb < 0 \<or> vb_NegativeTTL vb < 0 then Inl CfgBotTTL
      else if vb_CacheTTL vb > MaxStateTTL \<or> vb_NegativeTTL vb > MaxStateTTL then Inl CfgBotTTL
      else gobind (compile_bots (vb_Bots vb)) (\<lambda>bs.
        Inr (vb\<lparr>vb_Bots := bs, vb_SpoofAction := (if vb_SpoofAction vb = '''' then ''deny'' else vb_SpoofAction vb)\<rparr>)))"

definition vb_match :: "verified_bots_config \<Rightarrow> string \<Rightarrow> bot_config option" where
  "vb_match vb lower =
     (if lower = '''' then None
      else find (\<lambda>b. list_ex (contains_str lower) (bt_uasLower b)) (vb_Bots vb))"

section \<open>Origins\<close>

definition country_code :: "string \<Rightarrow> string option" where
  "country_code c =
     (let cc = toUpper (trimSpace c) in if length cc = 2 \<and> list_all is_upper cc then Some cc else None)"

fun compile_countries :: "string list \<Rightarrow> config_error + string list" where
  "compile_countries [] = Inr []"
| "compile_countries (c # cs) =
     (case country_code c of
        None \<Rightarrow> Inl (CfgCountry c) | Some cc \<Rightarrow> gobind (compile_countries cs) (\<lambda>r. Inr (cc # r)))"

definition gs_compile :: "geo_selector \<Rightarrow> config_error + geo_selector" where
  "gs_compile s =
     gobind (compile_countries (gs_Countries s)) (\<lambda>cs.
       if 0 \<in> set (gs_ASNs s) then Inl CfgASN else Inr (s\<lparr>gs_countries := cs, gs_asns := gs_ASNs s\<rparr>))"

definition gs_match :: "geo_selector \<Rightarrow> string \<Rightarrow> 32 word \<Rightarrow> string option" where
  "gs_match s country asn =
     (if country \<noteq> '''' \<and> country \<in> set (gs_countries s) then Some (''country:'' @ country)
      else if asn \<noteq> 0 \<and> asn \<in> set (gs_asns s) then Some (''asn:'' @ fmt_uint 10 (unat asn))
      else None)"

definition gs_empty :: "geo_selector \<Rightarrow> bool" where
  "gs_empty s \<longleftrightarrow> gs_Countries s = [] \<and> gs_ASNs s = []"

definition ge_Action :: "geo_config \<Rightarrow> string \<Rightarrow> 32 word \<Rightarrow> string \<times> string" where
  "ge_Action g country asn =
     (if \<not> ge_Enabled g then ('''', '''')
      else case gs_match (ge_Deny g) country asn of
             Some detail \<Rightarrow> (''deny'', ''geo:'' @ detail)
           | None \<Rightarrow>
               (case gs_match (ge_Challenge g) country asn of
                  Some detail \<Rightarrow> (''challenge'', ''geo:'' @ detail)
                | None \<Rightarrow>
                    (if gs_match (ge_Allow g) country asn \<noteq> None then ('''', '''')
                     else if ge_DefaultAction g \<noteq> ''allow'' then (ge_DefaultAction g, ''geo:default'')
                     else ('''', ''''))))"

definition disjoint_lists :: "'a list \<Rightarrow> 'a list \<Rightarrow> bool" where
  "disjoint_lists xs ys \<longleftrightarrow> list_all (\<lambda>x. x \<notin> set ys) xs"

definition selectors_disjoint :: "geo_selector \<Rightarrow> geo_selector \<Rightarrow> bool" where
  "selectors_disjoint a b \<longleftrightarrow> disjoint_lists (gs_countries a) (gs_countries b) \<and> disjoint_lists (gs_asns a) (gs_asns b)"

definition validate_geo :: "geo_config \<Rightarrow> config_error + geo_config" where
  "validate_geo g =
     (if ge_DefaultAction g \<notin> {'''', ''allow'', ''challenge'', ''deny''} then Inl (CfgGeoDefault (ge_DefaultAction g))
      else gobind (gs_compile (ge_Deny g)) (\<lambda>d.
           gobind (gs_compile (ge_Challenge g)) (\<lambda>c.
           gobind (gs_compile (ge_Allow g)) (\<lambda>a.
             let def = (if ge_DefaultAction g = '''' then ''allow'' else ge_DefaultAction g)
             in if \<not> (selectors_disjoint d c \<and> selectors_disjoint d a \<and> selectors_disjoint c a) then Inl CfgGeoOverlap
                else if ge_Enabled g \<and> gs_empty d \<and> gs_empty c \<and> def = ''allow'' then Inl CfgGeoInert
                else Inr (g\<lparr>ge_Deny := d, ge_Challenge := c, ge_Allow := a, ge_DefaultAction := def\<rparr>)))))"

section \<open>Difficulties\<close>

text \<open>\<^verbatim>\<open>math.Round\<close>: to the nearest integer, halves away from zero.\<close>

definition go_round :: "rat \<Rightarrow> int" where
  "go_round x = (if x \<ge> 0 then \<lfloor>x + 1 / 2\<rfloor> else - \<lfloor>- x + 1 / 2\<rfloor>)"

definition difficultyBits :: "rat \<Rightarrow> int" where
  "difficultyBits d = go_round (d * 4)"

definition BaseBits :: "pow_config \<Rightarrow> int" where "BaseBits p = difficultyBits (pw_BaseDifficulty p)"
definition MaxBits :: "pow_config \<Rightarrow> int" where "MaxBits p = difficultyBits (pw_MaxDifficulty p)"

definition UsesArgon2ID :: "pow_config \<Rightarrow> bool" where
  "UsesArgon2ID p \<longleftrightarrow> pw_Algorithm p = ''argon2id''"

definition TokenMinBits :: "pow_config \<Rightarrow> int" where
  "TokenMinBits p = (if UsesArgon2ID p then 0 else BaseBits p)"

definition RefusesUnchallengeable :: "pow_config \<Rightarrow> bool" where
  "RefusesUnchallengeable p = (case pw_RefuseUnchallengeable p of None \<Rightarrow> True | Some b \<Rightarrow> b)"

section \<open>Validation\<close>

definition minArgon2MemoryKiB :: "32 word" where "minArgon2MemoryKiB = 8 * 1024"
definition maxArgon2MemoryKiB :: "32 word" where "maxArgon2MemoryKiB = 32 * 1024"

definition validate_argon :: "argon2id_config \<Rightarrow> config_error + unit" where
  "validate_argon a =
     (if a2_MemoryKiB a < minArgon2MemoryKiB \<or> a2_MemoryKiB a > maxArgon2MemoryKiB then Inl CfgArgonMemory
      else if a2_BaseIterations a < 1 \<or> a2_BaseIterations a > 3 then Inl CfgArgonBase
      else if a2_MaxIterations a < a2_BaseIterations a \<or> a2_MaxIterations a > 3 then Inl CfgArgonMax
      else if a2_AttackIterationsCap a < a2_MaxIterations a \<or> a2_AttackIterationsCap a > 3 then Inl CfgArgonCap
      else Inr ())"

definition validate_mode :: "bool \<Rightarrow> bool \<Rightarrow> string \<Rightarrow> config_error + string" where
  "validate_mode powEnabled anomalyEnabled mode =
     (if mode = '''' then Inr ''always''
      else if mode = ''always'' then Inr mode
      else if mode = ''suspicion'' then (if powEnabled \<and> \<not> anomalyEnabled then Inl CfgSuspicion else Inr mode)
      else Inl (CfgMode mode))"

definition quarter_step :: "rat \<Rightarrow> bool" where
  "quarter_step d \<longleftrightarrow> \<not> \<bar>d * 4 - of_int (go_round (d * 4))\<bar> > 1 / 10 ^ 9"

definition validate_difficulty :: "pow_config \<Rightarrow> config_error + unit" where
  "validate_difficulty p =
     (if pw_BaseDifficulty p < 1 \<or> pw_BaseDifficulty p > 8 then Inl CfgBaseDifficulty
      else if pw_MaxDifficulty p < pw_BaseDifficulty p \<or> pw_MaxDifficulty p > 8 then Inl CfgMaxDifficulty
      else if \<not> quarter_step (pw_BaseDifficulty p) then Inl (CfgQuarter (pw_BaseDifficulty p))
      else if \<not> quarter_step (pw_MaxDifficulty p) then Inl (CfgQuarter (pw_MaxDifficulty p))
      else Inr ())"

definition validate_ttl :: "bool \<Rightarrow> string \<Rightarrow> nanos \<Rightarrow> nanos \<Rightarrow> config_error + unit" where
  "validate_ttl powEnabled name ttlCap d =
     (if d < 0 then Inl (CfgTTL name)
      else if powEnabled \<and> d \<le> 0 then Inl (CfgTTL name)
      else if name = ''token_ttl'' \<and> powEnabled \<and> d < second then Inl (CfgTTL name)
      else if d > ttlCap then Inl (CfgTTL name)
      else Inr ())"

definition validate_pow ::
  "(predicate_config list \<Rightarrow> string) \<Rightarrow> anomaly_config \<Rightarrow> pow_config \<Rightarrow> config_error + pow_config" where
  "validate_pow json a p =
     (case NormalizeAndValidate (pw_HeaderExemptions p) of
        Inl e \<Rightarrow> Inl (CfgExempt e)
      | Inr preds \<Rightarrow>
          (if pw_Algorithm p \<notin> {''sha256'', ''argon2id''} then Inl (CfgAlgorithm (pw_Algorithm p))
           else gobind (validate_argon (pw_Argon2ID p)) (\<lambda>_.
                gobind (validate_mode (pw_Enabled p) (an_Enabled a) (pw_Mode p)) (\<lambda>mode.
                gobind (validate_difficulty p) (\<lambda>_.
                gobind (validate_ttl (pw_Enabled p) ''token_ttl'' maxTokenTTL (pw_TokenTTL p)) (\<lambda>_.
                gobind (validate_ttl (pw_Enabled p) ''challenge_ttl'' maxChallengeTTL (pw_ChallengeTTL p)) (\<lambda>_.
                  Inr (p\<lparr>pw_HeaderExemptions := preds, pw_headerExemptionKey := hx_VariantKey json preds, pw_Mode := mode\<rparr>)))))))) "

fun check_entries :: "config_error \<Rightarrow> (string \<Rightarrow> config_error) \<Rightarrow> string list \<Rightarrow> string list \<Rightarrow> config_error + unit" where
  "check_entries blank dup seen [] = Inr ()"
| "check_entries blank dup seen (x # xs) =
     (if trimSpace x = '''' then Inl blank
      else if x \<in> set seen then Inl (dup x)
      else check_entries blank dup (x # seen) xs)"

definition validate_rules :: "(bytes \<Rightarrow> string) \<Rightarrow> rules_config \<Rightarrow> config_error + rules_config" where
  "validate_rules sha r =
     gobind (check_entries CfgRuleFile CfgRuleFileDup [] (rl_Files r)) (\<lambda>_.
     gobind (check_entries CfgRuleID CfgRuleIDDup [] (rl_DisabledIDs r)) (\<lambda>_.
       if rl_DisabledIDs r \<noteq> [] \<and> rl_Files r = [] then Inl CfgExclusions
       else Inr (r\<lparr>rl_ruleKey := VariantKey sha (rl_Files r) (rl_DisabledIDs r)\<rparr>)))"

definition validate_behaviour :: "ip_behaviour_config \<Rightarrow> config_error + unit" where
  "validate_behaviour b =
     (if ib_BlockTTL b < 0 \<or> ib_MaxBlockTTL b < 0 then Inl CfgBlockTTL
      else if ib_MaxBlockTTL b > 0 \<and> ib_BlockTTL b > 0 \<and> ib_MaxBlockTTL b < ib_BlockTTL b then Inl CfgMaxBlockTTL
      else if ib_BlockTTL b > MaxStateTTL \<or> ib_MaxBlockTTL b > MaxStateTTL then Inl CfgStateTTL
      else Inr ())"

text \<open>The first allowlist entry that overlaps a needle of a bot, bots and entries in order.\<close>

definition overlaps :: "bot_config \<Rightarrow> string \<Rightarrow> bool" where
  "overlaps b an =
     (let anLower = toLower an
      in list_ex (\<lambda>bn. contains_str bn anLower \<or> contains_str anLower bn) (bt_uasLower b))"

fun check_overlap :: "bot_config list \<Rightarrow> string list \<Rightarrow> config_error + unit" where
  "check_overlap [] uas = Inr ()"
| "check_overlap (b # bs) uas =
     (case find (overlaps b) uas of
        Some an \<Rightarrow> Inl (CfgBotOverlap an (bt_Name b))
      | None \<Rightarrow> check_overlap bs uas)"

definition fail_if :: "bool \<Rightarrow> 'e \<Rightarrow> 'e + unit" where
  "fail_if b e = (if b then Inl e else Inr ())"

definition validate_domain ::
  "(predicate_config list \<Rightarrow> string) \<Rightarrow> (bytes \<Rightarrow> string) \<Rightarrow> domain_config \<Rightarrow> config_error + domain_config" where
  "validate_domain json sha dc =
     (let a = dm_Anomaly dc in
      gobind (validate_pow json a (dm_PoW dc)) (\<lambda>p.
      gobind (validate_rules sha (dm_Rules dc)) (\<lambda>r.
      gobind (fail_if (an_Enabled a \<and> (an_ChallengeAt a \<le> 0 \<or> an_DenyAt a \<le> an_ChallengeAt a \<or> an_DenyAt a > 1)) CfgAnomaly) (\<lambda>_.
      gobind (validate_behaviour (dm_IPBehaviour dc)) (\<lambda>_.
      gobind (case hp_Validate (dm_Honeypot dc) of Some e \<Rightarrow> Inl (CfgHoneypot e) | None \<Rightarrow> Inr ()) (\<lambda>_.
      gobind (validate_geo (dm_Geo dc)) (\<lambda>g.
      gobind (map_sum CfgAllowlist id (lc_Compile (dm_Allowlist dc))) (\<lambda>al.
      gobind (map_sum CfgDenylist id (lc_Compile (dm_Denylist dc))) (\<lambda>dl.
      gobind (vb_compile (dm_VerifiedBots dc)) (\<lambda>vb.
      gobind (check_overlap (vb_Bots vb) (lc_UAs al)) (\<lambda>_.
        Inr (dc\<lparr>dm_PoW := p, dm_Rules := r, dm_Geo := g, dm_Allowlist := al, dm_Denylist := dl, dm_VerifiedBots := vb\<rparr>))))))))))))"

section \<open>Scopes\<close>

record path_override =
  po_key :: string
  po_bare :: string
  po_prefix :: bool
  po_cfg :: domain_config

record domain_scope =
  ds_cfg :: domain_config
  ds_overrides :: "path_override list"

record geoip_config =
  gi_LocationDB :: string
  gi_ASNDB :: string

record config =
  cf_Defaults :: domain_scope
  cf_resolved :: "(string, domain_scope) gomap"
  cf_SigningKeyFile :: string
  cf_GeoIP :: geoip_config
  cf_Feeds :: "string list"
  cf_AttackEnabled :: bool
  cf_AttackCapBits :: int
  cf_ScoreboardFactor :: rat

definition validatePathKey :: "string \<Rightarrow> config_error + unit" where
  "validatePathKey key =
     (if key = '''' \<or> hd key \<noteq> CHR ''/'' then Inl (CfgPathKey key)
      else if CHR ''?'' \<in> set key \<or> CHR ''#'' \<in> set key then Inl (CfgPathKey key)
      else if DecodePath key \<noteq> key then Inl (CfgPathKey key)
      else if NormalizePath key \<noteq> key then Inl (CfgPathKey key)
      else Inr ())"

definition checkGeoRefs :: "geoip_config \<Rightarrow> domain_config \<Rightarrow> config_error + unit" where
  "checkGeoRefs gi dc =
     (let g = dm_Geo dc; sels = [ge_Deny g, ge_Challenge g, ge_Allow g]
      in if \<not> ge_Enabled g then Inr ()
         else if gi_LocationDB gi = '''' \<and> gi_ASNDB gi = '''' then Inl CfgGeoDB
         else if list_ex (\<lambda>s. gs_Countries s \<noteq> []) sels \<and> gi_LocationDB gi = '''' then Inl CfgGeoDB
         else if list_ex (\<lambda>s. gs_ASNs s \<noteq> []) sels \<and> gi_ASNDB gi = '''' then Inl CfgGeoDB
         else Inr ())"

definition mk_override :: "string \<Rightarrow> domain_config \<Rightarrow> path_override" where
  "mk_override key cfg = \<lparr>po_key = key, po_bare = trimSuffix key ''/'', po_prefix = hasSuffix key ''/'', po_cfg = cfg\<rparr>"

definition specificity :: "path_override \<Rightarrow> int \<times> bool \<times> string" where
  "specificity o1 = (- int (length (po_bare o1)), po_prefix o1, po_key o1)"

fun build_overrides ::
  "(predicate_config list \<Rightarrow> string) \<Rightarrow> (bytes \<Rightarrow> string) \<Rightarrow> geoip_config \<Rightarrow> (string \<Rightarrow> config_error + domain_config) \<Rightarrow>
     string list \<Rightarrow> config_error + path_override list" where
  "build_overrides json sha gi merged [] = Inr []"
| "build_overrides json sha gi merged (key # keys) =
     gobind (merged key) (\<lambda>pc.
     gobind (validate_domain json sha pc) (\<lambda>vc.
     gobind (checkGeoRefs gi vc) (\<lambda>_.
     gobind (build_overrides json sha gi merged keys) (\<lambda>os. Inr (mk_override key vc # os)))))"

definition resolvePaths ::
  "(predicate_config list \<Rightarrow> string) \<Rightarrow> (bytes \<Rightarrow> string) \<Rightarrow> geoip_config \<Rightarrow> (string \<Rightarrow> config_error + domain_config) \<Rightarrow>
     string list \<Rightarrow> domain_config \<Rightarrow> config_error + domain_scope" where
  "resolvePaths json sha gi merged keys dc =
     gobind (build_overrides json sha gi merged (sort (remdups keys))) (\<lambda>os.
       Inr \<lparr>ds_cfg = dc, ds_overrides = sort_key specificity os\<rparr>)"

definition override_matches :: "string \<Rightarrow> path_override \<Rightarrow> bool" where
  "override_matches path o1 =
     (if po_prefix o1 then hasPrefix path (po_key o1) \<or> path = po_bare o1 else path = po_key o1)"

definition ForPath :: "domain_scope \<Rightarrow> string \<Rightarrow> domain_config" where
  "ForPath ds path = (case find (override_matches path) (ds_overrides ds) of None \<Rightarrow> ds_cfg ds | Some o1 \<Rightarrow> po_cfg o1)"

definition DomainFor :: "config \<Rightarrow> string \<Rightarrow> domain_scope" where
  "DomainFor c host = (case map_of (cf_resolved c) (NormalizeHost host) of None \<Rightarrow> cf_Defaults c | Some ds \<Rightarrow> ds)"

definition ConfigFor :: "config \<Rightarrow> string \<Rightarrow> string \<Rightarrow> domain_config" where
  "ConfigFor c host uri = ForPath (DomainFor c host) (NormalizePath (RequestPath uri))"

definition scopeForRequest :: "config \<Rightarrow> request_context \<Rightarrow> domain_config" where
  "scopeForRequest c req = ForPath (DomainFor c (ctx_Host req)) (NormalizedPath req)"

definition PoWAnywhere :: "domain_scope \<Rightarrow> bool" where
  "PoWAnywhere ds \<longleftrightarrow> pw_Enabled (dm_PoW (ds_cfg ds)) \<or> list_ex (\<lambda>o1. pw_Enabled (dm_PoW (po_cfg o1))) (ds_overrides ds)"

definition DomainLabel :: "config \<Rightarrow> string \<Rightarrow> string" where
  "DomainLabel c host = dm_label (ds_cfg (DomainFor c host))"

text \<open>Every effective configuration in the order of the code: label, host, settings.\<close>

definition scope_entries :: "string \<Rightarrow> string \<Rightarrow> domain_scope \<Rightarrow> (string \<times> string \<times> domain_config) list" where
  "scope_entries label host ds =
     (label, host, ds_cfg ds) # map (\<lambda>o1. (label @ '' path '' @ po_key o1, host, po_cfg o1)) (ds_overrides ds)"

definition eachScope :: "config \<Rightarrow> (string \<times> string \<times> domain_config) list" where
  "eachScope c =
     scope_entries ''defaults'' '''' (cf_Defaults c) @
     concat (map (\<lambda>host. scope_entries (''domain '' @ host) host (the (map_of (cf_resolved c) host)))
       (sort (map fst (cf_resolved c))))"

definition dependency_error :: "config \<Rightarrow> domain_config \<Rightarrow> config_error option" where
  "dependency_error c dc =
     (if pw_Enabled (dm_PoW dc) \<and> trimSpace (cf_SigningKeyFile c) = '''' then Some (CfgFeature ''pow'')
      else if an_Enabled (dm_Anomaly dc) \<and> trimSpace (an_Model (dm_Anomaly dc)) = '''' then Some (CfgFeature ''anomaly'')
      else if rl_Enabled (dm_Rules dc) \<and> rl_Files (dm_Rules dc) = [] then Some (CfgFeature ''rules'')
      else if dm_Reputation dc \<and> cf_Feeds c = [] then Some (CfgFeature ''reputation'')
      else None)"

definition first_error :: "(domain_config \<Rightarrow> config_error option) \<Rightarrow> config \<Rightarrow> config_error + unit" where
  "first_error f c =
     (case find (\<lambda>e. e \<noteq> None) (map (\<lambda>(_, _, dc). f dc) (eachScope c)) of
        Some (Some e) \<Rightarrow> Inl e | _ \<Rightarrow> Inr ())"

definition validateFeatureDependencies :: "config \<Rightarrow> config_error + unit" where
  "validateFeatureDependencies c = first_error (dependency_error c) c"

definition validateAttackDifficultyCap :: "config \<Rightarrow> config_error + unit" where
  "validateAttackDifficultyCap c =
     (if \<not> cf_AttackEnabled c then Inr ()
      else first_error (\<lambda>dc. if pw_Enabled (dm_PoW dc) \<and> BaseBits (dm_PoW dc) > cf_AttackCapBits c
                              then Some CfgAttackCap else None) c)"

text \<open>One pass of \<open>RuleVariants\<close>: the specification a scope joins or adds.\<close>

definition add_variant ::
  "string \<times> string \<times> domain_config \<Rightarrow> (string, variant_spec) gomap \<Rightarrow> (string, variant_spec) gomap" where
  "add_variant e m =
     (let (label, _, dc) = e; r = dm_Rules dc
      in if rl_Files r = [] \<or> \<not> rl_Enabled r \<and> rl_DisabledIDs r = [] then m
         else let spec = (case map_of m (rl_ruleKey r) of
                            Some sp \<Rightarrow> sp
                          | None \<Rightarrow> \<lparr>vs_Paths = rl_Files r, vs_DisabledIDs = rl_DisabledIDs r, vs_Scopes = []\<rparr>)
              in mput (rl_ruleKey r) (spec\<lparr>vs_Scopes := vs_Scopes spec @ [label]\<rparr>) m)"

definition RuleVariants :: "config \<Rightarrow> variant_spec list" where
  "RuleVariants c = map snd (fold add_variant (eachScope c) [])"

definition HeaderExemptionVariants :: "config \<Rightarrow> (string, predicate_config list) gomap" where
  "HeaderExemptionVariants c =
     fold (\<lambda>(_, _, dc) m. let p = dm_PoW dc in
             if pw_HeaderExemptions p \<noteq> [] then mput (pw_headerExemptionKey p) (pw_HeaderExemptions p) m else m)
       (eachScope c) []"

definition AllowlistUnion :: "config \<Rightarrow> ip_prefix list" where
  "AllowlistUnion c = remdups (concat (map (\<lambda>(_, _, dc). lc_prefixes (dm_Allowlist dc)) (eachScope c)))"

definition scope_windows :: "domain_config \<Rightarrow> behaviour_window list" where
  "scope_windows dc =
     map (\<lambda>(ev, r). \<lparr>bw_Event = ev, bw_Window = rt_Per r\<rparr>)
       (filter (\<lambda>(ev, r). \<not> (rt_Count r \<le> 0 \<or> rt_Per r \<le> 0)) (ib_Thresholds (dm_IPBehaviour dc)))"

definition BehaviourWindows :: "config \<Rightarrow> behaviour_window list" where
  "BehaviourWindows c =
     sort_key (\<lambda>w. (bw_Event w, bw_Window w)) (remdups (concat (map (\<lambda>(_, _, dc). scope_windows dc) (eachScope c))))"

datatype config_warning = HoneypotNoPaths string | SuspicionObserveOnly string

definition scope_warnings :: "string \<Rightarrow> domain_config \<Rightarrow> config_warning list" where
  "scope_warnings scope dc =
     (if hp_Enabled (dm_Honeypot dc) \<and> hp_Paths (dm_Honeypot dc) = [] then [HoneypotNoPaths scope] else []) @
     (if pw_Enabled (dm_PoW dc) \<and> pw_Mode (dm_PoW dc) = ''suspicion'' \<and> an_Enabled (dm_Anomaly dc) \<and> an_ObserveOnly (dm_Anomaly dc)
      then [SuspicionObserveOnly scope] else [])"

definition Warnings :: "config \<Rightarrow> config_warning list" where
  "Warnings c = concat (map (\<lambda>(label, _, dc). scope_warnings label dc) (eachScope c))"


section \<open>The most specific overlay\<close>

lemma override_matches_entry [simp]: "override_matches p (mk_override key cfg) = path_entry_matches p key"
  by (simp add: override_matches_def mk_override_def path_entry_matches_def)

lemma key_form: "validatePathKey key = Inr () \<Longrightarrow> \<exists>es t. path_form es t key"
  using NormalizePath_form [of key] by (auto simp: validatePathKey_def split: if_splits)

lemma entry_matches_segs:
  assumes "path_form es t key" "path_form ss u p" "path_entry_matches p key"
  shows "prefix (path_segs key) (path_segs p)"
proof (cases "hasSuffix key ''/''")
  case True
  then show ?thesis using entry_subtree assms by blast
next
  case False
  then show ?thesis using assms(3) by (simp add: path_entry_matches_def)
qed

lemma length_render: "strict_prefix xs ys \<Longrightarrow> length (render xs) < length (render ys)"
proof -
  assume "strict_prefix xs ys"
  then obtain z zs where "ys = xs @ z # zs" by (rule strict_prefixE')
  then show ?thesis by simp
qed

lemma build_overrides_keys:
  "build_overrides json sha gi merged keys = Inr os \<Longrightarrow>
     map po_key os = keys \<and> (\<forall>o1 \<in> set os. o1 = mk_override (po_key o1) (po_cfg o1))"
proof (induction keys arbitrary: os)
  case (Cons k ks)
  then show ?case by (fastforce simp: gobind_eq_Inr mk_override_def)
qed simp

lemma find_sorted:
  assumes "sorted (map f xs)" "find P xs = Some x" "y \<in> set xs" "P y"
  shows "f x \<le> f y"
  using assms by (induction xs) (auto split: if_splits)

lemma specificity_le:
  "specificity a \<le> specificity b \<longleftrightarrow>
     length (po_bare b) < length (po_bare a) \<or>
     length (po_bare b) = length (po_bare a) \<and>
       (\<not> po_prefix a \<and> po_prefix b \<or> po_prefix a = po_prefix b \<and> po_key a \<le> po_key b)"
  by (auto simp: specificity_def less_eq_prod_def)

text \<open>
  C19 (functional). A request gets the settings of the most specific path overlay that covers it, and the
  host's own settings when none does: every other overlay that matches the request names an enclosing
  directory of the chosen one, or is the directory form of the same path when the chosen one is exact.
\<close>

theorem most_specific_overlay:
  assumes "resolvePaths json sha gi merged keys dc = Inr ds" "\<forall>k \<in> set keys. validatePathKey k = Inr ()"
  shows "(\<exists>o1 \<in> set (ds_overrides ds). ForPath ds (NormalizedPath req) = po_cfg o1 \<and> override_matches (NormalizedPath req) o1 \<and>
       (\<forall>o2 \<in> set (ds_overrides ds). override_matches (NormalizedPath req) o2 \<longrightarrow> o2 = o1 \<or>
          strict_prefix (path_segs (po_key o2)) (path_segs (po_key o1)) \<or>
          path_segs (po_key o2) = path_segs (po_key o1) \<and> \<not> po_prefix o1 \<and> po_prefix o2)) \<or>
     (\<forall>o2 \<in> set (ds_overrides ds). \<not> override_matches (NormalizedPath req) o2) \<and> ForPath ds (NormalizedPath req) = ds_cfg ds"
proof -
  let ?p = "NormalizedPath req"
  obtain os where os: "build_overrides json sha gi merged (sort (remdups keys)) = Inr os"
      "ds_overrides ds = sort_key specificity os"
    using assms(1) by (auto simp: resolvePaths_def gobind_eq_Inr)
  note ks = build_overrides_keys [OF os(1)]
  have shape: "o1 = mk_override (po_key o1) (po_cfg o1)" "validatePathKey (po_key o1) = Inr ()" if "o1 \<in> set (ds_overrides ds)" for o1
  proof -
    have o1: "o1 \<in> set os" using that os(2) by simp
    then have "po_key o1 \<in> set keys" using ks by (metis imageI list.set_map set_remdups set_sort)
    then show "o1 = mk_override (po_key o1) (po_cfg o1)" "validatePathKey (po_key o1) = Inr ()" using o1 ks assms(2) by auto
  qed
  have same_key: "o1 = o2" if "o1 \<in> set os" "o2 \<in> set os" "po_key o1 = po_key o2" for o1 o2
    using ks that by (metis distinct_map distinct_remdups distinct_sort inj_onD)
  obtain ss u where p: "path_form ss u ?p" using NormalizedPath_form by blast
  show ?thesis
  proof (cases "find (override_matches ?p) (ds_overrides ds)")
    case None
    then have "ForPath ds ?p = ds_cfg ds" by (simp add: ForPath_def)
    then show ?thesis using None by (simp add: find_None_iff)
  next
    case (Some o1)
    then have o1: "o1 \<in> set (ds_overrides ds)" "override_matches ?p o1" by (auto simp: find_Some_iff)
    obtain es t where e1: "path_form es t (po_key o1)" using key_form shape(2) [OF o1(1)] by blast
    have m1: "prefix (path_segs (po_key o1)) (path_segs ?p)"
      using entry_matches_segs [OF e1 p] o1(2) shape(1) [OF o1(1)] by (metis override_matches_entry)
    have "o2 = o1 \<or> strict_prefix (path_segs (po_key o2)) (path_segs (po_key o1)) \<or>
        path_segs (po_key o2) = path_segs (po_key o1) \<and> \<not> po_prefix o1 \<and> po_prefix o2"
      if o2: "o2 \<in> set (ds_overrides ds)" "override_matches ?p o2" for o2
    proof -
      obtain fs v where e2: "path_form fs v (po_key o2)" using key_form shape(2) [OF o2(1)] by blast
      have m2: "prefix (path_segs (po_key o2)) (path_segs ?p)"
        using entry_matches_segs [OF e2 p] o2(2) shape(1) [OF o2(1)] by (metis override_matches_entry)
      have le: "specificity o1 \<le> specificity o2"
        using find_sorted [of specificity, OF _ Some o2] os(2) by simp
      have bare: "po_bare o1 = render es" "po_bare o2 = render fs" "po_prefix o1 = (t = ''/'')" "po_prefix o2 = (v = ''/'')"
        using path_form_bare [OF e1] path_form_bare [OF e2] hasSuffix_form [OF e1] hasSuffix_form [OF e2]
          shape(1) [OF o1(1)] shape(1) [OF o2(1)] by (metis mk_override_def path_override.select_convs(2,3))+
      have segs: "path_segs (po_key o1) = es" "path_segs (po_key o2) = fs" using path_form_segs e1 e2 by auto
      have "\<not> strict_prefix es fs"
        using length_render [of es fs] e2 le bare by (auto simp: path_form_def specificity_le)
      then have "prefix fs es" using prefix_same_cases [OF m1 m2] segs by (auto simp: strict_prefix_def)
      moreover have "o1 = o2" if "fs = es" "t = v"
        using same_key [of o1 o2] o1(1) o2(1) os(2) e1 e2 that by (auto simp: path_form_def)
      moreover have "t = '''' \<and> v = ''/''" if "fs = es" "t \<noteq> v"
        using le bare that e1 e2 by (auto simp: specificity_le path_form_def)
      ultimately show ?thesis using segs bare by (auto simp: strict_prefix_def)
    qed
    then show ?thesis using o1 Some by (auto simp: ForPath_def)
  qed
qed


section \<open>Every scope has the rules it names\<close>

definition contributes :: "domain_config \<Rightarrow> bool" where
  "contributes dc \<longleftrightarrow> rl_Files (dm_Rules dc) \<noteq> [] \<and> (rl_Enabled (dm_Rules dc) \<or> rl_DisabledIDs (dm_Rules dc) \<noteq> [])"

definition spec_of :: "domain_config \<Rightarrow> variant_spec \<Rightarrow> bool" where
  "spec_of dc sp \<longleftrightarrow> vs_Paths sp = rl_Files (dm_Rules dc) \<and> vs_DisabledIDs sp = rl_DisabledIDs (dm_Rules dc)"

text \<open>The map of \<open>RuleVariants\<close>: every entry belongs to a scope, and every contributing scope has one.\<close>

definition variants_cover :: "domain_config set \<Rightarrow> (string, variant_spec) gomap \<Rightarrow> bool" where
  "variants_cover D m \<longleftrightarrow> map_wf m \<and>
     (\<forall>k sp. map_of m k = Some sp \<longrightarrow> (\<exists>dc \<in> D. contributes dc \<and> rl_ruleKey (dm_Rules dc) = k \<and> spec_of dc sp)) \<and>
     (\<forall>dc \<in> D. contributes dc \<longrightarrow> map_of m (rl_ruleKey (dm_Rules dc)) \<noteq> None)"

lemma add_variant_cover:
  assumes "variants_cover D m"
  shows "variants_cover (insert dc D) (add_variant (label, host, dc) m)"
proof (cases "contributes dc")
  case True
  let ?k = "rl_ruleKey (dm_Rules dc)"
  define sp where "sp = (case map_of m ?k of Some sp \<Rightarrow> sp
    | None \<Rightarrow> \<lparr>vs_Paths = rl_Files (dm_Rules dc), vs_DisabledIDs = rl_DisabledIDs (dm_Rules dc), vs_Scopes = []\<rparr>)"
  have m': "add_variant (label, host, dc) m = mput ?k (sp\<lparr>vs_Scopes := vs_Scopes sp @ [label]\<rparr>) m"
    using True by (auto simp: add_variant_def contributes_def sp_def Let_def)
  have "\<exists>d \<in> insert dc D. contributes d \<and> rl_ruleKey (dm_Rules d) = ?k \<and> spec_of d (sp\<lparr>vs_Scopes := vs_Scopes sp @ [label]\<rparr>)"
  proof (cases "map_of m ?k")
    case None
    then show ?thesis using True by (auto simp: sp_def spec_of_def)
  next
    case (Some s)
    then show ?thesis using assms by (fastforce simp: variants_cover_def spec_of_def sp_def)
  qed
  then show ?thesis using assms unfolding m' variants_cover_def by (auto simp: gomap_simps split: if_splits)
next
  case False
  then have "add_variant (label, host, dc) m = m" by (auto simp: add_variant_def contributes_def Let_def)
  then show ?thesis using assms False unfolding variants_cover_def by auto
qed

lemma RuleVariants_cover:
  "variants_cover ((\<lambda>(_, _, dc). dc) ` set (eachScope c)) (fold add_variant (eachScope c) [])"
proof -
  have "variants_cover D m \<Longrightarrow> variants_cover ((\<lambda>(_, _, dc). dc) ` set es \<union> D) (fold add_variant es m)" for es D m
  proof (induction es arbitrary: D m)
    case (Cons e es)
    obtain label host dc where e: "e = (label, host, dc)" by (cases e) auto
    show ?case using Cons.IH [OF add_variant_cover [OF Cons.prems, of dc label host]] by (simp add: e)
  qed simp
  from this [of "{}" "[]" "eachScope c"] show ?thesis by (simp add: variants_cover_def)
qed

text \<open>The sources of a variant are fixed when the cache is made.\<close>

definition sources :: "(string, rule_variant) gomap \<Rightarrow> (string \<times> string list \<times> string list) list" where
  "sources vs = map (\<lambda>(k, v). (k, rv_paths v, rv_disabled v)) vs"

lemma map_of_sources: "map_of (sources vs) k = map_option (\<lambda>v. (rv_paths v, rv_disabled v)) (map_of vs k)"
  by (induction vs) (auto simp: sources_def)

lemma build_all_sources: "build_all f vs = Inr vs' \<Longrightarrow> sources vs' = sources vs"
  by (induction f vs arbitrary: vs' rule: build_all.induct) (auto simp: sources_def split: sum.splits)

lemma install_sources: "install path f vs = Some vs' \<Longrightarrow> sources vs' = sources vs"
  by (induction path f vs arbitrary: vs' rule: install.induct) (auto simp: sources_def split: sum.splits if_splits)

lemma reload_file_sources: "sources (rc_byKey (reload_file rx decode read path c)) = sources (rc_byKey c)"
  by (auto simp: reload_file_def Let_def dest: install_sources split: option.splits sum.splits)

lemma reloadChanged_sources: "sources (rc_byKey (reloadChanged rx decode read c)) = sources (rc_byKey c)"
proof -
  have "sources (rc_byKey (fold (reload_file rx decode read) ps c)) = sources (rc_byKey c)" for ps
    by (induction ps arbitrary: c) (simp_all add: reload_file_sources)
  then show ?thesis by (simp add: reloadChanged_def)
qed

lemma reloads_sources: "sources (rc_byKey (fold (reloadChanged rx decode) reads c)) = sources (rc_byKey c)"
  by (induction reads arbitrary: c) (simp_all add: reloadChanged_sources)

lemma reloads_consistent: "cache_consistent c \<Longrightarrow> cache_consistent (fold (reloadChanged rx decode) reads c)"
  by (induction reads arbitrary: c) (simp_all add: reloadChanged_consistent)

lemma add_specs_covers:
  assumes "add_specs sha specs vs = Inr vs'"
    and "sp \<in> set specs \<or> (\<exists>v. map_of vs (VariantKey sha (vs_Paths sp) (vs_DisabledIDs sp)) = Some v)"
  shows "\<exists>v. map_of vs' (VariantKey sha (vs_Paths sp) (vs_DisabledIDs sp)) = Some v"
  using assms
proof (induction specs arbitrary: vs)
  case (Cons s specs)
  let ?k = "VariantKey sha (vs_Paths s) (vs_DisabledIDs s)"
  show ?case
  proof (cases "map_of vs ?k")
    case None
    then obtain v where "add_specs sha specs (mput ?k v vs) = Inr vs'"
      using Cons.prems(1) by (auto simp: Let_def split: if_splits sum.splits)
    from Cons.IH [OF this] Cons.prems(2) show ?thesis by (auto simp: gomap_simps)
  next
    case (Some v)
    then obtain v' where "add_specs sha specs (mput ?k v' vs) = Inr vs'"
      using Cons.prems(1) by (auto simp: Let_def split: if_splits)
    from Cons.IH [OF this] Cons.prems(2) show ?thesis by (auto simp: gomap_simps)
  qed
qed simp

lemma add_specs_origin:
  assumes "add_specs sha specs vs = Inr vs'" "map_of vs' k = Some v"
  shows "(\<exists>w. map_of vs k = Some w \<and> rv_paths v = rv_paths w \<and> rv_disabled v = rv_disabled w) \<or>
    (\<exists>sp \<in> set specs. k = VariantKey sha (vs_Paths sp) (vs_DisabledIDs sp) \<and> rv_paths v = vs_Paths sp \<and> rv_disabled v = vs_DisabledIDs sp)"
  using assms
proof (induction specs arbitrary: vs)
  case (Cons s specs)
  let ?k = "VariantKey sha (vs_Paths s) (vs_DisabledIDs s)"
  show ?case
  proof (cases "map_of vs ?k")
    case None
    then have "add_specs sha specs (mput ?k \<lparr>rv_paths = vs_Paths s, rv_disabled = vs_DisabledIDs s, rv_scopes = vs_Scopes s,
        rv_set = empty_rules\<rparr> vs) = Inr vs'"
      using Cons.prems(1) by (auto simp: Let_def split: if_splits sum.splits)
    from Cons.IH [OF this Cons.prems(2)] show ?thesis by (auto simp: gomap_simps split: if_splits)
  next
    case (Some w)
    then have "add_specs sha specs (mput ?k (w\<lparr>rv_scopes := rv_scopes w @ vs_Scopes s\<rparr>) vs) = Inr vs'"
      using Cons.prems(1) by (auto simp: Let_def split: if_splits)
    from Cons.IH [OF this Cons.prems(2)] Some show ?thesis by (auto simp: gomap_simps split: if_splits)
  qed
qed simp

lemma map_sum_Inr [simp]: "map_sum f id x = Inr y \<longleftrightarrow> x = Inr y"
  by (cases x) auto

lemma validate_domainE:
  assumes "validate_domain json sha dc0 = Inr dc"
  obtains p r g al dl vb where "validate_pow json (dm_Anomaly dc0) (dm_PoW dc0) = Inr p" "validate_rules sha (dm_Rules dc0) = Inr r"
    "lc_Compile (dm_Allowlist dc0) = Inr al" "lc_Compile (dm_Denylist dc0) = Inr dl" "vb_compile (dm_VerifiedBots dc0) = Inr vb"
    "check_overlap (vb_Bots vb) (lc_UAs al) = Inr ()" "hp_Validate (dm_Honeypot dc0) = None"
    "dc = dc0\<lparr>dm_PoW := p, dm_Rules := r, dm_Geo := g, dm_Allowlist := al, dm_Denylist := dl, dm_VerifiedBots := vb\<rparr>"
  using assms by (auto simp: validate_domain_def gobind_eq_Inr Let_def split: option.splits)

lemma validated_ruleKey:
  "validate_domain json sha dc0 = Inr dc \<Longrightarrow>
     rl_ruleKey (dm_Rules dc) = VariantKey sha (rl_Files (dm_Rules dc)) (rl_DisabledIDs (dm_Rules dc))"
  by (erule validate_domainE) (auto simp: validate_rules_def gobind_eq_Inr split: if_splits)

text \<open>The digest distinguishes the rule selections of a configuration.\<close>

definition keys_distinguish :: "(bytes \<Rightarrow> string) \<Rightarrow> config \<Rightarrow> bool" where
  "keys_distinguish sha c \<longleftrightarrow>
     (\<forall>(_, _, d1) \<in> set (eachScope c). \<forall>(_, _, d2) \<in> set (eachScope c).
        VariantKey sha (rl_Files (dm_Rules d1)) (rl_DisabledIDs (dm_Rules d1)) =
        VariantKey sha (rl_Files (dm_Rules d2)) (rl_DisabledIDs (dm_Rules d2)) \<longrightarrow>
        rl_Files (dm_Rules d1) = rl_Files (dm_Rules d2) \<and>
        set (rl_DisabledIDs (dm_Rules d1)) = set (rl_DisabledIDs (dm_Rules d2)))"


lemma scopeForRequest_in: "\<exists>label host. (label, host, scopeForRequest c req) \<in> set (eachScope c)"
proof -
  have entry: "\<exists>label. (label, host, ForPath ds path) \<in> set (scope_entries l host ds)" for ds path l host
  proof (cases "find (override_matches path) (ds_overrides ds)")
    case None
    then show ?thesis by (auto simp: ForPath_def scope_entries_def)
  next
    case (Some o1)
    then have "o1 \<in> set (ds_overrides ds)" by (auto simp: find_Some_iff)
    then show ?thesis using Some by (auto simp: ForPath_def scope_entries_def)
  qed
  show ?thesis
  proof (cases "map_of (cf_resolved c) (NormalizeHost (ctx_Host req))")
    case None
    then show ?thesis using entry by (fastforce simp: scopeForRequest_def DomainFor_def eachScope_def)
  next
    case (Some ds)
    then have "NormalizeHost (ctx_Host req) \<in> set (map fst (cf_resolved c))" by (force dest: map_of_SomeD)
    then show ?thesis using entry [of "NormalizeHost (ctx_Host req)" ds] Some
      by (fastforce simp: scopeForRequest_def DomainFor_def eachScope_def)
  qed
qed

lemma first_error_none: "first_error f c = Inr () \<Longrightarrow> (label, host, dc) \<in> set (eachScope c) \<Longrightarrow> f dc = None"
  by (auto simp: first_error_def find_None_iff image_iff split: option.splits) (fastforce simp: find_Some_iff)

lemma variant_for_scope:
  assumes "\<forall>(_, _, d) \<in> set (eachScope c). \<exists>d0. validate_domain json sha d0 = Inr d"
    and "(label, host, dc) \<in> set (eachScope c)" "contributes dc"
  shows "\<exists>sp \<in> set (RuleVariants c). rl_ruleKey (dm_Rules dc) = VariantKey sha (vs_Paths sp) (vs_DisabledIDs sp)"
proof -
  let ?m = "fold add_variant (eachScope c) []" and ?k = "rl_ruleKey (dm_Rules dc)"
  obtain sp where sp: "map_of ?m ?k = Some sp" using RuleVariants_cover [of c] assms(2,3) unfolding variants_cover_def by force
  then obtain d where d: "d \<in> (\<lambda>(_, _, dc). dc) ` set (eachScope c)" "rl_ruleKey (dm_Rules d) = ?k" "spec_of d sp"
    using RuleVariants_cover [of c] unfolding variants_cover_def by blast
  have "rl_ruleKey (dm_Rules d) = VariantKey sha (vs_Paths sp) (vs_DisabledIDs sp)"
    using d assms(1) validated_ruleKey by (fastforce simp: spec_of_def)
  moreover have "sp \<in> set (RuleVariants c)" using map_of_SomeD [OF sp] by (force simp: RuleVariants_def)
  ultimately show ?thesis using d(2) by auto
qed

lemma variant_origin:
  assumes "sp \<in> set (RuleVariants c)"
  shows "\<exists>d \<in> (\<lambda>(_, _, dc). dc) ` set (eachScope c). spec_of d sp"
proof -
  let ?m = "fold add_variant (eachScope c) []"
  obtain k where "(k, sp) \<in> set ?m" using assms by (auto simp: RuleVariants_def)
  moreover have "map_wf ?m" using RuleVariants_cover [of c] by (simp add: variants_cover_def)
  ultimately have "map_of ?m k = Some sp" by (simp add: map_of_eq_Some_mem)
  then show ?thesis using RuleVariants_cover [of c] unfolding variants_cover_def by blast
qed

lemma new_cache_sources:
  assumes "NewRuleCacheVariants rx decode sha read specs = Inr rc"
  obtains vs where "add_specs sha specs [] = Inr vs" "sources (rc_byKey rc) = sources vs"
  using assms by (auto simp: NewRuleCacheVariants_def dest: build_all_sources split: sum.splits)

text \<open>
  C20 (safety). No request escapes the rules its scope names. When the configuration passed validation
  and the rule cache was built from it, then for every request whose scope has rules enabled the cache
  serves a set under the scope's key, through any number of reloads, and it is exactly the scope's
  files in order without the scope's disabled rules; so the stage never takes its branch for a missing
  set, which lets the request pass unmatched.
\<close>

theorem scope_rules_served:
  assumes "\<forall>(_, _, d) \<in> set (eachScope c). \<exists>d0. validate_domain json sha d0 = Inr d"
    and "validateFeatureDependencies c = Inr ()" "keys_distinguish sha c"
    and "NewRuleCacheVariants rx decode sha read (RuleVariants c) = Inr rc0" "rc = fold (reloadChanged rx decode) reads rc0"
    and "rules = dm_Rules (scopeForRequest c req)" "rl_Enabled rules"
  shows "\<exists>rs. rc_Get (rl_ruleKey rules) rc = Some rs \<and>
     rs_Rules rs = filter (\<lambda>r. wr_ID r \<notin> set (rl_DisabledIDs rules)) (concat (map (rs_Rules \<circ> file_set (rc_files rc)) (rl_Files rules)))"
proof -
  define dc where "dc = scopeForRequest c req"
  obtain label host where dc: "(label, host, dc) \<in> set (eachScope c)" using scopeForRequest_in dc_def by blast
  have "dependency_error c dc = None" using first_error_none [OF _ dc] assms(2) by (simp add: validateFeatureDependencies_def)
  then have "contributes dc" using assms(6,7) by (auto simp: dependency_error_def contributes_def dc_def split: if_splits)
  then obtain sp where sp: "sp \<in> set (RuleVariants c)" "rl_ruleKey rules = VariantKey sha (vs_Paths sp) (vs_DisabledIDs sp)"
    using variant_for_scope [OF assms(1) dc] assms(6) dc_def by blast
  obtain vs where vs: "add_specs sha (RuleVariants c) [] = Inr vs" "sources (rc_byKey rc0) = sources vs"
    by (rule new_cache_sources [OF assms(4)])
  have src: "sources (rc_byKey rc) = sources vs" using vs(2) reloads_sources assms(5) by metis
  obtain w where w: "map_of vs (rl_ruleKey rules) = Some w" using add_specs_covers [OF vs(1)] sp by metis
  then obtain v where v: "map_of (rc_byKey rc) (rl_ruleKey rules) = Some v" "rv_paths v = rv_paths w" "rv_disabled v = rv_disabled w"
    using map_of_sources [of "rc_byKey rc"] map_of_sources [of vs] src by (fastforce simp: map_option_case split: option.splits)
  obtain s2 where s2: "s2 \<in> set (RuleVariants c)" "rl_ruleKey rules = VariantKey sha (vs_Paths s2) (vs_DisabledIDs s2)"
      "rv_paths w = vs_Paths s2" "rv_disabled w = vs_DisabledIDs s2"
    using add_specs_origin [OF vs(1) w] by auto
  obtain d2 where d2: "d2 \<in> (\<lambda>(_, _, dc). dc) ` set (eachScope c)" "spec_of d2 s2" using variant_origin [OF s2(1)] by blast
  have "rl_ruleKey rules = VariantKey sha (rl_Files rules) (rl_DisabledIDs rules)"
    using assms(1,6) dc dc_def validated_ruleKey by fastforce
  then have "VariantKey sha (rl_Files rules) (rl_DisabledIDs rules) = VariantKey sha (rl_Files (dm_Rules d2)) (rl_DisabledIDs (dm_Rules d2))"
    using s2(2) d2(2) by (simp add: spec_of_def)
  then have same: "rl_Files rules = rv_paths v" "set (rl_DisabledIDs rules) = set (rv_disabled v)"
    using assms(3,6) dc d2 s2(3,4) v(2,3) unfolding keys_distinguish_def dc_def spec_of_def by fastforce+
  have "cache_consistent rc" using reloads_consistent [OF new_cache_consistent [OF assms(4)]] assms(5) by simp
  then have "rv_build (file_set (rc_files rc)) v = Inr (rv_set v)" using map_of_SomeD [OF v(1)] unfolding cache_consistent_def by fast
  then show ?thesis using rv_build_rules(2) [of "file_set (rc_files rc)" v] v(1) same by (simp add: rc_Get_def)
qed


section \<open>Difficulties\<close>

lemma go_round_mono: "0 \<le> x \<Longrightarrow> x \<le> y \<Longrightarrow> go_round x \<le> go_round y"
  by (simp add: go_round_def floor_mono)

lemma validate_pow_difficulty:
  "validate_pow json a p0 = Inr p \<Longrightarrow> 1 \<le> pw_BaseDifficulty p \<and> pw_BaseDifficulty p \<le> pw_MaxDifficulty p \<and> pw_MaxDifficulty p \<le> 8"
  by (auto simp: validate_pow_def validate_difficulty_def gobind_eq_Inr split: sum.splits if_splits)

lemma validated_bits:
  assumes "validate_domain json sha dc0 = Inr dc"
  shows "4 \<le> BaseBits (dm_PoW dc)" "BaseBits (dm_PoW dc) \<le> MaxBits (dm_PoW dc)" "MaxBits (dm_PoW dc) \<le> 32"
proof -
  obtain p where p: "validate_pow json (dm_Anomaly dc0) (dm_PoW dc0) = Inr p" "dm_PoW dc = p"
    using assms by (auto elim!: validate_domainE)
  note d = validate_pow_difficulty [OF p(1)]
  show "4 \<le> BaseBits (dm_PoW dc)"
    using go_round_mono [of 4 "pw_BaseDifficulty p * 4"] d by (simp add: BaseBits_def difficultyBits_def p(2) go_round_def)
  show "BaseBits (dm_PoW dc) \<le> MaxBits (dm_PoW dc)"
    using go_round_mono [of "pw_BaseDifficulty p * 4" "pw_MaxDifficulty p * 4"] d by (simp add: BaseBits_def MaxBits_def difficultyBits_def p(2))
  show "MaxBits (dm_PoW dc) \<le> 32"
    using go_round_mono [of "pw_MaxDifficulty p * 4" 32] d by (simp add: MaxBits_def difficultyBits_def p(2) go_round_def)
qed

section \<open>Rates survive inheritance\<close>

lemma trim_with_id: "s \<noteq> [] \<Longrightarrow> \<not> f (hd s) \<Longrightarrow> \<not> f (List.last s) \<Longrightarrow> trim_with f s = s"
proof -
  assume a: "s \<noteq> []" "\<not> f (hd s)" "\<not> f (List.last s)"
  have "dropWhile f s = s" using a(1,2) by (cases s) auto
  moreover have "dropWhile f (rev s) = rev s" using a(1,3) by (cases "rev s") (auto simp: hd_rev [symmetric])
  ultimately show ?thesis by (simp add: trim_with_def)
qed

lemma dropWhile_keeps: "c \<in> set s \<Longrightarrow> \<not> f c \<Longrightarrow> c \<in> set (dropWhile f s)"
  by (induction s) auto

lemma trim_with_keeps: "c \<in> set s \<Longrightarrow> \<not> f c \<Longrightarrow> c \<in> set (trim_with f s)"
  by (simp add: trim_with_def dropWhile_keeps)

lemma digit_char_props:
  assumes "d < 10"
  shows "\<not> is_space (digit_char d)" "digit_char d \<noteq> CHR ''/''"
proof -
  have n: "(of_char (digit_char d) :: nat) = 48 + d" using of_char_digit_char [OF assms] .
  then show "\<not> is_space (digit_char d)" by (auto simp: is_space_def)
  show "digit_char d \<noteq> CHR ''/''"
  proof
    assume "digit_char d = CHR ''/''"
    then have "(of_char (digit_char d) :: nat) = 47" by simp
    with n show False by simp
  qed
qed

lemma fmt_uint_digits: "c \<in> set (fmt_uint 10 n) \<Longrightarrow> \<exists>d < 10. c = digit_char d"
proof (induction n arbitrary: c rule: less_induct)
  case (less n)
  show ?case
  proof (cases "n < 10")
    case True
    then show ?thesis using less.prems by (auto simp: fmt_uint_small)
  next
    case False
    then consider "c \<in> set (fmt_uint 10 (n div 10))" | "c = digit_char (n mod 10)"
      using less.prems by (auto simp: fmt_uint_large)
    then show ?thesis
    proof cases
      case 1
      then show ?thesis using less.IH [of "n div 10"] False by simp
    qed (intro exI [of _ "n mod 10"], simp)
  qed
qed

lemma format_int_clean:
  assumes "0 < n"
  shows "trimSpace (format_int n) = format_int n" "CHR ''/'' \<notin> set (format_int n)" "format_int n \<noteq> []"
proof -
  have f: "format_int n = fmt_uint 10 (nat n)" using assms by (simp add: format_int_def)
  have c: "\<not> is_space c" "c \<noteq> CHR ''/''" if "c \<in> set (format_int n)" for c
    using that digit_char_props fmt_uint_digits [of c "nat n"] unfolding f by auto
  show ne: "format_int n \<noteq> []" by (simp add: f)
  show "trimSpace (format_int n) = format_int n"
    unfolding trimSpace_def by (rule trim_with_id [OF ne c(1) [OF hd_in_set [OF ne]] c(1) [OF last_in_set [OF ne]]])
  show "CHR ''/'' \<notin> set (format_int n)" using c(2) by auto
qed

lemma units_table:
  "list_all (\<lambda>(names, u, per). trimSpace u = u \<and> find (\<lambda>(ns, _, _). u \<in> set ns) rate_units = Some (names, u, per) \<and>
     find (\<lambda>(_, _, p). p = per) rate_units = Some (names, u, per)) rate_units"
  by code_simp

lemma unit_names:
  "(names, u, per) \<in> set rate_units \<Longrightarrow>
     trimSpace u = u \<and> find (\<lambda>(ns, _, _). u \<in> set ns) rate_units = Some (names, u, per) \<and>
     find (\<lambda>(_, _, p). p = per) rate_units = Some (names, u, per)"
  using units_table unfolding list_all_iff by blast

lemma rate_round_trip:
  assumes "parse_rate s = Some r"
  shows "parse_rate (format_rate r) = Some r"
proof -
  obtain names u where u: "(names, u, rt_Per r) \<in> set rate_units" and n: "0 < rt_Count r" "int64 (rt_Count r)"
  proof -
    obtain m names u per where m: "parse_int64 (trimSpace (before_byte (CHR ''/'') s)) = Some m" "0 < m"
        "find (\<lambda>(ns, _, _). trimSpace (drop (length (before_byte (CHR ''/'') s) + 1) s) \<in> set ns) rate_units = Some (names, u, per)"
        "r = \<lparr>rt_Count = m, rt_Per = per\<rparr>"
      using assms by (auto simp: parse_rate_def Let_def split: if_splits option.splits)
    have "(names, u, per) \<in> set rate_units" using find_mem [OF m(3)] by simp
    moreover have "int64 m"
      using m(1,2) by (auto simp: parse_int64_def Let_def int64_def minInt64_def maxInt64_def split: if_splits option.splits)
    ultimately show ?thesis using that m(2,4) by simp
  qed
  note un = unit_names [OF u] and fc = format_int_clean [OF n(1)]
  have f: "format_rate r = format_int (rt_Count r) @ CHR ''/'' # u" using un by (simp add: format_rate_def)
  have "before_byte (CHR ''/'') (format_rate r) = format_int (rt_Count r)"
    using fc(2) by (auto simp: f before_byte_def takeWhile_append)
  then show ?thesis using un fc n by (simp add: parse_rate_def f Let_def)
qed

text \<open>
  A behaviour threshold written back and read again is the same, \<^verbatim>\<open>off\<close> included. Domain and
  path settings are made by writing out their parent and reading the overlay on top, so a threshold an
  operator set or switched off once holds in every scope that inherits it.
\<close>

theorem threshold_round_trip:
  assumes "parse_threshold s = Some r"
  shows "parse_threshold (format_threshold r) = Some r"
proof (cases "rt_Count r \<le> 0")
  case True
  then have "r = \<lparr>rt_Count = 0, rt_Per = 0\<rparr>"
    using assms by (auto simp: parse_threshold_def parse_rate_def Let_def split: if_splits option.splits)
  then show ?thesis
    by (simp add: format_threshold_def parse_threshold_def trimSpace_def trim_with_def is_space_def toLower_def ascii_lower_def)
next
  case False
  then have r: "parse_rate s = Some r" using assms by (auto simp: parse_threshold_def split: if_splits)
  have "CHR ''/'' \<in> set (format_rate r)" by (simp add: format_rate_def)
  then have "CHR ''/'' \<in> set (trimSpace (format_rate r))"
    by (simp add: trimSpace_def trim_with_keeps is_space_def)
  then have "toLower (trimSpace (format_rate r)) \<noteq> ''off''"
    by (auto simp: toLower_def) (auto simp: ascii_lower_def)
  then show ?thesis using rate_round_trip [OF r] False by (simp add: format_threshold_def parse_threshold_def)
qed


section \<open>Crawler names on the allowlist\<close>

lemma check_overlap_ok:
  "check_overlap bs uas = Inr () \<Longrightarrow> b \<in> set bs \<Longrightarrow> an \<in> set uas \<Longrightarrow> \<not> overlaps b an"
  by (induction bs) (auto simp: find_None_iff split: option.splits)

lemma compile_uas_lower: "compile_uas us acc = Inr r \<Longrightarrow> set r = set acc \<union> (\<lambda>u. toLower (trimSpace u)) ` set us"
  by (induction us acc arbitrary: r rule: compile_uas.induct) (auto simp: Let_def split: if_splits)

lemma lc_Compile_sel:
  "lc_Compile l = Inr l' \<Longrightarrow> lc_UAs l' = lc_UAs l \<and> lc_Paths l' = lc_Paths l \<and> lc_IPs l' = lc_IPs l \<and>
     set (lc_uasLower l') = (\<lambda>u. toLower (trimSpace u)) ` set (lc_UAs l)"
  by (auto simp: lc_Compile_def gobind_eq_Inr dest!: compile_uas_lower split: option.splits)

text \<open>
  When no allowlisted User-Agent has surrounding white space, a validated scope never
  exempts a client merely for naming a verified crawler: no needle of a crawler is matched by the
  allowlist, and no allowlist needle occurs in one.
\<close>

theorem crawler_names_not_allowlisted:
  assumes "validate_domain json sha dc0 = Inr dc" "\<forall>u \<in> set (lc_UAs (dm_Allowlist dc)). trimSpace u = u"
    and "b \<in> set (vb_Bots (dm_VerifiedBots dc))" "bn \<in> set (bt_uasLower b)"
  shows "\<not> MatchUALower (dm_Allowlist dc) bn"
proof
  assume m: "MatchUALower (dm_Allowlist dc) bn"
  obtain al vb where v: "lc_Compile (dm_Allowlist dc0) = Inr al" "check_overlap (vb_Bots vb) (lc_UAs al) = Inr ()"
      "dm_Allowlist dc = al" "dm_VerifiedBots dc = vb"
    using assms(1) by (auto elim!: validate_domainE)
  then obtain u where u: "u \<in> set (lc_UAs al)" "contains_str bn (toLower (trimSpace u))"
    using m lc_Compile_sel [OF v(1)] by (auto simp: MatchUALower_def list_ex_iff)
  then have "overlaps b u" using assms(2,4) v(3) by (auto simp: overlaps_def Let_def list_ex_iff)
  then show False using check_overlap_ok [OF v(2)] assms(3) u(1) v(4) by auto
qed

section \<open>Witnesses\<close>

abbreviation no_selector :: geo_selector where
  "no_selector \<equiv> \<lparr>gs_Countries = [], gs_ASNs = [], gs_countries = [], gs_asns = []\<rparr>"

definition plain_domain :: domain_config where
  "plain_domain =
     \<lparr>dm_IPBehaviour = \<lparr>ib_Enabled = False, ib_BlockTTL = 0, ib_MaxBlockTTL = 0, ib_Thresholds = []\<rparr>,
      dm_Rules = \<lparr>rl_Enabled = True, rl_Files = [''a'', ''b''], rl_DisabledIDs = [''x''], rl_ruleKey = ''''\<rparr>,
      dm_Anomaly = \<lparr>an_Enabled = False, an_ObserveOnly = False, an_Model = '''', an_ChallengeAt = 0, an_DenyAt = 0\<rparr>,
      dm_Honeypot = \<lparr>hp_Enabled = False, hp_Paths = []\<rparr>,
      dm_PoW = \<lparr>pw_Enabled = False, pw_Algorithm = ''sha256'', pw_Mode = ''always'', pw_BaseDifficulty = 4, pw_MaxDifficulty = 5,
        pw_TokenTTL = second, pw_ChallengeTTL = second, pw_IssuanceRateLimit = \<lparr>rt_Count = 60, rt_Per = minute\<rparr>,
        pw_NoScriptRedemptionRateLimit = \<lparr>rt_Count = 60, rt_Per = minute\<rparr>, pw_NoScriptFallback = False,
        pw_Argon2ID = \<lparr>a2_MemoryKiB = 8192, a2_BaseIterations = 1, a2_MaxIterations = 2, a2_AttackIterationsCap = 3\<rparr>,
        pw_RefuseUnchallengeable = None, pw_HeaderExemptions = [], pw_headerExemptionKey = ''''\<rparr>,
      dm_Geo = \<lparr>ge_Enabled = False, ge_Deny = no_selector, ge_Challenge = no_selector, ge_Allow = no_selector, ge_DefaultAction = ''allow''\<rparr>,
      dm_Reputation = False, dm_Allowlist = no_list, dm_Denylist = no_list,
      dm_VerifiedBots = \<lparr>vb_Bots = [\<lparr>bt_Name = ''g'', bt_UAs = [''googlebot''], bt_Domains = [''googlebot.com''], bt_uasLower = [], bt_domainsLower = []\<rparr>],
        vb_DNSTimeout = 0, vb_CacheTTL = 0, vb_NegativeTTL = 0, vb_SpoofAction = ''deny''\<rparr>,
      dm_label = ''default''\<rparr>"

definition crawler_bots :: verified_bots_config where
  "crawler_bots = \<lparr>vb_Bots = [\<lparr>bt_Name = ''g'', bt_UAs = [''googlebot''], bt_Domains = [''googlebot.com''], bt_uasLower = [''googlebot''],
     bt_domainsLower = [''googlebot.com'']\<rparr>], vb_DNSTimeout = 0, vb_CacheTTL = 0, vb_NegativeTTL = 0, vb_SpoofAction = ''deny''\<rparr>"

definition ua_list :: "string list \<Rightarrow> string list \<Rightarrow> list_config" where
  "ua_list uas lowers = \<lparr>lc_IPs = [], lc_UAs = uas, lc_Paths = [], lc_prefixes = [], lc_uasLower = lowers\<rparr>"

lemma example_trims:
  "trimSpace ''googlebot'' = ''googlebot''" "trimSpace ''googlebot.com'' = ''googlebot.com''" "trimSpace ''a'' = ''a''" "trimSpace ''b'' = ''b''"
  "trimSpace ''x'' = ''x''" "trimSpace ''bot '' = ''bot''" "trimSpace ''curl'' = ''curl''"
  by (simp_all add: trimSpace_def trim_with_def is_space_def)

lemma example_lower:
  "toLower ''googlebot'' = ''googlebot''" "toLower ''googlebot.com'' = ''googlebot.com''" "toLower ''g'' = ''g''" "toLower ''bot '' = ''bot ''"
  "toLower ''bot'' = ''bot''"
  by (simp_all add: toLower_def ascii_lower_def)

lemma example_bots: "vb_compile (dm_VerifiedBots plain_domain) = Inr crawler_bots"
  by (simp add: vb_compile_def plain_domain_def compile_bot_def crawler_bots_def example_trims example_lower bot_domain_def
      trimSuffix_def suffix_def Let_def MaxStateTTL_def hour_def minute_def)

lemma quarter_int: "quarter_step (of_nat n)"
proof -
  have "\<lfloor>of_nat n * 4 + 1 / 2 :: rat\<rfloor> = int n * 4" by (rule floor_unique) simp_all
  then have "go_round (of_nat n * 4) = int n * 4" by (simp only: go_round_def) simp
  then show ?thesis by (simp add: quarter_step_def)
qed

lemma example_pow:
  "validate_pow json a ((dm_PoW plain_domain)\<lparr>pw_Enabled := on\<rparr>) = Inr (dm_PoW plain_domain\<lparr>pw_Enabled := on, pw_headerExemptionKey := json []\<rparr>)"
  using quarter_int [of 4] quarter_int [of 5]
  by (simp add: plain_domain_def validate_pow_def NormalizeAndValidate_def validate_argon_def minArgon2MemoryKiB_def maxArgon2MemoryKiB_def
      validate_mode_def validate_difficulty_def validate_ttl_def maxTokenTTL_def maxChallengeTTL_def second_def hour_def minute_def hx_VariantKey_def)

text \<open>The settings with a given allowlist, before and after validation.\<close>

definition bot_domain_cfg :: "list_config \<Rightarrow> domain_config" where
  "bot_domain_cfg l = plain_domain\<lparr>dm_Allowlist := l\<rparr>"

definition with_pow :: "bool \<Rightarrow> domain_config \<Rightarrow> domain_config" where
  "with_pow on dc = dc\<lparr>dm_PoW := (dm_PoW dc)\<lparr>pw_Enabled := on\<rparr>\<rparr>"

definition validated_cfg :: "list_config \<Rightarrow> domain_config" where
  "validated_cfg l = plain_domain\<lparr>dm_PoW := dm_PoW plain_domain\<lparr>pw_headerExemptionKey := ''''\<rparr>,
     dm_Rules := (dm_Rules plain_domain)\<lparr>rl_ruleKey := VariantKey id [''a'', ''b''] [''x'']\<rparr>,
     dm_Allowlist := l, dm_VerifiedBots := crawler_bots\<rparr>"

lemma example_validates_pow:
  assumes "lc_Compile l = Inr l'" "check_overlap (vb_Bots crawler_bots) (lc_UAs l') = Inr ()"
  shows "validate_domain (\<lambda>_. '''') id (with_pow on (bot_domain_cfg l)) = Inr (with_pow on (validated_cfg l'))"
proof -
  have r: "validate_rules id (dm_Rules plain_domain) = Inr ((dm_Rules plain_domain)\<lparr>rl_ruleKey := VariantKey id [''a'', ''b''] [''x'']\<rparr>)"
    by (simp add: validate_rules_def plain_domain_def example_trims)
  have g: "validate_geo (dm_Geo plain_domain) = Inr (dm_Geo plain_domain)"
    by (simp add: validate_geo_def plain_domain_def gs_compile_def selectors_disjoint_def disjoint_lists_def Let_def)
  have d: "lc_Compile (dm_Denylist plain_domain) = Inr (dm_Denylist plain_domain)"
    by (simp add: lc_Compile_def plain_domain_def)
  have o: "validate_behaviour (dm_IPBehaviour plain_domain) = Inr ()" "hp_Validate (dm_Honeypot plain_domain) = None"
      "\<not> an_Enabled (dm_Anomaly plain_domain)"
    by (simp_all add: validate_behaviour_def plain_domain_def hp_Validate_def MaxStateTTL_def hour_def minute_def)
  show ?thesis
    using assms r g d o example_bots
    by (simp add: validate_domain_def bot_domain_cfg_def example_pow fail_if_def validated_cfg_def with_pow_def)
qed

lemma example_validates:
  assumes "lc_Compile l = Inr l'" "check_overlap (vb_Bots crawler_bots) (lc_UAs l') = Inr ()"
  shows "validate_domain (\<lambda>_. '''') id (bot_domain_cfg l) = Inr (validated_cfg l')"
proof -
  have "with_pow False (bot_domain_cfg l) = bot_domain_cfg l" "with_pow False (validated_cfg l') = validated_cfg l'"
    by (simp_all add: with_pow_def bot_domain_cfg_def validated_cfg_def plain_domain_def)
  then show ?thesis using example_validates_pow [OF assms, of False] by simp
qed


theorem crawler_names_not_allowlisted_witness: "\<not> MatchUALower (ua_list [''curl''] [''curl'']) ''googlebot''"
proof -
  have l: "lc_Compile (ua_list [''curl''] []) = Inr (ua_list [''curl''] [''curl''])"
    by (simp add: lc_Compile_def ua_list_def example_trims example_lowers)
  have "check_overlap (vb_Bots crawler_bots) (lc_UAs (ua_list [''curl''] [''curl''])) = Inr ()"
    by (simp add: crawler_bots_def ua_list_def overlaps_def example_lowers contains_str_def Let_def sublist_code)
  from crawler_names_not_allowlisted [OF example_validates [OF l this]] show ?thesis
    by (simp add: validated_cfg_def crawler_bots_def ua_list_def example_trims plain_domain_def)
qed

text \<open>
  The overlap check compares allowlist entries as written, while matching trims them:
  an entry with a trailing blank passes validation beside a verified crawler and exempts every client
  that sends the crawler's name, with no verification.
\<close>

theorem blank_hides_crawler_overlap:
  "\<exists>dc0 dc b bn. validate_domain (\<lambda>_. '''') id dc0 = Inr dc \<and> b \<in> set (vb_Bots (dm_VerifiedBots dc)) \<and> bn \<in> set (bt_uasLower b) \<and>
     MatchAllowlist (sample_request\<lparr>ctx_UserAgent := bn\<rparr>) (dm_Allowlist dc) = ''allowlist:ua''"
proof -
  let ?l = "ua_list [''bot ''] [''bot'']"
  have l: "lc_Compile (ua_list [''bot ''] []) = Inr ?l" by (simp add: lc_Compile_def ua_list_def example_trims example_lower)
  have o: "check_overlap (vb_Bots crawler_bots) (lc_UAs ?l) = Inr ()"
    by (simp add: crawler_bots_def ua_list_def overlaps_def example_lower contains_str_def Let_def sublist_code)
  have "MatchAllowlist (sample_request\<lparr>ctx_UserAgent := ''googlebot''\<rparr>) ?l = ''allowlist:ua''"
    by (simp add: MatchAllowlist_def lc_MatchPath_def MatchPathList_def ua_list_def parsed_match_def MatchIP_def MatchUALower_def
        LowerUA_def example_lower contains_str_def sublist_code split: option.split)
  then show ?thesis
    using example_validates [OF l o] by (intro exI conjI) (auto simp: validated_cfg_def crawler_bots_def plain_domain_def)
qed

theorem threshold_round_trip_witness: "parse_threshold (format_threshold \<lparr>rt_Count = 20, rt_Per = minute\<rparr>) = Some \<lparr>rt_Count = 20, rt_Per = minute\<rparr>"
  by (rule threshold_round_trip [of "''20/min''"]) code_simp

definition one_overlay :: domain_scope where
  "one_overlay = \<lparr>ds_cfg = validated_cfg no_list, ds_overrides = [mk_override ''/admin/'' (validated_cfg no_list)]\<rparr>"

lemma example_no_list:
  "validate_domain (\<lambda>_. '''') id (bot_domain_cfg no_list) = Inr (validated_cfg no_list)"
  "validate_domain (\<lambda>_. '''') id (with_pow on (bot_domain_cfg no_list)) = Inr (with_pow on (validated_cfg no_list))"
proof -
  have l: "lc_Compile no_list = Inr no_list" "check_overlap (vb_Bots crawler_bots) (lc_UAs no_list) = Inr ()"
    by (simp_all add: lc_Compile_def crawler_bots_def)
  from example_validates [OF l] example_validates_pow [OF l]
  show "validate_domain (\<lambda>_. '''') id (bot_domain_cfg no_list) = Inr (validated_cfg no_list)"
    "validate_domain (\<lambda>_. '''') id (with_pow on (bot_domain_cfg no_list)) = Inr (with_pow on (validated_cfg no_list))" .
qed

theorem most_specific_overlay_witness:
  "(\<exists>o1 \<in> set (ds_overrides one_overlay). ForPath one_overlay (NormalizedPath sample_request) = po_cfg o1) \<or>
   ForPath one_overlay (NormalizedPath sample_request) = ds_cfg one_overlay"
proof -
  have "checkGeoRefs \<lparr>gi_LocationDB = '''', gi_ASNDB = ''''\<rparr> (validated_cfg no_list) = Inr ()"
    by (simp add: checkGeoRefs_def validated_cfg_def plain_domain_def)
  then have r: "resolvePaths (\<lambda>_. '''') id \<lparr>gi_LocationDB = '''', gi_ASNDB = ''''\<rparr> (\<lambda>_. Inr (bot_domain_cfg no_list)) [''/admin/''] (validated_cfg no_list) = Inr one_overlay"
    using example_no_list(1) by (simp add: resolvePaths_def one_overlay_def)
  have "NormalizePath ''/admin/'' = ''/admin/''" using example_entry_valid by (auto simp: ValidateMatchPath_def Let_def split: if_splits)
  then have "\<forall>k \<in> set [''/admin/'']. validatePathKey k = Inr ()" by (simp add: validatePathKey_def DecodePath_def)
  from most_specific_overlay [OF r this, of sample_request] show ?thesis by blast
qed

definition small_config :: config where
  "small_config = \<lparr>cf_Defaults = \<lparr>ds_cfg = validated_cfg no_list, ds_overrides = []\<rparr>, cf_resolved = [], cf_SigningKeyFile = '''',
     cf_GeoIP = \<lparr>gi_LocationDB = '''', gi_ASNDB = ''''\<rparr>, cf_Feeds = [], cf_AttackEnabled = False, cf_AttackCapBits = 28, cf_ScoreboardFactor = 1\<rparr>"

theorem scope_rules_served_witness:
  "\<exists>rc rs. NewRuleCacheVariants example_rx example_decode id moved_read (RuleVariants small_config) = Inr rc \<and>
     rc_Get (rl_ruleKey (dm_Rules (scopeForRequest small_config sample_request))) rc = Some rs"
proof -
  have e: "eachScope small_config = [(''defaults'', '''', validated_cfg no_list)]"
    by (simp add: eachScope_def scope_entries_def small_config_def)
  have v: "RuleVariants small_config = [\<lparr>vs_Paths = [''a'', ''b''], vs_DisabledIDs = [''x''], vs_Scopes = [''defaults'']\<rparr>]"
    by (simp add: RuleVariants_def e add_variant_def validated_cfg_def plain_domain_def)
  have n: "\<exists>rc. NewRuleCacheVariants example_rx example_decode id moved_read (RuleVariants small_config) = Inr rc"
    by (simp add: v NewRuleCacheVariants_def Let_def spec_files_def add_unique_def loadSource_def moved_read_def example_trims
        example_files rv_build_def combineRuleSets_def file_set_def full_set_def empty_rules_def rs_filter_def rebuildHints_def example_rule_def)
  then obtain rc where rc: "NewRuleCacheVariants example_rx example_decode id moved_read (RuleVariants small_config) = Inr rc" by blast
  have "validateFeatureDependencies small_config = Inr ()"
    by (simp add: validateFeatureDependencies_def first_error_def e dependency_error_def validated_cfg_def plain_domain_def)
  moreover have "keys_distinguish id small_config" by (simp add: keys_distinguish_def e)
  moreover have "\<forall>(_, _, d) \<in> set (eachScope small_config). \<exists>d0. validate_domain (\<lambda>_. '''') id d0 = Inr d"
    using example_no_list(1) by (auto simp: e)
  moreover have "rl_Enabled (dm_Rules (scopeForRequest small_config sample_request))"
    by (simp add: scopeForRequest_def DomainFor_def ForPath_def small_config_def validated_cfg_def plain_domain_def)
  ultimately show ?thesis using scope_rules_served [of small_config "\<lambda>_. ''''" id example_rx example_decode moved_read rc rc "[]"] rc by fastforce
qed

end
