(* ===== verification/Pow_Keys.thy ===== *)
theory Pow_Keys
  imports Challenge_Record Counter_Cache Netip
begin

text \<open>
  The state of the proof-of-work manager and its keys: the verified-token cache
  (\<^verbatim>\<open>core/pow/tokencache.go\<close>), the key archive (\<^verbatim>\<open>core/pow/key.go\<close>), and the parts of
  \<^verbatim>\<open>core/pow/challenge.go\<close> that install, refresh and reload the key set.

  Cryptography and the JWT and JSON libraries are parameters, gathered in \<open>pow_env\<close>; \<open>'k\<close> is the
  type of signing keys. The key files are the value \<open>disk\<close>, what the process would read at the time
  of a call: a peer's rotation is a different \<open>disk\<close> in the next call. One clock reading serves a
  call. The coalescing of concurrent routine refreshes is not modelled: a refresh is one step.
\<close>

section \<open>The token cache\<close>

type_synonym token_cache = "(bytes, nanos) gomap"

definition maxCacheEntries :: nat where "maxCacheEntries = 2 ^ 17"
definition cacheMaxValidity :: nanos where "cacheMaxValidity = 15 * minute"

definition newTokenCache :: token_cache where "newTokenCache = []"

definition tc_get :: "bytes \<Rightarrow> nanos \<Rightarrow> token_cache \<Rightarrow> bool" where
  "tc_get key now c = (case map_of c key of None \<Rightarrow> False | Some exp \<Rightarrow> now < exp)"

definition tc_reset :: "token_cache \<Rightarrow> token_cache" where "tc_reset c = []"

definition tc_put :: "bytes \<Rightarrow> nanos \<Rightarrow> nanos \<Rightarrow> token_cache \<Rightarrow> token_cache" where
  "tc_put key tokenExpiry now c =
     (let exp0 = now + cacheMaxValidity; exp = (if tokenExpiry < exp0 then tokenExpiry else exp0);
          c1 = (if length c \<ge> maxCacheEntries then [] else c)
      in mput key exp c1)"

definition tc_claim :: "bytes \<Rightarrow> nanos \<Rightarrow> nanos \<Rightarrow> token_cache \<Rightarrow> bool \<times> token_cache" where
  "tc_claim key exp now c =
     (if tc_get key now c then (False, c)
      else let c1 = (if length c \<ge> maxCacheEntries then [] else c) in (True, mput key exp c1))"

section \<open>Parameters\<close>

record token_claims =
  tk_Host :: string
  tk_ChallengeID :: string
  tk_Difficulty :: int
  tk_Algorithm :: string
  tk_MemoryKiB :: "32 word"
  tk_Iterations :: "32 word"
  tk_Subject :: string
  tk_IssuedAt :: "nanos option"
  tk_NotBefore :: "nanos option"
  tk_ExpiresAt :: "nanos option"

datatype jwt_error = JwtExpired | JwtOther

record stateless_payload =
  sp_V :: int
  sp_Host :: string
  sp_IP :: string
  sp_Bits :: int
  sp_URI :: string
  sp_NoJS :: int
  sp_TS :: int
  sp_Rand :: string
  sp_Alg :: string
  sp_Mem :: "32 word"
  sp_Iter :: "32 word"
  sp_Salt :: string

datatype key_error = KeyLock | KeyRead | KeyParse | ArchiveRead | NoKeyFiles | SignFailed

record 'k pow_env =
  env_sha256 :: "bytes \<Rightarrow> bytes"
  env_hmac :: "bytes \<Rightarrow> bytes \<Rightarrow> bytes"
  env_idkey :: idkey
  env_seed :: "'k \<Rightarrow> bytes"
  env_public :: "'k \<Rightarrow> bytes"
  env_jwt_sign :: "'k \<Rightarrow> token_claims \<Rightarrow> key_error + string"
  env_jwt_parse :: "'k \<Rightarrow> nanos \<Rightarrow> string \<Rightarrow> jwt_error + token_claims"
  env_numericDate :: "nanos \<Rightarrow> nanos"
  env_marshal :: "stateless_payload \<Rightarrow> bytes option"
  env_unmarshal :: "bytes \<Rightarrow> stateless_payload option"

section \<open>The key files\<close>

record 'k archive_file =
  af_name :: string
  af_isDir :: bool
  af_modTime :: "nanos option"
  af_key :: "key_error + 'k"

record 'k disk =
  dk_lock :: bool
  dk_key :: "key_error + 'k"
  dk_dir :: "key_error + 'k archive_file list option"

definition maxAcceptedTokenLifetime :: nanos where "maxAcceptedTokenLifetime = 30 * 24 * hour"

definition retirementTimeFromName :: "string \<Rightarrow> nanos option" where
  "retirementTimeFromName name =
     (if CHR ''-'' \<notin> set name then None
      else case parse_int64 (before_byte (CHR ''-'') name) of
             None \<Rightarrow> None
           | Some unix \<Rightarrow> if unix \<le> 0 then None else Some (unix * 10 ^ 9))"

definition archive_time :: "'k archive_file \<Rightarrow> nanos option" where
  "archive_time f = (case retirementTimeFromName (af_name f) of Some t \<Rightarrow> Some t | None \<Rightarrow> af_modTime f)"

definition past_horizon :: "nanos option \<Rightarrow> nanos \<Rightarrow> bool" where
  "past_horizon retiredAt now = (case retiredAt of None \<Rightarrow> False | Some t \<Rightarrow> now > t + maxAcceptedTokenLifetime)"

definition later :: "nanos option \<Rightarrow> nanos option \<Rightarrow> bool" where
  "later a b = (case a of None \<Rightarrow> False | Some x \<Rightarrow> (case b of None \<Rightarrow> True | Some y \<Rightarrow> x > y))"

fun merge_retired :: "'k pow_env \<Rightarrow> 'k \<Rightarrow> nanos option \<Rightarrow> ('k \<times> nanos option) list \<Rightarrow> ('k \<times> nanos option) list" where
  "merge_retired env k t [] = [(k, t)]"
| "merge_retired env k t ((k', t') # ks) =
     (if env_sha256 env (env_public env k') = env_sha256 env (env_public env k)
      then (k', if later t t' then t else t') # ks
      else (k', t') # merge_retired env k t ks)"

fun load_archive ::
  "'k pow_env \<Rightarrow> nanos \<Rightarrow> 'k archive_file list \<Rightarrow> ('k \<times> nanos option) list \<Rightarrow> key_error + ('k \<times> nanos option) list" where
  "load_archive env now [] keys = Inr keys"
| "load_archive env now (f # fs) keys =
     (let retiredAt = archive_time f
      in if past_horizon retiredAt now then load_archive env now fs keys
         else case af_key f of
                Inl e \<Rightarrow> Inl e
              | Inr k \<Rightarrow> load_archive env now fs (merge_retired env k retiredAt keys))"

text \<open>
  The directory listing of the library is sorted by name, and the code sorts the names again: the
  archive is read in name order. A missing directory is \<^term>\<open>Inr None\<close>.
\<close>

definition loadRetiredKeysAt :: "'k pow_env \<Rightarrow> 'k disk \<Rightarrow> nanos \<Rightarrow> key_error + ('k \<times> nanos option) list" where
  "loadRetiredKeysAt env disk now =
     (case dk_dir disk of
        Inl e \<Rightarrow> Inl e
      | Inr None \<Rightarrow> Inr []
      | Inr (Some files) \<Rightarrow>
          load_archive env now
            (sort_key af_name (filter (\<lambda>f. \<not> af_isDir f \<and> hasSuffix (af_name f) ''.key'') files)) [])"

definition loadKeySetSnapshot ::
  "'k pow_env \<Rightarrow> 'k disk \<Rightarrow> nanos \<Rightarrow> key_error + ('k \<times> ('k \<times> nanos option) list)" where
  "loadKeySetSnapshot env disk now =
     (if \<not> dk_lock disk then Inl KeyLock
      else gobind (dk_key disk) (\<lambda>current. gobind (loadRetiredKeysAt env disk now) (\<lambda>previous. Inr (current, previous))))"

section \<open>The manager\<close>

record 'k pow_manager =
  pm_keys :: "('k \<times> nanos option) list"
  pm_hmacSecret :: bytes
  pm_hmacSecrets :: "bytes list"
  pm_cache :: token_cache
  pm_spent :: token_cache
  pm_counters :: counter_cache
  pm_keyPath :: string
  pm_lastRefresh :: "nanos option"
  pm_lastRefreshErr :: "key_error option"
  pm_lastFailureRefresh :: "nanos option"
  pm_lastFailureErr :: "key_error option"
  pm_fileBacked :: bool
  pm_routineRefreshUntil :: nanos
  pm_routineRefreshFailed :: "key_error option"
  pm_NoJSMinDelay :: nanos

definition keyRefreshInterval :: nanos where "keyRefreshInterval = 250 * 10 ^ 6"

definition deriveHMACSecrets :: "'k pow_env \<Rightarrow> ('k \<times> nanos option) list \<Rightarrow> bytes list" where
  "deriveHMACSecrets env keys = map (\<lambda>k. env_sha256 env (''guardian-hmac-v1'' @ [CHR 0x00] @ env_seed env (fst k))) keys"

definition newManagerWithRetiredKeys :: "'k pow_env \<Rightarrow> 'k \<Rightarrow> ('k \<times> nanos option) list \<Rightarrow> 'k pow_manager" where
  "newManagerWithRetiredKeys env current previous =
     (let keys = (current, None) # previous; secrets = deriveHMACSecrets env keys
      in \<lparr>pm_keys = keys, pm_hmacSecret = hd secrets, pm_hmacSecrets = secrets,
          pm_cache = newTokenCache, pm_spent = newTokenCache, pm_counters = NewCounterCache,
          pm_keyPath = '''', pm_lastRefresh = None, pm_lastRefreshErr = None,
          pm_lastFailureRefresh = None, pm_lastFailureErr = None, pm_fileBacked = False,
          pm_routineRefreshUntil = 0, pm_routineRefreshFailed = None, pm_NoJSMinDelay = 5 * 10 ^ 9\<rparr>)"

definition NewManagerWithKeys :: "'k pow_env \<Rightarrow> nanos \<Rightarrow> 'k \<Rightarrow> 'k list \<Rightarrow> 'k pow_manager" where
  "NewManagerWithKeys env now current previous =
     newManagerWithRetiredKeys env current (map (\<lambda>k. (k, Some now)) previous)"

definition NewManagerFromFiles :: "'k pow_env \<Rightarrow> nanos \<Rightarrow> string \<Rightarrow> 'k disk \<Rightarrow> key_error + 'k pow_manager" where
  "NewManagerFromFiles env now keyPath disk =
     gobind (dk_key disk) (\<lambda>_.
     gobind (loadKeySetSnapshot env disk now) (\<lambda>(key, previous).
       Inr ((newManagerWithRetiredKeys env key previous)\<lparr>pm_keyPath := keyPath, pm_lastRefresh := Some now,
              pm_fileBacked := True, pm_routineRefreshUntil := now + keyRefreshInterval\<rparr>)))"

definition setRetiredKeys :: "'k pow_env \<Rightarrow> 'k \<Rightarrow> ('k \<times> nanos option) list \<Rightarrow> 'k pow_manager \<Rightarrow> 'k pow_manager" where
  "setRetiredKeys env current previous m =
     (let keys = (current, None) # previous; secrets = deriveHMACSecrets env keys
      in m\<lparr>pm_keys := keys, pm_hmacSecret := hd secrets, pm_hmacSecrets := secrets,
           pm_cache := tc_reset (pm_cache m)\<rparr>)"

definition SetKeys :: "'k pow_env \<Rightarrow> nanos \<Rightarrow> 'k \<Rightarrow> 'k list \<Rightarrow> 'k pow_manager \<Rightarrow> 'k pow_manager" where
  "SetKeys env now current previous m = setRetiredKeys env current (map (\<lambda>k. (k, Some now)) previous) m"

definition keySetMatches :: "'k \<Rightarrow> ('k \<times> nanos option) list \<Rightarrow> 'k pow_manager \<Rightarrow> bool" where
  "keySetMatches current previous m \<longleftrightarrow>
     length (pm_keys m) = 1 + length previous \<and> fst (pm_keys m ! 0) = current \<and>
     (\<forall>i < length previous. pm_keys m ! (i + 1) = previous ! i)"

definition signingKey :: "'k pow_manager \<Rightarrow> 'k" where
  "signingKey m = fst (pm_keys m ! 0)"

definition rememberRoutineRefresh :: "nanos \<Rightarrow> key_error option \<Rightarrow> 'k pow_manager \<Rightarrow> 'k pow_manager" where
  "rememberRoutineRefresh now err m =
     m\<lparr>pm_routineRefreshFailed := err, pm_routineRefreshUntil := now + keyRefreshInterval\<rparr>"

definition reloadKeysLocked :: "'k pow_env \<Rightarrow> 'k disk \<Rightarrow> nanos \<Rightarrow> 'k pow_manager \<Rightarrow> key_error option \<times> 'k pow_manager" where
  "reloadKeysLocked env disk now m =
     (case loadKeySetSnapshot env disk now of
        Inl e \<Rightarrow> (Some e, m)
      | Inr (current, previous) \<Rightarrow>
          let m1 = (if keySetMatches current previous m then m else setRetiredKeys env current previous m)
          in (None, m1\<lparr>pm_lastRefresh := Some now, pm_lastRefreshErr := None, pm_lastFailureErr := None,
                      pm_routineRefreshFailed := None, pm_routineRefreshUntil := now + keyRefreshInterval\<rparr>))"

definition ReloadKeys :: "'k pow_env \<Rightarrow> 'k disk \<Rightarrow> nanos \<Rightarrow> 'k pow_manager \<Rightarrow> key_error option \<times> 'k pow_manager" where
  "ReloadKeys env disk now m =
     (if pm_keyPath m = '''' then (Some NoKeyFiles, m)
      else let (err, m1) = reloadKeysLocked env disk now m
           in (err, if err \<noteq> None then rememberRoutineRefresh now err m1 else m1))"

text \<open>
  Rotation itself rewrites the files; \<open>disk\<close> is their state after it, or \<open>rerr\<close> its failure.
\<close>

definition Rotate ::
  "'k pow_env \<Rightarrow> key_error option \<Rightarrow> 'k disk \<Rightarrow> nanos \<Rightarrow> string \<Rightarrow> 'k pow_manager \<Rightarrow> key_error option \<times> 'k pow_manager" where
  "Rotate env rerr disk now keyPath m =
     (if rerr \<noteq> None then (rerr, m)
      else let (err, m1) = reloadKeysLocked env disk now (m\<lparr>pm_keyPath := keyPath, pm_fileBacked := True\<rparr>)
           in (err, if err \<noteq> None then rememberRoutineRefresh now err m1 else m1))"

definition within_interval :: "nanos option \<Rightarrow> nanos \<Rightarrow> bool" where
  "within_interval since now = (case since of None \<Rightarrow> False | Some t \<Rightarrow> now - t < keyRefreshInterval)"

definition refresh_now ::
  "'k pow_env \<Rightarrow> 'k disk \<Rightarrow> nanos \<Rightarrow> bool \<Rightarrow> 'k pow_manager \<Rightarrow> (key_error + bool) \<times> 'k pow_manager" where
  "refresh_now env disk now afterFailure m =
     (case reloadKeysLocked env disk now m of
        (None, m1) \<Rightarrow> (Inr True, m1)
      | (Some e, m1) \<Rightarrow>
          let m2 = (if afterFailure then m1\<lparr>pm_lastFailureErr := Some e\<rparr> else m1\<lparr>pm_lastRefreshErr := Some e\<rparr>)
          in (Inl e, rememberRoutineRefresh now (Some e) m2))"

definition throttled :: "key_error option \<Rightarrow> 'k pow_manager \<Rightarrow> (key_error + bool) \<times> 'k pow_manager" where
  "throttled err m = (case err of None \<Rightarrow> (Inr False, m) | Some e \<Rightarrow> (Inl e, m))"

definition refreshKeys ::
  "'k pow_env \<Rightarrow> 'k disk \<Rightarrow> nanos \<Rightarrow> bool \<Rightarrow> 'k pow_manager \<Rightarrow> (key_error + bool) \<times> 'k pow_manager" where
  "refreshKeys env disk now afterFailure m =
     (if pm_keyPath m = '''' then (Inr False, m)
      else if afterFailure then
        (if within_interval (pm_lastFailureRefresh m) now then throttled (pm_lastFailureErr m) m
         else refresh_now env disk now True (m\<lparr>pm_lastFailureRefresh := Some now\<rparr>))
      else
        (if within_interval (pm_lastRefresh m) now
         then throttled (pm_lastRefreshErr m) (rememberRoutineRefresh now (pm_lastRefreshErr m) m)
         else refresh_now env disk now False (m\<lparr>pm_lastRefresh := Some now\<rparr>)))"

definition refreshKeysBeforeTokenAccept ::
  "'k pow_env \<Rightarrow> 'k disk \<Rightarrow> nanos \<Rightarrow> 'k pow_manager \<Rightarrow> key_error option \<times> 'k pow_manager" where
  "refreshKeysBeforeTokenAccept env disk now m =
     (if \<not> pm_fileBacked m then (None, m)
      else if now < pm_routineRefreshUntil m then (pm_routineRefreshFailed m, m)
      else case refreshKeys env disk now False m of
             (Inl e, m1) \<Rightarrow> (Some e, m1) | (Inr _, m1) \<Rightarrow> (None, m1))"

end
