(* ===== verification/Pow_Tokens.thy ===== *)
theory Pow_Tokens
  imports Pow_Keys
begin

text \<open>
  The bearer tokens a solved challenge earns (\<^verbatim>\<open>core/pow/jwt.go\<close>): minting, the choice of the live
  verification keys, the checks of one verification and the cached verification of the request path.
  What the JWT library promises of \<open>env_jwt_parse\<close> is stated where a theorem needs it: a parsed
  token was valid at the time of the call. Host comparison is the ASCII case folding.
\<close>

section \<open>Minting\<close>

definition EqualFold :: "string \<Rightarrow> string \<Rightarrow> bool" where
  "EqualFold a b \<longleftrightarrow> toLower a = toLower b"

definition Fingerprint :: "'k pow_env \<Rightarrow> string \<Rightarrow> string \<Rightarrow> string" where
  "Fingerprint env ip userAgent = hex_encode (take 16 (env_sha256 env (ip @ [CHR 0x00] @ userAgent)))"

definition mint_claims :: "'k pow_env \<Rightarrow> nanos \<Rightarrow> string \<Rightarrow> string \<Rightarrow> string \<Rightarrow> proof_spec \<Rightarrow> nanos \<Rightarrow> token_claims" where
  "mint_claims env now host fingerprint challengeID spec ttl =
     \<lparr>tk_Host = toLower host, tk_ChallengeID = challengeID, tk_Difficulty = ps_Difficulty spec,
      tk_Algorithm = spec_algorithm spec, tk_MemoryKiB = ps_MemoryKiB spec, tk_Iterations = ps_Iterations spec,
      tk_Subject = fingerprint, tk_IssuedAt = Some (env_numericDate env now), tk_NotBefore = Some (env_numericDate env now),
      tk_ExpiresAt = Some (env_numericDate env (now + ttl))\<rparr>"

definition signToken ::
  "'k pow_env \<Rightarrow> 'k disk \<Rightarrow> nanos \<Rightarrow> token_claims \<Rightarrow> 'k pow_manager \<Rightarrow> (key_error + string) \<times> 'k pow_manager" where
  "signToken env disk now claims m =
     (if pm_keyPath m = '''' then (env_jwt_sign env (signingKey m) claims, m)
      else if \<not> dk_lock disk then (Inl KeyLock, m)
      else case dk_key disk of
             Inl e \<Rightarrow> (Inl e, m)
           | Inr current \<Rightarrow>
               if signingKey m \<noteq> current then
                 (case loadRetiredKeysAt env disk now of
                    Inl e \<Rightarrow> (Inl e, m)
                  | Inr previous \<Rightarrow> (env_jwt_sign env current claims, setRetiredKeys env current previous m))
               else (env_jwt_sign env current claims, m))"

definition mintTokenWithSpec ::
  "'k pow_env \<Rightarrow> 'k disk \<Rightarrow> nanos \<Rightarrow> string \<Rightarrow> string \<Rightarrow> string \<Rightarrow> proof_spec \<Rightarrow> nanos \<Rightarrow> 'k pow_manager \<Rightarrow>
     (key_error + string) \<times> 'k pow_manager" where
  "mintTokenWithSpec env disk now host fingerprint challengeID spec ttl m =
     signToken env disk now (mint_claims env now host fingerprint challengeID spec ttl) m"

section \<open>Verification\<close>

datatype token_error = ErrTokenInvalid | ErrTokenExpired | ErrTokenBinding | ErrTokenUnderDifficulty | ErrKeyRefresh key_error

definition verificationKeys :: "nanos \<Rightarrow> 'k pow_manager \<Rightarrow> ('k \<times> nanos option) list" where
  "verificationKeys now m = filter (\<lambda>k. \<not> past_horizon (snd k) now) (pm_keys m)"

definition algorithm_ok :: "token_claims \<Rightarrow> bool" where
  "algorithm_ok c =
     (if tk_Algorithm c = '''' \<or> tk_Algorithm c = AlgorithmSHA256 then \<not> (tk_Difficulty c < 0 \<or> tk_Difficulty c > 32)
      else if tk_Algorithm c = AlgorithmArgon2ID
      then spec_validate \<lparr>ps_Algorithm = AlgorithmArgon2ID, ps_Difficulty = 0, ps_MemoryKiB = tk_MemoryKiB c,
             ps_Iterations = tk_Iterations c, ps_Salt = zero_salt\<rparr> = Inr ()
      else False)"

definition check_claims ::
  "'k pow_env \<Rightarrow> nanos option \<Rightarrow> string \<Rightarrow> string \<Rightarrow> string \<Rightarrow> token_claims \<Rightarrow> token_error + token_claims" where
  "check_claims env retiredAt host ip userAgent c =
     (case (tk_IssuedAt c, tk_ExpiresAt c) of
        (Some iat, Some exp) \<Rightarrow>
          if \<not> algorithm_ok c then Inl ErrTokenInvalid
          else if \<not> exp > iat \<or> exp - iat > maxAcceptedTokenLifetime then Inl ErrTokenInvalid
          else if (case retiredAt of None \<Rightarrow> False
                   | Some r \<Rightarrow> iat > r \<or> exp > r + maxAcceptedTokenLifetime) then Inl ErrTokenInvalid
          else if \<not> EqualFold (tk_Host c) host then Inl ErrTokenBinding
          else if tk_Subject c \<noteq> Fingerprint env ip userAgent then Inl ErrTokenBinding
          else Inr c
      | _ \<Rightarrow> Inl ErrTokenInvalid)"

fun try_keys ::
  "'k pow_env \<Rightarrow> nanos \<Rightarrow> string \<Rightarrow> string \<Rightarrow> string \<Rightarrow> string \<Rightarrow> ('k \<times> nanos option) list \<Rightarrow> jwt_error list \<Rightarrow>
     token_error + token_claims" where
  "try_keys env now token host ip userAgent [] errs =
     (if errs = [] then Inl ErrTokenInvalid
      else if JwtExpired \<in> set errs then Inl ErrTokenExpired else Inl ErrTokenInvalid)"
| "try_keys env now token host ip userAgent (k # ks) errs =
     (case env_jwt_parse env (fst k) now token of
        Inl e \<Rightarrow> try_keys env now token host ip userAgent ks (errs @ [e])
      | Inr claims \<Rightarrow> check_claims env (snd k) host ip userAgent claims)"

definition verifyTokenOnce ::
  "'k pow_env \<Rightarrow> nanos \<Rightarrow> string \<Rightarrow> string \<Rightarrow> string \<Rightarrow> string \<Rightarrow> 'k pow_manager \<Rightarrow> token_error + token_claims" where
  "verifyTokenOnce env now token host ip userAgent m =
     try_keys env now token host ip userAgent (verificationKeys now m) []"

definition cache_key_bytes :: "string \<Rightarrow> string \<Rightarrow> string \<Rightarrow> string \<Rightarrow> int \<Rightarrow> nanos \<Rightarrow> bytes" where
  "cache_key_bytes token host ip userAgent minBits maxAge =
     token @ [CHR 0x00] @ toLower host @ [CHR 0x00] @ ip @ [CHR 0x00] @ userAgent @ [CHR 0x00] @
     format_int minBits @ [CHR 0x00] @ format_int maxAge"

definition tokenCacheKey :: "'k pow_env \<Rightarrow> string \<Rightarrow> string \<Rightarrow> string \<Rightarrow> string \<Rightarrow> int \<Rightarrow> nanos \<Rightarrow> bytes" where
  "tokenCacheKey env token host ip userAgent minBits maxAge =
     env_sha256 env (cache_key_bytes token host ip userAgent minBits maxAge)"

text \<open>The expiry that counts for a path: its own, or the issue time plus the path's shorter lifetime.\<close>

definition effective_expiry :: "token_claims \<Rightarrow> nanos \<Rightarrow> nanos" where
  "effective_expiry c maxAge =
     (let exp = the (tk_ExpiresAt c)
      in if maxAge > 0 \<and> the (tk_IssuedAt c) + maxAge < exp then the (tk_IssuedAt c) + maxAge else exp)"

definition accept_claims ::
  "nanos \<Rightarrow> int \<Rightarrow> nanos \<Rightarrow> token_claims \<Rightarrow> token_error + nanos" where
  "accept_claims now minBits maxAge c =
     (if tk_Algorithm c \<noteq> AlgorithmArgon2ID \<and> tk_Difficulty c < minBits then Inl ErrTokenUnderDifficulty
      else if maxAge > 0 \<and> \<not> now < effective_expiry c maxAge then Inl ErrTokenExpired
      else Inr (effective_expiry c maxAge))"

definition verify_with_retry ::
  "'k pow_env \<Rightarrow> 'k disk \<Rightarrow> nanos \<Rightarrow> string \<Rightarrow> string \<Rightarrow> string \<Rightarrow> string \<Rightarrow> 'k pow_manager \<Rightarrow>
     (token_error + token_claims) \<times> 'k pow_manager" where
  "verify_with_retry env disk now token host ip userAgent m =
     (case verifyTokenOnce env now token host ip userAgent m of
        Inr c \<Rightarrow> (Inr c, m)
      | Inl err \<Rightarrow>
          (case refreshKeys env disk now True m of
             (Inl e, m1) \<Rightarrow> (Inl (ErrKeyRefresh e), m1)
           | (Inr refreshed, m1) \<Rightarrow>
               (if refreshed then verifyTokenOnce env now token host ip userAgent m1 else Inl err, m1)))"

definition VerifyToken ::
  "'k pow_env \<Rightarrow> 'k disk \<Rightarrow> nanos \<Rightarrow> string \<Rightarrow> string \<Rightarrow> string \<Rightarrow> string \<Rightarrow> int \<Rightarrow> nanos \<Rightarrow> 'k pow_manager \<Rightarrow>
     token_error option \<times> 'k pow_manager" where
  "VerifyToken env disk now token host ip userAgent minBits maxAge m =
     (case refreshKeysBeforeTokenAccept env disk now m of
        (Some e, m1) \<Rightarrow> (Some (ErrKeyRefresh e), m1)
      | (None, m1) \<Rightarrow>
          let cacheKey = tokenCacheKey env token host ip userAgent minBits maxAge
          in if tc_get cacheKey now (pm_cache m1) then (None, m1)
             else case verify_with_retry env disk now token host ip userAgent m1 of
                    (Inl err, m2) \<Rightarrow> (Some err, m2)
                  | (Inr claims, m2) \<Rightarrow>
                      (case accept_claims now minBits maxAge claims of
                         Inl err \<Rightarrow> (Some err, m2)
                       | Inr exp \<Rightarrow> (None, m2\<lparr>pm_cache := tc_put cacheKey exp now (pm_cache m2)\<rparr>)))"

section \<open>The cache key determines the request\<close>

definition nul_free :: "string \<Rightarrow> bool" where "nul_free s \<longleftrightarrow> CHR 0x00 \<notin> set s"

lemma nul_split:
  "nul_free a \<Longrightarrow> nul_free b \<Longrightarrow> a @ [CHR 0x00] @ x = b @ [CHR 0x00] @ y \<longleftrightarrow> a = b \<and> x = y"
proof (induction a arbitrary: b)
  case Nil
  then show ?case by (cases b) (auto simp: nul_free_def)
next
  case (Cons c a)
  then show ?case by (cases b) (auto simp: nul_free_def)
qed

lemma nul_free_toLower [simp]: "nul_free (toLower s) \<longleftrightarrow> nul_free s"
proof -
  have "ascii_lower c = CHR 0x00 \<longleftrightarrow> c = CHR 0x00" for c
  proof (cases "65 \<le> (of_char c :: nat) \<and> (of_char c :: nat) \<le> 90")
    case True
    then have "(of_char (ascii_lower c) :: nat) \<noteq> 0" by (simp add: ascii_lower_def)
    moreover have "(of_char c :: nat) \<noteq> 0" using True by simp
    ultimately show ?thesis by auto
  qed (auto simp: ascii_lower_def)
  then show ?thesis unfolding nul_free_def toLower_def set_map image_iff by metis
qed

lemma nul_free_fmt: "nul_free (fmt_uint 10 n)"
proof (induction n rule: less_induct)
  case (less n)
  have d: "digit_char d \<noteq> CHR 0x00" if "d < 10" for d
  proof
    assume "digit_char d = CHR 0x00"
    then have "(of_char (digit_char d) :: nat) = 0" by simp
    then show False using of_char_digit_char [OF that] by simp
  qed
  show ?case
  proof (cases "n < 10")
    case True
    then show ?thesis using d by (subst fmt_uint.simps) (simp add: nul_free_def eq_commute [of "CHR 0x00"])
  next
    case False
    then have "nul_free (fmt_uint 10 (n div 10))" by (intro less) simp
    then show ?thesis
      using False d [of "n mod 10"] by (subst fmt_uint.simps) (auto simp: nul_free_def eq_commute [of "CHR 0x00"])
  qed
qed

lemma nul_free_format_int [simp]: "nul_free (format_int i)"
  using nul_free_fmt by (auto simp: format_int_def nul_free_def)

lemma cache_key_bytes_inj:
  assumes "cache_key_bytes t h i u b a = cache_key_bytes t' h' i' u' b' a'"
    and "nul_free t" "nul_free h" "nul_free i" "nul_free u" "nul_free t'" "nul_free h'" "nul_free i'" "nul_free u'"
  shows "t = t' \<and> toLower h = toLower h' \<and> i = i' \<and> u = u' \<and> b = b' \<and> a = a'"
  using assms by (auto simp: cache_key_bytes_def nul_split dest: format_int_inj simp del: append.simps append_Cons)

section \<open>What a cached verdict stands for\<close>

text \<open>
  \<open>vouched env m t0 \<dots> c\<close>: the claims \<open>c\<close> were read from the token at \<open>t0\<close> under a key of the
  installed set and passed every check for this host, client and path policy.
\<close>

definition vouched ::
  "'k pow_env \<Rightarrow> ('k \<times> nanos option) list \<Rightarrow> nanos \<Rightarrow> string \<Rightarrow> string \<Rightarrow> string \<Rightarrow> string \<Rightarrow> int \<Rightarrow> nanos \<Rightarrow> token_claims \<Rightarrow> bool" where
  "vouched env keys t0 token host ip userAgent minBits maxAge c \<longleftrightarrow>
     (\<exists>k \<in> set keys. env_jwt_parse env (fst k) t0 token = Inr c \<and>
        check_claims env (snd k) host ip userAgent c = Inr c \<and>
        accept_claims t0 minBits maxAge c = Inr (effective_expiry c maxAge))"

definition entry_sound :: "'k pow_env \<Rightarrow> ('k \<times> nanos option) list \<Rightarrow> bytes \<Rightarrow> nanos \<Rightarrow> bool" where
  "entry_sound env keys key exp \<longleftrightarrow>
     (\<exists>t0 token host ip userAgent minBits maxAge c.
        nul_free token \<and> nul_free host \<and> nul_free ip \<and> nul_free userAgent \<and>
        key = tokenCacheKey env token host ip userAgent minBits maxAge \<and>
        vouched env keys t0 token host ip userAgent minBits maxAge c \<and> exp \<le> effective_expiry c maxAge)"

definition cache_sound :: "'k pow_env \<Rightarrow> 'k pow_manager \<Rightarrow> bool" where
  "cache_sound env m \<longleftrightarrow> (\<forall>key exp. map_of (pm_cache m) key = Some exp \<longrightarrow> entry_sound env (pm_keys m) key exp)"

lemma check_claims_same: "check_claims env r host ip ua c = Inr c' \<Longrightarrow> c' = c"
  by (auto simp: check_claims_def split: option.splits if_splits)

lemma try_keys_sound:
  "try_keys env now token host ip ua ks errs = Inr c \<Longrightarrow>
     \<exists>k \<in> set ks. env_jwt_parse env (fst k) now token = Inr c \<and> check_claims env (snd k) host ip ua c = Inr c"
proof (induction ks arbitrary: errs)
  case (Cons k ks)
  show ?case
  proof (cases "env_jwt_parse env (fst k) now token")
    case (Inl e)
    then show ?thesis using Cons by auto
  next
    case (Inr c1)
    then have "check_claims env (snd k) host ip ua c1 = Inr c" using Cons.prems by simp
    moreover have "c = c1" using check_claims_same calculation by blast
    ultimately show ?thesis using Inr by auto
  qed
qed (simp split: if_splits)

lemma verifyTokenOnce_sound:
  assumes "verifyTokenOnce env now token host ip ua m = Inr c"
  shows "\<exists>k \<in> set (pm_keys m). env_jwt_parse env (fst k) now token = Inr c \<and> check_claims env (snd k) host ip ua c = Inr c"
  using try_keys_sound [OF assms [unfolded verifyTokenOnce_def]] by (fastforce simp: verificationKeys_def)

lemma accept_claims_exp: "accept_claims now b a c = Inr e \<Longrightarrow> e = effective_expiry c a"
  by (auto simp: accept_claims_def split: if_splits)

text \<open>Replacing the key set empties the cache; everything else a refresh does leaves both alone.\<close>

definition same_or_reset :: "'k pow_manager \<Rightarrow> 'k pow_manager \<Rightarrow> bool" where
  "same_or_reset m m' \<longleftrightarrow> pm_cache m' = [] \<or> pm_keys m' = pm_keys m \<and> pm_cache m' = pm_cache m"

lemma same_or_reset_refl [simp]: "same_or_reset m m"
  by (simp add: same_or_reset_def)

lemma same_or_reset_sound: "same_or_reset m m' \<Longrightarrow> cache_sound env m \<Longrightarrow> cache_sound env m'"
  by (auto simp: same_or_reset_def cache_sound_def)

lemma setRetiredKeys_reset [simp]: "pm_cache (setRetiredKeys env k ks m) = []"
  by (simp add: setRetiredKeys_def tc_reset_def Let_def)

lemma reload_same_or_reset: "reloadKeysLocked env disk now m = (r, m') \<Longrightarrow> same_or_reset m m'"
  by (auto simp: reloadKeysLocked_def same_or_reset_def Let_def split: sum.splits prod.splits if_splits)

lemma remember_same [simp]:
  "pm_keys (rememberRoutineRefresh now e m) = pm_keys m" "pm_cache (rememberRoutineRefresh now e m) = pm_cache m"
  by (simp_all add: rememberRoutineRefresh_def)

lemma refresh_now_same_or_reset: "refresh_now env disk now b m = (r, m') \<Longrightarrow> same_or_reset m m'"
  using reload_same_or_reset [of env disk now m]
  by (auto simp: refresh_now_def same_or_reset_def Let_def split: prod.splits option.splits if_splits)

lemma refreshKeys_same_or_reset:
  assumes "refreshKeys env disk now b m = (r, m')" shows "same_or_reset m m'"
proof -
  have "same_or_reset m m'" if "refresh_now env disk now b m1 = (r, m')" "pm_keys m1 = pm_keys m" "pm_cache m1 = pm_cache m" for m1 b
    using refresh_now_same_or_reset [OF that(1)] that by (simp add: same_or_reset_def)
  then show ?thesis
    using assms by (auto simp: refreshKeys_def throttled_def same_or_reset_def split: if_splits option.splits)
qed

lemma before_accept_same_or_reset:
  "refreshKeysBeforeTokenAccept env disk now m = (r, m') \<Longrightarrow> same_or_reset m m'"
  by (auto simp: refreshKeysBeforeTokenAccept_def split: if_splits prod.splits sum.splits
      dest: refreshKeys_same_or_reset)

lemma retry_sound:
  assumes "verify_with_retry env disk now token host ip ua m = (r, m')"
  shows "same_or_reset m m'" and "r = Inr c \<Longrightarrow> verifyTokenOnce env now token host ip ua m' = Inr c"
  using assms refreshKeys_same_or_reset [of env disk now True m]
  by (auto simp: verify_with_retry_def split: sum.splits prod.splits if_splits)

lemma cache_put_sound:
  assumes s: "cache_sound env m" and nf: "nul_free token" "nul_free host" "nul_free ip" "nul_free ua"
    and v: "vouched env (pm_keys m) now token host ip ua b a c" and e: "exp = effective_expiry c a"
  shows "cache_sound env (m\<lparr>pm_cache := tc_put (tokenCacheKey env token host ip ua b a) exp now (pm_cache m)\<rparr>)"
proof -
  have "entry_sound env (pm_keys m) (tokenCacheKey env token host ip ua b a) x" if "x \<le> exp" for x
    unfolding entry_sound_def using nf v e that by blast
  then show ?thesis
    using s by (auto simp: cache_sound_def tc_put_def Let_def gomap_simps)
qed

lemma VerifyToken_sound:
  assumes s: "cache_sound env m" and nf: "nul_free token" "nul_free host" "nul_free ip" "nul_free ua"
    and r: "VerifyToken env disk now token host ip ua b a m = (res, m')"
  shows "cache_sound env m'"
    and "res = None \<Longrightarrow> \<exists>c. vouched env (pm_keys m') now token host ip ua b a c \<or>
      (tc_get (tokenCacheKey env token host ip ua b a) now (pm_cache m'))"
proof -
  obtain e m1 where b: "refreshKeysBeforeTokenAccept env disk now m = (e, m1)" by fastforce
  have s1: "cache_sound env m1" using same_or_reset_sound [OF before_accept_same_or_reset [OF b] s] .
  obtain q m2 where q: "verify_with_retry env disk now token host ip ua m1 = (q, m2)" by fastforce
  note rs = retry_sound [OF q]
  have s2: "cache_sound env m2" using same_or_reset_sound [OF rs(1) s1] .
  let ?ck = "tokenCacheKey env token host ip ua b a"
  consider (err) "e \<noteq> None" "m' = m1" "res \<noteq> None"
    | (hit) "m' = m1" "tc_get ?ck now (pm_cache m1)"
    | (bad) "m' = m2" "res \<noteq> None"
    | (good) c x where "q = Inr c" "accept_claims now b a c = Inr x" "res = None"
        "m' = m2\<lparr>pm_cache := tc_put ?ck x now (pm_cache m2)\<rparr>"
    using r b q by (auto simp: VerifyToken_def Let_def split: option.splits if_splits sum.splits)
  then have "cache_sound env m' \<and> (res = None \<longrightarrow> (\<exists>c. vouched env (pm_keys m') now token host ip ua b a c \<or> tc_get ?ck now (pm_cache m')))"
  proof cases
    case (good c x)
    have x: "x = effective_expiry c a" using accept_claims_exp good(2) by blast
    have v: "vouched env (pm_keys m2) now token host ip ua b a c"
      using verifyTokenOnce_sound [OF rs(2) [OF good(1)]] good(2) x by (auto simp: vouched_def)
    show ?thesis using cache_put_sound [OF s2 nf v x] v good(4) by auto
  qed (use s1 s2 in auto)
  then show "cache_sound env m'"
    and "res = None \<Longrightarrow> \<exists>c. vouched env (pm_keys m') now token host ip ua b a c \<or> tc_get ?ck now (pm_cache m')"
    by auto
qed

section \<open>Reachable managers\<close>

inductive tok_reach :: "'k pow_env \<Rightarrow> 'k pow_manager \<Rightarrow> bool" for env :: "'k pow_env" where
  reach_new: "tok_reach env (newManagerWithRetiredKeys env current previous)"
| reach_files: "NewManagerFromFiles env now path disk = Inr m \<Longrightarrow> tok_reach env m"
| reach_verify: "tok_reach env m \<Longrightarrow> nul_free token \<Longrightarrow> nul_free host \<Longrightarrow> nul_free ip \<Longrightarrow> nul_free ua \<Longrightarrow>
    VerifyToken env disk now token host ip ua minBits maxAge m = (r, m') \<Longrightarrow> tok_reach env m'"
| reach_set: "tok_reach env m \<Longrightarrow> tok_reach env (SetKeys env now current previous m)"
| reach_reload: "tok_reach env m \<Longrightarrow> ReloadKeys env disk now m = (r, m') \<Longrightarrow> tok_reach env m'"
| reach_rotate: "tok_reach env m \<Longrightarrow> Rotate env rerr disk now path m = (r, m') \<Longrightarrow> tok_reach env m'"
| reach_refresh: "tok_reach env m \<Longrightarrow> refreshKeys env disk now b m = (r', m') \<Longrightarrow> tok_reach env m'"
| reach_mint: "tok_reach env m \<Longrightarrow> mintTokenWithSpec env disk now host fp cid spec ttl m = (r'', m') \<Longrightarrow> tok_reach env m'"
| reach_other: "tok_reach env m \<Longrightarrow> tok_reach env (m\<lparr>pm_spent := sp, pm_counters := cs\<rparr>)"

lemma new_manager_cache [simp]: "pm_cache (newManagerWithRetiredKeys env k ks) = []"
  by (simp add: newManagerWithRetiredKeys_def newTokenCache_def Let_def)

lemma reload_full_same_or_reset: "ReloadKeys env disk now m = (r, m') \<Longrightarrow> same_or_reset m m'"
  by (auto simp: ReloadKeys_def same_or_reset_def split: if_splits prod.splits dest!: reload_same_or_reset)

lemma rotate_same_or_reset: "Rotate env rerr disk now path m = (r, m') \<Longrightarrow> same_or_reset m m'"
  by (auto simp: Rotate_def same_or_reset_def split: if_splits prod.splits dest!: reload_same_or_reset)

lemma mint_same_or_reset: "mintTokenWithSpec env disk now host fp cid spec ttl m = (r, m') \<Longrightarrow> same_or_reset m m'"
  by (auto simp: mintTokenWithSpec_def signToken_def same_or_reset_def split: if_splits sum.splits)

lemma reach_sound: "tok_reach env m \<Longrightarrow> cache_sound env m"
proof (induction rule: tok_reach.induct)
  case (reach_new current previous)
  then show ?case by (simp add: cache_sound_def)
next
  case (reach_files now path disk m)
  then show ?case by (auto simp: NewManagerFromFiles_def gobind_eq_Inr cache_sound_def)
next
  case (reach_verify m token host ip ua disk now minBits maxAge r m')
  then show ?case using VerifyToken_sound(1) by blast
next
  case (reach_set m now current previous)
  then show ?case by (simp add: SetKeys_def cache_sound_def)
qed (auto intro: same_or_reset_sound reload_full_same_or_reset rotate_same_or_reset refreshKeys_same_or_reset
    mint_same_or_reset simp: same_or_reset_def [of _ "_\<lparr>pm_spent := _, pm_counters := _\<rparr>"])

definition collision_free :: "'k pow_env \<Rightarrow> bool" where
  "collision_free env \<longleftrightarrow> (\<forall>x y. env_sha256 env x = env_sha256 env y \<longrightarrow> x = y)"

definition jwt_checks_expiry :: "'k pow_env \<Rightarrow> bool" where
  "jwt_checks_expiry env \<longleftrightarrow> (\<forall>k t tok c e. env_jwt_parse env k t tok = Inr c \<longrightarrow> tk_ExpiresAt c = Some e \<longrightarrow> t < e)"

lemma vouched_checks:
  assumes "vouched env keys t0 token host ip ua b a c"
  shows "\<exists>k r. (k, r) \<in> set keys \<and> env_jwt_parse env k t0 token = Inr c \<and>
      (\<exists>iat exp. tk_IssuedAt c = Some iat \<and> tk_ExpiresAt c = Some exp \<and> (\<forall>t. r = Some t \<longrightarrow> iat \<le> t)) \<and>
      EqualFold (tk_Host c) host \<and> tk_Subject c = Fingerprint env ip ua \<and>
      (tk_Algorithm c = AlgorithmArgon2ID \<or> b \<le> tk_Difficulty c) \<and> (0 < a \<longrightarrow> t0 < effective_expiry c a)"
proof -
  obtain k r where k: "(k, r) \<in> set keys" "env_jwt_parse env k t0 token = Inr c" "check_claims env r host ip ua c = Inr c"
    "accept_claims t0 b a c = Inr (effective_expiry c a)"
    using assms by (auto simp: vouched_def)
  from k(3) have "\<exists>iat exp. tk_IssuedAt c = Some iat \<and> tk_ExpiresAt c = Some exp \<and> (\<forall>t. r = Some t \<longrightarrow> iat \<le> t)"
    "EqualFold (tk_Host c) host" "tk_Subject c = Fingerprint env ip ua"
    by (auto simp: check_claims_def not_less split: option.splits if_splits)
  moreover from k(4) have "tk_Algorithm c = AlgorithmArgon2ID \<or> b \<le> tk_Difficulty c" "0 < a \<longrightarrow> t0 < effective_expiry c a"
    by (auto simp: accept_claims_def split: if_splits)
  ultimately show ?thesis using k(1,2) by blast
qed

lemma effective_bounds: "tk_ExpiresAt c = Some exp \<Longrightarrow> tk_IssuedAt c = Some iat \<Longrightarrow>
    effective_expiry c a \<le> exp \<and> (0 < a \<longrightarrow> effective_expiry c a \<le> iat + a)"
  by (auto simp: effective_expiry_def Let_def)

text \<open>
  C14 (safety). An accepted token is a current one: whatever history of verifications, rotations,
  reloads and mintings the manager has seen, and whether the verdict came from the cache or not, the
  token was signed by a key of the set installed now and issued before that key was retired, it is
  bound to this host and to this client's fingerprint, it was earned at no less work than the path
  demands, and neither its own expiry nor the path's shorter lifetime has passed. The hash is taken
  as free of collisions and the JWT library as refusing expired tokens.
\<close>

theorem accepted_token_is_current:
  assumes "tok_reach env m" "collision_free env" "jwt_checks_expiry env"
    and nf: "nul_free token" "nul_free host" "nul_free ip" "nul_free ua"
    and r: "VerifyToken env disk now token host ip ua minBits maxAge m = (None, m')"
  shows "\<exists>k rt t0 c iat exp. (k, rt) \<in> set (pm_keys m') \<and> env_jwt_parse env k t0 token = Inr c \<and>
     tk_IssuedAt c = Some iat \<and> tk_ExpiresAt c = Some exp \<and> (\<forall>t. rt = Some t \<longrightarrow> iat \<le> t) \<and>
     EqualFold (tk_Host c) host \<and> tk_Subject c = Fingerprint env ip ua \<and>
     (tk_Algorithm c = AlgorithmArgon2ID \<or> minBits \<le> tk_Difficulty c) \<and>
     now < exp \<and> (0 < maxAge \<longrightarrow> now < iat + maxAge)"
proof -
  have s: "cache_sound env m" using reach_sound [OF assms(1)] .
  have s': "cache_sound env m'" using VerifyToken_sound(1) [OF s nf r] .
  obtain t0 c where v: "vouched env (pm_keys m') t0 token host ip ua minBits maxAge c"
    and e: "t0 = now \<or> now < effective_expiry c maxAge"
  proof -
    from VerifyToken_sound(2) [OF s nf r]
    consider c where "vouched env (pm_keys m') now token host ip ua minBits maxAge c"
      | "tc_get (tokenCacheKey env token host ip ua minBits maxAge) now (pm_cache m')" by auto
    then show thesis
    proof cases
      case 2
      then obtain x where x: "map_of (pm_cache m') (tokenCacheKey env token host ip ua minBits maxAge) = Some x" "now < x"
        by (auto simp: tc_get_def split: option.splits)
      then obtain t0 tok h i u b a c where q: "nul_free tok" "nul_free h" "nul_free i" "nul_free u"
        "tokenCacheKey env token host ip ua minBits maxAge = tokenCacheKey env tok h i u b a"
        "vouched env (pm_keys m') t0 tok h i u b a c" "x \<le> effective_expiry c a"
        using s' unfolding cache_sound_def entry_sound_def by blast
      have "cache_key_bytes token host ip ua minBits maxAge = cache_key_bytes tok h i u b a"
        using q(5) assms(2) by (simp add: tokenCacheKey_def collision_free_def)
      from cache_key_bytes_inj [OF this nf q(1-4)]
      have eq: "tok = token" "toLower h = toLower host" "i = ip" "u = ua" "b = minBits" "a = maxAge" by auto
      have "check_claims env rr h ip ua c = check_claims env rr host ip ua c" for rr
        by (simp add: check_claims_def EqualFold_def eq(2) cong: option.case_cong)
      then have "vouched env (pm_keys m') t0 token host ip ua minBits maxAge c"
        using q(6) eq by (simp add: vouched_def)
      then show thesis using that q(7) x(2) eq by (metis less_le_trans)
    qed (use that in blast)
  qed
  obtain k rt iat exp where w: "(k, rt) \<in> set (pm_keys m')" "env_jwt_parse env k t0 token = Inr c"
    "tk_IssuedAt c = Some iat" "tk_ExpiresAt c = Some exp" "\<forall>t. rt = Some t \<longrightarrow> iat \<le> t"
    "EqualFold (tk_Host c) host" "tk_Subject c = Fingerprint env ip ua"
    "tk_Algorithm c = AlgorithmArgon2ID \<or> minBits \<le> tk_Difficulty c" "0 < maxAge \<longrightarrow> t0 < effective_expiry c maxAge"
    using vouched_checks [OF v] by blast
  have "now < exp" using e w(2,4) assms(3) effective_bounds [OF w(4,3), of maxAge] by (auto simp: jwt_checks_expiry_def)
  moreover have "0 < maxAge \<longrightarrow> now < iat + maxAge" using e w(9) effective_bounds [OF w(4,3), of maxAge] by auto
  ultimately show ?thesis using w by blast
qed

lemma try_keys_find:
  "try_keys env now token host ip ua ks errs =
     (case find (\<lambda>k. \<not> isl (env_jwt_parse env (fst k) now token)) ks of
        Some k \<Rightarrow> check_claims env (snd k) host ip ua (projr (env_jwt_parse env (fst k) now token))
      | None \<Rightarrow> Inl (if JwtExpired \<in> set errs \<or> (\<exists>k \<in> set ks. env_jwt_parse env (fst k) now token = Inl JwtExpired)
                     then ErrTokenExpired else ErrTokenInvalid))"
proof (induction ks arbitrary: errs)
  case (Cons k ks)
  then show ?case
    by (cases "env_jwt_parse env (fst k) now token") (simp_all add: Cons.IH disj_ac cong: option.case_cong)
qed simp

text \<open>
  A rejection names its cause: the first live key that can read the token decides
  alone, so a wrong host or client is reported as a binding mismatch and never hidden by another
  key; when no live key reads it, the verdict is "expired" exactly if one of them recognised it as
  its own but expired, and "invalid" otherwise.
\<close>

theorem token_rejection_cause:
  "verifyTokenOnce env now token host ip ua m =
     (case find (\<lambda>k. \<not> isl (env_jwt_parse env (fst k) now token)) (verificationKeys now m) of
        Some k \<Rightarrow> check_claims env (snd k) host ip ua (projr (env_jwt_parse env (fst k) now token))
      | None \<Rightarrow> Inl (if \<exists>k \<in> set (verificationKeys now m). env_jwt_parse env (fst k) now token = Inl JwtExpired
                     then ErrTokenExpired else ErrTokenInvalid))"
  unfolding verifyTokenOnce_def try_keys_find by auto

section \<open>Witness\<close>

definition example_claims :: token_claims where
  "example_claims = \<lparr>tk_Host = ''a'', tk_ChallengeID = '''', tk_Difficulty = 20, tk_Algorithm = AlgorithmSHA256,
     tk_MemoryKiB = 0, tk_Iterations = 0, tk_Subject = hex_encode (''1'' @ [CHR 0x00] @ ''u''),
     tk_IssuedAt = Some 0, tk_NotBefore = Some 0, tk_ExpiresAt = Some 100\<rparr>"

definition example_env :: "nat pow_env" where
  "example_env = \<lparr>env_sha256 = id, env_hmac = (\<lambda>k x. take 32 (k @ x @ replicate 32 (CHR 0x00))),
     env_idkey = (\<lambda>_ _ _ _ _ _. []), env_seed = (\<lambda>_. []), env_public = (\<lambda>_. []),
     env_jwt_sign = (\<lambda>k c. Inr ''t''),
     env_jwt_parse = (\<lambda>k t tok. if k = 0 \<and> tok = ''t'' \<and> t < 100 then Inr example_claims else Inl JwtOther),
     env_numericDate = id, env_marshal = (\<lambda>p. None), env_unmarshal = (\<lambda>b. None)\<rparr>"

definition example_disk :: "nat disk" where
  "example_disk = \<lparr>dk_lock = True, dk_key = Inr 0, dk_dir = Inr None\<rparr>"

lemma example_accepts:
  "\<exists>m'. VerifyToken example_env example_disk 5 ''t'' ''a'' ''1'' ''u'' 10 50 (newManagerWithRetiredKeys example_env 0 []) = (None, m')"
  by (simp add: VerifyToken_def refreshKeysBeforeTokenAccept_def newManagerWithRetiredKeys_def newTokenCache_def
      tc_get_def verify_with_retry_def verifyTokenOnce_def verificationKeys_def past_horizon_def example_env_def
      check_claims_def example_claims_def algorithm_ok_def maxAcceptedTokenLifetime_def hour_def minute_def
      EqualFold_def Fingerprint_def accept_claims_def effective_expiry_def Let_def AlgorithmSHA256_def AlgorithmArgon2ID_def)

theorem accepted_token_is_current_witness:
  "\<exists>m' k rt (c :: token_claims) exp. VerifyToken example_env example_disk 5 ''t'' ''a'' ''1'' ''u'' 10 50
      (newManagerWithRetiredKeys example_env 0 []) = (None, m') \<and> (k, rt) \<in> set (pm_keys m') \<and>
      tk_ExpiresAt c = Some exp \<and> EqualFold (tk_Host c) ''a'' \<and> 5 < exp"
proof -
  obtain m' where v: "VerifyToken example_env example_disk 5 ''t'' ''a'' ''1'' ''u'' 10 50
      (newManagerWithRetiredKeys example_env 0 []) = (None, m')" using example_accepts by blast
  have "collision_free example_env" "jwt_checks_expiry example_env"
    by (auto simp: collision_free_def jwt_checks_expiry_def example_env_def example_claims_def split: if_splits)
  moreover have "nul_free ''t''" "nul_free ''a''" "nul_free ''1''" "nul_free ''u''"
    by (simp_all add: nul_free_def)
  ultimately obtain k rt exp and c :: token_claims where "(k, rt) \<in> set (pm_keys m')" "tk_ExpiresAt c = Some exp"
      "EqualFold (tk_Host c) ''a''" "5 < exp"
    using accepted_token_is_current [OF reach_new _ _ _ _ _ _ v] by auto
  then show ?thesis using v by blast
qed

end
