(* ===== verification/Bot_Verify.thy ===== *)
theory Bot_Verify
  imports Sharded_Memory Netip
begin

text \<open>
  Crawler verification (\<^verbatim>\<open>core/botverify\<close>): reverse DNS with forward confirmation, cached in the shared
  store and in a bounded local cache.

  The local cache is a list of shards. A shard of the code is a map from addresses to elements of an LRU
  list; here it is that list, most recent first, and the map is the search by address. The hash that
  selects a shard is a parameter (\<^verbatim>\<open>maphash\<close> with a random seed).

  A verification is the leader's run of \<open>Verify\<close>. The DNS answers, the store's optional expiry reader and whether a
  slot of the concurrency cap is free are arguments; concurrent callers for the same address wait for the
  leader and return its result (\<open>follow\<close>). The leader's second look at the local cache, which serves callers that
  raced it, repeats the first in a run by itself. One clock reading serves a call.
\<close>

section \<open>Results\<close>

datatype bot_status = StatusError | StatusConfirmed | StatusNone

record bot_result =
  br_Status :: bot_status
  br_Hostnames :: "string list"

definition MatchesDomains :: "bot_result \<Rightarrow> string list \<Rightarrow> bool" where
  "MatchesDomains r domains =
     list_ex (\<lambda>h. list_ex (\<lambda>d. h = d \<or> hasSuffix h (CHR ''.'' # d)) domains) (br_Hostnames r)"

record bot_options =
  bo_Timeout :: nanos
  bo_CacheTTL :: nanos
  bo_NegativeTTL :: nanos

definition bot_keyPrefix :: string where "bot_keyPrefix = ''botdns:''"
definition maxPTRs :: nat where "maxPTRs = 5"
definition errTTL :: nanos where "errTTL = 30 * second"
definition cacheOK :: string where "cacheOK = ''ok:''"
definition cacheNone :: string where "cacheNone = ''none''"
definition cacheErr :: string where "cacheErr = ''err''"

section \<open>The local cache\<close>

record local_entry =
  le_addr :: addr
  le_identity :: bot_result
  le_expires :: nanos

definition localShards :: nat where "localShards = 32"
definition localPerShard :: nat where "localPerShard = 256"

type_synonym local_cache = "local_entry list list"

definition newLocalCache :: local_cache where
  "newLocalCache = replicate localShards []"

definition lc_shard :: "(addr \<Rightarrow> nat) \<Rightarrow> addr \<Rightarrow> local_cache \<Rightarrow> local_entry list" where
  "lc_shard hash a c = c ! (hash a mod localShards)"

definition lc_store :: "(addr \<Rightarrow> nat) \<Rightarrow> addr \<Rightarrow> local_entry list \<Rightarrow> local_cache \<Rightarrow> local_cache" where
  "lc_store hash a sh c = c[hash a mod localShards := sh]"

definition shard_find :: "addr \<Rightarrow> local_entry list \<Rightarrow> local_entry option" where
  "shard_find a sh = find (\<lambda>e. le_addr e = a) sh"

definition shard_remove :: "addr \<Rightarrow> local_entry list \<Rightarrow> local_entry list" where
  "shard_remove a sh = filter (\<lambda>e. le_addr e \<noteq> a) sh"

text \<open>The normal read drops an expired entry and moves a live one to the front.\<close>

definition lc_get :: "(addr \<Rightarrow> nat) \<Rightarrow> nanos \<Rightarrow> addr \<Rightarrow> local_cache \<Rightarrow> bot_result option \<times> local_cache" where
  "lc_get hash now a c =
     (let sh = lc_shard hash a c
      in case shard_find a sh of
           None \<Rightarrow> (None, c)
         | Some e \<Rightarrow>
             (if \<not> now < le_expires e then (None, lc_store hash a (shard_remove a sh) c)
              else (Some (le_identity e), lc_store hash a (e # shard_remove a sh) c)))"

text \<open>The overload read changes nothing and misses when the shard lock is taken.\<close>

definition lc_get_shed :: "(addr \<Rightarrow> nat) \<Rightarrow> bool \<Rightarrow> nanos \<Rightarrow> addr \<Rightarrow> local_cache \<Rightarrow> bot_result option" where
  "lc_get_shed hash contended now a c =
     (if contended then None
      else case shard_find a (lc_shard hash a c) of
             None \<Rightarrow> None
           | Some e \<Rightarrow> if now < le_expires e then Some (le_identity e) else None)"

definition make_room :: "nanos \<Rightarrow> local_entry list \<Rightarrow> local_entry list" where
  "make_room now sh =
     (if length sh < localPerShard then sh
      else let sh' = filter (\<lambda>e. now < le_expires e) sh
           in if length sh' < localPerShard then sh' else butlast sh')"

definition lc_put :: "(addr \<Rightarrow> nat) \<Rightarrow> nanos \<Rightarrow> addr \<Rightarrow> bot_result \<Rightarrow> nanos option \<Rightarrow> local_cache \<Rightarrow> local_cache" where
  "lc_put hash now a res expires c =
     (case expires of
        None \<Rightarrow> c
      | Some x \<Rightarrow>
          (if \<not> now < x then c
           else let sh = lc_shard hash a c; e = \<lparr>le_addr = a, le_identity = res, le_expires = x\<rparr>
                in if shard_find a sh \<noteq> None then lc_store hash a (e # shard_remove a sh) c
                   else lc_store hash a (e # make_room now sh) c))"

section \<open>The resolution\<close>

datatype dns_error = DNSNotFound | DNSOther

record resolver =
  rv_LookupAddr :: "string \<Rightarrow> dns_error + string list"
  rv_LookupIPAddr :: "string \<Rightarrow> dns_error + addr option list"

definition ptr_host :: "string \<Rightarrow> string" where
  "ptr_host ptr = toLower (trimSuffix ptr ''.'')"

text \<open>The loop over the PTR names: the confirmed hosts and whether some lookup failed for now.\<close>

fun confirm :: "resolver \<Rightarrow> addr \<Rightarrow> string list \<Rightarrow> string list \<times> bool" where
  "confirm rv target [] = ([], False)"
| "confirm rv target (ptr # ptrs) =
     (let host = ptr_host ptr; (confirmed, transient) = confirm rv target ptrs
      in if host = '''' then (confirmed, transient)
         else case rv_LookupIPAddr rv host of
                Inl DNSNotFound \<Rightarrow> (confirmed, transient)
              | Inl DNSOther \<Rightarrow> (confirmed, True)
              | Inr addrs \<Rightarrow>
                  (if list_ex (\<lambda>a. map_option Unmap a = Some target) addrs then (host # confirmed, transient)
                   else (confirmed, transient)))"

definition bv_resolve :: "resolver \<Rightarrow> string \<Rightarrow> bot_result" where
  "bv_resolve rv ip =
     (case ParseAddr ip of
        None \<Rightarrow> \<lparr>br_Status = StatusError, br_Hostnames = []\<rparr>
      | Some a \<Rightarrow>
          (case rv_LookupAddr rv ip of
             Inl DNSNotFound \<Rightarrow> \<lparr>br_Status = StatusNone, br_Hostnames = []\<rparr>
           | Inl DNSOther \<Rightarrow> \<lparr>br_Status = StatusError, br_Hostnames = []\<rparr>
           | Inr ptrs \<Rightarrow>
               (case confirm rv (Unmap a) (take maxPTRs ptrs) of
                  (confirmed, transient) \<Rightarrow>
                    if confirmed \<noteq> [] then \<lparr>br_Status = StatusConfirmed, br_Hostnames = confirmed\<rparr>
                    else if transient then \<lparr>br_Status = StatusError, br_Hostnames = []\<rparr>
                    else \<lparr>br_Status = StatusNone, br_Hostnames = []\<rparr>)))"

section \<open>The cache record\<close>

definition encodeCacheRecord :: "bot_result \<Rightarrow> bytes" where
  "encodeCacheRecord r =
     (case br_Status r of
        StatusConfirmed \<Rightarrow> cacheOK @ join_on (CHR '','') (br_Hostnames r)
      | StatusNone \<Rightarrow> cacheNone
      | StatusError \<Rightarrow> cacheErr)"

definition record_ttl :: "bot_options \<Rightarrow> bot_result \<Rightarrow> nanos" where
  "record_ttl opts r =
     (case br_Status r of StatusConfirmed \<Rightarrow> bo_CacheTTL opts | StatusNone \<Rightarrow> bo_NegativeTTL opts | StatusError \<Rightarrow> errTTL)"

definition host_ok :: "string \<Rightarrow> bool" where
  "host_ok host \<longleftrightarrow>
     \<not> (host = '''' \<or> length host > 253 \<or> host \<noteq> toLower host \<or>
        list_ex (\<lambda>c. c \<in> {CHR '' '', CHR 0x09, CHR 0x0D, CHR 0x0A}) host \<or> hasSuffix host ''.'')"

definition decodeCacheRecord :: "bytes \<Rightarrow> bot_result option" where
  "decodeCacheRecord raw =
     (case cutPrefix raw cacheOK of
        Some body \<Rightarrow>
          (let hosts = split_on (CHR '','') body
           in if length hosts > maxPTRs \<or> \<not> list_all host_ok hosts then None
              else Some \<lparr>br_Status = StatusConfirmed, br_Hostnames = hosts\<rparr>)
      | None \<Rightarrow>
          (if raw = cacheNone then Some \<lparr>br_Status = StatusNone, br_Hostnames = []\<rparr>
           else if raw = cacheErr then Some \<lparr>br_Status = StatusError, br_Hostnames = []\<rparr>
           else None))"

section \<open>The verifier\<close>

record 's verifier =
  vf_local :: local_cache
  vf_store :: 's

type_synonym 's expiry_reader = "nanos \<Rightarrow> string \<Rightarrow> 's \<Rightarrow> (store_error + kv option) \<times> 's"

definition with_defaults :: "bot_options \<Rightarrow> bot_options" where
  "with_defaults o1 =
     \<lparr>bo_Timeout = (if bo_Timeout o1 \<le> 0 then second else bo_Timeout o1),
      bo_CacheTTL = (if bo_CacheTTL o1 \<le> 0 then 12 * hour else bo_CacheTTL o1),
      bo_NegativeTTL = (if bo_NegativeTTL o1 \<le> 0 then hour else bo_NegativeTTL o1)\<rparr>"

definition readStore :: "'s store_ops \<Rightarrow> nanos \<Rightarrow> string \<Rightarrow> 's \<Rightarrow> bot_result option \<times> 's" where
  "readStore ops now ip s =
     (case st_Get ops now (bot_keyPrefix @ ip) s of
        (Inr (Some raw), s') \<Rightarrow> (decodeCacheRecord raw, s')
      | (_, s') \<Rightarrow> (None, s'))"

text \<open>The read of the shared record: the result to return, if there is a usable one.\<close>

definition read_record ::
  "'s store_ops \<Rightarrow> 's expiry_reader option \<Rightarrow> (addr \<Rightarrow> nat) \<Rightarrow> nanos \<Rightarrow> string \<Rightarrow> addr \<Rightarrow> 's verifier \<Rightarrow> bot_result option \<times> 's verifier" where
  "read_record ops reader hash now ip a v =
     (case reader of
        None \<Rightarrow> (case readStore ops now ip (vf_store v) of (r, s') \<Rightarrow> (r, v\<lparr>vf_store := s'\<rparr>))
      | Some rd \<Rightarrow>
          (case rd now (bot_keyPrefix @ ip) (vf_store v) of
             (Inr (Some kv), s') \<Rightarrow>
               (case decodeCacheRecord (kv_Value kv) of
                  Some res \<Rightarrow>
                    (if (case kv_ExpiresAt kv of None \<Rightarrow> True | Some x \<Rightarrow> now < x)
                     then (Some res, v\<lparr>vf_store := s', vf_local := lc_put hash now a res (kv_ExpiresAt kv) (vf_local v)\<rparr>)
                     else (None, v\<lparr>vf_store := s'\<rparr>))
                | None \<Rightarrow> (None, v\<lparr>vf_store := s'\<rparr>))
           | (Inl ErrCapabilityUnsupported, s') \<Rightarrow> (case readStore ops now ip s' of (r, s2) \<Rightarrow> (r, v\<lparr>vf_store := s2\<rparr>))
           | (_, s') \<Rightarrow> (None, v\<lparr>vf_store := s'\<rparr>)))"

definition resolveAndCache ::
  "'s store_ops \<Rightarrow> (addr \<Rightarrow> nat) \<Rightarrow> resolver \<Rightarrow> bool \<Rightarrow> nanos \<Rightarrow> string \<Rightarrow> bot_options \<Rightarrow> 's verifier \<Rightarrow> bot_result \<times> 's verifier" where
  "resolveAndCache ops hash rv slot now ip opts v =
     (if \<not> slot then (\<lparr>br_Status = StatusError, br_Hostnames = []\<rparr>, v)
      else let res = bv_resolve rv ip; ttl = record_ttl opts res;
               l = (case ParseAddr ip of None \<Rightarrow> vf_local v | Some a \<Rightarrow> lc_put hash now (Unmap a) res (Some (now + ttl)) (vf_local v))
           in (res, v\<lparr>vf_local := l, vf_store := snd (st_Set ops now (bot_keyPrefix @ ip) (encodeCacheRecord res) ttl (vf_store v))\<rparr>))"

definition Verify ::
  "'s store_ops \<Rightarrow> 's expiry_reader option \<Rightarrow> (addr \<Rightarrow> nat) \<Rightarrow> resolver \<Rightarrow> bool \<Rightarrow> nanos \<Rightarrow> string \<Rightarrow> bot_options \<Rightarrow> 's verifier \<Rightarrow>
   bot_result \<times> 's verifier" where
  "Verify ops reader hash rv slot now ip opts v =
     (case ParseAddr ip of
        None \<Rightarrow> (\<lparr>br_Status = StatusError, br_Hostnames = []\<rparr>, v)
      | Some a0 \<Rightarrow>
          (let a = Unmap a0
           in case lc_get hash now a (vf_local v) of
                (Some res, l) \<Rightarrow> (res, v\<lparr>vf_local := l\<rparr>)
              | (None, l) \<Rightarrow>
                  (case read_record ops reader hash now ip a (v\<lparr>vf_local := l\<rparr>) of
                     (Some res, v') \<Rightarrow> (res, v')
                   | (None, v') \<Rightarrow> resolveAndCache ops hash rv slot now ip (with_defaults opts) v')))"

text \<open>A concurrent caller for the address of a run in progress.\<close>

definition follow :: "bool \<Rightarrow> bot_result \<Rightarrow> bot_result" where
  "follow cancelled res = (if cancelled then \<lparr>br_Status = StatusError, br_Hostnames = []\<rparr> else res)"

definition LookupCached :: "(addr \<Rightarrow> nat) \<Rightarrow> bool \<Rightarrow> nanos \<Rightarrow> string \<Rightarrow> 's verifier \<Rightarrow> bot_result option" where
  "LookupCached hash contended now ip v =
     (case ParseAddr ip of None \<Rightarrow> None | Some a \<Rightarrow> lc_get_shed hash contended now (Unmap a) (vf_local v))"

section \<open>The shared record round-trips\<close>

text \<open>
  The resolver returns names that are well-formed domain names: letters, digits, hyphens and underscores in
  labels between dots, at most 253 bytes without the final dot, or the root alone. (Go's \<^verbatim>\<open>net.Resolver\<close> filters the
  others out.) What is used of it: no comma and no blank, a bounded length and a single final dot.
\<close>

definition valid_ptr :: "string \<Rightarrow> bool" where
  "valid_ptr ptr \<longleftrightarrow>
     list_all (\<lambda>c. c \<notin> {CHR '','', CHR '' '', CHR 0x09, CHR 0x0D, CHR 0x0A}) ptr \<and>
     length (trimSuffix ptr ''.'') \<le> 253 \<and> \<not> hasSuffix (trimSuffix ptr ''.'') ''.''"

definition valid_names :: "resolver \<Rightarrow> bool" where
  "valid_names rv \<longleftrightarrow> (\<forall>ip ptrs. rv_LookupAddr rv ip = Inr ptrs \<longrightarrow> list_all valid_ptr ptrs)"

lemma ascii_lower_eq:
  assumes "(of_char d :: nat) < 65"
  shows "ascii_lower c = d \<longleftrightarrow> c = d"
proof (cases "65 \<le> (of_char c :: nat) \<and> (of_char c :: nat) \<le> 90")
  case True
  then have "(of_char (ascii_lower c) :: nat) = of_char c + 32" by (simp add: ascii_lower_def)
  then show ?thesis using True assms by auto
qed (use assms in \<open>auto simp: ascii_lower_def\<close>)

lemma toLower_mem:
  assumes "(of_char d :: nat) < 65"
  shows "d \<in> set (toLower s) \<longleftrightarrow> d \<in> set s"
proof -
  have "d = ascii_lower c \<longleftrightarrow> d = c" for c using ascii_lower_eq [OF assms, of c] by metis
  then show ?thesis by (simp add: toLower_def image_iff)
qed

lemma toLower_last: "s \<noteq> [] \<Longrightarrow> (of_char d :: nat) < 65 \<Longrightarrow> last (toLower s) = d \<longleftrightarrow> last s = d"
  by (simp add: toLower_def last_map ascii_lower_eq)

lemma hasSuffix_single: "hasSuffix s [c] \<longleftrightarrow> s \<noteq> [] \<and> last s = c"
  by (cases s rule: rev_cases) (auto simp: hasSuffix_def)

lemma ptr_host_ok:
  assumes "valid_ptr ptr" "ptr_host ptr \<noteq> ''''"
  shows "host_ok (ptr_host ptr)" "CHR '','' \<notin> set (ptr_host ptr)"
proof -
  define h where "h = trimSuffix ptr ''.''"
  have h: "set h \<subseteq> set ptr" "h \<noteq> ''''"
    using assms(2) by (auto simp: h_def ptr_host_def trimSuffix_def toLower_def dest: in_set_takeD)
  have free: "c \<notin> set (toLower h)" if c: "c \<in> {CHR '','', CHR '' '', CHR 0x09, CHR 0x0D, CHR 0x0A}" for c
  proof -
    have "c \<notin> set h" using assms(1) h(1) c unfolding valid_ptr_def list_all_iff by blast
    moreover have "(of_char c :: nat) < 65" using c by auto
    ultimately show ?thesis using toLower_mem by blast
  qed
  then show "CHR '','' \<notin> set (ptr_host ptr)" by (simp add: ptr_host_def h_def [symmetric])
  have "\<not> list_ex (\<lambda>c. c \<in> {CHR '' '', CHR 0x09, CHR 0x0D, CHR 0x0A}) (toLower h)"
    using free unfolding list_ex_iff by blast
  moreover have "length h \<le> 253" "\<not> hasSuffix (toLower h) ''.''"
    using assms(1) h(2) toLower_last [of h "CHR ''.''"] by (auto simp: valid_ptr_def h_def [symmetric] hasSuffix_single toLower_def)
  ultimately show "host_ok (ptr_host ptr)"
    using h(2) by (auto simp: host_ok_def ptr_host_def h_def [symmetric] toLower_def)
qed

text \<open>What a confirmed name means: a PTR name of the address that resolves back to it.\<close>

definition forward_confirmed :: "resolver \<Rightarrow> string \<Rightarrow> addr \<Rightarrow> string \<Rightarrow> bool" where
  "forward_confirmed rv ip a h \<longleftrightarrow>
     (\<exists>ptrs ptr addrs b. rv_LookupAddr rv ip = Inr ptrs \<and> ptr \<in> set (take maxPTRs ptrs) \<and> h = ptr_host ptr \<and>
        rv_LookupIPAddr rv h = Inr addrs \<and> Some b \<in> set addrs \<and> Unmap b = a)"

lemma confirm_sound:
  assumes "h \<in> set (fst (confirm rv a ptrs))"
  shows "h \<noteq> '''' \<and> (\<exists>ptr \<in> set ptrs. h = ptr_host ptr \<and> (\<exists>addrs b. rv_LookupIPAddr rv h = Inr addrs \<and> Some b \<in> set addrs \<and> Unmap b = a))"
  using assms
proof (induction ptrs)
  case (Cons ptr ptrs)
  then show ?case
    by (fastforce simp: Let_def list_ex_iff split: prod.splits sum.splits dns_error.splits if_splits)
qed simp

lemma confirm_length: "length (fst (confirm rv a ptrs)) \<le> length ptrs"
proof (induction ptrs)
  case (Cons ptr ptrs)
  then show ?case by (auto simp: Let_def split: prod.splits sum.splits dns_error.splits)
qed simp

lemma resolve_cases:
  assumes "ParseAddr ip = Some a" "bv_resolve rv ip = r"
  shows "br_Hostnames r = [] \<and> br_Status r \<noteq> StatusConfirmed \<or>
    br_Status r = StatusConfirmed \<and> br_Hostnames r \<noteq> [] \<and> length (br_Hostnames r) \<le> maxPTRs \<and>
    (\<exists>ptrs. rv_LookupAddr rv ip = Inr ptrs \<and> br_Hostnames r = fst (confirm rv (Unmap a) (take maxPTRs ptrs)))"
proof -
  have l: "length (fst (confirm rv b (take maxPTRs ptrs))) \<le> maxPTRs" for b ptrs
    using confirm_length [of rv b "take maxPTRs ptrs"] by simp
  show ?thesis
    using assms(2) [symmetric] l by (auto simp: bv_resolve_def assms(1) split: sum.splits dns_error.splits prod.splits) (metis fst_conv)+
qed

lemma resolve_confirms:
  "ParseAddr ip = Some a \<Longrightarrow> h \<in> set (br_Hostnames (bv_resolve rv ip)) \<Longrightarrow> forward_confirmed rv ip (Unmap a) h"
  using resolve_cases [of ip a rv] confirm_sound unfolding forward_confirmed_def by (metis empty_iff list.set(1))

lemma record_round_trips:
  assumes "valid_names rv" "ParseAddr ip = Some a"
  shows "decodeCacheRecord (encodeCacheRecord (bv_resolve rv ip)) = Some (bv_resolve rv ip)"
proof -
  define r where "r = bv_resolve rv ip"
  note c = resolve_cases [OF assms(2) r_def [symmetric]]
  show ?thesis
  proof (cases "br_Status r")
    case StatusConfirmed
    then obtain ptrs where p: "br_Hostnames r \<noteq> []" "length (br_Hostnames r) \<le> maxPTRs" "rv_LookupAddr rv ip = Inr ptrs"
        "br_Hostnames r = fst (confirm rv (Unmap a) (take maxPTRs ptrs))" using c by auto
    have "host_ok h \<and> CHR '','' \<notin> set h" if h: "h \<in> set (br_Hostnames r)" for h
    proof -
      obtain ptr where "ptr \<in> set ptrs" "h = ptr_host ptr" "h \<noteq> ''''"
        using confirm_sound [OF h [unfolded p(4)]] by (auto dest: in_set_takeD)
      moreover have "valid_ptr ptr" using assms(1) p(3) calculation(1) by (auto simp: valid_names_def list_all_iff)
      ultimately show ?thesis using ptr_host_ok by auto
    qed
    then have "split_on (CHR '','') (join_on (CHR '','') (br_Hostnames r)) = br_Hostnames r" "list_all host_ok (br_Hostnames r)"
      using split_join [OF p(1)] by (auto simp: list_all_iff)
    then show ?thesis using StatusConfirmed p(2)
      by (simp add: r_def [symmetric] encodeCacheRecord_def decodeCacheRecord_def cutPrefix_def)
  next
    case StatusNone
    then have "r = \<lparr>br_Status = StatusNone, br_Hostnames = []\<rparr>" using c by (cases r) simp
    then show ?thesis unfolding r_def [symmetric]
      by (simp add: encodeCacheRecord_def decodeCacheRecord_def cutPrefix_def cacheOK_def cacheNone_def)
  next
    case StatusError
    then have "r = \<lparr>br_Status = StatusError, br_Hostnames = []\<rparr>" using c by (cases r) simp
    then show ?thesis unfolding r_def [symmetric]
      by (simp add: encodeCacheRecord_def decodeCacheRecord_def cutPrefix_def cacheOK_def cacheNone_def cacheErr_def)
  qed
qed

section \<open>The local cache keeps its shape\<close>

definition shard_ok :: "(addr \<Rightarrow> nat) \<Rightarrow> nat \<Rightarrow> local_entry list \<Rightarrow> bool" where
  "shard_ok hash i sh \<longleftrightarrow> distinct (map le_addr sh) \<and> length sh \<le> localPerShard \<and> (\<forall>e \<in> set sh. hash (le_addr e) mod localShards = i)"

definition cache_ok :: "(addr \<Rightarrow> nat) \<Rightarrow> local_cache \<Rightarrow> bool" where
  "cache_ok hash c \<longleftrightarrow> length c = localShards \<and> (\<forall>i < localShards. shard_ok hash i (c ! i))"

definition entries_of :: "local_cache \<Rightarrow> local_entry set" where
  "entries_of c = \<Union> (set ` set c)"

lemma slot_less [simp]: "hash a mod localShards < localShards"
  by (simp add: localShards_def)

lemma newLocalCache_ok: "cache_ok hash newLocalCache" "entries_of newLocalCache = {}"
  by (auto simp: cache_ok_def shard_ok_def newLocalCache_def entries_of_def)

lemma lc_shard_ok: "cache_ok hash c \<Longrightarrow> shard_ok hash (hash a mod localShards) (lc_shard hash a c)"
  by (simp add: cache_ok_def lc_shard_def)

lemma lc_shard_entries: "cache_ok hash c \<Longrightarrow> set (lc_shard hash a c) \<subseteq> entries_of c"
  by (auto simp: cache_ok_def lc_shard_def entries_of_def intro!: bexI [OF _ nth_mem])

lemma lc_store_ok: "cache_ok hash c \<Longrightarrow> shard_ok hash (hash a mod localShards) sh \<Longrightarrow> cache_ok hash (lc_store hash a sh c)"
  by (simp add: cache_ok_def lc_store_def nth_list_update)

lemma lc_store_entries: "entries_of (lc_store hash a sh c) \<subseteq> entries_of c \<union> set sh"
  using set_update_subset_insert [of c] by (fastforce simp: entries_of_def lc_store_def)

lemma shard_find_mem: "shard_find a sh = Some e \<Longrightarrow> e \<in> set sh \<and> le_addr e = a"
  by (auto simp: shard_find_def find_Some_iff)

lemma shard_find_None: "shard_find a sh = None \<longleftrightarrow> a \<notin> le_addr ` set sh"
  by (auto simp: shard_find_def find_None_iff)

lemma shard_filter_ok: "shard_ok hash i sh \<Longrightarrow> shard_ok hash i (filter P sh)"
  by (auto simp: shard_ok_def distinct_map_filter intro: le_trans [OF length_filter_le])

lemma shard_remove_ok: "shard_ok hash i sh \<Longrightarrow> shard_ok hash i (shard_remove a sh)"
  by (simp add: shard_remove_def shard_filter_ok)

text \<open>Putting an entry in front of a shard without its address, when there is room.\<close>

lemma shard_front_ok:
  assumes "shard_ok hash i sh" "length sh < localPerShard" "le_addr e \<notin> le_addr ` set sh" "hash (le_addr e) mod localShards = i"
  shows "shard_ok hash i (e # sh)"
  using assms by (simp add: shard_ok_def)

lemma shard_remove_less:
  assumes "shard_find a sh = Some e"
  shows "length (shard_remove a sh) < length sh"
  using shard_find_mem [OF assms] unfolding shard_remove_def by (intro length_filter_less) auto

lemma shard_renew_ok:
  assumes "shard_ok hash i sh" "shard_find (le_addr e) sh \<noteq> None" "hash (le_addr e) mod localShards = i"
  shows "shard_ok hash i (e # shard_remove (le_addr e) sh)"
proof (rule shard_front_ok [OF shard_remove_ok [OF assms(1)] _ _ assms(3)])
  show "length (shard_remove (le_addr e) sh) < localPerShard"
    using shard_remove_less [of "le_addr e" sh] assms(1,2) by (force simp: shard_ok_def)
qed (auto simp: shard_remove_def)

lemma make_room_ok:
  assumes "shard_ok hash i sh"
  shows "shard_ok hash i (make_room now sh)" "length (make_room now sh) < localPerShard" "set (make_room now sh) \<subseteq> set sh"
proof -
  define f where "f = filter (\<lambda>e. now < le_expires e) sh"
  have f: "shard_ok hash i f" using shard_filter_ok [OF assms] by (simp add: f_def)
  then have b: "shard_ok hash i (butlast f)" by (auto simp: shard_ok_def map_butlast distinct_butlast dest: in_set_butlastD)
  have m: "make_room now sh = (if length sh < localPerShard then sh else if length f < localPerShard then f else butlast f)"
    by (simp add: make_room_def f_def Let_def)
  show "shard_ok hash i (make_room now sh)" using assms f b by (simp add: m)
  show "length (make_room now sh) < localPerShard" using f by (auto simp: m shard_ok_def localPerShard_def)
  show "set (make_room now sh) \<subseteq> set sh" by (auto simp: m f_def dest: in_set_butlastD)
qed

lemma lc_get_ok:
  assumes "cache_ok hash c" "lc_get hash now a c = (r, c')"
  shows "cache_ok hash c'" "entries_of c' \<subseteq> entries_of c"
    "\<forall>res. r = Some res \<longrightarrow> (\<exists>e \<in> entries_of c. le_addr e = a \<and> le_identity e = res \<and> now < le_expires e)"
proof -
  define sh where "sh = lc_shard hash a c"
  have sh: "shard_ok hash (hash a mod localShards) sh" "set sh \<subseteq> entries_of c"
    using lc_shard_ok [OF assms(1)] lc_shard_entries [OF assms(1)] by (simp_all add: sh_def)
  have rm: "set (shard_remove a sh) \<subseteq> entries_of c" using sh(2) by (auto simp: shard_remove_def)
  note upd = lc_store_ok [OF assms(1)] lc_store_entries [of hash a _ c]
  have *: "cache_ok hash c' \<and> entries_of c' \<subseteq> entries_of c \<and>
    (\<forall>res. r = Some res \<longrightarrow> (\<exists>e \<in> entries_of c. le_addr e = a \<and> le_identity e = res \<and> now < le_expires e))"
  proof (cases "shard_find a sh")
    case None
    then show ?thesis using assms by (simp add: lc_get_def sh_def [symmetric])
  next
    case (Some e)
    note e = shard_find_mem [OF Some]
    show ?thesis
    proof (cases "now < le_expires e")
      case True
      have "cache_ok hash (lc_store hash a (e # shard_remove a sh) c)"
        using upd(1) shard_renew_ok [OF sh(1), of e] e Some by simp
      moreover have "entries_of (lc_store hash a (e # shard_remove a sh) c) \<subseteq> entries_of c"
        using lc_store_entries [of hash a "e # shard_remove a sh" c] rm e sh(2) by auto
      ultimately show ?thesis using assms(2) Some True e sh(2) by (auto simp: lc_get_def sh_def [symmetric])
    next
      case False
      have "entries_of (lc_store hash a (shard_remove a sh) c) \<subseteq> entries_of c"
        using lc_store_entries [of hash a "shard_remove a sh" c] rm by auto
      then show ?thesis using assms(2) Some False upd(1) [OF shard_remove_ok [OF sh(1)]] by (auto simp: lc_get_def sh_def [symmetric])
    qed
  qed
  then show "cache_ok hash c'" "entries_of c' \<subseteq> entries_of c"
    "\<forall>res. r = Some res \<longrightarrow> (\<exists>e \<in> entries_of c. le_addr e = a \<and> le_identity e = res \<and> now < le_expires e)" by auto
qed

lemma lc_put_ok:
  assumes "cache_ok hash c"
  shows "cache_ok hash (lc_put hash now a res x c)"
    "entries_of (lc_put hash now a res x c) \<subseteq> entries_of c \<union> {\<lparr>le_addr = a, le_identity = res, le_expires = y\<rparr> | y. x = Some y}"
proof -
  define sh where "sh = lc_shard hash a c"
  have sh: "shard_ok hash (hash a mod localShards) sh" "set sh \<subseteq> entries_of c"
    using lc_shard_ok [OF assms(1)] lc_shard_entries [OF assms(1)] by (simp_all add: sh_def)
  have *: "cache_ok hash (lc_put hash now a res x c) \<and>
      entries_of (lc_put hash now a res x c) \<subseteq> entries_of c \<union> {\<lparr>le_addr = a, le_identity = res, le_expires = y\<rparr> | y. x = Some y}"
  proof (cases "\<exists>y. x = Some y \<and> now < y")
    case False
    then have "lc_put hash now a res x c = c" by (auto simp: lc_put_def split: option.splits)
    then show ?thesis using assms by simp
  next
    case True
    then obtain y where y: "x = Some y" "now < y" by blast
    let ?e = "\<lparr>le_addr = a, le_identity = res, le_expires = y\<rparr>"
    define t where "t = (if shard_find a sh \<noteq> None then shard_remove a sh else make_room now sh)"
    have "lc_put hash now a res x c = lc_store hash a (?e # t) c" using y by (simp add: lc_put_def t_def sh_def Let_def)
    moreover have "shard_ok hash (hash a mod localShards) (?e # t)"
    proof (cases "shard_find a sh = None")
      case True
      have "a \<notin> le_addr ` set (make_room now sh)" using make_room_ok(3) [OF sh(1), of now] True by (auto simp: shard_find_None)
      then show ?thesis
        using shard_front_ok [OF make_room_ok(1,2) [OF sh(1)], of ?e] True by (simp add: t_def)
    qed (use shard_renew_ok [OF sh(1), of ?e] in \<open>simp add: t_def\<close>)
    moreover have "set t \<subseteq> entries_of c" using sh(2) make_room_ok(3) [OF sh(1), of now] by (auto simp: t_def shard_remove_def)
    ultimately show ?thesis
      using lc_store_ok [OF assms, of a "?e # t"] lc_store_entries [of hash a "?e # t" c] y(1) by auto
  qed
  then show "cache_ok hash (lc_put hash now a res x c)"
    "entries_of (lc_put hash now a res x c) \<subseteq> entries_of c \<union> {\<lparr>le_addr = a, le_identity = res, le_expires = y\<rparr> | y. x = Some y}" by auto
qed

section \<open>Every cached identity rests on a resolution\<close>

text \<open>A resolution that took place: when, with which DNS answers, for which spelling of an address, under which options.\<close>

type_synonym resolution = "nanos \<times> resolver \<times> string \<times> bot_options"

definition vouches :: "resolution set \<Rightarrow> addr \<Rightarrow> bot_result \<Rightarrow> nanos \<Rightarrow> bool" where
  "vouches H a res x \<longleftrightarrow>
     (\<exists>(t, rv, ip, opts) \<in> H. (\<exists>a0. ParseAddr ip = Some a0 \<and> Unmap a0 = a) \<and> res = bv_resolve rv ip \<and> x \<le> t + record_ttl (with_defaults opts) res)"

definition local_backed :: "resolution set \<Rightarrow> local_cache \<Rightarrow> bool" where
  "local_backed H c \<longleftrightarrow> (\<forall>e \<in> entries_of c. vouches H (le_addr e) (le_identity e) (le_expires e))"

definition store_backed :: "resolution set \<Rightarrow> view \<Rightarrow> bool" where
  "store_backed H m \<longleftrightarrow>
     (\<forall>ip a e. ParseAddr ip = Some a \<longrightarrow> m (bot_keyPrefix @ ip) = Some e \<longrightarrow>
        (\<exists>res x. decodeCacheRecord (e_value e) = Some res \<and> e_expiresAt e = Some x \<and> vouches H (Unmap a) res x))"

text \<open>Whether a call of \<open>Verify\<close> goes to the DNS.\<close>

definition did_resolve ::
  "'s store_ops \<Rightarrow> 's expiry_reader option \<Rightarrow> (addr \<Rightarrow> nat) \<Rightarrow> bool \<Rightarrow> nanos \<Rightarrow> string \<Rightarrow> 's verifier \<Rightarrow> bool" where
  "did_resolve ops reader hash slot now ip v \<longleftrightarrow>
     slot \<and> (case ParseAddr ip of
               None \<Rightarrow> False
             | Some a0 \<Rightarrow>
                 (case lc_get hash now (Unmap a0) (vf_local v) of
                    (Some _, _) \<Rightarrow> False
                  | (None, l) \<Rightarrow> fst (read_record ops reader hash now ip (Unmap a0) (v\<lparr>vf_local := l\<rparr>)) = None))"

definition history_after ::
  "'s store_ops \<Rightarrow> 's expiry_reader option \<Rightarrow> (addr \<Rightarrow> nat) \<Rightarrow> resolver \<Rightarrow> bool \<Rightarrow> nanos \<Rightarrow> string \<Rightarrow> bot_options \<Rightarrow> 's verifier \<Rightarrow>
   resolution set \<Rightarrow> resolution set" where
  "history_after ops reader hash rv slot now ip opts v H =
     (if did_resolve ops reader hash slot now ip v then insert (now, rv, ip, opts) H else H)"

lemma vouches_mono: "vouches H a res x \<Longrightarrow> H \<subseteq> H' \<Longrightarrow> vouches H' a res x"
  by (force simp: vouches_def)

lemma local_backed_mono: "local_backed H c \<Longrightarrow> H \<subseteq> H' \<Longrightarrow> local_backed H' c"
  by (auto simp: local_backed_def intro: vouches_mono)

lemma store_backed_mono: "store_backed H m \<Longrightarrow> H \<subseteq> H' \<Longrightarrow> store_backed H' m"
  unfolding store_backed_def by (meson vouches_mono)

lemma store_backedD:
  "store_backed H m \<Longrightarrow> ParseAddr ip = Some a \<Longrightarrow> m (bot_keyPrefix @ ip) = Some e \<Longrightarrow>
     \<exists>res x. decodeCacheRecord (e_value e) = Some res \<and> e_expiresAt e = Some x \<and> vouches H (Unmap a) res x"
  unfolding store_backed_def by blast

text \<open>The store as the verifier uses it: the contract of every backend, and the optional reader that returns the
  deadline together with the value.\<close>

definition spec_GetWithExpiry :: "string \<Rightarrow> view \<Rightarrow> (store_error + kv option) \<times> effect list" where
  "spec_GetWithExpiry k m =
     (Inr (map_option (\<lambda>e. \<lparr>kv_Key = k, kv_Value = e_value e, kv_ExpiresAt = e_expiresAt e\<rparr>) (m k)), [])"

locale expiry_store = ttl_store ops live ok
  for ops :: "'s store_ops" and live :: "'s \<Rightarrow> nanos \<Rightarrow> view" and ok :: "'s \<Rightarrow> bool" +
  fixes reader :: "'s expiry_reader option"
  assumes reader: "reader = Some rd \<Longrightarrow> ok s \<Longrightarrow> refines live ok now s (rd now k s) (spec_GetWithExpiry k (live s now))"
begin

lemma read_record_ok:
  assumes "ok (vf_store v)" "cache_ok hash (vf_local v)" "local_backed H (vf_local v)" "store_backed H (live (vf_store v) now)"
    and "ParseAddr ip = Some a0" "read_record ops reader hash now ip (Unmap a0) v = (r, v')"
  shows "ok (vf_store v') \<and> same_live live now (vf_store v) (vf_store v') \<and> cache_ok hash (vf_local v') \<and> local_backed H (vf_local v') \<and>
    (\<forall>res. r = Some res \<longrightarrow> (\<exists>x \<ge> now. vouches H (Unmap a0) res x))"
proof (cases reader)
  case None
  obtain g s' where g: "st_Get ops now (bot_keyPrefix @ ip) (vf_store v) = (g, s')" by fastforce
  note ge = get_eq [OF assms(1) g]
  show ?thesis
  proof (cases "live (vf_store v) now (bot_keyPrefix @ ip)")
    case N: None
    then show ?thesis using None assms ge g by (auto simp: read_record_def readStore_def)
  next
    case (Some e)
    then obtain res x where x: "decodeCacheRecord (e_value e) = Some res" "e_expiresAt e = Some x" "vouches H (Unmap a0) res x"
      using store_backedD [OF assms(4,5) Some] by blast
    have "now \<le> x" using live_decay [OF assms(1) order_refl Some] Some x(2) by (auto simp: unexpired_def entry_expired_def split: if_splits)
    then show ?thesis using None assms ge g Some x by (auto simp: read_record_def readStore_def)
  qed
next
  case (Some rd)
  obtain g s' where g: "rd now (bot_keyPrefix @ ip) (vf_store v) = (g, s')" by fastforce
  have ge: "g = Inr (map_option (\<lambda>e. \<lparr>kv_Key = bot_keyPrefix @ ip, kv_Value = e_value e, kv_ExpiresAt = e_expiresAt e\<rparr>) (live (vf_store v) now (bot_keyPrefix @ ip)))"
      "ok s'" "same_live live now (vf_store v) s'"
    using reader [OF Some assms(1), of now "bot_keyPrefix @ ip"] g by (simp_all add: refines_def spec_GetWithExpiry_def same_live_def)
  show ?thesis
  proof (cases "live (vf_store v) now (bot_keyPrefix @ ip)")
    case N: None
    then show ?thesis using Some assms ge g by (auto simp: read_record_def)
  next
    case e: (Some e)
    then obtain res x where x: "decodeCacheRecord (e_value e) = Some res" "e_expiresAt e = Some x" "vouches H (Unmap a0) res x"
      using store_backedD [OF assms(4,5) e] by blast
    have "local_backed H (lc_put hash now (Unmap a0) res (Some x) (vf_local v))" "cache_ok hash (lc_put hash now (Unmap a0) res (Some x) (vf_local v))"
      using assms(3) lc_put_ok [OF assms(2), of now "Unmap a0" res "Some x"] x(3) by (auto simp: local_backed_def)
    then show ?thesis using Some assms ge g e x by (auto simp: read_record_def intro!: exI [of _ x] split: if_splits)
  qed
qed

end

lemma record_ttl_pos: "0 < record_ttl (with_defaults opts) r"
  by (auto simp: record_ttl_def with_defaults_def errTTL_def second_def minute_def hour_def split: bot_status.splits)

context expiry_store
begin

lemma resolve_ok:
  assumes "ok (vf_store v)" "cache_ok hash (vf_local v)" "local_backed H (vf_local v)" "store_backed H (live (vf_store v) now)"
    and "valid_names rv" "ParseAddr ip = Some a0" "resolveAndCache ops hash rv True now ip (with_defaults opts) v = (res, v')"
    and H': "H' = insert (now, rv, ip, opts) H"
  shows "ok (vf_store v') \<and> cache_ok hash (vf_local v') \<and> local_backed H' (vf_local v') \<and> store_backed H' (live (vf_store v') now) \<and>
    (\<exists>x \<ge> now. vouches H' (Unmap a0) res x)"
proof -
  define ttl where "ttl = record_ttl (with_defaults opts) (bv_resolve rv ip)"
  have ttl: "0 < ttl" by (simp add: ttl_def record_ttl_pos)
  define k where "k = bot_keyPrefix @ ip"
  obtain q s' where q: "st_Set ops now k (encodeCacheRecord (bv_resolve rv ip)) ttl (vf_store v) = (q, s')" by fastforce
  have res: "res = bv_resolve rv ip" "vf_store v' = s'" "vf_local v' = lc_put hash now (Unmap a0) res (Some (now + ttl)) (vf_local v)"
    using assms(7) q by (auto simp: resolveAndCache_def Let_def assms(6) ttl_def k_def)
  have vo: "vouches H' (Unmap a0) res (now + ttl)" using assms(6) by (auto simp: vouches_def H' res(1) ttl_def)
  have s: "ok s'" "live s' now = apply_effects now [Put k \<lparr>e_value = encodeCacheRecord res, e_expiresAt = expiry now ttl\<rparr>] (live (vf_store v) now)"
    using set_value [OF assms(1), of now k "encodeCacheRecord res" ttl] q by (simp_all add: refines_def spec_Set_def res(1))
  have "store_backed H' (live s' now)"
    unfolding store_backed_def
  proof (intro allI impI)
    fix ip' a e assume a: "ParseAddr ip' = Some a" and e: "live s' now (bot_keyPrefix @ ip') = Some e"
    show "\<exists>r x. decodeCacheRecord (e_value e) = Some r \<and> e_expiresAt e = Some x \<and> vouches H' (Unmap a) r x"
    proof (cases "ip' = ip")
      case True
      then have "e = \<lparr>e_value = encodeCacheRecord res, e_expiresAt = expiry now ttl\<rparr>"
        using e s(2) by (simp add: k_def unexpired_def split: if_splits)
      then show ?thesis using record_round_trips [OF assms(5,6)] vo ttl a True assms(6) by (simp add: res(1) expiry_def)
    next
      case False
      then have "live (vf_store v) now (bot_keyPrefix @ ip') = Some e" using e s(2) by (simp add: k_def)
      with assms(4) a obtain r x where "decodeCacheRecord (e_value e) = Some r" "e_expiresAt e = Some x" "vouches H (Unmap a) r x"
        by (blast dest: store_backedD)
      then show ?thesis using vouches_mono [of H "Unmap a" r x H'] H' by blast
    qed
  qed
  moreover have "local_backed H' (vf_local v')"
    using lc_put_ok(2) [OF assms(2), of now "Unmap a0" res "Some (now + ttl)"] local_backed_mono [OF assms(3), of H'] vo H'
    unfolding res(3) local_backed_def by fastforce
  ultimately show ?thesis using s(1) lc_put_ok(1) [OF assms(2)] vo ttl res by (auto intro!: exI [of _ "now + ttl"])
qed

lemma verify_ok:
  assumes "ok (vf_store v)" "cache_ok hash (vf_local v)" "local_backed H (vf_local v)" "store_backed H (live (vf_store v) now)"
    and "valid_names rv" "Verify ops reader hash rv slot now ip opts v = (res, v')"
    and H': "H' = history_after ops reader hash rv slot now ip opts v H"
  shows "ok (vf_store v') \<and> cache_ok hash (vf_local v') \<and> local_backed H' (vf_local v') \<and> store_backed H' (live (vf_store v') now) \<and>
    (br_Hostnames res \<noteq> [] \<longrightarrow> (\<exists>a0. ParseAddr ip = Some a0 \<and> (\<exists>x \<ge> now. vouches H' (Unmap a0) res x)))"
proof (cases "ParseAddr ip")
  case None
  then show ?thesis using assms by (auto simp: Verify_def history_after_def did_resolve_def)
next
  case (Some a0)
  obtain g l where g: "lc_get hash now (Unmap a0) (vf_local v) = (g, l)" by fastforce
  note lg = lc_get_ok [OF assms(2) g]
  have lb: "local_backed H l" using assms(3) lg(2) by (auto simp: local_backed_def)
  show ?thesis
  proof (cases g)
    case (Some r)
    then have "H' = H" "res = r" "v' = v\<lparr>vf_local := l\<rparr>" using assms(6) H' \<open>ParseAddr ip = Some a0\<close> g
      by (auto simp: Verify_def history_after_def did_resolve_def Let_def)
    moreover obtain e where "e \<in> entries_of (vf_local v)" "le_addr e = Unmap a0" "le_identity e = r" "now < le_expires e"
      using lg(3) Some by blast
    ultimately show ?thesis using assms(1-4) lg(1) lb \<open>ParseAddr ip = Some a0\<close>
      by (auto simp: local_backed_def intro!: exI [of _ "le_expires e"])
  next
    case None
    obtain r v1 where r: "read_record ops reader hash now ip (Unmap a0) (v\<lparr>vf_local := l\<rparr>) = (r, v1)" by fastforce
    have rr: "ok (vf_store v1)" "same_live live now (vf_store v) (vf_store v1)" "cache_ok hash (vf_local v1)" "local_backed H (vf_local v1)"
        "\<forall>res. r = Some res \<longrightarrow> (\<exists>x \<ge> now. vouches H (Unmap a0) res x)"
      using read_record_ok [of "v\<lparr>vf_local := l\<rparr>" hash H now ip a0 r v1] assms(1,4) lg(1) lb \<open>ParseAddr ip = Some a0\<close> r by auto
    have sb: "store_backed H (live (vf_store v1) now)" using rr(2) assms(4) by (simp add: same_live_def)
    show ?thesis
    proof (cases "r = None \<and> slot")
      case True
      then have "H' = insert (now, rv, ip, opts) H" "resolveAndCache ops hash rv True now ip (with_defaults opts) v1 = (res, v')"
        using assms(6) H' \<open>ParseAddr ip = Some a0\<close> g None r by (auto simp: Verify_def history_after_def did_resolve_def Let_def)
      from resolve_ok [OF rr(1,3,4) sb assms(5) \<open>ParseAddr ip = Some a0\<close> this(2,1)] show ?thesis using \<open>ParseAddr ip = Some a0\<close> by blast
    next
      case False
      then have "H' = H" "v' = v1" "r = Some res \<or> br_Hostnames res = []"
        using assms(6) H' \<open>ParseAddr ip = Some a0\<close> g None r
        by (auto simp: Verify_def history_after_def did_resolve_def resolveAndCache_def Let_def split: option.splits)
      then show ?thesis using rr sb \<open>ParseAddr ip = Some a0\<close> by blast
    qed
  qed
qed

end

text \<open>
  The runs of a verifier: it starts with an empty local cache on a store without records of its own; then calls
  of \<open>Verify\<close> follow, with any DNS answers, between changes of the store that leave its records alone (other
  components, sweeps, expiry).
\<close>

inductive bv_reach ::
  "'s store_ops \<Rightarrow> ('s \<Rightarrow> nanos \<Rightarrow> view) \<Rightarrow> ('s \<Rightarrow> bool) \<Rightarrow> 's expiry_reader option \<Rightarrow> (addr \<Rightarrow> nat) \<Rightarrow> nanos \<Rightarrow> 's verifier \<Rightarrow> resolution set \<Rightarrow> bool"
  for ops live ok reader hash where
  bv_start: "ok s \<Longrightarrow> \<forall>ip. live s now (bot_keyPrefix @ ip) = None \<Longrightarrow>
    bv_reach ops live ok reader hash now \<lparr>vf_local = newLocalCache, vf_store = s\<rparr> {}"
| bv_verify: "bv_reach ops live ok reader hash t0 v H \<Longrightarrow> t0 \<le> now \<Longrightarrow> valid_names rv \<Longrightarrow>
    Verify ops reader hash rv slot now ip opts v = (res, v') \<Longrightarrow>
    bv_reach ops live ok reader hash now v' (history_after ops reader hash rv slot now ip opts v H)"
| bv_other: "bv_reach ops live ok reader hash t0 v H \<Longrightarrow> t0 \<le> now \<Longrightarrow> ok s' \<Longrightarrow>
    \<forall>ip. live s' now (bot_keyPrefix @ ip) = live (vf_store v) now (bot_keyPrefix @ ip) \<Longrightarrow>
    bv_reach ops live ok reader hash now (v\<lparr>vf_store := s'\<rparr>) H"

definition bv_inv :: "('s \<Rightarrow> nanos \<Rightarrow> view) \<Rightarrow> ('s \<Rightarrow> bool) \<Rightarrow> (addr \<Rightarrow> nat) \<Rightarrow> nanos \<Rightarrow> 's verifier \<Rightarrow> resolution set \<Rightarrow> bool" where
  "bv_inv live ok hash now v H \<longleftrightarrow>
     ok (vf_store v) \<and> cache_ok hash (vf_local v) \<and> local_backed H (vf_local v) \<and> store_backed H (live (vf_store v) now) \<and> (\<forall>r \<in> H. fst r \<le> now)"

context expiry_store
begin

lemma bv_inv_later: "bv_inv live ok hash t0 v H \<Longrightarrow> t0 \<le> now \<Longrightarrow> bv_inv live ok hash now v H"
  unfolding bv_inv_def store_backed_def by (meson live_antimono order_trans)

lemma bv_inv_verify:
  assumes "bv_inv live ok hash now v H" "valid_names rv" "Verify ops reader hash rv slot now ip opts v = (res, v')"
  shows "bv_inv live ok hash now v' (history_after ops reader hash rv slot now ip opts v H)"
  using verify_ok [OF _ _ _ _ assms(2,3) refl, of H] assms(1) by (auto simp: bv_inv_def history_after_def)

lemma bv_reach_inv: "bv_reach ops live ok reader hash now v H \<Longrightarrow> bv_inv live ok hash now v H"
proof (induction rule: bv_reach.induct)
  case (bv_start s now)
  then show ?case by (simp add: bv_inv_def newLocalCache_ok local_backed_def store_backed_def)
next
  case (bv_verify t0 v H now rv slot ip opts res v')
  then show ?case using bv_inv_later bv_inv_verify by blast
next
  case (bv_other t0 v H now s')
  then have "bv_inv live ok hash now v H" using bv_inv_later by blast
  then show ?case using bv_other by (simp add: bv_inv_def store_backed_def)
qed

lemma identity_fresh:
  assumes "bv_reach ops live ok reader hash t0 v H" "t0 \<le> now" "valid_names rv"
    and "Verify ops reader hash rv slot now ip opts v = (res, v')" "h \<in> set (br_Hostnames res)"
  shows "\<exists>t rv' ip' opts' a a'. (t, rv', ip', opts') \<in> history_after ops reader hash rv slot now ip opts v H \<and> t \<le> now \<and>
    now \<le> t + bo_CacheTTL (with_defaults opts') \<and> ParseAddr ip = Some a \<and> ParseAddr ip' = Some a' \<and> Unmap a' = Unmap a \<and>
    forward_confirmed rv' ip' (Unmap a) h"
proof -
  define H' where "H' = history_after ops reader hash rv slot now ip opts v H"
  have inv: "bv_inv live ok hash now v H" using bv_reach_inv [OF assms(1)] bv_inv_later assms(2) by blast
  then obtain a x where a: "ParseAddr ip = Some a" "now \<le> x" "vouches H' (Unmap a) res x"
    using verify_ok [OF _ _ _ _ assms(3,4) H'_def] assms(5) by (auto simp: bv_inv_def)
  then obtain t rv' ip' opts' a' where r: "(t, rv', ip', opts') \<in> H'" "ParseAddr ip' = Some a'" "Unmap a' = Unmap a" "res = bv_resolve rv' ip'"
      "x \<le> t + record_ttl (with_defaults opts') res" by (auto simp: vouches_def)
  have "br_Status res = StatusConfirmed" using resolve_cases [OF r(2), of rv' res] r(4) assms(5) by auto
  moreover have "t \<le> now" using bv_inv_verify [OF inv assms(3,4)] r(1) by (auto simp: bv_inv_def H'_def)
  moreover have "forward_confirmed rv' ip' (Unmap a) h" using resolve_confirms [OF r(2)] assms(5) r(3,4) by simp
  ultimately show ?thesis using a(1,2) r(1-3,5) by (fastforce simp: record_ttl_def H'_def)
qed

end

lemma sm_GetWithExpiry_refines:
  assumes "sm_ok s"
  shows "refines sm_live sm_ok now s (sm_GetWithExpiry now k s) (spec_GetWithExpiry k (sm_live s now))"
proof -
  obtain r s' where g: "sm_get now k s = (r, s')" by fastforce
  note rd = sm_get_reads [OF assms g]
  show ?thesis by (auto simp: sm_GetWithExpiry_def g spec_GetWithExpiry_def rd intro!: sm_refinesI)
qed

interpretation memx: expiry_store sm_ops sm_live sm_ok "Some sm_GetWithExpiry"
  by unfold_locales (simp add: sm_GetWithExpiry_refines)

text \<open>The overload path and the pipeline see the same identity.\<close>

lemma cached_is_verified:
  assumes "LookupCached hash contended now ip v = Some r"
  shows "fst (Verify ops reader hash rv slot now ip opts v) = r"
  using assms
  by (auto simp: LookupCached_def lc_get_shed_def Verify_def lc_get_def Let_def split: option.splits if_splits)

section \<open>An example\<close>

definition example_resolver :: resolver where
  "example_resolver = \<lparr>rv_LookupAddr = (\<lambda>_. Inr [''crawl.googlebot.com.'']), rv_LookupIPAddr = (\<lambda>_. Inr [Some (AddrV4 [192, 0, 2, 7])])\<rparr>"

abbreviation fresh_verifier :: "sharded_memory verifier" where
  "fresh_verifier \<equiv> \<lparr>vf_local = newLocalCache, vf_store = fresh_memory\<rparr>"

lemma example_valid: "valid_names example_resolver"
  by (simp add: valid_names_def example_resolver_def valid_ptr_def trimSuffix_def suffix_def hasSuffix_def)

lemma example_addr_parse: "ParseAddr ''192.0.2.7'' = Some (AddrV4 [192, 0, 2, 7])"
  by (simp add: ParseAddr_def parseIPv4Fields_def dec_digit_def)

lemma example_resolution: "bv_resolve example_resolver ''192.0.2.7'' = \<lparr>br_Status = StatusConfirmed, br_Hostnames = [''crawl.googlebot.com'']\<rparr>"
  by (simp add: bv_resolve_def example_addr_parse example_resolver_def maxPTRs_def ptr_host_def trimSuffix_def suffix_def toLower_def ascii_lower_def)

lemma example_verify:
  "fst (Verify sm_ops (Some sm_GetWithExpiry) (\<lambda>_. 0) example_resolver True 30 ''192.0.2.7'' o1 fresh_verifier) =
     \<lparr>br_Status = StatusConfirmed, br_Hostnames = [''crawl.googlebot.com'']\<rparr>"
proof -
  have g: "fst (sm_GetWithExpiry 30 k fresh_memory) = Inr None" for k
    using sm_GetWithExpiry_refines [OF fresh_memory_ok, of 30 k] by (simp add: refines_def spec_GetWithExpiry_def fresh_memory_live)
  have l: "lc_get (\<lambda>_. 0) 30 a newLocalCache = (None, newLocalCache)" for a
    by (simp add: lc_get_def lc_shard_def newLocalCache_def localShards_def shard_find_def)
  have "fst (read_record sm_ops (Some sm_GetWithExpiry) (\<lambda>_. 0) 30 ''192.0.2.7'' a fresh_verifier) = None" for a
    using g [of "bot_keyPrefix @ ''192.0.2.7''"] by (auto simp: read_record_def split: prod.splits)
  then obtain v1 where "read_record sm_ops (Some sm_GetWithExpiry) (\<lambda>_. 0) 30 ''192.0.2.7'' (AddrV4 [192, 0, 2, 7]) fresh_verifier = (None, v1)"
    by (metis prod.collapse)
  then show ?thesis
    by (auto simp: Verify_def example_addr_parse Let_def l resolveAndCache_def example_resolution split: prod.splits option.splits)
qed

end
