(* ===== verification/Pipeline.thy ===== *)
theory Pipeline
  imports Domain_Config Attack_Mode Pow_Tokens Bot_Verify
begin

text \<open>
  The decision pipeline (\<^verbatim>\<open>core/pipeline.go\<close>) and the engine around it (\<^verbatim>\<open>core/engine.go\<close>): the twelve stages
  in the code's order, the evaluation loop that fails open on a stage error, the conversion of a challenge no
  client can complete, event recording, the overload gate and the operator's block.

  A stage takes the environment of the request and the mutable state and returns an error or an optional
  terminal decision. The state joins what the stages change: the store, the enforcement mirror, the
  token manager, the attack detector's counters and the request-local memos of \<^verbatim>\<open>stageEnv\<close>.

  Parameters: the origin and reputation lookups (\<^verbatim>\<open>core/intel\<close>), the crawler verifier (\<open>Bot_Verify\<close>) and
  the anomaly scorer (\<^verbatim>\<open>core/anomaly\<close>) are functions of the environment; scores are rationals. Metrics, logs and
  the ring of recent decisions are left out. A closed engine is \<^const>\<open>None\<close>.
\<close>

section \<open>Environment and state\<close>

record intel_provider =
  in_FeedMatch :: "addr \<Rightarrow> string \<Rightarrow> string option"
  in_Lookup :: "addr \<Rightarrow> string \<times> 32 word"

type_synonym scorer = "string \<Rightarrow> string \<Rightarrow> string \<Rightarrow> string \<Rightarrow> string \<Rightarrow> rat option"

record ('s, 'k, 'x) stage_env =
  se_ops :: "'s store_ops"
  se_now :: nanos
  se_domain :: domain_config
  se_rules :: "rule_cache option"
  se_rx :: regexes
  se_models :: "(string \<Rightarrow> scorer option) option"
  se_intel :: "intel_provider option"
  se_exempt :: "'x exempt_cache option"
  se_lib :: "'x jwt_lib"
  se_bots :: "(string \<Rightarrow> bot_options \<Rightarrow> bot_result) option"
  se_botsCached :: "string \<Rightarrow> bot_result option"
  se_attack :: posture
  se_powenv :: "'k pow_env"
  se_disk :: "'k disk"
  se_unblockHold :: nanos
  se_owner :: "nat \<Rightarrow> 64 word"

datatype token_verdict =
  TokenUnchecked | TokenValid | TokenAbsent | TokenInvalid | TokenExpired | TokenBinding | TokenUnderDifficulty

record ('s, 'k) pipe_state =
  pl_store :: 's
  pl_enforcer :: "manager option"
  pl_pow :: "'k pow_manager option"
  pl_attack :: "detector option"
  pl_token :: token_verdict
  pl_headerExempt :: nat
  pl_powExemption :: string

datatype stage_error = ErrUnparseableIP string | ErrStage store_error

type_synonym ('s, 'k, 'x) stage =
  "('s, 'k, 'x) stage_env \<Rightarrow> request_context \<Rightarrow> ('s, 'k) pipe_state \<Rightarrow> (stage_error + decision option) \<times> ('s, 'k) pipe_state"

definition effBits :: "('s, 'k, 'x) stage_env \<Rightarrow> int \<times> int" where
  "effBits env =
     (let p = dm_PoW (se_domain env)
      in EffectiveBits (Some (se_attack env)) (BaseBits p) (MaxBits p) (posture_Cap (Some (se_attack env)) (MaxBits p)))"

definition pow_on :: "('s, 'k, 'x) stage_env \<Rightarrow> ('s, 'k) pipe_state \<Rightarrow> bool" where
  "pow_on env st \<longleftrightarrow> pl_pow st \<noteq> None \<and> pw_Enabled (dm_PoW (se_domain env))"

section \<open>Exemptions\<close>

definition headerPoWExempt ::
  "('s, 'k, 'x) stage_env \<Rightarrow> request_context \<Rightarrow> ('s, 'k) pipe_state \<Rightarrow> bool \<times> ('s, 'k) pipe_state" where
  "headerPoWExempt env req st =
     (if pl_headerExempt st \<noteq> 0 then (pl_headerExempt st = 2, st)
      else let p = dm_PoW (se_domain env)
           in if \<not> pw_Enabled p \<or> pw_HeaderExemptions p = [] \<or> se_exempt env = None then (False, st\<lparr>pl_headerExempt := 1\<rparr>)
              else if xo_Matched (hx_Match (se_lib env) (se_now env) (se_exempt env) (pw_headerExemptionKey p)
                        \<lparr>xr_Host = ctx_Host req, xr_Path = NormalizedPath req, xr_Header = ctx_Header req\<rparr>)
              then (True, st\<lparr>pl_powExemption := ''header_exemption'', pl_headerExempt := 2\<rparr>)
              else (False, st\<lparr>pl_headerExempt := 1\<rparr>))"

definition powExempt ::
  "('s, 'k, 'x) stage_env \<Rightarrow> request_context \<Rightarrow> ('s, 'k) pipe_state \<Rightarrow> bool \<times> ('s, 'k) pipe_state" where
  "powExempt env req st = (if pl_powExemption st \<noteq> '''' then (True, st) else headerPoWExempt env req st)"

section \<open>The token of the request\<close>

fun first_cookie :: "string \<Rightarrow> string list \<Rightarrow> string option" where
  "first_cookie name [] = None"
| "first_cookie name (part # parts) =
     (case cutPrefix (trimSpace part) (name @ ''='') of Some v \<Rightarrow> Some v | None \<Rightarrow> first_cookie name parts)"

definition cookieValue :: "string \<Rightarrow> string \<Rightarrow> string option" where
  "cookieValue header name = first_cookie name (split_on (CHR '';'') header)"

definition CookieName :: string where "CookieName = ''guardian_token''"

fun classifyToken :: "token_error option \<Rightarrow> token_verdict" where
  "classifyToken None = TokenValid"
| "classifyToken (Some ErrTokenBinding) = TokenBinding"
| "classifyToken (Some ErrTokenUnderDifficulty) = TokenUnderDifficulty"
| "classifyToken (Some ErrTokenExpired) = TokenExpired"
| "classifyToken (Some ErrTokenInvalid) = TokenInvalid"
| "classifyToken (Some (ErrKeyRefresh e)) = TokenInvalid"

fun verdict_reason :: "token_verdict \<Rightarrow> string" where
  "verdict_reason TokenInvalid = ''pow:token_invalid''"
| "verdict_reason TokenExpired = ''pow:token_expired''"
| "verdict_reason TokenBinding = ''pow:token_binding''"
| "verdict_reason TokenUnderDifficulty = ''pow:token_underdifficulty''"
| "verdict_reason _ = ''pow:no_token''"

definition reasonUnchallengeable :: string where "reasonUnchallengeable = ''pow:unchallengeable''"

definition powToken ::
  "('s, 'k, 'x) stage_env \<Rightarrow> request_context \<Rightarrow> ('s, 'k) pipe_state \<Rightarrow> token_verdict \<times> ('s, 'k) pipe_state" where
  "powToken env req st =
     (if pl_token st \<noteq> TokenUnchecked then (pl_token st, st)
      else let p = dm_PoW (se_domain env)
           in case pl_pow st of
                None \<Rightarrow> (TokenAbsent, st\<lparr>pl_token := TokenAbsent\<rparr>)
              | Some m \<Rightarrow>
                  (if \<not> pw_Enabled p then (TokenAbsent, st\<lparr>pl_token := TokenAbsent\<rparr>)
                   else case cookieValue (ctx_Cookie req) CookieName of
                          None \<Rightarrow> (TokenAbsent, st\<lparr>pl_token := TokenAbsent\<rparr>)
                        | Some token \<Rightarrow>
                            (case VerifyToken (se_powenv env) (se_disk env) (se_now env) token (ctx_Host req) (ctx_RemoteAddr req)
                                    (ctx_UserAgent req) (TokenMinBits p) (pw_TokenTTL p) m of
                               (err, m') \<Rightarrow> let v = classifyToken err in (v, st\<lparr>pl_token := v, pl_pow := Some m'\<rparr>))))"

definition hasValidPoWToken ::
  "('s, 'k, 'x) stage_env \<Rightarrow> request_context \<Rightarrow> ('s, 'k) pipe_state \<Rightarrow> bool \<times> ('s, 'k) pipe_state" where
  "hasValidPoWToken env req st = (case powToken env req st of (v, st') \<Rightarrow> (v = TokenValid, st'))"

definition decisionPoWToken :: decision where
  "decisionPoWToken = verdict ActionAllow ''pow:token'' []"

section \<open>The stages\<close>

definition allowlistStage :: "('s, 'k, 'x) stage" where
  "allowlistStage env req st =
     (Inr None, st\<lparr>pl_powExemption := MatchAllowlist req (dm_Allowlist (se_domain env))\<rparr>)"

definition headerPoWExemptionStage :: "('s, 'k, 'x) stage" where
  "headerPoWExemptionStage env req st = (Inr None, snd (powExempt env req st))"

definition denylistStage :: "('s, 'k, 'x) stage" where
  "denylistStage env req st =
     (case ParseAddr (ctx_RemoteAddr req) of
        None \<Rightarrow> (Inl (ErrUnparseableIP (ctx_RemoteAddr req)), st)
      | Some _ \<Rightarrow> (Inr (CheckDenylist req (dm_Denylist (se_domain env))), st))"

definition classifyBotIdentity ::
  "bot_config \<Rightarrow> bot_status \<Rightarrow> bool \<Rightarrow> ('s, 'k) pipe_state \<Rightarrow> string \<times> ('s, 'k) pipe_state" where
  "classifyBotIdentity bo status matches st =
     (if status = StatusConfirmed \<and> matches
      then (''verified'', if pl_powExemption st = '''' \<or> pl_powExemption st = ''header_exemption''
                          then st\<lparr>pl_powExemption := ''verified_bot:'' @ bt_Name bo\<rparr> else st)
      else if status = StatusError then (''error'', st)
      else (''spoof'', st))"

definition bot_opts :: "verified_bots_config \<Rightarrow> bot_options" where
  "bot_opts vb = \<lparr>bo_Timeout = vb_DNSTimeout vb, bo_CacheTTL = vb_CacheTTL vb, bo_NegativeTTL = vb_NegativeTTL vb\<rparr>"

definition verifiedBotStage :: "('s, 'k, 'x) stage" where
  "verifiedBotStage env req st =
     (let vb = dm_VerifiedBots (se_domain env)
      in case (vb_match vb (LowerUA req), se_bots env) of
           (Some bo, Some verify) \<Rightarrow>
             (let res = verify (ctx_RemoteAddr req) (bot_opts vb);
                  (oc, st') = classifyBotIdentity bo (br_Status res) (MatchesDomains res (bt_domainsLower bo)) st
              in if oc = ''spoof'' \<and> vb_SpoofAction vb \<noteq> ''continue''
                 then (Inr (Some (verdict ActionDeny (''bot_spoof:'' @ bt_Name bo) [\<lparr>ev_Type = EventBotSpoof, ev_Detail = bt_Name bo\<rparr>])), st')
                 else (Inr None, st'))
         | _ \<Rightarrow> (Inr None, st))"

definition intelDenyStage :: "('s, 'k, 'x) stage" where
  "intelDenyStage env req st =
     (case (se_intel env, ParseAddr (ctx_RemoteAddr req)) of
        (Some ip, Some a) \<Rightarrow>
          (case (if dm_Reputation (se_domain env) then in_FeedMatch ip a ''deny'' else None) of
             Some feed \<Rightarrow> (Inr (Some (verdict ActionDeny (''reputation:'' @ feed) [])), st)
           | None \<Rightarrow>
               (let g = dm_Geo (se_domain env); info = in_Lookup ip a; act = ge_Action g (fst info) (snd info)
                in if ge_Enabled g \<and> fst act = ''deny'' then (Inr (Some (verdict ActionDeny (snd act) [])), st) else (Inr None, st)))
      | _ \<Rightarrow> (Inr None, st))"

definition behaviourBlockStage :: "('s, 'k, 'x) stage" where
  "behaviourBlockStage env req st =
     (case mg_Lookup (se_now env) (ctx_RemoteAddr req) (pl_enforcer st) of
        Some reason \<Rightarrow> (Inr (Some (verdict ActionDeny (''behaviour_block:'' @ reason) [])), st)
      | None \<Rightarrow>
          (if \<not> mg_ReadThrough (pl_enforcer st) \<and> ParseAddr (ctx_RemoteAddr req) \<noteq> None then (Inr None, st)
           else case st_Get (se_ops env) (se_now env) (BlockKey (ctx_RemoteAddr req)) (pl_store st) of
                  (Inl err, s') \<Rightarrow> (Inl (ErrStage err), st\<lparr>pl_store := s'\<rparr>)
                | (Inr None, s') \<Rightarrow> (Inr None, st\<lparr>pl_store := s'\<rparr>)
                | (Inr (Some v), s') \<Rightarrow>
                    (let why = BlockReason v
                     in (Inr (Some (verdict ActionDeny (''behaviour_block:'' @ why) [])),
                         st\<lparr>pl_store := s', pl_enforcer := mg_Learn (se_now env) (ctx_RemoteAddr req) why (pl_enforcer st)\<rparr>))))"

definition honeypotStage :: "('s, 'k, 'x) stage" where
  "honeypotStage env req st = (Inr (CheckHoneypot req (dm_Honeypot (se_domain env))), st)"

definition wafRulesStage :: "('s, 'k, 'x) stage" where
  "wafRulesStage env req st =
     (let rules = dm_Rules (se_domain env)
      in case (if rl_Enabled rules then (case se_rules env of None \<Rightarrow> None | Some rc \<Rightarrow> rc_Get (rl_ruleKey rules) rc) else None) of
           None \<Rightarrow> (Inr None, st)
         | Some rs \<Rightarrow>
             (case powExempt env req st of
                (exempt, st1) \<Rightarrow>
                  (case MatchEnforcing (se_rx env) (BuildMatchInput req rs) exempt rs of
                     None \<Rightarrow> (Inr None, st1)
                   | Some rule \<Rightarrow>
                       (let reason = ''waf:'' @ wr_ID rule;
                            deny = verdict ActionDeny reason [\<lparr>ev_Type = EventRuleMatch, ev_Detail = wr_ID rule\<rparr>]
                        in case wr_Action rule of
                             WafAllow \<Rightarrow> (Inr (Some (verdict ActionAllow reason [])), st1)
                           | WafChallenge \<Rightarrow>
                               (if pow_on env st1
                                then (case hasValidPoWToken env req st1 of
                                        (True, st2) \<Rightarrow> (Inr (Some decisionPoWToken), st2)
                                      | (False, st2) \<Rightarrow>
                                          (Inr (Some ((verdict ActionChallenge reason [\<lparr>ev_Type = EventRuleMatch, ev_Detail = wr_ID rule\<rparr>])
                                             \<lparr>dc_Difficulty := min (fst (effBits env) + 4) (snd (effBits env))\<rparr>)), st2))
                                else (Inr (Some deny), st1))
                           | WafDeny \<Rightarrow> (Inr (Some deny), st1)
                           | WafBlock \<Rightarrow>
                               (Inr (Some (verdict ActionDeny reason [\<lparr>ev_Type = EventInstantBlock, ev_Detail = reason\<rparr>])), st1)))))"

definition powTokenStage :: "('s, 'k, 'x) stage" where
  "powTokenStage env req st =
     (case powExempt env req st of
        (True, st1) \<Rightarrow> (Inr None, st1)
      | (False, st1) \<Rightarrow>
          (case hasValidPoWToken env req st1 of
             (True, st2) \<Rightarrow> (Inr (Some decisionPoWToken), st2)
           | (False, st2) \<Rightarrow> (Inr None, st2)))"

definition intelChallengeStage :: "('s, 'k, 'x) stage" where
  "intelChallengeStage env req st =
     (if se_intel env = None \<or> \<not> pow_on env st then (Inr None, st)
      else case powExempt env req st of
             (True, st1) \<Rightarrow> (Inr None, st1)
           | (False, st1) \<Rightarrow>
               (case ParseAddr (ctx_RemoteAddr req) of
                  None \<Rightarrow> (Inr None, st1)
                | Some a \<Rightarrow>
                    (let ip = the (se_intel env); (base, maxDiff) = effBits env
                     in case (if dm_Reputation (se_domain env) then in_FeedMatch ip a ''challenge'' else None) of
                          Some feed \<Rightarrow>
                            (Inr (Some ((verdict ActionChallenge (''reputation:'' @ feed) [])\<lparr>dc_Difficulty := min (base + 4) maxDiff\<rparr>)), st1)
                        | None \<Rightarrow>
                            (let g = dm_Geo (se_domain env); info = in_Lookup ip a; act = ge_Action g (fst info) (snd info)
                             in if ge_Enabled g \<and> fst act = ''challenge''
                                then (Inr (Some ((verdict ActionChallenge (snd act) [])\<lparr>dc_Difficulty := base\<rparr>)), st1)
                                else (Inr None, st1)))))"

text \<open>Conversion to an integer truncates towards zero; the score is printed with two decimals, ties to even.\<close>

definition go_trunc :: "rat \<Rightarrow> int" where
  "go_trunc x = (if x \<ge> 0 then \<lfloor>x\<rfloor> else - \<lfloor>- x\<rfloor>)"

definition scaleDifficulty :: "int \<Rightarrow> int \<Rightarrow> rat \<Rightarrow> rat \<Rightarrow> int" where
  "scaleDifficulty base maxDiff score challengeAt =
     (if challengeAt \<ge> 1 then base
      else let d = base + go_trunc (of_int (maxDiff - base) * (score - challengeAt) / (1 - challengeAt) + 1 / 2)
           in min (max d base) maxDiff)"

definition fmt_score :: "rat \<Rightarrow> string" where
  "fmt_score x =
     (let f = \<lfloor>x * 100\<rfloor>; r = x * 100 - of_int f;
          n = nat (if r > 1 / 2 \<or> r = 1 / 2 \<and> odd f then f + 1 else f)
      in fmt_uint 10 (n div 100) @ ''.'' @ fmt_uint 10 (n div 10 mod 10) @ fmt_uint 10 (n mod 10))"

definition anomalyStage :: "('s, 'k, 'x) stage" where
  "anomalyStage env req st =
     (let a = dm_Anomaly (se_domain env)
      in if \<not> an_Enabled a then (Inr None, st)
         else case (case se_models env of None \<Rightarrow> None | Some models \<Rightarrow> models (an_Model a)) of
                None \<Rightarrow> (Inr None, st)
              | Some score_of \<Rightarrow>
                  (case score_of (ctx_Host req) (ctx_Method req) (DecodePath (RequestPath (ctx_URI req)))
                          (DecodeQuery (RequestQuery (ctx_URI req))) (ctx_UserAgent req) of
                     None \<Rightarrow> (Inr None, st)
                   | Some score \<Rightarrow>
                       (let evs = [\<lparr>ev_Type = EventAnomaly, ev_Detail = ''score='' @ fmt_score score\<rparr>]
                        in if an_ObserveOnly a then (Inr None, st)
                           else if score \<ge> an_DenyAt a then (Inr (Some (verdict ActionDeny ''anomaly:deny'' evs)), st)
                           else if score \<ge> an_ChallengeAt a \<and> pow_on env st
                           then (case powExempt env req st of
                                   (True, st1) \<Rightarrow> (Inr None, st1)
                                 | (False, st1) \<Rightarrow>
                                     (Inr (Some ((verdict ActionChallenge ''anomaly:challenge'' evs)
                                        \<lparr>dc_Difficulty := scaleDifficulty (fst (effBits env)) (snd (effBits env)) score (an_ChallengeAt a)\<rparr>)), st1))
                           else (Inr None, st))))"

definition powChallengeStage :: "('s, 'k, 'x) stage" where
  "powChallengeStage env req st =
     (if \<not> pow_on env st then (Inr None, st)
      else case powExempt env req st of
             (True, st1) \<Rightarrow> (Inr None, st1)
           | (False, st1) \<Rightarrow>
               (let p = dm_PoW (se_domain env)
                in if pw_Mode p = ''suspicion'' \<and> an_Enabled (dm_Anomaly (se_domain env)) \<and> \<not> ps_ForceAlways (se_attack env)
                   then (Inr None, st1)
                   else case powToken env req st1 of
                          (v, st2) \<Rightarrow>
                            (Inr (Some ((verdict ActionChallenge (verdict_reason v) [])\<lparr>dc_Difficulty := fst (effBits env)\<rparr>)), st2)))"

definition stages :: "('s, 'k, 'x) stage list" where
  "stages = [allowlistStage, headerPoWExemptionStage, denylistStage, verifiedBotStage, intelDenyStage, behaviourBlockStage,
     honeypotStage, wafRulesStage, powTokenStage, intelChallengeStage, anomalyStage, powChallengeStage]"

section \<open>The engine\<close>

definition reasonCategory :: "string \<Rightarrow> string" where
  "reasonCategory reason = before_byte (CHR '':'') reason"

definition scoreboardFactor :: "config \<Rightarrow> posture \<Rightarrow> rat" where
  "scoreboardFactor c p =
     (if ps_Level p \<noteq> Attack then 1
      else let f = cf_ScoreboardFactor c in if 0 < f \<and> f < 1 then f else 1)"

text \<open>One event of \<open>recordEvents\<close>; a failure is logged and the next event follows.\<close>

definition record_event ::
  "('s, 'k, 'x) stage_env \<Rightarrow> string \<Rightarrow> ip_behaviour_config \<Rightarrow> rat \<Rightarrow> nat \<Rightarrow> event \<Rightarrow> manager option \<times> 's \<Rightarrow> manager option \<times> 's" where
  "record_event env ip ib factor i ev ms =
     (if ev_Type ev = EventInstantBlock
      then snd (sb_Block (se_ops env) (se_unblockHold env) (se_now env) ip (ev_Detail ev) (ib_BlockTTL ib) (ib_MaxBlockTTL ib) (se_owner env i) ms)
      else case map_of (ib_Thresholds ib) (ev_Type ev) of
             None \<Rightarrow> ms
           | Some r \<Rightarrow>
               (if rt_Count r \<le> 0 then ms
                else let limit = (if 0 < factor \<and> factor < 1 then max 1 (go_trunc (of_int (rt_Count r) * factor)) else rt_Count r)
                     in snd (sb_RecordEvent (se_ops env) (se_unblockHold env) (se_now env) ip (ev_Type ev) limit (rt_Per r)
                               (ib_BlockTTL ib) (ib_MaxBlockTTL ib) (se_owner env i) ms)))"

fun record_loop ::
  "('s, 'k, 'x) stage_env \<Rightarrow> string \<Rightarrow> ip_behaviour_config \<Rightarrow> rat \<Rightarrow> nat \<Rightarrow> event list \<Rightarrow> manager option \<times> 's \<Rightarrow> manager option \<times> 's" where
  "record_loop env ip ib factor i [] ms = ms"
| "record_loop env ip ib factor i (ev # evs) ms = record_loop env ip ib factor (Suc i) evs (record_event env ip ib factor i ev ms)"

definition recordEvents ::
  "('s, 'k, 'x) stage_env \<Rightarrow> string \<Rightarrow> event list \<Rightarrow> rat \<Rightarrow> ('s, 'k) pipe_state \<Rightarrow> ('s, 'k) pipe_state" where
  "recordEvents env ip evs factor st =
     (let ib = dm_IPBehaviour (se_domain env)
      in if evs = [] \<or> \<not> ib_Enabled ib then st
         else let (om, s) = record_loop env ip ib factor 0 evs (pl_enforcer st, pl_store st)
              in st\<lparr>pl_enforcer := om, pl_store := s\<rparr>)"

text \<open>The stage loop: an error fails open to the next stage, the first decision ends it.\<close>

fun run_stages :: "('s, 'k, 'x) stage list \<Rightarrow> ('s, 'k, 'x) stage_env \<Rightarrow> request_context \<Rightarrow> ('s, 'k) pipe_state \<Rightarrow>
    decision option \<times> ('s, 'k) pipe_state" where
  "run_stages [] env req st = (None, st)"
| "run_stages (s # ss) env req st =
     (case s env req st of
        (Inr (Some d), st') \<Rightarrow> (Some d, st')
      | (_, st') \<Rightarrow> run_stages ss env req st')"

definition withhold :: "domain_config \<Rightarrow> request_context \<Rightarrow> decision \<Rightarrow> decision" where
  "withhold dc req d =
     (if dc_Action d = ActionChallenge \<and> ctx_Unchallengeable req \<and> RefusesUnchallengeable (dm_PoW dc)
      then verdict ActionRefuse (if reasonCategory (dc_Reason d) = ''pow'' then reasonUnchallengeable else dc_Reason d) []
      else d)"

definition fresh_memo :: "('s, 'k) pipe_state \<Rightarrow> ('s, 'k) pipe_state" where
  "fresh_memo st = st\<lparr>pl_token := TokenUnchecked, pl_headerExempt := 0, pl_powExemption := ''''\<rparr>"

definition current_posture :: "('s, 'k) pipe_state \<Rightarrow> posture" where
  "current_posture st =
     (case pl_attack st of
        None \<Rightarrow> \<lparr>ps_Level = Normal, ps_ExtraBits = 0, ps_CapBits = 0, ps_ForceAlways = False, ps_Stateless = False, ps_Since = None, ps_Reason = ''''\<rparr>
      | Some d \<Rightarrow> dt_state d)"

definition request_env :: "config \<Rightarrow> ('s, 'k, 'x) stage_env \<Rightarrow> request_context \<Rightarrow> ('s, 'k) pipe_state \<Rightarrow> ('s, 'k, 'x) stage_env" where
  "request_env cfg env req st = env\<lparr>se_domain := scopeForRequest cfg req, se_attack := current_posture st\<rparr>"

definition eng_Evaluate ::
  "config option \<Rightarrow> ('s, 'k, 'x) stage_env \<Rightarrow> request_context \<Rightarrow> ('s, 'k) pipe_state \<Rightarrow> decision \<times> ('s, 'k) pipe_state" where
  "eng_Evaluate snap env0 req st0 =
     (case snap of
        None \<Rightarrow> (verdict ActionAllow ''engine:closed'' [], st0)
      | Some cfg \<Rightarrow>
          (let st1 = fresh_memo (st0\<lparr>pl_attack := map_option am_Evaluated (pl_attack st0)\<rparr>);
               env = request_env cfg env0 req st1
           in case run_stages stages env req st1 of
                (None, st2) \<Rightarrow> ((verdict ActionAllow ''default'' [])\<lparr>dc_PoWExemption := pl_powExemption st2\<rparr>, st2)
              | (Some sd, st2) \<Rightarrow>
                  (let st3 = recordEvents env (ctx_RemoteAddr req) (dc_Events sd) (scoreboardFactor cfg (current_posture st2)) st2
                   in ((withhold (se_domain env) req sd)\<lparr>dc_PoWExemption := pl_powExemption st3\<rparr>, st3))))"

definition ReportEvent ::
  "config option \<Rightarrow> ('s, 'k, 'x) stage_env \<Rightarrow> string \<Rightarrow> string \<Rightarrow> string \<Rightarrow> string \<Rightarrow> ('s, 'k) pipe_state \<Rightarrow> ('s, 'k) pipe_state" where
  "ReportEvent snap env host ip evtype detail st =
     (case snap of
        None \<Rightarrow> st
      | Some cfg \<Rightarrow>
          recordEvents (env\<lparr>se_domain := ds_cfg (DomainFor cfg host)\<rparr>) ip [\<lparr>ev_Type = evtype, ev_Detail = detail\<rparr>]
            (scoreboardFactor cfg (current_posture st)) st)"

definition BlockIP ::
  "'s store_ops \<Rightarrow> nanos \<Rightarrow> string \<Rightarrow> string \<Rightarrow> nanos \<Rightarrow> 64 word \<Rightarrow> ('s, 'k) pipe_state \<Rightarrow> (store_error + unit) \<times> ('s, 'k) pipe_state" where
  "BlockIP ops now ip reason ttl tok st =
     (case st_Set ops now (BlockKey ip) (BlockValue reason tok) ttl (pl_store st) of
        (Inl err, s') \<Rightarrow> (Inl err, st\<lparr>pl_store := s'\<rparr>)
      | (Inr _, s') \<Rightarrow> (Inr (), st\<lparr>pl_store := s', pl_enforcer := notifyEnforcer now ip reason ttl False (pl_enforcer st)\<rparr>))"

section \<open>The overload gate\<close>

datatype shed_verdict = ShedPass | ShedDeny | ShedReject

definition maxInflight :: string where "maxInflight = ''admission:max_inflight''"

text \<open>The crawler check of the gate, from the local cache only: the verdict, or the state to go on with.\<close>

definition shed_bots ::
  "('s, 'k, 'x) stage_env \<Rightarrow> request_context \<Rightarrow> ('s, 'k) pipe_state \<Rightarrow> (shed_verdict \<times> string) + ('s, 'k) pipe_state" where
  "shed_bots env req st =
     (let vb = dm_VerifiedBots (se_domain env)
      in case vb_match vb (LowerUA req) of
           None \<Rightarrow> Inr st
         | Some bo \<Rightarrow>
             (case se_botsCached env (ctx_RemoteAddr req) of
                None \<Rightarrow> Inl (ShedReject, maxInflight)
              | Some idt \<Rightarrow>
                  (let (oc, st') = classifyBotIdentity bo (br_Status idt) (MatchesDomains idt (bt_domainsLower bo)) st
                   in if oc = ''error'' then Inl (ShedReject, maxInflight)
                      else if oc = ''spoof'' \<and> vb_SpoofAction vb \<noteq> ''continue'' then Inl (ShedDeny, ''bot_spoof:'' @ bt_Name bo)
                      else Inr st')))"

definition stage_decision :: "(stage_error + decision option) \<times> ('s, 'k) pipe_state \<Rightarrow> decision option" where
  "stage_decision r = (case fst r of Inl _ \<Rightarrow> None | Inr d \<Rightarrow> d)"

definition shed_local ::
  "('s, 'k, 'x) stage_env \<Rightarrow> request_context \<Rightarrow> ('s, 'k) pipe_state \<Rightarrow> (shed_verdict \<times> string) \<times> ('s, 'k) pipe_state" where
  "shed_local env req st =
     (case intelDenyStage env req st of
        (Inr (Some d), st1) \<Rightarrow> ((ShedDeny, dc_Reason d), st1)
      | (_, st1) \<Rightarrow>
          (case honeypotStage env req st1 of
             (Inr (Some d), st2) \<Rightarrow> ((ShedDeny, dc_Reason d), st2)
           | (_, st2) \<Rightarrow>
               (case wafRulesStage env req st2 of
                  (Inr (Some d), st3) \<Rightarrow>
                    ((case dc_Action d of
                        ActionDeny \<Rightarrow> (ShedDeny, dc_Reason d)
                      | ActionAllow \<Rightarrow> (ShedPass, dc_Reason d)
                      | _ \<Rightarrow> (ShedReject, maxInflight)), st3)
                | (_, st3) \<Rightarrow>
                    (case hasValidPoWToken env req st3 of
                       (True, st4) \<Rightarrow> ((ShedPass, ''pow:token''), st4)
                     | (False, st4) \<Rightarrow> ((ShedReject, maxInflight), st4)))))"

definition ShedDecisionWithReason ::
  "config option \<Rightarrow> ('s, 'k, 'x) stage_env \<Rightarrow> request_context \<Rightarrow> ('s, 'k) pipe_state \<Rightarrow> (shed_verdict \<times> string) \<times> ('s, 'k) pipe_state" where
  "ShedDecisionWithReason snap env0 req st0 =
     (case snap of
        None \<Rightarrow> ((ShedReject, maxInflight), st0)
      | Some cfg \<Rightarrow>
          (let env = request_env cfg env0 req st0; dc = se_domain env;
               st1 = (fresh_memo st0)\<lparr>pl_powExemption := MatchAllowlist req (dm_Allowlist dc)\<rparr>
           in case (if ParseAddr (ctx_RemoteAddr req) \<noteq> None then CheckDenylist req (dm_Denylist dc) else None) of
                Some d \<Rightarrow> ((ShedDeny, dc_Reason d), st1)
              | None \<Rightarrow>
                  (case mg_Lookup (se_now env) (ctx_RemoteAddr req) (pl_enforcer st1) of
                     Some reason \<Rightarrow> ((ShedDeny, ''behaviour_block:'' @ reason), st1)
                   | None \<Rightarrow>
                       (if pl_enforcer st1 \<noteq> None \<and> mg_ReadThrough (pl_enforcer st1) then ((ShedReject, maxInflight), st1)
                        else case shed_bots env req st1 of
                               Inl v \<Rightarrow> (v, st1)
                             | Inr st2 \<Rightarrow> shed_local env req st2))))"

definition ShedDecision ::
  "config option \<Rightarrow> ('s, 'k, 'x) stage_env \<Rightarrow> request_context \<Rightarrow> ('s, 'k) pipe_state \<Rightarrow> shed_verdict \<times> ('s, 'k) pipe_state" where
  "ShedDecision snap env req st = (case ShedDecisionWithReason snap env req st of (v, st') \<Rightarrow> (fst v, st'))"


section \<open>Denials do not depend on the token\<close>

lemma run_stages_append:
  "run_stages (xs @ ys) env req st =
     (case run_stages xs env req st of (Some d, st') \<Rightarrow> (Some d, st') | (None, st') \<Rightarrow> run_stages ys env req st')"
  by (induction xs arbitrary: st) (auto split: prod.splits sum.splits option.splits)

definition early_stages :: "('s, 'k, 'x) stage list" where
  "early_stages = [allowlistStage, headerPoWExemptionStage, denylistStage, verifiedBotStage, intelDenyStage, behaviourBlockStage, honeypotStage]"

definition late_stages :: "('s, 'k, 'x) stage list" where
  "late_stages = [powTokenStage, intelChallengeStage, anomalyStage, powChallengeStage]"

lemma stages_split: "stages = early_stages @ wafRulesStage # late_stages"
  by (simp add: stages_def early_stages_def late_stages_def)

text \<open>Nothing but the token check reads the cookie.\<close>

lemma cookie_simps [simp]:
  "NormalizedPath (req\<lparr>ctx_Cookie := c\<rparr>) = NormalizedPath req" "LowerUA (req\<lparr>ctx_Cookie := c\<rparr>) = LowerUA req"
  "scopeForRequest cfg (req\<lparr>ctx_Cookie := c\<rparr>) = scopeForRequest cfg req"
  by (simp_all add: NormalizedPath_def LowerUA_def scopeForRequest_def)

lemma cookie_checks [simp]:
  "MatchAllowlist (req\<lparr>ctx_Cookie := c\<rparr>) l = MatchAllowlist req l" "CheckDenylist (req\<lparr>ctx_Cookie := c\<rparr>) l = CheckDenylist req l"
  "CheckHoneypot (req\<lparr>ctx_Cookie := c\<rparr>) hp = CheckHoneypot req hp" "BuildMatchInput (req\<lparr>ctx_Cookie := c\<rparr>) rs = BuildMatchInput req rs"
  "powExempt env (req\<lparr>ctx_Cookie := c\<rparr>) st = powExempt env req st"
proof -
  have h: "header_entry (req\<lparr>ctx_Cookie := c\<rparr>) = header_entry req" by (rule ext) (simp add: header_entry_def HeaderValues_def)
  show "MatchAllowlist (req\<lparr>ctx_Cookie := c\<rparr>) l = MatchAllowlist req l" "CheckDenylist (req\<lparr>ctx_Cookie := c\<rparr>) l = CheckDenylist req l"
    "CheckHoneypot (req\<lparr>ctx_Cookie := c\<rparr>) hp = CheckHoneypot req hp" "BuildMatchInput (req\<lparr>ctx_Cookie := c\<rparr>) rs = BuildMatchInput req rs"
    "powExempt env (req\<lparr>ctx_Cookie := c\<rparr>) st = powExempt env req st"
    by (simp_all add: MatchAllowlist_def CheckDenylist_def CheckHoneypot_def parsed_match_def BuildMatchInput_def h powExempt_def
        headerPoWExempt_def Let_def cong del: if_weak_cong)
qed

lemma early_cookie: "s \<in> set early_stages \<Longrightarrow> s env (req\<lparr>ctx_Cookie := c\<rparr>) st = s env req st"
  by (auto simp: early_stages_def allowlistStage_def headerPoWExemptionStage_def denylistStage_def verifiedBotStage_def
      intelDenyStage_def behaviourBlockStage_def honeypotStage_def Let_def
      cong del: option.case_cong_weak if_weak_cong prod.case_cong_weak sum.case_cong_weak)

lemma run_early_cookie:
  "set ss \<subseteq> set early_stages \<Longrightarrow> run_stages ss env (req\<lparr>ctx_Cookie := c\<rparr>) st = run_stages ss env req st"
proof (induction ss arbitrary: st)
  case (Cons s ss)
  then show ?case using early_cookie [of s env c req st] by (auto split: prod.splits sum.splits option.splits)
qed simp

lemma early_denies: "s \<in> set early_stages \<Longrightarrow> s env req st = (Inr (Some d), st') \<Longrightarrow> dc_Action d = ActionDeny"
  by (auto simp: early_stages_def allowlistStage_def headerPoWExemptionStage_def denylistStage_def verifiedBotStage_def intelDenyStage_def
      behaviourBlockStage_def honeypotStage_def CheckDenylist_def CheckHoneypot_def Let_def
      split: option.splits prod.splits if_splits sum.splits)

lemma run_early_denies: "set ss \<subseteq> set early_stages \<Longrightarrow> run_stages ss env req st = (Some d, st') \<Longrightarrow> dc_Action d = ActionDeny"
proof (induction ss arbitrary: st)
  case (Cons s ss)
  then show ?case using early_denies [of s env req st d] by (auto split: prod.splits sum.splits option.splits)
qed simp

lemma waf_deny_cookie:
  assumes "wafRulesStage env (req\<lparr>ctx_Cookie := c1\<rparr>) st = (Inr (Some d), st')" "dc_Action d = ActionDeny"
  shows "wafRulesStage env (req\<lparr>ctx_Cookie := c2\<rparr>) st = (Inr (Some d), st')"
  using assms by (auto simp: wafRulesStage_def decisionPoWToken_def Let_def split: option.splits prod.splits if_splits waf_action.splits bool.splits)

lemma waf_no_error: "\<exists>d. fst (wafRulesStage env req st) = Inr d"
  by (auto simp: wafRulesStage_def Let_def split: option.splits prod.splits waf_action.splits bool.splits)

lemma late_deny_is_anomaly: "s \<in> set late_stages \<Longrightarrow> s env req st = (Inr (Some d), st') \<Longrightarrow> dc_Action d = ActionDeny \<Longrightarrow> dc_Reason d = ''anomaly:deny''"
  by (auto simp: late_stages_def powTokenStage_def intelChallengeStage_def anomalyStage_def powChallengeStage_def decisionPoWToken_def Let_def
      split: option.splits prod.splits if_splits bool.splits)

lemma run_late_deny:
  "set ss \<subseteq> set late_stages \<Longrightarrow> run_stages ss env req st = (Some d, st') \<Longrightarrow> dc_Action d = ActionDeny \<Longrightarrow> dc_Reason d = ''anomaly:deny''"
proof (induction ss arbitrary: st)
  case (Cons s ss)
  then show ?case using late_deny_is_anomaly [of s env req st d] by (auto split: prod.splits sum.splits option.splits)
qed simp

lemma withhold_deny: "dc_Action (withhold dc req d) = ActionDeny \<longleftrightarrow> dc_Action d = ActionDeny"
  by (auto simp: withhold_def)

lemma withhold_deny_id: "dc_Action d = ActionDeny \<Longrightarrow> withhold dc req d = d"
  by (auto simp: withhold_def)

lemma request_env_cookie [simp]: "request_env cfg env (req\<lparr>ctx_Cookie := c\<rparr>) st = request_env cfg env req st"
  by (simp add: request_env_def)

text \<open>The denial of a run that the anomaly score did not cause is the same for every cookie.\<close>

lemma run_deny_cookie:
  assumes "run_stages stages env (req\<lparr>ctx_Cookie := c1\<rparr>) st = (Some d, st')" "dc_Action d = ActionDeny" "dc_Reason d \<noteq> ''anomaly:deny''"
  shows "run_stages stages env (req\<lparr>ctx_Cookie := c2\<rparr>) st = (Some d, st')"
proof -
  obtain o1 st1 where e: "run_stages early_stages env req st = (o1, st1)" by fastforce
  have early: "run_stages early_stages env (req\<lparr>ctx_Cookie := c\<rparr>) st = (o1, st1)" for c
    using run_early_cookie [OF subset_refl] e by metis
  show ?thesis
  proof (cases o1)
    case (Some d1)
    then show ?thesis using assms(1) early by (simp add: stages_split run_stages_append)
  next
    case None
    obtain d2 st2 where w: "wafRulesStage env (req\<lparr>ctx_Cookie := c1\<rparr>) st1 = (Inr d2, st2)"
      using waf_no_error by (metis prod.collapse)
    show ?thesis
    proof (cases d2)
      case (Some d3)
      then have "d3 = d" "st2 = st'" using assms(1) early [of c1] w None by (simp_all add: stages_split run_stages_append)
      then have "wafRulesStage env (req\<lparr>ctx_Cookie := c2\<rparr>) st1 = (Inr (Some d), st')"
        using waf_deny_cookie [OF _ assms(2)] w Some by blast
      then show ?thesis using early [of c2] None by (simp add: stages_split run_stages_append)
    next
      case None2: None
      then have "run_stages late_stages env (req\<lparr>ctx_Cookie := c1\<rparr>) st2 = (Some d, st')"
        using assms(1) early [of c1] w None by (simp add: stages_split run_stages_append)
      from run_late_deny [OF subset_refl this assms(2)] show ?thesis using assms(3) by simp
    qed
  qed
qed

text \<open>
  C2 (safety). A token is never a way past a denial: when the engine denies a request, by list, crawler
  check, origin, behaviour block, trap path or rule, it denies the same request with the same reason and
  records the same events whatever cookie it carries. Only a denial by anomaly score is left to the
  stages a token may skip. What varies is the cookie the engine is given (\<open>ctx_Cookie\<close>); the header fields a rule may read,
  \<^verbatim>\<open>header:cookie\<close> among them, stay as they are.
\<close>

theorem token_never_bypasses_denial:
  assumes "eng_Evaluate (Some cfg) env (req\<lparr>ctx_Cookie := c1\<rparr>) st = (d, st')" "dc_Action d = ActionDeny" "dc_Reason d \<noteq> ''anomaly:deny''"
  shows "eng_Evaluate (Some cfg) env (req\<lparr>ctx_Cookie := c2\<rparr>) st = (d, st')"
proof -
  define st1 where "st1 = fresh_memo (st\<lparr>pl_attack := map_option am_Evaluated (pl_attack st)\<rparr>)"
  define e where "e = request_env cfg env req st1"
  obtain r st2 where r: "run_stages stages e (req\<lparr>ctx_Cookie := c1\<rparr>) st1 = (r, st2)" by fastforce
  then obtain sd where sd: "r = Some sd"
    using assms by (cases r) (auto simp: eng_Evaluate_def Let_def st1_def [symmetric] e_def [symmetric])
  have wd: "withhold (se_domain e) (req\<lparr>ctx_Cookie := c\<rparr>) sd = withhold (se_domain e) req sd" for c
    by (simp add: withhold_def)
  have d: "d = (withhold (se_domain e) req sd)\<lparr>dc_PoWExemption := pl_powExemption st'\<rparr>"
    using assms(1) r sd wd by (auto simp: eng_Evaluate_def Let_def st1_def [symmetric] e_def [symmetric])
  have den: "dc_Action sd = ActionDeny" using assms(2) d withhold_deny by simp
  then have "dc_Reason sd \<noteq> ''anomaly:deny''" using assms(3) d withhold_deny_id by simp
  from run_deny_cookie [OF _ den this, of e c1 req st1 st2 c2] r sd
  have "run_stages stages e (req\<lparr>ctx_Cookie := c2\<rparr>) st1 = (Some sd, st2)" by simp
  then show ?thesis using assms(1) r sd wd
    by (auto simp: eng_Evaluate_def Let_def st1_def [symmetric] e_def [symmetric])
qed


section \<open>Difficulty of a challenge\<close>

definition in_window :: "('s, 'k, 'x) stage_env \<Rightarrow> decision \<Rightarrow> bool" where
  "in_window env d \<longleftrightarrow> (dc_Action d = ActionChallenge \<longrightarrow> fst (effBits env) \<le> dc_Difficulty d \<and> dc_Difficulty d \<le> snd (effBits env))"

lemma scaleDifficulty_window: "base \<le> mx \<Longrightarrow> base \<le> scaleDifficulty base mx score ca \<and> scaleDifficulty base mx score ca \<le> mx"
  by (simp add: scaleDifficulty_def Let_def)

lemma step_window: "b \<le> m \<Longrightarrow> b \<le> min (b + 4) m \<and> min (b + 4) m \<le> (m :: int)"
  by simp

lemma early_window: "s \<in> set early_stages \<Longrightarrow> s env req st = (Inr (Some d), st') \<Longrightarrow> in_window env d"
  using early_denies [of s env req st d st'] by (simp add: in_window_def)

lemma late_window:
  assumes "fst (effBits env) \<le> snd (effBits env)" "s \<in> set (wafRulesStage # late_stages)" "s env req st = (Inr (Some d), st')"
  shows "in_window env d"
  using assms scaleDifficulty_window [OF assms(1)] step_window [OF assms(1)]
  by (auto simp: in_window_def late_stages_def wafRulesStage_def powTokenStage_def intelChallengeStage_def anomalyStage_def powChallengeStage_def
      decisionPoWToken_def Let_def split: option.splits prod.splits if_splits bool.splits waf_action.splits)

lemma run_window:
  assumes "fst (effBits env) \<le> snd (effBits env)" "set ss \<subseteq> set stages" "run_stages ss env req st = (Some d, st')"
  shows "in_window env d"
  using assms(2,3)
proof (induction ss arbitrary: st)
  case (Cons s ss)
  have "s \<in> set early_stages \<or> s \<in> set (wafRulesStage # late_stages)" using Cons.prems(1) by (auto simp: stages_split)
  then show ?case using early_window [of s env req st d] late_window [OF assms(1), of s req st d] Cons
    by (auto split: prod.splits sum.splits option.splits)
qed simp

lemma eff_window:
  assumes "BaseBits (dm_PoW (se_domain env)) \<le> MaxBits (dm_PoW (se_domain env))" "0 \<le> ps_ExtraBits (se_attack env)"
  shows "BaseBits (dm_PoW (se_domain env)) \<le> fst (effBits env)" "fst (effBits env) \<le> snd (effBits env)"
    "snd (effBits env) \<le> max (posture_Cap (Some (se_attack env)) (MaxBits (dm_PoW (se_domain env)))) (MaxBits (dm_PoW (se_domain env)))"
  using assms by (auto simp: effBits_def EffectiveBits_def Let_def)

text \<open>
  A client that solves the challenge it was given gets past it: in a validated scope the
  difficulty of every challenge the engine decides is at least what the token check of that scope asks
  for, under every attack posture, and never above the larger of the scope's ceiling and the attack cap.
\<close>

theorem challenge_difficulty_suffices:
  assumes "eng_Evaluate (Some cfg) env req st = (d, st')" "dc_Action d = ActionChallenge"
    and "validate_domain json sha dc0 = Inr (scopeForRequest cfg req)" "0 \<le> ps_ExtraBits (current_posture st)"
  shows "TokenMinBits (dm_PoW (scopeForRequest cfg req)) \<le> dc_Difficulty d \<and>
    dc_Difficulty d \<le> max (posture_Cap (Some (current_posture st)) (MaxBits (dm_PoW (scopeForRequest cfg req)))) (MaxBits (dm_PoW (scopeForRequest cfg req)))"
proof -
  define st1 where "st1 = fresh_memo (st\<lparr>pl_attack := map_option am_Evaluated (pl_attack st)\<rparr>)"
  define e where "e = request_env cfg env req st1"
  have post: "current_posture st1 = current_posture st"
    by (cases "pl_attack st") (simp_all add: st1_def fresh_memo_def current_posture_def am_Evaluated_def)
  have e: "se_domain e = scopeForRequest cfg req" "se_attack e = current_posture st"
    by (simp_all add: e_def request_env_def post)
  obtain sd st2 where r: "run_stages stages e req st1 = (Some sd, st2)" "dc_Difficulty d = dc_Difficulty sd" "dc_Action sd = ActionChallenge"
    using assms(1,2) by (auto simp: eng_Evaluate_def Let_def st1_def [symmetric] e_def [symmetric] withhold_def
        split: prod.splits option.splits if_splits)
  note bits = validated_bits [OF assms(3)]
  have w: "BaseBits (dm_PoW (se_domain e)) \<le> MaxBits (dm_PoW (se_domain e))" "0 \<le> ps_ExtraBits (se_attack e)" using bits assms(4) e by simp_all
  note eff = eff_window [OF w]
  have "in_window e sd" by (rule run_window [OF eff(2) subset_refl r(1)])
  then show ?thesis using eff r(2,3) e bits by (auto simp: in_window_def TokenMinBits_def)
qed


section \<open>The overload gate agrees with the pipeline\<close>

definition header_hit :: "('s, 'k, 'x) stage_env \<Rightarrow> request_context \<Rightarrow> bool" where
  "header_hit env req \<longleftrightarrow>
     (let p = dm_PoW (se_domain env)
      in pw_Enabled p \<and> pw_HeaderExemptions p \<noteq> [] \<and> se_exempt env \<noteq> None \<and>
         xo_Matched (hx_Match (se_lib env) (se_now env) (se_exempt env) (pw_headerExemptionKey p)
           \<lparr>xr_Host = ctx_Host req, xr_Path = NormalizedPath req, xr_Header = ctx_Header req\<rparr>))"

definition exempt_now :: "('s, 'k, 'x) stage_env \<Rightarrow> request_context \<Rightarrow> ('s, 'k) pipe_state \<Rightarrow> bool" where
  "exempt_now env req st \<longleftrightarrow>
     pl_powExemption st \<noteq> '''' \<or> (if pl_headerExempt st \<noteq> 0 then pl_headerExempt st = 2 else header_hit env req)"

lemma powExempt_eq:
  "powExempt env req st =
     (exempt_now env req st,
      if pl_powExemption st \<noteq> '''' \<or> pl_headerExempt st \<noteq> 0 then st
      else if header_hit env req then st\<lparr>pl_powExemption := ''header_exemption'', pl_headerExempt := 2\<rparr>
      else st\<lparr>pl_headerExempt := 1\<rparr>)"
  by (auto simp: powExempt_def headerPoWExempt_def exempt_now_def header_hit_def Let_def)

abbreviation exempted :: "('s, 'k, 'x) stage_env \<Rightarrow> request_context \<Rightarrow> ('s, 'k) pipe_state \<Rightarrow> ('s, 'k) pipe_state" where
  "exempted env req st \<equiv> snd (powExempt env req st)"

lemma exempted_sel [simp]:
  "pl_pow (exempted env req st) = pl_pow st" "pl_token (exempted env req st) = pl_token st"
  "pl_enforcer (exempted env req st) = pl_enforcer st" "pl_store (exempted env req st) = pl_store st"
  "exempt_now env req (exempted env req st) = exempt_now env req st"
  by (auto simp: powExempt_eq exempt_now_def)

definition memo_ok :: "('s, 'k) pipe_state \<Rightarrow> bool" where
  "memo_ok st \<longleftrightarrow> (pl_headerExempt st = 2 \<longrightarrow> pl_powExemption st \<noteq> '''')"

lemma exempted_memo: "memo_ok st \<Longrightarrow> memo_ok (exempted env req st)"
  by (auto simp: powExempt_eq memo_ok_def)

lemma exempted_named: "memo_ok st \<Longrightarrow> exempt_now env req st \<Longrightarrow> pl_powExemption (exempted env req st) \<noteq> ''''"
  by (auto simp: powExempt_eq memo_ok_def exempt_now_def split: if_splits)

lemma powToken_same: "pl_pow a = pl_pow b \<Longrightarrow> pl_token a = pl_token b \<Longrightarrow> fst (powToken env req a) = fst (powToken env req b)"
  by (auto simp: powToken_def Let_def split: option.splits prod.splits)

lemma hasValidPoWToken_fst: "hasValidPoWToken env req st = (fst (powToken env req st) = TokenValid, snd (powToken env req st))"
  by (simp add: hasValidPoWToken_def split: prod.splits)

lemma pow_on_exempted [simp]: "pow_on env (exempted env req st) = pow_on env st"
  by (simp add: pow_on_def)

lemma waf_same:
  assumes "exempt_now env req a = exempt_now env req b" "pl_pow a = pl_pow b" "pl_token a = pl_token b"
  shows "fst (wafRulesStage env req a) = fst (wafRulesStage env req b)"
proof -
  define a' where "a' = exempted env req a"
  define b' where "b' = exempted env req b"
  have p: "powExempt env req a = (exempt_now env req a, a')" "powExempt env req b = (exempt_now env req a, b')"
    using assms(1) by (simp_all add: powExempt_eq a'_def b'_def)
  have t: "fst (powToken env req a') = fst (powToken env req b')"
    using assms unfolding a'_def b'_def by (intro powToken_same) simp_all
  have on: "pow_on env a' = pow_on env b'" using assms by (simp add: pow_on_def a'_def b'_def)
  show ?thesis
    by (auto simp: wafRulesStage_def hasValidPoWToken_fst Let_def p t on split: option.splits waf_action.splits bool.splits)
qed

lemma waf_none:
  assumes "wafRulesStage env req st = (Inr None, st')"
  shows "st' = st \<or> st' = exempted env req st"
  using assms by (auto simp: wafRulesStage_def Let_def split: option.splits prod.splits waf_action.splits bool.splits if_splits)

text \<open>What the stages after the rules do for an exempt client: nothing, unless the anomaly score denies.\<close>

lemma late_exempt:
  assumes "exempt_now env req st" "memo_ok st" "run_stages late_stages env req st = (r, st')"
  shows "(r = None \<or> (\<exists>d. r = Some d \<and> dc_Action d = ActionDeny \<and> dc_Reason d = ''anomaly:deny'')) \<and> pl_powExemption st' \<noteq> ''''"
proof -
  define s1 where "s1 = exempted env req st"
  have p: "powExempt env req st = (True, s1)" using assms(1) by (simp add: powExempt_eq s1_def)
  have n: "pl_powExemption s1 \<noteq> ''''" using exempted_named [OF assms(2,1)] s1_def by simp
  then have q: "powExempt env req s1 = (True, s1)" by (simp add: powExempt_def)
  have t: "powTokenStage env req st = (Inr None, s1)" by (simp add: powTokenStage_def p)
  have i: "intelChallengeStage env req s1 = (Inr None, s1)" by (simp add: intelChallengeStage_def q)
  have c: "powChallengeStage env req s1 = (Inr None, s1)" by (simp add: powChallengeStage_def q)
  have a: "anomalyStage env req s1 = (Inr None, s1) \<or>
      (\<exists>d. anomalyStage env req s1 = (Inr (Some d), s1) \<and> dc_Action d = ActionDeny \<and> dc_Reason d = ''anomaly:deny'')"
    by (auto simp: anomalyStage_def q Let_def split: option.splits)
  then show ?thesis using assms(3) t i c n by (auto simp: late_stages_def)
qed

lemma recordEvents_exemption [simp]: "pl_powExemption (recordEvents env ip evs f st) = pl_powExemption st"
  by (simp add: recordEvents_def Let_def split: prod.split)

lemma posture_evaluated:
  "current_posture (fresh_memo (st\<lparr>pl_attack := map_option am_Evaluated (pl_attack st)\<rparr>)) = current_posture st"
  by (cases "pl_attack st") (simp_all add: fresh_memo_def current_posture_def am_Evaluated_def)

lemma classify_cases:
  "classifyBotIdentity bo s m st = (oc, st') \<Longrightarrow>
     st' = st \<or> oc = ''verified'' \<and> st' = st\<lparr>pl_powExemption := ''verified_bot:'' @ bt_Name bo\<rparr>"
  by (auto simp: classifyBotIdentity_def split: if_splits)

lemma classify_outcome: "fst (classifyBotIdentity bo s m a) = fst (classifyBotIdentity bo s m b)"
  by (simp add: classifyBotIdentity_def)

lemma classify_verified: "classifyBotIdentity bo s m st = (''verified'', st') \<Longrightarrow> pl_powExemption st' \<noteq> ''''"
  by (auto simp: classifyBotIdentity_def split: if_splits)


lemma intelDeny_state:
  "snd (intelDenyStage env req st) = st" "fst (intelDenyStage env req st) = fst (intelDenyStage env req st')" "\<exists>d. fst (intelDenyStage env req st) = Inr d"
  by (auto simp: intelDenyStage_def Let_def split: option.splits)

lemma shed_local_pass:
  assumes "shed_local env req st = ((ShedPass, r), st')"
  shows "fst (intelDenyStage env req st) = Inr None" "CheckHoneypot req (dm_Honeypot (se_domain env)) = None"
    "(\<exists>d. fst (wafRulesStage env req st) = Inr (Some d) \<and> dc_Action d = ActionAllow) \<or>
     fst (wafRulesStage env req st) = Inr None \<and> fst (powToken env req st) = TokenValid"
proof -
  obtain d1 where i: "intelDenyStage env req st = (Inr d1, st)" using intelDeny_state(1,3) [of env req st] by (metis prod.collapse)
  then show d1: "fst (intelDenyStage env req st) = Inr None" using assms by (cases d1) (auto simp: shed_local_def)
  show hp: "CheckHoneypot req (dm_Honeypot (se_domain env)) = None"
    using assms i d1 by (auto simp: shed_local_def honeypotStage_def split: option.splits)
  obtain d3 st3 where w: "wafRulesStage env req st = (Inr d3, st3)" using waf_no_error [of env req st] by (metis prod.collapse)
  show "(\<exists>d. fst (wafRulesStage env req st) = Inr (Some d) \<and> dc_Action d = ActionAllow) \<or>
     fst (wafRulesStage env req st) = Inr None \<and> fst (powToken env req st) = TokenValid"
  proof (cases d3)
    case None
    then have "st3 = st \<or> st3 = exempted env req st" using waf_none w by blast
    then have "fst (powToken env req st3) = fst (powToken env req st)" by (intro powToken_same) auto
    moreover have "fst (powToken env req st3) = TokenValid"
      using assms i d1 hp w None by (auto simp: shed_local_def honeypotStage_def hasValidPoWToken_fst split: if_splits bool.splits)
    ultimately show ?thesis using w None by simp
  next
    case (Some d)
    then show ?thesis using assms i d1 hp w
      by (auto simp: shed_local_def honeypotStage_def split: action.splits)
  qed
qed

lemma shed_bots_refuses: "shed_bots env req st = Inl (v, r) \<Longrightarrow> v \<noteq> ShedPass"
  by (auto simp: shed_bots_def Let_def split: option.splits prod.splits if_splits)

lemma fresh_memo_enforcer [simp]: "pl_enforcer (fresh_memo st) = pl_enforcer st"
  by (simp add: fresh_memo_def)

text \<open>The crawler step of the gate and of the pipeline leave equally exempt states.\<close>

lemma bots_agree:
  assumes "shed_bots env req s = Inr s'" "se_bots env = Some verify" "\<forall>ip o1 r. se_botsCached env ip = Some r \<longrightarrow> verify ip o1 = r"
    and "pl_headerExempt s = 0" "pl_powExemption s = e0" "f = exempted env req g" "pl_headerExempt g = 0" "pl_powExemption g = e0"
    and "pl_pow g = pl_pow s" "pl_token g = pl_token s"
  shows "\<exists>f'. verifiedBotStage env req f = (Inr None, f') \<and> exempt_now env req f' = exempt_now env req s' \<and> memo_ok f' \<and>
    pl_pow f' = pl_pow s' \<and> pl_token f' = pl_token s' \<and> pl_enforcer f' = pl_enforcer g"
proof -
  let ?vb = "dm_VerifiedBots (se_domain env)"
  have fg: "exempt_now env req f = exempt_now env req s" using assms(4-8) by (simp add: exempt_now_def [of env req s] exempt_now_def [of env req g])
  have mf: "memo_ok f" unfolding assms(6) by (rule exempted_memo) (simp add: memo_ok_def assms(7))
  show ?thesis
  proof (cases "vb_match ?vb (LowerUA req)")
    case None
    then have "verifiedBotStage env req f = (Inr None, f)" "s' = s" using assms(1) by (simp_all add: verifiedBotStage_def shed_bots_def)
    then show ?thesis using fg mf assms(6,9,10) by simp
  next
    case (Some bo)
    then obtain idt where idt: "se_botsCached env (ctx_RemoteAddr req) = Some idt" "verify (ctx_RemoteAddr req) (bot_opts ?vb) = idt"
      using assms(1,3) by (auto simp: shed_bots_def split: option.splits)
    let ?c = "classifyBotIdentity bo (br_Status idt) (MatchesDomains idt (bt_domainsLower bo))"
    obtain oc t where s: "?c s = (oc, t)" by fastforce
    obtain f' where f: "?c f = (oc, f')" using classify_outcome [of bo _ _ f s] s by (metis fst_conv prod.collapse)
    have g: "\<not> (oc = ''spoof'' \<and> vb_SpoofAction ?vb \<noteq> ''continue'')" "s' = t"
      using assms(1) Some idt(1) s by (auto simp: shed_bots_def split: if_splits)
    then have v: "verifiedBotStage env req f = (Inr None, f')" using Some assms(2) idt(2) f by (auto simp: verifiedBotStage_def)
    have same: "exempt_now env req f' = exempt_now env req t"
    proof (cases "oc = ''verified''")
      case True
      have "pl_powExemption f' \<noteq> ''''" "pl_powExemption t \<noteq> ''''"
        using classify_verified [OF f [unfolded True]] classify_verified [OF s [unfolded True]] by simp_all
      then show ?thesis by (simp add: exempt_now_def)
    next
      case False
      then show ?thesis using classify_cases [OF f] classify_cases [OF s] fg by auto
    qed
    moreover have "memo_ok f'" "pl_pow f' = pl_pow t" "pl_token f' = pl_token t" "pl_enforcer f' = pl_enforcer g"
      using classify_cases [OF f] classify_cases [OF s] mf assms(6,9,10) by (auto simp: memo_ok_def)
    ultimately show ?thesis using v g(2) by blast
  qed
qed

text \<open>A request the gate passes runs through the early stages without a decision, to a state that agrees with
  the gate's on what the later stages read.\<close>

lemma shed_pass_early:
  assumes "ShedDecision (Some cfg) env req st = (ShedPass, stS)"
    and "ParseAddr (ctx_RemoteAddr req) \<noteq> None" "pl_enforcer st \<noteq> None"
    and "se_bots env = Some verify" "\<forall>ip o1 r. se_botsCached env ip = Some r \<longrightarrow> verify ip o1 = r"
    and e: "e = request_env cfg env req st" and st1: "st1 = fresh_memo (st\<lparr>pl_attack := map_option am_Evaluated (pl_attack st)\<rparr>)"
  obtains f s2 r where "run_stages early_stages e req st1 = (None, f)" "shed_local e req s2 = ((ShedPass, r), stS)" "memo_ok f"
    "exempt_now e req f = exempt_now e req s2" "pl_pow f = pl_pow s2" "pl_token f = pl_token s2"
proof -
  define e0 where "e0 = MatchAllowlist req (dm_Allowlist (se_domain e))"
  define s where "s = (fresh_memo st)\<lparr>pl_powExemption := e0\<rparr>"
  have es: "pl_enforcer s = pl_enforcer st" by (simp add: s_def)
  obtain r s2 where sh: "CheckDenylist req (dm_Denylist (se_domain e)) = None" "mg_Lookup (se_now e) (ctx_RemoteAddr req) (pl_enforcer st) = None"
      "\<not> mg_ReadThrough (pl_enforcer st)" "shed_bots e req s = Inr s2" "shed_local e req s2 = ((ShedPass, r), stS)"
    using assms(1-3) es by (auto simp: ShedDecision_def ShedDecisionWithReason_def Let_def e [symmetric] e0_def [symmetric] s_def [symmetric]
        dest: shed_bots_refuses split: prod.splits option.splits sum.splits if_splits)
  define g where "g = st1\<lparr>pl_powExemption := e0\<rparr>"
  have se: "se_bots e = Some verify" "se_botsCached e = se_botsCached env" using assms(4) by (simp_all add: e request_env_def)
  obtain f where f: "verifiedBotStage e req (exempted e req g) = (Inr None, f)" "exempt_now e req f = exempt_now e req s2" "memo_ok f"
      "pl_pow f = pl_pow s2" "pl_token f = pl_token s2" "pl_enforcer f = pl_enforcer g"
    using bots_agree [OF sh(4) se(1), of e0 _ g] assms(5) se(2) by (auto simp: s_def g_def st1 fresh_memo_def)
  have en: "pl_enforcer f = pl_enforcer st" using f(6) by (simp add: g_def st1)
  note loc = shed_local_pass [OF sh(5)]
  have intel: "intelDenyStage e req f = (Inr None, f)"
    using intelDeny_state [of e req f] intelDeny_state(2) [of e req s2 f] loc(1) by (metis prod.collapse)
  have "run_stages early_stages e req st1 = (None, f)"
    using f(1) intel sh(1-3) assms(2) loc(2) en
    by (auto simp: early_stages_def allowlistStage_def headerPoWExemptionStage_def denylistStage_def behaviourBlockStage_def
        honeypotStage_def e0_def [symmetric] g_def [symmetric] option.case_eq_if)
  from that [OF this sh(5) f(3,2,4,5)] show thesis .
qed

text \<open>From there the rules and the token let it through, unless an exempt client's score denies it.\<close>

lemma shed_pass_late:
  assumes "shed_local e req s2 = ((ShedPass, r), stS)" "memo_ok f"
    and "exempt_now e req f = exempt_now e req s2" "pl_pow f = pl_pow s2" "pl_token f = pl_token s2"
    and run: "run_stages (wafRulesStage # late_stages) e req f = (x, st')"
  shows "(\<exists>d. x = Some d \<and> dc_Action d = ActionAllow) \<or>
    pl_powExemption st' \<noteq> '''' \<and> (x = None \<or> (\<exists>d. x = Some d \<and> dc_Action d = ActionDeny \<and> dc_Reason d = ''anomaly:deny''))"
proof -
  note loc = shed_local_pass(3) [OF assms(1)]
  have waf: "fst (wafRulesStage e req f) = fst (wafRulesStage e req s2)" using waf_same [OF assms(3-5)] .
  obtain w fw where w: "wafRulesStage e req f = (Inr w, fw)" using waf_no_error [of e req f] by (metis prod.collapse)
  show ?thesis
  proof (cases w)
    case (Some sd)
    then show ?thesis using loc waf w run by auto
  next
    case None
    have valid: "fst (powToken e req s2) = TokenValid" using loc waf w None by auto
    have fw: "fw = f \<or> fw = exempted e req f" using waf_none w None by blast
    have late: "run_stages late_stages e req fw = (x, st')" using run w None by simp
    show ?thesis
    proof (cases "exempt_now e req fw")
      case True
      have "memo_ok fw" using fw assms(2) exempted_memo by auto
      from late_exempt [OF True this late] show ?thesis by blast
    next
      case False
      define fe where "fe = exempted e req fw"
      have "fst (powToken e req fe) = TokenValid"
        using valid powToken_same [of fe s2 e req] fw assms(4,5) by (auto simp: fe_def)
      moreover have "powExempt e req fw = (False, fe)" using False by (simp add: powExempt_eq fe_def)
      ultimately have "powTokenStage e req fw = (Inr (Some decisionPoWToken), snd (powToken e req fe))"
        by (simp add: powTokenStage_def hasValidPoWToken_fst)
      then show ?thesis using late by (auto simp: late_stages_def decisionPoWToken_def)
    qed
  qed
qed

text \<open>What the gate fast-passes the evaluation allows, when the crawler cache agrees with the verifier.\<close>

lemma shed_pass_allowed:
  assumes "ShedDecision (Some cfg) env req st = (ShedPass, stS)" "eng_Evaluate (Some cfg) env req st = (d, st')"
    and "ParseAddr (ctx_RemoteAddr req) \<noteq> None" "pl_enforcer st \<noteq> None"
    and "se_bots env = Some verify" "\<forall>ip o1 r. se_botsCached env ip = Some r \<longrightarrow> verify ip o1 = r"
  shows "dc_Action d = ActionAllow \<or> dc_PoWExemption d \<noteq> '''' \<and> dc_Action d = ActionDeny \<and> dc_Reason d = ''anomaly:deny''"
proof -
  define st1 where "st1 = fresh_memo (st\<lparr>pl_attack := map_option am_Evaluated (pl_attack st)\<rparr>)"
  define e where "e = request_env cfg env req st"
  have e1: "request_env cfg env req st1 = e" using posture_evaluated [of st] by (simp add: e_def request_env_def st1_def)
  obtain f s2 r where f: "run_stages early_stages e req st1 = (None, f)" "shed_local e req s2 = ((ShedPass, r), stS)" "memo_ok f"
    "exempt_now e req f = exempt_now e req s2" "pl_pow f = pl_pow s2" "pl_token f = pl_token s2"
    by (rule shed_pass_early [OF assms(1,3-6) e_def st1_def])
  obtain x st2 where x: "run_stages (wafRulesStage # late_stages) e req f = (x, st2)" by fastforce
  have "run_stages stages e req st1 = (x, st2)" using f(1) x by (simp add: stages_split run_stages_append)
  then have "d = (case x of None \<Rightarrow> (verdict ActionAllow ''default'' []) | Some sd \<Rightarrow> withhold (se_domain e) req sd)\<lparr>dc_PoWExemption := pl_powExemption st2\<rparr>"
    using assms(2) by (auto simp: eng_Evaluate_def Let_def st1_def [symmetric] e1 split: option.splits)
  with shed_pass_late [OF f(2-6) x] show ?thesis by (auto simp: withhold_def)
qed

section \<open>A placed block takes effect at once\<close>

definition pre_block_stages :: "('s, 'k, 'x) stage list" where
  "pre_block_stages = [allowlistStage, headerPoWExemptionStage, denylistStage, verifiedBotStage, intelDenyStage]"

lemma early_split: "early_stages = pre_block_stages @ [behaviourBlockStage, honeypotStage]"
  by (simp add: early_stages_def pre_block_stages_def)

lemma powExempt_keeps: "pl_store (exempted env req st) = pl_store st" "pl_enforcer (exempted env req st) = pl_enforcer st"
  by (simp_all add: powExempt_eq)

lemma pre_block_keeps:
  "s \<in> set pre_block_stages \<Longrightarrow> s env req st = (r, st') \<Longrightarrow> pl_store st' = pl_store st \<and> pl_enforcer st' = pl_enforcer st"
  by (auto simp: pre_block_stages_def allowlistStage_def headerPoWExemptionStage_def powExempt_keeps denylistStage_def verifiedBotStage_def
      intelDenyStage_def classifyBotIdentity_def Let_def split: option.splits if_splits)

lemma run_pre_block_keeps:
  "set ss \<subseteq> set pre_block_stages \<Longrightarrow> run_stages ss env req st = (r, st') \<Longrightarrow> pl_store st' = pl_store st \<and> pl_enforcer st' = pl_enforcer st"
proof (induction ss arbitrary: st)
  case (Cons s ss)
  then show ?case using pre_block_keeps [of s env req st] by (fastforce split: prod.splits sum.splits option.splits)
qed simp

text \<open>An address the mirror or the store reports blocked is denied.\<close>

lemma blocked_run_denies:
  assumes "\<And>s. pl_store s = pl_store st \<Longrightarrow> pl_enforcer s = pl_enforcer st \<Longrightarrow> \<exists>d st'. behaviourBlockStage env req s = (Inr (Some d), st')"
  shows "\<exists>d st'. run_stages stages env req st = (Some d, st') \<and> dc_Action d = ActionDeny"
proof -
  obtain r s where r: "run_stages pre_block_stages env req st = (r, s)" by fastforce
  have sub: "set (pre_block_stages :: ('a, 'b, 'c) stage list) \<subseteq> set early_stages" by (auto simp: early_split)
  show ?thesis
  proof (cases r)
    case None
    obtain d st' where b: "behaviourBlockStage env req s = (Inr (Some d), st')"
      using assms run_pre_block_keeps [OF subset_refl r] by blast
    moreover have "dc_Action d = ActionDeny" using early_denies [of behaviourBlockStage env req s d st'] b by (simp add: early_split)
    ultimately show ?thesis using r None by (simp add: stages_split early_split run_stages_append)
  next
    case (Some d)
    then show ?thesis using r run_early_denies [OF sub] by (simp add: stages_split early_split run_stages_append)
  qed
qed

context ttl_store
begin

lemma get_after_set:
  assumes "ok s" "st_Set ops now k x ttl s = (r, s')" "now \<le> t" "ttl \<le> 0 \<or> t < now + ttl"
  shows "ok s' \<and> fst (st_Get ops t k s') = Inr (Some x)"
proof -
  have w: "ok s'" "live s' t k = unexpired t \<lparr>e_value = x, e_expiresAt = expiry now ttl\<rparr>"
    using set_value [OF assms(1), of now k x ttl] assms(2,3) by (simp_all add: refines_def spec_Set_def)
  moreover have "unexpired t \<lparr>e_value = x, e_expiresAt = expiry now ttl\<rparr> = Some \<lparr>e_value = x, e_expiresAt = expiry now ttl\<rparr>"
    using assms(4) by (auto simp: unexpired_def entry_expired_def expiry_def split: option.splits)
  ultimately show ?thesis using get_eq(1) [OF w(1) prod.collapse [symmetric], of t k] by simp
qed

end

lemma BlockKey_same: "ParseAddr ip = Some a \<Longrightarrow> ParseAddr ip' = Some b \<Longrightarrow> Unmap b = Unmap a \<Longrightarrow> BlockKey ip' = BlockKey ip"
  by (simp add: BlockKey_def)

lemma notified_lookup:
  assumes "\<forall>m. om = Some m \<longrightarrow> mirror_ok (mg_mir m)" "ParseAddr ip = Some a" "ParseAddr ip' = Some b" "Unmap b = Unmap a"
    and "0 < now" "now \<le> t" "ttl \<le> 0 \<or> t < now + ttl"
  shows "mg_Lookup t ip' (notifyEnforcer now ip reason ttl False om) \<noteq> None \<or> mg_ReadThrough (notifyEnforcer now ip reason ttl False om)"
proof (cases om)
  case (Some m)
  let ?ev = "\<lparr>ev_IP = Some a, ev_Reason = reason, ev_TTL = ttl, ev_Remove = False\<rparr>"
  have "notifyLocked now a ?ev m = notifyLocked now b ?ev m" using assms(4) by (simp add: notifyLocked_def)
  then show ?thesis using notify_add_lookup [of m ip' b ?ev now t] assms Some
    by (auto simp: notifyEnforcer_def mg_Notify_def mg_ReadThrough_def)
qed (simp add: notifyEnforcer_def mg_Notify_def mg_ReadThrough_def assms(2))

text \<open>
  C1 (safety). An operator's block takes effect at once: after \<open>BlockIP\<close> has succeeded, the engine denies
  every request from that address, in any of its spellings and whatever token, allowlist or exemption the
  request brings, until the block expires. The reason is found in the mirror, or, when the mirror had no
  room, the store is asked.
\<close>

theorem placed_block_denies:
  assumes "BlockIP sm_ops now ip reason ttl tok st = (Inr (), st1)" "sm_ok (pl_store st)" "se_ops env = sm_ops"
    and "\<forall>m. pl_enforcer st = Some m \<longrightarrow> mirror_ok (mg_mir m)"
    and "ParseAddr ip = Some a" "ParseAddr (ctx_RemoteAddr req) = Some b" "Unmap b = Unmap a"
    and "0 < now" "now \<le> se_now env" "ttl \<le> 0 \<or> se_now env < now + ttl"
  shows "dc_Action (fst (eng_Evaluate (Some cfg) env req st1)) = ActionDeny"
proof -
  obtain r s' where s: "st_Set sm_ops now (BlockKey ip) (BlockValue reason tok) ttl (pl_store st) = (r, s')" by fastforce
  with assms(1) have st1: "pl_store st1 = s'" "pl_enforcer st1 = notifyEnforcer now ip reason ttl False (pl_enforcer st)"
    by (auto simp: BlockIP_def split: sum.splits)
  define e1 where "e1 = fresh_memo (st1\<lparr>pl_attack := map_option am_Evaluated (pl_attack st1)\<rparr>)"
  define e where "e = request_env cfg env req e1"
  have e: "se_ops e = sm_ops" "se_now e = se_now env" using assms(3) by (simp_all add: e_def request_env_def)
  have "fst (st_Get sm_ops (se_now env) (BlockKey (ctx_RemoteAddr req)) s') = Inr (Some (BlockValue reason tok))"
    unfolding BlockKey_same [OF assms(5-7)] using mem.get_after_set [OF assms(2) s assms(9,10)] by simp
  then obtain s2 where g: "st_Get sm_ops (se_now env) (BlockKey (ctx_RemoteAddr req)) s' = (Inr (Some (BlockValue reason tok)), s2)"
    by (metis prod.collapse)
  have "\<exists>d st'. behaviourBlockStage e req u = (Inr (Some d), st')" if u: "pl_store u = pl_store e1" "pl_enforcer u = pl_enforcer e1" for u
    using notified_lookup [OF assms(4-10), of reason] g st1 u
    by (auto simp: behaviourBlockStage_def e e1_def fresh_memo_def Let_def split: option.splits)
  from blocked_run_denies [of e1 e req, OF this] obtain d st' where "run_stages stages e req e1 = (Some d, st')" "dc_Action d = ActionDeny" by blast
  then show ?thesis using withhold_deny by (simp add: eng_Evaluate_def Let_def e1_def [symmetric] e_def [symmetric])
qed


section \<open>The shape of a decision\<close>

definition reason_categories :: "string list" where
  "reason_categories = [''default'', ''engine'', ''denylist'', ''bot_spoof'', ''reputation'', ''geo'', ''behaviour_block'', ''honeypot'', ''waf'', ''pow'', ''anomaly'']"

text \<open>What a stage may decide: a reason of a known category; a challenge only where one can be issued and answered,
  for a client that is not exempt.\<close>

definition decision_ok :: "('s, 'k, 'x) stage_env \<Rightarrow> decision \<Rightarrow> ('s, 'k) pipe_state \<Rightarrow> bool" where
  "decision_ok env d st \<longleftrightarrow>
     reasonCategory (dc_Reason d) \<in> set reason_categories \<and> dc_Action d \<noteq> ActionRefuse \<and>
     (dc_Action d = ActionChallenge \<longrightarrow> pow_on env st \<and> pl_powExemption st = '''')"

lemma category_simps [simp]:
  "reasonCategory [] = []" "reasonCategory (c # cs) = (if c = CHR '':'' then [] else c # reasonCategory cs)"
  by (simp_all add: reasonCategory_def before_byte_def)

lemma verdict_category [simp]: "reasonCategory (verdict_reason v) = ''pow''"
  by (cases v) simp_all

lemma geo_category [simp]: "fst (ge_Action g c a) \<noteq> '''' \<Longrightarrow> reasonCategory (snd (ge_Action g c a)) = ''geo''"
  by (auto simp: ge_Action_def split: option.splits if_splits)

lemma powExempt_False: "powExempt env req st = (False, st') \<Longrightarrow> pl_powExemption st' = '''' \<and> pl_pow st' = pl_pow st"
  by (auto simp: powExempt_def headerPoWExempt_def Let_def split: if_splits)

lemma powToken_keeps:
  "powToken env req st = (v, st') \<Longrightarrow> pl_powExemption st' = pl_powExemption st \<and> (pl_pow st' = None) = (pl_pow st = None)"
  by (auto simp: powToken_def Let_def split: if_splits option.splits prod.splits)

lemma hasValid_keeps:
  "hasValidPoWToken env req st = (v, st') \<Longrightarrow> pl_powExemption st' = pl_powExemption st \<and> (pl_pow st' = None) = (pl_pow st = None)"
  using powToken_keeps [of env req st] by (auto simp: hasValidPoWToken_def split: prod.splits)

lemma match_rules_exempt: "match_rules rx i True rs = Some r \<Longrightarrow> wr_Action r \<noteq> WafChallenge"
  by (induction rs) (auto split: if_splits)

lemma powExempt_bool:
  assumes "powExempt env req st = (b, st')" "MatchEnforcing rx i b rs = Some r" "wr_Action r = WafChallenge"
  shows "pl_powExemption st' = ''''"
  using assms match_rules_exempt by (cases b) (auto simp: MatchEnforcing_def dest: powExempt_False)

lemma stage_ok:
  assumes "s \<in> set stages" "s env req st = (Inr (Some d), st')"
  shows "decision_ok env d st'"
proof -
  have "s \<in> set early_stages \<or> s = wafRulesStage \<or> s \<in> set late_stages" using assms(1) by (auto simp: stages_split)
  then consider (early) "s \<in> set early_stages" | (waf) "s = wafRulesStage" | (late) "s \<in> set late_stages" by blast
  then show ?thesis
  proof cases
    case early
    then show ?thesis using early_denies [OF early assms(2)] assms(2)
      by (auto simp: decision_ok_def reason_categories_def early_stages_def allowlistStage_def headerPoWExemptionStage_def denylistStage_def
          verifiedBotStage_def intelDenyStage_def behaviourBlockStage_def honeypotStage_def CheckDenylist_def CheckHoneypot_def Let_def
          split: option.splits prod.splits if_splits sum.splits)
  next
    case waf
    then show ?thesis using assms(2)
      by (auto simp: decision_ok_def reason_categories_def wafRulesStage_def decisionPoWToken_def Let_def pow_on_def
          dest!: hasValid_keeps powExempt_bool split: option.splits prod.splits if_splits waf_action.splits bool.splits)
  next
    case late
    then show ?thesis using assms(2)
      by (auto simp: decision_ok_def reason_categories_def late_stages_def powTokenStage_def intelChallengeStage_def anomalyStage_def
          powChallengeStage_def decisionPoWToken_def Let_def pow_on_def
          dest!: powExempt_False powToken_keeps hasValid_keeps
          split: option.splits prod.splits if_splits bool.splits)
  qed
qed

lemma run_ok: "set ss \<subseteq> set stages \<Longrightarrow> run_stages ss env req st = (Some d, st') \<Longrightarrow> decision_ok env d st'"
proof (induction ss arbitrary: st)
  case (Cons s ss)
  then show ?case using stage_ok [of s env req st d st'] by (auto split: prod.splits sum.splits option.splits)
qed simp

text \<open>
  C32 (type). Every decision of the engine is well-formed: its reason is of one of eleven known categories
  whatever rules, feeds, crawlers and paths are configured, so the decision metric has a bounded label set; a
  challenge is decided only in a scope with proof of work, on a daemon that can issue one, for a client that is
  not exempt and is able to answer; and a refusal only stands for a challenge that the client could not answer in
  a scope that refuses such clients.
\<close>

theorem decision_well_formed:
  assumes "eng_Evaluate snap env req st = (d, st')"
  shows "reasonCategory (dc_Reason d) \<in> set reason_categories \<and>
    (dc_Action d = ActionChallenge \<longrightarrow> (\<exists>cfg. snap = Some cfg \<and> pw_Enabled (dm_PoW (scopeForRequest cfg req)) \<and> dc_PoWExemption d = '''' \<and>
       (\<exists>m. pl_pow st' = Some m) \<and> \<not> (ctx_Unchallengeable req \<and> RefusesUnchallengeable (dm_PoW (scopeForRequest cfg req))))) \<and>
    (dc_Action d = ActionRefuse \<longrightarrow> (\<exists>cfg. snap = Some cfg \<and> ctx_Unchallengeable req \<and> RefusesUnchallengeable (dm_PoW (scopeForRequest cfg req))))"
proof (cases snap)
  case None
  then show ?thesis using assms by (auto simp: eng_Evaluate_def reason_categories_def)
next
  case (Some cfg)
  define st1 where "st1 = fresh_memo (st\<lparr>pl_attack := map_option am_Evaluated (pl_attack st)\<rparr>)"
  define e where "e = request_env cfg env req st1"
  obtain x st2 where x: "run_stages stages e req st1 = (x, st2)" by fastforce
  have dom: "se_domain e = scopeForRequest cfg req" by (simp add: e_def request_env_def)
  show ?thesis
  proof (cases x)
    case None
    then show ?thesis using assms Some x by (auto simp: eng_Evaluate_def Let_def st1_def [symmetric] e_def [symmetric] reason_categories_def)
  next
    case sd: (Some sd)
    define st3 where "st3 = recordEvents e (ctx_RemoteAddr req) (dc_Events sd) (scoreboardFactor cfg (current_posture st2)) st2"
    have k: "pl_powExemption st3 = pl_powExemption st2" "pl_pow st3 = pl_pow st2"
      by (auto simp: st3_def recordEvents_def Let_def split: prod.splits)
    have d: "d = (withhold (se_domain e) req sd)\<lparr>dc_PoWExemption := pl_powExemption st2\<rparr>" "st' = st3"
      using assms Some x sd by (auto simp: eng_Evaluate_def Let_def st1_def [symmetric] e_def [symmetric] st3_def [symmetric] k)
    have "decision_ok e sd st2" using run_ok [OF subset_refl] x sd by blast
    then show ?thesis using d k Some dom
      by (auto simp: decision_ok_def withhold_def pow_on_def reason_categories_def reasonUnchallengeable_def)
  qed
qed


section \<open>Where an exemption comes from\<close>

definition exempt_source :: "('s, 'k, 'x) stage_env \<Rightarrow> request_context \<Rightarrow> string \<Rightarrow> bool" where
  "exempt_source env req x \<longleftrightarrow>
     x \<in> {'''', ''allowlist:path'', ''allowlist:ip'', ''allowlist:ua'', ''header_exemption''} \<or>
     (\<exists>bo verify. vb_match (dm_VerifiedBots (se_domain env)) (LowerUA req) = Some bo \<and> se_bots env = Some verify \<and>
        br_Status (verify (ctx_RemoteAddr req) (bot_opts (dm_VerifiedBots (se_domain env)))) = StatusConfirmed \<and>
        MatchesDomains (verify (ctx_RemoteAddr req) (bot_opts (dm_VerifiedBots (se_domain env)))) (bt_domainsLower bo) \<and>
        x = ''verified_bot:'' @ bt_Name bo)"

lemma allowlist_source: "exempt_source env req (MatchAllowlist req l)"
  by (simp add: exempt_source_def MatchAllowlist_def)

lemma powExempt_source:
  "powExempt env req st = (b, st') \<Longrightarrow> exempt_source env req (pl_powExemption st) \<Longrightarrow> exempt_source env req (pl_powExemption st')"
  by (auto simp: powExempt_def headerPoWExempt_def Let_def exempt_source_def split: if_splits)

lemma verifiedBot_source:
  "verifiedBotStage env req st = (r, st') \<Longrightarrow> exempt_source env req (pl_powExemption st) \<Longrightarrow> exempt_source env req (pl_powExemption st')"
  by (auto simp: verifiedBotStage_def classifyBotIdentity_def Let_def exempt_source_def split: option.splits if_splits prod.splits)

lemma waf_source:
  "wafRulesStage env req st = (r, st') \<Longrightarrow> exempt_source env req (pl_powExemption st) \<Longrightarrow> exempt_source env req (pl_powExemption st')"
  by (auto simp: wafRulesStage_def Let_def dest!: powExempt_source hasValid_keeps split: option.splits if_splits prod.splits waf_action.splits bool.splits)

lemma late_source:
  "s \<in> set late_stages \<Longrightarrow> s env req st = (r, st') \<Longrightarrow> exempt_source env req (pl_powExemption st) \<Longrightarrow> exempt_source env req (pl_powExemption st')"
  by (auto simp: late_stages_def powTokenStage_def intelChallengeStage_def anomalyStage_def powChallengeStage_def Let_def
      dest!: powExempt_source hasValid_keeps powToken_keeps split: option.splits if_splits prod.splits bool.splits)

lemma stage_source:
  assumes "s \<in> set stages" "s env req st = (r, st')" "exempt_source env req (pl_powExemption st)"
  shows "exempt_source env req (pl_powExemption st')"
proof -
  consider "s \<in> {allowlistStage, headerPoWExemptionStage, denylistStage, intelDenyStage, behaviourBlockStage, honeypotStage}"
    | "s = verifiedBotStage" | "s = wafRulesStage" | "s \<in> set late_stages"
    using assms(1) by (auto simp: stages_split early_stages_def)
  then show ?thesis
  proof cases
    case 1
    then show ?thesis using assms(2,3) allowlist_source powExempt_source [of env req st _ "snd (powExempt env req st)"]
      by (auto simp: allowlistStage_def headerPoWExemptionStage_def denylistStage_def intelDenyStage_def behaviourBlockStage_def honeypotStage_def Let_def
          prod_eq_iff split: option.splits if_splits prod.splits sum.splits)
  qed (use assms verifiedBot_source waf_source late_source in blast)+
qed

lemma run_source:
  "set ss \<subseteq> set stages \<Longrightarrow> run_stages ss env req st = (r, st') \<Longrightarrow> exempt_source env req (pl_powExemption st) \<Longrightarrow> exempt_source env req (pl_powExemption st')"
proof (induction ss arbitrary: st)
  case (Cons s ss)
  obtain x st1 where x: "s env req st = (x, st1)" by fastforce
  then have "exempt_source env req (pl_powExemption st1)" using stage_source Cons.prems by auto
  then show ?case using Cons x by (auto split: sum.splits option.splits)
qed simp

lemma evaluate_source:
  assumes "eng_Evaluate (Some cfg) env req st = (d, st')"
  shows "exempt_source (env\<lparr>se_domain := scopeForRequest cfg req\<rparr>) req (dc_PoWExemption d)"
proof -
  define st1 where "st1 = fresh_memo (st\<lparr>pl_attack := map_option am_Evaluated (pl_attack st)\<rparr>)"
  define e where "e = request_env cfg env req st1"
  obtain x st2 where x: "run_stages stages e req st1 = (x, st2)" by fastforce
  have "exempt_source e req (pl_powExemption st2)"
    by (rule run_source [OF subset_refl x]) (simp add: exempt_source_def st1_def fresh_memo_def)
  moreover have "dc_PoWExemption d = pl_powExemption st2"
    using assms x by (auto simp: eng_Evaluate_def Let_def st1_def [symmetric] e_def [symmetric] recordEvents_def split: option.splits prod.splits)
  ultimately show ?thesis by (simp add: exempt_source_def e_def request_env_def)
qed


section \<open>Witnesses\<close>

definition example_stage_env :: "(sharded_memory, nat, unit) stage_env" where
  "example_stage_env = \<lparr>se_ops = sm_ops, se_now = 30, se_domain = plain_domain, se_rules = None, se_rx = example_rx, se_models = None,
     se_intel = None, se_exempt = None, se_lib = example_lib, se_bots = Some (\<lambda>_ _. \<lparr>br_Status = StatusNone, br_Hostnames = []\<rparr>),
     se_botsCached = (\<lambda>_. None), se_attack = \<lparr>ps_Level = Normal, ps_ExtraBits = 0, ps_CapBits = 0, ps_ForceAlways = False, ps_Stateless = False,
       ps_Since = None, ps_Reason = ''''\<rparr>, se_powenv = example_env, se_disk = example_disk, se_unblockHold = 0, se_owner = (\<lambda>_. 0)\<rparr>"

text \<open>A manager whose mirror is complete.\<close>

definition synced_manager :: manager where
  "synced_manager = example_manager\<lparr>mg_seeded := True, mg_mirrorState := 1\<rparr>"

definition example_pipe_state :: "(sharded_memory, nat) pipe_state" where
  "example_pipe_state = \<lparr>pl_store = fresh_memory, pl_enforcer = Some synced_manager, pl_pow = Some (newManagerWithRetiredKeys example_env 0 []),
     pl_attack = None, pl_token = TokenUnchecked, pl_headerExempt = 0, pl_powExemption = ''''\<rparr>"

text \<open>A configuration with one set of settings for every host.\<close>

definition uniform_config :: "domain_config \<Rightarrow> config" where
  "uniform_config dc = small_config\<lparr>cf_Defaults := \<lparr>ds_cfg = dc, ds_overrides = []\<rparr>\<rparr>"

lemma uniform_scope [simp]: "scopeForRequest (uniform_config dc) req = dc"
  by (simp add: scopeForRequest_def DomainFor_def ForPath_def uniform_config_def small_config_def)

definition denying_cfg :: domain_config where
  "denying_cfg = (validated_cfg no_list)\<lparr>dm_Denylist := curl_list\<rparr>"

lemma example_facts:
  "ParseAddr (ctx_RemoteAddr sample_request) = Some (AddrV4 [192, 0, 2, 7])" "LowerUA sample_request = ''curl''"
  "MatchAllowlist sample_request no_list = ''''" "CheckDenylist sample_request no_list = None"
  "CheckDenylist sample_request curl_list = Some (verdict ActionDeny ''denylist:ua'' staticDenyEvents)"
  "vb_match crawler_bots ''curl'' = None" "ctx_Unchallengeable sample_request = False" "ctx_Cookie sample_request = ''''"
  by (simp_all add: sample_request_def ParseAddr_def parseIPv4Fields_def dec_digit_def LowerUA_def example_lowers CheckDenylist_def MatchAllowlist_def
      parsed_match_def MatchIP_def MatchUALower_def lc_MatchPath_def MatchPathList_def curl_list_def contains_str_def
      vb_match_def crawler_bots_def sublist_code)

lemma synced_simps: "mg_Lookup now (ctx_RemoteAddr sample_request) (Some synced_manager) = None" "\<not> mg_ReadThrough (Some synced_manager)"
  by (simp_all add: mg_Lookup_def example_facts synced_manager_def example_manager_def mg_New_def Let_def mr_get_def newMirror_def
      mg_ReadThrough_def mirrorComplete_def shardOf_less enforce_defaults_def ModeReadThrough_def ModeAuthoritative_def)

lemma example_Evaluate:
  assumes "run_stages stages (request_env cfg example_stage_env req example_pipe_state) req example_pipe_state = (Some sd, st2)"
  shows "\<exists>d st'. eng_Evaluate (Some cfg) example_stage_env req example_pipe_state = (d, st') \<and>
     d = (withhold (scopeForRequest cfg req) req sd)\<lparr>dc_PoWExemption := pl_powExemption st'\<rparr>"
proof -
  have "fresh_memo (example_pipe_state\<lparr>pl_attack := map_option am_Evaluated (pl_attack example_pipe_state)\<rparr>) = example_pipe_state"
    by (simp add: fresh_memo_def example_pipe_state_def)
  then show ?thesis using assms by (simp add: eng_Evaluate_def Let_def) (simp add: request_env_def)
qed

lemma example_denied:
  "\<exists>d st'. eng_Evaluate (Some (uniform_config denying_cfg)) example_stage_env sample_request example_pipe_state = (d, st') \<and>
     dc_Action d = ActionDeny \<and> dc_Reason d = ''denylist:ua''"
proof -
  define env where "env = request_env (uniform_config denying_cfg) example_stage_env sample_request example_pipe_state"
  have dc: "dm_Denylist (se_domain env) = curl_list" by (simp add: env_def request_env_def denying_cfg_def)
  have "\<exists>st'. run_stages stages env sample_request st = (Some (verdict ActionDeny ''denylist:ua'' staticDenyEvents), st')" for st
    by (simp add: stages_def allowlistStage_def headerPoWExemptionStage_def denylistStage_def example_facts dc)
  then obtain st' where "run_stages stages env sample_request example_pipe_state = (Some (verdict ActionDeny ''denylist:ua'' staticDenyEvents), st')"
    by blast
  from example_Evaluate [OF this [unfolded env_def]] show ?thesis by (auto simp: withhold_def)
qed

theorem token_never_bypasses_denial_witness:
  "dc_Action (fst (eng_Evaluate (Some (uniform_config denying_cfg)) example_stage_env (sample_request\<lparr>ctx_Cookie := ''guardian_token=t''\<rparr>)
     example_pipe_state)) = ActionDeny"
proof -
  have same: "sample_request\<lparr>ctx_Cookie := ''''\<rparr> = sample_request" by (simp add: sample_request_def)
  obtain d st' where d: "eng_Evaluate (Some (uniform_config denying_cfg)) example_stage_env sample_request example_pipe_state = (d, st')"
      "dc_Action d = ActionDeny" "dc_Reason d = ''denylist:ua''" using example_denied by blast
  then show ?thesis
    using token_never_bypasses_denial [of "uniform_config denying_cfg" example_stage_env "''''" sample_request example_pipe_state d st'] same
    by simp
qed

text \<open>A request with the address, agent and cookie of the sample, whatever headers it carries.\<close>

lemma example_run_pow_of:
  assumes req: "ctx_RemoteAddr req = ctx_RemoteAddr sample_request" "LowerUA req = ''curl''" "MatchAllowlist req no_list = ''''"
      "CheckDenylist req no_list = None" "ctx_Cookie req = ''''"
  shows
  "\<exists>st'. run_stages stages (request_env (uniform_config (with_pow True (validated_cfg no_list))) example_stage_env req example_pipe_state)
      req example_pipe_state = (Some ((verdict ActionChallenge ''pow:no_token'' [])\<lparr>dc_Difficulty := fst (effBits
        (request_env (uniform_config (with_pow True (validated_cfg no_list))) example_stage_env req example_pipe_state))\<rparr>), st')"
proof -
  define dc where "dc = with_pow True (validated_cfg no_list)"
  define env where "env = request_env (uniform_config dc) example_stage_env req example_pipe_state"
  have dc: "dm_Allowlist dc = no_list" "dm_Denylist dc = no_list" "dm_VerifiedBots dc = crawler_bots" "\<not> hp_Enabled (dm_Honeypot dc)"
      "pw_Enabled (dm_PoW dc)" "pw_HeaderExemptions (dm_PoW dc) = []" "\<not> an_Enabled (dm_Anomaly dc)"
    by (simp_all add: dc_def with_pow_def validated_cfg_def plain_domain_def)
  have env: "se_domain env = dc" "se_intel env = None" "se_exempt env = None" "se_rules env = None" "se_now env = 30"
    by (simp_all add: env_def request_env_def example_stage_env_def)
  have st: "pl_enforcer example_pipe_state = Some synced_manager" "pl_pow example_pipe_state = Some (newManagerWithRetiredKeys example_env 0 [])" "pl_token example_pipe_state = TokenUnchecked"
      "pl_headerExempt example_pipe_state = 0" "pl_powExemption example_pipe_state = ''''"
    by (simp_all add: example_pipe_state_def)
  have ck: "cookieValue '''' CookieName = None" by (simp add: cookieValue_def cutPrefix_def trimSpace_def trim_with_def CookieName_def)
  show ?thesis unfolding dc_def [symmetric] env_def [symmetric]
    by (auto simp: stages_def allowlistStage_def headerPoWExemptionStage_def denylistStage_def verifiedBotStage_def intelDenyStage_def
        behaviourBlockStage_def honeypotStage_def CheckHoneypot_def wafRulesStage_def powTokenStage_def intelChallengeStage_def anomalyStage_def
        powChallengeStage_def powExempt_def headerPoWExempt_def hasValidPoWToken_def powToken_def pow_on_def req example_facts synced_simps dc env st ck Let_def)
qed

lemma example_run_pow:
  "\<exists>st'. run_stages stages (request_env (uniform_config (with_pow True (validated_cfg no_list))) example_stage_env sample_request example_pipe_state)
      sample_request example_pipe_state = (Some ((verdict ActionChallenge ''pow:no_token'' [])\<lparr>dc_Difficulty := fst (effBits
        (request_env (uniform_config (with_pow True (validated_cfg no_list))) example_stage_env sample_request example_pipe_state))\<rparr>), st')"
  by (rule example_run_pow_of) (simp_all add: example_facts)

theorem challenge_difficulty_suffices_witness:
  "\<exists>d st'. eng_Evaluate (Some (uniform_config (with_pow True (validated_cfg no_list)))) example_stage_env sample_request example_pipe_state = (d, st') \<and>
     dc_Action d = ActionChallenge \<and> 4 \<le> dc_Difficulty d"
proof -
  let ?cfg = "uniform_config (with_pow True (validated_cfg no_list))"
  obtain st2 where "run_stages stages (request_env ?cfg example_stage_env sample_request example_pipe_state)
      sample_request example_pipe_state = (Some ((verdict ActionChallenge ''pow:no_token'' [])\<lparr>dc_Difficulty := fst (effBits
        (request_env ?cfg example_stage_env sample_request example_pipe_state))\<rparr>), st2)"
    using example_run_pow by blast
  from example_Evaluate [OF this] obtain d st' where d: "eng_Evaluate (Some ?cfg) example_stage_env sample_request example_pipe_state = (d, st')"
      "dc_Action d = ActionChallenge" by (auto simp: withhold_def example_facts)
  have v: "validate_domain (\<lambda>_. '''') id (with_pow True (bot_domain_cfg no_list)) = Inr (scopeForRequest ?cfg sample_request)"
    using example_no_list(2) [of True] by simp
  have "0 \<le> ps_ExtraBits (current_posture example_pipe_state)" by (simp add: current_posture_def example_pipe_state_def)
  moreover have "\<not> UsesArgon2ID (dm_PoW (with_pow True (validated_cfg no_list)))"
    by (simp add: UsesArgon2ID_def with_pow_def validated_cfg_def plain_domain_def)
  ultimately show ?thesis using challenge_difficulty_suffices [OF d v] validated_bits [OF v] d by (auto simp: TokenMinBits_def)
qed

text \<open>A rule that allows every GET, served for the scope's key.\<close>

definition allowing_env :: "(sharded_memory, nat, unit) stage_env" where
  "allowing_env = example_stage_env\<lparr>se_rules := Some \<lparr>rc_files = [], rc_byKey = [(VariantKey id [''a'', ''b''] [''x''],
     \<lparr>rv_paths = [], rv_disabled = [], rv_scopes = [], rv_set = \<lparr>rs_Rules = [challenge_rule\<lparr>wr_Action := WafAllow\<rparr>], rs_Warnings = [],
       rs_headerTargets = [], rs_needsMethod = True\<rparr>\<rparr>)]\<rparr>,
     se_bots := Some (\<lambda>ip o1. fst (Verify sm_ops (Some sm_GetWithExpiry) (\<lambda>_. 0) example_resolver True 30 ip o1 fresh_verifier)),
     se_botsCached := (\<lambda>ip. LookupCached (\<lambda>_. 0) False 30 ip fresh_verifier)\<rparr>"

lemma example_shed_pass:
  "\<exists>stS. ShedDecision (Some (uniform_config (validated_cfg no_list))) allowing_env sample_request example_pipe_state = (ShedPass, stS)"
proof -
  define env where "env = request_env (uniform_config (validated_cfg no_list)) allowing_env sample_request example_pipe_state"
  have dc: "dm_Allowlist (validated_cfg no_list) = no_list" "dm_Denylist (validated_cfg no_list) = no_list"
      "dm_VerifiedBots (validated_cfg no_list) = crawler_bots" "\<not> hp_Enabled (dm_Honeypot (validated_cfg no_list))"
      "\<not> pw_Enabled (dm_PoW (validated_cfg no_list))" "rl_Enabled (dm_Rules (validated_cfg no_list))"
      "rl_ruleKey (dm_Rules (validated_cfg no_list)) = VariantKey id [''a'', ''b''] [''x'']"
    by (simp_all add: validated_cfg_def plain_domain_def)
  have env: "se_domain env = validated_cfg no_list" "se_intel env = None" "se_exempt env = None" "se_now env = 30" "se_rules env = se_rules allowing_env"
    by (simp_all add: env_def request_env_def allowing_env_def example_stage_env_def)
  have st: "pl_enforcer example_pipe_state = Some synced_manager" by (simp add: example_pipe_state_def)
  have w: "\<exists>st'. wafRulesStage env sample_request st = (Inr (Some (verdict ActionAllow ''waf:probe'' [])), st')" for st
    by (simp add: wafRulesStage_def Let_def env dc rc_Get_def allowing_env_def MatchEnforcing_def challenge_rule_def rule_matches_def
        BuildMatchInput_def NeedsMethod_def HeaderTargets_def sample_request_def example_lowers split: prod.split)
  have "\<exists>st'. shed_local env sample_request st = ((ShedPass, ''waf:probe''), st')" for st
    using w [of st] by (auto simp: shed_local_def intelDenyStage_def env honeypotStage_def CheckHoneypot_def dc)
  then obtain st' where l: "shed_local env sample_request ((fresh_memo example_pipe_state)\<lparr>pl_powExemption := ''''\<rparr>) = ((ShedPass, ''waf:probe''), st')"
    by blast
  have b: "shed_bots env sample_request st = Inr st" for st by (simp add: shed_bots_def env dc example_facts)
  show ?thesis
    by (simp add: ShedDecision_def ShedDecisionWithReason_def Let_def env_def [symmetric] env dc example_facts st synced_simps b l)
qed

theorem placed_block_denies_witness:
  "\<exists>st1. BlockIP sm_ops 5 ''192.0.2.7'' ''manual'' 60 0 example_pipe_state = (Inr (), st1) \<and>
     dc_Action (fst (eng_Evaluate (Some (uniform_config (validated_cfg no_list))) allowing_env sample_request st1)) = ActionDeny"
proof -
  have "fst (BlockIP sm_ops 5 ''192.0.2.7'' ''manual'' 60 0 example_pipe_state) = Inr ()"
    using mem.set_value [of fresh_memory 5 "BlockKey ''192.0.2.7''" "BlockValue ''manual'' 0" 60] fresh_memory_ok(1)
    by (auto simp: BlockIP_def example_pipe_state_def refines_def spec_Set_def split: prod.splits)
  then obtain st1 where b: "BlockIP sm_ops 5 ''192.0.2.7'' ''manual'' 60 0 example_pipe_state = (Inr (), st1)" by (metis prod.collapse)
  have "dc_Action (fst (eng_Evaluate (Some (uniform_config (validated_cfg no_list))) allowing_env sample_request st1)) = ActionDeny"
    by (rule placed_block_denies [OF b _ _ _ example_parse example_facts(1)])
      (auto simp: example_pipe_state_def fresh_memory_ok allowing_env_def example_stage_env_def synced_manager_def example_manager_ok)
  then show ?thesis using b by blast
qed

theorem decision_well_formed_witness:
  "\<exists>d st'. eng_Evaluate (Some (uniform_config denying_cfg)) example_stage_env sample_request example_pipe_state = (d, st') \<and>
     reasonCategory (dc_Reason d) \<in> set reason_categories"
  using decision_well_formed [of "Some (uniform_config denying_cfg)" example_stage_env sample_request example_pipe_state] example_denied by blast

end
