(* ===== verification/Pow_Challenge.thy ===== *)
theory Pow_Challenge
  imports Pow_Tokens
begin

text \<open>
  Stateful challenges (\<^verbatim>\<open>core/pow/challenge.go\<close>): issuance writes a record to the shared store,
  redemption checks a solution and marks the record spent by a compare-and-swap on the exact bytes
  it read. A redemption is two atomic steps, \<open>redeem_prepare\<close> (the read and every check) and
  \<open>redeem_commit\<close> (the swap and what follows it); \<open>Redeem\<close> is their composition, and the single-spend
  theorem is about arbitrary interleavings of the two. Also the per-client difficulty escalation
  (\<^verbatim>\<open>core/pow/escalation.go\<close>) on the counter cache.

  The random identifier and salt of a call are arguments, as are the outcomes of the caller's
  acquisition callbacks.
\<close>

section \<open>Escalation\<close>

definition escalationFreeIssues :: int where "escalationFreeIssues = 4"
definition escalationStep :: int where "escalationStep = 2"
definition escalationPrefix :: string where "escalationPrefix = ''chesc:''"
definition frameEscalationPrefix :: string where "frameEscalationPrefix = ''chfesc:''"

definition escalation_host :: "string \<Rightarrow> string" where
  "escalation_host host0 =
     (let h1 = toLower (trimSpace host0);
          h2 = (if CHR '':'' \<in> set h1 then (case splitHost h1 of Some h \<Rightarrow> h | None \<Rightarrow> h1) else h1)
      in trimSuffix (trim_with (\<lambda>c. c = CHR ''['' \<or> c = CHR '']'') h2) ''.'')"

fun is4In6 :: "addr \<Rightarrow> bool" where
  "is4In6 (AddrV4 _) = False"
| "is4In6 (AddrV6 bs z) = Is4In6 bs"

definition escalationKey :: "string \<Rightarrow> string \<Rightarrow> string \<Rightarrow> string" where
  "escalationKey pre host ip0 =
     (let ip = (case ParseAddr ip0 of
                  Some a \<Rightarrow> if is4In6 a then addr_String (Unmap a) else ip0 | None \<Rightarrow> ip0)
      in pre @ escalation_host host @ '':'' @ ip)"

text \<open>
  \<^verbatim>\<open>CounterCache.Incr\<close> and \<^verbatim>\<open>Forget\<close> may start a drain goroutine. That one was started is part of the cache
  returned here (its worker count and its queue); the goroutine itself runs on after the handler and is a step of its own, of
  \<open>cc_step\<close> (\<open>Counter_Cache\<close>) or \<open>drain_step\<close> (\<open>Counter_Drain\<close>). Its store writes are therefore not in the
  state a handler returns.
\<close>

definition forget_key :: "string \<Rightarrow> counter_cache \<Rightarrow> counter_cache" where
  "forget_key key c = snd (cc_Forget key c)"

definition ForgetEscalation :: "string \<Rightarrow> string \<Rightarrow> 'k pow_manager \<Rightarrow> 'k pow_manager" where
  "ForgetEscalation host ip m =
     m\<lparr>pm_counters := forget_key (escalationKey frameEscalationPrefix host ip)
        (forget_key (escalationKey escalationPrefix host ip) (pm_counters m))\<rparr>"

fun reset_prefixes ::
  "'s store_ops \<Rightarrow> row_hash \<Rightarrow> nanos \<Rightarrow> string \<Rightarrow> string \<Rightarrow> string list \<Rightarrow> nat \<Rightarrow> forget_error list \<Rightarrow> counter_cache \<times> 's \<Rightarrow>
     nat \<times> forget_error list \<times> counter_cache \<times> 's" where
  "reset_prefixes ops h now host ip [] keys errs s = (keys, errs, s)"
| "reset_prefixes ops h now host ip (p # ps) keys errs s =
     (let (es, spawn, c, st) = ForgetSync ops h now (escalationKey p host ip) s
      in if es \<noteq> [] then reset_prefixes ops h now host ip ps keys (errs @ es) (c, st)
         else reset_prefixes ops h now host ip ps (keys + 1) errs (c, st))"

definition ResetEscalation ::
  "'s store_ops \<Rightarrow> row_hash \<Rightarrow> nanos \<Rightarrow> string \<Rightarrow> string \<Rightarrow> 'k pow_manager option \<times> 's \<Rightarrow>
     nat \<times> forget_error list \<times> 'k pow_manager option \<times> 's" where
  "ResetEscalation ops h now host ip s =
     (case fst s of
        None \<Rightarrow> (0, [], s)
      | Some m \<Rightarrow>
          let (n, es, c, st) = reset_prefixes ops h now host ip [escalationPrefix, frameEscalationPrefix] 0 [] (pm_counters m, snd s)
          in (n, es, Some (m\<lparr>pm_counters := c\<rparr>), st))"

definition bump :: "row_hash \<Rightarrow> nanos \<Rightarrow> string \<Rightarrow> string \<Rightarrow> string \<Rightarrow> nanos \<Rightarrow> 'k pow_manager \<Rightarrow> int \<times> 'k pow_manager" where
  "bump h now pre host ip window m =
     (let (n, spawn, c) = cc_Incr h now (escalationKey pre host ip) window (pm_counters m)
      in (if n \<le> escalationFreeIssues then 0 else go_div (n - escalationFreeIssues) escalationStep, m\<lparr>pm_counters := c\<rparr>))"

definition BumpEscalation :: "row_hash \<Rightarrow> nanos \<Rightarrow> string \<Rightarrow> string \<Rightarrow> nanos \<Rightarrow> 'k pow_manager \<Rightarrow> int \<times> 'k pow_manager" where
  "BumpEscalation h now = bump h now escalationPrefix"

definition BumpFrameEscalation :: "row_hash \<Rightarrow> nanos \<Rightarrow> string \<Rightarrow> string \<Rightarrow> nanos \<Rightarrow> 'k pow_manager \<Rightarrow> int \<times> 'k pow_manager" where
  "BumpFrameEscalation h now = bump h now frameEscalationPrefix"

section \<open>Issuance\<close>

datatype pow_error =
    PeSpec spec_error
  | PeRecord record_error
  | PeStore store_error
  | PeCollision
  | PeKeys key_error
  | PeMarshal
  | ErrChallengeUnknown
  | ErrBadSolution
  | ErrHostMismatch
  | ErrClientAddressMismatch
  | ErrTooFast
  | ErrNoJSDisabled
  | ErrNoJSRateLimited
  | ErrVerifierBusy
  | ErrVerifierRateLimited

record challenge =
  ch_ID :: string
  ch_Challenge :: string
  ch_Algorithm :: string
  ch_Difficulty :: int
  ch_MemoryKiB :: "32 word"
  ch_Iterations :: "32 word"
  ch_Salt :: string

definition challengeKeyPrefix :: string where "challengeKeyPrefix = ''challenge:''"
definition challengeKey :: "string \<Rightarrow> string" where "challengeKey uid = challengeKeyPrefix @ uid"

definition challengeFromSpec :: "string \<Rightarrow> string \<Rightarrow> proof_spec \<Rightarrow> challenge" where
  "challengeFromSpec uid text spec =
     (if spec_algorithm spec = AlgorithmArgon2ID
      then \<lparr>ch_ID = uid, ch_Challenge = text, ch_Algorithm = spec_algorithm spec, ch_Difficulty = 0,
            ch_MemoryKiB = ps_MemoryKiB spec, ch_Iterations = ps_Iterations spec, ch_Salt = hex_encode (ps_Salt spec)\<rparr>
      else \<lparr>ch_ID = uid, ch_Challenge = text, ch_Algorithm = spec_algorithm spec, ch_Difficulty = ps_Difficulty spec,
            ch_MemoryKiB = 0, ch_Iterations = 0, ch_Salt = ''''\<rparr>)"

definition issue_message :: "string \<Rightarrow> string \<Rightarrow> nanos \<Rightarrow> string \<Rightarrow> bytes" where
  "issue_message host ip now uid =
     host @ [CHR 0x00] @ ip @ [CHR 0x00] @ format_int (go_div (now div 10 ^ 9) 3600) @ [CHR 0x00] @ uid"

definition with_salt :: "bytes \<Rightarrow> proof_spec \<Rightarrow> proof_spec" where
  "with_salt salt spec = (if spec_algorithm spec = AlgorithmArgon2ID then spec\<lparr>ps_Salt := salt\<rparr> else spec)"

definition issued_record ::
  "'k pow_env \<Rightarrow> nanos \<Rightarrow> string \<Rightarrow> string \<Rightarrow> string \<Rightarrow> string \<Rightarrow> proof_spec \<Rightarrow> bool \<Rightarrow> 'k pow_manager \<Rightarrow> challenge_record" where
  "issued_record env now uid host ip uri spec allowNoJS m =
     \<lparr>cr_State = recordStateIssued, cr_Host = toLower host, cr_IP = ip,
      cr_ChallengeDigest = env_hmac env (pm_hmacSecret m) (issue_message (toLower host) ip now uid),
      cr_Algorithm = spec_algorithm spec, cr_Difficulty = ps_Difficulty spec, cr_MemoryKiB = ps_MemoryKiB spec,
      cr_Iterations = ps_Iterations spec, cr_Salt = ps_Salt spec, cr_URI = uri, cr_NoJS = allowNoJS,
      cr_IssuedAt = now div 10 ^ 6\<rparr>"

definition IssueWithSpec ::
  "'k pow_env \<Rightarrow> 's store_ops \<Rightarrow> nanos \<Rightarrow> string \<Rightarrow> bytes \<Rightarrow> string \<Rightarrow> string \<Rightarrow> string \<Rightarrow> proof_spec \<Rightarrow> nanos \<Rightarrow> bool \<Rightarrow>
     'k pow_manager \<Rightarrow> 's \<Rightarrow> (pow_error + challenge) \<times> 's" where
  "IssueWithSpec env ops now uid salt host ip uri spec0 ttl allowNoJS m st =
     (case spec_validate spec0 of
        Inl e \<Rightarrow> (Inl (PeSpec e), st)
      | Inr _ \<Rightarrow>
          let spec = with_salt salt spec0;
              rec = issued_record env now uid host ip uri spec allowNoJS m
          in case encodeChallengeRecord rec of
               Inl e \<Rightarrow> (Inl (PeRecord e), st)
             | Inr raw \<Rightarrow>
                 (case st_CompareAndSwap ops now (challengeKey uid) None raw ttl st of
                    (Inl e, st') \<Rightarrow> (Inl (PeStore e), st')
                  | (Inr created, st') \<Rightarrow>
                      (if \<not> created then Inl PeCollision
                       else Inr (challengeFromSpec uid (hex_encode (cr_ChallengeDigest rec)) spec), st')))"

definition Issue ::
  "'k pow_env \<Rightarrow> 's store_ops \<Rightarrow> nanos \<Rightarrow> string \<Rightarrow> bytes \<Rightarrow> string \<Rightarrow> string \<Rightarrow> string \<Rightarrow> int \<Rightarrow> nanos \<Rightarrow> bool \<Rightarrow>
     'k pow_manager \<Rightarrow> 's \<Rightarrow> (pow_error + challenge) \<times> 's" where
  "Issue env ops now uid salt host ip uri difficulty ttl allowNoJS m st =
     IssueWithSpec env ops now uid salt host ip uri
       \<lparr>ps_Algorithm = AlgorithmSHA256, ps_Difficulty = difficulty, ps_MemoryKiB = 0, ps_Iterations = 0, ps_Salt = zero_salt\<rparr>
       ttl allowNoJS m st"

section \<open>Redemption\<close>

record redeem_request =
  rq_ChallengeID :: string
  rq_Nonce :: string
  rq_Proof :: string
  rq_NoJS :: bool
  rq_Host :: string
  rq_IP :: string
  rq_UserAgent :: string
  rq_TokenTTL :: nanos
  rq_ChallengeTTL :: nanos
  rq_TTLs :: "(string \<Rightarrow> nanos \<times> nanos) option"
  rq_AcquireNoJS :: "string \<Rightarrow> pow_error option"
  rq_AcquireArgon :: "pow_error option"

datatype redeem_outcome = RedeemSolved | RedeemNetworkHandover

record redeem_result =
  rr_Outcome :: redeem_outcome
  rr_Token :: string
  rr_TokenTTL :: nanos
  rr_RedirectURI :: string
  rr_IssuedIP :: string
  rr_SoftError :: bool
  rr_Difficulty :: int
  rr_Algorithm :: string
  rr_MemoryKiB :: "32 word"
  rr_Iterations :: "32 word"
  rr_IssuedAt :: nanos

definition leadingZeros8 :: "nat \<Rightarrow> nat" where
  "leadingZeros8 b = length (takeWhile (\<lambda>i. b < 2 ^ (7 - i)) [0..<8])"

fun leadingZeroBits :: "bytes \<Rightarrow> nat" where
  "leadingZeroBits [] = 0"
| "leadingZeroBits (c # cs) = (if (of_char c :: nat) = 0 then 8 + leadingZeroBits cs else leadingZeros8 (of_char c))"

definition uuid_char :: "char \<Rightarrow> bool" where
  "uuid_char c \<longleftrightarrow> (48 \<le> (of_char c :: nat) \<and> (of_char c :: nat) \<le> 57) \<or> (97 \<le> (of_char c :: nat) \<and> (of_char c :: nat) \<le> 102)"

definition canonical_uuid :: "string \<Rightarrow> bool" where
  "canonical_uuid s \<longleftrightarrow> length s = 36 \<and>
     (\<forall>i < 36. if i \<in> {8, 13, 18, 23} then s ! i = CHR ''-'' else uuid_char (s ! i))"

definition request_ttls :: "redeem_request \<Rightarrow> string \<Rightarrow> nanos \<times> nanos" where
  "request_ttls req uri = (case rq_TTLs req of None \<Rightarrow> (rq_TokenTTL req, rq_ChallengeTTL req) | Some f \<Rightarrow> f uri)"

definition check_solution ::
  "'k pow_env \<Rightarrow> nanos \<Rightarrow> redeem_request \<Rightarrow> challenge_record \<Rightarrow> 'k pow_manager \<Rightarrow> pow_error + unit" where
  "check_solution env now req rec m =
     (if rq_NoJS req then
        (if \<not> cr_NoJS rec then Inl ErrNoJSDisabled
         else case rq_AcquireNoJS req (cr_URI rec) of
                Some e \<Rightarrow> Inl e
              | None \<Rightarrow> if now - cr_IssuedAt rec * 10 ^ 6 < pm_NoJSMinDelay m then Inl ErrTooFast else Inr ())
      else if cr_Algorithm rec = AlgorithmArgon2ID then
        (case rq_AcquireArgon req of
           Some e \<Rightarrow> Inl e
         | None \<Rightarrow> if verifyArgon2ID (env_idkey env) (hex_encode (cr_ChallengeDigest rec)) (cr_proofSpec rec) (rq_Proof req)
                   then Inr () else Inl ErrBadSolution)
      else if int (leadingZeroBits (env_sha256 env (appendChallengeText rec [] @ rq_Nonce req))) < cr_Difficulty rec
      then Inl ErrBadSolution else Inr ())"

definition check_record ::
  "'k pow_env \<Rightarrow> nanos \<Rightarrow> redeem_request \<Rightarrow> challenge_record \<Rightarrow> 'k pow_manager \<Rightarrow> pow_error + unit" where
  "check_record env now req rec m =
     (if cr_State rec \<noteq> recordStateIssued then Inl ErrChallengeUnknown
      else if \<not> EqualFold (cr_Host rec) (rq_Host req) then Inl ErrHostMismatch
      else if cr_IP rec \<noteq> rq_IP req \<and> rq_NoJS req then Inl ErrClientAddressMismatch
      else check_solution env now req rec m)"

text \<open>The first step: read the record, check it, and encode its spent form.\<close>

definition redeem_prepare ::
  "'k pow_env \<Rightarrow> 's store_ops \<Rightarrow> nanos \<Rightarrow> redeem_request \<Rightarrow> 'k pow_manager \<Rightarrow> 's \<Rightarrow>
     (pow_error + (bytes \<times> challenge_record \<times> bytes)) \<times> 's" where
  "redeem_prepare env ops now req m st =
     (if \<not> canonical_uuid (rq_ChallengeID req) then (Inl ErrChallengeUnknown, st)
      else case st_Get ops now (challengeKey (rq_ChallengeID req)) st of
             (Inl e, st') \<Rightarrow> (Inl (PeStore e), st')
           | (Inr None, st') \<Rightarrow> (Inl ErrChallengeUnknown, st')
           | (Inr (Some raw), st') \<Rightarrow>
               (case decodeChallengeRecord raw of
                  Inl _ \<Rightarrow> (Inl ErrChallengeUnknown, st')
                | Inr rec \<Rightarrow>
                    (case check_record env now req rec m of
                       Inl e \<Rightarrow> (Inl e, st')
                     | Inr _ \<Rightarrow>
                         (case encodeChallengeRecord (rec\<lparr>cr_State := recordStateSpent\<rparr>) of
                            Inl e \<Rightarrow> (Inl (PeRecord e), st')
                          | Inr spent \<Rightarrow> (Inr (raw, rec, spent), st')))))"

definition redeem_mint ::
  "'k pow_env \<Rightarrow> 'k disk \<Rightarrow> nanos \<Rightarrow> redeem_request \<Rightarrow> challenge_record \<Rightarrow> nanos \<Rightarrow> 'k pow_manager \<Rightarrow>
     (pow_error + redeem_result) \<times> 'k pow_manager" where
  "redeem_mint env disk now req rec tokenTTL m0 =
     (let m = ForgetEscalation (cr_Host rec) (cr_IP rec) m0;
          base = \<lparr>rr_Outcome = RedeemNetworkHandover, rr_Token = '''', rr_TokenTTL = 0, rr_RedirectURI = cr_URI rec,
                  rr_IssuedIP = cr_IP rec, rr_SoftError = False, rr_Difficulty = cr_Difficulty rec,
                  rr_Algorithm = cr_Algorithm rec, rr_MemoryKiB = cr_MemoryKiB rec, rr_Iterations = cr_Iterations rec,
                  rr_IssuedAt = cr_IssuedAt rec * 10 ^ 6\<rparr>
      in if cr_IP rec \<noteq> rq_IP req then (Inr base, m)
         else case mintTokenWithSpec env disk now (cr_Host rec) (Fingerprint env (rq_IP req) (rq_UserAgent req))
                     (rq_ChallengeID req) (cr_proofSpec rec) tokenTTL m of
                (Inl e, m') \<Rightarrow> (Inl (PeKeys e), m')
              | (Inr token, m') \<Rightarrow>
                  (Inr (base\<lparr>rr_Outcome := RedeemSolved, rr_Token := token, rr_TokenTTL := tokenTTL, rr_IssuedIP := ''''\<rparr>), m'))"

definition redeem_commit ::
  "'k pow_env \<Rightarrow> 's store_ops \<Rightarrow> 'k disk \<Rightarrow> nanos \<Rightarrow> redeem_request \<Rightarrow> bytes \<times> challenge_record \<times> bytes \<Rightarrow>
     'k pow_manager \<times> 's \<Rightarrow> (pow_error + redeem_result) \<times> 'k pow_manager \<times> 's" where
  "redeem_commit env ops disk now req prep s =
     (case prep of (raw, rec, spent) \<Rightarrow>
        (case request_ttls req (cr_URI rec) of (tokenTTL, challengeTTL) \<Rightarrow>
          (case st_CompareAndSwap ops now (challengeKey (rq_ChallengeID req)) (Some raw) spent challengeTTL (snd s) of
             (Inl e, st) \<Rightarrow> (Inl (PeStore e), fst s, st)
           | (Inr swapped, st) \<Rightarrow>
               if \<not> swapped then (Inl ErrChallengeUnknown, fst s, st)
               else let (r, m) = redeem_mint env disk now req rec tokenTTL (fst s) in (r, m, st))))"

definition Redeem_stateful ::
  "'k pow_env \<Rightarrow> 's store_ops \<Rightarrow> 'k disk \<Rightarrow> nanos \<Rightarrow> redeem_request \<Rightarrow> 'k pow_manager \<times> 's \<Rightarrow>
     (pow_error + redeem_result) \<times> 'k pow_manager \<times> 's" where
  "Redeem_stateful env ops disk now req s =
     (case redeem_prepare env ops now req (fst s) (snd s) of
        (Inl e, st) \<Rightarrow> (Inl e, fst s, st)
      | (Inr prep, st) \<Rightarrow> redeem_commit env ops disk now req prep (fst s, st))"


section \<open>Single spend\<close>

text \<open>
  A run is about one challenge identifier: any number of redemptions of it by any replicas (each
  with its own manager, disk and request) interleaved step by step with arbitrary other store calls
  and sweeps that leave its key alone. Preparations that succeeded stay available for ever, so a
  redemption may commit as late, and as often, as it likes. The last component counts the
  redemptions that returned a result.
\<close>

fun call_keys :: "store_call \<Rightarrow> string list" where
  "call_keys (CallGet k) = []"
| "call_keys (CallSet k x ttl) = [k]"
| "call_keys (CallDelete k) = [k]"
| "call_keys (CallIncrByDeadline k d dl) = [k]"
| "call_keys (CallCompareAndSwap k old x ttl) = [k]"
| "call_keys (CallCompareAndDelete k old) = [k]"
| "call_keys (CallCommitBlock c) = [bc_BlockKey c, bc_CounterKey c]"
| "call_keys (CallCommitEvent c) = [ec_CounterKey c]"
| "call_keys (CallCommitUnblock c) = [uc_HoldKey c, uc_GenerationKey c, uc_BlockKey c, uc_CounterKey c]"
| "call_keys CallSweep = []"

type_synonym prepared = "redeem_request \<times> bytes \<times> challenge_record \<times> bytes"

definition add_prepared :: "redeem_request \<Rightarrow> pow_error + (bytes \<times> challenge_record \<times> bytes) \<Rightarrow> prepared list \<Rightarrow> prepared list" where
  "add_prepared req r P = (case r of Inl _ \<Rightarrow> P | Inr p \<Rightarrow> (req, p) # P)"

inductive spend_run ::
  "'k pow_env \<Rightarrow> 's store_ops \<Rightarrow> (nanos \<Rightarrow> 's \<Rightarrow> 's) \<Rightarrow> string \<Rightarrow> 's \<Rightarrow> 's \<Rightarrow> nanos \<Rightarrow> prepared list \<Rightarrow> nat \<Rightarrow> bool"
  for env ops sweep uid s0 where
  spend_start: "spend_run env ops sweep uid s0 s0 t [] 0"
| spend_call: "spend_run env ops sweep uid s0 s t P n \<Longrightarrow> t \<le> t' \<Longrightarrow> call_wf c \<Longrightarrow>
    challengeKey uid \<notin> set (call_keys c) \<Longrightarrow> exec_call ops sweep t' c s = (r, s') \<Longrightarrow>
    spend_run env ops sweep uid s0 s' t' P n"
| spend_prepare: "spend_run env ops sweep uid s0 s t P n \<Longrightarrow> t \<le> t' \<Longrightarrow> rq_ChallengeID req = uid \<Longrightarrow>
    redeem_prepare env ops t' req m s = (r, s') \<Longrightarrow>
    spend_run env ops sweep uid s0 s' t' (add_prepared req r P) n"
| spend_commit: "spend_run env ops sweep uid s0 s t P n \<Longrightarrow> t \<le> t' \<Longrightarrow> (req, p) \<in> set P \<Longrightarrow>
    redeem_commit env ops disk t' req p (m, s) = (r, m', s') \<Longrightarrow>
    spend_run env ops sweep uid s0 s' t' P (if isl r then n else n + 1)"

lemma spec_call_keys: "effect_key ` set (snd (spec_call now c v)) \<subseteq> set (call_keys c)"
proof (cases c)
  case (CallIncrByDeadline k d dl)
  then show ?thesis using incr_effects [of now k d dl v] by auto
next
  case (CallCommitEvent ec)
  then show ?thesis using event_effects [of now ec v] by auto
next
  case (CallCommitBlock bc)
  then show ?thesis by (auto simp: spec_CommitBlock_def Let_def)
qed (auto simp: spec_Get_def spec_Set_def spec_Delete_def spec_CompareAndSwap_def spec_CompareAndDelete_def
    spec_CommitUnblock_def)

lemma nth_5: "(a # b # c # d # e # f # xs) ! 5 = f"
  by (simp add: eval_nat_numeral)

lemma encoded_state_byte:
  assumes "encodeChallengeRecord r = Inr raw"
  shows "binaryRecordState (cr_State r) = Inr (raw ! 5)"
proof (cases "spec_algorithm (cr_proofSpec r) = AlgorithmArgon2ID")
  case True
  then show ?thesis
    by (rule encode_v2_bytes [OF assms]) (simp add: challengeRecordMagic_def nth_5)
next
  case False
  then show ?thesis
    by (rule encode_v1_bytes [OF assms]) (simp add: challengeRecordMagic_def nth_5)
qed

lemma decoded_state_byte:
  assumes d: "decodeChallengeRecord raw = Inr r"
  shows "logicalRecordState (raw ! 5) = Inr (cr_State r)"
proof -
  have l: "4 < length raw"
    using d by (auto simp: decodeChallengeRecord_def decodeBinaryChallengeRecord_def split: if_splits)
  show ?thesis
  proof (cases "raw ! 4 = char_of (2 :: nat)")
    case True
    then show ?thesis by (rule decode_v2_fields [OF d _ l])
  next
    case False
    then show ?thesis by (rule decode_v1_fields [OF d])
  qed
qed

lemma prepared_bytes:
  assumes "redeem_prepare env ops now req m s = (Inr (raw, rec, spent), s')"
  shows "raw ! 5 = char_of (1 :: nat)" "spent ! 5 = char_of (2 :: nat)"
proof -
  have "decodeChallengeRecord raw = Inr rec" "cr_State rec = recordStateIssued"
    "encodeChallengeRecord (rec\<lparr>cr_State := recordStateSpent\<rparr>) = Inr spent"
    using assms by (auto simp: redeem_prepare_def check_record_def split: if_splits sum.splits option.splits prod.splits)
  then show "raw ! 5 = char_of (1 :: nat)" "spent ! 5 = char_of (2 :: nat)"
    using decoded_state_byte [of raw rec] encoded_state_byte [of "rec\<lparr>cr_State := recordStateSpent\<rparr>" spent]
    by (auto simp: logicalRecordState_def binaryRecordState_def recordStateIssued_def recordStateSpent_def split: if_splits)
qed

context swept_store
begin

lemma other_call_live:
  assumes "ok s" "call_wf c" "exec_call ops sweep now c s = (r, s')" "k \<notin> set (call_keys c)" "now \<le> t"
  shows "ok s' \<and> live s' t k = live s t k"
proof -
  have "refines live ok now s (r, s') (spec_call now c (live s now))"
    using call_refines [OF assms(1,2), of now] assms(3) by simp
  moreover have "k \<notin> effect_key ` set (snd (spec_call now c (live s now)))"
    using spec_call_keys assms(4) by blast
  ultimately show ?thesis
    using assms(5) by (simp add: refines_def apply_effects_other)
qed

lemma prepare_live:
  assumes "ok s" "redeem_prepare env ops now req m s = (r, s')" "now \<le> t"
  shows "ok s' \<and> live s' t = live s t"
proof (cases "canonical_uuid (rq_ChallengeID req)")
  case True
  obtain g s1 where g: "st_Get ops now (challengeKey (rq_ChallengeID req)) s = (g, s1)" by fastforce
  have "s' = s1"
    using assms(2) True by (auto simp: redeem_prepare_def g split: sum.splits option.splits)
  then show ?thesis using get_eq [OF assms(1) g] assms(3) by (simp add: same_live_def)
qed (use assms in \<open>simp add: redeem_prepare_def\<close>)

lemma cas_char:
  assumes "ok s" "st_CompareAndSwap ops now k old x ttl s = (r, s')"
  obtains (swapped) "r = Inr True" "ok s'" "map_option e_value (live s now k) = old"
      "\<And>t. now \<le> t \<Longrightarrow> live s' t = (live s t)(k := unexpired t \<lparr>e_value = x, e_expiresAt = expiry now ttl\<rparr>)"
  | (kept) "r = Inr False" "ok s'" "map_option e_value (live s now k) \<noteq> old" "\<And>t. now \<le> t \<Longrightarrow> live s' t = live s t"
  using cas [OF assms(1), of now k old x ttl] assms(2) swapped kept
  by (auto simp: refines_def spec_CompareAndSwap_def split: if_splits)

lemma commit_char:
  assumes "ok s" "redeem_commit env ops disk now req (raw, rec, spent) (m, s) = (r, m', s')"
  obtains (won) "map_option e_value (live s now (challengeKey (rq_ChallengeID req))) = Some raw" "ok s'"
      "\<And>t e. now \<le> t \<Longrightarrow> live s' t (challengeKey (rq_ChallengeID req)) = Some e \<Longrightarrow> e_value e = spent"
  | (lost) "r = Inl ErrChallengeUnknown" "ok s'" "\<And>t. now \<le> t \<Longrightarrow> live s' t = live s t"
proof -
  obtain tt ct where ttl: "request_ttls req (cr_URI rec) = (tt, ct)" by fastforce
  obtain b s1 where c: "st_CompareAndSwap ops now (challengeKey (rq_ChallengeID req)) (Some raw) spent ct s = (b, s1)"
    by fastforce
  show thesis
  proof (rule cas_char [OF assms(1) c])
    assume "b = Inr True" and h: "ok s1" "map_option e_value (live s now (challengeKey (rq_ChallengeID req))) = Some raw"
      and l: "\<And>t. now \<le> t \<Longrightarrow> live s1 t = (live s t)(challengeKey (rq_ChallengeID req) :=
             unexpired t \<lparr>e_value = spent, e_expiresAt = expiry now ct\<rparr>)"
    then have "s' = s1" using assms(2) by (simp add: redeem_commit_def ttl c split: prod.splits)
    with h l show thesis by (intro won) (auto simp: unexpired_def split: if_splits)
  next
    assume b: "b = Inr False" and h: "ok s1" "\<And>t. now \<le> t \<Longrightarrow> live s1 t = live s t"
    then have "s' = s1" "r = Inl ErrChallengeUnknown" using assms(2) by (auto simp: redeem_commit_def ttl c)
    with h show thesis by (intro lost) auto
  qed
qed

definition spent_inv :: "string \<Rightarrow> 's \<Rightarrow> nanos \<Rightarrow> prepared list \<Rightarrow> nat \<Rightarrow> bool" where
  "spent_inv uid s t P n \<longleftrightarrow> ok s \<and>
     (\<forall>(req, raw, rec, spent) \<in> set P. rq_ChallengeID req = uid \<and> raw ! 5 = char_of (1 :: nat) \<and> spent ! 5 = char_of (2 :: nat)) \<and>
     (n = 0 \<or> n = 1 \<and> (\<forall>t' \<ge> t. \<forall>e. live s t' (challengeKey uid) = Some e \<longrightarrow> e_value e ! 5 = char_of (2 :: nat)))"

lemma spent_inv_later:
  assumes "spent_inv uid s t P n" "t \<le> t'" "ok s'"
    and "\<And>u. t' \<le> u \<Longrightarrow> live s' u (challengeKey uid) = live s u (challengeKey uid)"
  shows "spent_inv uid s' t' P n"
  using assms(1,3) order_trans [OF assms(2)] by (auto simp: spent_inv_def assms(4))

lemma spend_run_inv:
  "spend_run env ops sweep uid s0 s t P n \<Longrightarrow> ok s0 \<Longrightarrow> spent_inv uid s t P n"
proof (induction rule: spend_run.induct)
  case (spend_start t)
  then show ?case by (simp add: spent_inv_def)
next
  case (spend_call s t P n t' c r s')
  have inv: "spent_inv uid s t P n" using spend_call by simp
  then have "ok s" by (simp add: spent_inv_def)
  note ol = other_call_live [OF this spend_call.hyps(3,5,4)]
  show ?case by (rule spent_inv_later [OF inv spend_call.hyps(2)]) (use ol in auto)
next
  case (spend_prepare s t P n t' req m r s')
  have inv: "spent_inv uid s t P n" using spend_prepare by simp
  then have "ok s" by (simp add: spent_inv_def)
  note pl = prepare_live [OF this spend_prepare.hyps(4)]
  have inv': "spent_inv uid s' t' P n" by (rule spent_inv_later [OF inv spend_prepare.hyps(2)]) (use pl in auto)
  show ?case
  proof (cases r)
    case (Inl e)
    then show ?thesis using inv' by (simp add: add_prepared_def)
  next
    case (Inr p)
    obtain raw rec spent where p: "p = (raw, rec, spent)" by (cases p)
    show ?thesis using inv' spend_prepare.hyps(3) prepared_bytes [OF spend_prepare.hyps(4) [unfolded Inr p]]
      by (simp add: spent_inv_def add_prepared_def Inr p)
  qed
next
  case (spend_commit s t P n t' req p disk m r m' s')
  obtain raw rec spent where p: "p = (raw, rec, spent)" by (cases p)
  have inv: "ok s" "rq_ChallengeID req = uid" "raw ! 5 = char_of (1 :: nat)" "spent ! 5 = char_of (2 :: nat)"
    using spend_commit by (auto simp: spent_inv_def p)
  show ?case
  proof (rule commit_char [OF inv(1) spend_commit.hyps(4) [unfolded p]])
    assume l: "map_option e_value (live s t' (challengeKey (rq_ChallengeID req))) = Some raw"
      and s': "ok s'" "\<And>t e. t' \<le> t \<Longrightarrow> live s' t (challengeKey (rq_ChallengeID req)) = Some e \<Longrightarrow> e_value e = spent"
    have "n = 0" using l spend_commit inv by (auto simp: spent_inv_def)
    then show ?thesis using spend_commit inv s' by (auto simp: spent_inv_def)
  next
    assume "r = Inl ErrChallengeUnknown" "ok s'" "\<And>t. t' \<le> t \<Longrightarrow> live s' t = live s t"
    then show ?thesis using spent_inv_later [of uid s t P n t' s'] spend_commit by simp
  qed
qed

lemma spent_at_most_once: "spend_run env ops sweep uid s0 s t P n \<Longrightarrow> ok s0 \<Longrightarrow> n \<le> 1"
  using spend_run_inv by (force simp: spent_inv_def)

end


section \<open>From issuance to redemption\<close>

text \<open>
  What the client must do, in terms of the challenge it was sent: enough leading zero bits for the
  digest of the challenge text and a nonce, or the Argon2id result for the parameters and salt it
  received (and the verifier has a free slot).
\<close>

definition client_solves :: "'k pow_env \<Rightarrow> challenge \<Rightarrow> redeem_request \<Rightarrow> bool" where
  "client_solves env ch req \<longleftrightarrow>
     (if ch_Algorithm ch = AlgorithmArgon2ID
      then rq_AcquireArgon req = None \<and>
           (case hex_decode (ch_Salt ch) of None \<Rightarrow> False
            | Some salt \<Rightarrow> rq_Proof req =
                hex_encode (env_idkey env (ch_Challenge ch) salt (ch_Iterations ch) (ch_MemoryKiB ch) 1 argon2ProofSize))
      else ch_Difficulty ch \<le> int (leadingZeroBits (env_sha256 env (ch_Challenge ch @ rq_Nonce req))))"

text \<open>Documented output sizes of the primitives.\<close>

definition digest_sizes :: "'k pow_env \<Rightarrow> bool" where
  "digest_sizes env \<longleftrightarrow> (\<forall>k x. length (env_hmac env k x) = 32) \<and>
     (\<forall>p s t m n l. length (env_idkey env p s t m n l) = l)"

lemma encode_succeeds:
  assumes "record_ok r" "cr_State r \<in> {recordStateIssued, recordStateSpent}" "\<not> fields_too_long r"
    and "spec_validate (cr_proofSpec r) = Inr ()"
  shows "\<exists>raw. encodeChallengeRecord r = Inr raw"
proof -
  obtain b where b: "binaryRecordState (cr_State r) = Inr b"
    using assms(2) by (auto simp: binaryRecordState_def recordStateIssued_def recordStateSpent_def)
  have pay: "\<not> payload_size r > 2 ^ 63 - 1 - challengeRecordV2FixedSize" "\<not> payload_size r > 2 ^ 63 - 1 - challengeRecordFixedSize"
    using assms(3) by (simp_all add: fields_too_long_def payload_size_def record_defs)
  have diff: "spec_algorithm (cr_proofSpec r) = AlgorithmArgon2ID \<or> 0 \<le> cr_Difficulty r \<and> cr_Difficulty r \<le> 255"
    using assms(4) by (auto simp: spec_validate_def cr_proofSpec_def split: if_splits)
  show ?thesis
    using assms b pay diff
    by (auto simp: encodeChallengeRecord_def encodeChallengeRecordV2_def Let_def record_ok_def payload_size_def
        record_tail_def challengeRecordMagic_def challengeRecordFixedSize_def challengeRecordV2FixedSize_def
        argon2SaltSize_def)
qed

definition issue_fits :: "string \<Rightarrow> string \<Rightarrow> string \<Rightarrow> bool" where
  "issue_fits host ip uri \<longleftrightarrow> length host \<le> challengeRecordMaxFieldSize \<and> length ip \<le> challengeRecordMaxFieldSize \<and>
     length uri \<le> challengeRecordMaxFieldSize"

lemma length_toLower [simp]: "length (toLower s) = length s"
  by (simp add: toLower_def)

lemma with_salt_same [simp]:
  "spec_algorithm (with_salt salt spec) = spec_algorithm spec" "spec_validate (with_salt salt spec) = spec_validate spec"
  "ps_Difficulty (with_salt salt spec) = ps_Difficulty spec" "ps_MemoryKiB (with_salt salt spec) = ps_MemoryKiB spec"
  "ps_Iterations (with_salt salt spec) = ps_Iterations spec"
  by (simp_all add: with_salt_def spec_algorithm_def spec_validate_def)

lemma algorithm_idem: "spec_validate \<lparr>ps_Algorithm = spec_algorithm s, ps_Difficulty = ps_Difficulty s, ps_MemoryKiB = ps_MemoryKiB s,
    ps_Iterations = ps_Iterations s, ps_Salt = x\<rparr> = Inr () \<longleftrightarrow> spec_validate s = Inr ()"
  by (auto simp: spec_validate_def spec_algorithm_def AlgorithmSHA256_def AlgorithmArgon2ID_def)

lemma issued_record_encodes:
  assumes "digest_sizes env" "spec_validate spec0 = Inr ()" "length (ps_Salt spec0) = argon2SaltSize"
    and "length salt = argon2SaltSize" "issue_fits host ip uri" "int64 (now div 10 ^ 6)"
    and rec_def: "rec = issued_record env now uid host ip uri (with_salt salt spec0) nojs m"
  shows "record_ok rec" "\<exists>raw. encodeChallengeRecord rec = Inr raw \<and> decodeChallengeRecord raw = Inr (wire_view rec)"
proof -
  have salt: "length (ps_Salt (with_salt salt spec0)) = argon2SaltSize"
    using assms(3,4) by (simp add: with_salt_def)
  show ok: "record_ok rec"
    using assms(1,6) salt by (simp add: rec_def issued_record_def record_ok_def digest_sizes_def)
  have "spec_validate (cr_proofSpec rec) = Inr ()"
    using assms(2) algorithm_idem [of "with_salt salt spec0"] by (simp add: rec_def issued_record_def cr_proofSpec_def)
  moreover have "\<not> fields_too_long rec"
    using assms(5) by (simp add: rec_def issued_record_def fields_too_long_def issue_fits_def)
  moreover have "cr_State rec \<in> {recordStateIssued, recordStateSpent}" by (simp add: rec_def issued_record_def)
  ultimately show "\<exists>raw. encodeChallengeRecord rec = Inr raw \<and> decodeChallengeRecord raw = Inr (wire_view rec)"
    using encode_succeeds [OF ok] decode_encode [OF ok] by blast
qed

lemma wire_view_fields [simp]:
  "cr_State (wire_view r) = cr_State r" "cr_Host (wire_view r) = cr_Host r" "cr_IP (wire_view r) = cr_IP r"
  "cr_ChallengeDigest (wire_view r) = cr_ChallengeDigest r" "cr_URI (wire_view r) = cr_URI r"
  "cr_NoJS (wire_view r) = cr_NoJS r" "cr_IssuedAt (wire_view r) = cr_IssuedAt r"
  by (simp_all add: wire_view_def)

lemma spent_view_encodes:
  assumes "record_ok r" "encodeChallengeRecord r = Inr raw"
  shows "\<exists>spent. encodeChallengeRecord ((wire_view r)\<lparr>cr_State := recordStateSpent\<rparr>) = Inr spent"
proof (cases "spec_algorithm (cr_proofSpec r) = AlgorithmArgon2ID")
  case True
  then have "cr_Algorithm r = AlgorithmArgon2ID" by (simp add: argon_algorithm cr_proofSpec_def)
  moreover obtain "spec_validate (cr_proofSpec r) = Inr ()" "\<not> fields_too_long r"
    by (rule encode_v2_bytes [OF assms(2) True])
  moreover have "cr_proofSpec ((wire_view r)\<lparr>cr_State := recordStateSpent\<rparr>) = cr_proofSpec (r\<lparr>cr_Difficulty := 0\<rparr>)"
    using True by (simp add: wire_view_def cr_proofSpec_def)
  ultimately show ?thesis
    using assms(1) True by (intro encode_succeeds) (auto simp: record_ok_def fields_too_long_def wire_view_def validate_view)
next
  case False
  obtain d: "0 \<le> cr_Difficulty r" "cr_Difficulty r \<le> 255" and "\<not> fields_too_long r"
    by (rule encode_v1_bytes [OF assms(2) False])
  then show ?thesis using assms(1) False
    by (auto simp: encodeChallengeRecord_def Let_def record_ok_def payload_size_def cr_proofSpec_def wire_view_def
        fields_too_long_def record_tail_def record_defs binaryRecordState_def spec_algorithm_def AlgorithmSHA256_def AlgorithmArgon2ID_def)
qed


lemma check_solution_client:
  assumes "digest_sizes env" "\<not> rq_NoJS req" and r: "r = issued_record env now uid host ip uri (with_salt salt spec0) nojs m"
    and "client_solves env (challengeFromSpec uid (hex_encode (cr_ChallengeDigest r)) (with_salt salt spec0)) req"
  shows "check_solution env t req (wire_view r) m' = Inr ()"
proof (cases "spec_algorithm spec0 = AlgorithmArgon2ID")
  case True
  let ?k = "env_idkey env (hex_encode (cr_ChallengeDigest r)) salt (ps_Iterations spec0) (ps_MemoryKiB spec0) 1 argon2ProofSize"
  have "rq_AcquireArgon req = None" "rq_Proof req = hex_encode ?k"
    using assms(4) True by (auto simp: client_solves_def challengeFromSpec_def with_salt_def spec_algorithm_def
        hex_decode_encode AlgorithmArgon2ID_def AlgorithmSHA256_def split: if_splits)
  moreover have "length ?k = argon2ProofSize" using assms(1) by (simp add: digest_sizes_def)
  moreover have "wire_view r = r\<lparr>cr_Difficulty := 0\<rparr>"
    using True by (simp add: wire_view_def r issued_record_def cr_proofSpec_def argon_algorithm)
  moreover have "cr_proofSpec (r\<lparr>cr_Difficulty := 0\<rparr>) = \<lparr>ps_Algorithm = AlgorithmArgon2ID, ps_Difficulty = 0,
      ps_MemoryKiB = ps_MemoryKiB spec0, ps_Iterations = ps_Iterations spec0, ps_Salt = salt\<rparr>"
    "cr_Algorithm r = AlgorithmArgon2ID"
    using True by (simp_all add: r issued_record_def cr_proofSpec_def) (simp add: with_salt_def)
  ultimately show ?thesis
    using assms(2) by (simp add: check_solution_def verifyArgon2ID_def hex_decode_encode)
next
  case False
  have "wire_view r = r\<lparr>cr_Algorithm := '''', cr_MemoryKiB := 0, cr_Iterations := 0, cr_Salt := zero_salt\<rparr>"
    using False by (simp add: wire_view_def r issued_record_def cr_proofSpec_def argon_algorithm)
  moreover have "cr_Difficulty r = ps_Difficulty spec0" by (simp add: r issued_record_def)
  ultimately show ?thesis
    using assms(2,4) False
    by (simp add: check_solution_def client_solves_def challengeFromSpec_def appendChallengeText_def AlgorithmArgon2ID_def)
qed

context swept_store
begin

lemma issue_stores:
  assumes "ok s" "live s now (challengeKey uid) = None" "spec_validate spec0 = Inr ()"
    and "rec = issued_record env now uid host ip uri (with_salt salt spec0) nojs m" "encodeChallengeRecord rec = Inr raw"
    and "IssueWithSpec env ops now uid salt host ip uri spec0 ttl nojs m s = (r, s')"
  shows "r = Inr (challengeFromSpec uid (hex_encode (cr_ChallengeDigest rec)) (with_salt salt spec0))" "ok s'"
    "\<And>t. now \<le> t \<Longrightarrow> ttl \<le> 0 \<or> t \<le> now + ttl \<Longrightarrow> map_option e_value (live s' t (challengeKey uid)) = Some raw"
proof -
  obtain c s1 where c: "st_CompareAndSwap ops now (challengeKey uid) None raw ttl s = (c, s1)" by fastforce
  have "c = Inr True \<and> ok s1 \<and> (\<forall>t \<ge> now. live s1 t = (live s t)(challengeKey uid :=
      unexpired t \<lparr>e_value = raw, e_expiresAt = expiry now ttl\<rparr>))"
    by (rule cas_char [OF assms(1) c]) (use assms(2) in auto)
  then show "r = Inr (challengeFromSpec uid (hex_encode (cr_ChallengeDigest rec)) (with_salt salt spec0))" "ok s'"
    "\<And>t. now \<le> t \<Longrightarrow> ttl \<le> 0 \<or> t \<le> now + ttl \<Longrightarrow> map_option e_value (live s' t (challengeKey uid)) = Some raw"
    using assms(3,6) by (auto simp: IssueWithSpec_def Let_def assms(5) c simp flip: assms(4))
qed

lemma other_trace_live:
  assumes "ok s" "exec_trace ops sweep cs s = (rs, s')" "trace_wf t0 cs" "list_all (\<lambda>(t, c). k \<notin> set (call_keys c)) cs"
    and "last (t0 # map fst cs) \<le> t"
  shows "ok s' \<and> live s' t k = live s t k"
  using assms
proof (induction cs arbitrary: s t0 rs)
  case (Cons c cs)
  obtain now call where c: "c = (now, call)" by fastforce
  obtain r s1 where e: "exec_call ops sweep now call s = (r, s1)" by fastforce
  obtain rs1 s2 where t: "exec_trace ops sweep cs s1 = (rs1, s2)" by fastforce
  have wf: "call_wf call" "trace_wf now cs" "k \<notin> set (call_keys call)" "last (now # map fst cs) \<le> t"
    using Cons.prems(3,4,5) by (auto simp: c trace_wf_def)
  have "now \<le> last (now # map fst cs)" using wf(2) by (cases cs rule: rev_cases) (auto simp: trace_wf_def)
  then have "ok s1 \<and> live s1 t k = live s t k"
    using other_call_live [OF Cons.prems(1) wf(1) e wf(3)] wf(4) by simp
  moreover have "s' = s2" using Cons.prems(2) by (simp add: c e t)
  ultimately show ?case
    using Cons.IH [of s1 rs1 now] t wf Cons.prems(4) by (simp add: c)
qed simp

lemma redeem_valid:
  assumes "ok s" "map_option e_value (live s now (challengeKey (rq_ChallengeID req))) = Some raw"
    and "canonical_uuid (rq_ChallengeID req)" "decodeChallengeRecord raw = Inr rec" "check_record env now req rec m = Inr ()"
    and "encodeChallengeRecord (rec\<lparr>cr_State := recordStateSpent\<rparr>) = Inr spent"
  shows "fst (Redeem_stateful env ops disk now req (m, s)) = fst (redeem_mint env disk now req rec (fst (request_ttls req (cr_URI rec))) m)"
proof -
  obtain tt ct where ttl: "request_ttls req (cr_URI rec) = (tt, ct)" by fastforce
  obtain g s1 where g: "st_Get ops now (challengeKey (rq_ChallengeID req)) s = (g, s1)" by fastforce
  note ge = get_eq [OF assms(1) g]
  have p: "redeem_prepare env ops now req m s = (Inr (raw, rec, spent), s1)"
    using assms(2-6) ge(1) by (auto simp: redeem_prepare_def g split: option.splits)
  obtain b s2 where c: "st_CompareAndSwap ops now (challengeKey (rq_ChallengeID req)) (Some raw) spent ct s1 = (b, s2)"
    by fastforce
  have "live s1 now = live s now" using ge(3) by (simp add: same_live_def)
  then have "b = Inr True"
    by (rule_tac cas_char [OF ge(2) c]) (use assms(2) in auto)
  then show ?thesis
    by (simp add: Redeem_stateful_def p redeem_commit_def ttl c split: prod.split)
qed

end

lemma ForgetEscalation_keys [simp]:
  "pm_keys (ForgetEscalation host ip m) = pm_keys m" "pm_keyPath (ForgetEscalation host ip m) = pm_keyPath m"
  by (simp_all add: ForgetEscalation_def)

lemma fst_signToken_cong:
  "pm_keys m = pm_keys m' \<Longrightarrow> pm_keyPath m = pm_keyPath m' \<Longrightarrow>
   fst (signToken env disk now claims m) = fst (signToken env disk now claims m')"
  by (auto simp: signToken_def signingKey_def split: sum.splits)


lemma mint_solved:
  assumes "cr_IP rec = rq_IP req" "\<forall>claims. \<exists>tok. fst (signToken env disk now claims m) = Inr tok"
  obtains rr claims where "fst (redeem_mint env disk now req rec ttl m) = Inr rr" "rr_Outcome rr = RedeemSolved"
    "rr_RedirectURI rr = cr_URI rec" "rr_TokenTTL rr = ttl" "fst (signToken env disk now claims m) = Inr (rr_Token rr)"
    "claims = mint_claims env now (cr_Host rec) (Fingerprint env (rq_IP req) (rq_UserAgent req)) (rq_ChallengeID req) (cr_proofSpec rec) ttl"
proof -
  let ?claims = "mint_claims env now (cr_Host rec) (Fingerprint env (rq_IP req) (rq_UserAgent req)) (rq_ChallengeID req) (cr_proofSpec rec) ttl"
  let ?m = "ForgetEscalation (cr_Host rec) (cr_IP rec) m"
  obtain tok where tok: "fst (signToken env disk now ?claims m) = Inr tok" using assms(2) by blast
  then have "fst (signToken env disk now ?claims ?m) = Inr tok"
    using fst_signToken_cong [of ?m m] by simp
  then obtain m' where "signToken env disk now ?claims ?m = (Inr tok, m')" by (metis prod.collapse)
  then have "fst (redeem_mint env disk now req rec ttl m) = Inr \<lparr>rr_Outcome = RedeemSolved, rr_Token = tok, rr_TokenTTL = ttl,
      rr_RedirectURI = cr_URI rec, rr_IssuedIP = '''', rr_SoftError = False, rr_Difficulty = cr_Difficulty rec,
      rr_Algorithm = cr_Algorithm rec, rr_MemoryKiB = cr_MemoryKiB rec, rr_Iterations = cr_Iterations rec,
      rr_IssuedAt = cr_IssuedAt rec * 10 ^ 6\<rparr>"
    using assms(1) by (simp add: redeem_mint_def mintTokenWithSpec_def Let_def)
  then show thesis by (rule that [OF _ _ _ _ _ refl]) (simp_all add: tok)
qed

lemma issue_then_redeem:
  assumes env: "digest_sizes env" and spec: "spec_validate spec0 = Inr ()" "length (ps_Salt spec0) = argon2SaltSize"
      "length salt = argon2SaltSize" and fits: "issue_fits host ip uri" "int64 (t0 div 10 ^ 6)" "canonical_uuid uid"
    and store: "sm_ok s" "sm_live s t0 (challengeKey uid) = None"
      "IssueWithSpec env sm_ops t0 uid salt host ip uri spec0 ttl nojs m s = (r, s1)"
      "exec_trace sm_ops janitor_sweep cs s1 = (rs, s2)" "trace_wf t0 cs"
      "list_all (\<lambda>(t, c). challengeKey uid \<notin> set (call_keys c)) cs"
      "last (t0 # map fst cs) \<le> t1" "ttl \<le> 0 \<or> t1 \<le> t0 + ttl"
    and req: "rq_ChallengeID req = uid" "\<not> rq_NoJS req" "EqualFold host (rq_Host req)" "rq_IP req = ip"
    and sign: "\<forall>claims. \<exists>tok. fst (signToken env disk t1 claims m2) = Inr tok"
  shows "\<exists>ch. r = Inr ch \<and> ch_ID ch = uid \<and> sm_ok s2 \<and> (client_solves env ch req \<longrightarrow>
    (\<exists>rr spec. fst (Redeem_stateful env sm_ops disk t1 req (m2, s2)) = Inr rr \<and>
       rr_Outcome rr = RedeemSolved \<and> rr_RedirectURI rr = uri \<and> rr_TokenTTL rr = fst (request_ttls req uri) \<and>
       fst (signToken env disk t1 (mint_claims env t1 host (Fingerprint env ip (rq_UserAgent req)) uid spec
          (rr_TokenTTL rr)) m2) = Inr (rr_Token rr)))"
proof -
  define rec where "rec = issued_record env t0 uid host ip uri (with_salt salt spec0) nojs m"
  note enc = issued_record_encodes [OF env spec fits(1,2) rec_def]
  obtain raw where raw: "encodeChallengeRecord rec = Inr raw" "decodeChallengeRecord raw = Inr (wire_view rec)"
    using enc(2) by blast
  obtain spent where spent: "encodeChallengeRecord ((wire_view rec)\<lparr>cr_State := recordStateSpent\<rparr>) = Inr spent"
    using spent_view_encodes [OF enc(1) raw(1)] by blast
  note issue = mem.issue_stores [OF store(1,2) spec(1) rec_def raw(1) store(3)]
  have tr: "sm_ok s2 \<and> sm_live s2 t1 (challengeKey uid) = sm_live s1 t1 (challengeKey uid)"
    by (rule mem.other_trace_live [OF issue(2) store(4,5,6,7)])
  have "t0 \<le> t1" using store(5,7) by (cases cs rule: rev_cases) (auto simp: trace_wf_def)
  then have live: "map_option e_value (sm_live s2 t1 (challengeKey (rq_ChallengeID req))) = Some raw"
    using issue(3) store(8) tr req(1) by simp
  have f: "cr_Host rec = toLower host" "cr_IP rec = ip" "cr_URI rec = uri" "cr_State rec = recordStateIssued"
    by (simp_all add: rec_def issued_record_def)
  have "\<exists>rr spec. fst (Redeem_stateful env sm_ops disk t1 req (m2, s2)) = Inr rr \<and>
       rr_Outcome rr = RedeemSolved \<and> rr_RedirectURI rr = uri \<and> rr_TokenTTL rr = fst (request_ttls req uri) \<and>
       fst (signToken env disk t1 (mint_claims env t1 host (Fingerprint env ip (rq_UserAgent req)) uid spec
          (rr_TokenTTL rr)) m2) = Inr (rr_Token rr)"
    if "client_solves env (challengeFromSpec uid (hex_encode (cr_ChallengeDigest rec)) (with_salt salt spec0)) req"
  proof -
    have "check_record env t1 req (wire_view rec) m2 = Inr ()"
      using check_solution_client [OF env req(2) rec_def that, of t1 m2] req(3,4)
      by (simp add: check_record_def f EqualFold_def)
    note rv = mem.redeem_valid [OF conjunct1 [OF tr] live _ raw(2) this spent, of disk]
    show ?thesis
      by (rule mint_solved [of "wire_view rec" req env disk t1 m2 "fst (request_ttls req uri)"])
        (use rv fits(3) req(1,4) sign f in \<open>auto simp: mint_claims_def\<close>)
  qed
  then show ?thesis using issue(1) tr by (simp add: challengeFromSpec_def)
qed


section \<open>Properties\<close>

text \<open>
  A challenge issued on one replica redeems on another: whatever other store
  traffic and sweeps happen in between, a client that solves what it was sent (either algorithm)
  within the challenge's lifetime, from the same address and host, gets a token over the claims of
  this challenge, bound to its address and user agent, and is sent back to the URI it asked for.
\<close>

theorem issued_challenge_redeems:
  assumes "digest_sizes env" "spec_validate spec0 = Inr ()" "length (ps_Salt spec0) = argon2SaltSize"
    and "length salt = argon2SaltSize" "issue_fits host ip uri" "int64 (t0 div 10 ^ 6)" "canonical_uuid uid"
    and "sm_ok s" "sm_live s t0 (challengeKey uid) = None"
    and "IssueWithSpec env sm_ops t0 uid salt host ip uri spec0 ttl nojs m s = (r, s1)"
    and "exec_trace sm_ops janitor_sweep cs s1 = (rs, s2)" "trace_wf t0 cs"
    and "list_all (\<lambda>(t, c). challengeKey uid \<notin> set (call_keys c)) cs"
    and "last (t0 # map fst cs) \<le> t1" "ttl \<le> 0 \<or> t1 \<le> t0 + ttl"
    and "rq_ChallengeID req = uid" "\<not> rq_NoJS req" "EqualFold host (rq_Host req)" "rq_IP req = ip"
    and "\<forall>claims. \<exists>tok. fst (signToken env disk t1 claims m2) = Inr tok"
  shows "\<exists>ch. r = Inr ch \<and> ch_ID ch = uid \<and> (client_solves env ch req \<longrightarrow>
    (\<exists>rr spec. fst (Redeem_stateful env sm_ops disk t1 req (m2, s2)) = Inr rr \<and>
       rr_Outcome rr = RedeemSolved \<and> rr_RedirectURI rr = uri \<and> rr_TokenTTL rr = fst (request_ttls req uri) \<and>
       fst (signToken env disk t1 (mint_claims env t1 host (Fingerprint env ip (rq_UserAgent req)) uid spec
          (rr_TokenTTL rr)) m2) = Inr (rr_Token rr)))"
  using issue_then_redeem [OF assms] by blast

text \<open>
  C12 (safety). A stateful challenge is redeemed at most once, however many redemptions of it run
  concurrently on however many replicas, however their reads and compare-and-swaps interleave with
  each other and with the rest of the store's traffic, and however late they commit, also after the
  spent marker has expired.
\<close>

theorem challenge_redeemed_once:
  assumes "sm_ok s0" "spend_run env sm_ops janitor_sweep uid s0 s t P n"
  shows "n \<le> 1"
  by (rule mem.spent_at_most_once [OF assms(2,1)])

lemma redeem_is_prepare_commit:
  assumes "Redeem_stateful env ops disk now req (m, s) = (Inr rr, m', s')"
  obtains p s1 where "redeem_prepare env ops now req m s = (Inr p, s1)" "redeem_commit env ops disk now req p (m, s1) = (Inr rr, m', s')"
  using assms by (auto simp: Redeem_stateful_def split: prod.splits sum.splits)

lemma redeem_spends:
  assumes "Redeem_stateful env ops disk now req (m, s) = (Inr rr, m', s')" "rq_ChallengeID req = uid"
  shows "\<exists>P. spend_run env ops sweep uid s s' now P 1"
proof -
  obtain p s1 where p: "redeem_prepare env ops now req m s = (Inr p, s1)"
    "redeem_commit env ops disk now req p (m, s1) = (Inr rr, m', s')"
    by (rule redeem_is_prepare_commit [OF assms(1)])
  have "spend_run env ops sweep uid s s1 now [(req, p)] 0"
    using spend_prepare [OF spend_start order_refl assms(2) p(1)] by (simp add: add_prepared_def)
  from spend_commit [OF this order_refl _ p(2)] show ?thesis by auto
qed

lemma prepare_checks:
  assumes "redeem_prepare env ops now req m s = (Inr (raw, rec, spent), s')"
  shows "check_record env now req rec m = Inr ()" "decodeChallengeRecord raw = Inr rec"
  using assms by (auto simp: redeem_prepare_def split: if_splits sum.splits option.splits prod.splits)

text \<open>
  C15 (safety). No redemption without the work: when a redemption succeeds, the store held an issued
  record for that identifier, for that host, and either a proof that meets the record's own
  algorithm and difficulty was submitted, or the record allows the no-JavaScript path, its minimum
  delay has passed and the caller's limiter let it through. A token comes out only for the address
  the challenge was issued to; a proof from another address consumes the challenge and yields none.
\<close>

theorem redemption_requires_work:
  assumes "sm_ok s" "Redeem_stateful env sm_ops disk now req (m, s) = (Inr rr, m', s')"
  shows "\<exists>raw rec. map_option e_value (sm_live s now (challengeKey (rq_ChallengeID req))) = Some raw \<and>
     decodeChallengeRecord raw = Inr rec \<and> cr_State rec = recordStateIssued \<and> EqualFold (cr_Host rec) (rq_Host req) \<and>
     rr_RedirectURI rr = cr_URI rec \<and>
     (rr_Outcome rr = RedeemSolved \<longleftrightarrow> cr_IP rec = rq_IP req) \<and> (rr_Outcome rr = RedeemNetworkHandover \<longrightarrow> rr_Token rr = '''') \<and>
     (if rq_NoJS req
      then cr_NoJS rec \<and> cr_IP rec = rq_IP req \<and> rq_AcquireNoJS req (cr_URI rec) = None \<and>
           pm_NoJSMinDelay m \<le> now - cr_IssuedAt rec * 10 ^ 6
      else if cr_Algorithm rec = AlgorithmArgon2ID
      then rq_AcquireArgon req = None \<and>
           verifyArgon2ID (env_idkey env) (hex_encode (cr_ChallengeDigest rec)) (cr_proofSpec rec) (rq_Proof req)
      else cr_Difficulty rec \<le> int (leadingZeroBits (env_sha256 env (hex_encode (cr_ChallengeDigest rec) @ rq_Nonce req))))"
proof -
  obtain raw rec spent s1 where p: "redeem_prepare env sm_ops now req m s = (Inr (raw, rec, spent), s1)"
    and c: "redeem_commit env sm_ops disk now req (raw, rec, spent) (m, s1) = (Inr rr, m', s')"
    using redeem_is_prepare_commit [OF assms(2)] by (metis prod_cases3)
  have s1: "sm_ok s1" "sm_live s1 now = sm_live s now" using mem.prepare_live [OF assms(1) p order_refl] by auto
  have live: "map_option e_value (sm_live s now (challengeKey (rq_ChallengeID req))) = Some raw"
    by (rule mem.commit_char [OF s1(1) c]) (simp_all add: s1(2))
  obtain ttl where mint: "redeem_mint env disk now req rec ttl m = (Inr rr, m')"
    using c by (auto simp: redeem_commit_def split: prod.splits sum.splits if_splits)
  have "rr_RedirectURI rr = cr_URI rec \<and> (rr_Outcome rr = RedeemSolved \<longleftrightarrow> cr_IP rec = rq_IP req) \<and>
      (rr_Outcome rr = RedeemNetworkHandover \<longrightarrow> rr_Token rr = '''')"
    using mint by (auto simp: redeem_mint_def Let_def split: if_splits prod.splits sum.splits)
  then show ?thesis
    using prepare_checks [OF p] live
    by (intro exI [of _ raw] exI [of _ rec])
      (auto simp: check_record_def check_solution_def appendChallengeText_def split: if_splits option.splits)
qed

section \<open>Witnesses\<close>

definition example_id :: string where "example_id = ''00000000-0000-0000-0000-000000000000''"

definition sized_env :: "nat pow_env" where
  "sized_env = example_env\<lparr>env_idkey := (\<lambda>_ _ _ _ _ l. replicate l (CHR 0x00))\<rparr>"

definition example_spec :: proof_spec where
  "example_spec = \<lparr>ps_Algorithm = AlgorithmSHA256, ps_Difficulty = 0, ps_MemoryKiB = 0, ps_Iterations = 0, ps_Salt = zero_salt\<rparr>"

definition example_request :: redeem_request where
  "example_request = \<lparr>rq_ChallengeID = example_id, rq_Nonce = ''7'', rq_Proof = '''', rq_NoJS = False, rq_Host = ''a'',
     rq_IP = ''1'', rq_UserAgent = ''u'', rq_TokenTTL = 50, rq_ChallengeTTL = 10, rq_TTLs = None,
     rq_AcquireNoJS = (\<lambda>_. None), rq_AcquireArgon = None\<rparr>"

definition issuing_manager :: "nat pow_manager" where
  "issuing_manager = newManagerWithRetiredKeys sized_env 0 []"

definition example_issue :: "(pow_error + challenge) \<times> sharded_memory" where
  "example_issue = IssueWithSpec sized_env sm_ops 0 example_id zero_salt ''a'' ''1'' ''/'' example_spec 100 False issuing_manager fresh_memory"

lemma example_uuid: "canonical_uuid example_id"
proof -
  have "\<forall>i < 36. if i \<in> {8, 13, 18, 23} then example_id ! i = CHR ''-'' else uuid_char (example_id ! i)"
    by (simp add: example_id_def uuid_char_def numeral_eq_Suc All_less_Suc)
  then show ?thesis unfolding canonical_uuid_def by (simp add: example_id_def)
qed

lemma example_hyps:
  "digest_sizes sized_env" "spec_validate example_spec = Inr ()" "length (ps_Salt example_spec) = argon2SaltSize"
  "length zero_salt = argon2SaltSize" "issue_fits ''a'' ''1'' ''/''" "int64 (0 div 10 ^ 6)"
  "rq_ChallengeID example_request = example_id" "\<not> rq_NoJS example_request" "EqualFold ''a'' (rq_Host example_request)"
  "rq_IP example_request = ''1''"
  "\<forall>claims. \<exists>tok. fst (signToken sized_env example_disk 7 claims issuing_manager) = Inr tok"
  "trace_wf 0 [(5, CallSweep)]" "list_all (\<lambda>(t, c). challengeKey example_id \<notin> set (call_keys c)) [(5, CallSweep)]"
  "last (0 # map fst [(5, CallSweep)]) \<le> (7 :: int)" "(100 :: int) \<le> 0 \<or> (7 :: int) \<le> 0 + 100"
  by (simp_all add: digest_sizes_def sized_env_def example_env_def example_spec_def spec_validate_def spec_algorithm_def
      AlgorithmSHA256_def zero_salt_def issue_fits_def record_defs int64_def minInt64_def maxInt64_def example_request_def
      EqualFold_def signToken_def issuing_manager_def newManagerWithRetiredKeys_def trace_wf_def Let_def)
    (auto simp: min_def)

lemma example_solved: "client_solves sized_env ch example_request" if "ch_Algorithm ch = AlgorithmSHA256" "ch_Difficulty ch = 0"
  using that by (simp add: client_solves_def AlgorithmSHA256_def AlgorithmArgon2ID_def)


lemma example_flow:
  obtains ch s2 where "fst example_issue = Inr ch" "ch_ID ch = example_id" "client_solves sized_env ch example_request"
    "exec_trace sm_ops janitor_sweep [(5, CallSweep)] (snd example_issue) = ([ReplyUnit (Inr ())], s2)" "sm_ok s2"
    "\<exists>rr. fst (Redeem_stateful sized_env sm_ops example_disk 7 example_request (issuing_manager, s2)) = Inr rr"
proof -
  have i: "example_issue = (fst example_issue, snd example_issue)" by simp
  obtain s2 where s2: "exec_trace sm_ops janitor_sweep [(5, CallSweep)] (snd example_issue) = ([ReplyUnit (Inr ())], s2)"
    by simp
  obtain ch where ch: "fst example_issue = Inr ch" "ch_ID ch = example_id" "sm_ok s2"
    "client_solves sized_env ch example_request \<Longrightarrow>
       \<exists>rr. fst (Redeem_stateful sized_env sm_ops example_disk 7 example_request (issuing_manager, s2)) = Inr rr"
    using issue_then_redeem [OF example_hyps(1-6) example_uuid fresh_memory_ok fresh_memory_live
        i [unfolded example_issue_def] s2 [unfolded example_issue_def] example_hyps(12-15) example_hyps(7-11)]
    by (auto simp: example_issue_def)
  have "ch_Algorithm ch = AlgorithmSHA256" "ch_Difficulty ch = 0"
    using ch(1) by (auto simp: example_issue_def IssueWithSpec_def challengeFromSpec_def Let_def example_spec_def spec_algorithm_def with_salt_def
        AlgorithmSHA256_def AlgorithmArgon2ID_def split: sum.splits prod.splits if_splits)
  then show thesis using that ch s2 example_solved by blast
qed

theorem issued_challenge_redeems_witness:
  "\<exists>ch s2 rr. fst example_issue = Inr ch \<and> client_solves sized_env ch example_request \<and>
     exec_trace sm_ops janitor_sweep [(5, CallSweep)] (snd example_issue) = ([ReplyUnit (Inr ())], s2) \<and>
     fst (Redeem_stateful sized_env sm_ops example_disk 7 example_request (issuing_manager, s2)) = Inr rr \<and>
     rr_Outcome rr = RedeemSolved \<and> rr_RedirectURI rr = ''/''"
proof -
  have i: "example_issue = (fst example_issue, snd example_issue)" by simp
  obtain ch s2 where ch: "fst example_issue = Inr ch" "client_solves sized_env ch example_request"
    and s2: "exec_trace sm_ops janitor_sweep [(5, CallSweep)] (snd example_issue) = ([ReplyUnit (Inr ())], s2)"
    by (rule example_flow)
  show ?thesis
    using ch s2 issued_challenge_redeems [OF example_hyps(1-6) example_uuid fresh_memory_ok fresh_memory_live
        i [unfolded example_issue_def] s2 [unfolded example_issue_def] example_hyps(12-15) example_hyps(7-11)]
    by (auto simp: example_issue_def)
qed

theorem challenge_redeemed_once_witness:
  "\<exists>s0 s P. spend_run sized_env sm_ops janitor_sweep example_id s0 s 7 P 1 \<and> sm_ok s0 \<and> (1 :: nat) \<le> 1"
proof -
  obtain s0 rr m' s' where "sm_ok s0"
    and "Redeem_stateful sized_env sm_ops example_disk 7 example_request (issuing_manager, s0) = (Inr rr, m', s')"
    by (rule example_flow) (metis prod.collapse)
  moreover from redeem_spends [OF this(2) example_hyps(7)]
  obtain P where "spend_run sized_env sm_ops janitor_sweep example_id s0 s' 7 P 1" by blast
  ultimately show ?thesis using challenge_redeemed_once [of s0] by blast
qed

theorem redemption_requires_work_witness:
  "\<exists>s rr m' s' raw rec. Redeem_stateful sized_env sm_ops example_disk 7 example_request (issuing_manager, s) = (Inr rr, m', s') \<and>
     map_option e_value (sm_live s 7 (challengeKey example_id)) = Some raw \<and> decodeChallengeRecord raw = Inr rec \<and>
     cr_State rec = recordStateIssued \<and> EqualFold (cr_Host rec) ''a''"
proof -
  obtain s rr m' s' where s: "sm_ok s"
    and r: "Redeem_stateful sized_env sm_ops example_disk 7 example_request (issuing_manager, s) = (Inr rr, m', s')"
    by (rule example_flow) (metis prod.collapse)
  have "rq_ChallengeID example_request = example_id" "rq_Host example_request = ''a''" by (simp_all add: example_request_def)
  then show ?thesis using redemption_requires_work [OF s r] r by metis
qed

end
