(* ===== verification/Pow_Stateless.thy ===== *)
theory Pow_Stateless
  imports Pow_Challenge
begin

text \<open>
  Stateless challenges (\<^verbatim>\<open>core/pow/stateless_challenge.go\<close>): issuance without a store write, the
  self-authenticating identifier, its redemption with the single-spend marker, and the dispatch of
  \<open>Redeem\<close> over both formats.

  A replica reads its own clock (\<open>now\<close>), the store measures the life of the marker on its own
  (\<open>snow\<close>): the two are separate arguments, so that clock skew between replicas can be stated. The
  random bytes of an issuance are arguments.
\<close>

section \<open>Constants\<close>

definition statelessPrefix :: string where "statelessPrefix = ''s1.''"
definition statelessPrefixV2 :: string where "statelessPrefixV2 = ''s2.''"
definition statelessAuthDomain :: bytes where "statelessAuthDomain = ''guardian-stateless-v1'' @ [CHR 0x00]"
definition statelessSolveDomain :: bytes where "statelessSolveDomain = ''guardian-stateless-chal-v1'' @ [CHR 0x00]"
definition statelessAuthDomainV2 :: bytes where "statelessAuthDomainV2 = ''guardian-stateless-v2'' @ [CHR 0x00]"
definition statelessSolveDomainV2 :: bytes where "statelessSolveDomainV2 = ''guardian-stateless-chal-v2'' @ [CHR 0x00]"
definition statelessMaxURI :: nat where "statelessMaxURI = 512"
definition statelessSkew :: nanos where "statelessSkew = 30 * 10 ^ 9"
definition statelessRetirementGrace :: nanos where "statelessRetirementGrace = statelessSkew + keyRefreshInterval + 10 ^ 9"

section \<open>Payload\<close>

definition sp_proofSpec :: "stateless_payload \<Rightarrow> pow_error + proof_spec" where
  "sp_proofSpec p =
     (let spec = \<lparr>ps_Algorithm = sp_Alg p, ps_Difficulty = sp_Bits p, ps_MemoryKiB = sp_Mem p, ps_Iterations = sp_Iter p,
                  ps_Salt = zero_salt\<rparr>
      in gobind
           (if spec_algorithm spec = AlgorithmArgon2ID then
              (if length (sp_Salt p) \<noteq> 2 * argon2SaltSize then Inl ErrChallengeUnknown
               else case hex_decode (sp_Salt p) of None \<Rightarrow> Inl ErrChallengeUnknown | Some salt \<Rightarrow> Inr (spec\<lparr>ps_Salt := salt\<rparr>))
            else Inr spec)
           (\<lambda>spec. case spec_validate spec of Inl _ \<Rightarrow> Inl ErrChallengeUnknown | Inr _ \<Rightarrow> Inr spec))"

section \<open>The identifier\<close>

definition EncodedLen :: "nat \<Rightarrow> nat" where
  "EncodedLen n = n div 3 * 4 + (n mod 3 * 8 + 5) div 6"

definition rawChunk :: nat where "rawChunk = 3 * 256"
definition encodedChunk :: nat where "encodedChunk = 4 * 256"

text \<open>Encoding into a buffer overwrites its first bytes and leaves the rest.\<close>

definition encode_into :: "bytes \<Rightarrow> bytes \<Rightarrow> bytes" where
  "encode_into buf src = b64_encode src @ drop (length (b64_encode src)) buf"

function write_chunks :: "bytes \<Rightarrow> bytes \<Rightarrow> string \<Rightarrow> string" where
  "write_chunks buf src dst =
     (if length src > rawChunk
      then let buf' = encode_into buf (take rawChunk src) in write_chunks buf' (drop rawChunk src) (dst @ buf')
      else let n = EncodedLen (length src) in dst @ take n (encode_into (take n buf) src))"
  by pat_completeness auto
termination
  by (relation "measure (\<lambda>(buf, src, dst). length src)") (auto simp: rawChunk_def)

declare write_chunks.simps [simp del]

definition writeStatelessBase64 :: "string \<Rightarrow> bytes \<Rightarrow> string" where
  "writeStatelessBase64 dst src = write_chunks (replicate encodedChunk (CHR 0x00)) src dst"

definition statelessMACFor :: "'k pow_env \<Rightarrow> bytes \<Rightarrow> bytes \<Rightarrow> bytes \<Rightarrow> bytes" where
  "statelessMACFor env secret payload domain = take 16 (env_hmac env secret (domain @ payload))"

definition statelessSolveFor :: "'k pow_env \<Rightarrow> bytes \<Rightarrow> bytes \<Rightarrow> bytes \<Rightarrow> string" where
  "statelessSolveFor env secret payload domain = hex_encode (env_hmac env secret (domain @ payload))"

definition encodeStatelessChallengeFor ::
  "'k pow_env \<Rightarrow> bytes \<Rightarrow> bytes \<Rightarrow> string \<Rightarrow> bytes \<Rightarrow> bytes \<Rightarrow> string \<times> string" where
  "encodeStatelessChallengeFor env secret payload pre authDomain solveDomain =
     (let auth = take 16 (env_hmac env secret (authDomain @ payload));
          solve = hex_encode (env_hmac env secret (solveDomain @ payload))
      in (writeStatelessBase64 (writeStatelessBase64 pre payload @ ''.'') auth, solve))"

definition issuingSecret :: "'k pow_manager \<Rightarrow> bytes" where "issuingSecret = pm_hmacSecret"

definition stateless_payload_for ::
  "nanos \<Rightarrow> bytes \<Rightarrow> string \<Rightarrow> string \<Rightarrow> string \<Rightarrow> proof_spec \<Rightarrow> bool \<Rightarrow> stateless_payload" where
  "stateless_payload_for now random host ip uri spec allowNoJS =
     (let p = \<lparr>sp_V = 1, sp_Host = toLower host, sp_IP = ip, sp_Bits = ps_Difficulty spec, sp_URI = uri,
               sp_NoJS = (if allowNoJS then 1 else 0), sp_TS = now div 10 ^ 6, sp_Rand = hex_encode random,
               sp_Alg = '''', sp_Mem = 0, sp_Iter = 0, sp_Salt = ''''\<rparr>
      in if spec_algorithm spec = AlgorithmArgon2ID
         then p\<lparr>sp_V := 2, sp_Alg := AlgorithmArgon2ID, sp_Mem := ps_MemoryKiB spec, sp_Iter := ps_Iterations spec,
                sp_Salt := hex_encode (ps_Salt spec)\<rparr>
         else p)"

definition IssueStatelessWithSpec ::
  "'k pow_env \<Rightarrow> 'k disk \<Rightarrow> nanos \<Rightarrow> bytes \<Rightarrow> bytes \<Rightarrow> string \<Rightarrow> string \<Rightarrow> string \<Rightarrow> proof_spec \<Rightarrow> bool \<Rightarrow>
     'k pow_manager \<Rightarrow> (pow_error + challenge) \<times> 'k pow_manager" where
  "IssueStatelessWithSpec env disk now random salt host ip uri0 spec0 allowNoJS m =
     (case spec_validate spec0 of
        Inl e \<Rightarrow> (Inl (PeSpec e), m)
      | Inr _ \<Rightarrow>
          (case refreshKeys env disk now False m of
             (Inl e, m') \<Rightarrow> (Inl (PeKeys e), m')
           | (Inr _, m') \<Rightarrow>
               let uri = (if length uri0 > statelessMaxURI then ''/'' else uri0);
                   spec = with_salt salt spec0;
                   p = stateless_payload_for now random host ip uri spec allowNoJS;
                   v2 = (spec_algorithm spec = AlgorithmArgon2ID)
               in case env_marshal env p of
                    None \<Rightarrow> (Inl PeMarshal, m')
                  | Some payload \<Rightarrow>
                      let (uid, solve) =
                            (if v2 then encodeStatelessChallengeFor env (issuingSecret m') payload statelessPrefixV2
                                          statelessAuthDomainV2 statelessSolveDomainV2
                             else encodeStatelessChallengeFor env (issuingSecret m') payload statelessPrefix
                                          statelessAuthDomain statelessSolveDomain)
                      in (Inr (challengeFromSpec uid solve spec), m')))"

definition IssueStateless ::
  "'k pow_env \<Rightarrow> 'k disk \<Rightarrow> nanos \<Rightarrow> bytes \<Rightarrow> bytes \<Rightarrow> string \<Rightarrow> string \<Rightarrow> string \<Rightarrow> int \<Rightarrow> bool \<Rightarrow>
     'k pow_manager \<Rightarrow> (pow_error + challenge) \<times> 'k pow_manager" where
  "IssueStateless env disk now random salt host ip uri difficulty allowNoJS m =
     IssueStatelessWithSpec env disk now random salt host ip uri
       \<lparr>ps_Algorithm = AlgorithmSHA256, ps_Difficulty = difficulty, ps_MemoryKiB = 0, ps_Iterations = 0, ps_Salt = zero_salt\<rparr>
       allowNoJS m"

section \<open>Redemption\<close>

definition IsStatelessID :: "string \<Rightarrow> bool" where
  "IsStatelessID uid \<longleftrightarrow> hasPrefix uid statelessPrefix \<or> hasPrefix uid statelessPrefixV2"

fun match_secret :: "'k pow_env \<Rightarrow> nanos \<Rightarrow> bytes \<Rightarrow> bytes \<Rightarrow> bytes \<Rightarrow> (bytes \<times> 'k \<times> nanos option) list \<Rightarrow> (bytes \<times> nanos option) option" where
  "match_secret env now gotMAC payload domain [] = None"
| "match_secret env now gotMAC payload domain ((secret, _, retiredAt) # rest) =
     (if past_horizon retiredAt now then match_secret env now gotMAC payload domain rest
      else if gotMAC = statelessMACFor env secret payload domain then Some (secret, retiredAt)
      else match_secret env now gotMAC payload domain rest)"

definition matchStatelessSecretFor ::
  "'k pow_env \<Rightarrow> nanos \<Rightarrow> bytes \<Rightarrow> bytes \<Rightarrow> bytes \<Rightarrow> 'k pow_manager \<Rightarrow> (bytes \<times> nanos option) option" where
  "matchStatelessSecretFor env now gotMAC payload domain m =
     match_secret env now gotMAC payload domain (zip (pm_hmacSecrets m) (pm_keys m))"

record stateless_format =
  sf_auth :: bytes
  sf_solve :: bytes
  sf_version :: int

definition format_v1 :: stateless_format where
  "format_v1 = \<lparr>sf_auth = statelessAuthDomain, sf_solve = statelessSolveDomain, sf_version = 1\<rparr>"
definition format_v2 :: stateless_format where
  "format_v2 = \<lparr>sf_auth = statelessAuthDomainV2, sf_solve = statelessSolveDomainV2, sf_version = 2\<rparr>"

definition cut_dot :: "string \<Rightarrow> (string \<times> string) option" where
  "cut_dot s = (if CHR ''.'' \<in> set s
     then Some (before_byte (CHR ''.'') s, drop (Suc (length (before_byte (CHR ''.'') s))) s) else None)"

text \<open>Splits an identifier into its format, payload and authenticator.\<close>

definition parse_stateless_id :: "string \<Rightarrow> (stateless_format \<times> bytes \<times> bytes) option" where
  "parse_stateless_id uid =
     (case (case cutPrefix uid statelessPrefix of
              Some rest \<Rightarrow> Some (format_v1, rest)
            | None \<Rightarrow> map_option (Pair format_v2) (cutPrefix uid statelessPrefixV2)) of
        None \<Rightarrow> None
      | Some (fmt, rest) \<Rightarrow>
          (case cut_dot rest of
             None \<Rightarrow> None
           | Some (payloadB64, macB64) \<Rightarrow>
               (case b64_decode payloadB64 of
                  None \<Rightarrow> None
                | Some payload \<Rightarrow> map_option (\<lambda>mac. (fmt, payload, mac)) (b64_decode macB64))))"

text \<open>Finds the live secret that authenticates the payload, refreshing the keys before and after a miss.\<close>

definition find_secret ::
  "'k pow_env \<Rightarrow> 'k disk \<Rightarrow> nanos \<Rightarrow> stateless_format \<Rightarrow> bytes \<Rightarrow> bytes \<Rightarrow> 'k pow_manager \<Rightarrow>
     (pow_error + (bytes \<times> nanos option)) \<times> 'k pow_manager" where
  "find_secret env disk now fmt payload gotMAC m =
     (case refreshKeys env disk now False m of
        (Inl e, m1) \<Rightarrow> (Inl (PeKeys e), m1)
      | (Inr _, m1) \<Rightarrow>
          (case matchStatelessSecretFor env now gotMAC payload (sf_auth fmt) m1 of
             Some x \<Rightarrow> (Inr x, m1)
           | None \<Rightarrow>
               (case refreshKeys env disk now True m1 of
                  (Inl e, m2) \<Rightarrow> (Inl (PeKeys e), m2)
                | (Inr refreshed, m2) \<Rightarrow>
                    (case (if refreshed then matchStatelessSecretFor env now gotMAC payload (sf_auth fmt) m2 else None) of
                       Some x \<Rightarrow> (Inr x, m2)
                     | None \<Rightarrow> (Inl ErrChallengeUnknown, m2)))))"

definition check_freshness ::
  "nanos \<Rightarrow> nanos \<Rightarrow> nanos option \<Rightarrow> stateless_payload \<Rightarrow> pow_error + unit" where
  "check_freshness now challengeTTL retiredAt p =
     (let issued = sp_TS p * 10 ^ 6
      in if now - issued > challengeTTL \<or> issued - now > statelessSkew then Inl ErrChallengeUnknown
         else case retiredAt of
                Some r \<Rightarrow> if issued > r + statelessRetirementGrace then Inl ErrChallengeUnknown else Inr ()
              | None \<Rightarrow> Inr ())"

definition check_stateless_proof ::
  "'k pow_env \<Rightarrow> nanos \<Rightarrow> redeem_request \<Rightarrow> string \<Rightarrow> proof_spec \<Rightarrow> stateless_payload \<Rightarrow> 'k pow_manager \<Rightarrow> pow_error + unit" where
  "check_stateless_proof env now req challenge spec p m =
     (if \<not> EqualFold (sp_Host p) (rq_Host req) then Inl ErrHostMismatch
      else if sp_IP p \<noteq> rq_IP req \<and> rq_NoJS req then Inl ErrClientAddressMismatch
      else if rq_NoJS req then
        (if sp_NoJS p \<noteq> 1 then Inl ErrNoJSDisabled
         else case rq_AcquireNoJS req (sp_URI p) of
                Some e \<Rightarrow> Inl e
              | None \<Rightarrow> if now - sp_TS p * 10 ^ 6 < pm_NoJSMinDelay m then Inl ErrTooFast else Inr ())
      else if spec_algorithm spec = AlgorithmArgon2ID then
        (case rq_AcquireArgon req of
           Some e \<Rightarrow> Inl e
         | None \<Rightarrow> if verifyArgon2ID (env_idkey env) challenge spec (rq_Proof req) then Inr () else Inl ErrBadSolution)
      else if int (leadingZeroBits (env_sha256 env (challenge @ rq_Nonce req))) < sp_Bits p
      then Inl ErrBadSolution else Inr ())"

definition finishStateless ::
  "'k pow_env \<Rightarrow> 'k disk \<Rightarrow> nanos \<Rightarrow> stateless_payload \<Rightarrow> proof_spec \<Rightarrow> redeem_request \<Rightarrow> nanos \<Rightarrow> bool \<Rightarrow>
     'k pow_manager \<Rightarrow> (pow_error + redeem_result) \<times> 'k pow_manager" where
  "finishStateless env disk now p spec req tokenTTL softErr m0 =
     (let m = ForgetEscalation (sp_Host p) (sp_IP p) m0
      in case mintTokenWithSpec env disk now (sp_Host p) (Fingerprint env (rq_IP req) (rq_UserAgent req)) '''' spec tokenTTL m of
           (Inl e, m') \<Rightarrow> (Inl (PeKeys e), m')
         | (Inr token, m') \<Rightarrow>
             (Inr \<lparr>rr_Outcome = RedeemSolved, rr_Token = token, rr_TokenTTL = tokenTTL, rr_RedirectURI = sp_URI p,
                   rr_IssuedIP = '''', rr_SoftError = softErr, rr_Difficulty = sp_Bits p, rr_Algorithm = spec_algorithm spec,
                   rr_MemoryKiB = ps_MemoryKiB spec, rr_Iterations = ps_Iterations spec, rr_IssuedAt = sp_TS p * 10 ^ 6\<rparr>, m'))"

definition spent_digest :: "'k pow_env \<Rightarrow> string \<Rightarrow> bytes" where
  "spent_digest env challenge = env_sha256 env challenge"

definition spentKey :: "bytes \<Rightarrow> string" where
  "spentKey digest = ''spent1:'' @ hex_encode (take 16 digest)"

definition spent_marker :: bytes where "spent_marker = [char_of (1 :: nat)]"

definition marker_ttl :: "nanos \<Rightarrow> nanos \<Rightarrow> stateless_payload \<Rightarrow> nanos" where
  "marker_ttl now challengeTTL p =
     (let remaining = challengeTTL - (now - sp_TS p * 10 ^ 6) + statelessSkew in if remaining \<le> 0 then minute else remaining)"

definition handover_result :: "stateless_payload \<Rightarrow> proof_spec \<Rightarrow> redeem_result" where
  "handover_result p spec = \<lparr>rr_Outcome = RedeemNetworkHandover, rr_Token = '''', rr_TokenTTL = 0, rr_RedirectURI = sp_URI p,
     rr_IssuedIP = sp_IP p, rr_SoftError = False, rr_Difficulty = sp_Bits p, rr_Algorithm = spec_algorithm spec,
     rr_MemoryKiB = ps_MemoryKiB spec, rr_Iterations = ps_Iterations spec, rr_IssuedAt = sp_TS p * 10 ^ 6\<rparr>"

text \<open>The single-spend claim, the fail-open path of a store outage included, and what follows it.\<close>

definition spend_stateless ::
  "'k pow_env \<Rightarrow> 's store_ops \<Rightarrow> 'k disk \<Rightarrow> nanos \<Rightarrow> nanos \<Rightarrow> redeem_request \<Rightarrow> string \<Rightarrow> proof_spec \<Rightarrow> stateless_payload \<Rightarrow>
     nanos \<Rightarrow> nanos \<Rightarrow> 'k pow_manager \<times> 's \<Rightarrow> (pow_error + redeem_result) \<times> 'k pow_manager \<times> 's" where
  "spend_stateless env ops disk now snow req challenge spec p tokenTTL challengeTTL s =
     (let m = fst s; remaining = marker_ttl now challengeTTL p; digest = spent_digest env challenge
      in if tc_get digest now (pm_spent m) then (Inl ErrChallengeUnknown, s)
         else case st_CompareAndSwap ops snow (spentKey digest) None spent_marker remaining (snd s) of
                (Inl e, st) \<Rightarrow>
                  (if sp_IP p \<noteq> rq_IP req then (Inl (PeStore e), m, st)
                   else let (claimed, sp) = tc_claim digest (now + remaining) now (pm_spent m); m1 = m\<lparr>pm_spent := sp\<rparr>
                        in if \<not> claimed then (Inl ErrChallengeUnknown, m1, st)
                           else let (r, m2) = finishStateless env disk now p spec req tokenTTL True m1 in (r, m2, st))
              | (Inr swapped, st) \<Rightarrow>
                  (if \<not> swapped then (Inl ErrChallengeUnknown, m, st)
                   else let m1 = m\<lparr>pm_spent := snd (tc_claim digest (now + remaining) now (pm_spent m))\<rparr>
                        in if sp_IP p \<noteq> rq_IP req
                           then (Inr (handover_result p spec), ForgetEscalation (sp_Host p) (sp_IP p) m1, st)
                           else let (r, m2) = finishStateless env disk now p spec req tokenTTL False m1 in (r, m2, st)))"

definition redeemStateless ::
  "'k pow_env \<Rightarrow> 's store_ops \<Rightarrow> 'k disk \<Rightarrow> nanos \<Rightarrow> nanos \<Rightarrow> redeem_request \<Rightarrow> 'k pow_manager \<times> 's \<Rightarrow>
     (pow_error + redeem_result) \<times> 'k pow_manager \<times> 's" where
  "redeemStateless env ops disk now snow req s =
     (case parse_stateless_id (rq_ChallengeID req) of
        None \<Rightarrow> (Inl ErrChallengeUnknown, s)
      | Some (fmt, payload, gotMAC) \<Rightarrow>
          (case find_secret env disk now fmt payload gotMAC (fst s) of
             (Inl e, m) \<Rightarrow> (Inl e, m, snd s)
           | (Inr (secret, retiredAt), m) \<Rightarrow>
               (case env_unmarshal env payload of
                  None \<Rightarrow> (Inl ErrChallengeUnknown, m, snd s)
                | Some p \<Rightarrow>
                    if sp_V p \<noteq> sf_version fmt then (Inl ErrChallengeUnknown, m, snd s)
                    else case sp_proofSpec p of
                           Inl _ \<Rightarrow> (Inl ErrChallengeUnknown, m, snd s)
                         | Inr spec \<Rightarrow>
                             (case request_ttls req (sp_URI p) of (tokenTTL, challengeTTL) \<Rightarrow>
                               let challenge = statelessSolveFor env secret payload (sf_solve fmt)
                               in case gobind (check_freshness now challengeTTL retiredAt p)
                                         (\<lambda>_. check_stateless_proof env now req challenge spec p m) of
                                    Inl e \<Rightarrow> (Inl e, m, snd s)
                                  | Inr _ \<Rightarrow> spend_stateless env ops disk now snow req challenge spec p tokenTTL challengeTTL (m, snd s)))))"

definition Redeem ::
  "'k pow_env \<Rightarrow> 's store_ops \<Rightarrow> 'k disk \<Rightarrow> nanos \<Rightarrow> nanos \<Rightarrow> redeem_request \<Rightarrow> 'k pow_manager \<times> 's \<Rightarrow>
     (pow_error + redeem_result) \<times> 'k pow_manager \<times> 's" where
  "Redeem env ops disk now snow req s =
     (if IsStatelessID (rq_ChallengeID req) then redeemStateless env ops disk now snow req s
      else Redeem_stateful env ops disk now req s)"


section \<open>The chunked encoder\<close>

lemma EncodedLen_eq: "EncodedLen n = (n * 8 + 5) div 6"
proof -
  have "n * 8 + 5 = 6 * (n div 3 * 4) + (n mod 3 * 8 + 5)"
    using div_mult_mod_eq [of n 3] by linarith
  then have "(n * 8 + 5) div 6 = n div 3 * 4 + (n mod 3 * 8 + 5) div 6" by simp
  then show ?thesis by (simp add: EncodedLen_def)
qed

lemma length_b64_encode: "length (b64_encode bs) = EncodedLen (length bs)"
  unfolding b64_encode_def length_map
proof (induction bs rule: b64_sextets.induct)
  case (1 a b c r)
  have "Suc (Suc (Suc (length r))) * 8 + 5 = 6 * 4 + (length r * 8 + 5)" by simp
  then have "EncodedLen (length (a # b # c # r)) = 4 + EncodedLen (length r)"
    unfolding EncodedLen_eq list.size by simp
  then show ?case using 1 by (simp add: Let_def)
qed (simp_all add: EncodedLen_def Let_def)

lemma encode_into_full: "length buf = EncodedLen (length src) \<Longrightarrow> encode_into buf src = b64_encode src"
  by (simp add: encode_into_def length_b64_encode)

lemma length_encode_into: "EncodedLen (length src) \<le> length buf \<Longrightarrow> length (encode_into buf src) = length buf"
  by (simp add: encode_into_def length_b64_encode)

lemma EncodedLen_mono: "a \<le> b \<Longrightarrow> EncodedLen a \<le> EncodedLen b"
  unfolding EncodedLen_eq by (intro div_le_mono) simp

lemma write_chunks_encode: "length buf = encodedChunk \<Longrightarrow> write_chunks buf src dst = dst @ b64_encode src"
proof (induction buf src dst rule: write_chunks.induct)
  case (1 buf src dst)
  show ?case
  proof (cases "length src > rawChunk")
    case True
    have l: "length (take rawChunk src) = rawChunk" using True by simp
    have len: "length buf = EncodedLen (length (take rawChunk src))"
      unfolding l using 1(2) by (simp add: EncodedLen_def rawChunk_def encodedChunk_def)
    have e: "encode_into buf (take rawChunk src) = b64_encode (take rawChunk src)"
      by (rule encode_into_full [OF len])
    have "length (b64_encode (take rawChunk src)) = encodedChunk"
      using len 1(2) by (simp only: length_b64_encode)
    then have "write_chunks buf src dst = (dst @ b64_encode (take rawChunk src)) @ b64_encode (drop rawChunk src)"
      using 1(1) [OF True refl] True e by (subst write_chunks.simps) (simp add: Let_def)
    moreover have "b64_encode src = b64_encode (take rawChunk src) @ b64_encode (drop rawChunk src)"
      using b64_encode_append [of "take rawChunk src" "drop rawChunk src"] l by (simp add: rawChunk_def)
    ultimately show ?thesis by simp
  next
    case False
    have "EncodedLen (length src) \<le> EncodedLen rawChunk" using False by (intro EncodedLen_mono) simp
    then have "EncodedLen (length src) \<le> length buf"
      using 1(2) by (simp add: EncodedLen_def rawChunk_def encodedChunk_def)
    then show ?thesis
      using False by (subst write_chunks.simps) (simp add: Let_def encode_into_full length_b64_encode)
  qed
qed

lemma writeStateless_encode: "writeStatelessBase64 dst src = dst @ b64_encode src"
  unfolding writeStatelessBase64_def by (rule write_chunks_encode) simp

section \<open>The identifier round trip\<close>

lemma before_byte_append: "c \<notin> set a \<Longrightarrow> before_byte c (a @ c # b) = a"
  unfolding before_byte_def by (subst takeWhile_append2) auto

lemma cut_dot_append: "CHR ''.'' \<notin> set a \<Longrightarrow> cut_dot (a @ CHR ''.'' # b) = Some (a, b)"
  by (simp add: cut_dot_def before_byte_append)

lemma parse_encoded_v1:
  assumes "encodeStatelessChallengeFor env secret payload statelessPrefix a b = (uid, solve)"
  shows "parse_stateless_id uid = Some (format_v1, payload, statelessMACFor env secret payload a)"
  using assms b64_encode_no_dot [of payload]
  by (auto simp: encodeStatelessChallengeFor_def Let_def writeStateless_encode parse_stateless_id_def cutPrefix_def
      cut_dot_append b64_decode_encode statelessMACFor_def)

lemma parse_encoded_v2:
  assumes "encodeStatelessChallengeFor env secret payload statelessPrefixV2 a b = (uid, solve)"
  shows "parse_stateless_id uid = Some (format_v2, payload, statelessMACFor env secret payload a)"
  using assms b64_encode_no_dot [of payload]
  by (auto simp: encodeStatelessChallengeFor_def Let_def writeStateless_encode parse_stateless_id_def cutPrefix_def
      cut_dot_append b64_decode_encode statelessMACFor_def statelessPrefix_def statelessPrefixV2_def)

section \<open>The spent marker\<close>

definition guarded_call :: "string \<Rightarrow> store_call \<Rightarrow> bool" where
  "guarded_call k c \<longleftrightarrow> k \<notin> set (call_keys c) \<or> (case c of CallCompareAndSwap k' old x ttl \<Rightarrow> old = None | _ \<Rightarrow> False)"

context swept_store
begin

lemma guarded_call_live:
  assumes "ok s" "call_wf c" "exec_call ops sweep now c s = (r, s')" "guarded_call k c" "now \<le> t" "live s t k = Some e"
  shows "ok s' \<and> live s' t k = Some e"
proof (cases "k \<in> set (call_keys c)")
  case False
  then show ?thesis using other_call_live [OF assms(1-3) _ assms(5)] assms(6) by simp
next
  case True
  then obtain x ttl where c: "c = CallCompareAndSwap k None x ttl"
    using assms(4) by (cases c) (auto simp: guarded_call_def)
  have now: "live s now k = Some e" using live_antimono [OF assms(1,5,6)] .
  obtain b s1 where b: "st_CompareAndSwap ops now k None x ttl s = (b, s1)" by fastforce
  have "ok s1 \<and> live s1 t k = Some e"
    by (rule cas_char [OF assms(1) b]) (use now assms(5,6) in auto)
  then show ?thesis using assms(3) by (simp add: c b)
qed

lemma guarded_trace_live:
  assumes "ok s" "exec_trace ops sweep cs s = (rs, s')" "trace_wf t0 cs" "list_all (\<lambda>(t, c). guarded_call k c) cs"
    and "last (t0 # map fst cs) \<le> t" "live s t k = Some e"
  shows "ok s' \<and> live s' t k = Some e"
  using assms
proof (induction cs arbitrary: s t0 rs)
  case (Cons c cs)
  obtain now call where c: "c = (now, call)" by fastforce
  obtain r s1 where ex: "exec_call ops sweep now call s = (r, s1)" by fastforce
  obtain rs1 s2 where t: "exec_trace ops sweep cs s1 = (rs1, s2)" by fastforce
  have wf: "call_wf call" "trace_wf now cs" "guarded_call k call" "last (now # map fst cs) \<le> t"
    using Cons.prems(3,4,5) by (auto simp: c trace_wf_def)
  have "now \<le> last (now # map fst cs)" using wf(2) by (cases cs rule: rev_cases) (auto simp: trace_wf_def)
  then have "now \<le> t" using wf(4) by (rule order_trans)
  then have "ok s1 \<and> live s1 t k = Some e"
    using guarded_call_live [OF Cons.prems(1) wf(1) ex wf(3) _ Cons.prems(6)] by simp
  moreover have "s' = s2" using Cons.prems(2) by (simp add: c ex t)
  ultimately show ?case
    using Cons.IH [of s1 rs1 now] t wf Cons.prems(4) by (simp add: c)
qed simp

end


section \<open>Single spend across replicas\<close>

text \<open>The solve string and payload a redemption works on, once the identifier is authenticated.\<close>

definition stateless_challenge ::
  "'k pow_env \<Rightarrow> 'k disk \<Rightarrow> nanos \<Rightarrow> redeem_request \<Rightarrow> 'k pow_manager \<Rightarrow> (string \<times> stateless_payload) option" where
  "stateless_challenge env disk now req m =
     (case parse_stateless_id (rq_ChallengeID req) of
        None \<Rightarrow> None
      | Some (fmt, payload, gotMAC) \<Rightarrow>
          (case fst (find_secret env disk now fmt payload gotMAC m) of
             Inl e \<Rightarrow> None
           | Inr (secret, retiredAt) \<Rightarrow>
               map_option (Pair (statelessSolveFor env secret payload (sf_solve fmt))) (env_unmarshal env payload)))"

lemma redeemStateless_char:
  obtains (refused) e where "fst (redeemStateless env ops disk now snow req (m, s)) = Inl e"
  | (spends) ch p spec tok ttl m1 retiredAt where
      "stateless_challenge env disk now req m = Some (ch, p)" "request_ttls req (sp_URI p) = (tok, ttl)"
      "check_freshness now ttl retiredAt p = Inr ()" "check_stateless_proof env now req ch spec p m1 = Inr ()"
      "redeemStateless env ops disk now snow req (m, s) = spend_stateless env ops disk now snow req ch spec p tok ttl (m1, s)"
proof (cases "parse_stateless_id (rq_ChallengeID req)")
  case (Some x)
  obtain fmt payload mac where x: "parse_stateless_id (rq_ChallengeID req) = Some (fmt, payload, mac)"
    using Some by (cases x) auto
  obtain r m1 where f: "find_secret env disk now fmt payload mac m = (r, m1)" by fastforce
  show thesis
  proof (cases r)
    case (Inl e)
    then show thesis using refused by (simp add: redeemStateless_def x f)
  next
    case r: (Inr sr)
    obtain secret retiredAt where sr: "sr = (secret, retiredAt)" by fastforce
    let ?ch = "statelessSolveFor env secret payload (sf_solve fmt)"
    show thesis
    proof (cases "env_unmarshal env payload")
      case (Some p)
      obtain tok ttl where t: "request_ttls req (sp_URI p) = (tok, ttl)" by fastforce
      have c: "stateless_challenge env disk now req m = Some (?ch, p)"
        by (simp add: stateless_challenge_def x f r sr Some)
      show thesis
      proof (cases "sp_V p = sf_version fmt")
        case v: True
        show thesis
        proof (cases "sp_proofSpec p")
          case (Inl e)
          then show thesis using refused by (simp add: redeemStateless_def x f r sr Some v)
        next
          case spec: (Inr spec)
          let ?check = "gobind (check_freshness now ttl retiredAt p) (\<lambda>_. check_stateless_proof env now req ?ch spec p m1)"
          have e: "redeemStateless env ops disk now snow req (m, s) = (case ?check of Inl e \<Rightarrow> (Inl e, m1, s)
              | Inr _ \<Rightarrow> spend_stateless env ops disk now snow req ?ch spec p tok ttl (m1, s))"
            by (simp add: redeemStateless_def x f r sr Some v spec t Let_def split: sum.split)
          show thesis
          proof (cases ?check)
            case (Inl err)
            then show thesis using refused e by simp
          next
            case (Inr u)
            then show thesis using spends [OF c t _ _ e [unfolded Inr sum.case]] by (auto simp: gobind_eq_Inr)
          qed
        qed
      qed (use refused in \<open>simp add: redeemStateless_def x f r sr Some\<close>)
    qed (use refused in \<open>simp add: redeemStateless_def x f r sr\<close>)
  qed
qed (use refused in \<open>simp add: redeemStateless_def\<close>)

lemma fresh_marker: "check_freshness now ttl retiredAt p = Inr () \<Longrightarrow> now - sp_TS p * 10 ^ 6 \<le> ttl"
  by (auto simp: check_freshness_def Let_def split: if_splits)

lemma marker_ttl_fresh:
  "now - sp_TS p * 10 ^ 6 \<le> ttl \<Longrightarrow> marker_ttl now ttl p = ttl - (now - sp_TS p * 10 ^ 6) + statelessSkew \<and> 0 < marker_ttl now ttl p"
  by (simp add: marker_ttl_def statelessSkew_def)

context swept_store
begin

lemma spend_marks:
  assumes "ok s" "spend_stateless env ops disk now snow req ch spec p tok ttl (m, s) = (Inr rr, m', s')"
    and "0 < marker_ttl now ttl p" "snow \<le> t" "t \<le> snow + marker_ttl now ttl p"
  shows "ok s' \<and> live s' t (spentKey (spent_digest env ch)) \<noteq> None"
proof -
  let ?k = "spentKey (spent_digest env ch)"
  obtain b s1 where b: "st_CompareAndSwap ops snow ?k None spent_marker (marker_ttl now ttl p) s = (b, s1)"
    by fastforce
  show ?thesis
    by (rule cas_char [OF assms(1) b])
      (use assms(2-5) in \<open>auto simp: spend_stateless_def Let_def b split: if_splits prod.splits\<close>)
qed

lemma spend_marked:
  assumes "ok s" "live s snow (spentKey (spent_digest env ch)) \<noteq> None"
  shows "fst (spend_stateless env ops disk now snow req ch spec p tok ttl (m, s)) = Inl ErrChallengeUnknown"
proof -
  let ?k = "spentKey (spent_digest env ch)"
  obtain b s1 where b: "st_CompareAndSwap ops snow ?k None spent_marker (marker_ttl now ttl p) s = (b, s1)"
    by fastforce
  have "b = Inr False" by (rule cas_char [OF assms(1) b]) (use assms(2) in auto)
  then show ?thesis by (simp add: spend_stateless_def Let_def b)
qed

lemma second_redemption_refused:
  assumes "ok s" "redeemStateless env ops disk1 n1 u1 req1 (m1, s) = (Inr rr, m1', s1)"
    and c: "stateless_challenge env disk1 n1 req1 m1 = Some (ch, p)" "stateless_challenge env disk2 n2 req2 m2 = Some (ch, p)"
    and ttl: "snd (request_ttls req2 (sp_URI p)) \<le> snd (request_ttls req1 (sp_URI p))"
    and tr: "exec_trace ops sweep cs s1 = (rs, s2)" "trace_wf u1 cs"
      "list_all (\<lambda>(t, c). guarded_call (spentKey (spent_digest env ch)) c) cs" "last (u1 # map fst cs) \<le> u2"
    and skew: "n1 - u1 \<le> n2 - u2 + statelessSkew"
  shows "isl (fst (redeemStateless env ops disk2 n2 u2 req2 (m2, s2)))"
proof (rule redeemStateless_char [of env ops disk2 n2 u2 req2 m2 s2])
  fix ch' p' spec tok ttl m r
  assume c2: "stateless_challenge env disk2 n2 req2 m2 = Some (ch', p')" "request_ttls req2 (sp_URI p') = (tok, ttl)"
    "check_freshness n2 ttl r p' = Inr ()" and e2: "redeemStateless env ops disk2 n2 u2 req2 (m2, s2) =
       spend_stateless env ops disk2 n2 u2 req2 ch' spec p' tok ttl (m, s2)"
  note eq = c2(1) [unfolded c(2), simplified]
  show ?thesis
  proof (rule redeemStateless_char [of env ops disk1 n1 u1 req1 m1 s])
    fix ch1 p1 spec1 tok1 ttl1 m3 r1
    assume c1: "stateless_challenge env disk1 n1 req1 m1 = Some (ch1, p1)" "request_ttls req1 (sp_URI p1) = (tok1, ttl1)"
      "check_freshness n1 ttl1 r1 p1 = Inr ()" and e1: "redeemStateless env ops disk1 n1 u1 req1 (m1, s) =
         spend_stateless env ops disk1 n1 u1 req1 ch1 spec1 p1 tok1 ttl1 (m3, s)"
    note eq1 = c1(1) [unfolded c(1), simplified]
    have tt: "ttl \<le> ttl1" using ttl c1(2) c2(2) eq eq1 by simp
    note mt = marker_ttl_fresh [OF fresh_marker [OF c1(3)]]
    have "u1 \<le> last (u1 # map fst cs)" using tr(2) by (cases cs rule: rev_cases) (auto simp: trace_wf_def)
    then have le: "u1 \<le> u2" using tr(4) by (rule order_trans)
    have "u2 \<le> u1 + marker_ttl n1 ttl1 p1" using mt fresh_marker [OF c2(3)] skew tt eq eq1 by simp
    then have "ok s1 \<and> live s1 u2 (spentKey (spent_digest env ch)) \<noteq> None"
      using spend_marks [OF assms(1) trans [OF e1 [symmetric] assms(2)] conjunct2 [OF mt] le] eq1 by blast
    then obtain e where "ok s1" "live s1 u2 (spentKey (spent_digest env ch)) = Some e" by auto
    then have "ok s2 \<and> live s2 u2 (spentKey (spent_digest env ch)) = Some e"
      using guarded_trace_live [OF _ tr] by simp
    then have "fst (redeemStateless env ops disk2 n2 u2 req2 (m2, s2)) = Inl ErrChallengeUnknown"
      using eq unfolding e2 by (intro spend_marked) auto
    then show ?thesis by simp
  qed (use assms(2) in auto)
qed simp

end


section \<open>From issuance to redemption\<close>

text \<open>
  Hypotheses on the libraries: what was marshalled unmarshals to the same payload, and the
  truncated authenticators of different secrets differ on every message.
\<close>

definition json_round_trips :: "'k pow_env \<Rightarrow> bool" where
  "json_round_trips env \<longleftrightarrow> (\<forall>p b. env_marshal env p = Some b \<longrightarrow> env_unmarshal env b = Some p)"

definition mac_separates :: "'k pow_env \<Rightarrow> bytes list \<Rightarrow> bool" where
  "mac_separates env secrets \<longleftrightarrow> distinct secrets \<and>
     (\<forall>a \<in> set secrets. \<forall>b \<in> set secrets. \<forall>x. take 16 (env_hmac env a x) = take 16 (env_hmac env b x) \<longrightarrow> a = b)"

lemma match_secret_found:
  assumes "i < length ks" "ks ! i = (secret, k, r)" "\<not> past_horizon r now" "mac_separates env (map fst ks)"
  shows "match_secret env now (statelessMACFor env secret payload d) payload d ks = Some (secret, r)"
  using assms
proof (induction ks arbitrary: i)
  case (Cons x ks)
  obtain s0 k0 r0 where x: "x = (s0, k0, r0)" by (cases x)
  have sep: "mac_separates env (map fst ks)" using Cons.prems(4) by (simp add: mac_separates_def)
  show ?case
  proof (cases i)
    case 0
    then show ?thesis using Cons.prems x by simp
  next
    case (Suc j)
    then have j: "j < length ks" "ks ! j = (secret, k, r)" using Cons.prems by simp_all
    then have mem: "secret \<in> set (map fst ks)" using nth_mem by force
    then have "s0 \<noteq> secret" using Cons.prems(4) x by (auto simp: mac_separates_def)
    then have "statelessMACFor env secret payload d \<noteq> statelessMACFor env s0 payload d"
      using Cons.prems(4) mem x unfolding mac_separates_def statelessMACFor_def
      by (metis list.set_intros(1) list.set_intros(2) list.simps(9) fst_conv)
    then show ?thesis using Cons.IH [OF j Cons.prems(3) sep] x by simp
  qed
qed simp


definition issued_spec :: "proof_spec \<Rightarrow> proof_spec" where
  "issued_spec spec = (if spec_algorithm spec = AlgorithmArgon2ID then spec
     else \<lparr>ps_Algorithm = '''', ps_Difficulty = ps_Difficulty spec, ps_MemoryKiB = 0, ps_Iterations = 0, ps_Salt = zero_salt\<rparr>)"

lemma sp_proofSpec_issued:
  assumes "spec_validate spec = Inr ()" "length (ps_Salt spec) = argon2SaltSize"
  shows "sp_proofSpec (stateless_payload_for now rnd host ip uri spec nojs) = Inr (issued_spec spec)"
proof (cases "spec_algorithm spec = AlgorithmArgon2ID")
  case True
  then obtain d mk it sl where spec: "spec = \<lparr>ps_Algorithm = AlgorithmArgon2ID, ps_Difficulty = d, ps_MemoryKiB = mk,
      ps_Iterations = it, ps_Salt = sl\<rparr>"
    by (cases spec) (simp add: argon_algorithm)
  then show ?thesis using True assms
    by (simp add: sp_proofSpec_def stateless_payload_for_def Let_def issued_spec_def argon_algorithm hex_decode_encode)
next
  case False
  then have "spec_algorithm spec = AlgorithmSHA256" "0 \<le> ps_Difficulty spec" "ps_Difficulty spec \<le> 32"
    using assms(1) by (auto simp: spec_validate_def split: if_splits)
  then show ?thesis using False
    by (simp add: sp_proofSpec_def stateless_payload_for_def Let_def issued_spec_def spec_validate_def)
      (simp add: spec_algorithm_def spec_validate_def AlgorithmArgon2ID_def AlgorithmSHA256_def)
qed

lemma stateless_payload_fields [simp]:
  "sp_Host (stateless_payload_for now rnd host ip uri spec nojs) = toLower host"
  "sp_IP (stateless_payload_for now rnd host ip uri spec nojs) = ip"
  "sp_URI (stateless_payload_for now rnd host ip uri spec nojs) = uri"
  "sp_Bits (stateless_payload_for now rnd host ip uri spec nojs) = ps_Difficulty spec"
  "sp_TS (stateless_payload_for now rnd host ip uri spec nojs) = now div 10 ^ 6"
  "sp_V (stateless_payload_for now rnd host ip uri spec nojs) = (if spec_algorithm spec = AlgorithmArgon2ID then 2 else 1)"
  by (simp_all add: stateless_payload_for_def Let_def)

lemma client_proof_accepted:
  assumes "digest_sizes env" "\<not> rq_NoJS req" "EqualFold host (rq_Host req)" "rq_IP req = ip"
    and "client_solves env (challengeFromSpec uid solve spec) req"
  shows "check_stateless_proof env now req solve (issued_spec spec) (stateless_payload_for t rnd host ip uri spec nojs) m = Inr ()"
proof (cases "spec_algorithm spec = AlgorithmArgon2ID")
  case True
  let ?k = "env_idkey env solve (ps_Salt spec) (ps_Iterations spec) (ps_MemoryKiB spec) 1 argon2ProofSize"
  have "rq_AcquireArgon req = None" "rq_Proof req = hex_encode ?k"
    using assms(5) True by (simp_all add: client_solves_def challengeFromSpec_def hex_decode_encode)
  moreover have "length ?k = argon2ProofSize" using assms(1) by (simp add: digest_sizes_def)
  ultimately show ?thesis
    using assms(2-4) True
    by (simp add: check_stateless_proof_def issued_spec_def verifyArgon2ID_def hex_decode_encode EqualFold_def)
next
  case False
  then have "spec_algorithm (issued_spec spec) \<noteq> AlgorithmArgon2ID"
    by (simp add: issued_spec_def) (simp add: spec_algorithm_def AlgorithmArgon2ID_def AlgorithmSHA256_def)
  then show ?thesis
    using assms(2-5) False
    by (simp add: check_stateless_proof_def client_solves_def challengeFromSpec_def EqualFold_def)
qed

lemma finish_solved:
  assumes "\<forall>claims. \<exists>tok. fst (signToken env disk now claims m) = Inr tok"
  obtains rr where "fst (finishStateless env disk now p spec req ttl soft (m\<lparr>pm_spent := sp\<rparr>)) = Inr rr"
    "rr_Outcome rr = RedeemSolved" "rr_RedirectURI rr = sp_URI p" "rr_TokenTTL rr = ttl" "rr_SoftError rr = soft"
    "fst (signToken env disk now (mint_claims env now (sp_Host p) (Fingerprint env (rq_IP req) (rq_UserAgent req)) '''' spec ttl) m)
       = Inr (rr_Token rr)"
proof -
  let ?claims = "mint_claims env now (sp_Host p) (Fingerprint env (rq_IP req) (rq_UserAgent req)) '''' spec ttl"
  let ?m = "ForgetEscalation (sp_Host p) (sp_IP p) (m\<lparr>pm_spent := sp\<rparr>)"
  obtain tok where tok: "fst (signToken env disk now ?claims m) = Inr tok" using assms by blast
  then have "fst (signToken env disk now ?claims ?m) = Inr tok"
    using fst_signToken_cong [of ?m m] by simp
  then obtain m' where "signToken env disk now ?claims ?m = (Inr tok, m')" by (metis prod.collapse)
  then have "fst (finishStateless env disk now p spec req ttl soft (m\<lparr>pm_spent := sp\<rparr>)) =
      Inr \<lparr>rr_Outcome = RedeemSolved, rr_Token = tok, rr_TokenTTL = ttl, rr_RedirectURI = sp_URI p,
           rr_IssuedIP = '''', rr_SoftError = soft, rr_Difficulty = sp_Bits p, rr_Algorithm = spec_algorithm spec,
           rr_MemoryKiB = ps_MemoryKiB spec, rr_Iterations = ps_Iterations spec, rr_IssuedAt = sp_TS p * 10 ^ 6\<rparr>"
    by (simp add: finishStateless_def mintTokenWithSpec_def Let_def)
  then show thesis by (rule that) (simp_all add: tok)
qed


lemma in_memory_refresh [simp]: "pm_keyPath m = '''' \<Longrightarrow> refreshKeys env disk now b m = (Inr False, m)"
  by (simp add: refreshKeys_def)

lemma issue_stateless_char:
  assumes "IssueStatelessWithSpec env disk t0 rnd salt host ip uri0 spec0 nojs m = (Inr ch, m')" "pm_keyPath m = ''''"
    and p: "p = stateless_payload_for t0 rnd host ip (if length uri0 > statelessMaxURI then ''/'' else uri0) (with_salt salt spec0) nojs"
  obtains payload uid solve fmt where "spec_validate spec0 = Inr ()" "env_marshal env p = Some payload"
    "ch = challengeFromSpec uid solve (with_salt salt spec0)" "IsStatelessID uid"
    "parse_stateless_id uid = Some (fmt, payload, statelessMACFor env (pm_hmacSecret m) payload (sf_auth fmt))"
    "solve = statelessSolveFor env (pm_hmacSecret m) payload (sf_solve fmt)" "sf_version fmt = sp_V p"
proof -
  have v: "spec_validate spec0 = Inr ()"
    using assms(1) by (auto simp: IssueStatelessWithSpec_def split: sum.splits)
  obtain payload where pl: "env_marshal env p = Some payload"
    using assms(1,2) by (auto simp: IssueStatelessWithSpec_def v Let_def simp flip: p split: option.splits)
  let ?e = "if spec_algorithm spec0 = AlgorithmArgon2ID
     then encodeStatelessChallengeFor env (pm_hmacSecret m) payload statelessPrefixV2 statelessAuthDomainV2 statelessSolveDomainV2
     else encodeStatelessChallengeFor env (pm_hmacSecret m) payload statelessPrefix statelessAuthDomain statelessSolveDomain"
  obtain uid solve where e: "?e = (uid, solve)" by fastforce
  have ch: "ch = challengeFromSpec uid solve (with_salt salt spec0)"
    using assms(1,2) e by (auto simp: IssueStatelessWithSpec_def v pl Let_def issuingSecret_def simp flip: p split: if_splits)
  show thesis
  proof (cases "spec_algorithm spec0 = AlgorithmArgon2ID")
    case True
    then have e2: "encodeStatelessChallengeFor env (pm_hmacSecret m) payload statelessPrefixV2 statelessAuthDomainV2
      statelessSolveDomainV2 = (uid, solve)" using e by simp
    then have "IsStatelessID uid" "solve = statelessSolveFor env (pm_hmacSecret m) payload statelessSolveDomainV2"
      by (auto simp: encodeStatelessChallengeFor_def Let_def writeStateless_encode IsStatelessID_def hasPrefix_def statelessSolveFor_def)
    then show thesis using that [OF v pl ch _ _ _ _, of format_v2] parse_encoded_v2 [OF e2] True
      by (simp add: format_v2_def p)
  next
    case False
    then have e1: "encodeStatelessChallengeFor env (pm_hmacSecret m) payload statelessPrefix statelessAuthDomain
      statelessSolveDomain = (uid, solve)" using e by simp
    then have "IsStatelessID uid" "solve = statelessSolveFor env (pm_hmacSecret m) payload statelessSolveDomain"
      by (auto simp: encodeStatelessChallengeFor_def Let_def writeStateless_encode IsStatelessID_def hasPrefix_def statelessSolveFor_def)
    then show thesis using that [OF v pl ch _ _ _ _, of format_v1] parse_encoded_v1 [OF e1] False
      by (simp add: format_v1_def p)
  qed
qed

lemma stateless_issue_then_redeem:
  assumes env: "digest_sizes env" "json_round_trips env"
    and salt: "length (ps_Salt spec0) = argon2SaltSize" "length salt = argon2SaltSize"
    and issue: "pm_keyPath m = ''''" "IssueStatelessWithSpec env disk t0 rnd salt host ip uri0 spec0 nojs m = (Inr ch, m')"
    and keys: "pm_keyPath m2 = ''''" "i < length ks" "ks ! i = (pm_hmacSecret m, k, r)" "\<not> past_horizon r n2"
      "mac_separates env (map fst ks)" "ks = zip (pm_hmacSecrets m2) (pm_keys m2)"
    and uri: "uri = (if length uri0 > statelessMaxURI then ''/'' else uri0)" "issued = t0 div 10 ^ 6 * 10 ^ 6"
    and time: "n2 - issued \<le> snd (request_ttls req uri)" "issued - n2 \<le> statelessSkew"
      "\<forall>x. r = Some x \<longrightarrow> issued \<le> x + statelessRetirementGrace"
    and req: "rq_ChallengeID req = ch_ID ch" "\<not> rq_NoJS req" "EqualFold host (rq_Host req)" "rq_IP req = ip"
      "client_solves env ch req"
    and store: "sm_ok s" "sm_live s u2 (spentKey (spent_digest env (ch_Challenge ch))) = None"
      "\<not> tc_get (spent_digest env (ch_Challenge ch)) n2 (pm_spent m2)"
    and sign: "\<forall>claims. \<exists>tok. fst (signToken env disk n2 claims m2) = Inr tok"
  shows "\<exists>rr spec p. fst (Redeem env sm_ops disk n2 u2 req (m2, s)) = Inr rr \<and>
     stateless_challenge env disk n2 req m2 = Some (ch_Challenge ch, p) \<and> sp_URI p = uri \<and>
     rr_Outcome rr = RedeemSolved \<and> \<not> rr_SoftError rr \<and> rr_RedirectURI rr = uri \<and> rr_TokenTTL rr = fst (request_ttls req uri) \<and>
     fst (signToken env disk n2 (mint_claims env n2 host (Fingerprint env ip (rq_UserAgent req)) '''' spec
        (rr_TokenTTL rr)) m2) = Inr (rr_Token rr)"
proof -
  define p where "p = stateless_payload_for t0 rnd host ip uri (with_salt salt spec0) nojs"
  obtain payload uid solve fmt where v: "spec_validate spec0 = Inr ()" and pl: "env_marshal env p = Some payload"
    and ch: "ch = challengeFromSpec uid solve (with_salt salt spec0)" and sid: "IsStatelessID uid"
    and parse: "parse_stateless_id uid = Some (fmt, payload, statelessMACFor env (pm_hmacSecret m) payload (sf_auth fmt))"
    and solve: "solve = statelessSolveFor env (pm_hmacSecret m) payload (sf_solve fmt)" and ver: "sf_version fmt = sp_V p"
    using issue_stateless_char [OF issue(2,1) refl] unfolding p_def uri(1) by blast
  have uidch: "ch_ID ch = uid" "ch_Challenge ch = solve" by (simp_all add: ch challengeFromSpec_def)
  have um: "env_unmarshal env payload = Some p" using env(2) pl by (simp add: json_round_trips_def)
  have fs: "find_secret env disk n2 fmt payload (statelessMACFor env (pm_hmacSecret m) payload (sf_auth fmt)) m2 = (Inr (pm_hmacSecret m, r), m2)"
    using match_secret_found [OF keys(2-5)] keys(1,6) by (simp add: find_secret_def matchStatelessSecretFor_def)
  have sc: "stateless_challenge env disk n2 req m2 = Some (ch_Challenge ch, p)"
    by (simp add: stateless_challenge_def req(1) uidch parse fs um solve)
  have spec: "sp_proofSpec p = Inr (issued_spec (with_salt salt spec0))"
    unfolding p_def by (rule sp_proofSpec_issued) (use v in simp, use salt in \<open>simp add: with_salt_def\<close>)
  obtain tok ttl where t: "request_ttls req (sp_URI p) = (tok, ttl)" by fastforce
  have fresh: "check_freshness n2 ttl r p = Inr ()"
    using time t by (auto simp: check_freshness_def p_def uri(2) Let_def split: option.splits)
  have solved: "check_stateless_proof env n2 req solve (issued_spec (with_salt salt spec0)) p m2 = Inr ()"
    unfolding p_def by (rule client_proof_accepted [OF env(1) req(2-4)]) (use req(5) ch in simp)
  have e: "Redeem env sm_ops disk n2 u2 req (m2, s) =
      spend_stateless env sm_ops disk n2 u2 req solve (issued_spec (with_salt salt spec0)) p tok ttl (m2, s)"
    using ver by (simp add: Redeem_def sid req(1) uidch redeemStateless_def parse fs um spec t Let_def solved fresh flip: solve)
  have pf: "sp_URI p = uri" "sp_Host p = toLower host" "sp_IP p = ip" by (simp_all add: p_def)
  let ?k = "spentKey (spent_digest env solve)"
  obtain b s1 where b: "st_CompareAndSwap sm_ops u2 ?k None spent_marker (marker_ttl n2 ttl p) s = (b, s1)" by fastforce
  have "b = Inr True" by (rule mem.cas_char [OF store(1) b]) (use store(2) uidch in auto)
  then have f: "fst (Redeem env sm_ops disk n2 u2 req (m2, s)) = fst (finishStateless env disk n2 p (issued_spec (with_salt salt spec0)) req tok False
      (m2\<lparr>pm_spent := snd (tc_claim (spent_digest env solve) (n2 + marker_ttl n2 ttl p) n2 (pm_spent m2))\<rparr>))"
    using store(3) uidch req(4) pf(3) by (simp add: e spend_stateless_def Let_def b case_prod_beta)
  show ?thesis
    by (rule finish_solved [OF sign, of p "issued_spec (with_salt salt spec0)" req tok False
          "snd (tc_claim (spent_digest env solve) (n2 + marker_ttl n2 ttl p) n2 (pm_spent m2))"])
      (use f sc pf t req(4) in \<open>auto simp: mint_claims_def\<close>)
qed


section \<open>Properties\<close>

text \<open>
  A stateless challenge issued by one replica redeems on any replica that still
  holds the issuing key, current or retired: the identifier written in chunks of base64 parses back
  to the exact payload and authenticator, the matching secret is found among the live keys, and a
  client that solves what it was sent, from the same host and address, in the freshness window and
  for the first time, gets a token for the URI it asked for (or the site root, when that URI was too
  long to carry), with the shared marker written.
\<close>

theorem stateless_challenge_redeems:
  assumes "digest_sizes env" "json_round_trips env"
    and "length (ps_Salt spec0) = argon2SaltSize" "length salt = argon2SaltSize"
    and "pm_keyPath m = ''''" "IssueStatelessWithSpec env disk t0 rnd salt host ip uri0 spec0 nojs m = (Inr ch, m')"
    and "pm_keyPath m2 = ''''" "i < length ks" "ks ! i = (pm_hmacSecret m, k, r)" "\<not> past_horizon r n2"
    and "mac_separates env (map fst ks)" "ks = zip (pm_hmacSecrets m2) (pm_keys m2)"
    and "uri = (if length uri0 > statelessMaxURI then ''/'' else uri0)" "issued = t0 div 10 ^ 6 * 10 ^ 6"
    and "n2 - issued \<le> snd (request_ttls req uri)" "issued - n2 \<le> statelessSkew"
    and "\<forall>x. r = Some x \<longrightarrow> issued \<le> x + statelessRetirementGrace"
    and "rq_ChallengeID req = ch_ID ch" "\<not> rq_NoJS req" "EqualFold host (rq_Host req)" "rq_IP req = ip"
    and "client_solves env ch req"
    and "sm_ok s" "sm_live s u2 (spentKey (spent_digest env (ch_Challenge ch))) = None"
    and "\<not> tc_get (spent_digest env (ch_Challenge ch)) n2 (pm_spent m2)"
    and "\<forall>claims. \<exists>tok. fst (signToken env disk n2 claims m2) = Inr tok"
  shows "\<exists>rr spec. fst (Redeem env sm_ops disk n2 u2 req (m2, s)) = Inr rr \<and>
     rr_Outcome rr = RedeemSolved \<and> \<not> rr_SoftError rr \<and> rr_RedirectURI rr = uri \<and> rr_TokenTTL rr = fst (request_ttls req uri) \<and>
     fst (signToken env disk n2 (mint_claims env n2 host (Fingerprint env ip (rq_UserAgent req)) '''' spec
        (rr_TokenTTL rr)) m2) = Inr (rr_Token rr)"
  using stateless_issue_then_redeem [OF assms] by blast

text \<open>
  C13 (safety). A stateless challenge is spent once across replicas whose clocks differ by at most
  the tolerated skew: after a redemption on one replica, whatever the store sees in between (other
  redemptions of the same challenge, other keys, sweeps), no other replica redeems that challenge
  again, under this or another spelling of its identifier, for as long as its own clock calls the
  challenge fresh and also afterwards. The marker's lifetime, measured on the store's clock, covers
  the whole window in which the slowest tolerated clock accepts it. The second redemption may resolve any
  challenge lifetime for the path, however its configuration came by it, as long as it is no longer than the one the first
  redemption resolved: the marker is sized by that one. A longer one is outside the claim, and there
  the code does spend twice (\<open>raised_lifetime_spends_twice\<close>).
\<close>

theorem stateless_single_spend:
  assumes "sm_ok s" "redeemStateless env sm_ops disk1 n1 u1 req1 (m1, s) = (Inr rr, m1', s1)"
    and "stateless_challenge env disk1 n1 req1 m1 = Some (ch, p)" "stateless_challenge env disk2 n2 req2 m2 = Some (ch, p)"
    and "snd (request_ttls req2 (sp_URI p)) \<le> snd (request_ttls req1 (sp_URI p))"
    and "exec_trace sm_ops janitor_sweep cs s1 = (rs, s2)" "trace_wf u1 cs"
    and "list_all (\<lambda>(t, c). guarded_call (spentKey (spent_digest env ch)) c) cs" "last (u1 # map fst cs) \<le> u2"
    and "n1 - u1 \<le> n2 - u2 + statelessSkew"
  shows "isl (fst (redeemStateless env sm_ops disk2 n2 u2 req2 (m2, s2)))"
  by (rule mem.second_redemption_refused [OF assms])

section \<open>Witnesses\<close>

definition example_payload :: stateless_payload where
  "example_payload = stateless_payload_for 0 [] ''a'' ''1'' ''/'' example_spec False"

definition stateless_env :: "nat pow_env" where
  "stateless_env = sized_env\<lparr>env_marshal := (\<lambda>p. if p = example_payload then Some ''x'' else None),
     env_unmarshal := (\<lambda>b. if b = ''x'' then Some example_payload else None)\<rparr>"

definition stateless_manager :: "nat pow_manager" where
  "stateless_manager = newManagerWithRetiredKeys stateless_env 0 []"

definition stateless_issue :: "(pow_error + challenge) \<times> nat pow_manager" where
  "stateless_issue = IssueStatelessWithSpec stateless_env example_disk 0 [] zero_salt ''a'' ''1'' ''/'' example_spec False stateless_manager"

definition stateless_request :: redeem_request where
  "stateless_request = example_request\<lparr>rq_ChallengeID := ch_ID (projr (fst stateless_issue))\<rparr>"

lemma stateless_issue_ok:
  obtains ch m' where "stateless_issue = (Inr ch, m')" "ch_Algorithm ch = AlgorithmSHA256" "ch_Difficulty ch = 0"
proof -
  have m: "pm_keyPath stateless_manager = ''''"
    by (simp add: stateless_manager_def newManagerWithRetiredKeys_def Let_def)
  have w: "with_salt zero_salt example_spec = example_spec"
    by (simp add: with_salt_def example_spec_def)
  have pl: "env_marshal stateless_env example_payload = Some ''x''" by (simp add: stateless_env_def)
  have a: "spec_algorithm example_spec \<noteq> AlgorithmArgon2ID"
    by (simp add: spec_algorithm_def example_spec_def AlgorithmSHA256_def AlgorithmArgon2ID_def)
  obtain uid solve where e: "encodeStatelessChallengeFor stateless_env (issuingSecret stateless_manager) ''x'' statelessPrefix
      statelessAuthDomain statelessSolveDomain = (uid, solve)" by fastforce
  have "stateless_issue = (Inr (challengeFromSpec uid solve example_spec), stateless_manager)"
    by (simp add: stateless_issue_def IssueStatelessWithSpec_def Let_def statelessMaxURI_def example_hyps(2) m w pl a e
        flip: example_payload_def)
  then show thesis
    by (rule that) (simp_all add: challengeFromSpec_def example_spec_def spec_algorithm_def AlgorithmSHA256_def AlgorithmArgon2ID_def)
qed


lemma stateless_example_hyps:
  "digest_sizes stateless_env" "json_round_trips stateless_env"
  "pm_keyPath stateless_manager = ''''" "pm_spent stateless_manager = []"
  "zip (pm_hmacSecrets stateless_manager) (pm_keys stateless_manager) = [(pm_hmacSecret stateless_manager, 0, None)]"
  "rq_NoJS stateless_request = False" "EqualFold ''a'' (rq_Host stateless_request)" "rq_IP stateless_request = ''1''"
  "request_ttls stateless_request ''/'' = (50, 10)"
  "\<forall>claims. \<exists>tok. fst (signToken stateless_env example_disk 7 claims stateless_manager) = Inr tok"
  using example_hyps(1)
  by (simp_all add: stateless_env_def json_round_trips_def digest_sizes_def stateless_manager_def Let_def
      newManagerWithRetiredKeys_def deriveHMACSecrets_def newTokenCache_def stateless_request_def example_request_def
      EqualFold_def request_ttls_def signToken_def sized_env_def example_env_def)

lemma stateless_request_id:
  assumes "stateless_issue = (Inr ch, m')"
  shows "rq_ChallengeID stateless_request = ch_ID ch"
  unfolding stateless_request_def assms by simp

lemma stateless_solved:
  "ch_Algorithm ch = AlgorithmSHA256 \<Longrightarrow> ch_Difficulty ch = 0 \<Longrightarrow> client_solves stateless_env ch stateless_request"
  by (simp add: client_solves_def AlgorithmSHA256_def AlgorithmArgon2ID_def)

lemma stateless_single_mac: "mac_separates env [x]"
  by (simp add: mac_separates_def)

lemma not_retired: "\<not> past_horizon None t"
  by (simp add: past_horizon_def)

lemmas stateless_flow = stateless_example_hyps(1,2) example_hyps(3,4) stateless_example_hyps(3)

theorem stateless_challenge_redeems_witness:
  "\<exists>rr. fst (Redeem stateless_env sm_ops example_disk 7 7 stateless_request (stateless_manager, fresh_memory)) = Inr rr \<and>
     rr_Outcome rr = RedeemSolved \<and> rr_RedirectURI rr = ''/''"
proof -
  obtain ch m' where i: "stateless_issue = (Inr ch, m')" and c: "ch_Algorithm ch = AlgorithmSHA256" "ch_Difficulty ch = 0"
    by (rule stateless_issue_ok)
  from stateless_challenge_redeems [where i = 0 and k = 0 and ?u2.0 = 7, OF stateless_flow i [unfolded stateless_issue_def] stateless_example_hyps(3) _ _ not_retired _
      stateless_example_hyps(5) [symmetric] refl refl _ _ _ stateless_request_id [OF i] _ stateless_example_hyps(7,8)
      stateless_solved [OF c] fresh_memory_ok fresh_memory_live _ stateless_example_hyps(10)]
  show ?thesis
    using stateless_example_hyps by (auto simp: stateless_single_mac statelessMaxURI_def statelessSkew_def tc_get_def)
qed

theorem stateless_single_spend_witness:
  "\<exists>rr m' s1 s2. redeemStateless stateless_env sm_ops example_disk 7 7 stateless_request (stateless_manager, fresh_memory) = (Inr rr, m', s1) \<and>
     exec_trace sm_ops janitor_sweep [(8, CallSweep)] s1 = ([ReplyUnit (Inr ())], s2) \<and>
     isl (fst (redeemStateless stateless_env sm_ops example_disk 7 9 stateless_request (stateless_manager, s2)))"
proof -
  obtain ch m' where i: "stateless_issue = (Inr ch, m')" and c: "ch_Algorithm ch = AlgorithmSHA256" "ch_Difficulty ch = 0"
    by (rule stateless_issue_ok)
  have "\<exists>rr p. fst (Redeem stateless_env sm_ops example_disk 7 7 stateless_request (stateless_manager, fresh_memory)) = Inr rr \<and>
      stateless_challenge stateless_env example_disk 7 stateless_request stateless_manager = Some (ch_Challenge ch, p)"
    using stateless_issue_then_redeem [where i = 0 and k = 0 and ?u2.0 = 7, OF stateless_flow i [unfolded stateless_issue_def] stateless_example_hyps(3) _ _ not_retired _
      stateless_example_hyps(5) [symmetric] refl refl _ _ _ stateless_request_id [OF i] _ stateless_example_hyps(7,8)
      stateless_solved [OF c] fresh_memory_ok fresh_memory_live _ stateless_example_hyps(10)] stateless_example_hyps
    by (auto simp: stateless_single_mac statelessMaxURI_def statelessSkew_def tc_get_def)
  then obtain rr p where rr: "fst (Redeem stateless_env sm_ops example_disk 7 7 stateless_request (stateless_manager, fresh_memory)) = Inr rr"
    and sc: "stateless_challenge stateless_env example_disk 7 stateless_request stateless_manager = Some (ch_Challenge ch, p)" by blast
  have "IsStatelessID (rq_ChallengeID stateless_request)"
    using sc by (auto simp: stateless_challenge_def parse_stateless_id_def IsStatelessID_def hasPrefix_def cutPrefix_def split: option.splits if_splits)
  then obtain m1 s1 where r: "redeemStateless stateless_env sm_ops example_disk 7 7 stateless_request (stateless_manager, fresh_memory) = (Inr rr, m1, s1)"
    using rr by (metis Redeem_def prod.collapse)
  obtain s2 where t: "exec_trace sm_ops janitor_sweep [(8, CallSweep)] s1 = ([ReplyUnit (Inr ())], s2)" by simp
  have "isl (fst (redeemStateless stateless_env sm_ops example_disk 7 9 stateless_request (stateless_manager, s2)))"
    by (rule stateless_single_spend [OF fresh_memory_ok r sc sc order_refl t]) (simp_all add: trace_wf_def guarded_call_def statelessSkew_def)
  then show ?thesis using r t by blast
qed

section \<open>A lifetime raised between two redemptions\<close>

lemma spend_lapses:
  assumes "sm_ok s" "spend_stateless env sm_ops disk now snow req ch spec p tok ttl (m, s) = (x, m', s')"
    and "sm_live s t (spentKey (spent_digest env ch)) = None" "0 < marker_ttl now ttl p" "snow + marker_ttl now ttl p < t"
  shows "sm_ok s' \<and> sm_live s' t (spentKey (spent_digest env ch)) = None"
proof -
  let ?k = "spentKey (spent_digest env ch)"
  obtain b s1 where b: "st_CompareAndSwap sm_ops snow ?k None spent_marker (marker_ttl now ttl p) s = (b, s1)" by fastforce
  have "refines sm_live sm_ok snow s (b, s1) (spec_CompareAndSwap snow ?k None spent_marker (marker_ttl now ttl p) (sm_live s snow))"
    using mem.cas [OF assms(1), of snow ?k None spent_marker "marker_ttl now ttl p"] b by simp
  then have "sm_ok s1 \<and> sm_live s1 t ?k = None"
    using assms(3-5) by (auto simp: refines_def spec_CompareAndSwap_def)
  moreover have "s' = s \<or> s' = s1"
    using assms(2) by (auto simp: spend_stateless_def Let_def b split: if_splits prod.splits sum.splits)
  ultimately show ?thesis using assms(1,3) by auto
qed

text \<open>
  The marker is sized by the lifetime in force at the first redemption. When the configured lifetime is raised by a reload
  before the challenge ages out, a replica that reads the new one calls the challenge fresh after the marker
  has lapsed, and redeems it a second time with every clock exact.
\<close>

lemma raised_lifetime_spends_twice:
  "\<exists>rr m1 s1 rr'. redeemStateless stateless_env sm_ops example_disk 7 7 stateless_request (stateless_manager, fresh_memory) = (Inr rr, m1, s1) \<and>
     fst (redeemStateless stateless_env sm_ops example_disk (40 * second) (40 * second) (stateless_request\<lparr>rq_ChallengeTTL := 50 * second\<rparr>)
       (stateless_manager, s1)) = Inr rr' \<and> rr_Outcome rr = RedeemSolved \<and> rr_Outcome rr' = RedeemSolved"
proof -
  let ?req2 = "stateless_request\<lparr>rq_ChallengeTTL := 50 * second\<rparr>" and ?t2 = "40 * second"
  obtain ch m' where i: "stateless_issue = (Inr ch, m')" and c: "ch_Algorithm ch = AlgorithmSHA256" "ch_Difficulty ch = 0"
    by (rule stateless_issue_ok)
  let ?k = "spentKey (spent_digest stateless_env (ch_Challenge ch))"
  have "\<exists>rr p. fst (Redeem stateless_env sm_ops example_disk 7 7 stateless_request (stateless_manager, fresh_memory)) = Inr rr \<and> rr_Outcome rr = RedeemSolved \<and>
      stateless_challenge stateless_env example_disk 7 stateless_request stateless_manager = Some (ch_Challenge ch, p)"
    using stateless_issue_then_redeem [where i = 0 and k = 0 and ?u2.0 = 7, OF stateless_flow i [unfolded stateless_issue_def] stateless_example_hyps(3) _ _ not_retired _
      stateless_example_hyps(5) [symmetric] refl refl _ _ _ stateless_request_id [OF i] _ stateless_example_hyps(7,8)
      stateless_solved [OF c] fresh_memory_ok fresh_memory_live _ stateless_example_hyps(10)] stateless_example_hyps
    by (auto simp: stateless_single_mac statelessMaxURI_def statelessSkew_def tc_get_def)
  then obtain rr p where rr: "fst (Redeem stateless_env sm_ops example_disk 7 7 stateless_request (stateless_manager, fresh_memory)) = Inr rr" "rr_Outcome rr = RedeemSolved"
    and sc: "stateless_challenge stateless_env example_disk 7 stateless_request stateless_manager = Some (ch_Challenge ch, p)" by blast
  have sid: "IsStatelessID (rq_ChallengeID stateless_request)"
    using sc by (auto simp: stateless_challenge_def parse_stateless_id_def IsStatelessID_def hasPrefix_def cutPrefix_def split: option.splits if_splits)
  then obtain m1 s1 where r1: "redeemStateless stateless_env sm_ops example_disk 7 7 stateless_request (stateless_manager, fresh_memory) = (Inr rr, m1, s1)"
    using rr by (metis Redeem_def prod.collapse)
  have p: "p = example_payload"
    using sc by (auto simp: stateless_challenge_def stateless_env_def split: option.splits sum.splits if_splits)
  have ts: "sp_TS p = 0" "sp_URI p = ''/''" by (simp_all add: p example_payload_def stateless_payload_for_def Let_def)
  have s1: "sm_ok s1 \<and> sm_live s1 ?t2 ?k = None"
  proof (rule redeemStateless_char [of stateless_env sm_ops example_disk 7 7 stateless_request stateless_manager fresh_memory])
    fix ch' p' spec tok ttl m2 ret
    assume a: "stateless_challenge stateless_env example_disk 7 stateless_request stateless_manager = Some (ch', p')"
      "request_ttls stateless_request (sp_URI p') = (tok, ttl)"
      "redeemStateless stateless_env sm_ops example_disk 7 7 stateless_request (stateless_manager, fresh_memory) =
         spend_stateless stateless_env sm_ops example_disk 7 7 stateless_request ch' spec p' tok ttl (m2, fresh_memory)"
    have eq: "ch' = ch_Challenge ch" "p' = p" using a(1) sc by simp_all
    have "ttl = 10" using a(2) eq ts stateless_example_hyps(9) by simp
    then have m: "marker_ttl 7 ttl p = 3 + statelessSkew" by (simp add: marker_ttl_def ts statelessSkew_def)
    show ?thesis
      using spend_lapses [OF fresh_memory_ok trans [OF a(3) [symmetric] r1], of ?t2] fresh_memory_live
      by (simp add: m eq statelessSkew_def second_def)
  qed (use r1 in auto)
  have sign: "\<forall>claims. \<exists>tok. fst (signToken stateless_env example_disk ?t2 claims stateless_manager) = Inr tok"
    by (simp add: stateless_env_def stateless_manager_def Let_def newManagerWithRetiredKeys_def signToken_def sized_env_def example_env_def)
  have ttls: "request_ttls ?req2 ''/'' = (50, 50 * second)"
    by (simp add: stateless_request_def example_request_def request_ttls_def)
  have solves: "client_solves stateless_env ch ?req2"
    using c by (simp add: client_solves_def AlgorithmSHA256_def AlgorithmArgon2ID_def)
  have "\<exists>rr. fst (Redeem stateless_env sm_ops example_disk ?t2 ?t2 ?req2 (stateless_manager, s1)) = Inr rr \<and> rr_Outcome rr = RedeemSolved"
    using stateless_issue_then_redeem [where i = 0 and k = 0 and ?u2.0 = ?t2 and ?n2.0 = ?t2 and req = ?req2 and s = s1, OF stateless_flow
      i [unfolded stateless_issue_def] stateless_example_hyps(3) _ _ not_retired _
      stateless_example_hyps(5) [symmetric] refl refl _ _ _ _ _ _ _ solves _ _ _ sign] s1 stateless_example_hyps stateless_request_id [OF i] ttls
    by (auto simp: stateless_single_mac statelessMaxURI_def statelessSkew_def tc_get_def second_def)
  then obtain rr' where "fst (redeemStateless stateless_env sm_ops example_disk ?t2 ?t2 ?req2 (stateless_manager, s1)) = Inr rr'" "rr_Outcome rr' = RedeemSolved"
    using sid by (auto simp: Redeem_def)
  then show ?thesis using r1 rr(2) by blast
qed

end
