(* ===== verification/Http_Refusal.thy ===== *)
theory Http_Refusal
  imports Request_Policy Pow_Tokens
begin

text \<open>
  What the HTTP transport reads of a request before it decides anything: header look-ups, the Fetch metadata
  predicates (\<^verbatim>\<open>transport/http/fetchdest.go\<close>), the strict \<^verbatim>\<open>Accept\<close> scanner (\<^verbatim>\<open>transport/http/accept.go\<close>) and the
  response headers every page carries (\<^verbatim>\<open>transport/http/headers.go\<close>).

  A header is an association list from canonical names to field values, as \<^verbatim>\<open>http.Header\<close> stores it. Blank space
  is ASCII (\<^const>\<open>is_space\<close>), which is all a field value may hold.
\<close>

section \<open>Headers\<close>

type_synonym http_header = "(string, string list) gomap"

definition token_byte :: "char \<Rightarrow> bool" where
  "token_byte c \<longleftrightarrow> c \<in> set ''!#$%&'' \<or> of_char c = (39 :: nat) \<or> c \<in> set ''*+-.^_|~'' \<or> of_char c = (96 :: nat) \<or>
     (48 \<le> (of_char c :: nat) \<and> (of_char c :: nat) \<le> 57) \<or>
     (65 \<le> (of_char c :: nat) \<and> (of_char c :: nat) \<le> 90) \<or>
     (97 \<le> (of_char c :: nat) \<and> (of_char c :: nat) \<le> 122)"

text \<open>\<^verbatim>\<open>textproto.CanonicalMIMEHeaderKey\<close>: a name with a byte outside the token set is left alone.\<close>

fun canon_bytes :: "bool \<Rightarrow> string \<Rightarrow> string" where
  "canon_bytes up [] = []"
| "canon_bytes up (c # cs) = (if up then ascii_upper c else ascii_lower c) # canon_bytes (c = CHR ''-'') cs"

definition canonicalKey :: "string \<Rightarrow> string" where
  "canonicalKey s = (if list_all token_byte s then canon_bytes True s else s)"

definition hdr_Values :: "http_header \<Rightarrow> string \<Rightarrow> string list" where
  "hdr_Values h name = (case map_of h (canonicalKey name) of None \<Rightarrow> [] | Some vs \<Rightarrow> vs)"

definition hdr_Get :: "http_header \<Rightarrow> string \<Rightarrow> string" where
  "hdr_Get h name = (case hdr_Values h name of [] \<Rightarrow> '''' | v # _ \<Rightarrow> v)"

definition hdr_Set :: "string \<Rightarrow> string \<Rightarrow> http_header \<Rightarrow> http_header" where
  "hdr_Set name v h = mput (canonicalKey name) [v] h"

definition hdrRefusal :: string where "hdrRefusal = ''X-Guardian-Refusal''"
definition hdrSecFetchDest :: string where "hdrSecFetchDest = ''Sec-Fetch-Dest''"
definition hdrSecFetchSite :: string where "hdrSecFetchSite = ''Sec-Fetch-Site''"
definition hdrSecFetchMode :: string where "hdrSecFetchMode = ''Sec-Fetch-Mode''"
definition hdrAccept :: string where "hdrAccept = ''Accept''"

section \<open>The Accept scanner\<close>

text \<open>\<^verbatim>\<open>strings.Cut\<close> at a byte: the part before it and, when it occurs, the part after.\<close>

definition cut_byte :: "char \<Rightarrow> string \<Rightarrow> string \<times> string option" where
  "cut_byte c s = (before_byte c s, if c \<in> set s then Some (drop 1 (dropWhile (\<lambda>x. x \<noteq> c) s)) else None)"

definition isToken :: "string \<Rightarrow> bool" where
  "isToken s \<longleftrightarrow> s \<noteq> '''' \<and> list_all token_byte s"

text \<open>The scan of a quoted string between its quotes; a backslash skips the byte after it.\<close>

fun quoted_body :: "string \<Rightarrow> bool" where
  "quoted_body [] = True"
| "quoted_body (c # cs) =
     (if of_char c = (92 :: nat) then (case cs of [] \<Rightarrow> False | _ # rest \<Rightarrow> quoted_body rest)
      else if of_char c = (34 :: nat) then False
      else if ((of_char c :: nat) < 32 \<and> of_char c \<noteq> (9 :: nat)) \<or> of_char c = (127 :: nat) then False
      else quoted_body cs)"

definition isQuotedString :: "string \<Rightarrow> bool" where
  "isQuotedString s \<longleftrightarrow>
     2 \<le> length s \<and> of_char (hd s) = (34 :: nat) \<and> of_char (s ! (length s - 1)) = (34 :: nat) \<and> quoted_body (butlast (tl s))"

definition isWeight :: "string \<Rightarrow> bool" where
  "isWeight s =
     (if s \<noteq> '''' \<and> (hd s = CHR ''0'' \<or> hd s = CHR ''1'') then
        (if length s = 1 then True
         else if s ! 1 \<noteq> CHR ''.'' \<or> 5 < length s then False
         else list_all (\<lambda>c. 48 \<le> (of_char c :: nat) \<and> (of_char c :: nat) \<le> 57 \<and> \<not> (hd s = CHR ''1'' \<and> c \<noteq> CHR ''0'')) (drop 2 s))
      else False)"

definition valid_parameter :: "string \<Rightarrow> bool" where
  "valid_parameter p0 =
     (let p = trimSpace p0
      in if p = '''' then True
         else case cut_byte (CHR ''='') p of
                (name, None) \<Rightarrow> False
              | (name, Some v) \<Rightarrow>
                  isToken name \<and> (isToken v \<or> isQuotedString v) \<and> (EqualFold name ''q'' \<longrightarrow> isWeight v))"

definition validMediaParameters :: "string \<Rightarrow> bool" where
  "validMediaParameters s = list_all valid_parameter (split_on (CHR '';'') s)"

text \<open>
  One element of the list: blank, or something that ends the scan with ``do not refuse'' (malformed, or a
  range that covers HTML), or an ordinary range.
\<close>

datatype element = ElBlank | ElStop | ElRange

definition classify_element :: "string \<Rightarrow> element" where
  "classify_element seg =
     (case cut_byte (CHR '';'') seg of (mr0, params) \<Rightarrow>
        let mediaRange = trimSpace mr0
        in if mediaRange = '''' then (if params \<noteq> None then ElStop else ElBlank)
           else if (case params of None \<Rightarrow> False | Some ps \<Rightarrow> \<not> validMediaParameters ps) then ElStop
           else case cut_byte (CHR ''/'') mediaRange of
                  (mediaType, None) \<Rightarrow> ElStop
                | (mediaType, Some subtype) \<Rightarrow>
                    if \<not> isToken mediaType \<or> \<not> isToken subtype then ElStop
                    else if mediaType = ''*'' \<and> subtype \<noteq> ''*'' then ElStop
                    else if EqualFold mediaType ''text'' \<and> (subtype = ''*'' \<or> EqualFold subtype ''html'') then ElStop
                    else ElRange)"

fun scan_elements :: "bool \<Rightarrow> string list \<Rightarrow> bool" where
  "scan_elements usable [] = usable"
| "scan_elements usable (seg # segs) =
     (case classify_element seg of
        ElBlank \<Rightarrow> scan_elements usable segs
      | ElStop \<Rightarrow> False
      | ElRange \<Rightarrow> scan_elements True segs)"

definition acceptLooksNonNavigational :: "string list \<Rightarrow> bool" where
  "acceptLooksNonNavigational values = scan_elements False (concat (map (split_on (CHR '','')) values))"

section \<open>Fetch metadata\<close>

definition outcomeSubresourceRefused :: string where "outcomeSubresourceRefused = ''subresource_refused''"
definition outcomeAcceptRefused :: string where "outcomeAcceptRefused = ''accept_heuristic_refused''"
definition refusalNone :: string where "refusalNone = ''none''"
definition modeNavigate :: string where "modeNavigate = ''navigate''"

lemmas refusal_words = outcomeSubresourceRefused_def outcomeAcceptRefused_def refusalNone_def

definition relayedRefusal :: "http_header \<Rightarrow> string \<times> bool" where
  "relayedRefusal h =
     (let v = hdr_Get h hdrRefusal
      in if v = refusalNone then ('''', True)
         else if v = outcomeSubresourceRefused \<or> v = outcomeAcceptRefused then (v, True)
         else ('''', False))"

definition isFramedDest :: "string \<Rightarrow> bool" where
  "isFramedDest dest \<longleftrightarrow> dest \<in> {''frame'', ''iframe'', ''embed'', ''object''}"

definition isDocumentDest :: "string \<Rightarrow> bool" where
  "isDocumentDest dest \<longleftrightarrow> dest = ''document'' \<or> dest = ''fencedframe'' \<or> isFramedDest dest"

definition isForeignSite :: "string \<Rightarrow> bool" where
  "isForeignSite site \<longleftrightarrow> site \<in> {''cross-site'', ''same-site''}"

definition isSubresourceDest :: "string \<Rightarrow> bool" where
  "isSubresourceDest dest \<longleftrightarrow>
     dest \<in> {''audio'', ''audioworklet'', ''empty'', ''font'', ''image'', ''json'', ''manifest'', ''paintworklet'', ''report'',
             ''script'', ''serviceworker'', ''sharedworker'', ''style'', ''text'', ''track'', ''video'', ''webidentity'', ''worker'', ''xslt''}"

definition unscorableFrame :: "string \<Rightarrow> string \<Rightarrow> bool" where
  "unscorableFrame dest site \<longleftrightarrow> dest = ''fencedframe'' \<or> (isFramedDest dest \<and> isForeignSite site)"

definition refusalKind :: "http_header \<Rightarrow> string" where
  "refusalKind h =
     (let dest = hdr_Get h hdrSecFetchDest
      in if isSubresourceDest dest then outcomeSubresourceRefused
         else if \<not> isDocumentDest dest \<and> hdr_Get h hdrSecFetchMode \<noteq> modeNavigate \<and>
                 acceptLooksNonNavigational (hdr_Values h hdrAccept)
         then outcomeAcceptRefused else '''')"

section \<open>Response headers\<close>

text \<open>The closing quote of a policy is the byte 0x27.\<close>

definition cspChallenge :: string where
  "cspChallenge =
     ''default-src 'none'; script-src 'self' 'unsafe-inline'; style-src 'unsafe-inline'; '' @
     ''worker-src 'self' blob:; connect-src 'self'; base-uri 'none'; form-action 'none'; frame-ancestors 'self'' @ [CHR 0x27]"

definition cspStatic :: string where
  "cspStatic =
     ''default-src 'none'; style-src 'unsafe-inline'; '' @
     ''base-uri 'none'; form-action 'none'; frame-ancestors 'self'' @ [CHR 0x27]"

definition frameSameOrigin :: string where "frameSameOrigin = ''SAMEORIGIN''"

definition securityHeaders :: "string \<Rightarrow> string \<Rightarrow> http_header \<Rightarrow> http_header" where
  "securityHeaders csp frameOpts h0 =
     (let h = mput ''Referrer-Policy'' [''no-referrer''] (mput ''X-Content-Type-Options'' [''nosniff''] h0);
          h = (if csp \<noteq> '''' then mput ''Content-Security-Policy'' [csp] h else h)
      in if frameOpts \<noteq> '''' then mput ''X-Frame-Options'' [frameOpts] h else h)"


section \<open>Header names\<close>

lemma canon_fixed [simp]:
  "canonicalKey hdrRefusal = hdrRefusal" "canonicalKey hdrSecFetchDest = hdrSecFetchDest"
  "canonicalKey hdrSecFetchSite = hdrSecFetchSite" "canonicalKey hdrSecFetchMode = hdrSecFetchMode"
  "canonicalKey hdrAccept = hdrAccept"
  by (simp_all add: canonicalKey_def token_byte_def ascii_upper_def ascii_lower_def hdrRefusal_def hdrSecFetchDest_def
      hdrSecFetchSite_def hdrSecFetchMode_def hdrAccept_def)

lemma hdr_Get_Set [simp]: "hdr_Get (hdr_Set name v h) name = v"
  by (simp add: hdr_Get_def hdr_Values_def hdr_Set_def gomap_simps)

lemma hdr_Get_Set_other [simp]:
  "canonicalKey other \<noteq> canonicalKey name \<Longrightarrow> hdr_Get (hdr_Set name v h) other = hdr_Get h other"
  by (simp add: hdr_Get_def hdr_Values_def hdr_Set_def gomap_simps)

text \<open>A relayed verdict is read back exactly: the kind the first hop refused for, or none.\<close>

lemma relayed_kind:
  "hdr_Get h hdrRefusal \<in> {outcomeSubresourceRefused, outcomeAcceptRefused} \<Longrightarrow>
     relayedRefusal h = (hdr_Get h hdrRefusal, True)"
  by (auto simp: relayedRefusal_def Let_def refusal_words)

lemma relayed_none: "hdr_Get h hdrRefusal = refusalNone \<Longrightarrow> relayedRefusal h = ('''', True)"
  by (simp add: relayedRefusal_def)

lemma relayed_cases:
  "relayedRefusal h = (k, b) \<Longrightarrow> k \<in> {'''', outcomeSubresourceRefused, outcomeAcceptRefused}"
  by (auto simp: relayedRefusal_def Let_def split: if_splits)

lemma refusalKind_range: "refusalKind h \<in> {'''', outcomeSubresourceRefused, outcomeAcceptRefused}"
  by (simp add: refusalKind_def Let_def)

section \<open>What a destination decides\<close>

text \<open>The destinations fall into three classes that never overlap.\<close>

lemma document_not_subresource: "isDocumentDest d \<Longrightarrow> \<not> isSubresourceDest d"
  unfolding isDocumentDest_def isFramedDest_def isSubresourceDest_def by auto

lemma unscorable_is_document: "unscorableFrame d site \<Longrightarrow> isDocumentDest d"
  by (auto simp: unscorableFrame_def isDocumentDest_def)

lemma document_never_refused: "isDocumentDest (hdr_Get h hdrSecFetchDest) \<Longrightarrow> refusalKind h = ''''"
  by (simp add: refusalKind_def Let_def document_not_subresource)

section \<open>The Accept scanner against its grammar\<close>

text \<open>The specification: the list as a set of elements, with no order and no early exit.\<close>

lemma scan_elements_iff:
  "scan_elements usable segs \<longleftrightarrow>
     (\<forall>x \<in> set segs. classify_element x \<noteq> ElStop) \<and> (usable \<or> (\<exists>x \<in> set segs. classify_element x = ElRange))"
  by (induction usable segs rule: scan_elements.induct) (auto split: element.splits)

definition accept_elements :: "string list \<Rightarrow> string set" where
  "accept_elements values = (\<Union>v \<in> set values. set (split_on (CHR '','') v))"

lemma accept_scan_iff:
  "acceptLooksNonNavigational values \<longleftrightarrow>
     (\<forall>x \<in> accept_elements values. classify_element x \<noteq> ElStop) \<and> (\<exists>x \<in> accept_elements values. classify_element x = ElRange)"
  by (simp add: acceptLooksNonNavigational_def accept_elements_def scan_elements_iff)

text \<open>The weights of RFC 9110 and its quoted strings, as grammars.\<close>

definition is_digit :: "char \<Rightarrow> bool" where
  "is_digit c \<longleftrightarrow> 48 \<le> (of_char c :: nat) \<and> (of_char c :: nat) \<le> 57"

inductive qvalue :: "string \<Rightarrow> bool" where
  qv_bare: "d \<in> {CHR ''0'', CHR ''1''} \<Longrightarrow> qvalue [d]"
| qv_zero: "length ds \<le> 3 \<Longrightarrow> list_all is_digit ds \<Longrightarrow> qvalue (CHR ''0'' # CHR ''.'' # ds)"
| qv_one: "n \<le> 3 \<Longrightarrow> qvalue (CHR ''1'' # CHR ''.'' # replicate n (CHR ''0''))"

lemma replicate_zeroes: "list_all (\<lambda>c. c = CHR ''0'') ds \<longleftrightarrow> ds = replicate (length ds) (CHR ''0'')"
  by (induction ds) auto

lemma isWeight_iff: "isWeight s \<longleftrightarrow> qvalue s"
proof
  assume w: "isWeight s"
  then obtain d r where s: "s = d # r" and d: "d = CHR ''0'' \<or> d = CHR ''1''" by (cases s) (auto simp: isWeight_def split: if_splits)
  show "qvalue s"
  proof (cases r)
    case Nil then show ?thesis using d s by (auto intro: qv_bare)
  next
    case (Cons e ds)
    then have e: "e = CHR ''.''" "length ds \<le> 3"
      and all: "list_all (\<lambda>c. 48 \<le> (of_char c :: nat) \<and> (of_char c :: nat) \<le> 57 \<and> \<not> (d = CHR ''1'' \<and> c \<noteq> CHR ''0'')) ds"
      using w d by (auto simp: isWeight_def s split: if_splits)
    show ?thesis
    proof (cases "d = CHR ''1''")
      case True
      then have "list_all (\<lambda>c. c = CHR ''0'') ds" using all by (auto simp: list_all_iff)
      then show ?thesis using qv_one [of "length ds"] e True Cons s by (simp add: replicate_zeroes)
    next
      case False
      then show ?thesis using qv_zero [of ds] e all d Cons s by (auto simp: list_all_iff is_digit_def)
    qed
  qed
next
  assume "qvalue s"
  then show "isWeight s"
    by cases (auto simp: isWeight_def list_all_iff is_digit_def)
qed

text \<open>
  Tokens, by the rule that a token character is any visible byte but a delimiter. Quoted strings: text bytes and escaped pairs between two quotes.
  The bytes an escape may hold are a parameter: \<open>escapable\<close> for the RFC, any byte for the code.
\<close>

definition delimiters :: "nat set" where
  "delimiters = {34, 40, 41, 44, 47, 58, 59, 60, 61, 62, 63, 64, 91, 92, 93, 123, 125}"

definition rfc_tchar :: "char \<Rightarrow> bool" where
  "rfc_tchar c \<longleftrightarrow> (of_char c :: nat) \<in> {33..126} \<and> of_char c \<notin> delimiters"

definition rfc_token :: "string \<Rightarrow> bool" where
  "rfc_token s \<longleftrightarrow> s \<noteq> '''' \<and> (\<forall>c \<in> set s. rfc_tchar c)"

definition qdtext :: "char \<Rightarrow> bool" where
  "qdtext c \<longleftrightarrow> (of_char c :: nat) \<in> {9, 32, 33} \<union> {35..91} \<union> {93..126} \<union> {128..255}"

definition escapable :: "char \<Rightarrow> bool" where
  "escapable c \<longleftrightarrow> (of_char c :: nat) \<in> {9} \<union> {32..126} \<union> {128..255}"

inductive quoted_items :: "(char \<Rightarrow> bool) \<Rightarrow> string \<Rightarrow> bool" for esc where
  qi_Nil: "quoted_items esc []"
| qi_text: "qdtext c \<Longrightarrow> quoted_items esc cs \<Longrightarrow> quoted_items esc (c # cs)"
| qi_pair: "esc x \<Longrightarrow> quoted_items esc cs \<Longrightarrow> quoted_items esc (CHR 0x5C # x # cs)"

definition quoted_string :: "(char \<Rightarrow> bool) \<Rightarrow> string \<Rightarrow> bool" where
  "quoted_string esc s \<longleftrightarrow> (\<exists>xs. s = [CHR 0x22] @ xs @ [CHR 0x22] \<and> quoted_items esc xs)"

subsection \<open>The code's tables against the grammar\<close>

lemma char_byte: "(of_char (c :: char) :: nat) < 256"
  using mod_less_divisor [of 256 "of_char c :: nat"] by simp

lemma char_eq_byte: "c = d \<longleftrightarrow> (of_char (c :: char) :: nat) = of_char d"
  by (metis char_of_char)

lemma tchar_table:
  "n < 256 \<Longrightarrow> n \<in> {33, 35, 36, 37, 38} \<or> n = 39 \<or> n \<in> {42, 43, 45, 46, 94, 95, 124, 126} \<or> n = 96 \<or>
     48 \<le> n \<and> n \<le> 57 \<or> 65 \<le> n \<and> n \<le> 90 \<or> 97 \<le> n \<and> n \<le> 122 \<longleftrightarrow> n \<in> {33..126} \<and> n \<notin> delimiters" for n :: nat
  unfolding delimiters_def by (simp only: insert_iff empty_iff atLeastAtMost_iff) presburger

lemma token_byte_iff: "token_byte c \<longleftrightarrow> rfc_tchar c"
proof -
  have "c \<in> set ''!#$%&'' \<longleftrightarrow> of_char c \<in> {33, 35, 36, 37, 38 :: nat}"
    "c \<in> set ''*+-.^_|~'' \<longleftrightarrow> of_char c \<in> {42, 43, 45, 46, 94, 95, 124, 126 :: nat}"
    by (simp_all add: char_eq_byte)
  then show ?thesis using tchar_table [OF char_byte, of c] unfolding token_byte_def rfc_tchar_def by blast
qed

lemma isToken_iff: "isToken s \<longleftrightarrow> rfc_token s"
  by (simp add: isToken_def rfc_token_def list_all_iff token_byte_iff)

lemma backslash_iff: "of_char c = (92 :: nat) \<longleftrightarrow> c = CHR 0x5C" and quote_iff: "of_char c = (34 :: nat) \<longleftrightarrow> c = CHR 0x22"
  by (simp_all add: char_eq_byte)

lemma qdtext_iff: "qdtext c \<longleftrightarrow> c \<noteq> CHR 0x5C \<and> c \<noteq> CHR 0x22 \<and> \<not> (((of_char c :: nat) < 32 \<and> of_char c \<noteq> (9 :: nat)) \<or> of_char c = (127 :: nat))"
  using char_byte [of c] unfolding qdtext_def backslash_iff [symmetric] quote_iff [symmetric] by auto

lemma quoted_body_sound: "quoted_body s \<Longrightarrow> quoted_items (\<lambda>_. True) s"
  by (induction s rule: quoted_body.induct)
     (auto simp: qdtext_iff backslash_iff quote_iff split: if_splits list.splits intro: quoted_items.intros)

lemma quoted_body_complete: "quoted_items (\<lambda>_. True) s \<Longrightarrow> quoted_body s"
  by (induction rule: quoted_items.induct) (auto simp: qdtext_iff backslash_iff quote_iff)

lemma isQuotedString_iff: "isQuotedString s \<longleftrightarrow> quoted_string (\<lambda>_. True) s"
proof
  assume q: "isQuotedString s"
  then have "2 \<le> length s" by (simp add: isQuotedString_def)
  then obtain c t where "s = c # t" "t \<noteq> []" by (cases s; cases "tl s") auto
  moreover from this obtain xs d where "t = xs @ [d]" by (cases t rule: rev_cases) auto
  ultimately have s: "s = c # xs @ [d]" by simp
  then have "c = CHR 0x22" "d = CHR 0x22" "quoted_body xs"
    using q by (simp_all add: isQuotedString_def quote_iff nth_append)
  then show "quoted_string (\<lambda>_. True) s" using s quoted_body_sound by (auto simp: quoted_string_def)
next
  assume "quoted_string (\<lambda>_. True) s"
  then show "isQuotedString s"
    by (auto simp: quoted_string_def isQuotedString_def quote_iff nth_append dest: quoted_body_complete)
qed

text \<open>
  RFC 9110 lets an escaped pair hold only a tab, a space or a visible byte; the scan skips the escaped byte
  unread, so an escaped control byte passes it although the comment says control characters are rejected. Where no
  backslash is followed by a control byte the two grammars agree.
\<close>

lemma escaped_control_is_accepted:
  "isQuotedString [CHR 0x22, CHR 0x5C, CHR 0x01, CHR 0x22]" "\<not> quoted_string escapable [CHR 0x22, CHR 0x5C, CHR 0x01, CHR 0x22]"
proof -
  have "\<not> quoted_items escapable [CHR 0x5C, CHR 0x01]"
    by (auto elim!: quoted_items.cases [of _ "[CHR 0x5C, CHR 0x01]"] quoted_items.cases [of _ "[CHR 0x01]"] simp: escapable_def qdtext_def)
  then show "\<not> quoted_string escapable [CHR 0x22, CHR 0x5C, CHR 0x01, CHR 0x22]" by (simp add: quoted_string_def append_eq_Cons_conv Cons_eq_append_conv)
qed (simp add: isQuotedString_def)

definition escaped_control :: "string \<Rightarrow> bool" where
  "escaped_control s \<longleftrightarrow> (\<exists>x. \<not> escapable x \<and> sublist [CHR 0x5C, x] s)"

lemma escaped_control_sublist: "sublist s t \<Longrightarrow> \<not> escaped_control t \<Longrightarrow> \<not> escaped_control s"
  unfolding escaped_control_def using sublist_order.order_trans by blast

lemma quoted_items_strict: "quoted_items (\<lambda>_. True) s \<Longrightarrow> \<not> escaped_control s \<Longrightarrow> quoted_items escapable s"
proof (induction rule: quoted_items.induct)
  case (qi_text c cs)
  have "sublist cs (c # cs)" by (simp add: sublist_Cons_right)
  then show ?case using qi_text escaped_control_sublist quoted_items.qi_text by blast
next
  case (qi_pair x cs)
  have "sublist cs (CHR 0x5C # x # cs)" "sublist [CHR 0x5C, x] (CHR 0x5C # x # cs)"
    using sublist_appendI [of cs "[CHR 0x5C, x]" "[]"] sublist_appendI [of "[CHR 0x5C, x]" "[]" cs] by simp_all
  moreover from this have "escapable x" using qi_pair.prems unfolding escaped_control_def by blast
  ultimately show ?case using qi_pair escaped_control_sublist quoted_items.qi_pair by blast
qed (rule quoted_items.qi_Nil)

lemma quoted_items_lenient: "quoted_items escapable s \<Longrightarrow> quoted_items (\<lambda>_. True) s"
  by (induction rule: quoted_items.induct) (auto intro: quoted_items.intros)

lemma quoted_string_agree: "\<not> escaped_control s \<Longrightarrow> quoted_string (\<lambda>_. True) s \<longleftrightarrow> quoted_string escapable s"
proof -
  assume n: "\<not> escaped_control s"
  have "quoted_items escapable xs" if "s = [CHR 0x22] @ xs @ [CHR 0x22]" "quoted_items (\<lambda>_. True) xs" for xs
    using quoted_items_strict [OF that(2)] escaped_control_sublist [OF _ n] that(1) by blast
  then show ?thesis unfolding quoted_string_def using quoted_items_lenient by blast
qed

section \<open>The reference grammar of a media range\<close>

text \<open>Over the grammar of tokens, quoted strings and weights alone; \<open>esc\<close> are the bytes an escape may hold.\<close>

definition param_ok :: "(char \<Rightarrow> bool) \<Rightarrow> string \<Rightarrow> bool" where
  "param_ok esc p \<longleftrightarrow> trimSpace p = '''' \<or>
     (\<exists>name v. trimSpace p = name @ ''='' @ v \<and> rfc_token name \<and> (rfc_token v \<or> quoted_string esc v) \<and>
        (toLower name \<noteq> ''q'' \<or> qvalue v))"

definition names_html :: "string \<Rightarrow> string \<Rightarrow> bool" where
  "names_html ty sub \<longleftrightarrow> toLower ty = ''text'' \<and> toLower sub \<in> {''*'', ''html''}"

definition plain_range :: "(char \<Rightarrow> bool) \<Rightarrow> string \<Rightarrow> bool" where
  "plain_range esc x \<longleftrightarrow>
     (\<exists>ty sub. trimSpace (hd (split_on (CHR '';'') x)) = ty @ ''/'' @ sub \<and> rfc_token ty \<and> rfc_token sub \<and>
        (ty \<noteq> ''*'' \<or> sub = ''*'') \<and> \<not> names_html ty sub) \<and>
     list_all (param_ok esc) (tl (split_on (CHR '';'') x))"

lemma trimSpace_sublist: "sublist (trimSpace s) s"
proof -
  have "suffix (dropWhile is_space s) s" by (rule suffix_dropWhile)
  moreover have "prefix (trimSpace s) (dropWhile is_space s)"
    unfolding trimSpace_def trim_with_def using suffix_dropWhile [of is_space "rev (dropWhile is_space s)"] by (simp add: suffix_to_prefix)
  ultimately show ?thesis by (meson prefix_imp_sublist suffix_imp_sublist sublist_order.order_trans)
qed

lemma split_on_sublist: "x \<in> set (split_on c s) \<Longrightarrow> sublist x s"
proof (induction s arbitrary: x)
  case (Cons a s)
  obtain h t where ht: "split_on c s = h # t" by (meson neq_Nil_conv split_on_nonempty)
  have pre: "prefix (hd (split_on c s)) s" for s
  proof (induction s)
    case (Cons b s)
    then show ?case by simp
  qed simp
  have "prefix h s" using pre [of s] ht by simp
  moreover have "sublist x s" if "x \<in> set t" using Cons.IH [of x] ht that by simp
  moreover have "sublist s (a # s)" by (simp add: sublist_Cons_right)
  ultimately show ?case using Cons.prems ht
    by (auto split: if_splits intro: sublist_order.order_trans prefix_imp_sublist)
qed simp

lemma param_ok_agree:
  assumes "\<not> escaped_control p"
  shows "param_ok (\<lambda>_. True) p \<longleftrightarrow> param_ok escapable p"
proof -
  have "quoted_string (\<lambda>_. True) v \<longleftrightarrow> quoted_string escapable v" if "trimSpace p = name @ ''='' @ v" for name v
  proof -
    have "sublist v (trimSpace p)" unfolding that using sublist_appendI [of v "name @ ''=''" "[]"] by simp
    then have "sublist v p" using trimSpace_sublist sublist_order.order_trans by blast
    then show ?thesis using quoted_string_agree escaped_control_sublist assms by blast
  qed
  then show ?thesis unfolding param_ok_def by blast
qed

lemma plain_range_agree:
  assumes "\<not> escaped_control x"
  shows "plain_range (\<lambda>_. True) x \<longleftrightarrow> plain_range escapable x"
proof -
  have "p \<in> set (tl (split_on (CHR '';'') x)) \<Longrightarrow> p \<in> set (split_on (CHR '';'') x)" for p by (meson list.set_sel(2) split_on_nonempty)
  then have "param_ok (\<lambda>_. True) p \<longleftrightarrow> param_ok escapable p" if "p \<in> set (tl (split_on (CHR '';'') x))" for p
    using that split_on_sublist escaped_control_sublist assms param_ok_agree by blast
  then show ?thesis unfolding plain_range_def list_all_iff by blast
qed

lemma before_byte_cut [simp]: "c \<notin> set x \<Longrightarrow> before_byte c (x @ c # y) = x"
  by (induction x) (auto simp: before_byte_def)

lemma cut_byte_append: "c \<notin> set x \<Longrightarrow> cut_byte c (x @ c # y) = (x, Some y)"
  by (induction x) (auto simp: cut_byte_def before_byte_def)

lemma cut_byte_Some: "cut_byte c s = (x, Some y) \<Longrightarrow> s = x @ c # y \<and> c \<notin> set x"
proof (induction s arbitrary: x)
  case Nil then show ?case by (simp add: cut_byte_def)
next
  case (Cons a s)
  show ?case
  proof (cases "a = c")
    case True then show ?thesis using Cons.prems by (auto simp: cut_byte_def before_byte_def)
  next
    case False
    then obtain x' where "x = a # x'" "cut_byte c s = (x', Some y)" using Cons.prems
      by (auto simp: cut_byte_def before_byte_def split: if_splits)
    then show ?thesis using Cons.IH False by simp
  qed
qed

lemma cut_byte_None: "cut_byte c s = (x, None) \<Longrightarrow> x = s \<and> c \<notin> set s"
  by (auto simp: cut_byte_def before_byte_def split: if_splits)

lemma separators_not_tokens [simp]: "\<not> token_byte (CHR ''/'')" "\<not> token_byte (CHR ''='')"
  by (simp_all add: token_byte_def)

lemma token_free: "isToken s \<Longrightarrow> CHR ''/'' \<notin> set s \<and> CHR ''='' \<notin> set s"
  using separators_not_tokens unfolding isToken_def list_all_iff by blast

text \<open>Splitting at the semicolons and cutting at the first one agree.\<close>

lemma cut_then_split: "cut_byte c s = (x, Some y) \<Longrightarrow> split_on c s = x # split_on c y"
  using cut_byte_Some split_on_append by metis

lemma cut_single: "cut_byte c s = (x, None) \<Longrightarrow> split_on c s = [x]"
  using cut_byte_None split_on_single by metis


lemma lower_q: "toLower ''q'' = ''q''"
  by (simp add: toLower_def ascii_lower_def)

lemma valid_parameter_iff: "valid_parameter p \<longleftrightarrow> param_ok (\<lambda>_. True) p"
proof (cases "cut_byte (CHR ''='') (trimSpace p)")
  case (Pair name rest)
  show ?thesis
  proof (cases rest)
    case None
    then have "CHR ''='' \<notin> set (trimSpace p)" using Pair cut_byte_None by metis
    then show ?thesis using Pair None by (auto simp: valid_parameter_def param_ok_def Let_def)
  next
    case (Some v)
    then have p: "trimSpace p = name @ CHR ''='' # v" using Pair cut_byte_Some by metis
    have "cut_byte (CHR ''='') (name' @ ''='' @ v') = (name', Some v')" if "isToken name'" for name' v'
      using that token_free cut_byte_append by simp
    then have uniq: "name' = name \<and> v' = v" if "trimSpace p = name' @ ''='' @ v'" "isToken name'" for name' v'
      using that Pair Some by (metis Pair_inject option.inject)
    have ne: "trimSpace p \<noteq> ''''" using p by simp
    have "param_ok (\<lambda>_. True) p \<longleftrightarrow> isToken name \<and> (isToken v \<or> isQuotedString v) \<and> (toLower name \<noteq> ''q'' \<or> qvalue v)"
      unfolding param_ok_def isToken_iff [symmetric] isQuotedString_iff [symmetric] using ne p uniq by (metis append_Cons append_Nil)
    then show ?thesis using Pair Some ne lower_q
      by (auto simp: valid_parameter_def Let_def EqualFold_def isWeight_iff)
  qed
qed

lemma ascii_lower_star: "ascii_lower c = CHR ''*'' \<Longrightarrow> c = CHR ''*''"
proof (rule ccontr)
  assume c: "ascii_lower c = CHR ''*''" and ne: "c \<noteq> CHR ''*''"
  then have up: "65 \<le> (of_char c :: nat)" "(of_char c :: nat) \<le> 90" and e: "char_of (of_char c + 32 :: nat) = CHR ''*''"
    by (auto simp: ascii_lower_def split: if_splits)
  have "of_char (char_of (of_char c + 32 :: nat)) = (42 :: nat)" unfolding e by simp
  then show False using up by simp
qed

lemma toLower_star: "toLower s = ''*'' \<longleftrightarrow> s = ''*''"
  by (cases s) (auto simp: toLower_def dest: ascii_lower_star, simp add: ascii_lower_def)

lemma html_check: "EqualFold ty ''text'' \<and> (sub = ''*'' \<or> EqualFold sub ''html'') \<longleftrightarrow> names_html ty sub"
proof -
  have "toLower ''text'' = ''text''" "toLower ''html'' = ''html''" by (simp_all add: toLower_def ascii_lower_def)
  then show ?thesis by (auto simp: names_html_def EqualFold_def toLower_star)
qed


lemma classify_range_iff: "classify_element x = ElRange \<longleftrightarrow> plain_range (\<lambda>_. True) x"
proof (cases "cut_byte (CHR '';'') x")
  case (Pair mr rest)
  have p1: "hd (split_on (CHR '';'') x) = mr"
    using Pair cut_then_split cut_single by (cases rest) fastforce+
  have p2: "list_all (param_ok (\<lambda>_. True)) (tl (split_on (CHR '';'') x)) \<longleftrightarrow> (case rest of None \<Rightarrow> True | Some ps \<Rightarrow> validMediaParameters ps)"
    using Pair cut_then_split cut_single
    by (cases rest) (fastforce simp: validMediaParameters_def valid_parameter_iff [abs_def])+
  have range: "(case cut_byte (CHR ''/'') m of (ty, None) \<Rightarrow> False
       | (ty, Some sub) \<Rightarrow> isToken ty \<and> isToken sub \<and> (ty \<noteq> ''*'' \<or> sub = ''*'') \<and> \<not> names_html ty sub) \<longleftrightarrow>
     (\<exists>ty sub. m = ty @ ''/'' @ sub \<and> isToken ty \<and> isToken sub \<and> (ty \<noteq> ''*'' \<or> sub = ''*'') \<and> \<not> names_html ty sub)" for m
  proof (cases "cut_byte (CHR ''/'') m")
    case (Pair ty osub)
    show ?thesis
    proof (cases osub)
      case None
      then show ?thesis using Pair cut_byte_None by fastforce
    next
      case (Some sub)
      have m: "m = ty @ ''/'' @ sub" using Pair Some cut_byte_Some by fastforce
      have "ty' = ty \<and> sub' = sub" if "m = ty' @ ''/'' @ sub'" "isToken ty'" for ty' sub'
        using that Pair Some token_free cut_byte_append [of "CHR ''/''" ty' sub'] by simp
      then show ?thesis using Pair Some m by (simp only: prod.case option.case) blast
    qed
  qed
  have ne: "trimSpace mr = ty @ ''/'' @ sub \<Longrightarrow> trimSpace mr \<noteq> ''''" for ty sub by simp
  have "classify_element x = ElRange \<longleftrightarrow> trimSpace mr \<noteq> '''' \<and> (case rest of None \<Rightarrow> True | Some ps \<Rightarrow> validMediaParameters ps) \<and>
      (case cut_byte (CHR ''/'') (trimSpace mr) of (ty, None) \<Rightarrow> False
       | (ty, Some sub) \<Rightarrow> isToken ty \<and> isToken sub \<and> (ty \<noteq> ''*'' \<or> sub = ''*'') \<and> \<not> names_html ty sub)"
    by (cases rest; cases "cut_byte (CHR ''/'') (trimSpace mr)"; cases "snd (cut_byte (CHR ''/'') (trimSpace mr))")
       (simp_all add: classify_element_def Pair Let_def html_check, blast+)
  then show ?thesis unfolding plain_range_def p1 p2 range isToken_iff [symmetric] using ne by blast
qed


lemma trimSpace_empty: "trimSpace s = '''' \<longleftrightarrow> list_all is_space s"
proof -
  have "(\<forall>x \<in> set (dropWhile is_space s). is_space x) \<longleftrightarrow> dropWhile is_space s = []"
  proof (cases "dropWhile is_space s")
    case (Cons a r)
    then have "\<not> is_space a" using hd_dropWhile [of is_space s] by simp
    then show ?thesis unfolding Cons by simp
  next
    case Nil then show ?thesis unfolding Nil by simp
  qed
  then show ?thesis by (simp add: trimSpace_def trim_with_def list_all_iff)
qed

lemma classify_blank_iff: "classify_element x = ElBlank \<longleftrightarrow> trimSpace x = ''''"
proof (cases "cut_byte (CHR '';'') x")
  case (Pair mr rest)
  show ?thesis
  proof (cases rest)
    case None
    then have "mr = x" using Pair cut_byte_None by metis
    then show ?thesis using Pair None by (auto simp: classify_element_def Let_def split: prod.splits option.splits)
  next
    case (Some ps)
    then have "CHR '';'' \<in> set x" using Pair cut_byte_Some by fastforce
    moreover have "\<not> is_space (CHR '';'')" by (simp add: is_space_def)
    ultimately have "trimSpace x \<noteq> ''''" unfolding trimSpace_empty list_all_iff by blast
    then show ?thesis using Pair Some by (auto simp: classify_element_def Let_def split: prod.splits option.splits)
  qed
qed

text \<open>
  C21 (equivalence). The Accept scan of a challenge request, with its field lines, early exits, cuts at the first separator
  and hand-written token table, quoting and weight checks, refuses exactly the requests it is documented to refuse: the destination
  is neither a subresource nor a document, the mode is not a navigation, every element of every Accept line is blank or a media
  range that does not cover HTML, and at least one such range is there. The order of lines and elements never matters. The media
  ranges are those of the RFC 9110 grammar of tokens, quoted strings and weights, an element being what lies between two commas
  and a parameter what lies between two semicolons, but with one deviation the code has: any byte may follow a backslash
  in a quoted string, a control byte too. Where no element has a control byte behind a backslash, the grammar is the RFC's own.
\<close>

theorem accept_refusal_exact:
  "(refusalKind h = outcomeAcceptRefused \<longleftrightarrow>
     \<not> isSubresourceDest (hdr_Get h hdrSecFetchDest) \<and> \<not> isDocumentDest (hdr_Get h hdrSecFetchDest) \<and>
     hdr_Get h hdrSecFetchMode \<noteq> modeNavigate \<and>
     (\<forall>x \<in> accept_elements (hdr_Values h hdrAccept). trimSpace x = '''' \<or> plain_range (\<lambda>_. True) x) \<and>
     (\<exists>x \<in> accept_elements (hdr_Values h hdrAccept). plain_range (\<lambda>_. True) x)) \<and>
   (\<forall>x. \<not> escaped_control x \<longrightarrow> (plain_range (\<lambda>_. True) x \<longleftrightarrow> plain_range escapable x))"
proof -
  have stop: "classify_element x \<noteq> ElStop \<longleftrightarrow> trimSpace x = '''' \<or> plain_range (\<lambda>_. True) x" for x
    using classify_blank_iff [of x] classify_range_iff [of x] by (cases "classify_element x") auto
  have "refusalKind h = outcomeAcceptRefused \<longleftrightarrow>
      \<not> isSubresourceDest (hdr_Get h hdrSecFetchDest) \<and> \<not> isDocumentDest (hdr_Get h hdrSecFetchDest) \<and>
      hdr_Get h hdrSecFetchMode \<noteq> modeNavigate \<and> acceptLooksNonNavigational (hdr_Values h hdrAccept)"
    by (simp add: refusalKind_def Let_def refusal_words)
  then show ?thesis unfolding accept_scan_iff stop classify_range_iff using plain_range_agree by blast
qed

theorem accept_refusal_exact_witness:
  "refusalKind [(''Accept'', [''*/*''])] = outcomeAcceptRefused \<and> plain_range escapable ''*/*''"
proof -
  have vals: "hdr_Values [(''Accept'', [''*/*''])] hdrAccept = [''*/*'']"
    unfolding hdr_Values_def canon_fixed by (simp add: hdrAccept_def)
  then have el: "accept_elements (hdr_Values [(''Accept'', [''*/*''])] hdrAccept) = {''*/*''}"
    by (simp add: accept_elements_def)
  have ref: "refusalKind [(''Accept'', [''*/*''])] = outcomeAcceptRefused"
    unfolding refusalKind_def vals hdr_Get_def hdr_Values_def canon_fixed
    by (simp add: hdrAccept_def hdrSecFetchDest_def hdrSecFetchMode_def isSubresourceDest_def isDocumentDest_def isFramedDest_def
        modeNavigate_def acceptLooksNonNavigational_def classify_element_def cut_byte_def before_byte_def trimSpace_def trim_with_def
        is_space_def isToken_def token_byte_def EqualFold_def toLower_def ascii_lower_def Let_def)
  then have "\<exists>x \<in> {''*/*''}. plain_range (\<lambda>_. True) x" using accept_refusal_exact [of "[(''Accept'', [''*/*''])]"] unfolding el by blast
  moreover have "\<not> escaped_control ''*/*''"
  proof
    assume "escaped_control ''*/*''"
    then have "CHR 0x5C \<in> set ''*/*''" unfolding escaped_control_def by (auto dest!: set_mono_sublist)
    then show False by simp
  qed
  ultimately show ?thesis using ref accept_refusal_exact [of "[(''Accept'', [''*/*''])]"] by blast
qed

text \<open>A client that lists HTML in any element of any line is challenged, whatever else its header holds.\<close>

lemma html_listed_not_refused:
  assumes "x \<in> accept_elements (hdr_Values h hdrAccept)"
    and "trimSpace (hd (split_on (CHR '';'') x)) = ty @ ''/'' @ sub" "names_html ty sub" "isToken ty"
  shows "refusalKind h \<noteq> outcomeAcceptRefused"
proof -
  have "\<not> plain_range (\<lambda>_. True) x"
  proof
    assume "plain_range (\<lambda>_. True) x"
    then obtain ty' sub' where "ty @ ''/'' @ sub = ty' @ ''/'' @ sub'" "isToken ty'" "\<not> names_html ty' sub'"
      unfolding plain_range_def assms(2) isToken_iff by blast
    moreover have "cut_byte (CHR ''/'') (t @ ''/'' @ u) = (t, Some u)" if "isToken t" for t u
      using that token_free cut_byte_append by simp
    ultimately have "(ty, Some sub) = (ty', Some sub')" using assms(4) by metis
    then show False using assms(3) \<open>\<not> names_html ty' sub'\<close> by simp
  qed
  then have "classify_element x \<noteq> ElRange" by (simp add: classify_range_iff)
  moreover have "classify_element x \<noteq> ElBlank"
  proof
    assume "classify_element x = ElBlank"
    then have sp: "list_all is_space x" by (simp add: classify_blank_iff trimSpace_empty)
    have "\<not> is_space (CHR '';'')" by (simp add: is_space_def)
    then have "split_on (CHR '';'') x = [x]" using sp unfolding list_all_iff by (intro split_on_single) blast
    then show False using assms(2) sp by (simp flip: trimSpace_empty)
  qed
  ultimately have "classify_element x = ElStop" by (cases "classify_element x") auto
  then have "\<not> acceptLooksNonNavigational (hdr_Values h hdrAccept)" unfolding accept_scan_iff using assms(1) by blast
  then show ?thesis by (simp add: refusalKind_def Let_def refusal_words)
qed

end
