(* ===== verification/Recent_Ring.thy ===== *)
theory Recent_Ring
  imports Store_Spec
begin

text \<open>
  The ring of recent decisions and outcomes (\<^verbatim>\<open>core/recent.go\<close>): a fixed buffer that overwrites its oldest row,
  with the field caps applied on the way in. The rows the engine adds (\<^verbatim>\<open>RecordSolve\<close>, \<^verbatim>\<open>RecordRedeemFailure\<close>,
  \<^verbatim>\<open>RecordNetworkHandover\<close> of \<^verbatim>\<open>core/engine.go\<close>) are built here. Strings are byte strings, so the cut mark is
  the three bytes of its UTF-8 encoding. The refinement shows that the buffer with its wrapping index
  is a bounded list of the newest rows.
\<close>

section \<open>Rows\<close>

record recent_decision =
  rd_Time :: nanos
  rd_Host :: string
  rd_IP :: string
  rd_Method :: string
  rd_URI :: string
  rd_UA :: string
  rd_Action :: string
  rd_Reason :: string
  rd_PoWExemption :: string
  rd_SolveMS :: int
  rd_RoundTripMS :: int
  rd_PoWAlgorithm :: string
  rd_Bits :: int
  rd_Argon2MemoryKiB :: "32 word"
  rd_Argon2Iterations :: "32 word"

definition zero_row :: recent_decision where
  "zero_row = \<lparr>rd_Time = 0, rd_Host = '''', rd_IP = '''', rd_Method = '''', rd_URI = '''', rd_UA = '''', rd_Action = '''',
     rd_Reason = '''', rd_PoWExemption = '''', rd_SolveMS = 0, rd_RoundTripMS = 0, rd_PoWAlgorithm = '''', rd_Bits = 0,
     rd_Argon2MemoryKiB = 0, rd_Argon2Iterations = 0\<rparr>"

definition ActionSolve :: string where "ActionSolve = ''solve''"
definition ActionRedeemFail :: string where "ActionRedeemFail = ''redeem_fail''"
definition ActionRedeemRetry :: string where "ActionRedeemRetry = ''redeem_retry''"
definition ReasonSolved :: string where "ReasonSolved = ''pow:solved''"
definition ReasonNoJS :: string where "ReasonNoJS = ''pow:nojs''"
definition ReasonNetworkHandover :: string where "ReasonNetworkHandover = ''pow:network_handover''"
definition ReasonBadSolution :: string where "ReasonBadSolution = ''pow:bad_solution''"
definition ReasonBindingMismatch :: string where "ReasonBindingMismatch = ''pow:binding_mismatch''"
definition ReasonChallengeGone :: string where "ReasonChallengeGone = ''pow:unknown_challenge''"
definition ReasonTooFast :: string where "ReasonTooFast = ''pow:too_fast''"
definition ReasonNoJSDisabled :: string where "ReasonNoJSDisabled = ''pow:nojs_disabled''"
definition ReasonRedeemInternal :: string where "ReasonRedeemInternal = ''pow:internal_error''"

lemmas redeem_reasons = ReasonBadSolution_def ReasonBindingMismatch_def ReasonChallengeGone_def ReasonTooFast_def
  ReasonNoJSDisabled_def ReasonRedeemInternal_def

definition IsOutcomeAction :: "string \<Rightarrow> bool" where
  "IsOutcomeAction a \<longleftrightarrow> a = ActionSolve \<or> a = ActionRedeemFail \<or> a = ActionRedeemRetry"

definition defaultRecentDecisionsCapacity :: nat where "defaultRecentDecisionsCapacity = 4096"
definition maxRecentURILen :: nat where "maxRecentURILen = 2048"
definition maxRecentUALen :: nat where "maxRecentUALen = 512"
definition maxRecentHostLen :: nat where "maxRecentHostLen = 253"
definition maxRecentMethodLen :: nat where "maxRecentMethodLen = 32"

definition truncateRecent :: "string \<Rightarrow> nat \<Rightarrow> string" where
  "truncateRecent s n = (if length s \<le> n then s else take n s @ [CHR 0xE2, CHR 0x80, CHR 0xA6])"

definition clampMS :: "int \<Rightarrow> int" where
  "clampMS v = (if v \<le> 0 then 0 else if 2 ^ 31 - 1 < v then 2 ^ 31 - 1 else v)"

definition clampBits :: "int \<Rightarrow> int" where
  "clampBits v = (if v \<le> 0 then 0 else if 255 < v then 255 else v)"

section \<open>The ring\<close>

record recent_ring =
  rg_buf :: "recent_decision list"
  rg_next :: nat
  rg_count :: nat
  rg_full :: bool
  rg_startedAt :: nanos

record recent_snapshot =
  sn_Decisions :: "recent_decision list"
  sn_Capacity :: nat
  sn_Full :: bool
  sn_StartedAt :: nanos

definition newRecentRing :: "nanos \<Rightarrow> int \<Rightarrow> recent_ring" where
  "newRecentRing now sz =
     \<lparr>rg_buf = replicate (if sz \<le> 0 then defaultRecentDecisionsCapacity else nat sz) zero_row,
      rg_next = 0, rg_count = 0, rg_full = False, rg_startedAt = now\<rparr>"

definition cap_row :: "recent_decision \<Rightarrow> recent_decision" where
  "cap_row d = d\<lparr>rd_URI := truncateRecent (rd_URI d) maxRecentURILen, rd_UA := truncateRecent (rd_UA d) maxRecentUALen,
     rd_Host := truncateRecent (rd_Host d) maxRecentHostLen, rd_Method := truncateRecent (rd_Method d) maxRecentMethodLen\<rparr>"

definition rg_add :: "nanos \<Rightarrow> recent_decision \<Rightarrow> recent_ring \<Rightarrow> recent_ring" where
  "rg_add now d0 r0 =
     (let d = cap_row d0;
          r1 = (if rg_buf r0 = [] then r0\<lparr>rg_buf := replicate defaultRecentDecisionsCapacity zero_row, rg_startedAt := now\<rparr> else r0);
          r2 = (if rg_count r1 = length (rg_buf r1) then r1\<lparr>rg_full := True\<rparr> else r1\<lparr>rg_count := Suc (rg_count r1)\<rparr>);
          r3 = r2\<lparr>rg_buf := (rg_buf r2)[rg_next r2 := d], rg_next := Suc (rg_next r2)\<rparr>
      in if rg_next r3 = length (rg_buf r3) then r3\<lparr>rg_next := 0\<rparr> else r3)"

definition rg_limit :: "int \<Rightarrow> recent_ring \<Rightarrow> nat" where
  "rg_limit limit r = (if limit \<le> 0 \<or> int (rg_count r) < limit then rg_count r else nat limit)"

definition rg_rows :: "int \<Rightarrow> recent_ring \<Rightarrow> recent_decision list" where
  "rg_rows limit r =
     map (\<lambda>i. rg_buf r ! ((rg_next r + length (rg_buf r) - i) mod length (rg_buf r))) [1..<Suc (rg_limit limit r)]"

definition rg_snapshot :: "int \<Rightarrow> recent_ring \<Rightarrow> recent_snapshot" where
  "rg_snapshot limit r =
     \<lparr>sn_Decisions = rg_rows limit r,
      sn_Capacity = (if length (rg_buf r) = 0 then defaultRecentDecisionsCapacity else length (rg_buf r)),
      sn_Full = rg_full r, sn_StartedAt = rg_startedAt r\<rparr>"

definition rg_list :: "int \<Rightarrow> recent_ring \<Rightarrow> recent_decision list" where
  "rg_list limit r = sn_Decisions (rg_snapshot limit r)"

section \<open>The rows of the engine\<close>

record solve_record =
  sv_Host :: string
  sv_IP :: string
  sv_URI :: string
  sv_UA :: string
  sv_SolveMS :: int
  sv_RoundTripMS :: int
  sv_Algorithm :: string
  sv_Bits :: int
  sv_MemoryKiB :: "32 word"
  sv_Iterations :: "32 word"
  sv_NoJS :: bool

definition RecordSolve :: "nanos \<Rightarrow> solve_record \<Rightarrow> recent_ring \<Rightarrow> recent_ring" where
  "RecordSolve now rec r =
     rg_add now (zero_row\<lparr>rd_Time := now, rd_Host := sv_Host rec, rd_IP := sv_IP rec, rd_URI := sv_URI rec, rd_UA := sv_UA rec,
       rd_Action := ActionSolve, rd_Reason := (if sv_NoJS rec then ReasonNoJS else ReasonSolved),
       rd_SolveMS := clampMS (sv_SolveMS rec), rd_RoundTripMS := clampMS (sv_RoundTripMS rec),
       rd_PoWAlgorithm := (if sv_Algorithm rec = '''' then ''sha256'' else sv_Algorithm rec), rd_Bits := clampBits (sv_Bits rec),
       rd_Argon2MemoryKiB := sv_MemoryKiB rec, rd_Argon2Iterations := sv_Iterations rec\<rparr>) r"

definition RecordRedeemFailure :: "nanos \<Rightarrow> string \<Rightarrow> string \<Rightarrow> string \<Rightarrow> string \<Rightarrow> recent_ring \<Rightarrow> recent_ring" where
  "RecordRedeemFailure now host ip ua reason r =
     rg_add now (zero_row\<lparr>rd_Time := now, rd_Host := host, rd_IP := ip, rd_UA := ua, rd_Action := ActionRedeemFail, rd_Reason := reason\<rparr>) r"

definition RecordNetworkHandover :: "nanos \<Rightarrow> string \<Rightarrow> string \<Rightarrow> string \<Rightarrow> string \<Rightarrow> recent_ring \<Rightarrow> recent_ring" where
  "RecordNetworkHandover now host ip uri ua r =
     rg_add now (zero_row\<lparr>rd_Time := now, rd_Host := host, rd_IP := ip, rd_URI := uri, rd_UA := ua,
       rd_Action := ActionRedeemRetry, rd_Reason := ReasonNetworkHandover\<rparr>) r"


section \<open>The contract of a bounded log\<close>

locale bounded_log =
  fixes ok :: "'r \<Rightarrow> bool" and add :: "'e \<Rightarrow> 'r \<Rightarrow> 'r" and contents :: "'r \<Rightarrow> 'd list" and cap :: "'r \<Rightarrow> nat"
    and enter :: "'e \<Rightarrow> 'd"
  assumes ok_add: "ok r \<Longrightarrow> ok (add d r)"
    and contents_add: "ok r \<Longrightarrow> contents (add d r) = take (cap r) (enter d # contents r)"
    and cap_add: "ok r \<Longrightarrow> cap (add d r) = cap r"
begin

lemma ok_adds: "ok r \<Longrightarrow> ok (foldl (\<lambda>s d. add d s) r ds) \<and> cap (foldl (\<lambda>s d. add d s) r ds) = cap r"
  by (induction ds rule: rev_induct) (auto simp: ok_add cap_add)

lemma contents_adds:
  assumes "ok r"
  shows "contents (foldl (\<lambda>s d. add d s) r ds) = take (if ds = [] then length (contents r) else cap r) (rev (map enter ds) @ contents r)"
proof (induction ds rule: rev_induct)
  case (snoc d ds)
  then show ?case using ok_adds [OF assms, of ds] by (auto simp: contents_add take_Cons' min_def)
qed simp

end

section \<open>The ring is a bounded log\<close>

text \<open>The well-formedness of a ring: the write index stands behind the newest row, and it is the fill level until the first wrap.\<close>

definition ring_ok :: "recent_ring \<Rightarrow> bool" where
  "ring_ok r \<longleftrightarrow> rg_buf r \<noteq> [] \<and> rg_next r < length (rg_buf r) \<and> rg_count r \<le> length (rg_buf r) \<and>
     (rg_count r < length (rg_buf r) \<longrightarrow> rg_next r = rg_count r \<and> \<not> rg_full r)"

definition rg_contents :: "recent_ring \<Rightarrow> recent_decision list" where
  "rg_contents r = rg_rows 0 r"

lemma ring_ok_new: "ring_ok (newRecentRing now sz)"
  by (simp add: ring_ok_def newRecentRing_def defaultRecentDecisionsCapacity_def)

lemma ring_ok_add: "ring_ok r \<Longrightarrow> ring_ok (rg_add now d r)"
  by (auto simp: ring_ok_def rg_add_def Let_def)

lemma length_buf_add: "ring_ok r \<Longrightarrow> length (rg_buf (rg_add now d r)) = length (rg_buf r)"
  by (auto simp: ring_ok_def rg_add_def Let_def)

lemma rg_contents_eq:
  "rg_contents r = map (\<lambda>i. rg_buf r ! ((rg_next r + length (rg_buf r) - Suc i) mod length (rg_buf r))) [0..<rg_count r]"
  by (simp add: rg_contents_def rg_rows_def rg_limit_def map_Suc_upt [symmetric] comp_def del: upt_Suc)

text \<open>Index arithmetic of the wrapped buffer: \<open>i\<close> rows behind the write index.\<close>

lemma back_index:
  assumes "(p :: nat) < n" "i \<le> n"
  shows "(p + n - i) mod n = (if i \<le> p then p - i else p + n - i)"
proof (cases "i \<le> p")
  case True
  then have "(p + n - i) mod n = (n + (p - i)) mod n" by (simp add: add.commute)
  also have "\<dots> = p - i" using assms(1) by (simp only: mod_add_self1) simp
  finally show ?thesis using True by simp
next
  case False
  then show ?thesis using assms by simp
qed

definition wrap_next :: "nat \<Rightarrow> nat \<Rightarrow> nat" where
  "wrap_next n p = (if Suc p = n then 0 else Suc p)"

lemma back_newest: "p < n \<Longrightarrow> (wrap_next n p + n - Suc 0) mod n = p"
  by (cases "Suc p = n") (simp_all add: wrap_next_def back_index)

lemma back_older:
  "p < n \<Longrightarrow> Suc i < n \<Longrightarrow> (wrap_next n p + n - Suc (Suc i)) mod n = (p + n - Suc i) mod n \<and> (p + n - Suc i) mod n \<noteq> p"
  by (cases "Suc p = n") (auto simp: wrap_next_def back_index)

lemma rg_add_fields:
  assumes "ring_ok r"
  shows "rg_buf (rg_add now d r) = (rg_buf r)[rg_next r := cap_row d]"
    and "rg_next (rg_add now d r) = wrap_next (length (rg_buf r)) (rg_next r)"
    and "rg_count (rg_add now d r) = min (Suc (rg_count r)) (length (rg_buf r))"
    and "rg_full (rg_add now d r) \<longleftrightarrow> rg_full r \<or> rg_count r = length (rg_buf r)"
    and "rg_startedAt (rg_add now d r) = rg_startedAt r"
  using assms by (auto simp: ring_ok_def rg_add_def Let_def wrap_next_def)

lemma rg_contents_add:
  assumes ok: "ring_ok r"
  shows "rg_contents (rg_add now d r) = take (length (rg_buf r)) (cap_row d # rg_contents r)"
proof (rule nth_equalityI)
  define n where "n = length (rg_buf r)"
  have n: "rg_next r < n" "rg_count r \<le> n" using ok by (auto simp: ring_ok_def n_def)
  show "length (rg_contents (rg_add now d r)) = length (take (length (rg_buf r)) (cap_row d # rg_contents r))"
    by (simp add: rg_contents_eq rg_add_fields [OF ok])
  fix i assume "i < length (rg_contents (rg_add now d r))"
  then have i: "i < min (Suc (rg_count r)) n" by (simp add: rg_contents_eq rg_add_fields [OF ok] n_def)
  then have l: "rg_contents (rg_add now d r) ! i = (rg_buf r)[rg_next r := cap_row d] ! ((wrap_next n (rg_next r) + n - Suc i) mod n)"
    by (simp add: rg_contents_eq rg_add_fields [OF ok] n_def)
  show "rg_contents (rg_add now d r) ! i = take (length (rg_buf r)) (cap_row d # rg_contents r) ! i"
  proof (cases i)
    case 0 then show ?thesis using n i l by (simp add: back_newest n_def)
  next
    case (Suc j) then show ?thesis using n i l back_older [of "rg_next r" n j] by (simp add: rg_contents_eq n_def)
  qed
qed

interpretation ring: bounded_log ring_ok "\<lambda>td. rg_add (fst td) (snd td)" rg_contents "\<lambda>r. length (rg_buf r)" "\<lambda>td. cap_row (snd td)"
  by unfold_locales (simp_all add: ring_ok_add rg_contents_add length_buf_add)


abbreviation rows_added :: "(nanos \<times> recent_decision) list \<Rightarrow> recent_ring \<Rightarrow> recent_ring" where
  "rows_added tds r \<equiv> foldl (\<lambda>s td. rg_add (fst td) (snd td) s) r tds"

lemma length_contents: "length (rg_contents r) = rg_count r"
  by (simp add: rg_contents_eq)

lemma rows_take: "rg_rows limit r = take (rg_limit limit r) (rg_contents r)"
  by (auto simp: rg_contents_def rg_rows_def rg_limit_def take_map simp del: upt_Suc)

definition ring_capacity :: "int \<Rightarrow> nat" where
  "ring_capacity sz = (if sz \<le> 0 then defaultRecentDecisionsCapacity else nat sz)"

lemma ring_history:
  fixes tds t0 sz
  defines "r \<equiv> rows_added tds (newRecentRing t0 sz)"
  shows "ring_ok r" "length (rg_buf r) = ring_capacity sz"
    "rg_contents r = take (ring_capacity sz) (rev (map (\<lambda>td. cap_row (snd td)) tds))"
    "rg_full r \<longleftrightarrow> ring_capacity sz < length tds" "rg_startedAt r = t0"
proof -
  have n: "length (rg_buf (newRecentRing t0 sz)) = ring_capacity sz" "rg_contents (newRecentRing t0 sz) = []"
    by (simp_all add: newRecentRing_def ring_capacity_def rg_contents_eq)
  have base: "ring_ok (rows_added xs (newRecentRing t0 sz)) \<and>
      length (rg_buf (rows_added xs (newRecentRing t0 sz))) = ring_capacity sz" for xs
    using ring.ok_adds [OF ring_ok_new, of t0 sz xs] n by simp
  have cont: "rg_contents (rows_added xs (newRecentRing t0 sz)) = take (ring_capacity sz) (rev (map (\<lambda>td. cap_row (snd td)) xs))" for xs
    using ring.contents_adds [OF ring_ok_new, of t0 sz xs] n by (auto split: if_splits)
  show "ring_ok r" "length (rg_buf r) = ring_capacity sz"
    "rg_contents r = take (ring_capacity sz) (rev (map (\<lambda>td. cap_row (snd td)) tds))"
    using base cont by (auto simp: r_def)
  have "rg_full r = (ring_capacity sz < length tds) \<and> rg_startedAt r = t0" unfolding r_def
  proof (induction tds rule: rev_induct)
    case Nil then show ?case by (simp add: newRecentRing_def)
  next
    case (snoc td xs)
    have "rg_count (rows_added xs (newRecentRing t0 sz)) = min (length xs) (ring_capacity sz)"
      using cont [of xs] length_contents [of "rows_added xs (newRecentRing t0 sz)"] by (simp add: min.commute)
    then show ?case using snoc base [of xs] by (auto simp: rg_add_fields)
  qed
  then show "rg_full r \<longleftrightarrow> ring_capacity sz < length tds" "rg_startedAt r = t0" by simp_all
qed

text \<open>
  C36 (refinement). The live ring of recent decisions, a fixed buffer with a wrapping write index, implements a bounded log:
  after any sequence of rows a snapshot lists, newest first and with the field caps applied, the last rows up to the
  capacity and the asked limit; it reports itself full exactly when a row has been lost, and
  keeps the time it began observing.
\<close>

theorem recent_ring_refines_log:
  "rg_snapshot limit (rows_added tds (newRecentRing t0 sz)) =
     \<lparr>sn_Decisions = take (if limit \<le> 0 then ring_capacity sz else min (ring_capacity sz) (nat limit)) (rev (map (\<lambda>td. cap_row (snd td)) tds)),
      sn_Capacity = ring_capacity sz, sn_Full = (ring_capacity sz < length tds), sn_StartedAt = t0\<rparr>"
proof -
  define r where "r = rows_added tds (newRecentRing t0 sz)"
  note h = ring_history [of t0 sz tds, folded r_def]
  have pos: "0 < ring_capacity sz" by (simp add: ring_capacity_def defaultRecentDecisionsCapacity_def)
  have "rg_count r = min (length tds) (ring_capacity sz)" using length_contents [of r] h(3) by (simp add: min.commute)
  then have "rg_rows limit r = take (if limit \<le> 0 then ring_capacity sz else min (ring_capacity sz) (nat limit))
      (rev (map (\<lambda>td. cap_row (snd td)) tds))"
    unfolding rows_take h(3) rg_limit_def by (auto simp: min_def take_all_iff)
  then show ?thesis using h pos unfolding r_def [symmetric] by (simp add: rg_snapshot_def)
qed

text \<open>Whatever a client sends, a row of the ring stays within its caps and a solve time within 32 bits.\<close>

lemma row_bounded:
  assumes "d \<in> set (rg_list limit (rows_added tds (newRecentRing t0 sz)))"
  shows "length (rd_URI d) \<le> 2051 \<and> length (rd_UA d) \<le> 515 \<and> length (rd_Host d) \<le> 256 \<and> length (rd_Method d) \<le> 35"
proof -
  have "rg_list limit (rows_added tds (newRecentRing t0 sz)) =
      take (rg_limit limit (rows_added tds (newRecentRing t0 sz))) (take (ring_capacity sz) (rev (map (\<lambda>td. cap_row (snd td)) tds)))"
    by (simp add: rg_list_def rg_snapshot_def rows_take ring_history(3))
  then have "d \<in> (\<lambda>td. cap_row (snd td)) ` set tds" using assms by (auto dest!: in_set_takeD)
  then show ?thesis
    by (auto simp: cap_row_def truncateRecent_def maxRecentURILen_def maxRecentUALen_def maxRecentHostLen_def maxRecentMethodLen_def)
qed

end
