(* ===== verification/Http_Server.thy ===== *)
theory Http_Server
  imports Pipeline Pow_Stateless Http_Refusal Recent_Ring
begin

text \<open>
  The auth-path transport (\<^verbatim>\<open>transport/http/server.go\<close>): the admission gate, the auth subrequest, the challenge page, both
  pass endpoints, the rate limits and the redirect that ends a redemption. The handlers call the engine
  (\<open>Pipeline\<close>), the challenge and token manager (\<open>Pow_Challenge\<close>, \<open>Pow_Stateless\<close>), the server's own counter cache
  (\<open>Counter_Cache\<close>) and the ring of recent rows (\<open>Recent_Ring\<close>).

  A handler takes the environment of one request (clock, configuration snapshot, random bytes), the request and
  the server state and returns the response and the new state. It reads the configuration once; the code's
  two hops of one client request are two calls, with configurations of their own. Parameters: the media type
  parser, the JSON decoder of the solve body and what \<open>Pipeline\<close> takes. Logs and metrics are left out, as are the
  bodies of the two static pages; page rendering is the value handed to the renderer.
\<close>

section \<open>Requests and responses\<close>

record http_request =
  hq_Host :: string
  hq_Method :: string
  hq_RequestURI :: string
  hq_RemoteAddr :: string
  hq_Header :: http_header
  hq_Query :: "(string, string) gomap"
  hq_Body :: bytes

datatype json_value = JBool bool | JString string

record challenge_payload =
  cp_ChallengeID :: string
  cp_Challenge :: string
  cp_Algorithm :: string
  cp_Difficulty :: int
  cp_MemoryKiB :: "32 word"
  cp_Iterations :: "32 word"
  cp_Salt :: string
  cp_PassURL :: string
  cp_WorkerURL :: string
  cp_WASMURL :: string
  cp_NoScriptFallback :: bool
  cp_NoScriptURL :: string
  cp_NoScriptWaitSeconds :: int

datatype body =
    NoBody
  | TextBody string
  | JsonBody "(string \<times> json_value) list"
  | ChallengePage challenge_payload bool string
  | DeniedPage

record cookie =
  ck_Name :: string
  ck_Value :: string
  ck_Path :: string
  ck_MaxAge :: int
  ck_HttpOnly :: bool
  ck_Secure :: bool
  ck_SameSiteLax :: bool

record http_response =
  rs_Status :: nat
  rs_Header :: http_header
  rs_Cookie :: "cookie option"
  rs_Body :: body

record live_config =
  lv_snap :: "config option"
  lv_last :: config
  lv_RequireProxied :: bool
  lv_MaxInflight :: int
  lv_MaxConcurrent :: int
  lv_VerificationRateLimit :: rate

record solve_body =
  sb_ChallengeID :: string
  sb_Nonce :: string
  sb_Proof :: string
  sb_ElapsedMS :: int

record ('s, 'k, 'x) server_env =
  sv_stage :: "('s, 'k, 'x) stage_env"
  sv_live :: live_config
  sv_hash :: row_hash
  sv_uid :: string
  sv_salt :: bytes
  sv_random :: bytes
  sv_mediaType :: "string \<Rightarrow> string option"
  sv_unmarshal :: "bytes \<Rightarrow> solve_body option"

record ('s, 'k) server_state =
  ss_pipe :: "('s, 'k) pipe_state"
  ss_counters :: counter_cache
  ss_ring :: recent_ring
  ss_inflight :: int
  ss_argonInflight :: int

abbreviation sv_now :: "('s, 'k, 'x) server_env \<Rightarrow> nanos" where "sv_now env \<equiv> se_now (sv_stage env)"

definition engine_Config :: "live_config \<Rightarrow> config" where
  "engine_Config lv = (case lv_snap lv of Some c \<Rightarrow> c | None \<Rightarrow> lv_last lv)"

definition hdrHost :: string where "hdrHost = ''X-Guardian-Host''"
definition hdrMethod :: string where "hdrMethod = ''X-Guardian-Method''"
definition hdrURI :: string where "hdrURI = ''X-Guardian-Uri''"
definition hdrIP :: string where "hdrIP = ''X-Guardian-Ip''"
definition hdrUA :: string where "hdrUA = ''X-Guardian-Ua''"
definition hdrCookie :: string where "hdrCookie = ''X-Guardian-Cookie''"
definition hdrProto :: string where "hdrProto = ''X-Guardian-Proto''"
definition hdrDifficulty :: string where "hdrDifficulty = ''X-Guardian-Difficulty''"
definition PassPath :: string where "PassPath = ''/__guardian/pass''"
definition argonWorkerURL :: string where "argonWorkerURL = ''/__guardian/assets/argon2id-worker-db57362e2dddfb66.js''"
definition argonWASMURL :: string where "argonWASMURL = ''/__guardian/assets/argon2id-4507b469b9b103a5.wasm''"

definition respond :: "nat \<Rightarrow> http_header \<Rightarrow> body \<Rightarrow> http_response" where
  "respond status h b = \<lparr>rs_Status = status, rs_Header = h, rs_Cookie = None, rs_Body = b\<rparr>"

text \<open>\<^verbatim>\<open>http.Error\<close> and \<^verbatim>\<open>writeJSON\<close>.\<close>

definition http_Error :: "string \<Rightarrow> nat \<Rightarrow> http_header \<Rightarrow> http_response" where
  "http_Error msg status h =
     respond status (hdr_Set ''X-Content-Type-Options'' ''nosniff'' (hdr_Set ''Content-Type'' ''text/plain; charset=utf-8''
       (mdel ''Content-Length'' h))) (TextBody (msg @ [CHR 0x0A]))"

definition writeJSON :: "nat \<Rightarrow> (string \<times> json_value) list \<Rightarrow> http_header \<Rightarrow> http_response" where
  "writeJSON status v h =
     respond status (securityHeaders '''' '''' (hdr_Set ''Cache-Control'' ''no-store'' (hdr_Set ''Content-Type'' ''application/json'' h))) (JsonBody v)"

section \<open>What a handler reads of a request\<close>

definition headerOr :: "http_request \<Rightarrow> string \<Rightarrow> string \<Rightarrow> string" where
  "headerOr q name fallback = (let v = hdr_Get (hq_Header q) name in if v \<noteq> '''' then v else fallback)"

definition stripPort :: "string \<Rightarrow> string" where
  "stripPort a = (case splitHost a of Some host \<Rightarrow> host | None \<Rightarrow> a)"

definition clientIP :: "http_request \<Rightarrow> string" where
  "clientIP q = (let v = hdr_Get (hq_Header q) hdrIP in if v \<noteq> '''' then v else stripPort (hq_RemoteAddr q))"

definition proxiedOnly ::
  "(('s, 'k, 'x) server_env \<Rightarrow> http_request \<Rightarrow> ('s, 'k) server_state \<Rightarrow> http_response \<times> ('s, 'k) server_state) \<Rightarrow>
     ('s, 'k, 'x) server_env \<Rightarrow> http_request \<Rightarrow> ('s, 'k) server_state \<Rightarrow> http_response \<times> ('s, 'k) server_state" where
  "proxiedOnly h env q st =
     (if lv_RequireProxied (sv_live env) \<and> hdr_Get (hq_Header q) hdrIP = ''''
      then (http_Error ''direct access rejected: proxied requests required'' 403 [], st)
      else h env q st)"

definition fillRequestContext :: "http_request \<Rightarrow> request_context" where
  "fillRequestContext q =
     (let host = headerOr q hdrHost (hq_Host q);
          uri0 = hdr_Get (hq_Header q) hdrURI;
          uri = (if uri0 = '''' then hq_RequestURI q else uri0);
          ip0 = hdr_Get (hq_Header q) hdrIP;
          ip = (if ip0 = '''' then stripPort (hq_RemoteAddr q) else ip0)
      in \<lparr>ctx_Host = host, ctx_Method = headerOr q hdrMethod (hq_Method q), ctx_URI = uri, ctx_RemoteAddr = ip,
          ctx_UserAgent = headerOr q hdrUA (hdr_Get (hq_Header q) ''User-Agent''),
          ctx_Cookie = headerOr q hdrCookie (hdr_Get (hq_Header q) ''Cookie''),
          ctx_Header = Some (\<lambda>name. if EqualFold name ''host'' then [host] else hdr_Values (hq_Header q) name),
          ctx_Unchallengeable = (refusalKind (hq_Header q) \<noteq> '''')\<rparr>)"

section \<open>The auth subrequest\<close>

fun action_string :: "action \<Rightarrow> string" where
  "action_string ActionAllow = ''allow''"
| "action_string ActionChallenge = ''challenge''"
| "action_string ActionDeny = ''deny''"
| "action_string ActionRefuse = ''refuse''"

text \<open>The last step of \<^verbatim>\<open>Evaluate\<close>: every verdict but an allow becomes a row of the ring.\<close>

definition record_decision :: "nanos \<Rightarrow> request_context \<Rightarrow> decision \<Rightarrow> recent_ring \<Rightarrow> recent_ring" where
  "record_decision now req d r =
     (if dc_Action d = ActionAllow then r
      else rg_add now (zero_row\<lparr>rd_Time := now, rd_Host := ctx_Host req, rd_IP := ctx_RemoteAddr req, rd_Method := ctx_Method req,
             rd_URI := ctx_URI req, rd_UA := ctx_UserAgent req, rd_Action := action_string (dc_Action d), rd_Reason := dc_Reason d,
             rd_PoWExemption := dc_PoWExemption d\<rparr>) r)"

definition shed_response :: "shed_verdict \<times> string \<Rightarrow> http_response" where
  "shed_response v =
     (let h = hdr_Set ''X-Guardian-Reason'' (snd v) []
      in case fst v of
           ShedPass \<Rightarrow> respond 200 (hdr_Set ''X-Guardian-Action'' ''allow'' h) NoBody
         | ShedDeny \<Rightarrow> respond 403 (hdr_Set ''X-Guardian-Action'' ''deny'' h) NoBody
         | ShedReject \<Rightarrow> respond 403 (hdr_Set ''X-Guardian-Action'' ''shed'' h) NoBody)"

definition decision_response :: "http_header \<Rightarrow> decision \<Rightarrow> http_response" where
  "decision_response reqh d =
     (let h = hdr_Set ''X-Guardian-Reason'' (dc_Reason d) (hdr_Set ''X-Guardian-Action'' (action_string (dc_Action d)) []);
          h = (if dc_PoWExemption d \<noteq> '''' then hdr_Set ''X-Guardian-PoW-Exemption'' (dc_PoWExemption d) h else h)
      in case dc_Action d of
           ActionAllow \<Rightarrow> respond 200 h NoBody
         | ActionChallenge \<Rightarrow> respond 401 (hdr_Set hdrRefusal refusalNone (hdr_Set hdrDifficulty (format_int (dc_Difficulty d)) h)) NoBody
         | ActionRefuse \<Rightarrow> respond 401 (hdr_Set hdrRefusal (refusalKind reqh) h) NoBody
         | ActionDeny \<Rightarrow> respond 403 h NoBody)"

definition over_bound :: "int \<Rightarrow> int \<Rightarrow> bool" where
  "over_bound bound current \<longleftrightarrow> 0 < bound \<and> bound < current"

definition handleAuth ::
  "('s, 'k, 'x) server_env \<Rightarrow> http_request \<Rightarrow> ('s, 'k) server_state \<Rightarrow> http_response \<times> ('s, 'k) server_state" where
  "handleAuth env q st =
     (let req = fillRequestContext q; current = ss_inflight st + 1; bound = lv_MaxInflight (sv_live env)
      in if over_bound bound current then
           (case ShedDecisionWithReason (lv_snap (sv_live env)) (sv_stage env) req (ss_pipe st) of
              (v, pipe) \<Rightarrow> (shed_response v, st\<lparr>ss_pipe := pipe\<rparr>))
         else case eng_Evaluate (lv_snap (sv_live env)) (sv_stage env) req (ss_pipe st) of
                (d, pipe) \<Rightarrow>
                  (decision_response (hq_Header q) d,
                   st\<lparr>ss_pipe := pipe, ss_ring := record_decision (sv_now env) req d (ss_ring st)\<rparr>))"

section \<open>Rate limits\<close>

text \<open>The remainder of Go takes the sign of the dividend.\<close>

definition go_rem :: "int \<Rightarrow> int \<Rightarrow> int" where
  "go_rem a b = a - b * go_div a b"

definition rate_window :: "rate \<Rightarrow> nanos" where
  "rate_window limit = max (rt_Per limit) second"

definition unix_seconds :: "nanos \<Rightarrow> int" where "unix_seconds now = now div second"

definition rate_key :: "string \<Rightarrow> string \<Rightarrow> string \<Rightarrow> rate \<Rightarrow> nanos \<Rightarrow> string" where
  "rate_key pre host ip limit now =
     pre @ '':'' @ toLower host @ '':'' @ ip @ '':'' @ format_int (go_div (unix_seconds now) (go_div (rate_window limit) second))"

text \<open>
  A count that must reach the store may start a drain goroutine: the cache returned here records it, and the goroutine's
  writes are steps after the handler (\<open>Counter_Drain\<close>), as for the escalation counters of \<open>Pow_Challenge\<close>.
\<close>

definition rateLimitExceededAt ::
  "row_hash \<Rightarrow> string \<Rightarrow> string \<Rightarrow> string \<Rightarrow> rate \<Rightarrow> nanos \<Rightarrow> counter_cache \<Rightarrow> bool \<times> counter_cache" where
  "rateLimitExceededAt h pre host ip limit now c =
     (let (n, spawn, c') = cc_Incr h now (rate_key pre host ip limit now) (2 * rate_window limit) c in (rt_Count limit < n, c'))"

definition redemptionRateLimitExceededAt ::
  "row_hash \<Rightarrow> string \<Rightarrow> string \<Rightarrow> string \<Rightarrow> 32 word \<Rightarrow> rate \<Rightarrow> nanos \<Rightarrow> counter_cache \<Rightarrow> nanos option \<times> counter_cache" where
  "redemptionRateLimitExceededAt h pre host ip asn limit now c =
     (let (ipExceeded, c1) = rateLimitExceededAt h (pre @ '':ip'') host ip limit now c;
          (asnExceeded, c2) = (if asn \<noteq> 0 then rateLimitExceededAt h (pre @ '':asn'') host (format_int (uint asn)) limit now c1
                               else (False, c1))
      in if \<not> ipExceeded \<and> \<not> asnExceeded then (None, c2)
         else let windowSeconds = go_div (rate_window limit) second
              in (Some ((windowSeconds - go_rem (unix_seconds now) windowSeconds) * second), c2))"

definition retryAfterSeconds :: "nanos \<Rightarrow> int" where
  "retryAfterSeconds d = max 1 (go_div (d + second - 1) second)"

section \<open>The challenge page\<close>

definition EventChallengeFarm :: string where "EventChallengeFarm = ''challenge_farm''"
definition EventPoWFail :: string where "EventPoWFail = ''pow_fail''"
definition EventTamper :: string where "EventTamper = ''tamper''"

definition refuseChallenge :: "string \<Rightarrow> http_response" where
  "refuseChallenge msg = http_Error msg 403 (securityHeaders '''' '''' (mput ''Cache-Control'' [''no-store''] []))"

definition msgSubresource :: string where
  "msgSubresource = ''proof-of-work challenge requires a same-origin document request''"

definition msgAccept :: string where
  "msgAccept = ''proof-of-work challenge requires a document navigation: Accept must list text/html or text/*''"

definition challenge_refusal :: "domain_config \<Rightarrow> http_header \<Rightarrow> string" where
  "challenge_refusal dc h =
     (let (kind, relayed) = relayedRefusal h
      in if \<not> relayed \<and> RefusesUnchallengeable (dm_PoW dc) then refusalKind h else kind)"

text \<open>The difficulty window of the posture, and the relayed difficulty clamped into it.\<close>

definition challenge_window :: "posture \<Rightarrow> pow_config \<Rightarrow> int \<times> int" where
  "challenge_window attack p = EffectiveBits (Some attack) (BaseBits p) (MaxBits p) (posture_Cap (Some attack) (MaxBits p))"

definition relayed_difficulty :: "http_header \<Rightarrow> int \<Rightarrow> int \<Rightarrow> int" where
  "relayed_difficulty h base maxBits =
     (let v = hdr_Get h hdrDifficulty
      in if v = '''' then base else case parse_int64 v of None \<Rightarrow> base | Some n \<Rightarrow> min (max n base) maxBits)"

text \<open>Escalation: the difficulty, and the farm report when abandonment alone has reached the ceiling.\<close>

definition escalate_challenge ::
  "('s, 'k, 'x) server_env \<Rightarrow> http_header \<Rightarrow> string \<Rightarrow> string \<Rightarrow> pow_config \<Rightarrow> int \<Rightarrow> int \<Rightarrow> int \<Rightarrow> 'k pow_manager \<Rightarrow>
     ('s, 'k) pipe_state \<Rightarrow> int \<times> ('s, 'k) pipe_state" where
  "escalate_challenge env h host ip p base maxBits difficulty m pipe =
     (if unscorableFrame (hdr_Get h hdrSecFetchDest) (hdr_Get h hdrSecFetchSite) then
        (case BumpFrameEscalation (sv_hash env) (sv_now env) host ip (pw_ChallengeTTL p) m of
           (extra, m') \<Rightarrow> (if 0 < extra then min (difficulty + extra) maxBits else difficulty, pipe\<lparr>pl_pow := Some m'\<rparr>))
      else
        (case BumpEscalation (sv_hash env) (sv_now env) host ip (pw_ChallengeTTL p) m of
           (extra, m') \<Rightarrow>
             (let pipe1 = pipe\<lparr>pl_pow := Some m'\<rparr>
              in if 0 < extra
                 then (min (difficulty + extra) maxBits,
                       if maxBits \<le> base + extra
                       then ReportEvent (lv_snap (sv_live env)) (sv_stage env) host ip EventChallengeFarm (''extra_bits='' @ format_int extra) pipe1
                       else pipe1)
                 else (difficulty, pipe1))))"

definition challenge_spec :: "posture \<Rightarrow> pow_config \<Rightarrow> int \<Rightarrow> int \<Rightarrow> proof_spec" where
  "challenge_spec attack p base difficulty =
     (if UsesArgon2ID p then
        (let a = pw_Argon2ID p;
             i0 = a2_BaseIterations a;
             i1 = (if base < difficulty \<or> ps_Level attack = Elevated then a2_MaxIterations a else i0);
             i2 = (if ps_Level attack = Attack then a2_AttackIterationsCap a else i1)
         in \<lparr>ps_Algorithm = AlgorithmArgon2ID, ps_Difficulty = 0, ps_MemoryKiB = a2_MemoryKiB a, ps_Iterations = i2, ps_Salt = zero_salt\<rparr>)
      else \<lparr>ps_Algorithm = AlgorithmSHA256, ps_Difficulty = difficulty, ps_MemoryKiB = 0, ps_Iterations = 0, ps_Salt = zero_salt\<rparr>)"

text \<open>Issuance: store-free under attack, else with a record and the store-free format as the fallback.\<close>

definition issue_stateless ::
  "('s, 'k, 'x) server_env \<Rightarrow> string \<Rightarrow> string \<Rightarrow> string \<Rightarrow> proof_spec \<Rightarrow> bool \<Rightarrow> 'k pow_manager \<Rightarrow> ('s, 'k) pipe_state \<Rightarrow>
     (pow_error + challenge) \<times> ('s, 'k) pipe_state" where
  "issue_stateless env host ip uri spec nojs m pipe =
     (case IssueStatelessWithSpec (se_powenv (sv_stage env)) (se_disk (sv_stage env)) (sv_now env) (sv_random env) (sv_salt env)
             host ip uri spec nojs m of
        (r, m') \<Rightarrow> (r, pipe\<lparr>pl_pow := Some m'\<rparr>))"

definition issue_challenge ::
  "('s, 'k, 'x) server_env \<Rightarrow> posture \<Rightarrow> string \<Rightarrow> string \<Rightarrow> string \<Rightarrow> proof_spec \<Rightarrow> pow_config \<Rightarrow> ('s, 'k) pipe_state \<Rightarrow>
     (pow_error + challenge) \<times> ('s, 'k) pipe_state" where
  "issue_challenge env attack host ip uri spec p pipe =
     (case pl_pow pipe of
        None \<Rightarrow> (Inl PeMarshal, pipe)
      | Some m \<Rightarrow>
          (if ps_Stateless attack then issue_stateless env host ip uri spec (pw_NoScriptFallback p) m pipe
           else case IssueWithSpec (se_powenv (sv_stage env)) (se_ops (sv_stage env)) (sv_now env) (sv_uid env) (sv_salt env)
                       host ip uri spec (pw_ChallengeTTL p) (pw_NoScriptFallback p) m (pl_store pipe) of
                  (Inr ch, s) \<Rightarrow> (Inr ch, pipe\<lparr>pl_store := s\<rparr>)
                | (Inl _, s) \<Rightarrow> issue_stateless env host ip uri spec (pw_NoScriptFallback p) m (pipe\<lparr>pl_store := s\<rparr>)))"

definition challenge_page :: "pow_config \<Rightarrow> nanos \<Rightarrow> challenge \<Rightarrow> body" where
  "challenge_page p minDelay ch =
     (let argon = (ch_Algorithm ch = AlgorithmArgon2ID); nojs = pw_NoScriptFallback p
      in ChallengePage
           \<lparr>cp_ChallengeID = ch_ID ch, cp_Challenge = ch_Challenge ch, cp_Algorithm = ch_Algorithm ch, cp_Difficulty = ch_Difficulty ch,
            cp_MemoryKiB = ch_MemoryKiB ch, cp_Iterations = ch_Iterations ch, cp_Salt = ch_Salt ch, cp_PassURL = PassPath,
            cp_WorkerURL = (if argon then argonWorkerURL else ''''), cp_WASMURL = (if argon then argonWASMURL else ''''),
            cp_NoScriptFallback = nojs, cp_NoScriptURL = (if nojs then PassPath @ ''?cid='' @ ch_ID ch @ ''&nojs=1'' else ''''),
            cp_NoScriptWaitSeconds = (if nojs then go_div minDelay second else 0)\<rparr>
           nojs (if nojs then format_int (go_div minDelay second + 1) else ''''))"

definition page_headers :: http_header where
  "page_headers = securityHeaders cspChallenge frameSameOrigin
     (mput ''Cache-Control'' [''no-store''] (mput ''Content-Type'' [''text/html; charset=utf-8''] []))"

definition serve_challenge ::
  "('s, 'k, 'x) server_env \<Rightarrow> http_header \<Rightarrow> string \<Rightarrow> string \<Rightarrow> string \<Rightarrow> pow_config \<Rightarrow> 'k pow_manager \<Rightarrow> ('s, 'k) pipe_state \<Rightarrow>
     http_response \<times> ('s, 'k) pipe_state" where
  "serve_challenge env h host ip uri p m pipe =
     (let attack = current_posture pipe;
          (base, maxBits) = challenge_window attack p;
          (difficulty, pipe1) = escalate_challenge env h host ip p base maxBits (relayed_difficulty h base maxBits) m pipe
      in case issue_challenge env attack host ip uri (challenge_spec attack p base difficulty) p pipe1 of
           (Inl _, pipe2) \<Rightarrow> (http_Error ''challenge unavailable'' 503 page_headers, pipe2)
         | (Inr ch, pipe2) \<Rightarrow>
             (respond 200 page_headers (challenge_page p (pm_NoJSMinDelay m) ch),
              pipe2\<lparr>pl_attack := map_option am_ChallengeIssued (pl_attack pipe2)\<rparr>))"

definition handleChallenge ::
  "('s, 'k, 'x) server_env \<Rightarrow> http_request \<Rightarrow> ('s, 'k) server_state \<Rightarrow> http_response \<times> ('s, 'k) server_state" where
  "handleChallenge env q st =
     (let h = hq_Header q; host = headerOr q hdrHost (hq_Host q); ip = clientIP q; uri = headerOr q hdrURI ''/'';
          dc = ConfigFor (engine_Config (sv_live env)) host uri; p = dm_PoW dc; kind = challenge_refusal dc h
      in if kind = outcomeSubresourceRefused then (refuseChallenge msgSubresource, st)
         else if kind = outcomeAcceptRefused then (refuseChallenge msgAccept, st)
         else case pl_pow (ss_pipe st) of
                None \<Rightarrow> (http_Error ''challenge unavailable'' 503 page_headers, st)
              | Some m \<Rightarrow>
                  (if \<not> pw_Enabled p then (http_Error ''challenge unavailable'' 503 page_headers, st)
                   else case rateLimitExceededAt (sv_hash env) ''chrl'' host ip (pw_IssuanceRateLimit p) (sv_now env) (ss_counters st) of
                          (True, c) \<Rightarrow> (http_Error ''too many challenge requests, slow down'' 429 page_headers, st\<lparr>ss_counters := c\<rparr>)
                        | (False, c) \<Rightarrow>
                            (case serve_challenge env h host ip uri p m (ss_pipe st) of
                               (r, pipe) \<Rightarrow> (r, st\<lparr>ss_counters := c, ss_pipe := pipe\<rparr>))))"

section \<open>The redirect\<close>

definition safeRedirect :: "string \<Rightarrow> string" where
  "safeRedirect uri =
     (if uri = '''' \<or> hd uri \<noteq> CHR ''/'' \<or> hasPrefix uri ''//'' \<or> hasPrefix uri [CHR ''/'', CHR 0x5C] \<or>
         CHR 0x09 \<in> set uri \<or> CHR 0x0D \<in> set uri \<or> CHR 0x0A \<in> set uri
      then ''/'' else uri)"

text \<open>
  \<^verbatim>\<open>http.Redirect\<close> of a rooted target: when the target parses as a URL (no control byte, well-formed escapes in the
  path and the fragment) its path is cleaned with a trailing slash kept; bytes outside ASCII are escaped. The short
  HTML body it adds is left out.
\<close>

definition url_parses :: "string \<Rightarrow> bool" where
  "url_parses u \<longleftrightarrow>
     list_all (\<lambda>c. 32 \<le> (of_char c :: nat) \<and> of_char c \<noteq> (127 :: nat)) u \<and>
     unescape False (before_byte (CHR ''?'') (before_byte (CHR ''#'') u)) \<noteq> None \<and>
     unescape False (drop 1 (dropWhile (\<lambda>c. c \<noteq> CHR ''#'') u)) \<noteq> None"

definition hexEscapeNonASCII :: "string \<Rightarrow> string" where
  "hexEscapeNonASCII s = concat (map (\<lambda>c. if 128 \<le> (of_char c :: nat) then CHR ''%'' # hex_encode [c] else [c]) s)"

definition redirect_target :: "string \<Rightarrow> string" where
  "redirect_target u =
     (if \<not> url_parses u then u
      else let p = before_byte (CHR ''?'') u; query = drop (length p) u; cleaned = path_Clean p
           in (if hasSuffix p ''/'' \<and> \<not> hasSuffix cleaned ''/'' then cleaned @ ''/'' else cleaned) @ query)"

definition http_Redirect :: "string \<Rightarrow> nat \<Rightarrow> http_header \<Rightarrow> http_response" where
  "http_Redirect u status h = respond status (hdr_Set ''Location'' (hexEscapeNonASCII (redirect_target u)) h) NoBody"

section \<open>Redemption\<close>

definition OriginASN :: "('s, 'k, 'x) server_env \<Rightarrow> string \<Rightarrow> 32 word" where
  "OriginASN env ip =
     (case ParseAddr ip of
        None \<Rightarrow> 0
      | Some a \<Rightarrow>
          (if lv_snap (sv_live env) = None then 0
           else case se_intel (sv_stage env) of None \<Rightarrow> 0 | Some i \<Rightarrow> snd (in_Lookup i a)))"

fun redeemFailReason :: "pow_error \<Rightarrow> string" where
  "redeemFailReason ErrBadSolution = ReasonBadSolution"
| "redeemFailReason ErrHostMismatch = ReasonBindingMismatch"
| "redeemFailReason ErrClientAddressMismatch = ReasonBindingMismatch"
| "redeemFailReason ErrChallengeUnknown = ReasonChallengeGone"
| "redeemFailReason ErrTooFast = ReasonTooFast"
| "redeemFailReason ErrNoJSDisabled = ReasonNoJSDisabled"
| "redeemFailReason _ = ReasonRedeemInternal"

text \<open>The text of the errors a client may be told; the others are only logged.\<close>

fun pow_error_text :: "pow_error \<Rightarrow> string" where
  "pow_error_text ErrChallengeUnknown = ''challenge unknown, expired or already spent''"
| "pow_error_text ErrBadSolution = ''solution does not meet the required difficulty''"
| "pow_error_text ErrHostMismatch = ''challenge was issued for a different host''"
| "pow_error_text ErrClientAddressMismatch = ''challenge was issued for a different client address''"
| "pow_error_text ErrTooFast = ''no-JS redemption attempted too quickly''"
| "pow_error_text ErrNoJSDisabled = ''no-JS redemption not allowed for this challenge''"
| "pow_error_text _ = ''''"

text \<open>
  The two admission hooks of a redemption. Each returns its error, if any, the retry delay and the server's
  counters after it ran. A verification slot is taken and given back within the redemption.
\<close>

definition acquire_nojs ::
  "('s, 'k, 'x) server_env \<Rightarrow> string \<Rightarrow> string \<Rightarrow> string \<Rightarrow> counter_cache \<Rightarrow> pow_error option \<times> nanos \<times> counter_cache" where
  "acquire_nojs env host ip uri c =
     (let limit = pw_NoScriptRedemptionRateLimit (dm_PoW (ConfigFor (engine_Config (sv_live env)) host uri))
      in case redemptionRateLimitExceededAt (sv_hash env) ''njsrl'' host ip (OriginASN env ip) limit (sv_now env) c of
           (None, c') \<Rightarrow> (None, second, c')
         | (Some ra, c') \<Rightarrow> (Some ErrNoJSRateLimited, ra, c'))"

definition slot_free :: "int \<Rightarrow> int \<Rightarrow> bool" where
  "slot_free maxConcurrent current \<longleftrightarrow> \<not> maxConcurrent \<le> current"

definition acquire_argon ::
  "('s, 'k, 'x) server_env \<Rightarrow> string \<Rightarrow> string \<Rightarrow> int \<Rightarrow> counter_cache \<Rightarrow> pow_error option \<times> nanos \<times> counter_cache" where
  "acquire_argon env host ip inflight c =
     (if \<not> slot_free (lv_MaxConcurrent (sv_live env)) inflight then (Some ErrVerifierBusy, second, c)
      else case redemptionRateLimitExceededAt (sv_hash env) ''argrl'' host ip (OriginASN env ip) (lv_VerificationRateLimit (sv_live env)) (sv_now env) c of
             (None, c') \<Rightarrow> (None, second, c')
           | (Some ra, c') \<Rightarrow> (Some ErrVerifierRateLimited, ra, c'))"

text \<open>The URI of the challenge a redemption names, which the no-script hook is asked about.\<close>

definition challenge_uri :: "('s, 'k, 'x) server_env \<Rightarrow> string \<Rightarrow> 's \<Rightarrow> string" where
  "challenge_uri env cid s =
     (let senv = sv_stage env
      in if IsStatelessID cid then
           (case parse_stateless_id cid of
              None \<Rightarrow> ''''
            | Some (fmt, payload, mac) \<Rightarrow> (case env_unmarshal (se_powenv senv) payload of None \<Rightarrow> '''' | Some p \<Rightarrow> sp_URI p))
         else case fst (st_Get (se_ops senv) (se_now senv) (challengeKey cid) s) of
                Inr (Some raw) \<Rightarrow> (case decodeChallengeRecord raw of Inl _ \<Rightarrow> '''' | Inr rec \<Rightarrow> cr_URI rec)
              | _ \<Rightarrow> '''')"

definition fill_redeem ::
  "('s, 'k, 'x) server_env \<Rightarrow> http_request \<Rightarrow> redeem_request \<Rightarrow> ('s, 'k) server_state \<Rightarrow> redeem_request" where
  "fill_redeem env q rq st =
     (let host = headerOr q hdrHost (hq_Host q); ip = clientIP q; cfg = engine_Config (sv_live env);
          dcfg = ds_cfg (DomainFor cfg host)
      in rq\<lparr>rq_Host := host, rq_IP := ip, rq_UserAgent := headerOr q hdrUA (hdr_Get (hq_Header q) ''User-Agent''),
            rq_TokenTTL := pw_TokenTTL (dm_PoW dcfg), rq_ChallengeTTL := pw_ChallengeTTL (dm_PoW dcfg),
            rq_TTLs := Some (\<lambda>uri. let p = dm_PoW (ConfigFor cfg host uri) in (pw_TokenTTL p, pw_ChallengeTTL p)),
            rq_AcquireNoJS := (\<lambda>uri. fst (acquire_nojs env host ip uri (ss_counters st))),
            rq_AcquireArgon := fst (acquire_argon env host ip (ss_argonInflight st) (ss_counters st))\<rparr>)"

abbreviation run_redeem ::
  "('s, 'k, 'x) server_env \<Rightarrow> redeem_request \<Rightarrow> 'k pow_manager \<Rightarrow> 's \<Rightarrow> (pow_error + redeem_result) \<times> 'k pow_manager \<times> 's" where
  "run_redeem env rq m s \<equiv>
     Redeem (se_powenv (sv_stage env)) (se_ops (sv_stage env)) (se_disk (sv_stage env)) (sv_now env) (sv_now env) rq (m, s)"

text \<open>
  Which hook a redemption reaches: the one whose refusal would end it. A hook runs at most once, before the
  challenge is spent, and touches only the server's own counters, which the redemption does not read.
\<close>

definition hook_state ::
  "('s, 'k, 'x) server_env \<Rightarrow> redeem_request \<Rightarrow> 'k pow_manager \<Rightarrow> 's \<Rightarrow> ('s, 'k) server_state \<Rightarrow> nanos \<times> counter_cache" where
  "hook_state env rq m s st =
     (if fst (run_redeem env (rq\<lparr>rq_AcquireNoJS := \<lambda>_. Some ErrNoJSRateLimited\<rparr>) m s) = Inl ErrNoJSRateLimited
      then snd (acquire_nojs env (rq_Host rq) (rq_IP rq) (challenge_uri env (rq_ChallengeID rq) s) (ss_counters st))
      else if fst (run_redeem env (rq\<lparr>rq_AcquireArgon := Some ErrVerifierBusy\<rparr>) m s) = Inl ErrVerifierBusy
      then snd (acquire_argon env (rq_Host rq) (rq_IP rq) (ss_argonInflight st) (ss_counters st))
      else (second, ss_counters st))"

definition scored_event :: "string \<Rightarrow> string" where
  "scored_event reason =
     (if reason = ReasonChallengeGone \<or> reason = ReasonBindingMismatch \<or> reason = ReasonNoJSDisabled then EventTamper else EventPoWFail)"

text \<open>A redemption that failed after admission: a row, perhaps an event, and the refusal.\<close>

definition redeem_failed ::
  "('s, 'k, 'x) server_env \<Rightarrow> redeem_request \<Rightarrow> pow_error \<Rightarrow> ('s, 'k) server_state \<Rightarrow> http_response \<times> ('s, 'k) server_state" where
  "redeem_failed env rq e st =
     (let reason = redeemFailReason e; internal = (reason = ReasonRedeemInternal);
          ring = RecordRedeemFailure (sv_now env) (rq_Host rq) (rq_IP rq) (rq_UserAgent rq) reason (ss_ring st);
          status = (if internal then 500 else 403);
          clientErr = (if internal then ''challenge verification unavailable'' else pow_error_text e);
          pipe = (if internal \<or> rq_NoJS rq then ss_pipe st
                  else ReportEvent (lv_snap (sv_live env)) (sv_stage env) (rq_Host rq) (rq_IP rq) (scored_event reason) (pow_error_text e) (ss_pipe st));
          st' = st\<lparr>ss_ring := ring, ss_pipe := pipe\<rparr>
      in (if rq_NoJS rq then http_Error ''challenge verification failed'' status []
          else writeJSON status [(''ok'', JBool False), (''error'', JString clientErr)] [], st'))"

definition redeem_refused ::
  "('s, 'k, 'x) server_env \<Rightarrow> redeem_request \<Rightarrow> pow_error \<Rightarrow> nanos \<Rightarrow> ('s, 'k) server_state \<Rightarrow> http_response \<times> ('s, 'k) server_state" where
  "redeem_refused env rq e retryAfter st =
     (if e = ErrNoJSRateLimited
      then (http_Error ''too many no-JS redemption attempts'' 429 (hdr_Set ''Retry-After'' (format_int (retryAfterSeconds retryAfter)) []), st)
      else if e = ErrVerifierBusy
      then (writeJSON 503 [(''ok'', JBool False), (''error'', JString ''challenge verifier busy'')] (hdr_Set ''Retry-After'' ''1'' []), st)
      else if e = ErrVerifierRateLimited
      then (writeJSON 429 [(''ok'', JBool False), (''error'', JString ''too many verification attempts'')]
              (hdr_Set ''Retry-After'' (format_int (retryAfterSeconds retryAfter)) []), st)
      else redeem_failed env rq e st)"

definition redeemed_posture :: "('s, 'k) pipe_state \<Rightarrow> ('s, 'k) pipe_state" where
  "redeemed_posture pipe = pipe\<lparr>pl_attack := map_option am_ChallengeRedeemed (pl_attack pipe)\<rparr>"

definition redeem_handover ::
  "('s, 'k, 'x) server_env \<Rightarrow> redeem_request \<Rightarrow> redeem_result \<Rightarrow> ('s, 'k) server_state \<Rightarrow> http_response \<times> ('s, 'k) server_state" where
  "redeem_handover env rq res st =
     (let retryURL = safeRedirect (rr_RedirectURI res);
          st' = st\<lparr>ss_pipe := redeemed_posture (ss_pipe st),
                   ss_ring := RecordNetworkHandover (sv_now env) (rq_Host rq) (rq_IP rq) (rr_RedirectURI res) (rq_UserAgent rq) (ss_ring st)\<rparr>
      in (if rq_NoJS rq then http_Redirect retryURL 303 []
          else writeJSON 409 [(''ok'', JBool False), (''reason'', JString ''network_handover''), (''retry_url'', JString retryURL)] [], st'))"

text \<open>The telemetry of a solve: an elapsed time above what the challenge's own age allows is dropped.\<close>

definition round_trip_ms :: "nanos \<Rightarrow> redeem_result \<Rightarrow> int" where
  "round_trip_ms now res = max 0 (go_div (now - rr_IssuedAt res) (10 ^ 6))"

definition plausible_elapsed :: "int \<Rightarrow> int \<Rightarrow> int" where
  "plausible_elapsed elapsedMS roundTripMS = (if roundTripMS + go_div statelessSkew (10 ^ 6) < elapsedMS then 0 else elapsedMS)"

definition redeem_solved ::
  "('s, 'k, 'x) server_env \<Rightarrow> http_request \<Rightarrow> redeem_request \<Rightarrow> int \<Rightarrow> redeem_result \<Rightarrow> ('s, 'k) server_state \<Rightarrow>
     http_response \<times> ('s, 'k) server_state" where
  "redeem_solved env q rq elapsedMS res st =
     (let rt = round_trip_ms (sv_now env) res; el = plausible_elapsed elapsedMS rt;
          row = \<lparr>sv_Host = rq_Host rq, sv_IP = rq_IP rq, sv_URI = rr_RedirectURI res, sv_UA = rq_UserAgent rq, sv_SolveMS = el,
                 sv_RoundTripMS = rt, sv_Algorithm = rr_Algorithm res, sv_Bits = rr_Difficulty res, sv_MemoryKiB = rr_MemoryKiB res,
                 sv_Iterations = rr_Iterations res, sv_NoJS = rq_NoJS rq\<rparr>;
          ck = \<lparr>ck_Name = CookieName, ck_Value = rr_Token res, ck_Path = ''/'', ck_MaxAge = go_div (rr_TokenTTL res) second,
                ck_HttpOnly = True, ck_Secure = (hdr_Get (hq_Header q) hdrProto \<noteq> ''http''), ck_SameSiteLax = True\<rparr>;
          st' = st\<lparr>ss_pipe := redeemed_posture (ss_pipe st), ss_ring := RecordSolve (sv_now env) row (ss_ring st)\<rparr>;
          resp = (if rq_NoJS rq then http_Redirect (safeRedirect (rr_RedirectURI res)) 303 [] else writeJSON 200 [(''ok'', JBool True)] [])
      in (resp\<lparr>rs_Cookie := Some ck\<rparr>, st'))"

definition redeem_unavailable :: http_response where
  "redeem_unavailable = writeJSON 503 [(''ok'', JBool False), (''error'', JString ''unavailable'')] []"

definition redeem ::
  "('s, 'k, 'x) server_env \<Rightarrow> http_request \<Rightarrow> redeem_request \<Rightarrow> int \<Rightarrow> ('s, 'k) server_state \<Rightarrow> http_response \<times> ('s, 'k) server_state" where
  "redeem env q rq0 elapsedMS st =
     (case pl_pow (ss_pipe st) of
        None \<Rightarrow> (redeem_unavailable, st)
      | Some m \<Rightarrow>
          (if \<not> PoWAnywhere (DomainFor (engine_Config (sv_live env)) (headerOr q hdrHost (hq_Host q))) then (redeem_unavailable, st)
           else let rq = fill_redeem env q rq0 st; s = pl_store (ss_pipe st); (retryAfter, c) = hook_state env rq m s st
                in case run_redeem env rq m s of
                     (r, m', s') \<Rightarrow>
                       (let st1 = st\<lparr>ss_counters := c, ss_pipe := (ss_pipe st)\<lparr>pl_pow := Some m', pl_store := s'\<rparr>\<rparr>
                        in case r of
                             Inl e \<Rightarrow> redeem_refused env rq e retryAfter st1
                           | Inr res \<Rightarrow>
                               (case rr_Outcome res of
                                  RedeemNetworkHandover \<Rightarrow> redeem_handover env rq res st1
                                | RedeemSolved \<Rightarrow> redeem_solved env q rq elapsedMS res st1))))"

definition new_redeem :: "string \<Rightarrow> string \<Rightarrow> string \<Rightarrow> bool \<Rightarrow> redeem_request" where
  "new_redeem cid nonce prf nojs =
     \<lparr>rq_ChallengeID = cid, rq_Nonce = nonce, rq_Proof = prf, rq_NoJS = nojs, rq_Host = '''', rq_IP = '''', rq_UserAgent = '''',
      rq_TokenTTL = 0, rq_ChallengeTTL = 0, rq_TTLs = None, rq_AcquireNoJS = (\<lambda>_. None), rq_AcquireArgon = None\<rparr>"

definition handlePassSolve ::
  "('s, 'k, 'x) server_env \<Rightarrow> http_request \<Rightarrow> ('s, 'k) server_state \<Rightarrow> http_response \<times> ('s, 'k) server_state" where
  "handlePassSolve env q st =
     (if sv_mediaType env (hdr_Get (hq_Header q) ''Content-Type'') \<noteq> Some ''application/json''
      then (writeJSON 415 [(''ok'', JBool False), (''error'', JString ''Content-Type must be application/json'')] [], st)
      else case (if length (hq_Body q) \<le> 4096 then sv_unmarshal env (hq_Body q) else None) of
             None \<Rightarrow> (writeJSON 400 [(''ok'', JBool False), (''error'', JString ''malformed request'')] [], st)
           | Some b \<Rightarrow> redeem env q (new_redeem (sb_ChallengeID b) (sb_Nonce b) (sb_Proof b) False) (sb_ElapsedMS b) st)"

definition query_get :: "http_request \<Rightarrow> string \<Rightarrow> string" where
  "query_get q k = (case map_of (hq_Query q) k of None \<Rightarrow> '''' | Some v \<Rightarrow> v)"

definition handlePassNoJS ::
  "('s, 'k, 'x) server_env \<Rightarrow> http_request \<Rightarrow> ('s, 'k) server_state \<Rightarrow> http_response \<times> ('s, 'k) server_state" where
  "handlePassNoJS env q st =
     (if query_get q ''nojs'' \<noteq> ''1'' then (http_Error ''missing solution'' 400 [], st)
      else redeem env q (new_redeem (query_get q ''cid'') '''' '''' True) 0 st)"

definition handleDenied :: "('s, 'k, 'x) server_env \<Rightarrow> http_request \<Rightarrow> ('s, 'k) server_state \<Rightarrow> http_response \<times> ('s, 'k) server_state" where
  "handleDenied env q st =
     (respond 403 (securityHeaders cspStatic frameSameOrigin (hdr_Set ''Cache-Control'' ''no-store'' (hdr_Set ''Content-Type'' ''text/html; charset=utf-8'' []))) DeniedPage, st)"

definition handleHealthz :: "('s, 'k, 'x) server_env \<Rightarrow> http_request \<Rightarrow> ('s, 'k) server_state \<Rightarrow> http_response \<times> ('s, 'k) server_state" where
  "handleHealthz env q st =
     (respond 200 (securityHeaders '''' '''' (hdr_Set ''Content-Type'' ''text/plain; charset=utf-8'' [])) (TextBody (''ok'' @ [CHR 0x0A])), st)"

text \<open>The routes of \<^verbatim>\<open>New\<close>; any other path or method is the router's own 404 or 405.\<close>

definition serveHTTP ::
  "('s, 'k, 'x) server_env \<Rightarrow> string \<Rightarrow> http_request \<Rightarrow> ('s, 'k) server_state \<Rightarrow> (http_response \<times> ('s, 'k) server_state) option" where
  "serveHTTP env path q st =
     (let get = (hq_Method q = ''GET'' \<or> hq_Method q = ''HEAD'')
      in if path = ''/denied'' then Some (handleDenied env q st)
         else if path = ''/auth'' \<and> get then Some (proxiedOnly handleAuth env q st)
         else if path = ''/challenge'' \<and> get then Some (proxiedOnly handleChallenge env q st)
         else if path = ''/healthz'' \<and> get then Some (handleHealthz env q st)
         else if (path = ''/pass'' \<or> path = PassPath) \<and> hq_Method q = ''POST'' then Some (proxiedOnly handlePassSolve env q st)
         else if (path = ''/pass'' \<or> path = PassPath) \<and> get then Some (proxiedOnly handlePassNoJS env q st)
         else None)"


section \<open>The two hops of a challenged request\<close>

lemma server_header_names [simp]:
  "canonicalKey ''X-Guardian-Action'' = ''X-Guardian-Action''" "canonicalKey ''X-Guardian-Reason'' = ''X-Guardian-Reason''"
  "canonicalKey hdrDifficulty = hdrDifficulty" "canonicalKey ''X-Guardian-PoW-Exemption'' = ''X-Guardian-Pow-Exemption''"
  "canonicalKey ''Location'' = ''Location''" "canonicalKey ''Retry-After'' = ''Retry-After''"
  unfolding hdrDifficulty_def by code_simp+

lemma header_names_distinct [simp]:
  "hdrRefusal \<noteq> ''X-Guardian-Action''" "hdrRefusal \<noteq> ''X-Guardian-Reason''" "hdrRefusal \<noteq> ''X-Guardian-Pow-Exemption''"
  "hdrDifficulty \<noteq> ''X-Guardian-Action''" "hdrDifficulty \<noteq> ''X-Guardian-Reason''" "hdrDifficulty \<noteq> ''X-Guardian-Pow-Exemption''"
  "hdrDifficulty \<noteq> hdrRefusal" "hdrRefusal \<noteq> hdrDifficulty"
  by (simp_all add: hdrRefusal_def hdrDifficulty_def)

lemma evaluate_refuses_only_unchallengeable:
  assumes "eng_Evaluate snap env req st = (d, st')" "dc_Action d = ActionRefuse"
  shows "ctx_Unchallengeable req"
proof (cases snap)
  case (Some cfg)
  define st1 where "st1 = fresh_memo (st\<lparr>pl_attack := map_option am_Evaluated (pl_attack st)\<rparr>)"
  define e where "e = request_env cfg env req st1"
  show ?thesis
  proof (cases "fst (run_stages stages e req st1)")
    case None
    then show ?thesis using assms Some by (auto simp: eng_Evaluate_def Let_def simp flip: st1_def e_def split: prod.splits)
  next
    case (Some sd)
    then obtain st2 where r: "run_stages stages e req st1 = (Some sd, st2)" by (cases "run_stages stages e req st1") auto
    have "dc_Action sd \<noteq> ActionRefuse" using run_ok [OF _ r] by (simp add: decision_ok_def)
    moreover have "dc_Action d = dc_Action (withhold (se_domain e) req sd)"
      using assms(1) \<open>snap = Some cfg\<close> r by (auto simp: eng_Evaluate_def Let_def simp flip: st1_def e_def)
    ultimately show ?thesis using assms(2) by (auto simp: withhold_def split: if_splits)
  qed
qed (use assms in \<open>auto simp: eng_Evaluate_def\<close>)

text \<open>What the response of the auth hop says, by its status.\<close>

lemma auth_challenge_response:
  assumes "handleAuth env q st = (r, st')" "rs_Status r = 401"
  obtains d pipe where "eng_Evaluate (lv_snap (sv_live env)) (sv_stage env) (fillRequestContext q) (ss_pipe st) = (d, pipe)"
    "dc_Action d \<in> {ActionChallenge, ActionRefuse}" "r = decision_response (hq_Header q) d"
    "st' = st\<lparr>ss_pipe := pipe, ss_ring := record_decision (sv_now env) (fillRequestContext q) d (ss_ring st)\<rparr>"
proof -
  have sh: "rs_Status (shed_response v) \<noteq> 401" for v
    by (cases "fst v") (simp_all add: shed_response_def respond_def Let_def)
  have st: "rs_Status (decision_response (hq_Header q) d) = 401 \<Longrightarrow> dc_Action d \<in> {ActionChallenge, ActionRefuse}" for d
    by (cases "dc_Action d") (simp_all add: decision_response_def respond_def Let_def)
  obtain d pipe where d: "eng_Evaluate (lv_snap (sv_live env)) (sv_stage env) (fillRequestContext q) (ss_pipe st) = (d, pipe)" by fastforce
  obtain v pp where v: "ShedDecisionWithReason (lv_snap (sv_live env)) (sv_stage env) (fillRequestContext q) (ss_pipe st) = (v, pp)" by fastforce
  have "r = shed_response v \<or> r = decision_response (hq_Header q) d \<and>
      st' = st\<lparr>ss_pipe := pipe, ss_ring := record_decision (sv_now env) (fillRequestContext q) d (ss_ring st)\<rparr>"
    using assms(1) unfolding handleAuth_def Let_def d v by (simp split: if_splits)
  then have "r = decision_response (hq_Header q) d"
      "st' = st\<lparr>ss_pipe := pipe, ss_ring := record_decision (sv_now env) (fillRequestContext q) d (ss_ring st)\<rparr>"
    using assms(2) sh by blast+
  then show thesis using that [OF d] st assms(2) by blast
qed

lemma auth_relayed_refusal:
  "hdr_Get (rs_Header (decision_response h d)) hdrRefusal =
     (case dc_Action d of ActionChallenge \<Rightarrow> refusalNone | ActionRefuse \<Rightarrow> refusalKind h | _ \<Rightarrow> '''')"
  by (cases "dc_Action d")
     (simp_all add: decision_response_def respond_def Let_def hdr_Get_def hdr_Values_def hdr_Set_def gomap_simps header_names_distinct [symmetric])

lemma auth_action_header: "hdr_Get (rs_Header (decision_response h d)) ''X-Guardian-Action'' = action_string (dc_Action d)"
  by (cases "dc_Action d")
     (simp_all add: decision_response_def respond_def Let_def hdr_Get_def hdr_Values_def hdr_Set_def gomap_simps header_names_distinct [symmetric])

lemma response_status [simp]:
  "rs_Status (http_Error msg s h) = s" "rs_Status (writeJSON s v h) = s" "rs_Status (respond s h b) = s"
  "rs_Status (refuseChallenge msg) = 403" "rs_Status (http_Redirect u s h) = s"
  by (simp_all add: http_Error_def writeJSON_def respond_def refuseChallenge_def http_Redirect_def)

text \<open>With a relayed refusal the second hop refuses and touches nothing; with a relayed challenge it never refuses.\<close>

lemma challenge_hop_refuses:
  assumes "relayedRefusal (hq_Header q) = (k, True)" "k \<in> {outcomeSubresourceRefused, outcomeAcceptRefused}"
  shows "rs_Status (fst (handleChallenge env q st)) = 403 \<and> snd (handleChallenge env q st) = st"
  using assms by (auto simp: handleChallenge_def challenge_refusal_def Let_def refusal_words)

lemma serve_status: "rs_Status (fst (serve_challenge env h host ip uri p m pipe)) \<in> {200, 503}"
  by (auto simp: serve_challenge_def Let_def split: prod.splits sum.splits)

lemma challenge_hop_serves:
  assumes "relayedRefusal (hq_Header q) = ('''', True)"
  shows "rs_Status (fst (handleChallenge env q st)) \<in> {200, 429, 503}"
proof -
  have k: "challenge_refusal dc (hq_Header q) = ''''" for dc using assms by (simp add: challenge_refusal_def Let_def)
  have s: "serve_challenge env (hq_Header q) host ip uri p m pipe = (r, x) \<Longrightarrow> rs_Status r \<in> {200, 503}" for host ip uri p m pipe r x
    using serve_status [of env "hq_Header q" host ip uri p m pipe] by simp
  show ?thesis
    unfolding handleChallenge_def Let_def k
    by (auto simp: refusal_words split: option.splits prod.splits bool.splits dest: s)
qed

text \<open>
  C5 (safety). The auth hop decides and the challenge hop obeys: when the auth subrequest answered 401 and the proxy
  relays its verdict, then for every configuration, state and client header the second hop runs with, a recorded refusal is
  served as a 403 that issues nothing and changes nothing, and a recorded challenge is never refused. The row
  the auth hop added to the live ring names the action the client is served.
\<close>

theorem challenge_hop_obeys_auth_hop:
  assumes "handleAuth env q st = (r, st')" "rs_Status r = 401" "ring_ok (ss_ring st)"
    and "hdr_Get (hq_Header q2) hdrRefusal = hdr_Get (rs_Header r) hdrRefusal"
  shows "(rd_Action (hd (rg_contents (ss_ring st'))) = ''refuse'' \<and>
           rs_Status (fst (handleChallenge env2 q2 st2)) = 403 \<and> snd (handleChallenge env2 q2 st2) = st2) \<or>
         (rd_Action (hd (rg_contents (ss_ring st'))) = ''challenge'' \<and> rs_Status (fst (handleChallenge env2 q2 st2)) \<in> {200, 429, 503})"
proof (rule auth_challenge_response [OF assms(1,2)])
  fix d pipe
  assume d: "eng_Evaluate (lv_snap (sv_live env)) (sv_stage env) (fillRequestContext q) (ss_pipe st) = (d, pipe)"
    "dc_Action d \<in> {ActionChallenge, ActionRefuse}" "r = decision_response (hq_Header q) d"
    "st' = st\<lparr>ss_pipe := pipe, ss_ring := record_decision (sv_now env) (fillRequestContext q) d (ss_ring st)\<rparr>"
  have "0 < length (rg_buf (ss_ring st))" using assms(3) by (simp add: ring_ok_def)
  then have row: "rd_Action (hd (rg_contents (ss_ring st'))) = action_string (dc_Action d)"
    using d(2,4) assms(3) by (auto simp: record_decision_def rg_contents_add take_Cons' cap_row_def)
  show ?thesis
  proof (cases "dc_Action d = ActionRefuse")
    case True
    then have "refusalKind (hq_Header q) \<noteq> ''''"
      using evaluate_refuses_only_unchallengeable [OF d(1)] by (simp add: fillRequestContext_def Let_def)
    then have "hdr_Get (hq_Header q2) hdrRefusal \<in> {outcomeSubresourceRefused, outcomeAcceptRefused}"
      using refusalKind_range [of "hq_Header q"] True assms(4) d(3) by (simp add: auth_relayed_refusal)
    from challenge_hop_refuses [OF relayed_kind [OF this] this] show ?thesis using row True by simp
  next
    case False
    then have "hdr_Get (hq_Header q2) hdrRefusal = refusalNone" using d(2,3) assms(4) by (simp add: auth_relayed_refusal)
    from challenge_hop_serves [OF relayed_none [OF this]] show ?thesis using row False d(2) by auto
  qed
qed

section \<open>The difficulty of a served page\<close>

lemma relayed_difficulty_window:
  "base \<le> mx \<Longrightarrow> base \<le> relayed_difficulty h base mx \<and> relayed_difficulty h base mx \<le> mx"
  by (auto simp: relayed_difficulty_def Let_def split: option.splits)

lemma relayed_difficulty_kept:
  "parse_int64 (hdr_Get h hdrDifficulty) = Some n \<Longrightarrow> n \<le> mx \<Longrightarrow> n \<le> relayed_difficulty h base mx"
  by (cases "hdr_Get h hdrDifficulty = ''''") (auto simp: relayed_difficulty_def Let_def parse_int64_def)

lemma escalate_window:
  "d \<le> mx \<Longrightarrow> d \<le> fst (escalate_challenge env h host ip p base mx d m pipe) \<and> fst (escalate_challenge env h host ip p base mx d m pipe) \<le> mx"
  by (auto simp: escalate_challenge_def Let_def split: prod.splits)

lemma issue_from_spec:
  assumes "issue_challenge env attack host ip uri spec p pipe = (Inr ch, pipe')"
  shows "\<exists>uid tx. ch = challengeFromSpec uid tx (with_salt (sv_salt env) spec)"
  using assms
  by (auto simp: issue_challenge_def issue_stateless_def IssueStatelessWithSpec_def IssueWithSpec_def Let_def
      split: option.splits if_splits prod.splits sum.splits)

lemma error_not_page [simp]: "rs_Body (http_Error msg s h) \<noteq> ChallengePage pl b t" "rs_Body (refuseChallenge msg) \<noteq> ChallengePage pl b t"
  by (simp_all add: http_Error_def respond_def refuseChallenge_def)

lemma served_page:
  assumes "serve_challenge env h host ip uri p m pipe = (r, pipe')" "rs_Body r = ChallengePage pl nojs refresh"
  obtains base mx difficulty uid tx where "challenge_window (current_posture pipe) p = (base, mx)"
    "difficulty = fst (escalate_challenge env h host ip p base mx (relayed_difficulty h base mx) m pipe)"
    "ChallengePage pl nojs refresh = challenge_page p (pm_NoJSMinDelay m)
       (challengeFromSpec uid tx (with_salt (sv_salt env) (challenge_spec (current_posture pipe) p base difficulty)))"
proof -
  obtain base mx where w: "challenge_window (current_posture pipe) p = (base, mx)" by fastforce
  obtain difficulty pipe1 where e: "escalate_challenge env h host ip p base mx (relayed_difficulty h base mx) m pipe = (difficulty, pipe1)" by fastforce
  obtain res pipe2 where i: "issue_challenge env (current_posture pipe) host ip uri (challenge_spec (current_posture pipe) p base difficulty) p pipe1 = (res, pipe2)"
    by fastforce
  obtain ch where c: "res = Inr ch" "rs_Body r = challenge_page p (pm_NoJSMinDelay m) ch"
    using assms by (cases res) (auto simp: serve_challenge_def Let_def w e i respond_def)
  then show thesis using issue_from_spec [of env "current_posture pipe" host ip uri _ p pipe1 ch pipe2] i that [OF w] assms(2) e by fastforce
qed

lemma challenge_page_served:
  assumes "handleChallenge env q st = (r, st')" "rs_Body r = ChallengePage pl nojs refresh"
  obtains p m where "p = dm_PoW (ConfigFor (engine_Config (sv_live env)) (headerOr q hdrHost (hq_Host q)) (headerOr q hdrURI ''/''))"
    "pl_pow (ss_pipe st) = Some m" "pw_Enabled p"
    "serve_challenge env (hq_Header q) (headerOr q hdrHost (hq_Host q)) (clientIP q) (headerOr q hdrURI ''/'') p m (ss_pipe st) = (r, ss_pipe st')"
  using assms by (auto simp: handleChallenge_def Let_def split: if_splits option.splits prod.splits bool.splits)

lemma page_fields:
  assumes "ChallengePage pl nojs refresh = challenge_page p delay ch"
  shows "cp_Algorithm pl = ch_Algorithm ch" "cp_Difficulty pl = ch_Difficulty ch" "cp_MemoryKiB pl = ch_MemoryKiB ch"
    "cp_Iterations pl = ch_Iterations ch" "cp_ChallengeID pl = ch_ID ch" "cp_Challenge pl = ch_Challenge ch" "cp_Salt pl = ch_Salt ch"
  using assms by (simp_all add: challenge_page_def Let_def)

lemma algorithms_differ [simp]: "AlgorithmSHA256 \<noteq> AlgorithmArgon2ID" "AlgorithmArgon2ID \<noteq> AlgorithmSHA256"
    "AlgorithmSHA256 \<noteq> ''''" "AlgorithmArgon2ID \<noteq> ''''"
  by (simp_all add: AlgorithmSHA256_def AlgorithmArgon2ID_def)

text \<open>
  C16 (bounds). Solving the served page is worth the wait: in a validated scope, whatever difficulty header a client forges
  and however often it abandoned challenges, a SHA-256 page asks at least the bits the scope's token check
  wants, at least the (posture-raised) floor, never more than the ceiling of the posture, and never less than what the
  auth hop relayed within that ceiling; an Argon2id page asks the configured memory and one of the three configured
  iteration counts.
\<close>

theorem served_difficulty_in_policy:
  assumes "handleChallenge env q st = (r, st')" "rs_Body r = ChallengePage pl nojs refresh"
    and "dc = ConfigFor (engine_Config (sv_live env)) (headerOr q hdrHost (hq_Host q)) (headerOr q hdrURI ''/'')"
    and "validate_domain json sha dc0 = Inr dc" "0 \<le> ps_ExtraBits (current_posture (ss_pipe st))"
    and "challenge_window (current_posture (ss_pipe st)) (dm_PoW dc) = (base, mx)"
  shows "if UsesArgon2ID (dm_PoW dc)
    then cp_Algorithm pl = AlgorithmArgon2ID \<and> cp_MemoryKiB pl = a2_MemoryKiB (pw_Argon2ID (dm_PoW dc)) \<and>
      cp_Iterations pl \<in> {a2_BaseIterations (pw_Argon2ID (dm_PoW dc)), a2_MaxIterations (pw_Argon2ID (dm_PoW dc)),
        a2_AttackIterationsCap (pw_Argon2ID (dm_PoW dc))}
    else cp_Algorithm pl = AlgorithmSHA256 \<and> TokenMinBits (dm_PoW dc) \<le> base \<and> base \<le> cp_Difficulty pl \<and> cp_Difficulty pl \<le> mx \<and>
      (\<forall>n. parse_int64 (hdr_Get (hq_Header q) hdrDifficulty) = Some n \<longrightarrow> n \<le> mx \<longrightarrow> n \<le> cp_Difficulty pl)"
proof (rule challenge_page_served [OF assms(1,2)])
  fix p m
  assume p: "p = dm_PoW (ConfigFor (engine_Config (sv_live env)) (headerOr q hdrHost (hq_Host q)) (headerOr q hdrURI ''/''))"
    and s: "serve_challenge env (hq_Header q) (headerOr q hdrHost (hq_Host q)) (clientIP q) (headerOr q hdrURI ''/'') p m (ss_pipe st) = (r, ss_pipe st')"
  have dp: "dm_PoW dc = p" by (simp add: p assms(3))
  show ?thesis
  proof (rule served_page [OF s assms(2)])
    fix base' mx' difficulty uid tx
    assume w: "challenge_window (current_posture (ss_pipe st)) p = (base', mx')"
      and d: "difficulty = fst (escalate_challenge env (hq_Header q) (headerOr q hdrHost (hq_Host q)) (clientIP q) p base' mx' (relayed_difficulty (hq_Header q) base' mx') m (ss_pipe st))"
      and pg: "ChallengePage pl nojs refresh = challenge_page p (pm_NoJSMinDelay m)
        (challengeFromSpec uid tx (with_salt (sv_salt env) (challenge_spec (current_posture (ss_pipe st)) p base' difficulty)))"
    have e: "base' = base" "mx' = mx" using w assms(6) dp by simp_all
    have win: "BaseBits p \<le> base" "base \<le> mx"
      using validated_bits(2) [OF assms(4)] assms(5) w unfolding e dp
      by (auto simp: challenge_window_def EffectiveBits_def Let_def split: if_splits)
    note f = page_fields [OF pg]
    show ?thesis
    proof (cases "UsesArgon2ID p")
      case True
      then show ?thesis using f unfolding dp by (simp add: challenge_spec_def challengeFromSpec_def with_salt_def spec_algorithm_def Let_def)
    next
      case False
      note rd = relayed_difficulty_window [OF win(2), of "hq_Header q"]
      have "relayed_difficulty (hq_Header q) base mx \<le> difficulty \<and> difficulty \<le> mx"
        unfolding d e by (rule escalate_window) (use rd in simp)
      then show ?thesis using f False win rd relayed_difficulty_kept [of "hq_Header q" _ mx base] unfolding dp
        by (auto simp: challenge_spec_def challengeFromSpec_def with_salt_def spec_algorithm_def TokenMinBits_def Let_def intro: order_trans)
    qed
  qed
qed

section \<open>The redirect stays on the site\<close>

text \<open>What a browser resolves against the site itself: one slash, not followed by a slash or a backslash, and none of the bytes a URL parser strips.\<close>

definition line_byte :: "char \<Rightarrow> bool" where
  "line_byte c \<longleftrightarrow> c = CHR 0x09 \<or> c = CHR 0x0D \<or> c = CHR 0x0A"

definition same_site :: "string \<Rightarrow> bool" where
  "same_site l \<longleftrightarrow> l \<noteq> '''' \<and> hd l = CHR ''/'' \<and> (tl l = '''' \<or> hd (tl l) \<noteq> CHR ''/'' \<and> hd (tl l) \<noteq> CHR 0x5C) \<and> \<not> list_ex line_byte l"

lemma safeRedirect_same_site: "same_site (safeRedirect uri)"
proof -
  have "\<not> line_byte (CHR ''/'')" by (simp add: line_byte_def)
  then show ?thesis
    by (cases uri; cases "tl uri") (auto simp: same_site_def safeRedirect_def hasPrefix_def list_ex_iff line_byte_def)
qed

lemma split_slash_bytes: "s \<in> set (split_slash p) \<Longrightarrow> set s \<subseteq> set p"
proof (induction p arbitrary: s)
  case (Cons c cs)
  obtain h t where "split_slash cs = h # t" by (meson neq_Nil_conv split_slash_nonempty)
  with Cons show ?case by (fastforce split: if_splits)
qed simp

lemma clean_fold_bytes: "set (concat (foldl clean_step out segs)) \<subseteq> set (concat out) \<union> set (concat segs)"
proof (induction segs arbitrary: out)
  case (Cons s ss)
  have "set (concat (clean_step out s)) \<subseteq> set (concat out) \<union> set s"
    by (auto simp: clean_step_def dest: in_set_butlastD)
  then show ?case using Cons [of "clean_step out s"] unfolding foldl_Cons concat.simps set_append by blast
qed simp

lemma path_Clean_bytes: "set (path_Clean p) \<subseteq> insert (CHR ''/'') (set p)"
proof -
  have r: "set (render segs) \<subseteq> insert (CHR ''/'') (set (concat segs))" for segs by (induction segs) auto
  have "set (concat (split_slash p)) \<subseteq> set p" using split_slash_bytes unfolding set_concat by blast
  then have "set (concat (foldl clean_step [] (split_slash p))) \<subseteq> set p"
    using clean_fold_bytes [of "[]" "split_slash p"] unfolding concat.simps list.set by blast
  then show ?thesis using r [of "foldl clean_step [] (split_slash p)"] unfolding path_Clean_def Let_def by (simp, blast)
qed

lemma same_site_append:
  "same_site l \<Longrightarrow> x = '''' \<or> hd x \<noteq> CHR ''/'' \<and> hd x \<noteq> CHR 0x5C \<or> tl l \<noteq> '''' \<Longrightarrow> \<not> list_ex line_byte x \<Longrightarrow> same_site (l @ x)"
  by (cases l; cases "tl l") (auto simp: same_site_def)

lemma path_Clean_same_site:
  assumes "CHR 0x5C \<notin> set p" "\<not> list_ex line_byte p"
  shows "same_site (path_Clean p)"
proof -
  obtain segs where s: "list_all seg_ok segs" "path_Clean p = (if segs = [] then ''/'' else render segs)" by (rule path_Clean_form)
  have b: "CHR 0x5C \<notin> set (path_Clean p)" "\<not> list_ex line_byte (path_Clean p)"
    using path_Clean_bytes [of p] assms by (auto simp: list_ex_iff line_byte_def)
  then show ?thesis
  proof (cases segs)
    case Nil then show ?thesis using s b by (simp add: same_site_def)
  next
    case (Cons x xs)
    then obtain c cs where "x = c # cs" "c \<noteq> CHR ''/''" using s(1) by (cases x) (auto simp: seg_ok_def)
    then show ?thesis using s b Cons by (auto simp: same_site_def)
  qed
qed

lemma hex_encode_visible: "c \<in> set (hex_encode bs) \<Longrightarrow> 48 \<le> (of_char c :: nat)"
proof -
  have "48 \<le> (of_char (hex_char d) :: nat)" if "d < 16" for d using that by (auto simp: hex_char_def)
  moreover have "(of_char x :: nat) div 16 < 16" for x :: char
    using mod_less_divisor [of 256 "of_char x :: nat"] by (simp add: less_mult_imp_div_less)
  ultimately show "c \<in> set (hex_encode bs) \<Longrightarrow> ?thesis" by (auto simp: hex_encode_def)
qed

lemma hexEscape_same_site: "same_site l \<Longrightarrow> same_site (hexEscapeNonASCII l)"
proof -
  assume l: "same_site l"
  have lb: "\<not> list_ex line_byte (if 128 \<le> (of_char c :: nat) then CHR ''%'' # hex_encode [c] else [c])" if "\<not> line_byte c" for c
  proof -
    have "\<not> line_byte x" if "48 \<le> (of_char x :: nat)" for x using that by (auto simp: line_byte_def)
    then have "\<not> line_byte x" if "x \<in> set (hex_encode [c])" for x using that hex_encode_visible by blast
    then show ?thesis using that by (auto simp: list_ex_iff line_byte_def)
  qed
  have "\<not> list_ex line_byte (hexEscapeNonASCII l)"
    using l lb by (auto simp: hexEscapeNonASCII_def same_site_def list_ex_iff)
  moreover obtain r where "l = CHR ''/'' # r" using l by (cases l) (auto simp: same_site_def)
  ultimately show ?thesis using l by (cases r) (auto simp: same_site_def hexEscapeNonASCII_def)
qed

lemma redirect_target_same_site:
  assumes "same_site u" "CHR 0x5C \<notin> set u"
  shows "same_site (redirect_target u)"
proof -
  define p where "p = before_byte (CHR ''?'') u"
  define query where "query = drop (length p) u"
  define cleaned where "cleaned = (if hasSuffix p ''/'' \<and> \<not> hasSuffix (path_Clean p) ''/'' then path_Clean p @ ''/'' else path_Clean p)"
  have lb: "\<not> list_ex line_byte u" using assms(1) by (simp add: same_site_def)
  have "set p \<subseteq> set u" unfolding p_def before_byte_def using set_takeWhileD by fast
  then have p: "CHR 0x5C \<notin> set p" "\<not> list_ex line_byte p" using assms(2) lb unfolding list_ex_iff by blast+
  note c = path_Clean_same_site [OF p]
  have "query = dropWhile (\<lambda>c. c \<noteq> CHR ''?'') u" by (simp add: query_def p_def before_byte_def dropWhile_eq_drop)
  then have q: "query = '''' \<or> hd query = CHR ''?''" using hd_dropWhile [of "\<lambda>c. c \<noteq> CHR ''?''" u] by blast
  have ql: "\<not> list_ex line_byte query" using lb unfolding list_ex_iff query_def by (blast dest: in_set_dropD)
  have "tl (path_Clean p) \<noteq> ''''" if "\<not> hasSuffix (path_Clean p) ''/''"
    using c that by (cases "path_Clean p") (auto simp: same_site_def hasSuffix_def)
  then have "same_site cleaned" using c same_site_append [OF c, of "''/''"] by (simp add: cleaned_def line_byte_def)
  moreover have "query = '''' \<or> hd query \<noteq> CHR ''/'' \<and> hd query \<noteq> CHR 0x5C \<or> tl cleaned \<noteq> ''''" using q by (elim disjE) simp_all
  ultimately have "same_site (cleaned @ query)" using ql by (rule same_site_append)
  then show ?thesis using assms(1) unfolding redirect_target_def Let_def p_def [symmetric] query_def [symmetric] cleaned_def [symmetric] by simp
qed

text \<open>
  With a backslash in it the cleaned target may start with a slash and a backslash, which is all that can go wrong.
\<close>

definition rooted :: "string \<Rightarrow> bool" where
  "rooted l \<longleftrightarrow> same_site l \<or> hasPrefix l [CHR ''/'', CHR 0x5C] \<and> \<not> list_ex line_byte l"

lemma rooted_iff: "rooted l \<longleftrightarrow> l \<noteq> '''' \<and> hd l = CHR ''/'' \<and> (tl l = '''' \<or> hd (tl l) \<noteq> CHR ''/'') \<and> \<not> list_ex line_byte l"
  by (cases l; cases "tl l") (auto simp: rooted_def same_site_def hasPrefix_def)

lemma rooted_append: "rooted l \<Longrightarrow> x = '''' \<or> hd x \<noteq> CHR ''/'' \<or> tl l \<noteq> '''' \<Longrightarrow> \<not> list_ex line_byte x \<Longrightarrow> rooted (l @ x)"
  by (cases l; cases "tl l") (auto simp: rooted_iff)

lemma path_Clean_rooted:
  assumes "\<not> list_ex line_byte p"
  shows "rooted (path_Clean p)"
proof -
  obtain segs where s: "list_all seg_ok segs" "path_Clean p = (if segs = [] then ''/'' else render segs)" by (rule path_Clean_form)
  have b: "\<not> list_ex line_byte (path_Clean p)"
    using path_Clean_bytes [of p] assms by (auto simp: list_ex_iff line_byte_def)
  then show ?thesis
  proof (cases segs)
    case (Cons x xs)
    then obtain c cs where "x = c # cs" "c \<noteq> CHR ''/''" using s(1) by (cases x) (auto simp: seg_ok_def)
    then show ?thesis using s b Cons by (auto simp: rooted_iff)
  qed (use s b in \<open>simp add: rooted_iff\<close>)
qed

lemma redirect_target_rooted:
  assumes "rooted u"
  shows "rooted (redirect_target u)"
proof -
  define p where "p = before_byte (CHR ''?'') u"
  define query where "query = drop (length p) u"
  define cleaned where "cleaned = (if hasSuffix p ''/'' \<and> \<not> hasSuffix (path_Clean p) ''/'' then path_Clean p @ ''/'' else path_Clean p)"
  have lb: "\<not> list_ex line_byte u" using assms by (simp add: rooted_iff)
  have "set p \<subseteq> set u" unfolding p_def before_byte_def using set_takeWhileD by fast
  then have "\<not> list_ex line_byte p" using lb unfolding list_ex_iff by blast
  note c = path_Clean_rooted [OF this]
  have "query = dropWhile (\<lambda>c. c \<noteq> CHR ''?'') u" by (simp add: query_def p_def before_byte_def dropWhile_eq_drop)
  then have q: "query = '''' \<or> hd query = CHR ''?''" using hd_dropWhile [of "\<lambda>c. c \<noteq> CHR ''?''" u] by blast
  have ql: "\<not> list_ex line_byte query" using lb unfolding list_ex_iff query_def by (blast dest: in_set_dropD)
  have "tl (path_Clean p) \<noteq> ''''" if "\<not> hasSuffix (path_Clean p) ''/''"
    using c that by (cases "path_Clean p") (auto simp: rooted_iff hasSuffix_def)
  then have "rooted cleaned" using c rooted_append [OF c, of "''/''"] by (simp add: cleaned_def line_byte_def)
  moreover have "query = '''' \<or> hd query \<noteq> CHR ''/'' \<or> tl cleaned \<noteq> ''''" using q by (elim disjE) simp_all
  ultimately have "rooted (cleaned @ query)" using ql by (rule rooted_append)
  then show ?thesis using assms unfolding redirect_target_def Let_def p_def [symmetric] query_def [symmetric] cleaned_def [symmetric] by simp
qed

definition location_ok :: "string \<Rightarrow> bool" where
  "location_ok l \<longleftrightarrow> same_site l \<or> hasPrefix l [CHR ''/'', CHR 0x5C] \<and>
     (\<exists>uri. CHR 0x5C \<in> set uri \<and> l = hexEscapeNonASCII (redirect_target uri))"

lemma redirect_location_ok: "location_ok (hexEscapeNonASCII (redirect_target (safeRedirect uri)))"
proof -
  let ?u = "safeRedirect uri"
  have s: "same_site ?u" by (rule safeRedirect_same_site)
  show ?thesis
  proof (cases "CHR 0x5C \<in> set ?u")
    case False
    then show ?thesis using hexEscape_same_site [OF redirect_target_same_site [OF s]] by (simp add: location_ok_def)
  next
    case True
    have "rooted (redirect_target ?u)" using s by (intro redirect_target_rooted) (simp add: rooted_def)
    then consider "same_site (redirect_target ?u)" | r where "redirect_target ?u = CHR ''/'' # CHR 0x5C # r"
      by (auto simp: rooted_def hasPrefix_def prefix_def)
    then show ?thesis
    proof cases
      case 1
      then show ?thesis using hexEscape_same_site by (simp add: location_ok_def)
    next
      case 2
      then have "hasPrefix (hexEscapeNonASCII (redirect_target ?u)) [CHR ''/'', CHR 0x5C]"
        by (simp add: hexEscapeNonASCII_def hasPrefix_def)
      then show ?thesis using True by (auto simp: location_ok_def)
    qed
  qed
qed

subsection \<open>Which answers carry a location or a retry URL\<close>

definition no_location :: "http_header \<Rightarrow> bool" where
  "no_location h \<longleftrightarrow> map_of h ''Location'' = None"

lemma no_location_Get: "no_location h \<Longrightarrow> hdr_Get h ''Location'' = ''''"
  by (simp add: no_location_def hdr_Get_def hdr_Values_def)

lemma no_location_simps [simp]:
  "no_location []" "no_location h \<Longrightarrow> no_location (mdel k h)"
  "k \<noteq> ''Location'' \<Longrightarrow> no_location (mput k v h) = no_location h" "no_location ((k, v) # h) \<longleftrightarrow> k \<noteq> ''Location'' \<and> no_location h"
  "canonicalKey k \<noteq> ''Location'' \<Longrightarrow> no_location (hdr_Set k x h) = no_location h"
  by (simp_all add: no_location_def hdr_Set_def gomap_simps)

lemma no_location_security [simp]: "no_location (securityHeaders csp fo h) = no_location h"
  by (simp add: securityHeaders_def Let_def)

lemma answer_header_names [simp]:
  "canonicalKey ''Content-Type'' = ''Content-Type''" "canonicalKey ''X-Content-Type-Options'' = ''X-Content-Type-Options''"
  "canonicalKey ''Cache-Control'' = ''Cache-Control''"
  by code_simp+

definition stays_on_site :: "http_response \<Rightarrow> bool" where
  "stays_on_site r \<longleftrightarrow>
     (hdr_Get (rs_Header r) ''Location'' = '''' \<or> location_ok (hdr_Get (rs_Header r) ''Location'')) \<and>
     (\<forall>v u. rs_Body r = JsonBody v \<and> (''retry_url'', JString u) \<in> set v \<longrightarrow> same_site u)"

lemma stays_simps [simp]:
  "no_location h \<Longrightarrow> stays_on_site (http_Error msg n h)"
  "no_location h \<Longrightarrow> \<forall>x \<in> set v. \<forall>u. x = (''retry_url'', JString u) \<longrightarrow> same_site u \<Longrightarrow> stays_on_site (writeJSON n v h)"
  "stays_on_site (http_Redirect (safeRedirect uri) n h)"
  "stays_on_site (r\<lparr>rs_Cookie := ck\<rparr>) = stays_on_site r"
  using redirect_location_ok
  by (auto simp: stays_on_site_def http_Error_def writeJSON_def http_Redirect_def respond_def no_location_Get)

lemma refuse_stays [simp]: "stays_on_site (refuseChallenge msg)"
  unfolding refuseChallenge_def by (rule stays_simps(1)) simp

lemma stays_respond: "no_location h \<Longrightarrow> (\<And>v. b \<noteq> JsonBody v) \<Longrightarrow> stays_on_site (respond n h b)"
  by (simp add: stays_on_site_def respond_def no_location_Get)

lemma redeem_stays: "stays_on_site (fst (redeem env q rq el st))"
proof -
  have "stays_on_site (fst (redeem_refused env rq' e ra st1))" for rq' e ra st1
    by (simp add: redeem_refused_def redeem_failed_def Let_def)
  moreover have "stays_on_site (fst (redeem_handover env rq' res st1))" for rq' res st1
    by (simp add: redeem_handover_def Let_def safeRedirect_same_site)
  moreover have "stays_on_site (fst (redeem_solved env q rq' el res st1))" for rq' res st1
    by (simp add: redeem_solved_def Let_def)
  ultimately show ?thesis
    by (simp add: redeem_def redeem_unavailable_def Let_def split: option.split prod.split sum.split redeem_outcome.split)
qed

lemma handlers_stay:
  "stays_on_site (fst (handleAuth env q st))" "stays_on_site (fst (handleChallenge env q st))"
  "stays_on_site (fst (handlePassSolve env q st))" "stays_on_site (fst (handlePassNoJS env q st))"
  "stays_on_site (fst (handleDenied env q st))" "stays_on_site (fst (handleHealthz env q st))"
proof -
  have "stays_on_site (shed_response v)" for v
    by (simp add: shed_response_def stays_respond Let_def split: shed_verdict.split)
  moreover have "hdrRefusal \<noteq> ''Location''" "hdrDifficulty \<noteq> ''Location''" by (simp_all add: hdrRefusal_def hdrDifficulty_def)
  then have "no_location (hdr_Set ''X-Guardian-Reason'' x h) = no_location h" "no_location (hdr_Set ''X-Guardian-Action'' x h) = no_location h"
    "no_location (hdr_Set ''X-Guardian-PoW-Exemption'' x h) = no_location h" "no_location (hdr_Set hdrRefusal x h) = no_location h"
    "no_location (hdr_Set hdrDifficulty x h) = no_location h" for x h
    by simp_all
  then have "stays_on_site (decision_response h d)" for h d
    by (simp add: decision_response_def stays_respond Let_def split: action.split)
  ultimately show "stays_on_site (fst (handleAuth env q st))"
    by (simp add: handleAuth_def Let_def split: prod.split)
  have page: "no_location page_headers" by (simp add: page_headers_def)
  then have "stays_on_site (fst (serve_challenge env h host ip uri p m pipe))" for h host ip uri p m pipe
    by (simp add: serve_challenge_def challenge_page_def stays_respond Let_def split: prod.split sum.split)
  then have "stays_on_site r" if "serve_challenge env h host ip uri p m pipe = (r, pipe')" for h host ip uri p m pipe r pipe'
    by (metis that fst_conv)
  then show "stays_on_site (fst (handleChallenge env q st))"
    using page by (simp add: handleChallenge_def Let_def split: option.split prod.split bool.split)
  show "stays_on_site (fst (handlePassSolve env q st))" "stays_on_site (fst (handlePassNoJS env q st))"
    by (simp_all add: handlePassSolve_def handlePassNoJS_def redeem_stays split: option.split)
  show "stays_on_site (fst (handleDenied env q st))" "stays_on_site (fst (handleHealthz env q st))"
    by (simp_all add: handleDenied_def handleHealthz_def stays_respond)
qed

text \<open>
  The exception is real: cleaning the path undoes the confinement of a target whose dot segment hides a backslash.
  The stored URI \<^verbatim>\<open>/./\evil.test\<close> passes the check and leaves as \<^verbatim>\<open>/\evil.test\<close>, which a browser reads as
  \<^verbatim>\<open>//evil.test\<close>.
\<close>

lemma dot_segment_escapes_safeRedirect:
  fixes uri
  defines "uri \<equiv> ''/./'' @ CHR 0x5C # ''evil.test''"
  shows "safeRedirect uri = uri" "hexEscapeNonASCII (redirect_target uri) = [CHR ''/'', CHR 0x5C] @ ''evil.test''" "\<not> same_site (hexEscapeNonASCII (redirect_target uri))"
  unfolding uri_def by code_simp+

text \<open>
  C18 (safety). A client is only ever sent back to a path of the site it came from. Whatever the server answers on any of its
  routes, with whatever URIs its store and its clients supply, the retry URL of a network hand-over is a path of the same
  site, and so is every \<^verbatim>\<open>Location\<close>, after \<^verbatim>\<open>http.Redirect\<close> has cleaned and escaped it, with one exception the code
  lets through: a \<^verbatim>\<open>Location\<close> that starts with a slash and a backslash, made from a URI that contains a backslash
  (\<open>dot_segment_escapes_safeRedirect\<close>).
\<close>

theorem redirects_stay_on_site:
  assumes "serveHTTP env path q st = Some (r, st')"
  shows "(hdr_Get (rs_Header r) ''Location'' = '''' \<or> same_site (hdr_Get (rs_Header r) ''Location'') \<or>
      hasPrefix (hdr_Get (rs_Header r) ''Location'') [CHR ''/'', CHR 0x5C] \<and>
      (\<exists>uri. CHR 0x5C \<in> set uri \<and> hdr_Get (rs_Header r) ''Location'' = hexEscapeNonASCII (redirect_target uri))) \<and>
    (\<forall>v u. rs_Body r = JsonBody v \<and> (''retry_url'', JString u) \<in> set v \<longrightarrow> same_site u)"
proof -
  have px: "stays_on_site (fst (proxiedOnly hd env q st))" if "stays_on_site (fst (hd env q st))" for hd
    using that by (simp add: proxiedOnly_def)
  have "stays_on_site r"
    using assms handlers_stay [of env q st] px [of handleAuth] px [of handleChallenge] px [of handlePassSolve] px [of handlePassNoJS]
    by (auto simp: serveHTTP_def Let_def split: if_splits)
  then show ?thesis unfolding stays_on_site_def location_ok_def by blast
qed

section \<open>Admission under concurrency\<close>

text \<open>
  The two gates as the threads interleave on them. A request adds itself to the counter and remembers the value it
  got; it then evaluates, or takes itself off again. A verification loads the counter and tries to swap in
  one more, starting over when another thread was faster. A thread that holds no unit and has not loaded is not in the state.
\<close>

datatype gate_phase = Arrived int | Evaluating

inductive auth_gate :: "int \<Rightarrow> int \<times> gate_phase multiset \<Rightarrow> bool" for bound where
  ag_start: "auth_gate bound (0, {#})"
| ag_arrive: "auth_gate bound (n, T) \<Longrightarrow> auth_gate bound (n + 1, add_mset (Arrived (n + 1)) T)"
| ag_admit: "auth_gate bound (n, add_mset (Arrived c) T) \<Longrightarrow> \<not> over_bound bound c \<Longrightarrow> auth_gate bound (n, add_mset Evaluating T)"
| ag_shed: "auth_gate bound (n, add_mset (Arrived c) T) \<Longrightarrow> over_bound bound c \<Longrightarrow> auth_gate bound (n - 1, T)"
| ag_done: "auth_gate bound (n, add_mset Evaluating T) \<Longrightarrow> auth_gate bound (n - 1, T)"

datatype slot_phase = Loaded int | Verifying

inductive argon_gate :: "int \<Rightarrow> int \<times> slot_phase multiset \<Rightarrow> bool" for maxConcurrent where
  av_start: "argon_gate maxConcurrent (0, {#})"
| av_load: "argon_gate maxConcurrent (n, T) \<Longrightarrow> slot_free maxConcurrent n \<Longrightarrow> argon_gate maxConcurrent (n, add_mset (Loaded n) T)"
| av_swap: "argon_gate maxConcurrent (n, add_mset (Loaded n) T) \<Longrightarrow> argon_gate maxConcurrent (n + 1, add_mset Verifying T)"
| av_retry: "argon_gate maxConcurrent (n, add_mset (Loaded c) T) \<Longrightarrow> c \<noteq> n \<Longrightarrow> argon_gate maxConcurrent (n, T)"
| av_release: "argon_gate maxConcurrent (n, add_mset Verifying T) \<Longrightarrow> argon_gate maxConcurrent (n - 1, T)"

definition admitted :: "int \<Rightarrow> gate_phase \<Rightarrow> bool" where
  "admitted bound ph = (case ph of Evaluating \<Rightarrow> True | Arrived c \<Rightarrow> \<not> over_bound bound c)"

lemma auth_gate_inv:
  assumes "auth_gate bound (n, T)" "0 < bound"
  shows "n = int (size T) \<and> int (size (filter_mset (admitted bound) T)) \<le> bound"
  using assms(1)
proof (induction "(n, T)" arbitrary: n T rule: auth_gate.induct)
  case (ag_arrive n T)
  have "size (filter_mset (admitted bound) T) \<le> size T" by (rule size_filter_mset_lesseq)
  then have "int (size (filter_mset (admitted bound) T)) \<le> n" using ag_arrive(2) by linarith
  then have "\<not> over_bound bound (n + 1) \<Longrightarrow> int (size (filter_mset (admitted bound) T)) + 1 \<le> bound"
    using assms(2) unfolding over_bound_def by linarith
  then show ?case using ag_arrive(2) by (auto simp: admitted_def)
qed (use assms(2) in \<open>auto simp: admitted_def split: if_splits\<close>)

lemma argon_gate_inv:
  assumes "argon_gate maxConcurrent (n, T)" "0 \<le> maxConcurrent"
  shows "n = int (count T Verifying) \<and> n \<le> maxConcurrent \<and> (\<forall>c. Loaded c \<in># T \<longrightarrow> c < maxConcurrent)"
  using assms(1)
proof (induction "(n, T)" arbitrary: n T rule: argon_gate.induct)
  case (av_swap n T)
  then have "n < maxConcurrent" by (metis union_single_eq_member)
  then show ?case using av_swap by auto
qed (use assms(2) in \<open>auto simp: slot_free_def\<close>)

text \<open>
  C17 (invariant). Both admission bounds hold under every interleaving of the atomic operations: with a positive bound no more
  than that many requests are ever evaluated at once, whatever number arrive and are shed, and no more memory-hard
  verifications run at once than the configured slots, however the compare-and-swap loops race. Both
  counters return to exactly the number of threads they account for.
\<close>

theorem admission_bounds_hold:
  assumes "auth_gate bound (n, T)" "0 < bound" "argon_gate maxConcurrent (k, S)" "0 \<le> maxConcurrent"
  shows "int (count T Evaluating) \<le> bound \<and> n = int (size T) \<and> int (count S Verifying) \<le> maxConcurrent \<and> k = int (count S Verifying)"
proof -
  have "count T Evaluating \<le> size (filter_mset (admitted bound) T)"
    using count_le_size [of "filter_mset (admitted bound) T" Evaluating] by (simp add: admitted_def)
  then show ?thesis using auth_gate_inv [OF assms(1,2)] argon_gate_inv [OF assms(3,4)] by linarith
qed

theorem admission_bounds_hold_witness:
  "auth_gate 1 (2, {#Arrived 2, Evaluating#}) \<and> argon_gate 1 (1, {#Verifying#}) \<and> int (count {#Arrived 2, Evaluating#} Evaluating) \<le> 1"
proof -
  have "auth_gate 1 (0 + 1, add_mset (Arrived (0 + 1)) {#})" by (rule ag_arrive [OF ag_start])
  then have "auth_gate 1 (1, add_mset (Arrived 1) {#})" by simp
  from ag_admit [OF this] have "auth_gate 1 (1, add_mset Evaluating {#})" by (simp add: over_bound_def)
  from ag_arrive [OF this] have a: "auth_gate 1 (2, {#Arrived 2, Evaluating#})" by simp
  have "argon_gate 1 (0, add_mset (Loaded 0) {#})" by (rule av_load [OF av_start]) (simp add: slot_free_def)
  from av_swap [OF this] have v: "argon_gate 1 (1, {#Verifying#})" by simp
  show ?thesis using admission_bounds_hold [OF a _ v] a v by simp
qed

section \<open>Retry delays\<close>

definition window_seconds :: "rate \<Rightarrow> int" where
  "window_seconds limit = go_div (rate_window limit) second"

lemma window_seconds_pos: "1 \<le> window_seconds limit"
  by (auto simp: window_seconds_def rate_window_def second_def go_div_nonneg)

text \<open>
  The delay a limited redemption is told to wait is at least a second, at most one window, and exact: a client that
  waits it falls into the window right after the one it exhausted, and so under a fresh counter; one second less would
  not do.
\<close>

theorem retry_after_reaches_next_window:
  assumes "redemptionRateLimitExceededAt h pre host ip asn limit now c = (Some ra, c')" "0 \<le> now"
  defines "w \<equiv> window_seconds limit" and "secs \<equiv> retryAfterSeconds ra"
  shows "1 \<le> secs \<and> secs \<le> w \<and> go_div (unix_seconds (now + secs * second)) w = go_div (unix_seconds now) w + 1 \<and>
    go_div (unix_seconds (now + (secs - 1) * second)) w = go_div (unix_seconds now) w"
proof -
  define u where "u = unix_seconds now"
  have u: "0 \<le> u" using assms(2) by (simp add: u_def unix_seconds_def second_def)
  have w: "1 \<le> w" unfolding w_def by (rule window_seconds_pos)
  have "ra = (w - go_rem u w) * second"
    using assms(1) by (auto simp: redemptionRateLimitExceededAt_def Let_def window_seconds_def w_def u_def split: prod.splits if_splits)
  moreover have r: "go_rem u w = u mod w" using u w by (simp add: go_rem_def go_div_nonneg minus_mult_div_eq_mod)
  ultimately have ra: "ra = (w - u mod w) * second" by simp
  have m: "0 \<le> u mod w" "u mod w < w" using w by simp_all
  have "retryAfterSeconds (k * second) = max 1 k" if "0 < k" for k
    using that by (simp add: retryAfterSeconds_def second_def go_div_nonneg)
  then have s: "secs = w - u mod w" using m by (simp add: secs_def ra)
  have t: "unix_seconds (now + k * second) = u + k" for k by (simp add: unix_seconds_def u_def second_def)
  have "u + (w - u mod w) = w * (u div w + 1)" using mult_div_mod_eq [of w u] by (simp add: algebra_simps)
  then have next_w: "(u + (w - u mod w)) div w = u div w + 1" using w by simp
  have "u + (w - u mod w - 1) = (w - 1) + (u div w) * w" using mult_div_mod_eq [of w u] by (simp add: algebra_simps)
  then have "(u + (w - u mod w - 1)) div w = ((w - 1) + (u div w) * w) div w" by (simp only:)
  also have "\<dots> = u div w" using w by (simp only: div_mult_self1) (simp add: div_pos_pos_trivial)
  finally have "(u + (w - u mod w - 1)) div w = u div w" .
  moreover have k: "1 \<le> w - u mod w" "w - u mod w \<le> w" "0 \<le> u + (w - u mod w)" "0 \<le> u + (w - u mod w - 1)" using m u by linarith+
  ultimately show ?thesis unfolding s t u_def [symmetric] using u w next_w by (simp add: go_div_nonneg)
qed

section \<open>Witnesses\<close>

text \<open>A hash that always has enough zero bits; otherwise the sized primitives.\<close>

definition easy_env :: "nat pow_env" where
  "easy_env = sized_env\<lparr>env_sha256 := (\<lambda>_. replicate 32 (CHR 0x00))\<rparr>"

definition example_live :: live_config where
  "example_live = \<lparr>lv_snap = Some (uniform_config (with_pow True (validated_cfg no_list))), lv_last = uniform_config (validated_cfg no_list),
     lv_RequireProxied = False, lv_MaxInflight = 0, lv_MaxConcurrent = 1, lv_VerificationRateLimit = \<lparr>rt_Count = 10, rt_Per = minute\<rparr>\<rparr>"

definition example_server :: "nat pow_env \<Rightarrow> (sharded_memory, nat, unit) server_env" where
  "example_server pe = \<lparr>sv_stage = example_stage_env\<lparr>se_powenv := pe\<rparr>, sv_live = example_live, sv_hash = (\<lambda>_ _. 0), sv_uid = example_id,
     sv_salt = zero_salt, sv_random = [], sv_mediaType = Some,
     sv_unmarshal = (\<lambda>_. Some \<lparr>sb_ChallengeID = example_id, sb_Nonce = ''7'', sb_Proof = '''', sb_ElapsedMS = 0\<rparr>)\<rparr>"

definition example_server_state :: "(sharded_memory, nat) server_state" where
  "example_server_state = \<lparr>ss_pipe = example_pipe_state, ss_counters = NewCounterCache, ss_ring = newRecentRing 0 4, ss_inflight = 0, ss_argonInflight = 0\<rparr>"

definition example_get :: "string \<Rightarrow> string \<Rightarrow> http_request" where
  "example_get dest acc = \<lparr>hq_Host = ''a.test'', hq_Method = ''GET'', hq_RequestURI = ''/admin/x?q=1'', hq_RemoteAddr = ''192.0.2.7'',
     hq_Header = [(''User-Agent'', [''curl'']), (''Sec-Fetch-Dest'', [dest]), (''Accept'', [acc]), (''Content-Type'', [''application/json''])],
     hq_Query = [], hq_Body = []\<rparr>"

lemma fixed_header_names:
  "canonicalKey ''User-Agent'' = ''User-Agent''" "canonicalKey ''Cookie'' = ''Cookie''" "canonicalKey ''Content-Type'' = ''Content-Type''"
  "canonicalKey hdrHost = hdrHost" "canonicalKey hdrMethod = hdrMethod" "canonicalKey hdrURI = hdrURI" "canonicalKey hdrIP = hdrIP"
  "canonicalKey hdrUA = hdrUA" "canonicalKey hdrCookie = hdrCookie" "canonicalKey hdrProto = hdrProto"
  unfolding hdrHost_def hdrMethod_def hdrURI_def hdrIP_def hdrUA_def hdrCookie_def hdrProto_def by code_simp+

lemmas server_header_defs = hdrHost_def hdrMethod_def hdrURI_def hdrIP_def hdrUA_def hdrCookie_def hdrProto_def hdrRefusal_def
  hdrDifficulty_def hdrSecFetchDest_def hdrSecFetchSite_def hdrSecFetchMode_def hdrAccept_def

lemma example_absent:
  assumes "canonicalKey n = n" "n \<notin> {''User-Agent'', ''Sec-Fetch-Dest'', ''Accept'', ''Content-Type''}"
  shows "hdr_Get (hq_Header (example_get dest acc)) n = ''''"
  using assms by (simp add: hdr_Get_def hdr_Values_def example_get_def)

lemma example_lookup:
  "hdr_Get (hq_Header (example_get dest acc)) hdrSecFetchDest = dest" "hdr_Values (hq_Header (example_get dest acc)) hdrAccept = [acc]"
  "hdr_Get (hq_Header (example_get dest acc)) ''User-Agent'' = ''curl''"
  "hdr_Get (hq_Header (example_get dest acc)) ''Content-Type'' = ''application/json''"
  unfolding hdr_Get_def hdr_Values_def fixed_header_names canon_fixed
  by (simp_all add: example_get_def hdrSecFetchDest_def hdrAccept_def)

lemma example_missing:
  "hdr_Get (hq_Header (example_get dest acc)) ''Cookie'' = ''''" "hdr_Get (hq_Header (example_get dest acc)) hdrHost = ''''"
  "hdr_Get (hq_Header (example_get dest acc)) hdrMethod = ''''" "hdr_Get (hq_Header (example_get dest acc)) hdrURI = ''''"
  "hdr_Get (hq_Header (example_get dest acc)) hdrIP = ''''" "hdr_Get (hq_Header (example_get dest acc)) hdrUA = ''''"
  "hdr_Get (hq_Header (example_get dest acc)) hdrCookie = ''''" "hdr_Get (hq_Header (example_get dest acc)) hdrProto = ''''"
  "hdr_Get (hq_Header (example_get dest acc)) hdrRefusal = ''''" "hdr_Get (hq_Header (example_get dest acc)) hdrDifficulty = ''''"
  "hdr_Get (hq_Header (example_get dest acc)) hdrSecFetchSite = ''''" "hdr_Get (hq_Header (example_get dest acc)) hdrSecFetchMode = ''''"
  by (rule example_absent, simp add: fixed_header_names, simp add: server_header_defs)+

lemma example_context:
  "fillRequestContext (example_get dest acc) = sample_request\<lparr>ctx_Header := ctx_Header (fillRequestContext (example_get dest acc)),
     ctx_Unchallengeable := (refusalKind (hq_Header (example_get dest acc)) \<noteq> '''')\<rparr>"
  by (simp add: fillRequestContext_def headerOr_def Let_def example_lookup example_missing sample_request_def stripPort_def splitHost_def) (simp add: example_get_def)

lemma accept_any_refused: "refusalKind (hq_Header (example_get '''' ''*/*'')) = outcomeAcceptRefused"
  unfolding refusalKind_def example_lookup
  by (simp add: example_missing isSubresourceDest_def isDocumentDest_def isFramedDest_def modeNavigate_def)
    (simp add: acceptLooksNonNavigational_def classify_element_def cut_byte_def before_byte_def trimSpace_def trim_with_def
        is_space_def isToken_def token_byte_def EqualFold_def toLower_def ascii_lower_def Let_def)

lemma document_not_refused: "refusalKind (hq_Header (example_get ''document'' acc)) = ''''"
  by (rule document_never_refused) (simp add: example_lookup isDocumentDest_def)

theorem challenge_hop_obeys_auth_hop_witness:
  "\<exists>r st'. handleAuth (example_server example_env) (example_get '''' ''*/*'') example_server_state = (r, st') \<and>
     rd_Action (hd (rg_contents (ss_ring st'))) = ''refuse'' \<and>
     rs_Status (fst (handleChallenge (example_server easy_env)
       ((example_get ''document'' ''text/html'')\<lparr>hq_Header := rs_Header r\<rparr>) example_server_state)) = 403"
proof -
  let ?cfg = "uniform_config (with_pow True (validated_cfg no_list))"
  define req where "req = fillRequestContext (example_get '''' ''*/*'')"
  define h where "h = ctx_Header req"
  have q: "req = sample_request\<lparr>ctx_Header := h, ctx_Unchallengeable := True\<rparr>"
    unfolding req_def h_def by (subst example_context) (simp add: accept_any_refused refusal_words)
  have f: "ctx_RemoteAddr req = ctx_RemoteAddr sample_request" "ctx_Cookie req = ''''" "ctx_Unchallengeable req"
      "LowerUA req = LowerUA sample_request" "MatchAllowlist req no_list = MatchAllowlist sample_request no_list"
      "CheckDenylist req no_list = CheckDenylist sample_request no_list"
    unfolding q by (simp_all add: example_facts LowerUA_def MatchAllowlist_def CheckDenylist_def NormalizedPath_def parsed_match_def)
  obtain st2 where run: "run_stages stages (request_env ?cfg example_stage_env req example_pipe_state) req example_pipe_state =
      (Some ((verdict ActionChallenge ''pow:no_token'' [])\<lparr>dc_Difficulty := fst (effBits (request_env ?cfg example_stage_env req example_pipe_state))\<rparr>), st2)"
    using example_run_pow_of [of req] f example_facts by auto
  from example_Evaluate [OF this] obtain d pipe where d: "eng_Evaluate (Some ?cfg) example_stage_env req example_pipe_state = (d, pipe)"
      "dc_Action d = ActionRefuse"
    using f(3) by (auto simp: withhold_def RefusesUnchallengeable_def with_pow_def validated_cfg_def plain_domain_def)
  have stage: "sv_stage (example_server example_env) = example_stage_env" by (simp add: example_server_def example_stage_env_def)
  have live: "lv_snap (sv_live (example_server example_env)) = Some ?cfg" "lv_MaxInflight (sv_live (example_server example_env)) = 0"
      "ss_pipe example_server_state = example_pipe_state"
    by (simp_all add: example_server_def example_live_def example_server_state_def)
  obtain r st' where a: "handleAuth (example_server example_env) (example_get '''' ''*/*'') example_server_state = (r, st')"
      "r = decision_response (hq_Header (example_get '''' ''*/*'')) d"
    using d(1) live by (auto simp: handleAuth_def stage over_bound_def req_def [symmetric] Let_def)
  have s: "rs_Status r = 401" using a(2) d(2) by (simp add: decision_response_def Let_def)
  have ring: "ring_ok (ss_ring example_server_state)" by (simp add: example_server_state_def ring_ok_new)
  have rel: "hdr_Get (rs_Header r) hdrRefusal = outcomeAcceptRefused" using a(2) d(2) by (simp add: auth_relayed_refusal accept_any_refused)
  have "rs_Status (fst (handleChallenge (example_server easy_env) ((example_get ''document'' ''text/html'')\<lparr>hq_Header := rs_Header r\<rparr>) example_server_state)) = 403"
    by (rule conjunct1 [OF challenge_hop_refuses [of _ outcomeAcceptRefused]]) (simp_all add: relayed_kind rel)
  then show ?thesis
    using challenge_hop_obeys_auth_hop [OF a(1) s ring, of "(example_get ''document'' ''text/html'')\<lparr>hq_Header := rs_Header r\<rparr>" "example_server easy_env" example_server_state] a(1)
    by auto
qed


text \<open>A served page: the first request of a client from an empty cache and store.\<close>

lemma fresh_count: "\<exists>b c. cc_Incr h now key ttl NewCounterCache = (1, b, c)"
  by (simp add: cc_Incr_def NewCounterCache_def makeCounterRoomLocked_def count_entry_def maxCounterEntries_def wrap64_def Let_def case_prod_beta)

lemma example_scope: "ConfigFor (engine_Config (sv_live (example_server pe))) host uri = with_pow True (validated_cfg no_list)"
  by (simp add: example_server_def example_live_def engine_Config_def ConfigFor_def DomainFor_def ForPath_def uniform_config_def small_config_def)

lemma example_bits: "BaseBits (dm_PoW (with_pow True (validated_cfg no_list))) = 16" "MaxBits (dm_PoW (with_pow True (validated_cfg no_list))) = 20"
  by (simp_all add: with_pow_def validated_cfg_def plain_domain_def BaseBits_def MaxBits_def difficultyBits_def go_round_def floor_eq_iff)

lemma example_bump: "\<exists>m'. BumpEscalation h now host ip ttl (newManagerWithRetiredKeys example_env 0 []) = (0, m')"
  using fresh_count [of h now "escalationKey escalationPrefix host ip" ttl]
  by (auto simp: BumpEscalation_def bump_def newManagerWithRetiredKeys_def escalationFreeIssues_def Let_def)

lemma example_server_fields [simp]:
  "se_powenv (sv_stage (example_server pe)) = pe" "se_ops (sv_stage (example_server pe)) = sm_ops" "sv_now (example_server pe) = 30"
  "sv_uid (example_server pe) = example_id" "sv_salt (example_server pe) = zero_salt" "se_disk (sv_stage (example_server pe)) = example_disk"
  "pl_store (ss_pipe example_server_state) = fresh_memory" "pl_pow (ss_pipe example_server_state) = Some (newManagerWithRetiredKeys example_env 0 [])"
  "ps_ExtraBits (current_posture (ss_pipe example_server_state)) = 0" "\<not> ps_Stateless (current_posture (ss_pipe example_server_state))"
  by (simp_all add: example_server_def example_stage_env_def example_server_state_def example_pipe_state_def current_posture_def)

lemma example_page:
  fixes acc
  defines "q \<equiv> example_get ''document'' acc"
  shows "\<exists>r st' pl nojs refresh. handleChallenge (example_server easy_env) q example_server_state = (r, st') \<and> rs_Body r = ChallengePage pl nojs refresh \<and>
    cp_ChallengeID pl = example_id \<and> cp_Algorithm pl = AlgorithmSHA256 \<and> cp_Difficulty pl = 16"
proof -
  let ?p = "dm_PoW (with_pow True (validated_cfg no_list))" and ?host = "headerOr q hdrHost (hq_Host q)" and ?uri = "headerOr q hdrURI ''/''"
    and ?env = "example_server easy_env" and ?m = "newManagerWithRetiredKeys example_env 0 []" and ?pipe = "ss_pipe example_server_state"
  have k: "challenge_refusal dc (hq_Header q) = ''''" for dc
    by (simp add: challenge_refusal_def relayedRefusal_def q_def example_missing document_not_refused refusal_words Let_def)
  have p: "pw_Enabled ?p" "pw_IssuanceRateLimit ?p = \<lparr>rt_Count = 60, rt_Per = minute\<rparr>" "\<not> UsesArgon2ID ?p"
    by (simp_all add: with_pow_def validated_cfg_def plain_domain_def UsesArgon2ID_def)
  obtain c where rl: "rateLimitExceededAt (sv_hash ?env) ''chrl'' ?host (clientIP q) (pw_IssuanceRateLimit ?p) 30 (ss_counters example_server_state) = (False, c)"
    using fresh_count [of "sv_hash ?env" 30 "rate_key ''chrl'' ?host (clientIP q) (pw_IssuanceRateLimit ?p) 30" "2 * rate_window (pw_IssuanceRateLimit ?p)"]
    by (auto simp: rateLimitExceededAt_def example_server_state_def p)
  have w: "challenge_window (current_posture ?pipe) ?p = (16, 20)" by (simp add: challenge_window_def EffectiveBits_def example_bits)
  obtain m' where "BumpEscalation (sv_hash ?env) 30 ?host (clientIP q) (pw_ChallengeTTL ?p) ?m = (0, m')" using example_bump by blast
  then have e: "escalate_challenge ?env (hq_Header q) ?host (clientIP q) ?p 16 20 (relayed_difficulty (hq_Header q) 16 20) ?m ?pipe = (16, ?pipe\<lparr>pl_pow := Some m'\<rparr>)"
    by (simp add: escalate_challenge_def unscorableFrame_def isFramedDest_def isForeignSite_def q_def example_lookup example_missing
        relayed_difficulty_def Let_def)
  define spec where "spec = challenge_spec (current_posture ?pipe) ?p 16 16"
  have sv: "spec_validate spec = Inr ()" "length (ps_Salt spec) = argon2SaltSize"
    by (simp_all add: spec_def challenge_spec_def p spec_validate_def spec_algorithm_def zero_salt_def)
  have env: "digest_sizes easy_env" "length zero_salt = argon2SaltSize" "int64 (30 div 10 ^ 6)"
    by (simp_all add: digest_sizes_def easy_env_def sized_env_def example_env_def zero_salt_def int64_def minInt64_def maxInt64_def min_def)
  have fit: "issue_fits ?host (clientIP q) ?uri"
    by (simp add: issue_fits_def headerOr_def clientIP_def q_def example_missing Let_def) (simp add: example_get_def stripPort_def splitHost_def record_defs)
  obtain raw where enc: "encodeChallengeRecord (issued_record easy_env 30 example_id ?host (clientIP q) ?uri (with_salt zero_salt spec) (pw_NoScriptFallback ?p) m') = Inr raw"
    using issued_record_encodes(2) [OF env(1) sv env(2) fit env(3) refl] by blast
  obtain x s1 where i: "IssueWithSpec easy_env sm_ops 30 example_id zero_salt ?host (clientIP q) ?uri spec (pw_ChallengeTTL ?p) (pw_NoScriptFallback ?p) m' fresh_memory = (x, s1)"
    by fastforce
  obtain ch where x: "x = Inr ch" and ch: "ch_ID ch = example_id" "ch_Algorithm ch = AlgorithmSHA256" "ch_Difficulty ch = 16"
    by (rule that [OF mem.issue_stores(1) [OF fresh_memory_ok fresh_memory_live sv(1) refl enc i]])
      (simp_all add: spec_def challengeFromSpec_def challenge_spec_def p with_salt_def spec_algorithm_def)
  obtain pl b t where pg: "ChallengePage pl b t = challenge_page ?p (pm_NoJSMinDelay ?m) ch" unfolding challenge_page_def Let_def by blast
  have ic: "issue_challenge ?env (current_posture ?pipe) ?host (clientIP q) ?uri spec ?p (?pipe\<lparr>pl_pow := Some m'\<rparr>) = (Inr ch, ?pipe\<lparr>pl_pow := Some m', pl_store := s1\<rparr>)"
    using i x by (simp add: issue_challenge_def)
  obtain pipe2 where sc: "serve_challenge ?env (hq_Header q) ?host (clientIP q) ?uri ?p ?m ?pipe = (respond 200 page_headers (challenge_page ?p (pm_NoJSMinDelay ?m) ch), pipe2)"
    unfolding serve_challenge_def Let_def w prod.case e spec_def [symmetric] ic by simp
  obtain st' where "handleChallenge ?env q example_server_state = (respond 200 page_headers (challenge_page ?p (pm_NoJSMinDelay ?m) ch), st')"
    using k rl p sc by (simp add: handleChallenge_def Let_def example_scope refusal_words)
  then show ?thesis using page_fields [OF pg] ch unfolding pg [symmetric] by (fastforce simp: respond_def)
qed

theorem served_difficulty_in_policy_witness:
  "\<exists>r st' pl nojs refresh. handleChallenge (example_server easy_env) (example_get ''document'' ''text/html'') example_server_state = (r, st') \<and>
     rs_Body r = ChallengePage pl nojs refresh \<and> 16 \<le> cp_Difficulty pl \<and> cp_Difficulty pl \<le> 20"
proof -
  obtain r st' pl nojs refresh where h: "handleChallenge (example_server easy_env) (example_get ''document'' ''text/html'') example_server_state = (r, st')"
    "rs_Body r = ChallengePage pl nojs refresh" using example_page by blast
  have w: "challenge_window (current_posture (ss_pipe example_server_state)) (dm_PoW (with_pow True (validated_cfg no_list))) = (16, 20)"
    by (simp add: challenge_window_def EffectiveBits_def example_bits)
  have "\<not> UsesArgon2ID (dm_PoW (with_pow True (validated_cfg no_list)))"
    by (simp add: with_pow_def validated_cfg_def plain_domain_def UsesArgon2ID_def)
  then show ?thesis
    using served_difficulty_in_policy [OF h example_scope [symmetric] example_no_list(2) _ w] h by auto
qed

theorem retry_after_reaches_next_window_witness:
  "\<exists>c'. redemptionRateLimitExceededAt (\<lambda>_ _. 0) ''njsrl'' ''a'' ''1'' 0 \<lparr>rt_Count = 0, rt_Per = minute\<rparr> 30 NewCounterCache = (Some (60 * second), c') \<and>
     retryAfterSeconds (60 * second) \<le> window_seconds \<lparr>rt_Count = 0, rt_Per = minute\<rparr>"
proof -
  let ?l = "\<lparr>rt_Count = 0, rt_Per = minute\<rparr>"
  obtain b c where "cc_Incr (\<lambda>_ _. 0) 30 (rate_key ''njsrl:ip'' ''a'' ''1'' ?l 30) (2 * rate_window ?l) NewCounterCache = (1, b, c)"
    using fresh_count by blast
  then have h: "redemptionRateLimitExceededAt (\<lambda>_ _. 0) ''njsrl'' ''a'' ''1'' 0 ?l 30 NewCounterCache = (Some (60 * second), c)"
    by (simp add: redemptionRateLimitExceededAt_def rateLimitExceededAt_def rate_window_def go_rem_def go_div_def unix_seconds_def second_def minute_def Let_def)
  show ?thesis using retry_after_reaches_next_window [OF h] h by auto
qed

theorem redirects_stay_on_site_witness:
  "\<exists>r st'. serveHTTP (example_server easy_env) ''/pass'' ((example_get ''document'' ''text/html'')
       \<lparr>hq_Query := [(''nojs'', ''1''), (''cid'', example_id)]\<rparr>) example_server_state = Some (r, st') \<and>
     (hdr_Get (rs_Header r) ''Location'' = '''' \<or> same_site (hdr_Get (rs_Header r) ''Location'') \<or>
      hasPrefix (hdr_Get (rs_Header r) ''Location'') [CHR ''/'', CHR 0x5C])"
proof -
  let ?q = "(example_get ''document'' ''text/html'')\<lparr>hq_Query := [(''nojs'', ''1''), (''cid'', example_id)]\<rparr>"
  have "hq_Method ?q = ''GET''" by (simp add: example_get_def)
  then obtain r st' where r: "serveHTTP (example_server easy_env) ''/pass'' ?q example_server_state = Some (r, st')"
    by (cases "proxiedOnly handlePassNoJS (example_server easy_env) ?q example_server_state") (simp add: serveHTTP_def)
  from redirects_stay_on_site [OF r] r show ?thesis by blast
qed

end
