(* ===== verification/Counter_Drain.thy ===== *)
theory Counter_Drain
  imports Counter_Cache
begin

text \<open>
  What the background of the counter caches does to the shared store. \<^verbatim>\<open>CounterCache.Incr\<close> and
  \<^verbatim>\<open>Forget\<close> may start a drain goroutine (\<^verbatim>\<open>core/store/countercache.go\<close>), which runs on after the handler
  that started it has answered and writes the counter to the store. \<open>drain_step\<close> is a step of such a
  goroutine, of a periodic flush or of a shutdown flush, in any one of several caches over one store. The lemmas bound the
  keys these steps write by the keys the caches hold.
\<close>

section \<open>The keys a cache holds\<close>

definition cache_keys :: "counter_cache \<Rightarrow> string set" where
  "cache_keys c = mkeys (cc_m c) \<union> mkeys (cc_dirty c) \<union> set (cc_queue c)"

definition owed :: "counter_cache \<times> drainer multiset \<Rightarrow> string set" where
  "owed x = cache_keys (fst x) \<union> {k. \<exists>d \<in># snd x. owner d = Some k}"

lemma cache_keys_new [simp]: "cache_keys NewCounterCache = {}"
  by (simp add: cache_keys_def NewCounterCache_def)

lemma owed_simps [simp]:
  "owed (c, {#}) = cache_keys c"
  "owed (c, D + spawned b) = owed (c, D)"
  "owed (c, D + replicate_mset n DLoop) = owed (c, D)"
  "owed (c, add_mset d (D + spawned b)) = owed (c, add_mset d D)"
  "owed (c, add_mset d D) = owed (c, D) \<union> set_option (owner d)"
  by (auto simp: owed_def spawned_def in_replicate_mset)

lemma owed_cache: "cache_keys c \<subseteq> owed (c, D)"
  by (simp add: owed_def)

lemma owed_mono: "cache_keys c' \<subseteq> cache_keys c \<union> K \<Longrightarrow> owed (c', D) \<subseteq> owed (c, D) \<union> K"
  by (auto simp: owed_def)

lemma queue_key_keys: "queue_key key c = (b, c') \<Longrightarrow> cache_keys c' \<subseteq> insert key (cache_keys c)"
  by (auto simp: queue_key_def cache_keys_def Let_def split: if_splits)

lemma markDirty_keys:
  assumes "markDirtyLocked key w del c = (b, c')"
  shows "cache_keys c' \<subseteq> insert key (cache_keys c)"
proof (cases "map_of (cc_dirty c) key")
  case None
  then show ?thesis using assms
    by (auto simp: markDirtyLocked_def Let_def split: if_splits dest!: queue_key_keys) (auto simp: cache_keys_def)
qed (use assms in \<open>auto simp: markDirtyLocked_def cache_keys_def\<close>)

lemma count_entry_keys:
  assumes "count_entry key e c = (n, b, c')"
  shows "cache_keys c' \<subseteq> insert key (cache_keys c)"
proof -
  obtain e' where "markDirtyLocked key (ce_expires e') False (c\<lparr>cc_m := mput key e' (cc_m c)\<rparr>) = (b, c')"
    using assms by (auto simp: count_entry_def Let_def split: prod.splits)
  from markDirty_keys [OF this] show ?thesis by (auto simp: cache_keys_def)
qed

lemma room_keys: "makeCounterRoomLocked now c = (r, c') \<Longrightarrow> cache_keys c' \<subseteq> cache_keys c"
  by (auto simp: makeCounterRoomLocked_def Let_def cache_keys_def simp del: filter.simps split: if_splits dest!: subsetD [OF mkeys_filter])

lemma incr_keys:
  assumes i: "cc_Incr h now key ttl c = (n, b, c')"
  shows "cache_keys c' \<subseteq> insert key (cache_keys c)"
proof (cases "map_of (cc_m c) key")
  case (Some e)
  have "cache_keys (c\<lparr>cc_m := mdel key (cc_m c)\<rparr>) \<subseteq> cache_keys c" by (auto simp: cache_keys_def)
  then show ?thesis using i Some by (auto simp: cc_Incr_def Let_def split: if_splits dest!: count_entry_keys)
next
  case None
  obtain r c1 where r: "makeCounterRoomLocked now c = (r, c1)" by fastforce
  show ?thesis
  proof (cases r)
    case True
    then show ?thesis using i None r room_keys [OF r] by (auto simp: cc_Incr_def Let_def dest!: count_entry_keys)
  next
    case False
    then have "cache_keys c' = cache_keys c1"
      using i None r by (auto simp: cc_Incr_def incrOverflowLocked_def Let_def cache_keys_def split: prod.splits)
    then show ?thesis using room_keys [OF r] by auto
  qed
qed

lemma forget_keys: "cc_Forget key c = (b, c') \<Longrightarrow> cache_keys c' \<subseteq> insert key (cache_keys c)"
  unfolding cc_Forget_def by (drule markDirty_keys) (auto simp: cache_keys_def)

lemma promote_keys: "cache_keys (promote_key now key c) \<subseteq> cache_keys c"
  by (auto simp: promote_key_def cache_keys_def mkeys_iff split: option.splits if_splits)

lemma flush_promote_keys: "flush_promote now c = (n, c') \<Longrightarrow> cache_keys c' \<subseteq> cache_keys c"
proof -
  assume f: "flush_promote now c = (n, c')"
  have "cache_keys (fold (promote_key now) ks c) \<subseteq> cache_keys c" for ks
    by (induction ks arbitrary: c) (use promote_keys in \<open>auto, blast\<close>)
  moreover have "cache_keys c' = cache_keys (fold (promote_key now) (map fst (cc_m c)) c)"
    using f by (auto simp: flush_promote_def Let_def cache_keys_def)
  ultimately show ?thesis by simp
qed

lemma release_keys:
  assumes "releaseLocked key c = (b, c')"
  shows "cache_keys c' \<subseteq> cache_keys c"
proof (cases "map_of (cc_dirty c) key")
  case (Some d)
  then have "key \<in> cache_keys c" by (simp add: cache_keys_def mkeys_iff)
  moreover have "cache_keys (c\<lparr>cc_dirty := mdel key (cc_dirty c)\<rparr>) \<subseteq> cache_keys c" by (auto simp: cache_keys_def)
  ultimately show ?thesis using assms Some queue_key_keys [of key c b c']
    by (auto simp: releaseLocked_def split: if_splits)
qed (use assms in \<open>simp add: releaseLocked_def\<close>)

lemma claim_keys: "drain_claim c = (r, c') \<Longrightarrow> cache_keys c' \<subseteq> cache_keys c \<and> (\<forall>d. r = Some d \<longrightarrow> set_option (owner d) \<subseteq> cache_keys c)"
  by (auto simp: drain_claim_def cache_keys_def split: list.splits)

lemma flushKey_keys:
  "flushKey now key c = (d, b, c') \<Longrightarrow> cache_keys c' \<subseteq> insert key (cache_keys c) \<and> set_option (owner d) \<subseteq> {key}"
  by (auto simp: flushKey_def Let_def split: option.splits if_splits prod.splits dest!: release_keys) (auto simp: cache_keys_def)

lemma merge_keys: "cache_keys (flushIncr_merge now key w shared c) \<subseteq> insert key (cache_keys c)"
  by (auto simp: flushIncr_merge_def cache_keys_def split: option.splits if_splits)

lemma failed_keys: "preserveFailedIncr key n w c = (b, c') \<Longrightarrow> cache_keys c' \<subseteq> insert key (cache_keys c)"
  by (auto simp: preserveFailedIncr_def Let_def split: option.splits if_splits dest!: release_keys) (auto simp: cache_keys_def)

section \<open>Background steps\<close>

text \<open>
  No request is served by these steps (no increment, no forget), and nothing else writes the store
  meanwhile: \<open>step_store\<close> is disabled. What they change is their own doing.
\<close>

inductive drain_step ::
  "'s store_ops \<Rightarrow> row_hash \<Rightarrow> (counter_cache \<times> drainer multiset) list \<times> 's \<times> nanos \<Rightarrow>
     (counter_cache \<times> drainer multiset) list \<times> 's \<times> nanos \<Rightarrow> bool" for ops h where
  drain: "i < length cs \<Longrightarrow> cs ! i = (c, D) \<Longrightarrow> cc_step ops (\<lambda>_. False) h (c, D, s, t) l (c', D', s', t') \<Longrightarrow>
     l = LInternal \<or> l = LPush k n w \<Longrightarrow> drain_step ops h (cs, s, t) (cs[i := (c', D')], s', t')"

abbreviation drains where "drains ops h \<equiv> (drain_step ops h)\<^sup>*\<^sup>*"

definition apart :: "('s \<Rightarrow> nanos \<Rightarrow> view) \<Rightarrow> nanos \<Rightarrow> string set \<Rightarrow> 's \<Rightarrow> 's \<Rightarrow> bool" where
  "apart live now K s s' \<longleftrightarrow> (\<forall>k t. now \<le> t \<longrightarrow> k \<notin> K \<longrightarrow> live s' t k = live s t k)"

context ttl_store
begin

lemma incr_apart: "ok s \<Longrightarrow> st_IncrByDeadline ops now k d w s = (r, s') \<Longrightarrow> k \<in> K \<Longrightarrow> ok s' \<and> apart live now K s s'"
  using incr [of s now k d w] incr_effects [of now k d w "live s now"]
  by (auto simp: refines_def apart_def)

lemma delete_apart: "ok s \<Longrightarrow> st_Delete ops now k s = (r, s') \<Longrightarrow> k \<in> K \<Longrightarrow> ok s' \<and> apart live now K s s'"
  using del [of s now k] by (auto simp: refines_def apart_def spec_Delete_def)

lemma cache_step_apart:
  assumes "cc_step ops (\<lambda>_. False) h (c, D, s, t) l (c', D', s', t')" "l = LInternal \<or> l = LPush k n w" "ok s" "owed (c, D) \<subseteq> K"
  shows "ok s' \<and> t \<le> t' \<and> owed (c', D') \<subseteq> K \<and> apart live t' K s s'"
  using assms(1)
proof cases
  case (step_promote m)
  then show ?thesis using assms owed_mono [of c' c "{}"] flush_promote_keys by (fastforce simp: apart_def)
next
  case (step_claim d D0)
  then show ?thesis using assms claim_keys [of c "Some d" c'] owed_mono [of c' c "{}" D0] owed_cache [of c D0] by (auto simp: apart_def)
next
  case step_exit
  then show ?thesis using assms claim_keys [of c None c'] owed_mono [of c' c "{}" D'] by (auto simp: apart_def)
next
  case (step_flush key d b D0)
  then show ?thesis using assms flushKey_keys [of t' key c d b c'] owed_mono [of c' c "{key}" D0] by (auto simp: apart_def)
next
  case (step_delete key d D0)
  then obtain r where r: "st_Delete ops t' key s = (r, s')" "owner d = Some key" by (auto simp: flushDelete_round_def split: prod.splits sum.splits)
  with step_delete assms show ?thesis using delete_apart [of s t' key r s' K] by auto
next
  case (step_release key b D0)
  then show ?thesis using assms release_keys [of key c b c'] owed_mono [of c' c "{}" D0] by (auto simp: apart_def)
next
  case (step_push key delta v d D0)
  then obtain r where r: "st_IncrByDeadline ops t' key delta v s = (r, s')" "owner d = Some key"
    by (auto simp: flushIncr_round_def split: prod.splits sum.splits if_splits)
  with step_push assms show ?thesis using incr_apart [of s t' key delta v r s' K] by auto
next
  case (step_merge key v shared D0)
  then show ?thesis using assms merge_keys [of t' key v shared c] owed_mono [of c' c "{key}" D0] by (auto simp: apart_def)
next
  case (step_failed key claimed v b D0)
  then show ?thesis using assms failed_keys [of key claimed v c b c'] owed_mono [of c' c "{key}" D0] by (auto simp: apart_def)
qed (use assms in auto)

lemma drains_apart:
  assumes "drains ops h (cs, s, t) (cs', s', t')" "ok s" "\<forall>x \<in> set cs. owed x \<subseteq> K"
  shows "ok s' \<and> t \<le> t' \<and> (\<forall>x \<in> set cs'. owed x \<subseteq> K) \<and> apart live t' K s s'"
  using assms(1)
proof (induction "(cs', s', t')" arbitrary: cs' s' t' rule: rtranclp_induct)
  case base
  then show ?case using assms(2,3) by (simp add: apart_def)
next
  case (step x cs2 s2 t2)
  obtain cs1 s1 t1 where x: "x = (cs1, s1, t1)" by (cases x)
  note IH = step.hyps(3) [OF x]
  from step.hyps(2) [unfolded x] show ?case
  proof cases
    case (drain i c D l c' D' k n w)
    have "(c, D) \<in> set cs1" using drain(2,3) by (metis nth_mem)
    then have "ok s2 \<and> t1 \<le> t2 \<and> owed (c', D') \<subseteq> K \<and> apart live t2 K s1 s2"
      using cache_step_apart [OF drain(4,5)] IH by blast
    moreover from this have "\<forall>x \<in> set (cs1[i := (c', D')]). owed x \<subseteq> K"
      using IH set_update_subset_insert [of cs1 i "(c', D')"] by blast
    ultimately show ?thesis using IH drain(1) unfolding apart_def by (metis order_trans)
  qed
qed

end

end
