(* ===== verification/Http_Flow.thy ===== *)
theory Http_Flow
  imports Http_Server Counter_Drain
begin

text \<open>
  What the transport promises across its handlers: which requests may count against a client's reputation, that the
  admission hooks of a redemption run once, and the whole way from a served page to the cookie. The store side is
  proved once from the store contract and read off for the in-memory store.
\<close>

section \<open>What the challenge operations touch in the store\<close>

definition challenge_space :: "string \<Rightarrow> bool" where
  "challenge_space k \<longleftrightarrow> hasPrefix k challengeKeyPrefix \<or> hasPrefix k ''spent1:''"

lemma challenge_space_keys [simp]: "challenge_space (challengeKey uid)" "challenge_space (spentKey d)"
  by (simp_all add: challenge_space_def challengeKey_def spentKey_def hasPrefix_def)

definition keeps_others :: "('s \<Rightarrow> nanos \<Rightarrow> view) \<Rightarrow> ('s \<Rightarrow> bool) \<Rightarrow> nanos \<Rightarrow> 's \<Rightarrow> 's \<Rightarrow> bool" where
  "keeps_others live ok now s s' \<longleftrightarrow> ok s' \<and> (\<forall>k t. now \<le> t \<longrightarrow> \<not> challenge_space k \<longrightarrow> live s' t k = live s t k)"

context ttl_store
begin

lemma keeps_refl [simp]: "ok s \<Longrightarrow> keeps_others live ok now s s"
  by (simp add: keeps_others_def)

lemma keeps_trans: "keeps_others live ok now s s1 \<Longrightarrow> keeps_others live ok now s1 s2 \<Longrightarrow> keeps_others live ok now s s2"
  by (simp add: keeps_others_def)

lemma get_keeps: "ok s \<Longrightarrow> keeps_others live ok now s (snd (st_Get ops now k s))"
  by (cases "st_Get ops now k s") (use get_eq [of s now k] in \<open>auto simp: keeps_others_def same_live_def\<close>)

lemma cas_keeps: "ok s \<Longrightarrow> challenge_space k \<Longrightarrow> keeps_others live ok now s (snd (st_CompareAndSwap ops now k old x ttl s))"
  using cas [of s now k old x ttl] by (auto simp: keeps_others_def refines_def spec_CompareAndSwap_def)

lemma issue_keeps: "ok s \<Longrightarrow> keeps_others live ok now s (snd (IssueWithSpec env ops now uid salt host ip uri spec ttl nojs m s))"
  using cas_keeps [of s "challengeKey uid" now None _ ttl]
  by (auto simp: IssueWithSpec_def Let_def split: sum.splits prod.splits) (metis snd_conv)+

lemma prepare_keeps: "ok s \<Longrightarrow> keeps_others live ok now s (snd (redeem_prepare env ops now req m s))"
  using get_keeps [of s now "challengeKey (rq_ChallengeID req)"]
  by (auto simp: redeem_prepare_def split: sum.splits prod.splits option.splits)

lemma commit_keeps: "ok s \<Longrightarrow> keeps_others live ok now s (snd (snd (redeem_commit env ops disk now req prep (m, s))))"
proof -
  assume "ok s"
  obtain raw rec spent tok cttl where e: "prep = (raw, rec, spent)" "request_ttls req (cr_URI rec) = (tok, cttl)" by (metis prod.exhaust)
  obtain r s' where c: "st_CompareAndSwap ops now (challengeKey (rq_ChallengeID req)) (Some raw) spent cttl s = (r, s')" by fastforce
  have "snd (snd (redeem_commit env ops disk now req prep (m, s))) = s'"
    by (cases r) (simp_all add: redeem_commit_def e c Let_def case_prod_beta)
  then show ?thesis using cas_keeps [OF \<open>ok s\<close>, of "challengeKey (rq_ChallengeID req)" now "Some raw" spent cttl] c by simp
qed

lemma spend_keeps: "ok s \<Longrightarrow> keeps_others live ok now s (snd (snd (spend_stateless env ops disk now now req ch spec p tok cttl (m, s))))"
proof -
  assume s: "ok s"
  obtain r s' where c: "st_CompareAndSwap ops now (spentKey (spent_digest env ch)) None spent_marker (marker_ttl now cttl p) s = (r, s')" by fastforce
  have "snd (snd (spend_stateless env ops disk now now req ch spec p tok cttl (m, s))) \<in> {s, s'}"
    by (cases r) (auto simp: spend_stateless_def c Let_def case_prod_beta)
  moreover have "keeps_others live ok now s s'" using cas_keeps [OF s, of "spentKey (spent_digest env ch)" now None spent_marker "marker_ttl now cttl p"] c by simp
  ultimately show ?thesis using s by auto
qed

lemma redeem_keeps:
  assumes "ok s"
  shows "keeps_others live ok now s (snd (snd (Redeem env ops disk now now req (m, s))))"
proof (cases "IsStatelessID (rq_ChallengeID req)")
  case True
  show ?thesis
    unfolding Redeem_def if_P [OF True] redeemStateless_def
    using assms spend_keeps [OF assms] by (auto simp: Let_def split: option.splits sum.splits prod.splits)
next
  case False
  obtain r s1 where p: "redeem_prepare env ops now req m s = (r, s1)" by fastforce
  have k: "keeps_others live ok now s s1" using prepare_keeps [OF assms, of now env req m] p by simp
  then have "ok s1" by (simp add: keeps_others_def)
  then show ?thesis unfolding Redeem_def if_not_P [OF False] Redeem_stateful_def
    using k keeps_trans [OF k commit_keeps] by (cases r) (simp_all add: p)
qed

end

section \<open>The counters of the challenge path\<close>

text \<open>
  The difficulty escalation and the rate limits count in two write-behind caches, that of the manager and that of
  the server. The keys they hold, and so write to the store in the background, have prefixes of their own.
\<close>

definition challenge_counter :: "string \<Rightarrow> bool" where
  "challenge_counter k \<longleftrightarrow> hasPrefix k escalationPrefix \<or> hasPrefix k frameEscalationPrefix \<or>
     hasPrefix k ''chrl:'' \<or> hasPrefix k ''njsrl:'' \<or> hasPrefix k ''argrl:''"

definition reputation_key :: "string \<Rightarrow> bool" where
  "reputation_key k \<longleftrightarrow> (\<exists>ip. k = BlockKey ip \<or> k = blockCountKey ip \<or> k = unblockHoldKey ip \<or> k = unblockGenKey ip \<or>
     (\<exists>evtype generation bucket. k = eventKey evtype ip generation bucket))"

lemma reputation_apart: "reputation_key k \<Longrightarrow> \<not> challenge_space k \<and> \<not> challenge_counter k"
  unfolding reputation_key_def
  by (elim exE disjE) (simp_all add: BlockKey_canon blockKeyPrefix_def blockCountKey_def unblockHoldKey_def unblockGenKey_def eventKey_def
      challenge_space_def challenge_counter_def challengeKeyPrefix_def escalationPrefix_def frameEscalationPrefix_def hasPrefix_def)

lemma counter_prefixes:
  "challenge_counter (escalationKey escalationPrefix host ip)" "challenge_counter (escalationKey frameEscalationPrefix host ip)"
  "challenge_counter (rate_key ''chrl'' host ip limit now)"
  "challenge_counter (rate_key ''njsrl:ip'' host ip limit now)" "challenge_counter (rate_key ''njsrl:asn'' host ip limit now)"
  "challenge_counter (rate_key ''argrl:ip'' host ip limit now)" "challenge_counter (rate_key ''argrl:asn'' host ip limit now)"
  by (simp_all add: challenge_counter_def escalationKey_def rate_key_def hasPrefix_def Let_def)

definition caches_of :: "('s, 'k) server_state \<Rightarrow> counter_cache list" where
  "caches_of st = ss_counters st # (case pl_pow (ss_pipe st) of None \<Rightarrow> [] | Some m \<Rightarrow> [pm_counters m])"

definition server_owed :: "('s, 'k) server_state \<Rightarrow> string set" where
  "server_owed st = \<Union> (cache_keys ` set (caches_of st))"

definition only_counters :: "counter_cache \<Rightarrow> counter_cache \<Rightarrow> bool" where
  "only_counters c c' \<longleftrightarrow> cache_keys c' \<subseteq> cache_keys c \<union> Collect challenge_counter"

lemma only_counters_refl [simp]: "only_counters c c"
  by (simp add: only_counters_def)

lemma only_counters_trans: "only_counters c c1 \<Longrightarrow> only_counters c1 c2 \<Longrightarrow> only_counters c c2"
  by (auto simp: only_counters_def)

lemma rate_only_counters:
  "rateLimitExceededAt h pre host ip limit now c = (b, c') \<Longrightarrow> challenge_counter (rate_key pre host ip limit now) \<Longrightarrow> only_counters c c'"
  by (auto simp: rateLimitExceededAt_def only_counters_def split: prod.splits dest!: incr_keys)

lemma redemption_rate_only_counters:
  assumes "redemptionRateLimitExceededAt h pre host ip asn limit now c = (r, c')" "pre = ''njsrl'' \<or> pre = ''argrl''"
  shows "only_counters c c'"
proof -
  obtain b1 c1 where 1: "rateLimitExceededAt h (pre @ '':ip'') host ip limit now c = (b1, c1)" by fastforce
  obtain b2 c2 where 2: "(if asn \<noteq> 0 then rateLimitExceededAt h (pre @ '':asn'') host (format_int (uint asn)) limit now c1 else (False, c1)) = (b2, c2)"
    by fastforce
  have "challenge_counter (rate_key (pre @ '':ip'') host ip limit now)" "challenge_counter (rate_key (pre @ '':asn'') host (format_int (uint asn)) limit now)"
    using assms(2) counter_prefixes by auto
  then have "only_counters c c1" "only_counters c1 c2"
    using rate_only_counters [OF 1] rate_only_counters [of h "pre @ '':asn''" host "format_int (uint asn)" limit now c1 b2 c2] 2 by (auto split: if_splits)
  moreover have "c' = c2" using assms(1) 1 2 by (auto simp: redemptionRateLimitExceededAt_def Let_def split: if_splits)
  ultimately show ?thesis using only_counters_trans by blast
qed

lemma hook_only_counters: "only_counters (ss_counters st) (snd (hook_state env rq m s st))"
proof -
  have "only_counters c (snd (snd (acquire_nojs env host ip uri c)))" "only_counters c (snd (snd (acquire_argon env host ip n c)))" for host ip uri n c
    using redemption_rate_only_counters by (fastforce simp: acquire_nojs_def acquire_argon_def Let_def split: prod.splits option.splits)+
  then show ?thesis by (simp add: hook_state_def)
qed

lemma bump_only_counters:
  "BumpFrameEscalation h now host ip ttl m = (n, m') \<Longrightarrow> only_counters (pm_counters m) (pm_counters m')"
  using counter_prefixes(2) by (auto simp: BumpFrameEscalation_def bump_def only_counters_def split: prod.splits dest!: incr_keys)

lemma forget_only_counters: "only_counters (pm_counters m) (pm_counters (ForgetEscalation host ip m))"
proof -
  have "only_counters c (forget_key (escalationKey p host ip) c)" if "p = escalationPrefix \<or> p = frameEscalationPrefix" for p c
    using that counter_prefixes forget_keys [of "escalationKey p host ip" c "fst (cc_Forget (escalationKey p host ip) c)" "forget_key (escalationKey p host ip) c"]
    by (auto simp: only_counters_def forget_key_def)
  then show ?thesis unfolding ForgetEscalation_def by (auto intro: only_counters_trans)
qed

lemma reload_counters: "reloadKeysLocked env disk now m = (r, m') \<Longrightarrow> pm_counters m' = pm_counters m"
  by (auto simp: reloadKeysLocked_def setRetiredKeys_def Let_def split: sum.splits prod.splits if_splits)

lemma refresh_now_counters: "refresh_now env disk now b m = (r, m') \<Longrightarrow> pm_counters m' = pm_counters m"
  using reload_counters [of env disk now m]
  by (auto simp: refresh_now_def rememberRoutineRefresh_def Let_def split: prod.splits option.splits if_splits)

lemma refreshKeys_counters:
  assumes "refreshKeys env disk now b m = (r, m')"
  shows "pm_counters m' = pm_counters m"
  using assms refresh_now_counters [of env disk now True "m\<lparr>pm_lastFailureRefresh := Some now\<rparr>" r m']
    refresh_now_counters [of env disk now False "m\<lparr>pm_lastRefresh := Some now\<rparr>" r m']
  by (auto simp: refreshKeys_def throttled_def rememberRoutineRefresh_def split: if_splits option.splits)

lemma mint_counters: "mintTokenWithSpec env disk now host fp cid spec ttl m = (r, m') \<Longrightarrow> pm_counters m' = pm_counters m"
  by (auto simp: mintTokenWithSpec_def signToken_def setRetiredKeys_def Let_def split: if_splits sum.splits)

lemma find_secret_counters: "find_secret env disk now fmt pl mac m = (r, m') \<Longrightarrow> pm_counters m' = pm_counters m"
  by (auto simp: find_secret_def split: sum.splits prod.splits option.splits if_splits dest!: refreshKeys_counters)

lemma finish_only_counters: "finishStateless env disk now p spec req ttl soft m = (r, m') \<Longrightarrow> only_counters (pm_counters m) (pm_counters m')"
  using forget_only_counters [of m "sp_Host p" "sp_IP p"]
  by (auto simp: finishStateless_def Let_def split: sum.splits prod.splits dest!: mint_counters)

lemma redeem_mint_only_counters: "redeem_mint env disk now req rec ttl m = (r, m') \<Longrightarrow> only_counters (pm_counters m) (pm_counters m')"
  using forget_only_counters [of m "cr_Host rec" "cr_IP rec"]
  by (auto simp: redeem_mint_def Let_def split: sum.splits prod.splits if_splits dest!: mint_counters)

lemma spend_only_counters:
  assumes "spend_stateless env ops disk now snow req ch spec p tok ttl (m, s) = (r, m', s')"
  shows "only_counters (pm_counters m) (pm_counters m')"
proof -
  have fin: "only_counters (pm_counters m) (pm_counters m2)" if "finishStateless env disk now p spec req tok soft (m\<lparr>pm_spent := sp\<rparr>) = (x, m2)" for soft sp x m2
    using finish_only_counters [OF that] by simp
  have hand: "only_counters (pm_counters m) (pm_counters (ForgetEscalation (sp_Host p) (sp_IP p) (m\<lparr>pm_spent := sp\<rparr>)))" for sp
    using forget_only_counters [of "m\<lparr>pm_spent := sp\<rparr>"] by simp
  show ?thesis using assms fin hand
    by (auto simp: spend_stateless_def Let_def split: if_splits prod.splits sum.splits)
qed

lemma stateless_only_counters:
  assumes "redeemStateless env ops disk now snow req (m, s) = (r, m', s')"
  shows "only_counters (pm_counters m) (pm_counters m')"
proof (cases "parse_stateless_id (rq_ChallengeID req)")
  case None
  then show ?thesis using assms by (simp add: redeemStateless_def)
next
  case (Some x)
  obtain fmt payload mac where x: "parse_stateless_id (rq_ChallengeID req) = Some (fmt, payload, mac)" using Some by (cases x) auto
  obtain fr m1 where f: "find_secret env disk now fmt payload mac m = (fr, m1)" by fastforce
  have m1: "pm_counters m1 = pm_counters m" using find_secret_counters [OF f] .
  have "m' = m1 \<or> (\<exists>ch spec p tok ttl r s'. spend_stateless env ops disk now snow req ch spec p tok ttl (m1, s) = (r, m', s'))"
    using assms by (auto simp: redeemStateless_def x f Let_def split: sum.splits prod.splits option.splits if_splits)
  then show ?thesis using spend_only_counters m1 by (metis only_counters_refl)
qed

lemma redeem_only_counters:
  assumes "Redeem env ops disk now snow req (m, s) = (r, m', s')"
  shows "only_counters (pm_counters m) (pm_counters m')"
proof (cases "IsStatelessID (rq_ChallengeID req)")
  case True
  then show ?thesis using assms stateless_only_counters by (simp add: Redeem_def)
next
  case False
  then show ?thesis using assms
    by (auto simp: Redeem_def Redeem_stateful_def redeem_commit_def split: sum.splits prod.splits if_splits dest!: redeem_mint_only_counters)
qed

section \<open>What may count against a client\<close>

lemma fill_redeem_fields [simp]:
  "rq_NoJS (fill_redeem env q rq st) = rq_NoJS rq" "rq_ChallengeID (fill_redeem env q rq st) = rq_ChallengeID rq"
  "rq_Nonce (fill_redeem env q rq st) = rq_Nonce rq" "rq_Proof (fill_redeem env q rq st) = rq_Proof rq"
  "rq_Host (fill_redeem env q rq st) = headerOr q hdrHost (hq_Host q)" "rq_IP (fill_redeem env q rq st) = clientIP q"
  "rq_UserAgent (fill_redeem env q rq st) = headerOr q hdrUA (hdr_Get (hq_Header q) ''User-Agent'')"
  "request_ttls (fill_redeem env q rq st) = (\<lambda>uri. let p = dm_PoW (ConfigFor (engine_Config (sv_live env)) (headerOr q hdrHost (hq_Host q)) uri)
     in (pw_TokenTTL p, pw_ChallengeTTL p))"
  by (simp_all add: fill_redeem_def request_ttls_def fun_eq_iff Let_def)

text \<open>A failed redemption scores only when it was posted, and then the answer is 403.\<close>

lemma redeem_refused_pipe:
  assumes "redeem_refused env rq e ra st = (r, st')" "rq_NoJS rq \<or> rs_Status r \<noteq> 403"
  shows "ss_pipe st' = ss_pipe st"
  using assms by (auto simp: redeem_refused_def redeem_failed_def Let_def split: if_splits)

lemma redeem_handover_pipe: "redeem_handover env rq res st = (r, st') \<Longrightarrow> ss_pipe st' = redeemed_posture (ss_pipe st)"
  by (auto simp: redeem_handover_def Let_def)

lemma redeem_solved_pipe: "redeem_solved env q rq el res st = (r, st') \<Longrightarrow> ss_pipe st' = redeemed_posture (ss_pipe st)"
  by (auto simp: redeem_solved_def Let_def)

lemma redeemed_posture_fields [simp]:
  "pl_store (redeemed_posture pipe) = pl_store pipe" "pl_enforcer (redeemed_posture pipe) = pl_enforcer pipe"
  by (simp_all add: redeemed_posture_def)

lemma redeem_counters_kept:
  "redeem_refused env rq e ra st = (r, st') \<Longrightarrow> ss_counters st' = ss_counters st"
  "redeem_handover env rq res st = (r, st') \<Longrightarrow> ss_counters st' = ss_counters st"
  "redeem_solved env q rq el res st = (r, st') \<Longrightarrow> ss_counters st' = ss_counters st"
  by (auto simp: redeem_refused_def redeem_failed_def redeem_handover_def redeem_solved_def Let_def split: if_splits)

text \<open>What a redemption that does not score leaves behind: its own outcome, and the counters of the hook it reached.\<close>

lemma redeem_shape:
  assumes "redeem env q rq0 el st = (r, st')" "rq_NoJS rq0 \<or> rs_Status r \<noteq> 403"
  obtains "st' = st"
  | rq m x m' s' pipe1 where "pl_pow (ss_pipe st) = Some m" "run_redeem env rq m (pl_store (ss_pipe st)) = (x, m', s')"
      "ss_counters st' = snd (hook_state env rq m (pl_store (ss_pipe st)) st)"
      "pipe1 = (ss_pipe st)\<lparr>pl_pow := Some m', pl_store := s'\<rparr>" "ss_pipe st' = pipe1 \<or> ss_pipe st' = redeemed_posture pipe1"
proof (cases "pl_pow (ss_pipe st)")
  case None
  then show ?thesis using assms(1) that(1) by (auto simp: redeem_def)
next
  case (Some m)
  define rq where "rq = fill_redeem env q rq0 st"
  obtain x m' s' where x: "run_redeem env rq m (pl_store (ss_pipe st)) = (x, m', s')" using prod_cases3 by blast
  obtain ra c where h: "hook_state env rq m (pl_store (ss_pipe st)) st = (ra, c)" by fastforce
  define st1 where "st1 = st\<lparr>ss_counters := c, ss_pipe := (ss_pipe st)\<lparr>pl_pow := Some m', pl_store := s'\<rparr>\<rparr>"
  have st1: "ss_pipe st1 = (ss_pipe st)\<lparr>pl_pow := Some m', pl_store := s'\<rparr>" "ss_counters st1 = c" by (simp_all add: st1_def)
  have "st' = st \<or> (r, st') = (case x of Inl e \<Rightarrow> redeem_refused env rq e ra st1
      | Inr res \<Rightarrow> (case rr_Outcome res of RedeemNetworkHandover \<Rightarrow> redeem_handover env rq res st1 | RedeemSolved \<Rightarrow> redeem_solved env q rq el res st1))"
    using assms(1) unfolding redeem_def Let_def Some rq_def [symmetric] option.case prod.case h x st1_def [symmetric] by (auto split: if_splits)
  then consider "st' = st" | "ss_pipe st' = ss_pipe st1" "ss_counters st' = c" | "ss_pipe st' = redeemed_posture (ss_pipe st1)" "ss_counters st' = c"
    using redeem_refused_pipe [of env rq _ ra st1 r st'] redeem_handover_pipe [of env rq _ st1 r st'] redeem_solved_pipe [of env q rq el _ st1 r st'] assms(2)
      redeem_counters_kept(1) [of env rq _ ra st1 r st'] redeem_counters_kept(2) [of env rq _ st1 r st'] redeem_counters_kept(3) [of env q rq el _ st1 r st'] st1(2)
    by (cases x) (auto simp: rq_def split: redeem_outcome.splits)
  then show ?thesis
  proof cases
    case 1
    then show ?thesis using that(1) by blast
  next
    case 2
    then show ?thesis using that(2) [OF Some x _ refl] h st1 by simp
  next
    case 3
    then show ?thesis using that(2) [OF Some x _ refl] h st1 by simp
  qed
qed

lemma redeemed_posture_pow [simp]: "pl_pow (redeemed_posture pipe) = pl_pow pipe"
  by (simp add: redeemed_posture_def)

lemma redeem_unscored:
  assumes "redeem env q rq0 el st = (r, st')" "rq_NoJS rq0 \<or> rs_Status r \<noteq> 403"
  shows "pl_enforcer (ss_pipe st') = pl_enforcer (ss_pipe st) \<and> server_owed st' \<subseteq> server_owed st \<union> Collect challenge_counter \<and>
    (pl_store (ss_pipe st') = pl_store (ss_pipe st) \<or> (\<exists>rq m. pl_store (ss_pipe st') = snd (snd (run_redeem env rq m (pl_store (ss_pipe st))))))"
  using assms
proof (cases rule: redeem_shape)
  case (2 rq m x m' s' pipe1)
  have "only_counters (ss_counters st) (ss_counters st')" using hook_only_counters 2(3) by metis
  moreover have "only_counters (pm_counters m) (pm_counters m')" using redeem_only_counters [OF 2(2)] .
  moreover have "pl_pow (ss_pipe st') = Some m'" "pl_enforcer (ss_pipe st') = pl_enforcer (ss_pipe st)" "pl_store (ss_pipe st') = s'"
    using 2(4,5) by auto
  ultimately show ?thesis using 2(1,2)
    by (auto simp: server_owed_def caches_of_def only_counters_def intro!: exI [of _ rq] exI [of _ m])
qed simp

lemma issue_challenge_store:
  "pl_enforcer (snd (issue_challenge env attack host ip uri spec p pipe)) = pl_enforcer pipe \<and>
   (pl_store (snd (issue_challenge env attack host ip uri spec p pipe)) = pl_store pipe \<or>
    (\<exists>m. pl_store (snd (issue_challenge env attack host ip uri spec p pipe)) =
       snd (IssueWithSpec (se_powenv (sv_stage env)) (se_ops (sv_stage env)) (sv_now env) (sv_uid env) (sv_salt env)
              host ip uri spec (pw_ChallengeTTL p) (pw_NoScriptFallback p) m (pl_store pipe))))"
proof (cases "pl_pow pipe")
  case (Some m)
  obtain r s where i: "IssueWithSpec (se_powenv (sv_stage env)) (se_ops (sv_stage env)) (sv_now env) (sv_uid env) (sv_salt env)
              host ip uri spec (pw_ChallengeTTL p) (pw_NoScriptFallback p) m (pl_store pipe) = (r, s)" by fastforce
  have keep: "pl_enforcer (snd (issue_stateless env host ip uri spec b m pp)) = pl_enforcer pp"
      "pl_store (snd (issue_stateless env host ip uri spec b m pp)) = pl_store pp" for b and pp :: "('a, 'b) pipe_state"
    by (simp_all add: issue_stateless_def case_prod_beta)
  show ?thesis unfolding issue_challenge_def Some option.case i
    by (cases r) (auto simp: keep i intro!: exI [of _ m])
qed (simp add: issue_challenge_def)

lemma issue_only_counters:
  assumes "issue_challenge env attack host ip uri spec p pipe = (res, pipe')" "pl_pow pipe = Some m"
  shows "\<exists>m'. pl_pow pipe' = Some m' \<and> pm_counters m' = pm_counters m"
proof -
  have sl: "\<exists>m'. pl_pow pp' = Some m' \<and> pm_counters m' = pm_counters m" if "issue_stateless env host ip uri spec b m pp = (x, pp')" for b x and pp pp' :: "('a, 'b) pipe_state"
  proof -
    obtain y m' where i: "IssueStatelessWithSpec (se_powenv (sv_stage env)) (se_disk (sv_stage env)) (sv_now env) (sv_random env) (sv_salt env)
        host ip uri spec b m = (y, m')" by fastforce
    then have "pm_counters m' = pm_counters m"
      by (auto simp: IssueStatelessWithSpec_def Let_def split: sum.splits prod.splits option.splits if_splits dest!: refreshKeys_counters)
    then show ?thesis using that i by (auto simp: issue_stateless_def)
  qed
  show ?thesis using assms sl by (auto simp: issue_challenge_def split: if_splits prod.splits sum.splits)
qed

lemma frame_challenge_store:
  assumes "unscorableFrame (hdr_Get h hdrSecFetchDest) (hdr_Get h hdrSecFetchSite)" "serve_challenge env h host ip uri p m pipe = (r, pipe')"
  shows "pl_enforcer pipe' = pl_enforcer pipe \<and> (\<exists>m'. pl_pow pipe' = Some m' \<and> only_counters (pm_counters m) (pm_counters m')) \<and>
    (pl_store pipe' = pl_store pipe \<or>
    (\<exists>spec m'. pl_store pipe' = snd (IssueWithSpec (se_powenv (sv_stage env)) (se_ops (sv_stage env)) (sv_now env) (sv_uid env) (sv_salt env)
              host ip uri spec (pw_ChallengeTTL p) (pw_NoScriptFallback p) m' (pl_store pipe))))"
proof -
  obtain base mx where w: "challenge_window (current_posture pipe) p = (base, mx)" by fastforce
  obtain n m1 where bump: "BumpFrameEscalation (sv_hash env) (sv_now env) host ip (pw_ChallengeTTL p) m = (n, m1)" by fastforce
  note m1 = bump_only_counters [OF bump]
  obtain d where e: "escalate_challenge env h host ip p base mx (relayed_difficulty h base mx) m pipe = (d, pipe\<lparr>pl_pow := Some m1\<rparr>)"
    using assms(1) bump by (auto simp: escalate_challenge_def)
  obtain res pipe2 where i: "issue_challenge env (current_posture pipe) host ip uri (challenge_spec (current_posture pipe) p base d) p (pipe\<lparr>pl_pow := Some m1\<rparr>) = (res, pipe2)"
    by fastforce
  have "pl_enforcer pipe' = pl_enforcer pipe2 \<and> pl_store pipe' = pl_store pipe2 \<and> pl_pow pipe' = pl_pow pipe2"
    using assms(2) by (cases res) (auto simp: serve_challenge_def w e i Let_def)
  then show ?thesis
    using issue_challenge_store [of env "current_posture pipe" host ip uri "challenge_spec (current_posture pipe) p base d" p "pipe\<lparr>pl_pow := Some m1\<rparr>"] i
      issue_only_counters [OF i, of m1] m1
    by auto
qed

lemma frame_challenge_owed:
  assumes "handleChallenge env q st = (r, st')" "unscorableFrame (hdr_Get (hq_Header q) hdrSecFetchDest) (hdr_Get (hq_Header q) hdrSecFetchSite)"
  shows "server_owed st' \<subseteq> server_owed st \<union> Collect challenge_counter"
proof -
  let ?host = "headerOr q hdrHost (hq_Host q)"
  let ?uri = "headerOr q hdrURI ''/''"
  let ?p = "dm_PoW (ConfigFor (engine_Config (sv_live env)) ?host ?uri)"
  obtain b c where rl: "rateLimitExceededAt (sv_hash env) ''chrl'' ?host (clientIP q) (pw_IssuanceRateLimit ?p) (sv_now env) (ss_counters st) = (b, c)"
    by fastforce
  note rate = rate_only_counters [OF rl counter_prefixes(3)]
  have "st' = st \<or> (\<exists>m. pl_pow (ss_pipe st) = Some m \<and> ss_counters st' = c \<and>
      (ss_pipe st' = ss_pipe st \<or> serve_challenge env (hq_Header q) ?host (clientIP q) ?uri ?p m (ss_pipe st) = (r, ss_pipe st')))"
    using assms(1) rl by (auto simp: handleChallenge_def Let_def split: if_splits option.splits prod.splits bool.splits)
  then show ?thesis
  proof (elim disjE exE conjE)
    fix m assume "pl_pow (ss_pipe st) = Some m" "ss_counters st' = c" "ss_pipe st' = ss_pipe st"
    then show ?thesis using rate by (auto simp: server_owed_def caches_of_def only_counters_def)
  next
    fix m assume a: "pl_pow (ss_pipe st) = Some m" "ss_counters st' = c"
      "serve_challenge env (hq_Header q) ?host (clientIP q) ?uri ?p m (ss_pipe st) = (r, ss_pipe st')"
    obtain m' where "pl_pow (ss_pipe st') = Some m'" "only_counters (pm_counters m) (pm_counters m')"
      using frame_challenge_store [OF assms(2) a(3)] by blast
    then show ?thesis using rate a(1,2) by (auto simp: server_owed_def caches_of_def only_counters_def)
  qed simp
qed

lemma drained_apart:
  assumes "drains sm_ops h (zip cs Ds, s0, now) (cs', s, t)" "length Ds = length cs" "sm_ok s0"
    and "\<Union> (cache_keys ` set cs) \<subseteq> K" "\<forall>D \<in> set Ds. \<forall>d \<in># D. set_option (owner d) \<subseteq> K"
  shows "apart sm_live t K s0 s"
proof -
  have "owed (c, D) \<subseteq> K" if "(c, D) \<in> set (zip cs Ds)" for c D
  proof -
    have "c \<in> set cs" "D \<in> set Ds" using that by (rule set_zip_leftD, rule set_zip_rightD)
    then have "cache_keys c \<subseteq> K" "\<forall>d \<in># D. set_option (owner d) \<subseteq> K" using assms(4,5) by blast+
    then show ?thesis unfolding owed_def by auto
  qed
  then have "\<forall>x \<in> set (zip cs Ds). owed x \<subseteq> K" by auto
  then show ?thesis using mem.drains_apart [OF assms(1,3), of K] by blast
qed

text \<open>
  C6 (safety). Nobody can be scored by traffic that says nothing about them. A no-script redemption, which any page can make a
  visitor's browser send, a posted solution that Guardian itself failed to judge or turned away, and a challenge
  in a frame that may not render leave the enforcement mirror as it is, and the handler writes nothing to the store but challenge
  records and spend markers. The counters it bumps or forgets reach the store later, from the goroutines
  \<^verbatim>\<open>CounterCache.Incr\<close> and \<^verbatim>\<open>Forget\<close> start and from the flushes: however those steps run on afterwards, beside what
  the caches already held before the request, keys of the drainers already at work included, they write only rate-limit and escalation counters. None of these keys is
  one the reputation is kept under: no event counter, block, offense count or unblock record, whatever the outcome.
\<close>

theorem unattributable_requests_never_score:
  assumes "se_ops (sv_stage env) = sm_ops" "sm_ok (pl_store (ss_pipe st))"
    and "handlePassNoJS env q st = (r, st') \<or> handlePassSolve env q st = (r, st') \<and> rs_Status r \<noteq> 403 \<or>
      handleChallenge env q st = (r, st') \<and> unscorableFrame (hdr_Get (hq_Header q) hdrSecFetchDest) (hdr_Get (hq_Header q) hdrSecFetchSite)"
  shows "pl_enforcer (ss_pipe st') = pl_enforcer (ss_pipe st) \<and>
    keeps_others sm_live sm_ok (sv_now env) (pl_store (ss_pipe st)) (pl_store (ss_pipe st')) \<and>
    (\<forall>h Ds cs s t. length Ds = length (caches_of st') \<and> (\<forall>D \<in> set Ds. \<forall>d \<in># D. set_option (owner d) \<subseteq> server_owed st) \<and>
       drains sm_ops h (zip (caches_of st') Ds, pl_store (ss_pipe st'), sv_now env) (cs, s, t) \<longrightarrow>
       (\<forall>k u. t \<le> u \<and> \<not> challenge_space k \<and> \<not> challenge_counter k \<and> k \<notin> server_owed st \<longrightarrow>
          sm_live s u k = sm_live (pl_store (ss_pipe st)) u k)) \<and>
    (\<forall>k. reputation_key k \<longrightarrow> \<not> challenge_space k \<and> \<not> challenge_counter k)"
proof -
  have red: "pl_enforcer (ss_pipe st') = pl_enforcer (ss_pipe st) \<and>
      keeps_others sm_live sm_ok (sv_now env) (pl_store (ss_pipe st)) (pl_store (ss_pipe st')) \<and>
      server_owed st' \<subseteq> server_owed st \<union> Collect challenge_counter"
    if "redeem env q rq el st = (r, st')" "rq_NoJS rq \<or> rs_Status r \<noteq> 403" for rq el
    using redeem_unscored [OF that] mem.redeem_keeps [OF assms(2)] assms(1,2) by (auto simp: mem.keeps_refl)
  have now: "pl_enforcer (ss_pipe st') = pl_enforcer (ss_pipe st) \<and>
      keeps_others sm_live sm_ok (sv_now env) (pl_store (ss_pipe st)) (pl_store (ss_pipe st')) \<and>
      server_owed st' \<subseteq> server_owed st \<union> Collect challenge_counter"
    using assms(3)
  proof (elim disjE conjE)
    assume "handlePassNoJS env q st = (r, st')"
    then show ?thesis using red [of "new_redeem (query_get q ''cid'') '''' '''' True" 0] assms(2)
      by (auto simp: handlePassNoJS_def new_redeem_def mem.keeps_refl split: if_splits)
  next
    assume "handlePassSolve env q st = (r, st')" "rs_Status r \<noteq> 403"
    then show ?thesis using red assms(2) by (auto simp: handlePassSolve_def mem.keeps_refl split: if_splits option.splits)
  next
    assume h: "handleChallenge env q st = (r, st')" and f: "unscorableFrame (hdr_Get (hq_Header q) hdrSecFetchDest) (hdr_Get (hq_Header q) hdrSecFetchSite)"
    from h have "ss_pipe st' = ss_pipe st \<or> (\<exists>host ip uri p m. serve_challenge env (hq_Header q) host ip uri p m (ss_pipe st) = (r, ss_pipe st'))"
      by (auto simp: handleChallenge_def Let_def split: if_splits option.splits prod.splits bool.splits)
    then have "pl_enforcer (ss_pipe st') = pl_enforcer (ss_pipe st) \<and> keeps_others sm_live sm_ok (sv_now env) (pl_store (ss_pipe st)) (pl_store (ss_pipe st'))"
      using frame_challenge_store [OF f] mem.issue_keeps [OF assms(2)] assms(1,2) by (fastforce simp: mem.keeps_refl)
    then show ?thesis using frame_challenge_owed [OF h f] by blast
  qed
  have later: "sm_live s u k = sm_live (pl_store (ss_pipe st)) u k"
    if run: "length Ds = length (caches_of st')" "\<forall>D \<in> set Ds. \<forall>d \<in># D. set_option (owner d) \<subseteq> server_owed st"
        "drains sm_ops h (zip (caches_of st') Ds, pl_store (ss_pipe st'), sv_now env) (cs, s, t)"
      and k: "t \<le> u" "\<not> challenge_space k" "\<not> challenge_counter k" "k \<notin> server_owed st" for h Ds cs s t k u
  proof -
    let ?K = "server_owed st \<union> Collect challenge_counter"
    have "\<Union> (cache_keys ` set (caches_of st')) \<subseteq> ?K" "\<forall>D \<in> set Ds. \<forall>d \<in># D. set_option (owner d) \<subseteq> ?K"
      using now run(2) unfolding server_owed_def [symmetric] by blast+
    then have "apart sm_live t ?K (pl_store (ss_pipe st')) s"
      using drained_apart [OF run(3,1)] now unfolding keeps_others_def by blast
    moreover have "sv_now env \<le> t"
      using mem.drains_apart [OF run(3), of UNIV] now by (simp add: keeps_others_def)
    ultimately show ?thesis using now k unfolding apart_def keeps_others_def by auto
  qed
  show ?thesis using now later reputation_apart by blast
qed

section \<open>From the page to the cookie\<close>

definition page_challenge :: "challenge_payload \<Rightarrow> challenge" where
  "page_challenge pl = \<lparr>ch_ID = cp_ChallengeID pl, ch_Challenge = cp_Challenge pl, ch_Algorithm = cp_Algorithm pl, ch_Difficulty = cp_Difficulty pl,
     ch_MemoryKiB = cp_MemoryKiB pl, ch_Iterations = cp_Iterations pl, ch_Salt = cp_Salt pl\<rparr>"

lemma page_challenge_inverse: "ChallengePage pl nojs refresh = challenge_page p delay ch \<Longrightarrow> page_challenge pl = ch"
  by (simp add: page_challenge_def page_fields)

lemma uuid_not_stateless: "canonical_uuid uid \<Longrightarrow> \<not> IsStatelessID uid"
proof
  assume u: "canonical_uuid uid" and "IsStatelessID uid"
  then have "uid ! 0 = CHR ''s''" by (auto simp: IsStatelessID_def statelessPrefix_def statelessPrefixV2_def hasPrefix_def prefix_def)
  moreover have "uuid_char (uid ! 0)" using u by (auto simp: canonical_uuid_def dest: spec [of _ 0])
  ultimately show False by (simp add: uuid_char_def)
qed

lemma escalate_quiet:
  assumes "unscorableFrame (hdr_Get h hdrSecFetchDest) (hdr_Get h hdrSecFetchSite) \<or>
      fst (BumpEscalation (sv_hash env) (sv_now env) host ip (pw_ChallengeTTL p) m) = 0"
  shows "\<exists>d' m1. escalate_challenge env h host ip p base mx d m pipe = (d', pipe\<lparr>pl_pow := Some m1\<rparr>)"
proof (cases "unscorableFrame (hdr_Get h hdrSecFetchDest) (hdr_Get h hdrSecFetchSite)")
  case True
  then show ?thesis by (simp add: escalate_challenge_def case_prod_beta) blast
next
  case False
  then show ?thesis using assms by (simp add: escalate_challenge_def case_prod_beta Let_def) blast
qed

text \<open>A page served outside a store-free posture, to a client within its allowance, is the page of the stored challenge.\<close>

lemma stored_page:
  assumes "serve_challenge env h host ip uri p m pipe = (r, pipe')" "rs_Body r = ChallengePage pl nojs refresh"
    and "\<not> ps_Stateless (current_posture pipe)"
    and "unscorableFrame (hdr_Get h hdrSecFetchDest) (hdr_Get h hdrSecFetchSite) \<or>
      fst (BumpEscalation (sv_hash env) (sv_now env) host ip (pw_ChallengeTTL p) m) = 0"
  obtains spec m1 x s1 where "spec_validate spec = Inr ()" "length (ps_Salt spec) = argon2SaltSize"
    "IssueWithSpec (se_powenv (sv_stage env)) (se_ops (sv_stage env)) (sv_now env) (sv_uid env) (sv_salt env)
       host ip uri spec (pw_ChallengeTTL p) (pw_NoScriptFallback p) m1 (pl_store pipe) = (x, s1)"
    "pl_store pipe' = s1" "\<And>ch. x = Inr ch \<Longrightarrow> page_challenge pl = ch"
proof -
  obtain base mx where w: "challenge_window (current_posture pipe) p = (base, mx)" by fastforce
  obtain d m1 where e: "escalate_challenge env h host ip p base mx (relayed_difficulty h base mx) m pipe = (d, pipe\<lparr>pl_pow := Some m1\<rparr>)"
    using escalate_quiet [OF assms(4)] by blast
  define spec where "spec = challenge_spec (current_posture pipe) p base d"
  obtain x s1 where i: "IssueWithSpec (se_powenv (sv_stage env)) (se_ops (sv_stage env)) (sv_now env) (sv_uid env) (sv_salt env)
       host ip uri spec (pw_ChallengeTTL p) (pw_NoScriptFallback p) m1 (pl_store pipe) = (x, s1)" by fastforce
  obtain y pipe2 where s: "issue_stateless env host ip uri spec (pw_NoScriptFallback p) m1 (pipe\<lparr>pl_pow := Some m1, pl_store := s1\<rparr>) = (y, pipe2)" by fastforce
  have st2: "pl_store pipe2 = s1" using s by (auto simp: issue_stateless_def split: prod.splits)
  have ic: "issue_challenge env (current_posture pipe) host ip uri spec p (pipe\<lparr>pl_pow := Some m1\<rparr>) =
      (case x of Inr ch \<Rightarrow> (Inr ch, pipe\<lparr>pl_pow := Some m1, pl_store := s1\<rparr>) | Inl _ \<Rightarrow> (y, pipe2))"
    using assms(3) i s by (simp add: issue_challenge_def split: sum.splits)
  have salt: "length (ps_Salt spec) = argon2SaltSize" by (simp add: spec_def challenge_spec_def zero_salt_def Let_def)
  have valid: "spec_validate spec = Inr ()"
  proof (rule ccontr)
    assume "spec_validate spec \<noteq> Inr ()"
    then obtain er where er: "spec_validate spec = Inl er" by (cases "spec_validate spec") auto
    then have "x = Inl (PeSpec er)" "y = Inl (PeSpec er)" using i s
      by (auto simp: IssueWithSpec_def issue_stateless_def IssueStatelessWithSpec_def)
    then show False using assms(1,2) ic by (auto simp: serve_challenge_def w e spec_def [symmetric] Let_def)
  qed
  have pg: "page_challenge pl = ch" if "x = Inr ch" for ch
    using assms(1,2) ic that page_challenge_inverse [of pl nojs refresh p "pm_NoJSMinDelay m" ch]
    by (auto simp: serve_challenge_def w e spec_def [symmetric] Let_def respond_def)
  have "pl_store pipe' = s1"
    using assms(1) ic st2 by (cases x; cases y) (auto simp: serve_challenge_def w e spec_def [symmetric] Let_def)
  then show thesis using that valid salt i pg by blast
qed

text \<open>
  C7 (liveness). A visitor gets in: the page one replica served (outside a store-free posture, to a client within its allowance
  of unsolved challenges) is redeemable at any replica that shares the store. Whatever other traffic the store sees
  meanwhile, a client that solves the puzzle as printed on the page and posts the answer within the challenge's
  lifetime, from the same address and host, is answered 200 with the access cookie: a token signed over this challenge
  and bound to its address and agent, hidden from scripts, kept to same-site requests, secure unless the proxy
  said plain http, and living exactly as long as the token.
\<close>

theorem solved_page_earns_cookie:
  assumes page: "handleChallenge envA q1 stA = (r1, stA')" "rs_Body r1 = ChallengePage pl nojs refresh"
      "\<not> ps_Stateless (current_posture (ss_pipe stA))"
      "host = headerOr q1 hdrHost (hq_Host q1)" "uri = headerOr q1 hdrURI ''/''" "p = dm_PoW (ConfigFor (engine_Config (sv_live envA)) host uri)"
      "pl_pow (ss_pipe stA) = Some m1"
      "unscorableFrame (hdr_Get (hq_Header q1) hdrSecFetchDest) (hdr_Get (hq_Header q1) hdrSecFetchSite) \<or>
         fst (BumpEscalation (sv_hash envA) (sv_now envA) host (clientIP q1) (pw_ChallengeTTL p) m1) = 0"
    and issuer: "se_ops (sv_stage envA) = sm_ops" "sm_ok (pl_store (ss_pipe stA))"
      "sm_live (pl_store (ss_pipe stA)) (sv_now envA) (challengeKey (sv_uid envA)) = None" "canonical_uuid (sv_uid envA)"
      "length (sv_salt envA) = argon2SaltSize" "issue_fits host (clientIP q1) uri" "int64 (sv_now envA div 10 ^ 6)"
      "digest_sizes (se_powenv (sv_stage envA))"
    and between: "exec_trace sm_ops janitor_sweep cs (pl_store (ss_pipe stA')) = (rs, pl_store (ss_pipe stB))" "trace_wf (sv_now envA) cs"
      "list_all (\<lambda>(t, c). challengeKey (sv_uid envA) \<notin> set (call_keys c)) cs" "last (sv_now envA # map fst cs) \<le> sv_now envB"
      "pw_ChallengeTTL p \<le> 0 \<or> sv_now envB \<le> sv_now envA + pw_ChallengeTTL p"
    and redeemer: "se_ops (sv_stage envB) = sm_ops" "se_powenv (sv_stage envB) = se_powenv (sv_stage envA)" "pl_pow (ss_pipe stB) = Some m2"
      "PoWAnywhere (DomainFor (engine_Config (sv_live envB)) (headerOr q2 hdrHost (hq_Host q2)))"
      "\<forall>claims. \<exists>tok. fst (signToken (se_powenv (sv_stage envA)) (se_disk (sv_stage envB)) (sv_now envB) claims m2) = Inr tok"
    and client: "sv_mediaType envB (hdr_Get (hq_Header q2) ''Content-Type'') = Some ''application/json''" "length (hq_Body q2) \<le> 4096"
      "sv_unmarshal envB (hq_Body q2) = Some b" "sb_ChallengeID b = cp_ChallengeID pl" "clientIP q2 = clientIP q1"
      "EqualFold host (headerOr q2 hdrHost (hq_Host q2))"
      "client_solves (se_powenv (sv_stage envA)) (page_challenge pl)
         (fill_redeem envB q2 (new_redeem (sb_ChallengeID b) (sb_Nonce b) (sb_Proof b) False) stB)"
  shows "\<exists>ck spec. rs_Status (fst (handlePassSolve envB q2 stB)) = 200 \<and> rs_Cookie (fst (handlePassSolve envB q2 stB)) = Some ck \<and>
    ck_Name ck = CookieName \<and> ck_HttpOnly ck \<and> ck_SameSiteLax ck \<and> (ck_Secure ck \<or> hdr_Get (hq_Header q2) hdrProto = ''http'') \<and>
    (let ttl = pw_TokenTTL (dm_PoW (ConfigFor (engine_Config (sv_live envB)) (headerOr q2 hdrHost (hq_Host q2)) uri))
     in ck_MaxAge ck = go_div ttl second \<and>
        fst (signToken (se_powenv (sv_stage envA)) (se_disk (sv_stage envB)) (sv_now envB)
          (mint_claims (se_powenv (sv_stage envA)) (sv_now envB) host (Fingerprint (se_powenv (sv_stage envA)) (clientIP q1)
             (headerOr q2 hdrUA (hdr_Get (hq_Header q2) ''User-Agent''))) (sv_uid envA) spec ttl) m2) = Inr (ck_Value ck))"
proof -
  define rq where "rq = fill_redeem envB q2 (new_redeem (sb_ChallengeID b) (sb_Nonce b) (sb_Proof b) False) stB"
  let ?env = "se_powenv (sv_stage envA)" and ?disk = "se_disk (sv_stage envB)"
  have serve: "serve_challenge envA (hq_Header q1) host (clientIP q1) uri p m1 (ss_pipe stA) = (r1, ss_pipe stA')"
    by (rule challenge_page_served [OF page(1,2)]) (use page(4-7) in simp)
  obtain spec m3 x s1 where i: "spec_validate spec = Inr ()" "length (ps_Salt spec) = argon2SaltSize"
    "IssueWithSpec ?env sm_ops (sv_now envA) (sv_uid envA) (sv_salt envA) host (clientIP q1) uri spec (pw_ChallengeTTL p)
       (pw_NoScriptFallback p) m3 (pl_store (ss_pipe stA)) = (x, s1)" "pl_store (ss_pipe stA') = s1" "\<And>ch. x = Inr ch \<Longrightarrow> page_challenge pl = ch"
    by (rule stored_page [OF serve page(2,3,8)]) (auto simp: issuer(1))
  have rqf: "\<not> rq_NoJS rq" "EqualFold host (rq_Host rq)" "rq_IP rq = clientIP q1" "rq_ChallengeID rq = sb_ChallengeID b"
    using client by (simp_all add: rq_def new_redeem_def)
  obtain raw where "encodeChallengeRecord (issued_record ?env (sv_now envA) (sv_uid envA) host (clientIP q1) uri (with_salt (sv_salt envA) spec)
      (pw_NoScriptFallback p) m3) = Inr raw"
    using issued_record_encodes(2) [OF issuer(8) i(1,2) issuer(5,6,7) refl] by blast
  note x = mem.issue_stores(1) [OF issuer(2,3) i(1) refl this i(3)]
  obtain ch where ch: "x = Inr ch" "ch_ID ch = sv_uid envA" by (rule that [OF x]) (simp add: challengeFromSpec_def)
  have cid: "rq_ChallengeID rq = sv_uid envA" using i(5) [OF ch(1)] ch(2) client(4) rqf(4) by (auto simp: page_challenge_def)
  obtain rr spec' where rr: "fst (Redeem_stateful ?env sm_ops ?disk (sv_now envB) rq (m2, pl_store (ss_pipe stB))) = Inr rr"
      "rr_Outcome rr = RedeemSolved" "rr_TokenTTL rr = fst (request_ttls rq uri)"
      "fst (signToken ?env ?disk (sv_now envB) (mint_claims ?env (sv_now envB) host (Fingerprint ?env (clientIP q1) (rq_UserAgent rq)) (sv_uid envA) spec'
          (rr_TokenTTL rr)) m2) = Inr (rr_Token rr)"
    using issue_then_redeem [OF issuer(8) i(1,2) issuer(5,6,7,4,2,3) i(3) between(1) [unfolded i(4)] between(2-5) cid rqf(1-3) redeemer(5)]
      i(5) [OF ch(1)] ch(1) client(7) by (auto simp: rq_def)
  have run: "fst (run_redeem envB rq m2 (pl_store (ss_pipe stB))) = Inr rr"
    using rr(1) redeemer(1,2) cid uuid_not_stateless [OF issuer(4)] by (simp add: Redeem_def)
  then obtain m' s' where run': "run_redeem envB rq m2 (pl_store (ss_pipe stB)) = (Inr rr, m', s')"
    by (metis prod.collapse)
  obtain ra c where h: "hook_state envB rq m2 (pl_store (ss_pipe stB)) stB = (ra, c)" by fastforce
  have "handlePassSolve envB q2 stB = redeem_solved envB q2 rq (sb_ElapsedMS b) rr
      (stB\<lparr>ss_counters := c, ss_pipe := (ss_pipe stB)\<lparr>pl_pow := Some m', pl_store := s'\<rparr>\<rparr>)"
    using client(1-3) redeemer(3,4) rr(2) run' h
    by (simp add: handlePassSolve_def redeem_def Let_def rq_def [symmetric])
  then show ?thesis using rr(3,4) rqf(1)
    by (auto simp: redeem_solved_def Let_def rq_def intro!: exI [of _ spec'])
qed

section \<open>The admission hooks run once\<close>

text \<open>
  A redemption asks the no-script hook about one URI only, that of the challenge it names; so running the hook once, at that
  URI, is what the code does.
\<close>

lemma acquire_update:
  "rq_IP (rq\<lparr>rq_AcquireNoJS := f\<rparr>) = rq_IP rq" "rq_Host (rq\<lparr>rq_AcquireNoJS := f\<rparr>) = rq_Host rq"
  "rq_UserAgent (rq\<lparr>rq_AcquireNoJS := f\<rparr>) = rq_UserAgent rq" "rq_NoJS (rq\<lparr>rq_AcquireNoJS := f\<rparr>) = rq_NoJS rq"
  "rq_ChallengeID (rq\<lparr>rq_AcquireNoJS := f\<rparr>) = rq_ChallengeID rq" "rq_Nonce (rq\<lparr>rq_AcquireNoJS := f\<rparr>) = rq_Nonce rq"
  "rq_Proof (rq\<lparr>rq_AcquireNoJS := f\<rparr>) = rq_Proof rq" "rq_AcquireArgon (rq\<lparr>rq_AcquireNoJS := f\<rparr>) = rq_AcquireArgon rq"
  "request_ttls (rq\<lparr>rq_AcquireNoJS := f\<rparr>) = request_ttls rq" "rq_AcquireNoJS (rq\<lparr>rq_AcquireNoJS := f\<rparr>) = f"
  by (simp_all add: request_ttls_def fun_eq_iff split: option.splits)

lemma hook_uri_sound:
  "run_redeem env rq m s =
   run_redeem env (rq\<lparr>rq_AcquireNoJS := \<lambda>_. rq_AcquireNoJS rq (challenge_uri env (rq_ChallengeID rq) s)\<rparr>) m s"
proof (cases "IsStatelessID (rq_ChallengeID rq)")
  case True
  let ?rq = "rq\<lparr>rq_AcquireNoJS := \<lambda>_. rq_AcquireNoJS rq (challenge_uri env (rq_ChallengeID rq) s)\<rparr>"
  have fin: "finishStateless e d n p sp ?rq t b mm = finishStateless e d n p sp rq t b mm" for e d n p sp t b mm
    unfolding finishStateless_def acquire_update ..
  have sp: "spend_stateless e o' d n n' ?rq c sp p t ct x = spend_stateless e o' d n n' rq c sp p t ct x" for e o' d n n' c sp p t ct x
    unfolding spend_stateless_def fin acquire_update ..
  have chk: "check_stateless_proof e n ?rq c spec p mm = check_stateless_proof e n rq c spec p mm"
    if "parse_stateless_id (rq_ChallengeID rq) = Some (fmt, payload, mac)" "env_unmarshal (se_powenv (sv_stage env)) payload = Some p"
    for e n c spec p mm fmt payload mac
    unfolding check_stateless_proof_def acquire_update using that True by (simp add: challenge_uri_def)
  show ?thesis
  proof (cases "parse_stateless_id (rq_ChallengeID rq)")
    case None
    then show ?thesis unfolding Redeem_def redeemStateless_def acquire_update using True by simp
  next
    case (Some x)
    then obtain fmt payload mac where parse: "parse_stateless_id (rq_ChallengeID rq) = Some (fmt, payload, mac)" by (cases x) auto
    show ?thesis
    proof (cases "env_unmarshal (se_powenv (sv_stage env)) payload")
      case None
      show ?thesis unfolding Redeem_def if_P [OF True] redeemStateless_def acquire_update parse option.case prod.case None using True by simp
    next
      case (Some p)
      show ?thesis unfolding Redeem_def redeemStateless_def acquire_update sp parse option.case prod.case Some chk [OF parse Some] using True by simp
    qed
  qed
next
  case False
  let ?rq = "rq\<lparr>rq_AcquireNoJS := \<lambda>_. rq_AcquireNoJS rq (challenge_uri env (rq_ChallengeID rq) s)\<rparr>"
  have com: "redeem_commit e o' d n ?rq prep x = redeem_commit e o' d n rq prep x" for e o' d n prep x
    unfolding redeem_commit_def redeem_mint_def acquire_update ..
  have pre: "redeem_prepare (se_powenv (sv_stage env)) (se_ops (sv_stage env)) (sv_now env) ?rq m s =
      redeem_prepare (se_powenv (sv_stage env)) (se_ops (sv_stage env)) (sv_now env) rq m s"
    unfolding redeem_prepare_def check_record_def check_solution_def acquire_update
    using False by (auto simp: challenge_uri_def split: sum.splits option.splits prod.splits)
  show ?thesis unfolding Redeem_def Redeem_stateful_def com acquire_update fst_conv snd_conv pre using False by simp
qed


section \<open>Witnesses\<close>

theorem unattributable_requests_never_score_witness:
  "keeps_others sm_live sm_ok 30 fresh_memory (pl_store (ss_pipe (snd (handlePassNoJS (example_server easy_env)
     ((example_get ''document'' ''text/html'')\<lparr>hq_Query := [(''nojs'', ''1''), (''cid'', example_id)]\<rparr>) example_server_state))))"
proof -
  let ?q = "(example_get ''document'' ''text/html'')\<lparr>hq_Query := [(''nojs'', ''1''), (''cid'', example_id)]\<rparr>"
  obtain r st' where h: "handlePassNoJS (example_server easy_env) ?q example_server_state = (r, st')" by fastforce
  show ?thesis
    using unattributable_requests_never_score [of "example_server easy_env" example_server_state ?q r st'] h by (simp add: fresh_memory_ok)
qed

theorem solved_page_earns_cookie_witness:
  "\<exists>stB ck. rs_Status (fst (handlePassSolve (example_server easy_env) (example_get ''document'' ''text/html'') stB)) = 200 \<and>
     rs_Cookie (fst (handlePassSolve (example_server easy_env) (example_get ''document'' ''text/html'') stB)) = Some ck \<and> ck_Name ck = CookieName"
proof -
  let ?env = "example_server easy_env" and ?q = "example_get ''document'' ''text/html''" and ?m = "newManagerWithRetiredKeys example_env 0 []"
  let ?host = "headerOr ?q hdrHost (hq_Host ?q)" and ?uri = "headerOr ?q hdrURI ''/''"
  obtain r st' pl nojs refresh where h: "handleChallenge ?env ?q example_server_state = (r, st')" "rs_Body r = ChallengePage pl nojs refresh"
      and pl: "cp_ChallengeID pl = example_id" "cp_Algorithm pl = AlgorithmSHA256" "cp_Difficulty pl = 16" using example_page by blast
  define stB where "stB = example_server_state\<lparr>ss_pipe := example_pipe_state\<lparr>pl_store := pl_store (ss_pipe st')\<rparr>\<rparr>"
  have B: "pl_pow (ss_pipe stB) = Some ?m" "exec_trace sm_ops janitor_sweep [] (pl_store (ss_pipe st')) = ([], pl_store (ss_pipe stB))"
    by (simp_all add: stB_def example_pipe_state_def)
  have bump: "unscorableFrame d s \<or> fst (BumpEscalation hs 30 hst ip ttl ?m) = 0" for d s hs hst ip ttl
    using example_bump by (metis fst_conv)
  have env: "digest_sizes easy_env" "length zero_salt = argon2SaltSize" "int64 (30 div 10 ^ 6)"
    by (simp_all add: digest_sizes_def easy_env_def sized_env_def example_env_def zero_salt_def int64_def minInt64_def maxInt64_def min_def)
  have fit: "issue_fits ?host (clientIP ?q) ?uri"
    by (simp add: issue_fits_def headerOr_def clientIP_def example_missing Let_def) (simp add: example_get_def stripPort_def splitHost_def record_defs)
  have sign: "\<forall>claims. \<exists>tok. fst (signToken easy_env example_disk 30 claims ?m) = Inr tok"
    by (simp add: signToken_def easy_env_def sized_env_def example_env_def newManagerWithRetiredKeys_def Let_def)
  have pa: "PoWAnywhere (DomainFor (engine_Config (sv_live ?env)) host)" for host
    by (simp add: PoWAnywhere_def DomainFor_def engine_Config_def example_server_def example_live_def uniform_config_def small_config_def with_pow_def)
  have ttl: "pw_ChallengeTTL (dm_PoW (with_pow True (validated_cfg no_list))) = second"
    by (simp add: with_pow_def validated_cfg_def plain_domain_def)
  have "leadingZeroBits (replicate 32 (CHR 0x00)) = 256" by (simp add: numeral_eq_Suc)
  then have solved: "client_solves easy_env (page_challenge pl) rq" for rq
    using pl by (simp add: client_solves_def page_challenge_def easy_env_def)
  have b: "sv_unmarshal ?env (hq_Body ?q) = Some \<lparr>sb_ChallengeID = example_id, sb_Nonce = ''7'', sb_Proof = '''', sb_ElapsedMS = 0\<rparr>"
      "sv_mediaType ?env (hdr_Get (hq_Header ?q) ''Content-Type'') = Some ''application/json''" "length (hq_Body ?q) \<le> 4096"
    by (simp_all add: example_server_def example_lookup) (simp add: example_get_def)
  have "\<exists>ck. rs_Status (fst (handlePassSolve ?env ?q stB)) = 200 \<and> rs_Cookie (fst (handlePassSolve ?env ?q stB)) = Some ck \<and> ck_Name ck = CookieName"
    using solved_page_earns_cookie [OF h _ refl refl refl _ _ _ _ _ _ _ _ _ _ B(2), of ?m ?env ?m ?q] bump env fit sign pa b solved pl ttl B(1)
    by (auto simp: example_scope example_uuid fresh_memory_ok fresh_memory_live trace_wf_def EqualFold_def second_def)
  then show ?thesis by blast
qed

end
