(* ===== verification/Ip_Ranges.thy ===== *)
theory Ip_Ranges
  imports Netip
begin

unbundle bit_operations_syntax

text \<open>
  The address sets of the reputation feeds (\<^verbatim>\<open>core/intel/ipset.go\<close>): prefixes become ranges of 16-byte addresses, sorted,
  merged in place and searched by bisection. A range set answers exactly whether some prefix of the list
  covers the address, IPv4 addresses and their IPv6-mapped spelling being one.

  The comparison \<^verbatim>\<open>bytes.Compare\<close> is the lexicographic order on lists. The order \<^verbatim>\<open>sort.Slice\<close> leaves ranges of equal start in is
  unspecified; the definition takes the stable one and the lemmas hold for any list sorted by start.
\<close>

section \<open>Ranges\<close>

record ip_range =
  ir_start :: "nat list"
  ir_end :: "nat list"

text \<open>The big-endian bytes of an address number, and the bytes of a prefix address.\<close>

fun be_digits :: "nat \<Rightarrow> nat \<Rightarrow> nat list" where
  "be_digits 0 n = []"
| "be_digits (Suc k) n = n div 256 ^ k # be_digits k (n mod 256 ^ k)"

definition mapped_base :: nat where "mapped_base = 65535 * 2 ^ 32"

definition prefix_num :: "ip_prefix \<Rightarrow> nat" where
  "prefix_num p = (if px_is4 p then mapped_base + px_num p else px_num p)"

definition prefix_As16 :: "ip_prefix \<Rightarrow> nat list" where
  "prefix_As16 p = be_digits 16 (prefix_num p)"

definition set_addr_bit :: "nat \<Rightarrow> nat list \<Rightarrow> nat list" where
  "set_addr_bit i e = e[i div 8 := e ! (i div 8) OR 2 ^ (7 - i mod 8)]"

definition rangeOf :: "ip_prefix \<Rightarrow> ip_range" where
  "rangeOf p0 =
     (let p = Masked p0; start = prefix_As16 p; bits = (if px_is4 p then px_bits p + 96 else px_bits p)
      in \<lparr>ir_start = start, ir_end = fold set_addr_bit [bits..<128] start\<rparr>)"

section \<open>The set\<close>

text \<open>
  One turn of the merge loop. The merged ranges are the first \<open>n\<close> cells of the array that is being read.
\<close>

definition merge_at :: "nat \<Rightarrow> ip_range list \<times> nat \<Rightarrow> ip_range list \<times> nat" where
  "merge_at i = (\<lambda>(rs, n).
     (let r = rs ! i
      in if 0 < n \<and> ir_start r \<le> ir_end (rs ! (n - 1))
         then (if ir_end (rs ! (n - 1)) < ir_end r then (rs[n - 1 := (rs ! (n - 1))\<lparr>ir_end := ir_end r\<rparr>], n) else (rs, n))
         else (rs[n := r], n + 1)))"

definition merge_ranges :: "ip_range list \<Rightarrow> ip_range list" where
  "merge_ranges rs = (let (arr, n) = fold merge_at [0..<length rs] (rs, 0) in take n arr)"

definition newRangeSet :: "ip_prefix list \<Rightarrow> ip_range list" where
  "newRangeSet ps = merge_ranges (sort_key ir_start (map rangeOf ps))"

text \<open>\<^verbatim>\<open>sort.Search\<close>.\<close>

function sort_Search :: "(nat \<Rightarrow> bool) \<Rightarrow> nat \<Rightarrow> nat \<Rightarrow> nat" where
  "sort_Search f i j =
     (if i < j then let h = (i + j) div 2 in if \<not> f h then sort_Search f (h + 1) j else sort_Search f i h else i)"
  by pat_completeness auto
termination
  by (relation "measure (\<lambda>(f, i, j). j - i)") auto

declare sort_Search.simps [simp del]

definition rs_Contains :: "ip_range list \<Rightarrow> addr \<Rightarrow> bool" where
  "rs_Contains rs a =
     (let k = As16 a; i = sort_Search (\<lambda>i. k < ir_start (rs ! i)) 0 (length rs)
      in 1 \<le> i \<and> k \<le> ir_end (rs ! (i - 1)))"

section \<open>Feed lists\<close>

text \<open>\<^verbatim>\<open>strings.Lines\<close>: the lines with their newline, the last one perhaps without.\<close>

function str_Lines :: "string \<Rightarrow> string list" where
  "str_Lines s =
     (if s = '''' then []
      else case dropWhile (\<lambda>c. c \<noteq> CHR 0x0A) s of
             [] \<Rightarrow> [s]
           | nl # rest \<Rightarrow> (takeWhile (\<lambda>c. c \<noteq> CHR 0x0A) s @ [nl]) # str_Lines rest)"
  by pat_completeness auto
termination
proof (relation "measure length", simp, unfold in_measure)
  fix s :: string and nl rest
  assume "dropWhile (\<lambda>c. c \<noteq> CHR 0x0A) s = nl # rest"
  then show "length rest < length s" using length_dropWhile_le [of "\<lambda>c. c \<noteq> CHR 0x0A" s] by simp
qed

declare str_Lines.simps [simp del]

datatype list_line = LineBlank | LineInvalid | LinePrefix ip_prefix

definition list_line_of :: "string \<Rightarrow> list_line" where
  "list_line_of l =
     (let line = trimSpace (takeWhile (\<lambda>c. c \<noteq> CHR ''#'' \<and> c \<noteq> CHR '';'') l)
      in if line = '''' then LineBlank
         else if CHR ''/'' \<in> set line
         then (case ParsePrefix line of None \<Rightarrow> LineInvalid | Some p \<Rightarrow> LinePrefix (Masked p))
         else case ParseAddr line of None \<Rightarrow> LineInvalid | Some a \<Rightarrow> LinePrefix (PrefixFrom a (BitLen a)))"

definition ParseList :: "bytes \<Rightarrow> ip_prefix list \<times> nat" where
  "ParseList raw =
     fold (\<lambda>l (ps, invalid). case list_line_of l of
             LineBlank \<Rightarrow> (ps, invalid) | LineInvalid \<Rightarrow> (ps, invalid + 1) | LinePrefix p \<Rightarrow> (ps @ [p], invalid))
       (str_Lines raw) ([], 0)"

section \<open>Addresses as numbers\<close>

lemma length_be_digits [simp]: "length (be_digits k n) = k"
  by (induction k arbitrary: n) auto

lemma div_mod_less_iff: "(a :: nat) < b \<longleftrightarrow> a div m < b div m \<or> a div m = b div m \<and> a mod m < b mod m"
proof (cases "a div m" "b div m" rule: linorder_cases)
  case less
  then show ?thesis using div_le_mono [of b a m] by linarith
next
  case equal
  then show ?thesis using div_mult_mod_eq [of a m] div_mult_mod_eq [of b m] by (metis nat_add_left_cancel_less less_irrefl)
next
  case greater
  then show ?thesis using div_le_mono [of a b m] by linarith
qed

lemma be_digits_less_iff: "a < 256 ^ k \<Longrightarrow> b < 256 ^ k \<Longrightarrow> be_digits k a < be_digits k b \<longleftrightarrow> a < b"
proof (induction k arbitrary: a b)
  case (Suc k)
  have "be_digits k (a mod 256 ^ k) < be_digits k (b mod 256 ^ k) \<longleftrightarrow> a mod 256 ^ k < b mod 256 ^ k"
    by (rule Suc.IH) simp_all
  moreover note div_mod_less_iff [of a b "256 ^ k"]
  ultimately show ?case by (auto simp: Cons_less_Cons)
qed simp

lemma be_digits_le_iff: "a < 256 ^ k \<Longrightarrow> b < 256 ^ k \<Longrightarrow> be_digits k a \<le> be_digits k b \<longleftrightarrow> a \<le> b"
  using be_digits_less_iff [of b k a] by (metis linorder_not_less)

lemma be_digits_nth: "j < k \<Longrightarrow> n < 256 ^ k \<Longrightarrow> be_digits k n ! j = take_bit 8 (drop_bit (8 * (k - 1 - j)) n)"
proof (induction k arbitrary: n j)
  case (Suc k)
  have q: "n div 256 ^ k < 256" using Suc.prems(2) by (simp add: less_mult_imp_div_less)
  show ?case
  proof (cases j)
    case 0
    then show ?thesis using q by (simp add: take_bit_eq_mod drop_bit_eq_div power_mult)
  next
    case j: (Suc i)
    then have i: "i < k" using Suc.prems(1) by simp
    have p: "(256 :: nat) ^ k = 2 ^ (8 * k)" by (simp add: power_mult)
    have "be_digits k (n mod 256 ^ k) ! i = take_bit 8 (drop_bit (8 * (k - 1 - i)) (n mod 256 ^ k))"
      using i by (intro Suc.IH) simp_all
    also have "\<dots> = take_bit 8 (drop_bit (8 * (k - 1 - i)) n)"
      using i unfolding p take_bit_eq_mod [symmetric] by (intro bit_eqI) (auto simp: bit_simps)
    finally show ?thesis using j by simp
  qed
qed simp

lemma foldl_base: "foldl (\<lambda>n x. n * b + x) acc xs = acc * b ^ length xs + foldl (\<lambda>n x. n * b + x) (0 :: nat) xs"
proof (induction xs arbitrary: acc)
  case (Cons x xs)
  show ?case using Cons.IH [of "acc * b + x"] Cons.IH [of x] by (simp add: algebra_simps)
qed simp

lemma foldl_bytes:
  assumes "list_all (\<lambda>x. x < 256) bs"
  shows "be_digits (length bs) (foldl (\<lambda>n x. n * 256 + x) 0 bs) = bs \<and> foldl (\<lambda>n x. n * 256 + x) 0 bs < 256 ^ length bs"
  using assms
proof (induction bs)
  case (Cons x xs)
  let ?v = "foldl (\<lambda>n x. n * 256 + x) 0 xs"
  have v: "?v < 256 ^ length xs" "be_digits (length xs) ?v = xs" and x: "x < 256" using Cons by simp_all
  have e: "foldl (\<lambda>n x. n * 256 + x) 0 (x # xs) = x * 256 ^ length xs + ?v" using foldl_base [of 256 x xs] by simp
  have "x * 256 ^ length xs + ?v < (x + 1) * 256 ^ length xs" using v(1) by simp
  also have "\<dots> \<le> 256 * 256 ^ length xs" using x by (intro mult_le_mono1) simp
  finally show ?case unfolding e using v by simp
qed simp

definition addr16 :: "addr \<Rightarrow> nat" where
  "addr16 a = (if addr_is4 a then mapped_base + addr_num a else addr_num a)"

lemma As16_digits:
  assumes "addr_ok a"
  shows "As16 a = be_digits 16 (addr16 a)" and "addr16 a < 2 ^ 128"
proof -
  have bytes: "length (As16 a) = 16" "list_all (\<lambda>x. x < 256) (As16 a)" and num: "foldl (\<lambda>n x. n * 256 + x) 0 (As16 a) = addr16 a"
  proof -
    show "length (As16 a) = 16" using assms by (cases a) (auto dest!: length8)
    show "list_all (\<lambda>x. x < 256) (As16 a)"
      using assms by (cases a) (auto simp: list_all_iff less_mult_imp_div_less)
    have g: "foldl (\<lambda>n x. n * 256 + x) acc (concat (map (\<lambda>g. [g div 256, g mod 256]) gs)) = foldl (\<lambda>n x. n * 65536 + x) acc gs" for acc :: nat and gs
    proof (induction gs arbitrary: acc)
      case (Cons g gs)
      have "(acc * 256 + g div 256) * 256 + g mod 256 = acc * 65536 + g" using div_mult_mod_eq [of g 256] by (simp add: algebra_simps)
      then show ?case using Cons.IH [of "(acc * 256 + g div 256) * 256 + g mod 256"] by (simp only: list.map concat.simps append.simps foldl_Cons)
    qed simp
    show "foldl (\<lambda>n x. n * 256 + x) 0 (As16 a) = addr16 a"
    proof (cases a)
      case (AddrV4 os)
      have z: "foldl (\<lambda>n x. n * 256 + x) 0 (replicate k 0) = (0 :: nat)" for k by (induction k) simp_all
      have "foldl (\<lambda>n x. n * 256 + x) 0 (As16 a) = foldl (\<lambda>n x. n * 256 + x) (255 * 256 + 255) os"
        unfolding AddrV4 As16.simps foldl_append z by simp
      also have "\<dots> = mapped_base + addr_num a"
        using assms AddrV4 foldl_base [of 256 "255 * 256 + 255" os] by (simp add: mapped_base_def)
      finally show ?thesis using AddrV4 by (simp add: addr16_def)
    qed (simp add: g addr16_def)
  qed
  have "be_digits 16 (addr16 a) = As16 a \<and> addr16 a < 256 ^ 16" using foldl_bytes [OF bytes(2)] unfolding bytes(1) num by simp
  then show "As16 a = be_digits 16 (addr16 a)" "addr16 a < 2 ^ 128" by simp_all
qed

lemma nat_bit_exp: "bit (2 ^ m :: nat) n \<longleftrightarrow> n = m"
  by (auto simp: bit_exp_iff)

lemma be_digits_bit: "j < 16 \<Longrightarrow> n < 256 ^ 16 \<Longrightarrow> bit (be_digits 16 n ! j) b \<longleftrightarrow> b < 8 \<and> bit n (8 * (15 - j) + b)"
  by (simp add: be_digits_nth bit_take_bit_iff bit_drop_bit_eq add.commute)

lemma addr_bit_pos:
  fixes i j b :: nat
  assumes "j < 16" "b < 8" "i < 128"
  shows "8 * (15 - j) + b = 127 - i \<longleftrightarrow> j = i div 8 \<and> b = 7 - i mod 8"
proof -
  obtain q r where i: "i = 8 * q + r" "r < 8" "q = i div 8" "r = i mod 8" using mult_div_mod_eq [of 8 i] by simp
  have "8 * (15 - j) + b = 127 - i \<longleftrightarrow> 8 * j + (7 - b) = i" using assms by arith
  also have "\<dots> \<longleftrightarrow> j = q \<and> 7 - b = r"
  proof
    assume e: "8 * j + (7 - b) = i"
    then have "\<not> j < q" "\<not> q < j" using i(1,2) by linarith+
    then show "j = q \<and> 7 - b = r" using e i(1) by simp
  qed (simp add: i(1))
  also have "7 - b = r \<longleftrightarrow> b = 7 - r" using assms(2) i(2) by auto
  finally show ?thesis using i(3,4) by simp
qed

lemma set_addr_bit_digits:
  assumes "n < 2 ^ 128" "i < 128"
  shows "set_addr_bit i (be_digits 16 n) = be_digits 16 (n OR 2 ^ (127 - i))" and "n OR 2 ^ (127 - i) < 2 ^ 128"
proof -
  have "take_bit 128 n = n" "take_bit 128 (2 ^ (127 - i) :: nat) = 2 ^ (127 - i)"
    unfolding take_bit_nat_eq_self_iff using assms by (simp_all only: power_strict_increasing_iff)
  then have "take_bit 128 (n OR 2 ^ (127 - i)) = n OR 2 ^ (127 - i)" by simp
  then have l: "n OR 2 ^ (127 - i) < 2 ^ 128" by (simp only: take_bit_nat_eq_self_iff)
  have b: "n < 256 ^ 16" "n OR 2 ^ (127 - i) < 256 ^ 16" using assms(1) l by simp_all
  show "set_addr_bit i (be_digits 16 n) = be_digits 16 (n OR 2 ^ (127 - i))"
  proof (rule nth_equalityI)
    fix j assume "j < length (set_addr_bit i (be_digits 16 n))"
    then have j: "j < 16" by (simp add: set_addr_bit_def)
    show "set_addr_bit i (be_digits 16 n) ! j = be_digits 16 (n OR 2 ^ (127 - i)) ! j"
    proof (rule bit_eqI)
      fix b
      have "bit (set_addr_bit i (be_digits 16 n) ! j) b = bit (if j = i div 8 then be_digits 16 n ! j OR 2 ^ (7 - i mod 8) else be_digits 16 n ! j) b"
        using j by (simp add: set_addr_bit_def)
      also have "\<dots> \<longleftrightarrow> b < 8 \<and> bit n (8 * (15 - j) + b) \<or> j = i div 8 \<and> b = 7 - i mod 8"
        using be_digits_bit [OF j b(1), of b] by (simp only: if_distrib [of "\<lambda>x. bit x b"] bit_or_iff nat_bit_exp) auto
      also have "\<dots> \<longleftrightarrow> b < 8 \<and> (bit n (8 * (15 - j) + b) \<or> 8 * (15 - j) + b = 127 - i)"
        using addr_bit_pos [OF j _ assms(2), of b] by (cases "b < 8") auto
      also have "\<dots> \<longleftrightarrow> bit (be_digits 16 (n OR 2 ^ (127 - i)) ! j) b"
        by (simp only: be_digits_bit [OF j b(2)] bit_or_iff nat_bit_exp)
      finally show "bit (set_addr_bit i (be_digits 16 n) ! j) b = bit (be_digits 16 (n OR 2 ^ (127 - i)) ! j) b" .
    qed
  qed (simp add: set_addr_bit_def)
  show "n OR 2 ^ (127 - i) < 2 ^ 128" by (rule l)
qed


section \<open>The range of a prefix\<close>

lemma fold_set_bits:
  assumes "n < 2 ^ 128" "bits \<le> k" "k \<le> 128"
  shows "\<exists>m. fold set_addr_bit [bits..<k] (be_digits 16 n) = be_digits 16 m \<and> m < 2 ^ 128 \<and>
    (\<forall>b. bit m b \<longleftrightarrow> bit n b \<or> 128 - k \<le> b \<and> b < 128 - bits)"
  using assms(2,3)
proof (induction k rule: dec_induct)
  case base
  then show ?case using assms(1) by auto
next
  case (step k)
  then obtain m where m: "fold set_addr_bit [bits..<k] (be_digits 16 n) = be_digits 16 m" "m < 2 ^ 128"
      "\<forall>b. bit m b \<longleftrightarrow> bit n b \<or> 128 - k \<le> b \<and> b < 128 - bits" by auto
  have k: "k < 128" using step.prems by simp
  have "fold set_addr_bit [bits..<Suc k] (be_digits 16 n) = be_digits 16 (m OR 2 ^ (127 - k))"
    using set_addr_bit_digits(1) [OF m(2) k] m(1) step.hyps(1) by simp
  moreover have "bit (m OR 2 ^ (127 - k)) b \<longleftrightarrow> bit n b \<or> 128 - Suc k \<le> b \<and> b < 128 - bits" for b
  proof -
    have "128 - Suc k \<le> b \<and> b < 128 - bits \<longleftrightarrow> 128 - k \<le> b \<and> b < 128 - bits \<or> b = 127 - k" using k step.hyps(1) by arith
    then show ?thesis using m(3) by (simp only: bit_or_iff nat_bit_exp) blast
  qed
  ultimately show ?case using set_addr_bit_digits(2) [OF m(2) k] by blast
qed

definition prefix_ok :: "ip_prefix \<Rightarrow> bool" where
  "prefix_ok p \<longleftrightarrow> px_bits p \<le> family_bits (px_is4 p) \<and> px_num p < 2 ^ family_bits (px_is4 p)"

text \<open>A prefix covers an address when they agree on all but the host bits, in the 128-bit address space.\<close>

definition covers :: "ip_prefix \<Rightarrow> addr \<Rightarrow> bool" where
  "covers p a \<longleftrightarrow> addr16 a div 2 ^ host_bits p = prefix_num p div 2 ^ host_bits p"

lemma addr_num_less: "addr_ok a \<Longrightarrow> addr_num a < 2 ^ family_bits (addr_is4 a)"
  using As16_digits(2) [of a] foldl_bytes by (cases a) (auto simp: addr16_def family_bits_def dest: foldl_bytes)

lemma prefix_ok_from: "addr_ok a \<Longrightarrow> n \<le> BitLen a \<Longrightarrow> prefix_ok (PrefixFrom a n)"
  using addr_num_less [of a] by (simp add: prefix_ok_def BitLen_def)

lemma mapped_base_split: "h \<le> 32 \<Longrightarrow> mapped_base = 65535 * 2 ^ (32 - h) * 2 ^ h"
  by (simp only: mapped_base_def mult.assoc power_add [symmetric] le_add_diff_inverse2)

lemma mapped_div: "h \<le> 32 \<Longrightarrow> (mapped_base + n) div 2 ^ h = 65535 * 2 ^ (32 - h) + n div 2 ^ h"
  by (simp add: mapped_base_split add.commute [of _ n])

lemma masked_num:
  assumes "prefix_ok p"
  defines "h \<equiv> host_bits p"
  shows "prefix_num (Masked p) = prefix_num p div 2 ^ h * 2 ^ h" and "prefix_num p < 2 ^ 128" and "h \<le> 128"
proof -
  show "h \<le> 128" by (auto simp: h_def host_bits_def family_bits_def)
  show "prefix_num p < 2 ^ 128" using assms(1) by (simp add: prefix_num_def prefix_ok_def mapped_base_def family_bits_def split: if_splits)
  show "prefix_num (Masked p) = prefix_num p div 2 ^ h * 2 ^ h"
  proof (cases "px_is4 p")
    case True
    then have "h \<le> 32" using assms(1) by (simp add: h_def host_bits_def family_bits_def)
    then show ?thesis using True mapped_div [of h] mapped_base_split [of h] by (simp add: prefix_num_def Masked_def add_mult_distrib flip: h_def)
  qed (simp add: prefix_num_def Masked_def h_def)
qed

lemma rangeOf_ends:
  assumes "prefix_ok p"
  defines "h \<equiv> host_bits p"
  defines "q \<equiv> prefix_num p div 2 ^ h"
  shows "ir_start (rangeOf p) = be_digits 16 (q * 2 ^ h)" and "ir_end (rangeOf p) = be_digits 16 (q * 2 ^ h + (2 ^ h - 1))"
    and "q * 2 ^ h + (2 ^ h - 1) < 2 ^ 128"
proof -
  note m = masked_num [OF assms(1), folded h_def]
  have "q * 2 ^ h \<le> prefix_num p" by (simp add: q_def)
  then have n: "q * 2 ^ h < 2 ^ 128" using m(2) by (rule le_less_trans)
  show start: "ir_start (rangeOf p) = be_digits 16 (q * 2 ^ h)"
    by (simp only: rangeOf_def Let_def prefix_As16_def ip_range.select_convs m(1) q_def)
  define bits where "bits = (if px_is4 p then px_bits p + 96 else px_bits p)"
  have bits: "bits \<le> 128" "128 - bits = h" using assms(1) by (auto simp: bits_def h_def host_bits_def family_bits_def prefix_ok_def)
  have "ir_end (rangeOf p) = fold set_addr_bit [bits..<128] (be_digits 16 (q * 2 ^ h))"
    using start by (simp add: rangeOf_def Let_def bits_def Masked_def)
  then obtain e where e: "ir_end (rangeOf p) = be_digits 16 e" "e < 2 ^ 128" "\<forall>b. bit e b \<longleftrightarrow> bit (q * 2 ^ h) b \<or> b < h"
    using fold_set_bits [OF n bits(1)] bits by auto
  have "drop_bit h e = q" using e(3) by (auto simp: bit_eq_iff bit_drop_bit_eq bit_push_bit_iff simp flip: push_bit_eq_mult)
  moreover have "take_bit h e = mask h" using e(3) by (auto simp: bit_eq_iff bit_take_bit_iff bit_mask_iff)
  ultimately have "e = q * 2 ^ h + (2 ^ h - 1)"
    using bits_ident [of h e] by (simp add: push_bit_eq_mult mask_eq_exp_minus_1)
  then show "ir_end (rangeOf p) = be_digits 16 (q * 2 ^ h + (2 ^ h - 1))" "q * 2 ^ h + (2 ^ h - 1) < 2 ^ 128" using e by simp_all
qed

lemma range_covers:
  assumes "prefix_ok p" "addr_ok a"
  shows "ir_start (rangeOf p) \<le> As16 a \<and> As16 a \<le> ir_end (rangeOf p) \<longleftrightarrow> covers p a"
    and "ir_start (rangeOf p) \<le> ir_end (rangeOf p)"
proof -
  define h where "h = host_bits p"
  define q where "q = prefix_num p div 2 ^ h"
  note r = rangeOf_ends [OF assms(1), folded h_def, folded q_def]
  note a = As16_digits [OF assms(2)]
  have "q * 2 ^ h \<le> q * 2 ^ h + (2 ^ h - 1)" by (rule le_add1)
  from le_less_trans [OF this r(3)] r(3) a(2)
  have b: "q * 2 ^ h < 256 ^ 16" "q * 2 ^ h + (2 ^ h - 1) < 256 ^ 16" "addr16 a < 256 ^ 16" by simp_all
  show "ir_start (rangeOf p) \<le> ir_end (rangeOf p)" unfolding r(1,2) be_digits_le_iff [OF b(1,2)] by (rule le_add1)
  have "x div 2 ^ h = q \<longleftrightarrow> q * 2 ^ h \<le> x \<and> x \<le> q * 2 ^ h + (2 ^ h - 1)" for x :: nat
  proof
    assume q: "x div 2 ^ h = q"
    have "x mod 2 ^ h < 2 ^ h" by simp
    then show "q * 2 ^ h \<le> x \<and> x \<le> q * 2 ^ h + (2 ^ h - 1)" using div_mult_mod_eq [of x "2 ^ h"] unfolding q by linarith
  next
    assume x: "q * 2 ^ h \<le> x \<and> x \<le> q * 2 ^ h + (2 ^ h - 1)"
    have "(1 :: nat) \<le> 2 ^ h" by simp
    then have "2 ^ h * q \<le> x" "x < 2 ^ h * Suc q" using x unfolding mult_Suc_right mult.commute [of _ q] by linarith+
    then show "x div 2 ^ h = q" by (rule div_nat_eqI)
  qed
  then show "ir_start (rangeOf p) \<le> As16 a \<and> As16 a \<le> ir_end (rangeOf p) \<longleftrightarrow> covers p a"
    unfolding r(1,2) a(1) be_digits_le_iff [OF b(1,3)] be_digits_le_iff [OF b(3,2)] covers_def h_def [symmetric] q_def [symmetric] by simp
qed

section \<open>Merging\<close>

definition in_range :: "nat list \<Rightarrow> ip_range \<Rightarrow> bool" where
  "in_range k r \<longleftrightarrow> ir_start r \<le> k \<and> k \<le> ir_end r"

text \<open>The ranges already merged: each starts after the one before it has ended.\<close>

definition disjoint_ranges :: "ip_range list \<Rightarrow> bool" where
  "disjoint_ranges rs \<longleftrightarrow> sorted_wrt (\<lambda>r s. ir_end r < ir_start s) rs \<and> list_all (\<lambda>r. ir_start r \<le> ir_end r) rs"

definition merge_push :: "ip_range list \<Rightarrow> ip_range \<Rightarrow> ip_range list" where
  "merge_push ms r =
     (if ms \<noteq> [] \<and> ir_start r \<le> ir_end (last ms)
      then (if ir_end (last ms) < ir_end r then butlast ms @ [(last ms)\<lparr>ir_end := ir_end r\<rparr>] else ms)
      else ms @ [r])"

text \<open>Writing behind the read position is safe: the loop in place computes the loop on two lists.\<close>

lemma merge_in_place:
  assumes "k \<le> length rs"
  shows "\<exists>arr n. fold merge_at [0..<k] (rs, 0) = (arr, n) \<and> n \<le> k \<and> length arr = length rs \<and> drop k arr = drop k rs \<and>
    take n arr = foldl merge_push [] (take k rs)"
  using assms
proof (induction k)
  case (Suc k)
  then obtain arr n where a: "fold merge_at [0..<k] (rs, 0) = (arr, n)" "n \<le> k" "length arr = length rs" "drop k arr = drop k rs"
      "take n arr = foldl merge_push [] (take k rs)" by auto
  have k: "k < length rs" using Suc.prems by simp
  then have r: "arr ! k = rs ! k" using a(3,4) by (metis hd_drop_conv_nth)
  have d: "drop (Suc k) arr = drop (Suc k) rs" using a(4) by (metis drop_Suc tl_drop)
  have l: "n \<noteq> 0 \<Longrightarrow> take n arr \<noteq> [] \<and> last (take n arr) = arr ! (n - 1) \<and> butlast (take n arr) = take (n - 1) arr"
    using a(2,3) k by (cases n) (auto simp: take_Suc_conv_app_nth)
  have upd: "take n (arr[n - 1 := x]) = take (n - 1) arr @ [x]" if "n \<noteq> 0" for x
    using that a(2,3) k by (cases n) (simp_all add: take_Suc_conv_app_nth)
  have new: "take (Suc n) (arr[n := x]) = take n arr @ [x]" for x using a(2,3) k by (simp add: take_Suc_conv_app_nth)
  have "foldl merge_push [] (take (Suc k) rs) = merge_push (take n arr) (rs ! k)"
    using k a(5) by (simp add: take_Suc_conv_app_nth)
  moreover have "\<exists>arr' n'. merge_at k (arr, n) = (arr', n') \<and> n' \<le> Suc k \<and> length arr' = length rs \<and> drop (Suc k) arr' = drop (Suc k) rs \<and>
      take n' arr' = merge_push (take n arr) (rs ! k)"
    using a(2,3) k l upd new d by (cases "n = 0") (auto simp: merge_at_def merge_push_def Let_def r)
  ultimately show ?case using a(1) by simp
qed simp

lemma merge_ranges_eq: "merge_ranges rs = foldl merge_push [] rs"
  using merge_in_place [of "length rs" rs] by (auto simp: merge_ranges_def)

lemma merge_push_ok:
  assumes "disjoint_ranges ms" "ir_start r \<le> ir_end r" "\<forall>m \<in> set ms. ir_start m \<le> ir_start r"
  shows "disjoint_ranges (merge_push ms r)" and "(\<exists>m \<in> set (merge_push ms r). in_range k m) \<longleftrightarrow> (\<exists>m \<in> set ms. in_range k m) \<or> in_range k r"
    and "m \<in> set (merge_push ms r) \<Longrightarrow> ir_start m \<le> ir_start r"
proof -
  have "disjoint_ranges (merge_push ms r) \<and> ((\<exists>m \<in> set (merge_push ms r). in_range k m) \<longleftrightarrow> (\<exists>m \<in> set ms. in_range k m) \<or> in_range k r) \<and>
      (\<forall>m \<in> set (merge_push ms r). ir_start m \<le> ir_start r)"
  proof (cases ms rule: rev_cases)
    case Nil
    then show ?thesis using assms(2) by (simp add: merge_push_def disjoint_ranges_def)
  next
    case (snoc ys y)
    have y: "ir_start y \<le> ir_end y" "ir_start y \<le> ir_start r" "disjoint_ranges ys" "\<forall>x \<in> set ys. ir_end x < ir_start y"
      using assms(1,3) snoc by (auto simp: disjoint_ranges_def sorted_wrt_append list_all_iff)
    have "\<forall>x \<in> set ys. ir_end x < ir_start r" using y(2,4) by (auto intro: less_le_trans)
    then have "disjoint_ranges (merge_push ms r)"
      using y assms(2) snoc by (auto simp: merge_push_def disjoint_ranges_def sorted_wrt_append list_all_iff)
    moreover have "(\<exists>m \<in> set (merge_push ms r). in_range k m) \<longleftrightarrow> (\<exists>m \<in> set ms. in_range k m) \<or> in_range k r"
      using y(1,2) assms(2) snoc by (auto simp: merge_push_def in_range_def)
    ultimately show ?thesis using assms(3) snoc by (auto simp: merge_push_def)
  qed
  then show "disjoint_ranges (merge_push ms r)" "(\<exists>m \<in> set (merge_push ms r). in_range k m) \<longleftrightarrow> (\<exists>m \<in> set ms. in_range k m) \<or> in_range k r"
    "m \<in> set (merge_push ms r) \<Longrightarrow> ir_start m \<le> ir_start r" by blast+
qed

lemma merge_ranges_ok:
  assumes "sorted (map ir_start rs)" "\<forall>r \<in> set rs. ir_start r \<le> ir_end r"
  shows "disjoint_ranges (merge_ranges rs) \<and> ((\<exists>m \<in> set (merge_ranges rs). in_range k m) \<longleftrightarrow> (\<exists>r \<in> set rs. in_range k r))"
proof -
  have "disjoint_ranges (foldl merge_push [] rs) \<and> ((\<exists>m \<in> set (foldl merge_push [] rs). in_range k m) \<longleftrightarrow> (\<exists>r \<in> set rs. in_range k r)) \<and>
      (\<forall>m \<in> set (foldl merge_push [] rs). rs \<noteq> [] \<and> ir_start m \<le> ir_start (last rs))"
    using assms
  proof (induction rs rule: rev_induct)
    case (snoc r rs)
    let ?ms = "foldl merge_push [] rs"
    have IH: "disjoint_ranges ?ms" "(\<exists>m \<in> set ?ms. in_range k m) \<longleftrightarrow> (\<exists>r \<in> set rs. in_range k r)"
        "\<forall>m \<in> set ?ms. rs \<noteq> [] \<and> ir_start m \<le> ir_start (last rs)"
      using snoc by (simp_all add: sorted_append)
    have "rs \<noteq> [] \<Longrightarrow> ir_start (last rs) \<le> ir_start r" using snoc.prems(1) by (simp add: sorted_append)
    then have "\<forall>m \<in> set ?ms. ir_start m \<le> ir_start r" using IH(3) by (meson order_trans)
    moreover have "ir_start r \<le> ir_end r" using snoc.prems(2) by simp
    ultimately have "disjoint_ranges (merge_push ?ms r)" "(\<exists>m \<in> set (merge_push ?ms r). in_range k m) \<longleftrightarrow> (\<exists>m \<in> set ?ms. in_range k m) \<or> in_range k r"
        "\<forall>m \<in> set (merge_push ?ms r). ir_start m \<le> ir_start r"
      using merge_push_ok [OF IH(1), of r] by blast+
    then show ?case using IH(2) by (simp add: disj_commute)
  qed (simp add: disjoint_ranges_def)
  then show ?thesis by (simp add: merge_ranges_eq)
qed

section \<open>Searching\<close>

lemma sort_Search_result:
  assumes "i \<le> j" "\<And>m n. f m \<Longrightarrow> m \<le> n \<Longrightarrow> n < j \<Longrightarrow> f n"
  shows "i \<le> sort_Search f i j \<and> sort_Search f i j \<le> j \<and> (\<forall>m. i \<le> m \<and> m < sort_Search f i j \<longrightarrow> \<not> f m) \<and>
    (\<forall>m. sort_Search f i j \<le> m \<and> m < j \<longrightarrow> f m)"
  using assms
proof (induction f i j rule: sort_Search.induct)
  case (1 f i j)
  define h where "h = (i + j) div 2"
  show ?case
  proof (cases "i < j")
    case True
    then have h: "i \<le> h" "h < j" by (auto simp: h_def)
    show ?thesis
    proof (cases "f h")
      case True
      have "i \<le> sort_Search f i h \<and> sort_Search f i h \<le> h \<and> (\<forall>m. i \<le> m \<and> m < sort_Search f i h \<longrightarrow> \<not> f m) \<and>
          (\<forall>m. sort_Search f i h \<le> m \<and> m < h \<longrightarrow> f m)"
        using "1.IH"(2) [OF \<open>i < j\<close> h_def] True h "1.prems"(2) by (auto intro: less_trans)
      moreover have "sort_Search f i j = sort_Search f i h" using True \<open>i < j\<close> by (simp add: sort_Search.simps [of f i j] h_def)
      moreover have "f m" if "h \<le> m" "m < j" for m using "1.prems"(2) [OF True that] .
      ultimately show ?thesis using h by (metis le_less_linear less_imp_le order_trans)
    next
      case False
      have "h + 1 \<le> sort_Search f (h + 1) j \<and> sort_Search f (h + 1) j \<le> j \<and> (\<forall>m. h + 1 \<le> m \<and> m < sort_Search f (h + 1) j \<longrightarrow> \<not> f m) \<and>
          (\<forall>m. sort_Search f (h + 1) j \<le> m \<and> m < j \<longrightarrow> f m)"
        using "1.IH"(1) [OF \<open>i < j\<close> h_def] False h "1.prems"(2) by auto
      moreover have "sort_Search f i j = sort_Search f (h + 1) j" using False \<open>i < j\<close> by (simp add: sort_Search.simps [of f i j] h_def)
      moreover have "\<not> f m" if "m \<le> h" for m using "1.prems"(2) [of m h] False that h(2) by blast
      moreover have "m \<le> h \<or> h + 1 \<le> m" for m by linarith
      ultimately show ?thesis using h by (metis le_add1 le_trans)
    qed
  next
    case False
    then have "sort_Search f i j = i" by (simp add: sort_Search.simps [of f i j])
    then show ?thesis using "1.prems"(1) False by auto
  qed
qed

lemma Contains_disjoint:
  assumes "disjoint_ranges rs"
  shows "rs_Contains rs a \<longleftrightarrow> (\<exists>r \<in> set rs. in_range (As16 a) r)"
proof -
  define k where "k = As16 a"
  let ?f = "\<lambda>i. k < ir_start (rs ! i)"
  define i where "i = sort_Search ?f 0 (length rs)"
  have ord: "ir_end (rs ! m) < ir_start (rs ! n)" if "m < n" "n < length rs" for m n
    using assms that by (auto simp: disjoint_ranges_def sorted_wrt_iff_nth_less)
  have wf: "ir_start (rs ! m) \<le> ir_end (rs ! m)" if "m < length rs" for m
    using assms that by (auto simp: disjoint_ranges_def list_all_length)
  have mono: "?f n" if "?f m" "m \<le> n" "n < length rs" for m n
  proof (cases "m = n")
    case False
    then have "ir_end (rs ! m) < ir_start (rs ! n)" "m < length rs" using ord that by auto
    then show ?thesis using that(1) wf [of m] by (meson less_le_trans less_trans)
  qed (use that in simp)
  have s: "i \<le> length rs" "\<And>m. m < i \<Longrightarrow> \<not> ?f m" "\<And>m. i \<le> m \<Longrightarrow> m < length rs \<Longrightarrow> ?f m"
    using sort_Search_result [of 0 "length rs" ?f, folded i_def] mono by auto
  have "in_range k (rs ! m) \<Longrightarrow> m < length rs \<Longrightarrow> m = i - 1 \<and> 1 \<le> i" for m
  proof (rule ccontr)
    assume m: "in_range k (rs ! m)" "m < length rs" "\<not> (m = i - 1 \<and> 1 \<le> i)"
    then have "m < i" using s(3) [of m] by (meson in_range_def leD le_less_linear)
    then have "m < i - 1" using m(3) by linarith
    then have "ir_end (rs ! m) < ir_start (rs ! (i - 1))" using ord s(1) by simp
    moreover have "ir_start (rs ! (i - 1)) \<le> k" using s(2) [of "i - 1"] \<open>m < i - 1\<close> by simp
    ultimately show False using m(1) by (meson in_range_def leD less_le_trans)
  qed
  moreover have "1 \<le> i \<Longrightarrow> ir_start (rs ! (i - 1)) \<le> k" using s(2) [of "i - 1"] by simp
  ultimately have "1 \<le> i \<and> k \<le> ir_end (rs ! (i - 1)) \<longleftrightarrow> (\<exists>m < length rs. in_range k (rs ! m))"
    using s(1) unfolding in_range_def by (metis One_nat_def Suc_le_lessD Suc_pred lessI less_le_trans)
  also have "\<dots> \<longleftrightarrow> (\<exists>r \<in> set rs. in_range k r)" by (metis in_set_conv_nth)
  finally show ?thesis by (simp add: rs_Contains_def Let_def flip: k_def i_def)
qed

lemma newRangeSet_exact:
  assumes "list_all prefix_ok ps" "addr_ok a"
  shows "rs_Contains (newRangeSet ps) a \<longleftrightarrow> (\<exists>p \<in> set ps. covers p a)"
proof -
  let ?rs = "sort_key ir_start (map rangeOf ps)"
  have "\<forall>r \<in> set ?rs. ir_start r \<le> ir_end r" using assms range_covers(2) by (auto simp: list_all_iff)
  then have "rs_Contains (newRangeSet ps) a \<longleftrightarrow> (\<exists>r \<in> set ?rs. in_range (As16 a) r)"
    using merge_ranges_ok [of ?rs "As16 a"] Contains_disjoint by (simp add: newRangeSet_def)
  also have "\<dots> \<longleftrightarrow> (\<exists>p \<in> set ps. covers p a)"
    using range_covers(1) assms by (auto simp: list_all_iff in_range_def)
  finally show ?thesis .
qed

section \<open>Parsed lists\<close>

lemma prefix_ok_Masked: "prefix_ok p \<Longrightarrow> prefix_ok (Masked p)"
  using le_less_trans [of "px_num p div 2 ^ host_bits p * 2 ^ host_bits p" "px_num p"] by (auto simp: prefix_ok_def Masked_def)

lemma ParsePrefix_ok: "ParsePrefix s = Some p \<Longrightarrow> prefix_ok p"
  by (auto simp: ParsePrefix_def Let_def split: if_splits option.splits intro!: prefix_ok_from dest: ParseAddr_ok)

lemma list_line_ok: "list_line_of l = LinePrefix p \<Longrightarrow> prefix_ok p"
  by (auto simp: list_line_of_def Let_def split: if_splits option.splits dest: ParsePrefix_ok ParseAddr_ok intro: prefix_ok_Masked prefix_ok_from)

lemma ParseList_entries: "set (fst (ParseList raw)) = {p. \<exists>l \<in> set (str_Lines raw). list_line_of l = LinePrefix p}"
proof -
  have "set (fst (fold (\<lambda>l (ps, invalid). case list_line_of l of
      LineBlank \<Rightarrow> (ps, invalid) | LineInvalid \<Rightarrow> (ps, invalid + 1) | LinePrefix p \<Rightarrow> (ps @ [p], invalid)) ls (ps, n))) =
      set ps \<union> {p. \<exists>l \<in> set ls. list_line_of l = LinePrefix p}" for ls ps and n :: nat
    by (induction ls arbitrary: ps n) (auto split: list_line.splits)
  then show ?thesis by (simp add: ParseList_def)
qed

lemma ParseList_ok: "list_all prefix_ok (fst (ParseList raw))"
  using ParseList_entries [of raw] list_line_ok by (auto simp: list_all_iff)

text \<open>
  C24 (equivalence). Looking an address up in a loaded feed, a bisection over sorted and merged byte ranges, answers exactly
  whether some line of the feed's text lists it: a line that holds, before any comment and without its blanks,
  a prefix covering the address or the address itself, an IPv4 address and its mapped IPv6 spelling being the same. Neither
  overlaps nor duplicates nor unreadable lines in the text matter.
\<close>

theorem feed_lookup_exact:
  assumes "addr_ok a"
  shows "rs_Contains (newRangeSet (fst (ParseList raw))) a \<longleftrightarrow>
    (\<exists>l \<in> set (str_Lines raw). \<exists>p. list_line_of l = LinePrefix p \<and> covers p a)"
  using newRangeSet_exact [OF ParseList_ok assms] ParseList_entries [of raw] by auto

lemma example_feed_line:
  "list_line_of ''192.0.2.7 ;x'' = LinePrefix \<lparr>px_is4 = True, px_num = 3221225991, px_bits = 32\<rparr>"
  "str_Lines ''192.0.2.7 ;x'' = [''192.0.2.7 ;x'']"
proof -
  show "str_Lines ''192.0.2.7 ;x'' = [''192.0.2.7 ;x'']" by (simp add: str_Lines.simps)
  have "trimSpace ''192.0.2.7 '' = ''192.0.2.7''" by (simp add: trimSpace_def trim_with_def is_space_def)
  moreover have "ParseAddr ''192.0.2.7'' = Some (AddrV4 [192, 0, 2, 7])" by (simp add: ParseAddr_def parseIPv4Fields_def dec_digit_def)
  ultimately show "list_line_of ''192.0.2.7 ;x'' = LinePrefix \<lparr>px_is4 = True, px_num = 3221225991, px_bits = 32\<rparr>"
    by (simp add: list_line_of_def PrefixFrom_def BitLen_def family_bits_def)
qed

lemma example_feed_contains: "rs_Contains (newRangeSet (fst (ParseList ''192.0.2.7 ;x''))) (AddrV4 [192, 0, 2, 7])"
proof -
  have "addr_ok (AddrV4 [192, 0, 2, 7])" by simp
  moreover have "covers \<lparr>px_is4 = True, px_num = 3221225991, px_bits = 32\<rparr> (AddrV4 [192, 0, 2, 7])"
    by (simp add: covers_def addr16_def prefix_num_def)
  ultimately show ?thesis using newRangeSet_exact [OF ParseList_ok] ParseList_entries [of "''192.0.2.7 ;x''"] example_feed_line by force
qed

theorem feed_lookup_exact_witness:
  "rs_Contains (newRangeSet (fst (ParseList ''192.0.2.7 ;x''))) (AddrV4 [192, 0, 2, 7])"
proof -
  have "addr_ok (AddrV4 [192, 0, 2, 7])" by simp
  moreover have "covers \<lparr>px_is4 = True, px_num = 3221225991, px_bits = 32\<rparr> (AddrV4 [192, 0, 2, 7])"
    by (simp add: covers_def addr16_def prefix_num_def)
  ultimately show ?thesis unfolding feed_lookup_exact [OF \<open>addr_ok (AddrV4 [192, 0, 2, 7])\<close>] example_feed_line(2) using example_feed_line(1) by simp
qed

text \<open>Within one family, covering is the containment test of the library.\<close>

lemma covers_Contains:
  assumes "px_is4 p = addr_is4 a" "addr_zone a = ''''" "prefix_ok p"
  shows "covers p a \<longleftrightarrow> Contains p a"
proof (cases "px_is4 p")
  case True
  define h where "h = host_bits p"
  have "h \<le> 32" using True by (simp add: h_def host_bits_def family_bits_def)
  then show ?thesis using assms True mapped_div [of h] by (auto simp: covers_def Contains_def addr16_def prefix_num_def simp flip: h_def)
qed (use assms in \<open>auto simp: covers_def Contains_def addr16_def prefix_num_def\<close>)

end
