(* ===== verification/Intel_Feeds.thy ===== *)
theory Intel_Feeds
  imports Ip_Ranges
begin

text \<open>
  IP intelligence (\<^verbatim>\<open>core/intel/feeds.go\<close>, \<^verbatim>\<open>provider.go\<close>, \<^verbatim>\<open>geoip.go\<close>): the reputation feeds with their three sources
  (remote list, cached copy, local file), the handover of loaded lists across a configuration reload, and the
  lookups the pipeline makes.

  Files are a map from paths to contents and modification times; a remote fetch is its reply. The MaxMind library is a
  parameter: an opened database is its metadata and its two lookup functions, where \<open>None\<close> is a decoding error. A failed
  write of the cached copy is a flag. The reference counts of the readers are the subject of \<open>Engine_Life\<close>; the path of the cached
  copy is not cleaned.
\<close>

section \<open>Feeds\<close>

definition FeedActionDeny :: string where "FeedActionDeny = ''deny''"
definition FeedActionChallenge :: string where "FeedActionChallenge = ''challenge''"
definition maxFeedBody :: nat where "maxFeedBody = 64 * 2 ^ 20"
definition feedRetryInterval :: nanos where "feedRetryInterval = 5 * 60 * 10 ^ 9"

type_synonym file_map = "(string, bytes \<times> nanos) gomap"

record feed_config =
  fc_Name :: string
  fc_URL :: string
  fc_File :: string
  fc_Refresh :: nanos
  fc_Action :: string

record feed_state =
  fs_set :: "ip_range list"
  fs_entries :: nat
  fs_refreshed :: nanos
  fs_source :: string

datatype feed_error =
    NoValidEntries nat
  | RefusesEmpty nat
  | EmptyBody string
  | FetchFailed
  | BadStatus nat
  | BodyUnreadable
  | BodyTooLarge
  | FileUnreadable

record feed =
  fd_cfg :: feed_config
  fd_state :: "feed_state option"
  fd_lastErr :: "feed_error option"
  fd_hash :: "64 word"

text \<open>\<^verbatim>\<open>hash/fnv\<close>, 64-bit FNV-1a.\<close>

definition fd_contentHash :: "bytes \<Rightarrow> 64 word" where
  "fd_contentHash raw = foldl (\<lambda>h c. xor h (word_of_nat (of_char c)) * 1099511628211) 14695981039346656037 raw"

text \<open>The reason an entry-less body is not installed, if there is one.\<close>

definition empty_refused :: "feed_state option \<Rightarrow> string \<Rightarrow> feed_error option" where
  "empty_refused prev source =
     (case prev of
        Some s \<Rightarrow> (if 0 < fs_entries s then Some (RefusesEmpty (fs_entries s)) else if source \<noteq> ''file'' then Some (EmptyBody source) else None)
      | None \<Rightarrow> (if source \<noteq> ''file'' then Some (EmptyBody source) else None))"

definition fd_install :: "bytes \<Rightarrow> string \<Rightarrow> nanos \<Rightarrow> feed \<Rightarrow> (feed_error + nat) \<times> feed" where
  "fd_install raw source now f =
     (let (prefixes, invalid) = ParseList raw
      in if prefixes = [] \<and> 0 < invalid then (Inl (NoValidEntries invalid), f)
         else case (if prefixes = [] then empty_refused (fd_state f) source else None) of
                Some e \<Rightarrow> (Inl e, f)
              | None \<Rightarrow>
                  (Inr invalid,
                   f\<lparr>fd_state := Some \<lparr>fs_set = newRangeSet prefixes, fs_entries = length prefixes, fs_refreshed = now, fs_source = source\<rparr>,
                     fd_hash := fd_contentHash raw\<rparr>))"

definition fd_contains :: "feed \<Rightarrow> addr \<Rightarrow> bool" where
  "fd_contains f a = (case fd_state f of None \<Rightarrow> False | Some s \<Rightarrow> rs_Contains (fs_set s) a)"

definition cachePath :: "string \<Rightarrow> feed \<Rightarrow> string" where
  "cachePath cacheDir f =
     (if cacheDir = '''' \<or> fc_URL (fd_cfg f) = '''' then '''' else cacheDir @ ''/'' @ fc_Name (fd_cfg f) @ ''.list'')"

text \<open>\<^verbatim>\<open>safefile.Read\<close>.\<close>

definition safefile_Read :: "string \<Rightarrow> nat \<Rightarrow> file_map \<Rightarrow> bytes option" where
  "safefile_Read path limit fs = (case map_of fs path of None \<Rightarrow> None | Some (raw, mtime) \<Rightarrow> if limit < length raw then None else Some raw)"

datatype http_reply = NoReply | Reply nat "bytes option"

definition fd_fetch :: "http_reply \<Rightarrow> bool \<Rightarrow> nanos \<Rightarrow> string \<Rightarrow> feed \<Rightarrow> file_map \<Rightarrow> feed_error option \<times> feed \<times> file_map" where
  "fd_fetch reply writable now cacheDir f fs =
     (case reply of
        NoReply \<Rightarrow> (Some FetchFailed, f, fs)
      | Reply status body \<Rightarrow>
          (if status \<noteq> 200 then (Some (BadStatus status), f, fs)
           else case body of
                  None \<Rightarrow> (Some BodyUnreadable, f, fs)
                | Some sent \<Rightarrow>
                    (let raw = take (maxFeedBody + 1) sent
                     in if maxFeedBody < length raw then (Some BodyTooLarge, f, fs)
                        else case fd_install raw ''url'' now f of
                               (Inl e, f') \<Rightarrow> (Some e, f', fs)
                             | (Inr invalid, f') \<Rightarrow>
                                 (let path = cachePath cacheDir f'
                                  in (None, f', if path \<noteq> '''' \<and> writable then mput path (raw, now) fs else fs)))))"

definition fd_loadCache :: "string \<Rightarrow> file_map \<Rightarrow> feed \<Rightarrow> nanos option \<times> feed" where
  "fd_loadCache cacheDir fs f =
     (if fd_state f \<noteq> None then (None, f)
      else let path = cachePath cacheDir f
           in if path = '''' then (None, f)
              else case safefile_Read path maxFeedBody fs of
                     None \<Rightarrow> (None, f)
                   | Some raw \<Rightarrow>
                       (case map_of fs path of
                          None \<Rightarrow> (None, f)
                        | Some (_, mtime) \<Rightarrow>
                            (case fd_install raw ''cache'' mtime f of (Inl _, f') \<Rightarrow> (None, f') | (Inr _, f') \<Rightarrow> (Some mtime, f'))))"

definition fd_loadFile :: "bool \<Rightarrow> nanos \<Rightarrow> file_map \<Rightarrow> feed \<Rightarrow> feed_error option \<times> feed" where
  "fd_loadFile force now fs f =
     (case safefile_Read (fc_File (fd_cfg f)) maxFeedBody fs of
        None \<Rightarrow> (if force then (Some FileUnreadable, f) else (None, f))
      | Some raw \<Rightarrow>
          (if \<not> force \<and> fd_contentHash raw = fd_hash f then (None, f)
           else case fd_install raw ''file'' now f of
                  (Inl e, f') \<Rightarrow> (if force then (Some e, f') else (None, f'\<lparr>fd_hash := fd_contentHash raw\<rparr>))
                | (Inr _, f') \<Rightarrow> (None, f')))"

text \<open>One round of \<^verbatim>\<open>refreshLoop\<close> and the delay to the next; the first delay after a cached copy.\<close>

definition refresh_round :: "http_reply \<Rightarrow> bool \<Rightarrow> nanos \<Rightarrow> string \<Rightarrow> feed \<Rightarrow> file_map \<Rightarrow> nanos \<times> feed \<times> file_map" where
  "refresh_round reply writable now cacheDir f fs =
     (case fd_fetch reply writable now cacheDir f fs of
        (Some e, f', fs') \<Rightarrow> (min feedRetryInterval (fc_Refresh (fd_cfg f)), f'\<lparr>fd_lastErr := Some e\<rparr>, fs')
      | (None, f', fs') \<Rightarrow> (fc_Refresh (fd_cfg f), f'\<lparr>fd_lastErr := None\<rparr>, fs'))"

definition first_delay :: "nanos \<Rightarrow> nanos option \<Rightarrow> feed_config \<Rightarrow> nanos" where
  "first_delay now mtime c =
     (let delay = 10 ^ 9
      in case mtime of None \<Rightarrow> delay | Some m \<Rightarrow> (let remaining = fc_Refresh c - (now - m) in if delay < remaining then remaining else delay))"

record feed_status =
  ft_Name :: string
  ft_Action :: string
  ft_Source :: string
  ft_Loaded :: bool
  ft_LoadedFrom :: string
  ft_Entries :: nat
  ft_LastRefresh :: "nanos option"
  ft_LastError :: "feed_error option"

definition fd_status :: "feed \<Rightarrow> feed_status" where
  "fd_status f =
     (let c = fd_cfg f; origin = (if fc_URL c = '''' then fc_File c else fc_URL c)
      in \<lparr>ft_Name = fc_Name c, ft_Action = fc_Action c, ft_Source = origin, ft_Loaded = (fd_state f \<noteq> None),
          ft_LoadedFrom = (case fd_state f of None \<Rightarrow> '''' | Some s \<Rightarrow> fs_source s),
          ft_Entries = (case fd_state f of None \<Rightarrow> 0 | Some s \<Rightarrow> fs_entries s),
          ft_LastRefresh = map_option fs_refreshed (fd_state f), ft_LastError = fd_lastErr f\<rparr>)"

section \<open>Databases\<close>

datatype mmdb_kind = KindCountry | KindASN

definition accepted_types :: "mmdb_kind \<Rightarrow> string list" where
  "accepted_types k = (case k of KindCountry \<Rightarrow> [''country'', ''city'', ''enterprise'', ''location''] | KindASN \<Rightarrow> [''asn'', ''isp'', ''enterprise''])"

definition kind_matches :: "mmdb_kind \<Rightarrow> string \<Rightarrow> bool" where
  "kind_matches k dbType = list_ex (contains_str (toLower dbType)) (accepted_types k)"

record geo_fields =
  gf_City :: string
  gf_Country :: string
  gf_Registered :: string
  gf_Accuracy :: "16 word"
  gf_Subdivisions :: "string list"

record mmdb_reader =
  rd_Type :: string
  rd_Built :: int
  rd_geo :: "addr \<Rightarrow> geo_fields option"
  rd_asn :: "addr \<Rightarrow> (32 word \<times> string) option"

record file_stat =
  sf_id :: nat
  sf_mtime :: nanos
  sf_size :: int

record mmdb_file =
  mf_path :: string
  mf_kind :: mmdb_kind
  mf_reader :: "mmdb_reader option"
  mf_info :: "file_stat option"

datatype intel_error = OpenFailed string | WrongType string string | MkdirFailed | FeedLoad string feed_error

definition openMMDB :: "string \<Rightarrow> mmdb_kind \<Rightarrow> mmdb_reader option \<Rightarrow> file_stat option \<Rightarrow> intel_error + mmdb_file" where
  "openMMDB path kind opened st =
     (case opened of
        None \<Rightarrow> Inl (OpenFailed path)
      | Some r \<Rightarrow>
          (if \<not> kind_matches kind (rd_Type r) then Inl (WrongType path (rd_Type r))
           else Inr \<lparr>mf_path = path, mf_kind = kind, mf_reader = Some r, mf_info = st\<rparr>))"

definition maybeReload :: "file_stat option \<Rightarrow> mmdb_reader option \<Rightarrow> mmdb_file \<Rightarrow> mmdb_file" where
  "maybeReload st opened f =
     (case st of
        None \<Rightarrow> f
      | Some s \<Rightarrow>
          (if mf_info f = Some s then f
           else let f1 = f\<lparr>mf_info := Some s\<rparr>
                in case opened of
                     None \<Rightarrow> f1
                   | Some r \<Rightarrow> if \<not> kind_matches (mf_kind f) (rd_Type r) then f1 else f1\<lparr>mf_reader := Some r\<rparr>))"

definition mf_close :: "mmdb_file \<Rightarrow> mmdb_file" where
  "mf_close f = f\<lparr>mf_reader := None\<rparr>"

record geo_record =
  gc_Country :: string
  gc_City :: string
  gc_Subdivision :: string
  gc_AccuracyRadiusKM :: "16 word"

definition no_geo :: geo_record where
  "no_geo = \<lparr>gc_Country = '''', gc_City = '''', gc_Subdivision = '''', gc_AccuracyRadiusKM = 0\<rparr>"

definition mf_geo :: "mmdb_file \<Rightarrow> addr \<Rightarrow> geo_record" where
  "mf_geo f a =
     (case mf_reader f of
        None \<Rightarrow> no_geo
      | Some r \<Rightarrow>
          (case rd_geo r a of
             None \<Rightarrow> no_geo
           | Some g \<Rightarrow>
               \<lparr>gc_Country = (if gf_Country g = '''' then gf_Registered g else gf_Country g), gc_City = gf_City g,
                gc_Subdivision = (case gf_Subdivisions g of [] \<Rightarrow> '''' | s # _ \<Rightarrow> s), gc_AccuracyRadiusKM = gf_Accuracy g\<rparr>))"

definition mf_asn :: "mmdb_file \<Rightarrow> addr \<Rightarrow> 32 word \<times> string" where
  "mf_asn f a = (case mf_reader f of None \<Rightarrow> (0, '''') | Some r \<Rightarrow> (case rd_asn r a of None \<Rightarrow> (0, '''') | Some x \<Rightarrow> x))"

record db_status =
  db_Path :: string
  db_Type :: string
  db_Built :: int

definition mf_status :: "mmdb_file \<Rightarrow> db_status option" where
  "mf_status f = map_option (\<lambda>r. \<lparr>db_Path = mf_path f, db_Type = rd_Type r, db_Built = rd_Built r\<rparr>) (mf_reader f)"

section \<open>The provider\<close>

record intel_config =
  ic_LocationDB :: string
  ic_ASNDB :: string
  ic_CacheDir :: string
  ic_Feeds :: "feed_config list"

record intel_info =
  ii_Country :: string
  ii_ASN :: "32 word"
  ii_ASOrg :: string
  ii_City :: string
  ii_Subdivision :: string
  ii_AccuracyRadiusKM :: "16 word"

record provider =
  pv_country :: "mmdb_file option"
  pv_asn :: "mmdb_file option"
  pv_feeds :: "feed list"
  pv_cacheDir :: string

definition new_feed :: "feed_config \<Rightarrow> feed" where
  "new_feed c = \<lparr>fd_cfg = c, fd_state = None, fd_lastErr = None, fd_hash = 0\<rparr>"

text \<open>What a construction finds outside: the databases under their paths and whether the cache directory can be made.\<close>

record intel_world =
  iw_open :: "string \<Rightarrow> mmdb_reader option"
  iw_stat :: "string \<Rightarrow> file_stat option"
  iw_mkdir :: bool
  iw_files :: file_map
  iw_now :: nanos

definition open_db :: "intel_world \<Rightarrow> string \<Rightarrow> mmdb_kind \<Rightarrow> intel_error + mmdb_file option" where
  "open_db w path kind =
     (if path = '''' then Inr None else map_sum id Some (openMMDB path kind (iw_open w path) (iw_stat w path)))"

fun load_feeds :: "intel_world \<Rightarrow> feed_config list \<Rightarrow> intel_error + feed list" where
  "load_feeds w [] = Inr []"
| "load_feeds w (c # cs) =
     (case (if fc_File c \<noteq> '''' then fd_loadFile True (iw_now w) (iw_files w) (new_feed c) else (None, new_feed c)) of
        (Some e, _) \<Rightarrow> Inl (FeedLoad (fc_Name c) e)
      | (None, f) \<Rightarrow> (case load_feeds w cs of Inl e \<Rightarrow> Inl e | Inr fs \<Rightarrow> Inr (f # fs)))"

definition provider_New :: "intel_world \<Rightarrow> intel_config \<Rightarrow> intel_error + provider option" where
  "provider_New w c =
     (if ic_LocationDB c = '''' \<and> ic_ASNDB c = '''' \<and> ic_Feeds c = [] then Inr None
      else case open_db w (ic_LocationDB c) KindCountry of
             Inl e \<Rightarrow> Inl e
           | Inr country \<Rightarrow>
               (case open_db w (ic_ASNDB c) KindASN of
                  Inl e \<Rightarrow> Inl e
                | Inr asn \<Rightarrow>
                    (if ic_CacheDir c \<noteq> '''' \<and> \<not> iw_mkdir w then Inl MkdirFailed
                     else case load_feeds w (ic_Feeds c) of
                            Inl e \<Rightarrow> Inl e
                          | Inr feeds \<Rightarrow> Inr (Some \<lparr>pv_country = country, pv_asn = asn, pv_feeds = feeds, pv_cacheDir = ic_CacheDir c\<rparr>))))"

text \<open>\<^verbatim>\<open>SeedURLFeedsFrom\<close>: the last loaded state of a feed with the same name and address.\<close>

definition loaded_map :: "feed list \<Rightarrow> (string \<times> string, feed_state) gomap" where
  "loaded_map fs =
     foldl (\<lambda>m f. if fc_URL (fd_cfg f) = '''' then m
                  else case fd_state f of None \<Rightarrow> m | Some s \<Rightarrow> mput (fc_Name (fd_cfg f), fc_URL (fd_cfg f)) s m) [] fs"

definition seed_feed :: "(string \<times> string, feed_state) gomap \<Rightarrow> feed \<Rightarrow> feed" where
  "seed_feed m f =
     (if fc_URL (fd_cfg f) = '''' \<or> fd_state f \<noteq> None then f
      else case map_of m (fc_Name (fd_cfg f), fc_URL (fd_cfg f)) of None \<Rightarrow> f | Some s \<Rightarrow> f\<lparr>fd_state := Some s\<rparr>)"

definition SeedURLFeedsFrom :: "provider option \<Rightarrow> provider option \<Rightarrow> provider option" where
  "SeedURLFeedsFrom old p =
     (case (p, old) of
        (Some new, Some o1) \<Rightarrow> Some (new\<lparr>pv_feeds := map (seed_feed (loaded_map (pv_feeds o1))) (pv_feeds new)\<rparr>)
      | _ \<Rightarrow> p)"

text \<open>One tick of \<^verbatim>\<open>pollLoop\<close>.\<close>

definition poll_round :: "intel_world \<Rightarrow> provider \<Rightarrow> provider" where
  "poll_round w p =
     (let db = map_option (\<lambda>f. maybeReload (iw_stat w (mf_path f)) (iw_open w (mf_path f)) f)
      in p\<lparr>pv_country := db (pv_country p), pv_asn := db (pv_asn p),
           pv_feeds := map (\<lambda>f. if fc_File (fd_cfg f) \<noteq> '''' then snd (fd_loadFile False (iw_now w) (iw_files w) f) else f) (pv_feeds p)\<rparr>)"

definition closeDBs :: "provider \<Rightarrow> provider" where
  "closeDBs p = p\<lparr>pv_country := map_option mf_close (pv_country p), pv_asn := map_option mf_close (pv_asn p)\<rparr>"

definition HasCountry :: "provider option \<Rightarrow> bool" where
  "HasCountry p = (case p of None \<Rightarrow> False | Some q \<Rightarrow> pv_country q \<noteq> None)"

definition HasASN :: "provider option \<Rightarrow> bool" where
  "HasASN p = (case p of None \<Rightarrow> False | Some q \<Rightarrow> pv_asn q \<noteq> None)"

definition no_info :: intel_info where
  "no_info = \<lparr>ii_Country = '''', ii_ASN = 0, ii_ASOrg = '''', ii_City = '''', ii_Subdivision = '''', ii_AccuracyRadiusKM = 0\<rparr>"

definition pv_Lookup :: "provider option \<Rightarrow> addr \<Rightarrow> intel_info" where
  "pv_Lookup p a0 =
     (case p of
        None \<Rightarrow> no_info
      | Some q \<Rightarrow>
          (let a = Unmap a0;
               g = (case pv_country q of None \<Rightarrow> no_geo | Some f \<Rightarrow> mf_geo f a);
               n = (case pv_asn q of None \<Rightarrow> (0, '''') | Some f \<Rightarrow> mf_asn f a)
           in \<lparr>ii_Country = gc_Country g, ii_ASN = fst n, ii_ASOrg = snd n, ii_City = gc_City g, ii_Subdivision = gc_Subdivision g,
               ii_AccuracyRadiusKM = gc_AccuracyRadiusKM g\<rparr>))"

definition pv_FeedMatch :: "provider option \<Rightarrow> addr \<Rightarrow> string \<Rightarrow> string option" where
  "pv_FeedMatch p a act =
     (case p of
        None \<Rightarrow> None
      | Some q \<Rightarrow> map_option (\<lambda>f. fc_Name (fd_cfg f)) (find (\<lambda>f. fc_Action (fd_cfg f) = act \<and> fd_contains f a) (pv_feeds q)))"

definition FeedHits :: "provider option \<Rightarrow> addr \<Rightarrow> (string \<times> string) list" where
  "FeedHits p a =
     (case p of None \<Rightarrow> [] | Some q \<Rightarrow> map (\<lambda>f. (fc_Name (fd_cfg f), fc_Action (fd_cfg f))) (filter (\<lambda>f. fd_contains f a) (pv_feeds q)))"

record intel_status =
  is_LocationDB :: "db_status option"
  is_ASNDB :: "db_status option"
  is_Feeds :: "feed_status list"

definition pv_Status :: "provider option \<Rightarrow> intel_status" where
  "pv_Status p =
     (case p of
        None \<Rightarrow> \<lparr>is_LocationDB = None, is_ASNDB = None, is_Feeds = []\<rparr>
      | Some q \<Rightarrow>
          \<lparr>is_LocationDB = Option.bind (pv_country q) mf_status, is_ASNDB = Option.bind (pv_asn q) mf_status, is_Feeds = map fd_status (pv_feeds q)\<rparr>)"

section \<open>A loaded list is not lost\<close>

text \<open>What can happen to a feed: a refresh round, the cached copy, a poll of its file, and a reload that keeps its name and address.\<close>

text \<open>
  What one step is given: the answer to a fetch, the content of the cached copy or of the local file (nothing when there
  is none), or a new configuration. A text counts as accepted when it came whole: with status 200 and an
  unbroken body, or from a file that could be read, and within the size limit.
\<close>

datatype feed_input = FetchReply http_reply | CacheContent "bytes option" | FileContent "bytes option" | NewConfig

fun accepts :: "feed_input \<Rightarrow> string \<Rightarrow> bytes \<Rightarrow> bool" where
  "accepts (FetchReply (Reply status body)) source raw \<longleftrightarrow> source = ''url'' \<and> status = 200 \<and> body = Some raw \<and> length raw \<le> 64 * 2 ^ 20"
| "accepts (CacheContent c) source raw \<longleftrightarrow> source = ''cache'' \<and> c = Some raw \<and> length raw \<le> 64 * 2 ^ 20"
| "accepts (FileContent c) source raw \<longleftrightarrow> source = ''file'' \<and> c = Some raw \<and> length raw \<le> 64 * 2 ^ 20"
| "accepts _ source raw \<longleftrightarrow> False"

inductive feed_step :: "feed \<Rightarrow> feed_input \<Rightarrow> feed \<Rightarrow> bool" where
  fs_refresh: "refresh_round reply writable now cacheDir f fs = (d, f', fs') \<Longrightarrow> feed_step f (FetchReply reply) f'"
| fs_cache: "fd_loadCache cacheDir fs f = (m, f') \<Longrightarrow>
    feed_step f (CacheContent (map_option fst (map_of fs (cachePath cacheDir f)))) f'"
| fs_poll: "fd_loadFile False now fs f = (e, f') \<Longrightarrow>
    feed_step f (FileContent (map_option fst (map_of fs (fc_File (fd_cfg f))))) f'"
| fs_reload: "fc_Name c = fc_Name (fd_cfg f) \<Longrightarrow> fc_URL c = fc_URL (fd_cfg f) \<Longrightarrow> fc_URL c \<noteq> '''' \<Longrightarrow>
    feed_step f NewConfig ((new_feed c)\<lparr>fd_state := fd_state f\<rparr>)"

inductive feed_run :: "feed \<Rightarrow> feed_input list \<Rightarrow> feed \<Rightarrow> bool" where
  fr_start: "feed_run f [] f"
| fr_step: "feed_run f ins f1 \<Longrightarrow> feed_step f1 i f' \<Longrightarrow> feed_run f (ins @ [i]) f'"

definition lists_text :: "feed_state \<Rightarrow> string \<Rightarrow> bytes \<Rightarrow> bool" where
  "lists_text s source raw \<longleftrightarrow> fs_set s = newRangeSet (fst (ParseList raw)) \<and> fs_entries s = length (fst (ParseList raw)) \<and> fs_source s = source"

text \<open>An installation keeps the feed on an error; on success the state is the parsed text, and a live list is not emptied.\<close>

lemma install_cases:
  assumes "fd_install raw source now f = (r, f')"
  shows "(\<exists>e. r = Inl e \<and> f' = f) \<or>
    (\<exists>n s. r = Inr n \<and> f' = f\<lparr>fd_state := Some s, fd_hash := fd_contentHash raw\<rparr> \<and> lists_text s source raw \<and>
      (case fd_state f of Some p \<Rightarrow> 0 < fs_entries p \<longrightarrow> 0 < fs_entries s | None \<Rightarrow> source = ''file'' \<or> 0 < fs_entries s))"
  using assms by (auto simp: fd_install_def Let_def lists_text_def empty_refused_def split: prod.splits option.splits if_splits)

text \<open>What every step guarantees of the state it leaves.\<close>

definition keeps_list :: "feed_input \<Rightarrow> feed_state option \<Rightarrow> feed_state option \<Rightarrow> bool" where
  "keeps_list inp st st' \<longleftrightarrow> st' = st \<or>
     (\<exists>s' source raw. st' = Some s' \<and> accepts inp source raw \<and> lists_text s' source raw \<and>
        (\<forall>s. st = Some s \<longrightarrow> 0 < fs_entries s \<longrightarrow> 0 < fs_entries s'))"

lemma keeps_list_refl [simp]: "keeps_list inp st st"
  by (simp add: keeps_list_def)

lemma install_keeps:
  "fd_install raw source now f = (r, f') \<Longrightarrow> accepts inp source raw \<Longrightarrow> keeps_list inp (fd_state f) (fd_state f')"
  using install_cases [of raw source now f r f'] by (fastforce simp: keeps_list_def split: option.splits)

lemma fetch_keeps:
  assumes "fd_fetch reply writable now cacheDir f fs = (e, f', fs')"
  shows "keeps_list (FetchReply reply) (fd_state f) (fd_state f')"
proof -
  have "f' = f \<or> (\<exists>sent r. reply = Reply 200 (Some sent) \<and> length sent \<le> maxFeedBody \<and> fd_install sent ''url'' now f = (r, f'))"
    using assms by (auto simp: fd_fetch_def Let_def split: http_reply.splits if_splits option.splits sum.splits prod.splits)
  then show ?thesis using install_keeps [of _ "''url''" now f _ f' "FetchReply reply"] by (auto simp: maxFeedBody_def)
qed

lemma cache_keeps:
  assumes "fd_loadCache cacheDir fs f = (m, f')"
  shows "keeps_list (CacheContent (map_option fst (map_of fs (cachePath cacheDir f)))) (fd_state f) (fd_state f')"
proof -
  have "f' = f \<or> (\<exists>raw t r. map_of fs (cachePath cacheDir f) = Some (raw, t) \<and> length raw \<le> maxFeedBody \<and> fd_install raw ''cache'' t f = (r, f'))"
    using assms by (auto simp: fd_loadCache_def safefile_Read_def Let_def split: if_splits option.splits prod.splits sum.splits)
  then show ?thesis using install_keeps [of _ "''cache''" _ f _ f' "CacheContent (map_option fst (map_of fs (cachePath cacheDir f)))"]
    by (auto simp: maxFeedBody_def)
qed

lemma poll_keeps:
  assumes "fd_loadFile False now fs f = (e, f')"
  shows "keeps_list (FileContent (map_option fst (map_of fs (fc_File (fd_cfg f))))) (fd_state f) (fd_state f')"
proof -
  have "fd_state f' = fd_state f \<or> (\<exists>raw t r f1. map_of fs (fc_File (fd_cfg f)) = Some (raw, t) \<and> length raw \<le> maxFeedBody \<and>
      fd_install raw ''file'' now f = (r, f1) \<and> fd_state f' = fd_state f1)"
    using assms by (auto simp: fd_loadFile_def safefile_Read_def split: if_splits option.splits prod.splits sum.splits)
  then show ?thesis using install_keeps [of _ "''file''" now f _ _ "FileContent (map_option fst (map_of fs (fc_File (fd_cfg f))))"]
    by (auto simp: maxFeedBody_def)
qed

lemma step_keeps: "feed_step f i f' \<Longrightarrow> keeps_list i (fd_state f) (fd_state f')"
proof (induction rule: feed_step.induct)
  case (fs_refresh reply writable now cacheDir f fs d f' fs')
  then show ?case by (auto simp: refresh_round_def split: prod.splits option.splits dest: fetch_keeps)
qed (simp_all add: cache_keeps poll_keeps new_feed_def)

text \<open>
  C29 (safety). A feed that has loaded a list never falls back to listing nothing: through any sequence of refresh rounds,
  cached copies, file polls and configuration reloads that keep its name and address, whatever the remote, the cache
  and the file contain, it lists at least one entry. Its list is either the one it had or exactly what one whole
  text given to one of these steps says: the complete body of an answer with status 200, or the content of the cached copy or the
  local file, of at most 64 MiB. A failed, cut off, oversized or wrongly answered load leaves no trace in it.
\<close>

theorem loaded_feed_keeps_listing:
  assumes "feed_run f ins f'" "fd_state f = Some s" "0 < fs_entries s"
  shows "\<exists>s'. fd_state f' = Some s' \<and> 0 < fs_entries s' \<and>
    (s' = s \<or> (\<exists>i \<in> set ins. \<exists>source raw. accepts i source raw \<and> lists_text s' source raw))"
  using assms
proof (induction rule: feed_run.induct)
  case (fr_step f ins f1 i f')
  then show ?case using step_keeps [OF fr_step.hyps(2)] by (auto simp: keeps_list_def)
qed simp

definition example_feed_config :: feed_config where
  "example_feed_config = \<lparr>fc_Name = ''drop'', fc_URL = ''u'', fc_File = '''', fc_Refresh = 3600, fc_Action = FeedActionDeny\<rparr>"

definition example_feed_state :: feed_state where
  "example_feed_state = \<lparr>fs_set = newRangeSet (fst (ParseList ''192.0.2.7 ;x'')), fs_entries = 1, fs_refreshed = 5, fs_source = ''url''\<rparr>"

definition example_feed :: feed where
  "example_feed = (new_feed example_feed_config)\<lparr>fd_state := Some example_feed_state\<rparr>"

text \<open>An error page that looks like a list, then an empty page, leave the list of the example in place.\<close>

theorem loaded_feed_keeps_listing_witness:
  "\<exists>f1 f2. feed_run example_feed [FetchReply (Reply 500 (Some ''198.51.100.1'')), FetchReply (Reply 200 (Some ''''))] f2 \<and>
     f1 = fst (snd (refresh_round (Reply 500 (Some ''198.51.100.1'')) True 9 ''d'' example_feed [])) \<and>
     f2 = fst (snd (refresh_round (Reply 200 (Some '''')) True 9 ''d'' f1 [])) \<and>
     (\<exists>s'. fd_state f2 = Some s' \<and> 0 < fs_entries s')"
proof -
  define f1 where "f1 = fst (snd (refresh_round (Reply 500 (Some ''198.51.100.1'')) True 9 ''d'' example_feed []))"
  define f2 where "f2 = fst (snd (refresh_round (Reply 200 (Some '''')) True 9 ''d'' f1 []))"
  have "feed_step example_feed (FetchReply (Reply 500 (Some ''198.51.100.1''))) f1" "feed_step f1 (FetchReply (Reply 200 (Some ''''))) f2"
    by (intro fs_refresh, simp add: f1_def f2_def prod_eq_iff)+
  then have run: "feed_run example_feed [FetchReply (Reply 500 (Some ''198.51.100.1'')), FetchReply (Reply 200 (Some ''''))] f2"
    using fr_step [OF fr_step [OF fr_start]] by simp
  then have "\<exists>s'. fd_state f2 = Some s' \<and> 0 < fs_entries s'"
    using loaded_feed_keeps_listing [OF run, of example_feed_state] by (auto simp: example_feed_def example_feed_state_def)
  then show ?thesis using run f1_def f2_def by blast
qed

section \<open>Handover across a reload\<close>

lemma loaded_map_mem:
  assumes "f \<in> set fs" "fc_URL (fd_cfg f) \<noteq> ''''" "fd_state f = Some s" "distinct (map (\<lambda>f. fc_Name (fd_cfg f)) fs)"
  shows "map_of (loaded_map fs) (fc_Name (fd_cfg f), fc_URL (fd_cfg f)) = Some s"
  using assms(1,4)
proof (induction fs rule: rev_induct)
  case (snoc g fs)
  show ?case
  proof (cases "f = g")
    case True
    then show ?thesis using assms(2,3) by (simp add: loaded_map_def map_of_mput)
  next
    case False
    then have m: "f \<in> set fs" using snoc.prems(1) by simp
    then have "fc_Name (fd_cfg f) \<in> (\<lambda>f. fc_Name (fd_cfg f)) ` set fs" by (rule imageI)
    then have "fc_Name (fd_cfg f) \<noteq> fc_Name (fd_cfg g)" using snoc.prems(2) by auto
    with m show ?thesis using snoc by (auto simp: loaded_map_def map_of_mput split: option.splits)
  qed
qed simp

lemma load_feeds_url:
  assumes "load_feeds w cs = Inr fs" "c \<in> set cs" "fc_File c = ''''"
  shows "new_feed c \<in> set fs"
  using assms by (induction cs arbitrary: fs) (auto split: prod.splits option.splits sum.splits if_splits)

lemma seeded_feed:
  assumes "SeedURLFeedsFrom (Some old) (Some new) = Some p" "new_feed c \<in> set (pv_feeds new)"
    and "f \<in> set (pv_feeds old)" "fd_state f = Some s" "distinct (map (\<lambda>f. fc_Name (fd_cfg f)) (pv_feeds old))"
    and "fc_Name c = fc_Name (fd_cfg f)" "fc_URL c = fc_URL (fd_cfg f)" "fc_URL c \<noteq> ''''"
  shows "\<exists>g \<in> set (pv_feeds p). fd_cfg g = c \<and> fd_state g = Some s"
proof -
  let ?m = "loaded_map (pv_feeds old)"
  have "map_of ?m (fc_Name c, fc_URL c) = Some s" using loaded_map_mem [OF assms(3) _ assms(4,5)] assms(6-8) by simp
  then have "fd_cfg (seed_feed ?m (new_feed c)) = c \<and> fd_state (seed_feed ?m (new_feed c)) = Some s"
    using assms(8) by (simp add: seed_feed_def new_feed_def)
  moreover have "seed_feed ?m (new_feed c) \<in> set (pv_feeds p)" using assms(1,2) by (auto simp: SeedURLFeedsFrom_def)
  ultimately show ?thesis by blast
qed

lemma FeedMatch_Some:
  "pv_FeedMatch (Some p) a act \<noteq> None \<longleftrightarrow> (\<exists>f \<in> set (pv_feeds p). fc_Action (fd_cfg f) = act \<and> fd_contains f a)"
  by (auto simp: pv_FeedMatch_def find_None_iff)

end
