(* ===== verification/Engine_Life.thy ===== *)
theory Engine_Life
  imports Pipeline Intel_Feeds "HOL-Library.Multiset"
begin

text \<open>
  The life of a configuration snapshot (\<^verbatim>\<open>core/engine.go\<close>): loading the caches derived from a configuration, the reload that
  swaps them in, closing the engine, and the reference count that keeps a snapshot's caches open while an evaluation
  uses them. The count is a step relation over its atomic operations, one step per load, compare-and-swap, decrement and
  pointer swap; the readers of \<^verbatim>\<open>core/intel/geoip.go\<close> (\<^verbatim>\<open>mmdbReader\<close>, \<^verbatim>\<open>mmdbFile\<close>) follow the same steps. The lock
  that serialises reloads and closes is the atomicity of those two steps up to the final release.

  The anomaly models are of an arbitrary type. Starting the background watchers and metrics are left out.
\<close>

section \<open>Loading, reloading, closing\<close>

record ('x, 'm) engine_snapshot =
  es_cfg :: config
  es_rules :: rule_cache
  es_models :: 'm
  es_intel :: "provider option"
  es_headerExemptions :: "'x exempt_cache"

datatype part = RulesPart | ModelsPart | IntelPart | ExemptPart

datatype part_event = Opened part | Closed part

text \<open>The result, and the caches opened and closed on the way. A constructor that fails leaves nothing of its own open.\<close>

definition loadSnapshot ::
  "config \<Rightarrow> 'e + rule_cache \<Rightarrow> 'e + 'm \<Rightarrow> 'e + provider option \<Rightarrow> 'e + 'x exempt_cache \<Rightarrow>
     ('e + ('x, 'm) engine_snapshot) \<times> part_event list" where
  "loadSnapshot cfg newRules newModels newIntel newExempt =
     (case newRules of
        Inl e \<Rightarrow> (Inl e, [])
      | Inr rules \<Rightarrow>
          (case newModels of
             Inl e \<Rightarrow> (Inl e, [Opened RulesPart, Closed RulesPart])
           | Inr models \<Rightarrow>
               (case newIntel of
                  Inl e \<Rightarrow> (Inl e, [Opened RulesPart, Opened ModelsPart, Closed RulesPart, Closed ModelsPart])
                | Inr itl \<Rightarrow>
                    (case newExempt of
                       Inl e \<Rightarrow> (Inl e, [Opened RulesPart, Opened ModelsPart, Opened IntelPart, Closed RulesPart, Closed ModelsPart, Closed IntelPart])
                     | Inr exempt \<Rightarrow>
                         (Inr \<lparr>es_cfg = cfg, es_rules = rules, es_models = models, es_intel = itl, es_headerExemptions = exempt\<rparr>,
                          [Opened RulesPart, Opened ModelsPart, Opened IntelPart, Opened ExemptPart])))))"

text \<open>What the last release of a snapshot closes.\<close>

definition release_events :: "part_event list" where
  "release_events = [Closed RulesPart, Closed ModelsPart, Closed IntelPart, Closed ExemptPart]"

definition ValidateConfigArtifacts ::
  "config \<Rightarrow> 'e + rule_cache \<Rightarrow> 'e + 'm \<Rightarrow> 'e + provider option \<Rightarrow> 'e + 'x exempt_cache \<Rightarrow> 'e option \<times> part_event list" where
  "ValidateConfigArtifacts cfg newRules newModels newIntel newExempt =
     (case loadSnapshot cfg newRules newModels newIntel newExempt of
        (Inl e, evs) \<Rightarrow> (Some e, evs)
      | (Inr _, evs) \<Rightarrow> (None, evs @ release_events))"

record ('x, 'm) engine_core =
  ec_snap :: "('x, 'm) engine_snapshot option"
  ec_lastCfg :: config
  ec_attack :: "detector option"

datatype 'e reload_error = EngineClosed | LoadFailed 'e

definition reload_attack :: "'s vote_ops option \<Rightarrow> nanos \<Rightarrow> am_config \<Rightarrow> detector option \<Rightarrow> 's \<Rightarrow> detector option \<times> 's" where
  "reload_attack votes now settings d s =
     (case d of None \<Rightarrow> (None, s) | Some x \<Rightarrow> (case am_SetConfig votes now settings (x, s) of (x', s') \<Rightarrow> (Some x', s')))"

definition eng_Reload ::
  "'s vote_ops option \<Rightarrow> nanos \<Rightarrow> am_config \<Rightarrow> config \<Rightarrow> 'e + rule_cache \<Rightarrow> 'e + 'm \<Rightarrow> 'e + provider option \<Rightarrow> 'e + 'x exempt_cache \<Rightarrow>
     ('x, 'm) engine_core \<times> 's \<Rightarrow> ('e reload_error + unit) \<times> ('x, 'm) engine_core \<times> 's" where
  "eng_Reload votes now settings cfg newRules newModels newIntel newExempt es =
     (case es of
        (e, s) \<Rightarrow>
          (case ec_snap e of
             None \<Rightarrow> (Inl EngineClosed, e, s)
           | Some old \<Rightarrow>
               (case loadSnapshot cfg newRules newModels newIntel newExempt of
                  (Inl err, _) \<Rightarrow> (Inl (LoadFailed err), e, s)
                | (Inr snap, _) \<Rightarrow>
                    (let snap1 = snap\<lparr>es_intel := SeedURLFeedsFrom (es_intel old) (es_intel snap)\<rparr>
                     in case reload_attack votes now settings (ec_attack e) s of
                          (d, s') \<Rightarrow> (Inr (), e\<lparr>ec_snap := Some snap1, ec_lastCfg := es_cfg snap1, ec_attack := d\<rparr>, s')))))"

definition eng_Close :: "('x, 'm) engine_core \<Rightarrow> ('x, 'm) engine_core" where
  "eng_Close e = e\<lparr>ec_snap := None\<rparr>"

definition ec_Config :: "('x, 'm) engine_core \<Rightarrow> config" where
  "ec_Config e = (case ec_snap e of Some s \<Rightarrow> es_cfg s | None \<Rightarrow> ec_lastCfg e)"

text \<open>The provider of a snapshot as the stages use it.\<close>

definition intel_of :: "provider option \<Rightarrow> intel_provider option" where
  "intel_of p =
     map_option (\<lambda>q. \<lparr>in_FeedMatch = pv_FeedMatch (Some q),
                      in_Lookup = (\<lambda>a. let i = pv_Lookup (Some q) a in (ii_Country i, ii_ASN i))\<rparr>) p"

section \<open>The reference count\<close>

record snap_life =
  lf_current :: "nat option"
  lf_refs :: "nat \<Rightarrow> int"
  lf_closed :: "nat \<Rightarrow> nat"
  lf_next :: nat

text \<open>
  A thread on its way: it has read the pointer, read a count, holds a reference, or has swapped a snapshot out and is about to
  release the engine's own reference.
\<close>

datatype holder = Loaded nat | Seen nat int | Using nat | Retired nat

definition acquirable :: "int \<Rightarrow> bool" where
  "acquirable n \<longleftrightarrow> \<not> n \<le> 0"

definition release_ref :: "nat \<Rightarrow> snap_life \<Rightarrow> snap_life" where
  "release_ref s l =
     (let n = lf_refs l s - 1
      in l\<lparr>lf_refs := (lf_refs l)(s := n), lf_closed := (if n = 0 then (lf_closed l)(s := lf_closed l s + 1) else lf_closed l)\<rparr>)"

inductive snapshot_run :: "snap_life \<times> holder multiset \<Rightarrow> bool" where
  sl_new: "snapshot_run (\<lparr>lf_current = Some 0, lf_refs = (\<lambda>_. 0)(0 := 1), lf_closed = (\<lambda>_. 0), lf_next = 1\<rparr>, {#})"
| sl_load: "snapshot_run (l, T) \<Longrightarrow> lf_current l = Some s \<Longrightarrow> snapshot_run (l, add_mset (Loaded s) T)"
| sl_read: "snapshot_run (l, add_mset (Loaded s) T) \<Longrightarrow> acquirable (lf_refs l s) \<Longrightarrow> snapshot_run (l, add_mset (Seen s (lf_refs l s)) T)"
| sl_gone: "snapshot_run (l, add_mset (Loaded s) T) \<Longrightarrow> \<not> acquirable (lf_refs l s) \<Longrightarrow> snapshot_run (l, T)"
| sl_cas: "snapshot_run (l, add_mset (Seen s n) T) \<Longrightarrow> lf_refs l s = n \<Longrightarrow>
    snapshot_run (l\<lparr>lf_refs := (lf_refs l)(s := n + 1)\<rparr>, add_mset (Using s) T)"
| sl_miss: "snapshot_run (l, add_mset (Seen s n) T) \<Longrightarrow> lf_refs l s \<noteq> n \<Longrightarrow> snapshot_run (l, add_mset (Loaded s) T)"
| sl_done: "snapshot_run (l, add_mset (Using s) T) \<Longrightarrow> snapshot_run (release_ref s l, T)"
| sl_reload: "snapshot_run (l, T) \<Longrightarrow> lf_current l = Some s \<Longrightarrow>
    snapshot_run (l\<lparr>lf_current := Some (lf_next l), lf_refs := (lf_refs l)(lf_next l := 1), lf_next := lf_next l + 1\<rparr>, add_mset (Retired s) T)"
| sl_close: "snapshot_run (l, T) \<Longrightarrow> lf_current l = Some s \<Longrightarrow> snapshot_run (l\<lparr>lf_current := None\<rparr>, add_mset (Retired s) T)"
| sl_retire: "snapshot_run (l, add_mset (Retired s) T) \<Longrightarrow> snapshot_run (release_ref s l, T)"

fun holder_of :: "holder \<Rightarrow> nat" where
  "holder_of (Loaded s) = s"
| "holder_of (Seen s n) = s"
| "holder_of (Using s) = s"
| "holder_of (Retired s) = s"

definition owned_refs :: "snap_life \<Rightarrow> holder multiset \<Rightarrow> nat \<Rightarrow> int" where
  "owned_refs l T s = (if lf_current l = Some s then 1 else 0) + int (count T (Using s)) + int (count T (Retired s))"

definition life_ok :: "snap_life \<Rightarrow> holder multiset \<Rightarrow> bool" where
  "life_ok l T \<longleftrightarrow>
     (\<forall>s. lf_refs l s = owned_refs l T s) \<and>
     (\<forall>s. lf_closed l s = (if s < lf_next l \<and> lf_refs l s = 0 then 1 else 0)) \<and>
     (\<forall>h. h \<in># T \<longrightarrow> holder_of h < lf_next l) \<and> (\<forall>s n. Seen s n \<in># T \<longrightarrow> 0 < n) \<and>
     (\<forall>s. lf_current l = Some s \<longrightarrow> s < lf_next l)"

lemma fresh_unowned:
  assumes "life_ok l T"
  shows "lf_refs l (lf_next l) = 0"
proof -
  have "holder_of h < lf_next l" if "h \<in># T" for h using assms that by (simp add: life_ok_def)
  then have "Using (lf_next l) \<notin># T" "Retired (lf_next l) \<notin># T" by (metis holder_of.simps(3,4) less_irrefl)+
  then show ?thesis using assms by (auto simp: life_ok_def owned_refs_def not_in_iff)
qed

lemma release_ok:
  assumes "life_ok l (add_mset h T)" "h = Using s \<or> h = Retired s"
  shows "life_ok (release_ref s l) T"
proof -
  have refs: "lf_refs l t = owned_refs l (add_mset h T) t" and closed: "lf_closed l t = (if t < lf_next l \<and> lf_refs l t = 0 then 1 else 0)" for t
    using assms(1) by (auto simp: life_ok_def)
  have own: "owned_refs l (add_mset h T) t = owned_refs l T t + (if t = s then 1 else 0)" for t
    using assms(2) by (auto simp: owned_refs_def)
  have "0 \<le> owned_refs l T s" by (simp add: owned_refs_def)
  moreover have "s < lf_next l" using assms by (auto simp: life_ok_def)
  moreover have "owned_refs (release_ref s l) T t = owned_refs l T t" for t by (simp add: owned_refs_def release_ref_def Let_def)
  moreover have "lf_refs (release_ref s l) t = owned_refs l T t" for t using refs [of t] own [of t] by (auto simp: release_ref_def Let_def)
  moreover have "lf_closed (release_ref s l) t = (if t < lf_next l \<and> owned_refs l T t = 0 then 1 else 0)" for t
    using refs [of t] own [of t] closed [of t] calculation(1,2) by (auto simp: release_ref_def Let_def)
  moreover have "lf_next (release_ref s l) = lf_next l" "lf_current (release_ref s l) = lf_current l" by (simp_all add: release_ref_def Let_def)
  ultimately show ?thesis using assms(1) by (simp add: life_ok_def)
qed

lemma snapshot_run_ok: "snapshot_run (l, T) \<Longrightarrow> life_ok l T"
proof (induction "(l, T)" arbitrary: l T rule: snapshot_run.induct)
  case sl_new
  then show ?case by (auto simp: life_ok_def owned_refs_def)
next
  case (sl_cas l s n T)
  then have "0 < n" "life_ok l (add_mset (Seen s n) T)" by (auto simp: life_ok_def)
  then show ?case using sl_cas by (auto simp: life_ok_def owned_refs_def)
next
  case (sl_reload l T s)
  then have "lf_refs l (lf_next l) = 0" using fresh_unowned by blast
  then show ?case using sl_reload by (auto simp: life_ok_def owned_refs_def)
next
  case (sl_done l s T)
  then show ?case using release_ok by blast
next
  case (sl_retire l s T)
  then show ?case using release_ok by blast
qed (auto simp: life_ok_def owned_refs_def acquirable_def)

text \<open>
  C33 (invariant). Under every interleaving of evaluations, reloads and the close, the caches of a snapshot are closed at most
  once, never while an evaluation holds the snapshot or it is the current one, and always in the end: once the
  engine is closed and no thread holds or retires a snapshot, every snapshot ever installed has been closed exactly
  once. A thread that finds a snapshot gone never finds it current again, so its retry makes progress.
\<close>

theorem snapshot_closed_exactly_once:
  assumes "snapshot_run (l, T)"
  shows "lf_closed l s \<le> 1 \<and> (Using s \<in># T \<or> lf_current l = Some s \<longrightarrow> lf_closed l s = 0) \<and>
    (\<not> acquirable (lf_refs l s) \<longrightarrow> lf_current l \<noteq> Some s) \<and>
    (lf_current l = None \<and> T = {#} \<and> s < lf_next l \<longrightarrow> lf_closed l s = 1)"
proof -
  have ok: "lf_refs l s = owned_refs l T s" "lf_closed l s = (if s < lf_next l \<and> lf_refs l s = 0 then 1 else 0)"
    using snapshot_run_ok [OF assms] by (auto simp: life_ok_def)
  have "0 < lf_refs l s" if "Using s \<in># T \<or> lf_current l = Some s"
  proof -
    have "0 < count T (Using s) \<or> lf_current l = Some s" using that by simp
    then show ?thesis by (auto simp only: ok(1) owned_refs_def split: if_splits)
  qed
  then show ?thesis using ok by (auto simp: acquirable_def owned_refs_def)
qed

theorem snapshot_closed_exactly_once_witness:
  "lf_closed (release_ref 0 \<lparr>lf_current = None, lf_refs = (\<lambda>_. 0)(0 := 1), lf_closed = (\<lambda>_. 0), lf_next = 1\<rparr>) 0 = 1"
proof -
  let ?l = "\<lparr>lf_current = Some 0, lf_refs = (\<lambda>_. 0)(0 := 1), lf_closed = (\<lambda>_. 0), lf_next = 1\<rparr>"
  have "snapshot_run (?l\<lparr>lf_current := None\<rparr>, add_mset (Retired 0) {#})" by (rule sl_close [OF sl_new]) simp
  then have "snapshot_run (release_ref 0 (?l\<lparr>lf_current := None\<rparr>), {#})" by (rule sl_retire)
  from snapshot_closed_exactly_once [OF this, of 0] show ?thesis by (simp add: release_ref_def)
qed

section \<open>Failed and successful reloads\<close>

text \<open>The caches a sequence of events leaves open; \<open>None\<close> when one is opened twice or closed while not open.\<close>

definition open_part :: "part_event \<Rightarrow> part set option \<Rightarrow> part set option" where
  "open_part ev o1 =
     (case o1 of
        None \<Rightarrow> None
      | Some P \<Rightarrow> (case ev of Opened p \<Rightarrow> (if p \<in> P then None else Some (insert p P)) | Closed p \<Rightarrow> (if p \<in> P then Some (P - {p}) else None)))"

definition still_open :: "part_event list \<Rightarrow> part set option" where
  "still_open evs = fold open_part evs (Some {})"

lemma part_UNIV: "UNIV = {RulesPart, ModelsPart, IntelPart, ExemptPart}"
  by (auto intro: part.exhaust)

lemma load_ledger:
  assumes "loadSnapshot cfg newRules newModels newIntel newExempt = (loaded, evs)"
  shows "still_open evs = (case loaded of Inl err \<Rightarrow> Some {} | Inr snap \<Rightarrow> Some UNIV)"
  using assms unfolding part_UNIV
  by (auto simp: loadSnapshot_def still_open_def open_part_def split: sum.splits)

text \<open>
  C23 (error). A reload that fails changes nothing: whichever of the caches cannot be built, and also when the engine is closed, the
  engine keeps its snapshot, its last configuration, its detector and the store, and every cache the attempt had opened has
  been closed again, each once; a successful load leaves all four open, and validating a configuration without an
  engine leaves none open whether it succeeds or not.
\<close>

theorem failed_reload_changes_nothing:
  assumes "eng_Reload votes now settings cfg newRules newModels newIntel newExempt (e, s) = (r, e', s')"
    and "loadSnapshot cfg newRules newModels newIntel newExempt = (loaded, evs)"
    and "ValidateConfigArtifacts cfg newRules newModels newIntel newExempt = (err, evs')"
  shows "(r = Inr () \<longleftrightarrow> ec_snap e \<noteq> None \<and> err = None) \<and> (r \<noteq> Inr () \<longrightarrow> e' = e \<and> s' = s) \<and>
    still_open evs = Some (if err = None then UNIV else {}) \<and> still_open evs' = Some {}"
proof -
  have open0: "still_open evs = (case loaded of Inl err \<Rightarrow> Some {} | Inr snap \<Rightarrow> Some UNIV)" by (rule load_ledger [OF assms(2)])
  have "still_open (evs @ release_events) = fold open_part release_events (still_open evs)" by (simp add: still_open_def)
  also have "\<dots> = Some {}" if "still_open evs = Some UNIV"
    unfolding that part_UNIV by (auto simp: release_events_def open_part_def)
  finally have closed: "still_open evs = Some UNIV \<Longrightarrow> still_open (evs @ release_events) = Some {}" .
  have v: "err = (case loaded of Inl x \<Rightarrow> Some x | Inr _ \<Rightarrow> None)" "evs' = (case loaded of Inl _ \<Rightarrow> evs | Inr _ \<Rightarrow> evs @ release_events)"
    using assms(2,3) by (auto simp: ValidateConfigArtifacts_def split: sum.splits)
  have "(r = Inr () \<longleftrightarrow> ec_snap e \<noteq> None \<and> err = None) \<and> (r \<noteq> Inr () \<longrightarrow> e' = e \<and> s' = s)"
    using assms(1,2) v(1) by (auto simp: eng_Reload_def Let_def split: option.splits sum.splits prod.splits)
  then show ?thesis using open0 closed v by (auto split: sum.splits)
qed

section \<open>Denials across a reload\<close>

lemma listed_run_denies:
  assumes "se_intel env = Some ip" "ParseAddr (ctx_RemoteAddr req) = Some a" "dm_Reputation (se_domain env)" "in_FeedMatch ip a ''deny'' \<noteq> None"
  shows "\<exists>d st'. run_stages stages env req st = (Some d, st') \<and> dc_Action d = ActionDeny"
proof -
  define pre :: "('a, 'b, 'c) stage list" where "pre = [allowlistStage, headerPoWExemptionStage, denylistStage, verifiedBotStage]"
  define post :: "('a, 'b, 'c) stage list" where "post = [behaviourBlockStage, honeypotStage, wafRulesStage] @ late_stages"
  have split: "stages = pre @ intelDenyStage # post" by (simp add: stages_def late_stages_def pre_def post_def)
  have sub: "set pre \<subseteq> set early_stages" by (auto simp: early_stages_def pre_def)
  obtain r s where r: "run_stages pre env req st = (r, s)" by fastforce
  have deny: "\<exists>d st'. intelDenyStage env req s = (Inr (Some d), st') \<and> dc_Action d = ActionDeny" for s
    using assms by (auto simp: intelDenyStage_def)
  show ?thesis
  proof (cases r)
    case None
    then show ?thesis using r deny [of s] by (auto simp: split run_stages_append)
  next
    case (Some d)
    then show ?thesis using r run_early_denies [OF sub] by (simp add: split run_stages_append)
  qed
qed

text \<open>
  C22 (safety). Reloading the configuration opens no window for a listed address: when a remote deny feed has loaded a list that covers
  an address and the new configuration keeps that feed, then right after the reload, before the new provider has fetched anything and
  however long the remote stays down, every request from the address in a scope that uses the feeds is denied,
  whatever token, crawler name or exemption it brings.
\<close>

theorem reload_keeps_listed_addresses_denied:
  assumes old: "ec_snap e = Some snap" "es_intel snap = Some po" "f \<in> set (pv_feeds po)" "fd_state f = Some fst0" "rs_Contains (fs_set fst0) a"
      "distinct (map (\<lambda>f. fc_Name (fd_cfg f)) (pv_feeds po))"
    and new: "provider_New w ic = Inr (Some pn)" "c \<in> set (ic_Feeds ic)" "fc_Name c = fc_Name (fd_cfg f)" "fc_URL c = fc_URL (fd_cfg f)"
      "fc_URL c \<noteq> ''''" "fc_File c = ''''" "fc_Action c = FeedActionDeny"
    and rel: "eng_Reload votes now settings cfg newRules newModels (Inr (Some pn)) newExempt (e, s) = (Inr (), e', s')" "ec_snap e' = Some snap'"
    and req: "se_intel env = intel_of (es_intel snap')" "ParseAddr (ctx_RemoteAddr req) = Some a" "dm_Reputation (scopeForRequest (es_cfg snap') req)"
  shows "dc_Action (fst (eng_Evaluate (Some (es_cfg snap')) env req st)) = ActionDeny"
proof -
  obtain feeds where "load_feeds w (ic_Feeds ic) = Inr feeds" "pv_feeds pn = feeds"
    using new(1) by (auto simp: provider_New_def split: if_splits sum.splits)
  then have mem: "new_feed c \<in> set (pv_feeds pn)" using load_feeds_url new(2,6) by blast
  have "es_intel snap' = SeedURLFeedsFrom (Some po) (Some pn)"
    using rel old(1,2) by (auto simp: eng_Reload_def loadSnapshot_def Let_def split: sum.splits prod.splits)
  then obtain p where p: "SeedURLFeedsFrom (Some po) (Some pn) = Some p" "es_intel snap' = Some p" by (simp add: SeedURLFeedsFrom_def)
  obtain g where g: "g \<in> set (pv_feeds p)" "fd_cfg g = c" "fd_state g = Some fst0"
    using seeded_feed [OF p(1) mem old(3,4,6) new(3-5)] by blast
  then have "pv_FeedMatch (Some p) a ''deny'' \<noteq> None"
    unfolding FeedMatch_Some using old(5) new(7) by (auto simp: fd_contains_def FeedActionDeny_def)
  moreover define e1 where "e1 = fresh_memo (st\<lparr>pl_attack := map_option am_Evaluated (pl_attack st)\<rparr>)"
  moreover define env1 where "env1 = request_env (es_cfg snap') env req e1"
  ultimately obtain d st' where "run_stages stages env1 req e1 = (Some d, st')" "dc_Action d = ActionDeny"
    using listed_run_denies [of env1 _ req a e1] req p(2) by (auto simp: request_env_def intel_of_def)
  then show ?thesis using withhold_deny by (simp add: eng_Evaluate_def Let_def e1_def [symmetric] env1_def [symmetric])
qed

section \<open>Examples\<close>

definition listing_domain :: domain_config where
  "listing_domain = plain_domain\<lparr>dm_Reputation := True\<rparr>"

definition listing_provider :: provider where
  "listing_provider = \<lparr>pv_country = None, pv_asn = None, pv_feeds = [example_feed], pv_cacheDir = ''''\<rparr>"

definition listing_core :: "(unit, unit) engine_core" where
  "listing_core =
     \<lparr>ec_snap = Some \<lparr>es_cfg = uniform_config listing_domain, es_rules = \<lparr>rc_files = [], rc_byKey = []\<rparr>, es_models = (),
        es_intel = Some listing_provider, es_headerExemptions = []\<rparr>,
      ec_lastCfg = uniform_config listing_domain, ec_attack = None\<rparr>"

definition offline_world :: intel_world where
  "offline_world = \<lparr>iw_open = (\<lambda>_. None), iw_stat = (\<lambda>_. None), iw_mkdir = True, iw_files = [], iw_now = 0\<rparr>"

definition listing_intel :: intel_config where
  "listing_intel = \<lparr>ic_LocationDB = '''', ic_ASNDB = '''', ic_CacheDir = '''', ic_Feeds = [example_feed_config]\<rparr>"

definition reloaded :: "(unit, unit) engine_core" where
  "reloaded = fst (snd (eng_Reload None 0 example_config (uniform_config listing_domain) (Inr \<lparr>rc_files = [], rc_byKey = []\<rparr>)
     (Inr () :: string + unit) (Inr (Some (listing_provider\<lparr>pv_feeds := [new_feed example_feed_config]\<rparr>))) (Inr []) (listing_core, ())))"

text \<open>The model files of the new configuration are missing.\<close>

theorem failed_reload_changes_nothing_witness:
  "eng_Reload None 0 example_config (uniform_config listing_domain) (Inr \<lparr>rc_files = [], rc_byKey = []\<rparr>) (Inl ''missing'') (Inr None) (Inr [])
     (listing_core, ()) = (Inl (LoadFailed ''missing''), listing_core, ()) \<and>
   still_open (snd (loadSnapshot (uniform_config listing_domain) (Inr \<lparr>rc_files = [], rc_byKey = []\<rparr>) (Inl ''missing'' :: string + unit) (Inr None)
     (Inr [] :: string + unit exempt_cache))) = Some {}"
proof -
  let ?l = "loadSnapshot (uniform_config listing_domain) (Inr \<lparr>rc_files = [], rc_byKey = []\<rparr>) (Inl ''missing'' :: string + unit) (Inr None)
    (Inr [] :: string + unit exempt_cache)"
  have l: "?l = (Inl ''missing'', [Opened RulesPart, Closed RulesPart])" by (simp add: loadSnapshot_def)
  have r: "eng_Reload None 0 example_config (uniform_config listing_domain) (Inr \<lparr>rc_files = [], rc_byKey = []\<rparr>) (Inl ''missing'') (Inr None) (Inr [])
     (listing_core, ()) = (Inl (LoadFailed ''missing''), listing_core, ())"
    by (simp add: eng_Reload_def l listing_core_def)
  have v: "ValidateConfigArtifacts (uniform_config listing_domain) (Inr \<lparr>rc_files = [], rc_byKey = []\<rparr>) (Inl ''missing'' :: string + unit) (Inr None)
    (Inr [] :: string + unit exempt_cache) = (Some ''missing'', [Opened RulesPart, Closed RulesPart])"
    by (simp add: ValidateConfigArtifacts_def l)
  show ?thesis using failed_reload_changes_nothing [OF r l v] r l by simp
qed

theorem reload_keeps_listed_addresses_denied_witness:
  "dc_Action (fst (eng_Evaluate (Some (es_cfg (the (ec_snap reloaded)))) (example_stage_env\<lparr>se_intel := intel_of (es_intel (the (ec_snap reloaded)))\<rparr>)
     sample_request example_pipe_state)) = ActionDeny"
proof -
  obtain snap where s: "ec_snap listing_core = Some snap" "es_intel snap = Some listing_provider" by (simp add: listing_core_def)
  have f: "example_feed \<in> set (pv_feeds listing_provider)" "fd_state example_feed = Some example_feed_state"
      "rs_Contains (fs_set example_feed_state) (AddrV4 [192, 0, 2, 7])" "distinct (map (\<lambda>f. fc_Name (fd_cfg f)) (pv_feeds listing_provider))"
    using example_feed_contains by (simp_all add: listing_provider_def example_feed_def example_feed_state_def)
  have n: "provider_New offline_world listing_intel = Inr (Some (listing_provider\<lparr>pv_feeds := [new_feed example_feed_config]\<rparr>))"
    by (simp add: provider_New_def listing_intel_def open_db_def example_feed_config_def listing_provider_def)
  have c: "example_feed_config \<in> set (ic_Feeds listing_intel)" "fd_cfg example_feed = example_feed_config" "fc_URL example_feed_config \<noteq> ''''"
      "fc_File example_feed_config = ''''" "fc_Action example_feed_config = FeedActionDeny"
    by (simp_all add: listing_intel_def example_feed_def new_feed_def) (simp_all add: example_feed_config_def)
  have r: "eng_Reload None 0 example_config (uniform_config listing_domain) (Inr \<lparr>rc_files = [], rc_byKey = []\<rparr>)
     (Inr () :: string + unit) (Inr (Some (listing_provider\<lparr>pv_feeds := [new_feed example_feed_config]\<rparr>))) (Inr []) (listing_core, ()) = (Inr (), reloaded, ())"
    unfolding reloaded_def by (simp add: eng_Reload_def loadSnapshot_def listing_core_def reload_attack_def)
  have q: "ec_snap reloaded = Some (the (ec_snap reloaded))" "dm_Reputation (scopeForRequest (es_cfg (the (ec_snap reloaded))) sample_request)"
    unfolding reloaded_def by (simp_all add: eng_Reload_def loadSnapshot_def listing_core_def reload_attack_def Let_def listing_domain_def)
  show ?thesis
    using reload_keeps_listed_addresses_denied [OF s f(1-4) n c(1) _ _ c(3-5) r q(1) _ _ q(2), of "example_stage_env\<lparr>se_intel := intel_of (es_intel (the (ec_snap reloaded)))\<rparr>"]
      c(2) example_facts(1) by simp
qed

end
