(* ===== verification/Health.thy ===== *)
theory Health
  imports Sharded_Memory
begin

text \<open>
  The readiness checker (\<^verbatim>\<open>core/health/health.go\<close>) and the readiness answer of the admin server
  (\<^verbatim>\<open>transport/http/admin.go\<close>): the write and read-back of a nonce, the bounded probe that survives a store which never
  answers, the published snapshot with its staleness timer, and the clock comparison.

  Reading the store is a function of two instants, with what other clients do to the store in between as an argument. The
  concurrency is a step relation: the probe loop, the goroutines that run a round trip, the timer callbacks
  and the close interleave freely. Time is explicit; \<open>slack\<close> bounds how late a goroutine that could run is
  scheduled. The generation counts publications, one every ten seconds, and does not exhaust its 64 bits. Latencies are
  in microseconds. The metrics sink and the jitter of the interval are left out.
\<close>

section \<open>Snapshots\<close>

definition probeInterval :: nanos where "probeInterval = 10 * 10 ^ 9"
definition probeTimeout :: nanos where "probeTimeout = 2 * 10 ^ 9"
definition probeTTL :: nanos where "probeTTL = 60 * 10 ^ 9"
definition staleFactor :: int where "staleFactor = 3"
definition clockSkewWarn :: nanos where "clockSkewWarn = 10 * 10 ^ 9"
definition probeKeyPrefix :: string where "probeKeyPrefix = ''guardian:health:probe:''"

datatype probe_error =
    ProbeNonce
  | ProbeWrite store_error
  | ProbeRead store_error
  | ProbeAbsent
  | ProbeMismatch
  | ProbeStillRunning
  | ProbeDeadline
  | ProbeCancelled

record health_status =
  hs_Probed :: bool
  hs_Up :: bool
  hs_Stale :: bool
  hs_Backend :: string
  hs_LatencyUS :: int
  hs_CheckedAt :: "nanos option"
  hs_Err :: "probe_error option"
  hs_gen :: nat

definition zero_status :: health_status where
  "zero_status = \<lparr>hs_Probed = False, hs_Up = False, hs_Stale = False, hs_Backend = '''', hs_LatencyUS = 0, hs_CheckedAt = None, hs_Err = None, hs_gen = 0\<rparr>"

record checker =
  ck_backend :: string
  ck_key :: string
  ck_interval :: nanos
  ck_timeout :: nanos
  ck_ttl :: nanos
  ck_snap :: "health_status option"
  ck_gen :: nat
  ck_timer :: "(nanos \<times> nat) option"
  ck_closed :: bool
  ck_inflight :: "nat option"
  ck_skewWarned :: bool

definition ck_New :: "string \<Rightarrow> string \<Rightarrow> checker" where
  "ck_New backend sfx =
     \<lparr>ck_backend = backend, ck_key = probeKeyPrefix @ sfx, ck_interval = probeInterval, ck_timeout = probeTimeout, ck_ttl = probeTTL,
      ck_snap = None, ck_gen = 0, ck_timer = None, ck_closed = False, ck_inflight = None, ck_skewWarned = False\<rparr>"

definition ck_Status :: "checker option \<Rightarrow> health_status" where
  "ck_Status oc =
     (case oc of
        None \<Rightarrow> zero_status
      | Some c \<Rightarrow> (case ck_snap c of Some s \<Rightarrow> s | None \<Rightarrow> zero_status))"

definition ck_Close :: "checker \<Rightarrow> checker" where
  "ck_Close c = (if ck_closed c then c else c\<lparr>ck_closed := True, ck_timer := None\<rparr>)"

definition publish :: "nanos \<Rightarrow> health_status \<Rightarrow> checker \<Rightarrow> checker" where
  "publish now s c =
     (let g = ck_gen c + 1;
          c1 = c\<lparr>ck_gen := g, ck_snap := Some (s\<lparr>hs_gen := g\<rparr>)\<rparr>
      in if ck_closed c then c1 else c1\<lparr>ck_timer := Some (now + ck_interval c * staleFactor, g)\<rparr>)"

definition markStale :: "nat \<Rightarrow> checker \<Rightarrow> checker" where
  "markStale gen c =
     (case ck_snap c of
        None \<Rightarrow> c
      | Some prev \<Rightarrow>
          (if ck_closed c \<or> ck_gen c \<noteq> gen then c
           else let g = ck_gen c + 1
                in c\<lparr>ck_gen := g, ck_snap := Some (prev\<lparr>hs_Stale := True, hs_Up := False, hs_gen := g\<rparr>)\<rparr>))"

section \<open>Probing\<close>

definition probeOnce ::
  "'s store_ops \<Rightarrow> nanos \<Rightarrow> nanos \<Rightarrow> string \<Rightarrow> nanos \<Rightarrow> bytes option \<Rightarrow> ('s \<Rightarrow> 's) \<Rightarrow> 's \<Rightarrow> probe_error option \<times> 's" where
  "probeOnce ops t1 t2 key ttl random others s =
     (case random of
        None \<Rightarrow> (Some ProbeNonce, s)
      | Some nonce \<Rightarrow>
          (case st_Set ops t1 key nonce ttl s of
             (Inl err, s1) \<Rightarrow> (Some (ProbeWrite err), s1)
           | (Inr _, s1) \<Rightarrow>
               (case st_Get ops t2 key (others s1) of
                  (Inl err, s2) \<Rightarrow> (Some (ProbeRead err), s2)
                | (Inr None, s2) \<Rightarrow> (Some ProbeAbsent, s2)
                | (Inr (Some got), s2) \<Rightarrow> (if got \<noteq> nonce then (Some ProbeMismatch, s2) else (None, s2)))))"

text \<open>The entry of \<^verbatim>\<open>boundedProbe\<close>: an attempt that is still running means down, otherwise the slot is taken.\<close>

definition begin_attempt :: "nat \<Rightarrow> checker \<Rightarrow> probe_error + checker" where
  "begin_attempt att c = (if ck_inflight c \<noteq> None then Inl ProbeStillRunning else Inr (c\<lparr>ck_inflight := Some att\<rparr>))"

definition end_attempt :: "nat \<Rightarrow> checker \<Rightarrow> checker" where
  "end_attempt att c = (if ck_inflight c = Some att then c\<lparr>ck_inflight := None\<rparr> else c)"

definition probe_status :: "nanos \<Rightarrow> nanos \<Rightarrow> probe_error option \<Rightarrow> checker \<Rightarrow> health_status" where
  "probe_status start now err c =
     \<lparr>hs_Probed = True, hs_Up = (err = None), hs_Stale = False, hs_Backend = ck_backend c, hs_LatencyUS = (now - start) div 1000,
      hs_CheckedAt = Some now, hs_Err = err, hs_gen = 0\<rparr>"

datatype probe_log = LogFailingOpen | LogRecovered

definition probe_transition :: "health_status option \<Rightarrow> bool \<Rightarrow> probe_log option" where
  "probe_transition prev up =
     (let first = (prev = None); wasUp = (case prev of None \<Rightarrow> False | Some p \<Rightarrow> hs_Up p \<and> \<not> hs_Stale p)
      in if \<not> up \<and> (first \<or> wasUp) then Some LogFailingOpen
         else if up \<and> \<not> first \<and> \<not> wasUp then Some LogRecovered
         else None)"

text \<open>The end of \<^verbatim>\<open>probe\<close> with its outcome.\<close>

definition probe_end :: "nanos \<Rightarrow> nanos \<Rightarrow> probe_error option \<Rightarrow> checker \<Rightarrow> probe_log option \<times> checker" where
  "probe_end start now err c =
     (let s = probe_status start now err c in (probe_transition (ck_snap c) (hs_Up s), publish now s c))"

datatype skew_log = LogSkewed | LogSkewGone

definition observeClockSkew :: "nanos option \<Rightarrow> nanos \<Rightarrow> nanos \<Rightarrow> checker \<Rightarrow> (nanos \<times> skew_log option) option \<times> checker" where
  "observeClockSkew remote t0 rtt c =
     (case remote of
        None \<Rightarrow> (None, c)
      | Some t \<Rightarrow>
          (let skew = t - (t0 + rtt div 2); over = clockSkewWarn < \<bar>skew\<bar>;
               line = (if over \<and> \<not> ck_skewWarned c then Some LogSkewed else if \<not> over \<and> ck_skewWarned c then Some LogSkewGone else None)
           in (Some (skew, line), c\<lparr>ck_skewWarned := over\<rparr>)))"

section \<open>The readiness answer\<close>

definition notReadyReason :: "checker option \<Rightarrow> string" where
  "notReadyReason hc =
     (case hc of
        None \<Rightarrow> ''store probe unavailable''
      | Some c \<Rightarrow>
          (let st = ck_Status (Some c)
           in if \<not> hs_Probed st then ''store probe pending''
              else if hs_Stale st then ''store probe stale''
              else if \<not> hs_Up st then ''store probe failed''
              else ''''))"

record readyz_reply =
  rz_code :: nat
  rz_ready :: bool
  rz_reason :: "string option"
  rz_store :: "health_status option"
  rz_sinks :: "(string \<times> bool) list option"
  rz_attack :: "string option"

definition handleReadyz :: "checker option \<Rightarrow> (string \<times> bool) list option \<Rightarrow> string option \<Rightarrow> readyz_reply" where
  "handleReadyz hc sinks attack =
     (let reason = notReadyReason hc
      in \<lparr>rz_code = (if reason \<noteq> '''' then 503 else 200), rz_ready = (reason = ''''), rz_reason = (if reason \<noteq> '''' then Some reason else None),
          rz_store = (case hc of None \<Rightarrow> None | Some c \<Rightarrow> Some ((ck_Status (Some c))\<lparr>hs_Err := None\<rparr>)),
          rz_sinks = (case sinks of Some (x # xs) \<Rightarrow> Some (x # xs) | _ \<Rightarrow> None), rz_attack = attack\<rparr>)"

section \<open>Interleavings\<close>

text \<open>
  The probe loop waits for an attempt: its number, when it began, and what the attempt has put on its channel. A running attempt
  is a goroutine in \<^verbatim>\<open>probeOnce\<close>. A fired timer is a callback that has still to run.
\<close>

record wait_state =
  wt_att :: nat
  wt_start :: nanos
  wt_done :: "probe_error option option"

record health_sys =
  sy_ck :: checker
  sy_now :: nanos
  sy_wait :: "wait_state option"
  sy_running :: "(nat \<times> nanos) list"
  sy_next :: nat
  sy_fired :: "(nanos \<times> nat) list"
  sy_last :: nanos
  sy_trips :: "(nanos \<times> nanos \<times> nanos) list"

text \<open>
  The last two fields only record the history: when a probe was last published, and for every round trip that read its nonce back when it
  was begun, when it wrote and when it read.
\<close>

definition conclude :: "nanos \<Rightarrow> probe_error option \<Rightarrow> health_sys \<Rightarrow> health_sys" where
  "conclude start err y =
     y\<lparr>sy_ck := snd (probe_end start (sy_now y) err (sy_ck y)), sy_wait := None, sy_last := sy_now y\<rparr>"

definition punctual :: "nanos \<Rightarrow> nanos \<Rightarrow> health_sys \<Rightarrow> bool" where
  "punctual slack t y \<longleftrightarrow>
     list_all (\<lambda>(d, g). t \<le> d + slack) (sy_fired y) \<and>
     (case ck_timer (sy_ck y) of None \<Rightarrow> True | Some (d, g) \<Rightarrow> t \<le> d + slack) \<and>
     (case sy_wait y of None \<Rightarrow> True | Some w \<Rightarrow> t \<le> wt_start w + ck_timeout (sy_ck y) + slack)"

inductive health_run :: "'s store_ops \<Rightarrow> nanos \<Rightarrow> health_sys \<Rightarrow> bool" for ops :: "'s store_ops" and slack :: nanos where
  hr_new: "health_run ops slack \<lparr>sy_ck = ck_New backend sfx, sy_now = t, sy_wait = None, sy_running = [], sy_next = 0, sy_fired = [],
    sy_last = t, sy_trips = []\<rparr>"
| hr_pass: "health_run ops slack y \<Longrightarrow> sy_now y \<le> t \<Longrightarrow> punctual slack t y \<Longrightarrow> health_run ops slack (y\<lparr>sy_now := t\<rparr>)"
| hr_busy: "health_run ops slack y \<Longrightarrow> sy_wait y = None \<Longrightarrow> begin_attempt (sy_next y) (sy_ck y) = Inl err \<Longrightarrow>
    health_run ops slack (conclude (sy_now y) (Some err) y)"
| hr_begin: "health_run ops slack y \<Longrightarrow> sy_wait y = None \<Longrightarrow> begin_attempt (sy_next y) (sy_ck y) = Inr c \<Longrightarrow>
    health_run ops slack (y\<lparr>sy_ck := c, sy_wait := Some \<lparr>wt_att = sy_next y, wt_start = sy_now y, wt_done = None\<rparr>,
      sy_running := (sy_next y, sy_now y) # sy_running y, sy_next := Suc (sy_next y)\<rparr>)"
| hr_return: "health_run ops slack y \<Longrightarrow> (att, start) \<in> set (sy_running y) \<Longrightarrow> start \<le> t1 \<Longrightarrow> t1 \<le> t2 \<Longrightarrow> t2 \<le> sy_now y \<Longrightarrow>
    fst (probeOnce ops t1 t2 (ck_key (sy_ck y)) (ck_ttl (sy_ck y)) random others s) = r \<Longrightarrow>
    health_run ops slack (y\<lparr>sy_ck := end_attempt att (sy_ck y), sy_running := filter (\<lambda>p. fst p \<noteq> att) (sy_running y),
      sy_wait := map_option (\<lambda>w. if wt_att w = att then w\<lparr>wt_done := Some r\<rparr> else w) (sy_wait y),
      sy_trips := (if r = None then (start, t1, t2) # sy_trips y else sy_trips y)\<rparr>)"
| hr_take: "health_run ops slack y \<Longrightarrow> sy_wait y = Some w \<Longrightarrow> wt_done w = Some r \<Longrightarrow> health_run ops slack (conclude (wt_start w) r y)"
| hr_deadline: "health_run ops slack y \<Longrightarrow> sy_wait y = Some w \<Longrightarrow> wt_start w + ck_timeout (sy_ck y) \<le> sy_now y \<Longrightarrow>
    health_run ops slack (conclude (wt_start w) (Some ProbeDeadline) y)"
| hr_cancel: "health_run ops slack y \<Longrightarrow> sy_wait y = Some w \<Longrightarrow> ck_closed (sy_ck y) \<Longrightarrow> health_run ops slack (conclude (wt_start w) (Some ProbeCancelled) y)"
| hr_fire: "health_run ops slack y \<Longrightarrow> ck_timer (sy_ck y) = Some (d, g) \<Longrightarrow> d \<le> sy_now y \<Longrightarrow>
    health_run ops slack (y\<lparr>sy_ck := (sy_ck y)\<lparr>ck_timer := None\<rparr>, sy_fired := (d, g) # sy_fired y\<rparr>)"
| hr_stale: "health_run ops slack y \<Longrightarrow> (d, g) \<in> set (sy_fired y) \<Longrightarrow>
    health_run ops slack (y\<lparr>sy_ck := markStale g (sy_ck y), sy_fired := remove1 (d, g) (sy_fired y)\<rparr>)"
| hr_close: "health_run ops slack y \<Longrightarrow> health_run ops slack (y\<lparr>sy_ck := ck_Close (sy_ck y)\<rparr>)"

section \<open>The invariant\<close>

definition stale_at :: "nanos \<Rightarrow> nanos" where
  "stale_at t = t + probeInterval * staleFactor"

text \<open>An attempt begun at \<open>start\<close> has read its nonce back by \<open>t\<close>.\<close>

definition trip_by :: "health_sys \<Rightarrow> nanos \<Rightarrow> nanos \<Rightarrow> bool" where
  "trip_by y start t \<longleftrightarrow> (\<exists>t1 t2. (start, t1, t2) \<in> set (sy_trips y) \<and> start \<le> t1 \<and> t1 \<le> t2 \<and> t2 \<le> t)"

definition slot_ok :: "health_sys \<Rightarrow> bool" where
  "slot_ok y \<longleftrightarrow>
     (case ck_inflight (sy_ck y) of
        None \<Rightarrow> sy_running y = []
      | Some a \<Rightarrow> a < sy_next y \<and> (\<exists>s \<le> sy_now y. sy_running y = [(a, s)])) \<and>
     (\<forall>w. sy_wait y = Some w \<longrightarrow> wt_start w \<le> sy_now y \<and> wt_att w < sy_next y \<and>
        (\<forall>s. (wt_att w, s) \<in> set (sy_running y) \<longrightarrow> s = wt_start w) \<and>
        (wt_done w = Some None \<longrightarrow> trip_by y (wt_start w) (sy_now y)))"

definition snap_ok :: "nanos \<Rightarrow> health_sys \<Rightarrow> bool" where
  "snap_ok slack y \<longleftrightarrow>
     (\<forall>s. ck_snap (sy_ck y) = Some s \<and> hs_Up s \<longrightarrow>
        hs_Probed s \<and> \<not> hs_Stale s \<and>
        (\<exists>t start. hs_CheckedAt s = Some t \<and> trip_by y start t \<and> t \<le> sy_now y \<and> t \<le> start + probeTimeout + slack \<and>
           (\<not> ck_closed (sy_ck y) \<longrightarrow>
              sy_last y = t \<and>
              (ck_timer (sy_ck y) = Some (stale_at t, ck_gen (sy_ck y)) \<or> (stale_at t, ck_gen (sy_ck y)) \<in> set (sy_fired y)))))"

definition timer_ok :: "health_sys \<Rightarrow> bool" where
  "timer_ok y \<longleftrightarrow>
     (\<forall>d g. ck_timer (sy_ck y) = Some (d, g) \<or> (d, g) \<in> set (sy_fired y) \<longrightarrow>
        g \<le> ck_gen (sy_ck y) \<and> (g = ck_gen (sy_ck y) \<longrightarrow> d = stale_at (sy_last y))) \<and>
     (\<forall>d g. (d, g) \<in> set (sy_fired y) \<longrightarrow> d \<le> sy_now y) \<and>
     (\<forall>s. ck_snap (sy_ck y) = Some s \<and> hs_Stale s \<longrightarrow> stale_at (sy_last y) \<le> sy_now y) \<and> sy_last y \<le> sy_now y"

definition health_ok :: "nanos \<Rightarrow> health_sys \<Rightarrow> bool" where
  "health_ok slack y \<longleftrightarrow>
     ck_interval (sy_ck y) = probeInterval \<and> ck_timeout (sy_ck y) = probeTimeout \<and>
     punctual slack (sy_now y) y \<and> slot_ok y \<and> snap_ok slack y \<and> timer_ok y"

lemmas health_defs = health_ok_def slot_ok_def snap_ok_def timer_ok_def

lemma trip_by_mono: "trip_by y start t \<Longrightarrow> t \<le> t' \<Longrightarrow> trip_by y start t'"
  unfolding trip_by_def by (meson order_trans)

lemma trip_by_cong [simp]:
  "trip_by (y\<lparr>sy_ck := c\<rparr>) = trip_by y" "trip_by (y\<lparr>sy_now := n\<rparr>) = trip_by y" "trip_by (y\<lparr>sy_wait := w\<rparr>) = trip_by y"
  "trip_by (y\<lparr>sy_running := rs\<rparr>) = trip_by y" "trip_by (y\<lparr>sy_next := k\<rparr>) = trip_by y" "trip_by (y\<lparr>sy_fired := f\<rparr>) = trip_by y"
  "trip_by (y\<lparr>sy_last := l\<rparr>) = trip_by y"
  by (simp_all add: trip_by_def fun_eq_iff)

lemma conclude_ok:
  assumes "health_ok slack y" "0 \<le> slack" "r = None \<Longrightarrow> trip_by y start (sy_now y) \<and> sy_now y \<le> start + probeTimeout + slack"
  shows "health_ok slack (conclude start r y)"
proof -
  have y: "ck_interval (sy_ck y) = probeInterval" "ck_timeout (sy_ck y) = probeTimeout" "punctual slack (sy_now y) y" "slot_ok y" "timer_ok y"
    using assms(1) by (auto simp: health_ok_def)
  have pos: "0 < probeInterval * staleFactor" by (simp add: probeInterval_def staleFactor_def)
  note c = conclude_def probe_end_def probe_status_def publish_def Let_def
  have "slot_ok (conclude start r y)" using y(4) by (auto simp: slot_ok_def c split: option.splits)
  moreover have "punctual slack (sy_now y) (conclude start r y)"
    using y(1,3) assms(2) pos by (auto simp: punctual_def c split: option.splits)
  moreover have "snap_ok slack (conclude start r y)" using assms(3) y(1) by (auto simp: snap_ok_def c stale_at_def)
  moreover have "timer_ok (conclude start r y)" using y(1,5) by (fastforce simp: timer_ok_def c stale_at_def)
  ultimately show ?thesis using y(1,2) by (auto simp: health_ok_def c)
qed

lemma pass_ok: "health_ok slack y \<Longrightarrow> sy_now y \<le> t \<Longrightarrow> punctual slack t y \<Longrightarrow> health_ok slack (y\<lparr>sy_now := t\<rparr>)"
proof -
  assume a: "health_ok slack y" "sy_now y \<le> t" "punctual slack t y"
  then have y: "slot_ok y" "snap_ok slack y" "timer_ok y" by (simp_all add: health_ok_def)
  have "slot_ok (y\<lparr>sy_now := t\<rparr>)" using y(1) a(2) by (auto simp: slot_ok_def intro: trip_by_mono split: option.splits)
  moreover have "snap_ok slack (y\<lparr>sy_now := t\<rparr>)" using y(2) a(2) by (fastforce simp: snap_ok_def)
  moreover have "timer_ok (y\<lparr>sy_now := t\<rparr>)" using y(3) a(2) by (fastforce simp: timer_ok_def)
  moreover have "punctual slack t (y\<lparr>sy_now := t\<rparr>)" using a(3) by (simp add: punctual_def split: option.splits)
  ultimately show ?thesis using a(1) by (simp add: health_ok_def)
qed

lemma begin_ok:
  assumes "health_ok slack y" "0 \<le> slack" "sy_wait y = None" "begin_attempt (sy_next y) (sy_ck y) = Inr c"
  shows "health_ok slack (y\<lparr>sy_ck := c, sy_wait := Some \<lparr>wt_att = sy_next y, wt_start = sy_now y, wt_done = None\<rparr>,
    sy_running := (sy_next y, sy_now y) # sy_running y, sy_next := Suc (sy_next y)\<rparr>)"
proof -
  have "0 \<le> probeTimeout" by (simp add: probeTimeout_def)
  then show ?thesis using assms by (auto simp: health_defs begin_attempt_def punctual_def split: if_splits)
qed

lemma return_ok:
  assumes "health_ok slack y" "(att, start) \<in> set (sy_running y)" "start \<le> t1" "t1 \<le> t2" "t2 \<le> sy_now y"
  shows "health_ok slack (y\<lparr>sy_ck := end_attempt att (sy_ck y), sy_running := filter (\<lambda>p. fst p \<noteq> att) (sy_running y),
    sy_wait := map_option (\<lambda>w. if wt_att w = att then w\<lparr>wt_done := Some r\<rparr> else w) (sy_wait y),
    sy_trips := (if r = None then (start, t1, t2) # sy_trips y else sy_trips y)\<rparr>)" (is "health_ok slack ?z")
proof -
  have y: "slot_ok y" "snap_ok slack y" "timer_ok y" "punctual slack (sy_now y) y" using assms(1) by (simp_all add: health_ok_def)
  have run: "ck_inflight (sy_ck y) = Some att" "sy_running y = [(att, start)]" using y(1) assms(2) by (auto simp: slot_ok_def split: option.splits)
  have trip: "trip_by y s t \<Longrightarrow> trip_by ?z s t" for s t by (auto simp: trip_by_def)
  have "r = None \<Longrightarrow> trip_by ?z start (sy_now y)" using assms(3-5) by (auto simp: trip_by_def)
  then have "slot_ok ?z" using y(1) run trip by (auto simp: slot_ok_def end_attempt_def split: option.splits)
  moreover have "snap_ok slack ?z" using y(2) trip run by (fastforce simp: snap_ok_def end_attempt_def)
  moreover have "timer_ok ?z" using y(3) run by (simp add: timer_ok_def end_attempt_def)
  moreover have "punctual slack (sy_now y) ?z" using y(4) run by (auto simp: punctual_def end_attempt_def split: option.splits)
  ultimately show ?thesis using assms(1) run by (simp add: health_ok_def end_attempt_def)
qed

lemma timer_ok_fewer: "timer_ok y \<Longrightarrow> set f \<subseteq> set (sy_fired y) \<Longrightarrow> timer_ok (y\<lparr>sy_fired := f\<rparr>)"
  unfolding timer_ok_def by (simp add: subset_iff) blast

lemma stale_ok:
  assumes "health_ok slack y" "(d, g) \<in> set (sy_fired y)"
  shows "health_ok slack (y\<lparr>sy_ck := markStale g (sy_ck y), sy_fired := remove1 (d, g) (sy_fired y)\<rparr>)" (is "health_ok slack ?z")
proof -
  have y: "slot_ok y" "snap_ok slack y" "timer_ok y" "punctual slack (sy_now y) y" using assms(1) by (simp_all add: health_ok_def)
  have sub: "set (remove1 (d, g) (sy_fired y)) \<subseteq> set (sy_fired y)" by (rule set_remove1_subset)
  have other: "x \<in> set (remove1 (d, g) (sy_fired y))" if "x \<in> set (sy_fired y)" "x \<noteq> (d, g)" for x using that by simp
  note m = markStale_def Let_def
  have "slot_ok ?z" using y(1) by (auto simp: slot_ok_def m split: option.splits)
  moreover have "punctual slack (sy_now y) ?z" using y(4) sub by (auto simp: punctual_def m list_all_iff split: option.splits)
  moreover have "snap_ok slack ?z" using y(2) other by (fastforce simp: snap_ok_def m split: option.splits)
  moreover have "timer_ok ?z"
  proof (cases "ck_snap (sy_ck y) = None \<or> ck_closed (sy_ck y) \<or> ck_gen (sy_ck y) \<noteq> g")
    case True
    then have "markStale g (sy_ck y) = sy_ck y" by (auto simp: m split: option.splits)
    then show ?thesis using timer_ok_fewer [OF y(3) sub] by simp
  next
    case False
    then have "d = stale_at (sy_last y)" "d \<le> sy_now y" using y(3) assms(2) by (auto simp: timer_ok_def)
    then have "timer_ok (y\<lparr>sy_ck := markStale g (sy_ck y)\<rparr>)" using y(3) False by (fastforce simp: timer_ok_def m split: option.splits)
    from timer_ok_fewer [OF this, of "remove1 (d, g) (sy_fired y)"] show ?thesis using sub by simp
  qed
  ultimately show ?thesis using assms(1) by (auto simp: health_ok_def m split: option.splits)
qed

lemma fire_ok:
  assumes "health_ok slack y" "ck_timer (sy_ck y) = Some (d, g)" "d \<le> sy_now y"
  shows "health_ok slack (y\<lparr>sy_ck := (sy_ck y)\<lparr>ck_timer := None\<rparr>, sy_fired := (d, g) # sy_fired y\<rparr>)" (is "health_ok slack ?z")
proof -
  have y: "slot_ok y" "snap_ok slack y" "timer_ok y" "punctual slack (sy_now y) y" using assms(1) by (simp_all add: health_ok_def)
  have "slot_ok ?z" using y(1) by (simp add: slot_ok_def split: option.splits)
  moreover have "punctual slack (sy_now y) ?z" using y(4) assms(2) by (simp add: punctual_def split: option.splits)
  moreover have "snap_ok slack ?z" using y(2) assms(2) by (fastforce simp: snap_ok_def)
  moreover have "timer_ok ?z" using y(3) assms(2,3) by (simp add: timer_ok_def)
  ultimately show ?thesis using assms(1) by (simp add: health_ok_def)
qed

lemma close_ok: "health_ok slack y \<Longrightarrow> health_ok slack (y\<lparr>sy_ck := ck_Close (sy_ck y)\<rparr>)" (is "_ \<Longrightarrow> health_ok slack ?z")
proof -
  assume a: "health_ok slack y"
  then have y: "slot_ok y" "snap_ok slack y" "timer_ok y" "punctual slack (sy_now y) y" by (simp_all add: health_ok_def)
  have "slot_ok ?z" using y(1) by (simp add: slot_ok_def ck_Close_def split: option.splits)
  moreover have "punctual slack (sy_now y) ?z" using y(4) by (simp add: punctual_def ck_Close_def split: option.splits)
  moreover have "snap_ok slack ?z" using y(2) by (fastforce simp: snap_ok_def ck_Close_def)
  moreover have "timer_ok ?z" using y(3) by (simp add: timer_ok_def ck_Close_def)
  ultimately show ?thesis using a by (simp add: health_ok_def ck_Close_def)
qed

lemma health_run_ok: "health_run ops slack y \<Longrightarrow> 0 \<le> slack \<Longrightarrow> health_ok slack y"
proof (induction rule: health_run.induct)
  case (hr_new backend sfx t)
  then show ?case by (simp add: health_defs punctual_def ck_New_def)
next
  case (hr_take y w r)
  have "sy_now y \<le> wt_start w + probeTimeout + slack" "wt_done w = Some None \<Longrightarrow> trip_by y (wt_start w) (sy_now y)"
    using hr_take by (auto simp: health_ok_def punctual_def slot_ok_def)
  then show ?case using hr_take by (intro conclude_ok) auto
next
  case (hr_return y att start t1 t2 random others s r)
  then show ?case by (intro return_ok) auto
next
  case (hr_fire y d g)
  then show ?case by (intro fire_ok) auto
next
  case (hr_close y)
  then show ?case by (intro close_ok) auto
qed (auto intro: pass_ok begin_ok stale_ok conclude_ok)

section \<open>Readiness\<close>

definition read_back :: "'s store_ops \<Rightarrow> string \<Rightarrow> nanos \<Rightarrow> nanos \<Rightarrow> nanos \<Rightarrow> bool" where
  "read_back ops key ttl t1 t2 \<longleftrightarrow>
     (\<exists>nonce s s1 others s2. st_Set ops t1 key nonce ttl s = (Inr (), s1) \<and> st_Get ops t2 key (others s1) = (Inr (Some nonce), s2))"

lemma probeOnce_reads_back: "fst (probeOnce ops t1 t2 key ttl random others s) = None \<Longrightarrow> read_back ops key ttl t1 t2"
  unfolding read_back_def by (auto simp: probeOnce_def split: option.splits prod.splits sum.splits if_splits) blast

lemma step_keys [simp]:
  "ck_key (publish now st c) = ck_key c" "ck_ttl (publish now st c) = ck_ttl c" "ck_key (markStale g c) = ck_key c" "ck_ttl (markStale g c) = ck_ttl c"
  "ck_key (ck_Close c) = ck_key c" "ck_ttl (ck_Close c) = ck_ttl c" "ck_key (end_attempt a c) = ck_key c" "ck_ttl (end_attempt a c) = ck_ttl c"
  by (simp_all add: publish_def markStale_def ck_Close_def end_attempt_def Let_def split: option.splits)

lemma trips_read_back: "health_run ops slack y \<Longrightarrow> (start, t1, t2) \<in> set (sy_trips y) \<Longrightarrow> read_back ops (ck_key (sy_ck y)) (ck_ttl (sy_ck y)) t1 t2"
proof (induction rule: health_run.induct)
  case (hr_return y att start' t1' t2' random others s r)
  then show ?case using probeOnce_reads_back [of ops t1' t2' "ck_key (sy_ck y)" "ck_ttl (sy_ck y)" random others s] by (auto split: if_splits)
qed (auto simp: conclude_def probe_end_def begin_attempt_def Let_def split: if_splits)

text \<open>
  C27 (safety). A ready answer is never an old or a borrowed one. Whatever the store does, hanging, failing, losing writes or answering
  after its deadline, and however probes, abandoned attempts and timer callbacks interleave: while the checker is open, an answer of
  200 rests on a round trip that read back the very nonce it had written, finished within the probe timeout of its beginning,
  and began at most the timeout and three intervals ago, up to the lateness of the scheduler. A snapshot called stale really has had
  no finished probe for three intervals, and a store that never answers holds at most one goroutine.
\<close>

theorem readiness_is_backed:
  assumes "health_run ops slack y" "0 \<le> slack" "\<not> ck_closed (sy_ck y)"
  shows "(rz_code (handleReadyz (Some (sy_ck y)) sinks attack) = 200 \<longrightarrow>
      (\<exists>start t1 t2. start \<le> t1 \<and> t1 \<le> t2 \<and> t2 \<le> start + probeTimeout + slack \<and>
         sy_now y \<le> start + probeTimeout + probeInterval * staleFactor + 2 * slack \<and>
         read_back ops (ck_key (sy_ck y)) (ck_ttl (sy_ck y)) t1 t2)) \<and>
    (hs_Stale (ck_Status (Some (sy_ck y))) \<longrightarrow> sy_last y + probeInterval * staleFactor \<le> sy_now y) \<and>
    length (sy_running y) \<le> 1"
proof -
  have y: "punctual slack (sy_now y) y" "slot_ok y" "snap_ok slack y" "timer_ok y"
    using health_run_ok [OF assms(1,2)] by (simp_all add: health_ok_def)
  have "\<exists>start t1 t2. start \<le> t1 \<and> t1 \<le> t2 \<and> t2 \<le> start + probeTimeout + slack \<and>
      sy_now y \<le> start + probeTimeout + probeInterval * staleFactor + 2 * slack \<and> read_back ops (ck_key (sy_ck y)) (ck_ttl (sy_ck y)) t1 t2"
    if code: "rz_code (handleReadyz (Some (sy_ck y)) sinks attack) = 200"
  proof -
    obtain s where s: "ck_snap (sy_ck y) = Some s" "hs_Up s"
      using code by (auto simp: handleReadyz_def notReadyReason_def ck_Status_def zero_status_def Let_def split: if_splits option.splits)
    obtain t start where t: "trip_by y start t" "t \<le> start + probeTimeout + slack"
        "ck_timer (sy_ck y) = Some (stale_at t, ck_gen (sy_ck y)) \<or> (stale_at t, ck_gen (sy_ck y)) \<in> set (sy_fired y)"
      using y(3) s assms(3) by (auto simp: snap_ok_def)
    have now: "sy_now y \<le> stale_at t + slack" using t(3) y(1) by (auto simp: punctual_def list_all_iff)
    obtain t1 t2 where trip: "(start, t1, t2) \<in> set (sy_trips y)" "start \<le> t1" "t1 \<le> t2" "t2 \<le> t" using t(1) by (auto simp: trip_by_def)
    show ?thesis using trips_read_back [OF assms(1) trip(1)] trip(2-4) t(2) now by (intro exI [of _ start] exI [of _ t1] exI [of _ t2]) (simp add: stale_at_def)
  qed
  moreover have "hs_Stale (ck_Status (Some (sy_ck y))) \<longrightarrow> sy_last y + probeInterval * staleFactor \<le> sy_now y"
    using y(4) by (auto simp: timer_ok_def ck_Status_def zero_status_def stale_at_def split: option.splits)
  moreover have "length (sy_running y) \<le> 1" using y(2) by (auto simp: slot_ok_def split: option.splits)
  ultimately show ?thesis by blast
qed

text \<open>The first probe of a checker on the in-memory store makes it ready.\<close>

lemma example_probe: "fst (probeOnce sm_ops 0 0 key probeTTL (Some ''n'') id fresh_memory) = None"
proof -
  obtain r s1 where s: "st_Set sm_ops 0 key ''n'' probeTTL fresh_memory = (r, s1)" by fastforce
  have w: "r = Inr ()" "sm_ok s1" "sm_live s1 0 key = Some \<lparr>e_value = ''n'', e_expiresAt = expiry 0 probeTTL\<rparr>"
    using mem.set_value [OF fresh_memory_ok, of 0 key "''n''" probeTTL] s
    by (simp_all add: refines_def spec_Set_def unexpired_def entry_expired_def expiry_def probeTTL_def)
  obtain q s2 where g: "st_Get sm_ops 0 key s1 = (q, s2)" by fastforce
  show ?thesis using mem.get_eq(1) [OF w(2) g] s w g by (simp add: probeOnce_def)
qed

theorem readiness_is_backed_witness:
  "\<exists>y start t1 t2. health_run sm_ops 0 y \<and> rz_code (handleReadyz (Some (sy_ck y)) None None) = 200 \<and> start \<le> t1 \<and> t1 \<le> t2 \<and>
     t2 \<le> start + probeTimeout \<and> read_back sm_ops (ck_key (sy_ck y)) (ck_ttl (sy_ck y)) t1 t2"
proof -
  define c where "c = ck_New ''memory'' ''x''"
  define y0 where "y0 = \<lparr>sy_ck = c, sy_now = 0, sy_wait = None, sy_running = [], sy_next = 0, sy_fired = [], sy_last = 0, sy_trips = []\<rparr>"
  define y1 where "y1 = y0\<lparr>sy_ck := c\<lparr>ck_inflight := Some 0\<rparr>, sy_wait := Some \<lparr>wt_att = 0, wt_start = 0, wt_done = None\<rparr>,
    sy_running := [(0, 0)], sy_next := 1\<rparr>"
  define y2 where "y2 = y1\<lparr>sy_ck := c\<lparr>ck_inflight := None\<rparr>, sy_running := [], sy_wait := Some \<lparr>wt_att = 0, wt_start = 0, wt_done = Some None\<rparr>, sy_trips := [(0, 0, 0)]\<rparr>"
  have c: "ck_inflight c = None" "ck_ttl c = probeTTL" "ck_closed c = False" "ck_snap c = None" by (simp_all add: c_def ck_New_def)
  have "health_run sm_ops 0 y0" unfolding y0_def c_def by (rule hr_new)
  from hr_begin [OF this, of "c\<lparr>ck_inflight := Some 0\<rparr>"] have 1: "health_run sm_ops 0 y1" by (simp add: y0_def y1_def begin_attempt_def c)
  from hr_return [OF 1, of 0 0 0 0 "Some ''n''" id fresh_memory None] example_probe [of "ck_key c"] have 2: "health_run sm_ops 0 y2"
    by (simp add: y0_def y1_def y2_def end_attempt_def c)
  define y where "y = conclude 0 None y2"
  from hr_take [OF 2, of "\<lparr>wt_att = 0, wt_start = 0, wt_done = Some None\<rparr>" None] have r: "health_run sm_ops 0 y" by (simp add: y2_def y_def)
  have "rz_code (handleReadyz (Some (sy_ck y)) None None) = 200" "\<not> ck_closed (sy_ck y)"
    by (simp_all add: y_def conclude_def y2_def y1_def y0_def probe_end_def publish_def probe_status_def c handleReadyz_def notReadyReason_def ck_Status_def Let_def)
  with readiness_is_backed [OF r, of None None] r show ?thesis by auto
qed

end
