(* ===== verification/Engine_Admin.thy ===== *)
theory Engine_Admin
  imports Pipeline Pow_Challenge Recent_Ring Unblock Store_Index
begin

text \<open>
  The operator's side of the engine (\<^verbatim>\<open>core/engine.go\<close>): lifting a block together with the counters that would place it again, and
  the queries of the admin interface about one block or all of them. The store, the manager and the challenge manager
  are those of the pipeline state; the recent decisions and the configuration of the snapshot are arguments.
  The steps before the commit happen at \<open>now\<close>, the commit at \<open>now'\<close>.
\<close>

section \<open>Lifting a block\<close>

record unblock_reset =
  ur_EventKeys :: int
  ur_EscalationKeys :: nat
  ur_BackoffReset :: bool
  ur_Incomplete :: bool

definition no_reset :: unblock_reset where
  "no_reset = \<lparr>ur_EventKeys = 0, ur_EscalationKeys = 0, ur_BackoffReset = False, ur_Incomplete = False\<rparr>"

definition maxEscalationResetHosts :: nat where "maxEscalationResetHosts = 128"

definition sameIP :: "string \<Rightarrow> string \<Rightarrow> bool" where
  "sameIP ip raw \<longleftrightarrow>
     raw = ip \<or>
     (case ParseAddr ip of
        None \<Rightarrow> False
      | Some target \<Rightarrow> (case ParseAddr raw of None \<Rightarrow> False | Some addr \<Rightarrow> Unmap addr = target))"

text \<open>Adding one host; there is no result when the host does not fit.\<close>

definition add_host :: "string \<Rightarrow> string list \<Rightarrow> string list option" where
  "add_host raw hosts =
     (let host = NormalizeHost raw
      in if host = '''' \<or> host \<in> set hosts then Some hosts
         else if maxEscalationResetHosts \<le> length hosts then None
         else Some (hosts @ [host]))"

fun add_hosts :: "string list \<Rightarrow> string list \<Rightarrow> string list \<times> bool" where
  "add_hosts [] hosts = (hosts, False)"
| "add_hosts (raw # raws) hosts =
     (case add_host raw hosts of None \<Rightarrow> (hosts, True) | Some hosts' \<Rightarrow> add_hosts raws hosts')"

definition escalationHosts :: "config \<Rightarrow> string \<Rightarrow> recent_ring \<Rightarrow> string list \<times> bool" where
  "escalationHosts cfg ip ring =
     (case add_hosts (map rd_Host (filter (\<lambda>d. sameIP ip (rd_IP d)) (rg_list 0 ring))) [] of
        (hosts, True) \<Rightarrow> (hosts, True)
      | (hosts, False) \<Rightarrow> add_hosts (sort (map fst (cf_resolved cfg))) hosts)"

fun reset_hosts ::
  "'s store_ops \<Rightarrow> row_hash \<Rightarrow> nanos \<Rightarrow> string \<Rightarrow> string list \<Rightarrow> unblock_reset \<Rightarrow> 'k pow_manager option \<times> 's \<Rightarrow>
     unblock_reset \<times> 'k pow_manager option \<times> 's" where
  "reset_hosts ops h now ip [] out ms = (out, ms)"
| "reset_hosts ops h now ip (host # hosts) out ms =
     (case ResetEscalation ops h now host ip ms of
        (keys, errs, ms') \<Rightarrow>
          reset_hosts ops h now ip hosts
            (out\<lparr>ur_EscalationKeys := ur_EscalationKeys out + keys, ur_Incomplete := ur_Incomplete out \<or> errs \<noteq> []\<rparr>) ms')"

definition resetBlockCounters ::
  "'s store_ops \<Rightarrow> row_hash \<Rightarrow> nanos \<Rightarrow> config option \<Rightarrow> recent_ring \<Rightarrow> string \<Rightarrow> string \<Rightarrow> bool \<Rightarrow> unblock_reset \<Rightarrow>
     ('s, 'k) pipe_state \<Rightarrow> unblock_reset \<times> ('s, 'k) pipe_state" where
  "resetBlockCounters ops h now snap ring ip generation resetEvents out st =
     (case snap of
        None \<Rightarrow> (out\<lparr>ur_Incomplete := True\<rparr>, st)
      | Some cfg \<Rightarrow>
          (let (out1, s1) =
                 (if resetEvents
                  then (case ResetEventCounters ops now ip generation (BehaviourWindows cfg) (pl_store st) of
                          (keys, failed, s') \<Rightarrow> (out\<lparr>ur_EventKeys := keys\<rparr>, s'))
                  else (out, pl_store st))
           in if pl_pow st = None then (out1, st\<lparr>pl_store := s1\<rparr>)
              else let (hosts, truncated) = escalationHosts cfg ip ring;
                       (out2, om, s2) = reset_hosts ops h now ip hosts out1 (pl_pow st, s1)
                   in (if truncated then out2\<lparr>ur_Incomplete := True\<rparr> else out2, st\<lparr>pl_store := s2, pl_pow := om\<rparr>)))"

definition UnblockIP ::
  "'s store_ops \<Rightarrow> row_hash \<Rightarrow> nanos \<Rightarrow> nanos \<Rightarrow> nanos \<Rightarrow> config option \<Rightarrow> recent_ring \<Rightarrow> string \<Rightarrow> bool \<Rightarrow> bytes \<Rightarrow> bytes \<Rightarrow>
     ('s, 'k) pipe_state \<Rightarrow> (store_error + unit) \<times> unblock_reset \<times> ('s, 'k) pipe_state" where
  "UnblockIP ops h unblockHold now now' snap ring ip0 resetBackoff holdGeneration generation st =
     (let ip = canonIP ip0;
          (token, s1) = unblockToken ops unblockHold now ip (pl_store st);
          (held, s2) = HoldUnblock ops unblockHold now ip holdGeneration s1;
          (out, st2) = resetBlockCounters ops h now snap ring ip (case token of Inl _ \<Rightarrow> [] | Inr g \<Rightarrow> g)
                         (case token of Inl _ \<Rightarrow> False | Inr _ \<Rightarrow> True) no_reset (st\<lparr>pl_store := s2\<rparr>)
      in case sb_CommitUnblock ops unblockHold now' ip resetBackoff generation (pl_enforcer st2, pl_store st2) of
           (Inl err, om, s3) \<Rightarrow> (Inl err, out, st2\<lparr>pl_enforcer := om, pl_store := s3\<rparr>)
         | (Inr _, om, s3) \<Rightarrow>
             (Inr (), if resetBackoff then out\<lparr>ur_BackoffReset := True\<rparr> else out, st2\<lparr>pl_enforcer := om, pl_store := s3\<rparr>))"

section \<open>Looking at blocks\<close>

definition BlockStatus :: "'s store_ops \<Rightarrow> nanos \<Rightarrow> string \<Rightarrow> 's \<Rightarrow> (store_error + string \<times> bool) \<times> 's" where
  "BlockStatus ops now ip s =
     (case st_Get ops now (BlockKey ip) s of
        (Inl err, s') \<Rightarrow> (Inl err, s')
      | (Inr v, s') \<Rightarrow> (Inr (BlockReason (case v of None \<Rightarrow> [] | Some x \<Rightarrow> x), v \<noteq> None), s'))"

definition scanBlocks :: "'s scan_ops \<Rightarrow> nanos \<Rightarrow> string \<Rightarrow> int \<Rightarrow> 's \<Rightarrow> (store_error + kv list \<times> bool) \<times> 's" where
  "scanBlocks so now pre limit s =
     (let generic = (\<lambda>s.
            case so_limited so of
              Some f \<Rightarrow> f now pre limit s
            | None \<Rightarrow>
                (case so_scan so now pre s of
                   (Inl err, s') \<Rightarrow> (Inl err, s')
                 | (Inr kvs, s') \<Rightarrow>
                     (if 0 < limit \<and> limit < int (length kvs) then (Inr (take (nat limit) kvs, False), s') else (Inr (kvs, True), s'))))
      in case so_active so of
           None \<Rightarrow> generic s
         | Some f \<Rightarrow>
             (case f now pre limit s of
                (Inl ErrCapabilityUnsupported, s') \<Rightarrow> generic s'
              | r \<Rightarrow> r))"

definition blockExpiryScanLimit :: int where "blockExpiryScanLimit = 64"

definition blockExpiry :: "'s scan_ops \<Rightarrow> nanos \<Rightarrow> string \<Rightarrow> 's \<Rightarrow> nanos option \<times> 's" where
  "blockExpiry so now ip s =
     (let key = BlockKey ip
      in case scanBlocks so now key blockExpiryScanLimit s of
           (Inl err, s') \<Rightarrow> (None, s')
         | (Inr (kvs, whole), s') \<Rightarrow>
             (Option.bind (find (\<lambda>kv. kv_Key kv = key \<and> kv_ExpiresAt kv \<noteq> None) kvs) kv_ExpiresAt, s'))"

record block_detail =
  bd_IP :: string
  bd_Blocked :: bool
  bd_Reason :: string
  bd_ExpiresAt :: "nanos option"
  bd_Offenses :: "int option"

definition BlockDetailFor ::
  "'s store_ops \<Rightarrow> 's scan_ops \<Rightarrow> nanos \<Rightarrow> string \<Rightarrow> 's \<Rightarrow> (store_error + block_detail) \<times> 's" where
  "BlockDetailFor ops so now ip s =
     (case BlockStatus ops now ip s of
        (Inl err, s1) \<Rightarrow> (Inl err, s1)
      | (Inr (reason, blocked), s1) \<Rightarrow>
          (let (expires, s2) = (if blocked then blockExpiry so now ip s1 else (None, s1));
               (offenses, s3) =
                 (case st_Get ops now (blockCountKey (canonIP ip)) s2 of
                    (Inr (Some raw), s3) \<Rightarrow> (parse_int64 raw, s3)
                  | (_, s3) \<Rightarrow> (None, s3))
           in (Inr \<lparr>bd_IP = canonIP ip, bd_Blocked = blocked, bd_Reason = reason, bd_ExpiresAt = expires, bd_Offenses = offenses\<rparr>, s3)))"

record block_entry =
  be_IP :: string
  be_Reason :: string
  be_ExpiresAt :: "nanos option"

definition block_row :: "kv \<Rightarrow> block_entry" where
  "block_row kv =
     \<lparr>be_IP = drop (length blockKeyPrefix) (kv_Key kv), be_Reason = BlockReason (kv_Value kv), be_ExpiresAt = kv_ExpiresAt kv\<rparr>"

definition ListBlocksLimit :: "'s scan_ops \<Rightarrow> nanos \<Rightarrow> int \<Rightarrow> 's \<Rightarrow> (store_error + block_entry list \<times> bool) \<times> 's" where
  "ListBlocksLimit so now limit s =
     (case scanBlocks so now blockKeyPrefix limit s of
        (Inl err, s') \<Rightarrow> (Inl err, s')
      | (Inr (kvs, whole), s') \<Rightarrow> (Inr (map block_row kvs, whole), s'))"

definition ListBlocks :: "'s scan_ops \<Rightarrow> nanos \<Rightarrow> 's \<Rightarrow> (store_error + block_entry list) \<times> 's" where
  "ListBlocks so now s =
     (case ListBlocksLimit so now 0 s of
        (Inl err, s') \<Rightarrow> (Inl err, s')
      | (Inr (blocks, whole), s') \<Rightarrow> (Inr blocks, s'))"

text \<open>The scanners the in-memory store offers.\<close>

definition sm_scans :: "sharded_memory scan_ops" where
  "sm_scans =
     \<lparr>so_active = Some sm_ScanActiveBlocks, so_limited = Some (\<lambda>now pre limit s. (Inr (sm_ScanLimit now pre limit s), s)),
      so_scan = (\<lambda>now pre s. (Inr (sm_Scan now pre s), s))\<rparr>"

section \<open>The hosts whose counters are reset\<close>

lemma add_hosts_spec:
  "add_hosts raws hosts = (hs, trunc) \<Longrightarrow> distinct hosts \<Longrightarrow> length hosts \<le> maxEscalationResetHosts \<Longrightarrow>
     distinct hs \<and> length hs \<le> maxEscalationResetHosts \<and> (trunc \<longrightarrow> length hs = maxEscalationResetHosts) \<and> set hosts \<subseteq> set hs \<and>
     set hs \<subseteq> set hosts \<union> (NormalizeHost ` set raws - {''''}) \<and> (\<not> trunc \<longrightarrow> NormalizeHost ` set raws - {''''} \<subseteq> set hs)"
proof (induction raws arbitrary: hosts)
  case (Cons r rs)
  show ?case
  proof (cases "add_host r hosts")
    case None
    then show ?thesis using Cons.prems by (auto simp: add_host_def Let_def split: if_splits)
  next
    case (Some hosts')
    then have "distinct hosts'" "length hosts' \<le> maxEscalationResetHosts" "set hosts' = set hosts \<union> ({NormalizeHost r} - {''''})"
      using Cons.prems by (auto simp: add_host_def Let_def split: if_splits)
    then show ?thesis using Cons.IH [of hosts'] Cons.prems(1) Some by auto
  qed
qed simp

text \<open>The hosts of an address: those of its recent decisions and those of the configuration.\<close>

definition hosts_of :: "config \<Rightarrow> string \<Rightarrow> recent_ring \<Rightarrow> string set" where
  "hosts_of cfg ip ring =
     NormalizeHost ` (rd_Host ` {d \<in> set (rg_list 0 ring). sameIP ip (rd_IP d)} \<union> fst ` set (cf_resolved cfg)) - {''''}"

lemma escalationHosts_spec:
  assumes "escalationHosts cfg ip ring = (hs, trunc)"
  shows "distinct hs \<and> length hs \<le> maxEscalationResetHosts \<and> (trunc \<longrightarrow> length hs = maxEscalationResetHosts) \<and>
    set hs \<subseteq> hosts_of cfg ip ring \<and> (\<not> trunc \<longrightarrow> set hs = hosts_of cfg ip ring)"
proof -
  obtain hs1 trunc1 where 1: "add_hosts (map rd_Host (filter (\<lambda>d. sameIP ip (rd_IP d)) (rg_list 0 ring))) [] = (hs1, trunc1)" by fastforce
  note s1 = add_hosts_spec [OF 1]
  show ?thesis
  proof (cases trunc1)
    case True
    then show ?thesis using s1 assms 1 by (auto simp: escalationHosts_def hosts_of_def image_Un)
  next
    case False
    then have 2: "add_hosts (sort (map fst (cf_resolved cfg))) hs1 = (hs, trunc)" using assms 1 by (simp add: escalationHosts_def)
    show ?thesis using s1 add_hosts_spec [OF 2] False by (auto simp: hosts_of_def image_Un image_image)
  qed
qed

section \<open>Clearing a counter\<close>

text \<open>No count of the key is left in the process: neither an entry nor the sketch holds one.\<close>

definition cleared :: "row_hash \<Rightarrow> nanos \<Rightarrow> string \<Rightarrow> counter_cache \<Rightarrow> bool" where
  "cleared h now key c \<longleftrightarrow> map_of (cc_m c) key = None \<and> overflowCountLocked h key now c \<le> 0"

lemma sketch_incr_le: "fst (sketch_incr h key t ttl i rows x) \<le> x"
proof (induction rows arbitrary: i x)
  case (Cons row rows)
  show ?case using order_trans [OF Cons.IH min.cobounded1] by (auto simp: Let_def split: prod.split) (metis fst_conv)
qed simp

lemma cell_lapsed_later: "cell_lapsed now cell \<Longrightarrow> now \<le> t \<Longrightarrow> cell_lapsed t cell"
  by (auto simp: cell_lapsed_def)

lemma cell_bump_small: "cell_lapsed t cell \<or> oc_n cell \<le> 0 \<Longrightarrow> oc_n (cell_bump t ttl cell) \<le> 1"
  by (auto simp: cell_bump_def Let_def)

lemma sketch_incr_small:
  "sketch_count h key now i rows x \<le> 0 \<Longrightarrow> 0 < x \<Longrightarrow> now \<le> t \<Longrightarrow> fst (sketch_incr h key t ttl i rows y) \<le> 1"
proof (induction rows arbitrary: i x y)
  case (Cons row rows)
  let ?cell = "row ! cell_index h i key"
  have eq: "fst (sketch_incr h key t ttl i (row # rows) y) = fst (sketch_incr h key t ttl (Suc i) rows (min y (oc_n (cell_bump t ttl ?cell))))"
    by (simp add: Let_def split: prod.split)
  show ?case
  proof (cases "cell_lapsed now ?cell \<or> oc_n ?cell \<le> 0")
    case True
    then have "oc_n (cell_bump t ttl ?cell) \<le> 1" using cell_bump_small cell_lapsed_later Cons.prems(3) by blast
    then show ?thesis unfolding eq using sketch_incr_le [of h key t ttl "Suc i" rows "min y (oc_n (cell_bump t ttl ?cell))"] by linarith
  next
    case False
    then show ?thesis unfolding eq using Cons.IH [of "Suc i" "min x (oc_n ?cell)"] Cons.prems by (auto simp: Let_def)
  qed
qed simp

lemma room_keeps_overflow: "makeCounterRoomLocked now c = (r, c') \<Longrightarrow> cc_overflow c' = cc_overflow c"
  by (auto simp: makeCounterRoomLocked_def Let_def split: if_splits)

lemma count_entry_fst: "fst (count_entry key e c) = wrap64 (ce_n e + 1)"
  by (auto simp: count_entry_def Let_def split: prod.splits)

lemma cleared_incr:
  assumes "cleared h now key c" "now \<le> t"
  shows "fst (cc_Incr h t key ttl c) \<le> 1"
proof -
  obtain r c1 where m: "makeCounterRoomLocked t c = (r, c1)" by fastforce
  have none: "map_of (cc_m c) key = None" using assms(1) by (simp add: cleared_def)
  show ?thesis
  proof (cases r)
    case True
    have "fst (cc_Incr h t key ttl c) = wrap64 (0 + 1)"
      using m none True by (simp add: cc_Incr_def Let_def count_entry_fst)
    then show ?thesis by (simp add: wrap64_def)
  next
    case False
    have "sketch_count h key now 0 (cc_overflow c1) maxInt64 \<le> 0"
      using assms(1) room_keeps_overflow [OF m] by (simp add: cleared_def overflowCountLocked_def)
    then have "fst (sketch_incr h key t x 0 (cc_overflow c1) maxInt64) \<le> 1" for x
      by (rule sketch_incr_small [OF _ _ assms(2)]) (simp add: maxInt64_def)
    then show ?thesis using m none False by (auto simp: cc_Incr_def Let_def incrOverflowLocked_def split: prod.splits) (metis fst_conv)+
  qed
qed

lemma cleared_bump: "cleared h now (escalationKey pre host ip) (pm_counters m) \<Longrightarrow> now \<le> t \<Longrightarrow> fst (bump h t pre host ip window m) = 0"
  using cleared_incr [of h now "escalationKey pre host ip" "pm_counters m" t window]
  by (auto simp: bump_def Let_def escalationFreeIssues_def split: prod.splits)

lemma forget_keeps_overflow: "cc_Forget key c = (b, c') \<Longrightarrow> cc_overflow c' = cc_overflow c"
  by (auto simp: cc_Forget_def markDirtyLocked_def queue_key_def Let_def split: option.splits if_splits)

lemma forget_sync_cleared:
  assumes "ForgetSync ops h now key (c, s) = (es, b, c', s')"
  shows "es = [] \<Longrightarrow> cleared h now key c'" and "cleared h now k c \<Longrightarrow> cleared h now k c'"
proof -
  obtain b1 c1 where f: "cc_Forget key c = (b1, c1)" by fastforce
  have c': "c' = c1" using assms f by (auto simp: ForgetSync_def Let_def split: prod.splits)
  have o: "overflowCountLocked h k now c1 = overflowCountLocked h k now c" for k
    using forget_keeps_overflow [OF f] by (simp add: overflowCountLocked_def)
  show "cleared h now k c \<Longrightarrow> cleared h now k c'"
    using forget_effect(1) [OF f, of k] o by (simp add: cleared_def c')
  show "cleared h now key c'" if "es = []"
  proof -
    have "overflowCountLocked h key now c1 \<le> 0"
      using assms f that by (auto simp: ForgetSync_def Let_def split: prod.splits if_splits)
    then show ?thesis using forget_effect(1) [OF f, of key] by (simp add: cleared_def c')
  qed
qed

lemma reset_prefixes_cleared:
  assumes "reset_prefixes ops h now host ip ps n es0 (c, s) = (n', es, c', s')"
  shows "(cleared h now k c \<longrightarrow> cleared h now k c') \<and> (es = [] \<longrightarrow> es0 = [] \<and> (\<forall>p \<in> set ps. cleared h now (escalationKey p host ip) c'))"
  using assms
proof (induction ps arbitrary: n es0 c s k)
  case (Cons p ps)
  obtain e1 b c1 s1 where f: "ForgetSync ops h now (escalationKey p host ip) (c, s) = (e1, b, c1, s1)" by (metis prod_cases4)
  obtain n0 where rest: "reset_prefixes ops h now host ip ps n0 (if e1 \<noteq> [] then es0 @ e1 else es0) (c1, s1) = (n', es, c', s')"
    using Cons.prems f by (auto split: if_splits)
  show ?case using Cons.IH [OF rest, of k] Cons.IH [OF rest, of "escalationKey p host ip"] forget_sync_cleared [OF f] by (auto split: if_splits)
qed simp

lemma ResetEscalation_cleared:
  assumes "ResetEscalation ops h now host ip (Some m, s) = (n, es, om, s')"
  shows "\<exists>m'. om = Some m' \<and> (\<forall>k. cleared h now k (pm_counters m) \<longrightarrow> cleared h now k (pm_counters m')) \<and>
    (es = [] \<longrightarrow> (\<forall>p \<in> {escalationPrefix, frameEscalationPrefix}. cleared h now (escalationKey p host ip) (pm_counters m')))"
proof -
  obtain n1 es1 c s1 where r: "reset_prefixes ops h now host ip [escalationPrefix, frameEscalationPrefix] 0 [] (pm_counters m, s) = (n1, es1, c, s1)"
    by (metis prod_cases4)
  have "es = es1" "om = Some (m\<lparr>pm_counters := c\<rparr>)" using assms r by (simp_all add: ResetEscalation_def del: reset_prefixes.simps)
  then show ?thesis using reset_prefixes_cleared [OF r] by auto
qed

lemma reset_hosts_cleared:
  assumes "reset_hosts ops h now ip hosts out (Some m, s) = (out', om, s')"
  shows "\<exists>m'. om = Some m' \<and> (\<forall>k. cleared h now k (pm_counters m) \<longrightarrow> cleared h now k (pm_counters m')) \<and>
    (\<not> ur_Incomplete out' \<longrightarrow> \<not> ur_Incomplete out \<and>
      (\<forall>host \<in> set hosts. \<forall>p \<in> {escalationPrefix, frameEscalationPrefix}. cleared h now (escalationKey p host ip) (pm_counters m')))"
  using assms
proof (induction hosts arbitrary: out m s)
  case (Cons host hosts)
  obtain n es om1 s1 where r: "ResetEscalation ops h now host ip (Some m, s) = (n, es, om1, s1)" by (metis prod_cases4)
  from ResetEscalation_cleared [OF r] obtain m1 where m1: "om1 = Some m1" "\<forall>k. cleared h now k (pm_counters m) \<longrightarrow> cleared h now k (pm_counters m1)"
      "es = [] \<longrightarrow> (\<forall>p \<in> {escalationPrefix, frameEscalationPrefix}. cleared h now (escalationKey p host ip) (pm_counters m1))" by blast
  from Cons.IH [of _ m1 s1] Cons.prems r m1 show ?case by fastforce
qed auto

text \<open>What the resets do to the store: some keys go, the others stay.\<close>

definition only_deletes :: "(nanos \<Rightarrow> view) \<Rightarrow> (nanos \<Rightarrow> view) \<Rightarrow> nanos \<Rightarrow> string set \<Rightarrow> bool" where
  "only_deletes v v' now gone \<longleftrightarrow> (\<forall>t \<ge> now. \<forall>k. v' t k = None \<or> k \<notin> gone \<and> v' t k = v t k)"

lemma only_deletes_trans: "only_deletes v v' now K \<Longrightarrow> only_deletes v' v'' now L \<Longrightarrow> only_deletes v v'' now (K \<union> L)"
  unfolding only_deletes_def by (metis Un_iff)

lemma only_deletes_gone: "only_deletes v v' now K \<Longrightarrow> k \<in> K \<Longrightarrow> now \<le> t \<Longrightarrow> v' t k = None"
  unfolding only_deletes_def by metis

lemma only_deletes_refl: "only_deletes v v now {}"
  by (simp add: only_deletes_def)

context ttl_store
begin

lemma forget_sync_deletes:
  assumes "ok s" "ForgetSync ops h now key (c, s) = (es, b, c', s')"
  shows "ok s' \<and> only_deletes (live s) (live s') now {key}"
proof -
  obtain r s1 where d: "st_Delete ops now key s = (r, s1)" by fastforce
  have "ok s1" "\<forall>t \<ge> now. live s1 t = (live s t)(key := None)"
    using del [OF assms(1), of now key] d by (simp_all add: refines_def spec_Delete_def)
  moreover have "s' = s1" using assms(2) d by (auto simp: ForgetSync_def Let_def split: prod.splits)
  ultimately show ?thesis by (auto simp: only_deletes_def)
qed

lemma reset_prefixes_deletes:
  "ok s \<Longrightarrow> reset_prefixes ops h now host ip ps n es0 (c, s) = (n', es, c', s') \<Longrightarrow>
     ok s' \<and> only_deletes (live s) (live s') now ((\<lambda>p. escalationKey p host ip) ` set ps)"
proof (induction ps arbitrary: n es0 c s)
  case (Cons p ps)
  obtain e1 b c1 s1 where f: "ForgetSync ops h now (escalationKey p host ip) (c, s) = (e1, b, c1, s1)" by (metis prod_cases4)
  obtain n0 es1 where rest: "reset_prefixes ops h now host ip ps n0 es1 (c1, s1) = (n', es, c', s')"
    using Cons.prems(2) f by (auto split: if_splits)
  note f1 = forget_sync_deletes [OF Cons.prems(1) f]
  show ?case using Cons.IH [OF conjunct1 [OF f1] rest] only_deletes_trans [OF conjunct2 [OF f1]] by fastforce
qed (simp add: only_deletes_refl)

lemma reset_hosts_deletes:
  "ok s \<Longrightarrow> reset_hosts ops h now ip hosts out (Some m, s) = (out', om, s') \<Longrightarrow>
     ok s' \<and> only_deletes (live s) (live s') now (\<Union>host \<in> set hosts. (\<lambda>p. escalationKey p host ip) ` {escalationPrefix, frameEscalationPrefix})"
proof (induction hosts arbitrary: out m s)
  case (Cons host hosts)
  let ?ps = "[escalationPrefix, frameEscalationPrefix]"
  obtain n es c s1 where r: "reset_prefixes ops h now host ip ?ps 0 [] (pm_counters m, s) = (n, es, c, s1)" by (metis prod_cases4)
  then obtain out1 where rest: "reset_hosts ops h now ip hosts out1 (Some (m\<lparr>pm_counters := c\<rparr>), s1) = (out', om, s')"
    using Cons.prems(2) by (auto simp: ResetEscalation_def simp del: reset_prefixes.simps)
  note r1 = reset_prefixes_deletes [OF Cons.prems(1) r]
  show ?case using Cons.IH [OF conjunct1 [OF r1] rest] only_deletes_trans [OF conjunct2 [OF r1]] by simp
qed (simp add: only_deletes_refl)

lemma event_reset_deletes:
  "ok s \<Longrightarrow> ResetEventCounters ops now ip generation ws s = (keys, failed, s') \<Longrightarrow> ok s' \<and> only_deletes (live s) (live s') now {}"
  unfolding ResetEventCounters_def by (drule (1) delete_keys_live) (auto simp: only_deletes_def)

end

section \<open>The steps of an unblock\<close>

lemma escalation_keys_plain [simp]:
  "p = escalationPrefix \<or> p = frameEscalationPrefix \<Longrightarrow>
     escalationKey p host ip \<notin> {unblockHoldKey x, unblockGenKey x, BlockKey x, blockCountKey x}"
  by (auto simp: escalationKey_def Let_def escalationPrefix_def frameEscalationPrefix_def unblockHoldKey_def unblockGenKey_def
      BlockKey_canon blockKeyPrefix_def blockCountKey_def)

context ttl_store
begin

lemma hold_ok:
  assumes "ok s" "HoldUnblock ops hold now ip g s = (r, s')"
  shows "ok s'"
proof -
  have set_ok: "ok (snd (st_Set ops now k x ttl u))" if "ok u" for k x ttl u
    using set_value [OF that, of now k x ttl] by (simp add: refines_def)
  obtain q s1 where q: "st_Set ops now (unblockHoldKey (canonIP ip)) ''1'' hold s = (q, s1)" by fastforce
  then have "ok s1" using set_ok [OF assms(1), of "unblockHoldKey (canonIP ip)" "''1''" hold] by simp
  then show ?thesis using assms q set_ok [of s1 "unblockGenKey (canonIP ip)" g unblockGenRetention]
    by (auto simp: HoldUnblock_def split: if_splits sum.splits)
qed

lemma reset_counters_deletes:
  assumes "ok (pl_store st)" "resetBlockCounters ops h now snap ring ip g ev out st = (out', st')"
  shows "ok (pl_store st') \<and> only_deletes (live (pl_store st)) (live (pl_store st')) now {} \<and> pl_enforcer st' = pl_enforcer st"
proof (cases snap)
  case None
  then show ?thesis using assms by (auto simp: resetBlockCounters_def only_deletes_refl)
next
  case (Some cfg)
  define rs where "rs = (if ev then (case ResetEventCounters ops now ip g (BehaviourWindows cfg) (pl_store st) of
      (keys, failed, s') \<Rightarrow> (out\<lparr>ur_EventKeys := keys\<rparr>, s')) else (out, pl_store st))"
  obtain out1 s1 where s1: "rs = (out1, s1)" by fastforce
  have 1: "ok s1" "only_deletes (live (pl_store st)) (live s1) now {}"
    using event_reset_deletes [OF assms(1)] s1 assms(1) by (auto simp: rs_def only_deletes_refl split: if_splits prod.splits)
  show ?thesis
  proof (cases "pl_pow st")
    case None
    then show ?thesis using assms(2) Some s1 1 by (auto simp: resetBlockCounters_def rs_def [symmetric])
  next
    case pm: (Some m)
    obtain hosts trunc where hs: "escalationHosts cfg ip ring = (hosts, trunc)" by fastforce
    obtain out2 om s2 where r: "reset_hosts ops h now ip hosts out1 (Some m, s1) = (out2, om, s2)" by (metis prod_cases3)
    note d = reset_hosts_deletes [OF 1(1) r]
    have "only_deletes (live (pl_store st)) (live s2) now {}"
      using only_deletes_trans [OF 1(2) conjunct2 [OF d]] by (auto simp: only_deletes_def)
    moreover have "st' = st\<lparr>pl_store := s2, pl_pow := om\<rparr>"
      using assms(2) Some s1 pm hs r by (auto simp: resetBlockCounters_def rs_def [symmetric])
    ultimately show ?thesis using d by simp
  qed
qed

lemma reset_counters_cleared:
  assumes "ok (pl_store st)" "resetBlockCounters ops h now (Some cfg) ring ip g ev out st = (out', st')"
    and "\<not> ur_Incomplete out'" "pl_pow st = Some m"
  shows "\<exists>m'. pl_pow st' = Some m' \<and> (\<forall>host \<in> hosts_of cfg ip ring. \<forall>p \<in> {escalationPrefix, frameEscalationPrefix}.
      cleared h now (escalationKey p host ip) (pm_counters m') \<and> (\<forall>t \<ge> now. live (pl_store st') t (escalationKey p host ip) = None))"
proof -
  define rs where "rs = (if ev then (case ResetEventCounters ops now ip g (BehaviourWindows cfg) (pl_store st) of
      (keys, failed, s') \<Rightarrow> (out\<lparr>ur_EventKeys := keys\<rparr>, s')) else (out, pl_store st))"
  obtain out1 s1 where s1: "rs = (out1, s1)" by fastforce
  have ok1: "ok s1" using event_reset_deletes [OF assms(1)] s1 assms(1) by (auto simp: rs_def split: if_splits prod.splits)
  obtain hosts trunc where hs: "escalationHosts cfg ip ring = (hosts, trunc)" by fastforce
  obtain out2 om s2 where r: "reset_hosts ops h now ip hosts out1 (Some m, s1) = (out2, om, s2)" by (metis prod_cases3)
  have e: "out' = (if trunc then out2\<lparr>ur_Incomplete := True\<rparr> else out2)" "st' = st\<lparr>pl_store := s2, pl_pow := om\<rparr>"
    using assms(2,4) s1 hs r by (auto simp: resetBlockCounters_def rs_def [symmetric])
  then have "\<not> trunc" "\<not> ur_Incomplete out2" using assms(3) by (auto split: if_splits)
  moreover from this have "set hosts = hosts_of cfg ip ring" using escalationHosts_spec [OF hs] by simp
  moreover have "live s2 t (escalationKey p host ip) = None"
    if "host \<in> set hosts" "p \<in> {escalationPrefix, frameEscalationPrefix}" "now \<le> t" for host p t
    by (rule only_deletes_gone [OF conjunct2 [OF reset_hosts_deletes [OF ok1 r]] _ that(3)]) (use that in blast)
  ultimately show ?thesis using reset_hosts_cleared [OF r] e(2) by auto
qed

lemma unblock_steps:
  assumes "ok (pl_store st)" "0 < hold" "UnblockIP ops h hold now now' snap ring ip0 reset g0 g st = (r, out, st1)"
  obtains gen0 s2 out2 st2 where "ok s2" "r = Inr ()" "out = (if reset then out2\<lparr>ur_BackoffReset := True\<rparr> else out2)"
    "resetBlockCounters ops h now snap ring (canonIP ip0) gen0 True no_reset (st\<lparr>pl_store := s2\<rparr>) = (out2, st2)"
    "pl_pow st1 = pl_pow st2" "pl_enforcer st1 = notifyEnforcer now' (canonIP ip0) [] 0 True (pl_enforcer st)" "ok (pl_store st1)"
    "\<forall>t \<ge> now'. live (pl_store st1) t = apply_effects t (snd (spec_CommitUnblock now' (unblock_request hold (canonIP ip0) g reset))) (live (pl_store st2) t)"
proof -
  let ?ip = "canonIP ip0"
  obtain tk s1 where t: "unblockToken ops hold now ?ip (pl_store st) = (tk, s1)" by fastforce
  note tk = token_eq [OF assms(1,2) t]
  obtain hr s2 where hd: "HoldUnblock ops hold now ?ip g0 s1 = (hr, s2)" by fastforce
  have ok2: "ok s2" by (rule hold_ok [OF tk(2) hd])
  define gen0 where "gen0 = gen_of (live (pl_store st) now) ?ip"
  obtain out2 st2 where rb: "resetBlockCounters ops h now snap ring ?ip gen0 True no_reset (st\<lparr>pl_store := s2\<rparr>) = (out2, st2)" by fastforce
  have ok3: "ok (pl_store st2)" "pl_enforcer st2 = pl_enforcer st"
    using reset_counters_deletes [OF _ rb] ok2 by simp_all
  obtain q s3 where c: "st_CommitUnblock ops now' (unblock_request hold ?ip g reset) (pl_store st2) = (q, s3)" by fastforce
  have ref: "refines live ok now' (pl_store st2) (q, s3) (spec_CommitUnblock now' (unblock_request hold ?ip g reset))"
    using commit_unblock [OF ok3(1) unblock_request_wf, of now'] c by metis
  then have "q = Inr ()" by (simp add: refines_def spec_CommitUnblock_def unblock_request_def)
  then have "sb_CommitUnblock ops hold now' ?ip reset g (pl_enforcer st2, pl_store st2) = (Inr (), notifyEnforcer now' ?ip [] 0 True (pl_enforcer st), s3)"
    using assms(2) c ok3(2) by (simp add: sb_CommitUnblock_def)
  then have "r = Inr ()" "out = (if reset then out2\<lparr>ur_BackoffReset := True\<rparr> else out2)"
      "st1 = st2\<lparr>pl_enforcer := notifyEnforcer now' ?ip [] 0 True (pl_enforcer st), pl_store := s3\<rparr>"
    using assms(3) rb by (simp_all add: UnblockIP_def Let_def t tk(1) hd gen0_def [symmetric])
  then show thesis using that [OF ok2 _ _ rb] ref by (simp add: refines_def)
qed

end

section \<open>An unblocked address\<close>

lemma other_stage_reason:
  assumes "s \<in> set (pre_block_stages @ honeypotStage # wafRulesStage # late_stages)" "s env req st = (Inr (Some d), st')"
  shows "reasonCategory (dc_Reason d) \<noteq> ''behaviour_block''"
proof -
  consider (pre) "s \<in> set pre_block_stages" | (trap) "s = honeypotStage" | (waf) "s = wafRulesStage" | (late) "s \<in> set late_stages"
    using assms(1) by auto
  then show ?thesis
  proof cases
    case pre
    then show ?thesis using assms(2)
      by (auto simp: pre_block_stages_def allowlistStage_def headerPoWExemptionStage_def denylistStage_def verifiedBotStage_def intelDenyStage_def
          CheckDenylist_def Let_def split: option.splits prod.splits if_splits sum.splits)
  next
    case trap
    then show ?thesis using assms(2) by (auto simp: honeypotStage_def CheckHoneypot_def split: option.splits if_splits)
  next
    case waf
    then show ?thesis using assms(2)
      by (auto simp: wafRulesStage_def decisionPoWToken_def Let_def split: option.splits prod.splits if_splits waf_action.splits bool.splits)
  next
    case late
    then show ?thesis using assms(2)
      by (auto simp: late_stages_def powTokenStage_def intelChallengeStage_def anomalyStage_def powChallengeStage_def decisionPoWToken_def Let_def
          split: option.splits prod.splits if_splits bool.splits)
  qed
qed

lemma run_other_reason:
  "set ss \<subseteq> set (pre_block_stages @ honeypotStage # wafRulesStage # late_stages) \<Longrightarrow> run_stages ss env req st = (Some d, st') \<Longrightarrow>
     reasonCategory (dc_Reason d) \<noteq> ''behaviour_block''"
proof (induction ss arbitrary: st)
  case (Cons s ss)
  then show ?case using other_stage_reason [of s env req st d st'] by (auto split: prod.splits sum.splits option.splits)
qed simp

lemma unblocked_run:
  assumes "\<And>s. pl_store s = pl_store st \<Longrightarrow> pl_enforcer s = pl_enforcer st \<Longrightarrow> \<exists>st'. behaviourBlockStage env req s = (Inr None, st')"
    and "run_stages stages env req st = (Some d, st')"
  shows "reasonCategory (dc_Reason d) \<noteq> ''behaviour_block''"
proof -
  obtain r s where r: "run_stages pre_block_stages env req st = (r, s)" by fastforce
  obtain s1 where b: "behaviourBlockStage env req s = (Inr None, s1)" using assms(1) run_pre_block_keeps [OF subset_refl r] by blast
  have split: "stages = pre_block_stages @ behaviourBlockStage # honeypotStage # wafRulesStage # late_stages"
    by (simp add: stages_split early_split)
  show ?thesis
  proof (cases r)
    case None
    then have "run_stages (honeypotStage # wafRulesStage # late_stages) env req s1 = (Some d, st')"
      using assms(2) r b by (simp add: split run_stages_append del: run_stages.simps(2)) (simp add: b)
    then show ?thesis by (rule run_other_reason [rotated]) auto
  next
    case (Some d')
    then have "d' = d" using assms(2) r by (simp add: split run_stages_append del: run_stages.simps)
    then show ?thesis using run_other_reason [of pre_block_stages env req st d s] r Some by auto
  qed
qed

lemma evaluate_not_blocked:
  fixes env :: "('s, 'k, 'x) stage_env" and st :: "('s, 'k) pipe_state"
  assumes "\<And>(e :: ('s, 'k, 'x) stage_env) u. se_ops e = se_ops env \<Longrightarrow> se_now e = se_now env \<Longrightarrow> pl_store u = pl_store st \<Longrightarrow> pl_enforcer u = pl_enforcer st \<Longrightarrow>
      \<exists>st'. behaviourBlockStage e req u = (Inr None, st')"
  shows "reasonCategory (dc_Reason (fst (eng_Evaluate snap env req st))) \<noteq> ''behaviour_block''"
proof (cases snap)
  case (Some cfg)
  define e1 where "e1 = fresh_memo (st\<lparr>pl_attack := map_option am_Evaluated (pl_attack st)\<rparr>)"
  define e where "e = request_env cfg env req e1"
  have k: "se_ops e = se_ops env" "se_now e = se_now env" "pl_store e1 = pl_store st" "pl_enforcer e1 = pl_enforcer st"
    by (simp_all add: e_def request_env_def e1_def fresh_memo_def)
  obtain x st2 where x: "run_stages stages e req e1 = (x, st2)" by fastforce
  have "reasonCategory (dc_Reason d) \<noteq> ''behaviour_block''" if "x = Some d" for d
  proof (rule unblocked_run)
    show "run_stages stages e req e1 = (Some d, st2)" using x that by simp
  qed (use assms k in simp)
  then show ?thesis using Some x
    by (auto simp: eng_Evaluate_def Let_def e1_def [symmetric] e_def [symmetric] withhold_def reasonUnchallengeable_def split: option.split)
qed (simp add: eng_Evaluate_def)

lemma removed_lookup:
  assumes "\<forall>m. om = Some m \<longrightarrow> mirror_ok (mg_mir m)" "ParseAddr ip0 = Some a" "ParseAddr ip' = Some b" "Unmap b = Unmap a"
  shows "mg_Lookup t ip' (notifyEnforcer now (canonIP ip0) reason ttl True om) = None"
proof (cases om)
  case (Some m)
  let ?ev = "\<lparr>ev_IP = Some (Unmap a), ev_Reason = reason, ev_TTL = ttl, ev_Remove = True\<rparr>"
  have p: "ParseAddr (canonIP ip0) = Some (Unmap a)" using assms(2) ParseAddr_String ParseAddr_ok by (simp add: canonIP_def)
  have "notifyLocked now (Unmap a) ?ev m = notifyLocked now b ?ev m" using assms(4) by (simp add: notifyLocked_def)
  then show ?thesis using notify_remove_lookup [of m ip' b ?ev t now] assms Some by (simp add: notifyEnforcer_def mg_Notify_def p)
qed (simp add: notifyEnforcer_def mg_Notify_def mg_Lookup_def split: option.split)

text \<open>
  C10 (safety). An operator's unblock gives the address back at once: it always succeeds on the in-memory store, whatever was counted
  before and whether or not the engine is closing; from its commit on no spelling of the address is reported as
  blocked, no request from it is decided by the block stage, from the mirror or from the store, and
  when the operator asked for it the repeat-offender count is gone as well.
\<close>

theorem unblocked_address_is_served:
  assumes "UnblockIP sm_ops h hold now now' snap ring ip0 reset g0 g st = (r, out, st1)" "sm_ok (pl_store st)" "0 < hold"
    and "\<forall>m. pl_enforcer st = Some m \<longrightarrow> mirror_ok (mg_mir m)"
    and "ParseAddr ip0 = Some a" "ParseAddr (ctx_RemoteAddr req) = Some b" "Unmap b = Unmap a"
    and "se_ops env = sm_ops" "now' \<le> se_now env"
  shows "r = Inr () \<and> fst (BlockStatus sm_ops (se_now env) (ctx_RemoteAddr req) (pl_store st1)) = Inr ('''', False) \<and>
    reasonCategory (dc_Reason (fst (eng_Evaluate cfg env req st1))) \<noteq> ''behaviour_block'' \<and>
    (reset \<longrightarrow> ur_BackoffReset out \<and> sm_live (pl_store st1) (se_now env) (blockCountKey (canonIP ip0)) = None)"
proof -
  obtain gen0 s2 out2 st2 where u: "sm_ok s2" "r = Inr ()" "out = (if reset then out2\<lparr>ur_BackoffReset := True\<rparr> else out2)"
      "resetBlockCounters sm_ops h now snap ring (canonIP ip0) gen0 True no_reset (st\<lparr>pl_store := s2\<rparr>) = (out2, st2)"
      "pl_pow st1 = pl_pow st2" "pl_enforcer st1 = notifyEnforcer now' (canonIP ip0) [] 0 True (pl_enforcer st)" "sm_ok (pl_store st1)"
      "\<forall>t \<ge> now'. sm_live (pl_store st1) t = apply_effects t (snd (spec_CommitUnblock now' (unblock_request hold (canonIP ip0) g reset))) (sm_live (pl_store st2) t)"
    by (rule mem.unblock_steps [OF assms(2,3,1)])
  have gone: "sm_live (pl_store st1) (se_now env) (BlockKey (ctx_RemoteAddr req)) = None"
      "reset \<Longrightarrow> sm_live (pl_store st1) (se_now env) (blockCountKey (canonIP ip0)) = None"
    using u(8) assms(9) unfolding BlockKey_same [OF assms(5-7)]
    by (simp_all add: spec_CommitUnblock_def unblock_request_def)
  have get: "\<exists>s2. st_Get sm_ops (se_now env) (BlockKey (ctx_RemoteAddr req)) (pl_store st1) = (Inr None, s2)"
    using mem.get_eq(1) [OF u(7) prod.collapse [symmetric], of "se_now env" "BlockKey (ctx_RemoteAddr req)"] gone(1) by (metis option.map(1) prod.collapse)
  have look: "mg_Lookup t (ctx_RemoteAddr req) (pl_enforcer st1) = None" for t
    unfolding u(6) by (rule removed_lookup [OF assms(4-7)])
  have "reasonCategory (dc_Reason (fst (eng_Evaluate cfg env req st1))) \<noteq> ''behaviour_block''"
    by (rule evaluate_not_blocked) (use get look assms(8) in \<open>auto simp: behaviourBlockStage_def split: option.splits\<close>)
  moreover have "fst (BlockStatus sm_ops (se_now env) (ctx_RemoteAddr req) (pl_store st1)) = Inr ('''', False)"
    using get by (auto simp: BlockStatus_def BlockReason_def before_byte_def)
  ultimately show ?thesis using u(2,3) gone(2) by simp
qed

lemma unblock_hosts_whole:
  assumes "resetBlockCounters ops h now (Some cfg) ring ip g ev out st = (out', st')" "\<not> ur_Incomplete out'" "pl_pow st = Some m"
  shows "finite (hosts_of cfg ip ring) \<and> card (hosts_of cfg ip ring) \<le> maxEscalationResetHosts"
proof -
  obtain hosts trunc where hs: "escalationHosts cfg ip ring = (hosts, trunc)" by fastforce
  have "\<not> trunc" using assms hs by (auto simp: resetBlockCounters_def Let_def split: prod.splits if_splits)
  then have "set hosts = hosts_of cfg ip ring" "distinct hosts" "length hosts \<le> maxEscalationResetHosts" using escalationHosts_spec [OF hs] by simp_all
  then show ?thesis by (metis List.finite_set distinct_card)
qed

text \<open>
  C11 (functional). An unblock that does not report itself incomplete has also lifted the raised difficulty: for every host the recent
  decisions show the address at and every configured host, at most a hundred and twenty-eight, the shared counters are
  gone and the next challenge issued to the address, framed or not, carries no extra bits. If there are more hosts than that, or
  the engine is closing, the result does say incomplete.
\<close>

theorem unblock_lifts_escalation:
  assumes "UnblockIP sm_ops h hold now now' snap ring ip0 reset g0 g st = (r, out, st1)" "sm_ok (pl_store st)" "0 < hold"
    and "pl_pow st = Some m" "now \<le> t" "now' \<le> t" "\<not> ur_Incomplete out"
  shows "\<exists>cfg m'. snap = Some cfg \<and> pl_pow st1 = Some m' \<and> finite (hosts_of cfg (canonIP ip0) ring) \<and>
    card (hosts_of cfg (canonIP ip0) ring) \<le> maxEscalationResetHosts \<and>
    (\<forall>host \<in> hosts_of cfg (canonIP ip0) ring.
       fst (BumpEscalation h t host (canonIP ip0) window m') = 0 \<and> fst (BumpFrameEscalation h t host (canonIP ip0) window m') = 0 \<and>
       sm_live (pl_store st1) t (escalationKey escalationPrefix host (canonIP ip0)) = None \<and>
       sm_live (pl_store st1) t (escalationKey frameEscalationPrefix host (canonIP ip0)) = None)"
proof -
  let ?ip = "canonIP ip0"
  obtain gen0 s2 out2 st2 where u: "sm_ok s2" "r = Inr ()" "out = (if reset then out2\<lparr>ur_BackoffReset := True\<rparr> else out2)"
      "resetBlockCounters sm_ops h now snap ring (canonIP ip0) gen0 True no_reset (st\<lparr>pl_store := s2\<rparr>) = (out2, st2)"
      "pl_pow st1 = pl_pow st2" "pl_enforcer st1 = notifyEnforcer now' (canonIP ip0) [] 0 True (pl_enforcer st)" "sm_ok (pl_store st1)"
      "\<forall>t \<ge> now'. sm_live (pl_store st1) t = apply_effects t (snd (spec_CommitUnblock now' (unblock_request hold (canonIP ip0) g reset))) (sm_live (pl_store st2) t)"
    by (rule mem.unblock_steps [OF assms(2,3,1)])
  have inc: "\<not> ur_Incomplete out2" using assms(7) u(3) by (auto split: if_splits)
  then obtain cfg where cfg: "snap = Some cfg" using u(4) by (cases snap) (auto simp: resetBlockCounters_def)
  obtain m' where m': "pl_pow st2 = Some m'" "\<forall>host \<in> hosts_of cfg ?ip ring. \<forall>p \<in> {escalationPrefix, frameEscalationPrefix}.
      cleared h now (escalationKey p host ?ip) (pm_counters m') \<and> sm_live (pl_store st2) t (escalationKey p host ?ip) = None"
    using mem.reset_counters_cleared [OF _ u(4) [unfolded cfg] inc, of m] u(1) assms(4,5) by auto
  have "sm_live (pl_store st1) t (escalationKey p host ?ip) = sm_live (pl_store st2) t (escalationKey p host ?ip)"
    if "p \<in> {escalationPrefix, frameEscalationPrefix}" for p host
  proof -
    have "escalationKey p host ?ip \<notin> {unblockHoldKey ?ip, unblockGenKey ?ip, BlockKey ?ip, blockCountKey ?ip}" using that by (intro escalation_keys_plain) auto
    then have "escalationKey p host ?ip \<notin> effect_key ` set (snd (spec_CommitUnblock now' (unblock_request hold ?ip g reset)))"
      by (auto simp: spec_CommitUnblock_def unblock_request_def)
    then show ?thesis using u(8) assms(6) by (simp add: apply_effects_other)
  qed
  moreover have "fst (bump h t p host ?ip window m') = 0" if "host \<in> hosts_of cfg ?ip ring" "p \<in> {escalationPrefix, frameEscalationPrefix}" for host p
    using cleared_bump m'(2) that assms(5) by blast
  ultimately show ?thesis using cfg m' u(5) unblock_hosts_whole [OF u(4) [unfolded cfg] inc, of m] assms(4)
    by (simp add: BumpEscalation_def BumpFrameEscalation_def)
qed

section \<open>Queries\<close>

lemma le_append: "(x :: string) \<le> x @ t"
  by (induction x) simp_all

lemma exact_key_first:
  assumes "sm_ok s" "sm_live s now key = Some e"
  shows "\<exists>rest. sort_key kv_Key (scan_all now key s) = entry_kv (key, e) # rest"
proof -
  let ?out = "sort_key kv_Key (scan_all now key s)"
  have mem: "entry_kv (key, e) \<in> set ?out" using set_scan_all [OF assms(1)] assms(2) by (auto simp: live_kvs_def hasPrefix_def)
  have pre: "\<exists>t. kv_Key x = key @ t" if "x \<in> set ?out" for x
    using that set_scan_all [OF assms(1), of now key] by (auto simp: live_kvs_def hasPrefix_def prefix_def)
  have dis: "distinct (map kv_Key ?out)" using distinct_scan_all [OF assms(1), of now key] by (simp add: distinct_map)
  obtain x rest where x: "?out = x # rest" using mem by (cases ?out) auto
  have "kv_Key x \<le> key" using mem sorted_sort_key [of kv_Key "scan_all now key s"] by (auto simp: x)
  moreover have "key \<le> kv_Key x" using pre [of x] by (auto simp: x le_append)
  ultimately have "kv_Key x = kv_Key (entry_kv (key, e))" by simp
  then have "x = entry_kv (key, e)" using mem dis unfolding x by (auto simp: image_iff)
  then show ?thesis using x by simp
qed

lemma block_expiry_exact:
  assumes "sm_ok s" "sm_live s now (BlockKey ip) = Some e" "canonIP ip \<noteq> ''''"
  shows "blockExpiry sm_scans now ip s = (e_expiresAt e, s)"
proof -
  let ?key = "BlockKey ip"
  obtain rest where out: "sort_key kv_Key (scan_all now ?key s) = entry_kv (?key, e) # rest" using exact_key_first [OF assms(1,2)] by blast
  define tl where "tl = (if 63 < length rest then take 63 rest else rest)"
  have l: "sm_ScanLimit now ?key blockExpiryScanLimit s = (entry_kv (?key, e) # tl, \<not> 63 < length rest)" "set tl \<subseteq> set rest"
    using out set_take_subset [of 63 rest] by (auto simp: sm_ScanLimit_scan_all Let_def blockExpiryScanLimit_def tl_def take_Cons')
  have "distinct (map kv_Key (entry_kv (?key, e) # rest))" unfolding out [symmetric]
    using distinct_scan_all [OF assms(1), of now ?key] by (simp add: distinct_map)
  then have "find (\<lambda>kv. kv_Key kv = ?key \<and> kv_ExpiresAt kv \<noteq> None) tl = None" using l(2) unfolding find_None_iff by (auto simp: image_iff) (metis subsetD)
  moreover have "?key \<noteq> ''block:''" using assms(3) by (simp add: BlockKey_canon blockKeyPrefix_def)
  ultimately show ?thesis using l(1)
    by (cases "e_expiresAt e") (auto simp: blockExpiry_def Let_def scanBlocks_def sm_scans_def sm_ScanActiveBlocks_def entry_kv_def)
qed

lemma block_detail_exact:
  assumes "sm_ok s" "canonIP ip \<noteq> ''''"
  shows "\<exists>d. fst (BlockDetailFor sm_ops sm_scans now ip s) = Inr d \<and> bd_IP d = canonIP ip \<and>
    bd_Blocked d = (sm_live s now (BlockKey ip) \<noteq> None) \<and>
    (\<forall>e. sm_live s now (BlockKey ip) = Some e \<longrightarrow> bd_Reason d = BlockReason (e_value e) \<and> bd_ExpiresAt d = e_expiresAt e) \<and>
    bd_Offenses d = Option.bind (sm_live s now (blockCountKey (canonIP ip))) (\<lambda>e. parse_int64 (e_value e))"
proof -
  obtain r s1 where g: "st_Get sm_ops now (BlockKey ip) s = (r, s1)" by fastforce
  note g1 = mem.get_eq [OF assms(1) g]
  have l1: "sm_live s1 now = sm_live s now" using g1(3) by (simp add: same_live_def)
  obtain q s3 where o: "st_Get sm_ops now (blockCountKey (canonIP ip)) s1 = (q, s3)" by fastforce
  note o1 = mem.get_eq(1) [OF g1(2) o]
  have x: "blockExpiry sm_scans now ip s1 = (e_expiresAt e, s1)" if "sm_live s now (BlockKey ip) = Some e" for e
    using block_expiry_exact [OF g1(2) _ assms(2)] that l1 by simp
  show ?thesis
  proof (cases "sm_live s now (BlockKey ip)")
    case None
    then show ?thesis using g g1(1) o o1 l1 by (auto simp: BlockDetailFor_def BlockStatus_def split: option.splits)
  next
    case (Some e)
    then show ?thesis using g g1(1) o o1 l1 x [OF Some] by (auto simp: BlockDetailFor_def BlockStatus_def split: option.splits)
  qed
qed

lemma block_list_exact:
  assumes "NewShardedMemory n = Some s0" "n \<le> 2 ^ 32" "list_all (\<lambda>(_, c). call_wf c \<and> \<not> increments_block c) cs"
    and "s = snd (exec_trace sm_ops janitor_sweep cs s0)"
  shows "\<exists>kvs. fst (ListBlocks sm_scans now s) = Inr (map block_row kvs) \<and> set kvs = live_kvs now ''block:'' s \<and>
    sorted (map kv_Key kvs) \<and> distinct (map kv_Key kvs)"
proof -
  have p: "blockKeyPrefix = ''block:''" by (simp add: blockKeyPrefix_def)
  have a: "fst (sm_ScanActiveBlocks now ''block:'' 0 s) = Inr (sm_Scan now ''block:'' s, True) \<and>
      set (sm_Scan now ''block:'' s) = live_kvs now ''block:'' s \<and>
      sorted (map kv_Key (sm_Scan now ''block:'' s)) \<and> distinct (map kv_Key (sm_Scan now ''block:'' s))"
    by (rule active_block_scan_exact [OF assms])
  then obtain s' where "sm_ScanActiveBlocks now ''block:'' 0 s = (Inr (sm_Scan now ''block:'' s, True), s')" by (metis prod.collapse)
  then have "fst (ListBlocks sm_scans now s) = Inr (map block_row (sm_Scan now ''block:'' s))"
    by (simp add: ListBlocks_def ListBlocksLimit_def scanBlocks_def sm_scans_def p)
  with a show ?thesis by blast
qed

lemma block_rows:
  assumes "x \<in> live_kvs now ''block:'' s"
  shows "kv_Key x = blockKeyPrefix @ be_IP (block_row x)"
    "\<exists>e. sm_live s now (blockKeyPrefix @ be_IP (block_row x)) = Some e \<and> be_Reason (block_row x) = BlockReason (e_value e) \<and>
       be_ExpiresAt (block_row x) = e_expiresAt e"
proof -
  obtain k e where x: "x = entry_kv (k, e)" "hasPrefix k ''block:''" "sm_live s now k = Some e" using assms by (auto simp: live_kvs_def)
  then obtain i where "k = ''block:'' @ i" by (auto simp: hasPrefix_def prefix_def)
  then show "kv_Key x = blockKeyPrefix @ be_IP (block_row x)"
      "\<exists>e. sm_live s now (blockKeyPrefix @ be_IP (block_row x)) = Some e \<and> be_Reason (block_row x) = BlockReason (e_value e) \<and>
         be_ExpiresAt (block_row x) = e_expiresAt e"
    using x by (simp_all add: block_row_def entry_kv_def blockKeyPrefix_def)
qed

text \<open>
  C25 (equivalence). The two views an operator has of the blocks agree: after any history that makes no increment of a block key, the
  listing has exactly one row for every active block, and looking up one address, in any spelling, reports it as blocked exactly
  when the listing has a row for it, with the reason and the expiry of that row and never those of another address
  whose text merely starts the same.
\<close>

theorem block_views_agree:
  assumes "NewShardedMemory n = Some s0" "n \<le> 2 ^ 32" "list_all (\<lambda>(_, c). call_wf c \<and> \<not> increments_block c) cs"
    and "s = snd (exec_trace sm_ops janitor_sweep cs s0)" "canonIP ip \<noteq> ''''"
  shows "\<exists>bs d. fst (ListBlocks sm_scans now s) = Inr bs \<and> fst (BlockDetailFor sm_ops sm_scans now ip s) = Inr d \<and>
    be_IP ` set bs = {i. sm_live s now (blockKeyPrefix @ i) \<noteq> None} \<and> distinct (map be_IP bs) \<and>
    bd_IP d = canonIP ip \<and> (bd_Blocked d \<longleftrightarrow> (\<exists>b \<in> set bs. be_IP b = canonIP ip)) \<and>
    (\<forall>b \<in> set bs. be_IP b = canonIP ip \<longrightarrow> bd_Reason d = be_Reason b \<and> bd_ExpiresAt d = be_ExpiresAt b)"
proof -
  have ok: "sm_ok s" using index_complete_trace [OF _ _ assms(3)] NewShardedMemory_ok [OF assms(2,1)] assms(4) by auto
  obtain kvs where l: "fst (ListBlocks sm_scans now s) = Inr (map block_row kvs)" "set kvs = live_kvs now ''block:'' s" "distinct (map kv_Key kvs)"
    using block_list_exact [OF assms(1-4)] by blast
  obtain d where d: "fst (BlockDetailFor sm_ops sm_scans now ip s) = Inr d" "bd_IP d = canonIP ip" "bd_Blocked d = (sm_live s now (BlockKey ip) \<noteq> None)"
      "\<And>e. sm_live s now (BlockKey ip) = Some e \<Longrightarrow> bd_Reason d = BlockReason (e_value e) \<and> bd_ExpiresAt d = e_expiresAt e"
    using block_detail_exact [OF ok assms(5), of now] by blast
  have keys: "map kv_Key kvs = map (\<lambda>b. blockKeyPrefix @ be_IP b) (map block_row kvs)" using block_rows(1) l(2) by auto
  have dis: "distinct (map be_IP (map block_row kvs))"
    using l(3) unfolding keys by (auto simp: distinct_map inj_on_def)
  have ips: "be_IP ` set (map block_row kvs) = {i. sm_live s now (blockKeyPrefix @ i) \<noteq> None}"
  proof (intro equalityI subsetI)
    fix i assume "i \<in> be_IP ` set (map block_row kvs)"
    then show "i \<in> {i. sm_live s now (blockKeyPrefix @ i) \<noteq> None}" using block_rows(2) l(2) by fastforce
  next
    fix i assume "i \<in> {i. sm_live s now (blockKeyPrefix @ i) \<noteq> None}"
    then obtain e where "sm_live s now (blockKeyPrefix @ i) = Some e" by auto
    moreover have "hasPrefix (blockKeyPrefix @ i) ''block:''" by (simp add: hasPrefix_def blockKeyPrefix_def)
    ultimately have "entry_kv (blockKeyPrefix @ i, e) \<in> set kvs" unfolding l(2) live_kvs_def by blast
    moreover have "be_IP (block_row (entry_kv (blockKeyPrefix @ i, e))) = i" by (simp add: block_row_def)
    ultimately show "i \<in> be_IP ` set (map block_row kvs)" by force
  qed
  have "bd_Reason d = be_Reason b \<and> bd_ExpiresAt d = be_ExpiresAt b" if b: "b \<in> set (map block_row kvs)" "be_IP b = canonIP ip" for b
  proof -
    obtain x where "x \<in> live_kvs now ''block:'' s" "b = block_row x" using b(1) unfolding set_map l(2) by blast
    then obtain e where "sm_live s now (BlockKey ip) = Some e" "be_Reason b = BlockReason (e_value e)" "be_ExpiresAt b = e_expiresAt e"
      using block_rows(2) b(2) by (metis BlockKey_canon)
    then show ?thesis using d(4) by simp
  qed
  moreover have "bd_Blocked d \<longleftrightarrow> canonIP ip \<in> be_IP ` set (map block_row kvs)" unfolding ips by (simp add: d(3) BlockKey_canon)
  then have "bd_Blocked d \<longleftrightarrow> (\<exists>b \<in> set (map block_row kvs). be_IP b = canonIP ip)" by (metis image_iff)
  ultimately show ?thesis using l(1) d(1,2) ips dis by (intro exI [of _ "map block_row kvs"] exI [of _ d] conjI ballI impI) blast+
qed

section \<open>Examples\<close>

lemma overflow_new: "cc_overflow c = cc_overflow NewCounterCache \<Longrightarrow> overflowCountLocked h k now c = 0"
  using cell_index_less [of h 0 k]
  by (simp add: overflowCountLocked_def NewCounterCache_def overflowCounterDepth_def numeral_eq_Suc cell_lapsed_def Let_def)

lemma unblock_example_store:
  "\<exists>st1. BlockIP sm_ops 5 ''192.0.2.7'' ''manual'' 60 0 example_pipe_state = (Inr (), st1) \<and> sm_ok (pl_store st1) \<and>
     (\<forall>m. pl_enforcer st1 = Some m \<longrightarrow> mirror_ok (mg_mir m)) \<and> pl_pow st1 = pl_pow example_pipe_state"
proof -
  obtain r s' where s: "st_Set sm_ops 5 (BlockKey ''192.0.2.7'') (BlockValue ''manual'' 0) 60 fresh_memory = (r, s')" by fastforce
  have "r = Inr ()" "sm_ok s'"
    using mem.set_value [OF fresh_memory_ok, of 5 "BlockKey ''192.0.2.7''" "BlockValue ''manual'' 0" 60] s
    by (simp_all add: refines_def spec_Set_def)
  then show ?thesis using s example_parse notifyLocked_ok example_manager_ok
    by (auto simp: BlockIP_def example_pipe_state_def notifyEnforcer_def mg_Notify_def synced_manager_def)
qed

text \<open>The address that was blocked by hand is unblocked.\<close>

theorem unblocked_address_is_served_witness:
  "\<exists>st1 out st2. BlockIP sm_ops 5 ''192.0.2.7'' ''manual'' 60 0 example_pipe_state = (Inr (), st1) \<and>
     UnblockIP sm_ops (\<lambda>_ _. 0) unblockHoldWindow 10 12 None (newRecentRing 0 1) ''192.0.2.7'' True ''g0'' ''g1'' st1 = (Inr (), out, st2) \<and>
     reasonCategory (dc_Reason (fst (eng_Evaluate (Some (uniform_config (validated_cfg no_list))) allowing_env sample_request st2))) \<noteq> ''behaviour_block''"
proof -
  obtain st1 where b: "BlockIP sm_ops 5 ''192.0.2.7'' ''manual'' 60 0 example_pipe_state = (Inr (), st1)" "sm_ok (pl_store st1)"
      "\<forall>m. pl_enforcer st1 = Some m \<longrightarrow> mirror_ok (mg_mir m)"
    using unblock_example_store by blast
  obtain r out st2 where u: "UnblockIP sm_ops (\<lambda>_ _. 0) unblockHoldWindow 10 12 None (newRecentRing 0 1) ''192.0.2.7'' True ''g0'' ''g1'' st1 = (r, out, st2)"
    by (metis prod_cases3)
  have "0 < unblockHoldWindow" "se_ops allowing_env = sm_ops" "12 \<le> se_now allowing_env"
    by (simp_all add: unblockHoldWindow_def second_def allowing_env_def example_stage_env_def)
  then show ?thesis using unblocked_address_is_served [OF u b(2) _ b(3) example_parse example_facts(1) refl] u b(1) by blast
qed

definition example_ring :: recent_ring where
  "example_ring = \<lparr>rg_buf = [zero_row\<lparr>rd_Host := ''a'', rd_IP := ''192.0.2.7''\<rparr>], rg_next = 0, rg_count = 1, rg_full = False, rg_startedAt = 0\<rparr>"

lemma example_hosts:
  "escalationHosts (uniform_config (validated_cfg no_list)) ''192.0.2.7'' example_ring = ([''a''], False)"
  "''a'' \<in> hosts_of (uniform_config (validated_cfg no_list)) ''192.0.2.7'' example_ring"
proof -
  have low: "ascii_lower (CHR ''a'') = CHR ''a''" by (simp add: ascii_lower_def)
  have n: "NormalizeHost ''a'' = ''a''"
    by (simp add: low suffix_def NormalizeHost_def toLower_def trimSpace_def trim_with_def is_space_def trim_brackets_def trimSuffix_def Let_def)
  have l: "rg_list 0 example_ring = [zero_row\<lparr>rd_Host := ''a'', rd_IP := ''192.0.2.7''\<rparr>]"
    by (simp add: rg_list_def rg_snapshot_def rg_rows_def rg_limit_def example_ring_def)
  show e: "escalationHosts (uniform_config (validated_cfg no_list)) ''192.0.2.7'' example_ring = ([''a''], False)"
    by (simp add: escalationHosts_def l sameIP_def add_host_def n maxEscalationResetHosts_def uniform_config_def small_config_def)
  show "''a'' \<in> hosts_of (uniform_config (validated_cfg no_list)) ''192.0.2.7'' example_ring"
    using escalationHosts_spec [OF e] by auto
qed

text \<open>Nothing is left incomplete when the sketch has never been needed.\<close>

context ttl_store
begin

lemma reset_prefixes_clean:
  "ok s \<Longrightarrow> cc_overflow c = cc_overflow NewCounterCache \<Longrightarrow> reset_prefixes ops h now host ip ps n es0 (c, s) = (n', es, c', s') \<Longrightarrow>
     es = es0 \<and> ok s' \<and> cc_overflow c' = cc_overflow NewCounterCache"
proof (induction ps arbitrary: n es0 c s)
  case (Cons p ps)
  let ?k = "escalationKey p host ip"
  obtain b c1 where f: "cc_Forget ?k c = (b, c1)" by fastforce
  obtain r s1 where d: "st_Delete ops now ?k s = (r, s1)" by fastforce
  have "r = Inr ()" "ok s1" using del [OF Cons.prems(1), of now ?k] d by (simp_all add: refines_def spec_Delete_def)
  moreover have c1: "cc_overflow c1 = cc_overflow NewCounterCache" using forget_keeps_overflow [OF f] Cons.prems(2) by simp
  ultimately have "ForgetSync ops h now ?k (c, s) = ([], b, c1, s1)" using f d overflow_new [OF c1] by (simp add: ForgetSync_def)
  then show ?case using Cons.IH [OF \<open>ok s1\<close> c1] Cons.prems(3) by simp
qed simp

end

theorem unblock_lifts_escalation_witness:
  "\<exists>out st1 m'. UnblockIP sm_ops (\<lambda>_ _. 0) unblockHoldWindow 10 12 (Some (uniform_config (validated_cfg no_list))) example_ring ''192.0.2.7'' True
     ''g0'' ''g1'' example_pipe_state = (Inr (), out, st1) \<and> pl_pow st1 = Some m' \<and> fst (BumpEscalation (\<lambda>_ _. 0) 20 ''a'' ''192.0.2.7'' 60 m') = 0"
proof -
  let ?h = "\<lambda>_ _. 0 :: 64 word" and ?cfg = "uniform_config (validated_cfg no_list)"
  obtain r out st1 where u: "UnblockIP sm_ops ?h unblockHoldWindow 10 12 (Some ?cfg) example_ring ''192.0.2.7'' True ''g0'' ''g1'' example_pipe_state = (r, out, st1)"
    by (metis prod_cases3)
  have hold: "0 < unblockHoldWindow" by (simp add: unblockHoldWindow_def second_def)
  obtain m where m: "pl_pow example_pipe_state = Some m" "pm_counters m = NewCounterCache"
    by (simp add: example_pipe_state_def newManagerWithRetiredKeys_def Let_def)
  have ok: "sm_ok (pl_store example_pipe_state)" by (simp add: example_pipe_state_def fresh_memory_ok)
  obtain gen0 s2 out2 st2 where s: "sm_ok s2" "r = Inr ()" "out = (if True then out2\<lparr>ur_BackoffReset := True\<rparr> else out2)"
      "resetBlockCounters sm_ops ?h 10 (Some ?cfg) example_ring (canonIP ''192.0.2.7'') gen0 True no_reset (example_pipe_state\<lparr>pl_store := s2\<rparr>) = (out2, st2)"
    by (rule mem.unblock_steps [OF ok hold u])
  obtain keys failed s3 where ev: "ResetEventCounters sm_ops 10 ''192.0.2.7'' gen0 (BehaviourWindows ?cfg) s2 = (keys, failed, s3)" by (metis prod_cases3)
  have "sm_ok s3" using mem.event_reset_deletes [OF s(1) ev] by simp
  then have es: "es = []" if "reset_prefixes sm_ops ?h 10 ''a'' ''192.0.2.7'' ps 0 [] (NewCounterCache, s3) = (n, es, c', s')" for ps n es c' s'
    using mem.reset_prefixes_clean [OF _ refl that] by simp
  have inc: "\<not> ur_Incomplete out"
    using s(3,4) m ev es unfolding canonIP_example
    by (auto simp: resetBlockCounters_def example_hosts(1) no_reset_def ResetEscalation_def simp del: reset_prefixes.simps split: prod.splits)
  from unblock_lifts_escalation [OF u ok hold m(1) _ _ inc, of 20 60] show ?thesis using u s(2) example_hosts(2) unfolding canonIP_example by auto
qed

theorem block_views_agree_witness:
  "\<exists>s bs d. fst (ListBlocks sm_scans 10 s) = Inr bs \<and> fst (BlockDetailFor sm_ops sm_scans 10 ''192.0.2.7'' s) = Inr d \<and>
     bd_Blocked d \<and> bd_ExpiresAt d = Some 65 \<and> length bs = 1"
proof -
  let ?e = "\<lparr>e_value = ''r'', e_expiresAt = Some 65\<rparr>"
  let ?calls = "[(5, CallSet (BlockKey ''192.0.2.7'') ''r'' 60)]"
  define s where "s = snd (exec_trace sm_ops janitor_sweep ?calls fresh_memory)"
  have new: "NewShardedMemory 1 = Some fresh_memory" by (simp add: fresh_memory_def NewShardedMemory_def nextPow2_def pow2_loop.simps)
  obtain r s1 where st: "st_Set sm_ops 5 (BlockKey ''192.0.2.7'') ''r'' 60 fresh_memory = (r, s1)" by fastforce
  then have "s = s1" by (simp add: s_def)
  then have live: "sm_live s 10 = [BlockKey ''192.0.2.7'' \<mapsto> ?e]"
    using mem.set_value [OF fresh_memory_ok, of 5 "BlockKey ''192.0.2.7''" "''r''" 60] st fresh_memory_live
    by (auto simp: refines_def spec_Set_def expiry_def unexpired_def entry_expired_def fun_eq_iff)
  have c: "canonIP ''192.0.2.7'' = ''192.0.2.7''" "canonIP ''192.0.2.7'' \<noteq> ''''" by (simp_all add: canonIP_example)
  obtain bs d where v: "fst (ListBlocks sm_scans 10 s) = Inr bs" "fst (BlockDetailFor sm_ops sm_scans 10 ''192.0.2.7'' s) = Inr d"
      "be_IP ` set bs = {i. sm_live s 10 (blockKeyPrefix @ i) \<noteq> None}" "distinct (map be_IP bs)" "bd_Blocked d \<longleftrightarrow> (\<exists>b \<in> set bs. be_IP b = canonIP ''192.0.2.7'')"
  proof -
    have "list_all (\<lambda>(_, c). call_wf c \<and> \<not> increments_block c) ?calls" by simp
    from block_views_agree [OF new _ this s_def c(2), of 10] show thesis using that by (simp only: one_le_numeral one_le_power) blast
  qed
  have ips: "be_IP ` set bs = {''192.0.2.7''}" unfolding v(3) live by (auto simp: BlockKey_canon c(1))
  then have "length bs = 1" using distinct_card [OF v(4)] by simp
  moreover have "''192.0.2.7'' \<in> be_IP ` set bs" unfolding ips by blast
  then obtain b where b: "''192.0.2.7'' = be_IP b" "b \<in> set bs" by (rule imageE)
  have "bd_Blocked d" unfolding v(5) c(1) by (rule bexI [of _ b]) (use b in simp_all)
  moreover have "bd_ExpiresAt d = Some 65"
    using block_detail_exact [of s "''192.0.2.7''" 10] v(2) live c(2) \<open>s = s1\<close> mem.set_value [OF fresh_memory_ok, of 5 "BlockKey ''192.0.2.7''" "''r''" 60] st
    by (auto simp: refines_def)
  ultimately show ?thesis using v(1,2) by blast
qed

end
