(* ===== verification/Durations.thy ===== *)
theory Durations
  imports Prelude
begin

text \<open>
  Durations as operators write them (\<^verbatim>\<open>internal/duration/duration.go\<close>): Go's notation extended with days, weeks, months and years. Every
  time to live of the configuration and of the admin interface is read by \<open>dur_Parse\<close>, and a negative one would mean
  ``no expiry'', so the arithmetic is kept on 64-bit integers with its wrap-around.

  The standard library's parser and printer of durations, which work with floating-point fractions, are the parameters \<open>std\<close> and
  \<open>show_std\<close>.
\<close>

section \<open>Units\<close>

definition unit_Day :: int where "unit_Day = 24 * 3600 * 10 ^ 9"
definition unit_Week :: int where "unit_Week = 7 * unit_Day"
definition unit_Month :: int where "unit_Month = 30 * unit_Day"
definition unit_Year :: int where "unit_Year = 365 * unit_Day"
definition maxDuration :: int where "maxDuration = 100 * unit_Year"

definition extended_units :: "(string \<times> int) list" where
  "extended_units = [(''mon'', unit_Month), (''d'', unit_Day), (''w'', unit_Week), (''y'', unit_Year)]"

definition stdUnits :: "string list" where
  "stdUnits = [''ns'', ''us'', [CHR 0xC2, CHR 0xB5, CHR ''s''], [CHR 0xCE, CHR 0xBC, CHR ''s''], ''ms'', ''s'', ''m'', ''h'']"

datatype duration_error =
    DurationEmpty
  | DurationStd
  | DurationOverflow
  | DurationFraction string
  | DurationNoNumber string
  | DurationUnit string

section \<open>Scanning\<close>

definition dur_digit :: "char \<Rightarrow> bool" where
  "dur_digit c \<longleftrightarrow> dec_digit c \<noteq> None"

fun hasExtendedUnit :: "string \<Rightarrow> bool" where
  "hasExtendedUnit (p # c # cs) \<longleftrightarrow>
     (dur_digit p \<or> p = CHR ''.'') \<and> (c = CHR ''d'' \<or> c = CHR ''w'' \<or> c = CHR ''y'' \<or> c = CHR ''m'' \<and> hasPrefix (c # cs) ''mon'') \<or>
     hasExtendedUnit (c # cs)"
| "hasExtendedUnit _ \<longleftrightarrow> False"

fun number_scan :: "bool \<Rightarrow> bool \<Rightarrow> string \<Rightarrow> nat \<times> bool" where
  "number_scan dot digits [] = (0, digits)"
| "number_scan dot digits (c # cs) =
     (if dur_digit c then (case number_scan dot True cs of (i, ds) \<Rightarrow> (Suc i, ds))
      else if c = CHR ''.'' \<and> \<not> dot then (case number_scan True digits cs of (i, ds) \<Rightarrow> (Suc i, ds))
      else (0, digits))"

definition leadingDigits :: "string \<Rightarrow> string \<times> string" where
  "leadingDigits s = (case number_scan False False s of (i, digits) \<Rightarrow> if \<not> digits then ('''', s) else (take i s, drop i s))"

definition leadingExtended :: "string \<Rightarrow> (string \<times> int) option" where
  "leadingExtended s = find (\<lambda>u. hasPrefix s (fst u)) extended_units"

definition leadingStd :: "string \<Rightarrow> string option" where
  "leadingStd s = find (hasPrefix s) stdUnits"

definition unitOf :: "string \<Rightarrow> string" where
  "unitOf s = takeWhile (\<lambda>c. \<not> (dur_digit c \<or> c = CHR ''.'' \<or> c = CHR ''-'' \<or> c = CHR ''+'')) s"

section \<open>Checked arithmetic\<close>

fun uint_loop :: "int \<Rightarrow> string \<Rightarrow> duration_error + int" where
  "uint_loop n [] = Inr n"
| "uint_loop n (c # cs) =
     (if go_div maxDuration 10 < n then Inl DurationOverflow else uint_loop (wrap64 (n * 10 + (int (of_char c) - 48))) cs)"

definition parseUint :: "string \<Rightarrow> duration_error + int" where
  "parseUint digits = (if CHR ''.'' \<in> set digits then Inl (DurationFraction digits) else uint_loop 0 digits)"

definition mulChecked :: "int \<Rightarrow> int \<Rightarrow> duration_error + int" where
  "mulChecked n mult = (if n \<noteq> 0 \<and> go_div maxDuration mult < n then Inl DurationOverflow else Inr (wrap64 (n * mult)))"

definition addChecked :: "int \<Rightarrow> int \<Rightarrow> duration_error + int" where
  "addChecked a b = (let s = wrap64 (a + b) in if s < a \<or> maxDuration < s then Inl DurationOverflow else Inr s)"

section \<open>Parsing and printing\<close>

lemma number_scan_le: "number_scan dot digits s = (i, ds) \<Longrightarrow> i \<le> length s \<and> (ds \<and> \<not> digits \<longrightarrow> 0 < i)"
  by (induction dot digits s arbitrary: i ds rule: number_scan.induct) (auto split: if_splits prod.splits)

lemma leadingDigits_append: "leadingDigits s = (ds, rest) \<Longrightarrow> s = ds @ rest"
  by (auto simp: leadingDigits_def split: prod.splits if_splits)

lemma leadingDigits_shorter: "leadingDigits s = (ds, rest) \<Longrightarrow> ds \<noteq> '''' \<Longrightarrow> length rest < length s"
  using leadingDigits_append [of s ds rest] by simp

text \<open>One turn per term: the total of the extended terms and the text of the standard ones.\<close>

function parse_terms :: "int \<Rightarrow> string \<Rightarrow> string \<Rightarrow> duration_error + int \<times> string" where
  "parse_terms acc std_text body =
     (if body = '''' then Inr (acc, std_text)
      else case leadingDigits body of
             (digits, rest) \<Rightarrow>
               if digits = '''' then Inl (DurationNoNumber (unitOf body))
               else case leadingExtended rest of
                      Some (sfx, mult) \<Rightarrow>
                        (case parseUint digits of
                           Inl e \<Rightarrow> Inl e
                         | Inr n \<Rightarrow>
                             (case mulChecked n mult of
                                Inl e \<Rightarrow> Inl e
                              | Inr amount \<Rightarrow>
                                  (case addChecked acc amount of
                                     Inl e \<Rightarrow> Inl e
                                   | Inr acc' \<Rightarrow> parse_terms acc' std_text (drop (length sfx) rest))))
                    | None \<Rightarrow>
                        (case leadingStd rest of
                           None \<Rightarrow> Inl (DurationUnit (unitOf rest))
                         | Some sfx \<Rightarrow> parse_terms acc (std_text @ digits @ sfx) (drop (length sfx) rest)))"
  by pat_completeness auto
termination
  by (relation "measure (\<lambda>(_, _, body). length body)") (auto dest!: leadingDigits_shorter [OF sym])

declare parse_terms.simps [simp del]

definition dur_Parse :: "(string \<Rightarrow> int option) \<Rightarrow> string \<Rightarrow> duration_error + int" where
  "dur_Parse std s =
     (let trimmed = trimSpace s
      in if trimmed = '''' then Inl DurationEmpty
         else let neg = (hd trimmed = CHR ''-'');
                  body = (if hd trimmed = CHR ''-'' \<or> hd trimmed = CHR ''+'' then tl trimmed else trimmed)
              in if \<not> hasExtendedUnit body
                 then (case std trimmed of
                         None \<Rightarrow> Inl DurationStd
                       | Some d \<Rightarrow> if maxDuration < d \<or> d < - maxDuration then Inl DurationOverflow else Inr d)
                 else (case parse_terms 0 '''' body of
                         Inl e \<Rightarrow> Inl e
                       | Inr (acc, std_text) \<Rightarrow>
                           (case (if std_text = '''' then Inr acc
                                  else case std std_text of None \<Rightarrow> Inl DurationStd | Some d \<Rightarrow> addChecked acc d) of
                              Inl e \<Rightarrow> Inl e
                            | Inr acc' \<Rightarrow> Inr (if neg then wrap64 (- acc') else acc'))))"

definition dur_Format :: "(int \<Rightarrow> string) \<Rightarrow> int \<Rightarrow> string" where
  "dur_Format show_std d0 =
     (if d0 = 0 then ''0s''
      else let sgn_text = (if d0 < 0 then ''-'' else ''''); d = (if d0 < 0 then wrap64 (- d0) else d0)
           in case find (\<lambda>u. d mod fst u = 0) [(unit_Year, ''y''), (unit_Month, ''mon''), (unit_Week, ''w''), (unit_Day, ''d'')] of
                Some (mult, name) \<Rightarrow> sgn_text @ format_int (go_div d mult) @ name
              | None \<Rightarrow> sgn_text @ show_std d)"

section \<open>Nothing wraps\<close>

lemma units_pos [simp]: "0 < unit_Day" "0 < unit_Week" "0 < unit_Month" "0 < unit_Year" "0 < maxDuration" "0 \<le> maxDuration"
  by (simp_all add: unit_Day_def unit_Week_def unit_Month_def unit_Year_def maxDuration_def)

lemma max_int64: "4 * maxDuration div 2 \<le> maxInt64"
  by (simp add: maxInt64_def maxDuration_def unit_Year_def unit_Day_def)

lemma int64_small: "0 \<le> x \<Longrightarrow> x \<le> 2 * maxDuration \<Longrightarrow> int64 x"
  using max_int64 by (simp add: int64_def minInt64_def maxInt64_def)

lemma dur_digit_val: "dur_digit c \<Longrightarrow> dec_digit c = Some (of_char c - 48) \<and> 48 \<le> (of_char c :: nat) \<and> (of_char c :: nat) \<le> 57"
  by (auto simp: dur_digit_def dec_digit_def split: if_splits)

lemma uint_step:
  assumes "0 \<le> n" "n \<le> maxDuration div 10" "dur_digit c"
  shows "wrap64 (n * 10 + (int (of_char c) - 48)) = n * 10 + (int (of_char c) - 48)" "0 \<le> n * 10 + (int (of_char c) - 48)"
proof -
  have c: "48 \<le> int (of_char c)" "int (of_char c) \<le> 57" using dur_digit_val [OF assms(3)] by auto
  have "n * 10 \<le> maxDuration" using assms(2) by linarith
  moreover have "9 \<le> maxDuration" by (simp add: maxDuration_def unit_Year_def unit_Day_def)
  ultimately have "int64 (n * 10 + (int (of_char c) - 48))" by (intro int64_small) (use assms(1) c in linarith)+
  then show "wrap64 (n * 10 + (int (of_char c) - 48)) = n * 10 + (int (of_char c) - 48)" by (rule wrap64_id)
  show "0 \<le> n * 10 + (int (of_char c) - 48)" using assms(1) c by linarith
qed

lemma uint_loop_exact:
  "uint_loop n ds = Inr m \<Longrightarrow> 0 \<le> n \<Longrightarrow> list_all dur_digit ds \<Longrightarrow> dec_val (nat n) ds = Some (nat m) \<and> 0 \<le> m"
proof (induction ds arbitrary: n)
  case (Cons c ds)
  have le: "n \<le> maxDuration div 10" "dur_digit c" using Cons.prems by (auto simp: go_div_nonneg split: if_splits)
  note st = uint_step [OF Cons.prems(2) le]
  have d: "dec_digit c = Some (of_char c - 48)" "48 \<le> (of_char c :: nat)" using dur_digit_val [OF le(2)] by auto
  have "nat (n * 10 + (int (of_char c) - 48)) = 10 * nat n + (of_char c - 48)" using Cons.prems(2) d(2) by (simp add: nat_add_distrib nat_diff_distrib nat_mult_distrib)
  then show ?case using Cons.IH [of "n * 10 + (int (of_char c) - 48)"] Cons.prems st d le by (auto split: if_splits)
qed simp

lemma mulChecked_exact: "mulChecked n u = Inr m \<Longrightarrow> 0 \<le> n \<Longrightarrow> 0 < u \<Longrightarrow> m = n * u \<and> 0 \<le> m \<and> m \<le> maxDuration"
proof -
  assume a: "mulChecked n u = Inr m" "0 \<le> n" "0 < u"
  have "n \<le> maxDuration div u" using a by (cases "n = 0") (auto simp: mulChecked_def go_div_nonneg pos_imp_zdiv_nonneg_iff split: if_splits)
  then have "n * u \<le> maxDuration div u * u" using a(3) by (intro mult_right_mono) auto
  also have "\<dots> \<le> maxDuration" using a(3) by (metis div_mult_mod_eq le_add_same_cancel1 pos_mod_sign)
  finally have le: "n * u \<le> maxDuration" .
  have "0 \<le> n * u" using a by simp
  moreover from this have "int64 (n * u)" using le units_pos(6) by (intro int64_small) linarith+
  ultimately show ?thesis using a(1) le by (auto simp: mulChecked_def wrap64_id split: if_splits)
qed

lemma wrap64_above: "2 ^ 63 \<le> x \<Longrightarrow> x < 2 ^ 64 \<Longrightarrow> wrap64 x = x - 2 ^ 64"
proof -
  assume x: "2 ^ 63 \<le> x" "x < 2 ^ 64"
  have "(x + 2 ^ 63) mod 2 ^ 64 = (x - 2 ^ 63 + 2 ^ 64) mod 2 ^ 64" by (simp add: add.commute)
  also have "\<dots> = x - 2 ^ 63" unfolding mod_add_self2 using x by (intro mod_pos_pos_trivial) auto
  finally show ?thesis by (simp add: wrap64_def)
qed

lemma addChecked_exact:
  assumes "addChecked a b = Inr s" "0 \<le> a" "a \<le> maxDuration" "0 \<le> b" "int64 b"
  shows "s = a + b \<and> 0 \<le> s \<and> s \<le> maxDuration"
proof -
  have w: "wrap64 (a + b) = s" "a \<le> s" "s \<le> maxDuration" using assms(1) by (auto simp: addChecked_def Let_def split: if_splits)
  have "a + b \<le> 2 ^ 63 + maxDuration" using assms(3,5) by (simp add: int64_def maxInt64_def)
  moreover have m: "maxDuration < 2 ^ 62" by (simp add: maxDuration_def unit_Year_def unit_Day_def)
  moreover have "\<not> 2 ^ 63 \<le> a + b"
  proof
    assume "2 ^ 63 \<le> a + b"
    then have "s = a + b - 2 ^ 64" using w(1) wrap64_above calculation by simp
    then show False using w(2) assms(2) calculation by simp
  qed
  ultimately have "int64 (a + b)" using assms(2,4) by (simp add: int64_def minInt64_def maxInt64_def)
  then show ?thesis using w assms(2) by (simp add: wrap64_id)
qed

section \<open>What a text says\<close>

text \<open>A text with its exact extended total, over the unbounded integers, and the text of its standard terms.\<close>

inductive spells :: "string \<Rightarrow> int \<Rightarrow> string \<Rightarrow> bool" where
  spells_end: "spells '''' 0 ''''"
| spells_ext: "(sfx, u) \<in> set extended_units \<Longrightarrow> dec_val 0 ds = Some n \<Longrightarrow> ds \<noteq> '''' \<Longrightarrow> spells rest t st \<Longrightarrow>
    spells (ds @ sfx @ rest) (int n * u + t) st"
| spells_std: "sfx \<in> set stdUnits \<Longrightarrow> list_all (\<lambda>c. dur_digit c \<or> c = CHR ''.'') ds \<Longrightarrow> ds \<noteq> '''' \<Longrightarrow> spells rest t st \<Longrightarrow>
    spells (ds @ sfx @ rest) t (ds @ sfx @ st)"

lemma number_scan_chars: "number_scan dot digits s = (i, ds) \<Longrightarrow> list_all (\<lambda>c. dur_digit c \<or> c = CHR ''.'') (take i s)"
  by (induction dot digits s arbitrary: i ds rule: number_scan.induct) (auto split: if_splits prod.splits)

lemma leadingDigits_chars: "leadingDigits s = (ds, rest) \<Longrightarrow> list_all (\<lambda>c. dur_digit c \<or> c = CHR ''.'') ds"
  using number_scan_chars by (auto simp: leadingDigits_def split: prod.splits if_splits)

lemma extended_pos: "(sfx, u) \<in> set extended_units \<Longrightarrow> 0 < u"
  by (auto simp: extended_units_def)

lemma parse_terms_spells:
  "parse_terms acc st body = Inr (t, st') \<Longrightarrow> 0 \<le> acc \<Longrightarrow> acc \<le> maxDuration \<Longrightarrow>
     \<exists>t0 st0. spells body t0 st0 \<and> t = acc + t0 \<and> st' = st @ st0 \<and> 0 \<le> t \<and> t \<le> maxDuration"
proof (induction acc st body arbitrary: t st' rule: parse_terms.induct)
  case (1 acc st body)
  obtain ds rest where d: "leadingDigits body = (ds, rest)" by fastforce
  show ?case
  proof (cases "body = ''''")
    case True
    then show ?thesis using 1 by (auto simp: parse_terms.simps [of acc st "''''"] intro: spells_end)
  next
    case body: False
    then have ds: "ds \<noteq> ''''" using 1(3) d by (auto simp: parse_terms.simps [of acc st body])
    note split = leadingDigits_append [OF d] leadingDigits_chars [OF d]
    show ?thesis
    proof (cases "leadingExtended rest")
      case None
      obtain sfx where sfx: "leadingStd rest = Some sfx" and p: "parse_terms acc (st @ ds @ sfx) (drop (length sfx) rest) = Inr (t, st')"
        using 1(3) d body ds None by (auto simp: parse_terms.simps [of acc st body] split: option.splits)
      have r: "sfx \<in> set stdUnits" "rest = sfx @ drop (length sfx) rest"
        using find_mem [OF sfx [unfolded leadingStd_def]] by (auto simp: hasPrefix_def prefix_def)
      from 1(1) [OF body d [symmetric] ds None sfx p 1(4,5)] obtain t0 st0 where
        "spells (drop (length sfx) rest) t0 st0" "t = acc + t0" "st' = (st @ ds @ sfx) @ st0" "0 \<le> t" "t \<le> maxDuration" by blast
      then show ?thesis using spells_std [OF r(1) split(2) ds] split(1) r(2) by (metis append.assoc)
    next
      case (Some u)
      obtain sfx mult n m acc' where u: "u = (sfx, mult)" and n: "parseUint ds = Inr n" and m: "mulChecked n mult = Inr m" and a: "addChecked acc m = Inr acc'"
          and p: "parse_terms acc' st (drop (length sfx) rest) = Inr (t, st')"
        using 1(3) d body ds Some by (auto simp: parse_terms.simps [of acc st body] split: sum.splits prod.splits)
      have r: "(sfx, mult) \<in> set extended_units" "rest = sfx @ drop (length sfx) rest"
        using find_mem [OF Some [unfolded leadingExtended_def]] by (auto simp: u hasPrefix_def prefix_def)
      have nat: "dec_val 0 ds = Some (nat n)" "0 \<le> n"
        using n split(2) uint_loop_exact [of 0 ds n] by (auto simp: parseUint_def list_all_iff split: if_splits)
      have mm: "m = n * mult" "0 \<le> m" "m \<le> maxDuration" using mulChecked_exact [OF m nat(2) extended_pos [OF r(1)]] by auto
      have aa: "acc' = acc + m" "0 \<le> acc'" "acc' \<le> maxDuration"
        using addChecked_exact [OF a 1(4,5) mm(2)] mm(2,3) int64_small units_pos(6) by fastforce+
      from 1(2) [OF body d [symmetric] ds Some u [symmetric] n m a p aa(2,3)] obtain t0 st0 where
        "spells (drop (length sfx) rest) t0 st0" "t = acc' + t0" "st' = st @ st0" "0 \<le> t" "t \<le> maxDuration" by blast
      then show ?thesis using spells_ext [OF r(1) nat(1) ds, of "drop (length sfx) rest" t0 st0] split(1) r(2) mm(1) aa(1) nat(2)
        by (intro exI [of _ "int (nat n) * mult + t0"] exI [of _ st0]) simp
    qed
  qed
qed

lemma spells_unsigned: "spells body t st \<Longrightarrow> st \<noteq> '''' \<Longrightarrow> hd st \<noteq> CHR ''-''"
proof (induction rule: spells.induct)
  case (spells_std sfx ds rest t st)
  then show ?case by (cases ds) (auto simp: dur_digit_def dec_digit_def)
qed simp_all

definition dur_body :: "string \<Rightarrow> string" where
  "dur_body trimmed = (if hd trimmed = CHR ''-'' \<or> hd trimmed = CHR ''+'' then tl trimmed else trimmed)"

text \<open>
  C28 (bounds). A duration never wraps: whatever text an operator writes, an accepted value lies within a century either way, so a time
  to live cannot turn negative and mean ``forever'', and it is exactly the value the text spells over the unbounded integers: the sum of
  its days, weeks, months and years plus what the standard library makes of the other terms, with the sign of the text. The
  standard parser is only assumed to return 64-bit values, negative ones only for a text that starts with a minus.
\<close>

theorem parsed_duration_bounded:
  assumes "\<And>u d. std u = Some d \<Longrightarrow> int64 d \<and> (hd u \<noteq> CHR ''-'' \<longrightarrow> 0 \<le> d)" "dur_Parse std s = Inr d"
  shows "\<bar>d\<bar> \<le> maxDuration \<and>
    (if hasExtendedUnit (dur_body (trimSpace s))
     then \<exists>t st v. spells (dur_body (trimSpace s)) t st \<and> (if st = '''' then v = 0 else std st = Some v) \<and>
            d = (if hd (trimSpace s) = CHR ''-'' then - (t + v) else t + v)
     else std (trimSpace s) = Some d)"
proof (cases "hasExtendedUnit (dur_body (trimSpace s))")
  case False
  then show ?thesis using assms(2) by (auto simp: dur_Parse_def dur_body_def Let_def split: if_splits option.splits)
next
  case True
  obtain t st x where p: "parse_terms 0 '''' (dur_body (trimSpace s)) = Inr (t, st)"
      and x: "(if st = '''' then Inr t else case std st of None \<Rightarrow> Inl DurationStd | Some e \<Rightarrow> addChecked t e) = (Inr x :: duration_error + int)"
      and d: "d = (if hd (trimSpace s) = CHR ''-'' then wrap64 (- x) else x)"
    using assms(2) True by (auto simp: dur_Parse_def dur_body_def [symmetric] Let_def split: if_splits sum.splits prod.splits)
  from parse_terms_spells [OF p] have sp: "spells (dur_body (trimSpace s)) t st" "0 \<le> t" "t \<le> maxDuration" by auto
  obtain v where v: "if st = '''' then v = 0 else std st = Some v" "x = t + v" "0 \<le> x" "x \<le> maxDuration"
  proof (cases "st = ''''")
    case True
    then show thesis using that [of 0] x sp by simp
  next
    case False
    then obtain e where e: "std st = Some e" "addChecked t e = Inr x" using x by (auto split: option.splits)
    then have "int64 e" "0 \<le> e" using assms(1) spells_unsigned [OF sp(1) False] by auto
    then show thesis using that [of e] addChecked_exact [OF e(2) sp(2,3)] e(1) False by simp
  qed
  have "int64 (- x)" using v(3,4) int64_small [of x] units_pos(6) by (simp add: int64_def minInt64_def maxInt64_def)
  then have "d = (if hd (trimSpace s) = CHR ''-'' then - (t + v) else t + v)" using d v(2) by (simp add: wrap64_id)
  moreover from this have "\<bar>d\<bar> \<le> maxDuration" using v(2-4) by auto
  ultimately show ?thesis using True sp(1) v(1) by (simp only: if_True simp_thms) blast
qed

section \<open>Printing and reading back\<close>

lemma fmt_digits: "list_all dur_digit (fmt_uint 10 n)"
proof (induction n rule: less_induct)
  case (less n)
  have d: "k < 10 \<Longrightarrow> dur_digit (digit_char k)" for k by (simp add: dur_digit_def)
  show ?case
  proof (cases "n < 10")
    case True
    then show ?thesis using d by (simp add: fmt_uint_small)
  next
    case False
    then show ?thesis using less [of "n div 10"] d by (simp add: fmt_uint_large)
  qed
qed

lemma number_scan_digits:
  "list_all dur_digit ds \<Longrightarrow> ds \<noteq> [] \<Longrightarrow> \<not> dur_digit c \<Longrightarrow> c \<noteq> CHR ''.'' \<Longrightarrow> number_scan dot b (ds @ c # cs) = (length ds, True)"
proof (induction ds arbitrary: b)
  case (Cons x ds)
  then show ?case by (cases ds) auto
qed simp

lemma hasExtended_digits:
  "ds \<noteq> [] \<Longrightarrow> list_all dur_digit ds \<Longrightarrow> (sfx, u) \<in> set extended_units \<Longrightarrow> hasExtendedUnit (ds @ sfx)"
proof (induction ds)
  case (Cons x ds)
  then show ?case by (cases ds) (auto simp: extended_units_def hasPrefix_def)
qed simp

lemma dec_val_mono: "dec_val a ds = Some m \<Longrightarrow> a \<le> m"
proof (induction ds arbitrary: a)
  case (Cons c ds)
  then show ?case by (fastforce split: option.splits)
qed simp

lemma uint_loop_fmt:
  "list_all dur_digit ds \<Longrightarrow> 0 \<le> n \<Longrightarrow> dec_val (nat n) ds = Some m \<Longrightarrow> int m \<le> maxDuration \<Longrightarrow> uint_loop n ds = Inr (int m)"
proof (induction ds arbitrary: n)
  case (Cons c ds)
  have d: "dec_digit c = Some (of_char c - 48)" "48 \<le> (of_char c :: nat)" "dur_digit c" using dur_digit_val [of c] Cons.prems(1) by auto
  let ?n = "n * 10 + (int (of_char c) - 48)"
  have eq: "nat ?n = 10 * nat n + (of_char c - 48)" using Cons.prems(2) d(2) by (simp add: nat_add_distrib nat_diff_distrib nat_mult_distrib)
  have v: "dec_val (nat ?n) ds = Some m" using Cons.prems(3) d eq by simp
  have "10 * nat n \<le> m" using dec_val_mono [OF v] eq by simp
  then have le: "n \<le> maxDuration div 10" using Cons.prems(2,4) by linarith
  note st = uint_step [OF Cons.prems(2) le d(3)]
  show ?case using Cons.IH [OF _ st(2) v Cons.prems(4)] Cons.prems(1) st le by (simp add: go_div_nonneg)
qed simp

lemma trim_id: "s \<noteq> [] \<Longrightarrow> \<not> is_space (hd s) \<Longrightarrow> \<not> is_space (last s) \<Longrightarrow> trimSpace s = s"
  by (simp add: trimSpace_def trim_with_def dropWhile_eq_self_iff [THEN iffD2] hd_rev)

lemma unit_facts:
  assumes "(sfx, u) \<in> set extended_units"
  shows "sfx \<noteq> ''''" "\<not> dur_digit (hd sfx)" "hd sfx \<noteq> CHR ''.''" "\<not> is_space (last sfx)" "leadingExtended sfx = Some (sfx, u)"
  using assms by (auto simp: extended_units_def dur_digit_def dec_digit_def is_space_def leadingExtended_def hasPrefix_def)

lemma term_round_trip:
  assumes "(sfx, u) \<in> set extended_units" "0 \<le> int n * u" "int n * u \<le> maxDuration"
  shows "parse_terms 0 '''' (fmt_uint 10 n @ sfx) = Inr (int n * u, '''')"
proof -
  let ?ds = "fmt_uint 10 n"
  note f = unit_facts [OF assms(1)] and u = extended_pos [OF assms(1)]
  obtain c cs where sfx: "sfx = c # cs" using f(1) by (cases sfx) auto
  have "number_scan False False (?ds @ sfx) = (length ?ds, True)"
    unfolding sfx using f(2,3) by (intro number_scan_digits fmt_digits) (auto simp: sfx)
  then have ld: "leadingDigits (?ds @ sfx) = (?ds, sfx)" by (simp add: leadingDigits_def)
  have dot: "CHR ''.'' \<notin> set ?ds" using fmt_digits [of n] by (auto simp: list_all_iff dur_digit_def dec_digit_def)
  have "int n \<le> int n * u" using u by (cases n) auto
  then have pu: "parseUint ?ds = Inr (int n)" using dot uint_loop_fmt [OF fmt_digits, of 0 n n] assms(3) by (simp add: parseUint_def)
  have "int n \<le> maxDuration div u" using assms(3) u by (metis int_div_pos_eq nonzero_mult_div_cancel_right order_less_irrefl zdiv_mono1)
  moreover have small: "int64 (int n * u)" using assms(2,3) units_pos(6) by (intro int64_small) linarith+
  ultimately have mu: "mulChecked (int n) u = Inr (int n * u)" using u by (simp add: mulChecked_def go_div_nonneg wrap64_id)
  have "addChecked 0 (int n * u) = Inr (int n * u)" using small assms(2,3) by (simp add: addChecked_def wrap64_id)
  then show ?thesis using ld pu mu f(5) parse_terms.simps [of "int n * u" "''''" "''''"] by (subst parse_terms.simps) simp
qed

text \<open>
  Printing a duration and reading the text back gives the same duration, for every whole number of days within a
  century, positive or negative: the printer picks the largest unit that divides it and the reader takes that unit, a month never for
  a minute. Only the text of zero is left to the standard library.
\<close>

theorem duration_round_trip:
  assumes "unit_Day dvd d" "\<bar>d\<bar> \<le> maxDuration" "d = 0 \<Longrightarrow> std ''0s'' = Some 0"
  shows "dur_Parse std (dur_Format show_std d) = Inr d"
proof (cases "d = 0")
  case True
  have "trimSpace ''0s'' = ''0s''" by (rule trim_id) (simp_all add: is_space_def)
  then show ?thesis using True assms(3) units_pos(6) by (auto simp: dur_Format_def dur_Parse_def Let_def dur_digit_def dec_digit_def not_less)
next
  case False
  define e where "e = \<bar>d\<bar>"
  have e: "0 < e" "e \<le> maxDuration" "unit_Day dvd e" using False assms by (simp_all add: e_def)
  have "wrap64 (- d) = - d" if "d < 0" using that assms(2) by (intro wrap64_id int64_small) auto
  then have abs: "(if d < 0 then wrap64 (- d) else d) = e" by (simp add: e_def)
  have "e mod unit_Day = 0" using e(3) by simp
  then have "find (\<lambda>u. e mod fst u = 0) [(unit_Year, ''y''), (unit_Month, ''mon''), (unit_Week, ''w''), (unit_Day, ''d'')] \<noteq> None"
    unfolding find_None_iff not_not by (intro exI [of _ "(unit_Day, ''d'')"]) simp
  then obtain u name where f: "find (\<lambda>u. e mod fst u = 0) [(unit_Year, ''y''), (unit_Month, ''mon''), (unit_Week, ''w''), (unit_Day, ''d'')] = Some (u, name)"
    unfolding not_None_eq by (elim exE) (metis prod.collapse)
  then have u: "(name, u) \<in> set extended_units" "e mod u = 0" by (auto simp: extended_units_def split: if_splits)
  have pos: "0 < u" by (rule extended_pos [OF u(1)])
  define n where "n = nat (e div u)"
  have n: "int n * u = e" "0 \<le> e div u" using u(2) pos e(1) by (auto simp: n_def pos_imp_zdiv_nonneg_iff)
  let ?t = "fmt_uint 10 n @ name"
  have fmt: "dur_Format show_std d = (if d < 0 then ''-'' else '''') @ ?t"
    using False abs f n(2) e(1) pos by (simp add: dur_Format_def Let_def format_int_def go_div_nonneg n_def)
  obtain k where k: "k < 10" "hd ?t = digit_char k" using hd_fmt_uint [of n] by (auto simp: hd_append)
  have sp: "\<not> is_space (digit_char k)" using k(1) of_char_digit_char [OF k(1)] by (simp add: is_space_def)
  have "trimSpace (dur_Format show_std d) = dur_Format show_std d"
    unfolding fmt using sp k(2) unit_facts(1,4) [OF u(1)] by (intro trim_id) (auto simp: is_space_def)
  moreover have "dur_Format show_std d \<noteq> ''''" "hd (dur_Format show_std d) = (if d < 0 then CHR ''-'' else digit_char k)"
    unfolding fmt using k(2) by auto
  moreover have "hasExtendedUnit ?t" by (rule hasExtended_digits [OF _ fmt_digits u(1)]) simp
  moreover have "parse_terms 0 '''' ?t = Inr (e, '''')" using term_round_trip [OF u(1), of n] n(1) e by simp
  moreover have "wrap64 (- e) = - e" using e by (intro wrap64_id) (use int64_small [of e] in \<open>auto simp: int64_def minInt64_def maxInt64_def\<close>)
  ultimately show ?thesis using digit_char_not_sign [OF k(1)] unfolding fmt by (auto simp: dur_Parse_def Let_def e_def)
qed

lemma month_text: "dur_Parse std ''1mon'' = Inr unit_Month"
proof -
  have "trimSpace ''1mon'' = ''1mon''" by (rule trim_id) (simp_all add: is_space_def)
  moreover have "parse_terms 0 '''' (fmt_uint 10 1 @ ''mon'') = Inr (unit_Month, '''')"
    using term_round_trip [of "''mon''" unit_Month 1] by (simp add: extended_units_def maxDuration_def unit_Year_def unit_Month_def unit_Day_def)
  moreover have "fmt_uint 10 1 = ''1''" by (simp add: fmt_uint_small digit_char_def char_of_def bit_simps)
  ultimately show ?thesis by (simp add: dur_Parse_def Let_def hasPrefix_def dur_digit_def dec_digit_def)
qed

theorem parsed_duration_bounded_witness: "dur_Parse (\<lambda>_. None) ''1mon'' = Inr unit_Month \<and> \<bar>unit_Month\<bar> \<le> maxDuration"
  using parsed_duration_bounded [of "\<lambda>_. None" "''1mon''" unit_Month] month_text by simp

theorem duration_round_trip_witness: "dur_Parse (\<lambda>_. None) (dur_Format (\<lambda>_. '''') (- (90 * unit_Day))) = Inr (- (90 * unit_Day))"
  by (rule duration_round_trip) (simp_all add: maxDuration_def unit_Year_def unit_Day_def)

end
