(* ===== verification/Admin_Api.thy ===== *)
theory Admin_Api
  imports Engine_Admin Intel_Feeds Durations Http_Server "HOL-Library.Product_Lexorder"
begin

text \<open>
  The authenticated admin API (\<^verbatim>\<open>transport/http/admin.go\<close>): the bearer check, the block endpoints, the feed of recent decisions
  with its filters, the offender ranking, key rotation, reload, the attack posture and the intel lookup. The
  handlers call the engine (\<open>Engine_Admin\<close>, \<open>Pipeline\<close>), the duration parser (\<open>Durations\<close>), the ring (\<open>Recent_Ring\<close>),
  the key manager (\<open>Pow_Keys\<close>), the posture detector (\<open>Attack_Mode\<close>) and the intel provider (\<open>Intel_Feeds\<close>). A reply is a status code with the
  value the handler hands to the JSON encoder. The JSON decoder, the standard duration parser, the cross-origin check
  of the standard library and the reload closures of the daemon are parameters.
\<close>

section \<open>Requests and replies\<close>

datatype admin_error =
    EUnauthorized | ECrossOrigin | EInvalidIP | EMalformed | EInvalidTTL duration_error | ETTLZero | ETTLLong | EReasonText
  | EStoreFailed store_error | EResetBackoff | ELimitRange | ELimitPositive | EView | EBlankCategory | ECountry
  | ENoPow | ENoKeyFile | ENoKeyDir | ERotate key_error | ENoReload | EReloadFailed string | ENoAttack | ELevel

record ranked_entry =
  cn_Key :: string
  cn_Count :: int

record offender_ip =
  oi_IP :: string
  oi_Count :: int
  oi_Info :: intel_info

record offender_lists =
  ol_window :: nat
  ol_ips :: "offender_ip list"
  ol_reasons :: "ranked_entry list"
  ol_paths :: "ranked_entry list"
  ol_user_agents :: "ranked_entry list"
  ol_hosts :: "ranked_entry list"
  ol_countries :: "ranked_entry list option"

record window_view =
  wv_Available :: nat
  wv_Capacity :: nat
  wv_Full :: bool
  wv_StartedAt :: nanos
  wv_Oldest :: "nanos option"
  wv_Newest :: "nanos option"

type_synonym 'r decisions_page = "'r list \<times> nat \<times> bool \<times> window_view"

datatype admin_body =
    AdminError admin_error
  | DetailBody block_detail
  | BlockedBody string string nanos
  | UnblockedBody string unblock_reset
  | BlocksBody "block_entry list" bool
  | CompactBody "(nanos \<times> string \<times> string) decisions_page"
  | DecisionsBody "(recent_decision \<times> intel_info) decisions_page"
  | OffendersBody offender_lists
  | RotatedBody
  | ReloadedBody
  | PreflightBody bool "string list"
  | AttackDisabled
  | AttackBody posture bool signals
  | PinBody bool string
  | IntelBody "intel_status option"
  | IntelLookupBody string "(intel_info \<times> (string \<times> string) list) option"

type_synonym admin_reply = "nat \<times> admin_body"

text \<open>What one request sees: clocks, the configuration, the ring, the loaded intel, random material and the parameters.\<close>

record ('s, 'k) admin_env =
  ae_ops :: "'s store_ops"
  ae_scans :: "'s scan_ops"
  ae_votes :: "'s vote_ops option"
  ae_now :: nanos
  ae_commit :: nanos
  ae_hash :: row_hash
  ae_hold :: nanos
  ae_owner :: "64 word"
  ae_holdGeneration :: bytes
  ae_generation :: bytes
  ae_snap :: "config option"
  ae_ring :: recent_ring
  ae_intel :: "provider option"
  ae_token :: string
  ae_keyPath :: string
  ae_prevDir :: string
  ae_powEnv :: "'k pow_env"
  ae_rotateErr :: "key_error option"
  ae_disk :: "'k disk"
  ae_parseStd :: "string \<Rightarrow> int option"
  ae_unmarshalBlock :: "bytes \<Rightarrow> (string \<times> string) option"
  ae_unmarshalPin :: "bytes \<Rightarrow> (string \<times> string) option"
  ae_reload :: "(('s, 'k) pipe_state \<Rightarrow> string option \<times> ('s, 'k) pipe_state) option"
  ae_preflight :: "(string + string list) option"
  ae_crossOrigin :: "http_request \<Rightarrow> bool"

type_synonym ('s, 'k) admin_handler =
  "('s, 'k) admin_env \<Rightarrow> http_request \<Rightarrow> ('s, 'k) pipe_state \<Rightarrow> admin_reply \<times> ('s, 'k) pipe_state"

definition admin_auth :: "('s, 'k) admin_handler \<Rightarrow> ('s, 'k) admin_handler" where
  "admin_auth h env q st =
     (let bearer = ''Bearer '';
          got = hdr_Get (hq_Header q) ''Authorization''
      in if \<not> hasPrefix got bearer \<or> length got \<le> length bearer \<or> drop (length bearer) got \<noteq> ae_token env
         then ((401, AdminError EUnauthorized), st) else h env q st)"

definition query_has :: "http_request \<Rightarrow> string \<Rightarrow> bool" where
  "query_has q k = (map_of (hq_Query q) k \<noteq> None)"

section \<open>Blocks\<close>

definition canonicalAdminIP :: "string \<Rightarrow> string option" where
  "canonicalAdminIP raw = map_option (\<lambda>addr. addr_String (Unmap addr)) (ParseAddr raw)"

definition handleBlockStatus :: "string \<Rightarrow> ('s, 'k) admin_handler" where
  "handleBlockStatus raw env q st =
     (case canonicalAdminIP raw of
        None \<Rightarrow> ((400, AdminError EInvalidIP), st)
      | Some ip \<Rightarrow>
          (case BlockDetailFor (ae_ops env) (ae_scans env) (ae_now env) ip (pl_store st) of
             (Inl err, s) \<Rightarrow> ((500, AdminError (EStoreFailed err)), st\<lparr>pl_store := s\<rparr>)
           | (Inr detail, s) \<Rightarrow> ((200, DetailBody detail), st\<lparr>pl_store := s\<rparr>)))"

definition reason_refused :: "string \<Rightarrow> bool" where
  "reason_refused reason \<longleftrightarrow> 200 < length reason \<or> (\<exists>c \<in> set reason. (of_char c :: nat) < 0x20 \<or> (of_char c :: nat) = 0x7f)"

definition block_body :: "('s, 'k) admin_env \<Rightarrow> bytes \<Rightarrow> (string \<times> string) option" where
  "block_body env raw =
     (if 4096 < length raw then None else if trimSpace raw = [] then Some ('''', '''') else ae_unmarshalBlock env raw)"

definition handleBlock :: "string \<Rightarrow> ('s, 'k) admin_handler" where
  "handleBlock raw env q st =
     (case canonicalAdminIP raw of
        None \<Rightarrow> ((400, AdminError EInvalidIP), st)
      | Some ip \<Rightarrow>
          (case block_body env (hq_Body q) of
             None \<Rightarrow> ((400, AdminError EMalformed), st)
           | Some (reason0, ttl0) \<Rightarrow>
               (case (if ttl0 \<noteq> '''' then dur_Parse (ae_parseStd env) ttl0 else Inr (24 * hour)) of
                  Inl err \<Rightarrow> ((400, AdminError (EInvalidTTL err)), st)
                | Inr ttl \<Rightarrow>
                    (if ttl \<le> 0 then ((400, AdminError ETTLZero), st)
                     else if MaxStateTTL < ttl then ((400, AdminError ETTLLong), st)
                     else let reason = (if reason0 = '''' then ''admin'' else reason0)
                          in if reason_refused reason then ((400, AdminError EReasonText), st)
                             else (case BlockIP (ae_ops env) (ae_now env) ip reason ttl (ae_owner env) st of
                                     (Inl err, st') \<Rightarrow> ((500, AdminError (EStoreFailed err)), st')
                                   | (Inr _, st') \<Rightarrow> ((200, BlockedBody ip reason ttl), st'))))))"

definition strconv_ParseBool :: "string \<Rightarrow> bool option" where
  "strconv_ParseBool s =
     (if s \<in> {''1'', ''t'', ''T'', ''true'', ''TRUE'', ''True''} then Some True
      else if s \<in> {''0'', ''f'', ''F'', ''false'', ''FALSE'', ''False''} then Some False else None)"

definition handleUnblock :: "string \<Rightarrow> ('s, 'k) admin_handler" where
  "handleUnblock raw env q st =
     (case canonicalAdminIP raw of
        None \<Rightarrow> ((400, AdminError EInvalidIP), st)
      | Some ip \<Rightarrow>
          (let arg = query_get q ''reset_backoff''
           in case (if arg \<noteq> '''' then strconv_ParseBool arg else Some True) of
                None \<Rightarrow> ((400, AdminError EResetBackoff), st)
              | Some resetBackoff \<Rightarrow>
                  (case UnblockIP (ae_ops env) (ae_hash env) (ae_hold env) (ae_now env) (ae_commit env) (ae_snap env) (ae_ring env) ip
                          resetBackoff (ae_holdGeneration env) (ae_generation env) st of
                     (Inl err, out, st') \<Rightarrow> ((500, AdminError (EStoreFailed err)), st')
                   | (Inr _, out, st') \<Rightarrow> ((200, UnblockedBody ip out), st'))))"

definition defaultBlockListLimit :: int where "defaultBlockListLimit = 1000"
definition maxBlockListLimit :: int where "maxBlockListLimit = 10000"

definition handleBlockList :: "('s, 'k) admin_handler" where
  "handleBlockList env q st =
     (let arg = query_get q ''limit'';
          limit = (if arg = '''' then Some defaultBlockListLimit
                   else case parse_int64 arg of
                          None \<Rightarrow> None
                        | Some n \<Rightarrow> (if n < 1 \<or> maxBlockListLimit < n then None else Some n))
      in case limit of
           None \<Rightarrow> ((400, AdminError ELimitRange), st)
         | Some n \<Rightarrow>
             (case ListBlocksLimit (ae_scans env) (ae_now env) n (pl_store st) of
                (Inl err, s) \<Rightarrow> ((500, AdminError (EStoreFailed err)), st\<lparr>pl_store := s\<rparr>)
              | (Inr (blocks, whole), s) \<Rightarrow> ((200, BlocksBody blocks whole), st\<lparr>pl_store := s\<rparr>)))"

section \<open>The feed of recent decisions\<close>

definition reasonCat :: "string \<Rightarrow> string" where
  "reasonCat reason = before_byte (CHR '':'') reason"

definition normalizePath :: "string \<Rightarrow> string" where
  "normalizePath uri0 =
     (let uri1 = before_byte (CHR ''?'') uri0;
          uri = (if uri1 = '''' then ''/'' else uri1)
      in if 128 < length uri then take 128 uri @ [CHR 0xE2, CHR 0x80, CHR 0xA6] else uri)"

definition recentWindow :: "recent_snapshot \<Rightarrow> window_view" where
  "recentWindow snap =
     \<lparr>wv_Available = length (sn_Decisions snap), wv_Capacity = sn_Capacity snap, wv_Full = sn_Full snap, wv_StartedAt = sn_StartedAt snap,
      wv_Oldest = (if sn_Decisions snap = [] then None else Some (rd_Time (List.last (sn_Decisions snap)))),
      wv_Newest = (if sn_Decisions snap = [] then None else Some (rd_Time (hd (sn_Decisions snap))))\<rparr>"

text \<open>
  Uppercasing a country code. Beside the ASCII letters, the dotless i and the long s are the two characters whose upper case is an ASCII
  letter; every other character stays outside ASCII, which the check after it refuses.
\<close>

fun upper_code :: "string \<Rightarrow> string" where
  "upper_code (c # d # s) =
     (if c = CHR 0xC4 \<and> d = CHR 0xB1 then CHR ''I'' # upper_code s
      else if c = CHR 0xC5 \<and> d = CHR 0xBF then CHR ''S'' # upper_code s
      else ascii_upper c # upper_code (d # s))"
| "upper_code s = map ascii_upper s"

definition alpha2 :: "string \<Rightarrow> bool" where
  "alpha2 c \<longleftrightarrow> length c = 2 \<and> list_all (\<lambda>x. 65 \<le> (of_char x :: nat) \<and> (of_char x :: nat) \<le> 90) c"

record decision_query =
  dq_limit :: nat
  dq_compact :: bool
  dq_action :: string
  dq_reason :: string
  dq_category :: string
  dq_host :: "string option"
  dq_path :: "string option"
  dq_ua :: "string option"
  dq_country :: string
  dq_ip :: string

definition query_limit :: "http_request \<Rightarrow> nat option" where
  "query_limit q =
     (let v = query_get q ''limit''
      in if v = '''' then Some 50
         else if v = ''all'' then Some 0
         else case parse_int64 v of None \<Rightarrow> None | Some n \<Rightarrow> (if n < 1 then None else Some (nat n)))"

definition query_map :: "http_request \<Rightarrow> string \<Rightarrow> (string \<Rightarrow> string) \<Rightarrow> string option" where
  "query_map q k f = (if query_has q k then Some (f (query_get q k)) else None)"

definition decision_filters :: "http_request \<Rightarrow> admin_error + decision_query" where
  "decision_filters q =
     (case query_limit q of
        None \<Rightarrow> Inl ELimitPositive
      | Some limit \<Rightarrow>
          (let kind = query_get q ''view'';
               category = query_get q ''reason_category'';
               country = upper_code (query_get q ''country'');
               ip = query_get q ''ip''
           in if kind \<noteq> '''' \<and> kind \<noteq> ''compact'' then Inl EView
              else if query_has q ''reason_category'' \<and> category = '''' then Inl EBlankCategory
              else if query_has q ''country'' \<and> \<not> alpha2 country then Inl ECountry
              else case (if ip \<noteq> '''' then canonicalAdminIP ip else Some '''') of
                     None \<Rightarrow> Inl EInvalidIP
                   | Some ip' \<Rightarrow>
                       Inr \<lparr>dq_limit = limit, dq_compact = (kind = ''compact''), dq_action = query_get q ''action'', dq_reason = query_get q ''reason'',
                            dq_category = category, dq_host = query_map q ''host'' NormalizeHost, dq_path = query_map q ''path'' normalizePath,
                            dq_ua = query_map q ''ua'' id, dq_country = country, dq_ip = ip'\<rparr>))"

text \<open>Intel is looked up once for every address of a request.\<close>

type_synonym info_memo = "(string, intel_info) gomap"

definition lookup_row :: "provider option \<Rightarrow> string \<Rightarrow> intel_info" where
  "lookup_row p ip =
     (if p = None then no_info else case ParseAddr ip of None \<Rightarrow> no_info | Some addr \<Rightarrow> pv_Lookup p addr)"

definition lookupInfo :: "provider option \<Rightarrow> string \<Rightarrow> info_memo \<Rightarrow> intel_info \<times> info_memo" where
  "lookupInfo p ip memo =
     (case map_of memo ip of
        Some info \<Rightarrow> (info, memo)
      | None \<Rightarrow> (let info = lookup_row p ip in (info, mput ip info memo)))"

definition row_filters :: "decision_query \<Rightarrow> recent_decision \<Rightarrow> bool" where
  "row_filters f d \<longleftrightarrow>
     (dq_action f = '''' \<or> rd_Action d = dq_action f) \<and>
     (dq_reason f = '''' \<or> hasPrefix (rd_Reason d) (dq_reason f)) \<and>
     (dq_category f = '''' \<or> reasonCat (rd_Reason d) = dq_category f) \<and>
     (case dq_host f of None \<Rightarrow> True | Some h \<Rightarrow> NormalizeHost (rd_Host d) = h) \<and>
     (case dq_path f of None \<Rightarrow> True | Some p \<Rightarrow> normalizePath (rd_URI d) = p) \<and>
     (case dq_ua f of None \<Rightarrow> True | Some u \<Rightarrow> rd_UA d = u)"

definition row_matches :: "provider option \<Rightarrow> decision_query \<Rightarrow> recent_decision \<Rightarrow> info_memo \<Rightarrow> bool \<times> info_memo" where
  "row_matches p f d memo =
     (if \<not> row_filters f d then (False, memo)
      else if dq_country f = '''' then (dq_ip f = '''' \<or> rd_IP d = dq_ip f, memo)
      else case lookupInfo p (rd_IP d) memo of
             (info, memo') \<Rightarrow> (ii_Country info = dq_country f \<and> (dq_ip f = '''' \<or> rd_IP d = dq_ip f), memo'))"

fun compact_loop ::
  "provider option \<Rightarrow> decision_query \<Rightarrow> nat \<Rightarrow> recent_decision list \<Rightarrow> info_memo \<Rightarrow> nat \<Rightarrow> (nanos \<times> string \<times> string) list \<Rightarrow>
     nat \<times> (nanos \<times> string \<times> string) list" where
  "compact_loop p f limit [] memo matched out = (matched, out)"
| "compact_loop p f limit (d # ds) memo matched out =
     (case row_matches p f d memo of
        (False, memo') \<Rightarrow> compact_loop p f limit ds memo' matched out
      | (True, memo') \<Rightarrow>
          compact_loop p f limit ds memo' (Suc matched)
            (if length out < limit then out @ [(rd_Time d, rd_Action d, rd_Reason d)] else out))"

fun detail_loop ::
  "provider option \<Rightarrow> decision_query \<Rightarrow> nat \<Rightarrow> recent_decision list \<Rightarrow> info_memo \<Rightarrow> nat \<Rightarrow> (recent_decision \<times> intel_info) list \<Rightarrow>
     nat \<times> (recent_decision \<times> intel_info) list" where
  "detail_loop p f limit [] memo matched out = (matched, out)"
| "detail_loop p f limit (d # ds) memo matched out =
     (case row_matches p f d memo of
        (False, memo') \<Rightarrow> detail_loop p f limit ds memo' matched out
      | (True, memo') \<Rightarrow>
          (if length out = limit then detail_loop p f limit ds memo' (Suc matched) out
           else if p = None then detail_loop p f limit ds memo' (Suc matched) (out @ [(d, no_info)])
           else case lookupInfo p (rd_IP d) memo' of
                  (info, memo'') \<Rightarrow> detail_loop p f limit ds memo'' (Suc matched) (out @ [(d, info)])))"

definition handleDecisions :: "('s, 'k) admin_handler" where
  "handleDecisions env q st =
     (case decision_filters q of
        Inl err \<Rightarrow> ((400, AdminError err), st)
      | Inr f \<Rightarrow>
          (let snap = rg_snapshot 0 (ae_ring env);
               rows = sn_Decisions snap;
               limit = (if dq_limit f = 0 \<or> length rows < dq_limit f then length rows else dq_limit f)
           in if dq_compact f
              then (case compact_loop (ae_intel env) f limit rows [] 0 [] of
                      (matched, out) \<Rightarrow> ((200, CompactBody (out, matched, length out < matched, recentWindow snap)), st))
              else (case detail_loop (ae_intel env) f limit rows [] 0 [] of
                      (matched, out) \<Rightarrow> ((200, DecisionsBody (out, matched, length out < matched, recentWindow snap)), st))))"

section \<open>The offender ranking\<close>

definition offenderTopK :: nat where "offenderTopK = 15"

record offender_counts =
  oc_window :: nat
  oc_byIP :: "(string, int) gomap"
  oc_byReason :: "(string, int) gomap"
  oc_byPath :: "(string, int) gomap"
  oc_byUA :: "(string, int) gomap"
  oc_byHost :: "(string, int) gomap"

definition count_of :: "string \<Rightarrow> (string, int) gomap \<Rightarrow> int" where
  "count_of k m = (case map_of m k of None \<Rightarrow> 0 | Some n \<Rightarrow> n)"

definition add_count :: "string \<Rightarrow> int \<Rightarrow> (string, int) gomap \<Rightarrow> (string, int) gomap" where
  "add_count k n m = mput k (count_of k m + n) m"

definition count_row :: "recent_decision \<Rightarrow> offender_counts \<Rightarrow> offender_counts" where
  "count_row d c =
     (if IsOutcomeAction (rd_Action d) then c
      else c\<lparr>oc_window := Suc (oc_window c), oc_byIP := add_count (rd_IP d) 1 (oc_byIP c),
             oc_byReason := add_count (reasonCat (rd_Reason d)) 1 (oc_byReason c), oc_byPath := add_count (normalizePath (rd_URI d)) 1 (oc_byPath c),
             oc_byUA := add_count (rd_UA d) 1 (oc_byUA c), oc_byHost := add_count (NormalizeHost (rd_Host d)) 1 (oc_byHost c)\<rparr>)"

definition no_counts :: offender_counts where
  "no_counts = \<lparr>oc_window = 0, oc_byIP = [], oc_byReason = [], oc_byPath = [], oc_byUA = [], oc_byHost = []\<rparr>"

definition topKEntries :: "(string, int) gomap \<Rightarrow> nat \<Rightarrow> ranked_entry list" where
  "topKEntries counts k =
     (let entries = sort_key (\<lambda>e. (- cn_Count e, cn_Key e)) (map (\<lambda>(key, n). \<lparr>cn_Key = key, cn_Count = n\<rparr>) counts)
      in if k < length entries then take k entries else entries)"

fun country_loop :: "provider option \<Rightarrow> (string, int) gomap \<Rightarrow> (string, int) gomap \<Rightarrow> (string, int) gomap" where
  "country_loop p [] m = m"
| "country_loop p ((ip, n) # rest) m =
     (case ParseAddr ip of
        None \<Rightarrow> country_loop p rest m
      | Some addr \<Rightarrow>
          (let cc = ii_Country (pv_Lookup p addr) in country_loop p rest (if cc \<noteq> '''' then add_count cc n m else m)))"

definition handleOffenders :: "('s, 'k) admin_handler" where
  "handleOffenders env q st =
     (let c = fold count_row (sn_Decisions (rg_snapshot 0 (ae_ring env))) no_counts;
          p = ae_intel env;
          ips = map (\<lambda>e. \<lparr>oi_IP = cn_Key e, oi_Count = cn_Count e, oi_Info = lookup_row p (cn_Key e)\<rparr>) (topKEntries (oc_byIP c) offenderTopK);
          byCountry = (if p = None then [] else country_loop p (oc_byIP c) [])
      in ((200, OffendersBody \<lparr>ol_window = oc_window c, ol_ips = ips, ol_reasons = topKEntries (oc_byReason c) offenderTopK,
             ol_paths = topKEntries (oc_byPath c) offenderTopK, ol_user_agents = topKEntries (oc_byUA c) offenderTopK,
             ol_hosts = topKEntries (oc_byHost c) offenderTopK,
             ol_countries = (if byCountry = [] then None else Some (topKEntries byCountry (length byCountry)))\<rparr>), st))"

section \<open>Keys, configuration, posture and intel\<close>

definition handleRotateKey :: "('s, 'k) admin_handler" where
  "handleRotateKey env q st =
     (case pl_pow st of
        None \<Rightarrow> ((503, AdminError ENoPow), st)
      | Some mgr \<Rightarrow>
          (if ae_keyPath env = '''' then ((400, AdminError ENoKeyFile), st)
           else if trimSpace (ae_prevDir env) = '''' then ((400, AdminError ENoKeyDir), st)
           else case Rotate (ae_powEnv env) (ae_rotateErr env) (ae_disk env) (ae_now env) (ae_keyPath env) mgr of
                  (Some err, mgr') \<Rightarrow> ((500, AdminError (ERotate err)), st\<lparr>pl_pow := Some mgr'\<rparr>)
                | (None, mgr') \<Rightarrow> ((200, RotatedBody), st\<lparr>pl_pow := Some mgr'\<rparr>)))"

definition handleReload :: "('s, 'k) admin_handler" where
  "handleReload env q st =
     (case ae_reload env of
        None \<Rightarrow> ((503, AdminError ENoReload), st)
      | Some reload \<Rightarrow>
          (case reload st of
             (Some err, st') \<Rightarrow> ((422, AdminError (EReloadFailed err)), st')
           | (None, st') \<Rightarrow> ((200, ReloadedBody), st')))"

definition handleReloadPreflight :: "('s, 'k) admin_handler" where
  "handleReloadPreflight env q st =
     (case ae_preflight env of
        None \<Rightarrow> ((503, AdminError ENoReload), st)
      | Some (Inl err) \<Rightarrow> ((422, AdminError (EReloadFailed err)), st)
      | Some (Inr changed) \<Rightarrow> ((200, PreflightBody (changed = []) changed), st))"

definition handleAttack :: "('s, 'k) admin_handler" where
  "handleAttack env q st =
     (case pl_attack st of
        None \<Rightarrow> ((200, AttackDisabled), st)
      | Some d \<Rightarrow> ((200, AttackBody (dt_state d) (snd (am_Pinned d)) (dt_sig d)), st))"

definition pin_ttl :: "('s, 'k) admin_env \<Rightarrow> string \<Rightarrow> admin_error + nanos" where
  "pin_ttl env t =
     (if t = '''' then Inr 0
      else case dur_Parse (ae_parseStd env) t of
             Inl err \<Rightarrow> Inl (EInvalidTTL err)
           | Inr ttl \<Rightarrow> (if ttl \<le> 0 then Inl ETTLZero else if MaxStateTTL < ttl then Inl ETTLLong else Inr ttl))"

definition handleAttackSet :: "('s, 'k) admin_handler" where
  "handleAttackSet env q st =
     (case pl_attack st of
        None \<Rightarrow> ((409, AdminError ENoAttack), st)
      | Some d \<Rightarrow>
          (case (if 4096 < length (hq_Body q) then None else ae_unmarshalPin env (hq_Body q)) of
             None \<Rightarrow> ((400, AdminError EMalformed), st)
           | Some (level0, ttl0) \<Rightarrow>
               (case ParseLevel level0 of
                  (level, auto, ok) \<Rightarrow>
                    (if \<not> ok then ((400, AdminError ELevel), st)
                     else if auto
                     then (let d' = am_Unpin (ae_now env) d
                           in ((200, PinBody False (level_String (ps_Level (dt_state d')))), st\<lparr>pl_attack := Some d'\<rparr>))
                     else case pin_ttl env ttl0 of
                            Inl err \<Rightarrow> ((400, AdminError err), st)
                          | Inr ttl \<Rightarrow>
                              (case am_Pin (ae_votes env) (ae_now env) level ttl (d, pl_store st) of
                                 (d', s') \<Rightarrow> ((200, PinBody True (level_String level)), st\<lparr>pl_attack := Some d', pl_store := s'\<rparr>))))))"

definition handleIntel :: "('s, 'k) admin_handler" where
  "handleIntel env q st =
     ((200, IntelBody (if ae_intel env = None then None else Some (pv_Status (ae_intel env)))), st)"

definition handleIntelLookup :: "string \<Rightarrow> ('s, 'k) admin_handler" where
  "handleIntelLookup ip env q st =
     (case ParseAddr ip of
        None \<Rightarrow> ((400, AdminError EInvalidIP), st)
      | Some addr \<Rightarrow>
          (if ae_intel env = None then ((200, IntelLookupBody ip None), st)
           else ((200, IntelLookupBody ip (Some (pv_Lookup (ae_intel env) addr, FeedHits (ae_intel env) addr))), st)))"

text \<open>
  The modelled routes of \<^verbatim>\<open>NewAdminServer\<close> behind the cross-origin check; the path is given by its decoded segments. Other routes and
  the router's own answers have no value.
\<close>

definition admin_routes :: "string \<Rightarrow> string list \<Rightarrow> ('s, 'k) admin_handler option" where
  "admin_routes method segs =
     (let get = (method = ''GET'' \<or> method = ''HEAD'');
          ip = segs ! 2
      in if segs = [''admin'', ''blocks''] \<and> get then Some handleBlockList
         else if length segs = 3 \<and> take 2 segs = [''admin'', ''blocks''] \<and> ip \<noteq> '''' \<and> get then Some (handleBlockStatus ip)
         else if length segs = 3 \<and> take 2 segs = [''admin'', ''blocks''] \<and> ip \<noteq> '''' \<and> method = ''PUT'' then Some (handleBlock ip)
         else if length segs = 3 \<and> take 2 segs = [''admin'', ''blocks''] \<and> ip \<noteq> '''' \<and> method = ''DELETE'' then Some (handleUnblock ip)
         else if segs = [''admin'', ''decisions''] \<and> get then Some handleDecisions
         else if segs = [''admin'', ''offenders''] \<and> get then Some handleOffenders
         else if segs = [''admin'', ''rotate-key''] \<and> method = ''POST'' then Some handleRotateKey
         else if segs = [''admin'', ''reload''] \<and> method = ''POST'' then Some handleReload
         else if segs = [''admin'', ''reload'', ''preflight''] \<and> get then Some handleReloadPreflight
         else if segs = [''admin'', ''intel''] \<and> get then Some handleIntel
         else if length segs = 3 \<and> take 2 segs = [''admin'', ''intel''] \<and> ip \<noteq> '''' \<and> get then Some (handleIntelLookup ip)
         else if segs = [''admin'', ''attack''] \<and> get then Some handleAttack
         else if segs = [''admin'', ''attack''] \<and> method = ''POST'' then Some handleAttackSet
         else None)"

definition adminHTTP ::
  "('s, 'k) admin_env \<Rightarrow> string list \<Rightarrow> http_request \<Rightarrow> ('s, 'k) pipe_state \<Rightarrow> (admin_reply \<times> ('s, 'k) pipe_state) option" where
  "adminHTTP env segs q st =
     (if ae_crossOrigin env q then Some ((403, AdminError ECrossOrigin), st)
      else map_option (\<lambda>h. admin_auth h env q st) (admin_routes (hq_Method q) segs))"

section \<open>A manual block\<close>

lemma reason_accepted: "\<not> reason_refused reason \<Longrightarrow> blockValueSep \<notin> set reason"
  by (force simp: reason_refused_def blockValueSep_def)

lemma handleBlock_cases:
  assumes "handleBlock raw env q st = ((code, body), st1)"
  shows "(code = 400 \<and> st1 = st) \<or>
    (\<exists>a reason ttl r. ParseAddr raw = Some a \<and> 0 < ttl \<and> ttl \<le> MaxStateTTL \<and> \<not> reason_refused reason \<and>
       BlockIP (ae_ops env) (ae_now env) (addr_String (Unmap a)) reason ttl (ae_owner env) st = (r, st1) \<and>
       (r = Inr () \<longrightarrow> code = 200 \<and> body = BlockedBody (addr_String (Unmap a)) reason ttl))"
proof (cases "canonicalAdminIP raw")
  case (Some ip)
  then obtain a where a: "ParseAddr raw = Some a" "ip = addr_String (Unmap a)" by (auto simp: canonicalAdminIP_def)
  show ?thesis
  proof (cases "block_body env (hq_Body q)")
    case (Some b)
    obtain reason0 ttl0 where b: "b = (reason0, ttl0)" by fastforce
    define reason where "reason = (if reason0 = '''' then ''admin'' else reason0)"
    obtain t where t: "(if ttl0 \<noteq> '''' then dur_Parse (ae_parseStd env) ttl0 else Inr (24 * hour)) = t" by blast
    obtain r st' where r: "BlockIP (ae_ops env) (ae_now env) ip reason (projr t) (ae_owner env) st = (r, st')" by fastforce
    from assms \<open>canonicalAdminIP raw = Some ip\<close> Some b t r
    have "(code = 400 \<and> st1 = st) \<or> (0 < projr t \<and> projr t \<le> MaxStateTTL \<and> \<not> reason_refused reason \<and> st' = st1 \<and>
        (r = Inr () \<longrightarrow> code = 200 \<and> body = BlockedBody ip reason (projr t)))"
      by (cases t; cases r) (simp_all add: handleBlock_def Let_def flip: reason_def split: if_splits)
    then show ?thesis using a r by blast
  qed (use assms Some in \<open>simp add: handleBlock_def\<close>)
qed (use assms in \<open>simp add: handleBlock_def\<close>)

lemma stored_block:
  assumes "BlockIP sm_ops now ip reason ttl tok st = (r, st1)" "sm_ok (pl_store st)" "0 < ttl"
  shows "r = Inr ()" "sm_ok (pl_store st1)"
    "\<And>t. now \<le> t \<Longrightarrow> sm_live (pl_store st1) t (BlockKey ip) =
       (if t \<le> now + ttl then Some \<lparr>e_value = BlockValue reason tok, e_expiresAt = Some (now + ttl)\<rparr> else None)"
proof -
  obtain x s' where s: "st_Set sm_ops now (BlockKey ip) (BlockValue reason tok) ttl (pl_store st) = (x, s')" by fastforce
  note v = mem.set_value [OF assms(2), of now "BlockKey ip" "BlockValue reason tok" ttl, unfolded s refines_def]
  have "x = Inr ()" using v by (simp add: spec_Set_def)
  then have r: "r = Inr ()" "pl_store st1 = s'" using assms(1) s by (auto simp: BlockIP_def)
  show "r = Inr ()" "sm_ok (pl_store st1)" using r v by simp_all
  show "sm_live (pl_store st1) t (BlockKey ip) =
       (if t \<le> now + ttl then Some \<lparr>e_value = BlockValue reason tok, e_expiresAt = Some (now + ttl)\<rparr> else None)" if "now \<le> t" for t
    using v that r(2) assms(3) by (auto simp: spec_Set_def unexpired_def entry_expired_def expiry_def)
qed

lemma canon_admin: "ParseAddr raw = Some a \<Longrightarrow> canonIP (addr_String (Unmap a)) = addr_String (Unmap a) \<and> addr_String (Unmap a) \<noteq> ''''"
proof -
  assume a: "ParseAddr raw = Some a"
  then have p: "ParseAddr (addr_String (Unmap a)) = Some (Unmap a)" using ParseAddr_String ParseAddr_ok by blast
  moreover have "ParseAddr '''' = None" by code_simp
  moreover have "Unmap (Unmap a) = Unmap a" by (cases a) auto
  ultimately show ?thesis by (auto simp: canonIP_def)
qed

lemma status_of_block:
  assumes "sm_ok (pl_store st)" "ae_ops env = sm_ops" "ae_scans env = sm_scans" "ParseAddr raw = Some a"
  shows "\<exists>d. fst (handleBlockStatus raw env q st) = (200, DetailBody d) \<and> bd_IP d = addr_String (Unmap a) \<and>
    bd_Blocked d = (sm_live (pl_store st) (ae_now env) (BlockKey (addr_String (Unmap a))) \<noteq> None) \<and>
    (\<forall>e. sm_live (pl_store st) (ae_now env) (BlockKey (addr_String (Unmap a))) = Some e \<longrightarrow>
       bd_Reason d = BlockReason (e_value e) \<and> bd_ExpiresAt d = e_expiresAt e)"
proof -
  note c = canon_admin [OF assms(4)]
  obtain d s where d: "BlockDetailFor sm_ops sm_scans (ae_now env) (addr_String (Unmap a)) (pl_store st) = (Inr d, s)"
      "bd_IP d = addr_String (Unmap a)"
      "bd_Blocked d = (sm_live (pl_store st) (ae_now env) (BlockKey (addr_String (Unmap a))) \<noteq> None)"
      "\<And>e. sm_live (pl_store st) (ae_now env) (BlockKey (addr_String (Unmap a))) = Some e \<Longrightarrow> bd_Reason d = BlockReason (e_value e) \<and> bd_ExpiresAt d = e_expiresAt e"
    using block_detail_exact [OF assms(1), of "addr_String (Unmap a)" "ae_now env"] c by (metis prod.collapse)
  then show ?thesis using assms(2-4) by (simp add: handleBlockStatus_def canonicalAdminIP_def)
qed

definition block_reported :: "addr \<Rightarrow> string \<Rightarrow> nanos \<Rightarrow> nanos \<Rightarrow> (sharded_memory, 'k) pipe_state \<Rightarrow> bool" where
  "block_reported a reason start until st \<longleftrightarrow>
     (\<forall>ip b env q. ParseAddr ip = Some b \<and> Unmap b = Unmap a \<and> ae_ops env = sm_ops \<and> ae_scans env = sm_scans \<and> start \<le> ae_now env \<longrightarrow>
        (\<exists>d. fst (handleBlockStatus ip env q st) = (200, DetailBody d) \<and> bd_Blocked d = (ae_now env \<le> until) \<and>
           (bd_Blocked d \<longrightarrow> bd_Reason d = reason \<and> bd_ExpiresAt d = Some until)))"

lemma auth_passed:
  assumes "admin_auth h env q st = ((code, body), st1)"
  shows "(code = 401 \<and> st1 = st) \<or>
    (hdr_Get (hq_Header q) ''Authorization'' = ''Bearer '' @ ae_token env \<and> h env q st = ((code, body), st1))"
  using assms by (auto simp: admin_auth_def Let_def hasPrefix_def prefix_def split: if_splits)

lemma put_route:
  assumes "adminHTTP env [''admin'', ''blocks'', raw] q st = Some r" "hq_Method q = ''PUT''"
  shows "r = ((403, AdminError ECrossOrigin), st) \<or> r = admin_auth (handleBlock raw) env q st"
  using assms by (auto simp: adminHTTP_def admin_routes_def Let_def split: if_splits)

text \<open>
  C26 (functional). A manual block is acknowledged exactly when it is in force, and it always ends: an answer of 200 was sent to the holder of the
  token, and from then on looking the address up in any spelling reports the block with the acknowledged reason and the end of the acknowledged
  lifetime, which is positive and at most a year, up to that end and no longer. Every other answer, to a caller without the
  token, from a foreign origin, or for an address, body, lifetime or reason that is not accepted, leaves the engine exactly as it was; the in-memory
  store itself never fails the request.
\<close>

theorem admin_block_is_temporary:
  fixes env :: "(sharded_memory, 'k) admin_env"
  assumes "adminHTTP env [''admin'', ''blocks'', raw] q st = Some ((code, body), st1)" "hq_Method q = ''PUT''"
    and "ae_ops env = sm_ops" "sm_ok (pl_store st)"
  shows "if code = 200
    then \<exists>a reason ttl. ParseAddr raw = Some a \<and> body = BlockedBody (addr_String (Unmap a)) reason ttl \<and> 0 < ttl \<and> ttl \<le> MaxStateTTL \<and>
      hdr_Get (hq_Header q) ''Authorization'' = ''Bearer '' @ ae_token env \<and> block_reported a reason (ae_now env) (ae_now env + ttl) st1
    else code \<in> {400, 401, 403} \<and> st1 = st"
proof -
  consider "code = 403 \<and> st1 = st" | "code = 401 \<and> st1 = st" | "code = 400 \<and> st1 = st"
    | a reason ttl r where "hdr_Get (hq_Header q) ''Authorization'' = ''Bearer '' @ ae_token env" "ParseAddr raw = Some a"
        "0 < ttl" "ttl \<le> MaxStateTTL" "\<not> reason_refused reason"
        "BlockIP (ae_ops env) (ae_now env) (addr_String (Unmap a)) reason ttl (ae_owner env) st = (r, st1)"
        "r = Inr () \<longrightarrow> code = 200 \<and> body = BlockedBody (addr_String (Unmap a)) reason ttl"
    using put_route [OF assms(1,2)] auth_passed [of "handleBlock raw" env q st code body st1] handleBlock_cases [of raw env q st code body st1] by force
  then show ?thesis
  proof cases
    case 4
    note b = stored_block [OF 4(6) [unfolded assms(3)] assms(4) 4(3)]
    have sep: "BlockReason (BlockValue reason (ae_owner env)) = reason" by (rule BlockReason_BlockValue [OF reason_accepted [OF 4(5)]])
    have "block_reported a reason (ae_now env) (ae_now env + ttl) st1" unfolding block_reported_def
    proof (intro allI impI, elim conjE)
      fix ip b q2 and env2 :: "(sharded_memory, 'k) admin_env"
      assume e: "ParseAddr ip = Some b" "Unmap b = Unmap a" "ae_ops env2 = sm_ops" "ae_scans env2 = sm_scans" "ae_now env \<le> ae_now env2"
      show "\<exists>d. fst (handleBlockStatus ip env2 q2 st1) = (200, DetailBody d) \<and> bd_Blocked d = (ae_now env2 \<le> ae_now env + ttl) \<and>
          (bd_Blocked d \<longrightarrow> bd_Reason d = reason \<and> bd_ExpiresAt d = Some (ae_now env + ttl))"
        using status_of_block [OF b(2) e(3,4,1), of q2] b(3) [OF e(5)] sep unfolding e(2) by (auto split: if_splits)
    qed
    then show ?thesis using 4 b(1) by auto
  qed simp_all
qed

section \<open>The decision feed is the filtered ring\<close>

definition row_ok :: "provider option \<Rightarrow> decision_query \<Rightarrow> recent_decision \<Rightarrow> bool" where
  "row_ok p f d \<longleftrightarrow> row_filters f d \<and> (dq_country f = '''' \<or> ii_Country (lookup_row p (rd_IP d)) = dq_country f) \<and>
     (dq_ip f = '''' \<or> rd_IP d = dq_ip f)"

definition memo_sound :: "provider option \<Rightarrow> info_memo \<Rightarrow> bool" where
  "memo_sound p memo \<longleftrightarrow> (\<forall>ip info. map_of memo ip = Some info \<longrightarrow> info = lookup_row p ip)"

lemma lookupInfo_sound:
  assumes "memo_sound p memo" "lookupInfo p ip memo = (info, memo')"
  shows "info = lookup_row p ip \<and> memo_sound p memo'"
  using assms by (auto simp: lookupInfo_def memo_sound_def Let_def gomap_simps split: option.splits if_splits)

lemma row_matches_sound:
  assumes "memo_sound p memo" "row_matches p f d memo = (hit, memo')"
  shows "hit = row_ok p f d \<and> memo_sound p memo'"
  using assms lookupInfo_sound [OF assms(1), of "rd_IP d"] by (auto simp: row_matches_def row_ok_def split: if_splits prod.splits)

lemma compact_loop_exact:
  "memo_sound p memo \<Longrightarrow> length out \<le> limit \<Longrightarrow>
     compact_loop p f limit ds memo matched out =
       (matched + length (filter (row_ok p f) ds),
        out @ take (limit - length out) (map (\<lambda>d. (rd_Time d, rd_Action d, rd_Reason d)) (filter (row_ok p f) ds)))"
proof (induction ds arbitrary: memo matched out)
  case (Cons d ds)
  obtain hit memo' where m: "row_matches p f d memo = (hit, memo')" by fastforce
  note s = row_matches_sound [OF Cons.prems(1) m]
  show ?case using Cons.IH [of memo'] Cons.prems(2) m s by (cases hit) (auto simp: take_Cons' not_less)
qed simp

lemma detail_loop_exact:
  "memo_sound p memo \<Longrightarrow> length out \<le> limit \<Longrightarrow>
     detail_loop p f limit ds memo matched out =
       (matched + length (filter (row_ok p f) ds),
        out @ take (limit - length out) (map (\<lambda>d. (d, lookup_row p (rd_IP d))) (filter (row_ok p f) ds)))"
proof (induction ds arbitrary: memo matched out)
  case (Cons d ds)
  obtain hit memo' where m: "row_matches p f d memo = (hit, memo')" by fastforce
  note s = row_matches_sound [OF Cons.prems(1) m]
  obtain info memo'' where l: "lookupInfo p (rd_IP d) memo' = (info, memo'')" by fastforce
  note i = lookupInfo_sound [OF conjunct2 [OF s] l]
  have "lookup_row None ip = no_info" for ip by (simp add: lookup_row_def)
  then show ?case using Cons.IH [of memo'] Cons.IH [of memo''] Cons.prems(2) m s l i by (cases hit) (auto simp: take_Cons')
qed simp

lemma memo_sound_Nil: "memo_sound p []"
  by (simp add: memo_sound_def)

text \<open>
  The decision feed is exact: with filters that are accepted it answers with the newest rows of the ring that pass every filter,
  newest first and at most as many as asked for, counts all rows that pass, and says that it was cut exactly when it was; remembering the intel of
  an address between rows changes no answer. A refused query has the status 400 and no rows.
\<close>

theorem decisions_page_exact:
  "case decision_filters q of
     Inl err \<Rightarrow> handleDecisions env q st = ((400, AdminError err), st)
   | Inr f \<Rightarrow>
       (let rows = filter (row_ok (ae_intel env) f) (rg_list 0 (ae_ring env));
            page = (if dq_limit f = 0 then rows else take (dq_limit f) rows);
            view = recentWindow (rg_snapshot 0 (ae_ring env))
        in handleDecisions env q st =
             ((200, if dq_compact f
                    then CompactBody (map (\<lambda>d. (rd_Time d, rd_Action d, rd_Reason d)) page, length rows, length page < length rows, view)
                    else DecisionsBody (map (\<lambda>d. (d, lookup_row (ae_intel env) (rd_IP d))) page, length rows, length page < length rows, view)), st))"
proof (cases "decision_filters q")
  case (Inl err)
  then show ?thesis by (simp add: handleDecisions_def)
next
  case (Inr f)
  let ?all = "sn_Decisions (rg_snapshot 0 (ae_ring env))"
  let ?rows = "filter (row_ok (ae_intel env) f) ?all"
  let ?limit = "if dq_limit f = 0 \<or> length ?all < dq_limit f then length ?all else dq_limit f"
  have "length ?rows \<le> length ?all" by (rule length_filter_le)
  then have "take ?limit ?rows = (if dq_limit f = 0 then ?rows else take (dq_limit f) ?rows)" by (auto intro!: take_all [symmetric] le_trans [OF length_filter_le])
  then show ?thesis using Inr compact_loop_exact [OF memo_sound_Nil, of "[]" ?limit "ae_intel env" f ?all 0]
      detail_loop_exact [OF memo_sound_Nil, of "[]" ?limit "ae_intel env" f ?all 0]
    by (simp add: handleDecisions_def rg_list_def Let_def take_map)
qed

text \<open>
  The address filter compares the canonical text of the asked address with the text a row was recorded under: a row recorded under
  another spelling is not found, whichever spelling is asked for.
\<close>

theorem other_spelling_never_listed:
  assumes "decision_filters q = Inr f" "query_get q ''ip'' \<noteq> ''''" "canonIP (rd_IP d) \<noteq> rd_IP d"
  shows "\<not> row_ok p f d"
proof -
  obtain ip a where "ParseAddr ip = Some a" "dq_ip f = addr_String (Unmap a)"
    using assms(1,2) by (auto simp: decision_filters_def canonicalAdminIP_def Let_def split: option.splits if_splits)
  then show ?thesis using canon_admin [of ip a] assms(3) by (auto simp: row_ok_def)
qed

section \<open>The ranking is exact\<close>

definition hits :: "(recent_decision \<Rightarrow> string) \<Rightarrow> recent_decision list \<Rightarrow> string \<Rightarrow> int" where
  "hits f ds k = int (length (filter (\<lambda>d. f d = k) ds))"

definition outranks :: "ranked_entry \<Rightarrow> ranked_entry \<Rightarrow> bool" where
  "outranks e e' \<longleftrightarrow> cn_Count e' < cn_Count e \<or> (cn_Count e = cn_Count e' \<and> cn_Key e < cn_Key e')"

text \<open>The entries are the leading ones of a strict ranking with the right counts, at most \<open>k\<close> of them, and no row outside them would rank higher.\<close>

definition ranking :: "nat \<Rightarrow> (recent_decision \<Rightarrow> string) \<Rightarrow> recent_decision list \<Rightarrow> ranked_entry list \<Rightarrow> bool" where
  "ranking k f ds es \<longleftrightarrow>
     sorted_wrt outranks es \<and> length es \<le> k \<and> (\<forall>e \<in> set es. cn_Count e = hits f ds (cn_Key e) \<and> 0 < cn_Count e) \<and>
     (\<forall>d \<in> set ds. (\<exists>e \<in> set es. cn_Key e = f d) \<or>
        (length es = k \<and> (\<forall>e \<in> set es. outranks e \<lparr>cn_Key = f d, cn_Count = hits f ds (f d)\<rparr>)))"

lemma count_of_add: "count_of k (add_count j n m) = count_of k m + (if k = j then n else 0)"
  by (simp add: count_of_def add_count_def gomap_simps)

lemma mkeys_add_count [simp]: "mkeys (add_count j n m) = insert j (mkeys m)" "map_wf m \<Longrightarrow> map_wf (add_count j n m)"
  by (simp_all add: add_count_def)

lemma counted:
  assumes "map_wf m"
  shows "map_wf (fold (\<lambda>d. add_count (f d) 1) ds m)" "mkeys (fold (\<lambda>d. add_count (f d) 1) ds m) = mkeys m \<union> f ` set ds"
    "count_of k (fold (\<lambda>d. add_count (f d) 1) ds m) = count_of k m + hits f ds k"
  using assms by (induction ds arbitrary: m) (auto simp: count_of_add hits_def)

definition weight :: "(string \<Rightarrow> bool) \<Rightarrow> (string, int) gomap \<Rightarrow> int" where
  "weight P m = sum_list (map snd (filter (\<lambda>kn. P (fst kn)) m))"

lemma weight_add: "weight P (add_count k n m) = weight P m + (if P k then n else 0)"
  by (induction m) (auto simp: weight_def add_count_def count_of_def)

lemma weight_counted: "weight P (fold (\<lambda>d. add_count (f d) 1) ds m) = weight P m + int (length (filter (\<lambda>d. P (f d)) ds))"
  by (induction ds arbitrary: m) (simp_all add: weight_add)

lemma country_loop_Cons:
  "p \<noteq> None \<Longrightarrow> country_loop p ((ip, n) # rest) m =
     (let cc = ii_Country (lookup_row p ip) in country_loop p rest (if cc \<noteq> '''' then add_count cc n m else m))"
  by (auto simp: lookup_row_def no_info_def split: option.splits)

lemma weight_Cons: "weight P ((k, n) # m) = (if P k then n else 0) + weight P m" "weight P [] = 0"
  by (simp_all add: weight_def)

lemma mkeys_Cons: "mkeys ((k, n) # m) = insert k (mkeys m)"
  by (simp add: mkeys_def)

lemma country_loop_exact:
  assumes "p \<noteq> None" "map_wf m"
  shows "map_wf (country_loop p m0 m) \<and> mkeys (country_loop p m0 m) = mkeys m \<union> ((\<lambda>ip. ii_Country (lookup_row p ip)) ` mkeys m0 - {''''}) \<and>
    count_of cc (country_loop p m0 m) = count_of cc m + (if cc = '''' then 0 else weight (\<lambda>ip. ii_Country (lookup_row p ip) = cc) m0)"
  using assms(2)
proof (induction m0 arbitrary: m)
  case (Cons e m0)
  obtain ip n where e: "e = (ip, n)" by fastforce
  show ?case using Cons.IH [of m] Cons.IH [of "add_count (ii_Country (lookup_row p ip)) n m"] Cons.prems
    by (auto simp: e country_loop_Cons [OF assms(1)] Let_def count_of_add weight_Cons mkeys_Cons simp del: country_loop.simps)
qed (simp add: weight_Cons)

definition offences :: "recent_decision list \<Rightarrow> recent_decision list" where
  "offences ds = filter (\<lambda>d. \<not> IsOutcomeAction (rd_Action d)) ds"

lemma count_rows:
  "fold count_row ds c =
     c\<lparr>oc_window := oc_window c + length (offences ds), oc_byIP := fold (\<lambda>d. add_count (rd_IP d) 1) (offences ds) (oc_byIP c),
       oc_byReason := fold (\<lambda>d. add_count (reasonCat (rd_Reason d)) 1) (offences ds) (oc_byReason c),
       oc_byPath := fold (\<lambda>d. add_count (normalizePath (rd_URI d)) 1) (offences ds) (oc_byPath c),
       oc_byUA := fold (\<lambda>d. add_count (rd_UA d) 1) (offences ds) (oc_byUA c),
       oc_byHost := fold (\<lambda>d. add_count (NormalizeHost (rd_Host d)) 1) (offences ds) (oc_byHost c)\<rparr>"
  by (induction ds arbitrary: c) (simp_all add: count_row_def offences_def)

lemma sorted_entries:
  assumes "map_wf m"
  defines "S \<equiv> sort_key (\<lambda>e. (- cn_Count e, cn_Key e)) (map (\<lambda>(key, n). \<lparr>cn_Key = key, cn_Count = n\<rparr>) m)"
  shows "sorted_wrt outranks S" "\<And>e. e \<in> set S \<longleftrightarrow> map_of m (cn_Key e) = Some (cn_Count e)"
proof -
  let ?key = "\<lambda>e :: ranked_entry. (- cn_Count e, cn_Key e)" and ?L = "map (\<lambda>(key, n). \<lparr>cn_Key = key, cn_Count = n\<rparr> :: ranked_entry) m"
  have keys: "map cn_Key ?L = map fst m" by (simp add: case_prod_beta)
  have "distinct (map cn_Key ?L)" unfolding keys using assms(1) by (simp add: map_wf_def)
  then have "distinct (map ?key ?L)" by (auto simp: distinct_map inj_on_def)
  moreover have "distinct (map ?key (sort_key ?key xs)) = distinct (map ?key xs)" for xs by (simp add: distinct_map)
  ultimately have "distinct (map ?key S)" unfolding S_def by blast
  then have "sorted_wrt (<) (map ?key S)" using sorted_sort_key [of ?key ?L] unfolding S_def by (simp add: strict_sorted_iff)
  then show "sorted_wrt outranks S"
    unfolding sorted_wrt_map by (rule sorted_wrt_mono_rel [rotated]) (auto simp: outranks_def)
  show "e \<in> set S \<longleftrightarrow> map_of m (cn_Key e) = Some (cn_Count e)" for e
    using map_of_eq_Some_mem [OF assms(1)] by (cases e) (force simp: S_def image_iff)
qed

lemma top_entries_ranking:
  assumes "map_wf m" "mkeys m = f ` set ds" "\<And>k. count_of k m = hits f ds k"
  shows "ranking k f ds (topKEntries m k)" "length m \<le> k \<Longrightarrow> d \<in> set ds \<Longrightarrow> \<exists>e \<in> set (topKEntries m k). cn_Key e = f d"
proof -
  define S where "S = sort_key (\<lambda>e. (- cn_Count e, cn_Key e)) (map (\<lambda>(key, n). \<lparr>cn_Key = key, cn_Count = n\<rparr> :: ranked_entry) m)"
  note s = sorted_entries [OF assms(1), folded S_def]
  have top: "topKEntries m k = take k S" by (auto simp: topKEntries_def S_def Let_def)
  have entry: "cn_Count e = hits f ds (cn_Key e) \<and> 0 < cn_Count e" if "e \<in> set S" for e
  proof -
    have m: "map_of m (cn_Key e) = Some (cn_Count e)" using s(2) that by blast
    then have "cn_Count e = hits f ds (cn_Key e)" using assms(3) [of "cn_Key e"] by (simp add: count_of_def)
    moreover have "cn_Key e \<in> f ` set ds" using m assms(2) mkeys_iff by metis
    then have "0 < hits f ds (cn_Key e)" by (force simp: hits_def filter_empty_conv)
    ultimately show ?thesis by simp
  qed
  have mem: "\<lparr>cn_Key = f d, cn_Count = hits f ds (f d)\<rparr> \<in> set S" if d: "d \<in> set ds" for d
  proof -
    have "f d \<in> mkeys m" using d assms(2) by blast
    then obtain n where n: "map_of m (f d) = Some n" unfolding mkeys_iff by blast
    then have "n = hits f ds (f d)" using assms(3) [of "f d"] by (simp add: count_of_def)
    then show ?thesis using n s(2) by simp
  qed
  have rest: "(\<exists>e \<in> set (take k S). cn_Key e = f d) \<or>
      (length (take k S) = k \<and> (\<forall>e \<in> set (take k S). outranks e \<lparr>cn_Key = f d, cn_Count = hits f ds (f d)\<rparr>))" if d: "d \<in> set ds" for d
  proof (cases "\<lparr>cn_Key = f d, cn_Count = hits f ds (f d)\<rparr> \<in> set (take k S)")
    case True
    then show ?thesis by (intro disjI1 bexI [of _ "\<lparr>cn_Key = f d, cn_Count = hits f ds (f d)\<rparr>"]) simp_all
  next
    case False
    have "set S = set (take k S) \<union> set (drop k S)" by (metis append_take_drop_id set_append)
    then have out: "\<lparr>cn_Key = f d, cn_Count = hits f ds (f d)\<rparr> \<in> set (drop k S)" using mem [OF d] False by blast
    then have "k < length S" by (metis drop_all empty_iff list.set(1) not_le)
    moreover have "sorted_wrt outranks (take k S @ drop k S)" using s(1) by simp
    ultimately show ?thesis using out unfolding sorted_wrt_append by simp
  qed
  have "sorted_wrt outranks (take k S)" using s(1) by (metis append_take_drop_id sorted_wrt_append)
  then show "ranking k f ds (topKEntries m k)" unfolding top ranking_def using entry rest by (auto dest: in_set_takeD)
  show "\<exists>e \<in> set (topKEntries m k). cn_Key e = f d" if "length m \<le> k" "d \<in> set ds"
  proof -
    have "take k S = S" using that(1) by (simp add: S_def)
    then show ?thesis using mem [OF that(2)] unfolding top by (intro bexI [of _ "\<lparr>cn_Key = f d, cn_Count = hits f ds (f d)\<rparr>"]) simp_all
  qed
qed

lemma counted_ranking: "ranking k f ds (topKEntries (fold (\<lambda>d. add_count (f d) 1) ds []) k)"
  using counted [OF map_wf_Nil, where f = f and ds = ds] by (intro top_entries_ranking) (simp_all add: count_of_def)

definition row_country :: "provider option \<Rightarrow> recent_decision \<Rightarrow> string" where
  "row_country p d = ii_Country (lookup_row p (rd_IP d))"

definition located :: "provider option \<Rightarrow> recent_decision list \<Rightarrow> recent_decision list" where
  "located p ds = filter (\<lambda>d. row_country p d \<noteq> '''') ds"

lemma country_counts:
  fixes ds :: "recent_decision list"
  assumes "p \<noteq> None"
  defines "m \<equiv> country_loop p (fold (\<lambda>d. add_count (rd_IP d) 1) ds []) []"
  shows "map_wf m" "mkeys m = row_country p ` set (located p ds)" "count_of cc m = hits (row_country p) (located p ds) cc"
proof -
  let ?byIP = "fold (\<lambda>d. add_count (rd_IP d) 1) ds []"
  have e: "map_wf m \<and> mkeys m = (\<lambda>ip. ii_Country (lookup_row p ip)) ` mkeys ?byIP - {''''} \<and>
      count_of cc m = (if cc = '''' then 0 else weight (\<lambda>ip. ii_Country (lookup_row p ip) = cc) ?byIP)"
    using country_loop_exact [OF assms(1) map_wf_Nil, of ?byIP cc] by (simp add: m_def count_of_def)
  have "mkeys ?byIP = rd_IP ` set ds" using counted(2) [OF map_wf_Nil, where f = rd_IP and ds = ds] by simp
  then show "map_wf m" "mkeys m = row_country p ` set (located p ds)" using e by (auto simp: row_country_def located_def)
  have "filter (\<lambda>d. row_country p d = cc) (located p ds) = (if cc = '''' then [] else filter (\<lambda>d. row_country p d = cc) ds)"
    unfolding located_def filter_filter by (auto intro: filter_cong simp: filter_empty_conv)
  then show "count_of cc m = hits (row_country p) (located p ds) cc"
    using e weight_counted [of "\<lambda>ip. ii_Country (lookup_row p ip) = cc" rd_IP ds "[]"] by (simp add: hits_def row_country_def weight_Cons)
qed

text \<open>
  The offender ranking is exact: over the recorded decisions that are not outcomes, each of the five lists has the fifteen entries
  with the most rows, in decreasing order with ties broken by the key, every count is the number of rows of its key, and nothing left out would rank
  higher. The country list is never cut: every located row is counted in its country, whether or not its address is among the fifteen, and
  the list is left out only when no row is located.
\<close>

theorem offenders_exact:
  "\<exists>l. handleOffenders env q st = ((200, OffendersBody l), st) \<and>
     (let ds = offences (rg_list 0 (ae_ring env)); places = located (ae_intel env) ds
      in ol_window l = length ds \<and>
         ranking offenderTopK rd_IP ds (map (\<lambda>i. \<lparr>cn_Key = oi_IP i, cn_Count = oi_Count i\<rparr>) (ol_ips l)) \<and>
         ranking offenderTopK (\<lambda>d. reasonCat (rd_Reason d)) ds (ol_reasons l) \<and>
         ranking offenderTopK (\<lambda>d. normalizePath (rd_URI d)) ds (ol_paths l) \<and>
         ranking offenderTopK rd_UA ds (ol_user_agents l) \<and> ranking offenderTopK (\<lambda>d. NormalizeHost (rd_Host d)) ds (ol_hosts l) \<and>
         (case ol_countries l of
            None \<Rightarrow> places = []
          | Some es \<Rightarrow> ranking (length es) (row_country (ae_intel env)) places es \<and> (\<forall>d \<in> set places. \<exists>e \<in> set es. cn_Key e = row_country (ae_intel env) d)))"
proof -
  define ds where "ds = offences (rg_list 0 (ae_ring env))"
  define p where "p = ae_intel env"
  define byIP where "byIP = fold (\<lambda>d. add_count (rd_IP d) 1) ds []"
  define byCountry where "byCountry = (if p = None then [] else country_loop p byIP [])"
  have top: "length (topKEntries m (length m)) = length m" for m by (simp add: topKEntries_def Let_def)
  have places: "case (if byCountry = [] then None else Some (topKEntries byCountry (length byCountry))) of
      None \<Rightarrow> located p ds = []
    | Some es \<Rightarrow> ranking (length es) (row_country p) (located p ds) es \<and> (\<forall>d \<in> set (located p ds). \<exists>e \<in> set es. cn_Key e = row_country p d)"
  proof (cases "p = None")
    case True
    then show ?thesis by (simp add: byCountry_def located_def row_country_def lookup_row_def no_info_def)
  next
    case False
    note c = country_counts [OF False, where ds = ds, folded byIP_def]
    have m: "byCountry = country_loop p byIP []" using False by (auto simp: byCountry_def)
    show ?thesis using top_entries_ranking [OF c, of "length byCountry", folded m] c(2) [folded m] top [of byCountry] by auto
  qed
  define l where "l = \<lparr>ol_window = length ds,
    ol_ips = map (\<lambda>e. \<lparr>oi_IP = cn_Key e, oi_Count = cn_Count e, oi_Info = lookup_row p (cn_Key e)\<rparr>) (topKEntries byIP offenderTopK),
    ol_reasons = topKEntries (fold (\<lambda>d. add_count (reasonCat (rd_Reason d)) 1) ds []) offenderTopK,
    ol_paths = topKEntries (fold (\<lambda>d. add_count (normalizePath (rd_URI d)) 1) ds []) offenderTopK,
    ol_user_agents = topKEntries (fold (\<lambda>d. add_count (rd_UA d) 1) ds []) offenderTopK,
    ol_hosts = topKEntries (fold (\<lambda>d. add_count (NormalizeHost (rd_Host d)) 1) ds []) offenderTopK,
    ol_countries = (if byCountry = [] then None else Some (topKEntries byCountry (length byCountry)))\<rparr>"
  have reply: "handleOffenders env q st = ((200, OffendersBody l), st)"
    by (simp add: handleOffenders_def Let_def count_rows no_counts_def l_def ds_def p_def byIP_def byCountry_def rg_list_def)
  have ips: "map (\<lambda>i. \<lparr>cn_Key = oi_IP i, cn_Count = oi_Count i\<rparr>) (ol_ips l) = topKEntries byIP offenderTopK"
    by (simp add: l_def comp_def map_idI)
  show ?thesis unfolding Let_def ds_def [symmetric] p_def [symmetric]
  proof (intro exI [of _ l] conjI)
    show "ranking offenderTopK rd_IP ds (map (\<lambda>i. \<lparr>cn_Key = oi_IP i, cn_Count = oi_Count i\<rparr>) (ol_ips l))"
      unfolding ips byIP_def by (rule counted_ranking)
    show "case ol_countries l of None \<Rightarrow> located p ds = []
      | Some es \<Rightarrow> ranking (length es) (row_country p) (located p ds) es \<and> (\<forall>d \<in> set (located p ds). \<exists>e \<in> set es. cn_Key e = row_country p d)"
      using places by (simp add: l_def)
  qed (simp_all add: reply counted_ranking, simp_all add: l_def counted_ranking)
qed


section \<open>Examples\<close>

definition example_admin :: "(sharded_memory, nat) admin_env" where
  "example_admin =
     \<lparr>ae_ops = sm_ops, ae_scans = sm_scans, ae_votes = None, ae_now = 5, ae_commit = 6, ae_hash = (\<lambda>_ _. 0), ae_hold = unblockHoldWindow, ae_owner = 0,
      ae_holdGeneration = ''g0'', ae_generation = ''g1'', ae_snap = None, ae_ring = example_ring, ae_intel = None, ae_token = ''secret'', ae_keyPath = '''',
      ae_prevDir = '''', ae_powEnv = sized_env, ae_rotateErr = None, ae_disk = example_disk, ae_parseStd = (\<lambda>_. None), ae_unmarshalBlock = (\<lambda>_. None), ae_unmarshalPin = (\<lambda>_. None),
      ae_reload = None, ae_preflight = None, ae_crossOrigin = (\<lambda>_. False)\<rparr>"

definition example_put :: http_request where
  "example_put = \<lparr>hq_Host = ''localhost'', hq_Method = ''PUT'', hq_RequestURI = ''/admin/blocks/192.0.2.7'', hq_RemoteAddr = ''127.0.0.1'',
     hq_Header = [(''Authorization'', [''Bearer secret''])], hq_Query = [(''ip'', ''192.0.2.7'')], hq_Body = []\<rparr>"

lemma example_put_token: "hdr_Get (hq_Header example_put) ''Authorization'' = ''Bearer secret''"
proof -
  have "canonicalKey ''Authorization'' = ''Authorization''" by code_simp
  then show ?thesis by (simp add: example_put_def hdr_Get_def hdr_Values_def)
qed

lemma example_put_accepted:
  "\<exists>st1. adminHTTP example_admin [''admin'', ''blocks'', ''192.0.2.7''] example_put example_pipe_state =
     Some ((200, BlockedBody ''192.0.2.7'' ''admin'' (24 * hour)), st1)"
proof -
  obtain r st1 where b: "BlockIP sm_ops 5 ''192.0.2.7'' ''admin'' (24 * hour) 0 example_pipe_state = (r, st1)" by fastforce
  have "r = Inr ()" by (rule stored_block(1) [OF b]) (simp_all add: example_pipe_state_def fresh_memory_ok hour_def minute_def)
  moreover have "canonicalAdminIP ''192.0.2.7'' = Some ''192.0.2.7''" by code_simp
  moreover have "\<not> reason_refused ''admin''" by code_simp
  moreover have "block_body example_admin (hq_Body example_put) = Some ('''', '''')"
    by (simp add: block_body_def example_put_def trimSpace_def trim_with_def)
  ultimately have "handleBlock ''192.0.2.7'' example_admin example_put example_pipe_state = ((200, BlockedBody ''192.0.2.7'' ''admin'' (24 * hour)), st1)"
    using b by (simp add: handleBlock_def example_admin_def hour_def minute_def MaxStateTTL_def)
  then show ?thesis
    by (simp add: adminHTTP_def admin_routes_def admin_auth_def Let_def example_put_token hasPrefix_def)
       (simp add: example_admin_def example_put_def)
qed

theorem admin_block_is_temporary_witness:
  "\<exists>st1 d. adminHTTP example_admin [''admin'', ''blocks'', ''192.0.2.7''] example_put example_pipe_state =
       Some ((200, BlockedBody ''192.0.2.7'' ''admin'' (24 * hour)), st1) \<and>
     fst (handleBlockStatus ''192.0.2.7'' (example_admin\<lparr>ae_now := 10\<rparr>) example_put st1) = (200, DetailBody d) \<and> bd_Blocked d"
proof -
  obtain st1 where p: "adminHTTP example_admin [''admin'', ''blocks'', ''192.0.2.7''] example_put example_pipe_state =
      Some ((200, BlockedBody ''192.0.2.7'' ''admin'' (24 * hour)), st1)" using example_put_accepted by blast
  have f: "hq_Method example_put = ''PUT''" "ae_ops example_admin = sm_ops" "sm_ok (pl_store example_pipe_state)"
    by (simp_all add: example_put_def example_admin_def example_pipe_state_def fresh_memory_ok)
  obtain a reason ttl where a: "ParseAddr ''192.0.2.7'' = Some a" "BlockedBody ''192.0.2.7'' ''admin'' (24 * hour) = BlockedBody (addr_String (Unmap a)) reason ttl"
      "block_reported a reason (ae_now example_admin) (ae_now example_admin + ttl) st1"
    using admin_block_is_temporary [OF p f] unfolding if_P [OF refl] by (elim exE conjE)
  define env where "env = example_admin\<lparr>ae_now := 10\<rparr>"
  have e: "ae_ops env = sm_ops" "ae_scans env = sm_scans" "ae_now example_admin \<le> ae_now env" "ae_now env \<le> ae_now example_admin + 24 * hour"
    by (simp_all add: env_def example_admin_def hour_def minute_def)
  have "ttl = 24 * hour" using a(2) by (simp only: admin_body.inject)
  then have "\<exists>d. fst (handleBlockStatus ''192.0.2.7'' env example_put st1) = (200, DetailBody d) \<and> bd_Blocked d"
    using a(3) [unfolded block_reported_def, rule_format, OF conjI [OF a(1) conjI [OF refl conjI [OF e(1) conjI [OF e(2,3)]]]], of example_put] e(4) by metis
  with p show ?thesis unfolding env_def by metis
qed

theorem other_spelling_never_listed_witness:
  "\<exists>f. decision_filters (example_put\<lparr>hq_Query := [(''ip'', ''192.0.2.7'')]\<rparr>) = Inr f \<and>
     \<not> row_ok None f (zero_row\<lparr>rd_IP := ''::ffff:192.0.2.7''\<rparr>) \<and> row_ok None f (zero_row\<lparr>rd_IP := ''192.0.2.7''\<rparr>)"
proof -
  let ?q = "example_put\<lparr>hq_Query := [(''ip'', ''192.0.2.7'')]\<rparr>"
  have c: "canonicalAdminIP ''192.0.2.7'' = Some ''192.0.2.7''" using canonIP_example by (simp add: canonicalAdminIP_def canonIP_def example_parse)
  have "canonIP ''::ffff:192.0.2.7'' = canonIP ''192.0.2.7''" by (simp add: canonIP_def mapped_example example_parse Is4In6_def)
  then have n: "canonIP ''::ffff:192.0.2.7'' \<noteq> ''::ffff:192.0.2.7''" using canonIP_example by simp
  from c obtain f where f: "decision_filters ?q = Inr f" "dq_ip f = ''192.0.2.7''" "dq_country f = ''''" "row_filters f (zero_row\<lparr>rd_IP := ''192.0.2.7''\<rparr>)"
    by (simp add: decision_filters_def query_limit_def query_get_def query_has_def query_map_def row_filters_def Let_def)
  moreover have "\<not> row_ok None f (zero_row\<lparr>rd_IP := ''::ffff:192.0.2.7''\<rparr>)"
    by (rule other_spelling_never_listed [OF f(1)]) (use n in \<open>simp_all add: query_get_def\<close>)
  ultimately show ?thesis by (auto simp: row_ok_def)
qed

end
