(* ===== verification/Spec2Isabelle.thy ===== *)
theory Spec2Isabelle
  imports Store_Index Unblock Attack_Mode Counter_Cache Challenge_Record Http_Flow Engine_Life Health Admin_Api
begin

text \<open>
  Verification of Angie Guardian, the web application firewall and proof-of-work gate that runs beside the Angie
  proxy (Go sources under \<^verbatim>\<open>src/\<close>).

  \<^bold>\<open>The program.\<close> For every client request the proxy sends an auth subrequest to the daemon
  (\<^verbatim>\<open>transport/http/server.go\<close>). The engine (\<^verbatim>\<open>core/engine.go\<close>) resolves the settings of the host and path
  (\<^verbatim>\<open>core/config.go\<close>) and runs twelve stages (\<^verbatim>\<open>core/pipeline.go\<close>): static lists, header exemptions, verified crawlers,
  blocked addresses, intelligence, honeypot, WAF rules, access tokens, anomaly score and the final challenge. A
  challenged client is sent to a second endpoint that issues a puzzle, solves it, posts the answer to a third, and earns a
  signed cookie (\<^verbatim>\<open>core/pow\<close>). Suspicious events are counted in a shared store (\<^verbatim>\<open>core/store\<close>) and lead to blocks
  (\<^verbatim>\<open>core/scoreboard.go\<close>), which an in-process mirror serves (\<^verbatim>\<open>core/enforce\<close>); fleet-wide signals raise an attack
  posture (\<^verbatim>\<open>core/attackmode\<close>) that raises the difficulty of the puzzles. Operators look at blocks and decisions, block,
  unblock, pin the posture and reload the configuration over an admin API (\<^verbatim>\<open>transport/http/admin.go\<close>); a background probe
  of the store (\<^verbatim>\<open>core/health\<close>) answers readiness checks.

  \<^bold>\<open>Foundations.\<close>
  \<^item> \<open>Prelude\<close>, \<open>Codec\<close>, \<open>Netip\<close>: strings as bytes, association lists for Go maps, integer formatting and parsing,
    bounds-checked slices, big-endian, hexadecimal and base64 codecs, and the \<^verbatim>\<open>net/netip\<close> addresses and prefixes.

  \<^bold>\<open>Store.\<close>
  \<^item> \<open>Store_Spec\<close> (\<^verbatim>\<open>core/store/store.go\<close>): commit requests and results, the operations as a record of functions, an abstract
    map of live values as their specification, and the locales \<open>ttl_store\<close> and \<open>swept_store\<close> that state the contract.
    Every client of the store is verified against these locales.
  \<^item> \<open>Sharded_Memory\<close>, \<open>Store_Index\<close> (\<^verbatim>\<open>sharded_memory.go\<close>, \<^verbatim>\<open>expiry.go\<close>): the in-process backend with its shards, lazy expiry,
    janitor and block index; the locales are interpreted on it (\<open>mem\<close>), every trace of calls refines the specification,
    no schedule of threads that take the mutexes of its methods deadlocks, and the shard rounding returns exactly for counts up
    to \<open>2 ^ 62\<close>.
  \<^item> \<open>Counter_Cache\<close> (\<^verbatim>\<open>countercache.go\<close>): the write-behind counters as a step relation over critical sections and store
    rounds; no increment is lost or pushed twice whatever the interleaving, failures included.
  \<^item> \<open>Counter_Drain\<close> (\<^verbatim>\<open>countercache.go\<close>): the drain goroutines and flushes of several caches over one store, and the keys they
    write; the handlers' background writes are these steps.

  \<^bold>\<open>Enforcement.\<close>
  \<^item> \<open>Block_Mirror\<close>, \<open>Enforce_Manager\<close> (\<^verbatim>\<open>core/enforce/mirror.go\<close>, \<^verbatim>\<open>manager.go\<close>, \<^verbatim>\<open>enforce.go\<close>): the sharded mirror with its
    tombstones, notification and reconciliation; a stale scan never resurrects a lifted block or reaches a sink.
  \<^item> \<open>Scoreboard\<close>, \<open>Unblock\<close> (\<^verbatim>\<open>core/scoreboard.go\<close>): event counters, automatic blocks with back-off, and the protocol of
    holds and generations that makes an operator's unblock final against every racing writer.
  \<^item> \<open>Attack_Mode\<close> (\<^verbatim>\<open>core/attackmode\<close>): signal windows, votes of the peers, hysteresis and operator pins as a
    reachable-state invariant and exact decay; a fleet round in which every vote is the shared one never decays.

  \<^bold>\<open>Proof of work.\<close>
  \<^item> \<open>Challenge_Record\<close> (\<^verbatim>\<open>challenge_record.go\<close>, \<^verbatim>\<open>proof.go\<close>): the binary record; round trip, and decoding never indexes out
    of range on any bytes.
  \<^item> \<open>Pow_Keys\<close>, \<open>Pow_Tokens\<close> (\<^verbatim>\<open>key.go\<close>, \<^verbatim>\<open>tokencache.go\<close>, \<^verbatim>\<open>jwt.go\<close>): key archive, token cache, minting and verification.
  \<^item> \<open>Pow_Challenge\<close>, \<open>Pow_Stateless\<close> (\<^verbatim>\<open>challenge.go\<close>, \<^verbatim>\<open>escalation.go\<close>, \<^verbatim>\<open>stateless_challenge.go\<close>): both challenge formats; a
    challenge is spent once, and only by work or by the opted-in wait.

  \<^bold>\<open>Policy.\<close>
  \<^item> \<open>Waf_Rules\<close> (\<^verbatim>\<open>core/waf/rules.go\<close>): compilation, matching and the reloading rule cache.
  \<^item> \<open>Request_Policy\<close> (\<^verbatim>\<open>core/stateless\<close>): normalisation of paths and hosts, lists, honeypot and the store-free evaluation.
  \<^item> \<open>Header_Exempt\<close> (\<^verbatim>\<open>core/headerexempt\<close>): header predicates and their verifier.
  \<^item> \<open>Domain_Config\<close> (\<^verbatim>\<open>core/config.go\<close>): the settings of a scope, their validation, path overlays and derived sets.
  \<^item> \<open>Ip_Ranges\<close>, \<open>Intel_Feeds\<close> (\<^verbatim>\<open>core/intel\<close>, \<^verbatim>\<open>internal/safefile\<close>): parsed address lists as merged ranges, reputation feeds with
    their cache and refresh rounds, the GeoIP files and the provider over both; a lookup is exact, and a feed that lists something
    never loses its list to a failed or empty fetch.
  \<^item> \<open>Durations\<close> (\<^verbatim>\<open>internal/duration\<close>): durations with days, weeks, months and years at 64 bits; an accepted text never wraps
    and means what it spells, and printing whole days reads back.
  \<^item> \<open>Bot_Verify\<close> (\<^verbatim>\<open>core/botverify\<close>): crawler identities by confirmed reverse DNS, through two caches.

  \<^bold>\<open>Composition.\<close>
  \<^item> \<open>Pipeline\<close> (\<^verbatim>\<open>core/pipeline.go\<close>, \<^verbatim>\<open>core/engine.go\<close>): the stages, the evaluation, event recording, the operator block
    and the overload gate. A stage is a function of the environment, the request and the state that returns an error, no
    decision or a decision.
  \<^item> \<open>Http_Refusal\<close> (\<^verbatim>\<open>accept.go\<close>, \<^verbatim>\<open>fetchdest.go\<close>, \<^verbatim>\<open>headers.go\<close>), \<open>Recent_Ring\<close> (\<^verbatim>\<open>core/recent.go\<close>), \<open>Http_Server\<close>
    (\<^verbatim>\<open>server.go\<close>), \<open>Http_Flow\<close>: who is refused a puzzle, the live ring of decisions, every guard handler on the server state,
    and the journeys of a client across handlers and replicas.
  \<^item> \<open>Engine_Life\<close> (\<^verbatim>\<open>core/engine.go\<close>): configuration snapshots with their reference counts under every interleaving, loading, reload
    and close; a failed reload changes nothing and a successful one keeps what the feeds list.
  \<^item> \<open>Engine_Admin\<close> (\<^verbatim>\<open>core/engine.go\<close>): the operator's unblock with every counter it resets, and the block queries; the address is
    served again at once and both views of the blocks agree.
  \<^item> \<open>Health\<close> (\<^verbatim>\<open>core/health/health.go\<close>, the readiness answer of \<^verbatim>\<open>admin.go\<close>): probes, abandoned attempts and the staleness timer as a
    step relation whose steps happen at most a slack late; a ready answer rests on a recent round trip.
  \<^item> \<open>Admin_Api\<close> (\<^verbatim>\<open>transport/http/admin.go\<close>): the bearer check and the block, decision, offender, key, reload, posture and intel
    endpoints; a manual block is reported as acknowledged and ends, the decision feed is the filtered ring, the ranking is exact.
  \<^item> This theory: the engine composed with the crawler verifier.

  \<^bold>\<open>What the properties show.\<close> A block placed by an operator denies, an unblock is final; a token never outweighs a
  denial and the overload gate passes only what the pipeline would; exemptions are backed by evidence; a
  challenge is redeemed once, by work, and a solved page earns its cookie; the second hop obeys the first; traffic that says
  nothing about a client never scores it, not through a background write either; difficulties, redirects, rate limits and admission counts stay within bounds;
  the optimised routines (mirror, ring, rule cache, lazy match input, Accept scan, merged ranges) agree with what they stand
  for; reloads, feed refreshes, readiness answers and the operator's calls keep what they promise when a step fails.

  \<^bold>\<open>Idealisations.\<close> Durations and times are integers in nanoseconds; a sum of a time and a lifetime is assumed to
  fit in 64 bits. Floating-point settings are rationals. Case folding and trimming are those of ASCII. A call reads the
  clock and the configuration once. A store round that fails is not applied. A drain goroutine that a handler starts runs after the handler
  (\<open>Counter_Drain\<close>), not beside it. Counters and lengths keep their machine width
  where they can overflow (\<open>wrap64\<close>, words); the write-behind counts of one window are unbounded.
  The loops are structural or have a measure, but for the shard rounding, which may not end and returns an option; there is no fuel.
  A redemption's admission hooks are pure in the model: which one ran is found by asking whether its refusal
  would have ended the redemption.

  \<^bold>\<open>Parameters.\<close> Code outside the repository is an argument: hash and MAC functions, Argon2id, JWT signing and parsing, the JSON and YAML
  decoders, the regular-expression engine, DNS answers, the GeoIP decoder, the replies of feed servers and the contents of files,
  the anomaly score, the media-type parser, the standard duration parser, the cross-origin check and random bytes. What a theorem needs of them is a named hypothesis (for example that a signature verifies under its own
  key), and each has a concrete instance in a witness.

  \<^bold>\<open>Not modelled.\<close> Metrics, logs and pools; the network and file I/O around the parts above (the Redis, Pebble and BuntDB backends,
  the kernel sink, the transfer of feeds, key and model files); YAML decoding and inheritance and the configuration sections of
  those parts; the anomaly model and its trainer; the admin views over the metrics registry and the models, the configuration dump,
  the offload status and the diagnostics archive; signed identifiers, which nothing uses; the WASM ABI; page templates; the
  daemon's start-up and the command-line tools.
  The in-process store is the backend the properties are proved on; the other backends would be further
  interpretations of \<open>ttl_store\<close>.
\<close>

section \<open>The engine on the crawler verifier\<close>

text \<open>
  C3 (safety). The overload gate admits nothing the pipeline would refuse: a request it fast-passes, for a
  parseable address on a daemon with an enforcement mirror, is one the full evaluation allows in the same state,
  with the crawler verifier in any state and whatever the DNS would answer; except that a client exempt from proof
  of work may carry an anomaly score that the evaluation, which then ignores its token, denies.
\<close>

theorem shed_pass_is_allowed:
  assumes "ShedDecision (Some cfg) env req st = (ShedPass, stS)" "eng_Evaluate (Some cfg) env req st = (d, st')"
    and "ParseAddr (ctx_RemoteAddr req) \<noteq> None" "pl_enforcer st \<noteq> None"
    and "se_bots env = Some (\<lambda>ip o1. fst (Verify (se_ops env) reader hash rv slot (se_now env) ip o1 v))"
    and "se_botsCached env = (\<lambda>ip. LookupCached hash contended (se_now env) ip v)"
  shows "dc_Action d = ActionAllow \<or> dc_PoWExemption d \<noteq> '''' \<and> dc_Action d = ActionDeny \<and> dc_Reason d = ''anomaly:deny''"
  using shed_pass_allowed [OF assms(1-5)] cached_is_verified assms(6) by metis

theorem shed_pass_is_allowed_witness:
  "dc_Action (fst (eng_Evaluate (Some (uniform_config (validated_cfg no_list))) allowing_env sample_request example_pipe_state)) \<in> {ActionAllow, ActionDeny}"
proof -
  obtain stS where s: "ShedDecision (Some (uniform_config (validated_cfg no_list))) allowing_env sample_request example_pipe_state = (ShedPass, stS)"
    using example_shed_pass by blast
  have "ParseAddr (ctx_RemoteAddr sample_request) \<noteq> None" "pl_enforcer example_pipe_state \<noteq> None"
    by (simp_all add: example_facts example_pipe_state_def)
  moreover have "se_bots allowing_env = Some (\<lambda>ip o1. fst (Verify (se_ops allowing_env) (Some sm_GetWithExpiry) (\<lambda>_. 0) example_resolver True (se_now allowing_env) ip o1 fresh_verifier))"
      "se_botsCached allowing_env = (\<lambda>ip. LookupCached (\<lambda>_. 0) False (se_now allowing_env) ip fresh_verifier)"
    by (simp_all add: allowing_env_def example_stage_env_def)
  ultimately have "dc_Action (fst (eng_Evaluate (Some (uniform_config (validated_cfg no_list))) allowing_env sample_request example_pipe_state)) = ActionAllow \<or>
      dc_Action (fst (eng_Evaluate (Some (uniform_config (validated_cfg no_list))) allowing_env sample_request example_pipe_state)) = ActionDeny"
    using shed_pass_is_allowed [OF s prod.collapse [symmetric]] by blast
  then show ?thesis by blast
qed

text \<open>
  C4 (safety). The crawler exemption is never granted on a claimed name alone: when the engine exempts a request
  from proof of work as a verified crawler, the user agent names that crawler of the request's scope, and a PTR name of
  the client's own address, in one of the crawler's domains, was forward-confirmed to that address at most the scope's
  cache lifetime before, however many caches the identity went through.
\<close>

theorem crawler_exemption_is_confirmed:
  assumes "eng_Evaluate (Some cfg) env req st = (d, st')" "dc_PoWExemption d = ''verified_bot:'' @ n"
    and "se_bots env = Some (\<lambda>ip o1. fst (Verify sm_ops (Some sm_GetWithExpiry) hash rv slot (se_now env) ip o1 v))"
    and "bv_reach sm_ops sm_live sm_ok (Some sm_GetWithExpiry) hash t0 v H" "t0 \<le> se_now env" "valid_names rv"
  shows "\<exists>b \<in> set (vb_Bots (dm_VerifiedBots (scopeForRequest cfg req))). bt_Name b = n \<and>
    (\<exists>needle \<in> set (bt_uasLower b). contains_str (LowerUA req) needle) \<and>
    (\<exists>dom \<in> set (bt_domainsLower b). \<exists>h t rv' ip' opts a a'. (h = dom \<or> hasSuffix h (CHR ''.'' # dom)) \<and>
       (t, rv', ip', opts) \<in> history_after sm_ops (Some sm_GetWithExpiry) hash rv slot (se_now env) (ctx_RemoteAddr req)
         (bot_opts (dm_VerifiedBots (scopeForRequest cfg req))) v H \<and>
       t \<le> se_now env \<and> se_now env \<le> t + bo_CacheTTL (with_defaults opts) \<and>
       ParseAddr (ctx_RemoteAddr req) = Some a \<and> ParseAddr ip' = Some a' \<and> Unmap a' = Unmap a \<and> forward_confirmed rv' ip' (Unmap a) h)"
proof -
  let ?vb = "dm_VerifiedBots (scopeForRequest cfg req)"
  define res where "res = fst (Verify sm_ops (Some sm_GetWithExpiry) hash rv slot (se_now env) (ctx_RemoteAddr req) (bot_opts ?vb) v)"
  obtain b where b: "vb_match ?vb (LowerUA req) = Some b" "MatchesDomains res (bt_domainsLower b)" "n = bt_Name b"
    using evaluate_source [OF assms(1)] assms(2,3) by (auto simp: exempt_source_def res_def)
  obtain needle where "b \<in> set (vb_Bots ?vb)" "needle \<in> set (bt_uasLower b)" "contains_str (LowerUA req) needle"
    using b(1) by (auto simp: vb_match_def find_Some_iff list_ex_iff split: if_splits)
  moreover obtain h dom where h: "h \<in> set (br_Hostnames res)" "dom \<in> set (bt_domainsLower b)" "h = dom \<or> hasSuffix h (CHR ''.'' # dom)"
    using b(2) by (auto simp: MatchesDomains_def list_ex_iff)
  moreover note memx.identity_fresh [OF assms(4-6) prod.collapse [symmetric] h(1) [unfolded res_def]]
  ultimately show ?thesis using b(3) by blast
qed

definition crawler_request :: request_context where
  "crawler_request = sample_request\<lparr>ctx_UserAgent := ''googlebot''\<rparr>"

lemma crawler_facts:
  "ParseAddr (ctx_RemoteAddr crawler_request) = Some (AddrV4 [192, 0, 2, 7])" "LowerUA crawler_request = ''googlebot''"
  "ctx_RemoteAddr crawler_request = ''192.0.2.7''" "MatchAllowlist crawler_request no_list = ''''" "CheckDenylist crawler_request no_list = None"
  "vb_match crawler_bots ''googlebot'' = Some (hd (vb_Bots crawler_bots))" "bt_Name (hd (vb_Bots crawler_bots)) = ''g''"
  "MatchesDomains \<lparr>br_Status = StatusConfirmed, br_Hostnames = [''crawl.googlebot.com'']\<rparr> (bt_domainsLower (hd (vb_Bots crawler_bots)))"
proof -
  have "suffix ''.googlebot.com'' ''crawl.googlebot.com''" by (rule suffixI [of _ "''crawl''"]) simp
  then show "MatchesDomains \<lparr>br_Status = StatusConfirmed, br_Hostnames = [''crawl.googlebot.com'']\<rparr> (bt_domainsLower (hd (vb_Bots crawler_bots)))"
    by (simp add: MatchesDomains_def crawler_bots_def hasSuffix_def)
  show "ParseAddr (ctx_RemoteAddr crawler_request) = Some (AddrV4 [192, 0, 2, 7])" using example_facts(1) by (simp add: crawler_request_def)
qed (simp_all add: crawler_request_def sample_request_def LowerUA_def example_lower MatchAllowlist_def CheckDenylist_def parsed_match_def MatchIP_def
    MatchUALower_def lc_MatchPath_def MatchPathList_def vb_match_def crawler_bots_def contains_str_def sublist_code example_addr_parse)

lemma crawler_verify:
  "fst (Verify sm_ops (Some sm_GetWithExpiry) (\<lambda>_. 0) example_resolver True 30 ''192.0.2.7'' o1 fresh_verifier) =
     \<lparr>br_Status = StatusConfirmed, br_Hostnames = [''crawl.googlebot.com'']\<rparr>"
  by (rule example_verify)

lemma crawler_exempted:
  "\<exists>d st'. eng_Evaluate (Some (uniform_config (validated_cfg no_list))) allowing_env crawler_request example_pipe_state = (d, st') \<and>
     dc_PoWExemption d = ''verified_bot:g''"
proof -
  let ?cfg = "uniform_config (validated_cfg no_list)"
  define env where "env = request_env ?cfg allowing_env crawler_request example_pipe_state"
  have dc: "dm_Allowlist (validated_cfg no_list) = no_list" "dm_Denylist (validated_cfg no_list) = no_list"
      "dm_VerifiedBots (validated_cfg no_list) = crawler_bots" "\<not> hp_Enabled (dm_Honeypot (validated_cfg no_list))"
      "\<not> pw_Enabled (dm_PoW (validated_cfg no_list))"
    by (simp_all add: validated_cfg_def plain_domain_def)
  have env: "se_domain env = validated_cfg no_list" "se_intel env = None" "se_now env = 30"
      "se_bots env = Some (\<lambda>ip o1. fst (Verify sm_ops (Some sm_GetWithExpiry) (\<lambda>_. 0) example_resolver True 30 ip o1 fresh_verifier))"
    by (simp_all add: env_def request_env_def allowing_env_def example_stage_env_def)
  have st: "fresh_memo (example_pipe_state\<lparr>pl_attack := map_option am_Evaluated (pl_attack example_pipe_state)\<rparr>) = example_pipe_state"
      "pl_enforcer example_pipe_state = Some synced_manager"
    by (simp_all add: fresh_memo_def example_pipe_state_def)
  have lk: "mg_Lookup 30 ''192.0.2.7'' (Some synced_manager) = None" using synced_simps(1) [of 30] by (simp add: sample_request_def)
  have "\<exists>s. run_stages early_stages env crawler_request example_pipe_state = (None, s) \<and> pl_powExemption s = ''verified_bot:g''"
    by (auto simp: early_stages_def allowlistStage_def headerPoWExemptionStage_def denylistStage_def verifiedBotStage_def intelDenyStage_def
        behaviourBlockStage_def honeypotStage_def CheckHoneypot_def powExempt_def headerPoWExempt_def classifyBotIdentity_def crawler_facts
        example_addr_parse crawler_verify synced_simps lk dc env st Let_def)
  then obtain s where s: "run_stages early_stages env crawler_request example_pipe_state = (None, s)" "pl_powExemption s = ''verified_bot:g''" by blast
  have w: "\<exists>x s'. wafRulesStage env crawler_request s = (Inr (Some x), s') \<and> pl_powExemption s' = ''verified_bot:g''"
    using s(2) by (auto simp: wafRulesStage_def Let_def env_def request_env_def allowing_env_def validated_cfg_def plain_domain_def rc_Get_def powExempt_def
        MatchEnforcing_def challenge_rule_def rule_matches_def BuildMatchInput_def NeedsMethod_def HeaderTargets_def crawler_request_def sample_request_def example_lowers)
  then obtain x s' where w: "wafRulesStage env crawler_request s = (Inr (Some x), s')" "pl_powExemption s' = ''verified_bot:g''" by blast
  then have run: "run_stages stages env crawler_request example_pipe_state = (Some x, s')"
    using s(1) by (simp add: stages_split run_stages_append)
  have ib: "\<not> ib_Enabled (dm_IPBehaviour (se_domain env))" by (simp add: env validated_cfg_def plain_domain_def)
  show ?thesis using run w(2) ib by (simp add: eng_Evaluate_def Let_def st env_def [symmetric] recordEvents_def)
qed

theorem crawler_exemption_is_confirmed_witness:
  "\<exists>b \<in> set (vb_Bots crawler_bots). bt_Name b = ''g'' \<and> (\<exists>needle \<in> set (bt_uasLower b). contains_str (LowerUA crawler_request) needle)"
proof -
  obtain d st' where d: "eng_Evaluate (Some (uniform_config (validated_cfg no_list))) allowing_env crawler_request example_pipe_state = (d, st')"
      "dc_PoWExemption d = ''verified_bot:'' @ ''g''" using crawler_exempted by auto
  have "bv_reach sm_ops sm_live sm_ok (Some sm_GetWithExpiry) (\<lambda>_. 0) 0 fresh_verifier {}"
    by (rule bv_start) (simp_all add: fresh_memory_ok fresh_memory_live)
  moreover have "se_bots allowing_env = Some (\<lambda>ip o1. fst (Verify sm_ops (Some sm_GetWithExpiry) (\<lambda>_. 0) example_resolver True (se_now allowing_env) ip o1 fresh_verifier))"
      "0 \<le> se_now allowing_env" by (simp_all add: allowing_env_def example_stage_env_def)
  ultimately have "\<exists>b \<in> set (vb_Bots (dm_VerifiedBots (scopeForRequest (uniform_config (validated_cfg no_list)) crawler_request))). bt_Name b = ''g'' \<and>
      (\<exists>needle \<in> set (bt_uasLower b). contains_str (LowerUA crawler_request) needle)"
    using crawler_exemption_is_confirmed [OF d _ _ _ example_valid] by blast
  then show ?thesis by (simp add: validated_cfg_def)
qed

end
